(* ===== verification/Ember_Prelude.thy ===== *)
theory Ember_Prelude
  imports Main "HOL-Library.Word" "HOL-Library.AList" "HOL-Library.Multiset" "HOL-Library.Sublist"
begin

text \<open>
  Shared vocabulary of the development: the names of Go's integer types, Go maps as
  association lists, panics as values, and the generic facts on bit masks, circular
  buffers, association lists and lists that the components use.

  Conventions.
  \<^item> An \<open>int\<close> of the source whose value stays within a slice's length is a HOL \<open>int\<close>;
    an \<open>int64\<close>, \<open>uint64\<close> that can wrap is a \<open>64 word\<close>.
  \<^item> A Go map is an association list with distinct keys (\<open>gomap\<close>). The order of the list is
    the order in which one \<open>range\<close> loop visits the map; statements hold for every list, so
    they do not depend on that order.
  \<^item> A panic is a value of type \<open>go_panic\<close>, the left side of a sum.
\<close>

unbundle bit_operations_syntax

section \<open>Types\<close>

type_synonym u64 = "64 word"
type_synonym ('k, 'v) gomap = "('k \<times> 'v) list"

datatype go_panic = Go_Panic string

text \<open>\<open>if err != nil { return ..., err }\<close>: continue with the value, or return the error.\<close>

definition and_then :: "'e + 'a \<Rightarrow> ('a \<Rightarrow> 'e + 'b) \<Rightarrow> 'e + 'b" where
  "and_then r f = (case r of Inl e \<Rightarrow> Inl e | Inr x \<Rightarrow> f x)"

definition gm_wf :: "('k, 'v) gomap \<Rightarrow> bool" where
  "gm_wf m \<longleftrightarrow> distinct (map fst m)"

abbreviation gm_get :: "('k, 'v) gomap \<Rightarrow> 'k \<Rightarrow> 'v option" where
  "gm_get m k \<equiv> map_of m k"

abbreviation gm_set :: "('k, 'v) gomap \<Rightarrow> 'k \<Rightarrow> 'v \<Rightarrow> ('k, 'v) gomap" where
  "gm_set m k v \<equiv> AList.update k v m"

abbreviation gm_del :: "('k, 'v) gomap \<Rightarrow> 'k \<Rightarrow> ('k, 'v) gomap" where
  "gm_del m k \<equiv> AList.delete k m"

abbreviation gm_keys :: "('k, 'v) gomap \<Rightarrow> 'k list" where
  "gm_keys m \<equiv> map fst m"

named_theorems ring_simps "index arithmetic of circular buffers"
named_theorems inv_defs "definitions of the components' invariants"

lemma and_then_simps [simp]:
  "and_then (Inl e) f = Inl e" "and_then (Inr x) f = f x"
  by (simp_all add: and_then_def)

lemma and_then_eq_Inr [simp]: "and_then r f = Inr y \<longleftrightarrow> (\<exists>x. r = Inr x \<and> f x = Inr y)"
  by (cases r) simp_all

section \<open>Strings\<close>

text \<open>Functions of the package \<open>strings\<close>, for ASCII text. \<open>split_by\<close> splits at every character of a kind, like \<open>Split\<close>; the fields are the parts that are not empty.\<close>

definition to_lower_char :: "char \<Rightarrow> char" where
  "to_lower_char c = (let n = of_char c :: nat in if 65 \<le> n \<and> n \<le> 90 then char_of (n + 32) else c)"

definition ToLower :: "string \<Rightarrow> string" where
  "ToLower s = map to_lower_char s"

definition is_space :: "char \<Rightarrow> bool" where
  "is_space c = (let n = of_char c :: nat in n = 32 \<or> 9 \<le> n \<and> n \<le> 13)"

definition TrimSpace :: "string \<Rightarrow> string" where
  "TrimSpace s = rev (dropWhile is_space (rev (dropWhile is_space s)))"

fun split_by :: "(char \<Rightarrow> bool) \<Rightarrow> string \<Rightarrow> string list" where
  "split_by f [] = [[]]"
| "split_by f (c # cs) = (if f c then [] # split_by f cs else (case split_by f cs of [] \<Rightarrow> [[c]] | w # ws \<Rightarrow> (c # w) # ws))"

definition FieldsFunc :: "(char \<Rightarrow> bool) \<Rightarrow> string \<Rightarrow> string list" where
  "FieldsFunc f s = filter (\<lambda>w. w \<noteq> []) (split_by f s)"

section \<open>Go's truncated division\<close>

definition go_div :: "int \<Rightarrow> int \<Rightarrow> int" where
  "go_div a b = sgn a * sgn b * (\<bar>a\<bar> div \<bar>b\<bar>)"

definition go_mod :: "int \<Rightarrow> int \<Rightarrow> int" where
  "go_mod a b = a - b * go_div a b"

lemma go_div_nonneg: "0 \<le> a \<Longrightarrow> 0 < b \<Longrightarrow> go_div a b = a div b"
  by (simp add: go_div_def sgn_if)

lemma go_mod_nonneg: "0 \<le> a \<Longrightarrow> 0 < b \<Longrightarrow> go_mod a b = a mod b"
  by (simp add: go_mod_def go_div_nonneg minus_mult_div_eq_mod)

lemma go_mod_abs: "go_mod a b = sgn a * (\<bar>a\<bar> mod \<bar>b\<bar>)"
proof -
  have "\<bar>a\<bar> mod \<bar>b\<bar> = \<bar>a\<bar> - \<bar>b\<bar> * (\<bar>a\<bar> div \<bar>b\<bar>)"
    by (simp add: minus_mult_div_eq_mod)
  then have "sgn a * (\<bar>a\<bar> mod \<bar>b\<bar>) = sgn a * \<bar>a\<bar> - sgn a * (\<bar>b\<bar> * (\<bar>a\<bar> div \<bar>b\<bar>))"
    by (simp add: right_diff_distrib)
  also have "sgn a * \<bar>a\<bar> = a" by (simp add: sgn_mult_abs)
  also have "sgn a * (\<bar>b\<bar> * (\<bar>a\<bar> div \<bar>b\<bar>)) = b * go_div a b"
    by (simp add: go_div_def abs_sgn mult.assoc mult.left_commute)
  finally show ?thesis by (simp add: go_mod_def)
qed

section \<open>Bit masks\<close>

lemma int_and_pow2_mask [ring_simps]: "x AND (2 ^ k - 1) = x mod 2 ^ k" for x :: int
  by (simp add: mask_eq_exp_minus_1 [symmetric] take_bit_eq_mask [symmetric] take_bit_eq_mod)

lemma unat_and_pow2_mask:
  fixes w :: "64 word"
  assumes "k < 64"
  shows "unat (w AND of_nat (2 ^ k - 1)) = unat w mod 2 ^ k"
proof -
  have "(of_nat (2 ^ k - 1) :: 64 word) = mask k"
    by (simp add: mask_eq_exp_minus_1 of_nat_diff)
  then have "w AND of_nat (2 ^ k - 1) = take_bit k w"
    by (simp add: take_bit_eq_mask)
  then have "unat (w AND of_nat (2 ^ k - 1)) = take_bit k (unat w)"
    by (simp add: unsigned_take_bit_eq)
  then show ?thesis by (simp add: take_bit_eq_mod)
qed

lemma unat_add_mod_pow2:
  fixes w :: "64 word"
  assumes "k < 64"
  shows "unat (w + of_nat i) mod 2 ^ k = (unat w + i) mod 2 ^ k"
proof -
  have "(2::nat) ^ k dvd 2 ^ 64"
    using assms by (intro le_imp_power_dvd) simp
  then have "((unat w + i) mod 2 ^ 64) mod 2 ^ k = (unat w + i) mod 2 ^ k"
    by (rule mod_mod_cancel)
  moreover have "unat (w + of_nat i) = (unat w + i) mod 2 ^ 64"
    by (simp add: unat_word_ariths unat_of_nat mod_add_right_eq)
  ultimately show ?thesis by (simp only:)
qed

section \<open>Circular buffers\<close>

text \<open>
  \<open>ring_list b h n\<close> reads \<open>n\<close> consecutive slots of the buffer \<open>b\<close>, from position \<open>h\<close> on,
  wrapping around at the end. It is the abstraction function of every ring buffer below.
\<close>

definition ring_list :: "'a list \<Rightarrow> nat \<Rightarrow> nat \<Rightarrow> 'a list" where
  "ring_list b h n = map (\<lambda>i. b ! ((h + i) mod length b)) [0..<n]"

lemma length_ring_list [simp]: "length (ring_list b h n) = n"
  by (simp add: ring_list_def)

lemma ring_list_0 [simp]: "ring_list b h 0 = []"
  by (simp add: ring_list_def)

lemma ring_list_eq_Nil [simp]: "ring_list b h n = [] \<longleftrightarrow> n = 0"
  by (simp add: ring_list_def)

lemma nth_ring_list [simp]: "i < n \<Longrightarrow> ring_list b h n ! i = b ! ((h + i) mod length b)"
  by (simp add: ring_list_def)

lemma ring_list_mod: "ring_list b (h mod length b) n = ring_list b h n"
  by (simp add: ring_list_def mod_add_left_eq)

lemma ring_list_Suc: "ring_list b h (Suc n) = b ! (h mod length b) # ring_list b (Suc h) n"
  by (rule nth_equalityI) (auto simp: nth_Cons split: nat.splits)

lemma ring_list_snoc: "ring_list b h (Suc n) = ring_list b h n @ [b ! ((h + n) mod length b)]"
  by (simp add: ring_list_def)

lemma ring_list_hd: "0 < n \<Longrightarrow> hd (ring_list b h n) = b ! (h mod length b)"
  by (cases n) (simp_all add: ring_list_Suc)

lemma ring_list_tl: "tl (ring_list b h n) = ring_list b (Suc h) (n - 1)"
  by (cases n) (simp_all add: ring_list_Suc)

lemma ring_list_last: "0 < n \<Longrightarrow> last (ring_list b h n) = b ! ((h + (n - 1)) mod length b)"
  by (cases n) (simp_all add: ring_list_snoc)

lemma ring_list_butlast: "butlast (ring_list b h n) = ring_list b h (n - 1)"
  by (cases n) (simp_all add: ring_list_snoc)

lemma mod_add_inj:
  fixes h i j n :: nat
  assumes "(h + i) mod n = (h + j) mod n" "i < n" "j < n"
  shows "i = j"
proof -
  have aux: "y = x" if "(h + x) mod n = (h + y) mod n" "x < n" "y < n" "x \<le> y" for x y
  proof -
    have "n dvd (h + y) - (h + x)"
      using that(1,4) mod_eq_dvd_iff_nat [of "h + x" "h + y" n] by simp
    then have "n dvd y - x" by simp
    with that show ?thesis by (auto dest: dvd_imp_le)
  qed
  show ?thesis
  proof (cases "i \<le> j")
    case True
    from aux [OF assms True] show ?thesis by (rule sym)
  next
    case False
    then have "j \<le> i" by simp
    from aux [OF assms(1) [symmetric] assms(3,2) this] show ?thesis .
  qed
qed

lemma ring_list_update_outside:
  assumes "n \<le> m" "m < length b"
  shows "ring_list (b[(h + m) mod length b := x]) h n = ring_list b h n"
proof (rule nth_equalityI)
  fix i assume "i < length (ring_list (b[(h + m) mod length b := x]) h n)"
  then have i: "i < n" by simp
  then have "(h + m) mod length b \<noteq> (h + i) mod length b"
    using mod_add_inj [of h m "length b" i] assms by auto
  with i show "ring_list (b[(h + m) mod length b := x]) h n ! i = ring_list b h n ! i"
    by simp
qed simp

lemma ring_list_update_inside:
  assumes "i < n" "n \<le> length b"
  shows "ring_list (b[(h + i) mod length b := x]) h n = (ring_list b h n)[i := x]"
proof (rule nth_equalityI)
  fix j assume "j < length (ring_list (b[(h + i) mod length b := x]) h n)"
  then have j: "j < n" by simp
  show "ring_list (b[(h + i) mod length b := x]) h n ! j = (ring_list b h n)[i := x] ! j"
  proof (cases "i = j")
    case True
    moreover have "0 < length b" using j assms by linarith
    then have "(h + j) mod length b < length b" by (rule mod_less_divisor)
    ultimately show ?thesis using j by simp
  next
    case False
    then have "(h + i) mod length b \<noteq> (h + j) mod length b"
      using mod_add_inj [of h i "length b" j] assms j by auto
    then show ?thesis using j False by simp
  qed
qed simp

lemma ring_list_snoc_update:
  assumes "n < length b"
  shows "ring_list (b[(h + n) mod length b := x]) h (Suc n) = ring_list b h n @ [x]"
proof -
  have "0 < length b" using assms by linarith
  then have "(h + n) mod length b < length b" by (rule mod_less_divisor)
  then show ?thesis
    using assms ring_list_update_outside [of n n b h x] by (simp add: ring_list_snoc)
qed

lemma ring_list_clear_head:
  assumes "0 < n" "n \<le> length b"
  shows "ring_list (b[h mod length b := x]) (Suc h) (n - 1) = tl (ring_list b h n)"
proof -
  have "(h + 0) mod length b = h mod length b" by simp
  then have "ring_list (b[h mod length b := x]) h n = (ring_list b h n)[0 := x]"
    using ring_list_update_inside [of 0 n b h x] assms by simp
  then have "tl (ring_list (b[h mod length b := x]) h n) = tl ((ring_list b h n)[0 := x])"
    by simp
  then show ?thesis
    by (cases "ring_list b h n") (simp_all add: ring_list_tl)
qed

lemma ring_list_whole: "h \<le> length b \<Longrightarrow> ring_list b h (length b) = drop h b @ take h b"
proof (rule nth_equalityI)
  assume h: "h \<le> length b"
  then show "length (ring_list b h (length b)) = length (drop h b @ take h b)" by simp
  fix i assume "i < length (ring_list b h (length b))"
  then have i: "i < length b" by simp
  show "ring_list b h (length b) ! i = (drop h b @ take h b) ! i"
  proof (cases "h + i < length b")
    case True
    then have "i < length b - h" by linarith
    with True i h show ?thesis by (simp add: nth_append)
  next
    case False
    then have "(h + i) mod length b = (h + i - length b) mod length b"
      by (intro le_mod_geq) simp
    also have "\<dots> = h + i - length b" using i h by (intro mod_less) linarith
    finally have "(h + i) mod length b = h + i - length b" .
    moreover have "\<not> i < length b - h" using False by linarith
    ultimately show ?thesis using i h by (simp add: nth_append add.commute)
  qed
qed

lemma ring_list_take: "k \<le> n \<Longrightarrow> take k (ring_list b h n) = ring_list b h k"
  by (rule nth_equalityI) auto

lemma ring_list_drop: "drop k (ring_list b h n) = ring_list b (h + k) (n - k)"
  by (rule nth_equalityI) (auto simp: add.assoc)

section \<open>Association lists\<close>

lemma gm_wf_Nil [simp]: "gm_wf []"
  by (simp add: gm_wf_def)

lemma gm_wf_set [simp]: "gm_wf m \<Longrightarrow> gm_wf (gm_set m k v)"
  by (simp add: gm_wf_def distinct_update)

lemma gm_wf_del [simp]: "gm_wf m \<Longrightarrow> gm_wf (gm_del m k)"
  by (simp add: gm_wf_def distinct_delete)

lemma gm_get_set: "gm_get (gm_set m k v) k' = (if k' = k then Some v else gm_get m k')"
  by (simp add: update_conv')

lemma gm_get_del: "gm_get (gm_del m k) k' = (if k' = k then None else gm_get m k')"
  by (simp add: delete_conv')

lemma gm_get_in: "gm_wf m \<Longrightarrow> gm_get m k = Some v \<longleftrightarrow> (k, v) \<in> set m"
  by (simp add: gm_wf_def)

lemma gm_get_keys: "k \<in> set (gm_keys m) \<longleftrightarrow> (\<exists>v. gm_get m k = Some v)"
  by (induction m) auto

lemma gm_get_mem: "gm_get m k = Some v \<Longrightarrow> (k, v) \<in> set m"
  by (rule map_of_SomeD)

lemma gm_keys_set: "gm_get m k \<noteq> None \<Longrightarrow> gm_keys (gm_set m k v) = gm_keys m"
  by (induction m) auto

lemma gm_set_fresh: "k \<notin> fst ` set m \<Longrightarrow> gm_set m k v = m @ [(k, v)]"
  by (induction m) auto

lemma gm_set_mem: "(k', v') \<in> set (gm_set m k v) \<Longrightarrow> (k', v') = (k, v) \<or> (k', v') \<in> set m"
  by (induction m) (auto split: if_splits)

text \<open>The effect of an update on a total over all values of a map.\<close>

lemma gm_sum_set:
  fixes f :: "'v \<Rightarrow> 'b :: comm_monoid_add"
  assumes "gm_get m k = Some v"
  shows "sum_list (map (\<lambda>kv. f (snd kv)) (gm_set m k v')) + f v = sum_list (map (\<lambda>kv. f (snd kv)) m) + f v'"
  using assms
proof (induction m)
  case (Cons kv m)
  show ?case
  proof (cases "fst kv = k")
    case True
    then show ?thesis using Cons(2) by (cases kv) (simp add: ac_simps)
  next
    case False
    then have "gm_get m k = Some v" using Cons(2) by (cases kv) simp
    from Cons.IH [OF this] False show ?thesis by (cases kv) (simp add: add.assoc)
  qed
qed simp

section \<open>Sums over lists\<close>

lemma sum_list_map_update:
  fixes f :: "'a \<Rightarrow> 'b::comm_monoid_add"
  shows "i < length ps \<Longrightarrow> sum_list (map f (ps[i := p])) + f (ps ! i) = sum_list (map f ps) + f p"
  by (induction ps arbitrary: i) (auto simp: nth_Cons add_ac split: nat.splits)

lemma sum_list_map_remove:
  fixes f :: "'a \<Rightarrow> 'b::comm_monoid_add"
  shows "i < length ps \<Longrightarrow> sum_list (map f (take i ps @ drop (Suc i) ps)) + f (ps ! i) = sum_list (map f ps)"
  by (induction ps arbitrary: i) (auto simp: nth_Cons add_ac split: nat.splits)

end
