(* ===== verification/Fifo_Queue.thy ===== *)
theory Fifo_Queue
  imports Ember_Prelude
begin

text \<open>
  The interface \<open>queue[T]\<close> of \<open>engine/pkg/actor/mailbox/queue_manager.go\<close> (\<open>Push\<close>, \<open>Pop\<close>,
  \<open>Empty\<close>, \<open>Len\<close>) as a locale. A provider gives its operations, an invariant, the list of
  queued values in FIFO order and its capacity (\<open>None\<close> when unbounded), and promises the laws
  below. The client loops of the mailbox (draining a queue, running a sequence of calls) are
  verified once, against the locale. The providers are the bounded ring (\<open>Bounded_MPSC\<close>), the
  linked queue (\<open>MPSC\<close>) and the sum of both that \<open>newQueue\<close> returns (\<open>Mailbox_Queue\<close>).

  A Go result \<open>(T, bool)\<close> is an \<open>option\<close>: \<open>None\<close> stands for \<open>(zero, false)\<close>.
\<close>

section \<open>Definitions\<close>

text \<open>
  The loop \<open>for !q.Empty() { if e, ok := q.Pop(); ok { handler(e) } }\<close> of the queue managers'
  \<open>DrainAll\<close>. The result lists the values given to the handler, in order; \<open>None\<close> is a loop
  that never returns.
\<close>

partial_function (option) drain_queue ::
  "('q \<Rightarrow> bool) \<Rightarrow> ('q \<Rightarrow> 'a option \<times> 'q) \<Rightarrow> 'q \<Rightarrow> ('a list \<times> 'q) option" where
  [code]: "drain_queue is_empty pop q =
     (if is_empty q then Some ([], q)
      else (case pop q of
              (None, q') \<Rightarrow> drain_queue is_empty pop q'
            | (Some e, q') \<Rightarrow>
                Option.bind (drain_queue is_empty pop q') (\<lambda>(es, r). Some (e # es, r))))"

datatype 'a queue_op = OpPush 'a | OpPop

datatype 'a queue_res = ResPush bool | ResPop "'a option"

fun queue_apply :: "('q \<Rightarrow> 'a \<Rightarrow> bool \<times> 'q) \<Rightarrow> ('q \<Rightarrow> 'a option \<times> 'q) \<Rightarrow> 'q \<Rightarrow> 'a queue_op
    \<Rightarrow> 'a queue_res \<times> 'q" where
  "queue_apply push pop q (OpPush x) = (case push q x of (b, q') \<Rightarrow> (ResPush b, q'))"
| "queue_apply push pop q OpPop = (case pop q of (r, q') \<Rightarrow> (ResPop r, q'))"

fun queue_run :: "('q \<Rightarrow> 'a \<Rightarrow> bool \<times> 'q) \<Rightarrow> ('q \<Rightarrow> 'a option \<times> 'q) \<Rightarrow> 'q \<Rightarrow> 'a queue_op list
    \<Rightarrow> 'a queue_res list \<times> 'q" where
  "queue_run push pop q [] = ([], q)"
| "queue_run push pop q (c # cs) =
     (case queue_apply push pop q c of
        (r, q') \<Rightarrow> (case queue_run push pop q' cs of (rs, q'') \<Rightarrow> (r # rs, q'')))"

text \<open>The abstract queue: a list with an optional capacity.\<close>

definition has_room :: "nat option \<Rightarrow> nat \<Rightarrow> bool" where
  "has_room c n \<longleftrightarrow> (case c of None \<Rightarrow> True | Some m \<Rightarrow> n < m)"

definition spec_push :: "nat option \<Rightarrow> 'a list \<Rightarrow> 'a \<Rightarrow> bool \<times> 'a list" where
  "spec_push c xs x = (if has_room c (length xs) then (True, xs @ [x]) else (False, xs))"

definition spec_pop :: "'a list \<Rightarrow> 'a option \<times> 'a list" where
  "spec_pop xs = (case xs of [] \<Rightarrow> (None, []) | x # r \<Rightarrow> (Some x, r))"

text \<open>The values a sequence of calls enqueued (its accepted pushes) and the values it dequeued.\<close>

fun accepted :: "'a queue_op list \<Rightarrow> 'a queue_res list \<Rightarrow> 'a list" where
  "accepted (OpPush x # cs) (ResPush True # rs) = x # accepted cs rs"
| "accepted (c # cs) (r # rs) = accepted cs rs"
| "accepted cs rs = []"

fun dequeued :: "'a queue_res list \<Rightarrow> 'a list" where
  "dequeued [] = []"
| "dequeued (ResPop (Some x) # rs) = x # dequeued rs"
| "dequeued (r # rs) = dequeued rs"

section \<open>The interface\<close>

locale fifo_queue =
  fixes inv :: "'q \<Rightarrow> bool"
    and elems :: "'q \<Rightarrow> 'a list"
    and capacity :: "'q \<Rightarrow> nat option"
    and push :: "'q \<Rightarrow> 'a \<Rightarrow> bool \<times> 'q"
    and pop :: "'q \<Rightarrow> 'a option \<times> 'q"
    and is_empty :: "'q \<Rightarrow> bool"
    and len :: "'q \<Rightarrow> int"
  assumes push_inv: "inv q \<Longrightarrow> inv (snd (push q x))"
    and push_spec: "inv q \<Longrightarrow>
          (fst (push q x), elems (snd (push q x))) = spec_push (capacity q) (elems q) x"
    and push_refused: "inv q \<Longrightarrow> \<not> fst (push q x) \<Longrightarrow> snd (push q x) = q"
    and push_capacity: "inv q \<Longrightarrow> capacity (snd (push q x)) = capacity q"
    and pop_inv: "inv q \<Longrightarrow> inv (snd (pop q))"
    and pop_spec: "inv q \<Longrightarrow> (fst (pop q), elems (snd (pop q))) = spec_pop (elems q)"
    and pop_refused: "inv q \<Longrightarrow> fst (pop q) = None \<Longrightarrow> snd (pop q) = q"
    and pop_capacity: "inv q \<Longrightarrow> capacity (snd (pop q)) = capacity q"
    and empty_spec: "inv q \<Longrightarrow> is_empty q \<longleftrightarrow> elems q = []"
    and len_spec: "inv q \<Longrightarrow> len q = int (length (elems q))"
begin

lemma push_accepted:
  assumes "inv q" "has_room (capacity q) (length (elems q))"
  shows "fst (push q x)" "elems (snd (push q x)) = elems q @ [x]"
  using push_spec [OF assms(1), of x] assms(2) by (simp_all add: spec_push_def)

lemma push_full:
  assumes "inv q" "\<not> has_room (capacity q) (length (elems q))"
  shows "push q x = (False, q)"
  using push_spec [OF assms(1), of x] push_refused [OF assms(1), of x] assms(2)
  by (simp add: spec_push_def prod_eq_iff)

lemma push_elems:
  "inv q \<Longrightarrow> elems (snd (push q x)) = (if fst (push q x) then elems q @ [x] else elems q)"
  using push_spec [of q x] by (auto simp: spec_push_def split: if_splits)

lemma pop_Nil: "inv q \<Longrightarrow> elems q = [] \<Longrightarrow> pop q = (None, q)"
  using pop_spec [of q] pop_refused [of q] by (simp add: spec_pop_def prod_eq_iff)

lemma pop_Cons:
  assumes "inv q" "elems q = x # xs"
  shows "fst (pop q) = Some x" "elems (snd (pop q)) = xs"
  using pop_spec [OF assms(1)] assms(2) by (simp_all add: spec_pop_def)

lemma pop_Some: "inv q \<Longrightarrow> fst (pop q) = Some x \<Longrightarrow> elems q = x # elems (snd (pop q))"
  using pop_spec [of q] by (cases "elems q") (auto simp: spec_pop_def)

lemma pop_None_iff: "inv q \<Longrightarrow> fst (pop q) = None \<longleftrightarrow> elems q = []"
  using pop_spec [of q] by (cases "elems q") (auto simp: spec_pop_def)

text \<open>Draining ends, hands over exactly the queued values in FIFO order, and leaves the queue empty.\<close>

lemma drain_total:
  assumes "inv q"
  shows "\<exists>q'. drain_queue is_empty pop q = Some (elems q, q') \<and> inv q' \<and> elems q' = []
              \<and> capacity q' = capacity q"
  using assms
proof (induction "elems q" arbitrary: q)
  case Nil
  then show ?case by (simp add: drain_queue.simps empty_spec)
next
  case (Cons x xs)
  let ?q = "snd (pop q)"
  have p: "fst (pop q) = Some x" "elems ?q = xs" "inv ?q" "capacity ?q = capacity q"
    using pop_Cons [of q x xs] Cons pop_inv pop_capacity by metis+
  then obtain q' where "drain_queue is_empty pop ?q = Some (xs, q')" "inv q'" "elems q' = []"
    "capacity q' = capacity q"
    using Cons(1) [of ?q] by auto
  moreover have "\<not> is_empty q" using Cons by (metis empty_spec list.distinct(1))
  ultimately show ?case
    using p Cons(2) by (subst drain_queue.simps) (auto simp: split_beta)
qed

text \<open>Every sequence of calls behaves as on the abstract list.\<close>

lemma apply_refines:
  assumes "inv q" "queue_apply push pop q c = (r, q')"
  shows "queue_apply (spec_push (capacity q)) spec_pop (elems q) c = (r, elems q')"
    "inv q'" "capacity q' = capacity q"
proof -
  show "queue_apply (spec_push (capacity q)) spec_pop (elems q) c = (r, elems q')"
  proof (cases c)
    case (OpPush x)
    then show ?thesis using assms push_spec [OF assms(1), of x, symmetric] by (auto simp: split_beta)
  next
    case OpPop
    then show ?thesis using assms pop_spec [OF assms(1), symmetric] by (auto simp: split_beta)
  qed
  show "inv q'" "capacity q' = capacity q"
    using assms push_inv pop_inv push_capacity pop_capacity
    by (cases c; auto simp: split_beta)+
qed

lemma run_refines:
  assumes "inv q" "queue_run push pop q cs = (rs, q')"
  shows "queue_run (spec_push (capacity q)) spec_pop (elems q) cs = (rs, elems q') \<and> inv q'"
  using assms
proof (induction cs arbitrary: q rs q')
  case (Cons c cs)
  obtain r q1 where a: "queue_apply push pop q c = (r, q1)" by fastforce
  obtain rs1 q2 where b: "queue_run push pop q1 cs = (rs1, q2)" by fastforce
  have "rs = r # rs1" "q' = q2" using Cons(3) a b by auto
  with Cons.IH [OF _ b] apply_refines [OF Cons(2) a] show ?case by auto
qed simp

text \<open>
  Nothing is lost, duplicated or reordered: what was queued, followed by what was accepted, is
  what was handed out followed by what is still queued. The capacity is never exceeded.
\<close>

lemma run_conserves:
  assumes "inv q" "queue_run push pop q cs = (rs, q')"
  shows "elems q @ accepted cs rs = dequeued rs @ elems q'"
  using assms
proof (induction cs arbitrary: q rs q')
  case (Cons c cs)
  obtain r q1 where a: "queue_apply push pop q c = (r, q1)" by fastforce
  obtain rs1 q2 where b: "queue_run push pop q1 cs = (rs1, q2)" by fastforce
  have eq: "rs = r # rs1" "q' = q2" using Cons(3) a b by auto
  have ih: "elems q1 @ accepted cs rs1 = dequeued rs1 @ elems q2"
    using Cons.IH [OF _ b] apply_refines [OF Cons(2) a] by blast
  show ?case
  proof (cases c)
    case (OpPush x)
    then have r: "r = ResPush (fst (push q x))" "q1 = snd (push q x)"
      using a by (auto simp: split_beta)
    show ?thesis
      using ih push_elems [OF Cons(2), of x] by (cases "fst (push q x)") (auto simp: eq OpPush r)
  next
    case OpPop
    then have r: "r = ResPop (fst (pop q))" "q1 = snd (pop q)"
      using a by (auto simp: split_beta)
    show ?thesis
      using ih pop_spec [OF Cons(2)]
      by (cases "elems q") (auto simp: eq OpPop r spec_pop_def)
  qed
qed simp

lemma apply_bounded:
  assumes "inv q" "capacity q = Some m" "length (elems q) \<le> m" "queue_apply push pop q c = (r, q')"
  shows "length (elems q') \<le> m"
proof (cases c)
  case (OpPush x)
  then have "elems q' = (if fst (push q x) then elems q @ [x] else elems q)"
    using assms(4) push_elems [OF assms(1), of x] by (auto simp: split_beta)
  moreover have "fst (push q x) \<Longrightarrow> length (elems q) < m"
    using push_spec [OF assms(1), of x] assms(2)
    by (auto simp: has_room_def spec_push_def split: if_splits)
  ultimately show ?thesis using assms(3) by auto
next
  case OpPop
  then show ?thesis
    using apply_refines (1) [OF assms(1,4)] assms(3) by (auto simp: spec_pop_def split: list.splits)
qed

lemma run_bounded:
  assumes "inv q" "capacity q = Some m" "length (elems q) \<le> m" "queue_run push pop q cs = (rs, q')"
  shows "length (elems q') \<le> m"
  using assms
proof (induction cs arbitrary: q rs q')
  case (Cons c cs)
  obtain r q1 where a: "queue_apply push pop q c = (r, q1)" by fastforce
  obtain rs1 q2 where b: "queue_run push pop q1 cs = (rs1, q2)" by fastforce
  have "q' = q2" using Cons(5) a b by auto
  with Cons.IH [OF _ _ _ b] apply_refines [OF Cons(2) a] apply_bounded [OF Cons(2-4) a] Cons(3)
  show ?case by auto
qed simp

end

end
