(* ===== verification/Pow2.thy ===== *)
theory Pow2
  imports Ember_Prelude
begin

text \<open>
  \<open>engine/pkg/utils/util/pow2.go\<close>: rounding a size up to a power of two, for the platform
  \<open>int\<close> (64 bits) and for \<open>int64\<close>. \<open>bits_Len\<close> is \<open>math/bits.Len\<close>, the number of bits of the
  binary representation. Also the test \<open>c & (c - 1) == 0\<close> that the bounded queues use to
  recognise powers of two.
\<close>

section \<open>Definitions\<close>

fun bits_Len :: "nat \<Rightarrow> nat" where
  "bits_Len n = (if n = 0 then 0 else Suc (bits_Len (n div 2)))"

declare bits_Len.simps [simp del]

definition RoundUpToPowerOfTwoInt :: "int \<Rightarrow> int" where
  "RoundUpToPowerOfTwoInt v =
     (if v \<le> 1 then 1
      else let maxPow2 = 1 * 2 ^ 62 in
        if v \<ge> maxPow2 then maxPow2
        else push_bit (bits_Len (nat (v - 1))) 1)"

definition RoundUpToPowerOfTwoInt64 :: "int \<Rightarrow> int" where
  "RoundUpToPowerOfTwoInt64 v =
     (if v \<le> 1 then 1
      else let maxPow2 = 1 * 2 ^ 62 in
        if v \<ge> maxPow2 then maxPow2
        else push_bit (bits_Len (nat (v - 1))) 1)"

definition is_pow2 :: "int \<Rightarrow> bool" where
  "is_pow2 c \<longleftrightarrow> (\<exists>k. c = 2 ^ k)"

section \<open>Facts\<close>

lemma bits_Len_0 [simp]: "bits_Len 0 = 0"
  by (simp add: bits_Len.simps)

lemma bits_Len_upper: "n < 2 ^ bits_Len n"
proof (induction n rule: bits_Len.induct)
  case (1 n)
  show ?case
  proof (cases "n = 0")
    case False
    then have "n div 2 < 2 ^ bits_Len (n div 2)" using 1 by simp
    then have "n < 2 * 2 ^ bits_Len (n div 2)" by linarith
    then show ?thesis using False by (simp add: bits_Len.simps [of n])
  qed simp
qed

lemma bits_Len_lower: "0 < n \<Longrightarrow> 2 ^ (bits_Len n - 1) \<le> n"
proof (induction n rule: bits_Len.induct)
  case (1 n)
  show ?case
  proof (cases "n div 2 = 0")
    case True
    then show ?thesis using 1 by (simp add: bits_Len.simps [of n])
  next
    case False
    then have "2 ^ (bits_Len (n div 2) - 1) \<le> n div 2" using 1 by simp
    moreover obtain m where m: "bits_Len (n div 2) = Suc m"
      using False by (simp add: bits_Len.simps [of "n div 2"])
    ultimately have "2 ^ m \<le> n div 2" by simp
    then have "2 * 2 ^ m \<le> n" by linarith
    then show ?thesis using 1 m by (simp add: bits_Len.simps [of n])
  qed
qed

lemma bits_Len_le:
  assumes "n < 2 ^ k"
  shows "bits_Len n \<le> k"
proof (rule ccontr)
  assume "\<not> bits_Len n \<le> k"
  then have "k \<le> bits_Len n - 1" "0 < n" by (auto intro: gr0I)
  then have "(2::nat) ^ k \<le> n"
    using bits_Len_lower [of n] power_increasing [of k "bits_Len n - 1" "2::nat"]
    by (meson le_trans one_le_numeral)
  with assms show False by simp
qed

lemma RoundUp_eq:
  assumes "1 < v" "v < 2 ^ 62"
  shows "RoundUpToPowerOfTwoInt v = 2 ^ bits_Len (nat (v - 1))"
  using assms by (simp add: RoundUpToPowerOfTwoInt_def push_bit_eq_mult)

lemma RoundUp64_same: "RoundUpToPowerOfTwoInt64 v = RoundUpToPowerOfTwoInt v"
  by (simp add: RoundUpToPowerOfTwoInt64_def RoundUpToPowerOfTwoInt_def)

lemma and_pred_zero_pow2:
  fixes c :: int
  assumes "0 < c" "c AND (c - 1) = 0"
  shows "\<exists>k. c = 2 ^ k"
  using assms
proof (induction "nat c" arbitrary: c rule: less_induct)
  case less
  show ?case
  proof (cases "even c")
    case True
    then obtain m where m: "c = 2 * m" by blast
    have "c - 1 = 2 * (m - 1) + 1" using m by simp
    moreover have "(2 * (m - 1) + 1) div 2 = m - 1" by presburger
    ultimately have "c AND (c - 1) = 2 * (m AND (m - 1))"
      using and_int_rec [of c "c - 1"] by (simp add: m)
    with less m have "m AND (m - 1) = 0" "0 < m" "nat m < nat c" by auto
    then obtain k where "m = 2 ^ k" using less(1) by blast
    then have "c = 2 ^ Suc k" using m by simp
    then show ?thesis by blast
  next
    case False
    then obtain m where m: "c = 2 * m + 1" by (metis oddE)
    have "c AND (c - 1) = 2 * m"
      by (simp add: m and_int_rec [of "2 * m + 1"])
    with less m have "c = 2 ^ 0" by simp
    then show ?thesis by blast
  qed
qed

lemma pow2_and_pred_zero: "(2 ^ k :: int) AND (2 ^ k - 1) = 0"
  by (simp add: int_and_pow2_mask)

lemma and_pred_zero_iff: "0 < c \<Longrightarrow> c AND (c - 1) = 0 \<longleftrightarrow> is_pow2 c"
  unfolding is_pow2_def using and_pred_zero_pow2 pow2_and_pred_zero by blast

lemma is_pow2_pos: "is_pow2 c \<Longrightarrow> 0 < c"
  by (auto simp: is_pow2_def)

text \<open>
  \<open>RoundUpToPowerOfTwoInt\<close> returns the least power of two that is at least \<open>v\<close>, for every
  \<open>v\<close> up to \<open>2^62\<close>, and saturates at \<open>2^62\<close> beyond; the \<open>int64\<close> variant agrees with it.
\<close>

theorem RoundUp_least_pow2:
  "is_pow2 (RoundUpToPowerOfTwoInt v)
   \<and> (v \<le> 2 ^ 62 \<longrightarrow> v \<le> RoundUpToPowerOfTwoInt v
        \<and> (\<forall>p. is_pow2 p \<and> v \<le> p \<longrightarrow> RoundUpToPowerOfTwoInt v \<le> p))
   \<and> (2 ^ 62 < v \<longrightarrow> RoundUpToPowerOfTwoInt v = 2 ^ 62)
   \<and> RoundUpToPowerOfTwoInt64 v = RoundUpToPowerOfTwoInt v"
proof (cases "1 < v \<and> v < 2 ^ 62")
  case True
  let ?n = "nat (v - 1)"
  have up: "v \<le> 2 ^ bits_Len ?n"
  proof -
    have "int ?n < int (2 ^ bits_Len ?n)" using bits_Len_upper [of ?n] by (simp only: of_nat_less_iff)
    then show ?thesis using True by simp
  qed
  have "2 ^ bits_Len ?n \<le> p" if p: "is_pow2 p" "v \<le> p" for p :: int
  proof -
    obtain k where k: "p = 2 ^ k" using p(1) by (auto simp: is_pow2_def)
    have "int ?n < int (2 ^ k)" using k p(2) True by simp
    then have "bits_Len ?n \<le> k" by (intro bits_Len_le) (simp only: of_nat_less_iff)
    then show ?thesis using k by (simp add: power_increasing)
  qed
  with up True show ?thesis
    by (simp add: RoundUp64_same RoundUp_eq is_pow2_def)
next
  case False
  have least: "1 \<le> p" if "is_pow2 p" for p using is_pow2_pos [OF that] by simp
  have "is_pow2 1" "is_pow2 (2 ^ 62)" unfolding is_pow2_def by (metis power_0, blast)
  with False least show ?thesis
    unfolding RoundUp64_same by (auto simp: RoundUpToPowerOfTwoInt_def)
qed

text \<open>Witness of the first property: 5 rounds up to 8.\<close>

theorem RoundUp_least_pow2_witness:
  "5 \<le> RoundUpToPowerOfTwoInt 5 \<and> RoundUpToPowerOfTwoInt 5 \<le> 8"
proof -
  have "is_pow2 8" unfolding is_pow2_def by (rule exI [of _ 3]) simp
  then show ?thesis using RoundUp_least_pow2 [of 5] by simp
qed

end
