(* ===== verification/Bounded_MPSC.thy ===== *)
theory Bounded_MPSC
  imports Fifo_Queue Pow2
begin

text \<open>
  \<open>engine/pkg/utils/boundedmpsc/queue.go\<close>: the fixed-capacity FIFO behind bounded mailboxes.
  The buffer is a ring whose positions come from two \<open>uint64\<close> cursors that only grow and wrap
  at \<open>2^64\<close>; the slot of a cursor is \<open>cursor & mask\<close>. Every operation runs under the queue's
  mutex, so an operation is one step of a state-passing function. \<open>bq_zero\<close> is the zero value
  of the element type, with which consumed slots are cleared.
\<close>

section \<open>Definitions\<close>

datatype bq_error = ErrCapacityTooSmall | ErrCapacityNotPower2

record 'a bqueue =
  bq_zero :: 'a
  bq_buffer :: "'a list"
  bq_mask :: u64
  bq_head :: u64
  bq_tail :: u64
  bq_count :: nat

definition BQueue_New :: "'a \<Rightarrow> int \<Rightarrow> bq_error + 'a bqueue" where
  "BQueue_New zero capacity =
     (if capacity < 2 then Inl ErrCapacityTooSmall
      else if capacity AND (capacity - 1) \<noteq> 0 then Inl ErrCapacityNotPower2
      else Inr \<lparr> bq_zero = zero, bq_buffer = replicate (nat capacity) zero,
                 bq_mask = word_of_int (capacity - 1),
                 bq_head = 0, bq_tail = 0, bq_count = 0 \<rparr>)"

definition BQueue_Push :: "'a bqueue \<Rightarrow> 'a \<Rightarrow> bool \<times> 'a bqueue" where
  "BQueue_Push q value =
     (if bq_count q = length (bq_buffer q) then (False, q)
      else (True, q \<lparr> bq_buffer := (bq_buffer q)[unat (bq_tail q AND bq_mask q) := value],
                      bq_tail := bq_tail q + 1,
                      bq_count := bq_count q + 1 \<rparr>))"

definition BQueue_Pop :: "'a bqueue \<Rightarrow> 'a option \<times> 'a bqueue" where
  "BQueue_Pop q =
     (if bq_count q = 0 then (None, q)
      else let index = unat (bq_head q AND bq_mask q);
               value = bq_buffer q ! index
           in (Some value, q \<lparr> bq_buffer := (bq_buffer q)[index := bq_zero q],
                               bq_head := bq_head q + 1,
                               bq_count := bq_count q - 1 \<rparr>))"

text \<open>The loop of \<open>PopBatch\<close>: \<open>k\<close> iterations are left, \<open>i\<close> is the loop variable.\<close>

fun bq_batch_loop :: "nat \<Rightarrow> nat \<Rightarrow> 'a list \<Rightarrow> 'a bqueue \<Rightarrow> 'a list \<times> 'a bqueue" where
  "bq_batch_loop 0 i dst q = (dst, q)"
| "bq_batch_loop (Suc k) i dst q =
     (let index = unat (bq_head q AND bq_mask q)
      in bq_batch_loop k (i + 1) (dst[i := bq_buffer q ! index])
           (q \<lparr> bq_buffer := (bq_buffer q)[index := bq_zero q], bq_head := bq_head q + 1 \<rparr>))"

definition BQueue_PopBatch :: "'a bqueue \<Rightarrow> 'a list \<Rightarrow> nat \<times> 'a list \<times> 'a bqueue" where
  "BQueue_PopBatch q dst =
     (let n = min (length dst) (bq_count q);
          (dst', q') = bq_batch_loop n 0 dst q
      in (n, dst', q' \<lparr> bq_count := bq_count q' - n \<rparr>))"

definition BQueue_Empty :: "'a bqueue \<Rightarrow> bool" where
  "BQueue_Empty q \<longleftrightarrow> bq_count q = 0"

definition BQueue_Len :: "'a bqueue \<Rightarrow> int" where
  "BQueue_Len q = int (bq_count q)"

definition BQueue_Cap :: "'a bqueue \<Rightarrow> nat" where
  "BQueue_Cap q = length (bq_buffer q)"

subsection \<open>Invariant and abstraction\<close>

definition bq_inv :: "'a bqueue \<Rightarrow> bool" where
  "bq_inv q \<longleftrightarrow>
     (\<exists>k<64. length (bq_buffer q) = 2 ^ k \<and> bq_mask q = of_nat (2 ^ k - 1))
     \<and> 2 \<le> length (bq_buffer q)
     \<and> bq_count q \<le> length (bq_buffer q)
     \<and> bq_tail q = bq_head q + of_nat (bq_count q)"

definition bq_elems :: "'a bqueue \<Rightarrow> 'a list" where
  "bq_elems q = ring_list (bq_buffer q) (unat (bq_head q)) (bq_count q)"

text \<open>Consumed slots hold the zero value: the queue retains no reference to a value it handed out.\<close>

definition bq_cleared :: "'a bqueue \<Rightarrow> bool" where
  "bq_cleared q \<longleftrightarrow>
     (\<forall>i. bq_count q \<le> i \<and> i < length (bq_buffer q) \<longrightarrow>
        bq_buffer q ! ((unat (bq_head q) + i) mod length (bq_buffer q)) = bq_zero q)"

text \<open>A two-slot queue whose cursors are about to wrap, used by the witnesses.\<close>

definition bq_wrap_example :: "nat bqueue" where
  "bq_wrap_example = \<lparr> bq_zero = 0, bq_buffer = [0, 0], bq_mask = 1, bq_head = - 1, bq_tail = - 1,
     bq_count = 0 \<rparr>"

section \<open>Index arithmetic\<close>

lemma bq_inv_pow2:
  assumes "bq_inv q"
  obtains k where "k < 64" "length (bq_buffer q) = 2 ^ k" "bq_mask q = of_nat (2 ^ k - 1)"
  using assms by (auto simp: bq_inv_def)

lemma bq_slot:
  assumes "bq_inv q"
  shows "unat ((bq_head q + of_nat i) AND bq_mask q)
           = (unat (bq_head q) + i) mod length (bq_buffer q)"
  using assms unat_and_pow2_mask unat_add_mod_pow2
  by (elim bq_inv_pow2) simp

lemma bq_head_slot:
  "bq_inv q \<Longrightarrow> unat (bq_head q AND bq_mask q) = unat (bq_head q) mod length (bq_buffer q)"
  using bq_slot [of q 0] by simp

lemma bq_tail_slot:
  "bq_inv q \<Longrightarrow> unat (bq_tail q AND bq_mask q)
     = (unat (bq_head q) + bq_count q) mod length (bq_buffer q)"
  using bq_slot [of q "bq_count q"] by (simp add: bq_inv_def)

lemma ring_list_word_succ:
  fixes w :: "64 word"
  assumes "k < 64" "length b = 2 ^ k"
  shows "ring_list b (unat (w + 1)) n = ring_list b (Suc (unat w)) n"
proof -
  have "unat (w + 1) mod length b = Suc (unat w) mod length b"
    using unat_add_mod_pow2 [OF assms(1), of w 1] assms(2) by simp
  then show ?thesis by (metis ring_list_mod)
qed

lemma bq_elems_length [simp]: "length (bq_elems q) = bq_count q"
  by (simp add: bq_elems_def)

lemma bq_elems_Nil [simp]: "bq_elems q = [] \<longleftrightarrow> bq_count q = 0"
  by (simp add: bq_elems_def)

section \<open>The operations on the abstract list\<close>

lemma BQueue_New_inv:
  assumes "BQueue_New z c = Inr q" "c < 2 ^ 63"
  shows "bq_inv q" "bq_elems q = []" "bq_cleared q" "length (bq_buffer q) = nat c"
proof -
  have c: "2 \<le> c" "c AND (c - 1) = 0"
    and q: "q = \<lparr> bq_zero = z, bq_buffer = replicate (nat c) z,
                 bq_mask = word_of_int (c - 1), bq_head = 0, bq_tail = 0, bq_count = 0 \<rparr>"
    using assms by (auto simp: BQueue_New_def split: if_splits)
  obtain k where k: "c = 2 ^ k" using c and_pred_zero_pow2 [of c] by auto
  have "k < 64"
  proof (rule ccontr)
    assume "\<not> k < 64"
    then have "(2::int) ^ 63 \<le> 2 ^ k" by (intro power_increasing) auto
    with k assms(2) show False by simp
  qed
  moreover have "(word_of_int (c - 1) :: 64 word) = of_nat (2 ^ k - 1)"
    by (simp add: k of_nat_diff)
  moreover have "nat c = 2 ^ k" by (simp add: k nat_power_eq)
  moreover have "2 \<le> nat c" using c by simp
  ultimately show "bq_inv q" unfolding bq_inv_def q by auto
  show "bq_elems q = []" "bq_cleared q" "length (bq_buffer q) = nat c"
    using c by (auto simp: q bq_elems_def bq_cleared_def)
qed

lemma BQueue_Push_inv: "bq_inv q \<Longrightarrow> bq_inv (snd (BQueue_Push q x))"
  by (auto simp: BQueue_Push_def bq_inv_def)

lemma BQueue_Push_elems:
  assumes "bq_inv q"
  shows "(fst (BQueue_Push q x), bq_elems (snd (BQueue_Push q x)))
           = spec_push (Some (BQueue_Cap q)) (bq_elems q) x"
proof (cases "bq_count q = length (bq_buffer q)")
  case True
  then show ?thesis by (simp add: BQueue_Push_def spec_push_def has_room_def BQueue_Cap_def)
next
  case False
  with assms have "bq_count q < length (bq_buffer q)" by (simp add: bq_inv_def)
  with assms show ?thesis
    by (simp add: BQueue_Push_def spec_push_def has_room_def BQueue_Cap_def bq_tail_slot
        bq_elems_def ring_list_snoc_update)
qed

lemma BQueue_Pop_inv: "bq_inv q \<Longrightarrow> bq_inv (snd (BQueue_Pop q))"
  by (auto simp: BQueue_Pop_def bq_inv_def Let_def of_nat_diff)

lemma BQueue_Pop_elems:
  assumes "bq_inv q"
  shows "(fst (BQueue_Pop q), bq_elems (snd (BQueue_Pop q))) = spec_pop (bq_elems q)"
proof (cases "bq_count q")
  case 0
  then show ?thesis by (simp add: BQueue_Pop_def spec_pop_def bq_elems_def)
next
  case (Suc n)
  let ?b = "bq_buffer q" and ?h = "unat (bq_head q)"
  obtain k where k: "k < 64" "length ?b = 2 ^ k" using assms by (elim bq_inv_pow2)
  have "bq_elems q = ?b ! (?h mod length ?b) # ring_list ?b (Suc ?h) n"
    by (simp add: bq_elems_def Suc ring_list_Suc)
  moreover have "ring_list (?b[?h mod length ?b := bq_zero q]) (Suc ?h) n = ring_list ?b (Suc ?h) n"
    using ring_list_clear_head [of "Suc n" ?b ?h "bq_zero q"] assms Suc
    by (simp add: bq_inv_def ring_list_tl)
  moreover have "ring_list b' (unat (bq_head q + 1)) n = ring_list b' (Suc ?h) n"
    if "length b' = length ?b" for b' :: "'a list"
    using ring_list_word_succ [of k b' "bq_head q" n] k that by simp
  ultimately show ?thesis
    using Suc by (simp add: BQueue_Pop_def Let_def spec_pop_def bq_head_slot [OF assms]
        bq_elems_def [of "bq_count_update _ _"] bq_elems_def [of "snd _"])
qed

lemma BQueue_Push_capacity: "BQueue_Cap (snd (BQueue_Push q x)) = BQueue_Cap q"
  by (simp add: BQueue_Push_def BQueue_Cap_def)

lemma BQueue_Pop_capacity: "BQueue_Cap (snd (BQueue_Pop q)) = BQueue_Cap q"
  by (simp add: BQueue_Pop_def BQueue_Cap_def Let_def)

interpretation bq: fifo_queue bq_inv bq_elems "\<lambda>q. Some (BQueue_Cap q)"
  BQueue_Push BQueue_Pop BQueue_Empty BQueue_Len
proof unfold_locales
  fix q :: "'a bqueue" and x
  show "\<not> fst (BQueue_Push q x) \<Longrightarrow> snd (BQueue_Push q x) = q"
    by (auto simp: BQueue_Push_def split: if_splits)
  show "fst (BQueue_Pop q) = None \<Longrightarrow> snd (BQueue_Pop q) = q"
    by (auto simp: BQueue_Pop_def Let_def split: if_splits)
qed (simp_all add: BQueue_Push_inv BQueue_Push_elems BQueue_Push_capacity BQueue_Pop_inv
    BQueue_Pop_elems BQueue_Pop_capacity BQueue_Empty_def BQueue_Len_def)

section \<open>Batches\<close>

lemma bq_count_outermost:
  "q \<lparr> bq_count := c, bq_buffer := b, bq_head := h \<rparr> = q \<lparr> bq_buffer := b, bq_head := h, bq_count := c \<rparr>"
  by (cases q) simp

lemma bq_count_same: "bq_count q = c \<Longrightarrow> q \<lparr> bq_count := c \<rparr> = q"
  by (cases q) simp

lemma bq_batch_loop_count:
  "bq_batch_loop k i dst (q \<lparr> bq_count := c \<rparr>)
     = (fst (bq_batch_loop k i dst q), (snd (bq_batch_loop k i dst q)) \<lparr> bq_count := c \<rparr>)"
  by (induction k arbitrary: i dst q) (simp_all add: Let_def bq_count_outermost)

lemma bq_batch_loop_keeps_count [simp]:
  "bq_count (snd (bq_batch_loop k i dst q)) = bq_count q"
  by (induction k arbitrary: i dst q) (auto simp: Let_def)

lemma bq_batch_loop_Pop:
  assumes "0 < bq_count q"
  shows "bq_batch_loop (Suc k) i dst q =
     (let r = bq_batch_loop k (i + 1) (dst[i := the (fst (BQueue_Pop q))]) (snd (BQueue_Pop q))
      in (fst r, (snd r) \<lparr> bq_count := bq_count q \<rparr>))"
  using assms by (simp add: BQueue_Pop_def Let_def bq_batch_loop_count bq_count_same)

lemma bq_batch_loop_pops:
  assumes "k \<le> bq_count q"
  shows "(snd (bq_batch_loop k i dst q)) \<lparr> bq_count := bq_count q - k \<rparr>
           = ((\<lambda>q. snd (BQueue_Pop q)) ^^ k) q"
  using assms
proof (induction k arbitrary: i dst q)
  case (Suc k)
  let ?q = "snd (BQueue_Pop q)"
  have "bq_count ?q = bq_count q - 1" "k \<le> bq_count ?q"
    using Suc(2) by (auto simp: BQueue_Pop_def Let_def)
  then show ?case
    using Suc(1) [of ?q "i + 1" "dst[i := the (fst (BQueue_Pop q))]"] Suc(2)
    by (simp add: bq_batch_loop_Pop Let_def funpow_Suc_right del: funpow.simps bq_batch_loop.simps)
qed simp

lemma bq_batch_loop_dst:
  assumes "bq_inv q" "k \<le> bq_count q" "i + k \<le> length dst"
  shows "fst (bq_batch_loop k i dst q) = take i dst @ take k (bq_elems q) @ drop (i + k) dst"
  using assms
proof (induction k arbitrary: i dst q)
  case (Suc k)
  let ?q = "snd (BQueue_Pop q)"
  obtain x xs where e: "bq_elems q = x # xs"
    using Suc(3) bq_elems_Nil [of q] by (cases "bq_elems q") auto
  have p: "fst (BQueue_Pop q) = Some x" "bq_elems ?q = xs" using bq.pop_Cons [OF Suc(2) e] by auto
  have "bq_count ?q = bq_count q - 1" using Suc(3) by (auto simp: BQueue_Pop_def Let_def)
  then have "k \<le> bq_count ?q" "i + 1 + k \<le> length (dst[i := x])" using Suc(3,4) by auto
  then have "fst (bq_batch_loop k (i + 1) (dst[i := x]) ?q)
      = take (i + 1) (dst[i := x]) @ take k (bq_elems ?q) @ drop (i + 1 + k) (dst[i := x])"
    by (intro Suc.IH BQueue_Pop_inv Suc(2))
  then show ?case
    using Suc(3,4) e p
    by (simp add: bq_batch_loop_Pop Let_def take_Suc_conv_app_nth del: bq_batch_loop.simps)
qed simp

lemma BQueue_pops:
  assumes "bq_inv q"
  shows "bq_inv (((\<lambda>q. snd (BQueue_Pop q)) ^^ n) q)
       \<and> bq_elems (((\<lambda>q. snd (BQueue_Pop q)) ^^ n) q) = drop n (bq_elems q)"
proof (induction n)
  case (Suc n)
  let ?q = "((\<lambda>q. snd (BQueue_Pop q)) ^^ n) q"
  have "bq_elems (snd (BQueue_Pop ?q)) = tl (bq_elems ?q)"
    using BQueue_Pop_elems [of ?q] Suc by (auto simp: spec_pop_def split: list.splits)
  then show ?case
    using Suc BQueue_Pop_inv [of ?q] by (simp add: drop_Suc tl_drop)
qed (simp add: assms)

section \<open>Cleared slots\<close>

lemma BQueue_Push_cleared:
  assumes "bq_inv q" "bq_cleared q"
  shows "bq_cleared (snd (BQueue_Push q x))"
proof (cases "bq_count q = length (bq_buffer q)")
  case True
  then show ?thesis using assms by (simp add: BQueue_Push_def)
next
  case False
  let ?b = "bq_buffer q" and ?h = "unat (bq_head q)"
  have "?b[(?h + bq_count q) mod length ?b := x] ! ((?h + i) mod length ?b) = bq_zero q"
    if i: "Suc (bq_count q) \<le> i" "i < length ?b" for i
  proof -
    have "(?h + bq_count q) mod length ?b \<noteq> (?h + i) mod length ?b"
      using mod_add_inj [of ?h "bq_count q" "length ?b" i] i by auto
    then show ?thesis using assms(2) i by (simp add: bq_cleared_def)
  qed
  then show ?thesis using False by (simp add: BQueue_Push_def bq_cleared_def bq_tail_slot [OF assms(1)])
qed

lemma BQueue_Pop_cleared:
  assumes "bq_inv q" "bq_cleared q"
  shows "bq_cleared (snd (BQueue_Pop q))"
proof (cases "bq_count q")
  case 0
  then show ?thesis using assms by (simp add: BQueue_Pop_def)
next
  case (Suc n)
  let ?b = "bq_buffer q" and ?h = "unat (bq_head q)"
  obtain k where k: "k < 64" "length ?b = 2 ^ k" using assms(1) by (elim bq_inv_pow2)
  have pos: "0 < length ?b" using k by simp
  have wrap: "(unat (bq_head q + 1) + i) mod length ?b = (?h + Suc i) mod length ?b" for i
    using unat_add_mod_pow2 [OF k(1), of "bq_head q" 1] k(2)
      mod_add_left_eq [of "unat (bq_head q + 1)" "length ?b" i]
      mod_add_left_eq [of "Suc ?h" "length ?b" i] by simp
  have "?b[?h mod length ?b := bq_zero q] ! ((?h + Suc i) mod length ?b) = bq_zero q"
    if i: "n \<le> i" "i < length ?b" for i
  proof (cases "Suc i = length ?b")
    case True
    then show ?thesis using pos by simp
  next
    case False
    then have "?b ! ((?h + Suc i) mod length ?b) = bq_zero q"
      using assms(2) [unfolded bq_cleared_def, rule_format, of "Suc i"] i Suc by simp
    then show ?thesis using pos by (simp add: nth_list_update)
  qed
  then show ?thesis
    using Suc by (simp add: BQueue_Pop_def Let_def bq_cleared_def bq_head_slot [OF assms(1)] wrap)
qed

section \<open>Properties\<close>

text \<open>
  \<open>New\<close> accepts a capacity exactly when it is a power of two and at least two, rejects the
  others with the matching error and never rounds; an accepted capacity gives an empty,
  well-formed queue with exactly that many slots.
\<close>

theorem BQueue_New_spec:
  assumes "c < 2 ^ 63"
  shows "(c < 2 \<longrightarrow> BQueue_New z c = Inl ErrCapacityTooSmall)
    \<and> (2 \<le> c \<and> \<not> is_pow2 c \<longrightarrow> BQueue_New z c = Inl ErrCapacityNotPower2)
    \<and> (2 \<le> c \<and> is_pow2 c \<longrightarrow>
        (\<exists>q. BQueue_New z c = Inr q \<and> bq_inv q \<and> bq_cleared q \<and> bq_elems q = []
             \<and> int (BQueue_Cap q) = c))"
proof -
  have "\<exists>q. BQueue_New z c = Inr q \<and> bq_inv q \<and> bq_cleared q \<and> bq_elems q = [] \<and> int (BQueue_Cap q) = c"
    if c: "2 \<le> c" "is_pow2 c"
  proof -
    obtain q where q: "BQueue_New z c = Inr q"
      using c and_pred_zero_iff [of c] by (auto simp: BQueue_New_def)
    with BQueue_New_inv [OF q assms] c show ?thesis by (simp add: BQueue_Cap_def)
  qed
  then show ?thesis using and_pred_zero_iff [of c] by (auto simp: BQueue_New_def)
qed

theorem BQueue_New_spec_witness:
  "BQueue_New (0::nat) 6 = Inl ErrCapacityNotPower2 \<and> BQueue_New (0::nat) 1 = Inl ErrCapacityTooSmall"
proof -
  have "\<not> is_pow2 6" by (simp flip: and_pred_zero_iff)
  then show ?thesis
    using BQueue_New_spec [of 6 "0::nat"] BQueue_New_spec [of 1 "0::nat"] by simp
qed

text \<open>
  C6. Any sequence of \<open>Push\<close> and \<open>Pop\<close> calls on a new queue behaves as on a bounded list, with
  the same results call by call, also when the \<open>uint64\<close> cursors wrap. Consequently the
  accepted values come out once each, in the order of their pushes, and at most \<open>capacity\<close>
  values are queued. (The mutex makes every interleaving of producers such a sequence.)
\<close>

theorem BQueue_fifo:
  assumes "bq_inv q" "queue_run BQueue_Push BQueue_Pop q cs = (rs, q')"
  shows "queue_run (spec_push (Some (BQueue_Cap q))) spec_pop (bq_elems q) cs = (rs, bq_elems q')
       \<and> bq_elems q @ accepted cs rs = dequeued rs @ bq_elems q'
       \<and> length (bq_elems q') \<le> BQueue_Cap q"
  using bq.run_refines [OF assms] bq.run_conserves [OF assms] bq.run_bounded [OF assms(1) refl _ assms(2)]
    assms(1)
  by (auto simp: bq_inv_def BQueue_Cap_def)

lemma bq_wrap_example_inv: "bq_inv bq_wrap_example"
  unfolding bq_inv_def bq_wrap_example_def by (auto intro!: exI [of _ "1::nat"])

theorem BQueue_fifo_witness:
  "fst (queue_run BQueue_Push BQueue_Pop bq_wrap_example [OpPush 7, OpPush 8, OpPush 9, OpPop, OpPop])
     = [ResPush True, ResPush True, ResPush False, ResPop (Some 7), ResPop (Some 8)]"
proof -
  let ?cs = "[OpPush 7, OpPush 8, OpPush 9, OpPop, OpPop]"
  obtain rs q' where r: "queue_run BQueue_Push BQueue_Pop bq_wrap_example ?cs = (rs, q')"
    by fastforce
  have "bq_elems bq_wrap_example = []" "BQueue_Cap bq_wrap_example = 2"
    by (simp_all add: bq_wrap_example_def BQueue_Cap_def)
  with BQueue_fifo [OF bq_wrap_example_inv r] r show ?thesis
    by (auto simp: spec_push_def spec_pop_def has_room_def)
qed

text \<open>
  \<open>PopBatch\<close> writes the \<open>min (len dst) (Len q)\<close> oldest values to the front of \<open>dst\<close>, leaves
  the rest of \<open>dst\<close> unchanged and leaves the queue as that many calls of \<open>Pop\<close> would.
\<close>

theorem BQueue_PopBatch_spec:
  assumes "bq_inv q" "BQueue_PopBatch q dst = (n, dst', q')"
  shows "n = min (length dst) (bq_count q)
       \<and> dst' = take n (bq_elems q) @ drop n dst
       \<and> q' = ((\<lambda>q. snd (BQueue_Pop q)) ^^ n) q
       \<and> bq_elems q' = drop n (bq_elems q) \<and> bq_inv q'"
proof -
  let ?n = "min (length dst) (bq_count q)"
  have r: "n = ?n" "dst' = fst (bq_batch_loop ?n 0 dst q)"
    "q' = (snd (bq_batch_loop ?n 0 dst q)) \<lparr> bq_count := bq_count q - ?n \<rparr>"
    using assms(2) by (auto simp: BQueue_PopBatch_def Let_def split_beta)
  then have "q' = ((\<lambda>q. snd (BQueue_Pop q)) ^^ n) q" using bq_batch_loop_pops [of ?n q] by simp
  with r BQueue_pops [OF assms(1), of n] bq_batch_loop_dst [OF assms(1), of ?n 0 dst] show ?thesis
    by simp
qed

theorem BQueue_PopBatch_spec_witness:
  "fst (BQueue_PopBatch (snd (BQueue_Push bq_wrap_example 7)) [1, 2]) = 1
   \<and> fst (snd (BQueue_PopBatch (snd (BQueue_Push bq_wrap_example 7)) [1, 2])) = [7, 2]"
proof -
  let ?q = "snd (BQueue_Push bq_wrap_example 7)"
  have i: "bq_inv ?q" by (rule BQueue_Push_inv [OF bq_wrap_example_inv])
  have e: "bq_elems ?q = [7]"
    using BQueue_Push_elems [OF bq_wrap_example_inv, of 7]
    by (simp add: bq_wrap_example_def BQueue_Cap_def spec_push_def has_room_def)
  have c: "bq_count ?q = 1" by (simp add: bq_wrap_example_def BQueue_Push_def)
  obtain n d q' where r: "BQueue_PopBatch ?q [1, 2] = (n, d, q')" using prod_cases3 by blast
  show ?thesis using BQueue_PopBatch_spec [OF i r] r e c by simp
qed

text \<open>
  Memory safety and retention: every slot an operation touches is inside the buffer, the
  invariant is kept, and every slot outside the queued range holds the zero value again, so a
  consumed value is not kept alive by the ring.
\<close>

theorem BQueue_safe:
  assumes "bq_inv q" "bq_cleared q"
  shows "unat (bq_tail q AND bq_mask q) < length (bq_buffer q)
       \<and> unat (bq_head q AND bq_mask q) < length (bq_buffer q)
       \<and> bq_inv (snd (BQueue_Push q x)) \<and> bq_cleared (snd (BQueue_Push q x))
       \<and> bq_inv (snd (BQueue_Pop q)) \<and> bq_cleared (snd (BQueue_Pop q))"
proof -
  have "0 < length (bq_buffer q)" using assms(1) by (auto simp: bq_inv_def)
  with assms show ?thesis
    by (simp add: bq_tail_slot bq_head_slot BQueue_Push_inv BQueue_Push_cleared BQueue_Pop_inv
        BQueue_Pop_cleared)
qed

theorem BQueue_safe_witness:
  "bq_cleared (snd (BQueue_Push bq_wrap_example 7))
   \<and> unat (bq_tail bq_wrap_example AND bq_mask bq_wrap_example) < 2"
proof -
  have "[0, 0 :: nat] ! (n mod 2) = 0" for n
    by (cases "even n") (simp_all add: even_iff_mod_2_eq_zero odd_iff_mod_2_eq_one)
  then have "bq_cleared bq_wrap_example"
    unfolding bq_cleared_def bq_wrap_example_def by (simp add: numeral_2_eq_2)
  then show ?thesis
    using BQueue_safe [OF bq_wrap_example_inv, of 7] by (simp add: bq_wrap_example_def)
qed

end
