(* ===== verification/MPSC.thy ===== *)
theory MPSC
  imports Fifo_Queue
begin

text \<open>
  \<open>engine/pkg/utils/mpsc/deque.go\<close>: the unbounded lock-free queue behind unbounded mailboxes,
  a linked list of pooled nodes. Pointers are indices into \<open>ms_nodes\<close>; \<open>ms_pool\<close> holds the
  nodes given back to the \<open>sync.Pool\<close> and \<open>ms_pick\<close> is the pool's choice of which of them (if
  any) a \<open>Get\<close> returns, so statements hold for every behaviour of the pool.

  The atomic accesses of \<open>Push\<close> and \<open>Pop\<close> are separate definitions (\<open>mpsc_acquire\<close>,
  \<open>mpsc_swap\<close>, \<open>mpsc_link\<close>, \<open>mpsc_load_next\<close>, \<open>mpsc_take\<close>, \<open>mpsc_count\<close>). \<open>MPSC_Push\<close> and
  \<open>MPSC_Pop\<close> compose them, which is a call that runs alone; the step relation \<open>mpsc_step\<close>
  interleaves them for any number of producers and one consumer.
\<close>

section \<open>Definitions\<close>

record 'a mnode =
  nd_next :: "nat option"
  nd_val :: 'a

record 'a mpsc =
  ms_nodes :: "'a mnode list"
  ms_head :: nat
  ms_tail :: nat
  ms_nil :: 'a
  ms_pool :: "nat list"
  ms_pick :: "nat list \<Rightarrow> nat option"
  ms_len :: int

definition MPSC_New :: "'a \<Rightarrow> (nat list \<Rightarrow> nat option) \<Rightarrow> 'a mpsc" where
  "MPSC_New zero pick = \<lparr> ms_nodes = [\<lparr> nd_next = None, nd_val = zero \<rparr>], ms_head = 0, ms_tail = 0,
     ms_nil = zero, ms_pool = [], ms_pick = pick, ms_len = 0 \<rparr>"

definition mpsc_pool_get :: "'a mpsc \<Rightarrow> nat \<times> 'a mpsc" where
  "mpsc_pool_get q =
     (let fresh = (length (ms_nodes q),
                   q \<lparr> ms_nodes := ms_nodes q @ [\<lparr> nd_next = None, nd_val = ms_nil q \<rparr>] \<rparr>)
      in case ms_pick q (ms_pool q) of
           None \<Rightarrow> fresh
         | Some n \<Rightarrow> if n \<in> set (ms_pool q) then (n, q \<lparr> ms_pool := remove1 n (ms_pool q) \<rparr>) else fresh)"

definition mpsc_acquire :: "'a \<Rightarrow> 'a mpsc \<Rightarrow> nat \<times> 'a mpsc" where
  "mpsc_acquire x q =
     (case mpsc_pool_get q of
        (n, q1) \<Rightarrow> (n, q1 \<lparr> ms_nodes := (ms_nodes q1)[n := \<lparr> nd_next = None, nd_val = x \<rparr>] \<rparr>))"

definition mpsc_swap :: "nat \<Rightarrow> 'a mpsc \<Rightarrow> nat \<times> 'a mpsc" where
  "mpsc_swap n q = (ms_head q, q \<lparr> ms_head := n \<rparr>)"

definition mpsc_link :: "nat \<Rightarrow> nat \<Rightarrow> 'a mpsc \<Rightarrow> 'a mpsc" where
  "mpsc_link prev n q =
     q \<lparr> ms_nodes := (ms_nodes q)[prev := (ms_nodes q ! prev) \<lparr> nd_next := Some n \<rparr>] \<rparr>"

definition mpsc_count :: "int \<Rightarrow> 'a mpsc \<Rightarrow> 'a mpsc" where
  "mpsc_count d q = q \<lparr> ms_len := ms_len q + d \<rparr>"

definition MPSC_Push :: "'a mpsc \<Rightarrow> 'a \<Rightarrow> bool \<times> 'a mpsc" where
  "MPSC_Push q x =
     (let (n, q1) = mpsc_acquire x q;
          (prev, q2) = mpsc_swap n q1
      in (True, mpsc_count 1 (mpsc_link prev n q2)))"

definition mpsc_load_next :: "'a mpsc \<Rightarrow> nat option" where
  "mpsc_load_next q = nd_next (ms_nodes q ! ms_tail q)"

definition mpsc_take :: "nat \<Rightarrow> 'a mpsc \<Rightarrow> 'a \<times> 'a mpsc" where
  "mpsc_take nxt q =
     (nd_val (ms_nodes q ! nxt),
      q \<lparr> ms_tail := nxt,
          ms_nodes := (ms_nodes q)[ms_tail q := \<lparr> nd_next = None, nd_val = ms_nil q \<rparr>],
          ms_pool := ms_tail q # ms_pool q \<rparr>)"

definition MPSC_Pop :: "'a mpsc \<Rightarrow> 'a option \<times> 'a mpsc" where
  "MPSC_Pop q =
     (case mpsc_load_next q of
        Some nxt \<Rightarrow> (case mpsc_take nxt q of (v, q1) \<Rightarrow> (Some v, mpsc_count (- 1) q1))
      | None \<Rightarrow> (None, q))"

definition MPSC_Empty :: "'a mpsc \<Rightarrow> bool" where
  "MPSC_Empty q \<longleftrightarrow> mpsc_load_next q = None"

definition MPSC_Len :: "'a mpsc \<Rightarrow> int" where
  "MPSC_Len q = ms_len q"

fun mpsc_batch_loop :: "nat \<Rightarrow> 'a mpsc \<Rightarrow> 'a list \<times> 'a mpsc" where
  "mpsc_batch_loop 0 q = ([], q)"
| "mpsc_batch_loop (Suc k) q =
     (case mpsc_load_next q of
        None \<Rightarrow> ([], q)
      | Some nxt \<Rightarrow>
          (case mpsc_take nxt q of
             (v, q1) \<Rightarrow> (case mpsc_batch_loop k (mpsc_count (- 1) q1) of (vs, q2) \<Rightarrow> (v # vs, q2))))"

definition MPSC_BatchPop :: "'a mpsc \<Rightarrow> int \<Rightarrow> 'a list \<times> 'a mpsc" where
  "MPSC_BatchPop q n =
     (if n \<le> 0 then ([], q)
      else let n' = (if n > MPSC_Len q then MPSC_Len q else n) in mpsc_batch_loop (nat n') q)"

subsection \<open>Interleaved calls\<close>

datatype 'a prod_pc = PIdle | PGot nat | PSwapped nat nat | PLinked

datatype cons_pc = CIdle | CLoaded nat | CTaken

text \<open>
  \<open>mc_in\<close>, \<open>mc_out\<close> and \<open>mc_spine\<close> record the history: the values in the order of their
  \<open>SwapPointer\<close>, the values \<open>Pop\<close> returned, and the nodes from \<open>tail\<close> to \<open>head\<close> in that order.
\<close>

record 'a mpsc_conc =
  mc_q :: "'a mpsc"
  mc_prod :: "nat \<Rightarrow> 'a prod_pc"
  mc_cons :: cons_pc
  mc_in :: "'a list"
  mc_out :: "'a list"
  mc_spine :: "nat list"

definition mpsc_start :: "'a \<Rightarrow> (nat list \<Rightarrow> nat option) \<Rightarrow> 'a mpsc_conc" where
  "mpsc_start zero pick = \<lparr> mc_q = MPSC_New zero pick, mc_prod = (\<lambda>_. PIdle), mc_cons = CIdle,
     mc_in = [], mc_out = [], mc_spine = [0] \<rparr>"

inductive mpsc_step :: "'a mpsc_conc \<Rightarrow> 'a mpsc_conc \<Rightarrow> bool" where
  acquire: "mc_prod s p = PIdle \<Longrightarrow> mpsc_acquire x ((mc_q s) \<lparr> ms_pick := pick \<rparr>) = (n, q') \<Longrightarrow>
     mpsc_step s (s \<lparr> mc_q := q', mc_prod := (mc_prod s)(p := PGot n) \<rparr>)"
| swap: "mc_prod s p = PGot n \<Longrightarrow> mpsc_swap n (mc_q s) = (prev, q') \<Longrightarrow>
     mpsc_step s (s \<lparr> mc_q := q', mc_prod := (mc_prod s)(p := PSwapped prev n),
                      mc_in := mc_in s @ [nd_val (ms_nodes (mc_q s) ! n)],
                      mc_spine := mc_spine s @ [n] \<rparr>)"
| link: "mc_prod s p = PSwapped prev n \<Longrightarrow>
     mpsc_step s (s \<lparr> mc_q := mpsc_link prev n (mc_q s), mc_prod := (mc_prod s)(p := PLinked) \<rparr>)"
| count_up: "mc_prod s p = PLinked \<Longrightarrow>
     mpsc_step s (s \<lparr> mc_q := mpsc_count 1 (mc_q s), mc_prod := (mc_prod s)(p := PIdle) \<rparr>)"
| load: "mc_cons s = CIdle \<Longrightarrow> mpsc_load_next (mc_q s) = Some nxt \<Longrightarrow>
     mpsc_step s (s \<lparr> mc_cons := CLoaded nxt \<rparr>)"
| take: "mc_cons s = CLoaded nxt \<Longrightarrow> mpsc_take nxt (mc_q s) = (v, q') \<Longrightarrow>
     mpsc_step s (s \<lparr> mc_q := q', mc_cons := CTaken, mc_out := mc_out s @ [v],
                      mc_spine := tl (mc_spine s) \<rparr>)"
| count_down: "mc_cons s = CTaken \<Longrightarrow>
     mpsc_step s (s \<lparr> mc_q := mpsc_count (- 1) (mc_q s), mc_cons := CIdle \<rparr>)"

subsection \<open>Invariant and abstraction\<close>

text \<open>
  \<open>ms_shape q E G ns\<close>: the nodes from \<open>tail\<close> to \<open>head\<close> are \<open>ns\<close>; every node points to its
  successor, except at the pairs \<open>E\<close> whose link has not been stored yet; the nodes \<open>G\<close> belong
  to producers that have not swapped; pooled nodes are none of these.
\<close>

definition ms_shape :: "'a mpsc \<Rightarrow> (nat \<times> nat) set \<Rightarrow> nat set \<Rightarrow> nat list \<Rightarrow> bool" where
  "ms_shape q E G ns \<longleftrightarrow>
     ns \<noteq> [] \<and> hd ns = ms_tail q \<and> last ns = ms_head q
     \<and> distinct (ns @ ms_pool q)
     \<and> (\<forall>n \<in> set ns \<union> set (ms_pool q) \<union> G. n < length (ms_nodes q))
     \<and> G \<inter> (set ns \<union> set (ms_pool q)) = {}
     \<and> (\<forall>n \<in> G. nd_next (ms_nodes q ! n) = None)
     \<and> E \<subseteq> {(ns ! i, ns ! Suc i) |i. Suc i < length ns}
     \<and> (\<forall>i. Suc i < length ns \<longrightarrow>
          nd_next (ms_nodes q ! (ns ! i)) = (if (ns ! i, ns ! Suc i) \<in> E then None else Some (ns ! Suc i)))
     \<and> nd_next (ms_nodes q ! last ns) = None"

fun ms_walk :: "nat \<Rightarrow> 'a mnode list \<Rightarrow> nat \<Rightarrow> nat list" where
  "ms_walk 0 nodes a = [a]"
| "ms_walk (Suc k) nodes a = a # (case nd_next (nodes ! a) of None \<Rightarrow> [] | Some b \<Rightarrow> ms_walk k nodes b)"

definition ms_elems :: "'a mpsc \<Rightarrow> 'a list" where
  "ms_elems q = map (\<lambda>n. nd_val (ms_nodes q ! n)) (tl (ms_walk (length (ms_nodes q)) (ms_nodes q) (ms_tail q)))"

definition ms_inv :: "'a mpsc \<Rightarrow> bool" where
  "ms_inv q \<longleftrightarrow> (\<exists>ns. ms_shape q {} {} ns \<and> ms_len q = int (length ns) - 1)"

definition mc_links :: "'a mpsc_conc \<Rightarrow> (nat \<times> nat) set" where
  "mc_links s = {(a, b). \<exists>p. mc_prod s p = PSwapped a b}"

definition mc_held :: "'a mpsc_conc \<Rightarrow> nat set" where
  "mc_held s = {n. \<exists>p. mc_prod s p = PGot n}"

definition mc_pending :: "'a mpsc_conc \<Rightarrow> nat set" where
  "mc_pending s = {p. mc_prod s p = PLinked \<or> (\<exists>a b. mc_prod s p = PSwapped a b)}"

definition mc_uniq :: "(nat \<Rightarrow> 'a prod_pc) \<Rightarrow> bool" where
  "mc_uniq f \<longleftrightarrow> (\<forall>p p'. f p = f p' \<and> f p \<noteq> PIdle \<and> f p \<noteq> PLinked \<longrightarrow> p = p')"

definition mc_inv :: "'a mpsc_conc \<Rightarrow> bool" where
  "mc_inv s \<longleftrightarrow>
     ms_shape (mc_q s) (mc_links s) (mc_held s) (mc_spine s)
     \<and> mc_uniq (mc_prod s)
     \<and> mc_in s = mc_out s @ map (\<lambda>n. nd_val (ms_nodes (mc_q s) ! n)) (tl (mc_spine s))
     \<and> (\<forall>nxt. mc_cons s = CLoaded nxt \<longrightarrow> mpsc_load_next (mc_q s) = Some nxt)
     \<and> finite (mc_pending s)
     \<and> ms_len (mc_q s) + int (card (mc_pending s))
         = int (length (tl (mc_spine s))) + (if mc_cons s = CTaken then 1 else 0)"

section \<open>The effect of each atomic access\<close>

abbreviation ms_val :: "'a mpsc \<Rightarrow> nat \<Rightarrow> 'a" where
  "ms_val q n \<equiv> nd_val (ms_nodes q ! n)"

lemma ms_shape_pick: "ms_shape (q \<lparr> ms_pick := p \<rparr>) E G ns = ms_shape q E G ns"
  by (simp add: ms_shape_def)

lemma ms_shape_last:
  assumes "ms_shape q E G ns"
  shows "nd_next (ms_nodes q ! last ns) = None" "ns \<noteq> []" "distinct ns" "hd ns = ms_tail q"
  using assms unfolding ms_shape_def by auto

lemma ms_shape_frame:
  assumes "ms_shape q E G ns" "ms_tail q' = ms_tail q" "ms_head q' = ms_head q"
    and "distinct (ns @ ms_pool q')" "G \<inter> set (ms_pool q') = {}"
    and "\<forall>n \<in> set ns \<union> set (ms_pool q') \<union> G. n < length (ms_nodes q')"
    and keep: "\<forall>m \<in> set ns \<union> G. ms_nodes q' ! m = ms_nodes q ! m"
  shows "ms_shape q' E G ns"
proof -
  have ns: "ns \<noteq> []" using assms(1) by (simp add: ms_shape_def)
  then have "ms_nodes q' ! last ns = ms_nodes q ! last ns" using keep by simp
  moreover have "ms_nodes q' ! (ns ! i) = ms_nodes q ! (ns ! i)" if "Suc i < length ns" for i
    using keep that by simp
  ultimately show ?thesis
    using assms unfolding ms_shape_def by (auto simp: Int_Un_distrib)
qed

lemma ms_shape_count: "ms_shape (mpsc_count d q) E G ns = ms_shape q E G ns"
  by (simp add: ms_shape_def mpsc_count_def)

lemma pool_get_shape:
  assumes "ms_shape q E G ns" "mpsc_pool_get q = (n, q')"
  shows "n \<notin> G" "n \<notin> set ns" "n \<notin> set (ms_pool q')" "n < length (ms_nodes q')"
    "ms_shape q' E G ns" "\<forall>m \<in> set ns \<union> G. ms_val q' m = ms_val q m" "ms_len q' = ms_len q"
proof -
  have *: "n \<notin> G \<and> n \<notin> set ns \<and> n \<notin> set (ms_pool q') \<and> n < length (ms_nodes q')
    \<and> ms_shape q' E G ns \<and> (\<forall>m \<in> set ns \<union> G. ms_val q' m = ms_val q m) \<and> ms_len q' = ms_len q"
  proof (cases "\<exists>m. ms_pick q (ms_pool q) = Some m \<and> m \<in> set (ms_pool q)")
    case True
    then obtain m where "ms_pick q (ms_pool q) = Some m" "m \<in> set (ms_pool q)" by blast
    then have q': "m = n" "q' = q \<lparr> ms_pool := remove1 n (ms_pool q) \<rparr>" "n \<in> set (ms_pool q)"
      using assms(2) by (auto simp: mpsc_pool_get_def Let_def)
    with assms(1) show ?thesis
      by (auto simp: ms_shape_def dest: notin_set_remove1 set_remove1_subset [THEN subsetD])
  next
    case False
    then have q': "n = length (ms_nodes q)"
      "q' = q \<lparr> ms_nodes := ms_nodes q @ [\<lparr> nd_next = None, nd_val = ms_nil q \<rparr>] \<rparr>"
      using assms(2) by (auto simp: mpsc_pool_get_def Let_def split: option.splits if_splits)
    have keep: "(ms_nodes q @ xs) ! m = ms_nodes q ! m" if "m \<in> set ns \<union> set (ms_pool q) \<union> G" for m xs
      using assms(1) that by (simp add: ms_shape_def nth_append)
    have "ms_shape q' E G ns"
      using assms(1) by (rule ms_shape_frame) (use assms(1) keep in \<open>auto simp: q' ms_shape_def less_SucI\<close>)
    then show ?thesis using assms(1) keep unfolding q' by (auto simp: ms_shape_def)
  qed
  then show "n \<notin> G" "n \<notin> set ns" "n \<notin> set (ms_pool q')" "n < length (ms_nodes q')"
    "ms_shape q' E G ns" "\<forall>m \<in> set ns \<union> G. ms_val q' m = ms_val q m" "ms_len q' = ms_len q"
    by blast+
qed

lemma acquire_shape:
  assumes "ms_shape q E G ns" "mpsc_acquire x q = (n, q')"
  shows "n \<notin> G" "n \<notin> set ns" "ms_shape q' E (insert n G) ns" "ms_val q' n = x"
    "\<forall>m \<in> set ns \<union> G. ms_val q' m = ms_val q m" "ms_len q' = ms_len q"
proof -
  obtain q1 where g: "mpsc_pool_get q = (n, q1)"
    and q': "q' = q1 \<lparr> ms_nodes := (ms_nodes q1)[n := \<lparr> nd_next = None, nd_val = x \<rparr>] \<rparr>"
    using assms(2) by (auto simp: mpsc_acquire_def split: prod.splits)
  note f = pool_get_shape [OF assms(1) g]
  show "n \<notin> G" "n \<notin> set ns" by (fact f)+
  show "ms_val q' n = x" using f(4) by (simp add: q')
  show "ms_len q' = ms_len q" using f(7) by (simp add: q')
  have keep: "ms_nodes q' ! m = ms_nodes q1 ! m" if "m \<in> set ns \<union> G" for m
  proof -
    have "m \<noteq> n" using f(1,2) that by auto
    then show ?thesis by (simp add: q')
  qed
  then show "\<forall>m \<in> set ns \<union> G. ms_val q' m = ms_val q m" using f(6) by simp
  have "ms_shape q' E G ns"
    using f(5) by (rule ms_shape_frame) (use f(5) keep in \<open>auto simp: q' ms_shape_def\<close>)
  with f(1-4) show "ms_shape q' E (insert n G) ns"
    unfolding ms_shape_def by (auto simp: q')
qed

lemma swap_shape:
  assumes "ms_shape q E G ns" "n \<in> G" "mpsc_swap n q = (prev, q')"
  shows "prev = last ns" "ms_shape q' (insert (last ns, n) E) (G - {n}) (ns @ [n])"
    "\<forall>m. ms_val q' m = ms_val q m" "ms_len q' = ms_len q"
proof -
  have q': "prev = ms_head q" "q' = q \<lparr> ms_head := n \<rparr>" using assms(3) by (auto simp: mpsc_swap_def)
  then show "prev = last ns" "\<forall>m. ms_val q' m = ms_val q m" "ms_len q' = ms_len q"
    using assms(1) by (auto simp: ms_shape_def)
  let ?P = "\<lambda>ns. {(ns ! i, ns ! Suc i) |i. Suc i < length ns}"
  have ns: "ns \<noteq> []" using assms(1) by (simp add: ms_shape_def)
  have last_in: "(last ns, n) \<in> ?P (ns @ [n])"
    using ns by (auto simp: nth_append last_conv_nth intro!: exI [of _ "length ns - 1"])
  have "E \<subseteq> ?P (ns @ [n])"
  proof
    fix e assume "e \<in> E"
    then obtain i where "Suc i < length ns" "e = (ns ! i, ns ! Suc i)"
      using assms(1) by (auto simp: ms_shape_def)
    then show "e \<in> ?P (ns @ [n])" by (auto simp: nth_append intro!: exI [of _ i])
  qed
  moreover have "nd_next (ms_nodes q ! ((ns @ [n]) ! i)) =
      (if ((ns @ [n]) ! i, (ns @ [n]) ! Suc i) \<in> insert (last ns, n) E then None else Some ((ns @ [n]) ! Suc i))"
    if "Suc i < length (ns @ [n])" for i
  proof (cases "Suc i < length ns")
    case True
    moreover have "ns ! Suc i \<noteq> n" using assms(1,2) True by (auto simp: ms_shape_def)
    ultimately show ?thesis using assms(1) by (simp add: ms_shape_def nth_append)
  next
    case False
    then have i: "i = length ns - 1" "i < length ns" using that ns by auto
    then have "(ns @ [n]) ! i = last ns" "(ns @ [n]) ! Suc i = n"
      using ns by (auto simp: nth_append last_conv_nth)
    then show ?thesis using ms_shape_last(1) [OF assms(1)] by simp
  qed
  ultimately show "ms_shape q' (insert (last ns, n) E) (G - {n}) (ns @ [n])"
    using assms(1,2) last_in ns unfolding ms_shape_def q' by auto
qed

lemma link_shape:
  assumes "ms_shape q E G ns" "(a, b) \<in> E"
  shows "ms_shape (mpsc_link a b q) (E - {(a, b)}) G ns"
    "\<forall>m. ms_val (mpsc_link a b q) m = ms_val q m" "ms_len (mpsc_link a b q) = ms_len q"
proof -
  obtain j where j: "Suc j < length ns" "a = ns ! j" "b = ns ! Suc j"
    using assms by (auto simp: ms_shape_def)
  have a: "a \<in> set ns" "a < length (ms_nodes q)" using j assms(1) by (auto simp: ms_shape_def)
  have d: "distinct ns" using assms(1) by (simp add: ms_shape_def)
  let ?N = "ms_nodes (mpsc_link a b q)"
  have nth: "?N ! m = (if m = a then (ms_nodes q ! a) \<lparr> nd_next := Some b \<rparr> else ms_nodes q ! m)" for m
    using a by (auto simp: mpsc_link_def)
  then show "\<forall>m. ms_val (mpsc_link a b q) m = ms_val q m" "ms_len (mpsc_link a b q) = ms_len q"
    by (auto simp: mpsc_link_def)
  have "last ns \<noteq> a"
  proof -
    have "ns ! (length ns - 1) \<noteq> ns ! j" using j d nth_eq_iff_index_eq [of ns "length ns - 1" j] by auto
    then show ?thesis using j last_conv_nth [OF ms_shape_last(2) [OF assms(1)]] by auto
  qed
  moreover have "nd_next (?N ! (ns ! i)) =
      (if (ns ! i, ns ! Suc i) \<in> E - {(a, b)} then None else Some (ns ! Suc i))"
    if i: "Suc i < length ns" for i
  proof (cases "i = j")
    case True
    then show ?thesis using j nth by simp
  next
    case False
    then have "ns ! i \<noteq> a" using i j d by (simp add: nth_eq_iff_index_eq)
    then show ?thesis using nth assms(1) i by (simp add: ms_shape_def)
  qed
  moreover have "\<forall>n \<in> G. n \<noteq> a" using a assms(1) by (auto simp: ms_shape_def)
  moreover have "ms_tail (mpsc_link a b q) = ms_tail q" "ms_head (mpsc_link a b q) = ms_head q"
    "ms_pool (mpsc_link a b q) = ms_pool q" "length ?N = length (ms_nodes q)"
    by (simp_all add: mpsc_link_def)
  ultimately show "ms_shape (mpsc_link a b q) (E - {(a, b)}) G ns"
    using assms(1) unfolding ms_shape_def
    apply (elim conjE)
    apply (intro conjI)
    apply simp_all[5]
    subgoal by simp
    subgoal by (simp add: nth)
    subgoal by blast
    subgoal by blast
    subgoal by (simp add: nth)
    done
qed

lemma load_next_shape:
  assumes "ms_shape q E G ns" "mpsc_load_next q = Some nxt"
  obtains r where "ns = ms_tail q # nxt # r" "(ms_tail q, nxt) \<notin> E"
proof (cases ns)
  case Nil
  then show ?thesis using assms(1) by (simp add: ms_shape_def)
next
  case (Cons t r)
  then have t: "t = ms_tail q" using assms(1) by (simp add: ms_shape_def)
  show ?thesis
  proof (cases r)
    case Nil
    then have "mpsc_load_next q = None"
      using ms_shape_last(1) [OF assms(1)] Cons t by (simp add: mpsc_load_next_def)
    then show ?thesis using assms(2) by simp
  next
    case (Cons n r')
    then have "nd_next (ms_nodes q ! t) = (if (t, n) \<in> E then None else Some n)"
      using assms(1) \<open>ns = t # r\<close> by (auto simp: ms_shape_def dest!: spec [of _ 0])
    then show ?thesis
      using that [of r'] assms(2) Cons \<open>ns = t # r\<close> t by (auto simp: mpsc_load_next_def split: if_splits)
  qed
qed

lemma take_shape:
  assumes "ms_shape q E G ns" "ns = ms_tail q # nxt # r" "(ms_tail q, nxt) \<notin> E"
    and "mpsc_take nxt q = (v, q')"
  shows "v = ms_val q nxt" "ms_shape q' E G (tl ns)"
    "\<forall>m \<in> set (tl ns) \<union> G. ms_val q' m = ms_val q m" "ms_len q' = ms_len q"
proof -
  let ?t = "ms_tail q"
  have q': "v = ms_val q nxt" "ms_tail q' = nxt" "ms_head q' = ms_head q" "ms_pool q' = ?t # ms_pool q"
    "ms_nodes q' = (ms_nodes q)[?t := \<lparr> nd_next = None, nd_val = ms_nil q \<rparr>]" "ms_len q' = ms_len q"
    using assms(4) by (auto simp: mpsc_take_def)
  then show "v = ms_val q nxt" "ms_len q' = ms_len q" by simp_all
  have t: "?t \<notin> set (tl ns)" "?t \<notin> G" "?t < length (ms_nodes q)"
    using assms(1,2) by (auto simp: ms_shape_def)
  have keep: "ms_nodes q' ! m = ms_nodes q ! m" if "m \<in> set (tl ns) \<union> G" for m
  proof -
    have "m \<noteq> ?t" using t that by auto
    then show ?thesis by (simp add: q')
  qed
  then show "\<forall>m \<in> set (tl ns) \<union> G. ms_val q' m = ms_val q m" by simp
  have "E \<subseteq> {(tl ns ! i, tl ns ! Suc i) |i. Suc i < length (tl ns)}"
  proof
    fix e assume e: "e \<in> E"
    then obtain i where i: "Suc i < length ns" "e = (ns ! i, ns ! Suc i)"
      using assms(1) by (auto simp: ms_shape_def)
    then obtain k where "i = Suc k" using e assms(2,3) by (cases i) auto
    then show "e \<in> {(tl ns ! i, tl ns ! Suc i) |i. Suc i < length (tl ns)}"
      using i assms(2) by auto
  qed
  moreover have "nd_next (ms_nodes q ! (tl ns ! i)) =
      (if (tl ns ! i, tl ns ! Suc i) \<in> E then None else Some (tl ns ! Suc i))"
    if "Suc i < length (tl ns)" for i
    using assms(1,2) that unfolding ms_shape_def by (auto dest!: spec [of _ "Suc i"])
  ultimately have "ms_shape (q \<lparr> ms_tail := nxt \<rparr>) E G (tl ns)"
    using assms(1,2) unfolding ms_shape_def by auto
  then show "ms_shape q' E G (tl ns)"
    by (rule ms_shape_frame) (use assms(1,2) t keep in \<open>auto simp: q' ms_shape_def\<close>)
qed

lemmas mpsc_shape_facts = acquire_shape swap_shape link_shape take_shape

section \<open>Calls that run alone\<close>

lemma ms_walk_spine:
  assumes "distinct ns" "ns \<noteq> []" "length ns \<le> Suc k" "nd_next (nodes ! last ns) = None"
    and "\<forall>i. Suc i < length ns \<longrightarrow> nd_next (nodes ! (ns ! i)) = Some (ns ! Suc i)"
  shows "ms_walk k nodes (hd ns) = ns"
  using assms
proof (induction k arbitrary: ns)
  case 0
  then show ?case by (cases ns) auto
next
  case (Suc k)
  then obtain a r where ns: "ns = a # r" by (cases ns) auto
  show ?case
  proof (cases r)
    case Nil
    then show ?thesis using Suc ns by simp
  next
    case (Cons b r')
    have "nd_next (nodes ! a) = Some b" using Suc(6) ns Cons by (auto dest!: spec [of _ 0])
    moreover have "ms_walk k nodes (hd r) = r"
      by (rule Suc.IH) (use Suc(2-6) ns Cons in \<open>auto dest: spec [of _ "Suc _"]\<close>)
    ultimately show ?thesis using ns Cons by simp
  qed
qed

lemma ms_elems_spine:
  assumes "ms_shape q {} G ns"
  shows "ms_elems q = map (ms_val q) (tl ns)"
proof -
  have d: "distinct ns" "set ns \<subseteq> {..<length (ms_nodes q)}"
    using assms by (auto simp: ms_shape_def)
  then have "length ns \<le> length (ms_nodes q)"
    by (metis card_lessThan card_mono distinct_card finite_lessThan)
  moreover have "\<forall>i. Suc i < length ns \<longrightarrow> nd_next (ms_nodes q ! (ns ! i)) = Some (ns ! Suc i)"
    using assms by (simp add: ms_shape_def)
  ultimately have "ms_walk (length (ms_nodes q)) (ms_nodes q) (hd ns) = ns"
    using ms_shape_last [OF assms] by (intro ms_walk_spine) auto
  then show ?thesis using ms_shape_last(4) [OF assms] by (simp add: ms_elems_def)
qed

lemma ms_inv_obtain:
  assumes "ms_inv q"
  obtains ns where "ms_shape q {} {} ns" "ms_len q = int (length ns) - 1" "ms_elems q = map (ms_val q) (tl ns)"
  using assms ms_elems_spine by (auto simp: ms_inv_def)

lemma MPSC_New_inv: "ms_inv (MPSC_New z pick)" "ms_elems (MPSC_New z pick) = []"
proof -
  have sh: "ms_shape (MPSC_New z pick) {} {} [0]" by (simp add: ms_shape_def MPSC_New_def)
  then show "ms_inv (MPSC_New z pick)" unfolding ms_inv_def
    by (intro exI [of _ "[0]"]) (simp add: MPSC_New_def)
  show "ms_elems (MPSC_New z pick) = []" using ms_elems_spine [OF sh] by simp
qed

lemma MPSC_Push_spec:
  assumes "ms_inv q"
  shows "fst (MPSC_Push q x)" "ms_inv (snd (MPSC_Push q x))"
    "ms_elems (snd (MPSC_Push q x)) = ms_elems q @ [x]"
proof -
  obtain ns where sh: "ms_shape q {} {} ns" and len: "ms_len q = int (length ns) - 1"
    and el: "ms_elems q = map (ms_val q) (tl ns)"
    using assms by (rule ms_inv_obtain)
  obtain n q1 where a: "mpsc_acquire x q = (n, q1)" by fastforce
  obtain prev q2 where w: "mpsc_swap n q1 = (prev, q2)" by fastforce
  have r: "MPSC_Push q x = (True, mpsc_count 1 (mpsc_link prev n q2))"
    by (simp add: MPSC_Push_def a w)
  note A = acquire_shape [OF sh a]
  note S = swap_shape [OF A(3) insertI1 w]
  have S': "ms_shape q2 {(prev, n)} {} (ns @ [n])" using S(1,2) A(1) by simp
  note K = link_shape [OF S' singletonI]
  let ?q = "mpsc_count 1 (mpsc_link prev n q2)"
  have sh': "ms_shape ?q {} {} (ns @ [n])" using K(1) by (simp add: ms_shape_count)
  have val: "ms_val ?q m = ms_val q m" if "m \<in> set ns" for m
    using K(2) S(3) A(5) that by (simp add: mpsc_count_def)
  have "ms_val ?q n = x" using K(2) S(3) A(4) by (simp add: mpsc_count_def)
  moreover have "set (tl ns) \<subseteq> set ns" by (cases ns) auto
  ultimately show "ms_elems (snd (MPSC_Push q x)) = ms_elems q @ [x]"
    using ms_elems_spine [OF sh'] el val ms_shape_last(2) [OF sh] r by auto
  have "ms_len ?q = int (length (ns @ [n])) - 1"
    using K(3) S(4) A(6) len by (simp add: mpsc_count_def)
  with sh' show "fst (MPSC_Push q x)" "ms_inv (snd (MPSC_Push q x))"
    unfolding ms_inv_def r by auto
qed

lemma mpsc_load_next_iff:
  assumes "ms_shape q {} {} ns"
  shows "mpsc_load_next q = None \<longleftrightarrow> tl ns = []"
proof (cases "mpsc_load_next q")
  case None
  have "tl ns = []"
  proof (rule ccontr)
    assume "tl ns \<noteq> []"
    then obtain t n r where "ns = t # n # r" by (metis list.collapse list.sel(2))
    then show False
      using assms None unfolding ms_shape_def by (auto simp: mpsc_load_next_def dest!: spec [of _ 0])
  qed
  with None show ?thesis by simp
next
  case (Some nxt)
  then obtain r where "ns = ms_tail q # nxt # r" using load_next_shape [OF assms] by metis
  with Some show ?thesis by simp
qed

lemma MPSC_Pop_spec:
  assumes "ms_inv q"
  shows "ms_inv (snd (MPSC_Pop q))"
    "(fst (MPSC_Pop q), ms_elems (snd (MPSC_Pop q))) = spec_pop (ms_elems q)"
proof -
  obtain ns where sh: "ms_shape q {} {} ns" and len: "ms_len q = int (length ns) - 1"
    and el: "ms_elems q = map (ms_val q) (tl ns)"
    using assms by (rule ms_inv_obtain)
  have "ms_inv (snd (MPSC_Pop q))
    \<and> (fst (MPSC_Pop q), ms_elems (snd (MPSC_Pop q))) = spec_pop (ms_elems q)"
  proof (cases "mpsc_load_next q")
    case None
    then show ?thesis
      using mpsc_load_next_iff [OF sh] el assms by (simp add: MPSC_Pop_def spec_pop_def)
  next
    case (Some nxt)
    then obtain r where ns: "ns = ms_tail q # nxt # r" "(ms_tail q, nxt) \<notin> {}"
      using load_next_shape [OF sh] by metis
    obtain v q1 where t: "mpsc_take nxt q = (v, q1)" by fastforce
    note T = take_shape [OF sh ns t]
    have sh': "ms_shape (mpsc_count (- 1) q1) {} {} (nxt # r)" using T(2) ns by (simp add: ms_shape_count)
    have "ms_len (mpsc_count (- 1) q1) = int (length (nxt # r)) - 1"
      using T(4) len ns by (simp add: mpsc_count_def)
    moreover have "ms_elems (mpsc_count (- 1) q1) = map (ms_val q) r"
      using ms_elems_spine [OF sh'] T(3) ns by (simp add: mpsc_count_def)
    ultimately show ?thesis
      using sh' T(1) el ns Some t by (auto simp: MPSC_Pop_def spec_pop_def ms_inv_def)
  qed
  then show "ms_inv (snd (MPSC_Pop q))"
    "(fst (MPSC_Pop q), ms_elems (snd (MPSC_Pop q))) = spec_pop (ms_elems q)" by blast+
qed

lemma MPSC_Empty_spec: "ms_inv q \<Longrightarrow> MPSC_Empty q \<longleftrightarrow> ms_elems q = []"
  by (elim ms_inv_obtain) (simp add: MPSC_Empty_def mpsc_load_next_iff)

lemma MPSC_Len_spec: "ms_inv q \<Longrightarrow> MPSC_Len q = int (length (ms_elems q))"
  by (elim ms_inv_obtain) (auto simp: MPSC_Len_def dest: ms_shape_last(2) simp flip: length_greater_0_conv)

interpretation ms: fifo_queue ms_inv ms_elems "\<lambda>_. None" MPSC_Push MPSC_Pop MPSC_Empty MPSC_Len
proof unfold_locales
  fix q :: "'a mpsc"
  show "fst (MPSC_Pop q) = None \<Longrightarrow> snd (MPSC_Pop q) = q"
    by (auto simp: MPSC_Pop_def split: option.splits prod.splits)
qed (simp_all add: MPSC_Push_spec MPSC_Pop_spec MPSC_Empty_spec MPSC_Len_spec spec_push_def has_room_def)

section \<open>Interleaved calls\<close>

inductive_cases mpsc_stepE: "mpsc_step s s'"

lemma load_next_eq:
  assumes "ms_shape q E G ns"
  shows "mpsc_load_next q = Some nxt \<longleftrightarrow> (\<exists>r. ns = ms_tail q # nxt # r \<and> (ms_tail q, nxt) \<notin> E)"
proof
  show "\<exists>r. ns = ms_tail q # nxt # r \<and> (ms_tail q, nxt) \<notin> E" if "mpsc_load_next q = Some nxt"
    using load_next_shape [OF assms that] by metis
  show "mpsc_load_next q = Some nxt" if "\<exists>r. ns = ms_tail q # nxt # r \<and> (ms_tail q, nxt) \<notin> E"
    using assms that unfolding ms_shape_def mpsc_load_next_def by (auto dest!: spec [of _ 0])
qed

lemma set_tl_subset: "set (tl xs) \<subseteq> set xs"
  by (cases xs) auto

lemma ex_upd_other: "f p \<noteq> c \<Longrightarrow> (\<exists>p'. (f(p := v)) p' = c) \<longleftrightarrow> v = c \<or> (\<exists>p'. f p' = c)"
  by auto

lemma ex_upd_same: "\<forall>p'. f p' = c \<longrightarrow> p' = p \<Longrightarrow> v \<noteq> c \<Longrightarrow> \<not> (\<exists>p'. (f(p := v)) p' = c)"
  by auto

lemma mc_uniq_upd:
  "mc_uniq f \<Longrightarrow> v = PIdle \<or> v = PLinked \<or> (\<forall>p'. f p' \<noteq> v) \<Longrightarrow> mc_uniq (f(p := v))"
  unfolding mc_uniq_def by (simp add: fun_upd_apply) metis

lemma mc_uniqD: "mc_uniq f \<Longrightarrow> f p = c \<Longrightarrow> f p' = c \<Longrightarrow> c \<noteq> PIdle \<Longrightarrow> c \<noteq> PLinked \<Longrightarrow> p' = p"
  unfolding mc_uniq_def by metis

lemma mc_sets_upd_idle:
  assumes "f p = PIdle \<or> f p = PLinked"
  shows "{(a, b). \<exists>p'. (f(p := v)) p' = PSwapped a b} = {(a, b). v = PSwapped a b \<or> (\<exists>p'. f p' = PSwapped a b)}"
    "{n. \<exists>p'. (f(p := v)) p' = PGot n} = {n. v = PGot n \<or> (\<exists>p'. f p' = PGot n)}"
proof -
  have *: "(\<exists>p'. (f(p := v)) p' = PSwapped a b) \<longleftrightarrow> v = PSwapped a b \<or> (\<exists>p'. f p' = PSwapped a b)"
    "(\<exists>p'. (f(p := v)) p' = PGot n) \<longleftrightarrow> v = PGot n \<or> (\<exists>p'. f p' = PGot n)" for a b n
    using assms by (intro ex_upd_other; force)+
  show "{(a, b). \<exists>p'. (f(p := v)) p' = PSwapped a b} = {(a, b). v = PSwapped a b \<or> (\<exists>p'. f p' = PSwapped a b)}"
    "{n. \<exists>p'. (f(p := v)) p' = PGot n} = {n. v = PGot n \<or> (\<exists>p'. f p' = PGot n)}"
    unfolding * by (rule refl)+
qed

lemma mc_sets_upd_busy:
  assumes "mc_uniq f" "f p = c" "c \<noteq> PIdle" "c \<noteq> PLinked" "v \<noteq> c"
  shows "{(a, b). \<exists>p'. (f(p := v)) p' = PSwapped a b}
           = {(a, b). v = PSwapped a b \<or> (\<exists>p'. f p' = PSwapped a b)} - {(a, b). c = PSwapped a b}"
    "{n. \<exists>p'. (f(p := v)) p' = PGot n} = {n. v = PGot n \<or> (\<exists>p'. f p' = PGot n)} - {n. c = PGot n}"
proof -
  have *: "(\<exists>p'. (f(p := v)) p' = d) \<longleftrightarrow> (v = d \<or> (\<exists>p'. f p' = d)) \<and> c \<noteq> d" for d
  proof (cases "c = d")
    case True
    then show ?thesis using ex_upd_same [of f d p v] mc_uniqD [OF assms(1,2)] assms(3-5) by blast
  next
    case False
    then show ?thesis using ex_upd_other [of f p d v] assms(2) by blast
  qed
  show "{(a, b). \<exists>p'. (f(p := v)) p' = PSwapped a b}
           = {(a, b). v = PSwapped a b \<or> (\<exists>p'. f p' = PSwapped a b)} - {(a, b). c = PSwapped a b}"
    "{n. \<exists>p'. (f(p := v)) p' = PGot n} = {n. v = PGot n \<or> (\<exists>p'. f p' = PGot n)} - {n. c = PGot n}"
    unfolding * by auto
qed

lemmas mc_set_defs = mc_links_def mc_held_def mc_pending_def

lemma mc_inv_start: "mc_inv (mpsc_start z pick)"
proof -
  have "ms_shape (MPSC_New z pick) {} {} [0]" by (simp add: ms_shape_def MPSC_New_def)
  then show ?thesis
    by (simp add: mc_inv_def mpsc_start_def mc_set_defs MPSC_New_def mc_uniq_def)
qed

lemma mc_inv_acquire:
  assumes "mc_inv s" "mc_prod s p = PIdle" "mpsc_acquire x ((mc_q s) \<lparr> ms_pick := pick \<rparr>) = (n, q')"
  shows "mc_inv (s \<lparr> mc_q := q', mc_prod := (mc_prod s)(p := PGot n) \<rparr>)" (is "mc_inv ?s")
proof -
  have sh: "ms_shape ((mc_q s) \<lparr> ms_pick := pick \<rparr>) (mc_links s) (mc_held s) (mc_spine s)"
    using assms(1) by (simp add: mc_inv_def ms_shape_pick)
  note A = acquire_shape [OF sh assms(3)]
  have sets: "mc_links ?s = mc_links s" "mc_held ?s = insert n (mc_held s)" "mc_pending ?s = mc_pending s"
    using assms(2) mc_sets_upd_idle [of "mc_prod s" p "PGot n"] by (auto simp: mc_set_defs)
  have fresh: "mc_prod s p' \<noteq> PGot n" for p' using A(1) by (auto simp: mc_held_def)
  have "mpsc_load_next q' = Some nxt" if "mpsc_load_next (mc_q s) = Some nxt" for nxt
  proof -
    have "ms_tail q' = ms_tail (mc_q s)" using ms_shape_last(4) [OF A(3)] ms_shape_last(4) [OF sh] by simp
    moreover have "mpsc_load_next ((mc_q s) \<lparr> ms_pick := pick \<rparr>) = Some nxt"
      using that by (simp add: mpsc_load_next_def)
    ultimately show ?thesis using load_next_eq [OF A(3), of nxt] load_next_eq [OF sh, of nxt] by simp
  qed
  moreover have "map (ms_val q') (tl (mc_spine s)) = map (ms_val (mc_q s)) (tl (mc_spine s))"
    using A(5) set_tl_subset [of "mc_spine s"] by auto
  moreover have "mc_uniq (mc_prod ?s)"
    using assms(1) fresh mc_uniq_upd [of "mc_prod s"] by (simp add: mc_inv_def)
  ultimately show ?thesis
    using assms(1) A(3,6) unfolding mc_inv_def sets by simp
qed

lemma mc_inv_swap:
  assumes "mc_inv s" "mc_prod s p = PGot n" "mpsc_swap n (mc_q s) = (prev, q')"
  shows "mc_inv (s \<lparr> mc_q := q', mc_prod := (mc_prod s)(p := PSwapped prev n),
                     mc_in := mc_in s @ [ms_val (mc_q s) n], mc_spine := mc_spine s @ [n] \<rparr>)"
    (is "mc_inv ?s")
proof -
  have sh: "ms_shape (mc_q s) (mc_links s) (mc_held s) (mc_spine s)" using assms(1) by (simp add: mc_inv_def)
  have n: "n \<in> mc_held s" using assms(2) by (auto simp: mc_held_def)
  then have n': "n \<notin> set (mc_spine s)" using sh by (auto simp: ms_shape_def)
  note S = swap_shape [OF sh n assms(3)]
  have u: "mc_uniq (mc_prod s)" using assms(1) by (simp add: mc_inv_def)
  have sets: "mc_links ?s = insert (last (mc_spine s), n) (mc_links s)" "mc_held ?s = mc_held s - {n}"
    "mc_pending ?s = insert p (mc_pending s)" "p \<notin> mc_pending s"
    using assms(2) S(1) mc_sets_upd_busy [OF u assms(2), of "PSwapped prev n"] by (auto simp: mc_set_defs)
  have new: "mc_prod s p' \<noteq> PSwapped prev n" for p'
  proof
    assume "mc_prod s p' = PSwapped prev n"
    then have "(prev, n) \<in> mc_links s" by (auto simp: mc_links_def)
    then show False using sh n' by (auto simp: ms_shape_def)
  qed
  have "mpsc_load_next q' = Some nxt" if "mpsc_load_next (mc_q s) = Some nxt" for nxt
    using that assms(3) by (auto simp: mpsc_swap_def mpsc_load_next_def)
  moreover have "map (ms_val q') (tl (mc_spine s @ [n])) = map (ms_val (mc_q s)) (tl (mc_spine s)) @ [ms_val (mc_q s) n]"
    using S(3) ms_shape_last(2) [OF sh] by simp
  moreover have "mc_uniq (mc_prod ?s)"
    using assms(1) new mc_uniq_upd [of "mc_prod s"] by (simp add: mc_inv_def)
  moreover have "length (tl (mc_spine s @ [n])) = Suc (length (tl (mc_spine s)))"
    using ms_shape_last(2) [OF sh] by (cases "mc_spine s") auto
  ultimately show ?thesis
    using assms(1) S(2,4) sets(4) unfolding mc_inv_def sets(1-3) by simp
qed

lemma mc_inv_link:
  assumes "mc_inv s" "mc_prod s p = PSwapped prev n"
  shows "mc_inv (s \<lparr> mc_q := mpsc_link prev n (mc_q s), mc_prod := (mc_prod s)(p := PLinked) \<rparr>)"
    (is "mc_inv ?s")
proof -
  have sh: "ms_shape (mc_q s) (mc_links s) (mc_held s) (mc_spine s)" using assms(1) by (simp add: mc_inv_def)
  have e: "(prev, n) \<in> mc_links s" using assms(2) by (auto simp: mc_links_def)
  note K = link_shape [OF sh e]
  have u: "mc_uniq (mc_prod s)" using assms(1) by (simp add: mc_inv_def)
  have sets: "mc_links ?s = mc_links s - {(prev, n)}" "mc_held ?s = mc_held s" "mc_pending ?s = mc_pending s"
    using assms(2) mc_sets_upd_busy [OF u assms(2), of PLinked] by (auto simp: mc_set_defs)
  have "mpsc_load_next (mpsc_link prev n (mc_q s)) = Some nxt" if "mpsc_load_next (mc_q s) = Some nxt" for nxt
  proof -
    have "ms_tail (mpsc_link prev n (mc_q s)) = ms_tail (mc_q s)" by (simp add: mpsc_link_def)
    then show ?thesis using that load_next_eq [OF K(1)] load_next_eq [OF sh] by auto
  qed
  moreover have "mc_uniq (mc_prod ?s)"
    using assms(1) mc_uniq_upd [of "mc_prod s"] by (simp add: mc_inv_def)
  ultimately show ?thesis
    using assms(1) K unfolding mc_inv_def sets by simp
qed

lemma mc_inv_count_up:
  assumes "mc_inv s" "mc_prod s p = PLinked"
  shows "mc_inv (s \<lparr> mc_q := mpsc_count 1 (mc_q s), mc_prod := (mc_prod s)(p := PIdle) \<rparr>)" (is "mc_inv ?s")
proof -
  have sets: "mc_links ?s = mc_links s" "mc_held ?s = mc_held s" "mc_pending ?s = mc_pending s - {p}"
    "p \<in> mc_pending s"
    using assms(2) mc_sets_upd_idle [of "mc_prod s" p PIdle] by (auto simp: mc_set_defs)
  have "int (card (mc_pending s)) = int (card (mc_pending s - {p})) + 1"
    using assms(1) sets(4) card_Suc_Diff1 [of "mc_pending s" p] by (simp add: mc_inv_def)
  moreover have "mc_uniq (mc_prod ?s)"
    using assms(1) mc_uniq_upd [of "mc_prod s"] by (simp add: mc_inv_def)
  ultimately show ?thesis
    using assms(1) unfolding mc_inv_def sets(1-3)
    by (simp add: ms_shape_count) (auto simp: mpsc_count_def mpsc_load_next_def)
qed

lemma mc_inv_consumer:
  assumes "mc_inv s"
  shows "mc_cons s = CIdle \<Longrightarrow> mpsc_load_next (mc_q s) = Some nxt \<Longrightarrow> mc_inv (s \<lparr> mc_cons := CLoaded nxt \<rparr>)"
    and "mc_cons s = CTaken \<Longrightarrow> mc_inv (s \<lparr> mc_q := mpsc_count (- 1) (mc_q s), mc_cons := CIdle \<rparr>)"
proof -
  have sets: "mc_links (mc_cons_update f s) = mc_links s" "mc_held (mc_cons_update f s) = mc_held s"
    "mc_pending (mc_cons_update f s) = mc_pending s"
    "mc_links (mc_q_update g s) = mc_links s" "mc_held (mc_q_update g s) = mc_held s"
    "mc_pending (mc_q_update g s) = mc_pending s" for f g and s :: "'a mpsc_conc"
    by (simp_all add: mc_set_defs)
  show "mc_cons s = CIdle \<Longrightarrow> mpsc_load_next (mc_q s) = Some nxt \<Longrightarrow> mc_inv (s \<lparr> mc_cons := CLoaded nxt \<rparr>)"
    using assms unfolding mc_inv_def by (simp add: sets)
  show "mc_cons s = CTaken \<Longrightarrow> mc_inv (s \<lparr> mc_q := mpsc_count (- 1) (mc_q s), mc_cons := CIdle \<rparr>)"
    using assms unfolding mc_inv_def by (simp add: sets ms_shape_count) (simp add: sets mpsc_count_def)
qed

lemma mc_inv_take:
  assumes "mc_inv s" "mc_cons s = CLoaded nxt" "mpsc_take nxt (mc_q s) = (v, q')"
  shows "mc_inv (s \<lparr> mc_q := q', mc_cons := CTaken, mc_out := mc_out s @ [v], mc_spine := tl (mc_spine s) \<rparr>)"
    (is "mc_inv ?s")
proof -
  have sh: "ms_shape (mc_q s) (mc_links s) (mc_held s) (mc_spine s)" using assms(1) by (simp add: mc_inv_def)
  have "mpsc_load_next (mc_q s) = Some nxt" using assms(1,2) by (simp add: mc_inv_def)
  then obtain r where ns: "mc_spine s = ms_tail (mc_q s) # nxt # r" "(ms_tail (mc_q s), nxt) \<notin> mc_links s"
    using load_next_eq [OF sh] by blast
  note T = take_shape [OF sh ns assms(3)]
  have sets: "mc_links ?s = mc_links s" "mc_held ?s = mc_held s" "mc_pending ?s = mc_pending s"
    by (simp_all add: mc_set_defs)
  have "map (ms_val q') r = map (ms_val (mc_q s)) r" using T(3) ns by auto
  then show ?thesis
    using assms(1,2) T(1,2,4) unfolding mc_inv_def sets by (simp add: ns)
qed

lemma mc_inv_step: "mpsc_step s s' \<Longrightarrow> mc_inv s \<Longrightarrow> mc_inv s'"
  by (induction rule: mpsc_step.induct)
    (simp_all add: mc_inv_acquire mc_inv_swap mc_inv_link mc_inv_count_up mc_inv_consumer mc_inv_take)

lemma mc_inv_reachable: "mpsc_step\<^sup>*\<^sup>* (mpsc_start z pick) s \<Longrightarrow> mc_inv s"
  by (induction rule: rtranclp_induct) (auto intro: mc_inv_start mc_inv_step)

section \<open>Properties\<close>

lemma mpsc_batch_loop_spec:
  assumes "ms_inv q" "mpsc_batch_loop k q = (vs, q')"
  shows "vs = take k (ms_elems q) \<and> ms_inv q' \<and> ms_elems q' = drop k (ms_elems q)"
  using assms
proof (induction k arbitrary: q vs q')
  case (Suc k)
  show ?case
  proof (cases "mpsc_load_next q")
    case None
    then have "ms_elems q = []" using MPSC_Empty_spec [OF Suc(2)] by (simp add: MPSC_Empty_def)
    with None Suc show ?thesis by simp
  next
    case (Some nxt)
    obtain v q1 where t: "mpsc_take nxt q = (v, q1)" by fastforce
    obtain vs1 q2 where l: "mpsc_batch_loop k (mpsc_count (- 1) q1) = (vs1, q2)" by fastforce
    have p: "MPSC_Pop q = (Some v, mpsc_count (- 1) q1)" by (simp add: MPSC_Pop_def Some t)
    then have "ms_elems q = v # ms_elems (mpsc_count (- 1) q1)" using ms.pop_Some [OF Suc(2), of v] by simp
    moreover have "ms_inv (mpsc_count (- 1) q1)" using MPSC_Pop_spec(1) [OF Suc(2)] p by simp
    moreover have "vs = v # vs1" "q' = q2" using Suc(3) Some t l by auto
    ultimately show ?thesis using Suc.IH [OF _ l] by simp
  qed
qed simp

text \<open>
  C5. Interleaved calls. In every state that any number of producers and one consumer can reach,
  the values handed out are an initial part of the pushed values in the order of their
  \<open>SwapPointer\<close>: none is lost, duplicated or reordered, whatever the node pool does. No node that
  is linked in the queue or held by a producer is in the pool, so no live node is recycled. Once
  all calls have returned, the queue holds exactly the remaining values and \<open>Len\<close> counts them.
\<close>

theorem MPSC_concurrent_fifo:
  assumes "mpsc_step\<^sup>*\<^sup>* (mpsc_start z pick) s"
  shows "prefix (mc_out s) (mc_in s)
    \<and> set (ms_pool (mc_q s)) \<inter> (set (mc_spine s) \<union> mc_held s) = {}
    \<and> ((\<forall>p. mc_prod s p = PIdle) \<and> mc_cons s = CIdle \<longrightarrow>
         mc_in s = mc_out s @ ms_elems (mc_q s) \<and> MPSC_Len (mc_q s) = int (length (ms_elems (mc_q s))))"
proof -
  have i: "mc_inv s" using mc_inv_reachable [OF assms] .
  then have sh: "ms_shape (mc_q s) (mc_links s) (mc_held s) (mc_spine s)"
    and io: "mc_in s = mc_out s @ map (ms_val (mc_q s)) (tl (mc_spine s))"
    by (simp_all add: mc_inv_def)
  have "mc_in s = mc_out s @ ms_elems (mc_q s) \<and> MPSC_Len (mc_q s) = int (length (ms_elems (mc_q s)))"
    if "\<forall>p. mc_prod s p = PIdle" "mc_cons s = CIdle"
  proof -
    have sets: "mc_links s = {}" "mc_held s = {}" "mc_pending s = {}" using that(1) by (auto simp: mc_set_defs)
    then show ?thesis
      using sh io i that(2) ms_elems_spine [of "mc_q s" "{}" "mc_spine s"] by (simp add: mc_inv_def MPSC_Len_def)
  qed
  moreover have "set (ms_pool (mc_q s)) \<inter> (set (mc_spine s) \<union> mc_held s) = {}"
    using sh by (auto simp: ms_shape_def)
  ultimately show ?thesis using io by (auto simp: prefix_def)
qed

text \<open>One producer has swapped and linked the value 7 but not yet counted it.\<close>

theorem MPSC_concurrent_fifo_witness:
  "\<exists>s. mpsc_step\<^sup>*\<^sup>* (mpsc_start (0::nat) (\<lambda>_. None)) s \<and> mc_in s = [7] \<and> prefix (mc_out s) [7]"
proof -
  let ?s0 = "mpsc_start (0::nat) (\<lambda>_. None)"
  obtain n q1 where a: "mpsc_acquire 7 ((mc_q ?s0) \<lparr> ms_pick := \<lambda>_. None \<rparr>) = (n, q1)" by fastforce
  let ?s1 = "?s0 \<lparr> mc_q := q1, mc_prod := (mc_prod ?s0)(0 := PGot n) \<rparr>"
  obtain pr q2 where w: "mpsc_swap n (mc_q ?s1) = (pr, q2)" by fastforce
  let ?s2 = "?s1 \<lparr> mc_q := q2, mc_prod := (mc_prod ?s1)(0 := PSwapped pr n),
      mc_in := mc_in ?s1 @ [ms_val (mc_q ?s1) n], mc_spine := mc_spine ?s1 @ [n] \<rparr>"
  have "mpsc_step ?s0 ?s1" by (rule mpsc_step.acquire [OF _ a]) (simp add: mpsc_start_def)
  moreover have "mpsc_step ?s1 ?s2" by (rule mpsc_step.swap [OF _ w]) simp
  ultimately have r: "mpsc_step\<^sup>*\<^sup>* ?s0 ?s2" by (meson converse_rtranclp_into_rtranclp r_into_rtranclp)
  have "ms_val q1 n = 7"
    using a by (auto simp: mpsc_start_def MPSC_New_def mpsc_acquire_def mpsc_pool_get_def)
  then have "mc_in ?s2 = [7]" by (simp add: mpsc_start_def)
  with MPSC_concurrent_fifo [OF r] r show ?thesis by metis
qed

text \<open>
  Calls that do not overlap: \<open>Push\<close> always succeeds, every sequence of \<open>Push\<close> and \<open>Pop\<close> behaves
  as on a list, and \<open>BatchPop n\<close> returns the up to \<open>n\<close> oldest values and leaves the others.
\<close>

theorem MPSC_sequential:
  assumes "ms_inv q" "queue_run MPSC_Push MPSC_Pop q cs = (rs, q')"
  shows "queue_run (spec_push None) spec_pop (ms_elems q) cs = (rs, ms_elems q')
    \<and> ms_elems q @ accepted cs rs = dequeued rs @ ms_elems q'
    \<and> (fst (MPSC_BatchPop q' n) = take (nat n) (ms_elems q')
       \<and> ms_elems (snd (MPSC_BatchPop q' n)) = drop (nat n) (ms_elems q'))"
proof -
  have r: "queue_run (spec_push None) spec_pop (ms_elems q) cs = (rs, ms_elems q') \<and> ms_inv q'"
    using ms.run_refines [OF assms] by simp
  then have i: "ms_inv q'" by simp
  let ?k = "nat (if n > MPSC_Len q' then MPSC_Len q' else n)"
  obtain vs q2 where l: "mpsc_batch_loop ?k q' = (vs, q2)" by fastforce
  have "fst (MPSC_BatchPop q' n) = take (nat n) (ms_elems q')
       \<and> ms_elems (snd (MPSC_BatchPop q' n)) = drop (nat n) (ms_elems q')"
  proof (cases "n \<le> 0")
    case False
    then have "MPSC_BatchPop q' n = (vs, q2)" using l by (simp add: MPSC_BatchPop_def Let_def)
    then show ?thesis
      using mpsc_batch_loop_spec [OF i l] MPSC_Len_spec [OF i] by (auto split: if_splits)
  qed (simp add: MPSC_BatchPop_def)
  with r ms.run_conserves [OF assms] show ?thesis by simp
qed

theorem MPSC_sequential_witness:
  "fst (queue_run MPSC_Push MPSC_Pop (MPSC_New (0::nat) (\<lambda>_. None)) [OpPush 4, OpPush 5, OpPop])
     = [ResPush True, ResPush True, ResPop (Some 4)]"
proof -
  let ?q = "MPSC_New (0::nat) (\<lambda>_. None)" and ?cs = "[OpPush 4, OpPush 5, OpPop]"
  obtain rs q' where r: "queue_run MPSC_Push MPSC_Pop ?q ?cs = (rs, q')" by fastforce
  show ?thesis
    using MPSC_sequential [OF MPSC_New_inv(1) r, of 0] r MPSC_New_inv(2) [of "0::nat" "\<lambda>_. None"]
    by (auto simp: spec_push_def spec_pop_def has_room_def)
qed

end
