(* ===== verification/Float64.thy ===== *)
theory Float64
  imports Complex_Main Pow2
begin

text \<open>
  Go's \<open>float64\<close> arithmetic on non-negative numbers, as exact rationals followed by the rounding
  of IEEE 754: \<open>fl64 x\<close> is the number with a 53-bit significand nearest to \<open>x\<close>, ties to even.
  Overflow and subnormal numbers do not occur in the code that uses it (all values are between
  \<open>2^-40\<close> and \<open>2^64\<close>) and are not represented.
\<close>

section \<open>Definitions\<close>

definition rne :: "rat \<Rightarrow> int" where
  "rne z = (let f = \<lfloor>z\<rfloor>; d = z - of_int f in
     if d < 1 / 2 then f else if 1 / 2 < d then f + 1 else if even f then f else f + 1)"

text \<open>\<open>2 ^ flexp x \<le> x < 2 ^ (flexp x + 1)\<close> for positive \<open>x\<close>.\<close>

definition flexp :: "rat \<Rightarrow> int" where
  "flexp x = (let (p, q) = quotient_of x;
                  k = int (bits_Len (nat p)) - int (bits_Len (nat q))
              in if 2 powi k \<le> x then k else k - 1)"

definition fl64 :: "rat \<Rightarrow> rat" where
  "fl64 x = (if x \<le> 0 then 0
     else let e = flexp x - 52 in of_int (rne (x / 2 powi e)) * 2 powi e)"

section \<open>Rounding to an integer\<close>

lemma rne_cases: "rne z = \<lfloor>z\<rfloor> \<or> rne z = \<lfloor>z\<rfloor> + 1"
  by (simp add: rne_def Let_def)

lemma rne_of_int [simp]: "rne (of_int n) = n"
  by (simp add: rne_def)

lemma rne_numeral [simp]: "rne (numeral k) = numeral k"
  using rne_of_int [of "numeral k"] by simp

lemma rne_same_floor: "x \<le> y \<Longrightarrow> \<lfloor>x\<rfloor> = \<lfloor>y\<rfloor> \<Longrightarrow> rne x \<le> rne y"
  by (auto simp: rne_def Let_def)

lemma rne_mono:
  assumes "x \<le> y"
  shows "rne x \<le> rne y"
proof (cases "\<lfloor>x\<rfloor> = \<lfloor>y\<rfloor>")
  case True
  then show ?thesis using assms by (rule rne_same_floor [rotated])
next
  case False
  then have "\<lfloor>x\<rfloor> + 1 \<le> \<lfloor>y\<rfloor>" using floor_mono [OF assms] by simp
  then show ?thesis using rne_cases [of x] rne_cases [of y] by linarith
qed

section \<open>Exponents\<close>

lemma bits_Len_bounds:
  assumes "0 < p"
  shows "2 powi (int (bits_Len (nat p)) - 1) \<le> (of_int p :: rat)"
    "(of_int p :: rat) < 2 powi int (bits_Len (nat p))"
proof -
  obtain k where k: "bits_Len (nat p) = Suc k"
    using assms by (simp add: bits_Len.simps [of "nat p"])
  have "(2::int) ^ k \<le> p"
    using bits_Len_lower [of "nat p"] assms k by (simp add: nat_le_eq_zle le_nat_iff)
  then have "(of_int (2 ^ k) :: rat) \<le> of_int p" by (simp only: of_int_le_iff)
  then show "2 powi (int (bits_Len (nat p)) - 1) \<le> (of_int p :: rat)" by (simp add: k)
  have "p < 2 ^ bits_Len (nat p)" using bits_Len_upper [of "nat p"] assms by (simp add: nat_less_iff)
  then have "(of_int p :: rat) < of_int (2 ^ bits_Len (nat p))" by (simp only: of_int_less_iff)
  then show "(of_int p :: rat) < 2 powi int (bits_Len (nat p))" by simp
qed

lemma flexp_bounds:
  assumes "0 < x"
  shows "2 powi flexp x \<le> x" "x < 2 powi (flexp x + 1)"
proof -
  obtain p q where pq: "quotient_of x = (p, q)" by fastforce
  then have q: "0 < q" and x: "x = of_int p / of_int q"
    using quotient_of_denom_pos quotient_of_div by blast+
  then have p: "0 < p" using assms by (simp add: zero_less_divide_iff)
  let ?a = "int (bits_Len (nat p))" and ?b = "int (bits_Len (nat q))"
  note P = bits_Len_bounds [OF p] and Q = bits_Len_bounds [OF q]
  have pos: "(0::rat) < of_int q" using q by simp
  have lo: "2 powi (?a - ?b - 1) \<le> x"
  proof -
    have "2 powi (?a - ?b - 1) * (of_int q :: rat) \<le> 2 powi (?a - ?b - 1) * 2 powi ?b"
      using Q(2) by (intro mult_left_mono) auto
    also have "\<dots> = 2 powi (?a - 1)"
      using power_int_add [of "2::rat" "?a - ?b - 1" ?b] by (simp add: algebra_simps)
    finally show ?thesis using P(1) pos unfolding x by (simp add: le_divide_eq)
  qed
  have hi: "x < 2 powi (?a - ?b + 1)"
  proof -
    have "(of_int p :: rat) < 2 powi ?a" by (rule P(2))
    also have "\<dots> = 2 powi (?a - ?b + 1) * 2 powi (?b - 1)"
      using power_int_add [of "2::rat" "?a - ?b + 1" "?b - 1"] by (simp add: algebra_simps)
    also have "\<dots> \<le> 2 powi (?a - ?b + 1) * of_int q" using Q(1) by (intro mult_left_mono) auto
    finally show ?thesis using pos unfolding x by (simp add: divide_less_eq)
  qed
  show "2 powi flexp x \<le> x" "x < 2 powi (flexp x + 1)"
    using lo hi by (auto simp: flexp_def pq Let_def)
qed

lemma powi_mono: "m \<le> n \<Longrightarrow> (2::rat) powi m \<le> 2 powi n"
  by (rule power_int_increasing) auto

lemma flexp_unique:
  assumes "0 < x" "2 powi t \<le> x" "x < 2 powi (t + 1)"
  shows "flexp x = t"
proof (rule ccontr)
  assume "flexp x \<noteq> t"
  then consider "t + 1 \<le> flexp x" | "flexp x + 1 \<le> t" by linarith
  then show False
  proof cases
    case 1
    then show False using powi_mono [OF 1] flexp_bounds(1) [OF assms(1)] assms(3) by linarith
  next
    case 2
    then show False using powi_mono [OF 2] flexp_bounds(2) [OF assms(1)] assms(2) by linarith
  qed
qed

lemma flexp_mono:
  assumes "0 < x" "x \<le> y"
  shows "flexp x \<le> flexp y"
proof (rule ccontr)
  assume "\<not> flexp x \<le> flexp y"
  then have "2 powi (flexp y + 1) \<le> (2 :: rat) powi flexp x" by (intro powi_mono) simp
  then show False using flexp_bounds [OF assms(1)] flexp_bounds(2) [of y] assms by linarith
qed

section \<open>Rounding to 53 bits\<close>

lemma fl64_eq: "0 < x \<Longrightarrow> fl64 x = of_int (rne (x / 2 powi (flexp x - 52))) * 2 powi (flexp x - 52)"
  by (simp add: fl64_def Let_def)

lemma fl64_range:
  assumes "0 < x"
  shows "2 powi flexp x \<le> fl64 x" "fl64 x \<le> 2 powi (flexp x + 1)"
proof -
  let ?e = "flexp x - 52" and ?u = "x / 2 powi (flexp x - 52)"
  have pos: "(0::rat) < 2 powi ?e" by simp
  have "of_int (2 ^ 52) \<le> ?u"
  proof -
    have "(2::rat) ^ 52 * 2 powi ?e = 2 powi flexp x"
      using power_int_add [of "2::rat" 52 ?e] by simp
    then show ?thesis using flexp_bounds(1) [OF assms] pos by (simp add: le_divide_eq)
  qed
  then have "2 ^ 52 \<le> rne ?u" using rne_mono [of "of_int (2 ^ 52)" ?u] by simp
  then have "(of_int (2 ^ 52) :: rat) \<le> of_int (rne ?u)" by (simp only: of_int_le_iff)
  then have "(of_int (2 ^ 52) :: rat) * 2 powi ?e \<le> of_int (rne ?u) * 2 powi ?e"
    using pos by (rule mult_right_mono [OF _ less_imp_le])
  moreover have "(of_int (2 ^ 52) :: rat) * 2 powi ?e = 2 powi flexp x"
    using power_int_add [of "2::rat" 52 ?e] by simp
  ultimately show "2 powi flexp x \<le> fl64 x" using assms by (simp only: fl64_eq)
  have "?u \<le> of_int (2 ^ 53)"
  proof -
    have "(2::rat) ^ 53 * 2 powi ?e = 2 powi (flexp x + 1)"
      using power_int_add [of "2::rat" 53 ?e] by (simp add: add.commute)
    then show ?thesis using flexp_bounds(2) [OF assms] pos by (simp add: divide_le_eq)
  qed
  then have "rne ?u \<le> 2 ^ 53" using rne_mono [of ?u "of_int (2 ^ 53)"] by simp
  then have "of_int (rne ?u) \<le> (of_int (2 ^ 53) :: rat)" by (simp only: of_int_le_iff)
  then have "of_int (rne ?u) * 2 powi ?e \<le> (of_int (2 ^ 53) :: rat) * 2 powi ?e"
    using pos by (rule mult_right_mono [OF _ less_imp_le])
  moreover have "(of_int (2 ^ 53) :: rat) * 2 powi ?e = 2 powi (flexp x + 1)"
    using power_int_add [of "2::rat" 53 ?e] by (simp add: add.commute)
  ultimately show "fl64 x \<le> 2 powi (flexp x + 1)" using assms by (simp only: fl64_eq)
qed

lemma fl64_nonneg: "0 \<le> fl64 x"
proof (cases "0 < x")
  case True
  then show ?thesis using fl64_range(1) [of x] by (meson order_trans zero_le_power_int zero_le_numeral)
qed (simp add: fl64_def)

lemma fl64_mono:
  assumes "x \<le> y"
  shows "fl64 x \<le> fl64 y"
proof (cases "0 < x")
  case True
  then have y: "0 < y" using assms by simp
  show ?thesis
  proof (cases "flexp x = flexp y")
    case True
    let ?p = "2 powi (flexp y - 52) :: rat"
    have "rne (x / ?p) \<le> rne (y / ?p)" using assms by (intro rne_mono divide_right_mono) auto
    then have "of_int (rne (x / ?p)) * ?p \<le> of_int (rne (y / ?p)) * ?p"
      by (intro mult_right_mono) auto
    then show ?thesis using True \<open>0 < x\<close> y by (simp add: fl64_eq)
  next
    case False
    then have "flexp x + 1 \<le> flexp y" using flexp_mono [OF True assms] by simp
    then have "(2::rat) powi (flexp x + 1) \<le> 2 powi flexp y" by (rule powi_mono)
    then show ?thesis using fl64_range(2) [OF True] fl64_range(1) [OF y] by linarith
  qed
next
  case False
  then show ?thesis using fl64_nonneg [of y] by (simp add: fl64_def)
qed

lemma fl64_exact:
  assumes "0 < x" "x / 2 powi (flexp x - 52) = of_int m"
  shows "fl64 x = x"
proof -
  have "fl64 x = of_int m * 2 powi (flexp x - 52)" using assms by (simp add: fl64_eq)
  also have "\<dots> = x" using assms(2) by (metis nonzero_eq_divide_eq power_int_not_zero zero_neq_numeral)
  finally show ?thesis .
qed

lemma fl64_of_int:
  assumes "0 \<le> n" "n < 2 ^ 53"
  shows "fl64 (of_int n) = of_int n"
proof (cases "n = 0")
  case False
  then have pos: "(0::rat) < of_int n" using assms by simp
  let ?f = "flexp (of_int n)"
  have "?f \<le> 52"
  proof (rule ccontr)
    assume "\<not> ?f \<le> 52"
    then have "(2::rat) powi 53 \<le> 2 powi ?f" by (intro powi_mono) simp
    then have "(2::rat) ^ 53 \<le> of_int n" using flexp_bounds(1) [OF pos] by simp
    then have "(of_int (2 ^ 53) :: rat) \<le> of_int n" by simp
    then show False using assms(2) by (simp only: of_int_le_iff)
  qed
  then have "(2::rat) powi (?f - 52) * 2 ^ nat (52 - ?f) = 1"
    using power_int_add [of "2::rat" "?f - 52" "52 - ?f"] by (simp add: power_int_def)
  then have "(of_int n :: rat) / 2 powi (?f - 52) = of_int (n * 2 ^ nat (52 - ?f))"
    by (simp add: divide_eq_eq mult.assoc mult.commute)
  then show ?thesis by (rule fl64_exact [OF pos])
qed (simp add: fl64_def)

lemma fl64_pow2: "fl64 (2 ^ k) = 2 ^ k"
proof -
  have "flexp (2 ^ k) = int k" by (rule flexp_unique) (simp_all add: power_int_add)
  moreover have "(2::rat) ^ k / 2 powi (int k - 52) = of_int (2 ^ 52)"
    using power_int_add [of "2::rat" "int k - 52" 52] by (simp add: divide_eq_eq mult.commute)
  ultimately show ?thesis by (intro fl64_exact [of _ "2 ^ 52"]) auto
qed

lemma fl64_ge_int: "of_int n \<le> x \<Longrightarrow> 0 \<le> n \<Longrightarrow> n < 2 ^ 53 \<Longrightarrow> of_int n \<le> fl64 x"
  using fl64_mono [of "of_int n" x] by (simp add: fl64_of_int)

lemma fl64_le_pow2: "x \<le> 2 ^ k \<Longrightarrow> fl64 x \<le> 2 ^ k"
  using fl64_mono [of x "2 ^ k"] by (simp add: fl64_pow2)

lemma fl64_le_int: "x \<le> of_int n \<Longrightarrow> 0 \<le> n \<Longrightarrow> n < 2 ^ 53 \<Longrightarrow> fl64 x \<le> of_int n"
  using fl64_mono [of x "of_int n"] by (simp add: fl64_of_int)

end
