(* ===== verification/Mailbox_Conf.thy ===== *)
theory Mailbox_Conf
  imports Float64
begin

text \<open>
  The configuration of a mailbox and its normalisation: the structures of
  \<open>engine/pkg/config/define.go\<close>, the defaults of \<open>config/mailbox_defaults.go\<close>, the priorities of
  \<open>def/priority.go\<close>, the clone and default functions of \<open>actor/mailbox/scheduler.go\<close>, and
  \<open>fixConf\<close>, \<open>normalizeQueueSpec\<close> and their helpers of \<open>actor/mailbox/worker_pool.go\<close>.

  A pointer that may be nil is an \<open>option\<close>. Durations are numbers of nanoseconds. \<open>float64\<close>
  configuration values are rationals. \<open>ncpu\<close> is \<open>runtime.NumCPU()\<close>. The fields that no modelled
  function reads (\<open>MiddlewareConf\<close>, \<open>VirtualWorkerRate\<close>, \<open>MultiLevelConf\<close>) are left out.
\<close>

section \<open>Definitions\<close>

subsection \<open>Priorities\<close>

type_synonym priority = int

definition PrioritySys :: priority where "PrioritySys = - 3"
definition PriorityUrgent :: priority where "PriorityUrgent = - 2"
definition PriorityHigh :: priority where "PriorityHigh = - 1"
definition PriorityNormal :: priority where "PriorityNormal = 0"
definition PriorityLow :: priority where "PriorityLow = 1"
definition PriorityBatch :: priority where "PriorityBatch = 2"
definition PriorityBackground :: priority where "PriorityBackground = 3"

definition StrategyAbsolute :: string where "StrategyAbsolute = ''absolute''"
definition StrategyWeighted :: string where "StrategyWeighted = ''weighted''"
definition StrategyFairness :: string where "StrategyFairness = ''fairness''"

definition QueueModeDual :: string where "QueueModeDual = ''dual''"
definition QueueModePriority :: string where "QueueModePriority = ''priority''"

definition DefaultMailboxQueueCapacity :: int where "DefaultMailboxQueueCapacity = 4096"
definition DefaultMailboxQueueStorageBytes :: u64 where
  "DefaultMailboxQueueStorageBytes = push_bit 20 64"

subsection \<open>Configuration structures\<close>

record priority_config =
  pc_Capacity :: int
  pc_BatchSize :: int
  pc_Weight :: int

record multi_level_queue_conf =
  mq_Strategy :: string
  mq_TotalBatchLimit :: int
  mq_PriorityBatches :: "(priority, priority_config option) gomap"

record multi_level_worker_conf =
  mw_WaitMode :: string
  mw_Strategy :: string
  mw_TotalBatchLimit :: int
  mw_PriorityBatches :: "(priority, priority_config option) gomap"

record dual_queue_capacity_conf =
  dc_System :: int
  dc_User :: int

datatype go_any = AnyInt int | AnyString string | AnyBool bool | AnyOther

datatype worker_strategy_config = WorkerStrategyConfig
  (ws_Name: string)
  (ws_Params: "(string, go_any) gomap")
  (ws_MinWorkerNum: int)
  (ws_MaxWorkerNum: int)
  (ws_GrowthFactor: rat)
  (ws_ShrinkFactor: rat)
  (ws_ResizeCoolDown: int)
  (ws_Subs: "worker_strategy_config option list")

record worker_idler_conf =
  ic_EnableCond :: bool
  ic_BackoffBaseDelay :: int
  ic_BackoffMaxDelay :: int
  ic_BackoffMaxRetries :: int
  ic_MaxIdleBeforeBackoff :: int

record worker_schedule_policy =
  sp_InitialWorkerNum :: int
  sp_EnableAutoScaling :: bool
  sp_ScalingStrategy :: "worker_strategy_config option"
  sp_IdlerConf :: "worker_idler_conf option"
  sp_MultiLevelQueueConf :: "multi_level_queue_conf option"

record mailbox_conf =
  mc_QueueBackend :: string
  mc_DualQueueCapacity :: "dual_queue_capacity_conf option"
  mc_MaxQueueStorageBytes :: u64
  mc_QueueMode :: string
  mc_SchedulePolicy :: "worker_schedule_policy option"
  mc_EnableRWMode :: bool
  mc_MaxConcurrentReads :: int
  mc_StopTimeout :: int
  mc_MaxJobExecutionTime :: int
  mc_ReadPoolSize :: int
  mc_ReadDispatchChanCap :: int

definition zero_priority_config :: priority_config where
  "zero_priority_config = \<lparr> pc_Capacity = 0, pc_BatchSize = 0, pc_Weight = 0 \<rparr>"

definition zero_schedule_policy :: worker_schedule_policy where
  "zero_schedule_policy = \<lparr> sp_InitialWorkerNum = 0, sp_EnableAutoScaling = False,
     sp_ScalingStrategy = None, sp_IdlerConf = None, sp_MultiLevelQueueConf = None \<rparr>"

definition zero_mailbox_conf :: mailbox_conf where
  "zero_mailbox_conf = \<lparr> mc_QueueBackend = '''', mc_DualQueueCapacity = None,
     mc_MaxQueueStorageBytes = 0, mc_QueueMode = '''', mc_SchedulePolicy = None,
     mc_EnableRWMode = False, mc_MaxConcurrentReads = 0, mc_StopTimeout = 0,
     mc_MaxJobExecutionTime = 0, mc_ReadPoolSize = 0, mc_ReadDispatchChanCap = 0 \<rparr>"

subsection \<open>Defaults and copies of priority configurations (scheduler.go)\<close>

definition newDefaultPriorityMap :: "(priority, priority_config option) gomap" where
  "newDefaultPriorityMap =
     [(PrioritySys, Some \<lparr> pc_Capacity = 0, pc_BatchSize = 64, pc_Weight = 20 \<rparr>),
      (PriorityUrgent, Some \<lparr> pc_Capacity = 0, pc_BatchSize = 32, pc_Weight = 10 \<rparr>),
      (PriorityHigh, Some \<lparr> pc_Capacity = 0, pc_BatchSize = 16, pc_Weight = 5 \<rparr>),
      (PriorityNormal, Some \<lparr> pc_Capacity = 0, pc_BatchSize = 8, pc_Weight = 3 \<rparr>),
      (PriorityLow, Some \<lparr> pc_Capacity = 0, pc_BatchSize = 4, pc_Weight = 2 \<rparr>),
      (PriorityBatch, Some \<lparr> pc_Capacity = 0, pc_BatchSize = 2, pc_Weight = 1 \<rparr>)]"

definition DefaultMultiLevelQueueConf :: multi_level_queue_conf where
  "DefaultMultiLevelQueueConf = \<lparr> mq_Strategy = StrategyAbsolute, mq_TotalBatchLimit = 32,
     mq_PriorityBatches = newDefaultPriorityMap \<rparr>"

definition DefaultWorkerConfig :: multi_level_worker_conf where
  "DefaultWorkerConfig = \<lparr> mw_WaitMode = ''busy'', mw_Strategy = StrategyAbsolute,
     mw_TotalBatchLimit = 32, mw_PriorityBatches = newDefaultPriorityMap \<rparr>"

definition clonePriorityBatches ::
  "(priority, priority_config option) gomap \<Rightarrow> (priority, priority_config option) gomap" where
  "clonePriorityBatches src =
     map (\<lambda>(p, pc). (p, Some (case pc of None \<Rightarrow> zero_priority_config | Some c \<Rightarrow> c))) src"

definition normalizeMultiLevelQueueConf :: "multi_level_queue_conf option \<Rightarrow> multi_level_queue_conf" where
  "normalizeMultiLevelQueueConf conf =
     (case conf of
        None \<Rightarrow> DefaultMultiLevelQueueConf
      | Some c \<Rightarrow>
          let normalized = \<lparr> mq_Strategy = mq_Strategy c, mq_TotalBatchLimit = mq_TotalBatchLimit c,
                mq_PriorityBatches = clonePriorityBatches (mq_PriorityBatches c) \<rparr>
          in if length (mq_PriorityBatches normalized) = 0
             then normalized \<lparr> mq_PriorityBatches := newDefaultPriorityMap \<rparr> else normalized)"

definition normalizeMultiLevelWorkerConf :: "multi_level_worker_conf option \<Rightarrow> multi_level_worker_conf" where
  "normalizeMultiLevelWorkerConf conf =
     (case conf of
        None \<Rightarrow> DefaultWorkerConfig
      | Some c \<Rightarrow>
          let normalized = \<lparr> mw_WaitMode = mw_WaitMode c, mw_Strategy = mw_Strategy c,
                mw_TotalBatchLimit = mw_TotalBatchLimit c,
                mw_PriorityBatches = clonePriorityBatches (mw_PriorityBatches c) \<rparr>
          in if length (mw_PriorityBatches normalized) = 0
             then normalized \<lparr> mw_PriorityBatches := newDefaultPriorityMap \<rparr> else normalized)"

subsection \<open>Repairing a configuration (fixConf)\<close>

definition cloneMailboxConfForFix :: "mailbox_conf option \<Rightarrow> mailbox_conf" where
  "cloneMailboxConfForFix src = (case src of None \<Rightarrow> zero_mailbox_conf | Some c \<Rightarrow> c)"

definition fix_idler :: "worker_idler_conf option \<Rightarrow> worker_idler_conf" where
  "fix_idler io =
     (let ic = (case io of
                  None \<Rightarrow> \<lparr> ic_EnableCond = True, ic_BackoffBaseDelay = 0, ic_BackoffMaxDelay = 0,
                            ic_BackoffMaxRetries = 0, ic_MaxIdleBeforeBackoff = 0 \<rparr>
                | Some ic \<Rightarrow> ic);
          ic = (if ic_BackoffBaseDelay ic \<le> 0 then ic \<lparr> ic_BackoffBaseDelay := 1000 \<rparr> else ic);
          ic = (if ic_BackoffMaxDelay ic \<le> 0 then ic \<lparr> ic_BackoffMaxDelay := 16000 \<rparr> else ic);
          ic = (if ic_BackoffMaxRetries ic \<le> 0 then ic \<lparr> ic_BackoffMaxRetries := 3 \<rparr> else ic)
      in if ic_MaxIdleBeforeBackoff ic \<le> 0 then ic \<lparr> ic_MaxIdleBeforeBackoff := 1000 \<rparr> else ic)"

definition fix_scaling :: "worker_strategy_config \<Rightarrow> worker_strategy_config" where
  "fix_scaling sc =
     (case sc of WorkerStrategyConfig nm ps mn mx gf sf cd subs \<Rightarrow>
        let gf' = (if gf \<le> 0 then 1 / 2 else gf);
            sf' = (if sf \<le> 0 \<or> sf > 1 / 2 then 1 / 4 else sf);
            mn' = (if mn < 1 then 1 else mn);
            mx' = (if mx < mn' then mn' else mx)
        in WorkerStrategyConfig nm ps mn' mx' gf' sf' cd subs)"

definition fix_policy :: "worker_schedule_policy option \<Rightarrow> worker_schedule_policy" where
  "fix_policy po =
     (let sp = (case po of None \<Rightarrow> zero_schedule_policy | Some sp \<Rightarrow> sp);
          sp = (if sp_InitialWorkerNum sp \<le> 0 then sp \<lparr> sp_InitialWorkerNum := 1 \<rparr> else sp);
          sp = sp \<lparr> sp_IdlerConf := Some (fix_idler (sp_IdlerConf sp)) \<rparr>
      in sp \<lparr> sp_ScalingStrategy := map_option fix_scaling (sp_ScalingStrategy sp) \<rparr>)"

definition fix_rw :: "int \<Rightarrow> int \<Rightarrow> mailbox_conf \<Rightarrow> mailbox_conf" where
  "fix_rw ncpu workers c =
     (let c = (if mc_EnableRWMode c \<and> workers \<le> 1
               then c \<lparr> mc_EnableRWMode := False, mc_MaxConcurrentReads := 0, mc_StopTimeout := 0 \<rparr>
               else c)
      in if mc_EnableRWMode c
         then let c = (if mc_MaxConcurrentReads c \<le> 0
                       then c \<lparr> mc_MaxConcurrentReads := (if ncpu * 4 > 64 then 64 else ncpu * 4) \<rparr> else c);
                  c = (if mc_StopTimeout c \<le> 0 then c \<lparr> mc_StopTimeout := 10 * 1000000000 \<rparr> else c)
              in if mc_ReadPoolSize c \<le> 0 then c \<lparr> mc_ReadPoolSize := mc_MaxConcurrentReads c \<rparr> else c
         else c \<lparr> mc_MaxConcurrentReads := 0 \<rparr>)"

definition fixConf :: "int \<Rightarrow> mailbox_conf option \<Rightarrow> mailbox_conf" where
  "fixConf ncpu conf =
     (let c = cloneMailboxConfForFix conf;
          c = (if mc_QueueBackend c = '''' then c \<lparr> mc_QueueBackend := ''bounded'' \<rparr> else c);
          c = (if mc_QueueMode c = '''' then c \<lparr> mc_QueueMode := ''dual'' \<rparr> else c);
          sp = fix_policy (mc_SchedulePolicy c);
          c = c \<lparr> mc_SchedulePolicy := Some sp \<rparr>
      in fix_rw ncpu (sp_InitialWorkerNum sp) c)"

subsection \<open>Normalised queue layout (normalizeQueueSpec)\<close>

record normalized_dual_spec =
  ds_system :: int
  ds_user :: int

record normalized_priority_spec =
  ps_strategy :: string
  ps_totalBatchLimit :: int
  ps_priorities :: "(priority, priority_config) gomap"
  ps_fallbackPriority :: priority

record normalized_queue_spec =
  qs_backend :: string
  qs_mode :: string
  qs_dual :: "normalized_dual_spec option"
  qs_priority :: "normalized_priority_spec option"
  qs_storageBytes :: u64

record normalized_physical_spec =
  ph_backend :: string
  ph_capacity :: int

datatype queue_spec_error =
    UnknownQueueBackend string
  | UnknownBoundedQueueMode string
  | RequiresSystemPriority priority
  | RequiresUserFallback
  | ScalingRequiresStrategy
  | MaxWorkersBelowInitial
  | ResizeCoolDownNotPositive
  | BadPhysicalCapacity nat int
  | StorageAddOverflow
  | StorageMulOverflow
  | SlotArrayTooLarge
  | LayoutExceedsLimit u64 u64

text \<open>\<open>unsafe.Sizeof\<close> of a bounded queue and of an interface value on a 64-bit platform.\<close>

definition sizeof_bounded_queue :: u64 where "sizeof_bounded_queue = 64"
definition sizeof_job :: u64 where "sizeof_job = 16"

definition checkedQueueAdd :: "u64 \<Rightarrow> u64 \<Rightarrow> queue_spec_error + u64" where
  "checkedQueueAdd a b = (if b > - 1 - a then Inl StorageAddOverflow else Inr (a + b))"

definition checkedQueueMul :: "u64 \<Rightarrow> u64 \<Rightarrow> queue_spec_error + u64" where
  "checkedQueueMul a b = (if a \<noteq> 0 \<and> b > - 1 div a then Inl StorageMulOverflow else Inr (a * b))"

fun queue_storage_loop :: "nat \<Rightarrow> u64 \<Rightarrow> u64 \<Rightarrow> int list \<Rightarrow> queue_spec_error + u64" where
  "queue_storage_loop i bytes slots [] = Inr bytes"
| "queue_storage_loop i bytes slots (capacity # rest) =
     (if capacity < 2 \<or> capacity AND (capacity - 1) \<noteq> 0 then Inl (BadPhysicalCapacity i capacity)
      else and_then (checkedQueueAdd slots (word_of_int capacity)) (\<lambda>slots'.
           and_then (checkedQueueMul (word_of_int capacity) sizeof_job) (\<lambda>array.
             if array > 2 ^ 63 - 1 then Inl SlotArrayTooLarge
             else and_then (checkedQueueAdd sizeof_bounded_queue array) (\<lambda>layout.
                  and_then (checkedQueueAdd bytes layout) (\<lambda>bytes'.
                    queue_storage_loop (i + 1) bytes' slots' rest)))))"

fun fallback_loop :: "bool \<Rightarrow> priority \<Rightarrow> priority list \<Rightarrow> priority" where
  "fallback_loop first fb [] = fb"
| "fallback_loop first fb (p # ps) =
     (if first \<or> p > fb then fallback_loop False p ps else fallback_loop first fb ps)"

definition dual_spec :: "bool \<Rightarrow> mailbox_conf \<Rightarrow> normalized_dual_spec \<times> int list" where
  "dual_spec bounded conf =
     (if bounded
      then let c = (case mc_DualQueueCapacity conf of
                      None \<Rightarrow> \<lparr> dc_System = DefaultMailboxQueueCapacity, dc_User = DefaultMailboxQueueCapacity \<rparr>
                    | Some c \<Rightarrow> c);
               sys = (if dc_System c = 0 then DefaultMailboxQueueCapacity else dc_System c);
               usr = (if dc_User c = 0 then DefaultMailboxQueueCapacity else dc_User c)
           in (\<lparr> ds_system = sys, ds_user = usr \<rparr>, [sys, usr])
      else (\<lparr> ds_system = 0, ds_user = 0 \<rparr>, []))"

definition priority_spec :: "bool \<Rightarrow> multi_level_queue_conf \<Rightarrow>
    queue_spec_error + (normalized_priority_spec \<times> int list)" where
  "priority_spec bounded q =
     (let batches = map (\<lambda>(p, pc). (p, case pc of None \<Rightarrow> zero_priority_config | Some c \<Rightarrow> c))
                      (mq_PriorityBatches q);
          batches = (if bounded
             then map (\<lambda>(p, c). (p, if pc_Capacity c = 0 then c \<lparr> pc_Capacity := DefaultMailboxQueueCapacity \<rparr> else c))
                    batches
             else batches);
          p = \<lparr> ps_strategy = mq_Strategy q, ps_totalBatchLimit = mq_TotalBatchLimit q,
                ps_priorities = batches,
                ps_fallbackPriority = fallback_loop True 0 (map fst batches) \<rparr>;
          capacities = (if bounded then map (pc_Capacity \<circ> snd) batches else [])
      in if bounded
         then (case filter (\<lambda>k. gm_get batches k = None) [PrioritySys, PriorityUrgent, PriorityHigh] of
                 k # _ \<Rightarrow> Inl (RequiresSystemPriority k)
               | [] \<Rightarrow> if ps_fallbackPriority p < PriorityNormal then Inl RequiresUserFallback
                        else Inr (p, capacities))
         else Inr (p, capacities))"

definition bounded_workers :: "worker_schedule_policy \<Rightarrow> queue_spec_error + int" where
  "bounded_workers sp =
     (if sp_EnableAutoScaling sp
      then (case sp_ScalingStrategy sp of
              None \<Rightarrow> Inl ScalingRequiresStrategy
            | Some sc \<Rightarrow>
                if ws_MaxWorkerNum sc < sp_InitialWorkerNum sp then Inl MaxWorkersBelowInitial
                else if ws_ResizeCoolDown sc \<le> 0 then Inl ResizeCoolDownNotPositive
                else Inr (ws_MaxWorkerNum sc))
      else Inr (sp_InitialWorkerNum sp))"

definition bounded_storage :: "mailbox_conf \<Rightarrow> worker_schedule_policy \<Rightarrow> int list \<Rightarrow> queue_spec_error + u64" where
  "bounded_storage conf sp capacities =
     (let limit = (if mc_MaxQueueStorageBytes conf = 0 then DefaultMailboxQueueStorageBytes
                   else mc_MaxQueueStorageBytes conf)
      in and_then (bounded_workers sp) (\<lambda>workers.
         and_then (queue_storage_loop 0 0 0 capacities) (\<lambda>bytes.
         and_then (checkedQueueMul bytes (word_of_int workers)) (\<lambda>total.
           if total > limit then Inl (LayoutExceedsLimit total limit) else Inr total))))"

definition queue_mode :: "bool \<Rightarrow> string \<Rightarrow> queue_spec_error + string" where
  "queue_mode bounded mode =
     (if mode = '''' \<or> mode = QueueModeDual then Inr QueueModeDual
      else if mode = QueueModePriority then Inr QueueModePriority
      else if bounded then Inl (UnknownBoundedQueueMode mode)
      else Inr QueueModeDual)"

definition queue_layout :: "bool \<Rightarrow> string \<Rightarrow> mailbox_conf \<Rightarrow> worker_schedule_policy \<Rightarrow>
    queue_spec_error + (normalized_dual_spec option \<times> normalized_priority_spec option \<times> int list)" where
  "queue_layout bounded mode conf sp =
     (if mode = QueueModeDual
      then let (d, caps) = dual_spec bounded conf in Inr (Some d, None, caps)
      else and_then (priority_spec bounded (normalizeMultiLevelQueueConf (sp_MultiLevelQueueConf sp)))
             (\<lambda>(p, caps). Inr (None, Some p, caps)))"

definition normalizeQueueSpec :: "int \<Rightarrow> mailbox_conf option \<Rightarrow> queue_spec_error + normalized_queue_spec" where
  "normalizeQueueSpec ncpu confo =
     (let conf = fixConf ncpu confo;
          sp = (case mc_SchedulePolicy conf of None \<Rightarrow> zero_schedule_policy | Some sp \<Rightarrow> sp);
          backend = mc_QueueBackend conf;
          bounded = (backend = ''bounded'')
      in if backend \<noteq> ''unbounded'' \<and> backend \<noteq> ''bounded'' then Inl (UnknownQueueBackend backend)
         else and_then (queue_mode bounded (mc_QueueMode conf)) (\<lambda>mode.
         and_then (queue_layout bounded mode conf sp) (\<lambda>(d, p, caps).
           let s = \<lparr> qs_backend = backend, qs_mode = mode, qs_dual = d, qs_priority = p, qs_storageBytes = 0 \<rparr>
           in if \<not> bounded then Inr s
              else and_then (bounded_storage conf sp caps) (\<lambda>total. Inr (s \<lparr> qs_storageBytes := total \<rparr>)))))"

text \<open>What \<open>fixConf\<close> establishes.\<close>

definition idler_ok :: "worker_idler_conf \<Rightarrow> bool" where
  "idler_ok ic \<longleftrightarrow> 0 < ic_BackoffBaseDelay ic \<and> 0 < ic_BackoffMaxDelay ic \<and> 0 < ic_BackoffMaxRetries ic
     \<and> 0 < ic_MaxIdleBeforeBackoff ic"

definition scaling_ok :: "worker_strategy_config \<Rightarrow> bool" where
  "scaling_ok sc \<longleftrightarrow> 1 \<le> ws_MinWorkerNum sc \<and> ws_MinWorkerNum sc \<le> ws_MaxWorkerNum sc
     \<and> 0 < ws_GrowthFactor sc \<and> 0 < ws_ShrinkFactor sc \<and> ws_ShrinkFactor sc \<le> 1 / 2"

definition rw_ok :: "int \<Rightarrow> mailbox_conf \<Rightarrow> bool" where
  "rw_ok workers c \<longleftrightarrow>
     (if mc_EnableRWMode c
      then 1 < workers \<and> 0 < mc_MaxConcurrentReads c \<and> 0 < mc_StopTimeout c \<and> 0 < mc_ReadPoolSize c
      else mc_MaxConcurrentReads c = 0)"

text \<open>The capacities of the physical queues a normalised layout describes, and the exact layout size.\<close>

definition spec_capacities :: "normalized_queue_spec \<Rightarrow> int list" where
  "spec_capacities s =
     (case qs_dual s of Some d \<Rightarrow> [ds_system d, ds_user d] | None \<Rightarrow> [])
     @ (case qs_priority s of Some p \<Rightarrow> map (pc_Capacity \<circ> snd) (ps_priorities p) | None \<Rightarrow> [])"

definition layout_bytes :: "int list \<Rightarrow> int" where
  "layout_bytes caps = sum_list (map (\<lambda>c. 64 + 16 * c) caps)"

section \<open>Facts about the repaired configuration\<close>

lemma fix_idler_ok: "idler_ok (fix_idler io)"
  by (simp add: idler_ok_def fix_idler_def Let_def)

lemma fix_idler_id: "idler_ok ic \<Longrightarrow> fix_idler (Some ic) = ic"
  by (simp add: idler_ok_def fix_idler_def Let_def)

lemma fix_idler_idem: "fix_idler (Some (fix_idler io)) = fix_idler io"
  by (rule fix_idler_id [OF fix_idler_ok])

lemma fix_scaling_idem: "fix_scaling (fix_scaling sc) = fix_scaling sc"
  by (cases sc) (simp add: fix_scaling_def Let_def)

lemma fix_policy_idem: "fix_policy (Some (fix_policy po)) = fix_policy po"
  by (simp add: fix_policy_def Let_def fix_idler_idem option.map_comp comp_def fix_scaling_idem)

lemma fix_rw_ok:
  assumes "0 < ncpu"
  shows "rw_ok w (fix_rw ncpu w c)"
proof (cases "mc_EnableRWMode c \<and> 1 < w")
  case True
  then show ?thesis using assms by (simp add: rw_ok_def fix_rw_def Let_def)
next
  case False
  then show ?thesis by (cases "mc_EnableRWMode c") (simp_all add: rw_ok_def fix_rw_def Let_def)
qed

lemma fix_rw_id: "rw_ok w c \<Longrightarrow> fix_rw ncpu w c = c"
  by (cases "mc_EnableRWMode c") (simp_all add: rw_ok_def fix_rw_def)

lemma fix_rw_idem: "0 < ncpu \<Longrightarrow> fix_rw ncpu w (fix_rw ncpu w c) = fix_rw ncpu w c"
  by (rule fix_rw_id [OF fix_rw_ok])

lemma fix_rw_fields [simp]:
  "mc_QueueBackend (fix_rw n w c) = mc_QueueBackend c" "mc_QueueMode (fix_rw n w c) = mc_QueueMode c"
  "mc_SchedulePolicy (fix_rw n w c) = mc_SchedulePolicy c"
  "mc_DualQueueCapacity (fix_rw n w c) = mc_DualQueueCapacity c"
  "mc_MaxQueueStorageBytes (fix_rw n w c) = mc_MaxQueueStorageBytes c"
  by (auto simp: fix_rw_def Let_def)

lemma fixConf_policy: "mc_SchedulePolicy (fixConf n c) = Some (fix_policy (mc_SchedulePolicy (cloneMailboxConfForFix c)))"
  by (simp add: fixConf_def Let_def)

lemma fix_policy_workers: "1 \<le> sp_InitialWorkerNum (fix_policy po)"
  by (simp add: fix_policy_def Let_def)

section \<open>Checked arithmetic\<close>

lemma int_div_less_iff: "0 < a \<Longrightarrow> n div a < b \<longleftrightarrow> n < b * a" for a b n :: int
proof -
  assume a: "0 < a"
  have n: "n = a * (n div a) + n mod a" "0 \<le> n mod a" "n mod a < a" using a by auto
  show "n div a < b \<longleftrightarrow> n < b * a"
  proof
    assume "n div a < b"
    then have "a * (n div a + 1) \<le> a * b" using a by (intro mult_left_mono) auto
    then have "a * (n div a) + a \<le> b * a" by (simp add: distrib_left mult.commute)
    then show "n < b * a" using n by linarith
  next
    assume "n < b * a"
    moreover have "b * a = a * b" by (rule mult.commute)
    ultimately have "a * (n div a) < a * b" using n by linarith
    then show "n div a < b" using a by simp
  qed
qed

lemma uint_minus_1: "uint (- 1 :: u64) = 2 ^ 64 - 1"
  by (simp add: unsigned_minus_1_eq_mask mask_eq_exp_minus_1)

lemma checkedQueueAdd_exact:
  "checkedQueueAdd a b = (if uint a + uint b < 2 ^ 64 then Inr (a + b) else Inl StorageAddOverflow)"
proof -
  have "uint (- 1 - a) = 2 ^ 64 - 1 - uint a"
    using uint_lt2p [of a] by (simp add: uint_sub_if' uint_minus_1)
  then show ?thesis by (auto simp: checkedQueueAdd_def word_less_def)
qed

lemma checkedQueueAdd_Inr:
  "checkedQueueAdd a b = Inr c \<longleftrightarrow> uint a + uint b < 2 ^ 64 \<and> c = a + b"
  by (auto simp: checkedQueueAdd_exact)

lemma uint_add_exact: "uint (a + b) = uint a + uint b" if "uint a + uint b < 2 ^ 64" for a b :: u64
  using that by (simp add: uint_word_ariths(1))

lemma checkedQueueMul_exact:
  "checkedQueueMul a b = (if uint a * uint b < 2 ^ 64 then Inr (a * b) else Inl StorageMulOverflow)"
proof (cases "a = 0")
  case False
  then have a: "0 < uint a" using word_less_def [of 0 a] by (simp add: word_neq_0_conv)
  have "uint (- 1 div a) = (2 ^ 64 - 1) div uint a" by (simp only: uint_div uint_minus_1)
  moreover have "(2 ^ 64 - 1) div uint a < uint b \<longleftrightarrow> \<not> uint a * uint b < 2 ^ 64"
  proof -
    have "(2 ^ 64 - 1) div uint a < uint b \<longleftrightarrow> 2 ^ 64 - 1 < uint b * uint a"
      using a by (rule int_div_less_iff)
    also have "\<dots> \<longleftrightarrow> \<not> uint b * uint a < 2 ^ 64" by linarith
    finally show ?thesis by (simp only: mult.commute)
  qed
  ultimately show ?thesis using False by (auto simp: checkedQueueMul_def word_less_def)
qed (simp add: checkedQueueMul_def)

lemma checkedQueueMul_Inr:
  "checkedQueueMul a b = Inr c \<longleftrightarrow> uint a * uint b < 2 ^ 64 \<and> c = a * b"
  by (auto simp: checkedQueueMul_exact)

lemma uint_mult_exact: "uint (a * b) = uint a * uint b" if "uint a * uint b < 2 ^ 64" for a b :: u64
  using that by (simp add: uint_word_ariths(3))

lemma uint_word_of_int_small: "0 \<le> c \<Longrightarrow> c < 2 ^ 63 \<Longrightarrow> uint (word_of_int c :: u64) = c"
  by (simp add: uint_word_of_int)

lemma queue_storage_loop_exact:
  assumes "queue_storage_loop i bytes slots caps = Inr r" "\<forall>c \<in> set caps. c < 2 ^ 63"
  shows "(\<forall>c \<in> set caps. 2 \<le> c \<and> is_pow2 c) \<and> uint r = uint bytes + layout_bytes caps"
  using assms
proof (induction caps arbitrary: i bytes slots)
  case (Cons c caps)
  have c: "2 \<le> c" "c AND (c - 1) = 0" using Cons(2) by (auto split: if_splits)
  then have uc: "uint (word_of_int c :: u64) = c" using Cons(3) by (intro uint_word_of_int_small) auto
  from Cons(2) c obtain array layout bytes' slots' where
    array: "checkedQueueMul (word_of_int c) sizeof_job = Inr array"
    and layout: "checkedQueueAdd sizeof_bounded_queue array = Inr layout"
    and bytes': "checkedQueueAdd bytes layout = Inr bytes'"
    and rest: "queue_storage_loop (i + 1) bytes' slots' caps = Inr r"
    by (auto split: if_splits)
  have "uint array = c * 16"
    using array uc by (auto simp: checkedQueueMul_Inr sizeof_job_def uint_mult_exact)
  then have "uint layout = 64 + c * 16"
    using layout by (auto simp: checkedQueueAdd_Inr sizeof_bounded_queue_def uint_add_exact)
  then have "uint bytes' = uint bytes + (64 + 16 * c)"
    using bytes' by (auto simp: checkedQueueAdd_Inr uint_add_exact)
  moreover have "is_pow2 c" using c and_pred_zero_iff [of c] by simp
  ultimately show ?case using Cons.IH [OF rest] Cons(3) c by (simp add: layout_bytes_def)
qed (simp add: layout_bytes_def)

lemma bounded_storage_exact:
  assumes "bounded_storage conf sp caps = Inr tot" "\<forall>c \<in> set caps. c < 2 ^ 63"
    and "\<forall>w. bounded_workers sp = Inr w \<longrightarrow> 0 \<le> w \<and> w < 2 ^ 31"
  shows "(\<forall>c \<in> set caps. 2 \<le> c \<and> is_pow2 c)
    \<and> (\<exists>w. bounded_workers sp = Inr w \<and> uint tot = w * layout_bytes caps
         \<and> tot \<le> (if mc_MaxQueueStorageBytes conf = 0 then DefaultMailboxQueueStorageBytes
                    else mc_MaxQueueStorageBytes conf))"
proof -
  obtain w bytes where w: "bounded_workers sp = Inr w"
    and bytes: "queue_storage_loop 0 0 0 caps = Inr bytes"
    and tot: "checkedQueueMul bytes (word_of_int w) = Inr tot"
    and le: "tot \<le> (if mc_MaxQueueStorageBytes conf = 0 then DefaultMailboxQueueStorageBytes
                    else mc_MaxQueueStorageBytes conf)"
    using assms(1) by (auto simp: bounded_storage_def Let_def split: if_splits)
  have "uint (word_of_int w :: u64) = w" using assms(3) w by (intro uint_word_of_int_small) auto
  then have "uint tot = uint bytes * w" using tot by (auto simp: checkedQueueMul_Inr uint_mult_exact)
  with queue_storage_loop_exact [OF bytes assms(2)] w le show ?thesis by (auto simp: mult.commute)
qed

section \<open>Properties\<close>

lemma fixConf_idem: "0 < ncpu \<Longrightarrow> fixConf ncpu (Some (fixConf ncpu c)) = fixConf ncpu c"
proof -
  assume n: "0 < ncpu"
  let ?c = "fixConf ncpu c" and ?sp = "fix_policy (mc_SchedulePolicy (cloneMailboxConfForFix c))"
  have b: "mc_QueueBackend ?c \<noteq> ''''" "mc_QueueMode ?c \<noteq> ''''" by (simp_all add: fixConf_def Let_def)
  have "fixConf ncpu (Some ?c)
      = fix_rw ncpu (sp_InitialWorkerNum (fix_policy (Some ?sp))) (?c \<lparr> mc_SchedulePolicy := Some (fix_policy (Some ?sp)) \<rparr>)"
    using b by (simp add: fixConf_def [of ncpu "Some ?c"] Let_def cloneMailboxConfForFix_def fixConf_policy)
  also have "\<dots> = fix_rw ncpu (sp_InitialWorkerNum ?sp) (?c \<lparr> mc_SchedulePolicy := Some ?sp \<rparr>)"
    by (simp only: fix_policy_idem)
  also have "?c \<lparr> mc_SchedulePolicy := Some ?sp \<rparr> = ?c" using fixConf_policy [of ncpu c] by simp
  also have "fix_rw ncpu (sp_InitialWorkerNum ?sp) ?c = ?c"
    using n fix_rw_idem [of ncpu] by (simp add: fixConf_def Let_def)
  finally show ?thesis .
qed

lemma fix_scaling_ok: "scaling_ok (fix_scaling sc)"
  by (cases sc) (simp add: fix_scaling_def Let_def scaling_ok_def)

lemma fix_policy_scaling:
  "sp_ScalingStrategy (fix_policy po) = Some sc \<Longrightarrow> scaling_ok sc"
  by (auto simp: fix_policy_def Let_def fix_scaling_ok)

lemma fix_policy_idler: "\<exists>ic. sp_IdlerConf (fix_policy po) = Some ic \<and> idler_ok ic"
  by (simp add: fix_policy_def Let_def fix_idler_ok)

text \<open>
  \<open>fixConf\<close> repairs any configuration, nil included: afterwards there is a schedule policy with
  at least one worker, positive back-off settings, scaling bounds with \<open>1 \<le> min \<le> max\<close> and usable
  factors, and read/write separation is on only with several workers and positive limits. It is
  idempotent, so that \<open>normalizeQueueSpec\<close>, which repairs again, sees the pool's own configuration.
\<close>

theorem fixConf_repairs:
  assumes "0 < ncpu"
  shows "fixConf ncpu (Some (fixConf ncpu c)) = fixConf ncpu c
    \<and> mc_QueueBackend (fixConf ncpu c) \<noteq> '''' \<and> mc_QueueMode (fixConf ncpu c) \<noteq> ''''
    \<and> (\<exists>sp ic. mc_SchedulePolicy (fixConf ncpu c) = Some sp \<and> 1 \<le> sp_InitialWorkerNum sp
         \<and> sp_IdlerConf sp = Some ic \<and> idler_ok ic
         \<and> (\<forall>sc. sp_ScalingStrategy sp = Some sc \<longrightarrow> scaling_ok sc)
         \<and> rw_ok (sp_InitialWorkerNum sp) (fixConf ncpu c))"
proof -
  let ?sp = "fix_policy (mc_SchedulePolicy (cloneMailboxConfForFix c))"
  have "rw_ok (sp_InitialWorkerNum ?sp) (fixConf ncpu c)"
    using fix_rw_ok [OF assms] by (simp add: fixConf_def Let_def)
  moreover obtain ic where "sp_IdlerConf ?sp = Some ic" "idler_ok ic" using fix_policy_idler by blast
  moreover have "mc_QueueBackend (fixConf ncpu c) \<noteq> ''''" "mc_QueueMode (fixConf ncpu c) \<noteq> ''''"
    by (simp_all add: fixConf_def Let_def)
  ultimately show ?thesis
    using fixConf_idem [OF assms] fixConf_policy [of ncpu c] fix_policy_workers fix_policy_scaling by blast
qed

theorem fixConf_repairs_witness:
  "fixConf 8 (Some (fixConf 8 None)) = fixConf 8 None \<and> mc_QueueMode (fixConf 8 None) \<noteq> ''''"
  using fixConf_repairs [of 8 None] by simp

lemma queue_layout_capacities:
  assumes "queue_layout True mode conf sp = Inr (d, p, caps)"
  shows "caps = spec_capacities \<lparr> qs_backend = b, qs_mode = m, qs_dual = d, qs_priority = p, qs_storageBytes = n \<rparr>"
proof (cases "mode = QueueModeDual")
  case True
  then show ?thesis
    using assms by (auto simp: queue_layout_def dual_spec_def Let_def spec_capacities_def)
next
  case False
  then obtain p' where p': "priority_spec True (normalizeMultiLevelQueueConf (sp_MultiLevelQueueConf sp)) = Inr (p', caps)"
    "d = None" "p = Some p'"
    using assms by (auto simp: queue_layout_def)
  from p'(1) have "caps = map (pc_Capacity \<circ> snd) (ps_priorities p')"
    unfolding priority_spec_def Let_def by (simp only: if_True) (auto split: list.splits if_splits)
  then show ?thesis using p' by (simp add: spec_capacities_def)
qed

lemma normalize_Inr:
  assumes "normalizeQueueSpec ncpu c = Inr s" "mc_SchedulePolicy (fixConf ncpu c) = Some sp"
  obtains mode d p caps where
    "mc_QueueBackend (fixConf ncpu c) = ''unbounded'' \<or> mc_QueueBackend (fixConf ncpu c) = ''bounded''"
    "queue_mode (mc_QueueBackend (fixConf ncpu c) = ''bounded'') (mc_QueueMode (fixConf ncpu c)) = Inr mode"
    "queue_layout (mc_QueueBackend (fixConf ncpu c) = ''bounded'') mode (fixConf ncpu c) sp = Inr (d, p, caps)"
    "s = \<lparr> qs_backend = mc_QueueBackend (fixConf ncpu c), qs_mode = mode, qs_dual = d, qs_priority = p,
           qs_storageBytes = qs_storageBytes s \<rparr>"
    "mc_QueueBackend (fixConf ncpu c) = ''bounded'' \<Longrightarrow>
       bounded_storage (fixConf ncpu c) sp caps = Inr (qs_storageBytes s)"
proof -
  have ok: "mc_QueueBackend (fixConf ncpu c) = ''unbounded'' \<or> mc_QueueBackend (fixConf ncpu c) = ''bounded''"
    using assms(1) unfolding normalizeQueueSpec_def Let_def by (metis Inl_Inr_False)
  from assms(1) ok obtain mode where
    mode: "queue_mode (mc_QueueBackend (fixConf ncpu c) = ''bounded'') (mc_QueueMode (fixConf ncpu c)) = Inr mode"
    unfolding normalizeQueueSpec_def Let_def by (auto simp only: and_then_eq_Inr split: if_splits)
  from assms ok mode obtain d p caps where
    lay: "queue_layout (mc_QueueBackend (fixConf ncpu c) = ''bounded'') mode (fixConf ncpu c) sp = Inr (d, p, caps)"
    unfolding normalizeQueueSpec_def Let_def by (auto simp only: and_then_eq_Inr option.case split: if_splits)
  show ?thesis
  proof (cases "mc_QueueBackend (fixConf ncpu c) = ''bounded''")
    case True
    then show ?thesis
      using assms that [OF ok mode lay] mode lay unfolding normalizeQueueSpec_def Let_def by auto
  next
    case False
    then show ?thesis
      using assms ok that [OF ok mode lay] mode lay unfolding normalizeQueueSpec_def Let_def by auto
  qed
qed

lemma normalize_bounded_storage:
  assumes "normalizeQueueSpec ncpu c = Inr s" "qs_backend s = ''bounded''"
  shows "\<exists>sp. mc_SchedulePolicy (fixConf ncpu c) = Some sp
    \<and> bounded_storage (fixConf ncpu c) sp (spec_capacities s) = Inr (qs_storageBytes s)"
proof -
  obtain sp where sp: "mc_SchedulePolicy (fixConf ncpu c) = Some sp" using fixConf_policy by blast
  from normalize_Inr [OF assms(1) sp] obtain mode d p caps where n:
    "queue_layout (mc_QueueBackend (fixConf ncpu c) = ''bounded'') mode (fixConf ncpu c) sp = Inr (d, p, caps)"
    "s = \<lparr> qs_backend = mc_QueueBackend (fixConf ncpu c), qs_mode = mode, qs_dual = d, qs_priority = p,
           qs_storageBytes = qs_storageBytes s \<rparr>"
    "mc_QueueBackend (fixConf ncpu c) = ''bounded'' \<Longrightarrow>
       bounded_storage (fixConf ncpu c) sp caps = Inr (qs_storageBytes s)"
    by metis
  have b: "mc_QueueBackend (fixConf ncpu c) = ''bounded''"
    using assms(2) arg_cong [OF n(2), of qs_backend] by simp
  have "caps = spec_capacities s" using queue_layout_capacities n(1) b by (subst n(2)) simp
  with n(3) b sp show ?thesis by simp
qed

text \<open>
  A bounded layout that \<open>normalizeQueueSpec\<close> accepts has only power-of-two capacities of at
  least two, and its storage figure is the exact number of bytes of all queues of all workers
  (never a wrapped product or sum), which does not exceed the configured limit.
\<close>

theorem normalizeQueueSpec_exact:
  assumes "normalizeQueueSpec ncpu c = Inr s" "qs_backend s = ''bounded''"
    and "\<forall>k \<in> set (spec_capacities s). k < 2 ^ 63"
    and "\<forall>sp w. mc_SchedulePolicy (fixConf ncpu c) = Some sp \<and> bounded_workers sp = Inr w \<longrightarrow> 0 \<le> w \<and> w < 2 ^ 31"
  shows "(\<forall>k \<in> set (spec_capacities s). 2 \<le> k \<and> is_pow2 k)
    \<and> (\<exists>sp w. mc_SchedulePolicy (fixConf ncpu c) = Some sp \<and> bounded_workers sp = Inr w
         \<and> uint (qs_storageBytes s) = w * layout_bytes (spec_capacities s)
         \<and> qs_storageBytes s \<le> (if mc_MaxQueueStorageBytes (fixConf ncpu c) = 0 then DefaultMailboxQueueStorageBytes
                                else mc_MaxQueueStorageBytes (fixConf ncpu c)))"
proof -
  obtain sp where sp: "mc_SchedulePolicy (fixConf ncpu c) = Some sp"
    "bounded_storage (fixConf ncpu c) sp (spec_capacities s) = Inr (qs_storageBytes s)"
    using normalize_bounded_storage [OF assms(1,2)] by blast
  then show ?thesis using bounded_storage_exact [OF sp(2) assms(3)] assms(4) by blast
qed

text \<open>The layout without configuration: two queues of 4096 slots for one worker, \<open>131200\<close> bytes.\<close>

lemma fixConf_default:
  "fixConf n None = \<lparr> mc_QueueBackend = ''bounded'', mc_DualQueueCapacity = None,
     mc_MaxQueueStorageBytes = 0, mc_QueueMode = ''dual'', mc_SchedulePolicy = Some (fix_policy None),
     mc_EnableRWMode = False, mc_MaxConcurrentReads = 0, mc_StopTimeout = 0,
     mc_MaxJobExecutionTime = 0, mc_ReadPoolSize = 0, mc_ReadDispatchChanCap = 0 \<rparr>"
  by (simp add: fixConf_def cloneMailboxConfForFix_def zero_mailbox_conf_def fix_rw_def Let_def)

lemma bounded_workers_default: "bounded_workers (fix_policy None) = Inr 1"
  by (simp add: bounded_workers_def fix_policy_def zero_schedule_policy_def Let_def)

lemma normalize_default:
  "normalizeQueueSpec n None = Inr \<lparr> qs_backend = ''bounded'', qs_mode = ''dual'',
     qs_dual = Some \<lparr> ds_system = 4096, ds_user = 4096 \<rparr>, qs_priority = None, qs_storageBytes = 131200 \<rparr>"
proof -
  have "queue_storage_loop 0 0 0 [4096, 4096] = Inr 131200" by code_simp
  then have "bounded_storage (fixConf n None) (fix_policy None) [4096, 4096] = Inr 131200"
    by (simp add: bounded_storage_def bounded_workers_default checkedQueueMul_exact fixConf_default
        DefaultMailboxQueueStorageBytes_def del: queue_storage_loop.simps)
  then show ?thesis
    by (simp add: normalizeQueueSpec_def fixConf_default queue_mode_def QueueModeDual_def queue_layout_def
        dual_spec_def DefaultMailboxQueueCapacity_def)
qed

theorem normalizeQueueSpec_exact_witness:
  "\<exists>s. normalizeQueueSpec 8 None = Inr s \<and> uint (qs_storageBytes s) = 1 * layout_bytes (spec_capacities s)"
proof -
  let ?s = "\<lparr> qs_backend = ''bounded'', qs_mode = ''dual'', qs_dual = Some \<lparr> ds_system = 4096, ds_user = 4096 \<rparr>,
     qs_priority = None, qs_storageBytes = 131200 \<rparr>"
  have "mc_SchedulePolicy (fixConf 8 None) = Some (fix_policy None)" by (simp add: fixConf_default)
  then have "\<exists>sp w. mc_SchedulePolicy (fixConf 8 None) = Some sp \<and> bounded_workers sp = Inr w
         \<and> uint (qs_storageBytes ?s) = w * layout_bytes (spec_capacities ?s)"
    using normalizeQueueSpec_exact [OF normalize_default, of 8]
    by (auto simp: spec_capacities_def bounded_workers_default)
  then show ?thesis using normalize_default by (simp add: fixConf_default bounded_workers_default)
qed

end
