(* ===== verification/Mailbox_Queue.thy ===== *)
theory Mailbox_Queue
  imports Bounded_MPSC MPSC Mailbox_Conf
begin

text \<open>
  The jobs of a mailbox (\<open>actor/mailbox/job/job.go\<close>), the errors the mailbox reports
  (\<open>def/error.go\<close>), and the physical queue that \<open>newQueue\<close> of
  \<open>actor/mailbox/queue_manager.go\<close> builds: a sum of the two queue implementations behind the
  interface \<open>queue[T]\<close>.
\<close>

section \<open>Definitions\<close>

datatype job_type = JobNone | JobRpc | JobEvent | JobTimer | JobConcurrentCallback | JobSysCtl

datatype rw_mode = RWModeWrite | RWModeRead

text \<open>
  A job, with the answers its methods give: \<open>jb_id\<close> identifies the object; \<open>jb_isReply\<close> is
  \<open>envelope.GetData().IsReply()\<close> of an RPC payload; \<open>jb_cancelable\<close> is
  \<open>IsCancelOnContextDone\<close> (true for RPC jobs); \<open>jb_ctxErr\<close> is the error of its context once that
  context is done.
\<close>

record mailbox_job =
  jb_id :: nat
  jb_Type :: job_type
  jb_Priority :: priority
  jb_DispatcherKey :: string
  jb_rwMode :: rw_mode
  jb_isReply :: bool
  jb_cancelable :: bool
  jb_ctxErr :: "string option"
  jb_deadline :: int
  jb_mctx :: "nat option"

datatype mailbox_error =
    ErrMailboxWorkerChannelNotInit
  | ErrMailboxWorkerClosed
  | ErrMailboxNotRunning
  | ErrMailboxWorkerIsFull
  | ErrMailboxWorkerNotFound
  | ErrMailboxSuspended
  | ErrMailboxMiddlewareRejected
  | ErrNoQueueForPriority priority
  | ErrOther string

definition Job_Reset :: "mailbox_job \<Rightarrow> mailbox_job" where
  "Job_Reset j = j \<lparr> jb_Type := JobNone, jb_Priority := PriorityNormal, jb_DispatcherKey := '''',
     jb_rwMode := RWModeWrite, jb_isReply := False, jb_ctxErr := None, jb_deadline := 0, jb_mctx := None \<rparr>"

definition Job_SetPriority :: "priority \<Rightarrow> mailbox_job \<Rightarrow> mailbox_job" where
  "Job_SetPriority p j = j \<lparr> jb_Priority := p \<rparr>"

datatype 'a mqueue = QUnbounded "'a mpsc" | QBounded "'a bqueue"

definition newQueue :: "'a \<Rightarrow> (nat list \<Rightarrow> nat option) \<Rightarrow> normalized_physical_spec \<Rightarrow> go_panic + 'a mqueue" where
  "newQueue zero pick spec =
     (if ph_backend spec = ''unbounded'' then Inr (QUnbounded (MPSC_New zero pick))
      else if ph_backend spec = ''bounded''
      then (case BQueue_New zero (ph_capacity spec) of
              Inl ErrCapacityTooSmall \<Rightarrow> Inl (Go_Panic ''boundedmpsc: capacity must be at least 2'')
            | Inl ErrCapacityNotPower2 \<Rightarrow> Inl (Go_Panic ''boundedmpsc: capacity must be a power of two'')
            | Inr q \<Rightarrow> Inr (QBounded q))
      else Inl (Go_Panic ''mailbox: invalid normalized queue backend''))"

fun MQueue_Push :: "'a mqueue \<Rightarrow> 'a \<Rightarrow> bool \<times> 'a mqueue" where
  "MQueue_Push (QUnbounded q) x = map_prod id QUnbounded (MPSC_Push q x)"
| "MQueue_Push (QBounded q) x = map_prod id QBounded (BQueue_Push q x)"

fun MQueue_Pop :: "'a mqueue \<Rightarrow> 'a option \<times> 'a mqueue" where
  "MQueue_Pop (QUnbounded q) = map_prod id QUnbounded (MPSC_Pop q)"
| "MQueue_Pop (QBounded q) = map_prod id QBounded (BQueue_Pop q)"

fun MQueue_Empty :: "'a mqueue \<Rightarrow> bool" where
  "MQueue_Empty (QUnbounded q) = MPSC_Empty q"
| "MQueue_Empty (QBounded q) = BQueue_Empty q"

fun MQueue_Len :: "'a mqueue \<Rightarrow> int" where
  "MQueue_Len (QUnbounded q) = MPSC_Len q"
| "MQueue_Len (QBounded q) = BQueue_Len q"

fun mq_inv :: "'a mqueue \<Rightarrow> bool" where
  "mq_inv (QUnbounded q) = ms_inv q"
| "mq_inv (QBounded q) = bq_inv q"

fun mq_elems :: "'a mqueue \<Rightarrow> 'a list" where
  "mq_elems (QUnbounded q) = ms_elems q"
| "mq_elems (QBounded q) = bq_elems q"

fun mq_capacity :: "'a mqueue \<Rightarrow> nat option" where
  "mq_capacity (QUnbounded q) = None"
| "mq_capacity (QBounded q) = Some (BQueue_Cap q)"

section \<open>The sum of the two queues is a queue\<close>

interpretation mq: fifo_queue mq_inv mq_elems mq_capacity MQueue_Push MQueue_Pop MQueue_Empty MQueue_Len
proof unfold_locales
  fix q :: "'a mqueue" and x
  assume i: "mq_inv q"
  show "mq_inv (snd (MQueue_Push q x))" using i by (cases q) (simp_all add: ms.push_inv bq.push_inv)
  show "(fst (MQueue_Push q x), mq_elems (snd (MQueue_Push q x))) = spec_push (mq_capacity q) (mq_elems q) x"
    using i ms.push_spec bq.push_spec by (cases q) simp_all
  show "\<not> fst (MQueue_Push q x) \<Longrightarrow> snd (MQueue_Push q x) = q"
    using i ms.push_refused bq.push_refused by (cases q) simp_all
  show "mq_capacity (snd (MQueue_Push q x)) = mq_capacity q"
    using i BQueue_Push_capacity by (cases q) simp_all
  show "mq_inv (snd (MQueue_Pop q))" using i by (cases q) (simp_all add: ms.pop_inv bq.pop_inv)
  show "(fst (MQueue_Pop q), mq_elems (snd (MQueue_Pop q))) = spec_pop (mq_elems q)"
    using i ms.pop_spec bq.pop_spec by (cases q) simp_all
  show "fst (MQueue_Pop q) = None \<Longrightarrow> snd (MQueue_Pop q) = q"
    using i ms.pop_refused bq.pop_refused by (cases q) simp_all
  show "mq_capacity (snd (MQueue_Pop q)) = mq_capacity q"
    using i BQueue_Pop_capacity by (cases q) simp_all
  show "MQueue_Empty q = (mq_elems q = [])" using i ms.empty_spec bq.empty_spec by (cases q) simp_all
  show "MQueue_Len q = int (length (mq_elems q))" using i ms.len_spec bq.len_spec by (cases q) simp_all
qed

lemma newQueue_ok:
  assumes "newQueue z pick spec = Inr q" "ph_capacity spec < 2 ^ 63"
  shows "mq_inv q" "mq_elems q = []"
    "ph_backend spec = ''bounded'' \<Longrightarrow> mq_capacity q = Some (nat (ph_capacity spec))"
    "ph_backend spec = ''unbounded'' \<Longrightarrow> mq_capacity q = None"
proof -
  have *: "mq_inv q \<and> mq_elems q = [] \<and> (ph_backend spec = ''bounded'' \<longrightarrow> mq_capacity q = Some (nat (ph_capacity spec)))
    \<and> (ph_backend spec = ''unbounded'' \<longrightarrow> mq_capacity q = None)"
  proof (cases "ph_backend spec = ''unbounded''")
    case True
    then show ?thesis using assms MPSC_New_inv by (auto simp: newQueue_def)
  next
    case False
    then obtain b where b: "BQueue_New z (ph_capacity spec) = Inr b" "q = QBounded b"
      using assms(1) by (auto simp: newQueue_def split: if_splits sum.splits bq_error.splits)
    then show ?thesis
      using BQueue_New_inv [OF b(1) assms(2)] False by (simp add: BQueue_Cap_def)
  qed
  then show "mq_inv q" "mq_elems q = []"
    "ph_backend spec = ''bounded'' \<Longrightarrow> mq_capacity q = Some (nat (ph_capacity spec))"
    "ph_backend spec = ''unbounded'' \<Longrightarrow> mq_capacity q = None" by simp_all
qed

lemma newQueue_no_panic:
  assumes "ph_backend spec = ''unbounded'' \<or> ph_backend spec = ''bounded'' \<and> 2 \<le> ph_capacity spec \<and> is_pow2 (ph_capacity spec)"
  shows "\<exists>q. newQueue z pick spec = Inr q"
  using assms and_pred_zero_iff [of "ph_capacity spec"]
  by (auto simp: newQueue_def BQueue_New_def)

end
