(* ===== verification/Priority_Scheduler.thy ===== *)
theory Priority_Scheduler
  imports Mailbox_Conf
begin

text \<open>
  \<open>engine/pkg/actor/mailbox/scheduler.go\<close>: the scheduler that picks, among the priorities with
  waiting jobs, the one to serve next. One worker owns it, so its state is passed explicitly. The
  reusable buffer \<open>samePriorityBuf\<close> holds no information between calls and is not represented.
\<close>

section \<open>Definitions\<close>

record priority_scheduler =
  sch_strategy :: string
  sch_priorities :: "(priority, priority_config) gomap"
  sch_weights :: "(priority, int) gomap"
  sch_counters :: "(priority, int) gomap"

definition newPrioritySchedulerFromNormalized ::
  "string \<Rightarrow> (priority, priority_config) gomap \<Rightarrow> priority_scheduler" where
  "newPrioritySchedulerFromNormalized strategy batches =
     \<lparr> sch_strategy = strategy, sch_priorities = batches,
       sch_weights = map (\<lambda>(lv, pc). (lv, pc_Weight pc)) batches,
       sch_counters = map (\<lambda>(lv, pc). (lv, 0)) batches \<rparr>"

definition NewPriorityScheduler :: "multi_level_worker_conf option \<Rightarrow> priority_scheduler" where
  "NewPriorityScheduler conf =
     (let c = normalizeMultiLevelWorkerConf conf
      in newPrioritySchedulerFromNormalized (mw_Strategy c)
           (map (\<lambda>(p, pc). (p, case pc of None \<Rightarrow> zero_priority_config | Some x \<Rightarrow> x)) (mw_PriorityBatches c)))"

text \<open>A Go map lookup that yields the zero value for a missing key.\<close>

definition counter_of :: "(priority, int) gomap \<Rightarrow> priority \<Rightarrow> int" where
  "counter_of m p = (case gm_get m p of None \<Rightarrow> 0 | Some c \<Rightarrow> c)"

definition resetCountersIfNeeded :: "priority_scheduler \<Rightarrow> priority_scheduler" where
  "resetCountersIfNeeded ps =
     (let maxCounter = fold (\<lambda>(_, c) m. if c > m then c else m) (sch_counters ps) 0
      in if maxCounter > 10000000000
         then let minCounter = fold (\<lambda>(_, c) m. if c < m then c else m) (sch_counters ps) maxCounter
              in ps \<lparr> sch_counters := map (\<lambda>(p, c). (p, c - minCounter)) (sch_counters ps) \<rparr>
         else ps)"

fun weighted_loop :: "priority_scheduler \<Rightarrow> priority list \<Rightarrow> priority \<Rightarrow> rat \<Rightarrow> priority" where
  "weighted_loop ps [] sel minRatio = sel"
| "weighted_loop ps (p # rest) sel minRatio =
     (case gm_get (sch_weights ps) p of
        None \<Rightarrow> weighted_loop ps rest sel minRatio
      | Some weight \<Rightarrow>
          if weight \<le> 0 then weighted_loop ps rest sel minRatio
          else let ratio = fl64 (of_int (counter_of (sch_counters ps) p) / of_int weight)
               in if sel = - 1 \<or> ratio < minRatio then weighted_loop ps rest p ratio
                  else weighted_loop ps rest sel minRatio)"

fun fairness_loop :: "priority_scheduler \<Rightarrow> priority list \<Rightarrow> priority \<Rightarrow> int \<Rightarrow> priority" where
  "fairness_loop ps [] sel minCounter = sel"
| "fairness_loop ps (p # rest) sel minCounter =
     (let counter = counter_of (sch_counters ps) p
      in if sel = - 1 \<or> counter < minCounter then fairness_loop ps rest p counter
         else fairness_loop ps rest sel minCounter)"

definition bump_counter :: "priority \<Rightarrow> priority_scheduler \<Rightarrow> priority_scheduler" where
  "bump_counter sel ps =
     (if sel \<noteq> - 1
      then ps \<lparr> sch_counters := gm_set (sch_counters ps) sel (counter_of (sch_counters ps) sel + 1) \<rparr>
      else ps)"

definition weightedPriorityWithOrdering :: "priority list \<Rightarrow> priority_scheduler \<Rightarrow> priority \<times> priority_scheduler" where
  "weightedPriorityWithOrdering available ps0 =
     (let ps = resetCountersIfNeeded ps0;
          same = takeWhile (\<lambda>p. p = hd available) available
      in if length same = 1 then (hd same, ps)
         else let sel = weighted_loop ps same (- 1) (2 ^ 63) in (sel, bump_counter sel ps))"

definition fairnessPriorityWithOrdering :: "priority list \<Rightarrow> priority_scheduler \<Rightarrow> priority \<times> priority_scheduler" where
  "fairnessPriorityWithOrdering available ps0 =
     (let ps = resetCountersIfNeeded ps0;
          same = takeWhile (\<lambda>p. p = hd available) available
      in if length same = 1 then (hd same, ps)
         else let sel = fairness_loop ps same (- 1) (2 ^ 63 - 1) in (sel, bump_counter sel ps))"

definition NextPriorityWithOrdering :: "priority list \<Rightarrow> priority_scheduler \<Rightarrow> priority \<times> priority_scheduler" where
  "NextPriorityWithOrdering available ps =
     (if available = [] then (- 1, ps)
      else if sch_strategy ps = StrategyAbsolute then (hd available, ps)
      else if sch_strategy ps = StrategyWeighted then weightedPriorityWithOrdering available ps
      else if sch_strategy ps = StrategyFairness then fairnessPriorityWithOrdering available ps
      else (hd available, ps))"

section \<open>Counters\<close>

lemma fold_max_ge:
  "acc \<le> fold (\<lambda>(_, c) m. if c > m then c else m) kcs (acc :: int)"
  "(k, c) \<in> set kcs \<Longrightarrow> c \<le> fold (\<lambda>(_, c) m. if c > m then c else m) kcs acc"
proof (induction kcs arbitrary: acc)
  case (Cons kc kcs)
  { case 1 then show ?case using Cons.IH(1) by (auto simp: split_beta intro: order_trans less_imp_le) }
  { case 2
    then show ?case
      using Cons.IH(1) [of acc] Cons.IH(1) [of c] Cons.IH(2) by (auto simp: split_beta) }
qed auto

lemma fold_min_le:
  "fold (\<lambda>(_, c) m. if c < m then c else m) kcs acc \<le> (acc :: int)"
  "(k, c) \<in> set kcs \<Longrightarrow> fold (\<lambda>(_, c) m. if c < m then c else m) kcs acc \<le> c"
proof (induction kcs arbitrary: acc)
  case (Cons kc kcs)
  { case 1 then show ?case using Cons.IH(1) by (auto simp: split_beta intro: order_trans less_imp_le) }
  { case 2
    then show ?case
      using Cons.IH(1) [of acc] Cons.IH(1) [of c] Cons.IH(2) by (auto simp: split_beta) }
qed auto

lemma takeWhile_hd_distinct: "distinct xs \<Longrightarrow> xs \<noteq> [] \<Longrightarrow> takeWhile (\<lambda>p. p = hd xs) xs = [hd xs]"
  by (cases xs) (auto simp: takeWhile_eq_Nil_iff dest: hd_in_set)

lemma reset_keeps:
  "sch_strategy (resetCountersIfNeeded ps) = sch_strategy ps"
  "sch_weights (resetCountersIfNeeded ps) = sch_weights ps"
  "gm_keys (sch_counters (resetCountersIfNeeded ps)) = gm_keys (sch_counters ps)"
  by (auto simp: resetCountersIfNeeded_def Let_def comp_def split_beta)

lemma counter_of_shift:
  "p \<in> set (gm_keys m) \<Longrightarrow> counter_of (map (\<lambda>(p, c). (p, c - d)) m) p = counter_of m p - d"
  by (induction m) (auto simp: counter_of_def)

section \<open>Properties\<close>

text \<open>
  On the list a queue manager passes (the waiting priorities, highest first, each once) every
  strategy, weighted and fairness included, picks the highest waiting priority, and the weights and
  counters play no part: a lower priority is never served while a higher one waits.
\<close>

theorem NextPriority_always_highest:
  assumes "distinct available" "available \<noteq> []"
  shows "fst (NextPriorityWithOrdering available ps) = hd available"
  using assms takeWhile_hd_distinct [OF assms]
  by (simp add: NextPriorityWithOrdering_def weightedPriorityWithOrdering_def fairnessPriorityWithOrdering_def Let_def)

theorem NextPriority_always_highest_witness:
  "fst (NextPriorityWithOrdering [PriorityNormal, PriorityLow]
     (newPrioritySchedulerFromNormalized StrategyFairness
        [(PriorityNormal, zero_priority_config), (PriorityLow, zero_priority_config)])) = PriorityNormal"
  using NextPriority_always_highest [of "[PriorityNormal, PriorityLow]"]
  by (simp add: PriorityNormal_def PriorityLow_def)

text \<open>
  Normalising the counters: when one exceeds \<open>10^10\<close> the least counter is subtracted from all.
  The difference between any two counters is unchanged, no counter grows or becomes negative, and
  the registered priorities stay the same.
\<close>

theorem resetCounters_sound:
  assumes "\<forall>(p, c) \<in> set (sch_counters ps). 0 \<le> c"
    and "p \<in> set (gm_keys (sch_counters ps))" "q \<in> set (gm_keys (sch_counters ps))"
  shows "gm_keys (sch_counters (resetCountersIfNeeded ps)) = gm_keys (sch_counters ps)
    \<and> counter_of (sch_counters (resetCountersIfNeeded ps)) p - counter_of (sch_counters (resetCountersIfNeeded ps)) q
        = counter_of (sch_counters ps) p - counter_of (sch_counters ps) q
    \<and> (\<forall>(p, c) \<in> set (sch_counters (resetCountersIfNeeded ps)). 0 \<le> c)
    \<and> counter_of (sch_counters (resetCountersIfNeeded ps)) p \<le> counter_of (sch_counters ps) p"
proof -
  let ?m = "sch_counters ps"
  let ?max = "fold (\<lambda>(_, c) m. if c > m then c else m) ?m 0"
  let ?min = "fold (\<lambda>(_, c) m. if c < m then c else m) ?m ?max"
  show ?thesis
  proof (cases "10000000000 < ?max")
    case True
    then have r: "sch_counters (resetCountersIfNeeded ps) = map (\<lambda>(p, c). (p, c - ?min)) ?m"
      by (simp add: resetCountersIfNeeded_def Let_def)
    have "0 \<le> c - ?min" if "(k, c) \<in> set ?m" for k c using fold_min_le(2) [OF that, of ?max] by simp
    moreover have "0 \<le> ?min"
    proof -
      have "0 \<le> fold (\<lambda>(_, c) m. if c < m then c else m) xs a"
        if "\<forall>(p, c) \<in> set xs. 0 \<le> c" "0 \<le> a" for xs :: "(priority \<times> int) list" and a
        using that by (induction xs arbitrary: a) (auto simp: split_beta)
      then show ?thesis using assms(1) True by force
    qed
    ultimately show ?thesis
      using assms(2,3) reset_keeps(3) [of ps] by (auto simp: r counter_of_shift)
  next
    case False
    then have "resetCountersIfNeeded ps = ps" by (simp add: resetCountersIfNeeded_def Let_def)
    then show ?thesis using assms(1) by simp
  qed
qed

theorem resetCounters_sound_witness:
  "counter_of (sch_counters (resetCountersIfNeeded
     \<lparr> sch_strategy = StrategyFairness, sch_priorities = [], sch_weights = [],
       sch_counters = [(0, 20000000000), (1, 19999999990)] \<rparr>)) 0
   - counter_of (sch_counters (resetCountersIfNeeded
     \<lparr> sch_strategy = StrategyFairness, sch_priorities = [], sch_weights = [],
       sch_counters = [(0, 20000000000), (1, 19999999990)] \<rparr>)) 1 = 10"
  using resetCounters_sound [of "\<lparr> sch_strategy = StrategyFairness, sch_priorities = [], sch_weights = [],
       sch_counters = [(0, 20000000000), (1, 19999999990)] \<rparr>" 0 1]
  by (simp add: counter_of_def)

end
