(* ===== verification/Queue_Manager.thy ===== *)
theory Queue_Manager
  imports Mailbox_Queue Priority_Scheduler
begin

text \<open>
  The queue managers of a worker: \<open>queue_manager_dual.go\<close> (a system and a user queue) and
  \<open>queue_manager_priority.go\<close> (one queue per priority, chosen by the scheduler), behind the
  interface \<open>IQueueManager\<close> of \<open>queue_manager.go\<close>, and \<open>createQueueManager\<close> of \<open>worker.go\<close>.

  \<open>Submit\<close> may rewrite the priority of the job object; the rewritten job is part of its result.
  \<open>DrainAll\<close> returns the jobs given to its handler, in order; \<open>None\<close> would be a drain that never
  ends. The reusable buffer \<open>nextJobBuf\<close> is the filtered list of a single \<open>NextJob\<close> call.
\<close>

section \<open>Definitions\<close>

subsection \<open>Two queues\<close>

record dual_queue_manager =
  dm_systemMailbox :: "mailbox_job mqueue"
  dm_userMailbox :: "mailbox_job mqueue"

definition newDualQueueManager :: "mailbox_job \<Rightarrow> (nat list \<Rightarrow> nat option) \<Rightarrow> normalized_queue_spec
    \<Rightarrow> go_panic + dual_queue_manager" where
  "newDualQueueManager zero pick spec =
     (case qs_dual spec of
        None \<Rightarrow> Inl (Go_Panic ''invalid memory address or nil pointer dereference'')
      | Some d \<Rightarrow>
          and_then (newQueue zero pick \<lparr> ph_backend = qs_backend spec, ph_capacity = ds_system d \<rparr>) (\<lambda>s.
          and_then (newQueue zero pick \<lparr> ph_backend = qs_backend spec, ph_capacity = ds_user d \<rparr>) (\<lambda>u.
            Inr \<lparr> dm_systemMailbox = s, dm_userMailbox = u \<rparr>)))"

definition NewDualQueueManager :: "int \<Rightarrow> mailbox_job \<Rightarrow> (nat list \<Rightarrow> nat option) \<Rightarrow> go_panic + dual_queue_manager" where
  "NewDualQueueManager ncpu zero pick =
     (case normalizeQueueSpec ncpu None of
        Inl _ \<Rightarrow> Inl (Go_Panic ''queue spec error'')
      | Inr spec \<Rightarrow> newDualQueueManager zero pick spec)"

definition Dual_Submit :: "mailbox_job \<Rightarrow> dual_queue_manager
    \<Rightarrow> mailbox_error option \<times> mailbox_job \<times> dual_queue_manager" where
  "Dual_Submit e m =
     (if jb_Priority e < PriorityNormal
      then (case MQueue_Push (dm_systemMailbox m) e of
              (ok, q) \<Rightarrow> if ok then (None, e, m \<lparr> dm_systemMailbox := q \<rparr>)
                         else (Some ErrMailboxWorkerIsFull, e, m \<lparr> dm_systemMailbox := q \<rparr>))
      else (case MQueue_Push (dm_userMailbox m) e of
              (ok, q) \<Rightarrow> if ok then (None, e, m \<lparr> dm_userMailbox := q \<rparr>)
                         else (Some ErrMailboxWorkerIsFull, e, m \<lparr> dm_userMailbox := q \<rparr>)))"

definition Dual_NextJob :: "dual_queue_manager \<Rightarrow> mailbox_job option \<times> dual_queue_manager" where
  "Dual_NextJob m =
     (case MQueue_Pop (dm_systemMailbox m) of
        (Some e, q) \<Rightarrow> (Some e, m \<lparr> dm_systemMailbox := q \<rparr>)
      | (None, q) \<Rightarrow>
          (case MQueue_Pop (dm_userMailbox m) of
             (r, u) \<Rightarrow> (r, m \<lparr> dm_systemMailbox := q, dm_userMailbox := u \<rparr>)))"

definition Dual_GetJobLen :: "dual_queue_manager \<Rightarrow> int" where
  "Dual_GetJobLen m = MQueue_Len (dm_systemMailbox m) + MQueue_Len (dm_userMailbox m)"

definition Dual_DrainAll :: "dual_queue_manager \<Rightarrow> (mailbox_job list \<times> dual_queue_manager) option" where
  "Dual_DrainAll m =
     Option.bind (drain_queue MQueue_Empty MQueue_Pop (dm_systemMailbox m)) (\<lambda>(es, q).
     Option.bind (drain_queue MQueue_Empty MQueue_Pop (dm_userMailbox m)) (\<lambda>(us, u).
       Some (es @ us, \<lparr> dm_systemMailbox = q, dm_userMailbox = u \<rparr>)))"

definition Dual_IsEmpty :: "dual_queue_manager \<Rightarrow> bool" where
  "Dual_IsEmpty m \<longleftrightarrow> MQueue_Empty (dm_systemMailbox m) \<and> MQueue_Empty (dm_userMailbox m)"

subsection \<open>One queue per priority\<close>

record priority_queue_manager =
  pm_queues :: "(priority, mailbox_job mqueue) gomap"
  pm_scheduler :: priority_scheduler
  pm_batchSizes :: "(priority, int) gomap"
  pm_sortedPriorities :: "priority list"
  pm_totalBatchLimit :: int
  pm_fallbackPriority :: priority
  pm_fallbackWarned :: bool

fun build_queues :: "mailbox_job \<Rightarrow> (nat list \<Rightarrow> nat option) \<Rightarrow> string \<Rightarrow> (priority, priority_config) gomap
    \<Rightarrow> go_panic + (priority, mailbox_job mqueue) gomap" where
  "build_queues zero pick backend [] = Inr []"
| "build_queues zero pick backend ((p, pc) # rest) =
     and_then (newQueue zero pick \<lparr> ph_backend = backend, ph_capacity = pc_Capacity pc \<rparr>) (\<lambda>q.
     and_then (build_queues zero pick backend rest) (\<lambda>qs. Inr ((p, q) # qs)))"

definition newPriorityQueueManager :: "mailbox_job \<Rightarrow> (nat list \<Rightarrow> nat option) \<Rightarrow> normalized_queue_spec
    \<Rightarrow> go_panic + priority_queue_manager" where
  "newPriorityQueueManager zero pick spec =
     (case qs_priority spec of
        None \<Rightarrow> Inl (Go_Panic ''invalid memory address or nil pointer dereference'')
      | Some p \<Rightarrow>
          if qs_backend spec = ''bounded''
             \<and> list_ex (\<lambda>k. gm_get (ps_priorities p) k = None) [PrioritySys, PriorityUrgent, PriorityHigh]
          then Inl (Go_Panic ''mailbox: bounded priority requires system queues'')
          else if qs_backend spec = ''bounded'' \<and> ps_fallbackPriority p < PriorityNormal
          then Inl (Go_Panic ''mailbox: bounded priority requires user fallback'')
          else and_then (build_queues zero pick (qs_backend spec) (ps_priorities p)) (\<lambda>qs.
            let sorted = sort (gm_keys (ps_priorities p));
                totalBatchSize = sum_list (map (pc_BatchSize \<circ> snd) (ps_priorities p))
            in if sorted = [] then Inl (Go_Panic ''index out of range [-1]'')
               else Inr \<lparr> pm_queues = qs,
                 pm_scheduler = newPrioritySchedulerFromNormalized (ps_strategy p) (ps_priorities p),
                 pm_batchSizes = map (\<lambda>(k, pc). (k, pc_BatchSize pc)) (ps_priorities p),
                 pm_sortedPriorities = sorted,
                 pm_totalBatchLimit =
                   (if ps_totalBatchLimit p > 0 then ps_totalBatchLimit p
                    else if totalBatchSize > 0 then (if totalBatchSize > 128 then 128 else totalBatchSize)
                    else 32),
                 pm_fallbackPriority = last sorted,
                 pm_fallbackWarned = False \<rparr>))"

definition Prio_Submit :: "mailbox_job \<Rightarrow> priority_queue_manager
    \<Rightarrow> mailbox_error option \<times> mailbox_job \<times> priority_queue_manager" where
  "Prio_Submit e m =
     (case gm_get (pm_queues m) (jb_Priority e) of
        Some que \<Rightarrow>
          (case MQueue_Push que e of
             (ok, que') \<Rightarrow>
               (if ok then None else Some ErrMailboxWorkerIsFull, e,
                m \<lparr> pm_queues := gm_set (pm_queues m) (jb_Priority e) que' \<rparr>))
      | None \<Rightarrow>
          (case gm_get (pm_queues m) (pm_fallbackPriority m) of
             None \<Rightarrow> (Some (ErrNoQueueForPriority (jb_Priority e)), e, m)
           | Some que \<Rightarrow>
               let e' = Job_SetPriority (pm_fallbackPriority m) e;
                   m' = m \<lparr> pm_fallbackWarned := True \<rparr>
               in (case MQueue_Push que e' of
                     (ok, que') \<Rightarrow>
                       (if ok then None else Some ErrMailboxWorkerIsFull,
                        if ok then e' else Job_SetPriority (jb_Priority e) e',
                        m' \<lparr> pm_queues := gm_set (pm_queues m) (pm_fallbackPriority m) que' \<rparr>))))"

definition nonempty_at :: "priority_queue_manager \<Rightarrow> priority \<Rightarrow> bool" where
  "nonempty_at m p = (case gm_get (pm_queues m) p of None \<Rightarrow> False | Some q \<Rightarrow> \<not> MQueue_Empty q)"

definition Prio_NextJob :: "priority_queue_manager \<Rightarrow> mailbox_job option \<times> priority_queue_manager" where
  "Prio_NextJob m =
     (let buf = filter (nonempty_at m) (pm_sortedPriorities m)
      in if buf = [] then (None, m)
         else (case NextPriorityWithOrdering buf (pm_scheduler m) of
                 (selectedPriority, sch) \<Rightarrow>
                   let m' = m \<lparr> pm_scheduler := sch \<rparr>
                   in if selectedPriority = - 1 then (None, m')
                      else (case gm_get (pm_queues m') selectedPriority of
                              None \<Rightarrow> (None, m')
                            | Some que \<Rightarrow>
                                (case MQueue_Pop que of
                                   (r, que') \<Rightarrow>
                                     (r, m' \<lparr> pm_queues := gm_set (pm_queues m') selectedPriority que' \<rparr>)))))"

definition Prio_GetJobLen :: "priority_queue_manager \<Rightarrow> int" where
  "Prio_GetJobLen m = sum_list (map (\<lambda>kv. MQueue_Len (snd kv)) (pm_queues m))"

fun prio_drain_loop :: "priority list \<Rightarrow> (priority, mailbox_job mqueue) gomap
    \<Rightarrow> (mailbox_job list \<times> (priority, mailbox_job mqueue) gomap) option" where
  "prio_drain_loop [] qs = Some ([], qs)"
| "prio_drain_loop (p # ps) qs =
     (case gm_get qs p of
        None \<Rightarrow> prio_drain_loop ps qs
      | Some que \<Rightarrow>
          Option.bind (drain_queue MQueue_Empty MQueue_Pop que) (\<lambda>(es, que').
          Option.bind (prio_drain_loop ps (gm_set qs p que')) (\<lambda>(es', qs').
            Some (es @ es', qs'))))"

definition Prio_DrainAll :: "priority_queue_manager \<Rightarrow> (mailbox_job list \<times> priority_queue_manager) option" where
  "Prio_DrainAll m =
     map_option (\<lambda>(es, qs). (es, m \<lparr> pm_queues := qs \<rparr>)) (prio_drain_loop (pm_sortedPriorities m) (pm_queues m))"

definition Prio_IsEmpty :: "priority_queue_manager \<Rightarrow> bool" where
  "Prio_IsEmpty m \<longleftrightarrow> list_all (\<lambda>kv. MQueue_Empty (snd kv)) (pm_queues m)"

definition Prio_GetPriorityQueueLen :: "priority_queue_manager \<Rightarrow> priority \<Rightarrow> int" where
  "Prio_GetPriorityQueueLen m p = (case gm_get (pm_queues m) p of None \<Rightarrow> 0 | Some q \<Rightarrow> MQueue_Len q)"

subsection \<open>The interface value\<close>

datatype queue_manager = QMDual dual_queue_manager | QMPriority priority_queue_manager

definition createQueueManager :: "int \<Rightarrow> mailbox_job \<Rightarrow> (nat list \<Rightarrow> nat option) \<Rightarrow> normalized_queue_spec
    \<Rightarrow> go_panic + queue_manager" where
  "createQueueManager ncpu zero pick spec =
     (if qs_mode spec = QueueModeDual
      then and_then (if qs_backend spec = ''unbounded'' then NewDualQueueManager ncpu zero pick
                     else newDualQueueManager zero pick spec) (\<lambda>m. Inr (QMDual m))
      else if qs_mode spec = QueueModePriority
      then and_then (newPriorityQueueManager zero pick spec) (\<lambda>m. Inr (QMPriority m))
      else Inl (Go_Panic ''mailbox: invalid normalized queue mode''))"

fun QM_Submit :: "mailbox_job \<Rightarrow> queue_manager \<Rightarrow> mailbox_error option \<times> mailbox_job \<times> queue_manager" where
  "QM_Submit e (QMDual m) = (case Dual_Submit e m of (r, e', m') \<Rightarrow> (r, e', QMDual m'))"
| "QM_Submit e (QMPriority m) = (case Prio_Submit e m of (r, e', m') \<Rightarrow> (r, e', QMPriority m'))"

fun QM_NextJob :: "queue_manager \<Rightarrow> mailbox_job option \<times> queue_manager" where
  "QM_NextJob (QMDual m) = map_prod id QMDual (Dual_NextJob m)"
| "QM_NextJob (QMPriority m) = map_prod id QMPriority (Prio_NextJob m)"

fun QM_GetJobLen :: "queue_manager \<Rightarrow> int" where
  "QM_GetJobLen (QMDual m) = Dual_GetJobLen m"
| "QM_GetJobLen (QMPriority m) = Prio_GetJobLen m"

fun QM_DrainAll :: "queue_manager \<Rightarrow> (mailbox_job list \<times> queue_manager) option" where
  "QM_DrainAll (QMDual m) = map_option (map_prod id QMDual) (Dual_DrainAll m)"
| "QM_DrainAll (QMPriority m) = map_option (map_prod id QMPriority) (Prio_DrainAll m)"

fun QM_IsEmpty :: "queue_manager \<Rightarrow> bool" where
  "QM_IsEmpty (QMDual m) = Dual_IsEmpty m"
| "QM_IsEmpty (QMPriority m) = Prio_IsEmpty m"

subsection \<open>Invariants and the jobs held\<close>

definition dm_inv :: "dual_queue_manager \<Rightarrow> bool" where
  "dm_inv m \<longleftrightarrow> mq_inv (dm_systemMailbox m) \<and> mq_inv (dm_userMailbox m)"

definition pm_inv :: "priority_queue_manager \<Rightarrow> bool" where
  "pm_inv m \<longleftrightarrow> gm_wf (pm_queues m) \<and> pm_sortedPriorities m = sort (gm_keys (pm_queues m))
     \<and> (\<forall>(p, q) \<in> set (pm_queues m). mq_inv q)
     \<and> pm_fallbackPriority m \<in> set (gm_keys (pm_queues m))"

fun qm_inv :: "queue_manager \<Rightarrow> bool" where
  "qm_inv (QMDual m) = dm_inv m"
| "qm_inv (QMPriority m) = pm_inv m"

definition dm_jobs :: "dual_queue_manager \<Rightarrow> mailbox_job multiset" where
  "dm_jobs m = mset (mq_elems (dm_systemMailbox m)) + mset (mq_elems (dm_userMailbox m))"

definition pm_jobs :: "priority_queue_manager \<Rightarrow> mailbox_job multiset" where
  "pm_jobs m = sum_list (map (\<lambda>kv. mset (mq_elems (snd kv))) (pm_queues m))"

fun qm_jobs :: "queue_manager \<Rightarrow> mailbox_job multiset" where
  "qm_jobs (QMDual m) = dm_jobs m"
| "qm_jobs (QMPriority m) = pm_jobs m"

text \<open>The queue a job goes to: that of its priority, or the fallback queue.\<close>

definition submit_target :: "mailbox_job \<Rightarrow> priority_queue_manager \<Rightarrow> priority" where
  "submit_target e m = (if jb_Priority e \<in> set (gm_keys (pm_queues m)) then jb_Priority e else pm_fallbackPriority m)"

text \<open>The priorities with a waiting job, highest first.\<close>

definition waiting :: "priority_queue_manager \<Rightarrow> priority list" where
  "waiting m = filter (nonempty_at m) (pm_sortedPriorities m)"

subsection \<open>Example managers\<close>

text \<open>Unbounded queues holding one job, used by the witnesses.\<close>

definition example_job :: "nat \<Rightarrow> priority \<Rightarrow> mailbox_job" where
  "example_job i p = \<lparr> jb_id = i, jb_Type = JobEvent, jb_Priority = p, jb_DispatcherKey = ''k'', jb_rwMode = RWModeWrite,
     jb_isReply = False, jb_cancelable = False, jb_ctxErr = None, jb_deadline = 0, jb_mctx = None \<rparr>"

definition example_queue :: "mailbox_job list \<Rightarrow> mailbox_job mqueue" where
  "example_queue js = QUnbounded (fold (\<lambda>j q. snd (MPSC_Push q j)) js (MPSC_New (example_job 0 0) (\<lambda>_. None)))"

definition example_prio :: "priority \<Rightarrow> mailbox_job list \<Rightarrow> priority_queue_manager" where
  "example_prio p js = \<lparr> pm_queues = [(p, example_queue js)],
     pm_scheduler = newPrioritySchedulerFromNormalized StrategyFairness [(p, zero_priority_config)],
     pm_batchSizes = [(p, 0)], pm_sortedPriorities = [p], pm_totalBatchLimit = 32,
     pm_fallbackPriority = p, pm_fallbackWarned = False \<rparr>"

definition example_dual :: "mailbox_job list \<Rightarrow> mailbox_job list \<Rightarrow> dual_queue_manager" where
  "example_dual ss us = \<lparr> dm_systemMailbox = example_queue ss, dm_userMailbox = example_queue us \<rparr>"

subsection \<open>Sequences of calls\<close>

datatype qm_call = CallSubmit mailbox_job | CallNext

text \<open>The jobs accepted and the jobs handed out by a sequence of calls, and the final manager.\<close>

fun qm_calls :: "(mailbox_job \<Rightarrow> 'm \<Rightarrow> mailbox_error option \<times> mailbox_job \<times> 'm) \<Rightarrow> ('m \<Rightarrow> mailbox_job option \<times> 'm)
    \<Rightarrow> 'm \<Rightarrow> qm_call list \<Rightarrow> mailbox_job multiset \<times> mailbox_job multiset \<times> 'm" where
  "qm_calls submit nextj m [] = ({#}, {#}, m)"
| "qm_calls submit nextj m (CallSubmit e # cs) =
     (case submit e m of
        (None, e', m') \<Rightarrow> (case qm_calls submit nextj m' cs of (a, d, r) \<Rightarrow> (add_mset e' a, d, r))
      | (Some _, e', m') \<Rightarrow> qm_calls submit nextj m' cs)"
| "qm_calls submit nextj m (CallNext # cs) =
     (case nextj m of
        (None, m') \<Rightarrow> qm_calls submit nextj m' cs
      | (Some e, m') \<Rightarrow> (case qm_calls submit nextj m' cs of (a, d, r) \<Rightarrow> (a, add_mset e d, r)))"

section \<open>The contract of a queue manager\<close>

text \<open>
  The interface \<open>IQueueManager\<close>: the jobs a manager holds form a multiset. A refused job leaves
  the manager's jobs and the job object unchanged; an accepted job may come back with another
  priority only. A worker built on the contract loses and duplicates nothing.
\<close>

locale job_queue_manager =
  fixes inv :: "'m \<Rightarrow> bool"
    and jobs :: "'m \<Rightarrow> mailbox_job multiset"
    and submit :: "mailbox_job \<Rightarrow> 'm \<Rightarrow> mailbox_error option \<times> mailbox_job \<times> 'm"
    and nextj :: "'m \<Rightarrow> mailbox_job option \<times> 'm"
    and len :: "'m \<Rightarrow> int"
    and drain :: "'m \<Rightarrow> (mailbox_job list \<times> 'm) option"
    and is_empty :: "'m \<Rightarrow> bool"
  assumes submit_accepted: "inv m \<Longrightarrow> submit e m = (None, e', m') \<Longrightarrow>
        inv m' \<and> jobs m' = add_mset e' (jobs m) \<and> e' = Job_SetPriority (jb_Priority e') e"
    and submit_refused: "inv m \<Longrightarrow> submit e m = (Some err, e', m') \<Longrightarrow> inv m' \<and> jobs m' = jobs m \<and> e' = e"
    and next_some: "inv m \<Longrightarrow> nextj m = (Some e, m') \<Longrightarrow> inv m' \<and> jobs m = add_mset e (jobs m')"
    and next_none: "inv m \<Longrightarrow> nextj m = (None, m') \<Longrightarrow> inv m' \<and> jobs m' = jobs m"
    and len_jobs: "inv m \<Longrightarrow> len m = int (size (jobs m))"
    and empty_jobs: "inv m \<Longrightarrow> is_empty m \<longleftrightarrow> jobs m = {#}"
    and drain_jobs: "inv m \<Longrightarrow> \<exists>es m'. drain m = Some (es, m') \<and> mset es = jobs m \<and> inv m' \<and> jobs m' = {#}"
begin

lemma calls_conserve:
  assumes "inv m" "qm_calls submit nextj m cs = (a, d, m')"
  shows "inv m' \<and> jobs m + a = d + jobs m'"
  using assms
proof (induction cs arbitrary: m a d m')
  case (Cons c cs)
  show ?case
  proof (cases c)
    case (CallSubmit e)
    obtain r e' m1 where s: "submit e m = (r, e', m1)" using prod_cases3 by blast
    obtain a1 d1 m2 where k: "qm_calls submit nextj m1 cs = (a1, d1, m2)" using prod_cases3 by blast
    show ?thesis
    proof (cases r)
      case None
      then show ?thesis
        using Cons.IH [OF _ k] submit_accepted [OF Cons(2), of e e' m1] s k Cons(3) CallSubmit by auto
    next
      case (Some err)
      then show ?thesis
        using Cons.IH [OF _ k] submit_refused [OF Cons(2), of e err e' m1] s k Cons(3) CallSubmit by auto
    qed
  next
    case CallNext
    obtain r m1 where s: "nextj m = (r, m1)" by fastforce
    obtain a1 d1 m2 where k: "qm_calls submit nextj m1 cs = (a1, d1, m2)" using prod_cases3 by blast
    show ?thesis
    proof (cases r)
      case None
      then show ?thesis using Cons.IH [OF _ k] next_none [OF Cons(2), of m1] s k Cons(3) CallNext by auto
    next
      case (Some e)
      then show ?thesis using Cons.IH [OF _ k] next_some [OF Cons(2), of e m1] s k Cons(3) CallNext by auto
    qed
  qed
qed simp

lemma calls_then_drain:
  assumes "inv m" "qm_calls submit nextj m cs = (a, d, m')"
  shows "\<exists>es m''. drain m' = Some (es, m'') \<and> jobs m + a = d + mset es \<and> is_empty m'' \<and> len m'' = 0"
proof -
  have c: "inv m'" "jobs m + a = d + jobs m'" using calls_conserve [OF assms] by auto
  obtain es m'' where "drain m' = Some (es, m'')" "mset es = jobs m'" "inv m''" "jobs m'' = {#}"
    using drain_jobs [OF c(1)] by blast
  then show ?thesis using c(2) empty_jobs len_jobs by auto
qed

end

section \<open>The dual manager\<close>

lemma dual_submit_accepted:
  assumes "dm_inv m" "Dual_Submit e m = (None, e', m')"
  shows "dm_inv m' \<and> dm_jobs m' = add_mset e' (dm_jobs m) \<and> e' = e"
proof (cases "jb_Priority e < PriorityNormal")
  case True
  let ?q = "dm_systemMailbox m"
  have ok: "fst (MQueue_Push ?q e)" "m' = m \<lparr> dm_systemMailbox := snd (MQueue_Push ?q e) \<rparr>" "e' = e"
    using assms(2) True by (auto simp: Dual_Submit_def split_beta split: if_splits)
  then show ?thesis
    using assms(1) mq.push_inv [of ?q e] mq.push_elems [of ?q e] by (simp add: dm_inv_def dm_jobs_def)
next
  case False
  let ?q = "dm_userMailbox m"
  have ok: "fst (MQueue_Push ?q e)" "m' = m \<lparr> dm_userMailbox := snd (MQueue_Push ?q e) \<rparr>" "e' = e"
    using assms(2) False by (auto simp: Dual_Submit_def split_beta split: if_splits)
  then show ?thesis
    using assms(1) mq.push_inv [of ?q e] mq.push_elems [of ?q e] by (simp add: dm_inv_def dm_jobs_def)
qed

lemma dual_submit_refused:
  assumes "dm_inv m" "Dual_Submit e m = (Some err, e', m')"
  shows "m' = m \<and> e' = e \<and> err = ErrMailboxWorkerIsFull"
  using assms mq.push_refused [of "dm_systemMailbox m" e] mq.push_refused [of "dm_userMailbox m" e]
  by (auto simp: Dual_Submit_def dm_inv_def split_beta split: if_splits)

lemma dual_next:
  assumes "dm_inv m"
  shows "Dual_NextJob m =
    (case mq_elems (dm_systemMailbox m) of
       x # _ \<Rightarrow> (Some x, m \<lparr> dm_systemMailbox := snd (MQueue_Pop (dm_systemMailbox m)) \<rparr>)
     | [] \<Rightarrow> (case mq_elems (dm_userMailbox m) of
               y # _ \<Rightarrow> (Some y, m \<lparr> dm_userMailbox := snd (MQueue_Pop (dm_userMailbox m)) \<rparr>)
             | [] \<Rightarrow> (None, m)))"
proof -
  have i: "mq_inv (dm_systemMailbox m)" "mq_inv (dm_userMailbox m)" using assms by (simp_all add: dm_inv_def)
  show ?thesis
  proof (cases "mq_elems (dm_systemMailbox m)")
    case (Cons x xs)
    then show ?thesis using mq.pop_Cons(1) [OF i(1) Cons] by (simp add: Dual_NextJob_def split_beta)
  next
    case Nil
    note p = mq.pop_Nil [OF i(1) Nil]
    show ?thesis
    proof (cases "mq_elems (dm_userMailbox m)")
      case (Cons y ys)
      then show ?thesis using mq.pop_Cons(1) [OF i(2) Cons] Nil p by (simp add: Dual_NextJob_def split_beta)
    next
      case Nil
      then show ?thesis
        using mq.pop_Nil [OF i(2) Nil] p \<open>mq_elems (dm_systemMailbox m) = []\<close> by (simp add: Dual_NextJob_def)
    qed
  qed
qed

lemma dual_next_some:
  assumes "dm_inv m" "Dual_NextJob m = (Some e, m')"
  shows "dm_inv m' \<and> dm_jobs m = add_mset e (dm_jobs m')"
proof -
  have i: "mq_inv (dm_systemMailbox m)" "mq_inv (dm_userMailbox m)" using assms by (simp_all add: dm_inv_def)
  note d = dual_next [OF assms(1)]
  show ?thesis
  proof (cases "mq_elems (dm_systemMailbox m)")
    case (Cons x xs)
    then show ?thesis
      using d assms(2) mq.pop_Cons(2) [OF i(1) Cons] mq.pop_inv [OF i(1)] i(2) by (auto simp: dm_inv_def dm_jobs_def)
  next
    case Nil
    then show ?thesis
    proof (cases "mq_elems (dm_userMailbox m)")
      case (Cons y ys)
      then show ?thesis
        using d Nil assms(2) mq.pop_Cons(2) [OF i(2) Cons] mq.pop_inv [OF i(2)] i(1)
        by (auto simp: dm_inv_def dm_jobs_def)
    qed (use d Nil assms(2) in auto)
  qed
qed

lemma dual_next_none: "dm_inv m \<Longrightarrow> Dual_NextJob m = (None, m') \<Longrightarrow> m' = m \<and> dm_jobs m = {#}"
  using dual_next [of m] by (auto simp: dm_jobs_def split: list.splits)

lemma dual_drain:
  assumes "dm_inv m"
  shows "\<exists>m'. Dual_DrainAll m = Some (mq_elems (dm_systemMailbox m) @ mq_elems (dm_userMailbox m), m')
      \<and> dm_inv m' \<and> dm_jobs m' = {#}"
proof -
  obtain q u where
    "drain_queue MQueue_Empty MQueue_Pop (dm_systemMailbox m) = Some (mq_elems (dm_systemMailbox m), q)"
    "mq_inv q" "mq_elems q = []"
    "drain_queue MQueue_Empty MQueue_Pop (dm_userMailbox m) = Some (mq_elems (dm_userMailbox m), u)"
    "mq_inv u" "mq_elems u = []"
    using assms mq.drain_total [of "dm_systemMailbox m"] mq.drain_total [of "dm_userMailbox m"]
    by (auto simp: dm_inv_def)
  then show ?thesis by (simp add: Dual_DrainAll_def dm_inv_def dm_jobs_def)
qed

interpretation dual: job_queue_manager dm_inv dm_jobs Dual_Submit Dual_NextJob Dual_GetJobLen Dual_DrainAll Dual_IsEmpty
proof unfold_locales
  fix m m' e e' err
  show "dm_inv m \<Longrightarrow> Dual_Submit e m = (None, e', m') \<Longrightarrow>
      dm_inv m' \<and> dm_jobs m' = add_mset e' (dm_jobs m) \<and> e' = Job_SetPriority (jb_Priority e') e"
    using dual_submit_accepted [of m e e' m'] by (simp add: Job_SetPriority_def)
  show "dm_inv m \<Longrightarrow> Dual_Submit e m = (Some err, e', m') \<Longrightarrow> dm_inv m' \<and> dm_jobs m' = dm_jobs m \<and> e' = e"
    using dual_submit_refused [of m e err e' m'] by auto
  show "dm_inv m \<Longrightarrow> Dual_NextJob m = (Some e, m') \<Longrightarrow> dm_inv m' \<and> dm_jobs m = add_mset e (dm_jobs m')"
    by (rule dual_next_some)
  show "dm_inv m \<Longrightarrow> Dual_NextJob m = (None, m') \<Longrightarrow> dm_inv m' \<and> dm_jobs m' = dm_jobs m"
    using dual_next_none [of m m'] by auto
  show "dm_inv m \<Longrightarrow> Dual_GetJobLen m = int (size (dm_jobs m))"
    by (simp add: Dual_GetJobLen_def dm_inv_def dm_jobs_def mq.len_spec)
  show "dm_inv m \<Longrightarrow> Dual_IsEmpty m \<longleftrightarrow> dm_jobs m = {#}"
    by (auto simp: Dual_IsEmpty_def dm_inv_def dm_jobs_def mq.empty_spec)
  show "dm_inv m \<Longrightarrow> \<exists>es m'. Dual_DrainAll m = Some (es, m') \<and> mset es = dm_jobs m \<and> dm_inv m' \<and> dm_jobs m' = {#}"
    using dual_drain [of m] by (auto simp: dm_jobs_def)
qed

section \<open>The priority manager\<close>

lemma pm_queue_inv: "pm_inv m \<Longrightarrow> gm_get (pm_queues m) p = Some q \<Longrightarrow> mq_inv q"
  by (auto simp: pm_inv_def dest!: gm_get_mem)

lemma pm_update:
  assumes "pm_inv m" "gm_get (pm_queues m) p = Some q" "mq_inv q'"
  shows "pm_inv (m \<lparr> pm_queues := gm_set (pm_queues m) p q' \<rparr>)"
    "pm_jobs (m \<lparr> pm_queues := gm_set (pm_queues m) p q' \<rparr>) + mset (mq_elems q) = pm_jobs m + mset (mq_elems q')"
proof -
  have "gm_keys (gm_set (pm_queues m) p q') = gm_keys (pm_queues m)" using assms(2) by (simp add: gm_keys_set)
  moreover have "\<forall>(k, v) \<in> set (gm_set (pm_queues m) p q'). mq_inv v"
    using assms(1,3) gm_set_mem [of _ _ p q' "pm_queues m"] by (fastforce simp: pm_inv_def)
  ultimately show "pm_inv (m \<lparr> pm_queues := gm_set (pm_queues m) p q' \<rparr>)"
    using assms(1) by (simp add: pm_inv_def)
  show "pm_jobs (m \<lparr> pm_queues := gm_set (pm_queues m) p q' \<rparr>) + mset (mq_elems q) = pm_jobs m + mset (mq_elems q')"
    using gm_sum_set [OF assms(2), of "\<lambda>q. mset (mq_elems q)" q'] by (simp add: pm_jobs_def)
qed

lemma pm_ignore [simp]:
  "pm_inv (m \<lparr> pm_fallbackWarned := w \<rparr>) = pm_inv m" "pm_jobs (m \<lparr> pm_fallbackWarned := w \<rparr>) = pm_jobs m"
  "pm_inv (m \<lparr> pm_scheduler := s \<rparr>) = pm_inv m" "pm_jobs (m \<lparr> pm_scheduler := s \<rparr>) = pm_jobs m"
  by (simp_all add: pm_inv_def pm_jobs_def)

lemma pm_target_queue:
  assumes "pm_inv m"
  obtains q where "gm_get (pm_queues m) (submit_target e m) = Some q" "mq_inv q"
proof -
  have "submit_target e m \<in> set (gm_keys (pm_queues m))"
    using assms by (simp add: submit_target_def pm_inv_def)
  then obtain q where "gm_get (pm_queues m) (submit_target e m) = Some q" by (auto simp only: gm_get_keys)
  then show ?thesis using that pm_queue_inv [OF assms] by blast
qed

lemma prio_submit:
  assumes "pm_inv m" "gm_get (pm_queues m) (submit_target e m) = Some q"
  shows "\<exists>w. Prio_Submit e m =
    (if fst (MQueue_Push q (Job_SetPriority (submit_target e m) e))
     then (None, Job_SetPriority (submit_target e m) e,
           m \<lparr> pm_fallbackWarned := w,
               pm_queues := gm_set (pm_queues m) (submit_target e m) (snd (MQueue_Push q (Job_SetPriority (submit_target e m) e))) \<rparr>)
     else (Some ErrMailboxWorkerIsFull, e,
           m \<lparr> pm_fallbackWarned := w, pm_queues := gm_set (pm_queues m) (submit_target e m) q \<rparr>))"
proof -
  have i: "mq_inv q" using pm_queue_inv [OF assms] .
  have undo: "Job_SetPriority (jb_Priority e) (Job_SetPriority p e) = e" "Job_SetPriority (jb_Priority e) e = e" for p
    by (simp_all add: Job_SetPriority_def)
  show ?thesis
  proof (cases "jb_Priority e \<in> set (gm_keys (pm_queues m))")
    case True
    then have g: "submit_target e m = jb_Priority e" "gm_get (pm_queues m) (jb_Priority e) = Some q"
      using assms(2) by (simp_all add: submit_target_def)
    show ?thesis
      using g mq.push_refused [OF i, of e] undo
      by (intro exI [of _ "pm_fallbackWarned m"]) (simp add: Prio_Submit_def split_beta)
  next
    case False
    then have g: "submit_target e m = pm_fallbackPriority m" "gm_get (pm_queues m) (jb_Priority e) = None"
      using gm_get_keys [of "jb_Priority e" "pm_queues m"] by (auto simp: submit_target_def)
    have f: "gm_get (pm_queues m) (pm_fallbackPriority m) = Some q" using assms(2) g(1) by simp
    show ?thesis
      using g f mq.push_refused [OF i, of "Job_SetPriority (pm_fallbackPriority m) e"] undo
      by (intro exI [of _ True]) (simp add: Prio_Submit_def split_beta Let_def)
  qed
qed

lemma prio_submit_accepted:
  assumes "pm_inv m" "Prio_Submit e m = (None, e', m')"
  shows "pm_inv m' \<and> pm_jobs m' = add_mset e' (pm_jobs m) \<and> e' = Job_SetPriority (submit_target e m) e"
proof -
  obtain q where q: "gm_get (pm_queues m) (submit_target e m) = Some q" "mq_inv q" using pm_target_queue [OF assms(1)] .
  let ?e = "Job_SetPriority (submit_target e m) e" and ?q = "snd (MQueue_Push q (Job_SetPriority (submit_target e m) e))"
  obtain w where r: "fst (MQueue_Push q ?e)" "e' = ?e"
    "m' = m \<lparr> pm_fallbackWarned := w, pm_queues := gm_set (pm_queues m) (submit_target e m) ?q \<rparr>"
    using prio_submit [OF assms(1) q(1)] assms(2) by (auto split: if_splits)
  let ?m = "m \<lparr> pm_fallbackWarned := w \<rparr>"
  have u: "pm_inv (?m \<lparr> pm_queues := gm_set (pm_queues m) (submit_target e m) ?q \<rparr>)"
    "pm_jobs (?m \<lparr> pm_queues := gm_set (pm_queues m) (submit_target e m) ?q \<rparr>) + mset (mq_elems q)
       = pm_jobs m + mset (mq_elems ?q)"
    using pm_update [of ?m "submit_target e m" q ?q] assms(1) q mq.push_inv [OF q(2)] by simp_all
  moreover have "mq_elems ?q = mq_elems q @ [?e]" using mq.push_elems [OF q(2), of ?e] r(1) by simp
  ultimately show ?thesis using r(2,3) by simp
qed

lemma prio_submit_refused:
  assumes "pm_inv m" "Prio_Submit e m = (Some err, e', m')"
  shows "pm_inv m' \<and> pm_jobs m' = pm_jobs m \<and> e' = e \<and> err = ErrMailboxWorkerIsFull"
proof -
  obtain q where q: "gm_get (pm_queues m) (submit_target e m) = Some q" "mq_inv q" using pm_target_queue [OF assms(1)] .
  obtain w where r: "e' = e" "err = ErrMailboxWorkerIsFull"
    "m' = m \<lparr> pm_fallbackWarned := w, pm_queues := gm_set (pm_queues m) (submit_target e m) q \<rparr>"
    using prio_submit [OF assms(1) q(1)] assms(2) by (auto split: if_splits)
  let ?m = "m \<lparr> pm_fallbackWarned := w \<rparr>"
  show ?thesis using pm_update [of ?m "submit_target e m" q q] assms(1) q r by simp
qed

lemma nonempty_at_iff:
  "pm_inv m \<Longrightarrow> nonempty_at m p \<longleftrightarrow> (\<exists>q. gm_get (pm_queues m) p = Some q \<and> mq_elems q \<noteq> [])"
  using pm_queue_inv [of m p] by (auto simp: nonempty_at_def mq.empty_spec split: option.splits)

lemma waiting_scheduler: "waiting (m \<lparr> pm_scheduler := s \<rparr>) = waiting m"
  by (simp add: waiting_def nonempty_at_def [abs_def])

lemma waiting_props:
  assumes "pm_inv m"
  shows "distinct (waiting m)" "sorted (waiting m)" "set (waiting m) = {p. nonempty_at m p}"
proof -
  have s: "pm_sortedPriorities m = sort (gm_keys (pm_queues m))" "distinct (gm_keys (pm_queues m))"
    using assms by (auto simp: pm_inv_def gm_wf_def)
  then show "distinct (waiting m)" "sorted (waiting m)" by (simp_all add: waiting_def sorted_filter [where f = "\<lambda>x. x", simplified])
  have "p \<in> set (gm_keys (pm_queues m))" if "nonempty_at m p" for p
    using that gm_get_keys [of p "pm_queues m"] by (auto simp: nonempty_at_def split: option.splits)
  then show "set (waiting m) = {p. nonempty_at m p}" using s by (auto simp: waiting_def)
qed

lemma prio_next:
  assumes "pm_inv m"
  shows "\<exists>sch. Prio_NextJob m =
    (if waiting m = [] then (None, m)
     else if hd (waiting m) = - 1 then (None, m \<lparr> pm_scheduler := sch \<rparr>)
     else let q = the (gm_get (pm_queues m) (hd (waiting m)))
          in (Some (hd (mq_elems q)),
              m \<lparr> pm_scheduler := sch, pm_queues := gm_set (pm_queues m) (hd (waiting m)) (snd (MQueue_Pop q)) \<rparr>))"
proof (cases "waiting m = []")
  case True
  then show ?thesis by (simp add: Prio_NextJob_def waiting_def [symmetric])
next
  case False
  note w = waiting_props [OF assms]
  obtain sel sch where n: "NextPriorityWithOrdering (waiting m) (pm_scheduler m) = (sel, sch)" by fastforce
  have sel: "sel = hd (waiting m)"
    using n takeWhile_hd_distinct [OF w(1) False] False
    by (auto simp: NextPriorityWithOrdering_def weightedPriorityWithOrdering_def
        fairnessPriorityWithOrdering_def Let_def split: if_splits)
  have "nonempty_at m (hd (waiting m))" using w(3) hd_in_set [OF False] by blast
  then obtain q where q: "gm_get (pm_queues m) (hd (waiting m)) = Some q" "mq_elems q \<noteq> []"
    using nonempty_at_iff [OF assms] by blast
  then have "fst (MQueue_Pop q) = Some (hd (mq_elems q))"
    using mq.pop_Cons(1) [OF pm_queue_inv [OF assms q(1)]] by (metis list.collapse)
  then show ?thesis
    using False n sel q
    by (intro exI [of _ sch]) (simp add: Prio_NextJob_def waiting_def [symmetric] split_beta Let_def)
qed

lemma prio_next_some:
  assumes "pm_inv m" "Prio_NextJob m = (Some e, m')"
  shows "pm_inv m' \<and> pm_jobs m = add_mset e (pm_jobs m')"
proof -
  let ?p = "hd (waiting m)"
  let ?q = "the (gm_get (pm_queues m) ?p)"
  obtain sch where r: "waiting m \<noteq> []" "e = hd (mq_elems ?q)"
    "m' = m \<lparr> pm_scheduler := sch, pm_queues := gm_set (pm_queues m) ?p (snd (MQueue_Pop ?q)) \<rparr>"
    using prio_next [OF assms(1)] assms(2) by (auto simp: Let_def split: if_splits)
  have "nonempty_at m ?p" using waiting_props(3) [OF assms(1)] hd_in_set [OF r(1)] by blast
  then have q: "gm_get (pm_queues m) ?p = Some ?q" "mq_elems ?q \<noteq> []" using nonempty_at_iff [OF assms(1)] by auto
  have i: "mq_inv ?q" using pm_queue_inv [OF assms(1) q(1)] .
  let ?m = "m \<lparr> pm_scheduler := sch \<rparr>"
  have u: "pm_inv m'" "pm_jobs m' + mset (mq_elems ?q) = pm_jobs m + mset (mq_elems (snd (MQueue_Pop ?q)))"
    using pm_update [of ?m ?p ?q "snd (MQueue_Pop ?q)"] assms(1) q(1) mq.pop_inv [OF i] r(3) by simp_all
  have "mq_elems ?q = e # mq_elems (snd (MQueue_Pop ?q))"
    using mq.pop_Cons(2) [OF i, of "hd (mq_elems ?q)" "tl (mq_elems ?q)"] q(2) r(2) by simp
  then have "mset (mq_elems ?q) = add_mset e (mset (mq_elems (snd (MQueue_Pop ?q))))" by (metis mset.simps(2))
  with u show ?thesis by simp
qed

lemma prio_next_none: "pm_inv m \<Longrightarrow> Prio_NextJob m = (None, m') \<Longrightarrow> pm_inv m' \<and> pm_jobs m' = pm_jobs m"
  using prio_next [of m] by (auto simp: Let_def split: if_splits)

lemma prio_drain_loop:
  assumes "distinct ps" "set ps \<subseteq> set (gm_keys qs)" "\<forall>(p, q) \<in> set qs. mq_inv q" "gm_wf qs"
  shows "\<exists>qs'. prio_drain_loop ps qs = Some (concat (map (\<lambda>p. mq_elems (the (gm_get qs p))) ps), qs')
      \<and> gm_keys qs' = gm_keys qs \<and> gm_wf qs' \<and> (\<forall>(p, q) \<in> set qs'. mq_inv q)
      \<and> (\<forall>p q. gm_get qs' p = Some q \<longrightarrow> (if p \<in> set ps then mq_elems q = [] else gm_get qs p = Some q))"
  using assms
proof (induction ps arbitrary: qs)
  case (Cons p ps)
  obtain q where q: "gm_get qs p = Some q" using Cons(3) gm_get_keys [of p qs] by auto
  then have i: "mq_inv q" using Cons(4) gm_get_mem by fastforce
  obtain q' where d: "drain_queue MQueue_Empty MQueue_Pop q = Some (mq_elems q, q')" "mq_inv q'" "mq_elems q' = []"
    using mq.drain_total [OF i] by blast
  let ?qs = "gm_set qs p q'"
  have keys: "gm_keys ?qs = gm_keys qs" using q by (simp add: gm_keys_set)
  have inv: "\<forall>(p, q) \<in> set ?qs. mq_inv q" using Cons(4) d(2) gm_set_mem [of _ _ p q' qs] by fastforce
  have get: "gm_get ?qs k = (if k = p then Some q' else gm_get qs k)" for k by (rule gm_get_set)
  have "set ps \<subseteq> set (gm_keys ?qs)" using Cons(3) keys by simp
  with Cons.IH [of ?qs] Cons(2,5) inv obtain qs' where r:
    "prio_drain_loop ps ?qs = Some (concat (map (\<lambda>p. mq_elems (the (gm_get ?qs p))) ps), qs')"
    "gm_keys qs' = gm_keys ?qs" "gm_wf qs'" "\<forall>(p, q) \<in> set qs'. mq_inv q"
    "\<forall>k v. gm_get qs' k = Some v \<longrightarrow> (if k \<in> set ps then mq_elems v = [] else gm_get ?qs k = Some v)"
    by auto
  have "map (\<lambda>k. mq_elems (the (gm_get ?qs k))) ps = map (\<lambda>k. mq_elems (the (gm_get qs k))) ps"
    using Cons(2) get by auto
  then have "prio_drain_loop ps ?qs = Some (concat (map (\<lambda>p. mq_elems (the (gm_get qs p))) ps), qs')"
    using r(1) by (simp only:)
  then have "prio_drain_loop (p # ps) qs = Some (concat (map (\<lambda>p. mq_elems (the (gm_get qs p))) (p # ps)), qs')"
    using q d(1) by simp
  moreover have "\<forall>k v. gm_get qs' k = Some v \<longrightarrow> (if k \<in> set (p # ps) then mq_elems v = [] else gm_get qs k = Some v)"
    using r(5) get d(3) by (auto split: if_splits)
  ultimately show ?case using r keys by auto
qed auto

lemma sum_list_mset_empty_iff: "sum_list (map f xs) = {#} \<longleftrightarrow> (\<forall>x \<in> set xs. f x = {#})"
  by (induction xs) auto

lemma mset_concat_keys:
  fixes f :: "'v \<Rightarrow> 'x list"
  assumes "gm_wf m"
  shows "mset (concat (map (\<lambda>p. f (the (gm_get m p))) (gm_keys m))) = sum_list (map (\<lambda>kv. mset (f (snd kv))) m)"
proof -
  have "map (\<lambda>p. f (the (gm_get m p))) (gm_keys m) = map (\<lambda>kv. f (snd kv)) m"
    using assms by (auto simp: gm_wf_def)
  then have "concat (map (\<lambda>p. f (the (gm_get m p))) (gm_keys m)) = concat (map (\<lambda>kv. f (snd kv)) m)" by (rule arg_cong)
  then show ?thesis by (simp add: mset_concat comp_def)
qed

lemma prio_drain:
  assumes "pm_inv m"
  shows "\<exists>m'. Prio_DrainAll m =
      Some (concat (map (\<lambda>p. mq_elems (the (gm_get (pm_queues m) p))) (pm_sortedPriorities m)), m')
    \<and> pm_inv m' \<and> pm_jobs m' = {#}"
proof -
  have s: "pm_sortedPriorities m = sort (gm_keys (pm_queues m))" and wf: "gm_wf (pm_queues m)"
    and i: "\<forall>(p, q) \<in> set (pm_queues m). mq_inv q"
    using assms by (auto simp: pm_inv_def)
  have "distinct (pm_sortedPriorities m)" "set (pm_sortedPriorities m) \<subseteq> set (gm_keys (pm_queues m))"
    using wf by (auto simp: s gm_wf_def)
  from prio_drain_loop [OF this i wf] obtain qs' where r:
    "prio_drain_loop (pm_sortedPriorities m) (pm_queues m)
       = Some (concat (map (\<lambda>p. mq_elems (the (gm_get (pm_queues m) p))) (pm_sortedPriorities m)), qs')"
    "gm_keys qs' = gm_keys (pm_queues m)" "gm_wf qs'" "\<forall>(p, q) \<in> set qs'. mq_inv q"
    "\<forall>p q. gm_get qs' p = Some q \<longrightarrow>
       (if p \<in> set (pm_sortedPriorities m) then mq_elems q = [] else gm_get (pm_queues m) p = Some q)"
    by blast
  have "mq_elems (snd kv) = []" if "kv \<in> set qs'" for kv
  proof -
    have "gm_get qs' (fst kv) = Some (snd kv)" using that r(3) gm_get_in [of qs' "fst kv" "snd kv"] by simp
    moreover have "fst kv \<in> set (pm_sortedPriorities m)"
    proof -
      have "fst kv \<in> set (gm_keys qs')" using that by auto
      then show ?thesis by (simp only: r(2) s set_sort)
    qed
    ultimately show ?thesis using r(5) by auto
  qed
  then have "pm_jobs (m \<lparr> pm_queues := qs' \<rparr>) = {#}" by (simp add: pm_jobs_def sum_list_mset_empty_iff)
  moreover have "pm_inv (m \<lparr> pm_queues := qs' \<rparr>)"
    using assms r(2-4) unfolding pm_inv_def by (simp add: s del: set_map)
  ultimately show ?thesis using r(1) by (simp add: Prio_DrainAll_def)
qed

lemma pm_jobs_sorted:
  assumes "pm_inv m"
  shows "mset (concat (map (\<lambda>p. mq_elems (the (gm_get (pm_queues m) p))) (pm_sortedPriorities m))) = pm_jobs m"
proof -
  let ?f = "\<lambda>p. mq_elems (the (gm_get (pm_queues m) p))"
  have "mset (concat (map ?f xs)) = (\<Sum>x \<in># mset xs. mset (?f x))" for xs by (induction xs) auto
  then have "mset (concat (map ?f (sort (gm_keys (pm_queues m))))) = mset (concat (map ?f (gm_keys (pm_queues m))))"
    by (simp only: mset_sort)
  then show ?thesis using mset_concat_keys [of "pm_queues m" mq_elems] assms by (simp add: pm_inv_def pm_jobs_def)
qed

lemma size_sum_list_mset:
  "int (size (sum_list (map f xs) :: 'a multiset)) = sum_list (map (\<lambda>x. int (size (f x))) xs)"
  by (induction xs) auto

interpretation prio: job_queue_manager pm_inv pm_jobs Prio_Submit Prio_NextJob Prio_GetJobLen Prio_DrainAll Prio_IsEmpty
proof unfold_locales
  fix m m' e e' err
  show "pm_inv m \<Longrightarrow> Prio_Submit e m = (None, e', m') \<Longrightarrow>
      pm_inv m' \<and> pm_jobs m' = add_mset e' (pm_jobs m) \<and> e' = Job_SetPriority (jb_Priority e') e"
    using prio_submit_accepted [of m e e' m'] by (auto simp: Job_SetPriority_def)
  show "pm_inv m \<Longrightarrow> Prio_Submit e m = (Some err, e', m') \<Longrightarrow> pm_inv m' \<and> pm_jobs m' = pm_jobs m \<and> e' = e"
    using prio_submit_refused [of m e err e' m'] by blast
  show "pm_inv m \<Longrightarrow> Prio_NextJob m = (Some e, m') \<Longrightarrow> pm_inv m' \<and> pm_jobs m = add_mset e (pm_jobs m')"
    by (rule prio_next_some)
  show "pm_inv m \<Longrightarrow> Prio_NextJob m = (None, m') \<Longrightarrow> pm_inv m' \<and> pm_jobs m' = pm_jobs m"
    by (rule prio_next_none)
  show "pm_inv m \<Longrightarrow> Prio_GetJobLen m = int (size (pm_jobs m))"
  proof -
    assume "pm_inv m"
    then have "map (\<lambda>kv. MQueue_Len (snd kv)) (pm_queues m) = map (\<lambda>kv. int (length (mq_elems (snd kv)))) (pm_queues m)"
      by (auto simp: pm_inv_def mq.len_spec)
    then show "Prio_GetJobLen m = int (size (pm_jobs m))"
      by (simp only: Prio_GetJobLen_def pm_jobs_def size_sum_list_mset size_mset)
  qed
  show "pm_inv m \<Longrightarrow> Prio_IsEmpty m \<longleftrightarrow> pm_jobs m = {#}"
  proof -
    assume "pm_inv m"
    then have "MQueue_Empty (snd kv) \<longleftrightarrow> mq_elems (snd kv) = []" if "kv \<in> set (pm_queues m)" for kv
      using that by (auto simp: pm_inv_def mq.empty_spec)
    then show "Prio_IsEmpty m \<longleftrightarrow> pm_jobs m = {#}"
      by (simp add: Prio_IsEmpty_def pm_jobs_def list_all_iff sum_list_mset_empty_iff)
  qed
  show "pm_inv m \<Longrightarrow> \<exists>es m'. Prio_DrainAll m = Some (es, m') \<and> mset es = pm_jobs m \<and> pm_inv m' \<and> pm_jobs m' = {#}"
    using prio_drain [of m] pm_jobs_sorted [of m] by metis
qed

section \<open>Either manager\<close>

interpretation qm: job_queue_manager qm_inv qm_jobs QM_Submit QM_NextJob QM_GetJobLen QM_DrainAll QM_IsEmpty
proof unfold_locales
  fix m m' e e' err
  assume i: "qm_inv m"
  show "QM_Submit e m = (None, e', m') \<Longrightarrow>
      qm_inv m' \<and> qm_jobs m' = add_mset e' (qm_jobs m) \<and> e' = Job_SetPriority (jb_Priority e') e"
    using i by (cases m) (auto split: prod.splits dest: dual.submit_accepted prio.submit_accepted)
  show "QM_Submit e m = (Some err, e', m') \<Longrightarrow> qm_inv m' \<and> qm_jobs m' = qm_jobs m \<and> e' = e"
    using i by (cases m) (auto split: prod.splits dest: dual.submit_refused prio.submit_refused)
  show "QM_NextJob m = (Some e, m') \<Longrightarrow> qm_inv m' \<and> qm_jobs m = add_mset e (qm_jobs m')"
    using i by (cases m) (auto simp: map_prod_def split: prod.splits dest: dual.next_some prio.next_some)
  show "QM_NextJob m = (None, m') \<Longrightarrow> qm_inv m' \<and> qm_jobs m' = qm_jobs m"
    using i by (cases m) (auto simp: map_prod_def split: prod.splits dest: dual.next_none prio.next_none)
  show "QM_GetJobLen m = int (size (qm_jobs m))" using i dual.len_jobs prio.len_jobs by (cases m) auto
  show "QM_IsEmpty m \<longleftrightarrow> qm_jobs m = {#}" using i dual.empty_jobs prio.empty_jobs by (cases m) auto
  show "\<exists>es m'. QM_DrainAll m = Some (es, m') \<and> mset es = qm_jobs m \<and> qm_inv m' \<and> qm_jobs m' = {#}"
  proof (cases m)
    case (QMDual d)
    then obtain es d' where "Dual_DrainAll d = Some (es, d')" "mset es = dm_jobs d" "dm_inv d'" "dm_jobs d' = {#}"
      using i dual.drain_jobs [of d] by auto
    then show ?thesis using QMDual by simp
  next
    case (QMPriority d)
    then obtain es d' where "Prio_DrainAll d = Some (es, d')" "mset es = pm_jobs d" "pm_inv d'" "pm_jobs d' = {#}"
      using i prio.drain_jobs [of d] by auto
    then show ?thesis using QMPriority by simp
  qed
qed

section \<open>Construction\<close>

lemma fallback_loop_max: "ps \<noteq> [] \<Longrightarrow> fallback_loop True fb ps = Max (set ps)"
proof -
  have "fallback_loop False a xs = fold max xs a" for a xs
    by (induction xs arbitrary: a) (auto simp: max_def)
  then show "ps \<noteq> [] \<Longrightarrow> fallback_loop True fb ps = Max (set ps)"
    by (cases ps) (simp_all only: fallback_loop.simps Max.set_eq_fold, simp_all)
qed

lemma build_queues_ok:
  assumes "build_queues z pick backend ps = Inr qs" "\<forall>(p, pc) \<in> set ps. pc_Capacity pc < 2 ^ 63"
  shows "gm_keys qs = gm_keys ps \<and> (\<forall>(p, q) \<in> set qs. mq_inv q \<and> mq_elems q = [])"
  using assms
proof (induction ps arbitrary: qs)
  case (Cons kp ps)
  then show ?case using newQueue_ok(1,2) by (cases kp) fastforce
qed auto

lemma build_queues_no_panic:
  assumes "backend = ''unbounded'' \<or> backend = ''bounded'' \<and> (\<forall>(p, pc) \<in> set ps. 2 \<le> pc_Capacity pc \<and> is_pow2 (pc_Capacity pc))"
  shows "\<exists>qs. build_queues z pick backend ps = Inr qs"
  using assms
proof (induction ps)
  case (Cons kp ps)
  obtain p pc where kp: "kp = (p, pc)" by fastforce
  obtain q where "newQueue z pick \<lparr> ph_backend = backend, ph_capacity = pc_Capacity pc \<rparr> = Inr q"
    using newQueue_no_panic [of "\<lparr> ph_backend = backend, ph_capacity = pc_Capacity pc \<rparr>" z pick] Cons(2) kp by auto
  moreover obtain qs where "build_queues z pick backend ps = Inr qs" using Cons by auto
  ultimately show ?case using kp by simp
qed simp

lemma newDualQueueManager_ok:
  assumes "newDualQueueManager z pick spec = Inr m" "\<forall>c \<in> set (spec_capacities spec). c < 2 ^ 63"
  shows "dm_inv m \<and> dm_jobs m = {#}"
proof -
  obtain d where "qs_dual spec = Some d" using assms(1) by (auto simp: newDualQueueManager_def split: option.splits)
  then show ?thesis
    using assms newQueue_ok(1,2) by (fastforce simp: newDualQueueManager_def spec_capacities_def dm_inv_def dm_jobs_def)
qed

lemma spec_capacity_mem:
  "qs_priority spec = Some p \<Longrightarrow> (k, pc) \<in> set (ps_priorities p) \<Longrightarrow> pc_Capacity pc \<in> set (spec_capacities spec)"
  by (force simp: spec_capacities_def)

lemma sorted_le_last: "sorted xs \<Longrightarrow> x \<in> set xs \<Longrightarrow> x \<le> last xs"
  by (induction xs) auto

lemma newPriorityQueueManager_ok:
  assumes "newPriorityQueueManager z pick spec = Inr m" "\<forall>c \<in> set (spec_capacities spec). c < 2 ^ 63"
    and "qs_priority spec = Some p" "gm_wf (ps_priorities p)"
  shows "pm_inv m \<and> pm_jobs m = {#} \<and> gm_keys (pm_queues m) = gm_keys (ps_priorities p)
     \<and> pm_fallbackPriority m = Max (set (gm_keys (ps_priorities p)))"
proof -
  obtain qs where qs: "build_queues z pick (qs_backend spec) (ps_priorities p) = Inr qs"
    using assms(1,3) by (auto simp: newPriorityQueueManager_def split: if_splits)
  have m: "pm_queues m = qs" "pm_sortedPriorities m = sort (gm_keys (ps_priorities p))"
    "pm_fallbackPriority m = last (sort (gm_keys (ps_priorities p)))" "ps_priorities p \<noteq> []"
    using assms(1,3) qs by (auto simp: newPriorityQueueManager_def Let_def split: if_splits)
  have "\<forall>(k, pc) \<in> set (ps_priorities p). pc_Capacity pc < 2 ^ 63"
    using assms(2) spec_capacity_mem [OF assms(3)] by auto
  note b = build_queues_ok [OF qs this]
  let ?k = "gm_keys (ps_priorities p)"
  have k: "sort ?k \<noteq> []" using m(4) by (metis length_map length_sort length_0_conv)
  have "last (sort ?k) = Max (set (sort ?k))"
    by (rule Max_eqI [symmetric, OF finite_set sorted_le_last [OF sorted_sort] last_in_set [OF k]])
  moreover have "last (sort ?k) \<in> set ?k" using last_in_set [OF k] by simp
  ultimately show ?thesis
    using b m assms(4) by (auto simp: pm_inv_def pm_jobs_def gm_wf_def sum_list_mset_empty_iff)
qed

section \<open>Properties\<close>

text \<open>
  C21. Whatever sequence of submissions and \<open>NextJob\<close> calls a worker makes on its queue manager, the
  jobs it took out plus the jobs that a final \<open>DrainAll\<close> hands over are exactly the jobs that were
  accepted (as a multiset): none is lost or duplicated. The drain ends, and leaves the manager empty.
\<close>

theorem QM_conserves_jobs:
  assumes "qm_inv m" "qm_calls QM_Submit QM_NextJob m cs = (accepted_jobs, taken, m')"
  shows "\<exists>es m''. QM_DrainAll m' = Some (es, m'')
     \<and> qm_jobs m + accepted_jobs = taken + mset es \<and> QM_IsEmpty m'' \<and> QM_GetJobLen m'' = 0"
  using qm.calls_then_drain [OF assms] .

lemma example_queue_ok: "mq_inv (example_queue js)" "mq_elems (example_queue js) = js"
proof -
  have "ms_inv (fold (\<lambda>j q. snd (MPSC_Push q j)) js q)
      \<and> ms_elems (fold (\<lambda>j q. snd (MPSC_Push q j)) js q) = ms_elems q @ js" if "ms_inv q" for q :: "mailbox_job mpsc"
    using that by (induction js arbitrary: q) (auto simp: MPSC_Push_spec)
  then show "mq_inv (example_queue js)" "mq_elems (example_queue js) = js"
    by (simp_all add: example_queue_def MPSC_New_inv)
qed

lemma example_prio_ok:
  "pm_inv (example_prio p js)" "js \<noteq> [] \<Longrightarrow> waiting (example_prio p js) = [p]"
  "gm_get (pm_queues (example_prio p js)) p = Some (example_queue js)"
proof -
  show i: "pm_inv (example_prio p js)" by (simp add: pm_inv_def example_prio_def gm_wf_def example_queue_ok)
  show "gm_get (pm_queues (example_prio p js)) p = Some (example_queue js)" by (simp add: example_prio_def)
  then show "js \<noteq> [] \<Longrightarrow> waiting (example_prio p js) = [p]"
    using nonempty_at_iff [OF i, of p] by (simp add: waiting_def example_queue_ok) (simp add: example_prio_def)
qed

lemma example_dual_ok: "dm_inv (example_dual ss us)"
  by (simp add: dm_inv_def example_dual_def example_queue_ok)

theorem QM_conserves_jobs_witness:
  "\<exists>es m''. QM_DrainAll (QMDual (example_dual [example_job 1 (- 3)] [example_job 2 0])) = Some (es, m'')
     \<and> mset es = {#example_job 1 (- 3), example_job 2 0#}"
proof -
  let ?m = "QMDual (example_dual [example_job 1 (- 3)] [example_job 2 0])"
  have "qm_inv ?m" by (simp add: example_dual_ok)
  moreover have "qm_calls QM_Submit QM_NextJob ?m [] = ({#}, {#}, ?m)" by simp
  moreover have "qm_jobs ?m = {#example_job 1 (- 3), example_job 2 0#}"
    by (simp add: dm_jobs_def example_dual_def example_queue_ok)
  ultimately show ?thesis using QM_conserves_jobs [of ?m "[]" "{#}" "{#}" ?m] by auto
qed

text \<open>
  The dual manager serves the oldest system job (priority below normal) if there is one,
  otherwise the oldest user job, and reports nothing only when both queues are empty.
\<close>

theorem Dual_NextJob_system_first:
  assumes "dm_inv m"
  shows "fst (Dual_NextJob m) =
     (case mq_elems (dm_systemMailbox m) @ mq_elems (dm_userMailbox m) of [] \<Rightarrow> None | x # _ \<Rightarrow> Some x)
   \<and> (fst (Dual_NextJob m) = None \<longleftrightarrow> Dual_IsEmpty m)"
  using dual_next [OF assms] assms
  by (auto simp: Dual_IsEmpty_def dm_inv_def mq.empty_spec split: list.splits)

theorem Dual_NextJob_system_first_witness:
  "fst (Dual_NextJob (example_dual [example_job 1 (- 3)] [example_job 2 0])) = Some (example_job 1 (- 3))"
  using Dual_NextJob_system_first [OF example_dual_ok, of "[example_job 1 (- 3)]" "[example_job 2 0]"]
  by (simp add: example_dual_def example_queue_ok)

text \<open>
  In priority mode, when the highest waiting priority is not \<open>-1\<close>, \<open>NextJob\<close> takes the oldest job
  of the highest waiting priority, under every strategy.
\<close>

theorem Prio_NextJob_highest:
  assumes "pm_inv m" "waiting m \<noteq> []" "hd (waiting m) \<noteq> - 1"
  shows "\<exists>q. gm_get (pm_queues m) (hd (waiting m)) = Some q \<and> mq_elems q \<noteq> []
     \<and> fst (Prio_NextJob m) = Some (hd (mq_elems q))
     \<and> (\<forall>p q'. gm_get (pm_queues m) p = Some q' \<and> mq_elems q' \<noteq> [] \<longrightarrow> hd (waiting m) \<le> p)"
proof -
  note w = waiting_props [OF assms(1)]
  have "nonempty_at m (hd (waiting m))" using w(3) hd_in_set [OF assms(2)] by blast
  then obtain q where q: "gm_get (pm_queues m) (hd (waiting m)) = Some q" "mq_elems q \<noteq> []"
    using nonempty_at_iff [OF assms(1)] by blast
  have "fst (Prio_NextJob m) = Some (hd (mq_elems q))"
    using prio_next [OF assms(1)] assms(2,3) q(1) by (auto simp: Let_def)
  moreover have "hd (waiting m) \<le> p" if "p \<in> set (waiting m)" for p
    using w(2) that by (cases "waiting m") auto
  ultimately show ?thesis using q w(3) nonempty_at_iff [OF assms(1)] by blast
qed

theorem Prio_NextJob_highest_witness:
  "fst (Prio_NextJob (example_prio PriorityNormal [example_job 1 0, example_job 2 0])) = Some (example_job 1 0)"
proof -
  let ?m = "example_prio PriorityNormal [example_job 1 0, example_job 2 0]"
  have w: "waiting ?m = [PriorityNormal]" by (rule example_prio_ok) simp
  have "hd (waiting ?m) \<noteq> - 1" unfolding w by (simp add: PriorityNormal_def)
  with Prio_NextJob_highest [OF example_prio_ok(1), of PriorityNormal "[example_job 1 0, example_job 2 0]"] w
  show ?thesis by (auto simp: example_prio_ok(3) example_queue_ok)
qed

text \<open>
  The sentinel \<open>-1\<close> of the scheduler is also the value of \<open>PriorityHigh\<close>. When the highest waiting
  priority is \<open>PriorityHigh\<close>, \<open>NextJob\<close> returns nothing although jobs wait, and the queues stay as they
  are; hence every later \<open>NextJob\<close> returns nothing too, until a more urgent job arrives.
\<close>

theorem Prio_NextJob_high_blocks:
  assumes "pm_inv m" "waiting m \<noteq> []" "hd (waiting m) = PriorityHigh"
  shows "fst (((\<lambda>r. Prio_NextJob (snd r)) ^^ n) (Prio_NextJob m)) = None
    \<and> pm_queues (snd (((\<lambda>r. Prio_NextJob (snd r)) ^^ n) (Prio_NextJob m))) = pm_queues m
    \<and> \<not> Prio_IsEmpty m"
proof -
  have step: "fst (Prio_NextJob m') = None \<and> pm_inv (snd (Prio_NextJob m'))
      \<and> waiting (snd (Prio_NextJob m')) = waiting m \<and> pm_queues (snd (Prio_NextJob m')) = pm_queues m"
    if i: "pm_inv m'" and w: "waiting m' = waiting m" and q: "pm_queues m' = pm_queues m" for m'
  proof -
    obtain sch where "Prio_NextJob m' = (None, m' \<lparr> pm_scheduler := sch \<rparr>)"
      using prio_next [OF i] w assms(2,3) by (auto simp: PriorityHigh_def)
    then show ?thesis using i w q by (simp add: waiting_scheduler)
  qed
  have "fst (((\<lambda>r. Prio_NextJob (snd r)) ^^ n) (Prio_NextJob m)) = None
    \<and> (let m' = snd (((\<lambda>r. Prio_NextJob (snd r)) ^^ n) (Prio_NextJob m))
       in pm_inv m' \<and> waiting m' = waiting m \<and> pm_queues m' = pm_queues m)" for n
    using step [OF assms(1) refl refl] step by (induction n) (auto simp: Let_def)
  moreover have "\<not> Prio_IsEmpty m"
  proof -
    have "nonempty_at m (hd (waiting m))" using waiting_props(3) [OF assms(1)] hd_in_set [OF assms(2)] by blast
    then obtain q where q: "gm_get (pm_queues m) (hd (waiting m)) = Some q" "mq_elems q \<noteq> []"
      using nonempty_at_iff [OF assms(1)] by blast
    then show ?thesis
      using gm_get_mem [OF q(1)] pm_queue_inv [OF assms(1) q(1)]
      by (auto simp: Prio_IsEmpty_def list_all_iff mq.empty_spec q(2) intro!: bexI [of _ "(hd (waiting m), q)"])
  qed
  ultimately show ?thesis by (simp add: Let_def)
qed

theorem Prio_NextJob_high_blocks_witness:
  "fst (Prio_NextJob (example_prio PriorityHigh [example_job 1 PriorityHigh])) = None
   \<and> \<not> Prio_IsEmpty (example_prio PriorityHigh [example_job 1 PriorityHigh])"
proof -
  let ?m = "example_prio PriorityHigh [example_job 1 PriorityHigh]"
  have w: "waiting ?m = [PriorityHigh]" by (rule example_prio_ok) simp
  show ?thesis using Prio_NextJob_high_blocks [OF example_prio_ok(1), of PriorityHigh "[example_job 1 PriorityHigh]" 0] w
    by simp
qed

lemma default_manager:
  "\<exists>m. NewDualQueueManager ncpu z pick = Inr m \<and> dm_inv m \<and> dm_jobs m = {#}
     \<and> mq_capacity (dm_systemMailbox m) = Some 4096 \<and> mq_capacity (dm_userMailbox m) = Some 4096"
proof -
  let ?s = "\<lparr> qs_backend = ''bounded'', qs_mode = ''dual'', qs_dual = Some \<lparr> ds_system = 4096, ds_user = 4096 \<rparr>,
     qs_priority = None, qs_storageBytes = 131200 \<rparr>"
  let ?p = "\<lparr> ph_backend = ''bounded'', ph_capacity = 4096 \<rparr>"
  have "is_pow2 4096" unfolding is_pow2_def by (rule exI [of _ 12]) simp
  then obtain q where q: "newQueue z pick ?p = Inr q" using newQueue_no_panic [of ?p z pick] by auto
  then have "newDualQueueManager z pick ?s = Inr \<lparr> dm_systemMailbox = q, dm_userMailbox = q \<rparr>"
    by (simp add: newDualQueueManager_def)
  then have "NewDualQueueManager ncpu z pick = Inr \<lparr> dm_systemMailbox = q, dm_userMailbox = q \<rparr>"
    by (simp add: NewDualQueueManager_def normalize_default)
  then show ?thesis using newQueue_ok [OF q] by (simp add: dm_inv_def dm_jobs_def)
qed

lemma priority_spec_ok:
  assumes "priority_spec bounded (normalizeMultiLevelQueueConf conf) = Inr (p, caps)"
  shows "ps_priorities p \<noteq> []"
    "bounded \<Longrightarrow> \<not> list_ex (\<lambda>k. gm_get (ps_priorities p) k = None) [PrioritySys, PriorityUrgent, PriorityHigh]"
    "bounded \<Longrightarrow> \<not> ps_fallbackPriority p < PriorityNormal"
    "ps_fallbackPriority p = fallback_loop True 0 (gm_keys (ps_priorities p))"
proof -
  let ?b = "mq_PriorityBatches (normalizeMultiLevelQueueConf conf)"
  have ne: "?b \<noteq> []"
    by (auto simp: normalizeMultiLevelQueueConf_def DefaultMultiLevelQueueConf_def newDefaultPriorityMap_def Let_def
        split: option.splits)
  show "ps_priorities p \<noteq> []" "ps_fallbackPriority p = fallback_loop True 0 (gm_keys (ps_priorities p))"
    using assms ne by (auto simp: priority_spec_def Let_def split: if_splits list.splits)
  assume b: bounded
  show "\<not> list_ex (\<lambda>k. gm_get (ps_priorities p) k = None) [PrioritySys, PriorityUrgent, PriorityHigh]"
    "\<not> ps_fallbackPriority p < PriorityNormal"
    using assms b by (auto simp: priority_spec_def Let_def split: if_splits list.splits)
qed

lemma newDual_no_panic:
  assumes "qs_dual spec = Some d" "qs_backend spec = ''bounded''"
    and "\<forall>k \<in> set (spec_capacities spec). 2 \<le> k \<and> is_pow2 k"
  shows "\<exists>m. newDualQueueManager z pick spec = Inr m"
proof -
  have "2 \<le> ds_system d \<and> is_pow2 (ds_system d)" "2 \<le> ds_user d \<and> is_pow2 (ds_user d)"
    using assms(1,3) by (auto simp: spec_capacities_def)
  then obtain s u where "newQueue z pick \<lparr> ph_backend = qs_backend spec, ph_capacity = ds_system d \<rparr> = Inr s"
    "newQueue z pick \<lparr> ph_backend = qs_backend spec, ph_capacity = ds_user d \<rparr> = Inr u"
    using newQueue_no_panic [of "\<lparr> ph_backend = qs_backend spec, ph_capacity = ds_system d \<rparr>" z pick]
      newQueue_no_panic [of "\<lparr> ph_backend = qs_backend spec, ph_capacity = ds_user d \<rparr>" z pick] assms(2) by auto
  then show ?thesis using assms(1) by (simp add: newDualQueueManager_def)
qed

lemma newPrio_no_panic:
  assumes "qs_priority spec = Some p" "qs_backend spec = ''unbounded'' \<or> qs_backend spec = ''bounded''"
    and "qs_backend spec = ''bounded'' \<Longrightarrow> \<forall>k \<in> set (spec_capacities spec). 2 \<le> k \<and> is_pow2 k"
    and "priority_spec (qs_backend spec = ''bounded'') (normalizeMultiLevelQueueConf conf) = Inr (p, caps)"
  shows "\<exists>m. newPriorityQueueManager z pick spec = Inr m"
proof -
  note ok = priority_spec_ok [OF assms(4)]
  obtain qs where qs: "build_queues z pick (qs_backend spec) (ps_priorities p) = Inr qs"
  proof -
    have "\<forall>(k, pc) \<in> set (ps_priorities p). 2 \<le> pc_Capacity pc \<and> is_pow2 (pc_Capacity pc)"
      if "qs_backend spec = ''bounded''"
      using assms(3) [OF that] spec_capacity_mem [OF assms(1)] by blast
    then show ?thesis using that build_queues_no_panic [of "qs_backend spec" "ps_priorities p" z pick] assms(2) by blast
  qed
  have "sort (gm_keys (ps_priorities p)) \<noteq> []"
    using ok(1) by (metis length_map length_sort length_0_conv)
  then show ?thesis
    using assms(1) qs ok(2,3) by (auto simp: newPriorityQueueManager_def Let_def)
qed

lemma normalize_layout:
  assumes "normalizeQueueSpec ncpu c = Inr spec" "mc_SchedulePolicy (fixConf ncpu c) = Some sp"
  shows "qs_backend spec = ''unbounded'' \<or> qs_backend spec = ''bounded''"
    "(qs_mode spec = QueueModeDual \<and> qs_priority spec = None \<and> (\<exists>d. qs_dual spec = Some d))
     \<or> (qs_mode spec = QueueModePriority \<and> qs_dual spec = None \<and> (\<exists>p caps. qs_priority spec = Some p
        \<and> priority_spec (qs_backend spec = ''bounded'') (normalizeMultiLevelQueueConf (sp_MultiLevelQueueConf sp)) = Inr (p, caps)))"
proof -
  from normalize_Inr [OF assms] obtain mode d p caps where n:
    "mc_QueueBackend (fixConf ncpu c) = ''unbounded'' \<or> mc_QueueBackend (fixConf ncpu c) = ''bounded''"
    "queue_mode (mc_QueueBackend (fixConf ncpu c) = ''bounded'') (mc_QueueMode (fixConf ncpu c)) = Inr mode"
    "queue_layout (mc_QueueBackend (fixConf ncpu c) = ''bounded'') mode (fixConf ncpu c) sp = Inr (d, p, caps)"
    "spec = \<lparr> qs_backend = mc_QueueBackend (fixConf ncpu c), qs_mode = mode, qs_dual = d, qs_priority = p,
           qs_storageBytes = qs_storageBytes spec \<rparr>"
    by metis
  have f: "qs_backend spec = mc_QueueBackend (fixConf ncpu c)" "qs_mode spec = mode" "qs_dual spec = d" "qs_priority spec = p"
    by (subst n(4); simp)+
  show "qs_backend spec = ''unbounded'' \<or> qs_backend spec = ''bounded''" using f n(1) by simp
  have m: "mode = QueueModeDual \<or> mode = QueueModePriority" using n(2) by (auto simp: queue_mode_def split: if_splits)
  show "(qs_mode spec = QueueModeDual \<and> qs_priority spec = None \<and> (\<exists>d. qs_dual spec = Some d))
     \<or> (qs_mode spec = QueueModePriority \<and> qs_dual spec = None \<and> (\<exists>p caps. qs_priority spec = Some p
        \<and> priority_spec (qs_backend spec = ''bounded'') (normalizeMultiLevelQueueConf (sp_MultiLevelQueueConf sp)) = Inr (p, caps)))"
  proof (cases "mode = QueueModeDual")
    case True
    then show ?thesis using n(3) f by (auto simp: queue_layout_def split_beta dest: sym)
  next
    case False
    then show ?thesis using m n(3) f by (auto simp: queue_layout_def)
  qed
qed

text \<open>
  A layout accepted by \<open>normalizeQueueSpec\<close> always gives a worker its queues: \<open>createQueueManager\<close>
  does not panic, and the new manager is well-formed and empty.
\<close>

theorem createQueueManager_total:
  assumes "normalizeQueueSpec ncpu c = Inr spec" "\<forall>k \<in> set (spec_capacities spec). k < 2 ^ 63"
    and "\<forall>sp w. mc_SchedulePolicy (fixConf ncpu c) = Some sp \<and> bounded_workers sp = Inr w \<longrightarrow> 0 \<le> w \<and> w < 2 ^ 31"
    and "\<forall>p. qs_priority spec = Some p \<longrightarrow> gm_wf (ps_priorities p)"
  shows "\<exists>m. createQueueManager ncpu z pick spec = Inr m \<and> qm_inv m \<and> qm_jobs m = {#}"
proof -
  obtain sp where sp: "mc_SchedulePolicy (fixConf ncpu c) = Some sp" using fixConf_policy by blast
  note lay = normalize_layout [OF assms(1) sp]
  have caps: "\<forall>k \<in> set (spec_capacities spec). 2 \<le> k \<and> is_pow2 k" if b: "qs_backend spec = ''bounded''"
    using normalize_bounded_storage [OF assms(1) b] bounded_storage_exact [OF _ assms(2)] assms(3) by blast
  from lay(2) show ?thesis
  proof (elim disjE conjE exE)
    fix d assume d: "qs_mode spec = QueueModeDual" "qs_dual spec = Some d"
    show ?thesis
    proof (cases "qs_backend spec = ''unbounded''")
      case True
      then show ?thesis using d default_manager [of ncpu z pick] by (auto simp: createQueueManager_def)
    next
      case False
      then have b: "qs_backend spec = ''bounded''" using lay(1) by simp
      obtain m where m: "newDualQueueManager z pick spec = Inr m" using newDual_no_panic [OF d(2) b caps [OF b]] by blast
      then show ?thesis using d b newDualQueueManager_ok [OF m assms(2)] by (simp add: createQueueManager_def)
    qed
  next
    fix p cs assume p: "qs_mode spec = QueueModePriority" "qs_priority spec = Some p"
      "priority_spec (qs_backend spec = ''bounded'') (normalizeMultiLevelQueueConf (sp_MultiLevelQueueConf sp)) = Inr (p, cs)"
    obtain m where m: "newPriorityQueueManager z pick spec = Inr m"
      using newPrio_no_panic [OF p(2) lay(1) caps p(3)] by blast
    then show ?thesis
      using p(1) newPriorityQueueManager_ok [OF m assms(2) p(2)] assms(4) p(2)
      by (simp add: createQueueManager_def QueueModeDual_def QueueModePriority_def)
  qed
qed

theorem createQueueManager_total_witness:
  "\<exists>s m. normalizeQueueSpec 4 None = Inr s \<and> createQueueManager 4 (example_job 0 0) (\<lambda>_. None) s = Inr m \<and> qm_inv m"
proof -
  have "mc_SchedulePolicy (fixConf 4 None) = Some (fix_policy None)" by (simp add: fixConf_default)
  then show ?thesis
    using createQueueManager_total [OF normalize_default [of 4], of "example_job 0 0" "\<lambda>_. None"] normalize_default [of 4]
    by (auto simp: spec_capacities_def bounded_workers_default)
qed

text \<open>
  With the backend set to \<open>unbounded\<close> explicitly and the default dual mode, the configuration is
  accepted, but the worker gets queues bounded at 4096 jobs.
\<close>

theorem unbounded_dual_is_bounded:
  assumes "normalizeQueueSpec ncpu c = Inr spec" "qs_backend spec = ''unbounded''" "qs_mode spec = QueueModeDual"
  shows "\<exists>m. createQueueManager ncpu z pick spec = Inr (QMDual m)
     \<and> mq_capacity (dm_systemMailbox m) = Some 4096 \<and> mq_capacity (dm_userMailbox m) = Some 4096"
  using assms default_manager [of ncpu z pick] by (auto simp: createQueueManager_def)

theorem unbounded_dual_is_bounded_witness:
  "\<exists>spec m. normalizeQueueSpec 4 (Some (zero_mailbox_conf \<lparr> mc_QueueBackend := ''unbounded'' \<rparr>)) = Inr spec
     \<and> createQueueManager 4 (example_job 0 0) (\<lambda>_. None) spec = Inr (QMDual m)
     \<and> mq_capacity (dm_userMailbox m) = Some 4096"
proof -
  let ?c = "Some (zero_mailbox_conf \<lparr> mc_QueueBackend := ''unbounded'' \<rparr>)"
  let ?s = "\<lparr> qs_backend = ''unbounded'', qs_mode = QueueModeDual, qs_dual = Some \<lparr> ds_system = 0, ds_user = 0 \<rparr>,
     qs_priority = None, qs_storageBytes = 0 \<rparr>"
  have n: "normalizeQueueSpec 4 ?c = Inr ?s"
    by (simp add: normalizeQueueSpec_def fixConf_def cloneMailboxConfForFix_def zero_mailbox_conf_def Let_def
        queue_mode_def queue_layout_def dual_spec_def QueueModeDual_def)
  show ?thesis
    using unbounded_dual_is_bounded [OF n, of "example_job 0 0" "\<lambda>_. None"] n by auto
qed

end
