(* ===== verification/Middleware_Chain.thy ===== *)
theory Middleware_Chain
  imports Mailbox_Queue
begin

text \<open>
  \<open>engine/pkg/actor/mailbox/middleware_chain.go\<close> with the results of \<open>dto/mailbox.go\<close>: the chain of
  middlewares around a job. A middleware is code of the application; it is a record of functions,
  each of which may also panic. Calls into middlewares and the traffic of the context pool are
  recorded as a trace of events, so that their order and number can be stated. The chain's list is
  replaced as a whole (copy on write), so a snapshot is a list value.
\<close>

section \<open>Definitions\<close>

datatype middleware_action = ActionContinue | ActionReject | ActionSkip | ActionUndefined int

record middleware_result =
  mr_Action :: middleware_action
  mr_Err :: "mailbox_error option"

definition Continue :: middleware_result where
  "Continue = \<lparr> mr_Action = ActionContinue, mr_Err = None \<rparr>"

definition Reject :: "mailbox_error option \<Rightarrow> middleware_result" where
  "Reject err = \<lparr> mr_Action = ActionReject, mr_Err = err \<rparr>"

definition Skip :: middleware_result where
  "Skip = \<lparr> mr_Action = ActionSkip, mr_Err = None \<rparr>"

type_synonym mctx_data = "(string, go_any) gomap"

text \<open>
  A method returns the context data it leaves behind and either its result or the value it
  panicked with. \<open>mw_OnFrameworkCleanup\<close> is \<open>None\<close> when the middleware does not implement
  \<open>frameworkCleanupMiddleware\<close>.
\<close>

record middleware =
  mw_Name :: string
  mw_OnReceive :: "mailbox_job \<Rightarrow> mctx_data \<Rightarrow> mctx_data \<times> (string + middleware_result)"
  mw_OnComplete :: "mctx_data \<Rightarrow> mailbox_error option \<Rightarrow> string option \<Rightarrow> mctx_data \<times> string option"
  mw_OnFrameworkCleanup :: "(mctx_data \<Rightarrow> mailbox_error option \<Rightarrow> string option \<Rightarrow> mctx_data \<times> string option) option"
  mw_OnStart :: "string option"
  mw_OnStop :: "string option"

record middleware_context =
  mx_job :: "mailbox_job option"
  mx_serviceName :: string
  mx_startTime :: int
  mx_executed :: int
  mx_middlewareSnapshot :: "middleware list option"
  mx_data :: mctx_data

datatype mw_event =
    ReceiveCalled string
  | CompleteCalled string
  | CleanupCalled string
  | StartCalled string
  | StopCalled string
  | PanicHandled string string
  | CtxGet
  | CtxPut

record middleware_chain =
  mch_mws :: "middleware list"
  mch_panicHandler :: bool

subsection \<open>The context\<close>

definition NewMiddlewareContext :: "mailbox_job \<Rightarrow> string \<Rightarrow> int \<Rightarrow> middleware_context" where
  "NewMiddlewareContext job serviceName now = \<lparr> mx_job = Some job, mx_serviceName = serviceName,
     mx_startTime = now, mx_executed = 0, mx_middlewareSnapshot = None, mx_data = [] \<rparr>"

text \<open>The reset function of the context pool.\<close>

definition reset_context :: "middleware_context \<Rightarrow> middleware_context" where
  "reset_context mc = \<lparr> mx_job = None, mx_serviceName = '''', mx_startTime = 0, mx_executed = 0,
     mx_middlewareSnapshot = None,
     mx_data = (if length (mx_data mc) > 64 then [] else fold (\<lambda>k d. gm_del d k) (gm_keys (mx_data mc)) (mx_data mc)) \<rparr>"

definition MCtx_Set :: "string \<Rightarrow> go_any \<Rightarrow> middleware_context \<Rightarrow> middleware_context" where
  "MCtx_Set key v c = c \<lparr> mx_data := gm_set (mx_data c) key v \<rparr>"

definition MCtx_Get :: "string \<Rightarrow> middleware_context \<Rightarrow> go_any option" where
  "MCtx_Get key c = gm_get (mx_data c) key"

definition MCtx_GetString :: "string \<Rightarrow> middleware_context \<Rightarrow> string" where
  "MCtx_GetString key c = (case MCtx_Get key c of Some (AnyString s) \<Rightarrow> s | _ \<Rightarrow> '''')"

definition MCtx_GetInt :: "string \<Rightarrow> middleware_context \<Rightarrow> int" where
  "MCtx_GetInt key c = (case MCtx_Get key c of Some (AnyInt i) \<Rightarrow> i | _ \<Rightarrow> 0)"

definition MCtx_GetBool :: "string \<Rightarrow> middleware_context \<Rightarrow> bool" where
  "MCtx_GetBool key c = (case MCtx_Get key c of Some (AnyBool b) \<Rightarrow> b | _ \<Rightarrow> False)"

subsection \<open>The chain\<close>

definition NewMiddlewareChain :: "middleware list \<Rightarrow> bool \<Rightarrow> middleware_chain" where
  "NewMiddlewareChain mws handler = \<lparr> mch_mws = mws, mch_panicHandler = handler \<rparr>"

definition Chain_Add :: "middleware \<Rightarrow> middleware_chain \<Rightarrow> middleware_chain" where
  "Chain_Add mw c = c \<lparr> mch_mws := mch_mws c @ [mw] \<rparr>"

fun remove_first_named :: "string \<Rightarrow> middleware list \<Rightarrow> middleware list option" where
  "remove_first_named name [] = None"
| "remove_first_named name (mw # rest) =
     (if mw_Name mw = name then Some rest else map_option (Cons mw) (remove_first_named name rest))"

definition Chain_Remove :: "string \<Rightarrow> middleware_chain \<Rightarrow> bool \<times> middleware_chain" where
  "Chain_Remove name c =
     (case remove_first_named name (mch_mws c) of
        None \<Rightarrow> (False, c)
      | Some mws \<Rightarrow> (True, c \<lparr> mch_mws := mws \<rparr>))"

definition handlePanic :: "middleware_chain \<Rightarrow> string \<Rightarrow> string \<Rightarrow> mw_event list" where
  "handlePanic c phase name = (if mch_panicHandler c then [PanicHandled phase name] else [])"

definition safeOnReceive :: "middleware_chain \<Rightarrow> middleware \<Rightarrow> mailbox_job \<Rightarrow> middleware_context
    \<Rightarrow> middleware_result \<times> string option \<times> middleware_context \<times> mw_event list" where
  "safeOnReceive c mw job mctx =
     (case mw_OnReceive mw job (mx_data mctx) of
        (d, Inr r) \<Rightarrow> (r, None, mctx \<lparr> mx_data := d \<rparr>, [ReceiveCalled (mw_Name mw)])
      | (d, Inl p) \<Rightarrow> (Reject (Some (ErrOther (''mailbox middleware panic: '' @ p))), Some p, mctx \<lparr> mx_data := d \<rparr>,
                      ReceiveCalled (mw_Name mw) # handlePanic c ''OnReceive'' (mw_Name mw)))"

fun receive_loop :: "middleware_chain \<Rightarrow> int \<Rightarrow> mailbox_job \<Rightarrow> middleware list \<Rightarrow> middleware_context
    \<Rightarrow> middleware_result \<times> middleware_context \<times> mw_event list" where
  "receive_loop c i job [] mctx = (Continue, mctx \<lparr> mx_executed := i \<rparr>, [])"
| "receive_loop c i job (mw # rest) mctx =
     (case safeOnReceive c mw job mctx of
        (result, panicVal, mctx1, tr) \<Rightarrow>
          (case panicVal of
             Some p \<Rightarrow> (Reject (Some (ErrOther (''mailbox middleware '' @ mw_Name mw @ '' OnReceive panic: '' @ p))),
                        mctx1 \<lparr> mx_executed := i + 1 \<rparr>, tr)
           | None \<Rightarrow>
               if mr_Action result = ActionReject then (result, mctx1 \<lparr> mx_executed := i + 1 \<rparr>, tr)
               else if mr_Action result = ActionSkip then (Continue, mctx1 \<lparr> mx_executed := i + 1 \<rparr>, tr)
               else (case receive_loop c (i + 1) job rest mctx1 of (r, m, tr') \<Rightarrow> (r, m, tr @ tr'))))"

definition ExecuteOnReceive :: "middleware_chain \<Rightarrow> mailbox_job \<Rightarrow> string \<Rightarrow> int
    \<Rightarrow> middleware_result \<times> middleware_context option \<times> mw_event list" where
  "ExecuteOnReceive c job serviceName now =
     (if mch_mws c = [] then (Continue, None, [])
      else let mctx = \<lparr> mx_job = Some job, mx_serviceName = serviceName, mx_startTime = now, mx_executed = 0,
                        mx_middlewareSnapshot = Some (mch_mws c), mx_data = [] \<rparr>
           in case receive_loop c 0 job (mch_mws c) mctx of
                (r, m, tr) \<Rightarrow> (r, Some m, CtxGet # tr))"

definition safeOnComplete :: "middleware_chain \<Rightarrow> mailbox_error option \<Rightarrow> string option \<Rightarrow> middleware
    \<Rightarrow> mctx_data \<Rightarrow> mctx_data \<times> mw_event list" where
  "safeOnComplete c err panicVal mw d =
     (case mw_OnComplete mw d err panicVal of
        (d', None) \<Rightarrow> (d', [CompleteCalled (mw_Name mw)])
      | (d', Some p) \<Rightarrow> (d', CompleteCalled (mw_Name mw) # handlePanic c ''OnComplete'' (mw_Name mw)))"

definition safeFrameworkCleanup :: "middleware_chain \<Rightarrow> mailbox_error option \<Rightarrow> string option \<Rightarrow> middleware
    \<Rightarrow> mctx_data \<Rightarrow> mctx_data \<times> mw_event list" where
  "safeFrameworkCleanup c err panicVal mw d =
     (case mw_OnFrameworkCleanup mw of
        None \<Rightarrow> (d, [])
      | Some f \<Rightarrow>
          (case f d err panicVal of
             (d', None) \<Rightarrow> (d', [CleanupCalled (mw_Name mw)])
           | (d', Some p) \<Rightarrow> (d', CleanupCalled (mw_Name mw) # handlePanic c ''OnFrameworkCleanup'' (mw_Name mw))))"

fun each_middleware :: "(middleware \<Rightarrow> mctx_data \<Rightarrow> mctx_data \<times> mw_event list) \<Rightarrow> middleware list \<Rightarrow> mctx_data \<Rightarrow> mw_event list" where
  "each_middleware f [] d = []"
| "each_middleware f (mw # rest) d = (case f mw d of (d', tr) \<Rightarrow> tr @ each_middleware f rest d')"

text \<open>The middlewares whose \<open>OnComplete\<close> is due, in the order of the calls.\<close>

definition completed_middlewares :: "middleware_chain \<Rightarrow> middleware_context \<Rightarrow> middleware list" where
  "completed_middlewares c mc =
     (let middlewares = (case mx_middlewareSnapshot mc of Some ms \<Rightarrow> ms | None \<Rightarrow> mch_mws c);
          n = mx_executed mc;
          end = (if 0 \<le> n \<and> n \<le> int (length middlewares) then nat n else length middlewares)
      in rev (take end middlewares))"

definition ExecuteOnComplete :: "middleware_chain \<Rightarrow> middleware_context option \<Rightarrow> mailbox_error option \<Rightarrow> string option
    \<Rightarrow> mw_event list" where
  "ExecuteOnComplete c mctx err panicVal =
     (case mctx of
        None \<Rightarrow> []
      | Some mc \<Rightarrow> each_middleware (safeOnComplete c err panicVal) (completed_middlewares c mc) (mx_data mc) @ [CtxPut])"

definition ExecuteFrameworkCleanup :: "middleware_chain \<Rightarrow> middleware_context option \<Rightarrow> mailbox_error option \<Rightarrow> string option
    \<Rightarrow> mw_event list" where
  "ExecuteFrameworkCleanup c mctx err panicVal =
     (case mctx of
        None \<Rightarrow> []
      | Some mc \<Rightarrow> each_middleware (safeFrameworkCleanup c err panicVal) (completed_middlewares c mc) (mx_data mc) @ [CtxPut])"

definition safeOnStart :: "middleware_chain \<Rightarrow> middleware \<Rightarrow> mw_event list" where
  "safeOnStart c mw = StartCalled (mw_Name mw)
     # (case mw_OnStart mw of None \<Rightarrow> [] | Some p \<Rightarrow> handlePanic c ''OnStart'' (mw_Name mw))"

definition safeOnStop :: "middleware_chain \<Rightarrow> middleware \<Rightarrow> mw_event list" where
  "safeOnStop c mw = StopCalled (mw_Name mw)
     # (case mw_OnStop mw of None \<Rightarrow> [] | Some p \<Rightarrow> handlePanic c ''OnStop'' (mw_Name mw))"

definition Chain_Start :: "middleware_chain \<Rightarrow> mw_event list" where
  "Chain_Start c = concat (map (safeOnStart c) (mch_mws c))"

definition Chain_Stop :: "middleware_chain \<Rightarrow> mw_event list" where
  "Chain_Stop c = concat (map (safeOnStop c) (rev (mch_mws c)))"

definition Chain_Middlewares :: "middleware_chain \<Rightarrow> middleware list" where
  "Chain_Middlewares c = mch_mws c"

subsection \<open>Reading a trace\<close>

fun received :: "mw_event list \<Rightarrow> string list" where
  "received [] = []"
| "received (ReceiveCalled n # tr) = n # received tr"
| "received (_ # tr) = received tr"

fun completed :: "mw_event list \<Rightarrow> string list" where
  "completed [] = []"
| "completed (CompleteCalled n # tr) = n # completed tr"
| "completed (_ # tr) = completed tr"

fun cleaned :: "mw_event list \<Rightarrow> string list" where
  "cleaned [] = []"
| "cleaned (CleanupCalled n # tr) = n # cleaned tr"
| "cleaned (_ # tr) = cleaned tr"

fun started :: "mw_event list \<Rightarrow> string list" where
  "started [] = []"
| "started (StartCalled n # tr) = n # started tr"
| "started (_ # tr) = started tr"

fun stopped :: "mw_event list \<Rightarrow> string list" where
  "stopped [] = []"
| "stopped (StopCalled n # tr) = n # stopped tr"
| "stopped (_ # tr) = stopped tr"

subsection \<open>A chain of a passing, a rejecting and an unreached middleware\<close>

definition passing_mw :: "string \<Rightarrow> middleware" where
  "passing_mw n = \<lparr> mw_Name = n, mw_OnReceive = \<lambda>_ d. (d, Inr Continue), mw_OnComplete = \<lambda>d _ _. (d, None),
     mw_OnFrameworkCleanup = None, mw_OnStart = None, mw_OnStop = None \<rparr>"

definition rejecting_mw :: "string \<Rightarrow> middleware" where
  "rejecting_mw n = passing_mw n \<lparr> mw_OnReceive := \<lambda>_ d. (d, Inr (Reject None)) \<rparr>"

definition job_example :: mailbox_job where
  "job_example = \<lparr> jb_id = 1, jb_Type = JobRpc, jb_Priority = PriorityNormal, jb_DispatcherKey = ''k'',
     jb_rwMode = RWModeWrite, jb_isReply = False, jb_cancelable = True, jb_ctxErr = None, jb_deadline = 0, jb_mctx = None \<rparr>"

definition chain_example :: middleware_chain where
  "chain_example = NewMiddlewareChain [passing_mw ''a'', rejecting_mw ''b'', passing_mw ''c''] True"

section \<open>Facts\<close>

lemma received_append [simp]: "received (a @ b) = received a @ received b"
  by (induction a rule: received.induct) simp_all

lemma completed_append [simp]: "completed (a @ b) = completed a @ completed b"
  by (induction a rule: completed.induct) simp_all

lemma cleaned_append [simp]: "cleaned (a @ b) = cleaned a @ cleaned b"
  by (induction a rule: cleaned.induct) simp_all

lemma started_append [simp]: "started (a @ b) = started a @ started b"
  by (induction a rule: started.induct) simp_all

lemma stopped_append [simp]: "stopped (a @ b) = stopped a @ stopped b"
  by (induction a rule: stopped.induct) simp_all

lemma handlePanic_silent [simp]:
  "received (handlePanic c p n) = []" "completed (handlePanic c p n) = []" "cleaned (handlePanic c p n) = []"
  "count_list (handlePanic c p n) CtxGet = 0" "count_list (handlePanic c p n) CtxPut = 0"
  by (simp_all add: handlePanic_def)

lemma safeOnReceive_trace:
  "safeOnReceive c mw job m = (r, p, m', tr) \<Longrightarrow>
     received tr = [mw_Name mw] \<and> completed tr = [] \<and> count_list tr CtxGet = 0 \<and> count_list tr CtxPut = 0
     \<and> mx_middlewareSnapshot m' = mx_middlewareSnapshot m"
  by (auto simp: safeOnReceive_def split: prod.splits sum.splits)

lemma receive_loop_trace:
  assumes "receive_loop c i job mws m = (r, m', tr)"
  shows "\<exists>k \<le> length mws. received tr = map mw_Name (take k mws) \<and> mx_executed m' = i + int k
     \<and> completed tr = [] \<and> count_list tr CtxGet = 0 \<and> count_list tr CtxPut = 0
     \<and> mx_middlewareSnapshot m' = mx_middlewareSnapshot m
     \<and> (k < length mws \<or> mr_Action r = ActionContinue \<or> mr_Action r = ActionReject)"
  using assms
proof (induction mws arbitrary: i m r m' tr)
  case Nil
  then show ?case by (auto simp: Continue_def)
next
  case (Cons mw mws)
  obtain r1 p m1 tr1 where s: "safeOnReceive c mw job m = (r1, p, m1, tr1)" using prod_cases4 by blast
  note t = safeOnReceive_trace [OF s]
  show ?case
  proof (cases "p \<noteq> None \<or> mr_Action r1 = ActionReject \<or> mr_Action r1 = ActionSkip")
    case True
    then have "tr = tr1" "mx_executed m' = i + 1" "mx_middlewareSnapshot m' = mx_middlewareSnapshot m1"
      "mr_Action r = ActionContinue \<or> mr_Action r = ActionReject"
      using Cons(2) s by (auto simp: Reject_def Continue_def split: option.splits if_splits)
    then show ?thesis using t by (intro exI [of _ 1]) auto
  next
    case False
    obtain r2 m2 tr2 where l: "receive_loop c (i + 1) job mws m1 = (r2, m2, tr2)" using prod_cases3 by blast
    have "tr = tr1 @ tr2" "m' = m2" "r = r2" using Cons(2) s l False by auto
    moreover obtain k where "k \<le> length mws" "received tr2 = map mw_Name (take k mws)" "mx_executed m2 = i + 1 + int k"
      "completed tr2 = []" "count_list tr2 CtxGet = 0" "count_list tr2 CtxPut = 0"
      "mx_middlewareSnapshot m2 = mx_middlewareSnapshot m1"
      "k < length mws \<or> mr_Action r2 = ActionContinue \<or> mr_Action r2 = ActionReject"
      using Cons.IH [OF l] by blast
    ultimately show ?thesis using t by (intro exI [of _ "Suc k"]) auto
  qed
qed

lemma each_complete_trace:
  "completed (each_middleware (safeOnComplete c e p) mws d) = map mw_Name mws
   \<and> received (each_middleware (safeOnComplete c e p) mws d) = []
   \<and> count_list (each_middleware (safeOnComplete c e p) mws d) CtxPut = 0
   \<and> count_list (each_middleware (safeOnComplete c e p) mws d) CtxGet = 0"
proof (induction mws arbitrary: d)
  case (Cons mw mws)
  then show ?case
    by (auto simp: safeOnComplete_def split: prod.splits option.splits)
qed simp

lemma each_cleanup_trace:
  "cleaned (each_middleware (safeFrameworkCleanup c e p) mws d)
     = map mw_Name (filter (\<lambda>mw. mw_OnFrameworkCleanup mw \<noteq> None) mws)
   \<and> completed (each_middleware (safeFrameworkCleanup c e p) mws d) = []
   \<and> count_list (each_middleware (safeFrameworkCleanup c e p) mws d) CtxPut = 0"
proof (induction mws arbitrary: d)
  case (Cons mw mws)
  then show ?case
    by (auto simp: safeFrameworkCleanup_def split: prod.splits option.splits)
qed simp

lemma receive_loop_reject:
  "receive_loop c i job mws m = (r, m', tr) \<Longrightarrow> mr_Action r = ActionReject \<Longrightarrow> received tr \<noteq> []"
  by (cases mws) (auto simp: Continue_def dest!: safeOnReceive_trace split: prod.splits option.splits if_splits)

lemma remove_first_named_split:
  "remove_first_named name mws = Some rest \<longleftrightarrow>
     (\<exists>a mw b. mws = a @ mw # b \<and> mw_Name mw = name \<and> name \<notin> mw_Name ` set a \<and> rest = a @ b)"
proof (induction mws arbitrary: rest)
  case (Cons x xs)
  show ?case
  proof (cases "mw_Name x = name")
    case True
    show ?thesis
    proof
      assume "remove_first_named name (x # xs) = Some rest"
      then show "\<exists>a mw b. x # xs = a @ mw # b \<and> mw_Name mw = name \<and> name \<notin> mw_Name ` set a \<and> rest = a @ b"
        using True by (intro exI [of _ "[]"]) auto
    next
      assume "\<exists>a mw b. x # xs = a @ mw # b \<and> mw_Name mw = name \<and> name \<notin> mw_Name ` set a \<and> rest = a @ b"
      then show "remove_first_named name (x # xs) = Some rest" using True by (auto simp: Cons_eq_append_conv)
    qed
  next
    case False
    show ?thesis
    proof
      assume "remove_first_named name (x # xs) = Some rest"
      then obtain r where r: "remove_first_named name xs = Some r" "rest = x # r" using False by auto
      then obtain a mw b where "xs = a @ mw # b" "mw_Name mw = name" "name \<notin> mw_Name ` set a" "r = a @ b"
        using Cons.IH by blast
      then show "\<exists>a mw b. x # xs = a @ mw # b \<and> mw_Name mw = name \<and> name \<notin> mw_Name ` set a \<and> rest = a @ b"
        using r False by (intro exI [of _ "x # a"]) auto
    next
      assume "\<exists>a mw b. x # xs = a @ mw # b \<and> mw_Name mw = name \<and> name \<notin> mw_Name ` set a \<and> rest = a @ b"
      then obtain a mw b where s: "x # xs = a @ mw # b" "mw_Name mw = name" "name \<notin> mw_Name ` set a" "rest = a @ b"
        by blast
      then obtain a' where "a = x # a'" using False by (cases a) auto
      then have "remove_first_named name xs = Some (a' @ b)" using s unfolding Cons.IH by (intro exI [of _ a']) auto
      then show "remove_first_named name (x # xs) = Some rest" using False s \<open>a = x # a'\<close> by simp
    qed
  qed
qed simp

lemma remove_first_named_None: "remove_first_named name mws = None \<longleftrightarrow> name \<notin> mw_Name ` set mws"
  by (induction mws) auto

lemma started_concat: "started (concat (map (safeOnStart c) mws)) = map mw_Name mws"
  by (induction mws) (auto simp: safeOnStart_def handlePanic_def split: option.splits)

lemma stopped_concat: "stopped (concat (map (safeOnStop c) mws)) = map mw_Name mws"
  by (induction mws) (auto simp: safeOnStop_def handlePanic_def split: option.splits)

lemma fold_del_empty: "set (gm_keys d) \<subseteq> set ks \<Longrightarrow> fold (\<lambda>k d. gm_del d k) ks d = []"
proof (induction ks arbitrary: d)
  case Nil
  then show ?case by (cases d) auto
next
  case (Cons k ks)
  have "set (gm_keys (gm_del d k)) \<subseteq> set ks" using Cons.prems by (auto simp: delete_keys)
  then show ?case using Cons.IH by simp
qed

lemma reset_context_fresh: "reset_context mc = (NewMiddlewareContext j '''' 0) \<lparr> mx_job := None \<rparr>"
  by (simp add: reset_context_def NewMiddlewareContext_def fold_del_empty)

section \<open>Properties\<close>

text \<open>
  C16. The chain is an onion. When a chain with at least one middleware has received a job, the
  middlewares it called are a prefix of the chain, and completing the job calls \<open>OnComplete\<close> of
  exactly these, in reverse order, whatever happened to the chain in between (it completes on its
  snapshot, here an arbitrary chain \<open>c'\<close>), whether middlewares reject, skip or panic. The context
  is taken from its pool once on the way in and put back once on the way out, also on the framework's
  cleanup path, which calls the cleanup of those called middlewares that have one. A job is rejected
  only by a middleware that was called, and that one is completed first.
\<close>

theorem chain_onion:
  assumes "ExecuteOnReceive c job sn now = (r, Some mc, tr)"
  shows "(\<exists>k \<le> length (mch_mws c).
            received tr = map mw_Name (take k (mch_mws c))
          \<and> completed (ExecuteOnComplete c' (Some mc) err p) = rev (received tr)
          \<and> cleaned (ExecuteFrameworkCleanup c' (Some mc) err p)
              = map mw_Name (filter (\<lambda>mw. mw_OnFrameworkCleanup mw \<noteq> None) (rev (take k (mch_mws c))))
          \<and> (mr_Action r = ActionReject \<longrightarrow> 0 < k))
       \<and> completed tr = [] \<and> count_list tr CtxGet = 1 \<and> count_list tr CtxPut = 0
       \<and> count_list (ExecuteOnComplete c' (Some mc) err p) CtxPut = 1
       \<and> count_list (ExecuteFrameworkCleanup c' (Some mc) err p) CtxPut = 1"
proof (rule conjI)
  define m0 where "m0 = \<lparr> mx_job = Some job, mx_serviceName = sn, mx_startTime = now, mx_executed = 0,
                        mx_middlewareSnapshot = Some (mch_mws c), mx_data = [] \<rparr>"
  obtain tr1 where l: "receive_loop c 0 job (mch_mws c) m0 = (r, mc, tr1)" and tr: "tr = CtxGet # tr1"
    using assms by (auto simp: ExecuteOnReceive_def m0_def Let_def split: if_splits prod.splits)
  obtain k where k: "k \<le> length (mch_mws c)" "received tr1 = map mw_Name (take k (mch_mws c))" "mx_executed mc = int k"
    and t: "completed tr1 = []" "count_list tr1 CtxGet = 0" "count_list tr1 CtxPut = 0"
    and sn: "mx_middlewareSnapshot mc = Some (mch_mws c)"
    using receive_loop_trace [OF l] by (auto simp: m0_def)
  have cm: "completed_middlewares c' mc = rev (take k (mch_mws c))"
    using k sn by (simp add: completed_middlewares_def Let_def)
  have rj: "mr_Action r = ActionReject \<longrightarrow> 0 < k"
    using receive_loop_reject [OF l] k by (cases k) auto
  show "\<exists>k \<le> length (mch_mws c).
            received tr = map mw_Name (take k (mch_mws c))
          \<and> completed (ExecuteOnComplete c' (Some mc) err p) = rev (received tr)
          \<and> cleaned (ExecuteFrameworkCleanup c' (Some mc) err p)
              = map mw_Name (filter (\<lambda>mw. mw_OnFrameworkCleanup mw \<noteq> None) (rev (take k (mch_mws c))))
          \<and> (mr_Action r = ActionReject \<longrightarrow> 0 < k)"
    using k rj cm
    by (intro exI [of _ k])
      (simp add: tr ExecuteOnComplete_def ExecuteFrameworkCleanup_def each_complete_trace each_cleanup_trace rev_map)
  show "completed tr = [] \<and> count_list tr CtxGet = 1 \<and> count_list tr CtxPut = 0
       \<and> count_list (ExecuteOnComplete c' (Some mc) err p) CtxPut = 1
       \<and> count_list (ExecuteFrameworkCleanup c' (Some mc) err p) CtxPut = 1"
    using t by (simp add: tr ExecuteOnComplete_def ExecuteFrameworkCleanup_def each_complete_trace each_cleanup_trace)
qed

theorem chain_onion_witness:
  "(\<exists>k \<le> length (mch_mws chain_example).
            received [CtxGet, ReceiveCalled ''a'', ReceiveCalled ''b''] = map mw_Name (take k (mch_mws chain_example))
          \<and> completed (ExecuteOnComplete (NewMiddlewareChain [] False)
               (fst (snd (ExecuteOnReceive chain_example job_example ''svc'' 7))) None None) = [''b'', ''a''])"
proof -
  obtain r m tr where e: "ExecuteOnReceive chain_example job_example ''svc'' 7 = (r, Some m, tr)"
    and tr: "tr = [CtxGet, ReceiveCalled ''a'', ReceiveCalled ''b'']"
    by (simp add: ExecuteOnReceive_def chain_example_def passing_mw_def rejecting_mw_def safeOnReceive_def
        Continue_def Reject_def NewMiddlewareChain_def)
  show ?thesis using chain_onion [OF e, of "NewMiddlewareChain [] False" None None] by (auto simp: e tr)
qed

text \<open>
  \<open>Start\<close> starts the middlewares in the order of the chain and \<open>Stop\<close> stops them in reverse,
  each once and also when one panics. \<open>Add\<close> appends, \<open>Remove\<close> takes out the first middleware of
  the name and answers whether there was one. The reset function of the pool leaves no data of the
  previous job in a context, whatever the size of its map.
\<close>

theorem chain_lifecycle:
  "started (Chain_Start c) = map mw_Name (mch_mws c)
   \<and> stopped (Chain_Stop c) = rev (map mw_Name (mch_mws c))
   \<and> Chain_Middlewares (Chain_Add mw c) = Chain_Middlewares c @ [mw]
   \<and> (fst (Chain_Remove n c) \<longleftrightarrow> n \<in> mw_Name ` set (mch_mws c))
   \<and> (n \<notin> mw_Name ` set a \<longrightarrow>
        Chain_Remove n (NewMiddlewareChain (a @ mw \<lparr> mw_Name := n \<rparr> # b) h) = (True, NewMiddlewareChain (a @ b) h))
   \<and> (n \<notin> mw_Name ` set (mch_mws c) \<longrightarrow> snd (Chain_Remove n c) = c)
   \<and> reset_context (MCtx_Set key v mc) = (NewMiddlewareContext j '''' 0) \<lparr> mx_job := None \<rparr>"
proof (intro conjI impI)
  show "started (Chain_Start c) = map mw_Name (mch_mws c)" by (simp add: Chain_Start_def started_concat)
  show "stopped (Chain_Stop c) = rev (map mw_Name (mch_mws c))" by (simp add: Chain_Stop_def stopped_concat rev_map)
  show "Chain_Middlewares (Chain_Add mw c) = Chain_Middlewares c @ [mw]"
    by (simp add: Chain_Middlewares_def Chain_Add_def)
  show "fst (Chain_Remove n c) \<longleftrightarrow> n \<in> mw_Name ` set (mch_mws c)"
    using remove_first_named_None [of n "mch_mws c"] by (auto simp: Chain_Remove_def split: option.splits)
  show "Chain_Remove n (NewMiddlewareChain (a @ mw \<lparr> mw_Name := n \<rparr> # b) h) = (True, NewMiddlewareChain (a @ b) h)"
    if "n \<notin> mw_Name ` set a"
  proof -
    have "remove_first_named n (a @ mw \<lparr> mw_Name := n \<rparr> # b) = Some (a @ b)"
      unfolding remove_first_named_split using that by (intro exI [of _ a] exI [of _ "mw \<lparr> mw_Name := n \<rparr>"] exI [of _ b]) simp
    then show ?thesis by (simp add: Chain_Remove_def NewMiddlewareChain_def)
  qed
  show "snd (Chain_Remove n c) = c" if "n \<notin> mw_Name ` set (mch_mws c)"
    using that remove_first_named_None [of n "mch_mws c"] by (simp add: Chain_Remove_def)
  show "reset_context (MCtx_Set key v mc) = (NewMiddlewareContext j '''' 0) \<lparr> mx_job := None \<rparr>"
    by (rule reset_context_fresh)
qed

theorem chain_lifecycle_witness:
  "Chain_Remove ''a'' (NewMiddlewareChain [passing_mw ''a'', rejecting_mw ''b''] True)
     = (True, NewMiddlewareChain [rejecting_mw ''b''] True)"
  using chain_lifecycle [of chain_example "passing_mw ''a''" "''a''" "[]" "[rejecting_mw ''b'']" True]
  by (simp add: passing_mw_def)

end
