(* ===== verification/Job_Exec.thy ===== *)
theory Job_Exec
  imports Middleware_Chain
begin

text \<open>
  How a worker disposes of one job (\<open>engine/pkg/actor/mailbox/worker.go\<close>): \<open>safeExecInternal\<close> runs
  it, \<open>discardExec\<close> gives it up, \<open>safeNotifyJobDiscarded\<close> tells the application. The invoker is code
  of the application, a record of functions that may return errors or panic. The contexts that the
  middleware chain handed out live in a store; putting one back into its pool removes it, so that a
  use after the return would show as \<open>EvStaleCtx\<close>. Everything observable is appended to a trace.
\<close>

section \<open>Definitions\<close>

record invoker =
  iv_ExecuteJob :: "mailbox_job \<Rightarrow> string + mailbox_error option"
  iv_EscalateFailure :: "string \<Rightarrow> mailbox_job \<Rightarrow> string option"
  iv_OnJobDiscarded :: "mailbox_job \<Rightarrow> mailbox_error \<Rightarrow> string option"
  iv_serviceName :: string

datatype job_event =
    EvExecute nat
  | EvEscalate nat
  | EvDiscarded nat mailbox_error
  | EvMw mw_event
  | EvRelease nat
  | EvWatch nat
  | EvUnwatch nat
  | EvStaleCtx nat

record exec_world =
  ew_ctxs :: "(nat, middleware_context) gomap"
  ew_trace :: "job_event list"
  ew_drainDiscardTotal :: int
  ew_rwReadDurationSum :: int
  ew_rwReadCount :: int

record worker_env =
  we_invoker :: invoker
  we_middlewareChain :: middleware_chain
  we_maxJobExecTime :: int
  we_statsEnabled :: bool

definition emit :: "job_event list \<Rightarrow> exec_world \<Rightarrow> exec_world" where
  "emit evs w = w \<lparr> ew_trace := ew_trace w @ evs \<rparr>"

text \<open>\<open>if mctx != nil { chain.ExecuteOnComplete(mctx, ...) }\<close> and its framework twin, on the store.\<close>

definition complete_mctx :: "(middleware_context option \<Rightarrow> mw_event list) \<Rightarrow> nat option \<Rightarrow> exec_world \<Rightarrow> exec_world" where
  "complete_mctx run mctx w =
     (case mctx of
        None \<Rightarrow> w
      | Some a \<Rightarrow>
          (case gm_get (ew_ctxs w) a of
             None \<Rightarrow> emit [EvStaleCtx a] w
           | Some mc \<Rightarrow> emit (map EvMw (run (Some mc))) (w \<lparr> ew_ctxs := gm_del (ew_ctxs w) a \<rparr>)))"

text \<open>A panic of \<open>OnJobDiscarded\<close> is recovered: nothing but the call remains.\<close>

definition safeNotifyJobDiscarded :: "mailbox_job \<Rightarrow> mailbox_error \<Rightarrow> exec_world \<Rightarrow> exec_world" where
  "safeNotifyJobDiscarded job reason w = emit [EvDiscarded (jb_id job) reason] w"

definition discardExec :: "worker_env \<Rightarrow> mailbox_job \<Rightarrow> bool \<Rightarrow> exec_world \<Rightarrow> exec_world" where
  "discardExec env job rwUnsafe w =
     (let w1 = w \<lparr> ew_drainDiscardTotal := ew_drainDiscardTotal w + 1 \<rparr>;
          w2 = (if rwUnsafe then w1 else safeNotifyJobDiscarded job ErrMailboxNotRunning w1);
          w3 = complete_mctx
                 (\<lambda>mc. if \<not> rwUnsafe then ExecuteOnComplete (we_middlewareChain env) mc (Some ErrMailboxNotRunning) None
                       else ExecuteFrameworkCleanup (we_middlewareChain env) mc (Some ErrMailboxNotRunning) None)
                 (jb_mctx job) w2
      in emit [EvRelease (jb_id job)] w3)"

text \<open>The watchdog is armed when \<open>maxJobExecTime > 0\<close> and disarmed by a deferred call.\<close>

definition watchdog :: "worker_env \<Rightarrow> job_event \<Rightarrow> job_event list" where
  "watchdog env ev = (if we_maxJobExecTime env > 0 then [ev] else [])"

definition safeExecInternal :: "worker_env \<Rightarrow> int \<Rightarrow> mailbox_job \<Rightarrow> bool \<Rightarrow> exec_world \<Rightarrow> exec_world" where
  "safeExecInternal env elapsed job skipShared w =
     (let (execErr, panicVal, w1) =
        (case (jb_cancelable job, jb_ctxErr job) of
           (True, Some e) \<Rightarrow> (Some (ErrOther e), None, safeNotifyJobDiscarded job (ErrOther e) w)
         | _ \<Rightarrow>
             (let wa = emit (watchdog env (EvWatch (jb_id job)) @ [EvExecute (jb_id job)]) w
              in case iv_ExecuteJob (we_invoker env) job of
                   Inr err \<Rightarrow>
                     (err, None,
                      emit (watchdog env (EvUnwatch (jb_id job)))
                        (if skipShared then wa \<lparr> ew_rwReadDurationSum := ew_rwReadDurationSum wa + elapsed,
                                                 ew_rwReadCount := ew_rwReadCount wa + 1 \<rparr> else wa))
                 | Inl p \<Rightarrow>
                     (None, Some p, emit (watchdog env (EvUnwatch (jb_id job)) @ [EvEscalate (jb_id job)]) wa)))
      in emit [EvRelease (jb_id job)]
           (complete_mctx (\<lambda>mc. ExecuteOnComplete (we_middlewareChain env) mc execErr panicVal) (jb_mctx job) w1))"

definition safeExec :: "worker_env \<Rightarrow> int \<Rightarrow> mailbox_job \<Rightarrow> exec_world \<Rightarrow> exec_world" where
  "safeExec env elapsed job w = safeExecInternal env elapsed job False w"

definition safeExecSkipProfiler :: "worker_env \<Rightarrow> int \<Rightarrow> mailbox_job \<Rightarrow> exec_world \<Rightarrow> exec_world" where
  "safeExecSkipProfiler env elapsed job w = safeExecInternal env elapsed job True w"

text \<open>The back pressure branch of \<open>dispatchRead\<close>: the read channel is full.\<close>

definition dispatchRead_full :: "worker_env \<Rightarrow> mailbox_job \<Rightarrow> exec_world \<Rightarrow> exec_world" where
  "dispatchRead_full env job w =
     (let w1 = w \<lparr> ew_drainDiscardTotal := ew_drainDiscardTotal w + 1 \<rparr>;
          w2 = safeNotifyJobDiscarded job ErrMailboxWorkerIsFull w1;
          w3 = complete_mctx (\<lambda>mc. ExecuteOnComplete (we_middlewareChain env) mc (Some ErrMailboxWorkerIsFull) None)
                 (jb_mctx job) w2
      in emit [EvRelease (jb_id job)] w3)"

subsection \<open>Reading a trace\<close>

fun mw_events :: "job_event list \<Rightarrow> mw_event list" where
  "mw_events [] = []"
| "mw_events (EvMw e # tr) = e # mw_events tr"
| "mw_events (_ # tr) = mw_events tr"

fun releases :: "job_event list \<Rightarrow> nat list" where
  "releases [] = []"
| "releases (EvRelease i # tr) = i # releases tr"
| "releases (_ # tr) = releases tr"

fun executions :: "job_event list \<Rightarrow> nat list" where
  "executions [] = []"
| "executions (EvExecute i # tr) = i # executions tr"
| "executions (_ # tr) = executions tr"

fun discards :: "job_event list \<Rightarrow> (nat \<times> mailbox_error) list" where
  "discards [] = []"
| "discards (EvDiscarded i e # tr) = (i, e) # discards tr"
| "discards (_ # tr) = discards tr"

fun stale :: "job_event list \<Rightarrow> nat list" where
  "stale [] = []"
| "stale (EvStaleCtx a # tr) = a # stale tr"
| "stale (_ # tr) = stale tr"

text \<open>
  The contract of every path that disposes of a job: with \<open>tr\<close> what it did and \<open>done\<close> the
  middlewares whose call-back is due, the job is released once and last, its context is given back
  once and not used afterwards, and the contexts of other jobs are untouched.
\<close>

definition disposed :: "mailbox_job \<Rightarrow> exec_world \<Rightarrow> job_event list \<Rightarrow> exec_world \<Rightarrow> bool" where
  "disposed job w tr w' \<longleftrightarrow>
     ew_trace w' = ew_trace w @ tr
   \<and> tr \<noteq> [] \<and> last tr = EvRelease (jb_id job) \<and> releases tr = [jb_id job]
   \<and> (\<forall>a. jb_mctx job = Some a \<and> gm_get (ew_ctxs w) a \<noteq> None \<longrightarrow>
        gm_get (ew_ctxs w') a = None \<and> stale tr = [] \<and> count_list (mw_events tr) CtxPut = 1)
   \<and> (\<forall>b. jb_mctx job \<noteq> Some b \<longrightarrow> gm_get (ew_ctxs w') b = gm_get (ew_ctxs w) b)
   \<and> (jb_mctx job = None \<longrightarrow> mw_events tr = [] \<and> stale tr = [])"

text \<open>What giving back the context adds to the trace.\<close>

definition completion :: "(middleware_context option \<Rightarrow> mw_event list) \<Rightarrow> mailbox_job \<Rightarrow> exec_world \<Rightarrow> job_event list" where
  "completion run job w =
     (case jb_mctx job of
        None \<Rightarrow> []
      | Some a \<Rightarrow> (case gm_get (ew_ctxs w) a of None \<Rightarrow> [EvStaleCtx a] | Some mc \<Rightarrow> map EvMw (run (Some mc))))"

subsection \<open>A job whose business panics, between two middlewares\<close>

definition exec_env_example :: worker_env where
  "exec_env_example = \<lparr> we_invoker = \<lparr> iv_ExecuteJob = \<lambda>_. Inl ''boom'', iv_EscalateFailure = \<lambda>_ _. None,
       iv_OnJobDiscarded = \<lambda>_ _. None, iv_serviceName = ''svc'' \<rparr>,
     we_middlewareChain = chain_example, we_maxJobExecTime = 30, we_statsEnabled = False \<rparr>"

definition exec_job_example :: mailbox_job where
  "exec_job_example = job_example \<lparr> jb_mctx := Some 3 \<rparr>"

definition exec_world_example :: exec_world where
  "exec_world_example = \<lparr> ew_ctxs = [(3, \<lparr> mx_job = None, mx_serviceName = ''svc'', mx_startTime = 0, mx_executed = 2,
       mx_middlewareSnapshot = Some (mch_mws chain_example), mx_data = [] \<rparr>)],
     ew_trace = [], ew_drainDiscardTotal = 0, ew_rwReadDurationSum = 0, ew_rwReadCount = 0 \<rparr>"

section \<open>Facts\<close>

lemma mw_events_append [simp]: "mw_events (a @ b) = mw_events a @ mw_events b"
  by (induction a rule: mw_events.induct) simp_all

lemma releases_append [simp]: "releases (a @ b) = releases a @ releases b"
  by (induction a rule: releases.induct) simp_all

lemma executions_append [simp]: "executions (a @ b) = executions a @ executions b"
  by (induction a rule: executions.induct) simp_all

lemma discards_append [simp]: "discards (a @ b) = discards a @ discards b"
  by (induction a rule: discards.induct) simp_all

lemma stale_append [simp]: "stale (a @ b) = stale a @ stale b"
  by (induction a rule: stale.induct) simp_all

lemma map_EvMw_read [simp]:
  "mw_events (map EvMw tr) = tr" "releases (map EvMw tr) = []" "executions (map EvMw tr) = []"
  "discards (map EvMw tr) = []" "stale (map EvMw tr) = []"
  by (induction tr) simp_all

lemma emit_simps [simp]:
  "ew_trace (emit evs w) = ew_trace w @ evs" "ew_ctxs (emit evs w) = ew_ctxs w"
  by (simp_all add: emit_def)

lemma watchdog_read [simp]:
  "mw_events (watchdog env (EvWatch i)) = []" "mw_events (watchdog env (EvUnwatch i)) = []"
  "releases (watchdog env (EvWatch i)) = []" "releases (watchdog env (EvUnwatch i)) = []"
  "executions (watchdog env (EvWatch i)) = []" "executions (watchdog env (EvUnwatch i)) = []"
  "discards (watchdog env (EvWatch i)) = []" "discards (watchdog env (EvUnwatch i)) = []"
  "stale (watchdog env (EvWatch i)) = []" "stale (watchdog env (EvUnwatch i)) = []"
  by (simp_all add: watchdog_def)

lemma ExecuteOnComplete_puts: "count_list (ExecuteOnComplete c (Some mc) e p) CtxPut = 1"
  by (simp add: ExecuteOnComplete_def each_complete_trace)

lemma ExecuteFrameworkCleanup_puts: "count_list (ExecuteFrameworkCleanup c (Some mc) e p) CtxPut = 1"
  by (simp add: ExecuteFrameworkCleanup_def each_cleanup_trace)

lemma complete_mctx_trace: "ew_trace (complete_mctx run (jb_mctx job) w) = ew_trace w @ completion run job w"
  by (simp add: complete_mctx_def completion_def split: option.splits)

lemma complete_mctx_ctxs:
  "gm_get (ew_ctxs (complete_mctx run m w)) b = (if m = Some b then None else gm_get (ew_ctxs w) b)"
  by (auto simp: complete_mctx_def gm_get_del split: option.splits)

lemma completion_read [simp]:
  "releases (completion run job w) = []" "executions (completion run job w) = []" "discards (completion run job w) = []"
  by (simp_all add: completion_def split: option.splits)

lemma completion_same_store: "ew_ctxs w = ew_ctxs w' \<Longrightarrow> completion run job w = completion run job w'"
  unfolding completion_def by (cases "jb_mctx job") auto

lemma disposed_intro:
  assumes w1: "ew_ctxs w1 = ew_ctxs w" "ew_trace w1 = ew_trace w @ pre"
    and pre: "releases pre = []" "mw_events pre = []" "stale pre = []"
    and run: "\<And>mc. count_list (run (Some mc)) CtxPut = 1"
  shows "disposed job w (pre @ completion run job w @ [EvRelease (jb_id job)])
           (emit [EvRelease (jb_id job)] (complete_mctx run (jb_mctx job) w1))"
  unfolding disposed_def
proof (intro conjI allI impI)
  show "ew_trace (emit [EvRelease (jb_id job)] (complete_mctx run (jb_mctx job) w1))
      = ew_trace w @ (pre @ completion run job w @ [EvRelease (jb_id job)])"
    using w1 by (simp add: complete_mctx_trace completion_same_store [of w1 w])
qed (use w1 pre run in \<open>auto simp: complete_mctx_ctxs completion_def split: option.splits\<close>)

lemma safeNotifyJobDiscarded_simps [simp]:
  "ew_ctxs (safeNotifyJobDiscarded job e w) = ew_ctxs w"
  "ew_trace (safeNotifyJobDiscarded job e w) = ew_trace w @ [EvDiscarded (jb_id job) e]"
  by (simp_all add: safeNotifyJobDiscarded_def)

lemma completion_completed:
  assumes "jb_mctx job = Some a" "gm_get (ew_ctxs w) a = Some mc"
  shows "mw_events (completion run job w) = run (Some mc)"
  using assms by (simp add: completion_def)

lemma safeExecInternal_disposes:
  fixes env job w
  defines "cancelled \<equiv> jb_cancelable job \<and> jb_ctxErr job \<noteq> None"
    and "out \<equiv> iv_ExecuteJob (we_invoker env) job"
  obtains pre err p where
    "disposed job w (pre @ completion (\<lambda>mc. ExecuteOnComplete (we_middlewareChain env) mc err p) job w @ [EvRelease (jb_id job)])
       (safeExecInternal env elapsed job sk w)"
    "if cancelled then pre = [EvDiscarded (jb_id job) (ErrOther (the (jb_ctxErr job)))] \<and> p = None
     else executions pre = [jb_id job] \<and> discards pre = [] \<and> mw_events pre = [] \<and> (p \<noteq> None \<longleftrightarrow> isl out)
        \<and> (EvEscalate (jb_id job) \<in> set pre \<longleftrightarrow> isl out)
        \<and> count_list pre (EvWatch (jb_id job)) = count_list pre (EvUnwatch (jb_id job))"
proof (cases cancelled)
  case True
  then obtain e where e: "jb_cancelable job" "jb_ctxErr job = Some e" by (auto simp: cancelled_def)
  show thesis
  proof (rule that [of "[EvDiscarded (jb_id job) (ErrOther e)]" "Some (ErrOther e)" None])
    have "safeExecInternal env elapsed job sk w = emit [EvRelease (jb_id job)]
        (complete_mctx (\<lambda>mc. ExecuteOnComplete (we_middlewareChain env) mc (Some (ErrOther e)) None) (jb_mctx job)
          (safeNotifyJobDiscarded job (ErrOther e) w))"
      using e by (simp add: safeExecInternal_def Let_def)
    then show "disposed job w ([EvDiscarded (jb_id job) (ErrOther e)] @
        completion (\<lambda>mc. ExecuteOnComplete (we_middlewareChain env) mc (Some (ErrOther e)) None) job w @ [EvRelease (jb_id job)])
       (safeExecInternal env elapsed job sk w)"
      by (simp only:) (rule disposed_intro, auto simp: ExecuteOnComplete_puts)
  qed (use True e in simp)
next
  case False
  define wa where "wa = emit (watchdog env (EvWatch (jb_id job)) @ [EvExecute (jb_id job)]) w"
  define wb where "wb = emit (watchdog env (EvUnwatch (jb_id job)))
    (if sk then wa \<lparr> ew_rwReadDurationSum := ew_rwReadDurationSum wa + elapsed, ew_rwReadCount := ew_rwReadCount wa + 1 \<rparr> else wa)"
  have nc: "safeExecInternal env elapsed job sk w =
     (case out of
        Inr err \<Rightarrow> emit [EvRelease (jb_id job)] (complete_mctx (\<lambda>mc. ExecuteOnComplete (we_middlewareChain env) mc err None) (jb_mctx job) wb)
      | Inl p \<Rightarrow> emit [EvRelease (jb_id job)] (complete_mctx (\<lambda>mc. ExecuteOnComplete (we_middlewareChain env) mc None (Some p)) (jb_mctx job)
                  (emit (watchdog env (EvUnwatch (jb_id job)) @ [EvEscalate (jb_id job)]) wa)))"
    using False unfolding safeExecInternal_def wa_def [symmetric] wb_def out_def cancelled_def
    by (auto simp: Let_def wa_def [symmetric] split: bool.splits option.splits sum.splits)
  have w: "count_list (watchdog env (EvWatch i)) (EvUnwatch i) = 0" "count_list (watchdog env (EvUnwatch i)) (EvWatch i) = 0"
    "count_list (watchdog env (EvWatch i)) (EvWatch i) = count_list (watchdog env (EvUnwatch i)) (EvUnwatch i)"
    "EvEscalate i \<notin> set (watchdog env (EvWatch i))" "EvEscalate i \<notin> set (watchdog env (EvUnwatch i))" for i
    by (simp_all add: watchdog_def)
  show thesis
  proof (cases out)
    case (Inl p)
    show thesis
    proof (rule that [of "watchdog env (EvWatch (jb_id job)) @ [EvExecute (jb_id job)]
              @ watchdog env (EvUnwatch (jb_id job)) @ [EvEscalate (jb_id job)]" None "Some p"])
      show "disposed job w ((watchdog env (EvWatch (jb_id job)) @ [EvExecute (jb_id job)]
              @ watchdog env (EvUnwatch (jb_id job)) @ [EvEscalate (jb_id job)])
            @ completion (\<lambda>mc. ExecuteOnComplete (we_middlewareChain env) mc None (Some p)) job w @ [EvRelease (jb_id job)])
          (safeExecInternal env elapsed job sk w)"
        unfolding nc Inl sum.case by (rule disposed_intro) (auto simp: ExecuteOnComplete_puts wa_def)
    qed (use False Inl w in simp)
  next
    case (Inr err)
    show thesis
    proof (rule that [of "watchdog env (EvWatch (jb_id job)) @ [EvExecute (jb_id job)]
              @ watchdog env (EvUnwatch (jb_id job))" err None])
      show "disposed job w ((watchdog env (EvWatch (jb_id job)) @ [EvExecute (jb_id job)] @ watchdog env (EvUnwatch (jb_id job)))
            @ completion (\<lambda>mc. ExecuteOnComplete (we_middlewareChain env) mc err None) job w @ [EvRelease (jb_id job)])
          (safeExecInternal env elapsed job sk w)"
        unfolding nc Inr sum.case by (rule disposed_intro) (auto simp: ExecuteOnComplete_puts wa_def wb_def)
    qed (use False Inr w in simp)
  qed
qed

section \<open>Properties\<close>

text \<open>
  C17. Running a job, in the serial or in the read path, disposes of it: the application executes it
  once, or, when it is cancelable and its context is done, is told of the discard once instead; the
  middlewares that received the job are completed in reverse order, after the business ran; the
  failure is escalated exactly when the business panicked; every watchdog that was armed is
  disarmed; the context goes back to its pool once, and the last event is the one release of the job.
\<close>

theorem safeExec_disposes:
  assumes "jb_mctx job = Some a" "gm_get (ew_ctxs w) a = Some mc"
  shows "\<exists>pre post. disposed job w (pre @ post) (safeExecInternal env elapsed job sk w)
     \<and> mw_events pre = [] \<and> executions post = [] \<and> discards post = []
     \<and> completed (mw_events post) = map mw_Name (completed_middlewares (we_middlewareChain env) mc)
     \<and> (if jb_cancelable job \<and> jb_ctxErr job \<noteq> None
        then executions pre = [] \<and> discards pre = [(jb_id job, ErrOther (the (jb_ctxErr job)))]
        else executions pre = [jb_id job] \<and> discards pre = []
           \<and> (EvEscalate (jb_id job) \<in> set pre \<longleftrightarrow> isl (iv_ExecuteJob (we_invoker env) job)))
     \<and> count_list pre (EvWatch (jb_id job)) = count_list pre (EvUnwatch (jb_id job))"
proof -
  obtain pre err p where d: "disposed job w (pre @ completion (\<lambda>mc. ExecuteOnComplete (we_middlewareChain env) mc err p) job w
        @ [EvRelease (jb_id job)]) (safeExecInternal env elapsed job sk w)"
    and pre: "if jb_cancelable job \<and> jb_ctxErr job \<noteq> None
      then pre = [EvDiscarded (jb_id job) (ErrOther (the (jb_ctxErr job)))] \<and> p = None
      else executions pre = [jb_id job] \<and> discards pre = [] \<and> mw_events pre = [] \<and> (p \<noteq> None \<longleftrightarrow> isl (iv_ExecuteJob (we_invoker env) job))
        \<and> (EvEscalate (jb_id job) \<in> set pre \<longleftrightarrow> isl (iv_ExecuteJob (we_invoker env) job))
        \<and> count_list pre (EvWatch (jb_id job)) = count_list pre (EvUnwatch (jb_id job))"
    by (rule safeExecInternal_disposes)
  have "completed (mw_events (completion (\<lambda>mc. ExecuteOnComplete (we_middlewareChain env) mc err p) job w))
      = map mw_Name (completed_middlewares (we_middlewareChain env) mc)"
    using assms by (simp add: completion_completed ExecuteOnComplete_def each_complete_trace)
  then show ?thesis using d pre
    by (intro exI [of _ pre]
        exI [of _ "completion (\<lambda>mc. ExecuteOnComplete (we_middlewareChain env) mc err p) job w @ [EvRelease (jb_id job)]"])
      (auto split: if_splits)
qed

theorem safeExec_disposes_witness:
  "\<exists>pre post. disposed exec_job_example exec_world_example (pre @ post)
        (safeExecInternal exec_env_example 5 exec_job_example False exec_world_example)
     \<and> mw_events pre = [] \<and> completed (mw_events post) = [''b'', ''a''] \<and> executions pre = [1]
     \<and> EvEscalate 1 \<in> set pre"
proof -
  obtain mc where mc: "gm_get (ew_ctxs exec_world_example) 3 = Some mc"
    "map mw_Name (completed_middlewares (we_middlewareChain exec_env_example) mc) = [''b'', ''a'']"
    by (simp add: exec_world_example_def completed_middlewares_def exec_env_example_def chain_example_def
        NewMiddlewareChain_def passing_mw_def rejecting_mw_def numeral_2_eq_2)
  have j: "jb_mctx exec_job_example = Some 3" "jb_ctxErr exec_job_example = None" "jb_id exec_job_example = 1"
    "isl (iv_ExecuteJob (we_invoker exec_env_example) exec_job_example)"
    by (simp_all add: exec_job_example_def job_example_def exec_env_example_def)
  show ?thesis using safeExec_disposes [OF j(1) mc(1), of exec_env_example 5 False] j mc(2) by auto
qed

text \<open>
  Giving up a job, at the end of a worker or because the read channel is full, never executes
  it and disposes of it in the same way. The application is told once, except in the unsafe drain,
  in which neither the application nor the ordinary call-backs of the middlewares run, only the
  framework's cleanup. Each discard is counted.
\<close>

theorem discards_dispose:
  "(\<exists>tr. disposed job w tr (discardExec env job u w) \<and> executions tr = []
     \<and> discards tr = (if u then [] else [(jb_id job, ErrMailboxNotRunning)])
     \<and> (u \<longrightarrow> completed (mw_events tr) = [])
     \<and> ew_drainDiscardTotal (discardExec env job u w) = ew_drainDiscardTotal w + 1)
   \<and> (\<exists>tr. disposed job w tr (dispatchRead_full env job w) \<and> executions tr = []
     \<and> discards tr = [(jb_id job, ErrMailboxWorkerIsFull)]
     \<and> ew_drainDiscardTotal (dispatchRead_full env job w) = ew_drainDiscardTotal w + 1)"
proof (rule conjI)
  have total: "ew_drainDiscardTotal (complete_mctx run m w) = ew_drainDiscardTotal w" for run m w
    by (simp add: complete_mctx_def emit_def split: option.splits)
  define run where "run = (\<lambda>mc. if \<not> u then ExecuteOnComplete (we_middlewareChain env) mc (Some ErrMailboxNotRunning) None
                       else ExecuteFrameworkCleanup (we_middlewareChain env) mc (Some ErrMailboxNotRunning) None)"
  define w1 where "w1 = (if u then w \<lparr> ew_drainDiscardTotal := ew_drainDiscardTotal w + 1 \<rparr>
     else safeNotifyJobDiscarded job ErrMailboxNotRunning (w \<lparr> ew_drainDiscardTotal := ew_drainDiscardTotal w + 1 \<rparr>))"
  define pre where "pre = (if u then [] else [EvDiscarded (jb_id job) ErrMailboxNotRunning])"
  have e: "discardExec env job u w = emit [EvRelease (jb_id job)] (complete_mctx run (jb_mctx job) w1)"
    by (simp add: discardExec_def run_def w1_def Let_def)
  have d: "disposed job w (pre @ completion run job w @ [EvRelease (jb_id job)]) (discardExec env job u w)"
    unfolding e by (rule disposed_intro)
      (auto simp: w1_def pre_def run_def ExecuteOnComplete_puts ExecuteFrameworkCleanup_puts)
  have c: "u \<Longrightarrow> completed (mw_events (completion run job w)) = []"
    by (auto simp: completion_def run_def ExecuteFrameworkCleanup_def each_cleanup_trace split: option.splits)
  show "\<exists>tr. disposed job w tr (discardExec env job u w) \<and> executions tr = []
     \<and> discards tr = (if u then [] else [(jb_id job, ErrMailboxNotRunning)])
     \<and> (u \<longrightarrow> completed (mw_events tr) = [])
     \<and> ew_drainDiscardTotal (discardExec env job u w) = ew_drainDiscardTotal w + 1"
    using d c by (intro exI [of _ "pre @ completion run job w @ [EvRelease (jb_id job)]"])
      (auto simp: pre_def e emit_def w1_def safeNotifyJobDiscarded_def total)
  define run' where "run' = (\<lambda>mc. ExecuteOnComplete (we_middlewareChain env) mc (Some ErrMailboxWorkerIsFull) None)"
  define w2 where "w2 = safeNotifyJobDiscarded job ErrMailboxWorkerIsFull (w \<lparr> ew_drainDiscardTotal := ew_drainDiscardTotal w + 1 \<rparr>)"
  have e': "dispatchRead_full env job w = emit [EvRelease (jb_id job)] (complete_mctx run' (jb_mctx job) w2)"
    by (simp add: dispatchRead_full_def run'_def w2_def Let_def)
  have "disposed job w ([EvDiscarded (jb_id job) ErrMailboxWorkerIsFull] @ completion run' job w @ [EvRelease (jb_id job)])
      (dispatchRead_full env job w)"
    unfolding e' by (rule disposed_intro) (auto simp: w2_def run'_def ExecuteOnComplete_puts)
  then show "\<exists>tr. disposed job w tr (dispatchRead_full env job w) \<and> executions tr = []
     \<and> discards tr = [(jb_id job, ErrMailboxWorkerIsFull)]
     \<and> ew_drainDiscardTotal (dispatchRead_full env job w) = ew_drainDiscardTotal w + 1"
    by (intro exI [of _ "[EvDiscarded (jb_id job) ErrMailboxWorkerIsFull] @ completion run' job w @ [EvRelease (jb_id job)]"])
      (auto simp: e' emit_def w2_def safeNotifyJobDiscarded_def total)
qed

theorem discards_dispose_witness:
  "\<exists>tr. disposed exec_job_example exec_world_example tr (discardExec exec_env_example exec_job_example True exec_world_example)
     \<and> executions tr = [] \<and> discards tr = [] \<and> completed (mw_events tr) = []"
  using discards_dispose [of exec_job_example exec_world_example exec_env_example True] by auto

end
