(* ===== verification/Worker.thy ===== *)
theory Worker
  imports Queue_Manager Job_Exec
begin

text \<open>
  A worker of the mailbox (\<open>engine/pkg/actor/mailbox/worker.go\<close>) and the controller of the read/write
  mode (\<open>rw_controller.go\<close>): their state and the operations that run to the end on their own. The
  goroutines of a worker and their interleavings are the theory \<open>Worker_RW\<close>.
\<close>

section \<open>Definitions\<close>

datatype worker_state = WorkerStateRunning | WorkerStateClosing | WorkerStateClosed

datatype drain_policy = DrainExecute | DrainDiscard

text \<open>
  \<open>wk_readCh\<close> is the content of the read channel, \<open>None\<close> for a nil channel; \<open>wk_readChClosed\<close> is
  whether it was closed. The counters of reads only grow by one per read job and are natural numbers.
\<close>

record worker =
  wk_workerId :: int
  wk_state :: worker_state
  wk_queueManager :: "queue_manager option"
  wk_drainPolicy :: drain_policy
  wk_count :: int
  wk_wakes :: nat
  wk_pendingJob :: "mailbox_job option"
  wk_readCh :: "mailbox_job list option"
  wk_readCap :: nat
  wk_readChClosed :: bool
  wk_readsDispatched :: nat
  wk_readsLaunched :: nat
  wk_writeRequested :: nat
  wk_inflightReadCnt :: nat
  wk_stopDeadlineNS :: int

definition read_chan_cap :: "mailbox_conf \<Rightarrow> int" where
  "read_chan_cap conf =
     (let capN = mc_ReadDispatchChanCap conf;
          capN = (if capN \<le> 0 then mc_MaxConcurrentReads conf else capN)
      in if capN < 256 then 256 else capN)"

definition newWorker :: "int \<Rightarrow> mailbox_job \<Rightarrow> (nat list \<Rightarrow> nat option) \<Rightarrow> int \<Rightarrow> mailbox_conf \<Rightarrow> normalized_queue_spec
    \<Rightarrow> drain_policy \<Rightarrow> go_panic + worker" where
  "newWorker ncpu zero pick workerId conf spec drainPolicy =
     and_then (createQueueManager ncpu zero pick spec) (\<lambda>qm.
       Inr \<lparr> wk_workerId = workerId, wk_state = WorkerStateRunning, wk_queueManager = Some qm, wk_drainPolicy = drainPolicy,
         wk_count = 0, wk_wakes = 0, wk_pendingJob = None,
         wk_readCh = (if mc_EnableRWMode conf then Some [] else None),
         wk_readCap = (if mc_EnableRWMode conf then nat (read_chan_cap conf) else 0),
         wk_readChClosed = False, wk_readsDispatched = 0, wk_readsLaunched = 0, wk_writeRequested = 0,
         wk_inflightReadCnt = 0, wk_stopDeadlineNS = 0 \<rparr>)"

text \<open>The warning of an unregistered priority is logged once, before the admission lock is taken.\<close>

fun warn_fallback :: "mailbox_job \<Rightarrow> queue_manager \<Rightarrow> queue_manager" where
  "warn_fallback job (QMPriority m) =
     QMPriority (if gm_get (pm_queues m) (jb_Priority job) = None
                    \<and> gm_get (pm_queues m) (pm_fallbackPriority m) \<noteq> None
                 then m \<lparr> pm_fallbackWarned := True \<rparr> else m)"
| "warn_fallback job (QMDual m) = QMDual m"

text \<open>
  \<open>SubmitJob\<close>, with the pool's counter of refusals because of full queues. The section under
  \<open>admissionMu\<close> excludes the section of \<open>BeginStop\<close>, so the two run one after the other.
\<close>

definition SubmitJob :: "bool \<Rightarrow> mailbox_job \<Rightarrow> int \<Rightarrow> worker \<Rightarrow> mailbox_error option \<times> mailbox_job \<times> int \<times> worker" where
  "SubmitJob statsEnabled job full w =
     (if wk_state w \<noteq> WorkerStateRunning then (Some ErrMailboxWorkerClosed, job, full, w)
      else case wk_queueManager w of
             None \<Rightarrow> (Some ErrMailboxWorkerChannelNotInit, job, full, w)
           | Some qm0 \<Rightarrow>
               (case QM_Submit job (warn_fallback job qm0) of
                  (Some err, job', qm) \<Rightarrow>
                    (Some err, job', if err = ErrMailboxWorkerIsFull then full + 1 else full, w \<lparr> wk_queueManager := Some qm \<rparr>)
                | (None, job', qm) \<Rightarrow>
                    (None, job', full,
                     w \<lparr> wk_queueManager := Some qm,
                         wk_count := (if statsEnabled then wk_count w + 1 else wk_count w),
                         wk_wakes := wk_wakes w + 1 \<rparr>)))"

definition Worker_BeginStop :: "int \<Rightarrow> worker \<Rightarrow> worker" where
  "Worker_BeginStop deadline w =
     (if wk_state w = WorkerStateRunning
      then w \<lparr> wk_state := WorkerStateClosed, wk_stopDeadlineNS := deadline, wk_wakes := wk_wakes w + 1 \<rparr>
      else w)"

definition Worker_GetJobLen :: "worker \<Rightarrow> int" where
  "Worker_GetJobLen w = (case wk_queueManager w of None \<Rightarrow> 0 | Some qm \<Rightarrow> QM_GetJobLen qm)"

definition getRWMode :: "mailbox_job \<Rightarrow> rw_mode" where
  "getRWMode job = jb_rwMode job"

definition stopDeadlineExceeded :: "int \<Rightarrow> worker \<Rightarrow> bool" where
  "stopDeadlineExceeded now w \<longleftrightarrow> wk_stopDeadlineNS w > 0 \<and> now \<ge> wk_stopDeadlineNS w"

text \<open>\<open>storePending\<close>: a job that is overwritten is discarded and released, and handed back here.\<close>

definition storePending :: "mailbox_job \<Rightarrow> worker \<Rightarrow> mailbox_job list \<times> worker" where
  "storePending job w = (case wk_pendingJob w of None \<Rightarrow> [] | Some old \<Rightarrow> [old], w \<lparr> wk_pendingJob := Some job \<rparr>)"

subsection \<open>The controller of the read/write mode\<close>

text \<open>\<open>rw_muReaders\<close> and \<open>rw_muWriter\<close> are the state of the lock \<open>mu\<close>.\<close>

record rw_controller =
  rw_enabled :: bool
  rw_disabling :: bool
  rw_muReaders :: nat
  rw_muWriter :: bool
  rw_readSem :: "nat option"
  rw_readSemUsed :: nat
  rw_stopTimeout :: int
  rw_maxJobExecTime :: int
  rw_readTotal :: nat
  rw_writeTotal :: nat
  rw_unsafeDrainEvents :: nat
  rw_readPool :: "int option"

text \<open>\<open>newPool\<close> is the constructor of the goroutine pool, outside the repository.\<close>

definition newRWController :: "(int \<Rightarrow> string option) \<Rightarrow> mailbox_conf \<Rightarrow> string + rw_controller" where
  "newRWController newPool conf =
     (let rw = \<lparr> rw_enabled = mc_EnableRWMode conf, rw_disabling = False, rw_muReaders = 0, rw_muWriter = False,
            rw_readSem = (if mc_EnableRWMode conf \<and> mc_MaxConcurrentReads conf > 0
                          then Some (nat (mc_MaxConcurrentReads conf)) else None),
            rw_readSemUsed = 0,
            rw_stopTimeout = (if mc_EnableRWMode conf \<and> mc_StopTimeout conf \<le> 0 then 10000000000 else mc_StopTimeout conf),
            rw_maxJobExecTime = (if mc_MaxJobExecutionTime conf > 0 then mc_MaxJobExecutionTime conf else 0),
            rw_readTotal = 0, rw_writeTotal = 0, rw_unsafeDrainEvents = 0, rw_readPool = None \<rparr>
      in if mc_EnableRWMode conf \<and> mc_ReadPoolSize conf > 0
         then (case newPool (mc_ReadPoolSize conf) of
                 Some err \<Rightarrow> Inl err
               | None \<Rightarrow> Inr (rw \<lparr> rw_readPool := Some (mc_ReadPoolSize conf) \<rparr>))
         else Inr rw)"

definition mu_free :: "rw_controller \<Rightarrow> bool" where
  "mu_free rw \<longleftrightarrow> rw_muReaders rw = 0 \<and> \<not> rw_muWriter rw"

subsection \<open>The jobs a worker has queued\<close>

definition worker_jobs :: "worker \<Rightarrow> mailbox_job multiset" where
  "worker_jobs w = (case wk_queueManager w of None \<Rightarrow> {#} | Some qm \<Rightarrow> qm_jobs qm)"

definition worker_inv :: "worker \<Rightarrow> bool" where
  "worker_inv w \<longleftrightarrow> (\<exists>qm. wk_queueManager w = Some qm \<and> qm_inv qm)"

section \<open>Facts\<close>

lemma warn_fallback_ok [simp]: "qm_inv (warn_fallback job m) = qm_inv m" "qm_jobs (warn_fallback job m) = qm_jobs m"
  by (cases m; simp add: pm_inv_def pm_jobs_def)+

lemma SubmitJob_accepted:
  assumes "worker_inv w" "SubmitJob st job full w = (None, job', full', w')"
  shows "wk_state w = WorkerStateRunning" "worker_inv w'" "worker_jobs w' = add_mset job' (worker_jobs w)" "full' = full"
    "job' = Job_SetPriority (jb_Priority job') job"
    "\<exists>qm c k. w' = w \<lparr> wk_queueManager := qm, wk_count := c, wk_wakes := k \<rparr>"
proof -
  obtain qm where q: "wk_queueManager w = Some qm" "qm_inv qm" using assms(1) by (auto simp: worker_inv_def)
  obtain r j m where s: "QM_Submit job (warn_fallback job qm) = (r, j, m)" using prod_cases3 by blast
  have r: "r = None" "job' = j" "full' = full" and st: "wk_state w = WorkerStateRunning"
    and w': "w' = w \<lparr> wk_queueManager := Some m, wk_count := (if st then wk_count w + 1 else wk_count w), wk_wakes := wk_wakes w + 1 \<rparr>"
    using assms(2) q s by (auto simp: SubmitJob_def split: if_splits option.splits)
  have "qm_inv (warn_fallback job qm)" using q by simp
  from qm.submit_accepted [OF this, of job j m] s r
  have a: "qm_inv m" "qm_jobs m = add_mset j (qm_jobs qm)" "j = Job_SetPriority (jb_Priority j) job" by auto
  show "wk_state w = WorkerStateRunning" "full' = full" using st r by auto
  show "worker_inv w'" using a w' by (simp add: worker_inv_def)
  show "worker_jobs w' = add_mset job' (worker_jobs w)" using a w' q r by (simp add: worker_jobs_def)
  show "job' = Job_SetPriority (jb_Priority job') job" using a r by simp
  show "\<exists>qm c k. w' = w \<lparr> wk_queueManager := qm, wk_count := c, wk_wakes := k \<rparr>" using w' by blast
qed

lemma SubmitJob_refused:
  assumes "worker_inv w" "SubmitJob st job full w = (Some err, job', full', w')"
  shows "worker_inv w'" "worker_jobs w' = worker_jobs w" "job' = job"
    "full' = (if err = ErrMailboxWorkerIsFull then full + 1 else full)"
    "\<exists>qm. w' = w \<lparr> wk_queueManager := qm \<rparr>"
proof -
  obtain qm where q: "wk_queueManager w = Some qm" "qm_inv qm" using assms(1) by (auto simp: worker_inv_def)
  obtain r j m where s: "QM_Submit job (warn_fallback job qm) = (r, j, m)" using prod_cases3 by blast
  consider (closed) "wk_state w \<noteq> WorkerStateRunning" "w' = w" "job' = job" "err = ErrMailboxWorkerClosed" "full' = full"
    | (refused) "wk_state w = WorkerStateRunning" "r = Some err" "job' = j" "w' = w \<lparr> wk_queueManager := Some m \<rparr>"
        "full' = (if err = ErrMailboxWorkerIsFull then full + 1 else full)"
    using assms(2) q s by (auto simp: SubmitJob_def split: if_splits option.splits)
  then have "worker_inv w' \<and> worker_jobs w' = worker_jobs w \<and> job' = job
      \<and> full' = (if err = ErrMailboxWorkerIsFull then full + 1 else full) \<and> (\<exists>qm. w' = w \<lparr> wk_queueManager := qm \<rparr>)"
  proof cases
    case closed
    then show ?thesis using assms(1) by (auto intro: exI [of _ "wk_queueManager w"])
  next
    case refused
    have "qm_inv (warn_fallback job qm)" using q by simp
    from qm.submit_refused [OF this, of job err j m] s refused
    have "qm_inv m" "qm_jobs m = qm_jobs qm" "j = job" by auto
    then show ?thesis using refused q by (auto simp: worker_inv_def worker_jobs_def)
  qed
  then show "worker_inv w'" "worker_jobs w' = worker_jobs w" "job' = job"
    "full' = (if err = ErrMailboxWorkerIsFull then full + 1 else full)"
    "\<exists>qm. w' = w \<lparr> wk_queueManager := qm \<rparr>" by auto
qed

lemma Worker_GetJobLen_jobs: "worker_inv w \<Longrightarrow> Worker_GetJobLen w = int (size (worker_jobs w))"
  by (auto simp: worker_inv_def Worker_GetJobLen_def worker_jobs_def qm.len_jobs)

end
