(* ===== verification/Worker_RW.thy ===== *)
theory Worker_RW
  imports Worker
begin

text \<open>
  The goroutines of one worker and their interleavings: the main loop \<open>run\<close> with its drain at exit,
  the read pipeline \<open>runReadPipeline\<close>/\<open>launchRead\<close>, the spawned read goroutines, callers of
  \<open>SubmitJob\<close> and \<open>BeginStop\<close>, the runtime switch \<open>SetRWEnabled(false)\<close> of the pool, and the
  other workers, which share the lock \<open>mu\<close> and the read semaphore. Every access to shared state is a
  step of its own; a program counter per goroutine says where it is. The backoff loops are steps that
  are not enabled until the awaited condition holds. Time enters as the flag \<open>t\<close> of a step: whether
  a deadline has passed is up to the environment. Go's \<open>RWMutex\<close> also holds readers back while a
  writer blocks in \<open>Lock\<close>; here a reader may enter whenever no writer holds the lock, which allows
  more interleavings.
\<close>

section \<open>Definitions\<close>

subsection \<open>Program counters\<close>

text \<open>Inside \<open>execWrite\<close>.\<close>

datatype write_pc = WEnter | WAwait nat | WReq | WTry | WExec | WUnlock | WDec

text \<open>\<open>run\<close>: the loop, \<open>execWithRW\<close>, \<open>dispatchRead\<close>, and from \<open>DClose\<close> on the deferred drain.\<close>

datatype main_pc =
    MTop
  | MNext
  | MGot mailbox_job
  | MExecRW mailbox_job
  | MDispatch mailbox_job
  | MSend mailbox_job
  | MFull mailbox_job
  | MWrite write_pc mailbox_job
  | MPlain mailbox_job
  | DClose
  | DWaitPipe
  | DWaitReads
  | DResidual
  | DPending
  | DDrainAll
  | DRun "mailbox_job list"
  | DUnlock
  | MDone

text \<open>\<open>runReadPipeline\<close> and \<open>launchRead\<close>; \<open>POff\<close> when the worker has no read channel.\<close>

datatype pipe_pc =
    POff
  | PRecv
  | PGate mailbox_job
  | PRLock mailbox_job
  | PCheck mailbox_job
  | PDegrade mailbox_job
  | PWrite write_pc mailbox_job
  | PDone

text \<open>A read goroutine: the business, then the deferred releases.\<close>

datatype reader_pc = RExec mailbox_job | RSem | RUnlock | RCnt | RDone

text \<open>\<open>SetRWEnabled(false)\<close>.\<close>

datatype ctl_pc = CIdle | CWaitDrained | CDisable | CWaitInflight | CEnd

text \<open>
  \<open>s_accepted\<close>, \<open>s_finished\<close> and \<open>s_dispatched\<close> record the jobs admitted by \<open>SubmitJob\<close>, the
  jobs disposed of (executed or discarded, and released), and the reads given to \<open>dispatchRead\<close>.
\<close>

record wsys =
  s_w :: worker
  s_rw :: rw_controller
  s_main :: main_pc
  s_pipe :: pipe_pc
  s_readers :: "reader_pc list"
  s_ctl :: ctl_pc
  s_timedOut :: bool
  s_unsafe :: bool
  s_lockHeld :: bool
  s_envReaders :: nat
  s_envWriter :: bool
  s_envTokens :: nat
  s_full :: int
  s_accepted :: "mailbox_job list"
  s_finished :: "mailbox_job list"
  s_dispatched :: "mailbox_job list"

subsection \<open>Steps\<close>

definition set_w :: "(worker \<Rightarrow> worker) \<Rightarrow> wsys \<Rightarrow> wsys" where
  "set_w f s = s \<lparr> s_w := f (s_w s) \<rparr>"

definition set_rw :: "(rw_controller \<Rightarrow> rw_controller) \<Rightarrow> wsys \<Rightarrow> wsys" where
  "set_rw f s = s \<lparr> s_rw := f (s_rw s) \<rparr>"

definition finish :: "mailbox_job list \<Rightarrow> wsys \<Rightarrow> wsys" where
  "finish js s = s \<lparr> s_finished := s_finished s @ js \<rparr>"

definition inc_launched :: "worker \<Rightarrow> worker" where
  "inc_launched w = w \<lparr> wk_readsLaunched := wk_readsLaunched w + 1 \<rparr>"

definition store_pending :: "mailbox_job \<Rightarrow> wsys \<Rightarrow> wsys" where
  "store_pending job s = (case storePending job (s_w s) of (old, w) \<Rightarrow> finish old (s \<lparr> s_w := w \<rparr>))"

definition is_closed :: "wsys \<Rightarrow> bool" where
  "is_closed s \<longleftrightarrow> wk_state (s_w s) = WorkerStateClosed"

text \<open>
  One step of \<open>execWrite\<close>: blocked (\<open>None\<close>), or the next program counter, \<open>None\<close> for a return.
\<close>

fun write_step :: "write_pc \<Rightarrow> mailbox_job \<Rightarrow> wsys \<Rightarrow> (write_pc option \<times> wsys) option" where
  "write_step WEnter job s =
     (let target = wk_readsDispatched (s_w s)
      in if target > wk_readsLaunched (s_w s) then Some (Some (WAwait target), s) else Some (Some WReq, s))"
| "write_step (WAwait target) job s =
     (if target \<le> wk_readsLaunched (s_w s) then Some (Some WReq, s)
      else if is_closed s then Some (None, store_pending job s)
      else None)"
| "write_step WReq job s =
     Some (Some WTry, set_w (\<lambda>w. w \<lparr> wk_writeRequested := wk_writeRequested w + 1 \<rparr>)
       (set_rw (\<lambda>r. r \<lparr> rw_writeTotal := rw_writeTotal r + 1 \<rparr>) s))"
| "write_step WTry job s =
     (if mu_free (s_rw s) then Some (Some WExec, set_rw (\<lambda>r. r \<lparr> rw_muWriter := True \<rparr>) s)
      else if is_closed s
      then Some (None, store_pending job (set_w (\<lambda>w. w \<lparr> wk_writeRequested := wk_writeRequested w - 1 \<rparr>) s))
      else None)"
| "write_step WExec job s = Some (Some WUnlock, finish [job] s)"
| "write_step WUnlock job s = Some (Some WDec, set_rw (\<lambda>r. r \<lparr> rw_muWriter := False \<rparr>) s)"
| "write_step WDec job s =
     Some (None, set_w (\<lambda>w. w \<lparr> wk_writeRequested := wk_writeRequested w - 1 \<rparr>) s)"

definition has_residual :: "wsys \<Rightarrow> bool" where
  "has_residual s \<longleftrightarrow> wk_pendingJob (s_w s) \<noteq> None
     \<or> (case wk_queueManager (s_w s) of None \<Rightarrow> False | Some qm \<Rightarrow> \<not> QM_IsEmpty qm)"

text \<open>\<open>execWithRW\<close> and the two points of \<open>dispatchRead\<close>: the counter, and the attempt to send.\<close>

definition execWithRW :: "mailbox_job \<Rightarrow> wsys \<Rightarrow> wsys" where
  [simp]: "execWithRW e s =
     s \<lparr> s_main := (if getRWMode e = RWModeRead \<and> rw_enabled (s_rw s) \<and> \<not> rw_disabling (s_rw s)
                     then MDispatch e else MWrite WEnter e) \<rparr>"

definition dispatchRead_count :: "mailbox_job \<Rightarrow> wsys \<Rightarrow> wsys" where
  [simp]: "dispatchRead_count e s =
     set_w (\<lambda>w. w \<lparr> wk_readsDispatched := wk_readsDispatched w + 1 \<rparr>)
       (s \<lparr> s_main := MSend e, s_dispatched := s_dispatched s @ [e] \<rparr>)"

definition dispatchRead_send :: "mailbox_job \<Rightarrow> wsys \<Rightarrow> wsys" where
  [simp]: "dispatchRead_send e s =
     (case wk_readCh (s_w s) of
        Some ch \<Rightarrow>
          if length ch < wk_readCap (s_w s)
          then set_w (\<lambda>w. w \<lparr> wk_readCh := Some (ch @ [e]) \<rparr>) (s \<lparr> s_main := MTop \<rparr>)
          else set_w inc_launched (s \<lparr> s_main := MFull e \<rparr>)
      | None \<Rightarrow> set_w inc_launched (s \<lparr> s_main := MFull e \<rparr>))"

fun main_step :: "bool \<Rightarrow> main_pc \<Rightarrow> wsys \<Rightarrow> wsys option" where
  "main_step t MTop s = Some (s \<lparr> s_main := (if is_closed s then DClose else MNext) \<rparr>)"
| "main_step t MNext s =
     (case wk_queueManager (s_w s) of
        None \<Rightarrow> None
      | Some qm \<Rightarrow>
          (case QM_NextJob qm of
             (None, qm') \<Rightarrow> Some (set_w (\<lambda>w. w \<lparr> wk_queueManager := Some qm' \<rparr>) (s \<lparr> s_main := MTop \<rparr>))
           | (Some e, qm') \<Rightarrow> Some (set_w (\<lambda>w. w \<lparr> wk_queueManager := Some qm' \<rparr>) (s \<lparr> s_main := MGot e \<rparr>))))"
| "main_step t (MGot e) s =
     Some (s \<lparr> s_main := (if rw_enabled (s_rw s) \<or> rw_disabling (s_rw s) then MExecRW e else MPlain e) \<rparr>)"
| "main_step t (MExecRW e) s = Some (execWithRW e s)"
| "main_step t (MDispatch e) s = Some (dispatchRead_count e s)"
| "main_step t (MSend e) s = Some (dispatchRead_send e s)"
| "main_step t (MFull e) s = Some (finish [e] (s \<lparr> s_main := MTop \<rparr>))"
| "main_step t (MWrite p e) s =
     map_option (\<lambda>(p', s'). s' \<lparr> s_main := (case p' of None \<Rightarrow> MTop | Some q \<Rightarrow> MWrite q e) \<rparr>) (write_step p e s)"
| "main_step t (MPlain e) s = Some (finish [e] (s \<lparr> s_main := MTop \<rparr>))"
| "main_step t DClose s =
     (case wk_readCh (s_w s) of
        Some ch \<Rightarrow> Some (set_w (\<lambda>w. w \<lparr> wk_readChClosed := True \<rparr>) (s \<lparr> s_main := DWaitPipe \<rparr>))
      | None \<Rightarrow> Some (s \<lparr> s_main := DWaitReads \<rparr>))"
| "main_step t DWaitPipe s =
     (if s_pipe s = PDone then Some (s \<lparr> s_main := DWaitReads \<rparr>)
      else if t then Some (s \<lparr> s_main := DWaitReads, s_timedOut := True \<rparr>)
      else None)"
| "main_step t DWaitReads s =
     (if \<not> rw_enabled (s_rw s) then Some (s \<lparr> s_main := DResidual \<rparr>)
      else if wk_inflightReadCnt (s_w s) = 0
      then (if s_readers s = [] then Some (s \<lparr> s_main := DResidual \<rparr>) else None)
      else if t then Some (s \<lparr> s_main := DResidual, s_timedOut := True \<rparr>)
      else None)"
| "main_step t DResidual s =
     (if wk_queueManager (s_w s) = None then Some (s \<lparr> s_main := MDone \<rparr>)
      else if rw_enabled (s_rw s) \<and> s_timedOut s
      then Some (set_rw (\<lambda>r. if has_residual s then r \<lparr> rw_unsafeDrainEvents := rw_unsafeDrainEvents r + 1 \<rparr> else r)
             (s \<lparr> s_main := DPending, s_unsafe := has_residual s \<rparr>))
      else if rw_enabled (s_rw s) \<and> has_residual s
      then (if mu_free (s_rw s)
            then Some (set_rw (\<lambda>r. r \<lparr> rw_muWriter := True \<rparr>) (s \<lparr> s_main := DPending, s_lockHeld := True \<rparr>))
            else None)
      else Some (s \<lparr> s_main := DPending \<rparr>))"
| "main_step t DPending s =
     (case wk_pendingJob (s_w s) of
        None \<Rightarrow> Some (s \<lparr> s_main := DDrainAll \<rparr>)
      | Some e \<Rightarrow> Some (finish [e] (set_w (\<lambda>w. w \<lparr> wk_pendingJob := None \<rparr>) (s \<lparr> s_main := DDrainAll \<rparr>))))"
| "main_step t DDrainAll s =
     (case wk_queueManager (s_w s) of
        None \<Rightarrow> None
      | Some qm \<Rightarrow> map_option (\<lambda>(es, qm'). set_w (\<lambda>w. w \<lparr> wk_queueManager := Some qm' \<rparr>) (s \<lparr> s_main := DRun es \<rparr>))
                    (QM_DrainAll qm))"
| "main_step t (DRun es) s =
     (case es of
        [] \<Rightarrow> Some (s \<lparr> s_main := DUnlock \<rparr>)
      | e # rest \<Rightarrow> Some (finish [e] (s \<lparr> s_main := DRun rest \<rparr>)))"
| "main_step t DUnlock s =
     (if s_lockHeld s
      then Some (set_rw (\<lambda>r. r \<lparr> rw_muWriter := False \<rparr>) (s \<lparr> s_main := MDone, s_lockHeld := False \<rparr>))
      else Some (s \<lparr> s_main := MDone \<rparr>))"
| "main_step t MDone s = None"

text \<open>The receive of \<open>runReadPipeline\<close>, a \<open>range\<close> over the channel.\<close>

definition runReadPipeline_recv :: "wsys \<Rightarrow> wsys option" where
  [simp]: "runReadPipeline_recv s =
     (case wk_readCh (s_w s) of
        Some (e # ch) \<Rightarrow> Some (set_w (\<lambda>w. w \<lparr> wk_readCh := Some ch \<rparr>) (s \<lparr> s_pipe := PGate e \<rparr>))
      | Some [] \<Rightarrow> if wk_readChClosed (s_w s) then Some (s \<lparr> s_pipe := PDone \<rparr>) else None
      | None \<Rightarrow> None)"

fun pipe_step :: "bool \<Rightarrow> pipe_pc \<Rightarrow> wsys \<Rightarrow> wsys option" where
  "pipe_step t POff s = None"
| "pipe_step t PRecv s = runReadPipeline_recv s"
| "pipe_step t (PGate e) s =
     (if is_closed s \<and> t then Some (finish [e] (set_w inc_launched (s \<lparr> s_pipe := PRecv \<rparr>)))
      else if wk_writeRequested (s_w s) > 0 then None
      else if (case rw_readSem (s_rw s) of None \<Rightarrow> True | Some c \<Rightarrow> rw_readSemUsed (s_rw s) < c)
      then Some (set_rw (\<lambda>r. r \<lparr> rw_readSemUsed := rw_readSemUsed r + 1 \<rparr>) (s \<lparr> s_pipe := PRLock e \<rparr>))
      else None)"
| "pipe_step t (PRLock e) s =
     (if rw_muWriter (s_rw s) then None
      else Some (set_rw (\<lambda>r. r \<lparr> rw_muReaders := rw_muReaders r + 1 \<rparr>) (s \<lparr> s_pipe := PCheck e \<rparr>)))"
| "pipe_step t (PCheck e) s =
     (if \<not> rw_enabled (s_rw s)
      then Some (set_rw (\<lambda>r. r \<lparr> rw_muReaders := rw_muReaders r - 1 \<rparr>) (s \<lparr> s_pipe := PDegrade e \<rparr>))
      else Some (set_rw (\<lambda>r. r \<lparr> rw_readTotal := rw_readTotal r + 1 \<rparr>)
             (set_w (\<lambda>w. inc_launched (w \<lparr> wk_inflightReadCnt := wk_inflightReadCnt w + 1 \<rparr>))
               (s \<lparr> s_pipe := PRecv, s_readers := s_readers s @ [RExec e] \<rparr>))))"
| "pipe_step t (PDegrade e) s =
     Some (set_rw (\<lambda>r. r \<lparr> rw_readSemUsed := rw_readSemUsed r - 1 \<rparr>)
       (set_w inc_launched (s \<lparr> s_pipe := PWrite WEnter e \<rparr>)))"
| "pipe_step t (PWrite p e) s =
     map_option (\<lambda>(p', s'). s' \<lparr> s_pipe := (case p' of None \<Rightarrow> PRecv | Some q \<Rightarrow> PWrite q e) \<rparr>) (write_step p e s)"
| "pipe_step t PDone s = None"

definition reader_step :: "nat \<Rightarrow> wsys \<Rightarrow> wsys option" where
  "reader_step i s =
     (if i < length (s_readers s)
      then let advance = (\<lambda>p. s \<lparr> s_readers := (s_readers s)[i := p] \<rparr>)
           in Some (case s_readers s ! i of
                RExec e \<Rightarrow> finish [e] (advance RSem)
              | RSem \<Rightarrow> set_rw (\<lambda>r. r \<lparr> rw_readSemUsed := rw_readSemUsed r - 1 \<rparr>) (advance RUnlock)
              | RUnlock \<Rightarrow> set_rw (\<lambda>r. r \<lparr> rw_muReaders := rw_muReaders r - 1 \<rparr>) (advance RCnt)
              | RCnt \<Rightarrow> set_w (\<lambda>w. w \<lparr> wk_inflightReadCnt := wk_inflightReadCnt w - 1 \<rparr>) (advance RDone)
              | RDone \<Rightarrow> s \<lparr> s_readers := take i (s_readers s) @ drop (Suc i) (s_readers s) \<rparr>)
      else None)"

text \<open>
  The waits of \<open>SetRWEnabled(false)\<close> and the flip of the mode under the lock, on this worker; what
  it waits for on other workers only delays it.
\<close>

definition waitReadPipelinesDrained :: "bool \<Rightarrow> wsys \<Rightarrow> wsys option" where
  [simp]: "waitReadPipelinesDrained t s =
     (if wk_readsDispatched (s_w s) \<le> wk_readsLaunched (s_w s) then Some (s \<lparr> s_ctl := CDisable \<rparr>)
      else if t then Some (s \<lparr> s_ctl := CEnd \<rparr>) else None)"

definition RW_Disable :: "bool \<Rightarrow> wsys \<Rightarrow> wsys option" where
  [simp]: "RW_Disable t s =
     (if mu_free (s_rw s) then Some (set_rw (\<lambda>r. r \<lparr> rw_enabled := False \<rparr>) (s \<lparr> s_ctl := CWaitInflight \<rparr>))
      else if t then Some (s \<lparr> s_ctl := CEnd \<rparr>) else None)"

definition waitInflightReadsDone :: "bool \<Rightarrow> wsys \<Rightarrow> wsys option" where
  [simp]: "waitInflightReadsDone t s =
     (if wk_inflightReadCnt (s_w s) = 0
      then (if s_readers s = [] then Some (s \<lparr> s_ctl := CEnd \<rparr>) else None)
      else if t then Some (set_rw (\<lambda>r. r \<lparr> rw_enabled := True \<rparr>) (s \<lparr> s_ctl := CEnd \<rparr>)) else None)"

text \<open>\<open>SetRWEnabled(false)\<close> from \<open>BeginDisable\<close> to \<open>EndDisable\<close>.\<close>

fun ctl_step :: "bool \<Rightarrow> ctl_pc \<Rightarrow> wsys \<Rightarrow> wsys option" where
  "ctl_step t CIdle s =
     (if rw_enabled (s_rw s)
      then Some (set_rw (\<lambda>r. r \<lparr> rw_disabling := True \<rparr>) (s \<lparr> s_ctl := CWaitDrained \<rparr>)) else None)"
| "ctl_step t CWaitDrained s = waitReadPipelinesDrained t s"
| "ctl_step t CDisable s = RW_Disable t s"
| "ctl_step t CWaitInflight s = waitInflightReadsDone t s"
| "ctl_step t CEnd s = Some (set_rw (\<lambda>r. r \<lparr> rw_disabling := False \<rparr>) (s \<lparr> s_ctl := CIdle \<rparr>))"

datatype wact =
    ASubmit mailbox_job
  | ABeginStop int
  | AMain bool
  | APipe bool
  | AReader nat
  | ACtl bool
  | AEnvRLock
  | AEnvRUnlock
  | AEnvLock
  | AEnvUnlock
  | AEnvAcquire
  | AEnvRelease

definition submit_step :: "mailbox_job \<Rightarrow> wsys \<Rightarrow> wsys" where
  "submit_step job s =
     (case SubmitJob False job (s_full s) (s_w s) of
        (None, job', full, w) \<Rightarrow> s \<lparr> s_w := w, s_full := full, s_accepted := s_accepted s @ [job'] \<rparr>
      | (Some _, job', full, w) \<Rightarrow> s \<lparr> s_w := w, s_full := full \<rparr>)"

fun wstep :: "wact \<Rightarrow> wsys \<Rightarrow> wsys option" where
  "wstep (ASubmit job) s = Some (submit_step job s)"
| "wstep (ABeginStop deadline) s = Some (set_w (Worker_BeginStop deadline) s)"
| "wstep (AMain t) s = main_step t (s_main s) s"
| "wstep (APipe t) s = pipe_step t (s_pipe s) s"
| "wstep (AReader i) s = reader_step i s"
| "wstep (ACtl t) s = ctl_step t (s_ctl s) s"
| "wstep AEnvRLock s =
     (if rw_muWriter (s_rw s) then None
      else Some (set_rw (\<lambda>r. r \<lparr> rw_muReaders := rw_muReaders r + 1 \<rparr>) (s \<lparr> s_envReaders := s_envReaders s + 1 \<rparr>)))"
| "wstep AEnvRUnlock s =
     (if s_envReaders s = 0 then None
      else Some (set_rw (\<lambda>r. r \<lparr> rw_muReaders := rw_muReaders r - 1 \<rparr>) (s \<lparr> s_envReaders := s_envReaders s - 1 \<rparr>)))"
| "wstep AEnvLock s =
     (if mu_free (s_rw s) then Some (set_rw (\<lambda>r. r \<lparr> rw_muWriter := True \<rparr>) (s \<lparr> s_envWriter := True \<rparr>)) else None)"
| "wstep AEnvUnlock s =
     (if s_envWriter s then Some (set_rw (\<lambda>r. r \<lparr> rw_muWriter := False \<rparr>) (s \<lparr> s_envWriter := False \<rparr>)) else None)"
| "wstep AEnvAcquire s =
     (if (case rw_readSem (s_rw s) of None \<Rightarrow> True | Some c \<Rightarrow> rw_readSemUsed (s_rw s) < c)
      then Some (set_rw (\<lambda>r. r \<lparr> rw_readSemUsed := rw_readSemUsed r + 1 \<rparr>) (s \<lparr> s_envTokens := s_envTokens s + 1 \<rparr>))
      else None)"
| "wstep AEnvRelease s =
     (if s_envTokens s = 0 then None
      else Some (set_rw (\<lambda>r. r \<lparr> rw_readSemUsed := rw_readSemUsed r - 1 \<rparr>) (s \<lparr> s_envTokens := s_envTokens s - 1 \<rparr>)))"

text \<open>A run performs a list of actions, each of them enabled.\<close>

fun wrun :: "wact list \<Rightarrow> wsys \<Rightarrow> wsys option" where
  "wrun [] s = Some s"
| "wrun (a # as) s = Option.bind (wstep a s) (wrun as)"

text \<open>\<open>Start\<close>: the goroutines of a fresh worker.\<close>

definition worker_Start :: "rw_controller \<Rightarrow> worker \<Rightarrow> wsys" where
  "worker_Start rw w = \<lparr> s_w = w, s_rw = rw, s_main = MTop, s_pipe = (if wk_readCh w = None then POff else PRecv),
     s_readers = [], s_ctl = CIdle, s_timedOut = False, s_unsafe = False, s_lockHeld = False,
     s_envReaders = 0, s_envWriter = False, s_envTokens = 0, s_full = 0,
     s_accepted = [], s_finished = [], s_dispatched = [] \<rparr>"

subsection \<open>Where the jobs are\<close>

fun write_held :: "write_pc option \<Rightarrow> mailbox_job \<Rightarrow> mailbox_job multiset" where
  "write_held None e = {#}"
| "write_held (Some WUnlock) e = {#}"
| "write_held (Some WDec) e = {#}"
| "write_held (Some _) e = {#e#}"

fun main_held :: "main_pc \<Rightarrow> mailbox_job multiset" where
  "main_held (MGot e) = {#e#}"
| "main_held (MExecRW e) = {#e#}"
| "main_held (MDispatch e) = {#e#}"
| "main_held (MSend e) = {#e#}"
| "main_held (MFull e) = {#e#}"
| "main_held (MPlain e) = {#e#}"
| "main_held (MWrite p e) = write_held (Some p) e"
| "main_held (DRun es) = mset es"
| "main_held _ = {#}"

fun pipe_held :: "pipe_pc \<Rightarrow> mailbox_job multiset" where
  "pipe_held (PGate e) = {#e#}"
| "pipe_held (PRLock e) = {#e#}"
| "pipe_held (PCheck e) = {#e#}"
| "pipe_held (PDegrade e) = {#e#}"
| "pipe_held (PWrite p e) = write_held (Some p) e"
| "pipe_held _ = {#}"

fun reader_held :: "reader_pc \<Rightarrow> mailbox_job multiset" where
  "reader_held (RExec e) = {#e#}"
| "reader_held _ = {#}"

definition chan_jobs :: "worker \<Rightarrow> mailbox_job list" where
  "chan_jobs w = (case wk_readCh w of None \<Rightarrow> [] | Some ch \<Rightarrow> ch)"

definition pending_jobs :: "worker \<Rightarrow> mailbox_job multiset" where
  "pending_jobs w = (case wk_pendingJob w of None \<Rightarrow> {#} | Some e \<Rightarrow> {#e#})"

definition readers_held :: "reader_pc list \<Rightarrow> mailbox_job multiset" where
  "readers_held ps = sum_list (map reader_held ps)"

text \<open>The jobs somewhere inside the worker.\<close>

definition in_worker :: "wsys \<Rightarrow> mailbox_job multiset" where
  "in_worker s = worker_jobs (s_w s) + main_held (s_main s) + mset (chan_jobs (s_w s)) + pipe_held (s_pipe s)
     + readers_held (s_readers s) + pending_jobs (s_w s)"

subsection \<open>Who holds the lock, and what is counted\<close>

fun write_lock :: "write_pc option \<Rightarrow> nat" where
  "write_lock (Some WExec) = 1"
| "write_lock (Some WUnlock) = 1"
| "write_lock _ = 0"

fun main_lock :: "main_pc \<Rightarrow> nat" where
  "main_lock (MWrite p e) = write_lock (Some p)"
| "main_lock _ = 0"

fun pipe_lock :: "pipe_pc \<Rightarrow> nat" where
  "pipe_lock (PWrite p e) = write_lock (Some p)"
| "pipe_lock _ = 0"

fun pipe_rlock :: "pipe_pc \<Rightarrow> nat" where
  "pipe_rlock (PCheck e) = 1"
| "pipe_rlock _ = 0"

fun reader_lock :: "reader_pc \<Rightarrow> nat" where
  "reader_lock RCnt = 0"
| "reader_lock RDone = 0"
| "reader_lock _ = 1"

fun reader_cnt :: "reader_pc \<Rightarrow> nat" where
  "reader_cnt RDone = 0"
| "reader_cnt _ = 1"

fun pipe_unlaunched :: "pipe_pc \<Rightarrow> nat" where
  "pipe_unlaunched (PGate e) = 1"
| "pipe_unlaunched (PRLock e) = 1"
| "pipe_unlaunched (PCheck e) = 1"
| "pipe_unlaunched (PDegrade e) = 1"
| "pipe_unlaunched _ = 0"

fun main_sending :: "main_pc \<Rightarrow> nat" where
  "main_sending (MSend e) = 1"
| "main_sending _ = 0"

definition reader_locks :: "reader_pc list \<Rightarrow> nat" where
  "reader_locks ps = sum_list (map reader_lock ps)"

text \<open>The phases of the drain: how far \<open>run\<close> has come after its loop.\<close>

fun drain_phase :: "main_pc \<Rightarrow> nat" where
  "drain_phase DClose = 1"
| "drain_phase DWaitPipe = 2"
| "drain_phase DWaitReads = 3"
| "drain_phase DResidual = 4"
| "drain_phase DPending = 5"
| "drain_phase DDrainAll = 6"
| "drain_phase (DRun es) = 7"
| "drain_phase DUnlock = 8"
| "drain_phase MDone = 9"
| "drain_phase _ = 0"

subsection \<open>Invariants\<close>

definition conserves :: "wsys \<Rightarrow> bool" where
  "conserves s \<longleftrightarrow> worker_inv (s_w s) \<and> mset (s_accepted s) = in_worker s + mset (s_finished s)"

text \<open>The number of writers inside, and of readers, against the state of the lock.\<close>

definition lock_ok :: "bool \<Rightarrow> nat \<Rightarrow> nat \<Rightarrow> nat \<Rightarrow> bool" where
  "lock_ok w r writers readers \<longleftrightarrow> writers = of_bool w \<and> readers = r \<and> (w \<longrightarrow> r = 0)"

definition writers_in :: "bool \<Rightarrow> main_pc \<Rightarrow> pipe_pc \<Rightarrow> bool \<Rightarrow> nat" where
  "writers_in ew m p h = of_bool ew + main_lock m + pipe_lock p + of_bool h"

text \<open>The drain holds the lock only between taking and releasing it.\<close>

definition held_ok :: "bool \<Rightarrow> nat \<Rightarrow> bool" where
  "held_ok h n \<longleftrightarrow> (h \<longrightarrow> 5 \<le> n \<and> n \<le> 8)"

definition lock_inv :: "wsys \<Rightarrow> bool" where
  "lock_inv s \<longleftrightarrow>
     lock_ok (rw_muWriter (s_rw s)) (rw_muReaders (s_rw s))
       (writers_in (s_envWriter s) (s_main s) (s_pipe s) (s_lockHeld s))
       (s_envReaders s + reader_locks (s_readers s) + pipe_rlock (s_pipe s))
   \<and> held_ok (s_lockHeld s) (drain_phase (s_main s))"

definition count_ok :: "nat \<Rightarrow> nat \<Rightarrow> nat \<Rightarrow> nat \<Rightarrow> nat \<Rightarrow> bool" where
  "count_ok dispatched launched queued piped sending \<longleftrightarrow> dispatched = launched + queued + piped + sending"

fun awaited :: "main_pc \<Rightarrow> nat \<Rightarrow> nat \<Rightarrow> bool" where
  "awaited (MWrite WEnter e) d l = True"
| "awaited (MWrite (WAwait t) e) d l = (t = d)"
| "awaited (MWrite p e) d l = (d = l)"
| "awaited pc d l = True"

definition count_inv :: "wsys \<Rightarrow> bool" where
  "count_inv s \<longleftrightarrow>
     count_ok (wk_readsDispatched (s_w s)) (wk_readsLaunched (s_w s)) (length (chan_jobs (s_w s)))
       (pipe_unlaunched (s_pipe s)) (main_sending (s_main s))
   \<and> awaited (s_main s) (wk_readsDispatched (s_w s)) (wk_readsLaunched (s_w s))"

definition reads_inv :: "wsys \<Rightarrow> bool" where
  "reads_inv s \<longleftrightarrow> (\<not> rw_enabled (s_rw s) \<longrightarrow> reader_locks (s_readers s) = 0)"

text \<open>
  In phase \<open>n\<close> of the drain: the worker is closed; the read channel is closed from phase 2 on; unless
  a timeout struck, the pipeline has ended from phase 3, no read runs from phase 4, nothing is pending
  from phase 6; and from phase 7 on the queues are empty.
\<close>

definition drain_ok :: "nat \<Rightarrow> bool \<Rightarrow> bool \<Rightarrow> bool \<Rightarrow> bool \<Rightarrow> bool \<Rightarrow> bool \<Rightarrow> bool \<Rightarrow> bool" where
  "drain_ok n isClosed chClosed pipeEnded timedOut reading pending queued \<longleftrightarrow>
     (1 \<le> n \<longrightarrow> isClosed) \<and> (chClosed \<longrightarrow> 2 \<le> n)
   \<and> (\<not> timedOut \<and> 3 \<le> n \<longrightarrow> pipeEnded) \<and> (\<not> timedOut \<and> 4 \<le> n \<longrightarrow> \<not> reading)
   \<and> (\<not> timedOut \<and> 6 \<le> n \<longrightarrow> \<not> pending) \<and> (7 \<le> n \<longrightarrow> \<not> queued)"

definition pipe_ended :: "pipe_pc \<Rightarrow> bool" where
  "pipe_ended p \<longleftrightarrow> p = PDone \<or> p = POff"

definition pipe_ok :: "pipe_pc \<Rightarrow> mailbox_job list option \<Rightarrow> bool \<Rightarrow> bool" where
  "pipe_ok p ch chClosed \<longleftrightarrow> (p = POff \<longleftrightarrow> ch = None) \<and> (p = PDone \<longrightarrow> ch = Some [] \<and> chClosed)"

definition drain_inv :: "wsys \<Rightarrow> bool" where
  "drain_inv s \<longleftrightarrow>
     drain_ok (drain_phase (s_main s)) (wk_state (s_w s) = WorkerStateClosed) (wk_readChClosed (s_w s))
       (pipe_ended (s_pipe s)) (s_timedOut s) (reader_locks (s_readers s) \<noteq> 0)
       (wk_pendingJob (s_w s) \<noteq> None) (worker_jobs (s_w s) \<noteq> {#})
   \<and> pipe_ok (s_pipe s) (wk_readCh (s_w s)) (wk_readChClosed (s_w s))"

text \<open>The reads that were dispatched and are not yet finished.\<close>

fun main_read :: "main_pc \<Rightarrow> mailbox_job multiset" where
  "main_read (MSend e) = {#e#}"
| "main_read (MFull e) = {#e#}"
| "main_read _ = {#}"

definition open_reads :: "wsys \<Rightarrow> mailbox_job multiset" where
  "open_reads s = main_read (s_main s) + mset (chan_jobs (s_w s)) + pipe_held (s_pipe s) + readers_held (s_readers s)
     + pending_jobs (s_w s)"

definition order_inv :: "wsys \<Rightarrow> bool" where
  "order_inv s \<longleftrightarrow> set (s_dispatched s) \<subseteq> set (s_finished s) \<union> set_mset (open_reads s)"

definition wsys_inv :: "wsys \<Rightarrow> bool" where
  "wsys_inv s \<longleftrightarrow> conserves s \<and> lock_inv s \<and> count_inv s \<and> reads_inv s \<and> drain_inv s \<and> order_inv s"

subsection \<open>Start states\<close>

definition fresh_worker :: "worker \<Rightarrow> rw_controller \<Rightarrow> bool" where
  "fresh_worker w rw \<longleftrightarrow> worker_inv w \<and> worker_jobs w = {#} \<and> wk_state w = WorkerStateRunning \<and> wk_pendingJob w = None
     \<and> wk_readCh w = (if rw_enabled rw then Some [] else None) \<and> \<not> wk_readChClosed w
     \<and> wk_readsDispatched w = 0 \<and> wk_readsLaunched w = 0
     \<and> rw_muReaders rw = 0 \<and> \<not> rw_muWriter rw"

text \<open>The runs in which nobody switches the read/write mode off.\<close>

definition steady :: "wsys \<Rightarrow> bool" where
  "steady s \<longleftrightarrow> rw_enabled (s_rw s) \<and> (\<forall>e. s_pipe s \<noteq> PDegrade e) \<and> (\<forall>p e. s_pipe s \<noteq> PWrite p e)
     \<and> (wk_pendingJob (s_w s) \<noteq> None \<longrightarrow> is_closed s \<and> (s_main s = MTop \<or> 1 \<le> drain_phase (s_main s)))"

text \<open>A worker with empty unbounded queues and its read/write mode on, and two jobs for it.\<close>

definition rw_worker_example :: worker where
  "rw_worker_example = \<lparr> wk_workerId = 0, wk_state = WorkerStateRunning, wk_queueManager = Some (QMDual (example_dual [] [])),
     wk_drainPolicy = DrainExecute, wk_count = 0, wk_wakes = 0, wk_pendingJob = None, wk_readCh = Some [], wk_readCap = 256,
     wk_readChClosed = False, wk_readsDispatched = 0, wk_readsLaunched = 0, wk_writeRequested = 0,
     wk_inflightReadCnt = 0, wk_stopDeadlineNS = 0 \<rparr>"

definition rw_controller_example :: rw_controller where
  "rw_controller_example = \<lparr> rw_enabled = True, rw_disabling = False, rw_muReaders = 0, rw_muWriter = False,
     rw_readSem = Some 8, rw_readSemUsed = 0, rw_stopTimeout = 10, rw_maxJobExecTime = 0,
     rw_readTotal = 0, rw_writeTotal = 0, rw_unsafeDrainEvents = 0, rw_readPool = None \<rparr>"

definition read_job_example :: mailbox_job where
  "read_job_example = example_job 1 0 \<lparr> jb_rwMode := RWModeRead \<rparr>"

definition write_job_example :: mailbox_job where
  "write_job_example = example_job 2 0"

text \<open>A read is dispatched, launched and finished, then a write gets the lock.\<close>

definition read_then_write :: "wact list" where
  "read_then_write = [ASubmit read_job_example, ASubmit write_job_example] @ replicate 6 (AMain False)
     @ replicate 4 (APipe False) @ replicate 3 (AReader 0) @ replicate 7 (AMain False)"

text \<open>The same run up to the end of the worker after a stop request.\<close>

definition read_write_stop :: "wact list" where
  "read_write_stop = read_then_write @ replicate 3 (AMain False) @ [ABeginStop 1] @ replicate 2 (AMain False) @ [APipe False]
     @ replicate 2 (AReader 0) @ replicate 7 (AMain False)"

text \<open>The mode is switched off between the decision to dispatch a read and the counter.\<close>

definition disable_between :: "wact list" where
  "disable_between = [ASubmit read_job_example, ASubmit write_job_example] @ replicate 4 (AMain False)
     @ replicate 5 (ACtl False) @ replicate 5 (AMain False) @ replicate 8 (APipe False)"

section \<open>Facts\<close>

lemmas step_defs = set_w_def set_rw_def finish_def inc_launched_def is_closed_def

lemma readers_held_simps [simp]:
  "readers_held [] = {#}" "readers_held (ps @ qs) = readers_held ps + readers_held qs" "readers_held [RExec e] = {#e#}"
  by (simp_all add: readers_held_def)

lemma reader_locks_simps [simp]:
  "reader_locks [] = 0" "reader_locks (ps @ qs) = reader_locks ps + reader_locks qs" "reader_locks [RExec e] = 1"
  by (simp_all add: reader_locks_def)

subsection \<open>The write path\<close>

lemma store_pending_frame [simp]:
  "s_main (store_pending e s) = s_main s" "s_pipe (store_pending e s) = s_pipe s"
  "s_readers (store_pending e s) = s_readers s" "s_rw (store_pending e s) = s_rw s"
  "s_ctl (store_pending e s) = s_ctl s"
  "s_timedOut (store_pending e s) = s_timedOut s" "s_lockHeld (store_pending e s) = s_lockHeld s"
  "s_envReaders (store_pending e s) = s_envReaders s" "s_envWriter (store_pending e s) = s_envWriter s"
  "s_accepted (store_pending e s) = s_accepted s" "s_dispatched (store_pending e s) = s_dispatched s"
  "s_w (store_pending e s) = (s_w s) \<lparr> wk_pendingJob := Some e \<rparr>"
  "mset (s_finished (store_pending e s)) = mset (s_finished s) + pending_jobs (s_w s)"
  "set (s_finished (store_pending e s)) = set (s_finished s) \<union> set_mset (pending_jobs (s_w s))"
  by (auto simp: store_pending_def storePending_def finish_def pending_jobs_def split: option.splits)

text \<open>What a step of \<open>execWrite\<close> leaves alone.\<close>

lemma write_step_frame:
  assumes "write_step p e s = Some (p', s')"
  shows "s_main s' = s_main s \<and> s_pipe s' = s_pipe s \<and> s_readers s' = s_readers s \<and> s_ctl s' = s_ctl s
    \<and> s_timedOut s' = s_timedOut s \<and> s_lockHeld s' = s_lockHeld s
    \<and> s_envReaders s' = s_envReaders s \<and> s_envWriter s' = s_envWriter s
    \<and> s_accepted s' = s_accepted s \<and> s_dispatched s' = s_dispatched s"
    and "wk_state (s_w s') = wk_state (s_w s) \<and> wk_queueManager (s_w s') = wk_queueManager (s_w s)
    \<and> wk_readCh (s_w s') = wk_readCh (s_w s) \<and> wk_readChClosed (s_w s') = wk_readChClosed (s_w s)
    \<and> wk_readsDispatched (s_w s') = wk_readsDispatched (s_w s) \<and> wk_readsLaunched (s_w s') = wk_readsLaunched (s_w s)
    \<and> wk_inflightReadCnt (s_w s') = wk_inflightReadCnt (s_w s)"
    and "rw_enabled (s_rw s') = rw_enabled (s_rw s) \<and> rw_disabling (s_rw s') = rw_disabling (s_rw s)
    \<and> rw_muReaders (s_rw s') = rw_muReaders (s_rw s)"
  using assms by (cases p; auto simp: step_defs Let_def split: if_splits)+

lemma write_step_jobs:
  assumes "write_step p e s = Some (p', s')"
  shows "pending_jobs (s_w s') + mset (s_finished s') + write_held p' e
       = pending_jobs (s_w s) + mset (s_finished s) + write_held (Some p) e"
  using assms by (cases p) (auto simp: step_defs Let_def pending_jobs_def split: if_splits)

lemma write_step_lock:
  assumes "write_step p e s = Some (p', s')" "write_lock (Some p) \<le> of_bool (rw_muWriter (s_rw s))"
  shows "of_bool (rw_muWriter (s_rw s')) + write_lock (Some p) = of_bool (rw_muWriter (s_rw s)) + write_lock p'"
    and "rw_muWriter (s_rw s') \<Longrightarrow> \<not> rw_muWriter (s_rw s) \<Longrightarrow> rw_muReaders (s_rw s') = 0"
  using assms by (cases p; auto simp: step_defs Let_def mu_free_def split: if_splits)+

lemma write_step_await:
  assumes "write_step p e s = Some (Some q, s')"
    "awaited (MWrite p e) (wk_readsDispatched (s_w s)) (wk_readsLaunched (s_w s))"
    "wk_readsLaunched (s_w s) \<le> wk_readsDispatched (s_w s)"
  shows "awaited (MWrite q e) (wk_readsDispatched (s_w s)) (wk_readsLaunched (s_w s))"
  using assms by (cases p) (auto simp: Let_def split: if_splits)

subsection \<open>Conservation\<close>

lemma worker_jobs_cong [simp]:
  "worker_jobs (w \<lparr> wk_pendingJob := x1 \<rparr>) = worker_jobs w" "worker_jobs (w \<lparr> wk_readCh := x2 \<rparr>) = worker_jobs w"
  "worker_jobs (w \<lparr> wk_readChClosed := x3 \<rparr>) = worker_jobs w" "worker_jobs (w \<lparr> wk_readsDispatched := x4 \<rparr>) = worker_jobs w"
  "worker_jobs (w \<lparr> wk_readsLaunched := x4 \<rparr>) = worker_jobs w" "worker_jobs (w \<lparr> wk_writeRequested := x4 \<rparr>) = worker_jobs w"
  "worker_jobs (w \<lparr> wk_inflightReadCnt := x4 \<rparr>) = worker_jobs w" "worker_jobs (Worker_BeginStop d w) = worker_jobs w"
  "worker_jobs (w \<lparr> wk_queueManager := Some qm \<rparr>) = qm_jobs qm"
  by (simp_all add: worker_jobs_def Worker_BeginStop_def)

lemma BeginStop_frame [simp]:
  "wk_readsDispatched (Worker_BeginStop d w) = wk_readsDispatched w" "wk_readsLaunched (Worker_BeginStop d w) = wk_readsLaunched w"
  "wk_readCh (Worker_BeginStop d w) = wk_readCh w" "wk_readChClosed (Worker_BeginStop d w) = wk_readChClosed w"
  "wk_pendingJob (Worker_BeginStop d w) = wk_pendingJob w"
  "wk_state w = WorkerStateClosed \<Longrightarrow> wk_state (Worker_BeginStop d w) = WorkerStateClosed"
  by (simp_all add: Worker_BeginStop_def)

lemma worker_inv_cong [simp]:
  "worker_inv (w \<lparr> wk_pendingJob := x1 \<rparr>) = worker_inv w" "worker_inv (w \<lparr> wk_readCh := x2 \<rparr>) = worker_inv w"
  "worker_inv (w \<lparr> wk_readChClosed := x3 \<rparr>) = worker_inv w" "worker_inv (w \<lparr> wk_readsDispatched := x4 \<rparr>) = worker_inv w"
  "worker_inv (w \<lparr> wk_readsLaunched := x4 \<rparr>) = worker_inv w" "worker_inv (w \<lparr> wk_writeRequested := x4 \<rparr>) = worker_inv w"
  "worker_inv (w \<lparr> wk_inflightReadCnt := x4 \<rparr>) = worker_inv w" "worker_inv (Worker_BeginStop d w) = worker_inv w"
  "worker_inv (w \<lparr> wk_queueManager := Some qm \<rparr>) = qm_inv qm"
  by (simp_all add: worker_inv_def Worker_BeginStop_def)

lemma worker_inv_qm: "worker_inv w \<Longrightarrow> wk_queueManager w = Some qm \<Longrightarrow> qm_inv qm \<and> worker_jobs w = qm_jobs qm"
  by (auto simp: worker_inv_def worker_jobs_def)

lemma chan_jobs_cong [simp]:
  "chan_jobs (w \<lparr> wk_pendingJob := x1 \<rparr>) = chan_jobs w" "chan_jobs (w \<lparr> wk_readCh := Some ch \<rparr>) = ch"
  "chan_jobs (w \<lparr> wk_readChClosed := x3 \<rparr>) = chan_jobs w" "chan_jobs (w \<lparr> wk_readsDispatched := x4 \<rparr>) = chan_jobs w"
  "chan_jobs (w \<lparr> wk_readsLaunched := x4 \<rparr>) = chan_jobs w" "chan_jobs (w \<lparr> wk_writeRequested := x4 \<rparr>) = chan_jobs w"
  "chan_jobs (w \<lparr> wk_inflightReadCnt := x4 \<rparr>) = chan_jobs w" "chan_jobs (Worker_BeginStop d w) = chan_jobs w"
  "chan_jobs (w \<lparr> wk_queueManager := x5 \<rparr>) = chan_jobs w"
  by (simp_all add: chan_jobs_def Worker_BeginStop_def)

lemma pending_jobs_cong [simp]:
  "pending_jobs (w \<lparr> wk_pendingJob := None \<rparr>) = {#}" "pending_jobs (w \<lparr> wk_pendingJob := Some e \<rparr>) = {#e#}"
  "pending_jobs (w \<lparr> wk_readCh := x2 \<rparr>) = pending_jobs w"
  "pending_jobs (w \<lparr> wk_readChClosed := x3 \<rparr>) = pending_jobs w" "pending_jobs (w \<lparr> wk_readsDispatched := x4 \<rparr>) = pending_jobs w"
  "pending_jobs (w \<lparr> wk_readsLaunched := x4 \<rparr>) = pending_jobs w" "pending_jobs (w \<lparr> wk_writeRequested := x4 \<rparr>) = pending_jobs w"
  "pending_jobs (w \<lparr> wk_inflightReadCnt := x4 \<rparr>) = pending_jobs w" "pending_jobs (Worker_BeginStop d w) = pending_jobs w"
  "pending_jobs (w \<lparr> wk_queueManager := x5 \<rparr>) = pending_jobs w"
  by (simp_all add: pending_jobs_def Worker_BeginStop_def)

lemma write_step_worker:
  assumes "write_step p e s = Some (p', s')"
  shows "worker_inv (s_w s') = worker_inv (s_w s)" "worker_jobs (s_w s') = worker_jobs (s_w s)"
    "chan_jobs (s_w s') = chan_jobs (s_w s)"
  using write_step_frame(2) [OF assms] by (auto simp: worker_inv_def worker_jobs_def chan_jobs_def)

lemma main_step_conserves:
  assumes c: "conserves s" and st: "main_step t pc s = Some s'" and pc: "s_main s = pc"
  shows "conserves s'"
proof (cases pc)
  case MNext
  obtain qm where q: "wk_queueManager (s_w s) = Some qm" "qm_inv qm" "worker_jobs (s_w s) = qm_jobs qm"
    using c by (auto simp: conserves_def worker_inv_def worker_jobs_def)
  obtain r qm' where n: "QM_NextJob qm = (r, qm')" by force
  show ?thesis
  proof (cases r)
    case None
    then show ?thesis using MNext st pc q n c qm.next_none [OF q(2), of qm']
      by (auto simp: conserves_def in_worker_def step_defs)
  next
    case (Some e)
    then show ?thesis using MNext st pc q n c qm.next_some [OF q(2), of e qm']
      by (auto simp: conserves_def in_worker_def step_defs)
  qed
next
  case (MWrite p e)
  then obtain p' s1 where w: "write_step p e s = Some (p', s1)"
    and s': "s' = s1 \<lparr> s_main := (case p' of None \<Rightarrow> MTop | Some q \<Rightarrow> MWrite q e) \<rparr>"
    using st by auto
  have "main_held (s_main s') = write_held p' e" by (simp add: s' split: option.splits)
  then show ?thesis using c write_step_jobs [OF w] write_step_frame(1) [OF w] write_step_worker [OF w] MWrite pc
    by (simp add: conserves_def in_worker_def s' ac_simps)
next
  case DDrainAll
  obtain qm where q: "wk_queueManager (s_w s) = Some qm" "qm_inv qm" "worker_jobs (s_w s) = qm_jobs qm"
    using c by (auto simp: conserves_def worker_inv_def worker_jobs_def)
  obtain es qm' where d: "QM_DrainAll qm = Some (es, qm')" "mset es = qm_jobs qm" "qm_inv qm'" "qm_jobs qm' = {#}"
    using qm.drain_jobs [OF q(2)] by blast
  show ?thesis using DDrainAll st pc q d c
    by (auto simp: conserves_def in_worker_def step_defs)
next
  case DPending
  then show ?thesis using st pc c
    by (auto simp: conserves_def in_worker_def step_defs pending_jobs_def split: option.splits)
next
  case (MSend e)
  then show ?thesis using st pc c
    by (auto simp: conserves_def in_worker_def step_defs chan_jobs_def split: option.splits if_splits)
qed (use st pc c in \<open>auto simp: conserves_def in_worker_def step_defs split: option.splits if_splits list.splits\<close>)

lemma pipe_step_conserves:
  assumes c: "conserves s" and st: "pipe_step t pc s = Some s'" and pc: "s_pipe s = pc"
  shows "conserves s'"
proof (cases pc)
  case (PWrite p e)
  then obtain p' s1 where w: "write_step p e s = Some (p', s1)"
    and s': "s' = s1 \<lparr> s_pipe := (case p' of None \<Rightarrow> PRecv | Some q \<Rightarrow> PWrite q e) \<rparr>"
    using st by auto
  have "pipe_held (s_pipe s') = write_held p' e" by (simp add: s' split: option.splits)
  then show ?thesis using c write_step_jobs [OF w] write_step_frame(1) [OF w] write_step_worker [OF w] PWrite pc
    by (simp add: conserves_def in_worker_def s' ac_simps)
next
  case PRecv
  then show ?thesis using st pc c
    by (auto simp: conserves_def in_worker_def step_defs chan_jobs_def split: option.splits if_splits list.splits)
qed (use st pc c in \<open>auto simp: conserves_def in_worker_def step_defs split: option.splits if_splits\<close>)

text \<open>What a step of a read goroutine does to the sums over the read goroutines.\<close>

lemma reader_step_cases:
  assumes "reader_step i s = Some s'"
  obtains (exec) e where "i < length (s_readers s)" "s_readers s ! i = RExec e"
      "s' = finish [e] (s \<lparr> s_readers := (s_readers s)[i := RSem] \<rparr>)"
  | (sem) "i < length (s_readers s)" "s_readers s ! i = RSem"
      "s' = set_rw (\<lambda>r. r \<lparr> rw_readSemUsed := rw_readSemUsed r - 1 \<rparr>) (s \<lparr> s_readers := (s_readers s)[i := RUnlock] \<rparr>)"
  | (unlock) "i < length (s_readers s)" "s_readers s ! i = RUnlock"
      "s' = set_rw (\<lambda>r. r \<lparr> rw_muReaders := rw_muReaders r - 1 \<rparr>) (s \<lparr> s_readers := (s_readers s)[i := RCnt] \<rparr>)"
  | (cnt) "i < length (s_readers s)" "s_readers s ! i = RCnt"
      "s' = set_w (\<lambda>w. w \<lparr> wk_inflightReadCnt := wk_inflightReadCnt w - 1 \<rparr>) (s \<lparr> s_readers := (s_readers s)[i := RDone] \<rparr>)"
  | (gone) "i < length (s_readers s)" "s_readers s ! i = RDone"
      "s' = s \<lparr> s_readers := take i (s_readers s) @ drop (Suc i) (s_readers s) \<rparr>"
  using assms unfolding reader_step_def by (cases "s_readers s ! i") (auto simp: Let_def split: if_splits)

lemma readers_update:
  assumes "i < length ps" "ps ! i = p"
  shows "readers_held (ps[i := q]) + reader_held p = readers_held ps + reader_held q"
    and "reader_locks (ps[i := q]) + reader_lock p = reader_locks ps + reader_lock q"
    and "readers_held (take i ps @ drop (Suc i) ps) + reader_held p = readers_held ps"
    and "reader_locks (take i ps @ drop (Suc i) ps) + reader_lock p = reader_locks ps"
  unfolding readers_held_def reader_locks_def
  using sum_list_map_update [OF assms(1), of reader_held q] sum_list_map_update [OF assms(1), of reader_lock q]
    sum_list_map_remove [OF assms(1), of reader_held] sum_list_map_remove [OF assms(1), of reader_lock] assms(2) by auto

lemma reader_step_conserves:
  assumes c: "conserves s" and st: "reader_step i s = Some s'"
  shows "conserves s'"
  using st
proof (cases rule: reader_step_cases)
  case (exec e)
  then show ?thesis using c readers_update(1) [OF exec(1,2), of RSem]
    by (simp add: conserves_def in_worker_def step_defs)
next
  case gone
  then show ?thesis using c readers_update(3) [OF gone(1,2)]
    by (simp add: conserves_def in_worker_def step_defs)
next
  case sem
  then show ?thesis using c readers_update(1) [OF sem(1,2), of RUnlock] by (simp add: conserves_def in_worker_def step_defs)
next
  case unlock
  then show ?thesis using c readers_update(1) [OF unlock(1,2), of RCnt] by (simp add: conserves_def in_worker_def step_defs)
next
  case cnt
  then show ?thesis using c readers_update(1) [OF cnt(1,2), of RDone] by (simp add: conserves_def in_worker_def step_defs)
qed

lemma submit_step_conserves:
  assumes c: "conserves s"
  shows "conserves (submit_step job s)"
proof -
  obtain r job' full w where e: "SubmitJob False job (s_full s) (s_w s) = (r, job', full, w)" using prod_cases4 by blast
  have i: "worker_inv (s_w s)" using c by (simp add: conserves_def)
  show ?thesis
  proof (cases r)
    case None
    note a = SubmitJob_accepted [OF i e [unfolded None]]
    have "chan_jobs w = chan_jobs (s_w s)" "pending_jobs w = pending_jobs (s_w s)"
      using a(6) by (auto simp: chan_jobs_def pending_jobs_def)
    then show ?thesis using c a(2,3) e None
      by (simp add: submit_step_def conserves_def in_worker_def)
  next
    case (Some err)
    note a = SubmitJob_refused [OF i e [unfolded Some]]
    have "chan_jobs w = chan_jobs (s_w s)" "pending_jobs w = pending_jobs (s_w s)"
      using a(5) by (auto simp: chan_jobs_def pending_jobs_def)
    then show ?thesis using c a(1,2) e Some
      by (simp add: submit_step_def conserves_def in_worker_def)
  qed
qed

text \<open>The steps of the switch, of \<open>BeginStop\<close> and of the other workers touch no job.\<close>

lemma ctl_step_frame:
  assumes "ctl_step t pc s = Some s'"
  shows "s_w s' = s_w s \<and> s_main s' = s_main s \<and> s_pipe s' = s_pipe s \<and> s_readers s' = s_readers s
    \<and> s_timedOut s' = s_timedOut s \<and> s_lockHeld s' = s_lockHeld s
    \<and> s_envReaders s' = s_envReaders s \<and> s_envWriter s' = s_envWriter s
    \<and> s_accepted s' = s_accepted s \<and> s_finished s' = s_finished s \<and> s_dispatched s' = s_dispatched s
    \<and> rw_muReaders (s_rw s') = rw_muReaders (s_rw s) \<and> rw_muWriter (s_rw s') = rw_muWriter (s_rw s)
    \<and> (rw_enabled (s_rw s) \<and> \<not> rw_enabled (s_rw s') \<longrightarrow> rw_muReaders (s_rw s) = 0)"
  using assms by (cases pc) (auto simp: step_defs mu_free_def split: if_splits)

lemma conserves_frame:
  assumes "conserves s" "s_main s' = s_main s" "s_pipe s' = s_pipe s" "s_readers s' = s_readers s"
    "s_accepted s' = s_accepted s" "s_finished s' = s_finished s"
    "worker_inv (s_w s') = worker_inv (s_w s)" "worker_jobs (s_w s') = worker_jobs (s_w s)"
    "chan_jobs (s_w s') = chan_jobs (s_w s)" "pending_jobs (s_w s') = pending_jobs (s_w s)"
  shows "conserves s'"
  using assms by (simp add: conserves_def in_worker_def)

lemma wstep_conserves:
  assumes c: "conserves s" and st: "wstep a s = Some s'"
  shows "conserves s'"
proof (cases a)
  case (ASubmit job)
  then show ?thesis using st submit_step_conserves [OF c] by auto
next
  case (AMain t)
  then show ?thesis using st main_step_conserves [OF c] by auto
next
  case (APipe t)
  then show ?thesis using st pipe_step_conserves [OF c] by auto
next
  case (AReader i)
  then show ?thesis using st reader_step_conserves [OF c] by auto
next
  case (ACtl t)
  have "conserves s'" by (rule conserves_frame [OF c]) (use ctl_step_frame [of t "s_ctl s" s s'] ACtl st in auto)
  then show ?thesis .
next
  case (ABeginStop d)
  then show ?thesis using c st by (auto simp: set_w_def intro!: conserves_frame [OF c])
qed (use c st in \<open>auto simp: step_defs split: if_splits intro!: conserves_frame [OF c]\<close>)

subsection \<open>The lock\<close>

lemma lock_ok_steps:
  "lock_ok False 0 n m \<Longrightarrow> lock_ok True 0 (Suc n) m"
  "lock_ok w r (Suc n) m \<Longrightarrow> lock_ok False r n m"
  "lock_ok False r n m \<Longrightarrow> lock_ok False (Suc r) n (Suc m)"
  "lock_ok w r n (Suc m) \<Longrightarrow> lock_ok w (r - Suc 0) n m"
  by (cases w; auto simp: lock_ok_def)+

lemma write_step_lock_ok:
  assumes "write_step p e s = Some (p', s')" "lock_ok (rw_muWriter (s_rw s)) (rw_muReaders (s_rw s)) (write_lock (Some p) + n) m"
  shows "lock_ok (rw_muWriter (s_rw s')) (rw_muReaders (s_rw s')) (write_lock p' + n) m"
proof -
  have le: "write_lock (Some p) \<le> of_bool (rw_muWriter (s_rw s))" using assms(2) by (simp add: lock_ok_def)
  note k = write_step_lock [OF assms(1) le] write_step_frame(3) [OF assms(1)]
  show ?thesis using assms(2) k unfolding lock_ok_def by linarith
qed

lemma main_step_lock:
  assumes i: "lock_inv s" and st: "main_step t pc s = Some s'" and pc: "s_main s = pc"
  shows "lock_inv s'"
proof (cases pc)
  case (MWrite p e)
  then obtain p' s1 where w: "write_step p e s = Some (p', s1)"
    and s': "s' = s1 \<lparr> s_main := (case p' of None \<Rightarrow> MTop | Some q \<Rightarrow> MWrite q e) \<rparr>"
    using st by auto
  define n where "n = of_bool (s_envWriter s) + pipe_lock (s_pipe s) + of_bool (s_lockHeld s)"
  have n: "writers_in (s_envWriter s) (s_main s) (s_pipe s) (s_lockHeld s) = write_lock (Some p) + n"
    using MWrite pc by (simp add: writers_in_def n_def)
  have n': "writers_in (s_envWriter s') (s_main s') (s_pipe s') (s_lockHeld s') = write_lock p' + n"
    using write_step_frame(1) [OF w] by (simp add: writers_in_def n_def s' split: option.splits)
  have "\<not> s_lockHeld s" using i MWrite pc by (simp add: lock_inv_def held_ok_def)
  then show ?thesis using write_step_lock_ok [OF w, of n] i n n' write_step_frame(1) [OF w]
    by (simp add: lock_inv_def s' held_ok_def)
next
  case DResidual
  then have "\<not> s_lockHeld s" using i pc by (simp add: lock_inv_def held_ok_def)
  then show ?thesis using i st pc DResidual
    by (auto simp: lock_inv_def step_defs mu_free_def writers_in_def held_ok_def intro: lock_ok_steps(1) split: if_splits)
next
  case DUnlock
  then show ?thesis using i st pc
    by (auto simp: lock_inv_def step_defs writers_in_def held_ok_def intro: lock_ok_steps(2) split: if_splits)
next
  case MNext
  then show ?thesis using i st pc
    by (auto simp: lock_inv_def step_defs writers_in_def split: option.splits prod.splits)
next
  case (DRun es)
  then show ?thesis using i st pc
    by (auto simp: lock_inv_def step_defs writers_in_def held_ok_def split: list.splits)
qed (use st pc i in \<open>auto simp: lock_inv_def step_defs writers_in_def held_ok_def split: option.splits if_splits\<close>)

lemma pipe_step_lock:
  assumes i: "lock_inv s" and st: "pipe_step t pc s = Some s'" and pc: "s_pipe s = pc"
  shows "lock_inv s'"
proof (cases pc)
  case (PWrite p e)
  then obtain p' s1 where w: "write_step p e s = Some (p', s1)"
    and s': "s' = s1 \<lparr> s_pipe := (case p' of None \<Rightarrow> PRecv | Some q \<Rightarrow> PWrite q e) \<rparr>"
    using st by auto
  define n where "n = of_bool (s_envWriter s) + main_lock (s_main s) + of_bool (s_lockHeld s)"
  have n: "writers_in (s_envWriter s) (s_main s) (s_pipe s) (s_lockHeld s) = write_lock (Some p) + n" "pipe_rlock (s_pipe s) = 0"
    using PWrite pc by (simp_all add: writers_in_def n_def)
  have n': "writers_in (s_envWriter s') (s_main s') (s_pipe s') (s_lockHeld s') = write_lock p' + n" "pipe_rlock (s_pipe s') = 0"
    using write_step_frame(1) [OF w] by (simp_all add: writers_in_def n_def s' split: option.splits)
  show ?thesis using write_step_lock_ok [OF w, of n] i n n' write_step_frame(1) [OF w]
    by (simp add: lock_inv_def s')
next
  case (PRLock e)
  then show ?thesis using st pc i
    by (auto simp: lock_inv_def step_defs writers_in_def intro: lock_ok_steps(3) split: if_splits)
next
  case (PCheck e)
  then show ?thesis using st pc i
    by (auto simp: lock_inv_def step_defs writers_in_def intro: lock_ok_steps(4) split: if_splits)
qed (use st pc i in \<open>auto simp: lock_inv_def step_defs writers_in_def split: option.splits if_splits list.splits\<close>)

lemma reader_step_lock:
  assumes i: "lock_inv s" and st: "reader_step k s = Some s'"
  shows "lock_inv s'"
  using st
proof (cases rule: reader_step_cases)
  case unlock
  have "reader_locks (s_readers s) = Suc (reader_locks ((s_readers s)[k := RCnt]))"
    using readers_update(2) [OF unlock(1,2), of RCnt] by simp
  then show ?thesis using i unlock(3) by (auto simp: lock_inv_def step_defs intro: lock_ok_steps)
next
  case gone
  then show ?thesis using i readers_update(4) [OF gone(1,2)] by (simp add: lock_inv_def step_defs)
next
  case (exec e)
  then show ?thesis using i readers_update(2) [OF exec(1,2), of RSem] by (simp add: lock_inv_def step_defs)
next
  case sem
  then show ?thesis using i readers_update(2) [OF sem(1,2), of RUnlock] by (simp add: lock_inv_def step_defs)
next
  case cnt
  then show ?thesis using i readers_update(2) [OF cnt(1,2), of RDone] by (simp add: lock_inv_def step_defs)
qed

lemma submit_step_frame:
  "s_rw (submit_step job s) = s_rw s" "s_main (submit_step job s) = s_main s" "s_pipe (submit_step job s) = s_pipe s"
  "s_readers (submit_step job s) = s_readers s" "s_lockHeld (submit_step job s) = s_lockHeld s"
  "s_envReaders (submit_step job s) = s_envReaders s" "s_envWriter (submit_step job s) = s_envWriter s"
  "s_timedOut (submit_step job s) = s_timedOut s" "s_finished (submit_step job s) = s_finished s"
  "s_dispatched (submit_step job s) = s_dispatched s"
  by (auto simp: submit_step_def split: prod.splits option.splits)

lemma wstep_lock:
  assumes i: "lock_inv s" and st: "wstep a s = Some s'"
  shows "lock_inv s'"
proof (cases a)
  case (ASubmit job)
  then show ?thesis using st i by (auto simp: lock_inv_def submit_step_frame)
next
  case (AMain t)
  then show ?thesis using st main_step_lock [OF i] by auto
next
  case (APipe t)
  then show ?thesis using st pipe_step_lock [OF i] by auto
next
  case (AReader k)
  then show ?thesis using st reader_step_lock [OF i] by auto
next
  case (ACtl t)
  then show ?thesis using st i ctl_step_frame [of t "s_ctl s" s s'] by (auto simp: lock_inv_def)
next
  case AEnvRUnlock
  then obtain m where "s_envReaders s = Suc m" using st by (cases "s_envReaders s") auto
  then show ?thesis using AEnvRUnlock i st by (auto simp: lock_inv_def step_defs intro: lock_ok_steps)
next
  case AEnvLock
  then show ?thesis using i st by (auto simp: lock_inv_def lock_ok_def step_defs writers_in_def mu_free_def split: if_splits)
next
  case AEnvUnlock
  then show ?thesis using i st
    by (auto simp: lock_inv_def step_defs writers_in_def intro: lock_ok_steps split: if_splits)
qed (use i st in \<open>auto simp: lock_inv_def step_defs mu_free_def writers_in_def intro: lock_ok_steps split: if_splits\<close>)

subsection \<open>The counters of reads\<close>

lemma count_ok_steps:
  "count_ok d l c p m \<Longrightarrow> count_ok (Suc d) l c p (Suc m)"
  "count_ok d l c p (Suc m) \<Longrightarrow> count_ok d l (Suc c) p m"
  "count_ok d l c p (Suc m) \<Longrightarrow> count_ok d (Suc l) c p m"
  "count_ok d l (Suc c) p m \<Longrightarrow> count_ok d l c (Suc p) m"
  "count_ok d l c (Suc p) m \<Longrightarrow> count_ok d (Suc l) c p m"
  by (simp_all add: count_ok_def)

lemma awaited_launch: "awaited pc d l \<Longrightarrow> count_ok d l c (Suc p) m \<Longrightarrow> awaited pc d (Suc l)"
  by (induction pc d l rule: awaited.induct) (auto simp: count_ok_def)

lemma main_step_count:
  assumes i: "count_inv s" and st: "main_step t pc s = Some s'" and pc: "s_main s = pc"
  shows "count_inv s'"
proof (cases pc)
  case (MWrite p e)
  then obtain p' s1 where w: "write_step p e s = Some (p', s1)"
    and s': "s' = s1 \<lparr> s_main := (case p' of None \<Rightarrow> MTop | Some q \<Rightarrow> MWrite q e) \<rparr>"
    using st by auto
  have f: "wk_readsDispatched (s_w s') = wk_readsDispatched (s_w s)" "wk_readsLaunched (s_w s') = wk_readsLaunched (s_w s)"
    "chan_jobs (s_w s') = chan_jobs (s_w s)" "s_pipe s' = s_pipe s"
    using write_step_frame [OF w] write_step_worker(3) [OF w] by (simp_all add: s')
  have m: "main_sending (s_main s') = 0" "main_sending (s_main s) = 0"
    using MWrite pc by (simp_all add: s' split: option.splits)
  have le: "wk_readsLaunched (s_w s) \<le> wk_readsDispatched (s_w s)" using i by (simp add: count_inv_def count_ok_def)
  have "awaited (s_main s') (wk_readsDispatched (s_w s)) (wk_readsLaunched (s_w s))"
  proof (cases p')
    case (Some q)
    then show ?thesis using write_step_await [OF w [unfolded Some] _ le] i MWrite pc by (simp add: count_inv_def s')
  qed (simp add: s')
  then show ?thesis using i f m by (simp add: count_inv_def)
next
  case MNext
  then show ?thesis using i st pc by (auto simp: count_inv_def step_defs split: option.splits prod.splits)
next
  case (MSend e)
  then show ?thesis using i st pc
    by (auto simp: count_inv_def count_ok_def step_defs chan_jobs_def split: option.splits if_splits)
qed (use st pc i in \<open>auto simp: count_inv_def step_defs intro: count_ok_steps split: option.splits if_splits list.splits\<close>)

lemma pipe_step_count:
  assumes i: "count_inv s" and st: "pipe_step t pc s = Some s'" and pc: "s_pipe s = pc"
  shows "count_inv s'"
proof (cases pc)
  case (PWrite p e)
  then obtain p' s1 where w: "write_step p e s = Some (p', s1)"
    and s': "s' = s1 \<lparr> s_pipe := (case p' of None \<Rightarrow> PRecv | Some q \<Rightarrow> PWrite q e) \<rparr>"
    using st by auto
  have "pipe_unlaunched (s_pipe s') = 0" by (simp add: s' split: option.splits)
  moreover have "wk_readsDispatched (s_w s') = wk_readsDispatched (s_w s)" "wk_readsLaunched (s_w s') = wk_readsLaunched (s_w s)"
    "chan_jobs (s_w s') = chan_jobs (s_w s)" "s_main s' = s_main s"
    using write_step_frame [OF w] write_step_worker(3) [OF w] by (simp_all add: s')
  ultimately show ?thesis using i PWrite pc by (simp add: count_inv_def)
next
  case PRecv
  then show ?thesis using st pc i
    by (auto simp: count_inv_def step_defs chan_jobs_def intro: count_ok_steps split: option.splits if_splits list.splits)
qed (use st pc i in \<open>auto simp: count_inv_def step_defs intro: count_ok_steps awaited_launch split: option.splits if_splits\<close>)

text \<open>What a submission leaves alone of the worker.\<close>

lemma submit_step_worker:
  assumes "worker_inv (s_w s)"
  shows "wk_readsDispatched (s_w (submit_step job s)) = wk_readsDispatched (s_w s)"
    "wk_readsLaunched (s_w (submit_step job s)) = wk_readsLaunched (s_w s)"
    "chan_jobs (s_w (submit_step job s)) = chan_jobs (s_w s)"
    "wk_readCh (s_w (submit_step job s)) = wk_readCh (s_w s)"
    "wk_readChClosed (s_w (submit_step job s)) = wk_readChClosed (s_w s)"
    "wk_pendingJob (s_w (submit_step job s)) = wk_pendingJob (s_w s)"
    "wk_state (s_w (submit_step job s)) = wk_state (s_w s)"
    "pending_jobs (s_w (submit_step job s)) = pending_jobs (s_w s)"
    "wk_state (s_w s) = WorkerStateClosed \<Longrightarrow> worker_jobs (s_w (submit_step job s)) = worker_jobs (s_w s)"
proof -
  obtain r job' full w where e: "SubmitJob False job (s_full s) (s_w s) = (r, job', full, w)" using prod_cases4 by blast
  have w: "s_w (submit_step job s) = w" using e by (simp add: submit_step_def split: option.splits)
  have "(\<exists>qm c k. w = s_w s \<lparr> wk_queueManager := qm, wk_count := c, wk_wakes := k \<rparr>) \<or> (\<exists>qm. w = s_w s \<lparr> wk_queueManager := qm \<rparr>)"
    using SubmitJob_accepted(6) [OF assms] SubmitJob_refused(5) [OF assms] e by (cases r) blast+
  then show "wk_readsDispatched (s_w (submit_step job s)) = wk_readsDispatched (s_w s)"
    "wk_readsLaunched (s_w (submit_step job s)) = wk_readsLaunched (s_w s)"
    "chan_jobs (s_w (submit_step job s)) = chan_jobs (s_w s)"
    "wk_readCh (s_w (submit_step job s)) = wk_readCh (s_w s)"
    "wk_readChClosed (s_w (submit_step job s)) = wk_readChClosed (s_w s)"
    "wk_pendingJob (s_w (submit_step job s)) = wk_pendingJob (s_w s)"
    "wk_state (s_w (submit_step job s)) = wk_state (s_w s)"
    "pending_jobs (s_w (submit_step job s)) = pending_jobs (s_w s)"
    unfolding w by (auto simp: chan_jobs_def pending_jobs_def)
  show "worker_jobs (s_w (submit_step job s)) = worker_jobs (s_w s)" if "wk_state (s_w s) = WorkerStateClosed"
    using that e w by (auto simp: SubmitJob_def)
qed

lemma reader_step_frame:
  assumes "reader_step k s = Some s'"
  shows "s_main s' = s_main s \<and> s_pipe s' = s_pipe s \<and> s_timedOut s' = s_timedOut s \<and> s_dispatched s' = s_dispatched s
    \<and> wk_readsDispatched (s_w s') = wk_readsDispatched (s_w s) \<and> wk_readsLaunched (s_w s') = wk_readsLaunched (s_w s)
    \<and> wk_readCh (s_w s') = wk_readCh (s_w s) \<and> wk_readChClosed (s_w s') = wk_readChClosed (s_w s)
    \<and> wk_pendingJob (s_w s') = wk_pendingJob (s_w s) \<and> wk_state (s_w s') = wk_state (s_w s)
    \<and> wk_queueManager (s_w s') = wk_queueManager (s_w s) \<and> rw_enabled (s_rw s') = rw_enabled (s_rw s)
    \<and> reader_locks (s_readers s') \<le> reader_locks (s_readers s)
    \<and> readers_held (s_readers s') + mset (s_finished s') = readers_held (s_readers s) + mset (s_finished s)"
  using assms
proof (cases rule: reader_step_cases)
  case (exec e)
  then show ?thesis using readers_update(1,2) [OF exec(1,2), of RSem] by (simp add: step_defs)
next
  case sem
  then show ?thesis using readers_update(1,2) [OF sem(1,2), of RUnlock] by (simp add: step_defs)
next
  case unlock
  then show ?thesis using readers_update(1,2) [OF unlock(1,2), of RCnt] by (simp add: step_defs)
next
  case cnt
  then show ?thesis using readers_update(1,2) [OF cnt(1,2), of RDone] by (simp add: step_defs)
next
  case gone
  then show ?thesis using readers_update(3,4) [OF gone(1,2)] by (simp add: step_defs)
qed

lemma wstep_count:
  assumes i: "count_inv s" "worker_inv (s_w s)" and st: "wstep a s = Some s'"
  shows "count_inv s'"
proof (cases a)
  case (ASubmit job)
  then show ?thesis using st i(1) by (auto simp: count_inv_def submit_step_frame submit_step_worker [OF i(2)])
next
  case (AMain t)
  then show ?thesis using st main_step_count [OF i(1)] by auto
next
  case (APipe t)
  then show ?thesis using st pipe_step_count [OF i(1)] by auto
next
  case (AReader k)
  then show ?thesis using st i(1) reader_step_frame [of k s s'] by (simp add: count_inv_def chan_jobs_def)
next
  case (ACtl t)
  then show ?thesis using st i(1) ctl_step_frame [of t "s_ctl s" s s'] by (simp add: count_inv_def)
next
  case (ABeginStop d)
  then show ?thesis using st i(1) by (auto simp: count_inv_def set_w_def)
qed (use i(1) st in \<open>auto simp: count_inv_def step_defs split: if_splits\<close>)

subsection \<open>Reads when the mode is off\<close>

lemma wstep_reads:
  assumes i: "reads_inv s" and l: "lock_inv s" and st: "wstep a s = Some s'"
  shows "reads_inv s'"
proof (cases a)
  case (ASubmit job)
  then show ?thesis using st i by (auto simp: reads_inv_def submit_step_frame)
next
  case (AMain t)
  then have m: "main_step t (s_main s) s = Some s'" using st by simp
  have "rw_enabled (s_rw s') = rw_enabled (s_rw s) \<and> s_readers s' = s_readers s"
  proof (cases "s_main s")
    case (MWrite p e)
    then show ?thesis using m write_step_frame [of p e s] by (auto split: option.splits)
  next
    case MNext
    then show ?thesis using m by (auto simp: step_defs split: option.splits prod.splits)
  qed (use m in \<open>auto simp: step_defs split: option.splits if_splits list.splits\<close>)
  then show ?thesis using i by (simp add: reads_inv_def)
next
  case (APipe t)
  then have m: "pipe_step t (s_pipe s) s = Some s'" using st by simp
  show ?thesis
  proof (cases "s_pipe s")
    case (PWrite p e)
    then show ?thesis using m i write_step_frame [of p e s] by (auto simp: reads_inv_def split: option.splits)
  qed (use m i in \<open>auto simp: reads_inv_def step_defs split: option.splits if_splits list.splits\<close>)
next
  case (AReader k)
  then show ?thesis using st i reader_step_frame [of k s s'] by (auto simp: reads_inv_def)
next
  case (ACtl t)
  have f: "s_readers s' = s_readers s" "rw_enabled (s_rw s) \<and> \<not> rw_enabled (s_rw s') \<longrightarrow> rw_muReaders (s_rw s) = 0"
    using ACtl st ctl_step_frame [of t "s_ctl s" s s'] by auto
  have "rw_muReaders (s_rw s) = 0 \<Longrightarrow> reader_locks (s_readers s) = 0" using l by (simp add: lock_inv_def lock_ok_def)
  then show ?thesis using i f unfolding reads_inv_def by (cases "rw_enabled (s_rw s)") auto
qed (use i st in \<open>auto simp: reads_inv_def step_defs split: if_splits\<close>)

subsection \<open>The drain\<close>

lemma drain_ok_0: "drain_ok 0 cl cc pe t l pn q \<longleftrightarrow> \<not> cc"
  by (simp add: drain_ok_def)

lemma drain_ok_mono:
  assumes "drain_ok n cl cc pe t l pn q" "cl \<longrightarrow> cl'" "pe \<longrightarrow> pe'" "l' \<longrightarrow> l" "pn' \<longrightarrow> pn" "q' \<longrightarrow> q \<or> \<not> cl"
  shows "drain_ok n cl' cc pe' t l' pn' q'"
proof -
  have "7 \<le> n \<Longrightarrow> cl" using assms(1) by (simp add: drain_ok_def)
  then show ?thesis using assms unfolding drain_ok_def by blast
qed

lemma drain_ok_piping: "drain_ok n cl cc False t l pn q \<Longrightarrow> drain_ok n cl cc pe t l' pn' q"
  by (auto simp: drain_ok_def)

lemma main_step_drain:
  assumes i: "drain_inv s" "reads_inv s" "conserves s" and st: "main_step t pc s = Some s'" and pc: "s_main s = pc"
  shows "drain_inv s'"
proof (cases pc)
  case (MWrite p e)
  then obtain p' s1 where w: "write_step p e s = Some (p', s1)"
    and s': "s' = s1 \<lparr> s_main := (case p' of None \<Rightarrow> MTop | Some q \<Rightarrow> MWrite q e) \<rparr>"
    using st by auto
  have "drain_phase (s_main s') = 0" "drain_phase (s_main s) = 0"
    using MWrite pc by (simp_all add: s' split: option.splits)
  moreover have "wk_readChClosed (s_w s') = wk_readChClosed (s_w s)" "s_pipe s' = s_pipe s"
    "wk_readCh (s_w s') = wk_readCh (s_w s)"
    using write_step_frame [OF w] by (simp_all add: s')
  ultimately show ?thesis using i(1) by (auto simp: drain_inv_def drain_ok_0)
next
  case MNext
  then show ?thesis using i st pc by (auto simp: drain_inv_def drain_ok_0 step_defs split: option.splits prod.splits)
next
  case (MSend e)
  then show ?thesis using i st pc by (auto simp: drain_inv_def drain_ok_0 pipe_ok_def step_defs split: option.splits if_splits)
next
  case DDrainAll
  obtain qm where q: "wk_queueManager (s_w s) = Some qm" "qm_inv qm"
    using i(3) by (auto simp: conserves_def worker_inv_def)
  obtain es qm' where d: "QM_DrainAll qm = Some (es, qm')" "qm_jobs qm' = {#}"
    using qm.drain_jobs [OF q(2)] by blast
  then have s': "s' = set_w (\<lambda>w. w \<lparr> wk_queueManager := Some qm' \<rparr>) (s \<lparr> s_main := DRun es \<rparr>)"
    using DDrainAll q st by simp
  show ?thesis using i(1) d DDrainAll pc by (simp add: s' drain_inv_def drain_ok_def step_defs)
next
  case DWaitReads
  then show ?thesis using i(1,2) st pc
    by (auto simp: drain_inv_def drain_ok_def reads_inv_def split: if_splits)
next
  case DWaitPipe
  then show ?thesis using i(1) st pc
    by (auto simp: drain_inv_def drain_ok_def pipe_ended_def split: if_splits)
next
  case DResidual
  moreover have "wk_queueManager (s_w s) \<noteq> None" using i(3) by (auto simp: conserves_def worker_inv_def)
  moreover obtain b where "drain_ok b (wk_state (s_w s) = WorkerStateClosed) (wk_readChClosed (s_w s))
       (pipe_ended (s_pipe s)) (s_timedOut s) (reader_locks (s_readers s) \<noteq> 0)
       (wk_pendingJob (s_w s) \<noteq> None) (worker_jobs (s_w s) \<noteq> {#})" "b = 5"
    using i(1) DResidual pc by (simp add: drain_inv_def drain_ok_def)
  ultimately show ?thesis using i(1) st pc by (auto simp: drain_inv_def step_defs split: if_splits)
next
  case DClose
  then show ?thesis using i(1) st pc
    by (auto simp: drain_inv_def drain_ok_def pipe_ok_def pipe_ended_def step_defs split: option.splits)
next
  case DPending
  then show ?thesis using i(1) st pc by (auto simp: drain_inv_def drain_ok_def step_defs split: option.splits)
next
  case (DRun es)
  then show ?thesis using i(1) st pc by (auto simp: drain_inv_def drain_ok_def step_defs split: list.splits)
next
  case DUnlock
  then show ?thesis using i(1) st pc by (auto simp: drain_inv_def drain_ok_def step_defs split: if_splits)
next
  case MTop
  then show ?thesis using i(1) st pc by (auto simp: drain_inv_def drain_ok_def step_defs split: if_splits)
qed (use st pc i(1) in \<open>auto simp: drain_inv_def drain_ok_0 step_defs split: option.splits if_splits\<close>)

lemma pipe_step_drain:
  assumes i: "drain_inv s" and st: "pipe_step t pc s = Some s'" and pc: "s_pipe s = pc"
  shows "drain_inv s'"
proof (cases pc)
  case (PWrite p e)
  then obtain p' s1 where w: "write_step p e s = Some (p', s1)"
    and s': "s' = s1 \<lparr> s_pipe := (case p' of None \<Rightarrow> PRecv | Some q \<Rightarrow> PWrite q e) \<rparr>"
    using st by auto
  have f: "s_pipe s' \<noteq> POff" "s_pipe s' \<noteq> PDone" by (simp_all add: s' split: option.splits)
  have "wk_state (s_w s') = wk_state (s_w s)" "wk_readChClosed (s_w s') = wk_readChClosed (s_w s)"
    "wk_readCh (s_w s') = wk_readCh (s_w s)" "s_timedOut s' = s_timedOut s" "s_main s' = s_main s"
    "worker_jobs (s_w s') = worker_jobs (s_w s)" "s_readers s' = s_readers s"
    using write_step_frame [OF w] write_step_worker(2) [OF w] by (simp_all add: s')
  then show ?thesis using i f PWrite pc by (auto simp: drain_inv_def pipe_ended_def pipe_ok_def intro: drain_ok_piping)
next
  case PRecv
  then obtain ch where ch: "wk_readCh (s_w s) = Some ch" using st by (auto split: option.splits)
  show ?thesis
  proof (cases ch)
    case Nil
    then show ?thesis using st pc i PRecv ch
      by (auto simp: drain_inv_def pipe_ended_def pipe_ok_def intro: drain_ok_piping split: if_splits)
  next
    case (Cons e es)
    then show ?thesis using st pc i PRecv ch
      by (auto simp: drain_inv_def step_defs pipe_ended_def pipe_ok_def)
  qed
next
  case (PCheck e)
  then show ?thesis using st pc i
    by (auto simp: drain_inv_def step_defs pipe_ended_def pipe_ok_def intro: drain_ok_piping split: if_splits)
qed (use st pc i in \<open>auto simp: drain_inv_def pipe_ended_def pipe_ok_def step_defs split: option.splits if_splits\<close>)

lemma wstep_drain:
  assumes i: "drain_inv s" "reads_inv s" "conserves s" and st: "wstep a s = Some s'"
  shows "drain_inv s'"
proof (cases a)
  case (ASubmit job)
  have "worker_inv (s_w s)" using i(3) by (simp add: conserves_def)
  note f = submit_step_worker [OF this]
  show ?thesis using ASubmit st i(1) f(9) [of job]
    by (auto simp: drain_inv_def f(1-8) submit_step_frame elim!: drain_ok_mono)
next
  case (AMain t)
  then show ?thesis using st main_step_drain [OF i] by auto
next
  case (APipe t)
  then show ?thesis using st pipe_step_drain [OF i(1)] by auto
next
  case (AReader k)
  then have "worker_jobs (s_w s') = worker_jobs (s_w s)" "reader_locks (s_readers s') \<le> reader_locks (s_readers s)"
    using st reader_step_frame [of k s s'] by (auto simp: worker_jobs_def)
  then show ?thesis using st i(1) AReader reader_step_frame [of k s s']
    by (auto simp: drain_inv_def elim!: drain_ok_mono)
next
  case (ACtl t)
  then show ?thesis using st i(1) ctl_step_frame [of t "s_ctl s" s s'] by (simp add: drain_inv_def)
next
  case (ABeginStop d)
  then show ?thesis using st i(1) by (auto simp: drain_inv_def set_w_def elim!: drain_ok_mono)
qed (use i(1) st in \<open>auto simp: drain_inv_def step_defs split: if_splits\<close>)

subsection \<open>Dispatched reads\<close>

text \<open>Jobs move between the open reads and the finished ones; only \<open>dispatchRead\<close> adds a read.\<close>

lemma order_invI:
  assumes "order_inv s" "set (s_dispatched s') \<subseteq> set (s_dispatched s) \<union> R"
    and "set (s_finished s) \<union> set_mset (open_reads s) \<union> R \<subseteq> set (s_finished s') \<union> set_mset (open_reads s')"
  shows "order_inv s'"
  using assms unfolding order_inv_def by blast

lemma main_step_order:
  assumes i: "order_inv s" and st: "main_step t pc s = Some s'" and pc: "s_main s = pc"
  shows "order_inv s'"
proof (cases pc)
  case (MWrite p e)
  then obtain p' s1 where w: "write_step p e s = Some (p', s1)"
    and s': "s' = s1 \<lparr> s_main := (case p' of None \<Rightarrow> MTop | Some q \<Rightarrow> MWrite q e) \<rparr>"
    using st by auto
  have o: "open_reads s = mset (chan_jobs (s_w s)) + pipe_held (s_pipe s) + readers_held (s_readers s) + pending_jobs (s_w s)"
    using MWrite pc by (simp add: open_reads_def)
  have o': "open_reads s' = mset (chan_jobs (s_w s)) + pipe_held (s_pipe s) + readers_held (s_readers s) + pending_jobs (s_w s1)"
    using write_step_frame(1) [OF w] write_step_worker(3) [OF w] by (simp add: open_reads_def s' split: option.splits)
  have "set_mset (pending_jobs (s_w s)) \<union> set (s_finished s) \<subseteq> set_mset (pending_jobs (s_w s1)) \<union> set (s_finished s1)"
    using w by (cases p) (auto simp: step_defs Let_def split: if_splits)
  moreover have "s_dispatched s' = s_dispatched s" "s_finished s' = s_finished s1"
    using write_step_frame(1) [OF w] by (simp_all add: s')
  ultimately show ?thesis by (intro order_invI [OF i, of s' "{}"]) (auto simp: o o')
next
  case MNext
  then show ?thesis using st pc
    by (intro order_invI [OF i, of s' "{}"]) (auto simp: open_reads_def step_defs split: option.splits prod.splits)
next
  case (MDispatch e)
  then show ?thesis using st pc
    by (intro order_invI [OF i, of s' "{e}"]) (auto simp: open_reads_def step_defs)
next
  case (MSend e)
  then show ?thesis using st pc
    by (intro order_invI [OF i, of s' "{}"]) (auto simp: open_reads_def step_defs chan_jobs_def split: option.splits if_splits)
next
  case (MFull e)
  then show ?thesis using st pc
    by (intro order_invI [OF i, of s' "{}"]) (auto simp: open_reads_def step_defs)
next
  case DPending
  then show ?thesis using st pc
    by (intro order_invI [OF i, of s' "{}"]) (auto simp: open_reads_def step_defs pending_jobs_def split: option.splits)
next
  case DDrainAll
  then show ?thesis using st pc
    by (intro order_invI [OF i, of s' "{}"]) (auto simp: open_reads_def step_defs split: option.splits)
next
  case (DRun es)
  then show ?thesis using st pc
    by (intro order_invI [OF i, of s' "{}"]) (auto simp: open_reads_def step_defs split: list.splits)
next
  case DResidual
  then show ?thesis using st pc
    by (intro order_invI [OF i, of s' "{}"]) (auto simp: open_reads_def step_defs split: if_splits)
qed (use st pc i in \<open>auto simp: order_inv_def open_reads_def step_defs split: option.splits if_splits\<close>)

lemma pipe_step_order:
  assumes i: "order_inv s" and st: "pipe_step t pc s = Some s'" and pc: "s_pipe s = pc"
  shows "order_inv s'"
proof (cases pc)
  case (PWrite p e)
  then obtain p' s1 where w: "write_step p e s = Some (p', s1)"
    and s': "s' = s1 \<lparr> s_pipe := (case p' of None \<Rightarrow> PRecv | Some q \<Rightarrow> PWrite q e) \<rparr>"
    using st by auto
  define m where "m = main_read (s_main s) + mset (chan_jobs (s_w s)) + readers_held (s_readers s)"
  have o: "open_reads s = m + pending_jobs (s_w s) + write_held (Some p) e"
    using PWrite pc by (simp add: open_reads_def m_def)
  have o': "open_reads s' = m + pending_jobs (s_w s1) + write_held p' e"
    using write_step_frame(1) [OF w] write_step_worker(3) [OF w] by (simp add: open_reads_def m_def s' split: option.splits)
  have "mset (s_finished s') + open_reads s' = mset (s_finished s) + open_reads s"
    unfolding o o' using write_step_jobs [OF w] by (simp add: s' ac_simps)
  then have "set (s_finished s') \<union> set_mset (open_reads s') = set (s_finished s) \<union> set_mset (open_reads s)"
    by (metis set_mset_mset set_mset_union)
  moreover have "s_dispatched s' = s_dispatched s" using write_step_frame(1) [OF w] by (simp add: s')
  ultimately show ?thesis by (intro order_invI [OF i, of s' "{}"]) auto
next
  case PRecv
  then show ?thesis using st pc
    by (intro order_invI [OF i, of s' "{}"])
      (auto simp: open_reads_def step_defs chan_jobs_def split: option.splits if_splits list.splits)
qed (use st pc i in \<open>auto simp: order_inv_def open_reads_def step_defs split: option.splits if_splits\<close>)

lemma wstep_order:
  assumes i: "order_inv s" "worker_inv (s_w s)" and st: "wstep a s = Some s'"
  shows "order_inv s'"
proof (cases a)
  case (ASubmit job)
  then show ?thesis using st i(1)
    by (auto simp: order_inv_def open_reads_def submit_step_frame submit_step_worker [OF i(2)])
next
  case (AMain t)
  then show ?thesis using st main_step_order [OF i(1)] by auto
next
  case (APipe t)
  then show ?thesis using st pipe_step_order [OF i(1)] by auto
next
  case (AReader k)
  then have r: "reader_step k s = Some s'" using st by simp
  note f = reader_step_frame [OF r]
  have "chan_jobs (s_w s') = chan_jobs (s_w s)" "pending_jobs (s_w s') = pending_jobs (s_w s)"
    using f by (auto simp: chan_jobs_def pending_jobs_def)
  then have "mset (s_finished s') + open_reads s' = mset (s_finished s) + open_reads s"
    using f by (auto simp: open_reads_def ac_simps)
  then have "set (s_finished s') \<union> set_mset (open_reads s') = set (s_finished s) \<union> set_mset (open_reads s)"
    by (metis set_mset_mset set_mset_union)
  then show ?thesis using i(1) f by (auto simp: order_inv_def)
next
  case (ACtl t)
  then show ?thesis using st i(1) ctl_step_frame [of t "s_ctl s" s s'] by (simp add: order_inv_def open_reads_def)
next
  case (ABeginStop d)
  then show ?thesis using st i(1) by (auto simp: order_inv_def open_reads_def set_w_def)
qed (use i(1) st in \<open>auto simp: order_inv_def open_reads_def step_defs split: if_splits\<close>)

subsection \<open>Runs\<close>

lemma wstep_inv: "wsys_inv s \<Longrightarrow> wstep a s = Some s' \<Longrightarrow> wsys_inv s'"
  unfolding wsys_inv_def
  using wstep_conserves wstep_lock wstep_count wstep_reads wstep_drain wstep_order conserves_def by metis

lemma wrun_inv: "wsys_inv s \<Longrightarrow> wrun as s = Some s' \<Longrightarrow> wsys_inv s'"
  by (induction as arbitrary: s) (auto simp: Option.bind_eq_Some_conv intro: wstep_inv)

lemma worker_Start_inv: "fresh_worker w rw \<Longrightarrow> wsys_inv (worker_Start rw w)"
  by (auto simp: fresh_worker_def wsys_inv_def worker_Start_def conserves_def in_worker_def chan_jobs_def pending_jobs_def
      lock_inv_def lock_ok_def held_ok_def writers_in_def count_inv_def count_ok_def reads_inv_def drain_inv_def drain_ok_def
      pipe_ok_def order_inv_def)

text \<open>What \<open>newWorker\<close> and \<open>newRWController\<close> build is such a start.\<close>

lemma createQueueManager_empty:
  assumes "createQueueManager ncpu z pick spec = Inr m" "\<forall>c \<in> set (spec_capacities spec). c < 2 ^ 63"
    and "\<forall>p. qs_priority spec = Some p \<longrightarrow> gm_wf (ps_priorities p)"
  shows "qm_inv m \<and> qm_jobs m = {#}"
proof (cases "qs_mode spec = QueueModeDual")
  case True
  then obtain d where d: "m = QMDual d"
    "(if qs_backend spec = ''unbounded'' then NewDualQueueManager ncpu z pick else newDualQueueManager z pick spec) = Inr d"
    using assms(1) by (auto simp: createQueueManager_def)
  then show ?thesis using default_manager [of ncpu z pick] newDualQueueManager_ok [of z pick spec d] assms(2)
    by (auto split: if_splits)
next
  case False
  then obtain d where d: "m = QMPriority d" "newPriorityQueueManager z pick spec = Inr d"
    using assms(1) by (auto simp: createQueueManager_def split: if_splits)
  then obtain p where "qs_priority spec = Some p" by (auto simp: newPriorityQueueManager_def split: option.splits)
  then show ?thesis using newPriorityQueueManager_ok [OF d(2) assms(2)] assms(3) d(1) by auto
qed

lemma newWorker_fresh:
  assumes "newWorker ncpu z pick i conf spec pol = Inr w" "newRWController newPool conf = Inr rw"
    and "\<forall>c \<in> set (spec_capacities spec). c < 2 ^ 63" "\<forall>p. qs_priority spec = Some p \<longrightarrow> gm_wf (ps_priorities p)"
  shows "fresh_worker w rw"
proof -
  obtain m where m: "createQueueManager ncpu z pick spec = Inr m" "wk_queueManager w = Some m"
    using assms(1) by (auto simp: newWorker_def)
  have "worker_inv w" "worker_jobs w = {#}"
    using createQueueManager_empty [OF m(1) assms(3,4)] m(2) by (simp_all add: worker_inv_def worker_jobs_def)
  moreover have "rw_enabled rw = mc_EnableRWMode conf" "rw_muReaders rw = 0" "\<not> rw_muWriter rw"
    using assms(2) by (auto simp: newRWController_def Let_def split: if_splits option.splits)
  ultimately show ?thesis using assms(1) by (auto simp: fresh_worker_def newWorker_def)
qed

lemma readers_none:
  assumes "reader_locks ps = 0" "p \<in> set ps"
  shows "p \<noteq> RExec e"
proof
  assume "p = RExec e"
  then have "reader_lock p = 1" by simp
  then show False using assms member_le_sum_list [of "reader_lock p" "map reader_lock ps"] by (simp add: reader_locks_def)
qed

lemma readers_held_none: "reader_locks ps = 0 \<Longrightarrow> readers_held ps = {#}"
proof (induction ps)
  case (Cons p ps)
  then show ?case by (cases p) (simp_all add: reader_locks_def readers_held_def)
qed simp

text \<open>Nobody but the switch makes the pipeline write.\<close>

lemma steady_step:
  assumes i: "steady s" "drain_inv s" and a: "\<forall>t. a \<noteq> ACtl t" and w: "worker_inv (s_w s)" and st: "wstep a s = Some s'"
  shows "steady s'"
proof (cases a)
  case (ASubmit job)
  then show ?thesis using st i(1) by (auto simp: steady_def is_closed_def submit_step_frame submit_step_worker [OF w])
next
  case (AMain t)
  then have m: "main_step t (s_main s) s = Some s'" using st by simp
  show ?thesis
  proof (cases "s_main s")
    case (MWrite p e)
    then obtain p' s1 where w: "write_step p e s = Some (p', s1)"
      and s': "s' = s1 \<lparr> s_main := (case p' of None \<Rightarrow> MTop | Some q \<Rightarrow> MWrite q e) \<rparr>" using m by auto
    have none: "wk_pendingJob (s_w s) = None" using i(1) MWrite by (simp add: steady_def)
    have "wk_pendingJob (s_w s1) \<noteq> None \<longrightarrow> p' = None \<and> is_closed s"
      using w none by (cases p) (auto simp: step_defs Let_def split: if_splits)
    then show ?thesis using i(1) write_step_frame [OF w] by (auto simp: steady_def s' is_closed_def)
  next
    case MNext
    then show ?thesis using m i(1) by (auto simp: steady_def step_defs split: option.splits prod.splits)
  qed (use m i(1) in \<open>auto simp: steady_def step_defs split: option.splits if_splits list.splits\<close>)
next
  case (APipe t)
  then have m: "pipe_step t (s_pipe s) s = Some s'" using st by simp
  show ?thesis
    using m i(1) by (cases "s_pipe s") (auto simp: steady_def step_defs split: option.splits if_splits list.splits)
next
  case (AReader k)
  then show ?thesis using st i(1) reader_step_frame [of k s s'] by (auto simp: steady_def is_closed_def)
next
  case (ABeginStop d)
  then show ?thesis using st i(1) by (auto simp: steady_def set_w_def is_closed_def)
qed (use a i(1) st in \<open>auto simp: steady_def step_defs split: if_splits\<close>)

lemma steady_run:
  "wsys_inv s \<Longrightarrow> steady s \<Longrightarrow> \<forall>t. ACtl t \<notin> set as \<Longrightarrow> wrun as s = Some s' \<Longrightarrow> steady s'"
proof (induction as arbitrary: s)
  case (Cons a as)
  then obtain s1 where s1: "wstep a s = Some s1" "wrun as s1 = Some s'" by (auto simp: Option.bind_eq_Some_conv)
  have "steady s1" using steady_step [OF Cons.prems(2) _ _ _ s1(1)] Cons.prems(1,3)
    by (auto simp: wsys_inv_def conserves_def)
  then show ?case using Cons.IH [OF wstep_inv [OF Cons.prems(1) s1(1)]] Cons.prems(3) s1(2) by simp
qed simp

lemma rw_example_fresh: "fresh_worker rw_worker_example rw_controller_example"
proof -
  have "qm_inv (QMDual (example_dual [] []))" by (simp add: example_dual_ok)
  moreover have "qm_jobs (QMDual (example_dual [] [])) = {#}"
    by (simp add: dm_jobs_def example_dual_def example_queue_ok)
  ultimately show ?thesis
    by (simp add: fresh_worker_def rw_worker_example_def rw_controller_example_def worker_inv_def worker_jobs_def)
qed

lemma read_then_write_runs:
  "map_option (\<lambda>s. (s_main s, s_dispatched s)) (wrun read_then_write (worker_Start rw_controller_example rw_worker_example))
     = Some (MWrite WExec write_job_example, [read_job_example])"
  by code_simp

lemma read_write_stop_runs:
  "map_option (\<lambda>s. (s_main s, s_timedOut s, s_accepted s)) (wrun read_write_stop (worker_Start rw_controller_example rw_worker_example))
     = Some (MDone, False, [read_job_example, write_job_example])"
  by code_simp

lemma disable_between_runs:
  "map_option (\<lambda>s. (s_ctl s, rw_enabled (s_rw s), rw_disabling (s_rw s), s_main s, s_pipe s))
       (wrun disable_between (worker_Start rw_controller_example rw_worker_example))
     = Some (CIdle, False, False, MPlain write_job_example, PWrite WExec read_job_example)"
  by code_simp

section \<open>Properties\<close>

text \<open>
  C1. Whatever the interleaving of submitters, main loop, read pipeline, read goroutines, stop
  requests, mode switch and other workers: every job that \<open>SubmitJob\<close> admitted is in exactly one
  place inside the worker or was disposed of, exactly once. When \<open>run\<close> has returned and no stop
  timeout struck, every admitted job was disposed of; and from the moment the drain begins nothing
  more is admitted.
\<close>

theorem worker_loses_nothing:
  assumes "fresh_worker w rw" "wrun as (worker_Start rw w) = Some s"
  shows "mset (s_accepted s) = in_worker s + mset (s_finished s)
    \<and> (s_main s = MDone \<and> \<not> s_timedOut s \<longrightarrow> mset (s_finished s) = mset (s_accepted s))
    \<and> (1 \<le> drain_phase (s_main s) \<longrightarrow> s_accepted (submit_step job s) = s_accepted s)"
proof (intro conjI impI)
  have i: "wsys_inv s" using wrun_inv [OF worker_Start_inv] assms by blast
  then have c: "mset (s_accepted s) = in_worker s + mset (s_finished s)" by (simp add: wsys_inv_def conserves_def)
  then show "mset (s_accepted s) = in_worker s + mset (s_finished s)" .
  show "mset (s_finished s) = mset (s_accepted s)" if m: "s_main s = MDone \<and> \<not> s_timedOut s"
  proof -
    have d: "pipe_ended (s_pipe s)" "reader_locks (s_readers s) = 0" "wk_pendingJob (s_w s) = None" "worker_jobs (s_w s) = {#}"
      "pipe_ok (s_pipe s) (wk_readCh (s_w s)) (wk_readChClosed (s_w s))"
      using i m by (simp_all add: wsys_inv_def drain_inv_def drain_ok_def)
    have "pipe_held (s_pipe s) = {#}" "chan_jobs (s_w s) = []"
      using d(1,5) by (auto simp: pipe_ended_def pipe_ok_def chan_jobs_def)
    then show ?thesis using c d m readers_held_none [OF d(2)] by (simp add: in_worker_def pending_jobs_def)
  qed
  show "s_accepted (submit_step job s) = s_accepted s" if "1 \<le> drain_phase (s_main s)"
    using that i by (simp add: wsys_inv_def drain_inv_def drain_ok_def submit_step_def SubmitJob_def)
qed

theorem worker_loses_nothing_witness:
  "\<exists>s. wrun read_write_stop (worker_Start rw_controller_example rw_worker_example) = Some s
     \<and> s_main s = MDone \<and> mset (s_finished s) = {#read_job_example, write_job_example#}
     \<and> s_accepted (submit_step read_job_example s) = [read_job_example, write_job_example]"
proof -
  obtain s where s: "wrun read_write_stop (worker_Start rw_controller_example rw_worker_example) = Some s"
    "s_main s = MDone" "\<not> s_timedOut s" "s_accepted s = [read_job_example, write_job_example]"
    using read_write_stop_runs by auto
  have d: "1 \<le> drain_phase (s_main s)" using s(2) by simp
  note p = worker_loses_nothing [OF rw_example_fresh s(1), of read_job_example, THEN conjunct2]
  have "mset (s_finished s) = {#read_job_example, write_job_example#}"
    using p [THEN conjunct1] s(2-4) by simp
  moreover have "s_accepted (submit_step read_job_example s) = [read_job_example, write_job_example]"
    using p [THEN conjunct2] d s(4) by simp
  ultimately show ?thesis using s(1,2) by blast
qed

text \<open>
  C2. Writes exclude reads. While the main loop, the read pipeline or the drain holds the write
  lock, no read goroutine of the worker executes, no other of these three is inside, and no other
  worker reads or writes.
\<close>

theorem rw_exclusion:
  assumes "fresh_worker w rw" "wrun as (worker_Start rw w) = Some s"
    and "s_main s = MWrite WExec e \<or> s_pipe s = PWrite WExec e \<or> s_lockHeld s"
  shows "(\<forall>p \<in> set (s_readers s). \<forall>e'. p \<noteq> RExec e') \<and> \<not> s_envWriter s \<and> s_envReaders s = 0
     \<and> main_lock (s_main s) + pipe_lock (s_pipe s) + of_bool (s_lockHeld s) = 1"
proof -
  have "lock_inv s" using wrun_inv [OF worker_Start_inv] assms by (auto simp: wsys_inv_def)
  then have l: "of_bool (s_envWriter s) + main_lock (s_main s) + pipe_lock (s_pipe s) + of_bool (s_lockHeld s)
       = of_bool (rw_muWriter (s_rw s))"
    "s_envReaders s + reader_locks (s_readers s) + pipe_rlock (s_pipe s) = rw_muReaders (s_rw s)"
    "rw_muWriter (s_rw s) \<longrightarrow> rw_muReaders (s_rw s) = 0"
    by (simp_all add: lock_inv_def lock_ok_def writers_in_def)
  have one: "1 \<le> main_lock (s_main s) + pipe_lock (s_pipe s) + of_bool (s_lockHeld s)"
    using assms(3) by auto
  then have w: "rw_muWriter (s_rw s)" using l(1) by (cases "rw_muWriter (s_rw s)") auto
  then have "reader_locks (s_readers s) = 0" "s_envReaders s = 0" using l(2,3) by auto
  moreover have "\<not> s_envWriter s" "main_lock (s_main s) + pipe_lock (s_pipe s) + of_bool (s_lockHeld s) = 1"
    using l(1) w one by (cases "s_envWriter s"; simp)+
  ultimately show ?thesis using readers_none by blast
qed

theorem rw_exclusion_witness:
  "\<exists>s. wrun read_then_write (worker_Start rw_controller_example rw_worker_example) = Some s
     \<and> s_main s = MWrite WExec write_job_example \<and> pipe_lock (s_pipe s) = 0 \<and> \<not> s_envWriter s"
proof -
  obtain s where s: "wrun read_then_write (worker_Start rw_controller_example rw_worker_example) = Some s"
    "s_main s = MWrite WExec write_job_example"
    using read_then_write_runs by auto
  show ?thesis using rw_exclusion [OF rw_example_fresh s(1), of write_job_example] s by auto
qed

text \<open>
  C3. Reads come before later writes. As long as the read/write mode is not switched off at
  runtime, when the main loop executes a write, every read that it dispatched before has been
  disposed of.
\<close>

theorem read_before_write:
  assumes "fresh_worker w rw" "rw_enabled rw" "\<forall>t. ACtl t \<notin> set as" "wrun as (worker_Start rw w) = Some s"
    and "s_main s = MWrite WExec e"
  shows "set (s_dispatched s) \<subseteq> set (s_finished s)"
proof -
  have i: "wsys_inv s" using wrun_inv [OF worker_Start_inv] assms by blast
  have "steady (worker_Start rw w)" using assms(1,2) by (simp add: steady_def worker_Start_def fresh_worker_def)
  then have st: "steady s" using steady_run [OF worker_Start_inv] assms by blast
  have r: "reader_locks (s_readers s) = 0" and p: "pipe_lock (s_pipe s) = 0"
    using i assms(5) by (auto simp: wsys_inv_def lock_inv_def lock_ok_def writers_in_def of_bool_def split: if_splits)
  have c: "chan_jobs (s_w s) = []" "pipe_unlaunched (s_pipe s) = 0"
    using i assms(5) by (auto simp: wsys_inv_def count_inv_def count_ok_def)
  have "pipe_held (s_pipe s) = {#}" using c(2) st by (cases "s_pipe s") (auto simp: steady_def)
  moreover have "pending_jobs (s_w s) = {#}" using st assms(5) by (auto simp: steady_def pending_jobs_def)
  ultimately have "open_reads s = {#}" using c assms(5) readers_held_none [OF r] by (simp add: open_reads_def)
  then show ?thesis using i by (simp add: wsys_inv_def order_inv_def)
qed

theorem read_before_write_witness:
  "\<exists>s. wrun read_then_write (worker_Start rw_controller_example rw_worker_example) = Some s
     \<and> read_job_example \<in> set (s_finished s)"
proof -
  obtain s where s: "wrun read_then_write (worker_Start rw_controller_example rw_worker_example) = Some s"
    "s_main s = MWrite WExec write_job_example" "s_dispatched s = [read_job_example]"
    using read_then_write_runs by auto
  have "rw_enabled rw_controller_example" "\<forall>t. ACtl t \<notin> set read_then_write"
    by (simp_all add: rw_controller_example_def read_then_write_def)
  from read_before_write [OF rw_example_fresh this s(1,2)] show ?thesis using s(1,3) by auto
qed

text \<open>
  Switching the mode off is not safe against a dispatch in progress. There is a run in which
  \<open>SetRWEnabled(false)\<close> returns successfully while the main loop is between its check of the mode
  and the counter of dispatched reads; afterwards the pipeline executes that read under the lock
  while the main loop executes the next job without it: two jobs of one worker at the same time,
  and a read after a later write has begun.
\<close>

theorem disable_races_with_dispatch:
  "\<exists>as s. wrun as (worker_Start rw_controller_example rw_worker_example) = Some s
     \<and> s_ctl s = CIdle \<and> \<not> rw_enabled (s_rw s) \<and> \<not> rw_disabling (s_rw s)
     \<and> s_main s = MPlain write_job_example \<and> s_pipe s = PWrite WExec read_job_example"
  using disable_between_runs by auto

end
