(* ===== verification/Dispatch_Ring.thy ===== *)
theory Dispatch_Ring
  imports Float64
begin

text \<open>
  \<open>engine/pkg/actor/mailbox/dispatch_ring.go\<close>: the ring that routes a dispatcher key to a worker,
  built on jump consistent hashing. The hash of the key (\<open>xxhash.Sum64String\<close>, third party) is a
  parameter. The loop of \<open>jumpHash\<close> works on \<open>float64\<close> values; they are computed with \<open>fl64\<close>.
  A loop that does not end would be \<open>None\<close>; \<open>jumpHash_total\<close> shows that this never happens.
\<close>

section \<open>Definitions\<close>

record dispatch_ring =
  dr_sortedIDs :: "int list"

definition newDispatchRing :: "int list \<Rightarrow> dispatch_ring" where
  "newDispatchRing ids = \<lparr> dr_sortedIDs = sort ids \<rparr>"

definition jump_key :: "u64 \<Rightarrow> u64" where
  "jump_key key = key * 2862933555777941757 + 1"

text \<open>\<open>int64(float64(b+1) * (float64(1<<31) / float64((key>>33)+1)))\<close>\<close>

definition jump_next :: "u64 \<Rightarrow> int \<Rightarrow> int" where
  "jump_next key b =
     \<lfloor>fl64 (fl64 (of_int (b + 1)) * fl64 (fl64 (2 ^ 31) / fl64 (of_int (uint (drop_bit 33 key + 1)))))\<rfloor>"

partial_function (option) jump_loop :: "int \<Rightarrow> u64 \<Rightarrow> int \<Rightarrow> int \<Rightarrow> int option" where
  [code]: "jump_loop n key b j =
     (if j < n then jump_loop n (jump_key key) j (jump_next (jump_key key) j) else Some b)"

definition jumpHash :: "u64 \<Rightarrow> int \<Rightarrow> int option" where
  "jumpHash key n = (if n \<le> 0 then Some 0 else jump_loop n key (- 1) 0)"

definition DispatchRing_Get :: "(string \<Rightarrow> u64) \<Rightarrow> dispatch_ring option \<Rightarrow> string \<Rightarrow> (int \<times> bool) option" where
  "DispatchRing_Get sum64 r key =
     (case r of
        None \<Rightarrow> Some (0, False)
      | Some r \<Rightarrow>
          if length (dr_sortedIDs r) = 0 then Some (0, False)
          else (case jumpHash (sum64 key) (int (length (dr_sortedIDs r))) of
                  None \<Rightarrow> None
                | Some idx \<Rightarrow> Some (dr_sortedIDs r ! nat idx, True)))"

definition DispatchRing_Len :: "dispatch_ring option \<Rightarrow> nat" where
  "DispatchRing_Len r = (case r of None \<Rightarrow> 0 | Some r \<Rightarrow> length (dr_sortedIDs r))"

section \<open>Each jump moves forward\<close>

lemma shifted_key_bounds:
  fixes key :: u64
  shows "1 \<le> uint (drop_bit 33 key + 1)" "uint (drop_bit 33 key + 1) \<le> 2 ^ 31"
proof -
  have "uint (drop_bit 33 key) = drop_bit 33 (uint key)"
    using uint_lt2p [of key] by (simp only: unsigned_drop_bit_eq) (simp add: take_bit_int_eq_self)
  then have "uint (drop_bit 33 key) = uint key div 2 ^ 33" by (simp add: drop_bit_eq_div)
  moreover have "uint key < 2 ^ 64" using uint_lt2p [of key] by simp
  ultimately have "uint (drop_bit 33 key) < 2 ^ 31" by auto
  then have r: "0 \<le> uint (drop_bit 33 key)" "uint (drop_bit 33 key) < 2 ^ 31" by auto
  have "uint (drop_bit 33 key + 1) = (uint (drop_bit 33 key) + 1) mod 2 ^ 64"
    by (simp add: uint_word_ariths)
  also have "\<dots> = uint (drop_bit 33 key) + 1" using r by (intro mod_pos_pos_trivial) auto
  finally show "1 \<le> uint (drop_bit 33 key + 1)" "uint (drop_bit 33 key + 1) \<le> 2 ^ 31" using r by auto
qed

lemma jump_ratio_bounds:
  assumes "1 \<le> k" "k \<le> 2 ^ 31"
  shows "1 \<le> fl64 (fl64 (2 ^ 31) / fl64 (of_int k))" "fl64 (fl64 (2 ^ 31) / fl64 (of_int k)) \<le> 2 ^ 31"
proof -
  have k: "fl64 (of_int k) = of_int k" using assms by (intro fl64_of_int) auto
  have kq: "(1::rat) \<le> of_int k" "(of_int k :: rat) \<le> 2 ^ 31"
    using assms of_int_le_iff [of 1 k, where 'a=rat] of_int_le_iff [of k "2 ^ 31", where 'a=rat] by auto
  then have "1 \<le> (2 ^ 31 :: rat) / of_int k" by (simp add: le_divide_eq)
  then have "of_int 1 \<le> fl64 ((2 ^ 31 :: rat) / of_int k)" by (intro fl64_ge_int) auto
  then show "1 \<le> fl64 (fl64 (2 ^ 31) / fl64 (of_int k))" by (simp add: k fl64_pow2 [of 31, simplified])
  have "(2 ^ 31 :: rat) / of_int k \<le> 2 ^ 31" using kq by (simp add: divide_le_eq)
  then have "fl64 ((2 ^ 31 :: rat) / of_int k) \<le> 2 ^ 31" by (rule fl64_le_pow2)
  then show "fl64 (fl64 (2 ^ 31) / fl64 (of_int k)) \<le> 2 ^ 31" by (simp add: k fl64_pow2 [of 31, simplified])
qed

text \<open>The next candidate is beyond the current one, and the conversion to \<open>int64\<close> is in range.\<close>

lemma jump_next_bounds:
  assumes "0 \<le> b" "b < 2 ^ 31"
  shows "b < jump_next key b" "jump_next key b < 2 ^ 63"
proof -
  let ?r = "fl64 (fl64 (2 ^ 31) / fl64 (of_int (uint (drop_bit 33 key + 1))))"
  note R = jump_ratio_bounds [OF shifted_key_bounds [of key]]
  have b1: "fl64 (of_int (b + 1)) = of_int (b + 1)" using assms by (intro fl64_of_int) auto
  have bq: "(of_int (b + 1) :: rat) \<le> 2 ^ 31" "(0::rat) \<le> of_int (b + 1)"
    using assms of_int_le_iff [of "b + 1" "2 ^ 31", where 'a=rat] by auto
  have "of_int (b + 1) \<le> of_int (b + 1) * ?r" using mult_left_mono [OF R(1) bq(2)] by simp
  then have "of_int (b + 1) \<le> fl64 (of_int (b + 1) * ?r)" using assms by (intro fl64_ge_int) auto
  then have "b + 1 \<le> jump_next key b" unfolding jump_next_def b1 by (simp only: le_floor_iff)
  then show "b < jump_next key b" by simp
  have "of_int (b + 1) * ?r \<le> 2 ^ 31 * 2 ^ 31" using bq R by (intro mult_mono) auto
  then have "fl64 (of_int (b + 1) * ?r) \<le> 2 ^ 62" by (intro fl64_le_pow2) simp
  then have "of_int (jump_next key b) \<le> (of_int (2 ^ 62) :: rat)"
    unfolding jump_next_def b1 using of_int_floor_le order_trans by fastforce
  then have "jump_next key b \<le> 2 ^ 62" by (simp only: of_int_le_iff)
  then show "jump_next key b < 2 ^ 63" by simp
qed

lemma jump_loop_total:
  assumes "n \<le> 2 ^ 31 - 1" "0 \<le> j" "b < j" "b < n" "0 \<le> b \<or> j < n"
  shows "\<exists>r. jump_loop n key b j = Some r \<and> 0 \<le> r \<and> r < n"
  using assms(2-)
proof (induction "nat (n - j)" arbitrary: key b j rule: less_induct)
  case less
  show ?case
  proof (cases "j < n")
    case True
    let ?j = "jump_next (jump_key key) j"
    have "j < ?j" using jump_next_bounds(1) [of j "jump_key key"] less(2) True assms(1) by simp
    then have "\<exists>r. jump_loop n (jump_key key) j ?j = Some r \<and> 0 \<le> r \<and> r < n"
      using less(2) True by (intro less(1)) auto
    then show ?thesis using True by (simp add: jump_loop.simps [of n key])
  next
    case False
    then show ?thesis using less by (simp add: jump_loop.simps [of n key])
  qed
qed

lemma jumpHash_total: "n \<le> 2 ^ 31 - 1 \<Longrightarrow> 0 < n \<Longrightarrow> \<exists>r. jumpHash key n = Some r \<and> 0 \<le> r \<and> r < n"
  using jump_loop_total [of n 0 "- 1" key] by (simp add: jumpHash_def)

lemma jump_loop_grow:
  assumes "n + 1 \<le> 2 ^ 31 - 1" "0 \<le> j" "jump_loop n key b j = Some r"
    "jump_loop (n + 1) key b j = Some r'"
  shows "r' = r \<or> r' = n"
  using assms(2-)
proof (induction "nat (n - j)" arbitrary: key b j rule: less_induct)
  case less
  let ?j = "jump_next (jump_key key) j"
  consider "j < n" | "j = n" | "n < j" by linarith
  then show ?case
  proof cases
    case 1
    have "j < ?j" using jump_next_bounds(1) [of j "jump_key key"] less(2) 1 assms(1) by simp
    with 1 less show ?thesis
      by (intro less(1) [of ?j "jump_key key" j])
        (simp_all add: jump_loop.simps [of n key] jump_loop.simps [of "n + 1" key])
  next
    case 2
    have "n < ?j" using jump_next_bounds(1) [of j "jump_key key"] less(2) 2 assms(1) by simp
    with 2 less show ?thesis
      by (simp add: jump_loop.simps [of "n + 1" key] jump_loop.simps [of "n + 1" "jump_key key"])
  next
    case 3
    then show ?thesis using less by (simp add: jump_loop.simps [of n key] jump_loop.simps [of "n + 1" key])
  qed
qed

section \<open>Properties\<close>

text \<open>
  C36. \<open>jumpHash\<close> terminates for every key and every \<open>int32\<close> number of buckets, although its loop
  runs on rounded floating-point values, and returns a bucket in \<open>[0, n)\<close>. It is consistent: when
  a bucket is added, a key keeps its bucket or moves to the new one, never between old ones.
\<close>

theorem jumpHash_consistent:
  assumes "0 < n" "n + 1 \<le> 2 ^ 31 - 1"
  shows "\<exists>r r'. jumpHash key n = Some r \<and> 0 \<le> r \<and> r < n
              \<and> jumpHash key (n + 1) = Some r' \<and> (r' = r \<or> r' = n)"
proof -
  obtain r where r: "jumpHash key n = Some r" "0 \<le> r" "r < n"
    using jumpHash_total [of n key] assms by auto
  obtain r' where r': "jumpHash key (n + 1) = Some r'"
    using jumpHash_total [of "n + 1" key] assms by auto
  have "r' = r \<or> r' = n"
    using jump_loop_grow [OF assms(2), of 0 key "- 1" r r'] r r' assms(1) by (simp add: jumpHash_def)
  with r r' show ?thesis by blast
qed

theorem jumpHash_consistent_witness:
  "\<exists>r r'. jumpHash 7 3 = Some r \<and> r < 3 \<and> jumpHash 7 4 = Some r' \<and> (r' = r \<or> r' = 3)"
  using jumpHash_consistent [of 3 7] by auto

text \<open>
  Routing: on a ring of at least one worker \<open>Get\<close> returns the id of a worker of the ring, the
  same one for every order in which the ids were collected; the empty and the nil ring report that
  there is none. The index into the sorted ids is always in range.
\<close>

theorem DispatchRing_Get_member:
  assumes "length ids \<le> 2 ^ 31 - 1"
  shows "(ids \<noteq> [] \<longrightarrow> (\<exists>w. DispatchRing_Get sum64 (Some (newDispatchRing ids)) key = Some (w, True) \<and> w \<in> set ids))
    \<and> (ids = [] \<longrightarrow> DispatchRing_Get sum64 (Some (newDispatchRing ids)) key = Some (0, False))
    \<and> DispatchRing_Get sum64 None key = Some (0, False)
    \<and> (mset ids' = mset ids \<longrightarrow>
         DispatchRing_Get sum64 (Some (newDispatchRing ids')) key = DispatchRing_Get sum64 (Some (newDispatchRing ids)) key)"
proof -
  have "\<exists>w. DispatchRing_Get sum64 (Some (newDispatchRing ids)) key = Some (w, True) \<and> w \<in> set ids"
    if ne: "ids \<noteq> []"
  proof -
    let ?n = "int (length ids)"
    have "?n \<le> 2 ^ 31 - 1" using assms by simp
    moreover have "0 < ?n" using ne by simp
    ultimately obtain i where i: "jumpHash (sum64 key) ?n = Some i" "0 \<le> i" "i < ?n"
      using jumpHash_total by blast
    then have "nat i < length (sort ids)" by simp
    then have "sort ids ! nat i \<in> set ids" using nth_mem [of "nat i" "sort ids"] by simp
    then show ?thesis using i ne by (simp add: DispatchRing_Get_def newDispatchRing_def)
  qed
  moreover have "sort ids' = sort ids" if "mset ids' = mset ids"
    using that by (metis mset_sort properties_for_sort sorted_sort)
  ultimately show ?thesis by (auto simp: DispatchRing_Get_def newDispatchRing_def)
qed

theorem DispatchRing_Get_member_witness:
  "\<exists>w. DispatchRing_Get (\<lambda>_. 42) (Some (newDispatchRing [5, 2, 9])) ''player-1'' = Some (w, True) \<and> w \<in> {5, 2, 9}"
  using conjunct1 [OF DispatchRing_Get_member [of "[5, 2, 9]" "\<lambda>_. 42" "''player-1''" "[]"]] by simp

end
