(* ===== verification/Auto_Scaler.thy ===== *)
theory Auto_Scaler
  imports Mailbox_Conf
begin

text \<open>
  Scaling of a worker pool: the strategies of \<open>actor/mailbox/strategy.go\<close>, their construction in
  \<open>strategy_factory.go\<close> and the decision with its cool-down in \<open>scaler.go\<close>. A worker is seen through
  \<open>GetJobLen\<close>, so a list of workers is the list of its queue lengths. The registry \<open>builderMap\<close>, to
  which services may add strategies of their own, is a parameter; \<open>builtin_builders\<close> is its initial
  content. \<open>now\<close> is the clock in nanoseconds. Strings are ASCII.
\<close>

section \<open>Definitions\<close>

subsection \<open>Strings\<close>

definition EqualFold :: "string \<Rightarrow> string \<Rightarrow> bool" where
  "EqualFold s t \<longleftrightarrow> ToLower s = ToLower t"

subsection \<open>Strategies\<close>

datatype strategy =
    MaxLoadStrategy (ml_IdleThreshold: int) (ml_MaxLoadThreshold: int)
  | CompositeStrategy (cs_Mode: string) (cs_Strategies: "strategy list")
  | CustomStrategy "int list \<Rightarrow> bool" "int list \<Rightarrow> int \<Rightarrow> bool"

type_synonym strategy_params = "(string, go_any) gomap"
type_synonym strategy_builder = "strategy list \<Rightarrow> strategy_params \<Rightarrow> strategy"

definition newCompositeStrategy :: strategy_builder where
  "newCompositeStrategy strategies params =
     (let mode = (case gm_get params ''Mode'' of Some (AnyString s) \<Rightarrow> s | _ \<Rightarrow> '''');
          mode = ToLower (TrimSpace mode)
      in CompositeStrategy (if mode = '''' then ''any'' else mode) strategies)"

definition newMaxLoadStrategy :: strategy_builder where
  "newMaxLoadStrategy strategies params =
     (let idleThreshold = (case gm_get params ''IdleThreshold'' of Some (AnyInt v) \<Rightarrow> v | _ \<Rightarrow> 50);
          maxLoadThreshold = (case gm_get params ''MaxLoadThreshold'' of Some (AnyInt v) \<Rightarrow> v | _ \<Rightarrow> 64)
      in MaxLoadStrategy idleThreshold maxLoadThreshold)"

fun ShouldScaleUp :: "strategy \<Rightarrow> int list \<Rightarrow> bool" where
  "ShouldScaleUp (MaxLoadStrategy idle maxLoad) workers = list_ex (\<lambda>w. w > maxLoad) workers"
| "ShouldScaleUp (CompositeStrategy mode ss) workers =
     (if EqualFold mode ''all'' then list_all (\<lambda>s. ShouldScaleUp s workers) ss
      else list_ex (\<lambda>s. ShouldScaleUp s workers) ss)"
| "ShouldScaleUp (CustomStrategy up down) workers = up workers"

fun ShouldScaleDown :: "strategy \<Rightarrow> int list \<Rightarrow> int \<Rightarrow> bool" where
  "ShouldScaleDown (MaxLoadStrategy idle maxLoad) workers mn =
     (if int (length workers) \<le> mn then False
      else int (length (filter (\<lambda>w. w = 0) workers)) > go_div (int (length workers) * idle) 100)"
| "ShouldScaleDown (CompositeStrategy mode ss) workers mn =
     (if EqualFold mode ''all'' then list_all (\<lambda>s. ShouldScaleDown s workers mn) ss
      else list_ex (\<lambda>s. ShouldScaleDown s workers mn) ss)"
| "ShouldScaleDown (CustomStrategy up down) workers mn = down workers mn"

subsection \<open>Construction\<close>

definition MaxLoadStrategyName :: string where "MaxLoadStrategyName = ''max_load''"
definition CompositeStrategyName :: string where "CompositeStrategyName = ''composite''"
definition maxStrategyDepth :: nat where "maxStrategyDepth = 10"

datatype strategy_error = StrategyTooDeep | UnknownStrategy string

definition builtin_builders :: "(string, strategy_builder) gomap" where
  "builtin_builders = [(MaxLoadStrategyName, newMaxLoadStrategy), (CompositeStrategyName, newCompositeStrategy)]"

definition RegisterStrategy :: "string \<Rightarrow> strategy_builder \<Rightarrow> (string, strategy_builder) gomap
    \<Rightarrow> (string, strategy_builder) gomap" where
  "RegisterStrategy name b builders = gm_set builders name b"

fun buildStrategyRecur :: "(string, strategy_builder) gomap \<Rightarrow> nat \<Rightarrow> worker_strategy_config option
      \<Rightarrow> strategy_error + strategy"
  and build_subs :: "(string, strategy_builder) gomap \<Rightarrow> nat \<Rightarrow> worker_strategy_config option list
      \<Rightarrow> strategy_error + strategy list" where
  "buildStrategyRecur builders depth None =
     (if depth > maxStrategyDepth then Inl StrategyTooDeep
      else Inr (newMaxLoadStrategy [] [(''minLoadThreshold'', AnyInt 64)]))"
| "buildStrategyRecur builders depth (Some (WorkerStrategyConfig nm ps mn mx gf sf cd subs)) =
     (if depth > maxStrategyDepth then Inl StrategyTooDeep
      else let name = (if nm = '''' then MaxLoadStrategyName else nm)
           in case gm_get builders name of
                None \<Rightarrow> Inl (UnknownStrategy name)
              | Some builder \<Rightarrow> and_then (build_subs builders (depth + 1) subs) (\<lambda>ss. Inr (builder ss ps)))"
| "build_subs builders depth [] = Inr []"
| "build_subs builders depth (item # rest) =
     and_then (buildStrategyRecur builders depth item) (\<lambda>s.
     and_then (build_subs builders depth rest) (\<lambda>ss. Inr (s # ss)))"

definition BuildStrategy :: "(string, strategy_builder) gomap \<Rightarrow> worker_strategy_config option
    \<Rightarrow> strategy_error + strategy" where
  "BuildStrategy builders cfg = buildStrategyRecur builders 0 cfg"

subsection \<open>The decision\<close>

definition clamp :: "int \<Rightarrow> int \<Rightarrow> int \<Rightarrow> int" where
  "clamp val mn mx = (if val < mn then mn else if val > mx then mx else val)"

text \<open>Conversion to \<open>int32\<close>, which keeps the low 32 bits.\<close>

definition wrap32 :: "int \<Rightarrow> int" where
  "wrap32 x = (x + 2 ^ 31) mod 2 ^ 32 - 2 ^ 31"

record auto_scaler =
  as_conf :: worker_strategy_config
  as_lastResizeTime :: int
  as_Strategy :: strategy

definition ShouldResize :: "int \<Rightarrow> int \<Rightarrow> int list \<Rightarrow> auto_scaler \<Rightarrow> (int \<times> bool) \<times> auto_scaler" where
  "ShouldResize now current workers s =
     (let conf = as_conf s;
          cur = wrap32 current;
          s' = s \<lparr> as_lastResizeTime := now \<rparr>;
          decide = (\<lambda>newSize. if newSize \<noteq> cur then ((newSize, True), s') else ((cur, False), s'))
      in if now - as_lastResizeTime s < ws_ResizeCoolDown conf then ((0, False), s)
         else if ShouldScaleUp (as_Strategy s) workers
         then let add = wrap32 \<lceil>fl64 (of_int cur * ws_GrowthFactor conf)\<rceil>
              in decide (clamp (wrap32 (cur + add)) (ws_MinWorkerNum conf) (ws_MaxWorkerNum conf))
         else if ShouldScaleDown (as_Strategy s) workers (ws_MinWorkerNum conf)
         then let reduce = wrap32 \<lfloor>fl64 (of_int cur * ws_ShrinkFactor conf)\<rfloor>
              in decide (clamp (wrap32 (cur - reduce)) (ws_MinWorkerNum conf) (ws_MaxWorkerNum conf))
         else ((wrap32 current, False), s'))"

text \<open>How deep a configuration is nested, and whether all its names are registered.\<close>

fun strategy_depth :: "worker_strategy_config option \<Rightarrow> nat" and subs_depth :: "worker_strategy_config option list \<Rightarrow> nat" where
  "strategy_depth None = 0"
| "strategy_depth (Some (WorkerStrategyConfig nm ps mn mx gf sf cd subs)) = subs_depth subs"
| "subs_depth [] = 0"
| "subs_depth (c # cs) = max (Suc (strategy_depth c)) (subs_depth cs)"

fun names_known :: "(string, strategy_builder) gomap \<Rightarrow> worker_strategy_config option \<Rightarrow> bool"
  and subs_known :: "(string, strategy_builder) gomap \<Rightarrow> worker_strategy_config option list \<Rightarrow> bool" where
  "names_known builders None = True"
| "names_known builders (Some (WorkerStrategyConfig nm ps mn mx gf sf cd subs)) =
     (gm_get builders (if nm = '''' then MaxLoadStrategyName else nm) \<noteq> None \<and> subs_known builders subs)"
| "subs_known builders [] = True"
| "subs_known builders (c # cs) = (names_known builders c \<and> subs_known builders cs)"

section \<open>Facts\<close>

lemma wrap32_id: "- (2 ^ 31) \<le> x \<Longrightarrow> x < 2 ^ 31 \<Longrightarrow> wrap32 x = x"
  by (simp add: wrap32_def)

lemma clamp_range: "mn \<le> mx \<Longrightarrow> mn \<le> clamp v mn mx \<and> clamp v mn mx \<le> mx"
  by (simp add: clamp_def)

lemma build_iff:
  "(\<exists>s. buildStrategyRecur b d c = Inr s) \<longleftrightarrow> names_known b c \<and> d + strategy_depth c \<le> maxStrategyDepth"
  "d \<le> Suc maxStrategyDepth \<Longrightarrow> (\<exists>ss. build_subs b d cs = Inr ss) \<longleftrightarrow>
     subs_known b cs \<and> (cs = [] \<or> d + subs_depth cs \<le> Suc maxStrategyDepth)"
proof (induction b d c and b d cs rule: buildStrategyRecur_build_subs.induct)
  case (2 builders depth nm ps mn mx gf sf cd subs)
  then show ?case by (cases "subs = []") (auto simp: Let_def split: option.splits)
next
  case (4 builders depth item rest)
  then show ?case by (auto simp: max_def)
qed auto

lemma shrink_bounds:
  assumes "0 \<le> cur" "cur < 2 ^ 31" "0 < sf" "sf \<le> 1 / 2"
  shows "0 \<le> \<lfloor>fl64 (of_int cur * sf)\<rfloor>" "\<lfloor>fl64 (of_int cur * sf)\<rfloor> \<le> cur"
proof -
  have "of_int cur * sf \<le> of_int cur * 1" using assms by (intro mult_left_mono) auto
  then have "fl64 (of_int cur * sf) \<le> of_int cur" using assms by (intro fl64_le_int) auto
  then show "\<lfloor>fl64 (of_int cur * sf)\<rfloor> \<le> cur" by linarith
  show "0 \<le> \<lfloor>fl64 (of_int cur * sf)\<rfloor>" using fl64_nonneg [of "of_int cur * sf"] by simp
qed

lemma growth_positive:
  assumes "1 \<le> cur" "0 < gf"
  shows "1 \<le> \<lceil>fl64 (of_int cur * gf)\<rceil>"
proof -
  have pos: "0 < of_int cur * gf" using assms by simp
  have "0 < fl64 (of_int cur * gf)"
    using fl64_range(1) [OF pos] by (meson less_le_trans zero_less_numeral zero_less_power_int)
  then show ?thesis by linarith
qed

lemma fl64_three_quarters: "fl64 (3 / 4) = 3 / 4"
proof -
  have "flexp (3 / 4) = - 1" by (rule flexp_unique) (simp_all add: power_int_minus)
  moreover have "(3 / 4 :: rat) / 2 powi (- 1 - 52) = of_int (3 * 2 ^ 51)" by (simp add: power_int_minus)
  ultimately show ?thesis by (intro fl64_exact [of _ "3 * 2 ^ 51"]) auto
qed

section \<open>Properties\<close>

text \<open>
  A scaling decision: inside the cool-down nothing is decided and nothing changes; outside it
  the time of the decision is recorded, and a new size is announced only if it differs from the
  current one, and it is within the configured bounds even if the arithmetic on \<open>int32\<close> wraps.
\<close>

theorem ShouldResize_bounded:
  assumes "ws_MinWorkerNum (as_conf s) \<le> ws_MaxWorkerNum (as_conf s)"
    and "ShouldResize now current workers s = ((n, ok), s')"
  shows "(now - as_lastResizeTime s < ws_ResizeCoolDown (as_conf s) \<longrightarrow> \<not> ok \<and> s' = s)
    \<and> (\<not> now - as_lastResizeTime s < ws_ResizeCoolDown (as_conf s) \<longrightarrow> s' = s \<lparr> as_lastResizeTime := now \<rparr>)
    \<and> (ok \<longrightarrow> n \<noteq> wrap32 current \<and> ws_MinWorkerNum (as_conf s) \<le> n \<and> n \<le> ws_MaxWorkerNum (as_conf s)
         \<and> (ShouldScaleUp (as_Strategy s) workers \<or> ShouldScaleDown (as_Strategy s) workers (ws_MinWorkerNum (as_conf s))))"
  using assms(2) clamp_range [OF assms(1)]
  by (auto simp: ShouldResize_def Let_def split: if_splits)

theorem ShouldResize_bounded_witness:
  "\<exists>n ok s'. ShouldResize 10 4 [100, 100, 100, 100]
     \<lparr> as_conf = WorkerStrategyConfig ''max_load'' [] 1 5 (1 / 2) (1 / 4) 1 [], as_lastResizeTime = 0,
       as_Strategy = MaxLoadStrategy 50 64 \<rparr> = ((n, ok), s') \<and> (ok \<longrightarrow> n \<le> 5)"
proof -
  let ?s = "\<lparr> as_conf = WorkerStrategyConfig ''max_load'' [] 1 5 (1 / 2) (1 / 4) 1 [], as_lastResizeTime = 0,
       as_Strategy = MaxLoadStrategy 50 64 \<rparr>"
  obtain n ok s' where r: "ShouldResize 10 4 [100, 100, 100, 100] ?s = ((n, ok), s')" by (metis surj_pair)
  have "ok \<longrightarrow> n \<le> 5" using ShouldResize_bounded [OF _ r] by simp
  then show ?thesis using r by blast
qed

text \<open>
  Direction: under load a pool below its maximum grows, and a shrink never grows the pool and
  never takes more than half of it. But a shrink of a pool whose size times the factor is below one
  (at most 3/4 here) leaves the pool as it is, however idle it is: with the default factor 1/4 a
  pool of three workers never returns to a minimum of one.
\<close>

theorem ShouldResize_direction:
  assumes "\<not> now - as_lastResizeTime s < ws_ResizeCoolDown (as_conf s)"
    and "scaling_ok (as_conf s)" "1 \<le> cur" "ws_MinWorkerNum (as_conf s) \<le> cur" "cur \<le> ws_MaxWorkerNum (as_conf s)"
    and "ws_MaxWorkerNum (as_conf s) < 2 ^ 31" "of_int cur * ws_GrowthFactor (as_conf s) \<le> 2 ^ 30" "cur < 2 ^ 30"
  shows "(ShouldScaleUp (as_Strategy s) workers \<and> cur < ws_MaxWorkerNum (as_conf s) \<longrightarrow>
           (\<exists>n. fst (ShouldResize now cur workers s) = (n, True) \<and> cur < n))
    \<and> (\<not> ShouldScaleUp (as_Strategy s) workers \<longrightarrow> fst (fst (ShouldResize now cur workers s)) \<le> cur)
    \<and> (\<not> ShouldScaleUp (as_Strategy s) workers \<and> of_int cur * ws_ShrinkFactor (as_conf s) \<le> 3 / 4
         \<longrightarrow> fst (ShouldResize now cur workers s) = (cur, False))"
proof -
  let ?c = "as_conf s"
  let ?add = "\<lceil>fl64 (of_int cur * ws_GrowthFactor ?c)\<rceil>" and ?red = "\<lfloor>fl64 (of_int cur * ws_ShrinkFactor ?c)\<rfloor>"
  have sc: "0 < ws_GrowthFactor ?c" "0 < ws_ShrinkFactor ?c" "ws_ShrinkFactor ?c \<le> 1 / 2"
    using assms(2) by (auto simp: scaling_ok_def)
  have cur: "wrap32 cur = cur" using assms(3,8) by (intro wrap32_id) auto
  have a1: "1 \<le> ?add" using growth_positive assms(3) sc(1) by blast
  have a2: "?add \<le> 2 ^ 30" using fl64_le_pow2 [OF assms(7)] by (simp add: ceiling_le_iff)
  have "wrap32 a = a \<and> wrap32 (cur + a) = cur + a" if "1 \<le> a" "a \<le> 2 ^ 30" for a
    using that assms(3,8) by (auto intro!: wrap32_id)
  note add = this [OF a1 a2] a1
  have red: "0 \<le> ?red" "?red \<le> cur" using shrink_bounds [of cur "ws_ShrinkFactor ?c"] assms(3,8) sc by auto
  have "wrap32 a = a \<and> wrap32 (cur - a) = cur - a" if "0 \<le> a" "a \<le> cur" for a
    using that assms(8) by (auto intro!: wrap32_id)
  note red' = this [OF red]
  have small: "?red = 0" if "of_int cur * ws_ShrinkFactor ?c \<le> 3 / 4"
  proof -
    have "fl64 (of_int cur * ws_ShrinkFactor ?c) \<le> 3 / 4" using fl64_mono [OF that] by (simp add: fl64_three_quarters)
    then show ?thesis using fl64_nonneg [of "of_int cur * ws_ShrinkFactor ?c"] by (simp add: floor_eq_iff)
  qed
  define A R where "A = ?add" and "R = ?red"
  have AR: "wrap32 A = A" "wrap32 (cur + A) = cur + A" "1 \<le> A" "wrap32 R = R" "wrap32 (cur - R) = cur - R"
    "0 \<le> R" "of_int cur * ws_ShrinkFactor ?c \<le> 3 / 4 \<Longrightarrow> R = 0"
    unfolding A_def R_def using add red red' small by blast+
  have up: "fst (ShouldResize now cur workers s) =
      (let n = clamp (cur + A) (ws_MinWorkerNum ?c) (ws_MaxWorkerNum ?c) in (if n \<noteq> cur then (n, True) else (cur, False)))"
    if "ShouldScaleUp (as_Strategy s) workers"
    using that assms(1) by (simp add: ShouldResize_def Let_def cur AR(1,2) A_def [symmetric])
  have down: "fst (ShouldResize now cur workers s) =
      (if ShouldScaleDown (as_Strategy s) workers (ws_MinWorkerNum ?c)
       then let n = clamp (cur - R) (ws_MinWorkerNum ?c) (ws_MaxWorkerNum ?c) in (if n \<noteq> cur then (n, True) else (cur, False))
       else (cur, False))"
    if "\<not> ShouldScaleUp (as_Strategy s) workers"
    using that assms(1) by (simp add: ShouldResize_def Let_def cur AR(4,5) R_def [symmetric])
  show ?thesis using up down AR(3,6,7) assms(4,5) by (auto simp: clamp_def Let_def)
qed

text \<open>Three idle workers, minimum one, factor 1/4: no shrink.\<close>

theorem ShouldResize_direction_witness:
  "fst (ShouldResize 10 3 [0, 0, 0]
     \<lparr> as_conf = WorkerStrategyConfig ''max_load'' [] 1 8 (1 / 2) (1 / 4) 1 [], as_lastResizeTime = 0,
       as_Strategy = MaxLoadStrategy 50 64 \<rparr>) = (3, False)"
  using ShouldResize_direction [of 10 "\<lparr> as_conf = WorkerStrategyConfig ''max_load'' [] 1 8 (1 / 2) (1 / 4) 1 [],
       as_lastResizeTime = 0, as_Strategy = MaxLoadStrategy 50 64 \<rparr>" 3 "[0, 0, 0]"]
  by (simp add: scaling_ok_def)

text \<open>
  Building a strategy succeeds exactly when every name is registered (the empty name counts as
  \<open>max_load\<close>) and the nesting is at most ten levels deep; it always ends, so a configuration that is
  too deep, such as one that refers to itself, is an error and not an endless recursion.
\<close>

theorem BuildStrategy_spec:
  "(\<exists>s. BuildStrategy builders cfg = Inr s) \<longleftrightarrow> names_known builders cfg \<and> strategy_depth cfg \<le> 10"
  using build_iff(1) [of builders 0 cfg] by (simp add: BuildStrategy_def maxStrategyDepth_def)

text \<open>
  The combination mode of a composite strategy is read from the parameter \<open>Mode\<close>; a parameter
  \<open>mode\<close>, as the configuration's documentation names it, is ignored and the mode is \<open>any\<close>.
\<close>

lemma composite_mode_key:
  "newCompositeStrategy ss [(''mode'', AnyString ''all'')] = CompositeStrategy ''any'' ss
   \<and> newCompositeStrategy ss [(''Mode'', AnyString '' All '')] = CompositeStrategy ''all'' ss"
  unfolding newCompositeStrategy_def by (simp add: Let_def TrimSpace_def ToLower_def) code_simp

end
