(* ===== verification/Worker_Pool.thy ===== *)
theory Worker_Pool
  imports Worker_RW Dispatch_Ring Auto_Scaler
begin

text \<open>
  The worker pool of a mailbox (\<open>engine/pkg/actor/mailbox/worker_pool.go\<close>): the set of workers and
  the dispatch ring, published as an immutable snapshot; dispatch, growing and shrinking; and the
  limiter of the stack traces of panics. Operations of the pool that change its topology hold
  \<open>p.mu\<close>, so they run one after the other. The goroutines of a worker are the theory \<open>Worker_RW\<close>;
  here a stopped worker has drained its queues by the time \<open>Wait\<close> returns. The number of processors,
  the zero job and the choice of the node pool are constants of the run time; the hash of a
  dispatcher key is a parameter.
\<close>

section \<open>Definitions\<close>

subsection \<open>The limiter of stack traces\<close>

record panic_rate_limiter =
  pl_lastNS :: int
  pl_tokens :: int
  pl_burstCap :: int
  pl_intervalN :: int

definition newPanicRateLimiter :: "int \<Rightarrow> int \<Rightarrow> panic_rate_limiter" where
  "newPanicRateLimiter now burstCap =
     (let burstCap = (if burstCap \<le> 0 then 5 else burstCap)
      in \<lparr> pl_lastNS = now, pl_tokens = burstCap, pl_burstCap = burstCap, pl_intervalN = go_div 1000000000 burstCap \<rparr>)"

definition limiter_refill :: "int \<Rightarrow> panic_rate_limiter \<Rightarrow> panic_rate_limiter" where
  "limiter_refill now l =
     (let delta = now - pl_lastNS l
      in if delta \<ge> pl_intervalN l
         then let add = go_div delta (pl_intervalN l);
                  cur = pl_tokens l + add
              in l \<lparr> pl_lastNS := pl_lastNS l + add * pl_intervalN l,
                     pl_tokens := (if cur > pl_burstCap l then cur + (pl_burstCap l - cur) else cur) \<rparr>
         else l)"

definition Limiter_Allow :: "int \<Rightarrow> panic_rate_limiter \<Rightarrow> bool \<times> panic_rate_limiter" where
  "Limiter_Allow now l =
     (let l1 = limiter_refill now l
      in if pl_tokens l1 \<le> 0 then (False, l1) else (True, l1 \<lparr> pl_tokens := pl_tokens l1 - 1 \<rparr>))"

text \<open>The number of calls that were allowed, at a sequence of times.\<close>

fun limiter_run :: "int list \<Rightarrow> panic_rate_limiter \<Rightarrow> int \<times> panic_rate_limiter" where
  "limiter_run [] l = (0, l)"
| "limiter_run (now # ts) l =
     (case Limiter_Allow now l of (ok, l1) \<Rightarrow>
        (case limiter_run ts l1 of (n, l2) \<Rightarrow> (of_bool ok + n, l2)))"

subsection \<open>The pool\<close>

record workers_snapshot =
  sn_workers :: "(int, worker) gomap"
  sn_ring :: dispatch_ring
  sn_dispatchCnt :: "(int, u64) gomap"
  sn_soleID :: int
  sn_count :: nat

record worker_pool =
  wp_conf :: mailbox_conf
  wp_queueSpec :: normalized_queue_spec
  wp_snap :: "workers_snapshot option"
  wp_invoker :: invoker
  wp_middlewareChain :: middleware_chain
  wp_workerCount :: int
  wp_drainPolicy :: drain_policy
  wp_rw :: rw_controller
  wp_statsEnabled :: bool
  wp_scaleTrigger :: bool
  wp_dispatchSampleCnt :: u64
  wp_nextWorkerID :: int
  wp_queueFullRejectedTotal :: int
  wp_panicStackLimiter :: panic_rate_limiter
  wp_ncpu :: int
  wp_zero :: mailbox_job
  wp_pick :: "nat list \<Rightarrow> nat option"

datatype pool_error = InvokerIsNil | QueueConfiguration queue_spec_error | CreateRWController string

definition NewWorkerPool :: "int \<Rightarrow> mailbox_job \<Rightarrow> (nat list \<Rightarrow> nat option) \<Rightarrow> (int \<Rightarrow> string option) \<Rightarrow> int
    \<Rightarrow> mailbox_conf option \<Rightarrow> invoker option \<Rightarrow> middleware list \<Rightarrow> pool_error + worker_pool" where
  "NewWorkerPool ncpu zero pick newPool now conf ivk middlewares =
     (case ivk of
        None \<Rightarrow> Inl InvokerIsNil
      | Some iv \<Rightarrow>
          (let conf = fixConf ncpu conf
           in case normalizeQueueSpec ncpu (Some conf) of
                Inl err \<Rightarrow> Inl (QueueConfiguration err)
              | Inr queueSpec \<Rightarrow>
                  (case newRWController newPool conf of
                     Inl err \<Rightarrow> Inl (CreateRWController err)
                   | Inr rw \<Rightarrow>
                       Inr \<lparr> wp_conf = conf, wp_queueSpec = queueSpec, wp_snap = None, wp_invoker = iv,
                         wp_middlewareChain = NewMiddlewareChain middlewares True, wp_workerCount = 0,
                         wp_drainPolicy = DrainExecute, wp_rw = rw, wp_statsEnabled = False, wp_scaleTrigger = False,
                         wp_dispatchSampleCnt = 0, wp_nextWorkerID = 0, wp_queueFullRejectedTotal = 0,
                         wp_panicStackLimiter = newPanicRateLimiter now 5,
                         wp_ncpu = ncpu, wp_zero = zero, wp_pick = pick \<rparr>)))"

definition SetDrainPolicy :: "drain_policy \<Rightarrow> worker_pool \<Rightarrow> worker_pool" where
  "SetDrainPolicy policy p = p \<lparr> wp_drainPolicy := policy \<rparr>"

definition workerEnv :: "worker_pool \<Rightarrow> worker_env" where
  "workerEnv p = \<lparr> we_invoker = wp_invoker p, we_middlewareChain = wp_middlewareChain p,
     we_maxJobExecTime = rw_maxJobExecTime (wp_rw p), we_statsEnabled = wp_statsEnabled p \<rparr>"

definition publishSnapshotLocked :: "(int, worker) gomap \<Rightarrow> dispatch_ring \<Rightarrow> (int, u64) gomap \<Rightarrow> worker_pool \<Rightarrow> worker_pool" where
  "publishSnapshotLocked workers ring dispatchCnt p =
     p \<lparr> wp_snap := Some \<lparr> sn_workers = workers, sn_ring = ring, sn_dispatchCnt = dispatchCnt,
           sn_soleID = (if length workers = 1 then fst (hd workers) else 0), sn_count = length workers \<rparr> \<rparr>"

text \<open>The loop that creates, registers and starts \<open>n\<close> workers, for \<open>Start\<close> and for growing.\<close>

fun spawn_workers :: "nat \<Rightarrow> worker_pool \<Rightarrow> (int, worker) gomap \<Rightarrow> (int, u64) gomap
    \<Rightarrow> go_panic + (worker_pool \<times> (int, worker) gomap \<times> (int, u64) gomap)" where
  "spawn_workers 0 p workers cnt = Inr (p, workers, cnt)"
| "spawn_workers (Suc n) p workers cnt =
     (let nxt = wrap32 (wp_nextWorkerID p + 1);
          i = wrap32 (nxt - 1)
      in and_then (newWorker (wp_ncpu p) (wp_zero p) (wp_pick p) i (wp_conf p) (wp_queueSpec p) (wp_drainPolicy p)) (\<lambda>w.
           spawn_workers n (p \<lparr> wp_nextWorkerID := nxt \<rparr>) (gm_set workers i w)
             (if wp_statsEnabled p then gm_set cnt i 0 else cnt)))"

definition initial_workers :: "worker_pool \<Rightarrow> int" where
  "initial_workers p = (case mc_SchedulePolicy (wp_conf p) of None \<Rightarrow> 0 | Some sp \<Rightarrow> sp_InitialWorkerNum sp)"

text \<open>\<open>Start\<close>, with the calls of the middlewares' \<open>OnStart\<close>.\<close>

definition Pool_Start :: "worker_pool \<Rightarrow> go_panic + (mw_event list \<times> worker_pool)" where
  "Pool_Start p =
     and_then (spawn_workers (nat (initial_workers p)) p [] []) (\<lambda>(p1, workers, cnt).
       Inr (Chain_Start (wp_middlewareChain p1),
            publishSnapshotLocked workers (newDispatchRing (gm_keys workers)) cnt
              (p1 \<lparr> wp_workerCount := initial_workers p \<rparr>)))"

text \<open>
  The worker for a job: the only one, or the one the ring gives. The outer option is \<open>None\<close> only if
  the loop of the hash did not end.
\<close>

definition select_worker :: "(string \<Rightarrow> u64) \<Rightarrow> mailbox_job \<Rightarrow> workers_snapshot \<Rightarrow> (mailbox_error + int) option" where
  "select_worker sum64 job sn =
     (if sn_count sn = 1 then Some (Inr (sn_soleID sn))
      else map_option (\<lambda>(i, ok). if ok then Inr i else Inl ErrMailboxWorkerIsFull)
             (DispatchRing_Get sum64 (Some (sn_ring sn)) (jb_DispatcherKey job)))"

definition dispatchSampleMask :: u64 where
  "dispatchSampleMask = 127"

definition sample_trigger :: "worker \<Rightarrow> worker_pool \<Rightarrow> worker_pool" where
  "sample_trigger w p =
     (case mc_SchedulePolicy (wp_conf p) of
        Some sp \<Rightarrow>
          if sp_EnableAutoScaling sp
          then let c = wp_dispatchSampleCnt p + 1
               in p \<lparr> wp_dispatchSampleCnt := c,
                      wp_scaleTrigger := (wp_scaleTrigger p \<or> c AND dispatchSampleMask = 0 \<and> Worker_GetJobLen w > 0) \<rparr>
          else p
      | None \<Rightarrow> p)"

definition DispatchJob :: "(string \<Rightarrow> u64) \<Rightarrow> mailbox_job \<Rightarrow> worker_pool \<Rightarrow> (mailbox_error option \<times> mailbox_job \<times> worker_pool) option" where
  "DispatchJob sum64 job p =
     (case wp_snap p of
        None \<Rightarrow> Some (Some ErrMailboxWorkerNotFound, job, p)
      | Some sn \<Rightarrow>
          if sn_count sn = 0 then Some (Some ErrMailboxWorkerNotFound, job, p)
          else map_option (\<lambda>sel.
            (case sel of
               Inl err \<Rightarrow> (Some err, job, p)
             | Inr i \<Rightarrow>
                 (case gm_get (sn_workers sn) i of
                    None \<Rightarrow> (Some ErrMailboxWorkerNotFound, job, p)
                  | Some w \<Rightarrow>
                      (let cnts = (if wp_statsEnabled p
                                   then (case gm_get (sn_dispatchCnt sn) i of
                                           Some c \<Rightarrow> gm_set (sn_dispatchCnt sn) i (c + 1)
                                         | None \<Rightarrow> sn_dispatchCnt sn)
                                   else sn_dispatchCnt sn);
                           p1 = sample_trigger w p
                       in case SubmitJob (wp_statsEnabled p) job (wp_queueFullRejectedTotal p1) w of
                            (r, job', full, w') \<Rightarrow>
                              (r, job', p1 \<lparr> wp_queueFullRejectedTotal := full,
                                 wp_snap := Some (sn \<lparr> sn_workers := gm_set (sn_workers sn) i w', sn_dispatchCnt := cnts \<rparr>) \<rparr>)))))
            (select_worker sum64 job sn))"

text \<open>A worker after \<open>BeginStop\<close> and \<open>Wait\<close>: the jobs its drain disposed of, and the worker.\<close>

definition stop_worker :: "int \<Rightarrow> worker \<Rightarrow> mailbox_job list \<times> worker" where
  "stop_worker deadline w =
     (let w1 = Worker_BeginStop deadline w
      in case wk_queueManager w1 of
           None \<Rightarrow> ([], w1)
         | Some qm \<Rightarrow>
             (case QM_DrainAll qm of
                None \<Rightarrow> ([], w1)
              | Some (es, qm') \<Rightarrow> (es, w1 \<lparr> wk_queueManager := Some qm' \<rparr>)))"

definition max_workers :: "worker_pool \<Rightarrow> int" where
  "max_workers p =
     (case mc_SchedulePolicy (wp_conf p) of
        None \<Rightarrow> 0
      | Some sp \<Rightarrow> (case sp_ScalingStrategy sp of None \<Rightarrow> 0 | Some st \<Rightarrow> ws_MaxWorkerNum st))"

definition grow_workers :: "int \<Rightarrow> workers_snapshot \<Rightarrow> worker_pool \<Rightarrow> go_panic + worker_pool" where
  "grow_workers newSize old p =
     (let currentCount = wp_workerCount p;
          newSize = (if max_workers p > 0 \<and> newSize > max_workers p then max_workers p else newSize)
      in if newSize \<le> currentCount then Inr p
         else and_then (spawn_workers (nat (newSize - currentCount)) p (sn_workers old) (sn_dispatchCnt old)) (\<lambda>(p1, workers, cnt).
                Inr (publishSnapshotLocked workers (newDispatchRing (gm_keys workers)) cnt (p1 \<lparr> wp_workerCount := newSize \<rparr>))))"

definition removed_ids :: "int \<Rightarrow> int \<Rightarrow> (int, worker) gomap \<Rightarrow> int list" where
  "removed_ids currentCount newSize workers =
     (let toRemove = nat (currentCount - newSize);
          ids = sort (gm_keys workers);
          ids = (if int (length ids) > newSize then drop (nat newSize) ids else [])
      in if length ids > toRemove then take toRemove ids else ids)"

definition shrink_workers :: "int \<Rightarrow> int \<Rightarrow> workers_snapshot \<Rightarrow> worker_pool \<Rightarrow> mailbox_job list \<times> worker_pool" where
  "shrink_workers deadline newSize old p =
     (let ids = removed_ids (wp_workerCount p) newSize (sn_workers old);
          removed = filter (\<lambda>(i, w). i \<in> set ids) (sn_workers old)
      in if removed = [] then ([], p)
         else let workers = filter (\<lambda>(i, w). i \<notin> set ids) (sn_workers old);
                  cnt = filter (\<lambda>(i, c). i \<notin> set ids) (sn_dispatchCnt old)
              in (concat (map (\<lambda>(i, w). fst (stop_worker deadline w)) removed),
                  publishSnapshotLocked workers (newDispatchRing (gm_keys workers)) cnt (p \<lparr> wp_workerCount := newSize \<rparr>)))"

definition resizeWorkers :: "int \<Rightarrow> int \<Rightarrow> worker_pool \<Rightarrow> go_panic + (mailbox_job list \<times> worker_pool)" where
  "resizeWorkers deadline newSize p =
     (if newSize = wp_workerCount p then Inr ([], p)
      else case wp_snap p of
             None \<Rightarrow> Inr ([], p)
           | Some old \<Rightarrow>
               if newSize > wp_workerCount p then and_then (grow_workers newSize old p) (\<lambda>p'. Inr ([], p'))
               else if newSize < 0 then Inl (Go_Panic ''slice bounds out of range'')
               else Inr (shrink_workers deadline newSize old p))"

definition Pool_BeginStop :: "int \<Rightarrow> worker_pool \<Rightarrow> worker_pool" where
  "Pool_BeginStop deadline p =
     p \<lparr> wp_snap := map_option (\<lambda>sn. sn \<lparr> sn_workers := map (\<lambda>(i, w). (i, Worker_BeginStop deadline w)) (sn_workers sn) \<rparr>) (wp_snap p) \<rparr>"

definition Pool_Wait :: "int \<Rightarrow> worker_pool \<Rightarrow> mailbox_job list \<times> mw_event list \<times> worker_pool" where
  "Pool_Wait deadline p =
     (case wp_snap p of
        None \<Rightarrow> ([], [], p)
      | Some sn \<Rightarrow>
          (concat (map (\<lambda>(i, w). fst (stop_worker deadline w)) (sn_workers sn)),
           Chain_Stop (wp_middlewareChain p),
           p \<lparr> wp_snap := None, wp_rw := (wp_rw p) \<lparr> rw_readPool := None \<rparr> \<rparr>))"

definition Pool_Stop :: "int \<Rightarrow> worker_pool \<Rightarrow> mailbox_job list \<times> mw_event list \<times> worker_pool" where
  "Pool_Stop deadline p = Pool_Wait deadline (Pool_BeginStop deadline p)"

subsection \<open>Invariant\<close>

definition snap_jobs :: "(int, worker) gomap \<Rightarrow> mailbox_job multiset" where
  "snap_jobs ws = sum_list (map (\<lambda>kv. worker_jobs (snd kv)) ws)"

definition pool_jobs :: "worker_pool \<Rightarrow> mailbox_job multiset" where
  "pool_jobs p = (case wp_snap p of None \<Rightarrow> {#} | Some sn \<Rightarrow> snap_jobs (sn_workers sn))"

definition snap_inv :: "workers_snapshot \<Rightarrow> bool" where
  "snap_inv sn \<longleftrightarrow> gm_wf (sn_workers sn) \<and> sn_ring sn = newDispatchRing (gm_keys (sn_workers sn))
     \<and> sn_count sn = length (sn_workers sn) \<and> length (sn_workers sn) \<le> 2 ^ 31 - 1
     \<and> (sn_count sn = 1 \<longrightarrow> sn_soleID sn \<in> set (gm_keys (sn_workers sn)))
     \<and> (\<forall>(i, w) \<in> set (sn_workers sn). worker_inv w)"

definition factory_ok :: "worker_pool \<Rightarrow> bool" where
  "factory_ok p \<longleftrightarrow> (\<exists>m. createQueueManager (wp_ncpu p) (wp_zero p) (wp_pick p) (wp_queueSpec p) = Inr m)
     \<and> (\<forall>c \<in> set (spec_capacities (wp_queueSpec p)). c < 2 ^ 63)
     \<and> (\<forall>q. qs_priority (wp_queueSpec p) = Some q \<longrightarrow> gm_wf (ps_priorities q))"

definition ids_below :: "int \<Rightarrow> int list \<Rightarrow> bool" where
  "ids_below n ids \<longleftrightarrow> (\<forall>i \<in> set ids. 0 \<le> i \<and> i < n)"

definition pool_inv :: "worker_pool \<Rightarrow> bool" where
  "pool_inv p \<longleftrightarrow> factory_ok p
     \<and> (\<forall>sn. wp_snap p = Some sn \<longrightarrow> snap_inv sn \<and> wp_workerCount p = int (length (sn_workers sn))
          \<and> ids_below (wp_nextWorkerID p) (gm_keys (sn_workers sn)))
     \<and> 0 \<le> wp_nextWorkerID p"

definition limiter_inv :: "panic_rate_limiter \<Rightarrow> bool" where
  "limiter_inv l \<longleftrightarrow> 0 \<le> pl_tokens l \<and> pl_tokens l \<le> pl_burstCap l \<and> 0 < pl_intervalN l"

subsection \<open>A started pool of two workers\<close>

definition dual_spec_example :: normalized_queue_spec where
  "dual_spec_example = \<lparr> qs_backend = ''unbounded'', qs_mode = QueueModeDual, qs_dual = None, qs_priority = None, qs_storageBytes = 0 \<rparr>"

definition snap_example :: workers_snapshot where
  "snap_example = \<lparr> sn_workers = [(0, rw_worker_example), (1, rw_worker_example)], sn_ring = newDispatchRing [0, 1],
     sn_dispatchCnt = [], sn_soleID = 0, sn_count = 2 \<rparr>"

definition pool_example :: worker_pool where
  "pool_example = \<lparr> wp_conf = zero_mailbox_conf, wp_queueSpec = dual_spec_example, wp_snap = Some snap_example,
     wp_invoker = we_invoker exec_env_example, wp_middlewareChain = chain_example, wp_workerCount = 2,
     wp_drainPolicy = DrainExecute, wp_rw = rw_controller_example, wp_statsEnabled = False, wp_scaleTrigger = False,
     wp_dispatchSampleCnt = 0, wp_nextWorkerID = 2, wp_queueFullRejectedTotal = 0,
     wp_panicStackLimiter = newPanicRateLimiter 0 5, wp_ncpu = 4, wp_zero = example_job 0 0, wp_pick = \<lambda>_. None \<rparr>"

section \<open>Facts\<close>

subsection \<open>The limiter\<close>

lemma limiter_refill_bounds:
  assumes "limiter_inv l" "pl_lastNS l \<le> now"
  obtains k where "0 \<le> k" "limiter_inv (limiter_refill now l)" "pl_lastNS (limiter_refill now l) = pl_lastNS l + k * pl_intervalN l"
    "pl_lastNS (limiter_refill now l) \<le> now" "pl_tokens (limiter_refill now l) \<le> pl_tokens l + k"
    "pl_intervalN (limiter_refill now l) = pl_intervalN l" "pl_burstCap (limiter_refill now l) = pl_burstCap l"
proof (cases "now - pl_lastNS l \<ge> pl_intervalN l")
  case True
  define k where "k = (now - pl_lastNS l) div pl_intervalN l"
  have i: "0 < pl_intervalN l" using assms by (simp add: limiter_inv_def)
  have "0 \<le> k" using assms i by (simp add: k_def pos_imp_zdiv_nonneg_iff)
  moreover have "k * pl_intervalN l \<le> now - pl_lastNS l"
    using i unfolding k_def by (metis div_mult_mod_eq le_add_same_cancel1 pos_mod_sign)
  moreover have "go_div (now - pl_lastNS l) (pl_intervalN l) = k" using assms i by (simp add: k_def go_div_nonneg)
  ultimately show ?thesis using that [of k] True assms by (auto simp: limiter_refill_def Let_def limiter_inv_def)
next
  case False
  then show ?thesis using that [of 0] assms by (simp add: limiter_refill_def)
qed

lemma limiter_run_bound:
  assumes "limiter_inv l" "sorted (pl_lastNS l # ts)" "limiter_run ts l = (n, l')"
  shows "\<exists>k \<ge> 0. limiter_inv l' \<and> pl_lastNS l' = pl_lastNS l + k * pl_intervalN l \<and> n + pl_tokens l' \<le> pl_tokens l + k
     \<and> pl_lastNS l' \<le> last (pl_lastNS l # ts) \<and> pl_burstCap l' = pl_burstCap l"
  using assms
proof (induction ts arbitrary: l n)
  case Nil
  then show ?case by (intro exI [of _ 0]) auto
next
  case (Cons now ts)
  obtain ok l1 m where s: "Limiter_Allow now l = (ok, l1)" "limiter_run ts l1 = (m, l')" "n = of_bool ok + m"
    using Cons.prems(3) by (auto split: prod.splits)
  obtain k where k: "0 \<le> k" "limiter_inv (limiter_refill now l)" "pl_lastNS (limiter_refill now l) = pl_lastNS l + k * pl_intervalN l"
    "pl_lastNS (limiter_refill now l) \<le> now" "pl_tokens (limiter_refill now l) \<le> pl_tokens l + k"
    "pl_intervalN (limiter_refill now l) = pl_intervalN l" "pl_burstCap (limiter_refill now l) = pl_burstCap l"
    using limiter_refill_bounds [of l now] Cons.prems by auto
  have l1: "limiter_inv l1" "pl_lastNS l1 = pl_lastNS l + k * pl_intervalN l" "pl_intervalN l1 = pl_intervalN l"
    "pl_lastNS l1 \<le> now" "of_bool ok + pl_tokens l1 \<le> pl_tokens l + k" "pl_burstCap l1 = pl_burstCap l"
    using s(1) k by (auto simp: Limiter_Allow_def Let_def limiter_inv_def split: if_splits)
  have so: "sorted (pl_lastNS l1 # ts)" using Cons.prems(2) l1(4) by auto
  obtain k2 where k2: "0 \<le> k2" "limiter_inv l'" "pl_lastNS l' = pl_lastNS l1 + k2 * pl_intervalN l1"
    "m + pl_tokens l' \<le> pl_tokens l1 + k2" "pl_lastNS l' \<le> last (pl_lastNS l1 # ts)" "pl_burstCap l' = pl_burstCap l1"
    using Cons.IH [OF l1(1) so s(2)] by blast
  have "last (pl_lastNS l1 # ts) \<le> last (now # ts)" using l1(4) by (cases ts) auto
  then show ?case using k k2 l1 s(3) by (intro exI [of _ "k + k2"]) (auto simp: algebra_simps)
qed

subsection \<open>Creating workers\<close>

lemma factory_worker:
  assumes "factory_ok p"
  shows "\<exists>w. newWorker (wp_ncpu p) (wp_zero p) (wp_pick p) i (wp_conf p) (wp_queueSpec p) (wp_drainPolicy p) = Inr w
     \<and> worker_inv w \<and> worker_jobs w = {#}"
proof -
  obtain m where m: "createQueueManager (wp_ncpu p) (wp_zero p) (wp_pick p) (wp_queueSpec p) = Inr m"
    using assms by (auto simp: factory_ok_def)
  have "qm_inv m \<and> qm_jobs m = {#}" using createQueueManager_empty [OF m] assms by (simp add: factory_ok_def)
  then show ?thesis using m by (simp add: newWorker_def worker_inv_def worker_jobs_def)
qed

lemma spawn_workers_spec:
  assumes "factory_ok p" "0 \<le> wp_nextWorkerID p" "wp_nextWorkerID p + int n < 2 ^ 31"
    and "\<forall>i \<in> set (gm_keys ws). i < wp_nextWorkerID p"
  shows "\<exists>new cnt'. spawn_workers n p ws cnt = Inr (p \<lparr> wp_nextWorkerID := wp_nextWorkerID p + int n \<rparr>, ws @ new, cnt')
     \<and> gm_keys new = map (\<lambda>j. wp_nextWorkerID p + int j) [0..<n] \<and> (\<forall>(i, w) \<in> set new. worker_inv w \<and> worker_jobs w = {#})"
  using assms
proof (induction n arbitrary: p ws cnt)
  case 0
  then show ?case by simp
next
  case (Suc n)
  let ?i = "wp_nextWorkerID p"
  define p1 where "p1 = p \<lparr> wp_nextWorkerID := ?i + 1 \<rparr>"
  obtain w where w: "newWorker (wp_ncpu p) (wp_zero p) (wp_pick p) ?i (wp_conf p) (wp_queueSpec p) (wp_drainPolicy p) = Inr w"
    "worker_inv w" "worker_jobs w = {#}" using factory_worker [OF Suc.prems(1)] by blast
  have wr: "wrap32 (?i + 1) = ?i + 1" "wrap32 ?i = ?i" using Suc.prems by (auto intro!: wrap32_id)
  have f1: "factory_ok p1" "0 \<le> wp_nextWorkerID p1" "wp_nextWorkerID p1 + int n < 2 ^ 31"
    "\<forall>i \<in> set (gm_keys (ws @ [(?i, w)])). i < wp_nextWorkerID p1"
    using Suc.prems by (force simp: p1_def factory_ok_def)+
  have set: "gm_set ws ?i w = ws @ [(?i, w)]" by (rule gm_set_fresh) (use Suc.prems(4) in auto)
  obtain new cnt' where ih: "spawn_workers n p1 (ws @ [(?i, w)]) (if wp_statsEnabled p then gm_set cnt ?i 0 else cnt)
      = Inr (p1 \<lparr> wp_nextWorkerID := wp_nextWorkerID p1 + int n \<rparr>, (ws @ [(?i, w)]) @ new, cnt')"
    "gm_keys new = map (\<lambda>j. wp_nextWorkerID p1 + int j) [0..<n]" "\<forall>(i, w) \<in> set new. worker_inv w \<and> worker_jobs w = {#}"
    using Suc.IH [of p1 "ws @ [(?i, w)]" "if wp_statsEnabled p then gm_set cnt ?i 0 else cnt"] f1 by blast
  have keys: "map (\<lambda>j. ?i + int j) [0..<Suc n] = ?i # map (\<lambda>j. (?i + 1) + int j) [0..<n]"
    by (simp add: upt_conv_Cons map_Suc_upt [symmetric] del: upt_Suc)
  show ?case
    by (intro exI [of _ "(?i, w) # new"] exI [of _ cnt'])
      (use ih w wr set keys in \<open>auto simp: Let_def p1_def simp del: upt_Suc\<close>)
qed

subsection \<open>Dispatch\<close>

lemma ring_member:
  assumes "ids \<noteq> []" "length ids \<le> 2 ^ 31 - 1"
  shows "\<exists>i. DispatchRing_Get sum64 (Some (newDispatchRing ids)) key = Some (i, True) \<and> i \<in> set ids"
proof -
  let ?n = "int (length ids)"
  have "0 < ?n" "?n \<le> 2 ^ 31 - 1" using assms by auto
  then obtain r where r: "jumpHash (sum64 key) ?n = Some r" "0 \<le> r" "r < ?n" using jumpHash_total by blast
  then have "sort ids ! nat r \<in> set (sort ids)" by (intro nth_mem) auto
  then show ?thesis using r assms(1) by (auto simp: DispatchRing_Get_def newDispatchRing_def)
qed

lemma select_worker_member:
  assumes "snap_inv sn" "sn_workers sn \<noteq> []"
  shows "\<exists>i w. select_worker sum64 job sn = Some (Inr i) \<and> gm_get (sn_workers sn) i = Some w \<and> worker_inv w"
proof -
  have "\<exists>i \<in> set (gm_keys (sn_workers sn)). select_worker sum64 job sn = Some (Inr i)"
  proof (cases "sn_count sn = 1")
    case True
    then show ?thesis using assms by (simp add: snap_inv_def select_worker_def)
  next
    case False
    then show ?thesis
      using assms ring_member [of "gm_keys (sn_workers sn)" sum64 "jb_DispatcherKey job"]
      by (auto simp: snap_inv_def select_worker_def)
  qed
  then obtain i where i: "i \<in> set (gm_keys (sn_workers sn))" "select_worker sum64 job sn = Some (Inr i)" by blast
  then obtain w where "gm_get (sn_workers sn) i = Some w" using gm_get_keys by metis
  then show ?thesis using i(2) assms(1) gm_get_mem by (fastforce simp: snap_inv_def)
qed

lemma SubmitJob_not_lost: "SubmitJob st job full w = (Some err, job', full', w') \<Longrightarrow> err \<noteq> ErrMailboxWorkerNotFound"
proof
  assume s: "SubmitJob st job full w = (Some err, job', full', w')" "err = ErrMailboxWorkerNotFound"
  then obtain qm r where q: "wk_queueManager w = Some qm" "QM_Submit job (warn_fallback job qm) = (Some err, r)"
    by (auto simp: SubmitJob_def split: if_splits option.splits prod.splits)
  show False using q(2) s(2)
    by (cases qm) (auto simp: Dual_Submit_def Prio_Submit_def Let_def split: if_splits option.splits prod.splits)
qed

lemma SubmitJob_outcome:
  assumes "worker_inv w" "SubmitJob st job full w = (r, job', full', w')"
  shows "worker_inv w' \<and> r \<noteq> Some ErrMailboxWorkerNotFound
     \<and> (case r of None \<Rightarrow> worker_jobs w' = add_mset job' (worker_jobs w) \<and> job' = Job_SetPriority (jb_Priority job') job
        | Some err \<Rightarrow> worker_jobs w' = worker_jobs w \<and> job' = job)"
proof (cases r)
  case None
  then show ?thesis using SubmitJob_accepted(2,3,5) [OF assms(1) assms(2) [unfolded None]] by simp
next
  case (Some err)
  then show ?thesis using SubmitJob_refused(1,2,3) [OF assms(1) assms(2) [unfolded Some]]
      SubmitJob_not_lost [OF assms(2) [unfolded Some]] by simp
qed

lemma snap_jobs_update:
  assumes "gm_get ws i = Some w"
  shows "snap_jobs (gm_set ws i w') + worker_jobs w = snap_jobs ws + worker_jobs w'"
  unfolding snap_jobs_def using gm_sum_set [OF assms, of worker_jobs w'] by (simp add: add.commute)

lemma snap_inv_update:
  assumes "snap_inv sn" "gm_get (sn_workers sn) i = Some w" "worker_inv w'"
  shows "snap_inv (sn \<lparr> sn_workers := gm_set (sn_workers sn) i w', sn_dispatchCnt := c \<rparr>)"
proof -
  have k: "gm_keys (gm_set (sn_workers sn) i w') = gm_keys (sn_workers sn)" by (rule gm_keys_set) (simp add: assms(2))
  then have l: "length (gm_set (sn_workers sn) i w') = length (sn_workers sn)" by (metis length_map)
  have "\<forall>(j, v) \<in> set (gm_set (sn_workers sn) i w'). worker_inv v"
    using assms(1,3) by (fastforce simp: snap_inv_def dest: gm_set_mem)
  then show ?thesis using assms(1) k l by (simp add: snap_inv_def)
qed

lemma sample_trigger_frame [simp]:
  "wp_snap (sample_trigger w p) = wp_snap p" "wp_nextWorkerID (sample_trigger w p) = wp_nextWorkerID p"
  "wp_workerCount (sample_trigger w p) = wp_workerCount p" "factory_ok (sample_trigger w p) = factory_ok p"
  "wp_queueFullRejectedTotal (sample_trigger w p) = wp_queueFullRejectedTotal p" "wp_invoker (sample_trigger w p) = wp_invoker p"
  "wp_middlewareChain (sample_trigger w p) = wp_middlewareChain p"
  by (auto simp: sample_trigger_def factory_ok_def Let_def split: option.splits)

lemma select_worker_key:
  "jb_DispatcherKey j = jb_DispatcherKey job \<Longrightarrow> select_worker sum64 j sn = select_worker sum64 job sn"
  by (simp add: select_worker_def)

lemma select_worker_frame [simp]:
  "select_worker sum64 job (sn \<lparr> sn_workers := ws, sn_dispatchCnt := c \<rparr>) = select_worker sum64 job sn"
  by (simp add: select_worker_def)

text \<open>Dispatching to a started pool: the worker that the selection names decides.\<close>

lemma DispatchJob_started:
  assumes "pool_inv p" "wp_snap p = Some sn" "sn_workers sn \<noteq> []"
  obtains i w r job' full w' c where "select_worker sum64 job sn = Some (Inr i)" "gm_get (sn_workers sn) i = Some w" "worker_inv w"
    "SubmitJob (wp_statsEnabled p) job (wp_queueFullRejectedTotal p) w = (r, job', full, w')"
    "DispatchJob sum64 job p = Some (r, job', (sample_trigger w p) \<lparr> wp_queueFullRejectedTotal := full,
       wp_snap := Some (sn \<lparr> sn_workers := gm_set (sn_workers sn) i w', sn_dispatchCnt := c \<rparr>) \<rparr>)"
    "\<And>k. gm_get c k = (if wp_statsEnabled p \<and> k = i then map_option (\<lambda>n. n + 1) (gm_get (sn_dispatchCnt sn) k) else gm_get (sn_dispatchCnt sn) k)"
proof -
  have sn: "snap_inv sn" using assms by (simp add: pool_inv_def)
  obtain i w where i: "select_worker sum64 job sn = Some (Inr i)" "gm_get (sn_workers sn) i = Some w" "worker_inv w"
    using select_worker_member [OF sn assms(3)] by blast
  obtain r job' full w' where s: "SubmitJob (wp_statsEnabled p) job (wp_queueFullRejectedTotal p) w = (r, job', full, w')"
    using prod_cases4 by blast
  have "sn_count sn \<noteq> 0" using sn assms(3) by (simp add: snap_inv_def)
  define c where "c = (if wp_statsEnabled p
     then (case gm_get (sn_dispatchCnt sn) i of Some c \<Rightarrow> gm_set (sn_dispatchCnt sn) i (c + 1) | None \<Rightarrow> sn_dispatchCnt sn) else sn_dispatchCnt sn)"
  have "DispatchJob sum64 job p = Some (r, job', (sample_trigger w p) \<lparr> wp_queueFullRejectedTotal := full,
       wp_snap := Some (sn \<lparr> sn_workers := gm_set (sn_workers sn) i w', sn_dispatchCnt := c \<rparr>) \<rparr>)"
    using \<open>sn_count sn \<noteq> 0\<close> assms(2) i s by (simp add: DispatchJob_def c_def)
  moreover have "gm_get c k = (if wp_statsEnabled p \<and> k = i then map_option (\<lambda>n. n + 1) (gm_get (sn_dispatchCnt sn) k) else gm_get (sn_dispatchCnt sn) k)" for k
    by (cases "gm_get (sn_dispatchCnt sn) i") (simp_all add: c_def update_conv')
  ultimately show ?thesis by (rule that [OF i s])
qed

text \<open>The sample for the automatic scaling moves only its own two fields, and asks for a scaling step only when the worker has jobs.\<close>

lemma sample_trigger_shape:
  "\<exists>c t. sample_trigger w p = p \<lparr> wp_dispatchSampleCnt := c, wp_scaleTrigger := t \<rparr>
     \<and> (wp_scaleTrigger p \<longrightarrow> t) \<and> (t \<longrightarrow> wp_scaleTrigger p \<or> 0 < Worker_GetJobLen w)"
proof (cases "\<exists>sp. mc_SchedulePolicy (wp_conf p) = Some sp \<and> sp_EnableAutoScaling sp")
  case True
  then show ?thesis
    by (intro exI [of _ "wp_dispatchSampleCnt p + 1"] exI [of _ "wp_scaleTrigger p \<or> (wp_dispatchSampleCnt p + 1) AND dispatchSampleMask = 0 \<and> Worker_GetJobLen w > 0"])
      (auto simp: sample_trigger_def Let_def)
next
  case False
  then show ?thesis
    by (intro exI [of _ "wp_dispatchSampleCnt p"] exI [of _ "wp_scaleTrigger p"]) (auto simp: sample_trigger_def split: option.split)
qed

lemma pool_inv_dispatch:
  assumes "pool_inv p" "wp_snap p = Some sn" "gm_get (sn_workers sn) i = Some w" "worker_inv w'"
  shows "pool_inv ((sample_trigger w p) \<lparr> wp_queueFullRejectedTotal := full,
       wp_snap := Some (sn \<lparr> sn_workers := gm_set (sn_workers sn) i w', sn_dispatchCnt := c \<rparr>) \<rparr>)"
proof -
  have k: "gm_keys (gm_set (sn_workers sn) i w') = gm_keys (sn_workers sn)" by (rule gm_keys_set) (simp add: assms(3))
  then have l: "length (gm_set (sn_workers sn) i w') = length (sn_workers sn)" by (metis length_map)
  have f: "factory_ok (q \<lparr> wp_queueFullRejectedTotal := a, wp_snap := b \<rparr>) = factory_ok q" for q a b
    by (simp add: factory_ok_def)
  show ?thesis using assms snap_inv_update [OF _ assms(3,4), of c] k l by (auto simp: pool_inv_def f)
qed

text \<open>Dispatching to any pool: the job is queued, or nothing changes but counters.\<close>

lemma DispatchJob_outcome:
  assumes "pool_inv p"
  shows "\<exists>r job' p'. DispatchJob sum64 job p = Some (r, job', p') \<and> pool_inv p'
     \<and> wp_invoker p' = wp_invoker p \<and> wp_middlewareChain p' = wp_middlewareChain p
     \<and> (case r of
          None \<Rightarrow> pool_jobs p' = add_mset job' (pool_jobs p) \<and> job' = Job_SetPriority (jb_Priority job') job
        | Some err \<Rightarrow> pool_jobs p' = pool_jobs p \<and> job' = job)"
proof (cases "\<exists>sn. wp_snap p = Some sn \<and> sn_workers sn \<noteq> []")
  case True
  then obtain sn where sn: "wp_snap p = Some sn" "sn_workers sn \<noteq> []" by blast
  obtain i w r job' full w' c where d: "gm_get (sn_workers sn) i = Some w" "worker_inv w"
    "SubmitJob (wp_statsEnabled p) job (wp_queueFullRejectedTotal p) w = (r, job', full, w')"
    "DispatchJob sum64 job p = Some (r, job', (sample_trigger w p) \<lparr> wp_queueFullRejectedTotal := full,
       wp_snap := Some (sn \<lparr> sn_workers := gm_set (sn_workers sn) i w', sn_dispatchCnt := c \<rparr>) \<rparr>)"
    using DispatchJob_started [OF assms sn] by metis
  note o = SubmitJob_outcome [OF d(2,3)]
  show ?thesis
    using d(4) o pool_inv_dispatch [OF assms sn(1) d(1)] snap_jobs_update [OF d(1), of w'] sn(1)
    by (cases r) (auto simp: pool_jobs_def)
next
  case False
  then have "DispatchJob sum64 job p = Some (Some ErrMailboxWorkerNotFound, job, p)"
    using assms by (auto simp: DispatchJob_def pool_inv_def snap_inv_def split: option.splits)
  then show ?thesis using assms by simp
qed

subsection \<open>Resizing\<close>

lemma stop_worker_drains:
  assumes "worker_inv w"
  shows "mset (fst (stop_worker d w)) = worker_jobs w" "worker_jobs (snd (stop_worker d w)) = {#}"
    "wk_state (snd (stop_worker d w)) \<noteq> WorkerStateRunning"
proof -
  obtain qm where q: "wk_queueManager w = Some qm" "qm_inv qm" using assms by (auto simp: worker_inv_def)
  obtain es qm' where d: "QM_DrainAll qm = Some (es, qm')" "mset es = qm_jobs qm" "qm_jobs qm' = {#}"
    using qm.drain_jobs [OF q(2)] by blast
  have "wk_queueManager (Worker_BeginStop d w) = Some qm" using q by (simp add: Worker_BeginStop_def)
  then have s: "stop_worker d w = (es, (Worker_BeginStop d w) \<lparr> wk_queueManager := Some qm' \<rparr>)" using d(1) by (simp add: stop_worker_def)
  show "mset (fst (stop_worker d w)) = worker_jobs w" "worker_jobs (snd (stop_worker d w)) = {#}"
    "wk_state (snd (stop_worker d w)) \<noteq> WorkerStateRunning"
    using s d q by (simp_all add: worker_jobs_def Worker_BeginStop_def)
qed

lemma snap_jobs_append [simp]: "snap_jobs (a @ b) = snap_jobs a + snap_jobs b"
  by (simp add: snap_jobs_def)

lemma snap_jobs_fresh: "\<forall>(i, w) \<in> set new. worker_jobs w = {#} \<Longrightarrow> snap_jobs new = {#}"
  by (induction new) (auto simp: snap_jobs_def)

lemma snap_jobs_split: "snap_jobs ws = snap_jobs (filter P ws) + snap_jobs (filter (\<lambda>kv. \<not> P kv) ws)"
  by (induction ws) (auto simp: snap_jobs_def)

lemma drained_jobs:
  assumes "\<forall>(i, w) \<in> set ws. worker_inv w"
  shows "mset (concat (map (\<lambda>(i, w). fst (stop_worker d w)) ws)) = snap_jobs ws"
  using assms by (induction ws) (auto simp: snap_jobs_def stop_worker_drains)

lemma publish_simps [simp]:
  "wp_snap (publishSnapshotLocked ws r c p) = Some \<lparr> sn_workers = ws, sn_ring = r, sn_dispatchCnt = c,
           sn_soleID = (if length ws = 1 then fst (hd ws) else 0), sn_count = length ws \<rparr>"
  "wp_workerCount (publishSnapshotLocked ws r c p) = wp_workerCount p"
  "wp_nextWorkerID (publishSnapshotLocked ws r c p) = wp_nextWorkerID p"
  "factory_ok (publishSnapshotLocked ws r c p) = factory_ok p"
  by (simp_all add: publishSnapshotLocked_def factory_ok_def)

text \<open>Publishing a set of workers with its ring keeps the invariant.\<close>

lemma publish_inv:
  assumes "factory_ok p" "0 \<le> wp_nextWorkerID p" "gm_wf ws" "ids_below (wp_nextWorkerID p) (gm_keys ws)"
    "\<forall>(i, w) \<in> set ws. worker_inv w" "length ws \<le> 2 ^ 31 - 1" "wp_workerCount p = int (length ws)"
  shows "pool_inv (publishSnapshotLocked ws (newDispatchRing (gm_keys ws)) c p)"
proof -
  have "length ws = 1 \<Longrightarrow> fst (hd ws) \<in> fst ` set ws" by (cases ws) auto
  then show ?thesis using assms by (simp add: pool_inv_def snap_inv_def)
qed

lemma distinct_below: "gm_wf ws \<Longrightarrow> ids_below n (gm_keys ws) \<Longrightarrow> gm_keys new = map (\<lambda>j. n + int j) [0..<k] \<Longrightarrow> gm_wf (ws @ new)"
  by (auto simp: gm_wf_def ids_below_def distinct_map inj_on_def)

lemma gm_get_append_old: "gm_get ws i = Some w \<Longrightarrow> gm_get (ws @ new) i = Some w"
  by (simp add: map_add_def map_of_append split: option.splits)

lemma grow_workers_spec:
  assumes i: "pool_inv p" "wp_snap p = Some sn" and n: "wp_workerCount p < n" "max_workers p \<le> 0 \<or> n \<le> max_workers p"
    "wp_nextWorkerID p + n < 2 ^ 31"
  shows "\<exists>p' new. grow_workers n sn p = Inr p' \<and> pool_inv p'
     \<and> (\<exists>sn'. wp_snap p' = Some sn' \<and> sn_workers sn' = sn_workers sn @ new)
     \<and> wp_workerCount p' = n \<and> snap_jobs new = {#} \<and> wp_nextWorkerID p' = wp_nextWorkerID p + (n - wp_workerCount p)
     \<and> gm_keys new = map (\<lambda>j. wp_nextWorkerID p + int j) [0..<nat (n - wp_workerCount p)]"
proof -
  let ?ws = "sn_workers sn" and ?k = "nat (n - wp_workerCount p)"
  have f: "factory_ok p" "0 \<le> wp_nextWorkerID p" "wp_workerCount p = int (length ?ws)" "ids_below (wp_nextWorkerID p) (gm_keys ?ws)"
    "gm_wf ?ws" "\<forall>(i, w) \<in> set ?ws. worker_inv w"
    using i by (auto simp: pool_inv_def snap_inv_def)
  have k: "wp_nextWorkerID p + int ?k < 2 ^ 31" "\<forall>i \<in> set (gm_keys ?ws). i < wp_nextWorkerID p"
    using n f by (auto simp: ids_below_def)
  obtain new cnt where s: "spawn_workers ?k p ?ws (sn_dispatchCnt sn)
        = Inr (p \<lparr> wp_nextWorkerID := wp_nextWorkerID p + int ?k \<rparr>, ?ws @ new, cnt)"
    "gm_keys new = map (\<lambda>j. wp_nextWorkerID p + int j) [0..<?k]" "\<forall>(i, w) \<in> set new. worker_inv w \<and> worker_jobs w = {#}"
    using spawn_workers_spec [OF f(1,2) k, of "sn_dispatchCnt sn"] by blast
  define p1 where "p1 = p \<lparr> wp_nextWorkerID := wp_nextWorkerID p + int ?k, wp_workerCount := n \<rparr>"
  define p' where "p' = publishSnapshotLocked (?ws @ new) (newDispatchRing (gm_keys (?ws @ new))) cnt p1"
  have g: "grow_workers n sn p = Inr p'" using n s(1) by (auto simp: grow_workers_def p'_def p1_def Let_def)
  have len: "length new = ?k" using arg_cong [OF s(2), of length] by simp
  have "pool_inv p'" unfolding p'_def
  proof (rule publish_inv)
    show "factory_ok p1" "0 \<le> wp_nextWorkerID p1" using f by (auto simp: p1_def factory_ok_def)
    show "gm_wf (?ws @ new)" using distinct_below [OF f(5,4) s(2)] .
    show "ids_below (wp_nextWorkerID p1) (gm_keys (?ws @ new))"
      using f(2,4) s(2) by (auto simp: ids_below_def p1_def)
    show "\<forall>(i, w) \<in> set (?ws @ new). worker_inv w" using f(6) s(3) by auto
    show "length (?ws @ new) \<le> 2 ^ 31 - 1" using n f len by simp
    show "wp_workerCount p1 = int (length (?ws @ new))" using n f len by (simp add: p1_def)
  qed
  moreover have "snap_jobs new = {#}" by (rule snap_jobs_fresh) (use s(3) in auto)
  ultimately show ?thesis using g s(2) n
    by (intro exI [of _ p'] exI [of _ new]) (auto simp: p'_def p1_def)
qed

text \<open>Shrinking keeps the workers with the smallest ids.\<close>

lemma removed_ids_spec:
  assumes "wp_workerCount p = int (length ws)" "0 \<le> n" "n < wp_workerCount p"
  shows "removed_ids (wp_workerCount p) n ws = drop (nat n) (sort (gm_keys ws))"
  using assms by (auto simp: removed_ids_def Let_def)

lemma gm_keys_filter: "gm_keys (filter (\<lambda>(i, w). P i) m) = filter P (gm_keys m)"
  by (induction m) auto

lemma filter_keys:
  assumes "gm_wf ws" "set ids \<subseteq> set (gm_keys ws)" "distinct ids"
  shows "length (filter (\<lambda>(i, w). i \<in> set ids) ws) = length ids"
proof -
  have "gm_keys (filter (\<lambda>(i, w). i \<in> set ids) ws) = filter (\<lambda>i. i \<in> set ids) (gm_keys ws)" by (rule gm_keys_filter)
  then have "distinct (gm_keys (filter (\<lambda>(i, w). i \<in> set ids) ws))" "set (gm_keys (filter (\<lambda>(i, w). i \<in> set ids) ws)) = set ids"
    using assms by (auto simp: gm_wf_def)
  then show ?thesis using assms(3) distinct_card by (metis length_map)
qed

lemma shrink_workers_spec:
  assumes i: "pool_inv p" "wp_snap p = Some sn" and n: "0 \<le> n" "n < wp_workerCount p"
  defines "keep \<equiv> set (take (nat n) (sort (gm_keys (sn_workers sn))))"
  shows "\<exists>es p' sn'. shrink_workers d n sn p = (es, p') \<and> pool_inv p' \<and> wp_snap p' = Some sn'
     \<and> sn_workers sn' = filter (\<lambda>(i, w). i \<in> keep) (sn_workers sn) \<and> wp_workerCount p' = n
     \<and> wp_nextWorkerID p' = wp_nextWorkerID p
     \<and> mset es = snap_jobs (filter (\<lambda>(i, w). i \<notin> keep) (sn_workers sn))"
proof -
  let ?ws = "sn_workers sn"
  define ids where "ids = drop (nat n) (sort (gm_keys ?ws))"
  define ws' where "ws' = filter (\<lambda>(i, w). i \<notin> set ids) ?ws"
  have f: "factory_ok p" "0 \<le> wp_nextWorkerID p" "wp_workerCount p = int (length ?ws)" "ids_below (wp_nextWorkerID p) (gm_keys ?ws)"
    "gm_wf ?ws" "\<forall>(i, w) \<in> set ?ws. worker_inv w" "length ?ws \<le> 2 ^ 31 - 1"
    using i by (auto simp: pool_inv_def snap_inv_def)
  have r: "removed_ids (wp_workerCount p) n ?ws = ids" using removed_ids_spec [OF f(3)] n by (simp add: ids_def)
  have split: "keep \<union> set ids = set (gm_keys ?ws)" "keep \<inter> set ids = {}"
  proof -
    have "set (take (nat n) (sort (gm_keys ?ws))) \<union> set (drop (nat n) (sort (gm_keys ?ws))) = set (sort (gm_keys ?ws))"
      by (metis append_take_drop_id set_append)
    then show "keep \<union> set ids = set (gm_keys ?ws)" by (simp add: keep_def ids_def)
    have "distinct (sort (gm_keys ?ws))" using f(5) by (simp add: gm_wf_def)
    then show "keep \<inter> set ids = {}" unfolding keep_def ids_def by (rule set_take_disj_set_drop_if_distinct) simp
  qed
  have di: "distinct ids" using f(5) by (simp add: ids_def gm_wf_def)
  have len_ids: "length ids = length ?ws - nat n" by (simp add: ids_def)
  have rem: "length (filter (\<lambda>(i, w). i \<in> set ids) ?ws) = length ids"
    by (rule filter_keys) (use f(5) split di in auto)
  have "ws' = filter (\<lambda>kv. \<not> (case kv of (i, w) \<Rightarrow> i \<in> set ids)) ?ws" unfolding ws'_def by (rule filter_cong) auto
  then have len: "length ws' = nat n"
    using rem len_ids n f(3) sum_length_filter_compl [of "\<lambda>(i, w). i \<in> set ids" ?ws] by simp
  have ne: "filter (\<lambda>(i, w). i \<in> set ids) ?ws \<noteq> []" using rem len_ids n f(3) by auto
  define es where "es = concat (map (\<lambda>(i, w). fst (stop_worker d w)) (filter (\<lambda>(i, w). i \<in> set ids) ?ws))"
  define p' where "p' = publishSnapshotLocked ws' (newDispatchRing (gm_keys ws')) (filter (\<lambda>(i, c). i \<notin> set ids) (sn_dispatchCnt sn))
      (p \<lparr> wp_workerCount := n \<rparr>)"
  have s: "shrink_workers d n sn p = (es, p')"
    using r ne by (simp add: shrink_workers_def Let_def es_def p'_def ws'_def)
  have keys: "gm_keys ws' = filter (\<lambda>i. i \<notin> set ids) (gm_keys ?ws)" unfolding ws'_def by (rule gm_keys_filter)
  have "pool_inv p'" unfolding p'_def
  proof (rule publish_inv)
    show "factory_ok (p \<lparr> wp_workerCount := n \<rparr>)" using f(1) by (simp add: factory_ok_def)
    show "gm_wf ws'" using f(5) keys by (simp add: gm_wf_def)
    show "ids_below (wp_nextWorkerID (p \<lparr> wp_workerCount := n \<rparr>)) (gm_keys ws')" using f(4) keys by (auto simp: ids_below_def)
    show "\<forall>(i, w) \<in> set ws'. worker_inv w" using f(6) by (auto simp: ws'_def)
    show "length ws' \<le> 2 ^ 31 - 1" using len f(3,7) n by simp
    show "wp_workerCount (p \<lparr> wp_workerCount := n \<rparr>) = int (length ws')" using len n by simp
  qed (use f in simp)
  moreover have "mset es = snap_jobs (filter (\<lambda>(i, w). i \<in> set ids) ?ws)"
    unfolding es_def by (rule drained_jobs) (use f(6) in auto)
  moreover have "filter (\<lambda>(i, w). i \<notin> keep) ?ws = filter (\<lambda>(i, w). i \<in> set ids) ?ws" "filter (\<lambda>(i, w). i \<in> keep) ?ws = ws'"
  proof -
    have m: "i \<notin> keep \<longleftrightarrow> i \<in> set ids" if "(i, w) \<in> set ?ws" for i w
      using split that by (metis (no_types, lifting) UnE UnCI disjoint_iff image_eqI fst_conv list.set_map)
    show "filter (\<lambda>(i, w). i \<notin> keep) ?ws = filter (\<lambda>(i, w). i \<in> set ids) ?ws" by (rule filter_cong) (use m in auto)
    show "filter (\<lambda>(i, w). i \<in> keep) ?ws = ws'" unfolding ws'_def by (rule filter_cong) (use m in auto)
  qed
  ultimately show ?thesis using s by (intro exI [of _ es] exI [of _ p']) (auto simp: p'_def)
qed

text \<open>A started pool of two workers with empty unbounded queues.\<close>

lemma pool_example_inv: "pool_inv pool_example" "wp_snap pool_example = Some snap_example" "sn_workers snap_example \<noteq> []"
proof -
  have w: "worker_inv rw_worker_example" using rw_example_fresh by (simp add: fresh_worker_def)
  have "\<exists>m. createQueueManager 4 (example_job 0 0) (\<lambda>_. None) dual_spec_example = Inr m"
    using default_manager [of 4 "example_job 0 0" "\<lambda>_. None"]
    by (auto simp: createQueueManager_def dual_spec_example_def)
  moreover have "spec_capacities dual_spec_example = []" by (simp add: spec_capacities_def dual_spec_example_def)
  ultimately have "factory_ok pool_example" by (simp add: factory_ok_def pool_example_def dual_spec_example_def)
  then show "pool_inv pool_example"
    using w by (simp add: pool_inv_def pool_example_def snap_example_def snap_inv_def gm_wf_def ids_below_def)
  show "wp_snap pool_example = Some snap_example" "sn_workers snap_example \<noteq> []"
    by (simp_all add: pool_example_def snap_example_def)
qed

section \<open>Properties\<close>

text \<open>
  C29. A started pool routes a job to the worker that every job with the same dispatcher key goes to, before and after, and reports what that worker's
  \<open>SubmitJob\<close> answers: an accepted job is queued there once, possibly with the priority of the fallback queue; a refused job and all
  queues are unchanged. No lookup fails. Nothing of the pool changes but that worker, the number of jobs dispatched to it, the number of refusals, and the sample for
  the automatic scaling, which asks for a scaling step only when the worker has jobs.
\<close>

theorem DispatchJob_routes:
  assumes "pool_inv p" "wp_snap p = Some sn" "sn_workers sn \<noteq> []"
  shows "\<exists>i w r job' full w' p' sn' sample trigger.
       (\<forall>j. jb_DispatcherKey j = jb_DispatcherKey job \<longrightarrow>
          select_worker sum64 j sn = Some (Inr i) \<and> select_worker sum64 j sn' = Some (Inr i))
     \<and> gm_get (sn_workers sn) i = Some w
     \<and> SubmitJob (wp_statsEnabled p) job (wp_queueFullRejectedTotal p) w = (r, job', full, w')
     \<and> DispatchJob sum64 job p = Some (r, job', p') \<and> pool_inv p'
     \<and> p' = p \<lparr> wp_snap := Some sn', wp_queueFullRejectedTotal := full, wp_dispatchSampleCnt := sample, wp_scaleTrigger := trigger \<rparr>
     \<and> (wp_scaleTrigger p \<longrightarrow> trigger) \<and> (trigger \<longrightarrow> wp_scaleTrigger p \<or> 0 < Worker_GetJobLen w)
     \<and> sn' = sn \<lparr> sn_workers := gm_set (sn_workers sn) i w', sn_dispatchCnt := sn_dispatchCnt sn' \<rparr>
     \<and> (\<forall>k. gm_get (sn_dispatchCnt sn') k =
            (if wp_statsEnabled p \<and> k = i then map_option (\<lambda>n. n + 1) (gm_get (sn_dispatchCnt sn) k) else gm_get (sn_dispatchCnt sn) k))
     \<and> r \<noteq> Some ErrMailboxWorkerNotFound
     \<and> (case r of
          None \<Rightarrow> snap_jobs (sn_workers sn') = add_mset job' (snap_jobs (sn_workers sn))
                \<and> job' = Job_SetPriority (jb_Priority job') job
        | Some err \<Rightarrow> snap_jobs (sn_workers sn') = snap_jobs (sn_workers sn) \<and> job' = job)"
proof -
  obtain i w r job' full w' c where d: "select_worker sum64 job sn = Some (Inr i)" "gm_get (sn_workers sn) i = Some w" "worker_inv w"
    "SubmitJob (wp_statsEnabled p) job (wp_queueFullRejectedTotal p) w = (r, job', full, w')"
    "DispatchJob sum64 job p = Some (r, job', (sample_trigger w p) \<lparr> wp_queueFullRejectedTotal := full,
       wp_snap := Some (sn \<lparr> sn_workers := gm_set (sn_workers sn) i w', sn_dispatchCnt := c \<rparr>) \<rparr>)"
    and c: "\<forall>k. gm_get c k = (if wp_statsEnabled p \<and> k = i then map_option (\<lambda>n. n + 1) (gm_get (sn_dispatchCnt sn) k) else gm_get (sn_dispatchCnt sn) k)"
    using DispatchJob_started [OF assms] by metis
  define sn' where "sn' = sn \<lparr> sn_workers := gm_set (sn_workers sn) i w', sn_dispatchCnt := c \<rparr>"
  obtain sample trigger where t: "sample_trigger w p = p \<lparr> wp_dispatchSampleCnt := sample, wp_scaleTrigger := trigger \<rparr>"
    "wp_scaleTrigger p \<longrightarrow> trigger" "trigger \<longrightarrow> wp_scaleTrigger p \<or> 0 < Worker_GetJobLen w" using sample_trigger_shape by blast
  define p' where "p' = (sample_trigger w p) \<lparr> wp_queueFullRejectedTotal := full, wp_snap := Some sn' \<rparr>"
  have w': "worker_inv w'" "r \<noteq> Some ErrMailboxWorkerNotFound"
    and res: "case r of None \<Rightarrow> worker_jobs w' = add_mset job' (worker_jobs w) \<and> job' = Job_SetPriority (jb_Priority job') job
        | Some err \<Rightarrow> worker_jobs w' = worker_jobs w \<and> job' = job"
    using SubmitJob_outcome [OF d(3,4)] by auto
  have s: "\<forall>j. jb_DispatcherKey j = jb_DispatcherKey job \<longrightarrow> select_worker sum64 j sn = Some (Inr i) \<and> select_worker sum64 j sn' = Some (Inr i)"
  proof (intro allI impI)
    fix j :: mailbox_job
    assume "jb_DispatcherKey j = jb_DispatcherKey job"
    from select_worker_key [OF this]
    show "select_worker sum64 j sn = Some (Inr i) \<and> select_worker sum64 j sn' = Some (Inr i)" using d(1) by (simp add: sn'_def)
  qed
  have inv: "pool_inv p'" unfolding p'_def sn'_def by (rule pool_inv_dispatch [OF assms(1,2) d(2) w'(1)])
  have p': "p' = p \<lparr> wp_snap := Some sn', wp_queueFullRejectedTotal := full, wp_dispatchSampleCnt := sample, wp_scaleTrigger := trigger \<rparr>"
    by (simp add: p'_def t(1))
  have dp: "DispatchJob sum64 job p = Some (r, job', p')" using d(5) by (simp add: p'_def sn'_def)
  have jobs: "case r of None \<Rightarrow> snap_jobs (sn_workers sn') = add_mset job' (snap_jobs (sn_workers sn)) \<and> job' = Job_SetPriority (jb_Priority job') job
        | Some err \<Rightarrow> snap_jobs (sn_workers sn') = snap_jobs (sn_workers sn) \<and> job' = job"
    using res snap_jobs_update [OF d(2), of w'] by (cases r) (auto simp: sn'_def)
  have sn': "sn' = sn \<lparr> sn_workers := gm_set (sn_workers sn) i w', sn_dispatchCnt := sn_dispatchCnt sn' \<rparr>" "sn_dispatchCnt sn' = c"
    by (simp_all add: sn'_def)
  have c': "\<forall>k. gm_get (sn_dispatchCnt sn') k =
      (if wp_statsEnabled p \<and> k = i then map_option (\<lambda>n. n + 1) (gm_get (sn_dispatchCnt sn) k) else gm_get (sn_dispatchCnt sn) k)"
    unfolding sn'(2) by (rule c)
  show ?thesis
    by (intro exI [of _ i] exI [of _ w] exI [of _ r] exI [of _ job'] exI [of _ full] exI [of _ w'] exI [of _ p'] exI [of _ sn'] exI [of _ sample] exI [of _ trigger] conjI)
      (rule s d(2) d(4) dp inv p' t(2) t(3) sn'(1) c' w'(2) jobs)+
qed

theorem DispatchJob_routes_witness:
  "\<exists>r job' p'. DispatchJob (\<lambda>_. 42) read_job_example pool_example = Some (r, job', p') \<and> pool_inv p'"
  using DispatchJob_routes [OF pool_example_inv, of read_job_example "\<lambda>_. 42"] by blast

text \<open>
  C28. Resizing a started pool to \<open>n\<close> workers, while the worker numbers stay below \<open>2^31\<close>. A negative \<open>n\<close> panics. Otherwise the pool has \<open>n\<close> workers
  afterwards, but growing stops at the configured maximum (and never shrinks the pool); the invariant is kept and no job is lost. Growing keeps every worker and adds
  workers with fresh numbers and empty queues; shrinking keeps the workers with the smallest numbers as
  they are, and the jobs queued at the others are exactly the jobs that are drained.
\<close>

theorem resizeWorkers_keeps_jobs:
  assumes "pool_inv p" "wp_snap p = Some sn" "wp_nextWorkerID p + n < 2 ^ 31"
  shows "(n < 0 \<longrightarrow> resizeWorkers d n p = Inl (Go_Panic ''slice bounds out of range''))
     \<and> (0 \<le> n \<longrightarrow> (\<exists>es p' sn'. resizeWorkers d n p = Inr (es, p') \<and> pool_inv p' \<and> wp_snap p' = Some sn'
          \<and> int (length (sn_workers sn')) =
              (if wp_workerCount p < n \<and> 0 < max_workers p then max (wp_workerCount p) (min n (max_workers p)) else n)
          \<and> snap_jobs (sn_workers sn) = snap_jobs (sn_workers sn') + mset es
          \<and> (wp_workerCount p \<le> n \<longrightarrow> es = [] \<and>
               (\<exists>new. sn_workers sn' = sn_workers sn @ new \<and> (\<forall>i \<in> set (gm_keys new). wp_nextWorkerID p \<le> i)))
          \<and> (n < wp_workerCount p \<longrightarrow>
               sn_workers sn' = filter (\<lambda>(i, w). i \<in> set (take (nat n) (sort (gm_keys (sn_workers sn))))) (sn_workers sn))))"
proof -
  have c: "wp_workerCount p = int (length (sn_workers sn))" using assms by (simp add: pool_inv_def)
  let ?m = "if 0 < max_workers p \<and> max_workers p < n then max_workers p else n"
  consider (neg) "n < 0" | (same) "0 \<le> n" "n = wp_workerCount p \<or> wp_workerCount p < n \<and> ?m \<le> wp_workerCount p"
    | (grow) "0 \<le> n" "wp_workerCount p < n" "wp_workerCount p < ?m" | (shrink) "0 \<le> n" "n < wp_workerCount p" by linarith
  then show ?thesis
  proof cases
    case neg
    then show ?thesis using assms c by (simp add: resizeWorkers_def)
  next
    case same
    then have "resizeWorkers d n p = Inr ([], p)" using assms by (auto simp: resizeWorkers_def grow_workers_def Let_def)
    then show ?thesis using same assms c by (intro conjI impI exI [of _ "[]"] exI [of _ p] exI [of _ sn]) (auto split: if_splits)
  next
    case grow
    have m: "max_workers p \<le> 0 \<or> ?m \<le> max_workers p" "wp_nextWorkerID p + ?m < 2 ^ 31" using assms(3) by auto
    obtain p' new sn' where g: "grow_workers ?m sn p = Inr p'" "pool_inv p'" "wp_snap p' = Some sn'" "sn_workers sn' = sn_workers sn @ new"
      "wp_workerCount p' = ?m" "snap_jobs new = {#}" "gm_keys new = map (\<lambda>j. wp_nextWorkerID p + int j) [0..<nat (?m - wp_workerCount p)]"
      using grow_workers_spec [OF assms(1,2) grow(3) m] by blast
    have "grow_workers n sn p = grow_workers ?m sn p" by (simp add: grow_workers_def Let_def)
    moreover have "int (length (sn_workers sn')) = ?m" using g by (simp add: pool_inv_def)
    moreover have "?m = (if wp_workerCount p < n \<and> 0 < max_workers p then max (wp_workerCount p) (min n (max_workers p)) else n)"
      using grow by (cases "0 < max_workers p \<and> max_workers p < n") (auto simp: max_def min_def)
    moreover have "\<forall>i \<in> set (gm_keys new). wp_nextWorkerID p \<le> i" unfolding g(7) by simp
    ultimately show ?thesis using grow(1,2) assms(2) g(1-4,6)
      by (intro conjI impI, simp) (rule exI [of _ "[]"], rule exI [of _ p'], rule exI [of _ sn'], auto simp: resizeWorkers_def)
  next
    case shrink
    define keep where "keep = set (take (nat n) (sort (gm_keys (sn_workers sn))))"
    obtain es p' sn' where s: "shrink_workers d n sn p = (es, p')" "pool_inv p'" "wp_snap p' = Some sn'"
      "sn_workers sn' = filter (\<lambda>(i, w). i \<in> keep) (sn_workers sn)" "wp_workerCount p' = n"
      "mset es = snap_jobs (filter (\<lambda>(i, w). i \<notin> keep) (sn_workers sn))"
      using shrink_workers_spec [OF assms(1,2) shrink, of d] unfolding keep_def by blast
    have "int (length (sn_workers sn')) = n" using s by (simp add: pool_inv_def)
    moreover have "filter (\<lambda>(i, w). i \<notin> keep) (sn_workers sn) = filter (\<lambda>kv. \<not> (case kv of (i, w) \<Rightarrow> i \<in> keep)) (sn_workers sn)"
      by (rule filter_cong) auto
    then have "snap_jobs (sn_workers sn) = snap_jobs (sn_workers sn') + mset es"
      unfolding s(4,6) by (simp only:) (rule snap_jobs_split)
    ultimately show ?thesis using s shrink assms(2)
      by (intro conjI impI exI [of _ es] exI [of _ p'] exI [of _ sn']) (simp_all add: resizeWorkers_def keep_def)
  qed
qed

theorem resizeWorkers_keeps_jobs_witness:
  "\<exists>es p' sn'. resizeWorkers 9 1 pool_example = Inr (es, p') \<and> wp_snap p' = Some sn' \<and> length (sn_workers sn') = 1
     \<and> snap_jobs (sn_workers snap_example) = snap_jobs (sn_workers sn') + mset es"
  using resizeWorkers_keeps_jobs [OF pool_example_inv(1,2), of 1 9]
  by (auto simp: pool_example_def max_workers_def zero_mailbox_conf_def)

text \<open>
  The limiter of stack traces never hands out more than its tokens plus one per interval that
  has passed: over any calls at times that do not go back, at most \<open>burstCap + (t - start) div interval\<close>
  of them are allowed, and the tokens stay between zero and the capacity.
\<close>

theorem panic_limiter_bounded:
  assumes "0 < b" "b \<le> 1000000000" "sorted (t0 # ts)" "limiter_run ts (newPanicRateLimiter t0 b) = (n, l)"
  shows "n \<le> b + (last (t0 # ts) - t0) div (1000000000 div b) \<and> 0 \<le> pl_tokens l \<and> pl_tokens l \<le> b"
proof -
  let ?l = "newPanicRateLimiter t0 b"
  have f: "pl_lastNS ?l = t0" "pl_tokens ?l = b" "pl_burstCap ?l = b" "pl_intervalN ?l = 1000000000 div b"
    using assms by (simp_all add: newPanicRateLimiter_def Let_def go_div_nonneg)
  have i: "0 < 1000000000 div b" using assms by (simp add: pos_imp_zdiv_pos_iff)
  then have inv: "limiter_inv ?l" using f assms by (simp add: limiter_inv_def)
  obtain k where k: "0 \<le> k" "limiter_inv l" "pl_lastNS l = t0 + k * (1000000000 div b)" "n + pl_tokens l \<le> b + k"
    "pl_lastNS l \<le> last (t0 # ts)" "pl_burstCap l = b"
    using limiter_run_bound [OF inv _ assms(4)] assms(3) f by auto
  have "k * (1000000000 div b) \<le> last (t0 # ts) - t0" using k by linarith
  then have "k \<le> (last (t0 # ts) - t0) div (1000000000 div b)" using i by (metis nonzero_mult_div_cancel_right order_less_irrefl zdiv_mono1)
  then show ?thesis using k by (auto simp: limiter_inv_def)
qed

theorem panic_limiter_bounded_witness:
  "fst (limiter_run [0, 1, 2, 3, 4, 5, 6] (newPanicRateLimiter 0 5)) \<le> 5"
proof -
  obtain n l where r: "limiter_run [0, 1, 2, 3, 4, 5, 6] (newPanicRateLimiter 0 5) = (n, l)" by force
  show ?thesis using panic_limiter_bounded [OF _ _ _ r] r by simp
qed

end
