(* ===== verification/Mailbox.thy ===== *)
theory Mailbox
  imports Worker_Pool
begin

text \<open>
  The mailbox itself (\<open>engine/pkg/actor/mailbox/mailbox.go\<close>) with its suspend policies
  (\<open>suspend_policy.go\<close>), its drain policy (\<open>stop_policy.go\<close>) and its counters
  (\<open>mailbox_metrics.go\<close>). \<open>PostJob\<close> owns the job it is given: either a worker gets it, or it is
  discarded, completed and released before the call returns.
\<close>

section \<open>Definitions\<close>

definition ParseDrainPolicy :: "string \<Rightarrow> drain_policy" where
  "ParseDrainPolicy v =
     (let s = TrimSpace (ToLower v)
      in if s = ''discard'' \<or> s = ''drop'' \<or> s = ''skip'' then DrainDiscard
         else if s = ''execute'' \<or> s = ''drain'' \<or> s = ''run'' \<or> s = '''' then DrainExecute
         else DrainExecute)"

subsection \<open>Suspend policies\<close>

type_synonym suspend_policy = "mailbox_job \<Rightarrow> bool"

definition DefaultSuspendPolicy_ShouldAllow :: suspend_policy where
  "DefaultSuspendPolicy_ShouldAllow job =
     (if jb_Priority job \<le> PriorityUrgent then True
      else if jb_Type job = JobRpc \<and> jb_isReply job then True
      else if jb_Type job = JobConcurrentCallback then True
      else False)"

record composite_suspend_policy =
  cs_policies :: "suspend_policy list option"

definition NewCompositeSuspendPolicy :: "suspend_policy list \<Rightarrow> composite_suspend_policy" where
  "NewCompositeSuspendPolicy policies = \<lparr> cs_policies = Some policies \<rparr>"

definition CompositeSuspendPolicy_ShouldAllow :: "composite_suspend_policy \<Rightarrow> suspend_policy" where
  "CompositeSuspendPolicy_ShouldAllow p job =
     (case cs_policies p of None \<Rightarrow> False | Some snap \<Rightarrow> list_ex (\<lambda>policy. policy job) snap)"

definition AddPolicy :: "suspend_policy \<Rightarrow> composite_suspend_policy \<Rightarrow> composite_suspend_policy" where
  "AddPolicy policy p =
     (let oldSlice = (case cs_policies p of None \<Rightarrow> [] | Some old \<Rightarrow> old)
      in p \<lparr> cs_policies := Some (oldSlice @ [policy]) \<rparr>)"

subsection \<open>The mailbox\<close>

record mailbox_metrics =
  mm_postTotal :: int
  mm_suspendedTotal :: int
  mm_rejectedTotal :: int
  mm_dispatchFailedTotal :: int

record mailbox =
  mb_suspended :: bool
  mb_suspendPolicy :: suspend_policy
  mb_drainPolicy :: drain_policy
  mb_workerPool :: worker_pool
  mb_metrics :: mailbox_metrics

text \<open>The options \<open>WithSuspendPolicy\<close> and \<open>WithDrainPolicy\<close>.\<close>

definition WithSuspendPolicy :: "suspend_policy \<Rightarrow> mailbox \<Rightarrow> mailbox" where
  "WithSuspendPolicy policy m = m \<lparr> mb_suspendPolicy := policy \<rparr>"

definition WithDrainPolicy :: "drain_policy \<Rightarrow> mailbox \<Rightarrow> mailbox" where
  "WithDrainPolicy policy m = m \<lparr> mb_drainPolicy := policy \<rparr>"

definition NewMailbox :: "int \<Rightarrow> mailbox_job \<Rightarrow> (nat list \<Rightarrow> nat option) \<Rightarrow> (int \<Rightarrow> string option) \<Rightarrow> int
    \<Rightarrow> mailbox_conf option \<Rightarrow> invoker option \<Rightarrow> middleware list \<Rightarrow> (mailbox \<Rightarrow> mailbox) list \<Rightarrow> pool_error + mailbox" where
  "NewMailbox ncpu zero pick newPool now conf ivk middlewares opts =
     and_then (NewWorkerPool ncpu zero pick newPool now conf ivk middlewares) (\<lambda>wp.
       let m = \<lparr> mb_suspended = False, mb_suspendPolicy = DefaultSuspendPolicy_ShouldAllow, mb_drainPolicy = DrainExecute,
                 mb_workerPool = wp, mb_metrics = \<lparr> mm_postTotal = 0, mm_suspendedTotal = 0, mm_rejectedTotal = 0,
                   mm_dispatchFailedTotal = 0 \<rparr> \<rparr>;
           m = fold (\<lambda>opt m. opt m) opts m
       in Inr (m \<lparr> mb_workerPool := SetDrainPolicy (mb_drainPolicy m) (mb_workerPool m) \<rparr>))"

definition isSuspended :: "mailbox \<Rightarrow> bool" where
  "isSuspended m = mb_suspended m"

definition Suspend :: "mailbox \<Rightarrow> bool \<times> mailbox" where
  "Suspend m = (if mb_suspended m then (False, m) else (True, m \<lparr> mb_suspended := True \<rparr>))"

definition Resume :: "mailbox \<Rightarrow> bool \<times> mailbox" where
  "Resume m = (if mb_suspended m then (True, m \<lparr> mb_suspended := False \<rparr>) else (False, m))"

definition Mailbox_Start :: "mailbox \<Rightarrow> go_panic + (mw_event list \<times> mailbox)" where
  "Mailbox_Start m = and_then (Pool_Start (mb_workerPool m)) (\<lambda>(tr, p). Inr (tr, m \<lparr> mb_workerPool := p \<rparr>))"

definition Mailbox_Stop :: "int \<Rightarrow> mailbox \<Rightarrow> mailbox_job list \<times> mw_event list \<times> mailbox" where
  "Mailbox_Stop deadline m =
     (case Pool_Stop deadline (mb_workerPool m) of (es, tr, p) \<Rightarrow> (es, tr, m \<lparr> mb_workerPool := p \<rparr>))"

text \<open>A panic of \<open>OnJobDiscarded\<close> is recovered.\<close>

definition notifyJobDiscarded :: "mailbox_job \<Rightarrow> mailbox_error \<Rightarrow> exec_world \<Rightarrow> exec_world" where
  "notifyJobDiscarded job reason w = emit [EvDiscarded (jb_id job) reason] w"

definition discardJob :: "mailbox_job \<Rightarrow> mailbox_error \<Rightarrow> exec_world \<Rightarrow> exec_world" where
  "discardJob job reason w = emit [EvRelease (jb_id job)] (notifyJobDiscarded job reason w)"

text \<open>
  The three steps of the later error paths, in their fixed order: \<open>OnJobDiscarded\<close>,
  \<open>ExecuteOnComplete\<close> on the context \<open>mctx\<close>, \<open>Release\<close>.
\<close>

definition give_up :: "middleware_chain \<Rightarrow> mailbox_job \<Rightarrow> nat option \<Rightarrow> mailbox_error \<Rightarrow> exec_world \<Rightarrow> exec_world" where
  "give_up chain job mctx err w =
     emit [EvRelease (jb_id job)]
       (complete_mctx (\<lambda>mc. ExecuteOnComplete chain mc (Some err) None) mctx (notifyJobDiscarded job err w))"

definition bump_metrics :: "(mailbox_metrics \<Rightarrow> mailbox_metrics) \<Rightarrow> mailbox \<Rightarrow> mailbox" where
  "bump_metrics f m = m \<lparr> mb_metrics := f (mb_metrics m) \<rparr>"

text \<open>
  \<open>PostJob\<close>; \<open>a\<close> is the address at which the pool of contexts hands out a context. The error that is
  returned, the world and the mailbox; the outer option is that of \<open>DispatchJob\<close>.
\<close>

definition PostJob :: "(string \<Rightarrow> u64) \<Rightarrow> int \<Rightarrow> nat \<Rightarrow> mailbox_job \<Rightarrow> exec_world \<Rightarrow> mailbox
    \<Rightarrow> (mailbox_error option \<times> exec_world \<times> mailbox) option" where
  "PostJob sum64 now a job w m =
     (let m1 = bump_metrics (\<lambda>c. c \<lparr> mm_postTotal := mm_postTotal c + 1 \<rparr>) m;
          pool = mb_workerPool m;
          chain = wp_middlewareChain pool
      in if isSuspended m1 \<and> \<not> mb_suspendPolicy m1 job
         then Some (Some ErrMailboxSuspended, discardJob job ErrMailboxSuspended w,
                bump_metrics (\<lambda>c. c \<lparr> mm_suspendedTotal := mm_suspendedTotal c + 1 \<rparr>) m1)
         else
           case ExecuteOnReceive chain job (iv_serviceName (wp_invoker pool)) now of
             (result, mc, tr) \<Rightarrow>
               (let mctx = map_option (\<lambda>_. a) mc;
                    w1 = emit (map EvMw tr) (case mc of None \<Rightarrow> w | Some c \<Rightarrow> w \<lparr> ew_ctxs := gm_set (ew_ctxs w) a c \<rparr>)
                in if mr_Action result = ActionReject
                   then let rejectErr = (case mr_Err result of Some e \<Rightarrow> e | None \<Rightarrow> ErrMailboxMiddlewareRejected)
                        in Some (Some rejectErr, give_up chain job mctx rejectErr w1,
                             bump_metrics (\<lambda>c. c \<lparr> mm_rejectedTotal := mm_rejectedTotal c + 1 \<rparr>) m1)
                   else let job = job \<lparr> jb_mctx := mctx \<rparr>
                        in map_option (\<lambda>(r, job', p').
                             (case r of
                                None \<Rightarrow> (None, w1, m1 \<lparr> mb_workerPool := p' \<rparr>)
                              | Some dispatchErr \<Rightarrow>
                                  (Some dispatchErr, give_up chain job mctx dispatchErr w1,
                                   bump_metrics (\<lambda>c. c \<lparr> mm_dispatchFailedTotal := mm_dispatchFailedTotal c + 1 \<rparr>)
                                     (m1 \<lparr> mb_workerPool := p' \<rparr>))))
                             (DispatchJob sum64 job pool)))"

text \<open>What the trace of a failed \<open>PostJob\<close> looks like: discard, completions, release.\<close>

definition failed_post :: "mailbox_job \<Rightarrow> mailbox_error \<Rightarrow> job_event list \<Rightarrow> bool" where
  "failed_post job e tr \<longleftrightarrow>
     (\<exists>pre post. tr = map EvMw pre @ [EvDiscarded (jb_id job) e] @ map EvMw post @ [EvRelease (jb_id job)]
        \<and> completed pre = [] \<and> received post = [] \<and> completed post = rev (received pre)
        \<and> count_list post CtxPut = count_list pre CtxGet)"

definition mailbox_example :: mailbox where
  "mailbox_example = \<lparr> mb_suspended = False, mb_suspendPolicy = DefaultSuspendPolicy_ShouldAllow, mb_drainPolicy = DrainExecute,
     mb_workerPool = pool_example, mb_metrics = \<lparr> mm_postTotal = 0, mm_suspendedTotal = 0, mm_rejectedTotal = 0,
       mm_dispatchFailedTotal = 0 \<rparr> \<rparr>"

section \<open>Facts\<close>

lemma ExecuteOnReceive_trace:
  assumes "ExecuteOnReceive c job sn now = (r, mc, tr)"
  shows "(case mc of
      None \<Rightarrow> tr = [] \<and> mr_Action r = ActionContinue
    | Some x \<Rightarrow> completed tr = [] \<and> count_list tr CtxGet = 1
        \<and> received (ExecuteOnComplete c' (Some x) e p) = [] \<and> completed (ExecuteOnComplete c' (Some x) e p) = rev (received tr)
        \<and> count_list (ExecuteOnComplete c' (Some x) e p) CtxPut = 1)"
proof (cases mc)
  case None
  then show ?thesis using assms by (auto simp: ExecuteOnReceive_def Continue_def Let_def split: if_splits prod.splits)
next
  case (Some x)
  define m0 where "m0 = \<lparr> mx_job = Some job, mx_serviceName = sn, mx_startTime = now, mx_executed = 0,
                        mx_middlewareSnapshot = Some (mch_mws c), mx_data = [] \<rparr>"
  obtain tr1 where l: "receive_loop c 0 job (mch_mws c) m0 = (r, x, tr1)" and tr: "tr = CtxGet # tr1"
    using assms Some by (auto simp: ExecuteOnReceive_def m0_def Let_def split: if_splits prod.splits)
  obtain k where k: "k \<le> length (mch_mws c)" "received tr1 = map mw_Name (take k (mch_mws c))" "mx_executed x = int k"
    and t: "completed tr1 = []" "count_list tr1 CtxGet = 0"
    and sn: "mx_middlewareSnapshot x = Some (mch_mws c)"
    using receive_loop_trace [OF l] by (auto simp: m0_def)
  have "completed_middlewares c' x = rev (take k (mch_mws c))"
    using k sn by (simp add: completed_middlewares_def Let_def)
  then show ?thesis using k t by (simp add: Some tr ExecuteOnComplete_def each_complete_trace rev_map)
qed

lemma give_up_trace:
  fixes e :: mailbox_error
  assumes "ExecuteOnReceive c job0 sn now = (r, mc, tr)" "gm_get (ew_ctxs w) a = None" "jb_id job = jb_id job0"
  defines "w1 \<equiv> emit (map EvMw tr) (case mc of None \<Rightarrow> w | Some x \<Rightarrow> w \<lparr> ew_ctxs := gm_set (ew_ctxs w) a x \<rparr>)"
  defines "w' \<equiv> give_up c job (map_option (\<lambda>_. a) mc) e w1"
  shows "\<exists>t. ew_trace w' = ew_trace w @ t \<and> failed_post job0 e t" "gm_get (ew_ctxs w') b = gm_get (ew_ctxs w) b"
proof -
  note x = ExecuteOnReceive_trace [OF assms(1), of c "Some e" None]
  have "\<exists>t. ew_trace w' = ew_trace w @ t \<and> failed_post job0 e t \<and> gm_get (ew_ctxs w') b = gm_get (ew_ctxs w) b"
  proof (cases mc)
    case None
    then show ?thesis using x assms(3) unfolding w'_def w1_def give_up_def complete_mctx_def notifyJobDiscarded_def failed_post_def
      by (intro exI [of _ "[EvDiscarded (jb_id job0) e, EvRelease (jb_id job0)]"]) (auto intro!: exI [of _ "[]"])
  next
    case (Some y)
    have "ew_trace w' = ew_trace w @ map EvMw tr @ [EvDiscarded (jb_id job0) e]
        @ map EvMw (ExecuteOnComplete c (Some y) (Some e) None) @ [EvRelease (jb_id job0)]"
      using assms(3) by (simp add: w'_def w1_def give_up_def complete_mctx_def notifyJobDiscarded_def Some gm_get_set)
    moreover have "gm_get (ew_ctxs w') b = gm_get (ew_ctxs w) b"
      using assms(2) by (auto simp: w'_def w1_def give_up_def complete_mctx_ctxs notifyJobDiscarded_def Some gm_get_set)
    moreover have "failed_post job0 e (map EvMw tr @ [EvDiscarded (jb_id job0) e]
        @ map EvMw (ExecuteOnComplete c (Some y) (Some e) None) @ [EvRelease (jb_id job0)])"
      unfolding failed_post_def
      by (intro exI [of _ tr] exI [of _ "ExecuteOnComplete c (Some y) (Some e) None"]) (use x Some in auto)
    ultimately show ?thesis by blast
  qed
  then show "\<exists>t. ew_trace w' = ew_trace w @ t \<and> failed_post job0 e t" "gm_get (ew_ctxs w') b = gm_get (ew_ctxs w) b" by auto
qed

section \<open>Properties\<close>

text \<open>
  C7. \<open>PostJob\<close> disposes of every job it does not hand over. On success the job is queued exactly
  once, nothing was discarded or released, and its context is alive. On every failure, suspended,
  rejected by a middleware, refused by the pool or the pool not running: the application is told
  once, with the error that is returned; then the middlewares that received the job, the rejecting
  one included, are completed in reverse order and the context goes back; then the job is released,
  as the last event. The queues and the contexts of other jobs are unchanged, and exactly one
  counter of failures grows.
\<close>

theorem PostJob_owns:
  assumes "pool_inv (mb_workerPool m)" "gm_get (ew_ctxs w) a = None"
  shows "\<exists>r w' m' tr. PostJob sum64 now a job w m = Some (r, w', m') \<and> ew_trace w' = ew_trace w @ tr \<and> executions tr = []
     \<and> pool_inv (mb_workerPool m') \<and> mm_postTotal (mb_metrics m') = mm_postTotal (mb_metrics m) + 1
     \<and> (case r of
          None \<Rightarrow> releases tr = [] \<and> discards tr = []
            \<and> (\<exists>job'. pool_jobs (mb_workerPool m') = add_mset job' (pool_jobs (mb_workerPool m)) \<and> jb_id job' = jb_id job
                 \<and> (\<forall>b. jb_mctx job' = Some b \<longrightarrow> b = a \<and> gm_get (ew_ctxs w') a \<noteq> None))
        | Some e \<Rightarrow> failed_post job e tr \<and> pool_jobs (mb_workerPool m') = pool_jobs (mb_workerPool m)
            \<and> (\<forall>b. gm_get (ew_ctxs w') b = gm_get (ew_ctxs w) b)
            \<and> (mm_suspendedTotal (mb_metrics m') + mm_rejectedTotal (mb_metrics m') + mm_dispatchFailedTotal (mb_metrics m')
               = mm_suspendedTotal (mb_metrics m) + mm_rejectedTotal (mb_metrics m) + mm_dispatchFailedTotal (mb_metrics m) + 1))"
proof -
  let ?p = "mb_workerPool m"
  obtain result mc tr where x: "ExecuteOnReceive (wp_middlewareChain ?p) job (iv_serviceName (wp_invoker ?p)) now = (result, mc, tr)"
    using prod_cases3 by blast
  define w1 where "w1 = emit (map EvMw tr) (case mc of None \<Rightarrow> w | Some c \<Rightarrow> w \<lparr> ew_ctxs := gm_set (ew_ctxs w) a c \<rparr>)"
  define e where "e = (case mr_Err result of Some e \<Rightarrow> e | None \<Rightarrow> ErrMailboxMiddlewareRejected)"
  define job1 where "job1 = job \<lparr> jb_mctx := map_option (\<lambda>_. a) mc \<rparr>"
  have id1: "jb_id job1 = jb_id job" "jb_mctx job1 = map_option (\<lambda>_. a) mc" by (simp_all add: job1_def)
  obtain r job' p' where d: "DispatchJob sum64 job1 ?p = Some (r, job', p')" "pool_inv p'"
    "case r of None \<Rightarrow> pool_jobs p' = add_mset job' (pool_jobs ?p) \<and> job' = Job_SetPriority (jb_Priority job') job1
        | Some err \<Rightarrow> pool_jobs p' = pool_jobs ?p \<and> job' = job1"
    using DispatchJob_outcome [OF assms(1)] by blast
  have fp: "\<exists>t. ew_trace (give_up (wp_middlewareChain ?p) j (map_option (\<lambda>_. a) mc) e' w1) = ew_trace w @ t \<and> failed_post job e' t"
    "gm_get (ew_ctxs (give_up (wp_middlewareChain ?p) j (map_option (\<lambda>_. a) mc) e' w1)) b = gm_get (ew_ctxs w) b"
    if "jb_id j = jb_id job" for j e' b
    unfolding w1_def by (rule give_up_trace [OF x assms(2) that])+
  have ex: "failed_post job e' t \<Longrightarrow> executions t = []" for e' t by (auto simp: failed_post_def)
  consider (susp) "isSuspended m \<and> \<not> mb_suspendPolicy m job"
    | (rej) "\<not> (isSuspended m \<and> \<not> mb_suspendPolicy m job)" "mr_Action result = ActionReject"
    | (disp) "\<not> (isSuspended m \<and> \<not> mb_suspendPolicy m job)" "mr_Action result \<noteq> ActionReject"
    by blast
  then show ?thesis
  proof cases
    case susp
    have "failed_post job ErrMailboxSuspended [EvDiscarded (jb_id job) ErrMailboxSuspended, EvRelease (jb_id job)]"
      unfolding failed_post_def by (intro exI [of _ "[]"]) simp
    then show ?thesis using susp assms(1)
      by (auto simp: PostJob_def Let_def bump_metrics_def isSuspended_def discardJob_def notifyJobDiscarded_def)
  next
    case rej
    have "PostJob sum64 now a job w m = Some (Some e, give_up (wp_middlewareChain ?p) job (map_option (\<lambda>_. a) mc) e w1,
        bump_metrics (\<lambda>c. c \<lparr> mm_rejectedTotal := mm_rejectedTotal c + 1 \<rparr>) (bump_metrics (\<lambda>c. c \<lparr> mm_postTotal := mm_postTotal c + 1 \<rparr>) m))"
      using rej x by (auto simp: PostJob_def Let_def bump_metrics_def isSuspended_def w1_def e_def)
    then show ?thesis using fp [OF refl, of e] ex assms(1) by (fastforce simp: bump_metrics_def)
  next
    case disp
    have P: "PostJob sum64 now a job w m = Some (case r of
          None \<Rightarrow> (None, w1, (bump_metrics (\<lambda>c. c \<lparr> mm_postTotal := mm_postTotal c + 1 \<rparr>) m) \<lparr> mb_workerPool := p' \<rparr>)
        | Some err \<Rightarrow> (Some err, give_up (wp_middlewareChain ?p) job1 (map_option (\<lambda>_. a) mc) err w1,
            bump_metrics (\<lambda>c. c \<lparr> mm_dispatchFailedTotal := mm_dispatchFailedTotal c + 1 \<rparr>)
              ((bump_metrics (\<lambda>c. c \<lparr> mm_postTotal := mm_postTotal c + 1 \<rparr>) m) \<lparr> mb_workerPool := p' \<rparr>)))"
      using disp x d(1) by (auto simp: PostJob_def Let_def bump_metrics_def isSuspended_def w1_def job1_def split: option.splits)
    show ?thesis
    proof (cases r)
      case None
      have j: "pool_jobs p' = add_mset job' (pool_jobs ?p)" "job' = Job_SetPriority (jb_Priority job') job1" using d(3) None by auto
      have j': "jb_id job' = jb_id job" "jb_mctx job' = map_option (\<lambda>_. a) mc"
        by (subst j(2), simp add: Job_SetPriority_def id1)+
      have ctx: "\<forall>b. jb_mctx job' = Some b \<longrightarrow> b = a \<and> gm_get (ew_ctxs w1) a \<noteq> None"
        using j'(2) by (auto simp: w1_def gm_get_set)
      have tr1: "ew_trace w1 = ew_trace w @ map EvMw tr" by (simp add: w1_def split: option.splits)
      have "\<exists>job'. pool_jobs p' = add_mset job' (pool_jobs ?p) \<and> jb_id job' = jb_id job
          \<and> (\<forall>b. jb_mctx job' = Some b \<longrightarrow> b = a \<and> gm_get (ew_ctxs w1) a \<noteq> None)"
        using j(1) j'(1) ctx by blast
      then show ?thesis
        using P None d(2) tr1
        by (intro exI [of _ None] exI [of _ w1] exI [of _ "(bump_metrics (\<lambda>c. c \<lparr> mm_postTotal := mm_postTotal c + 1 \<rparr>) m) \<lparr> mb_workerPool := p' \<rparr>"]
            exI [of _ "map EvMw tr"]) (simp add: bump_metrics_def)
    next
      case (Some err)
      obtain t where t: "ew_trace (give_up (wp_middlewareChain ?p) job1 (map_option (\<lambda>_. a) mc) err w1) = ew_trace w @ t"
        "failed_post job err t" using fp(1) [OF id1(1), of err] by blast
      have c: "\<forall>b. gm_get (ew_ctxs (give_up (wp_middlewareChain ?p) job1 (map_option (\<lambda>_. a) mc) err w1)) b = gm_get (ew_ctxs w) b"
        using fp(2) [OF id1(1)] by blast
      show ?thesis using P Some d(2,3) t c ex [OF t(2)] by (auto simp: bump_metrics_def)
    qed
  qed
qed

theorem PostJob_owns_witness:
  "\<exists>w' m' tr. PostJob (\<lambda>_. 42) 0 7 job_example exec_world_example mailbox_example = Some (Some ErrMailboxMiddlewareRejected, w', m')
     \<and> ew_trace w' = tr \<and> failed_post job_example ErrMailboxMiddlewareRejected tr"
proof -
  have i: "pool_inv (mb_workerPool mailbox_example)" "gm_get (ew_ctxs exec_world_example) 7 = None"
    using pool_example_inv(1) by (simp_all add: mailbox_example_def exec_world_example_def)
  have r: "map_option fst (PostJob (\<lambda>_. 42) 0 7 job_example exec_world_example mailbox_example) = Some (Some ErrMailboxMiddlewareRejected)"
    by (simp add: PostJob_def Let_def bump_metrics_def isSuspended_def mailbox_example_def pool_example_def ExecuteOnReceive_def
        chain_example_def NewMiddlewareChain_def passing_mw_def rejecting_mw_def safeOnReceive_def Continue_def Reject_def)
  show ?thesis using PostJob_owns [OF i, of "\<lambda>_. 42" 0 job_example] r by (auto simp: exec_world_example_def)
qed

end
