(* ===== verification/Delay_Queue.thy ===== *)
theory Delay_Queue
  imports Ember_Prelude
begin

text \<open>
  The delay queue of the timing wheel, \<open>engine/pkg/utils/timingwheel/delayqueue/delayqueue.go\<close>: the
  binary heap of items (with the sift loops of Go's \<open>container/heap\<close>, which it calls), and
  \<open>DelayQueue\<close> with its sleeping poller. The lemmas show that the heap always yields an item of
  least priority, that the growing and shrinking slice is never indexed out of range, and that the
  hand-over of wake-ups between \<open>Offer\<close> and \<open>Poll\<close> loses none.
\<close>

section \<open>Definitions\<close>

subsection \<open>The heap\<close>

record 'a item =
  it_Value :: 'a
  it_Priority :: int
  it_Index :: int

text \<open>A slice of pointers to items, with the capacity of the slice.\<close>

record 'a priority_queue =
  pq_items :: "'a item list"
  pq_cap :: nat

definition newPriorityQueue :: "nat \<Rightarrow> 'a priority_queue" where
  "newPriorityQueue capacity = \<lparr> pq_items = [], pq_cap = capacity \<rparr>"

definition PQ_Len :: "'a priority_queue \<Rightarrow> nat" where
  "PQ_Len pq = length (pq_items pq)"

definition PQ_Less :: "'a item list \<Rightarrow> nat \<Rightarrow> nat \<Rightarrow> bool" where
  "PQ_Less xs i j \<longleftrightarrow> it_Priority (xs ! i) < it_Priority (xs ! j)"

definition PQ_Swap :: "'a item list \<Rightarrow> nat \<Rightarrow> nat \<Rightarrow> 'a item list" where
  "PQ_Swap xs i j = xs[i := (xs ! j) \<lparr> it_Index := int i \<rparr>, j := (xs ! i) \<lparr> it_Index := int j \<rparr>]"

text \<open>\<open>Push\<close> doubles a full slice; slicing beyond the capacity panics.\<close>

definition PQ_Push :: "'a priority_queue \<Rightarrow> 'a item \<Rightarrow> go_panic + 'a priority_queue" where
  "PQ_Push pq x =
     (let n = length (pq_items pq);
          c = pq_cap pq;
          c' = (if n + 1 > c then c * 2 else c)
      in if n + 1 > c' then Inl (Go_Panic ''slice bounds out of range'')
         else Inr (pq \<lparr> pq_items := pq_items pq @ [x \<lparr> it_Index := int n \<rparr>], pq_cap := c' \<rparr>))"

text \<open>\<open>Pop\<close> takes the last item, after halving the slice when it is mostly empty.\<close>

definition PQ_Pop :: "'a priority_queue \<Rightarrow> go_panic + 'a item \<times> 'a priority_queue" where
  "PQ_Pop pq =
     (let n = length (pq_items pq);
          c = pq_cap pq;
          c' = (if n < c div 2 \<and> c > 25 then c div 2 else c)
      in if n = 0 then Inl (Go_Panic ''index out of range'')
         else if n > c' then Inl (Go_Panic ''makeslice: cap out of range'')
         else Inr ((pq_items pq ! (n - 1)) \<lparr> it_Index := - 1 \<rparr>,
                   pq \<lparr> pq_items := take (n - 1) (pq_items pq), pq_cap := c' \<rparr>))"

text \<open>The sift loops of \<open>container/heap\<close>; \<open>heap_up\<close> also returns where the item ended.\<close>

fun heap_up :: "'a item list \<Rightarrow> nat \<Rightarrow> nat \<times> 'a item list" where
  "heap_up xs j =
     (let i = (j - 1) div 2
      in if i = j \<or> \<not> PQ_Less xs j i then (j, xs) else heap_up (PQ_Swap xs i j) i)"

function heap_down :: "'a item list \<Rightarrow> nat \<Rightarrow> nat \<Rightarrow> nat \<times> 'a item list" where
  "heap_down xs i n =
     (let j1 = 2 * i + 1
      in if j1 \<ge> n then (i, xs)
         else let j = (if j1 + 1 < n \<and> PQ_Less xs (j1 + 1) j1 then j1 + 1 else j1)
              in if \<not> PQ_Less xs j i then (i, xs) else heap_down (PQ_Swap xs i j) j n)"
  by pat_completeness auto
termination
  by (relation "measure (\<lambda>(xs, i, n). n - i)") (auto simp: Let_def split: if_splits)

declare heap_up.simps [simp del] heap_down.simps [simp del]

definition heap_Push :: "'a priority_queue \<Rightarrow> 'a item \<Rightarrow> go_panic + nat \<times> 'a priority_queue" where
  "heap_Push pq x =
     and_then (PQ_Push pq x) (\<lambda>pq1.
       case heap_up (pq_items pq1) (length (pq_items pq1) - 1) of
         (j, xs) \<Rightarrow> Inr (j, pq1 \<lparr> pq_items := xs \<rparr>))"

definition heap_Remove :: "'a priority_queue \<Rightarrow> nat \<Rightarrow> go_panic + 'a item \<times> 'a priority_queue" where
  "heap_Remove pq i =
     (let n = length (pq_items pq) - 1
      in if n \<noteq> i
         then let xs = PQ_Swap (pq_items pq) i n;
                  (i', ys) = heap_down xs i n;
                  zs = (if i' > i then ys else snd (heap_up ys i))
              in PQ_Pop (pq \<lparr> pq_items := zs \<rparr>)
         else PQ_Pop pq)"

definition PeekAndShift :: "'a priority_queue \<Rightarrow> int \<Rightarrow> go_panic + ('a item option \<times> int) \<times> 'a priority_queue" where
  "PeekAndShift pq mx =
     (if PQ_Len pq = 0 then Inr ((None, 0), pq)
      else let it = pq_items pq ! 0
           in if it_Priority it > mx then Inr ((None, it_Priority it - mx), pq)
              else and_then (heap_Remove pq 0) (\<lambda>(x, pq'). Inr ((Some x, 0), pq')))"

subsection \<open>Invariant and contents\<close>

definition heap_order :: "int list \<Rightarrow> bool" where
  "heap_order ps \<longleftrightarrow> (\<forall>i. 0 < i \<and> i < length ps \<longrightarrow> ps ! ((i - 1) div 2) \<le> ps ! i)"

definition prios :: "'a item list \<Rightarrow> int list" where
  "prios xs = map it_Priority xs"

definition entry :: "'a item \<Rightarrow> int \<times> 'a" where
  "entry it = (it_Priority it, it_Value it)"

definition pq_entries :: "'a priority_queue \<Rightarrow> (int \<times> 'a) multiset" where
  "pq_entries pq = mset (map entry (pq_items pq))"

definition pq_inv :: "'a priority_queue \<Rightarrow> bool" where
  [inv_defs]: "pq_inv pq \<longleftrightarrow> heap_order (prios (pq_items pq)) \<and> 1 \<le> pq_cap pq \<and> length (pq_items pq) \<le> pq_cap pq"

subsection \<open>The delay queue\<close>

text \<open>The wake-up channel has capacity one: a token is there or not.\<close>

record 'a delay_queue =
  dq_pq :: "'a priority_queue"
  dq_sleeping :: bool
  dq_wakeupC :: bool

definition DelayQueue_New :: "nat \<Rightarrow> 'a delay_queue" where
  "DelayQueue_New sz = \<lparr> dq_pq = newPriorityQueue sz, dq_sleeping = False, dq_wakeupC = False \<rparr>"

text \<open>\<open>Clear\<close> drops the slice, capacity included.\<close>

definition DQ_Clear :: "'a delay_queue \<Rightarrow> 'a delay_queue" where
  "DQ_Clear dq = dq \<lparr> dq_pq := \<lparr> pq_items = [], pq_cap = 0 \<rparr> \<rparr>"

text \<open>\<open>Offer\<close> in its three atomic pieces: the locked push, which reads the index of the new item,
  the compare-and-swap of \<open>sleeping\<close>, and the send that never blocks.\<close>

definition offer_push :: "'a \<Rightarrow> int \<Rightarrow> 'a delay_queue \<Rightarrow> go_panic + int \<times> 'a delay_queue" where
  "offer_push elem expiration dq =
     and_then (heap_Push (dq_pq dq) \<lparr> it_Value = elem, it_Priority = expiration, it_Index = 0 \<rparr>)
       (\<lambda>(j, pq). Inr (it_Index (pq_items pq ! j), dq \<lparr> dq_pq := pq \<rparr>))"

definition offer_cas :: "'a delay_queue \<Rightarrow> bool \<times> 'a delay_queue" where
  "offer_cas dq = (if dq_sleeping dq then (True, dq \<lparr> dq_sleeping := False \<rparr>) else (False, dq))"

definition offer_notify :: "'a delay_queue \<Rightarrow> 'a delay_queue" where
  "offer_notify dq = dq \<lparr> dq_wakeupC := True \<rparr>"

definition DQ_Offer :: "'a \<Rightarrow> int \<Rightarrow> 'a delay_queue \<Rightarrow> go_panic + 'a delay_queue" where
  "DQ_Offer elem expiration dq =
     and_then (offer_push elem expiration dq) (\<lambda>(index, dq1).
       Inr (if index = 0
            then (case offer_cas dq1 of (True, dq2) \<Rightarrow> offer_notify dq2 | (False, dq2) \<Rightarrow> dq2)
            else dq1))"

text \<open>The locked part of one round of \<open>Poll\<close>.\<close>

definition poll_peek :: "int \<Rightarrow> 'a delay_queue \<Rightarrow> go_panic + ('a item option \<times> int) \<times> 'a delay_queue" where
  "poll_peek now dq =
     and_then (PeekAndShift (dq_pq dq) now) (\<lambda>((it, delta), pq).
       Inr ((it, delta), (if it = None then dq \<lparr> dq_pq := pq, dq_sleeping := True \<rparr> else dq \<lparr> dq_pq := pq \<rparr>)))"

text \<open>
  The poller: about to look, waiting (until a deadline, or without one), past its timer, or sending
  an item on \<open>C\<close>. The system keeps the number of \<open>Offer\<close> calls that are before their
  compare-and-swap and before their send, the offered entries, and the entries sent with the time
  of the look that found them.
\<close>

datatype 'a poll_pc = PollTop | PollWait "int option" | PollTimer | PollSend "'a item" int | PollExit

record 'a dsys =
  ds_q :: "'a delay_queue"
  ds_pc :: "'a poll_pc"
  ds_cas :: nat
  ds_send :: nat
  ds_offered :: "(int \<times> 'a) multiset"
  ds_sent :: "((int \<times> 'a) \<times> int) list"

definition dsys_start :: "nat \<Rightarrow> 'a dsys" where
  "dsys_start sz = \<lparr> ds_q = DelayQueue_New sz, ds_pc = PollTop, ds_cas = 0, ds_send = 0, ds_offered = {#}, ds_sent = [] \<rparr>"

inductive dq_step :: "'a dsys \<Rightarrow> 'a dsys \<Rightarrow> bool" where
  step_push: "offer_push v e (ds_q s) = Inr (index, q) \<Longrightarrow>
     dq_step s (s \<lparr> ds_q := q, ds_cas := ds_cas s + (if index = 0 then 1 else 0), ds_offered := add_mset (e, v) (ds_offered s) \<rparr>)"
| step_cas: "ds_cas s = Suc n \<Longrightarrow> offer_cas (ds_q s) = (ok, q) \<Longrightarrow>
     dq_step s (s \<lparr> ds_q := q, ds_cas := n, ds_send := ds_send s + (if ok then 1 else 0) \<rparr>)"
| step_notify: "ds_send s = Suc n \<Longrightarrow> dq_step s (s \<lparr> ds_q := offer_notify (ds_q s), ds_send := n \<rparr>)"
| step_found: "ds_pc s = PollTop \<Longrightarrow> poll_peek now (ds_q s) = Inr ((Some it, d), q) \<Longrightarrow>
     dq_step s (s \<lparr> ds_q := q, ds_pc := PollSend it now \<rparr>)"
| step_empty: "ds_pc s = PollTop \<Longrightarrow> poll_peek now (ds_q s) = Inr ((None, d), q) \<Longrightarrow> d = 0 \<Longrightarrow>
     dq_step s (s \<lparr> ds_q := q, ds_pc := PollWait None \<rparr>)"
| step_pending: "ds_pc s = PollTop \<Longrightarrow> poll_peek now (ds_q s) = Inr ((None, d), q) \<Longrightarrow> d > 0 \<Longrightarrow>
     dq_step s (s \<lparr> ds_q := q, ds_pc := PollWait (Some (now + d)) \<rparr>)"
| step_wake: "ds_pc s = PollWait d \<Longrightarrow> dq_wakeupC (ds_q s) \<Longrightarrow>
     dq_step s (s \<lparr> ds_q := (ds_q s) \<lparr> dq_wakeupC := False \<rparr>, ds_pc := PollTop \<rparr>)"
| step_expire: "ds_pc s = PollWait (Some t) \<Longrightarrow> dq_step s (s \<lparr> ds_pc := PollTimer \<rparr>)"
| step_reset: "ds_pc s = PollTimer \<Longrightarrow>
     dq_step s (s \<lparr> ds_q := (ds_q s) \<lparr> dq_sleeping := False \<rparr>, ds_pc := PollTop \<rparr>)"
| step_send: "ds_pc s = PollSend it now \<Longrightarrow>
     dq_step s (s \<lparr> ds_pc := PollTop, ds_sent := ds_sent s @ [(entry it, now)] \<rparr>)"
| step_exit: "ds_pc s = PollWait d \<or> ds_pc s = PollSend it now \<Longrightarrow>
     dq_step s (s \<lparr> ds_q := (ds_q s) \<lparr> dq_sleeping := False \<rparr>, ds_pc := PollExit \<rparr>)"

text \<open>What a waiting poller may rely on: it waits for the least priority, or for the first offer.\<close>

definition deadline_ok :: "'a delay_queue \<Rightarrow> int option \<Rightarrow> bool" where
  "deadline_ok q d \<longleftrightarrow> (case d of None \<Rightarrow> pq_entries (dq_pq q) = {#}
     | Some t \<Rightarrow> (\<exists>v. (t, v) \<in># pq_entries (dq_pq q)) \<and> (\<forall>e. e \<in># pq_entries (dq_pq q) \<longrightarrow> t \<le> fst e))"

definition wait_ok :: "'a dsys \<Rightarrow> bool" where
  "wait_ok s \<longleftrightarrow> (\<forall>d. ds_pc s = PollWait d \<longrightarrow>
     dq_wakeupC (ds_q s) \<or> 0 < ds_send s \<or> (dq_sleeping (ds_q s) \<and> (0 < ds_cas s \<or> deadline_ok (ds_q s) d)))"

definition held_entries :: "'a poll_pc \<Rightarrow> (int \<times> 'a) multiset" where
  "held_entries pc = (case pc of PollSend it now \<Rightarrow> {#entry it#} | _ \<Rightarrow> {#})"

definition sends_due :: "'a dsys \<Rightarrow> bool" where
  "sends_due s \<longleftrightarrow> (\<forall>it now. ds_pc s = PollSend it now \<longrightarrow> it_Priority it \<le> now)
     \<and> (\<forall>((p, v), now) \<in> set (ds_sent s). p \<le> now)"

definition dsys_inv :: "'a dsys \<Rightarrow> bool" where
  [inv_defs]: "dsys_inv s \<longleftrightarrow> pq_inv (dq_pq (ds_q s)) \<and> wait_ok s \<and> sends_due s
     \<and> (ds_pc s \<noteq> PollExit \<longrightarrow>
          ds_offered s = pq_entries (dq_pq (ds_q s)) + held_entries (ds_pc s) + mset (map fst (ds_sent s)))"

section \<open>Lemmas\<close>

subsection \<open>Swapping and sifting\<close>

lemma length_PQ_Swap [simp]: "length (PQ_Swap xs i j) = length xs"
  by (simp add: PQ_Swap_def)

lemma prios_Swap [simp]: "prios (PQ_Swap xs i j) = (prios xs)[i := it_Priority (xs ! j), j := it_Priority (xs ! i)]"
  by (simp add: PQ_Swap_def prios_def map_update)

lemma length_prios [simp]: "length (prios xs) = length xs"
  by (simp add: prios_def)

lemma prios_nth [simp]: "i < length xs \<Longrightarrow> prios xs ! i = it_Priority (xs ! i)"
  by (simp add: prios_def)

lemma entries_Swap: "i < length xs \<Longrightarrow> j < length xs \<Longrightarrow> mset (map entry (PQ_Swap xs i j)) = mset (map entry xs)"
proof -
  assume a: "i < length xs" "j < length xs"
  have "map entry (PQ_Swap xs i j) = (map entry xs)[i := map entry xs ! j, j := map entry xs ! i]"
    using a by (simp add: PQ_Swap_def map_update entry_def)
  then show ?thesis using mset_swap [of j "map entry xs" i] a by simp
qed

text \<open>
  The order while an item sifts up from \<open>j\<close>: it holds at every other position, and the children of
  \<open>j\<close> are above the parent of \<open>j\<close>.
\<close>

definition up_ok :: "int list \<Rightarrow> nat \<Rightarrow> bool" where
  "up_ok ps j \<longleftrightarrow> (\<forall>i. 0 < i \<and> i < length ps \<and> i \<noteq> j \<longrightarrow> ps ! ((i - 1) div 2) \<le> ps ! i)
     \<and> (\<forall>i. 0 < i \<and> i < length ps \<and> (i - 1) div 2 = j \<and> 0 < j \<longrightarrow> ps ! ((j - 1) div 2) \<le> ps ! i)"

definition down_ok :: "int list \<Rightarrow> nat \<Rightarrow> nat \<Rightarrow> bool" where
  "down_ok ps j n \<longleftrightarrow> (\<forall>i. 0 < i \<and> i < n \<and> (i - 1) div 2 \<noteq> j \<longrightarrow> ps ! ((i - 1) div 2) \<le> ps ! i)
     \<and> (\<forall>i. 0 < i \<and> i < n \<and> (i - 1) div 2 = j \<and> 0 < j \<longrightarrow> ps ! ((j - 1) div 2) \<le> ps ! i)"

lemma up_ok_swap:
  assumes u: "up_ok ps j" and j: "j < length ps" and i: "i = (j - 1) div 2" "i \<noteq> j" and l: "ps ! j < ps ! i"
  shows "up_ok (ps[i := ps ! j, j := ps ! i]) i"
proof -
  have ij: "i < j" "0 < j" using i by auto
  let ?q = "ps[i := ps ! j, j := ps ! i]"
  have q: "?q ! k = (if k = j then ps ! i else if k = i then ps ! j else ps ! k)" if "k < length ps" for k
    using that ij j by (auto simp: nth_list_update)
  have u1: "ps ! ((k - 1) div 2) \<le> ps ! k" if "0 < k" "k < length ps" "k \<noteq> j" for k
    using u that unfolding up_ok_def by blast
  have u2: "ps ! i \<le> ps ! k" if "0 < k" "k < length ps" "(k - 1) div 2 = j" for k
    using u that ij i unfolding up_ok_def by blast
  have "?q ! ((k - 1) div 2) \<le> ?q ! k" if k: "0 < k" "k < length ps" "k \<noteq> i" for k
  proof -
    have p: "(k - 1) div 2 < length ps" "(k - 1) div 2 < k" using k by auto
    consider "k = j" | "k \<noteq> j" "(k - 1) div 2 = j" | "k \<noteq> j" "(k - 1) div 2 = i" | "k \<noteq> j" "(k - 1) div 2 \<noteq> j" "(k - 1) div 2 \<noteq> i" by blast
    then show ?thesis
      by cases (use p q [of k] q [of "(k - 1) div 2"] u1 [OF k(1,2)] u2 [OF k(1,2)] k l i ij in auto)
  qed
  moreover have "?q ! ((i - 1) div 2) \<le> ?q ! k" if k: "0 < k" "k < length ps" "(k - 1) div 2 = i" "0 < i" for k
  proof -
    have p: "(i - 1) div 2 < i" "i < length ps" using k ij j by auto
    then have "?q ! ((i - 1) div 2) = ps ! ((i - 1) div 2)" using q [of "(i - 1) div 2"] ij by simp
    moreover have "ps ! ((i - 1) div 2) \<le> ps ! i" using u1 [of i] k(4) p ij by simp
    moreover have "ps ! i \<le> ?q ! k" using q [OF k(2)] u1 [OF k(1,2)] k(3) by (cases "k = i") (use k in auto)
    ultimately show ?thesis by simp
  qed
  ultimately show ?thesis by (simp add: up_ok_def)
qed

lemma heap_up_spec:
  assumes "heap_up xs j = (j', ys)" "j < length xs" "up_ok (prios xs) j"
  shows "heap_order (prios ys) \<and> mset (map entry ys) = mset (map entry xs) \<and> length ys = length xs
    \<and> j' < length xs \<and> entry (ys ! j') = entry (xs ! j) \<and> (j' = 0 \<or> it_Priority (ys ! ((j' - 1) div 2)) \<le> it_Priority (ys ! j'))"
  using assms
proof (induction xs j arbitrary: j' ys rule: heap_up.induct)
  case (1 xs j)
  let ?i = "(j - 1) div 2"
  show ?case
  proof (cases "?i = j \<or> \<not> PQ_Less xs j ?i")
    case True
    then have e: "j' = j" "ys = xs" using "1.prems"(1) by (auto simp: heap_up.simps [of xs j] Let_def)
    have o: "j = 0 \<or> prios xs ! ?i \<le> prios xs ! j" using True "1.prems"(2) by (auto simp: PQ_Less_def)
    then have "heap_order (prios xs)" using "1.prems"(3) unfolding heap_order_def up_ok_def by (metis bot_nat_0.not_eq_extremum)
    moreover have "j = 0 \<or> it_Priority (xs ! ?i) \<le> it_Priority (xs ! j)" using o "1.prems"(2) by auto
    ultimately show ?thesis using e "1.prems"(2) by simp
  next
    case False
    then have r: "heap_up (PQ_Swap xs ?i j) ?i = (j', ys)" using "1.prems"(1) by (simp add: heap_up.simps [of xs j] Let_def)
    have lt: "?i < j" using False by auto
    then have lj: "?i < length xs" "j < length xs" using "1.prems"(2) by auto
    have "up_ok (prios (PQ_Swap xs ?i j)) ?i"
      using up_ok_swap [OF "1.prems"(3), of ?i] lj lt False by (simp add: PQ_Less_def)
    then have ih: "heap_order (prios ys) \<and> mset (map entry ys) = mset (map entry (PQ_Swap xs ?i j)) \<and> length ys = length xs
      \<and> j' < length xs \<and> entry (ys ! j') = entry (PQ_Swap xs ?i j ! ?i)
      \<and> (j' = 0 \<or> it_Priority (ys ! ((j' - 1) div 2)) \<le> it_Priority (ys ! j'))"
      using "1.IH" [OF refl] False r lj by simp
    moreover have "entry (PQ_Swap xs ?i j ! ?i) = entry (xs ! j)"
      using lj lt by (simp add: PQ_Swap_def entry_def)
    ultimately show ?thesis using entries_Swap [OF lj] by metis
  qed
qed

lemma heap_up_index:
  assumes "heap_up xs j = (j', ys)" "j < length xs" "it_Index (xs ! j) = int j"
  shows "it_Index (ys ! j') = int j'"
  using assms
proof (induction xs j arbitrary: j' ys rule: heap_up.induct)
  case (1 xs j)
  let ?i = "(j - 1) div 2"
  show ?case
  proof (cases "?i = j \<or> \<not> PQ_Less xs j ?i")
    case True
    then show ?thesis using "1.prems" by (auto simp: heap_up.simps [of xs j] Let_def)
  next
    case False
    then have "heap_up (PQ_Swap xs ?i j) ?i = (j', ys)" using "1.prems"(1) by (simp add: heap_up.simps [of xs j] Let_def)
    moreover have "?i < length xs" "?i \<noteq> j" using "1.prems"(2) False by auto
    ultimately show ?thesis using "1.IH" [OF refl, of j' ys] "1.prems"(2) False by (simp add: PQ_Swap_def)
  qed
qed

lemma down_ok_swap:
  assumes d: "down_ok ps i n" and n: "n \<le> length ps" and j: "j < n" "(j - 1) div 2 = i" "0 < j"
    and m: "\<And>k. 0 < k \<Longrightarrow> k < n \<Longrightarrow> (k - 1) div 2 = i \<Longrightarrow> ps ! j \<le> ps ! k" and l: "ps ! j < ps ! i"
  shows "down_ok (ps[i := ps ! j, j := ps ! i]) j n"
proof -
  have ij: "i < j" using j by auto
  let ?q = "ps[i := ps ! j, j := ps ! i]"
  have q: "?q ! k = (if k = j then ps ! i else if k = i then ps ! j else ps ! k)" if "k < n" for k
    using that ij j n by (auto simp: nth_list_update)
  have d1: "ps ! ((k - 1) div 2) \<le> ps ! k" if "0 < k" "k < n" "(k - 1) div 2 \<noteq> i" for k
    using d that unfolding down_ok_def by blast
  have d2: "ps ! ((i - 1) div 2) \<le> ps ! j" if "0 < i"
    using d that j unfolding down_ok_def by blast
  have "?q ! ((k - 1) div 2) \<le> ?q ! k" if k: "0 < k" "k < n" "(k - 1) div 2 \<noteq> j" for k
  proof -
    have p: "(k - 1) div 2 < n" "(k - 1) div 2 < k" using k by auto
    show ?thesis
    proof (cases "(k - 1) div 2 = i")
      case True
      then show ?thesis using q [OF k(2)] q [OF p(1)] m [OF k(1,2)] l ij p by auto
    next
      case False
      then have "k \<noteq> j" using j by auto
      then show ?thesis using q [OF k(2)] q [OF p(1)] d1 [OF k(1,2) False] d2 False k by auto
    qed
  qed
  moreover have "?q ! ((j - 1) div 2) \<le> ?q ! k" if k: "0 < k" "k < n" "(k - 1) div 2 = j" for k
  proof -
    have kj: "j < k" using k by auto
    have "ps ! j \<le> ps ! k" using d1 [OF k(1,2)] k(3) ij by simp
    then show ?thesis using q [OF k(2)] q [of i] kj ij j by simp
  qed
  ultimately show ?thesis unfolding down_ok_def by blast
qed

lemma child_cases: "0 < k \<Longrightarrow> (k - 1) div 2 = i \<Longrightarrow> k = 2 * i + 1 \<or> k = 2 * i + 2" for k :: nat
  by presburger

lemma heap_down_spec:
  assumes "heap_down xs i n = (i', ys)" "n \<le> length xs" "i < n \<or> i = 0" "down_ok (prios xs) i n"
  shows "down_ok (prios ys) n n \<and> mset (map entry ys) = mset (map entry xs) \<and> length ys = length xs
    \<and> drop n ys = drop n xs \<and> i \<le> i'"
  using assms
proof (induction xs i n arbitrary: i' ys rule: heap_down.induct)
  case (1 xs i n)
  let ?l = "2 * i + 1"
  define j where "j = (if ?l + 1 < n \<and> PQ_Less xs (?l + 1) ?l then ?l + 1 else ?l)"
  have done_ok: "down_ok ps n n" if "down_ok ps i n" "\<And>k. 0 < k \<Longrightarrow> k < n \<Longrightarrow> (k - 1) div 2 = i \<Longrightarrow> ps ! i \<le> ps ! k" for ps
    using that unfolding down_ok_def by (metis (no_types) div_le_dividend le_less_trans diff_le_self not_less_iff_gr_or_eq order.strict_trans1)
  show ?case
  proof (cases "?l \<ge> n")
    case True
    then have "i' = i" "ys = xs" using "1.prems"(1) by (auto simp: heap_down.simps [of xs i n])
    moreover have "down_ok (prios xs) n n" using done_ok [OF "1.prems"(4)] True child_cases by force
    ultimately show ?thesis by simp
  next
    case False
    have jn: "j < n" "(j - 1) div 2 = i" "0 < j" "i < j" using False by (auto simp: j_def)
    have lx: "i < length xs" "j < length xs" using jn "1.prems"(2) by auto
    have m: "prios xs ! j \<le> prios xs ! k" if "0 < k" "k < n" "(k - 1) div 2 = i" for k
      using child_cases [OF that(1,3)] that False "1.prems"(2) by (auto simp: j_def PQ_Less_def)
    show ?thesis
    proof (cases "PQ_Less xs j i")
      case True
      then have r: "heap_down (PQ_Swap xs i j) j n = (i', ys)"
        using "1.prems"(1) False unfolding heap_down.simps [of xs i n] Let_def j_def [symmetric] by simp
      have "down_ok (prios (PQ_Swap xs i j)) j n"
        using down_ok_swap [OF "1.prems"(4) _ jn(1-3) m] True lx "1.prems"(2) by (simp add: PQ_Less_def)
      then have ih: "down_ok (prios ys) n n \<and> mset (map entry ys) = mset (map entry (PQ_Swap xs i j)) \<and> length ys = length xs
          \<and> drop n ys = drop n (PQ_Swap xs i j) \<and> j \<le> i'"
        using "1.IH" [OF refl _ j_def] False True r jn "1.prems"(2) by simp
      moreover have "drop n (PQ_Swap xs i j) = drop n xs" using jn by (simp add: PQ_Swap_def drop_update_cancel)
      ultimately show ?thesis using entries_Swap [OF lx] jn by (metis less_imp_le le_trans)
    next
      case no: False
      then have "i' = i" "ys = xs"
        using "1.prems"(1) False unfolding heap_down.simps [of xs i n] Let_def j_def [symmetric] by simp_all
      moreover have "prios xs ! i \<le> prios xs ! k" if "0 < k" "k < n" "(k - 1) div 2 = i" for k
        using m [OF that] no lx by (simp add: PQ_Less_def)
      ultimately show ?thesis using done_ok [OF "1.prems"(4)] by simp
    qed
  qed
qed

subsection \<open>Pushing and removing the least item\<close>

lemma heap_root_least: "heap_order ps \<Longrightarrow> i < length ps \<Longrightarrow> ps ! 0 \<le> ps ! i"
proof (induction i rule: less_induct)
  case (less i)
  show ?case
  proof (cases "i = 0")
    case False
    then have "(i - 1) div 2 < i" by auto
    then have "ps ! 0 \<le> ps ! ((i - 1) div 2)" using less by auto
    also have "\<dots> \<le> ps ! i" using less.prems False by (simp add: heap_order_def)
    finally show ?thesis .
  qed simp
qed

lemma pq_root_least:
  assumes "pq_inv pq" "e \<in># pq_entries pq"
  shows "pq_items pq \<noteq> [] \<and> it_Priority (pq_items pq ! 0) \<le> fst e"
proof -
  obtain i where i: "i < length (pq_items pq)" "e = entry (pq_items pq ! i)"
    using assms(2) by (auto simp: pq_entries_def in_set_conv_nth)
  have "heap_order (prios (pq_items pq))" using assms(1) by (simp add: pq_inv_def)
  then have "prios (pq_items pq) ! 0 \<le> prios (pq_items pq) ! i" by (rule heap_root_least) (simp add: i(1))
  moreover have ne: "0 < length (pq_items pq)" using i(1) by linarith
  ultimately show ?thesis using i by (simp add: entry_def)
qed

lemma other_position: "j < length xs \<Longrightarrow> k < length xs \<Longrightarrow> k \<noteq> j \<Longrightarrow> xs ! k \<in># mset xs - {#xs ! j#}"
proof -
  assume a: "j < length xs" "k < length xs" "k \<noteq> j"
  have "mset xs = add_mset (xs ! j) (mset (take j xs @ drop (Suc j) xs))"
    using id_take_nth_drop [OF a(1)] by (metis mset.simps(2) mset_append union_mset_add_mset_right)
  moreover have "xs ! k \<in> set (take j xs @ drop (Suc j) xs)"
  proof (cases "k < j")
    case True
    then have "take j xs ! k = xs ! k" "k < length (take j xs)" using a by auto
    then show ?thesis by (metis Un_iff nth_mem set_append)
  next
    case False
    then have "drop (Suc j) xs ! (k - Suc j) = xs ! k" "k - Suc j < length (drop (Suc j) xs)" using a by auto
    then show ?thesis by (metis Un_iff nth_mem set_append)
  qed
  ultimately show ?thesis by simp
qed

text \<open>\<open>Push\<close> never panics; index 0 is returned exactly for a new least priority.\<close>

lemma heap_Push_spec:
  assumes inv: "pq_inv pq"
  shows "\<exists>j pq'. heap_Push pq x = Inr (j, pq') \<and> pq_inv pq' \<and> pq_entries pq' = add_mset (entry x) (pq_entries pq)
     \<and> it_Index (pq_items pq' ! j) = int j
     \<and> (j \<noteq> 0 \<longrightarrow> pq_items pq \<noteq> [] \<and> it_Priority (pq_items pq ! 0) \<le> it_Priority x)"
proof -
  let ?n = "length (pq_items pq)"
  define c where "c = (if ?n + 1 > pq_cap pq then pq_cap pq * 2 else pq_cap pq)"
  have c: "?n + 1 \<le> c" "1 \<le> c" using inv by (auto simp: c_def pq_inv_def)
  let ?ys = "pq_items pq @ [x \<lparr> it_Index := int ?n \<rparr>]"
  obtain j zs where u: "heap_up ?ys ?n = (j, zs)" by (cases "heap_up ?ys ?n")
  have "heap_order (prios (pq_items pq))" using inv by (simp add: pq_inv_def)
  moreover have "(i - Suc 0) div 2 \<noteq> ?n" if "i < Suc ?n" "pq_items pq \<noteq> []" for i
  proof -
    have "0 < ?n" using that(2) by simp
    then show ?thesis using that(1) by presburger
  qed
  ultimately have "up_ok (prios ?ys) ?n"
    unfolding up_ok_def heap_order_def by (auto simp: nth_append prios_def)
  note s = heap_up_spec [OF u _ this, simplified]
  have ix: "it_Index (zs ! j) = int j" using heap_up_index [OF u] by simp
  have e: "heap_Push pq x = Inr (j, pq \<lparr> pq_items := zs, pq_cap := c \<rparr>)"
    using c u unfolding heap_Push_def PQ_Push_def Let_def c_def [symmetric] by simp
  have m: "mset (map entry zs) = add_mset (entry x) (pq_entries pq)"
    using s by (simp add: pq_entries_def entry_def)
  have "pq_items pq \<noteq> [] \<and> it_Priority (pq_items pq ! 0) \<le> it_Priority x" if "j \<noteq> 0"
  proof -
    let ?p = "(j - 1) div 2"
    have p: "?p < length zs" "?p \<noteq> j" "j < length zs" using s that by auto
    have "map entry zs ! ?p \<in># mset (map entry zs) - {#map entry zs ! j#}"
      using p by (intro other_position) simp_all
    moreover have "entry (zs ! j) = entry x" using s by (simp add: nth_append entry_def)
    ultimately have "entry (zs ! ?p) \<in># pq_entries pq" using m p by simp
    then have "pq_items pq \<noteq> []" "it_Priority (pq_items pq ! 0) \<le> it_Priority (zs ! ?p)"
      using pq_root_least [OF inv] by (auto simp: entry_def)
    moreover have "it_Priority (zs ! ?p) \<le> it_Priority x"
      using s that \<open>entry (zs ! j) = entry x\<close> by (simp add: entry_def)
    ultimately show ?thesis by simp
  qed
  then show ?thesis using e s c m ix by (simp add: pq_inv_def pq_entries_def)
qed

text \<open>Removing the root never panics either, and takes an item of least priority.\<close>

lemma heap_Remove_root:
  assumes inv: "pq_inv pq" and ne: "pq_items pq \<noteq> []"
  shows "\<exists>it pq'. heap_Remove pq 0 = Inr (it, pq') \<and> pq_inv pq' \<and> entry it = entry (pq_items pq ! 0)
     \<and> pq_entries pq = add_mset (entry it) (pq_entries pq')"
proof -
  let ?xs = "pq_items pq" let ?n = "length ?xs - 1"
  have l: "length ?xs = Suc ?n" using ne by simp
  define c where "c = (if length ?xs < pq_cap pq div 2 \<and> pq_cap pq > 25 then pq_cap pq div 2 else pq_cap pq)"
  have c: "length ?xs \<le> c" "1 \<le> c" using inv by (auto simp: c_def pq_inv_def)
  have pop: "PQ_Pop (pq \<lparr> pq_items := zs \<rparr>) = Inr ((zs ! ?n) \<lparr> it_Index := - 1 \<rparr>, pq \<lparr> pq_items := take ?n zs, pq_cap := c \<rparr>)"
    if "length zs = length ?xs" for zs
    using that c ne by (cases pq) (auto simp: PQ_Pop_def c_def Let_def)
  obtain zs where r: "heap_Remove pq 0 = PQ_Pop (pq \<lparr> pq_items := zs \<rparr>)" and z: "length zs = length ?xs"
    "entry (zs ! ?n) = entry (?xs ! 0)" "mset (map entry zs) = mset (map entry ?xs)" "heap_order (prios (take ?n zs))"
  proof (cases "?n = 0")
    case True
    then have "heap_Remove pq 0 = PQ_Pop (pq \<lparr> pq_items := ?xs \<rparr>)" by (simp add: heap_Remove_def)
    then show ?thesis using True by (intro that [of ?xs]) (auto simp: heap_order_def)
  next
    case False
    let ?ys = "PQ_Swap ?xs 0 ?n"
    obtain i zs where d: "heap_down ?ys 0 ?n = (i, zs)" by (cases "heap_down ?ys 0 ?n")
    have up0: "heap_up zs 0 = (0, zs)" by (simp add: heap_up.simps [of zs 0])
    have "heap_order (prios ?xs)" using inv by (simp add: pq_inv_def)
    then have "down_ok (prios ?ys) 0 ?n"
      using l unfolding down_ok_def heap_order_def by (auto simp: nth_list_update)
    then have s: "down_ok (prios zs) ?n ?n" "mset (map entry zs) = mset (map entry ?ys)" "length zs = length ?xs"
      "drop ?n zs = drop ?n ?ys"
      using heap_down_spec [OF d] by auto
    have "zs ! ?n = ?ys ! ?n" using s(3,4) l by (metis Cons_nth_drop_Suc length_PQ_Swap lessI list.inject)
    then have "entry (zs ! ?n) = entry (?xs ! 0)" using l False by (simp add: PQ_Swap_def entry_def)
    moreover have "heap_order (prios (take ?n zs))"
      using s(1,3) l unfolding heap_order_def down_ok_def
      by (auto simp: prios_def)
    moreover have "heap_Remove pq 0 = PQ_Pop (pq \<lparr> pq_items := zs \<rparr>)"
      using False d up0 by (cases "0 < i") (simp_all add: heap_Remove_def)
    moreover have "mset (map entry zs) = mset (map entry ?xs)" using s(2) entries_Swap [of 0 ?xs ?n] ne by simp
    ultimately show ?thesis using s(3) that by blast
  qed
  have "take (Suc ?n) zs = take ?n zs @ [zs ! ?n]" using z(1) l by (intro take_Suc_conv_app_nth) simp
  then have "zs = take ?n zs @ [zs ! ?n]" using z(1) l by simp
  then have "map entry zs = map entry (take ?n zs) @ [entry (zs ! ?n)]" using map_append [of entry "take ?n zs" "[zs ! ?n]"] by simp
  then have "mset (map entry zs) = add_mset (entry (zs ! ?n)) (mset (map entry (take ?n zs)))" by simp
  then have "pq_entries pq = add_mset (entry (zs ! ?n)) (mset (map entry (take ?n zs)))"
    using z(3) by (simp add: pq_entries_def)
  moreover have "pq_inv (pq \<lparr> pq_items := take ?n zs, pq_cap := c \<rparr>)" using z(1,4) c by (simp add: pq_inv_def)
  moreover have "entry ((zs ! ?n) \<lparr> it_Index := - 1 \<rparr>) = entry (zs ! ?n)" by (simp add: entry_def)
  ultimately show ?thesis using r pop [OF z(1)] z(2) by (simp add: pq_entries_def)
qed

subsection \<open>The interface of the delay queue\<close>

text \<open>
  What the timing wheel relies on: a multiset of entries, an \<open>offer\<close> that adds one and a \<open>look\<close>
  that takes an entry of least priority when it is due. Neither panics.
\<close>

locale delayed_entries =
  fixes qinv :: "'q \<Rightarrow> bool"
    and entries :: "'q \<Rightarrow> (int \<times> 'a) multiset"
    and offer :: "'a \<Rightarrow> int \<Rightarrow> 'q \<Rightarrow> go_panic + 'q"
    and look :: "int \<Rightarrow> 'q \<Rightarrow> go_panic + ('a item option \<times> int) \<times> 'q"
  assumes offer_adds: "qinv q \<Longrightarrow> \<exists>q'. offer v e q = Inr q' \<and> qinv q' \<and> entries q' = add_mset (e, v) (entries q)"
    and look_least: "qinv q \<Longrightarrow> \<exists>r d q'. look now q = Inr ((r, d), q') \<and> qinv q' \<and>
      (case r of
         None \<Rightarrow> entries q' = entries q \<and> (\<forall>e. e \<in># entries q \<longrightarrow> now + d \<le> fst e) \<and> 0 \<le> d
           \<and> (d = 0 \<longrightarrow> entries q = {#}) \<and> (0 < d \<longrightarrow> (\<exists>v. (now + d, v) \<in># entries q))
       | Some it \<Rightarrow> entries q = add_mset (entry it) (entries q') \<and> it_Priority it \<le> now
           \<and> (\<forall>e. e \<in># entries q \<longrightarrow> it_Priority it \<le> fst e))"
begin

lemma look_none_not_due:
  assumes "qinv q" "look now q = Inr ((None, d), q')" "e \<in># entries q"
  shows "now < fst e"
proof -
  have "0 \<le> d \<and> now + d \<le> fst e \<and> (d = 0 \<longrightarrow> entries q = {#})"
    using look_least [OF assms(1), of now] assms(2,3) by (cases e) auto
  then show ?thesis using assms(3) by (cases "d = 0") auto
qed

lemma look_some_least:
  assumes "qinv q" "look now q = Inr ((Some it, d), q')"
  shows "qinv q'" "entries q = add_mset (entry it) (entries q')" "it_Priority it \<le> now"
    "e \<in># entries q \<Longrightarrow> it_Priority it \<le> fst e"
  using look_least [OF assms(1), of now] assms(2) by (cases e; auto)+

end

lemma offer_push_spec:
  assumes "pq_inv (dq_pq q)"
  shows "\<exists>index q'. offer_push v e q = Inr (index, q') \<and> pq_inv (dq_pq q') \<and> pq_entries (dq_pq q') = add_mset (e, v) (pq_entries (dq_pq q))
    \<and> dq_sleeping q' = dq_sleeping q \<and> dq_wakeupC q' = dq_wakeupC q
    \<and> (index \<noteq> 0 \<longrightarrow> (\<exists>x. x \<in># pq_entries (dq_pq q) \<and> fst x \<le> e))"
proof -
  obtain j pq' where p: "heap_Push (dq_pq q) \<lparr> it_Value = v, it_Priority = e, it_Index = 0 \<rparr> = Inr (j, pq')" "pq_inv pq'"
      "pq_entries pq' = add_mset (e, v) (pq_entries (dq_pq q))" "it_Index (pq_items pq' ! j) = int j"
      "j \<noteq> 0 \<longrightarrow> pq_items (dq_pq q) \<noteq> [] \<and> it_Priority (pq_items (dq_pq q) ! 0) \<le> e"
    using heap_Push_spec [OF assms, of "\<lparr> it_Value = v, it_Priority = e, it_Index = 0 \<rparr>"] by (auto simp: entry_def)
  have "\<exists>x. x \<in># pq_entries (dq_pq q) \<and> fst x \<le> e" if "j \<noteq> 0"
    using p(5) that by (intro exI [of _ "entry (pq_items (dq_pq q) ! 0)"]) (auto simp: pq_entries_def entry_def)
  then show ?thesis using p by (simp add: offer_push_def)
qed

lemma poll_peek_spec:
  assumes "pq_inv (dq_pq q)"
  shows "\<exists>r d q'. poll_peek now q = Inr ((r, d), q') \<and> pq_inv (dq_pq q') \<and> dq_wakeupC q' = dq_wakeupC q
    \<and> dq_sleeping q' = (dq_sleeping q \<or> r = None) \<and>
    (case r of
       None \<Rightarrow> pq_entries (dq_pq q') = pq_entries (dq_pq q) \<and> (\<forall>e. e \<in># pq_entries (dq_pq q) \<longrightarrow> now + d \<le> fst e) \<and> 0 \<le> d
         \<and> (d = 0 \<longrightarrow> pq_entries (dq_pq q) = {#}) \<and> (0 < d \<longrightarrow> (\<exists>v. (now + d, v) \<in># pq_entries (dq_pq q)))
     | Some it \<Rightarrow> pq_entries (dq_pq q) = add_mset (entry it) (pq_entries (dq_pq q')) \<and> it_Priority it \<le> now
         \<and> (\<forall>e. e \<in># pq_entries (dq_pq q) \<longrightarrow> it_Priority it \<le> fst e))"
proof (cases "pq_items (dq_pq q) = []")
  case True
  then show ?thesis using assms by (simp add: poll_peek_def PeekAndShift_def PQ_Len_def pq_entries_def)
next
  case ne: False
  let ?it = "pq_items (dq_pq q) ! 0"
  have root: "entry ?it \<in># pq_entries (dq_pq q)" using ne by (simp add: pq_entries_def)
  note least = pq_root_least [OF assms, THEN conjunct2]
  show ?thesis
  proof (cases "it_Priority ?it > now")
    case True
    have "\<exists>v. (it_Priority ?it, v) \<in># pq_entries (dq_pq q)" using root unfolding entry_def by blast
    then show ?thesis using assms ne True least by (simp add: poll_peek_def PeekAndShift_def PQ_Len_def)
  next
    case False
    obtain it pq' where "heap_Remove (dq_pq q) 0 = Inr (it, pq')" "pq_inv pq'" "entry it = entry ?it"
        "pq_entries (dq_pq q) = add_mset (entry it) (pq_entries pq')"
      using heap_Remove_root [OF assms ne] by blast
    moreover have "it_Priority it = it_Priority ?it" using \<open>entry it = entry ?it\<close> by (simp add: entry_def)
    ultimately show ?thesis using ne False least by (auto simp: poll_peek_def PeekAndShift_def PQ_Len_def)
  qed
qed

lemma DQ_Offer_spec:
  assumes "pq_inv (dq_pq q)"
  shows "\<exists>q'. DQ_Offer v e q = Inr q' \<and> pq_inv (dq_pq q') \<and> pq_entries (dq_pq q') = add_mset (e, v) (pq_entries (dq_pq q))"
proof -
  obtain index q' where "offer_push v e q = Inr (index, q')" "pq_inv (dq_pq q')" "pq_entries (dq_pq q') = add_mset (e, v) (pq_entries (dq_pq q))"
    using offer_push_spec [OF assms] by blast
  then show ?thesis by (simp add: DQ_Offer_def offer_cas_def offer_notify_def)
qed

interpretation dq: delayed_entries "\<lambda>q. pq_inv (dq_pq q)" "\<lambda>q. pq_entries (dq_pq q)" DQ_Offer poll_peek
proof unfold_locales
  show "\<exists>q'. DQ_Offer v e q = Inr q' \<and> pq_inv (dq_pq q') \<and> pq_entries (dq_pq q') = add_mset (e, v) (pq_entries (dq_pq q))"
    if "pq_inv (dq_pq q)" for q :: "'a delay_queue" and v e
    using DQ_Offer_spec that .
qed (use poll_peek_spec in blast)

subsection \<open>The poller and its wake-ups\<close>


lemma deadline_ok_later:
  assumes "deadline_ok q d" "pq_entries (dq_pq q') = add_mset (e, v) (pq_entries (dq_pq q))"
    and "\<exists>x. x \<in># pq_entries (dq_pq q) \<and> fst x \<le> e"
  shows "deadline_ok q' d"
  using assms by (auto simp: deadline_ok_def split: option.splits intro: order_trans)

lemma held_entries_simps [simp]:
  "held_entries PollTop = {#}" "held_entries (PollWait d) = {#}" "held_entries PollTimer = {#}"
  "held_entries (PollSend it now) = {#entry it#}" "held_entries PollExit = {#}"
  by (simp_all add: held_entries_def)

lemma dsys_inv_start: "1 \<le> sz \<Longrightarrow> dsys_inv (dsys_start sz)"
  by (simp add: dsys_inv_def dsys_start_def DelayQueue_New_def newPriorityQueue_def pq_inv_def heap_order_def
      wait_ok_def sends_due_def pq_entries_def)

lemma dq_step_inv: "dq_step s s' \<Longrightarrow> dsys_inv s \<Longrightarrow> dsys_inv s'"
proof (induction rule: dq_step.induct)
  case (step_push v e s index q)
  then have i: "pq_inv (dq_pq (ds_q s))" by (simp add: dsys_inv_def)
  obtain p: "pq_inv (dq_pq q)" "pq_entries (dq_pq q) = add_mset (e, v) (pq_entries (dq_pq (ds_q s)))"
    "dq_sleeping q = dq_sleeping (ds_q s)" "dq_wakeupC q = dq_wakeupC (ds_q s)"
    "index \<noteq> 0 \<Longrightarrow> \<exists>x. x \<in># pq_entries (dq_pq (ds_q s)) \<and> fst x \<le> e"
    using offer_push_spec [OF i, of v e] step_push.hyps by auto
  have "wait_ok s" "sends_due s" using step_push.prems by (simp_all add: dsys_inv_def)
  then have "wait_ok (s \<lparr> ds_q := q, ds_cas := ds_cas s + (if index = 0 then 1 else 0), ds_offered := add_mset (e, v) (ds_offered s) \<rparr>)"
    using p(3,4) deadline_ok_later [OF _ p(2)] p(5) by (auto simp: wait_ok_def)
  then show ?case using step_push.prems p by (auto simp: dsys_inv_def sends_due_def)
next
  case (step_cas s n ok q)
  then have "q = (ds_q s) \<lparr> dq_sleeping := False \<rparr> \<and> ok \<and> dq_sleeping (ds_q s) \<or> q = ds_q s \<and> \<not> ok \<and> \<not> dq_sleeping (ds_q s)"
    by (auto simp: offer_cas_def split: if_splits)
  then show ?case using step_cas.hyps(1) step_cas.prems by (auto simp: dsys_inv_def wait_ok_def sends_due_def)
next
  case (step_notify s n)
  then show ?case by (auto simp: dsys_inv_def wait_ok_def sends_due_def offer_notify_def)
next
  case (step_found s now it d q)
  then have i: "pq_inv (dq_pq (ds_q s))" by (simp add: dsys_inv_def)
  show ?case
    using dq.look_some_least [OF i step_found.hyps(2)] step_found.hyps(1) step_found.prems
    by (simp add: dsys_inv_def wait_ok_def sends_due_def)
next
  case (step_empty s now d q)
  then have i: "pq_inv (dq_pq (ds_q s))" by (simp add: dsys_inv_def)
  show ?case
    using poll_peek_spec [OF i, of now] step_empty by (auto simp: dsys_inv_def wait_ok_def sends_due_def deadline_ok_def)
next
  case (step_pending s now d q)
  then have i: "pq_inv (dq_pq (ds_q s))" by (simp add: dsys_inv_def)
  show ?case
    using poll_peek_spec [OF i, of now] step_pending by (auto simp: dsys_inv_def wait_ok_def sends_due_def deadline_ok_def)
qed (auto simp: dsys_inv_def wait_ok_def sends_due_def entry_def)

lemma dsys_reachable_inv: "dq_step\<^sup>*\<^sup>* (dsys_start sz) s \<Longrightarrow> 1 \<le> sz \<Longrightarrow> dsys_inv s"
  by (induction rule: rtranclp_induct) (auto intro: dsys_inv_start dq_step_inv)

section \<open>Properties\<close>

text \<open>
  C22. The delay queue hands out what was offered, when it is due, and sleeps no longer than it may.
  In every state that any interleaving of \<open>Offer\<close> calls with the poller reaches: no push and no look
  panics; what was offered is in the heap, in the poller's hand or was sent, once each, and was
  due when it was sent. If the poller waits and no \<open>Offer\<close> is under way and no wake-up is pending,
  then its deadline is the least priority in the heap, or the heap is empty: no wake-up is lost.
\<close>

theorem DelayQueue_no_lost_wakeup:
  assumes "1 \<le> sz" "dq_step\<^sup>*\<^sup>* (dsys_start sz) s"
  shows "(\<exists>r. offer_push v e (ds_q s) = Inr r) \<and> (\<exists>r. poll_peek now (ds_q s) = Inr r)
    \<and> (ds_pc s \<noteq> PollExit \<longrightarrow>
         ds_offered s = pq_entries (dq_pq (ds_q s)) + held_entries (ds_pc s) + mset (map fst (ds_sent s)))
    \<and> (\<forall>((p, v), t) \<in> set (ds_sent s). p \<le> t)
    \<and> (\<forall>d. ds_pc s = PollWait d \<and> \<not> dq_wakeupC (ds_q s) \<and> ds_cas s = 0 \<and> ds_send s = 0 \<longrightarrow> deadline_ok (ds_q s) d)"
proof -
  have i: "dsys_inv s" using dsys_reachable_inv assms by blast
  then have q: "pq_inv (dq_pq (ds_q s))" by (simp add: dsys_inv_def)
  have "\<exists>r. offer_push v e (ds_q s) = Inr r" "\<exists>r. poll_peek now (ds_q s) = Inr r"
    using offer_push_spec [OF q] poll_peek_spec [OF q] by blast+
  moreover have "ds_pc s \<noteq> PollExit \<longrightarrow>
         ds_offered s = pq_entries (dq_pq (ds_q s)) + held_entries (ds_pc s) + mset (map fst (ds_sent s))"
    "\<forall>((p, v), t) \<in> set (ds_sent s). p \<le> t"
    using i unfolding dsys_inv_def sends_due_def by blast+
  moreover have "\<forall>d. ds_pc s = PollWait d \<and> \<not> dq_wakeupC (ds_q s) \<and> ds_cas s = 0 \<and> ds_send s = 0 \<longrightarrow> deadline_ok (ds_q s) d"
    using i by (auto simp: dsys_inv_def wait_ok_def)
  ultimately show ?thesis by blast
qed

theorem DelayQueue_no_lost_wakeup_witness:
  "deadline_ok (DelayQueue_New 4 :: string delay_queue) None
   \<and> (\<exists>r. offer_push ''a'' 7 (ds_q (dsys_start 4)) = Inr r)"
proof -
  have p: "poll_peek 5 (ds_q (dsys_start 4)) = Inr ((None, 0), (DelayQueue_New 4 :: string delay_queue) \<lparr> dq_sleeping := True \<rparr>)"
    by (simp add: dsys_start_def DelayQueue_New_def newPriorityQueue_def poll_peek_def PeekAndShift_def PQ_Len_def)
  define s where "s = (dsys_start 4 :: string dsys) \<lparr> ds_q := (DelayQueue_New 4) \<lparr> dq_sleeping := True \<rparr>, ds_pc := PollWait None \<rparr>"
  have "dq_step (dsys_start 4) s" unfolding s_def by (rule step_empty [OF _ p]) (simp_all add: dsys_start_def)
  then have "dq_step\<^sup>*\<^sup>* (dsys_start 4) s" by blast
  then have "deadline_ok (ds_q s) None"
    using DelayQueue_no_lost_wakeup [of 4 s "''a''" 7 5] by (simp add: s_def dsys_start_def DelayQueue_New_def)
  moreover have "\<exists>r. offer_push ''a'' 7 (ds_q (dsys_start 4)) = Inr r"
    using DelayQueue_no_lost_wakeup [of 4 "dsys_start 4" "''a''" 7 5] by simp
  ultimately show ?thesis by (simp add: s_def deadline_ok_def)
qed

end
