(* ===== verification/Timing_Wheel.thy ===== *)
theory Timing_Wheel
  imports Delay_Queue
begin

text \<open>
  The hierarchical timing wheel, \<open>engine/pkg/utils/timingwheel\<close>: \<open>bucket.go\<close>, \<open>timingwheel.go\<close>,
  \<open>utils.go\<close> and the state of a \<open>Timer\<close>. A wheel is the list of its levels, the base first; the
  overflow wheel of a level is the next one. A bucket is known to the delay queue by its level and
  slot. Timers are kept in a store by their id; buckets hold ids. The lock \<open>operationMu\<close> makes an
  insertion, a delivery and a time shift atomic; between the look of the poller and the delivery the
  bucket is in flight, and other calls may come in between.

  Times are integers: nanoseconds where the code has a \<open>time.Time\<close>, milliseconds in the wheel.
\<close>

section \<open>Definitions\<close>

subsection \<open>Timers, buckets, levels\<close>

record timer =
  tm_timerId :: u64
  tm_expiration :: int
  tm_cancel :: bool
  tm_interval :: int
  tm_spec :: string
  tm_isCron :: bool
  tm_loop :: bool

record bucket =
  bk_expiration :: int
  bk_timers :: "u64 list"

record wheel_level =
  wl_tick :: int
  wl_wheelSize :: int
  wl_interval :: int
  wl_currentTime :: int
  wl_buckets :: "bucket list"

type_synonym bucket_ref = "nat \<times> nat"

record timing_wheel =
  tw_levels :: "wheel_level list"
  tw_queue :: "bucket_ref delay_queue"
  tw_store :: "(u64, timer) gomap"
  tw_timers :: "u64 list"
  tw_closed :: bool
  tw_timerIdSeed :: u64
  tw_timeOffsetNs :: int

definition truncate_ms :: "int \<Rightarrow> int \<Rightarrow> int" where
  "truncate_ms x m = (if m \<le> 0 then x else x - go_mod x m)"

definition timeToMs :: "int \<Rightarrow> int" where
  "timeToMs ns = go_div ns 1000000"

definition msToTime :: "int \<Rightarrow> int" where
  "msToTime ms = ms * 1000000"

definition isActive :: "timer \<Rightarrow> bool" where
  "isActive t \<longleftrightarrow> \<not> tm_cancel t"

text \<open>\<open>Next\<close>; \<open>cron\<close> stands for the schedule of a cron expression, \<open>None\<close> is the zero time.\<close>

definition Timer_Next :: "(string \<Rightarrow> int \<Rightarrow> int option) \<Rightarrow> timer \<Rightarrow> int \<Rightarrow> int option" where
  "Timer_Next cron t tm =
     (if tm_interval t > 0 then Some (tm + tm_interval t)
      else if tm_spec t \<noteq> '''' then cron (tm_spec t) tm
      else None)"

definition newBucket :: bucket where
  "newBucket = \<lparr> bk_expiration = - 1, bk_timers = [] \<rparr>"

definition Bucket_SetExpiration :: "int \<Rightarrow> bucket \<Rightarrow> bool \<times> bucket" where
  "Bucket_SetExpiration e b = (bk_expiration b \<noteq> e, b \<lparr> bk_expiration := e \<rparr>)"

definition Bucket_Add :: "timer \<Rightarrow> bucket \<Rightarrow> bucket" where
  "Bucket_Add t b = (if isActive t then b \<lparr> bk_timers := bk_timers b @ [tm_timerId t] \<rparr> else b)"

definition Bucket_Remove :: "u64 \<Rightarrow> bucket \<Rightarrow> bool \<times> bucket" where
  "Bucket_Remove i b = (i \<in> set (bk_timers b), b \<lparr> bk_timers := remove1 i (bk_timers b) \<rparr>)"

text \<open>The first half of \<open>Flush\<close>: empty the bucket and reset its time; the list is then reinserted.\<close>

definition Bucket_Flush :: "bucket \<Rightarrow> u64 list \<times> bucket" where
  "Bucket_Flush b = (bk_timers b, snd (Bucket_SetExpiration (- 1) (b \<lparr> bk_timers := [] \<rparr>)))"

definition newTimingWheel :: "int \<Rightarrow> int \<Rightarrow> int \<Rightarrow> wheel_level" where
  "newTimingWheel tickMs wheelSize startMs =
     \<lparr> wl_tick = tickMs, wl_wheelSize = wheelSize, wl_interval = tickMs * wheelSize,
       wl_currentTime = truncate_ms startMs tickMs, wl_buckets = replicate (nat wheelSize) newBucket \<rparr>"

definition NewTimingWheel :: "int \<Rightarrow> int \<Rightarrow> int \<Rightarrow> timing_wheel" where
  "NewTimingWheel nowNs tick wheelSize =
     (let tickMs = go_div tick 1000000;
          tickMs = (if tickMs \<le> 0 then 1 else tickMs);
          wheelSize = (if wheelSize \<le> 0 then 20 else wheelSize)
      in \<lparr> tw_levels = [newTimingWheel tickMs wheelSize (timeToMs nowNs)],
           tw_queue = DelayQueue_New (nat wheelSize), tw_store = [], tw_timers = [], tw_closed = False,
           tw_timerIdSeed = 0, tw_timeOffsetNs = 0 \<rparr>)"

subsection \<open>Insertion\<close>

definition set_bucket :: "wheel_level \<Rightarrow> nat \<Rightarrow> bucket \<Rightarrow> wheel_level" where
  "set_bucket lv i b = lv \<lparr> wl_buckets := (wl_buckets lv)[i := b] \<rparr>"

text \<open>The branch of \<open>addInternal\<close> for a timer inside the interval of level \<open>k\<close>.\<close>

definition insert_bucket :: "timer \<Rightarrow> nat \<Rightarrow> wheel_level \<Rightarrow> bucket_ref delay_queue
    \<Rightarrow> go_panic + wheel_level \<times> bucket_ref delay_queue" where
  "insert_bucket t k lv q =
     (let virtualID = go_div (tm_expiration t) (wl_tick lv);
          slot = go_mod virtualID (wl_wheelSize lv)
      in if slot < 0 \<or> nat slot \<ge> length (wl_buckets lv) then Inl (Go_Panic ''index out of range'')
         else let b = Bucket_Add t (wl_buckets lv ! nat slot);
                  (changed, b) = Bucket_SetExpiration (virtualID * wl_tick lv) b
              in if changed
                 then and_then (DQ_Offer (k, nat slot) (bk_expiration b) q) (\<lambda>q'. Inr (set_bucket lv (nat slot) b, q'))
                 else Inr (set_bucket lv (nat slot) b, q))"

definition below :: "wheel_level \<Rightarrow> go_panic + bool \<times> wheel_level list \<times> bucket_ref delay_queue
    \<Rightarrow> go_panic + bool \<times> wheel_level list \<times> bucket_ref delay_queue" where
  "below lv r = and_then r (\<lambda>(ok, lvs, q). Inr (ok, lv # lvs, q))"

text \<open>
  \<open>addInternal\<close> at level \<open>k\<close>, with the level and those above it: expired, inside the interval, or
  one level up, which is created when there is none. \<open>None\<close> is a recursion that does not end.
\<close>

partial_function (option) addInternal :: "bool \<Rightarrow> timer \<Rightarrow> nat \<Rightarrow> wheel_level \<Rightarrow> wheel_level list
    \<Rightarrow> bucket_ref delay_queue \<Rightarrow> (go_panic + bool \<times> wheel_level list \<times> bucket_ref delay_queue) option" where
  [code]: "addInternal cl t k lv upper q =
     (if cl then Some (Inr (False, lv # upper, q))
      else if tm_expiration t < wl_currentTime lv + wl_tick lv then Some (Inr (False, lv # upper, q))
      else if tm_expiration t < wl_currentTime lv + wl_interval lv
      then Some (and_then (insert_bucket t k lv q) (\<lambda>(lv', q'). Inr (True, lv' # upper, q')))
      else (case upper of
              [] \<Rightarrow> Option.bind (addInternal cl t (Suc k)
                      (newTimingWheel (wl_interval lv) (wl_wheelSize lv) (wl_currentTime lv)) [] q) (\<lambda>r. Some (below lv r))
            | lv' # upper' \<Rightarrow> Option.bind (addInternal cl t (Suc k) lv' upper' q) (\<lambda>r. Some (below lv r))))"

text \<open>\<open>addInternal\<close> of the base wheel.\<close>

definition wheel_add :: "bool \<Rightarrow> timer \<Rightarrow> wheel_level list \<Rightarrow> bucket_ref delay_queue
    \<Rightarrow> (go_panic + bool \<times> wheel_level list \<times> bucket_ref delay_queue) option" where
  "wheel_add cl t lvs q = (case lvs of [] \<Rightarrow> None | lv # upper \<Rightarrow> addInternal cl t 0 lv upper q)"

fun advanceClock :: "int \<Rightarrow> wheel_level list \<Rightarrow> wheel_level list" where
  "advanceClock expiration [] = []"
| "advanceClock expiration (lv # upper) =
     (if expiration \<ge> wl_currentTime lv + wl_tick lv
      then let currentTime = truncate_ms expiration (wl_tick lv)
           in lv \<lparr> wl_currentTime := currentTime \<rparr> # advanceClock currentTime upper
      else lv # upper)"

text \<open>The loop of \<open>Flush\<close> over the removed timers: reinsert, and collect those that are due.\<close>

fun reinsert :: "bool \<Rightarrow> (u64, timer) gomap \<Rightarrow> u64 list \<Rightarrow> wheel_level list \<Rightarrow> bucket_ref delay_queue
    \<Rightarrow> (go_panic + u64 list \<times> wheel_level list \<times> bucket_ref delay_queue) option" where
  "reinsert cl ts [] lvs q = Some (Inr ([], lvs, q))"
| "reinsert cl ts (i # is) lvs q =
     (case gm_get ts i of
        None \<Rightarrow> reinsert cl ts is lvs q
      | Some t \<Rightarrow>
          if \<not> isActive t then reinsert cl ts is lvs q
          else Option.bind (wheel_add cl t lvs q) (\<lambda>r.
                 case r of
                   Inl p \<Rightarrow> Some (Inl p)
                 | Inr (ok, lvs', q') \<Rightarrow>
                     map_option (\<lambda>r'. and_then r' (\<lambda>(due, lvs'', q'').
                        Inr (if ok then due else i # due, lvs'', q''))) (reinsert cl ts is lvs' q')))"

text \<open>
  The consumer in \<open>Start\<close>, for the bucket that the poller sent; \<open>nowMs\<close> is the time it reads. The
  result lists the timers that \<open>runTimer\<close> is called for.
\<close>

definition deliver :: "int \<Rightarrow> bucket_ref \<Rightarrow> timing_wheel \<Rightarrow> (go_panic + u64 list \<times> timing_wheel) option" where
  "deliver nowMs ref w =
     (case ref of (k, i) \<Rightarrow>
        let e = bk_expiration (wl_buckets (tw_levels w ! k) ! i)
        in if \<not> tw_closed w \<and> e \<ge> 0 \<and> e \<le> nowMs
           then let lvs = advanceClock e (tw_levels w);
                    (ids, b) = Bucket_Flush (wl_buckets (lvs ! k) ! i);
                    lvs = lvs[k := set_bucket (lvs ! k) i b]
                in map_option (\<lambda>r. and_then r (\<lambda>(due, lvs', q'). Inr (due, w \<lparr> tw_levels := lvs', tw_queue := q' \<rparr>)))
                     (reinsert (tw_closed w) (tw_store w) ids lvs (tw_queue w))
           else Some (Inr ([], w)))"

subsection \<open>The operations of the wheel on its timers\<close>

text \<open>\<open>atomic.AddUint64\<close> until the result is not 0; the number after a wrap to 0 is 1.\<close>

definition genTimerId :: "timing_wheel \<Rightarrow> u64 \<times> timing_wheel" where
  "genTimerId w =
     (let i = tw_timerIdSeed w + 1; i = (if i \<noteq> 0 then i else i + 1) in (i, w \<lparr> tw_timerIdSeed := i \<rparr>))"

definition getNow :: "int \<Rightarrow> timing_wheel \<Rightarrow> int" where
  "getNow realNs w = realNs + tw_timeOffsetNs w"

definition put_timer :: "u64 \<Rightarrow> timer \<Rightarrow> timing_wheel \<Rightarrow> timing_wheel" where
  "put_timer i t w = w \<lparr> tw_store := gm_set (tw_store w) i t \<rparr>"

definition drop_everywhere :: "u64 \<Rightarrow> wheel_level list \<Rightarrow> wheel_level list" where
  "drop_everywhere i lvs = map (\<lambda>lv. lv \<lparr> wl_buckets := map (\<lambda>b. snd (Bucket_Remove i b)) (wl_buckets lv) \<rparr>) lvs"

definition bucket_ids :: "wheel_level list \<Rightarrow> u64 list" where
  "bucket_ids lvs = concat (map (\<lambda>lv. concat (map bk_timers (wl_buckets lv))) lvs)"

text \<open>\<open>stop\<close>: the first call wins, and takes the timer out of the bucket it is in.\<close>

definition timer_stop :: "u64 \<Rightarrow> timing_wheel \<Rightarrow> bool \<times> timing_wheel" where
  "timer_stop i w =
     (case gm_get (tw_store w) i of
        None \<Rightarrow> (False, w)
      | Some t \<Rightarrow>
          if tm_cancel t then (False, w)
          else (i \<in> set (bucket_ids (tw_levels w)),
                (put_timer i (t \<lparr> tm_cancel := True \<rparr>) w)
                  \<lparr> tw_timers := removeAll i (tw_timers w), tw_levels := drop_everywhere i (tw_levels w) \<rparr>))"

text \<open>The locked part of \<open>addOrRun\<close>: register an active timer and insert it; \<open>True\<close> when it was inserted.\<close>

definition wheel_insert :: "u64 \<Rightarrow> timing_wheel \<Rightarrow> (go_panic + bool \<times> timing_wheel) option" where
  "wheel_insert i w =
     (case gm_get (tw_store w) i of
        None \<Rightarrow> Some (Inr (False, w))
      | Some t \<Rightarrow>
          map_option (\<lambda>r. and_then r (\<lambda>(ok, lvs, q).
              Inr (ok, w \<lparr> tw_levels := lvs, tw_queue := q, tw_timers := List.insert i (tw_timers w) \<rparr>)))
            (wheel_add (tw_closed w) t (tw_levels w) (tw_queue w)))"

text \<open>
  \<open>addOrRun\<close>: a closed wheel cancels the timer, an inactive timer is ignored, and a timer that could not
  be inserted is already due and is run by the caller.
\<close>

datatype add_outcome = Add_Cancel | Add_Ignored | Add_Queued | Add_Run

definition addOrRun :: "u64 \<Rightarrow> timing_wheel \<Rightarrow> (go_panic + add_outcome \<times> timing_wheel) option" where
  "addOrRun i w =
     (if tw_closed w then Some (Inr (Add_Cancel, w))
      else case gm_get (tw_store w) i of
             None \<Rightarrow> Some (Inr (Add_Ignored, w))
           | Some t \<Rightarrow>
               if \<not> isActive t then Some (Inr (Add_Ignored, w))
               else map_option (\<lambda>r. and_then r (\<lambda>(ok, w'). Inr (if ok then Add_Queued else Add_Run, w'))) (wheel_insert i w))"

definition clearAllBuckets :: "wheel_level \<Rightarrow> wheel_level" where
  "clearAllBuckets lv = lv \<lparr> wl_buckets := map (\<lambda>b. \<lparr> bk_expiration = - 1, bk_timers = [] \<rparr>) (wl_buckets lv) \<rparr>"

definition clearAllBucketsRecursive :: "wheel_level list \<Rightarrow> wheel_level list" where
  "clearAllBucketsRecursive lvs = map clearAllBuckets lvs"

definition adjustCurrentTime :: "int \<Rightarrow> wheel_level \<Rightarrow> wheel_level" where
  "adjustCurrentTime offsetMs lv =
     lv \<lparr> wl_currentTime := truncate_ms (wl_currentTime lv + offsetMs) (wl_tick lv) \<rparr>"

text \<open>The active timers in all buckets, each id once (the code collects them in a map).\<close>

definition collectAllTimers :: "timing_wheel \<Rightarrow> u64 list" where
  "collectAllTimers w =
     remdups (filter (\<lambda>i. case gm_get (tw_store w) i of None \<Rightarrow> False | Some t \<Rightarrow> isActive t) (bucket_ids (tw_levels w)))"

definition add_ignored :: "u64 \<Rightarrow> timing_wheel \<Rightarrow> (go_panic + bool \<times> timing_wheel) option" where
  "add_ignored i w =
     (case gm_get (tw_store w) i of
        None \<Rightarrow> Some (Inr (False, w))
      | Some t \<Rightarrow>
          map_option (\<lambda>r. and_then r (\<lambda>(ok, lvs, q). Inr (ok, w \<lparr> tw_levels := lvs, tw_queue := q \<rparr>)))
            (wheel_add (tw_closed w) t (tw_levels w) (tw_queue w)))"

text \<open>The loop of \<open>SetTimeOffset\<close>: what has been jumped over runs, the rest is inserted again.\<close>

fun offset_loop :: "(string \<Rightarrow> int \<Rightarrow> int option) \<Rightarrow> int \<Rightarrow> int \<Rightarrow> u64 list \<Rightarrow> timing_wheel
    \<Rightarrow> (go_panic + u64 list \<times> timing_wheel) option" where
  "offset_loop cron deltaMs newCur [] w = Some (Inr ([], w))"
| "offset_loop cron deltaMs newCur (i # is) w =
     (case gm_get (tw_store w) i of
        None \<Rightarrow> offset_loop cron deltaMs newCur is w
      | Some t \<Rightarrow>
          if \<not> isActive t then offset_loop cron deltaMs newCur is w
          else if deltaMs > 0 \<and> newCur \<ge> tm_expiration t
          then Option.bind
                 (if tm_interval t > 0 \<or> tm_isCron t
                  then (case Timer_Next cron t (msToTime newCur) of
                          None \<Rightarrow> Some (Inr (False, w))
                        | Some n \<Rightarrow> add_ignored i (put_timer i (t \<lparr> tm_expiration := timeToMs n \<rparr>) w))
                  else Some (Inr (False, w)))
                 (\<lambda>r. case r of
                        Inl p \<Rightarrow> Some (Inl p)
                      | Inr (_, w') \<Rightarrow>
                          map_option (\<lambda>r'. and_then r' (\<lambda>(ready, w''). Inr (i # ready, w'')))
                            (offset_loop cron deltaMs newCur is w'))
          else Option.bind (add_ignored i w)
                 (\<lambda>r. case r of
                        Inl p \<Rightarrow> Some (Inl p)
                      | Inr (ok, w') \<Rightarrow>
                          map_option (\<lambda>r'. and_then r' (\<lambda>(ready, w''). Inr (if ok then ready else i # ready, w'')))
                            (offset_loop cron deltaMs newCur is w')))"

definition SetTimeOffset :: "(string \<Rightarrow> int \<Rightarrow> int option) \<Rightarrow> int \<Rightarrow> timing_wheel \<Rightarrow> (go_panic + u64 list \<times> timing_wheel) option" where
  "SetTimeOffset cron offset w =
     (if tw_closed w then Some (Inr ([], w))
      else let offsetDeltaNs = offset - tw_timeOffsetNs w
           in if offsetDeltaNs = 0 then Some (Inr ([], w))
              else let offsetDeltaMs = go_div offsetDeltaNs 1000000;
                       allTimers = collectAllTimers w;
                       newCurrentTime = (case tw_levels w of [] \<Rightarrow> 0 | lv # _ \<Rightarrow> wl_currentTime lv + offsetDeltaMs)
                   in offset_loop cron offsetDeltaMs newCurrentTime allTimers
                        (w \<lparr> tw_timeOffsetNs := offset,
                             tw_levels := map (adjustCurrentTime offsetDeltaMs) (clearAllBucketsRecursive (tw_levels w)) \<rparr>))"

text \<open>The locked part of \<open>Stop\<close>; the timers it lists are cancelled afterwards.\<close>

definition wheel_Stop :: "timing_wheel \<Rightarrow> u64 list \<times> timing_wheel" where
  "wheel_Stop w =
     (if tw_closed w then ([], w)
      else (tw_timers w, w \<lparr> tw_closed := True, tw_timers := [], tw_levels := clearAllBucketsRecursive (tw_levels w) \<rparr>))"

subsection \<open>The wheel at work\<close>

text \<open>
  The wheel with its clock (milliseconds, the offset included), the bucket the poller has found and
  not yet delivered, and what happened: the timers inserted, those stopped while they waited, and
  those handed to \<open>runTimer\<close> with their expiration and the time.
\<close>

record wheel_sys =
  ws_w :: timing_wheel
  ws_now :: int
  ws_flight :: "bucket_ref option"
  ws_added :: "u64 list"
  ws_stopped :: "u64 list"
  ws_ran :: "(u64 \<times> int \<times> int) list"

definition run_due :: "u64 list \<Rightarrow> wheel_sys \<Rightarrow> wheel_sys" where
  "run_due ids s = s \<lparr> ws_ran := ws_ran s @
     map (\<lambda>i. (i, (case gm_get (tw_store (ws_w s)) i of None \<Rightarrow> 0 | Some t \<Rightarrow> tm_expiration t), ws_now s)) ids \<rparr>"

text \<open>
  A timer is inserted with a time that is not before the clock, which \<open>AfterFunc\<close> and
  \<open>ScheduleFunc\<close> read just before; a periodic timer is inserted again after it ran.
\<close>

datatype wheel_act = ATick int | AInsert u64 int | APoll | ADeliver | AStop u64

fun wheel_do :: "wheel_act \<Rightarrow> wheel_sys \<Rightarrow> wheel_sys option" where
  "wheel_do (ATick n) s = (if n \<ge> ws_now s then Some (s \<lparr> ws_now := n \<rparr>) else None)"
| "wheel_do (AInsert i e) s =
     (if e \<ge> ws_now s \<and> i \<notin> set (bucket_ids (tw_levels (ws_w s)))
      then let t = \<lparr> tm_timerId = i, tm_expiration = e, tm_cancel = False, tm_interval = 0, tm_spec = '''',
                     tm_isCron = False, tm_loop = False \<rparr>;
               w = put_timer i t (ws_w s);
               s = s \<lparr> ws_w := w, ws_added := ws_added s @ [i] \<rparr>
           in Option.bind (wheel_insert i w) (\<lambda>r. case r of
                Inl p \<Rightarrow> None
              | Inr (ok, w') \<Rightarrow> Some (if ok then s \<lparr> ws_w := w' \<rparr> else run_due [i] (s \<lparr> ws_w := w' \<rparr>)))
      else None)"
| "wheel_do APoll s =
     (if ws_flight s = None
      then (case poll_peek (ws_now s) (tw_queue (ws_w s)) of
              Inr ((Some it, _), q) \<Rightarrow> Some (s \<lparr> ws_w := (ws_w s) \<lparr> tw_queue := q \<rparr>, ws_flight := Some (it_Value it) \<rparr>)
            | _ \<Rightarrow> None)
      else None)"
| "wheel_do ADeliver s =
     (case ws_flight s of
        None \<Rightarrow> None
      | Some ref \<Rightarrow> Option.bind (deliver (ws_now s) ref (ws_w s)) (\<lambda>r. case r of
            Inl p \<Rightarrow> None
          | Inr (due, w') \<Rightarrow> Some (run_due due (s \<lparr> ws_w := w', ws_flight := None \<rparr>))))"
| "wheel_do (AStop i) s =
     (case timer_stop i (ws_w s) of
        (ok, w') \<Rightarrow> Some (if ok then s \<lparr> ws_w := w', ws_stopped := ws_stopped s @ [i] \<rparr> else s \<lparr> ws_w := w' \<rparr>))"

fun wheel_run :: "wheel_act list \<Rightarrow> wheel_sys \<Rightarrow> wheel_sys option" where
  "wheel_run [] s = Some s"
| "wheel_run (a # as) s = Option.bind (wheel_do a s) (wheel_run as)"

definition wheel_start :: "int \<Rightarrow> int \<Rightarrow> int \<Rightarrow> wheel_sys" where
  "wheel_start nowNs tick wheelSize =
     \<lparr> ws_w = NewTimingWheel nowNs tick wheelSize, ws_now = timeToMs nowNs, ws_flight = None,
       ws_added = [], ws_stopped = [], ws_ran = [] \<rparr>"

subsection \<open>Invariant\<close>

definition level_wf :: "wheel_level \<Rightarrow> bool" where
  "level_wf lv \<longleftrightarrow> 1 \<le> wl_tick lv \<and> 2 \<le> wl_wheelSize lv \<and> wl_interval lv = wl_tick lv * wl_wheelSize lv
     \<and> length (wl_buckets lv) = nat (wl_wheelSize lv) \<and> wl_tick lv dvd wl_currentTime lv \<and> 0 \<le> wl_currentTime lv"

text \<open>Each level ticks in the intervals of the one below, and its clock is that one's, rounded down.\<close>

fun chain_ok :: "wheel_level list \<Rightarrow> bool" where
  "chain_ok [] = True"
| "chain_ok (lv # lvs) = (level_wf lv
     \<and> (case lvs of [] \<Rightarrow> True
        | lv' # _ \<Rightarrow> wl_tick lv' = wl_interval lv \<and> wl_currentTime lv' = wl_currentTime lv - wl_currentTime lv mod wl_tick lv')
     \<and> chain_ok lvs)"

definition fits :: "wheel_level \<Rightarrow> int \<Rightarrow> bool" where
  "fits lv e \<longleftrightarrow> wl_tick lv dvd e \<and> wl_currentTime lv \<le> e \<and> e < wl_currentTime lv + wl_interval lv"

definition slot_of :: "wheel_level \<Rightarrow> int \<Rightarrow> nat" where
  "slot_of lv e = nat (e div wl_tick lv mod wl_wheelSize lv)"

text \<open>A bucket is idle, or its time fits its slot and it holds active timers that expire in its tick.\<close>

definition bucket_ok :: "(u64, timer) gomap \<Rightarrow> wheel_level \<Rightarrow> nat \<Rightarrow> bucket \<Rightarrow> bool" where
  "bucket_ok ts lv i b \<longleftrightarrow> bk_expiration b = - 1 \<and> bk_timers b = []
     \<or> fits lv (bk_expiration b) \<and> slot_of lv (bk_expiration b) = i
       \<and> (\<forall>x \<in> set (bk_timers b). \<exists>t. gm_get ts x = Some t \<and> isActive t \<and> tm_timerId t = x
            \<and> tm_expiration t - tm_expiration t mod wl_tick lv = bk_expiration b)"

definition bucket_at :: "wheel_level list \<Rightarrow> nat \<Rightarrow> nat \<Rightarrow> bucket" where
  "bucket_at lvs l i = wl_buckets (lvs ! l) ! i"

definition position :: "wheel_level list \<Rightarrow> nat \<Rightarrow> nat \<Rightarrow> bool" where
  "position lvs l i \<longleftrightarrow> l < length lvs \<and> i < length (wl_buckets (lvs ! l))"

definition contents_ok :: "(u64, timer) gomap \<Rightarrow> wheel_level list \<Rightarrow> bool" where
  "contents_ok ts lvs \<longleftrightarrow> (\<forall>l i. position lvs l i \<longrightarrow> bucket_ok ts (lvs ! l) i (bucket_at lvs l i))"

text \<open>The buckets with a time, as the delay queue refers to them.\<close>

definition timed :: "wheel_level list \<Rightarrow> (int \<times> bucket_ref) set" where
  "timed lvs = {(bk_expiration (bucket_at lvs l i), (l, i)) | l i. position lvs l i \<and> bk_expiration (bucket_at lvs l i) \<noteq> - 1}"

definition agrees :: "wheel_level list \<Rightarrow> (int \<times> bucket_ref) multiset \<Rightarrow> bool" where
  "agrees lvs P \<longleftrightarrow> (\<forall>x. count P x = of_bool (x \<in> timed lvs))"

definition wheel_ok :: "(u64, timer) gomap \<Rightarrow> wheel_level list \<Rightarrow> (int \<times> bucket_ref) multiset \<Rightarrow> bool" where
  "wheel_ok ts lvs P \<longleftrightarrow> chain_ok lvs \<and> lvs \<noteq> [] \<and> contents_ok ts lvs \<and> agrees lvs P"

definition flight_entry :: "wheel_level list \<Rightarrow> bucket_ref option \<Rightarrow> (int \<times> bucket_ref) multiset" where
  "flight_entry lvs f = (case f of None \<Rightarrow> {#} | Some (l, i) \<Rightarrow> {#(bk_expiration (bucket_at lvs l i), (l, i))#})"

text \<open>The bucket in flight is due, and no clock passes a waiting bucket when it is delivered.\<close>

definition flight_ok :: "wheel_level list \<Rightarrow> int \<Rightarrow> bucket_ref option \<Rightarrow> bool" where
  "flight_ok lvs now f \<longleftrightarrow> (\<forall>l i. f = Some (l, i) \<longrightarrow> position lvs l i \<and> bk_expiration (bucket_at lvs l i) \<noteq> - 1
      \<and> bk_expiration (bucket_at lvs l i) \<le> now
      \<and> (\<forall>e m j. (e, (m, j)) \<in> timed lvs \<longrightarrow>
           bk_expiration (bucket_at lvs l i) - bk_expiration (bucket_at lvs l i) mod wl_tick (lvs ! m) \<le> e))"

definition base_tick :: "wheel_level list \<Rightarrow> int" where
  "base_tick lvs = wl_tick (lvs ! 0)"

definition base_time :: "wheel_level list \<Rightarrow> int" where
  "base_time lvs = wl_currentTime (lvs ! 0)"

definition wheel_inv :: "int \<Rightarrow> wheel_sys \<Rightarrow> bool" where
  [inv_defs]: "wheel_inv T s \<longleftrightarrow> \<not> tw_closed (ws_w s)
     \<and> wheel_ok (tw_store (ws_w s)) (tw_levels (ws_w s))
         (pq_entries (dq_pq (tw_queue (ws_w s))) + flight_entry (tw_levels (ws_w s)) (ws_flight s))
     \<and> pq_inv (dq_pq (tw_queue (ws_w s))) \<and> flight_ok (tw_levels (ws_w s)) (ws_now s) (ws_flight s)
     \<and> base_time (tw_levels (ws_w s)) \<le> ws_now s \<and> base_tick (tw_levels (ws_w s)) = T
     \<and> distinct (bucket_ids (tw_levels (ws_w s)))
     \<and> mset (ws_added s) = mset (bucket_ids (tw_levels (ws_w s))) + mset (map fst (ws_ran s)) + mset (ws_stopped s)
     \<and> (\<forall>(i, e, n) \<in> set (ws_ran s). e < n + T)"

text \<open>What is left to do: every waiting timer counts by its level, every timed bucket once.\<close>

fun work :: "nat \<Rightarrow> wheel_level list \<Rightarrow> nat" where
  "work k [] = 0"
| "work k (lv # lvs) = sum_list (map (\<lambda>b. 2 * Suc k * length (bk_timers b) + of_bool (bk_expiration b \<noteq> - 1)) (wl_buckets lv))
     + work (Suc k) lvs"

section \<open>Lemmas\<close>

subsection \<open>Rounding\<close>

lemma truncate_nonneg: "0 \<le> x \<Longrightarrow> 0 < m \<Longrightarrow> truncate_ms x m = x - x mod m"
  by (simp add: truncate_ms_def go_mod_nonneg)

lemma round_down_mono: "x \<le> y \<Longrightarrow> 0 < m \<Longrightarrow> x - x mod m \<le> y - y mod m" for x :: int
  by (metis minus_mod_eq_mult_div mult_left_mono zdiv_mono1 less_imp_le)

lemma round_down_dvd: "m dvd x - x mod m" for x :: int
  by simp

lemma round_down_twice:
  fixes x :: int
  assumes "0 < m" "0 < n" "m dvd n"
  shows "(x - x mod m) - (x - x mod m) mod n = x - x mod n"
proof -
  obtain c where c: "n = m * c" using assms by blast
  then have c0: "0 \<le> c" using assms by (simp add: zero_less_mult_iff)
  have "(m * (x div m)) div n = (x div m) div c" using assms c by simp
  also have "\<dots> = x div n" using c0 c by (simp add: zdiv_zmult2_eq)
  finally show ?thesis by (simp add: minus_mod_eq_mult_div)
qed

lemma round_down_le_iff: "0 < m \<Longrightarrow> m dvd y \<Longrightarrow> x < y + m \<longleftrightarrow> x - x mod m \<le> y" for x :: int
proof -
  assume m: "0 < m" "m dvd y"
  obtain k where k: "y = m * k" using m by blast
  have "x - x mod m \<le> y" if "x < y + m"
  proof (rule ccontr)
    assume "\<not> x - x mod m \<le> y"
    then have "m * k < m * (x div m)" by (simp add: k minus_mod_eq_mult_div)
    then have "k + 1 \<le> x div m" using m by simp
    then have "m * (k + 1) \<le> m * (x div m)" using m by (intro mult_left_mono) auto
    also have "\<dots> \<le> x" using m by (simp add: minus_mod_eq_mult_div [symmetric])
    finally show False using that by (simp add: k distrib_left)
  qed
  moreover have "x < y + m" if "x - x mod m \<le> y" using that pos_mod_bound [OF m(1), of x] by simp
  ultimately show ?thesis by blast
qed

subsection \<open>The levels and their clocks\<close>

lemma level_wf_pos: "level_wf lv \<Longrightarrow> 0 < wl_tick lv \<and> 0 < wl_interval lv \<and> wl_tick lv < wl_interval lv \<and> 0 < wl_wheelSize lv"
proof -
  assume a: "level_wf lv"
  then have "wl_tick lv * 1 < wl_tick lv * wl_wheelSize lv" by (intro mult_strict_left_mono) (auto simp: level_wf_def)
  then show ?thesis using a by (auto simp: level_wf_def)
qed

lemma chain_member:
  "chain_ok (lv # lvs) \<Longrightarrow> x \<in> set (lv # lvs) \<Longrightarrow>
     level_wf x \<and> wl_tick lv dvd wl_tick x \<and> wl_currentTime x = wl_currentTime lv - wl_currentTime lv mod wl_tick x"
proof (induction lvs arbitrary: lv)
  case Nil
  then show ?case by (auto simp: level_wf_def)
next
  case (Cons lv' lvs)
  show ?case
  proof (cases "x = lv")
    case True
    then show ?thesis using Cons.prems by (auto simp: level_wf_def)
  next
    case False
    then have ih: "level_wf x \<and> wl_tick lv' dvd wl_tick x \<and> wl_currentTime x = wl_currentTime lv' - wl_currentTime lv' mod wl_tick x"
      using Cons.IH [of lv'] Cons.prems by auto
    have c: "wl_tick lv' = wl_interval lv" "wl_currentTime lv' = wl_currentTime lv - wl_currentTime lv mod wl_tick lv'"
      "level_wf lv" "level_wf lv'" using Cons.prems(1) by auto
    have "wl_tick lv dvd wl_tick x" using c(1,3) ih by (auto simp: level_wf_def intro: dvd_trans [OF dvd_triv_left])
    moreover have "wl_currentTime x = wl_currentTime lv - wl_currentTime lv mod wl_tick x"
      using ih c(2) round_down_twice [of "wl_tick lv'" "wl_tick x" "wl_currentTime lv"] level_wf_pos [of x] level_wf_pos [OF c(4)]
      by simp
    ultimately show ?thesis using ih by simp
  qed
qed

lemma chain_nth:
  assumes "chain_ok lvs" "m < length lvs"
  shows "level_wf (lvs ! m)" "wl_currentTime (lvs ! m) = base_time lvs - base_time lvs mod wl_tick (lvs ! m)"
proof -
  obtain lv r where "lvs = lv # r" "lvs ! m \<in> set (lv # r)" using assms(2) nth_mem [OF assms(2)] by (cases lvs) auto
  then show "level_wf (lvs ! m)" "wl_currentTime (lvs ! m) = base_time lvs - base_time lvs mod wl_tick (lvs ! m)"
    using chain_member [of lv r "lvs ! m"] assms(1) by (auto simp: base_time_def)
qed

lemma chain_ok_drop: "chain_ok lvs \<Longrightarrow> chain_ok (drop n lvs)"
  by (induction n arbitrary: lvs) (auto simp: drop_Suc tl_def split: list.splits)

lemma chain_next: "chain_ok lvs \<Longrightarrow> Suc m < length lvs \<Longrightarrow> wl_tick (lvs ! Suc m) = wl_interval (lvs ! m)"
proof -
  assume a: "chain_ok lvs" "Suc m < length lvs"
  then have "drop m lvs = lvs ! m # lvs ! Suc m # drop (Suc (Suc m)) lvs" by (simp add: Cons_nth_drop_Suc)
  then show ?thesis using chain_ok_drop [OF a(1), of m] by simp
qed

definition advanced :: "int \<Rightarrow> wheel_level \<Rightarrow> wheel_level" where
  "advanced e lv = lv \<lparr> wl_currentTime := max (wl_currentTime lv) (e - e mod wl_tick lv) \<rparr>"

lemma advanced_simps [simp]:
  "wl_tick (advanced e lv) = wl_tick lv" "wl_wheelSize (advanced e lv) = wl_wheelSize lv"
  "wl_interval (advanced e lv) = wl_interval lv" "wl_buckets (advanced e lv) = wl_buckets lv"
  by (simp_all add: advanced_def)

text \<open>\<open>advanceClock\<close> sets every clock to the rounded time, never back.\<close>

lemma advanceClock_map: "chain_ok lvs \<Longrightarrow> 0 \<le> e \<Longrightarrow> advanceClock e lvs = map (advanced e) lvs"
proof (induction lvs arbitrary: e)
  case (Cons lv lvs)
  have wf: "level_wf lv" "0 < wl_tick lv" "wl_tick lv dvd wl_currentTime lv"
    using Cons.prems level_wf_pos [of lv] by (auto simp: level_wf_def)
  let ?r = "e - e mod wl_tick lv"
  show ?case
  proof (cases "e \<ge> wl_currentTime lv + wl_tick lv")
    case True
    then have r: "wl_currentTime lv \<le> ?r" "0 \<le> ?r"
      using round_down_le_iff [of "wl_tick lv" "wl_currentTime lv" e] wf Cons.prems(2) by (auto simp: level_wf_def)
    have "advanceClock ?r lvs = map (advanced ?r) lvs" using Cons.IH [OF _ r(2)] Cons.prems(1) by simp
    also have "\<dots> = map (advanced e) lvs"
    proof (rule map_cong [OF refl])
      fix x assume "x \<in> set lvs"
      then have x: "level_wf x" "wl_tick lv dvd wl_tick x" using chain_member [OF Cons.prems(1), of x] by auto
      then show "advanced ?r x = advanced e x"
        using round_down_twice [of "wl_tick lv" "wl_tick x" e] wf(2) level_wf_pos [of x] by (simp add: advanced_def)
    qed
    finally show ?thesis using True wf Cons.prems(2) r by (simp add: truncate_nonneg advanced_def)
  next
    case False
    then have r: "?r \<le> wl_currentTime lv" using round_down_le_iff [of "wl_tick lv" "wl_currentTime lv" e] wf by simp
    have "advanced e x = x" if "x \<in> set (lv # lvs)" for x
    proof -
      have x: "level_wf x" "wl_tick lv dvd wl_tick x" "wl_currentTime x = wl_currentTime lv - wl_currentTime lv mod wl_tick x"
        using chain_member [OF Cons.prems(1) that] by auto
      have "e - e mod wl_tick x = ?r - ?r mod wl_tick x"
        using round_down_twice [of "wl_tick lv" "wl_tick x" e] wf(2) level_wf_pos [OF x(1)] x(2) by simp
      also have "\<dots> \<le> wl_currentTime x" using round_down_mono [OF r, of "wl_tick x"] level_wf_pos [OF x(1)] x(3) by simp
      finally show ?thesis by (simp add: advanced_def)
    qed
    then have "map (advanced e) (lv # lvs) = lv # lvs" by (rule map_idI)
    then show ?thesis using False by simp
  qed
qed simp

lemma chain_ok_advanced:
  assumes "chain_ok lvs" "0 \<le> e"
  shows "chain_ok (map (advanced e) lvs)"
  using assms(1)
proof (induction lvs)
  case (Cons lv lvs)
  have wf: "level_wf lv" "0 < wl_tick lv" using Cons.prems level_wf_pos [of lv] by auto
  have "wl_tick lv dvd max (wl_currentTime lv) (e - e mod wl_tick lv)" "0 \<le> max (wl_currentTime lv) (e - e mod wl_tick lv)"
    using wf by (auto simp: max_def level_wf_def)
  then have "level_wf (advanced e lv)" using wf by (simp add: level_wf_def advanced_def)
  moreover have "wl_currentTime (advanced e x) = wl_currentTime (advanced e lv) - wl_currentTime (advanced e lv) mod wl_tick x"
    if "wl_tick x = wl_interval lv" "wl_currentTime x = wl_currentTime lv - wl_currentTime lv mod wl_tick x" "level_wf x" for x
  proof -
    let ?r = "e - e mod wl_tick lv" let ?t = "wl_tick x"
    have t: "0 < ?t" "wl_tick lv dvd ?t" using that wf level_wf_pos [of x] by (auto simp: level_wf_def)
    have r: "?r - ?r mod ?t = e - e mod ?t" using round_down_twice [OF wf(2) t] .
    show ?thesis
    proof (cases "wl_currentTime lv \<le> ?r")
      case True
      then have "wl_currentTime x \<le> e - e mod ?t" using round_down_mono [OF True t(1)] that(2) r by simp
      then show ?thesis using True r by (simp add: advanced_def)
    next
      case False
      then have "e - e mod ?t \<le> wl_currentTime x" using round_down_mono [OF _ t(1), of ?r "wl_currentTime lv"] that(2) r by simp
      then show ?thesis using False that(2) by (simp add: advanced_def)
    qed
  qed
  moreover have "chain_ok (map (advanced e) lvs)" using Cons by simp
  ultimately show ?case using Cons.prems by (cases lvs) simp_all
qed simp

text \<open>Two times of one level with the same slot are equal.\<close>

lemma slot_inj:
  assumes "level_wf lv" "fits lv a" "fits lv b" "slot_of lv a = slot_of lv b"
  shows "a = b"
proof -
  let ?t = "wl_tick lv" let ?n = "wl_wheelSize lv"
  have t: "0 < ?t" "0 < ?n" using level_wf_pos [OF assms(1)] by auto
  obtain x y c where k: "a = ?t * x" "b = ?t * y" "wl_currentTime lv = ?t * c"
    using assms by (auto simp: fits_def level_wf_def dvd_def)
  have "?t * c \<le> ?t * x \<and> ?t * x < ?t * (c + ?n)" "?t * c \<le> ?t * y \<and> ?t * y < ?t * (c + ?n)"
    using assms(1,2,3) k by (auto simp: fits_def level_wf_def distrib_left)
  then have r: "c \<le> x" "x < c + ?n" "c \<le> y" "y < c + ?n" using t by auto
  have "x mod ?n = y mod ?n" using assms(4) t k by (simp add: slot_of_def eq_nat_nat_iff)
  then have "?n dvd x - y" by (simp add: mod_eq_dvd_iff)
  moreover have "\<bar>x - y\<bar> < ?n" using r by linarith
  ultimately have "x = y" using zdvd_imp_le [of ?n "\<bar>x - y\<bar>"] by (cases "x = y") auto
  then show ?thesis using k by simp
qed

subsection \<open>Insertion\<close>

lemma insert_bucket_spec:
  assumes wf: "level_wf lv" and e: "wl_currentTime lv + wl_tick lv \<le> tm_expiration t" "tm_expiration t < wl_currentTime lv + wl_interval lv"
    and q: "pq_inv (dq_pq q)" and v: "v = tm_expiration t - tm_expiration t mod wl_tick lv" and i: "i = slot_of lv v"
  shows "fits lv v \<and> i < length (wl_buckets lv) \<and>
    (\<exists>q'. insert_bucket t k lv q = Inr (set_bucket lv i ((Bucket_Add t (wl_buckets lv ! i)) \<lparr> bk_expiration := v \<rparr>), q')
       \<and> pq_inv (dq_pq q')
       \<and> pq_entries (dq_pq q') = (if bk_expiration (wl_buckets lv ! i) \<noteq> v then {#(v, (k, i))#} else {#}) + pq_entries (dq_pq q))"
proof -
  let ?t = "wl_tick lv" let ?x = "tm_expiration t"
  have p: "0 < ?t" "0 < wl_wheelSize lv" "0 \<le> wl_currentTime lv" "?t dvd wl_currentTime lv" "length (wl_buckets lv) = nat (wl_wheelSize lv)"
    using wf level_wf_pos [OF wf] by (auto simp: level_wf_def)
  have x: "0 \<le> ?x" using e(1) p by linarith
  have d: "v = ?x div ?t * ?t" by (simp add: v minus_mod_eq_div_mult)
  then have dd: "v div ?t = ?x div ?t" using p by simp
  have vid: "go_div ?x ?t = ?x div ?t" using x p by (simp add: go_div_nonneg)
  have "0 \<le> ?x div ?t" using x p by (simp add: pos_imp_zdiv_nonneg_iff)
  then have sl: "go_mod (go_div ?x ?t) (wl_wheelSize lv) = ?x div ?t mod wl_wheelSize lv" using p vid by (simp add: go_mod_nonneg)
  have i': "i = nat (?x div ?t mod wl_wheelSize lv)" using i dd by (simp add: slot_of_def)
  have il: "i < length (wl_buckets lv)" using p by (simp add: i' nat_less_eq_zless)
  have "\<not> ?x div ?t mod wl_wheelSize lv < 0" using pos_mod_sign [OF p(2), of "?x div ?t"] by linarith
  then have nonneg: "(?x div ?t mod wl_wheelSize lv < 0) = False" by blast
  have "wl_currentTime lv \<le> v" using round_down_le_iff [of ?t "wl_currentTime lv" ?x] p e(1) v round_down_mono [of "wl_currentTime lv" ?x ?t] by simp
  moreover have "v \<le> ?x" using p v by simp
  moreover have "?t dvd v" using d by simp
  ultimately have f: "fits lv v" using e(2) by (simp add: fits_def)
  let ?b = "(Bucket_Add t (wl_buckets lv ! i)) \<lparr> bk_expiration := v \<rparr>"
  have be: "bk_expiration (Bucket_Add t (wl_buckets lv ! i)) = bk_expiration (wl_buckets lv ! i)" by (simp add: Bucket_Add_def)
  have r: "insert_bucket t k lv q = (if bk_expiration (wl_buckets lv ! i) \<noteq> v
      then and_then (DQ_Offer (k, i) v q) (\<lambda>q'. Inr (set_bucket lv i ?b, q')) else Inr (set_bucket lv i ?b, q))"
    using il p vid d be unfolding insert_bucket_def Let_def sl i' [symmetric]
    by (simp add: Bucket_SetExpiration_def not_less nonneg)
  show ?thesis using f il r q DQ_Offer_spec [OF q, of "(k, i)" v] by auto
qed

lemma newTimingWheel_tick: "wl_tick (newTimingWheel a b c) = a"
  by (simp add: newTimingWheel_def)

definition fresh_level :: "wheel_level \<Rightarrow> bool" where
  "fresh_level lv \<longleftrightarrow> set (wl_buckets lv) \<subseteq> {newBucket}"

lemma newTimingWheel_ok:
  assumes "level_wf lv"
  shows "level_wf (newTimingWheel (wl_interval lv) (wl_wheelSize lv) (wl_currentTime lv))
    \<and> fresh_level (newTimingWheel (wl_interval lv) (wl_wheelSize lv) (wl_currentTime lv))
    \<and> wl_currentTime (newTimingWheel (wl_interval lv) (wl_wheelSize lv) (wl_currentTime lv)) = wl_currentTime lv - wl_currentTime lv mod wl_interval lv"
  using assms level_wf_pos [OF assms]
  by (auto simp: newTimingWheel_def level_wf_def fresh_level_def truncate_nonneg zmod_le_nonneg_dividend)

text \<open>
  \<open>addInternal\<close> ends: it puts the timer into the first level whose interval reaches it, after
  creating levels where there were none, and leaves the clocks alone.
\<close>

lemma addInternal_reaches:
  assumes "chain_ok (lv # upper)" "wl_currentTime lv + wl_tick lv \<le> tm_expiration t"
  shows "\<exists>new l. (\<forall>x \<in> set new. fresh_level x) \<and> chain_ok (lv # upper @ new) \<and> l < length (lv # upper @ new)
    \<and> wl_currentTime ((lv # upper @ new) ! l) + wl_tick ((lv # upper @ new) ! l) \<le> tm_expiration t
    \<and> tm_expiration t < wl_currentTime ((lv # upper @ new) ! l) + wl_interval ((lv # upper @ new) ! l)
    \<and> (\<forall>m < l. wl_currentTime ((lv # upper @ new) ! m) + wl_interval ((lv # upper @ new) ! m) \<le> tm_expiration t)
    \<and> (\<forall>k q. addInternal False t k lv upper q =
         Some (and_then (insert_bucket t (k + l) ((lv # upper @ new) ! l) q) (\<lambda>(lv', q'). Inr (True, (lv # upper @ new)[l := lv'], q'))))"
  using assms
proof (induction "nat (tm_expiration t + 1 - wl_interval lv)" arbitrary: lv upper rule: less_induct)
  case less
  have wf: "level_wf lv" using less.prems by simp
  note pos = level_wf_pos [OF wf]
  show ?case
  proof (cases "tm_expiration t < wl_currentTime lv + wl_interval lv")
    case True
    then show ?thesis using less.prems
      by (intro exI [of _ "[]"] exI [of _ 0]) (simp add: addInternal.simps [of _ _ _ lv] case_prod_beta)
  next
    case False
    define nx where "nx = (case upper of [] \<Rightarrow> newTimingWheel (wl_interval lv) (wl_wheelSize lv) (wl_currentTime lv) | x # _ \<Rightarrow> x)"
    define rest where "rest = tl upper"
    have nx: "wl_tick nx = wl_interval lv \<and> wl_currentTime nx = wl_currentTime lv - wl_currentTime lv mod wl_tick nx \<and> level_wf nx
      \<and> chain_ok (nx # rest)"
    proof (cases upper)
      case Nil
      then show ?thesis using newTimingWheel_ok [OF wf] by (simp add: nx_def rest_def newTimingWheel_tick)
    next
      case (Cons x xs)
      then show ?thesis using less.prems(1) by (simp add: nx_def rest_def)
    qed
    then have nx: "wl_tick nx = wl_interval lv" "wl_currentTime nx = wl_currentTime lv - wl_currentTime lv mod wl_tick nx" "level_wf nx"
      "chain_ok (nx # rest)" by blast+
    have up: "upper = [] \<and> rest = [] \<and> fresh_level nx \<or> upper = nx # rest"
      using newTimingWheel_ok [OF wf] by (cases upper) (simp_all add: nx_def rest_def)
    have le: "wl_currentTime nx \<le> wl_currentTime lv" using nx(2) level_wf_pos [OF nx(3)] by simp
    then have reach: "wl_currentTime nx + wl_tick nx \<le> tm_expiration t" using False nx(1) by simp
    have "wl_interval lv < wl_interval nx" using level_wf_pos [OF nx(3)] nx(1) by simp
    moreover have "wl_interval lv \<le> tm_expiration t" using False wf by (simp add: level_wf_def)
    ultimately have "nat (tm_expiration t + 1 - wl_interval nx) < nat (tm_expiration t + 1 - wl_interval lv)" by linarith
    from less.hyps [OF this nx(4) reach] obtain new l where
      IH: "\<forall>x \<in> set new. fresh_level x" "chain_ok (nx # rest @ new)" "l < length (nx # rest @ new)"
        "wl_currentTime ((nx # rest @ new) ! l) + wl_tick ((nx # rest @ new) ! l) \<le> tm_expiration t"
        "tm_expiration t < wl_currentTime ((nx # rest @ new) ! l) + wl_interval ((nx # rest @ new) ! l)"
        "\<forall>m < l. wl_currentTime ((nx # rest @ new) ! m) + wl_interval ((nx # rest @ new) ! m) \<le> tm_expiration t"
      and add: "\<And>k q. addInternal False t k nx rest q =
         Some (and_then (insert_bucket t (k + l) ((nx # rest @ new) ! l) q) (\<lambda>(lv', q'). Inr (True, (nx # rest @ new)[l := lv'], q')))"
      by blast
    obtain new' where n: "lv # upper @ new' = lv # nx # rest @ new" "\<forall>x \<in> set new'. fresh_level x"
    proof (cases "upper = []")
      case True
      then show ?thesis using up IH(1) by (intro that [of "nx # rest @ new"]) auto
    next
      case False
      then show ?thesis using up IH(1) by (intro that [of new]) auto
    qed
    have "addInternal False t k lv upper q = Option.bind (addInternal False t (Suc k) nx rest q) (\<lambda>r. Some (below lv r))" for k q
      using False less.prems(2) up by (auto simp: addInternal.simps [of _ _ _ lv] nx_def rest_def split: list.splits)
    then have "addInternal False t k lv upper q = Some (and_then (insert_bucket t (k + Suc l) ((lv # upper @ new') ! Suc l) q)
        (\<lambda>(lv', q'). Inr (True, (lv # upper @ new')[Suc l := lv'], q')))" for k q
      unfolding n(1) add
      by (cases "insert_bucket t (Suc (k + l)) ((nx # rest @ new) ! l) q") (auto simp: below_def)
    moreover have "chain_ok (lv # upper @ new')" unfolding n(1) using IH(2) less.prems(1) nx wf by simp
    moreover have "wl_currentTime ((lv # upper @ new') ! m) + wl_interval ((lv # upper @ new') ! m) \<le> tm_expiration t" if "m < Suc l" for m
      unfolding n(1) using that IH(6) False by (cases m) auto
    ultimately show ?thesis using n IH(3-5)
      by (intro exI [of _ new'] exI [of _ "Suc l"]) (simp del: chain_ok.simps)
  qed
qed

subsection \<open>Changing one bucket, adding empty levels\<close>

definition level_shape :: "wheel_level \<Rightarrow> int \<times> int \<times> int \<times> int \<times> nat" where
  "level_shape lv = (wl_tick lv, wl_wheelSize lv, wl_interval lv, wl_currentTime lv, length (wl_buckets lv))"

definition upd_bucket :: "wheel_level list \<Rightarrow> nat \<Rightarrow> nat \<Rightarrow> bucket \<Rightarrow> wheel_level list" where
  "upd_bucket lvs l i b = lvs[l := set_bucket (lvs ! l) i b]"

lemma level_wf_shape: "level_shape lv = level_shape lv' \<Longrightarrow> level_wf lv = level_wf lv'"
  by (simp add: level_shape_def level_wf_def)

lemma bucket_ok_shape: "level_shape lv = level_shape lv' \<Longrightarrow> bucket_ok ts lv i b = bucket_ok ts lv' i b"
  by (simp add: level_shape_def bucket_ok_def fits_def slot_of_def)

lemma chain_ok_shape: "map level_shape lvs = map level_shape lvs' \<Longrightarrow> chain_ok lvs = chain_ok lvs'"
proof (induction lvs arbitrary: lvs')
  case (Cons lv lvs)
  then obtain lv' r where l: "lvs' = lv' # r" "level_shape lv = level_shape lv'" "map level_shape lvs = map level_shape r" by (cases lvs') auto
  have "chain_ok lvs = chain_ok r" using Cons.IH l(3) .
  then show ?case using l level_wf_shape [OF l(2)]
    by (cases lvs; cases r) (auto simp: level_shape_def)
qed simp

lemma shape_upd [simp]: "map level_shape (upd_bucket lvs l i b) = map level_shape lvs"
proof (cases "l < length lvs")
  case True
  then have "level_shape (set_bucket (lvs ! l) i b) = map level_shape lvs ! l" by (simp add: level_shape_def set_bucket_def)
  then show ?thesis using True by (simp add: upd_bucket_def map_update list_update_same_conv)
qed (simp add: upd_bucket_def list_update_beyond)

lemma length_upd [simp]: "length (upd_bucket lvs l i b) = length lvs"
  by (simp add: upd_bucket_def)

lemma shape_nth: "map level_shape lvs = map level_shape lvs' \<Longrightarrow> m < length lvs \<Longrightarrow> level_shape (lvs ! m) = level_shape (lvs' ! m)"
  by (metis length_map nth_map)

lemma shape_upd_nth [simp]: "m < length lvs \<Longrightarrow> level_shape (upd_bucket lvs l i b ! m) = level_shape (lvs ! m)"
  by (rule shape_nth) simp_all

lemma position_shape: "map level_shape lvs = map level_shape lvs' \<Longrightarrow> position lvs = position lvs'"
proof (intro ext)
  fix l i assume s: "map level_shape lvs = map level_shape lvs'"
  have "length lvs = length lvs'" using s by (metis length_map)
  then show "position lvs l i = position lvs' l i"
    using shape_nth [OF s, of l] by (auto simp: position_def level_shape_def)
qed

lemma position_upd [simp]: "position (upd_bucket lvs l i b) = position lvs"
  by (rule position_shape) simp

lemma bucket_at_upd: "position lvs l i \<Longrightarrow> bucket_at (upd_bucket lvs l i b) m j = (if m = l \<and> j = i then b else bucket_at lvs m j)"
  by (auto simp: position_def bucket_at_def upd_bucket_def set_bucket_def nth_list_update)

lemma contents_ok_upd:
  assumes "contents_ok ts lvs" "position lvs l i" "bucket_ok ts (lvs ! l) i b"
  shows "contents_ok ts (upd_bucket lvs l i b)"
  unfolding contents_ok_def
proof (intro allI impI)
  fix m j assume "position (upd_bucket lvs l i b) m j"
  then have p: "position lvs m j" "m < length lvs" by (simp_all add: position_def)
  then have "bucket_ok ts (lvs ! m) j (bucket_at (upd_bucket lvs l i b) m j)"
    using assms by (auto simp: bucket_at_upd contents_ok_def)
  then show "bucket_ok ts (upd_bucket lvs l i b ! m) j (bucket_at (upd_bucket lvs l i b) m j)"
    using bucket_ok_shape [OF shape_upd_nth [OF p(2)]] by simp
qed

lemma timed_iff: "(e, (m, j)) \<in> timed lvs \<longleftrightarrow> position lvs m j \<and> e = bk_expiration (bucket_at lvs m j) \<and> e \<noteq> - 1"
  by (auto simp: timed_def)

lemma timed_upd:
  "position lvs l i \<Longrightarrow> timed (upd_bucket lvs l i b) =
     (timed lvs - {(bk_expiration (bucket_at lvs l i), (l, i))}) \<union> (if bk_expiration b = - 1 then {} else {(bk_expiration b, (l, i))})"
  by (intro set_eqI) (auto simp: timed_iff bucket_at_upd split: if_splits)

lemma mset_concat_update:
  "i < length xss \<Longrightarrow> mset (concat (xss[i := ys])) + mset (xss ! i) = mset (concat xss) + mset ys"
  using sum_list_map_update [of i xss mset ys] by (simp add: mset_concat)

lemma bucket_ids_upd:
  assumes "position lvs l i"
  shows "mset (bucket_ids (upd_bucket lvs l i b)) + mset (bk_timers (bucket_at lvs l i)) = mset (bucket_ids lvs) + mset (bk_timers b)"
proof -
  let ?f = "\<lambda>lv. concat (map bk_timers (wl_buckets lv))"
  have l: "l < length lvs" "i < length (wl_buckets (lvs ! l))" using assms by (auto simp: position_def)
  have "mset (bucket_ids (upd_bucket lvs l i b)) + mset (?f (lvs ! l)) = mset (bucket_ids lvs) + mset (?f (set_bucket (lvs ! l) i b))"
    using mset_concat_update [of l "map ?f lvs"] l by (simp add: bucket_ids_def upd_bucket_def map_update)
  moreover have "mset (?f (set_bucket (lvs ! l) i b)) + mset (bk_timers (bucket_at lvs l i)) = mset (?f (lvs ! l)) + mset (bk_timers b)"
    using mset_concat_update [of i "map bk_timers (wl_buckets (lvs ! l))"] l by (simp add: set_bucket_def bucket_at_def map_update)
  ultimately have "mset (bucket_ids (upd_bucket lvs l i b)) + mset (bk_timers (bucket_at lvs l i)) + mset (?f (lvs ! l))
      = mset (bucket_ids lvs) + mset (bk_timers b) + mset (?f (lvs ! l))"
    by (metis (no_types) union_assoc union_commute)
  then show ?thesis by simp
qed

definition bucket_work :: "nat \<Rightarrow> bucket \<Rightarrow> nat" where
  "bucket_work k b = 2 * Suc k * length (bk_timers b) + of_bool (bk_expiration b \<noteq> - 1)"

lemma work_bucket_work: "work k (lv # lvs) = sum_list (map (bucket_work k) (wl_buckets lv)) + work (Suc k) lvs"
  by (simp add: bucket_work_def [abs_def])

lemma work_upd:
  "position lvs l i \<Longrightarrow> work k (upd_bucket lvs l i b) + bucket_work (k + l) (bucket_at lvs l i) = work k lvs + bucket_work (k + l) b"
proof (induction lvs arbitrary: l k)
  case (Cons lv lvs)
  show ?case
  proof (cases l)
    case 0
    then have "i < length (wl_buckets lv)" using Cons.prems by (simp add: position_def)
    then show ?thesis using sum_list_map_update [of i "wl_buckets lv" "bucket_work k" b] 0
      unfolding upd_bucket_def by (simp add: work_bucket_work bucket_at_def set_bucket_def del: work.simps)
  next
    case (Suc m)
    have "work (Suc k) (upd_bucket lvs m i b) + bucket_work (Suc k + m) (bucket_at lvs m i) = work (Suc k) lvs + bucket_work (Suc k + m) b"
      using Cons.IH [of m "Suc k"] Cons.prems Suc by (simp add: position_def)
    then show ?thesis using Suc unfolding upd_bucket_def by (simp add: bucket_at_def)
  qed
qed (simp add: position_def)

lemma fresh_levelD: "fresh_level x \<Longrightarrow> b \<in> set (wl_buckets x) \<Longrightarrow> b = newBucket"
  by (auto simp: fresh_level_def)

lemma fresh_bucket_at:
  assumes "\<forall>x \<in> set new. fresh_level x" "position (lvs @ new) l i" "\<not> l < length lvs"
  shows "bucket_at (lvs @ new) l i = newBucket"
proof -
  have "(lvs @ new) ! l \<in> set new" using assms by (auto simp: position_def nth_append)
  moreover have "wl_buckets ((lvs @ new) ! l) ! i \<in> set (wl_buckets ((lvs @ new) ! l))" using assms(2) by (simp add: position_def)
  ultimately show ?thesis using assms(1) by (auto simp: fresh_level_def bucket_at_def)
qed

lemma fresh_levels_keep:
  assumes f: "\<forall>x \<in> set new. fresh_level x"
  shows "contents_ok ts lvs \<Longrightarrow> contents_ok ts (lvs @ new)"
    and "timed (lvs @ new) = timed lvs"
    and "bucket_ids (lvs @ new) = bucket_ids lvs"
    and "work k (lvs @ new) = work k lvs"
proof -
  have old: "position (lvs @ new) l i = position lvs l i \<and> bucket_at (lvs @ new) l i = bucket_at lvs l i \<and> (lvs @ new) ! l = lvs ! l"
    if "l < length lvs" for l i
    using that by (simp add: position_def bucket_at_def nth_append)
  show "contents_ok ts (lvs @ new)" if c: "contents_ok ts lvs"
    unfolding contents_ok_def
  proof (intro allI impI)
    fix l i assume p: "position (lvs @ new) l i"
    show "bucket_ok ts ((lvs @ new) ! l) i (bucket_at (lvs @ new) l i)"
    proof (cases "l < length lvs")
      case True
      then show ?thesis using c p old [of l i] by (simp add: contents_ok_def)
    next
      case False
      then show ?thesis using fresh_bucket_at [OF f p] by (simp add: bucket_ok_def newBucket_def)
    qed
  qed
  have "(e, (l, i)) \<in> timed (lvs @ new) \<longleftrightarrow> (e, (l, i)) \<in> timed lvs" for e l i
  proof (cases "l < length lvs")
    case True
    then show ?thesis using old [of l i] by (simp add: timed_iff)
  next
    case False
    then have "\<not> position lvs l i" by (simp add: position_def)
    then show ?thesis using False fresh_bucket_at [OF f, of lvs l i] by (auto simp: timed_iff newBucket_def)
  qed
  then show "timed (lvs @ new) = timed lvs" by (intro set_eqI) (metis prod.exhaust)
  have "concat (map bk_timers (wl_buckets x)) = []" if "x \<in> set new" for x
    using f that by (auto dest!: fresh_levelD simp: newBucket_def)
  then show "bucket_ids (lvs @ new) = bucket_ids lvs" by (simp add: bucket_ids_def)
  have "work k new = 0" for k
    using f
  proof (induction new arbitrary: k)
    case (Cons x new)
    have "bucket_work k b = 0" if "b \<in> set (wl_buckets x)" for b
      using that Cons.prems fresh_levelD [of x b] by (auto simp: newBucket_def bucket_work_def)
    then have "sum_list (map (bucket_work k) (wl_buckets x)) = 0" by (simp add: sum_list_eq_0_iff)
    then show ?case using Cons by (simp add: work_bucket_work del: work.simps)
  qed simp
  moreover have "work k (lvs @ new) = work k lvs + work (k + length lvs) new" for k
    by (induction lvs arbitrary: k) simp_all
  ultimately show "work k (lvs @ new) = work k lvs" by simp
qed

text \<open>Inserting a timer that is not yet due, in terms of the invariant.\<close>

lemma wheel_add_spec:
  assumes ok: "wheel_ok ts lvs (pq_entries (dq_pq q) + F)" and q: "pq_inv (dq_pq q)"
    and t: "gm_get ts (tm_timerId t) = Some t" "isActive t" and reach: "base_time lvs + base_tick lvs \<le> tm_expiration t"
  shows "\<exists>lvs' q' l i. wheel_add False t lvs q = Some (Inr (True, lvs', q')) \<and> wheel_ok ts lvs' (pq_entries (dq_pq q') + F)
    \<and> pq_inv (dq_pq q') \<and> mset (bucket_ids lvs') = add_mset (tm_timerId t) (mset (bucket_ids lvs))
    \<and> length lvs \<le> length lvs' \<and> (\<forall>m < length lvs. level_shape (lvs' ! m) = level_shape (lvs ! m))
    \<and> timed lvs' = insert (tm_expiration t - tm_expiration t mod wl_tick (lvs' ! l), (l, i)) (timed lvs)
    \<and> (\<forall>m < l. wl_currentTime (lvs' ! m) + wl_interval (lvs' ! m) \<le> tm_expiration t) \<and> l < length lvs'
    \<and> work 0 lvs' \<le> work 0 lvs + 2 * Suc l + 1"
proof -
  obtain lv upper where lvs: "lvs = lv # upper" using ok by (cases lvs) (auto simp: wheel_ok_def)
  have c: "chain_ok (lv # upper)" "contents_ok ts lvs" "agrees lvs (pq_entries (dq_pq q) + F)"
    using ok by (simp_all add: wheel_ok_def lvs del: chain_ok.simps)
  have r: "wl_currentTime lv + wl_tick lv \<le> tm_expiration t" using reach by (simp add: base_time_def base_tick_def lvs)
  obtain new l where n: "\<forall>x \<in> set new. fresh_level x" "chain_ok (lvs @ new)" "l < length (lvs @ new)"
      "wl_currentTime ((lvs @ new) ! l) + wl_tick ((lvs @ new) ! l) \<le> tm_expiration t"
      "tm_expiration t < wl_currentTime ((lvs @ new) ! l) + wl_interval ((lvs @ new) ! l)"
      "\<forall>m < l. wl_currentTime ((lvs @ new) ! m) + wl_interval ((lvs @ new) ! m) \<le> tm_expiration t"
    and add: "addInternal False t 0 lv upper q =
         Some (and_then (insert_bucket t l ((lvs @ new) ! l) q) (\<lambda>(lv', q'). Inr (True, (lvs @ new)[l := lv'], q')))"
    using addInternal_reaches [OF c(1) r] unfolding lvs append_Cons by (metis add_0)
  define L where "L = lvs @ new"
  have wf: "level_wf (L ! l)" using chain_nth(1) n(2,3) by (simp add: L_def)
  define v where "v = tm_expiration t - tm_expiration t mod wl_tick (L ! l)"
  define i where "i = slot_of (L ! l) v"
  define old where "old = bucket_at L l i"
  define b where "b = (Bucket_Add t old) \<lparr> bk_expiration := v \<rparr>"
  obtain q' where f: "fits (L ! l) v" and il: "i < length (wl_buckets (L ! l))"
    and ins: "insert_bucket t l (L ! l) q = Inr (set_bucket (L ! l) i b, q')" and q': "pq_inv (dq_pq q')"
      "pq_entries (dq_pq q') = (if bk_expiration old \<noteq> v then {#(v, (l, i))#} else {#}) + pq_entries (dq_pq q)"
    using insert_bucket_spec [OF wf _ _ q v_def i_def] n(4,5) by (auto simp: L_def [symmetric] b_def old_def bucket_at_def)
  have pos: "position L l i" using n(3) il by (simp add: position_def L_def)
  note keep = fresh_levels_keep [OF n(1), where lvs = lvs, folded L_def]
  have v1: "v \<noteq> - 1" using f wf by (auto simp: fits_def level_wf_def)
  have old_ok: "bucket_ok ts (L ! l) i old" using keep(1) c(2) pos by (simp add: contents_ok_def old_def)
  then have old_cases: "bk_expiration old = - 1 \<and> bk_timers old = [] \<or> bk_expiration old = v"
    unfolding bucket_ok_def using slot_inj [OF wf _ f] i_def by blast
  let ?L = "upd_bucket L l i b"
  have e: "wheel_add False t lvs q = Some (Inr (True, ?L, q'))"
    using add ins by (simp add: wheel_add_def lvs upd_bucket_def L_def)
  have bt: "bk_timers b = bk_timers old @ [tm_timerId t]" "bk_expiration b = v" using t(2) by (simp_all add: b_def Bucket_Add_def)
  have "bucket_ok ts (L ! l) i b"
    using old_ok old_cases t f i_def v1 unfolding bucket_ok_def bt by (auto simp: v_def)
  then have cont: "contents_ok ts ?L" using contents_ok_upd keep(1) c(2) pos by blast
  have "timed ?L = (timed L - {(bk_expiration old, (l, i))}) \<union> {(v, (l, i))}"
    using timed_upd [OF pos, of b] bt v1 by (simp add: old_def)
  moreover have "(- 1, (l, i)) \<notin> timed L" by (simp add: timed_iff)
  ultimately have tm: "timed ?L = insert (v, (l, i)) (timed lvs)" using old_cases keep(2) by auto
  have "(v, (l, i)) \<notin> timed lvs" if "bk_expiration old \<noteq> v"
    using that unfolding keep(2) [symmetric] by (auto simp: timed_iff old_def)
  moreover have "(v, (l, i)) \<in> timed lvs" if "bk_expiration old = v"
    using that pos v1 unfolding keep(2) [symmetric] by (auto simp: timed_iff old_def)
  ultimately have "agrees ?L (pq_entries (dq_pq q') + F)"
    using c(3) unfolding agrees_def tm q'(2) by auto
  moreover have "?L \<noteq> []" using n(3) by (auto simp: upd_bucket_def L_def)
  ultimately have "wheel_ok ts ?L (pq_entries (dq_pq q') + F)"
    using cont chain_ok_shape [of ?L L] n(2) by (simp add: wheel_ok_def L_def [symmetric])
  moreover have "mset (bucket_ids ?L) = add_mset (tm_timerId t) (mset (bucket_ids lvs))"
    using bucket_ids_upd [OF pos, of b] keep(3) bt by (simp add: old_def)
  moreover have "work 0 ?L \<le> work 0 lvs + 2 * Suc l + 1"
    using work_upd [OF pos, of 0 b] keep(4) [of 0] bt v1 by (simp add: bucket_work_def old_def of_bool_def split: if_splits)
  moreover have sh: "\<forall>m < length L. level_shape (?L ! m) = level_shape (L ! m)" by simp
  moreover have "\<forall>m < length lvs. level_shape (?L ! m) = level_shape (lvs ! m)" using sh by (simp add: L_def nth_append)
  moreover have "\<forall>m < l. wl_currentTime (?L ! m) + wl_interval (?L ! m) \<le> tm_expiration t"
    using n(6) sh n(3) by (auto simp: L_def [symmetric] level_shape_def)
  moreover have "wl_tick (?L ! l) = wl_tick (L ! l)" using sh n(3) by (simp add: L_def [symmetric] level_shape_def)
  ultimately show ?thesis using e q'(1) tm n(3)
    by (intro exI [of _ ?L] exI [of _ q'] exI [of _ l] exI [of _ i]) (simp add: v_def L_def)
qed

lemma wheel_add_due:
  "lvs \<noteq> [] \<Longrightarrow> tm_expiration t < base_time lvs + base_tick lvs \<Longrightarrow> wheel_add False t lvs q = Some (Inr (False, lvs, q))"
  by (cases lvs) (auto simp: wheel_add_def base_time_def base_tick_def addInternal.simps)

lemma shape_base: "lvs \<noteq> [] \<Longrightarrow> \<forall>m < length lvs. level_shape (lvs' ! m) = level_shape (lvs ! m) \<Longrightarrow>
    base_time lvs' = base_time lvs \<and> base_tick lvs' = base_tick lvs"
  by (auto simp: base_time_def base_tick_def level_shape_def)

subsection \<open>Delivery\<close>

text \<open>
  Reinserting the timers of a bucket: those that are due come back, the others go below level \<open>K\<close>.
\<close>

lemma reinsert_spec:
  assumes "wheel_ok ts lvs (pq_entries (dq_pq q))" "pq_inv (dq_pq q)"
    and "\<forall>i \<in> set ids. \<exists>t. gm_get ts i = Some t \<and> isActive t \<and> tm_timerId t = i
       \<and> (tm_expiration t < base_time lvs + base_tick lvs
          \<or> (\<exists>m < K. m < length lvs \<and> tm_expiration t < wl_currentTime (lvs ! m) + wl_interval (lvs ! m)))"
  shows "\<exists>due lvs' q'. reinsert False ts ids lvs q = Some (Inr (due, lvs', q')) \<and> wheel_ok ts lvs' (pq_entries (dq_pq q'))
    \<and> pq_inv (dq_pq q') \<and> mset (bucket_ids lvs') + mset due = mset (bucket_ids lvs) + mset ids
    \<and> base_time lvs' = base_time lvs \<and> base_tick lvs' = base_tick lvs
    \<and> (\<forall>i \<in> set due. \<exists>t. gm_get ts i = Some t \<and> tm_expiration t < base_time lvs + base_tick lvs)
    \<and> work 0 lvs' \<le> work 0 lvs + (2 * K + 1) * length ids"
  using assms
proof (induction ids arbitrary: lvs q)
  case (Cons i ids)
  obtain t where t: "gm_get ts i = Some t" "isActive t" "tm_timerId t = i"
    and e: "tm_expiration t < base_time lvs + base_tick lvs
       \<or> (\<exists>m < K. m < length lvs \<and> tm_expiration t < wl_currentTime (lvs ! m) + wl_interval (lvs ! m))"
    using Cons.prems(3) by auto
  have ne: "lvs \<noteq> []" using Cons.prems(1) by (simp add: wheel_ok_def)
  show ?case
  proof (cases "tm_expiration t < base_time lvs + base_tick lvs")
    case True
    obtain due lvs' q' where r: "reinsert False ts ids lvs q = Some (Inr (due, lvs', q'))" "wheel_ok ts lvs' (pq_entries (dq_pq q'))"
      "pq_inv (dq_pq q')" "mset (bucket_ids lvs') + mset due = mset (bucket_ids lvs) + mset ids"
      "base_time lvs' = base_time lvs" "base_tick lvs' = base_tick lvs"
      "\<forall>i \<in> set due. \<exists>t. gm_get ts i = Some t \<and> tm_expiration t < base_time lvs + base_tick lvs"
      "work 0 lvs' \<le> work 0 lvs + (2 * K + 1) * length ids"
      using Cons.IH [OF Cons.prems(1,2)] Cons.prems(3) by force
    have "reinsert False ts (i # ids) lvs q = Some (Inr (i # due, lvs', q'))"
      using t wheel_add_due [OF ne True] r(1) by simp
    then show ?thesis using r t(1) True
      by (intro exI [of _ "i # due"] exI [of _ lvs'] exI [of _ q']) simp
  next
    case False
    then have "base_time lvs + base_tick lvs \<le> tm_expiration t" by simp
    from wheel_add_spec [where F = "{#}", simplified, OF Cons.prems(1,2) _ t(2) this] t
    obtain lvs1 q1 l j where a: "wheel_add False t lvs q = Some (Inr (True, lvs1, q1))" "wheel_ok ts lvs1 (pq_entries (dq_pq q1))"
      "pq_inv (dq_pq q1)" "mset (bucket_ids lvs1) = add_mset i (mset (bucket_ids lvs))" "length lvs \<le> length lvs1"
      and sh: "\<forall>m < length lvs. level_shape (lvs1 ! m) = level_shape (lvs ! m)"
      and lo: "\<forall>m < l. wl_currentTime (lvs1 ! m) + wl_interval (lvs1 ! m) \<le> tm_expiration t" and w: "work 0 lvs1 \<le> Suc (work 0 lvs + 2 * Suc l)"
      by (auto simp del: wheel_add_def)
    have b: "base_time lvs1 = base_time lvs" "base_tick lvs1 = base_tick lvs" using shape_base [OF ne sh] by simp_all
    have sh': "wl_currentTime (lvs1 ! m) = wl_currentTime (lvs ! m) \<and> wl_interval (lvs1 ! m) = wl_interval (lvs ! m)" if "m < length lvs" for m
      using sh that by (simp add: level_shape_def)
    obtain m where m: "m < K" "m < length lvs" "tm_expiration t < wl_currentTime (lvs ! m) + wl_interval (lvs ! m)" using e False by blast
    then have "\<not> m < l" using lo sh' [of m] by force
    then have lK: "l < K" using m(1) by simp
    have pre: "\<forall>i \<in> set ids. \<exists>t. gm_get ts i = Some t \<and> isActive t \<and> tm_timerId t = i
       \<and> (tm_expiration t < base_time lvs1 + base_tick lvs1
          \<or> (\<exists>m < K. m < length lvs1 \<and> tm_expiration t < wl_currentTime (lvs1 ! m) + wl_interval (lvs1 ! m)))"
    proof
      fix x assume "x \<in> set ids"
      then obtain u where u: "gm_get ts x = Some u" "isActive u" "tm_timerId u = x"
        "tm_expiration u < base_time lvs + base_tick lvs \<or> (\<exists>m < K. m < length lvs \<and> tm_expiration u < wl_currentTime (lvs ! m) + wl_interval (lvs ! m))"
        using Cons.prems(3) by auto
      then have "tm_expiration u < base_time lvs1 + base_tick lvs1
          \<or> (\<exists>m < K. m < length lvs1 \<and> tm_expiration u < wl_currentTime (lvs1 ! m) + wl_interval (lvs1 ! m))"
        using b sh' a(5) by (metis order_less_le_trans)
      then show "\<exists>t. gm_get ts x = Some t \<and> isActive t \<and> tm_timerId t = x
       \<and> (tm_expiration t < base_time lvs1 + base_tick lvs1
          \<or> (\<exists>m < K. m < length lvs1 \<and> tm_expiration t < wl_currentTime (lvs1 ! m) + wl_interval (lvs1 ! m)))" using u(1-3) by blast
    qed
    from Cons.IH [OF a(2,3) pre]
    obtain due lvs' q' where r: "reinsert False ts ids lvs1 q1 = Some (Inr (due, lvs', q'))" "wheel_ok ts lvs' (pq_entries (dq_pq q'))"
      "pq_inv (dq_pq q')" "mset (bucket_ids lvs') + mset due = mset (bucket_ids lvs1) + mset ids"
      "base_time lvs' = base_time lvs1" "base_tick lvs' = base_tick lvs1"
      "\<forall>i \<in> set due. \<exists>t. gm_get ts i = Some t \<and> tm_expiration t < base_time lvs1 + base_tick lvs1"
      "work 0 lvs' \<le> work 0 lvs1 + (2 * K + 1) * length ids" by blast
    have "reinsert False ts (i # ids) lvs q = Some (Inr (due, lvs', q'))" using t a(1) r(1) by simp
    moreover have "work 0 lvs' \<le> work 0 lvs + (2 * K + 1) * length (i # ids)"
    proof -
      have "work 0 lvs1 \<le> work 0 lvs + (2 * K + 1)" using w Suc_leI [OF lK] by simp
      then show ?thesis using r(8) by simp
    qed
    ultimately show ?thesis using r a(4) b
      by (intro exI [of _ due] exI [of _ lvs'] exI [of _ q']) simp
  qed
qed simp

lemma advanced_nth [simp]: "m < length lvs \<Longrightarrow> map (advanced e) lvs ! m = advanced e (lvs ! m)"
  by simp

lemma advanced_keeps:
  shows "position (map (advanced e) lvs) = position lvs"
    and "l < length lvs \<Longrightarrow> bucket_at (map (advanced e) lvs) l i = bucket_at lvs l i"
    and "timed (map (advanced e) lvs) = timed lvs"
    and "bucket_ids (map (advanced e) lvs) = bucket_ids lvs"
    and "work k (map (advanced e) lvs) = work k lvs"
proof -
  show p: "position (map (advanced e) lvs) = position lvs" by (intro ext) (auto simp: position_def)
  show b: "l < length lvs \<Longrightarrow> bucket_at (map (advanced e) lvs) l i = bucket_at lvs l i" for l i by (simp add: bucket_at_def)
  have "(x, (l, i)) \<in> timed (map (advanced e) lvs) \<longleftrightarrow> (x, (l, i)) \<in> timed lvs" for x l i
    unfolding timed_iff p using b [of l i] by (auto simp: position_def)
  then show "timed (map (advanced e) lvs) = timed lvs" by (intro set_eqI) (metis prod.exhaust)
  show "bucket_ids (map (advanced e) lvs) = bucket_ids lvs" by (simp add: bucket_ids_def comp_def)
  show "work k (map (advanced e) lvs) = work k lvs" by (induction lvs arbitrary: k) simp_all
qed

lemma contents_ok_advanced:
  assumes "contents_ok ts lvs" "\<And>x m j. (x, (m, j)) \<in> timed lvs \<Longrightarrow> e - e mod wl_tick (lvs ! m) \<le> x" "chain_ok lvs"
  shows "contents_ok ts (map (advanced e) lvs)"
  unfolding contents_ok_def advanced_keeps(1)
proof (intro allI impI)
  fix l i assume p: "position lvs l i"
  then have l: "l < length lvs" by (simp add: position_def)
  let ?b = "bucket_at lvs l i"
  have ok: "bucket_ok ts (lvs ! l) i ?b" using assms(1) p by (simp add: contents_ok_def)
  have "bucket_ok ts (advanced e (lvs ! l)) i ?b"
  proof (cases "bk_expiration ?b = - 1 \<and> bk_timers ?b = []")
    case False
    then have f: "fits (lvs ! l) (bk_expiration ?b)" using ok by (auto simp: bucket_ok_def)
    have "bk_expiration ?b \<noteq> - 1" using f chain_nth(1) [OF assms(3) l] by (auto simp: fits_def level_wf_def)
    then have "e - e mod wl_tick (lvs ! l) \<le> bk_expiration ?b" using assms(2) p by (simp add: timed_iff)
    then have "fits (advanced e (lvs ! l)) (bk_expiration ?b)" using f by (auto simp: fits_def advanced_def)
    then show ?thesis using ok False by (auto simp: bucket_ok_def slot_of_def)
  qed (simp add: bucket_ok_def)
  then show "bucket_ok ts (map (advanced e) lvs ! l) i (bucket_at (map (advanced e) lvs) l i)"
    using l advanced_keeps(2) by simp
qed

text \<open>A bucket in flight is emptied; its timers run or move down, and less remains to be done.\<close>

lemma deliver_spec:
  assumes ok: "wheel_ok (tw_store w) (tw_levels w) (pq_entries (dq_pq (tw_queue w)) + flight_entry (tw_levels w) (Some (l, i)))"
    and q: "pq_inv (dq_pq (tw_queue w))" and fl: "flight_ok (tw_levels w) now (Some (l, i))"
    and bt: "base_time (tw_levels w) \<le> now" and cl: "\<not> tw_closed w"
  shows "\<exists>due lvs' q'. deliver now (l, i) w = Some (Inr (due, w \<lparr> tw_levels := lvs', tw_queue := q' \<rparr>))
    \<and> wheel_ok (tw_store w) lvs' (pq_entries (dq_pq q')) \<and> pq_inv (dq_pq q') \<and> base_time lvs' \<le> now
    \<and> base_tick lvs' = base_tick (tw_levels w)
    \<and> mset (bucket_ids lvs') + mset due = mset (bucket_ids (tw_levels w))
    \<and> (\<forall>x \<in> set due. \<exists>t. gm_get (tw_store w) x = Some t \<and> tm_expiration t < now + base_tick (tw_levels w))
    \<and> work 0 lvs' < work 0 (tw_levels w)"
proof -
  let ?lvs = "tw_levels w" let ?ts = "tw_store w"
  define b where "b = bucket_at ?lvs l i"
  define e where "e = bk_expiration b"
  have p: "position ?lvs l i" "e \<noteq> - 1" "e \<le> now" "\<And>x m j. (x, (m, j)) \<in> timed ?lvs \<Longrightarrow> e - e mod wl_tick (?lvs ! m) \<le> x"
    using fl by (auto simp: flight_ok_def e_def b_def)
  have c: "chain_ok ?lvs" "?lvs \<noteq> []" "contents_ok ?ts ?lvs" "agrees ?lvs (add_mset (e, (l, i)) (pq_entries (dq_pq (tw_queue w))))"
    using ok by (auto simp: wheel_ok_def flight_entry_def e_def b_def)
  have l: "l < length ?lvs" using p(1) by (simp add: position_def)
  have bok: "bucket_ok ?ts (?lvs ! l) i b" using c(3) p(1) by (simp add: contents_ok_def b_def)
  then have f: "fits (?lvs ! l) e" using p(2) by (auto simp: bucket_ok_def e_def)
  have wf: "level_wf (?lvs ! l)" using chain_nth(1) c(1) l by blast
  have e0: "0 \<le> e" using f wf by (auto simp: fits_def level_wf_def)
  define A where "A = map (advanced e) ?lvs"
  define B where "B = upd_bucket A l i newBucket"
  have pA: "position A l i" using p(1) by (simp add: A_def advanced_keeps)
  have bA: "bucket_at A l i = b" using l by (simp add: A_def advanced_keeps b_def)
  have cA: "contents_ok ?ts A" unfolding A_def using contents_ok_advanced [OF c(3) _ c(1)] p(4) by blast
  have "contents_ok ?ts B" unfolding B_def using contents_ok_upd [OF cA pA] by (simp add: bucket_ok_def newBucket_def)
  moreover have "chain_ok B" using chain_ok_shape [of B A] chain_ok_advanced [OF c(1) e0] by (simp add: B_def A_def)
  moreover have tB: "timed B = timed ?lvs - {(e, (l, i))}"
    using timed_upd [OF pA, of newBucket] bA by (simp add: B_def newBucket_def e_def) (simp add: A_def advanced_keeps)
  have "agrees B (pq_entries (dq_pq (tw_queue w)))"
    unfolding agrees_def tB
  proof
    fix x
    have "(e, (l, i)) \<in> timed ?lvs" using p(1,2) by (simp add: timed_iff e_def b_def)
    then show "count (pq_entries (dq_pq (tw_queue w))) x = of_bool (x \<in> timed ?lvs - {(e, (l, i))})"
      using c(4) [unfolded agrees_def, rule_format, of x] by (cases "x = (e, (l, i))") auto
  qed
  moreover have "B \<noteq> []" using c(2) by (auto simp: B_def A_def upd_bucket_def)
  ultimately have okB: "wheel_ok ?ts B (pq_entries (dq_pq (tw_queue w)))" by (simp add: wheel_ok_def)
  have shB: "level_shape (B ! m) = level_shape (advanced e (?lvs ! m))" if "m < length ?lvs" for m
    using that by (simp add: B_def A_def)
  have baseB: "base_time B = max (base_time ?lvs) (e - e mod base_tick ?lvs)" "base_tick B = base_tick ?lvs"
    using shB [of 0] c(2) by (auto simp: base_time_def base_tick_def level_shape_def advanced_def)
  have t0: "0 < base_tick ?lvs" using chain_nth(1) [OF c(1), of 0] c(2) level_wf_pos by (auto simp: base_tick_def)
  have nowB: "base_time B \<le> now" using baseB(1) bt p(3) e0 t0 by (auto intro: order_trans [of _ e])
  have bound: "\<exists>t. gm_get ?ts x = Some t \<and> isActive t \<and> tm_timerId t = x
       \<and> (tm_expiration t < base_time B + base_tick B
          \<or> (\<exists>m < l. m < length B \<and> tm_expiration t < wl_currentTime (B ! m) + wl_interval (B ! m)))" if xb: "x \<in> set (bk_timers b)" for x
  proof -
    obtain t where t: "gm_get ?ts x = Some t" "isActive t" "tm_timerId t = x" "tm_expiration t - tm_expiration t mod wl_tick (?lvs ! l) = e"
      using bok xb p(2) by (auto simp: bucket_ok_def e_def)
    have te: "tm_expiration t < e + wl_tick (?lvs ! l)"
      using t(4) pos_mod_bound [of "wl_tick (?lvs ! l)" "tm_expiration t"] level_wf_pos [OF wf] by linarith
    show ?thesis
    proof (cases l)
      case 0
      then have "e - e mod base_tick ?lvs = e" using f by (simp add: fits_def base_tick_def)
      then show ?thesis using t te baseB 0 by (auto simp: base_tick_def)
    next
      case (Suc m)
      then have ml: "m < length ?lvs" "wl_tick (?lvs ! l) = wl_interval (?lvs ! m)" using l chain_next [OF c(1), of m] by auto
      have "wl_tick (?lvs ! m) dvd wl_interval (?lvs ! m)" using chain_nth(1) [OF c(1) ml(1)] by (simp add: level_wf_def)
      then have "wl_tick (?lvs ! m) dvd e" using f ml(2) by (auto simp: fits_def intro: dvd_trans)
      then have "e \<le> wl_currentTime (B ! m)" using shB [OF ml(1)] by (simp add: level_shape_def advanced_def)
      moreover have "wl_interval (B ! m) = wl_interval (?lvs ! m)" using shB [OF ml(1)] by (simp add: level_shape_def)
      moreover have "length B = length ?lvs" by (simp add: B_def A_def)
      ultimately show ?thesis using t te ml Suc by (intro exI [of _ t]) auto
    qed
  qed
  obtain due lvs' q' where r: "reinsert False ?ts (bk_timers b) B (tw_queue w) = Some (Inr (due, lvs', q'))" "wheel_ok ?ts lvs' (pq_entries (dq_pq q'))"
    "pq_inv (dq_pq q')" "mset (bucket_ids lvs') + mset due = mset (bucket_ids B) + mset (bk_timers b)"
    "base_time lvs' = base_time B" "base_tick lvs' = base_tick B"
    "\<forall>i \<in> set due. \<exists>t. gm_get ?ts i = Some t \<and> tm_expiration t < base_time B + base_tick B"
    "work 0 lvs' \<le> work 0 B + (2 * l + 1) * length (bk_timers b)"
    using reinsert_spec [OF okB q, of "bk_timers b" l] bound by blast
  have "Bucket_Flush b = (bk_timers b, newBucket)" by (simp add: Bucket_Flush_def Bucket_SetExpiration_def newBucket_def)
  moreover have "advanceClock e ?lvs = A" using advanceClock_map [OF c(1) e0] by (simp add: A_def)
  ultimately have "deliver now (l, i) w = Some (Inr (due, w \<lparr> tw_levels := lvs', tw_queue := q' \<rparr>))"
    using r(1) cl e0 p(3) bA unfolding deliver_def bucket_at_def b_def e_def B_def upd_bucket_def by simp
  moreover have "mset (bucket_ids lvs') + mset due = mset (bucket_ids ?lvs)"
    using r(4) bucket_ids_upd [OF pA, of newBucket] bA by (simp add: B_def newBucket_def) (simp add: A_def advanced_keeps)
  moreover have "work 0 lvs' < work 0 ?lvs"
  proof -
    have "work 0 B + bucket_work l b = work 0 ?lvs + bucket_work l newBucket"
      using work_upd [OF pA, of 0 newBucket] bA by (simp add: B_def) (simp add: A_def advanced_keeps)
    then have "work 0 B + (2 * Suc l * length (bk_timers b) + 1) = work 0 ?lvs" using p(2) by (simp add: bucket_work_def newBucket_def e_def)
    moreover have "(2 * l + 1) * length (bk_timers b) \<le> 2 * Suc l * length (bk_timers b)" by (intro mult_right_mono) auto
    ultimately show ?thesis using r(8) by linarith
  qed
  moreover have "\<forall>x \<in> set due. \<exists>t. gm_get ?ts x = Some t \<and> tm_expiration t < now + base_tick ?lvs"
    using r(7) nowB baseB(2) by fastforce
  ultimately show ?thesis using r(2,3,5,6) nowB baseB(2)
    by (intro exI [of _ due] exI [of _ lvs'] exI [of _ q']) simp
qed

subsection \<open>Every action keeps the invariant\<close>

lemma in_bucket_ids: "position lvs l i \<Longrightarrow> x \<in> set (bk_timers (bucket_at lvs l i)) \<Longrightarrow> x \<in> set (bucket_ids lvs)"
proof -
  assume p: "position lvs l i" and x: "x \<in> set (bk_timers (bucket_at lvs l i))"
  have "lvs ! l \<in> set lvs" "bucket_at lvs l i \<in> set (wl_buckets (lvs ! l))" using p by (auto simp: position_def bucket_at_def)
  then show ?thesis using x unfolding bucket_ids_def by fastforce
qed

lemma bucket_ids_where:
  assumes "x \<in> set (bucket_ids lvs)"
  obtains l i where "position lvs l i" "x \<in> set (bk_timers (bucket_at lvs l i))"
proof -
  obtain lv b where "lv \<in> set lvs" "b \<in> set (wl_buckets lv)" "x \<in> set (bk_timers b)" using assms by (auto simp: bucket_ids_def)
  then show ?thesis using that by (force simp: in_set_conv_nth position_def bucket_at_def)
qed

lemma contents_ok_store:
  assumes "contents_ok ts lvs" "\<And>x. x \<in> set (bucket_ids lvs) \<Longrightarrow> gm_get ts' x = gm_get ts x"
  shows "contents_ok ts' lvs"
  unfolding contents_ok_def
proof (intro allI impI)
  fix l i assume p: "position lvs l i"
  then have "bucket_ok ts (lvs ! l) i (bucket_at lvs l i)" using assms(1) by (simp add: contents_ok_def)
  then show "bucket_ok ts' (lvs ! l) i (bucket_at lvs l i)"
    using assms(2) in_bucket_ids [OF p] by (auto simp: bucket_ok_def)
qed

lemma base_tick_pos: "wheel_ok ts lvs P \<Longrightarrow> 0 < base_tick lvs"
  using chain_nth(1) [of lvs 0] level_wf_pos [of "lvs ! 0"] by (auto simp: wheel_ok_def base_tick_def)

lemma flight_entry_kept:
  assumes "flight_ok lvs now f" "timed lvs \<subseteq> timed lvs'"
  shows "flight_entry lvs' f = flight_entry lvs f"
proof (cases f)
  case (Some r)
  obtain l i where r: "r = (l, i)" by (cases r)
  have "(bk_expiration (bucket_at lvs l i), (l, i)) \<in> timed lvs"
    using assms(1) Some r by (simp add: flight_ok_def timed_iff)
  then have "(bk_expiration (bucket_at lvs l i), (l, i)) \<in> timed lvs'" using assms(2) by blast
  then show ?thesis using Some r by (simp add: flight_entry_def timed_iff)
qed (simp add: flight_entry_def)

lemma flight_ok_insert:
  assumes fl: "flight_ok lvs now f" and ok: "wheel_ok ts lvs' P" and now: "now \<le> x" and len: "length lvs \<le> length lvs'"
    and sh: "\<forall>m < length lvs. level_shape (lvs' ! m) = level_shape (lvs ! m)"
    and tm: "timed lvs' = insert (x - x mod wl_tick (lvs' ! k), (k, j)) (timed lvs)"
    and k: "k < length lvs'"
  shows "flight_ok lvs' now f"
  unfolding flight_ok_def
proof (intro allI impI)
  fix l i assume f: "f = Some (l, i)"
  let ?e = "bk_expiration (bucket_at lvs l i)"
  have o: "position lvs l i" "?e \<noteq> - 1" "?e \<le> now" "\<And>y m i'. (y, (m, i')) \<in> timed lvs \<Longrightarrow> ?e - ?e mod wl_tick (lvs ! m) \<le> y"
    using fl f by (auto simp: flight_ok_def)
  have "(?e, (l, i)) \<in> timed lvs'" using o(1,2) tm by (simp add: timed_iff)
  then have e: "position lvs' l i" "bk_expiration (bucket_at lvs' l i) = ?e" by (simp_all add: timed_iff)
  have tick: "0 < wl_tick (lvs' ! k)" using chain_nth(1) [of lvs' k] k ok level_wf_pos by (simp add: wheel_ok_def)
  have "?e - ?e mod wl_tick (lvs' ! m) \<le> y" if "(y, (m, i')) \<in> timed lvs'" for y m i'
  proof (cases "(y, (m, i')) \<in> timed lvs")
    case True
    then have "m < length lvs" by (simp add: timed_iff position_def)
    then have "wl_tick (lvs' ! m) = wl_tick (lvs ! m)" using sh by (simp add: level_shape_def)
    then show ?thesis using o(4) [OF True] by simp
  next
    case False
    then have "y = x - x mod wl_tick (lvs' ! k)" "m = k" using that tm by auto
    then show ?thesis using round_down_mono [of ?e x, OF _ tick] o(3) now by simp
  qed
  then show "position lvs' l i \<and> bk_expiration (bucket_at lvs' l i) \<noteq> - 1 \<and> bk_expiration (bucket_at lvs' l i) \<le> now
      \<and> (\<forall>y m i'. (y, (m, i')) \<in> timed lvs' \<longrightarrow>
           bk_expiration (bucket_at lvs' l i) - bk_expiration (bucket_at lvs' l i) mod wl_tick (lvs' ! m) \<le> y)"
    using e o(2,3) by simp
qed

lemma wheel_inv_tick: "wheel_inv T s \<Longrightarrow> ws_now s \<le> n \<Longrightarrow> wheel_inv T (s \<lparr> ws_now := n \<rparr>)"
  by (force simp: wheel_inv_def flight_ok_def)

lemma wheel_inv_insert:
  assumes inv: "wheel_inv T s" and e: "ws_now s \<le> e" and i: "i \<notin> set (bucket_ids (tw_levels (ws_w s)))"
  shows "\<exists>s'. wheel_do (AInsert i e) s = Some s' \<and> wheel_inv T s'"
proof -
  let ?w = "ws_w s" let ?lvs = "tw_levels (ws_w s)" let ?q = "tw_queue (ws_w s)" let ?F = "flight_entry ?lvs (ws_flight s)"
  define t where "t = \<lparr> tm_timerId = i, tm_expiration = e, tm_cancel = False, tm_interval = 0, tm_spec = '''', tm_isCron = False, tm_loop = False \<rparr>"
  define ts where "ts = gm_set (tw_store ?w) i t"
  have I: "\<not> tw_closed ?w" "wheel_ok (tw_store ?w) ?lvs (pq_entries (dq_pq ?q) + ?F)" "pq_inv (dq_pq ?q)"
    "flight_ok ?lvs (ws_now s) (ws_flight s)" "base_time ?lvs \<le> ws_now s" "base_tick ?lvs = T" "distinct (bucket_ids ?lvs)"
    "mset (ws_added s) = mset (bucket_ids ?lvs) + mset (map fst (ws_ran s)) + mset (ws_stopped s)"
    "\<forall>(i, e, n) \<in> set (ws_ran s). e < n + T"
    using inv unfolding wheel_inv_def by blast+
  have ok: "wheel_ok ts ?lvs (pq_entries (dq_pq ?q) + ?F)"
    unfolding wheel_ok_def
  proof (intro conjI)
    show "contents_ok ts ?lvs"
      by (rule contents_ok_store [of "tw_store ?w"]) (use I(2) i in \<open>auto simp: wheel_ok_def ts_def update_conv\<close>)
  qed (use I(2) in \<open>simp_all add: wheel_ok_def\<close>)
  have st: "gm_get ts i = Some t" "isActive t" "tm_timerId t = i" "tm_expiration t = e"
    by (simp_all add: ts_def t_def isActive_def update_conv)
  have w: "put_timer i t ?w = ?w \<lparr> tw_store := ts \<rparr>" by (simp add: put_timer_def ts_def)
  show ?thesis
  proof (cases "e < base_time ?lvs + base_tick ?lvs")
    case True
    have "wheel_add False t ?lvs ?q = Some (Inr (False, ?lvs, ?q))"
      using wheel_add_due [of ?lvs t ?q] True st(4) ok by (simp add: wheel_ok_def)
    then have "wheel_do (AInsert i e) s = Some (run_due [i] (s \<lparr> ws_added := ws_added s @ [i], ws_w := ?w \<lparr> tw_store := ts, tw_levels := ?lvs, tw_queue := ?q,
        tw_timers := List.insert i (tw_timers ?w) \<rparr> \<rparr>))"
      using e i I(1) st(1) by (simp add: t_def [symmetric] w wheel_insert_def)
    moreover have "e < ws_now s + T" using True I(5,6) by simp
    ultimately show ?thesis using I ok st(1,4)
      by (simp add: wheel_inv_def run_due_def)
  next
    case False
    then have reach: "base_time ?lvs + base_tick ?lvs \<le> tm_expiration t" using st(4) by simp
    have st': "gm_get ts (tm_timerId t) = Some t" using st(1,3) by simp
    obtain lvs' q' l j where a: "wheel_add False t ?lvs ?q = Some (Inr (True, lvs', q'))" "wheel_ok ts lvs' (pq_entries (dq_pq q') + ?F)"
      "pq_inv (dq_pq q')" "mset (bucket_ids lvs') = add_mset i (mset (bucket_ids ?lvs))" "length ?lvs \<le> length lvs'"
      "\<forall>m < length ?lvs. level_shape (lvs' ! m) = level_shape (?lvs ! m)"
      "timed lvs' = insert (e - e mod wl_tick (lvs' ! l), (l, j)) (timed ?lvs)" "l < length lvs'"
      using wheel_add_spec [OF ok I(3) st' st(2) reach] unfolding st(3,4) by blast
    have ne: "?lvs \<noteq> []" using ok by (simp add: wheel_ok_def)
    have b: "base_time lvs' = base_time ?lvs" "base_tick lvs' = base_tick ?lvs" using shape_base [OF ne a(6)] by simp_all
    have F: "flight_entry lvs' (ws_flight s) = ?F" using flight_entry_kept [OF I(4), of lvs'] a(7) by blast
    have fo: "flight_ok lvs' (ws_now s) (ws_flight s)" using flight_ok_insert [OF I(4) a(2) e a(5,6,7,8)] .
    have "distinct (bucket_ids lvs')"
      using a(4) I(7) i by (metis distinct.simps(2) mset.simps(2) mset_eq_imp_distinct_iff)
    moreover have "wheel_do (AInsert i e) s = Some (s \<lparr> ws_added := ws_added s @ [i], ws_w := ?w \<lparr> tw_store := ts, tw_levels := lvs', tw_queue := q',
        tw_timers := List.insert i (tw_timers ?w) \<rparr> \<rparr>)"
      using e i I(1) st(1) a(1) by (simp add: t_def [symmetric] w wheel_insert_def)
    ultimately show ?thesis using I a(2,3,4) b F fo by (simp add: wheel_inv_def)
  qed
qed

lemma wheel_inv_poll:
  assumes inv: "wheel_inv T s" and d: "wheel_do APoll s = Some s'"
  shows "wheel_inv T s' \<and> ws_flight s' \<noteq> None \<and> work 0 (tw_levels (ws_w s')) = work 0 (tw_levels (ws_w s)) \<and> ws_now s' = ws_now s"
proof -
  let ?lvs = "tw_levels (ws_w s)" let ?q = "tw_queue (ws_w s)"
  obtain it d q where p: "ws_flight s = None" "poll_peek (ws_now s) ?q = Inr ((Some it, d), q)"
      "s' = s \<lparr> ws_w := (ws_w s) \<lparr> tw_queue := q \<rparr>, ws_flight := Some (it_Value it) \<rparr>"
    using d by (auto split: if_splits sum.splits option.splits)
  have I: "wheel_ok (tw_store (ws_w s)) ?lvs (pq_entries (dq_pq ?q))" "pq_inv (dq_pq ?q)"
    using inv p(1) by (simp_all add: wheel_inv_def flight_entry_def)
  note lk = dq.look_some_least [OF I(2) p(2)]
  obtain l i where li: "it_Value it = (l, i)" by (cases "it_Value it")
  have ag: "count (pq_entries (dq_pq ?q)) x = of_bool (x \<in> timed ?lvs)" for x using I(1) unfolding wheel_ok_def agrees_def by blast
  have mem: "x \<in># pq_entries (dq_pq ?q) \<longleftrightarrow> x \<in> timed ?lvs" for x using ag [of x] by (simp add: count_greater_zero_iff [symmetric] del: count_greater_zero_iff)
  have "entry it \<in> timed ?lvs" using lk(2) mem [of "entry it"] by simp
  then have e: "position ?lvs l i" "it_Priority it = bk_expiration (bucket_at ?lvs l i)" "it_Priority it \<noteq> - 1"
    by (simp_all add: entry_def li timed_iff)
  have "it_Priority it - it_Priority it mod wl_tick (?lvs ! m) \<le> x" if t: "(x, (m, j)) \<in> timed ?lvs" for x m j
  proof -
    have "it_Priority it \<le> x" using lk(4) [of "(x, (m, j))"] mem [of "(x, (m, j))"] t by simp
    moreover have "m < length ?lvs" using t by (simp add: timed_iff position_def)
    then have "0 < wl_tick (?lvs ! m)" using chain_nth(1) [of ?lvs m] I(1) level_wf_pos by (simp add: wheel_ok_def)
    ultimately show ?thesis using pos_mod_sign [of "wl_tick (?lvs ! m)" "it_Priority it"] by linarith
  qed
  then have "flight_ok ?lvs (ws_now s) (Some (l, i))" using e lk(3) by (auto simp: flight_ok_def)
  moreover have "pq_entries (dq_pq q) + flight_entry ?lvs (Some (l, i)) = pq_entries (dq_pq ?q)"
    using lk(2) e(2) by (simp add: flight_entry_def entry_def li)
  ultimately show ?thesis using inv p lk(1) li I(1) by (simp add: wheel_inv_def)
qed

lemma wheel_inv_deliver:
  assumes inv: "wheel_inv T s" and f: "ws_flight s \<noteq> None"
  shows "\<exists>s'. wheel_do ADeliver s = Some s' \<and> wheel_inv T s' \<and> ws_flight s' = None \<and> ws_now s' = ws_now s
     \<and> work 0 (tw_levels (ws_w s')) < work 0 (tw_levels (ws_w s))"
proof -
  let ?w = "ws_w s" let ?lvs = "tw_levels (ws_w s)"
  obtain l i where li: "ws_flight s = Some (l, i)" using f by auto
  have I: "\<not> tw_closed ?w" "wheel_ok (tw_store ?w) ?lvs (pq_entries (dq_pq (tw_queue ?w)) + flight_entry ?lvs (Some (l, i)))"
    "pq_inv (dq_pq (tw_queue ?w))" "flight_ok ?lvs (ws_now s) (Some (l, i))" "base_time ?lvs \<le> ws_now s" "base_tick ?lvs = T"
    using inv li by (simp_all add: wheel_inv_def)
  obtain due lvs' q' where d: "deliver (ws_now s) (l, i) ?w = Some (Inr (due, ?w \<lparr> tw_levels := lvs', tw_queue := q' \<rparr>))"
    "wheel_ok (tw_store ?w) lvs' (pq_entries (dq_pq q'))" "pq_inv (dq_pq q')" "base_time lvs' \<le> ws_now s"
    "base_tick lvs' = base_tick ?lvs" "mset (bucket_ids lvs') + mset due = mset (bucket_ids ?lvs)"
    "\<forall>x \<in> set due. \<exists>t. gm_get (tw_store ?w) x = Some t \<and> tm_expiration t < ws_now s + base_tick ?lvs"
    "work 0 lvs' < work 0 ?lvs"
    using deliver_spec [OF I(2-5,1)] by blast
  let ?s' = "run_due due (s \<lparr> ws_w := ?w \<lparr> tw_levels := lvs', tw_queue := q' \<rparr>, ws_flight := None \<rparr>)"
  have "mset (bucket_ids ?lvs) = mset (bucket_ids lvs' @ due)" using d(6) by simp
  moreover have "distinct (bucket_ids ?lvs)" using inv by (simp add: wheel_inv_def)
  ultimately have "distinct (bucket_ids lvs' @ due)" by (metis mset_eq_imp_distinct_iff)
  then have dst: "distinct (bucket_ids lvs')" by simp
  have cons: "mset (ws_added s) = mset (bucket_ids lvs') + mset (map fst (ws_ran ?s')) + mset (ws_stopped s)"
  proof -
    have "mset (ws_added s) = mset (bucket_ids ?lvs) + mset (map fst (ws_ran s)) + mset (ws_stopped s)" using inv by (simp add: wheel_inv_def)
    also have "mset (bucket_ids ?lvs) = mset (bucket_ids lvs') + mset due" using d(6) by simp
    finally show ?thesis by (simp add: run_due_def comp_def)
  qed
  have "\<forall>(i, e, n) \<in> set (ws_ran ?s'). e < n + T"
    using inv d(7) I(6) by (fastforce simp: wheel_inv_def run_due_def)
  then have "wheel_inv T ?s'"
    using inv d(2-5) I(1,6) dst cons by (simp add: wheel_inv_def run_due_def flight_entry_def flight_ok_def)
  then show ?thesis using d(1,8) li by (simp add: run_due_def)
qed

lemma distinct_concatD: "distinct (concat xss) \<Longrightarrow> xs \<in> set xss \<Longrightarrow> distinct xs"
  by (simp add: distinct_concat_iff)

lemma bucket_ids_drop:
  assumes "distinct (bucket_ids lvs)"
  shows "bucket_ids (drop_everywhere i lvs) = removeAll i (bucket_ids lvs)"
proof -
  have d: "distinct (bk_timers b)" if "lv \<in> set lvs" "b \<in> set (wl_buckets lv)" for lv b
  proof -
    have "distinct (concat (map bk_timers (wl_buckets lv)))"
      using distinct_concatD [OF assms [unfolded bucket_ids_def], of "concat (map bk_timers (wl_buckets lv))"] that(1) by simp
    then show ?thesis using distinct_concatD that(2) by force
  qed
  have "concat (map (\<lambda>b. remove1 i (bk_timers b)) (wl_buckets lv)) = removeAll i (concat (map bk_timers (wl_buckets lv)))" if "lv \<in> set lvs" for lv
  proof -
    have "map (\<lambda>b. remove1 i (bk_timers b)) (wl_buckets lv) = map (\<lambda>b. removeAll i (bk_timers b)) (wl_buckets lv)"
      using d [OF that] by (auto intro!: distinct_remove1_removeAll)
    then have "concat (map (\<lambda>b. remove1 i (bk_timers b)) (wl_buckets lv)) = concat (map (\<lambda>b. removeAll i (bk_timers b)) (wl_buckets lv))"
      by (rule arg_cong)
    then show ?thesis by (simp add: removeAll_filter_not_eq filter_concat comp_def)
  qed
  then have "concat (map (\<lambda>lv. concat (map (\<lambda>b. remove1 i (bk_timers b)) (wl_buckets lv))) lvs)
      = concat (map (\<lambda>lv. removeAll i (concat (map bk_timers (wl_buckets lv)))) lvs)" by (intro arg_cong [of _ _ concat]) simp
  then show ?thesis
    by (simp add: bucket_ids_def drop_everywhere_def Bucket_Remove_def comp_def removeAll_filter_not_eq filter_concat)
qed

lemma wheel_inv_stop:
  assumes inv: "wheel_inv T s"
  shows "\<exists>s'. wheel_do (AStop i) s = Some s' \<and> wheel_inv T s'"
proof (cases "\<exists>t. gm_get (tw_store (ws_w s)) i = Some t \<and> \<not> tm_cancel t")
  case False
  then have "timer_stop i (ws_w s) = (False, ws_w s)" by (auto simp: timer_stop_def split: option.splits)
  then show ?thesis using inv by simp
next
  case True
  let ?w = "ws_w s" let ?lvs = "tw_levels (ws_w s)" let ?lvs' = "drop_everywhere i ?lvs"
  obtain t where t: "gm_get (tw_store ?w) i = Some t" "\<not> tm_cancel t" using True by blast
  define ts where "ts = gm_set (tw_store ?w) i (t \<lparr> tm_cancel := True \<rparr>)"
  have I: "wheel_ok (tw_store ?w) ?lvs (pq_entries (dq_pq (tw_queue ?w)) + flight_entry ?lvs (ws_flight s))" "distinct (bucket_ids ?lvs)"
    using inv by (simp_all add: wheel_inv_def)
  have sh: "map level_shape ?lvs' = map level_shape ?lvs" by (simp add: drop_everywhere_def level_shape_def)
  then have ps: "position ?lvs' = position ?lvs" by (rule position_shape)
  have at: "bucket_at ?lvs' l j = snd (Bucket_Remove i (bucket_at ?lvs l j))" if "position ?lvs l j" for l j
    using that by (simp add: position_def bucket_at_def drop_everywhere_def)
  have ex: "bk_expiration (bucket_at ?lvs' l j) = bk_expiration (bucket_at ?lvs l j)" if "position ?lvs l j" for l j
    using at [OF that] by (simp add: Bucket_Remove_def)
  have "(x, (l, j)) \<in> timed ?lvs' \<longleftrightarrow> (x, (l, j)) \<in> timed ?lvs" for x l j using ex by (auto simp: timed_iff ps)
  then have tm: "timed ?lvs' = timed ?lvs" by (intro set_eqI) (metis prod.exhaust)
  have ids: "bucket_ids ?lvs' = removeAll i (bucket_ids ?lvs)" using bucket_ids_drop I(2) .
  have "contents_ok (tw_store ?w) ?lvs'"
    unfolding contents_ok_def ps
  proof (intro allI impI)
    fix l j assume p: "position ?lvs l j"
    then have "bucket_ok (tw_store ?w) (?lvs ! l) j (bucket_at ?lvs l j)" using I(1) by (simp add: wheel_ok_def contents_ok_def)
    then have "bucket_ok (tw_store ?w) (?lvs ! l) j (bucket_at ?lvs' l j)"
      using at [OF p] by (auto simp: bucket_ok_def Bucket_Remove_def dest: notin_set_remove1 [rotated])
    moreover have "level_shape (?lvs' ! l) = level_shape (?lvs ! l)" using p shape_nth [OF sh, of l] by (simp add: position_def drop_everywhere_def)
    ultimately show "bucket_ok (tw_store ?w) (?lvs' ! l) j (bucket_at ?lvs' l j)" using bucket_ok_shape by blast
  qed
  then have co: "contents_ok ts ?lvs'"
  proof (rule contents_ok_store)
    fix x assume "x \<in> set (bucket_ids ?lvs')"
    then have "x \<noteq> i" using ids by auto
    then show "gm_get ts x = gm_get (tw_store ?w) x" by (simp add: ts_def update_conv)
  qed
  have st: "timer_stop i ?w = (i \<in> set (bucket_ids ?lvs), ?w \<lparr> tw_store := ts, tw_timers := removeAll i (tw_timers ?w), tw_levels := ?lvs' \<rparr>)"
    using t by (simp add: timer_stop_def put_timer_def ts_def)
  have ne: "?lvs' \<noteq> []" using I(1) by (auto simp: wheel_ok_def drop_everywhere_def)
  have bt: "base_time ?lvs' = base_time ?lvs" "base_tick ?lvs' = base_tick ?lvs"
    using shape_nth [OF sh, of 0] ne by (simp_all add: base_time_def base_tick_def level_shape_def)
  have fe: "flight_entry ?lvs' (ws_flight s) = flight_entry ?lvs (ws_flight s)"
    using flight_entry_kept [of ?lvs "ws_now s" "ws_flight s" ?lvs'] inv tm by (simp add: wheel_inv_def)
  have tick: "wl_tick (?lvs' ! m) = wl_tick (?lvs ! m)" if "position ?lvs m j" for m j
    using shape_nth [OF sh, of m] that by (simp add: level_shape_def position_def drop_everywhere_def)
  have fo: "flight_ok ?lvs' (ws_now s) (ws_flight s)"
    unfolding flight_ok_def tm ps
  proof (intro allI impI)
    fix l j assume f: "ws_flight s = Some (l, j)"
    have "flight_ok ?lvs (ws_now s) (ws_flight s)" using inv by (simp add: wheel_inv_def)
    then have o: "position ?lvs l j" "bk_expiration (bucket_at ?lvs l j) \<noteq> - 1 \<and> bk_expiration (bucket_at ?lvs l j) \<le> ws_now s
      \<and> (\<forall>e m j'. (e, (m, j')) \<in> timed ?lvs \<longrightarrow>
           bk_expiration (bucket_at ?lvs l j) - bk_expiration (bucket_at ?lvs l j) mod wl_tick (?lvs ! m) \<le> e)"
      using f unfolding flight_ok_def by blast+
    have "wl_tick (?lvs' ! m) = wl_tick (?lvs ! m)" if "(e, (m, j')) \<in> timed ?lvs" for e m j'
      using that tick [of m j'] by (simp add: timed_iff)
    then show "position ?lvs l j \<and> bk_expiration (bucket_at ?lvs' l j) \<noteq> - 1 \<and> bk_expiration (bucket_at ?lvs' l j) \<le> ws_now s
      \<and> (\<forall>e m j'. (e, (m, j')) \<in> timed ?lvs \<longrightarrow>
           bk_expiration (bucket_at ?lvs' l j) - bk_expiration (bucket_at ?lvs' l j) mod wl_tick (?lvs' ! m) \<le> e)"
      unfolding ex [OF o(1)] using o by (metis (no_types, lifting))
  qed
  have "wheel_ok ts ?lvs' (pq_entries (dq_pq (tw_queue ?w)) + flight_entry ?lvs' (ws_flight s))"
    using I(1) co ne chain_ok_shape [OF sh] tm fe by (simp add: wheel_ok_def agrees_def)
  moreover have "mset (bucket_ids ?lvs) = mset (bucket_ids ?lvs') + (if i \<in> set (bucket_ids ?lvs) then {#i#} else {#})"
    using ids distinct_remove1_removeAll [OF I(2), of i, symmetric] by (simp add: in_multiset_in_set)
  ultimately show ?thesis
    using inv st bt fo ids I(2) by (cases "i \<in> set (bucket_ids ?lvs)") (simp_all add: wheel_inv_def distinct_removeAll)
qed

lemma wheel_do_inv: "wheel_inv T s \<Longrightarrow> wheel_do a s = Some s' \<Longrightarrow> wheel_inv T s'"
proof (cases a)
  case (ATick n)
  assume "wheel_inv T s" "wheel_do a s = Some s'"
  then show ?thesis using ATick wheel_inv_tick by (auto split: if_splits)
next
  case (AInsert i e)
  assume a: "wheel_inv T s" "wheel_do a s = Some s'"
  then have "ws_now s \<le> e" "i \<notin> set (bucket_ids (tw_levels (ws_w s)))" using AInsert by (auto split: if_splits)
  then show ?thesis using wheel_inv_insert [OF a(1)] a(2) AInsert by fastforce
next
  case APoll
  assume "wheel_inv T s" "wheel_do a s = Some s'"
  then show ?thesis using APoll wheel_inv_poll by blast
next
  case ADeliver
  assume a: "wheel_inv T s" "wheel_do a s = Some s'"
  then have "ws_flight s \<noteq> None" using ADeliver by (auto split: option.splits)
  then show ?thesis using wheel_inv_deliver [OF a(1)] a(2) ADeliver by fastforce
next
  case (AStop i)
  assume a: "wheel_inv T s" "wheel_do a s = Some s'"
  then show ?thesis using wheel_inv_stop [OF a(1), of i] AStop by auto
qed

lemma wheel_run_inv: "wheel_inv T s \<Longrightarrow> wheel_run as s = Some s' \<Longrightarrow> wheel_inv T s'"
proof (induction as arbitrary: s)
  case (Cons a as)
  then obtain s1 where "wheel_do a s = Some s1" "wheel_run as s1 = Some s'" by (auto simp: bind_eq_Some_conv)
  then show ?case using Cons wheel_do_inv by blast
qed simp

lemma wheel_start_inv:
  assumes "0 \<le> nowNs" "wheelSize \<noteq> 1"
  shows "wheel_inv (max 1 (tick div 1000000)) (wheel_start nowNs tick wheelSize)"
proof -
  define tk where "tk = max 1 (tick div 1000000)"
  define sz where "sz = (if wheelSize \<le> 0 then 20 else wheelSize)"
  define lv where "lv = newTimingWheel tk sz (timeToMs nowNs)"
  have tk: "(if go_div tick 1000000 \<le> 0 then 1 else go_div tick 1000000) = tk"
  proof (cases "0 \<le> tick")
    case True
    then show ?thesis by (simp add: tk_def go_div_nonneg max_def)
  next
    case False
    then have "go_div tick 1000000 \<le> 0" by (simp add: go_div_def sgn_if pos_imp_zdiv_nonneg_iff)
    moreover have "tick div 1000000 < 0" using False by (simp add: pos_imp_zdiv_neg_iff)
    ultimately show ?thesis by (simp add: tk_def)
  qed
  have n: "0 \<le> timeToMs nowNs" using assms(1) by (simp add: timeToMs_def go_div_nonneg pos_imp_zdiv_nonneg_iff)
  have w: "ws_w (wheel_start nowNs tick wheelSize) = \<lparr> tw_levels = [lv], tw_queue = DelayQueue_New (nat sz), tw_store = [],
      tw_timers = [], tw_closed = False, tw_timerIdSeed = 0, tw_timeOffsetNs = 0 \<rparr>"
    by (simp add: wheel_start_def NewTimingWheel_def Let_def tk sz_def lv_def)
  have s: "2 \<le> sz" "1 \<le> tk" using assms(2) by (auto simp: sz_def tk_def)
  have lv: "level_wf lv" "wl_currentTime lv \<le> timeToMs nowNs" "wl_tick lv = tk" "fresh_level lv"
    using s n zmod_le_nonneg_dividend [OF n, of tk]
    by (auto simp: lv_def newTimingWheel_def level_wf_def truncate_nonneg fresh_level_def)
  have "timed [lv] = {}" using fresh_levels_keep(2) [of "[lv]" "[]"] lv(4) by (simp add: timed_def position_def)
  moreover have "contents_ok [] [lv]" using fresh_levels_keep(1) [of "[lv]" "[]" "[]"] lv(4) by (simp add: contents_ok_def position_def)
  moreover have "bucket_ids [lv] = []" using fresh_levels_keep(3) [of "[lv]" "[]"] lv(4) by (simp add: bucket_ids_def)
  moreover have "pq_inv (dq_pq (DelayQueue_New (nat sz) :: bucket_ref delay_queue))"
    "pq_entries (dq_pq (DelayQueue_New (nat sz) :: bucket_ref delay_queue)) = {#}"
    using s by (simp_all add: DelayQueue_New_def newPriorityQueue_def pq_inv_def heap_order_def pq_entries_def)
  ultimately show ?thesis
    using lv w unfolding wheel_inv_def tk_def [symmetric]
    by (simp add: wheel_start_def wheel_ok_def agrees_def flight_entry_def flight_ok_def base_time_def base_tick_def)
qed

text \<open>When the poller finds nothing due, no waiting timer is due.\<close>

lemma quiet_waiting:
  assumes inv: "wheel_inv T s" and f: "ws_flight s = None" and p: "wheel_do APoll s = None"
    and x: "x \<in> set (bucket_ids (tw_levels (ws_w s)))"
  shows "\<exists>t. gm_get (tw_store (ws_w s)) x = Some t \<and> ws_now s < tm_expiration t"
proof -
  let ?lvs = "tw_levels (ws_w s)" let ?q = "tw_queue (ws_w s)"
  have I: "wheel_ok (tw_store (ws_w s)) ?lvs (pq_entries (dq_pq ?q))" "pq_inv (dq_pq ?q)"
    using inv f by (simp_all add: wheel_inv_def flight_entry_def)
  obtain l i where li: "position ?lvs l i" "x \<in> set (bk_timers (bucket_at ?lvs l i))" using bucket_ids_where [OF x] by blast
  let ?e = "bk_expiration (bucket_at ?lvs l i)"
  have l: "l < length ?lvs" using li(1) by (simp add: position_def)
  have wf: "level_wf (?lvs ! l)" using chain_nth(1) [OF _ l] I(1) by (simp add: wheel_ok_def)
  have "bucket_ok (tw_store (ws_w s)) (?lvs ! l) i (bucket_at ?lvs l i)" using I(1) li(1) by (simp add: wheel_ok_def contents_ok_def)
  then obtain t where t: "gm_get (tw_store (ws_w s)) x = Some t" "tm_expiration t - tm_expiration t mod wl_tick (?lvs ! l) = ?e" "fits (?lvs ! l) ?e"
    using li(2) unfolding bucket_ok_def by fastforce
  have "?e \<noteq> - 1" using t(3) wf by (auto simp: fits_def level_wf_def)
  then have "(?e, (l, i)) \<in> timed ?lvs" using li(1) by (simp add: timed_iff)
  moreover have "count (pq_entries (dq_pq ?q)) (?e, (l, i)) = of_bool ((?e, (l, i)) \<in> timed ?lvs)"
    using I(1) unfolding wheel_ok_def agrees_def by blast
  ultimately have m: "(?e, (l, i)) \<in># pq_entries (dq_pq ?q)" by (metis count_greater_zero_iff of_bool_eq(2) zero_less_one)
  obtain r d q' where lk: "poll_peek (ws_now s) ?q = Inr ((r, d), q')" using dq.look_least [OF I(2)] by blast
  then have "r = None" using p f by (cases r) auto
  then have "ws_now s < ?e" using dq.look_none_not_due [OF I(2) _ m] lk by auto
  moreover have "?e \<le> tm_expiration t" using t(2) pos_mod_sign [of "wl_tick (?lvs ! l)" "tm_expiration t"] level_wf_pos [OF wf] by linarith
  ultimately show ?thesis using t(1) by auto
qed

text \<open>Rounds of the poller and the consumer come to an end.\<close>


lemma rounds_end:
  assumes "wheel_inv T s" "ws_flight s = None"
  shows "\<exists>n s'. wheel_run (concat (replicate n [APoll, ADeliver])) s = Some s' \<and> wheel_inv T s' \<and> ws_flight s' = None
     \<and> ws_now s' = ws_now s \<and> wheel_do APoll s' = None"
  using assms
proof (induction "work 0 (tw_levels (ws_w s))" arbitrary: s rule: less_induct)
  case less
  show ?case
  proof (cases "wheel_do APoll s")
    case None
    then show ?thesis using less.prems by (intro exI [of _ 0] exI [of _ s]) simp
  next
    case (Some s1)
    have 1: "wheel_inv T s1" "ws_flight s1 \<noteq> None" "work 0 (tw_levels (ws_w s1)) = work 0 (tw_levels (ws_w s))" "ws_now s1 = ws_now s"
      using wheel_inv_poll [OF less.prems(1) Some] by auto
    obtain s2 where 2: "wheel_do ADeliver s1 = Some s2" "wheel_inv T s2" "ws_flight s2 = None" "ws_now s2 = ws_now s1"
      "work 0 (tw_levels (ws_w s2)) < work 0 (tw_levels (ws_w s1))"
      using wheel_inv_deliver [OF 1(1,2)] by blast
    obtain n s' where r: "wheel_run (concat (replicate n [APoll, ADeliver])) s2 = Some s'" "wheel_inv T s'" "ws_flight s' = None"
      "ws_now s' = ws_now s2" "wheel_do APoll s' = None"
      using less.hyps [of s2] 1(3) 2 by auto
    have "wheel_run (concat (replicate (Suc n) [APoll, ADeliver])) s = Some s'" using Some 2(1) r(1) by simp
    then show ?thesis using r 1(4) 2(4) by (intro exI [of _ "Suc n"] exI [of _ s']) simp
  qed
qed

text \<open>Rounds add and stop nothing, leave the timers themselves alone, and stamp what they run with its expiration and the time.\<close>

definition stamped :: "wheel_sys \<Rightarrow> u64 \<times> int \<times> int \<Rightarrow> bool" where
  "stamped s x \<longleftrightarrow> x = (fst x, (case gm_get (tw_store (ws_w s)) (fst x) of None \<Rightarrow> 0 | Some t \<Rightarrow> tm_expiration t), ws_now s)"

definition round_frame :: "wheel_sys \<Rightarrow> wheel_sys \<Rightarrow> bool" where
  "round_frame s s' \<longleftrightarrow> ws_added s' = ws_added s \<and> ws_stopped s' = ws_stopped s \<and> tw_store (ws_w s') = tw_store (ws_w s)
     \<and> ws_now s' = ws_now s \<and> (\<exists>ran. ws_ran s' = ws_ran s @ ran \<and> (\<forall>x \<in> set ran. stamped s x))"

lemma round_frame_trans:
  assumes "round_frame s s'" "round_frame s' s''"
  shows "round_frame s s''"
proof -
  obtain r1 r2 where "ws_ran s' = ws_ran s @ r1" "\<forall>x \<in> set r1. stamped s x" "ws_ran s'' = ws_ran s' @ r2" "\<forall>x \<in> set r2. stamped s' x"
    using assms by (auto simp: round_frame_def)
  moreover have "stamped s' = stamped s" using assms(1) by (simp add: round_frame_def stamped_def fun_eq_iff)
  ultimately show ?thesis using assms by (fastforce simp: round_frame_def)
qed

lemma deliver_store: "deliver n ref w = Some (Inr (due, w')) \<Longrightarrow> tw_store w' = tw_store w"
  by (auto simp: deliver_def Let_def and_then_eq_Inr split: prod.splits if_splits)

lemma poll_frame: "wheel_do APoll s = Some s' \<Longrightarrow> round_frame s s'"
  by (auto simp: round_frame_def split: if_splits sum.splits prod.splits option.splits)

lemma deliver_frame: "wheel_do ADeliver s = Some s' \<Longrightarrow> round_frame s s'"
proof -
  assume step: "wheel_do ADeliver s = Some s'"
  then obtain ref y where y: "ws_flight s = Some ref" "deliver (ws_now s) ref (ws_w s) = Some y"
    by (auto simp: bind_eq_Some_conv split: option.splits)
  then obtain due w' where d: "deliver (ws_now s) ref (ws_w s) = Some (Inr (due, w'))" "s' = run_due due (s \<lparr> ws_w := w', ws_flight := None \<rparr>)"
    using step by (cases y) (auto split: prod.splits)
  show ?thesis using deliver_store [OF d(1)] by (auto simp: d(2) round_frame_def run_due_def stamped_def)
qed

lemma rounds_frame0: "wheel_run (concat (replicate n [APoll, ADeliver])) s = Some s' \<Longrightarrow> round_frame s s'"
proof (induction n arbitrary: s)
  case 0
  then show ?case by (simp add: round_frame_def)
next
  case (Suc n)
  obtain s1 where 1: "wheel_do APoll s = Some s1" "wheel_run (ADeliver # concat (replicate n [APoll, ADeliver])) s1 = Some s'"
    using Suc.prems by (auto simp: bind_eq_Some_conv simp del: wheel_do.simps)
  obtain s2 where 2: "wheel_do ADeliver s1 = Some s2" "wheel_run (concat (replicate n [APoll, ADeliver])) s2 = Some s'"
    using 1(2) by (auto simp: bind_eq_Some_conv simp del: wheel_do.simps)
  show ?case using round_frame_trans [OF poll_frame [OF 1(1)] round_frame_trans [OF deliver_frame [OF 2(1)] Suc.IH [OF 2(2)]]] .
qed

lemma rounds_frame:
  assumes "wheel_run (concat (replicate n [APoll, ADeliver])) s = Some s'"
  obtains ran where "ws_ran s' = ws_ran s @ ran" "ws_added s' = ws_added s" "ws_stopped s' = ws_stopped s"
    "tw_store (ws_w s') = tw_store (ws_w s)" "\<forall>x \<in> set ran. stamped s x"
  using rounds_frame0 [OF assms] by (auto simp: round_frame_def)

subsection \<open>A wheel of one slot\<close>

definition one_slot :: "bool \<Rightarrow> timer \<Rightarrow> wheel_level \<Rightarrow> wheel_level list \<Rightarrow> bool" where
  "one_slot cl t lv upper \<longleftrightarrow> \<not> cl \<and> upper = [] \<and> wl_wheelSize lv = 1 \<and> wl_interval lv = wl_tick lv \<and> 0 < wl_tick lv
     \<and> 0 \<le> wl_currentTime lv \<and> wl_tick lv dvd wl_currentTime lv \<and> wl_currentTime lv + wl_tick lv \<le> tm_expiration t"

lemma one_slot_next:
  "one_slot cl t lv upper \<Longrightarrow> one_slot cl t (newTimingWheel (wl_interval lv) (wl_wheelSize lv) (wl_currentTime lv)) []"
  by (auto simp: one_slot_def newTimingWheel_def truncate_nonneg)

lemma one_slot_no_result: "addInternal cl t k lv upper q = Some y \<Longrightarrow> \<not> one_slot cl t lv upper"
proof (rule addInternal.raw_induct [where P = "\<lambda>cl t k lv upper q y. \<not> one_slot cl t lv upper"])
  fix f cl t k lv upper q y
  assume IH: "\<And>cl t k lv upper q y. f cl t k lv upper q = Some y \<Longrightarrow> \<not> one_slot cl t lv upper"
    and b: "(if cl then Some (Inr (False, lv # upper, q))
      else if tm_expiration t < wl_currentTime lv + wl_tick lv then Some (Inr (False, lv # upper, q))
      else if tm_expiration t < wl_currentTime lv + wl_interval lv
      then Some (and_then (insert_bucket t k lv q) (\<lambda>(lv', q'). Inr (True, lv' # upper, q')))
      else (case upper of
              [] \<Rightarrow> Option.bind (f cl t (Suc k)
                      (newTimingWheel (wl_interval lv) (wl_wheelSize lv) (wl_currentTime lv)) [] q) (\<lambda>r. Some (below lv r))
            | lv' # upper' \<Rightarrow> Option.bind (f cl t (Suc k) lv' upper' q) (\<lambda>r. Some (below lv r)))) = Some y"
  show "\<not> one_slot cl t lv upper"
  proof
    assume o: "one_slot cl t lv upper"
    then obtain r where "f cl t (Suc k) (newTimingWheel (wl_interval lv) (wl_wheelSize lv) (wl_currentTime lv)) [] q = Some r"
      using b by (auto simp: one_slot_def bind_eq_Some_conv)
    then show False using IH one_slot_next [OF o] by blast
  qed
qed

subsection \<open>Looks and deliveries at a later time\<close>

lemma poll_peek_later:
  "poll_peek m q = Inr ((Some it, d), q') \<Longrightarrow> m \<le> n \<Longrightarrow> poll_peek n q = Inr ((Some it, d), q')"
  by (auto simp: poll_peek_def PeekAndShift_def Let_def split: if_splits)

lemma deliver_later:
  "bk_expiration (wl_buckets (tw_levels w ! k) ! i) \<le> m \<Longrightarrow> m \<le> n \<Longrightarrow> deliver n (k, i) w = deliver m (k, i) w"
  by (simp add: deliver_def Let_def)

definition polled_time :: "wheel_sys \<Rightarrow> int option" where
  "polled_time s = (case poll_peek (ws_now s) (tw_queue (ws_w s)) of
     Inr ((Some it, _), _) \<Rightarrow> (case it_Value it of (k, i) \<Rightarrow> Some (bk_expiration (wl_buckets (tw_levels (ws_w s) ! k) ! i)))
   | _ \<Rightarrow> None)"

lemma later_round:
  assumes "wheel_run [APoll, ADeliver] s = Some s" "ws_flight s = None" "polled_time s = Some e" "e \<le> ws_now s"
    and "ws_now s \<le> m" "m \<le> n"
  shows "wheel_run [ATick n, APoll, ADeliver] (s \<lparr> ws_now := m \<rparr>) = Some (s \<lparr> ws_now := n \<rparr>)"
proof -
  let ?q = "tw_queue (ws_w s)"
  obtain s1 where p: "wheel_do APoll s = Some s1" "wheel_do ADeliver s1 = Some s" using assms(1) by (auto simp: bind_eq_Some_conv)
  obtain it d q where l: "poll_peek (ws_now s) ?q = Inr ((Some it, d), q)"
    and s1: "s1 = s \<lparr> ws_w := (ws_w s) \<lparr> tw_queue := q \<rparr>, ws_flight := Some (it_Value it) \<rparr>"
    using p(1) by (auto split: if_splits sum.splits option.splits)
  obtain k i where ki: "it_Value it = (k, i)" by (cases "it_Value it")
  let ?w1 = "(ws_w s) \<lparr> tw_queue := q \<rparr>"
  have f1: "ws_flight s1 = Some (k, i)" "ws_now s1 = ws_now s" "ws_w s1 = ?w1" by (simp_all add: s1 ki)
  obtain due w where dl: "deliver (ws_now s) (k, i) ?w1 = Some (Inr (due, w))"
    and r: "run_due due (s1 \<lparr> ws_w := w, ws_flight := None \<rparr>) = s"
  proof -
    obtain y where "deliver (ws_now s) (k, i) ?w1 = Some y"
      "(case y of Inl p \<Rightarrow> None | Inr (due, w') \<Rightarrow> Some (run_due due (s1 \<lparr> ws_w := w', ws_flight := None \<rparr>))) = Some s"
      using p(2) f1 unfolding wheel_do.simps by (auto simp: bind_eq_Some_conv)
    then show ?thesis using that by (cases y) auto
  qed
  have "length (ws_ran s) + length due = length (ws_ran s)"
    using arg_cong [OF r, of "\<lambda>s. length (ws_ran s)"] s1 by (simp add: run_due_def)
  then have due: "due = []" by simp
  have w: "w = ws_w s" using arg_cong [OF r, of ws_w] by (simp add: run_due_def)
  have "bk_expiration (wl_buckets (tw_levels ?w1 ! k) ! i) \<le> ws_now s" using assms(3,4) l ki by (simp add: polled_time_def)
  then have "deliver n (k, i) ?w1 = Some (Inr ([], ws_w s))"
    using deliver_later [of ?w1 k i "ws_now s" n] dl due w assms(5,6) by simp
  moreover have "poll_peek n ?q = Inr ((Some it, d), q)" using poll_peek_later [OF l] assms(5,6) by simp
  moreover have "s \<lparr> ws_now := n, ws_w := ws_w s, ws_flight := None \<rparr> = s \<lparr> ws_now := n \<rparr>" using assms(2) by (cases s) simp
  ultimately show ?thesis using assms(2,6) ki by (simp add: run_due_def)
qed

definition shifted_example :: "wheel_sys option" where
  "shifted_example = Option.bind (wheel_run [AInsert 1 3990, AInsert 2 7990, ATick 3990, APoll, ADeliver, APoll, ADeliver] (wheel_start 0 10000000 20))
     (\<lambda>s. Option.bind (SetTimeOffset (\<lambda>_ _. None) 15000000 (ws_w s))
        (\<lambda>r. case r of Inr ([], w) \<Rightarrow> Some (s \<lparr> ws_w := w, ws_now := 4005 \<rparr>) | _ \<Rightarrow> None))"

text \<open>One round at that time gives the same state again.\<close>

lemma shifted_example_round:
  "(case shifted_example of None \<Rightarrow> False
    | Some s \<Rightarrow> wheel_run [APoll, ADeliver] s = Some s \<and> ws_flight s = None \<and> ws_now s = 4005 \<and> ws_ran s = [(1, 3990, 3990)]
        \<and> polled_time s = Some 4000 \<and> bucket_ids (tw_levels (ws_w s)) = [2])"
  by code_simp

declare wheel_do.simps [simp del]

lemma wheel_run_append: "wheel_run (as @ bs) s = Option.bind (wheel_run as s) (wheel_run bs)"
proof (induction as arbitrary: s)
  case (Cons a as)
  then show ?case by (cases "wheel_do a s") simp_all
qed simp

section \<open>Properties\<close>


lemma wheel_example_run:
  "(case wheel_run [AInsert 1 250, AInsert 2 9000, ATick 260, APoll, ADeliver, APoll, ADeliver] (wheel_start 0 10000000 20) of
      None \<Rightarrow> False
    | Some s \<Rightarrow> ws_ran s = [(1, 250, 260)] \<and> ws_flight s = None \<and> wheel_do APoll s = None \<and> bucket_ids (tw_levels (ws_w s)) = [2] \<and> ws_now s = 260)"
  by code_simp




text \<open>
  A wheel of one slot, which \<open>NewTimingWheel\<close> accepts, cannot hold a timer: the interval of every
  overflow wheel equals the tick of the base, so inserting a timer that is not yet due creates
  overflow wheels without end.
\<close>

theorem one_slot_wheel_diverges:
  assumes "0 \<le> nowNs" "timeToMs nowNs + max 1 (tick div 1000000) \<le> tm_expiration t"
  shows "wheel_add False t (tw_levels (NewTimingWheel nowNs tick 1)) q = None"
proof -
  let ?w = "NewTimingWheel nowNs tick 1"
  obtain lv where lv: "tw_levels ?w = [lv]" "wl_wheelSize lv = 1" "wl_interval lv = wl_tick lv" "0 < wl_tick lv"
    "wl_currentTime lv = truncate_ms (timeToMs nowNs) (wl_tick lv)" "wl_tick lv \<le> max 1 (tick div 1000000)"
  proof -
    have "(if go_div tick 1000000 \<le> 0 then 1 else go_div tick 1000000) \<le> max 1 (tick div 1000000)"
      by (cases "0 \<le> tick") (auto simp: go_div_nonneg, simp add: go_div_def sgn_if)
    then show ?thesis using that by (auto simp: NewTimingWheel_def newTimingWheel_def Let_def)
  qed
  have n: "0 \<le> timeToMs nowNs" using assms(1) by (simp add: timeToMs_def go_div_nonneg pos_imp_zdiv_nonneg_iff)
  have c: "wl_currentTime lv = timeToMs nowNs - timeToMs nowNs mod wl_tick lv" using lv(4,5) n by (simp add: truncate_nonneg)
  have "wl_currentTime lv + wl_tick lv \<le> tm_expiration t"
    using c lv(6) assms(2) pos_mod_sign [OF lv(4), of "timeToMs nowNs"] by linarith
  then have "one_slot False t lv []"
    using lv(1-4) c zmod_le_nonneg_dividend [OF n, of "wl_tick lv"] by (simp add: one_slot_def)
  then show ?thesis using one_slot_no_result [of False t 0 lv "[]" q] lv(1) by (cases "addInternal False t 0 lv [] q") (auto simp: wheel_add_def)
qed

theorem one_slot_wheel_diverges_witness:
  "wheel_add False \<lparr> tm_timerId = 1, tm_expiration = 50, tm_cancel = False, tm_interval = 0, tm_spec = '''', tm_isCron = False, tm_loop = False \<rparr>
     (tw_levels (NewTimingWheel 0 10000000 1)) (DelayQueue_New 1) = None"
  by (rule one_slot_wheel_diverges) (simp_all add: timeToMs_def go_div_def)

text \<open>
  Shifting the time can hang the wheel. A wheel of 10 ms and 20 slots has run a timer due at 3990
  and holds one due at 7990; the time is shifted by 15 ms. The shift moves the clock of each level on
  its own, so the clocks of base and overflow wheel no longer agree, and every round of poller and
  consumer puts the timer back into the bucket it came from, which is due at once. The state stays the
  same in every round, at whatever later times they happen: the timer due at 7990 never runs, and no
  other bucket can be served.
\<close>

theorem SetTimeOffset_livelock:
  assumes "sorted (4005 # ns)"
  shows "\<exists>s. shifted_example = Some s
     \<and> wheel_run (concat (map (\<lambda>n. [ATick n, APoll, ADeliver]) ns)) s = Some (s \<lparr> ws_now := last (4005 # ns) \<rparr>)
     \<and> ws_ran s = [(1, 3990, 3990)] \<and> bucket_ids (tw_levels (ws_w s)) = [2]"
proof -
  obtain s where s: "shifted_example = Some s" "wheel_run [APoll, ADeliver] s = Some s" "ws_flight s = None" "ws_now s = 4005"
    "ws_ran s = [(1, 3990, 3990)]" "bucket_ids (tw_levels (ws_w s)) = [2]" "polled_time s = Some 4000"
    using shifted_example_round by (auto split: option.splits)
  have round: "wheel_run [ATick n, APoll, ADeliver] (s \<lparr> ws_now := m \<rparr>) = Some (s \<lparr> ws_now := n \<rparr>)" if "4005 \<le> m" "m \<le> n" for m n
    using later_round [OF s(2,3,7)] s(4) that by simp
  have "wheel_run (concat (map (\<lambda>n. [ATick n, APoll, ADeliver]) ns)) (s \<lparr> ws_now := m \<rparr>) = Some (s \<lparr> ws_now := last (m # ns) \<rparr>)"
    if "sorted (m # ns)" "4005 \<le> m" for m
    using that
  proof (induction ns arbitrary: m)
    case (Cons n ns)
    have "wheel_run (concat (map (\<lambda>n. [ATick n, APoll, ADeliver]) (n # ns))) (s \<lparr> ws_now := m \<rparr>)
        = Option.bind (wheel_run [ATick n, APoll, ADeliver] (s \<lparr> ws_now := m \<rparr>)) (wheel_run (concat (map (\<lambda>n. [ATick n, APoll, ADeliver]) ns)))"
      using wheel_run_append [of "[ATick n, APoll, ADeliver]"] by simp
    also have "\<dots> = wheel_run (concat (map (\<lambda>n. [ATick n, APoll, ADeliver]) ns)) (s \<lparr> ws_now := n \<rparr>)"
      using round [of m n] Cons.prems by simp
    also have "\<dots> = Some (s \<lparr> ws_now := last (n # ns) \<rparr>)" using Cons by simp
    finally show ?case by simp
  qed simp
  moreover have "s \<lparr> ws_now := 4005 \<rparr> = s" using s(4) by simp
  ultimately show ?thesis using s assms by (metis order_refl)
qed

theorem SetTimeOffset_livelock_witness:
  "\<exists>s. shifted_example = Some s
     \<and> wheel_run [ATick 8000, APoll, ADeliver, ATick 100000, APoll, ADeliver] s = Some (s \<lparr> ws_now := 100000 \<rparr>)
     \<and> ws_ran s = [(1, 3990, 3990)]"
  using SetTimeOffset_livelock [of "[8000, 100000]"] by auto

end
