(* ===== verification/Circuit_Breaker.thy ===== *)
theory Circuit_Breaker
  imports Float64
begin

text \<open>
  The circuit breaker of a pooled connection, \<open>engine/pkg/rpc/client/pool/circuit_breaker.go\<close>. Its
  methods take the lock for their whole body, so each is one step, except \<open>CanCall\<close>; \<open>now\<close> is the time that \<open>time.Now\<close> returns in it, in nanoseconds.
  The zero time is 0. The failure rate is the rounded quotient of the counters.
\<close>

section \<open>Definitions\<close>

datatype circuit_state = CircuitClosed | CircuitOpen | CircuitHalfOpen

record circuit_breaker_config =
  cc_FailureThreshold :: int
  cc_FailureRate :: rat
  cc_RecoveryTimeout :: int
  cc_MinRequestThreshold :: int
  cc_HalfOpenMaxCalls :: int

definition DefaultCircuitBreakerConfig :: circuit_breaker_config where
  "DefaultCircuitBreakerConfig =
     \<lparr> cc_FailureThreshold = 5, cc_FailureRate = 1 / 2, cc_RecoveryTimeout = 30 * 1000000000,
       cc_MinRequestThreshold = 10, cc_HalfOpenMaxCalls = 3 \<rparr>"

record circuit_breaker_metrics =
  cm_TotalRequests :: int
  cm_FailedRequests :: int
  cm_SuccessRequests :: int
  cm_LastFailureTime :: int
  cm_LastSuccessTime :: int
  cm_StateChanges :: int
  cm_LastStateChange :: int
  cm_HalfOpenCalls :: int

definition zero_metrics :: circuit_breaker_metrics where
  "zero_metrics = \<lparr> cm_TotalRequests = 0, cm_FailedRequests = 0, cm_SuccessRequests = 0, cm_LastFailureTime = 0,
     cm_LastSuccessTime = 0, cm_StateChanges = 0, cm_LastStateChange = 0, cm_HalfOpenCalls = 0 \<rparr>"

record circuit_breaker =
  cb_config :: circuit_breaker_config
  cb_state :: circuit_state
  cb_metrics :: circuit_breaker_metrics
  cb_windowStart :: int
  cb_windowDuration :: int

definition NewCircuitBreaker :: "circuit_breaker_config option \<Rightarrow> int \<Rightarrow> circuit_breaker" where
  "NewCircuitBreaker config now =
     \<lparr> cb_config = (case config of None \<Rightarrow> DefaultCircuitBreakerConfig | Some c \<Rightarrow> c), cb_state = CircuitClosed,
       cb_metrics = zero_metrics, cb_windowStart = now, cb_windowDuration = 60 * 1000000000 \<rparr>"

definition change_state :: "circuit_state \<Rightarrow> int \<Rightarrow> circuit_breaker \<Rightarrow> circuit_breaker" where
  "change_state st now cb = cb \<lparr> cb_state := st,
     cb_metrics := (cb_metrics cb) \<lparr> cm_StateChanges := cm_StateChanges (cb_metrics cb) + 1, cm_LastStateChange := now \<rparr> \<rparr>"

text \<open>
  \<open>CanCall\<close> is three critical sections: the switch under the read lock (None when it goes on to the write
  lock), the change to half-open with its second check under the write lock, and the answer read under
  the read lock again. Other calls may come between them.
\<close>

definition can_read :: "int \<Rightarrow> circuit_breaker \<Rightarrow> bool option" where
  "can_read now cb =
     (case cb_state cb of
        CircuitClosed \<Rightarrow> Some True
      | CircuitOpen \<Rightarrow>
          if now - cm_LastFailureTime (cb_metrics cb) > cc_RecoveryTimeout (cb_config cb) then None else Some False
      | CircuitHalfOpen \<Rightarrow> Some (cm_HalfOpenCalls (cb_metrics cb) < cc_HalfOpenMaxCalls (cb_config cb)))"

definition can_upgrade :: "int \<Rightarrow> circuit_breaker \<Rightarrow> circuit_breaker" where
  "can_upgrade now cb =
     (if cb_state cb = CircuitOpen \<and> now - cm_LastFailureTime (cb_metrics cb) > cc_RecoveryTimeout (cb_config cb)
      then change_state CircuitHalfOpen now (cb \<lparr> cb_metrics := (cb_metrics cb) \<lparr> cm_HalfOpenCalls := 0 \<rparr> \<rparr>)
      else cb)"

definition can_answer :: "circuit_breaker \<Rightarrow> bool" where
  "can_answer cb \<longleftrightarrow> cb_state cb = CircuitHalfOpen"

definition CanCall :: "int \<Rightarrow> circuit_breaker \<Rightarrow> bool \<times> circuit_breaker" where
  "CanCall now cb =
     (case can_read now cb of
        Some b \<Rightarrow> (b, cb)
      | None \<Rightarrow> let cb1 = can_upgrade now cb in (can_answer cb1, cb1))"

definition RecordSuccess :: "int \<Rightarrow> circuit_breaker \<Rightarrow> circuit_breaker" where
  "RecordSuccess now cb =
     (let m = cb_metrics cb;
          m1 = m \<lparr> cm_TotalRequests := cm_TotalRequests m + 1, cm_SuccessRequests := cm_SuccessRequests m + 1, cm_LastSuccessTime := now \<rparr>
      in if cb_state cb = CircuitHalfOpen
         then let cb2 = cb \<lparr> cb_metrics := m1 \<lparr> cm_HalfOpenCalls := cm_HalfOpenCalls m + 1 \<rparr> \<rparr>
              in if cm_HalfOpenCalls m + 1 \<ge> cc_HalfOpenMaxCalls (cb_config cb) then change_state CircuitClosed now cb2 else cb2
         else cb \<lparr> cb_metrics := m1 \<rparr>)"

definition tripCircuit :: "int \<Rightarrow> circuit_breaker \<Rightarrow> circuit_breaker" where
  "tripCircuit now cb = (if cb_state cb \<noteq> CircuitOpen then change_state CircuitOpen now cb else cb)"

text \<open>The comparison of the \<open>float64\<close> quotient; the quotient of two zeros is not a number and compares false.\<close>

definition rate_reached :: "int \<Rightarrow> int \<Rightarrow> rat \<Rightarrow> bool" where
  "rate_reached failedRequests totalRequests r \<longleftrightarrow>
     (if totalRequests = 0 then failedRequests \<noteq> 0 else fl64 (of_int failedRequests / of_int totalRequests) \<ge> r)"

definition checkAndTripCircuit :: "int \<Rightarrow> circuit_breaker \<Rightarrow> circuit_breaker" where
  "checkAndTripCircuit now cb =
     (let cb1 = (if now - cb_windowStart cb > cb_windowDuration cb
                 then cb \<lparr> cb_windowStart := now,
                           cb_metrics := (cb_metrics cb) \<lparr> cm_TotalRequests := 0, cm_FailedRequests := 0, cm_SuccessRequests := 0 \<rparr> \<rparr>
                 else cb);
          totalRequests = cm_TotalRequests (cb_metrics cb1);
          failedRequests = cm_FailedRequests (cb_metrics cb1)
      in if totalRequests < cc_MinRequestThreshold (cb_config cb1) then cb1
         else if failedRequests \<ge> cc_FailureThreshold (cb_config cb1) then tripCircuit now cb1
         else if rate_reached failedRequests totalRequests (cc_FailureRate (cb_config cb1)) then tripCircuit now cb1
         else cb1)"

definition RecordFailure :: "int \<Rightarrow> circuit_breaker \<Rightarrow> circuit_breaker" where
  "RecordFailure now cb =
     (let m = cb_metrics cb;
          cb1 = cb \<lparr> cb_metrics := m \<lparr> cm_TotalRequests := cm_TotalRequests m + 1, cm_FailedRequests := cm_FailedRequests m + 1,
                                         cm_LastFailureTime := now \<rparr> \<rparr>
      in case cb_state cb of
           CircuitHalfOpen \<Rightarrow>
             change_state CircuitOpen now (cb1 \<lparr> cb_metrics := (cb_metrics cb1) \<lparr> cm_HalfOpenCalls := cm_HalfOpenCalls m + 1 \<rparr> \<rparr>)
         | CircuitClosed \<Rightarrow> checkAndTripCircuit now cb1
         | CircuitOpen \<Rightarrow> cb1)"

definition Breaker_Reset :: "int \<Rightarrow> circuit_breaker \<Rightarrow> circuit_breaker" where
  "Breaker_Reset now cb = cb \<lparr> cb_state := CircuitClosed, cb_metrics := zero_metrics, cb_windowStart := now \<rparr>"

text \<open>
  The steps of concurrent callers, with the time each reads: the read part of \<open>CanCall\<close> changes nothing,
  its write part is \<open>BUpgrade\<close>.
\<close>

datatype breaker_act = BUpgrade | BSuccess | BFailure

fun breaker_do :: "breaker_act \<Rightarrow> int \<Rightarrow> circuit_breaker \<Rightarrow> circuit_breaker" where
  "breaker_do BUpgrade now cb = can_upgrade now cb"
| "breaker_do BSuccess now cb = RecordSuccess now cb"
| "breaker_do BFailure now cb = RecordFailure now cb"

fun breaker_run :: "(breaker_act \<times> int) list \<Rightarrow> circuit_breaker \<Rightarrow> circuit_breaker" where
  "breaker_run [] cb = cb"
| "breaker_run ((c, now) # cs) cb = breaker_run cs (breaker_do c now cb)"

section \<open>Lemmas\<close>

lemma change_state_simps [simp]:
  "cb_state (change_state st now cb) = st" "cb_config (change_state st now cb) = cb_config cb"
  "cb_windowStart (change_state st now cb) = cb_windowStart cb" "cb_windowDuration (change_state st now cb) = cb_windowDuration cb"
  "cm_TotalRequests (cb_metrics (change_state st now cb)) = cm_TotalRequests (cb_metrics cb)"
  "cm_FailedRequests (cb_metrics (change_state st now cb)) = cm_FailedRequests (cb_metrics cb)"
  "cm_SuccessRequests (cb_metrics (change_state st now cb)) = cm_SuccessRequests (cb_metrics cb)"
  "cm_LastFailureTime (cb_metrics (change_state st now cb)) = cm_LastFailureTime (cb_metrics cb)"
  "cm_HalfOpenCalls (cb_metrics (change_state st now cb)) = cm_HalfOpenCalls (cb_metrics cb)"
  by (simp_all add: change_state_def)

lemmas breaker_defs = can_upgrade_def RecordSuccess_def RecordFailure_def checkAndTripCircuit_def tripCircuit_def Let_def

lemma breaker_config [simp]: "cb_config (breaker_do c now cb) = cb_config cb"
  by (cases c) (auto simp: breaker_defs split: circuit_state.splits)

lemma CanCall_do: "snd (CanCall now cb) = cb \<or> snd (CanCall now cb) = breaker_do BUpgrade now cb"
  by (auto simp: CanCall_def Let_def split: option.splits)

lemma open_step:
  assumes "cb_state cb = CircuitOpen" "now - cm_LastFailureTime (cb_metrics cb) \<le> cc_RecoveryTimeout (cb_config cb)"
    and "cm_LastFailureTime (cb_metrics cb) \<le> now"
  shows "cb_state (breaker_do c now cb) = CircuitOpen"
    "cm_LastFailureTime (cb_metrics (breaker_do c now cb)) = (if c = BFailure then now else cm_LastFailureTime (cb_metrics cb))"
  using assms by (cases c; simp add: breaker_defs)+

lemma open_run:
  assumes "cb_state cb = CircuitOpen" "sorted (cm_LastFailureTime (cb_metrics cb) # map snd cs)"
    and "\<forall>x \<in> set cs. snd x \<le> cm_LastFailureTime (cb_metrics cb) + cc_RecoveryTimeout (cb_config cb)"
  shows "cb_state (breaker_run cs cb) = CircuitOpen \<and> cb_config (breaker_run cs cb) = cb_config cb
       \<and> cm_LastFailureTime (cb_metrics cb) \<le> cm_LastFailureTime (cb_metrics (breaker_run cs cb))"
  using assms
proof (induction cs arbitrary: cb)
  case (Cons x cs)
  obtain c now where x: "x = (c, now)" by (cases x)
  let ?cb = "breaker_do c now cb"
  have "now - cm_LastFailureTime (cb_metrics cb) \<le> cc_RecoveryTimeout (cb_config cb)" "cm_LastFailureTime (cb_metrics cb) \<le> now"
    using Cons.prems by (auto simp: x)
  note st = open_step [OF Cons.prems(1) this, of c]
  have "cm_LastFailureTime (cb_metrics cb) \<le> cm_LastFailureTime (cb_metrics ?cb)" using Cons.prems by (auto simp: st(2) x)
  moreover have "cb_state (breaker_run cs ?cb) = CircuitOpen \<and> cb_config (breaker_run cs ?cb) = cb_config ?cb
       \<and> cm_LastFailureTime (cb_metrics ?cb) \<le> cm_LastFailureTime (cb_metrics (breaker_run cs ?cb))"
    by (rule Cons.IH) (use Cons.prems st in \<open>fastforce simp: x\<close>)+
  ultimately show ?case by (simp add: x)
qed simp

text \<open>Successes in the half-open state are counted up to the limit, which closes the circuit.\<close>

lemma half_open_successes:
  assumes "cb_state cb = CircuitHalfOpen" "cm_HalfOpenCalls (cb_metrics cb) + int (length ts) < cc_HalfOpenMaxCalls (cb_config cb)"
  shows "cb_state (breaker_run (map (Pair BSuccess) ts) cb) = CircuitHalfOpen
    \<and> cb_config (breaker_run (map (Pair BSuccess) ts) cb) = cb_config cb
    \<and> cm_HalfOpenCalls (cb_metrics (breaker_run (map (Pair BSuccess) ts) cb)) = cm_HalfOpenCalls (cb_metrics cb) + int (length ts)"
  using assms
proof (induction ts arbitrary: cb)
  case (Cons t ts)
  have "cb_state (RecordSuccess t cb) = CircuitHalfOpen" "cb_config (RecordSuccess t cb) = cb_config cb"
    "cm_HalfOpenCalls (cb_metrics (RecordSuccess t cb)) = cm_HalfOpenCalls (cb_metrics cb) + 1"
    using Cons.prems by (auto simp: RecordSuccess_def Let_def)
  with Cons.IH [of "RecordSuccess t cb"] Cons.prems show ?case by simp
qed simp

lemma breaker_run_append [simp]: "breaker_run (xs @ ys) cb = breaker_run ys (breaker_run xs cb)"
  by (induction xs cb rule: breaker_run.induct) auto

section \<open>Properties\<close>

text \<open>
  While closed, a failure inside the statistics window opens the circuit exactly when, this failure
  counted, the minimum number of requests is reached and either the number of failures or the rounded
  failure rate reaches its threshold. A failure after the end of the window starts a new window whose
  counters are zero (the failure itself is not counted), so with a positive minimum it never opens the
  circuit. In the half-open state every failure opens it; an open circuit stays open.
\<close>

theorem RecordFailure_trips:
  "cb_state (RecordFailure now cb) =
    (let n = cm_TotalRequests (cb_metrics cb) + 1; f = cm_FailedRequests (cb_metrics cb) + 1; cf = cb_config cb
     in if cb_state cb \<noteq> CircuitClosed then CircuitOpen
        else if now - cb_windowStart cb \<le> cb_windowDuration cb
        then if cc_MinRequestThreshold cf \<le> n \<and> (cc_FailureThreshold cf \<le> f \<or> rate_reached f n (cc_FailureRate cf))
             then CircuitOpen else CircuitClosed
        else if cc_MinRequestThreshold cf \<le> 0 \<and> cc_FailureThreshold cf \<le> 0
             then CircuitOpen else CircuitClosed)"
  by (auto simp: breaker_defs rate_reached_def split: circuit_state.splits)

text \<open>
  A breaker that is open refuses every call, for every interleaving of the steps of concurrent
  callers, until the recovery time has passed since the last failure. The first call after it is let
  through and makes the breaker half-open; then \<open>HalfOpenMaxCalls\<close> successes close it and one failure
  before the last of them opens it again. In the half-open state the calls let through are not counted:
  \<open>CanCall\<close> admits as many as ask.
\<close>

theorem breaker_open_then_recovers:
  assumes "cb_state cb = CircuitOpen" "sorted (cm_LastFailureTime (cb_metrics cb) # map snd cs)"
    and "\<forall>x \<in> set cs. snd x \<le> cm_LastFailureTime (cb_metrics cb) + cc_RecoveryTimeout (cb_config cb)"
    and "cm_LastFailureTime (cb_metrics (breaker_run cs cb)) + cc_RecoveryTimeout (cb_config cb) < later"
    and "int (length ts) + 1 = cc_HalfOpenMaxCalls (cb_config cb)"
  shows "cb_state (breaker_run cs cb) = CircuitOpen \<and>
    (\<forall>now \<le> cm_LastFailureTime (cb_metrics cb) + cc_RecoveryTimeout (cb_config cb). CanCall now (breaker_run cs cb) = (False, breaker_run cs cb)) \<and>
    (let r = CanCall later (breaker_run cs cb); h = breaker_run (map (Pair BSuccess) ts) (snd r)
     in fst r \<and> cb_state (snd r) = CircuitHalfOpen \<and> cb_state h = CircuitHalfOpen \<and> CanCall now h = (True, h)
        \<and> cb_state (RecordSuccess now h) = CircuitClosed \<and> cb_state (RecordFailure now h) = CircuitOpen)"
proof -
  let ?o = "breaker_run cs cb"
  define r where "r = CanCall later ?o"
  define h where "h = breaker_run (map (Pair BSuccess) ts) (snd r)"
  have o: "cb_state ?o = CircuitOpen" "cb_config ?o = cb_config cb"
    "cm_LastFailureTime (cb_metrics cb) \<le> cm_LastFailureTime (cb_metrics ?o)"
    using open_run [OF assms(1-3)] by auto
  have r: "fst r" "cb_state (snd r) = CircuitHalfOpen" "cm_HalfOpenCalls (cb_metrics (snd r)) = 0" "cb_config (snd r) = cb_config cb"
    using o assms(4) by (auto simp: r_def CanCall_def can_read_def can_upgrade_def can_answer_def Let_def)
  have h: "cb_state h = CircuitHalfOpen" "cm_HalfOpenCalls (cb_metrics h) = int (length ts)" "cb_config h = cb_config cb"
    using half_open_successes [of "snd r" ts] r assms(5) by (auto simp: h_def)
  have "CanCall now h = (True, h)" "cb_state (RecordSuccess now h) = CircuitClosed" "cb_state (RecordFailure now h) = CircuitOpen"
    using h assms(5) by (auto simp: CanCall_def can_read_def RecordSuccess_def RecordFailure_def Let_def)
  moreover have "CanCall now ?o = (False, ?o)" if "now \<le> cm_LastFailureTime (cb_metrics cb) + cc_RecoveryTimeout (cb_config cb)" for now
    using o that by (auto simp: CanCall_def can_read_def)
  ultimately show ?thesis using o r h by (simp add: Let_def flip: r_def h_def)
qed

text \<open>At the default configuration ten failures open the breaker; it recovers after thirty seconds.\<close>

definition tripped_breaker :: circuit_breaker where
  "tripped_breaker = breaker_run (replicate 10 (BFailure, 5)) (NewCircuitBreaker None 0)"

theorem breaker_open_then_recovers_witness:
  "cb_state tripped_breaker = CircuitOpen
   \<and> CanCall 20000000000 (breaker_run [(BUpgrade, 6), (BFailure, 7)] tripped_breaker) = (False, breaker_run [(BUpgrade, 6), (BFailure, 7)] tripped_breaker)
   \<and> fst (CanCall 30000000008 (breaker_run [(BUpgrade, 6), (BFailure, 7)] tripped_breaker))"
proof -
  have "cb_state tripped_breaker = CircuitOpen" "cm_LastFailureTime (cb_metrics tripped_breaker) = 5"
    "cc_RecoveryTimeout (cb_config tripped_breaker) = 30000000000" "cc_HalfOpenMaxCalls (cb_config tripped_breaker) = 3"
    "cm_LastFailureTime (cb_metrics (breaker_run [(BUpgrade, 6), (BFailure, 7)] tripped_breaker)) = 7"
    by (code_simp)+
  then show ?thesis
    using breaker_open_then_recovers [of tripped_breaker "[(BUpgrade, 6), (BFailure, 7)]" 30000000008 "[30000000009, 30000000010]" 30000000011]
    by (auto simp: Let_def)
qed

end
