(* ===== verification/Conn_Pool.thy ===== *)
theory Conn_Pool
  imports Circuit_Breaker
begin

text \<open>
  The connection pool of the RPC client, \<open>engine/pkg/rpc/client/pool\<close>: \<open>manager_types.go\<close>, \<open>manager.go\<close>,
  \<open>manager_runtime.go\<close>, and the sender that uses it, \<open>enhanced_sender.go\<close>.

  A connection object is allocated once and shared by pointer (a caller keeps using a connection the
  pool has dropped), so the objects live in a store, \<open>cp_objs\<close>, in the order of their creation; the pool's
  map holds their numbers. Sender number \<open>k\<close> is the one made for object \<open>k\<close>; \<open>cp_closed\<close> holds the closed ones.
  The creator and the clock are parameters: \<open>env i\<close> is the time and the answer (a sender or nil) of the
  \<open>i\<close>-th call of the creator. A connection's id is the pair of numbers its string is printed from.

  \<open>connMutex\<close> is not reentrant: an operation that asks for it while it is held by the same goroutine
  never returns, which is the value None.
\<close>

section \<open>Definitions\<close>

subsection \<open>Connections\<close>

datatype connection_state = StateIdle | StateActive | StateUnhealthy | StateClosed

type_synonym conn_id = "int \<times> nat"

record connection_metrics =
  mt_TotalRequests :: int
  mt_SuccessRequests :: int
  mt_FailedRequests :: int
  mt_AvgResponseTime :: int
  mt_LastActiveTime :: int
  mt_CreateTime :: int
  mt_HealthCheckCount :: int
  mt_ConsecutiveFails :: int

record pool_connection =
  pc_ID :: conn_id
  pc_Sender :: nat
  pc_State :: connection_state
  pc_Metrics :: connection_metrics
  pc_LastUsed :: int
  pc_circuitState :: circuit_state
  pc_circuitBreaker :: "circuit_breaker option"

definition NewPoolConnection :: "conn_id \<Rightarrow> nat \<Rightarrow> int \<Rightarrow> pool_connection" where
  "NewPoolConnection cid sender now =
     \<lparr> pc_ID = cid, pc_Sender = sender, pc_State = StateIdle,
       pc_Metrics = \<lparr> mt_TotalRequests = 0, mt_SuccessRequests = 0, mt_FailedRequests = 0, mt_AvgResponseTime = 0,
         mt_LastActiveTime = now, mt_CreateTime = now, mt_HealthCheckCount = 0, mt_ConsecutiveFails = 0 \<rparr>,
       pc_LastUsed = now, pc_circuitState = CircuitClosed, pc_circuitBreaker = None \<rparr>"

definition IsHealthy :: "nat set \<Rightarrow> pool_connection \<Rightarrow> bool" where
  "IsHealthy sclosed pc \<longleftrightarrow> pc_State pc \<noteq> StateUnhealthy \<and> pc_State pc \<noteq> StateClosed
     \<and> pc_circuitState pc \<noteq> CircuitOpen \<and> pc_Sender pc \<notin> sclosed"

definition updateCircuitBreaker :: "bool \<Rightarrow> int \<Rightarrow> pool_connection \<Rightarrow> pool_connection" where
  "updateCircuitBreaker success now pc =
     (let cb = (case pc_circuitBreaker pc of None \<Rightarrow> NewCircuitBreaker None now | Some cb \<Rightarrow> cb);
          cb' = (if success then RecordSuccess now cb else RecordFailure now cb)
      in pc \<lparr> pc_circuitBreaker := Some cb', pc_circuitState := cb_state cb' \<rparr>)"

definition UpdateMetrics :: "bool \<Rightarrow> int \<Rightarrow> int \<Rightarrow> pool_connection \<Rightarrow> pool_connection" where
  "UpdateMetrics success responseTime now pc =
     (let m = pc_Metrics pc;
          total = mt_TotalRequests m + 1;
          m1 = (if success
                then m \<lparr> mt_TotalRequests := total, mt_SuccessRequests := mt_SuccessRequests m + 1, mt_ConsecutiveFails := 0 \<rparr>
                else m \<lparr> mt_TotalRequests := total, mt_FailedRequests := mt_FailedRequests m + 1,
                         mt_ConsecutiveFails := mt_ConsecutiveFails m + 1 \<rparr>);
          pc1 = updateCircuitBreaker success now (pc \<lparr> pc_Metrics := m1 \<rparr>);
          m2 = (if total > 0
                then m1 \<lparr> mt_AvgResponseTime := go_div (mt_AvgResponseTime m1 * (total - 1) + responseTime) total \<rparr> else m1)
      in pc1 \<lparr> pc_Metrics := m2 \<lparr> mt_LastActiveTime := now \<rparr>, pc_LastUsed := now \<rparr>)"

subsection \<open>The pool\<close>

datatype lb_strategy = round_robin | least_connections | fastest_response | other_strategy

record pool_config =
  pf_MinConnections :: int
  pf_MaxConnections :: int
  pf_InitialConnections :: int
  pf_ScaleUpThreshold :: rat
  pf_ScaleDownThreshold :: rat
  pf_ScaleUpCooldown :: int
  pf_ScaleDownCooldown :: int
  pf_HealthCheckInterval :: int
  pf_HealthCheckTimeout :: int
  pf_MaxConsecutiveFails :: int
  pf_MaxIdleTime :: int
  pf_MaxConnectionAge :: int
  pf_ConnectionTimeout :: int
  pf_LoadBalanceStrategy :: lb_strategy

text \<open>The decimal thresholds are the nearest \<open>float64\<close> values.\<close>

definition DefaultPoolConfig :: pool_config where
  "DefaultPoolConfig =
     \<lparr> pf_MinConnections = 2, pf_MaxConnections = 20, pf_InitialConnections = 4,
       pf_ScaleUpThreshold = fl64 (8 / 10), pf_ScaleDownThreshold = fl64 (3 / 10),
       pf_ScaleUpCooldown = 30 * 10 ^ 9, pf_ScaleDownCooldown = 60 * 10 ^ 9,
       pf_HealthCheckInterval = 30 * 10 ^ 9, pf_HealthCheckTimeout = 5 * 10 ^ 9, pf_MaxConsecutiveFails = 3,
       pf_MaxIdleTime = 300 * 10 ^ 9, pf_MaxConnectionAge = 1800 * 10 ^ 9, pf_ConnectionTimeout = 10 * 10 ^ 9,
       pf_LoadBalanceStrategy = round_robin \<rparr>"

text \<open>The pool's own counters, and the snapshot that \<open>GetMetrics\<close> returns. The zero time is None.\<close>

record pool_metrics =
  pm_TotalConnections :: int
  pm_ActiveConnections :: int
  pm_IdleConnections :: int
  pm_UnhealthyConns :: int
  pm_TotalRequests :: int
  pm_SuccessfulRequests :: int
  pm_FailedRequests :: int
  pm_AvgResponseTime :: int
  pm_SuccessRate :: rat
  pm_LastScaleTime :: "int option"
  pm_ScaleOperations :: int

definition zero_pool_metrics :: pool_metrics where
  "zero_pool_metrics =
     \<lparr> pm_TotalConnections = 0, pm_ActiveConnections = 0, pm_IdleConnections = 0, pm_UnhealthyConns = 0, pm_TotalRequests = 0,
       pm_SuccessfulRequests = 0, pm_FailedRequests = 0, pm_AvgResponseTime = 0, pm_SuccessRate = 0, pm_LastScaleTime = None,
       pm_ScaleOperations = 0 \<rparr>"

datatype rw_mutex = RW_Free | RW_Writer

record conn_pool =
  cp_config :: pool_config
  cp_address :: string
  cp_rpcType :: string
  cp_connections :: "(conn_id, nat) gomap"
  cp_objs :: "pool_connection list"
  cp_closed :: "nat set"
  cp_calls :: nat
  cp_connMutex :: rw_mutex
  cp_metrics :: pool_metrics
  cp_roundRobin :: u64
  cp_lastScaleUp :: "int option"
  cp_lastScaleDown :: "int option"
  cp_stopped :: bool

definition NewConnectionPool :: "string \<Rightarrow> string \<Rightarrow> pool_config option \<Rightarrow> conn_pool" where
  "NewConnectionPool address rpcType config =
     \<lparr> cp_config = (case config of None \<Rightarrow> DefaultPoolConfig | Some c \<Rightarrow> c), cp_address = address, cp_rpcType = rpcType,
       cp_connections = [], cp_objs = [], cp_closed = {}, cp_calls = 0, cp_connMutex = RW_Free, cp_metrics = zero_pool_metrics,
       cp_roundRobin = 0, cp_lastScaleUp = None, cp_lastScaleDown = None, cp_stopped = False \<rparr>"

type_synonym creator_env = "nat \<Rightarrow> int \<times> bool"
type_synonym 'a pool_op = "conn_pool \<Rightarrow> ('a \<times> conn_pool) option"

datatype pool_error =
    ErrMaxConnections | ErrCreateSender | ErrNoIdle | ErrNoHealthy | ErrNoHealthyCreate pool_error | ErrNoCreator | ErrPoolNotFound
  | ErrRPCHadClosed | ErrDeliver

abbreviation pool_obj :: "conn_pool \<Rightarrow> nat \<Rightarrow> pool_connection" where
  "pool_obj cp k \<equiv> cp_objs cp ! k"

abbreviation pool_len :: "conn_pool \<Rightarrow> int" where
  "pool_len cp \<equiv> int (length (cp_connections cp))"

definition upd_obj :: "nat \<Rightarrow> (pool_connection \<Rightarrow> pool_connection) \<Rightarrow> conn_pool \<Rightarrow> conn_pool" where
  "upd_obj k f cp = cp \<lparr> cp_objs := (cp_objs cp) [k := f (pool_obj cp k)] \<rparr>"

text \<open>\<open>connMutex.Lock(); defer connMutex.Unlock()\<close> around a body.\<close>

definition with_connMutex :: "'a pool_op \<Rightarrow> 'a pool_op" where
  "with_connMutex body cp =
     (case cp_connMutex cp of
        RW_Writer \<Rightarrow> None
      | RW_Free \<Rightarrow> map_option (map_prod id (\<lambda>cp1. cp1 \<lparr> cp_connMutex := RW_Free \<rparr>)) (body (cp \<lparr> cp_connMutex := RW_Writer \<rparr>)))"

definition create_body :: "creator_env \<Rightarrow> pool_error option pool_op" where
  "create_body env cp =
     (if pool_len cp \<ge> pf_MaxConnections (cp_config cp) then Some (Some ErrMaxConnections, cp)
      else let (now, ok) = env (cp_calls cp); cp1 = cp \<lparr> cp_calls := cp_calls cp + 1 \<rparr>
           in if \<not> ok then Some (Some ErrCreateSender, cp1)
              else let connID = (now, length (cp_connections cp)); k = length (cp_objs cp)
                   in Some (None, cp1 \<lparr> cp_connections := gm_set (cp_connections cp) connID k,
                                        cp_objs := cp_objs cp @ [NewPoolConnection connID k now],
                                        cp_metrics := (cp_metrics cp) \<lparr> pm_TotalConnections := pm_TotalConnections (cp_metrics cp) + 1,
                                                                        pm_IdleConnections := pm_IdleConnections (cp_metrics cp) + 1 \<rparr> \<rparr>))"

definition createConnection :: "creator_env \<Rightarrow> pool_error option pool_op" where
  "createConnection env = with_connMutex (create_body env)"

fun scaleUp :: "creator_env \<Rightarrow> nat \<Rightarrow> pool_error option pool_op" where
  "scaleUp env 0 cp = Some (None, cp)"
| "scaleUp env (Suc n) cp =
     (case createConnection env cp of
        None \<Rightarrow> None
      | Some (Some e, cp1) \<Rightarrow> Some (Some e, cp1)
      | Some (None, cp1) \<Rightarrow> scaleUp env n cp1)"

text \<open>The exchange sort of \<open>scaleDown\<close>: one pass of the inner loop leaves the least at position \<open>i\<close>.\<close>

fun exch_pass :: "(nat \<Rightarrow> int) \<Rightarrow> nat \<Rightarrow> nat list \<Rightarrow> nat \<times> nat list" where
  "exch_pass lu x [] = (x, [])"
| "exch_pass lu x (y # ys) =
     (if lu x > lu y then map_prod id ((#) x) (exch_pass lu y ys) else map_prod id ((#) y) (exch_pass lu x ys))"

lemma exch_pass_length [simp]: "length (snd (exch_pass lu x ys)) = length ys"
  by (induction lu x ys rule: exch_pass.induct) auto

function exch_sort :: "(nat \<Rightarrow> int) \<Rightarrow> nat list \<Rightarrow> nat list" where
  "exch_sort lu [] = []"
| "exch_sort lu (x # xs) = fst (exch_pass lu x xs) # exch_sort lu (snd (exch_pass lu x xs))"
  by pat_completeness auto
termination by (relation "measure (\<lambda>(lu, xs). length xs)") auto

text \<open>\<open>conn.Sender.Close()\<close> and \<open>delete\<close>, with the counters of \<open>scaleDown\<close>.\<close>

definition drop_idle :: "nat \<Rightarrow> conn_pool \<Rightarrow> conn_pool" where
  "drop_idle k cp = cp \<lparr> cp_closed := insert (pc_Sender (pool_obj cp k)) (cp_closed cp),
     cp_connections := gm_del (cp_connections cp) (pc_ID (pool_obj cp k)),
     cp_metrics := (cp_metrics cp) \<lparr> pm_TotalConnections := pm_TotalConnections (cp_metrics cp) - 1,
       pm_IdleConnections := pm_IdleConnections (cp_metrics cp) - (if pc_State (pool_obj cp k) = StateIdle then 1 else 0) \<rparr> \<rparr>"

definition idle_conns :: "conn_pool \<Rightarrow> nat list" where
  "idle_conns cp = filter (\<lambda>k. pc_State (pool_obj cp k) = StateIdle) (map snd (cp_connections cp))"

definition scaleDown :: "nat \<Rightarrow> pool_error option pool_op" where
  "scaleDown cnt = with_connMutex (\<lambda>cp.
     let candidates = idle_conns cp
     in if candidates = [] then Some (Some ErrNoIdle, cp)
        else let sorted_candidates = exch_sort (\<lambda>k. pc_LastUsed (pool_obj cp k)) candidates;
                 removeCount = min cnt (length candidates)
             in Some (None, fold drop_idle (take removeCount sorted_candidates) cp))"

definition passed :: "int \<Rightarrow> int option \<Rightarrow> int \<Rightarrow> bool" where
  "passed now t d \<longleftrightarrow> (case t of None \<Rightarrow> True | Some t0 \<Rightarrow> now - t0 > d)"

definition active_conns :: "conn_pool \<Rightarrow> nat" where
  "active_conns cp = length (filter (\<lambda>k. pc_State (pool_obj cp k) = StateActive) (map snd (cp_connections cp)))"

definition scaled :: "int \<Rightarrow> conn_pool \<Rightarrow> conn_pool" where
  "scaled now cp = cp \<lparr> cp_metrics := (cp_metrics cp) \<lparr> pm_ScaleOperations := pm_ScaleOperations (cp_metrics cp) + 1, pm_LastScaleTime := Some now \<rparr> \<rparr>"

text \<open>The two halves of \<open>checkAndScale\<close>, for the load rate and the size read before them.\<close>

definition check_up :: "creator_env \<Rightarrow> int \<Rightarrow> rat \<Rightarrow> int \<Rightarrow> conn_pool \<Rightarrow> conn_pool option" where
  "check_up env now loadRate totalConns cp =
     (let cf = cp_config cp
      in if loadRate > pf_ScaleUpThreshold cf \<and> totalConns < pf_MaxConnections cf \<and> passed now (cp_lastScaleUp cp) (pf_ScaleUpCooldown cf)
         then (case scaleUp env (nat (min (pf_MaxConnections cf - totalConns) (max 1 (totalConns div 4)))) cp of
                 None \<Rightarrow> None
               | Some (None, cp1) \<Rightarrow> Some (scaled now (cp1 \<lparr> cp_lastScaleUp := Some now \<rparr>))
               | Some (Some e, cp1) \<Rightarrow> Some cp1)
         else Some cp)"

definition check_down :: "int \<Rightarrow> rat \<Rightarrow> int \<Rightarrow> conn_pool \<Rightarrow> conn_pool option" where
  "check_down now loadRate totalConns cp =
     (let cf = cp_config cp
      in if loadRate < pf_ScaleDownThreshold cf \<and> totalConns > pf_MinConnections cf \<and> passed now (cp_lastScaleDown cp) (pf_ScaleDownCooldown cf)
         then (case scaleDown (nat (min (totalConns - pf_MinConnections cf) (max 1 (totalConns div 4)))) cp of
                 None \<Rightarrow> None
               | Some (None, cp1) \<Rightarrow> Some (scaled now (cp1 \<lparr> cp_lastScaleDown := Some now \<rparr>))
               | Some (Some e, cp1) \<Rightarrow> Some cp1)
         else Some cp)"

definition checkAndScale :: "creator_env \<Rightarrow> int \<Rightarrow> conn_pool \<Rightarrow> conn_pool option" where
  "checkAndScale env now cp =
     (let totalConns = pool_len cp; loadRate = fl64 (of_nat (active_conns cp) / of_int totalConns)
      in if cp_connMutex cp = RW_Writer then None
         else if totalConns = 0 then Some cp
         else Option.bind (check_up env now loadRate totalConns cp) (check_down now loadRate totalConns))"

subsection \<open>Selection\<close>

text \<open>
  \<open>AddInt64(&roundRobin, 1) % len\<close> used as an index: the counter is an \<open>int64\<close>, a negative remainder is
  out of range and panics. The other strategies compare \<open>int64\<close> counters with the largest one.
\<close>

definition rr_select :: "nat list \<Rightarrow> conn_pool \<Rightarrow> (go_panic + nat option) \<times> conn_pool" where
  "rr_select healthyConns cp =
     (let rr = cp_roundRobin cp + 1; index = go_mod (sint rr) (int (length healthyConns))
      in (if index < 0 then Inl (Go_Panic ''index out of range'') else Inr (Some (healthyConns ! nat index)),
          cp \<lparr> cp_roundRobin := rr \<rparr>))"

definition maxInt64 :: int where "maxInt64 = 2 ^ 63 - 1"

fun select_min :: "(nat \<Rightarrow> int) \<Rightarrow> (nat \<Rightarrow> bool) \<Rightarrow> nat list \<Rightarrow> int \<Rightarrow> nat option \<Rightarrow> nat option" where
  "select_min key ok [] least sel = sel"
| "select_min key ok (k # ks) least sel =
     (if key k < least \<and> ok k then select_min key ok ks (key k) (Some k) else select_min key ok ks least sel)"

definition selectConnection :: "nat list \<Rightarrow> conn_pool \<Rightarrow> (go_panic + nat option) \<times> conn_pool" where
  "selectConnection healthyConns cp =
     (let requests = (\<lambda>k. mt_TotalRequests (pc_Metrics (pool_obj cp k)));
          response = (\<lambda>k. mt_AvgResponseTime (pc_Metrics (pool_obj cp k)))
      in if healthyConns = [] then (Inr None, cp)
         else case pf_LoadBalanceStrategy (cp_config cp) of
                round_robin \<Rightarrow> rr_select healthyConns cp
              | least_connections \<Rightarrow> (Inr (select_min requests (\<lambda>k. True) healthyConns maxInt64 None), cp)
              | fastest_response \<Rightarrow>
                  (case select_min response (\<lambda>k. requests k > 0) healthyConns maxInt64 None of
                     Some k \<Rightarrow> (Inr (Some k), cp)
                   | None \<Rightarrow> rr_select healthyConns cp)
              | other_strategy \<Rightarrow> rr_select healthyConns cp)"

definition healthy_conns :: "conn_pool \<Rightarrow> nat list" where
  "healthy_conns cp = filter (\<lambda>k. IsHealthy (cp_closed cp) (pool_obj cp k)) (map snd (cp_connections cp))"

text \<open>What a caller gets: an error, a panic, or the pointer (nil when the selection found none).\<close>

datatype get_result = GotError pool_error | GotPanic go_panic | GotConn "nat option"

definition get_selected :: "creator_env \<Rightarrow> int \<Rightarrow> nat list \<Rightarrow> get_result pool_op" where
  "get_selected env now healthyConns cp =
     (case selectConnection healthyConns cp of
        (Inl p, cp1) \<Rightarrow> Some (GotPanic p, cp1)
      | (Inr sel, cp1) \<Rightarrow> map_option (\<lambda>cp2. (GotConn sel, cp2)) (checkAndScale env now cp1))"

text \<open>\<open>retries\<close> is the number of attempts left after this one; \<open>GetConnection\<close> starts with \<open>maxRetries\<close> = 1.\<close>

fun get_attempt :: "creator_env \<Rightarrow> int \<Rightarrow> nat \<Rightarrow> get_result pool_op" where
  "get_attempt env now retries cp =
     (if cp_connMutex cp = RW_Writer then None
      else if healthy_conns cp = []
      then (case retries of
              0 \<Rightarrow> Some (GotError ErrNoHealthy, cp)
            | Suc r \<Rightarrow> (case scaleUp env 1 cp of
                          None \<Rightarrow> None
                        | Some (Some e, cp1) \<Rightarrow> Some (GotError (ErrNoHealthyCreate e), cp1)
                        | Some (None, cp1) \<Rightarrow> get_attempt env now r cp1))
      else get_selected env now (healthy_conns cp) cp)"

definition GetConnection :: "creator_env \<Rightarrow> int \<Rightarrow> get_result pool_op" where
  "GetConnection env now = get_attempt env now 1"

subsection \<open>Health check, cleanup, metrics\<close>

definition healthCheck_conn :: "pool_config \<Rightarrow> nat set \<Rightarrow> int \<Rightarrow> pool_connection \<Rightarrow> pool_connection" where
  "healthCheck_conn cf sclosed now pc =
     (let m = pc_Metrics pc; pc1 = pc \<lparr> pc_Metrics := m \<lparr> mt_HealthCheckCount := mt_HealthCheckCount m + 1 \<rparr> \<rparr>
      in if pc_Sender pc \<in> sclosed then pc1 \<lparr> pc_State := StateClosed \<rparr>
         else if mt_ConsecutiveFails m > pf_MaxConsecutiveFails cf then pc1 \<lparr> pc_State := StateUnhealthy \<rparr>
         else if now - pc_LastUsed pc > pf_MaxIdleTime cf then pc1 \<lparr> pc_State := StateIdle \<rparr>
         else if pc_State pc \<noteq> StateActive then pc1 \<lparr> pc_State := StateIdle \<rparr>
         else pc1)"

definition healthCheckConnection :: "int \<Rightarrow> nat \<Rightarrow> conn_pool \<Rightarrow> conn_pool" where
  "healthCheckConnection now k cp = upd_obj k (healthCheck_conn (cp_config cp) (cp_closed cp) now) cp"

definition success_rate :: "int \<Rightarrow> int \<Rightarrow> rat" where
  "success_rate ok n = (if n > 0 then fl64 (of_int ok / of_int n) else 0)"

definition updatePoolMetrics :: "conn_pool \<Rightarrow> pool_metrics option" where
  "updatePoolMetrics cp =
     (let cs = map (\<lambda>x. pool_obj cp (snd x)) (cp_connections cp);
          tot = (\<lambda>f. sum_list (map (f \<circ> pc_Metrics) cs));
          with_state = (\<lambda>st. int (length (filter (\<lambda>c. pc_State c = st) cs)))
      in if cp_connMutex cp = RW_Writer then None
         else Some \<lparr> pm_TotalConnections = int (length cs), pm_ActiveConnections = with_state StateActive,
                     pm_IdleConnections = with_state StateIdle, pm_UnhealthyConns = with_state StateUnhealthy,
                     pm_TotalRequests = tot mt_TotalRequests, pm_SuccessfulRequests = tot mt_SuccessRequests,
                     pm_FailedRequests = tot mt_FailedRequests,
                     pm_AvgResponseTime = (if cs \<noteq> [] then go_div (tot mt_AvgResponseTime) (int (length cs)) else 0),
                     pm_SuccessRate = success_rate (tot mt_SuccessRequests) (tot mt_TotalRequests),
                     pm_LastScaleTime = pm_LastScaleTime (cp_metrics cp), pm_ScaleOperations = pm_ScaleOperations (cp_metrics cp) \<rparr>)"

definition performHealthCheck :: "int \<Rightarrow> pool_metrics pool_op" where
  "performHealthCheck now cp =
     (if cp_connMutex cp = RW_Writer then None
      else let cp1 = fold (healthCheckConnection now) (map snd (cp_connections cp)) cp
           in map_option (\<lambda>s. (s, cp1)) (updatePoolMetrics cp1))"

definition to_remove :: "int \<Rightarrow> pool_connection \<Rightarrow> bool" where
  "to_remove now pc \<longleftrightarrow> pc_State pc = StateClosed \<or> pc_State pc = StateUnhealthy \<and> now - pc_LastUsed pc > 5 * 60 * 10 ^ 9"

definition drop_conn :: "conn_id \<times> nat \<Rightarrow> conn_pool \<Rightarrow> conn_pool" where
  "drop_conn x cp = cp \<lparr> cp_closed := insert (pc_Sender (pool_obj cp (snd x))) (cp_closed cp),
     cp_connections := gm_del (cp_connections cp) (fst x),
     cp_metrics := (cp_metrics cp) \<lparr> pm_TotalConnections := pm_TotalConnections (cp_metrics cp) - 1 \<rparr> \<rparr>"

definition drop_dead :: "int \<Rightarrow> conn_pool \<Rightarrow> conn_pool" where
  "drop_dead now cp = fold drop_conn (filter (\<lambda>x. to_remove now (pool_obj cp (snd x))) (cp_connections cp)) cp"

text \<open>The replacements are made inside the critical section, by \<open>createConnection\<close>, until one fails.\<close>

fun create_needed :: "creator_env \<Rightarrow> nat \<Rightarrow> unit pool_op" where
  "create_needed env 0 cp = Some ((), cp)"
| "create_needed env (Suc n) cp =
     (case createConnection env cp of
        None \<Rightarrow> None
      | Some (Some e, cp1) \<Rightarrow> Some ((), cp1)
      | Some (None, cp1) \<Rightarrow> create_needed env n cp1)"

definition cleanupConnections :: "creator_env \<Rightarrow> int \<Rightarrow> unit pool_op" where
  "cleanupConnections env now = with_connMutex (\<lambda>cp.
     let cp1 = drop_dead now cp
     in create_needed env (nat (pf_MinConnections (cp_config cp1) - pool_len cp1)) cp1)"

subsection \<open>Start and stop\<close>

fun create_initial :: "creator_env \<Rightarrow> nat \<Rightarrow> conn_pool \<Rightarrow> conn_pool option" where
  "create_initial env 0 cp = Some cp"
| "create_initial env (Suc n) cp = (case createConnection env cp of None \<Rightarrow> None | Some (e, cp1) \<Rightarrow> create_initial env n cp1)"

definition pool_Start :: "creator_env \<Rightarrow> conn_pool \<Rightarrow> conn_pool option" where
  "pool_Start env cp = create_initial env (nat (pf_InitialConnections (cp_config cp))) cp"

definition pool_Stop :: "conn_pool \<Rightarrow> conn_pool option" where
  "pool_Stop cp = map_option snd (with_connMutex (\<lambda>c.
     Some ((), c \<lparr> cp_closed := cp_closed c \<union> (\<lambda>x. pc_Sender (pool_obj c (snd x))) ` set (cp_connections c), cp_connections := [] \<rparr>))
     (cp \<lparr> cp_stopped := True \<rparr>))"

subsection \<open>Delivery\<close>

text \<open>
  \<open>deliver\<close> of the enhanced sender. What the connection's sender answers is a parameter, \<open>answer\<close>. The envelope is
  handed to the sender or released; the events record which, once each.
\<close>

datatype envelope_event = Env_Release | Env_Handed nat

definition deliver_conn :: "nat \<Rightarrow> bool \<Rightarrow> int \<Rightarrow> int \<Rightarrow> conn_pool \<Rightarrow> conn_pool" where
  "deliver_conn k answer elapsed now cp =
     upd_obj k (\<lambda>c. (UpdateMetrics answer elapsed now (c \<lparr> pc_State := StateActive \<rparr>)) \<lparr> pc_State := StateIdle \<rparr>) cp"

definition sender_deliver :: "creator_env \<Rightarrow> int \<Rightarrow> (nat \<Rightarrow> bool) \<Rightarrow> int \<Rightarrow> ((go_panic + pool_error option) \<times> envelope_event list) pool_op" where
  "sender_deliver env now answer elapsed cp =
     (case GetConnection env now cp of
        None \<Rightarrow> None
      | Some (GotError e, cp1) \<Rightarrow> Some ((Inr (Some e), [Env_Release]), cp1)
      | Some (GotPanic p, cp1) \<Rightarrow> Some ((Inl p, []), cp1)
      | Some (GotConn None, cp1) \<Rightarrow> Some ((Inl (Go_Panic ''nil pointer dereference''), []), cp1)
      | Some (GotConn (Some k), cp1) \<Rightarrow>
          if \<not> IsHealthy (cp_closed cp1) (pool_obj cp1 k) then Some ((Inr (Some ErrRPCHadClosed), [Env_Release]), cp1)
          else Some ((Inr (if answer k then None else Some ErrDeliver), [Env_Handed k]), deliver_conn k (answer k) elapsed now cp1))"

subsection \<open>Concurrent use\<close>

text \<open>
  The critical sections of the goroutines that share a pool, in any order. Between two of them a \<open>range\<close>
  loop may visit the map in another order, and a sender may close by itself.
\<close>

datatype pool_act =
    PCreate
  | PScaleDown nat
  | PScaled int
  | PHealth int nat
  | PCleanup int
  | PRoundRobin "nat list"
  | PSetState nat connection_state
  | PUpdate bool int int nat
  | PSenderClosed nat
  | PReorder "(conn_id, nat) gomap"
  | PStop

fun pool_do :: "creator_env \<Rightarrow> pool_act \<Rightarrow> conn_pool \<Rightarrow> conn_pool option" where
  "pool_do env PCreate cp = map_option snd (createConnection env cp)"
| "pool_do env (PScaleDown n) cp = map_option snd (scaleDown n cp)"
| "pool_do env (PScaled now) cp = Some (scaled now cp)"
| "pool_do env (PHealth now k) cp = Some (healthCheckConnection now k cp)"
| "pool_do env (PCleanup now) cp = map_option snd (cleanupConnections env now cp)"
| "pool_do env (PRoundRobin hs) cp = Some (snd (selectConnection hs cp))"
| "pool_do env (PSetState k st) cp = Some (upd_obj k (\<lambda>c. c \<lparr> pc_State := st \<rparr>) cp)"
| "pool_do env (PUpdate ok rt now k) cp = Some (upd_obj k (UpdateMetrics ok rt now) cp)"
| "pool_do env (PSenderClosed k) cp = Some (cp \<lparr> cp_closed := insert k (cp_closed cp) \<rparr>)"
| "pool_do env (PReorder cs) cp = Some (if mset cs = mset (cp_connections cp) then cp \<lparr> cp_connections := cs \<rparr> else cp)"
| "pool_do env PStop cp = pool_Stop cp"

fun pool_run :: "creator_env \<Rightarrow> pool_act list \<Rightarrow> conn_pool \<Rightarrow> conn_pool option" where
  "pool_run env [] cp = Some cp"
| "pool_run env (a # as) cp = (case pool_do env a cp of None \<Rightarrow> None | Some cp1 \<Rightarrow> pool_run env as cp1)"

section \<open>Lemmas\<close>

subsection \<open>The sort\<close>

lemma exch_pass_mset [simp]: "add_mset (fst (exch_pass lu x ys)) (mset (snd (exch_pass lu x ys))) = add_mset x (mset ys)"
  by (induction lu x ys rule: exch_pass.induct) (auto simp: add_mset_commute)

lemma exch_pass_least: "lu (fst (exch_pass lu x ys)) \<le> lu x \<and> (\<forall>y \<in> set ys. lu (fst (exch_pass lu x ys)) \<le> lu y)"
proof (induction lu x ys rule: exch_pass.induct)
  case (2 lu x y ys)
  then show ?case by (cases "lu y < lu x") force+
qed simp

lemma exch_sort_mset [simp]: "mset (exch_sort lu xs) = mset xs"
  by (induction lu xs rule: exch_sort.induct) auto

lemma exch_sort_set [simp]: "set (exch_sort lu xs) = set xs"
  using exch_sort_mset [of lu xs] by (metis set_mset_mset)

lemma exch_sort_distinct [simp]: "distinct (exch_sort lu xs) = distinct xs"
  using exch_sort_mset [of lu xs] by (metis mset_eq_imp_distinct_iff)

lemma exch_sort_sorted: "sorted (map lu (exch_sort lu xs))"
proof (induction lu xs rule: exch_sort.induct)
  case (2 lu x xs)
  have "set (snd (exch_pass lu x xs)) \<subseteq> insert x (set xs)"
    using exch_pass_mset [of lu x xs] by (metis set_mset_add_mset_insert set_mset_mset subset_insertI)
  then show ?case using 2 exch_pass_least [of lu x xs] by auto
qed simp

subsection \<open>Well-formed pools\<close>

text \<open>
  The map's entries name existing objects by their ids; objects and senders have the same numbers; the
  ids carry times of past calls of the creator; the limit holds; and every sender that was made is in
  the pool or closed.
\<close>

definition pool_wf :: "creator_env \<Rightarrow> conn_pool \<Rightarrow> bool" where
  [inv_defs]: "pool_wf env cp \<longleftrightarrow>
     distinct (map fst (cp_connections cp)) \<and>
     (\<forall>x \<in> set (cp_connections cp). snd x < length (cp_objs cp) \<and> pc_ID (pool_obj cp (snd x)) = fst x) \<and>
     (\<forall>k < length (cp_objs cp). pc_Sender (pool_obj cp k) = k \<and> fst (pc_ID (pool_obj cp k)) \<in> (fst \<circ> env) ` {..<cp_calls cp}) \<and>
     pool_len cp \<le> max 0 (pf_MaxConnections (cp_config cp)) \<and>
     (\<forall>k < length (cp_objs cp). k \<in> snd ` set (cp_connections cp) \<or> k \<in> cp_closed cp) \<and>
     (cp_stopped cp \<or> pm_TotalConnections (cp_metrics cp) = pool_len cp)"

lemma pool_wf_frame [simp]:
  "pool_wf env (cp \<lparr> cp_connMutex := l \<rparr>) = pool_wf env cp"
  "pool_wf env (cp \<lparr> cp_roundRobin := r \<rparr>) = pool_wf env cp"
  "pool_wf env (cp \<lparr> cp_lastScaleUp := t \<rparr>) = pool_wf env cp"
  "pool_wf env (cp \<lparr> cp_lastScaleDown := t \<rparr>) = pool_wf env cp"
  "pool_wf env (scaled now cp) = pool_wf env cp"
  by (simp_all add: pool_wf_def scaled_def)

lemma pool_wf_new: "pool_wf env (NewConnectionPool a r c)"
  by (simp add: pool_wf_def NewConnectionPool_def zero_pool_metrics_def)

lemma pool_wf_snd_distinct:
  assumes "pool_wf env cp" shows "distinct (map snd (cp_connections cp))"
proof -
  have "distinct (map (\<lambda>x. pc_ID (pool_obj cp (snd x))) (cp_connections cp))"
    using assms by (simp add: pool_wf_def cong: map_cong)
  then have "distinct (map (\<lambda>k. pc_ID (pool_obj cp k)) (map snd (cp_connections cp)))" by (simp add: comp_def)
  then show ?thesis by (simp only: distinct_map)
qed

lemma env_fresh:
  assumes "pool_wf env cp" "strict_mono (fst \<circ> env)"
  shows "(fst (env (cp_calls cp)), n) \<notin> fst ` set (cp_connections cp)"
proof
  assume "(fst (env (cp_calls cp)), n) \<in> fst ` set (cp_connections cp)"
  then obtain x where "x \<in> set (cp_connections cp)" "fst x = (fst (env (cp_calls cp)), n)" by force
  then have "fst (env (cp_calls cp)) \<in> (fst \<circ> env) ` {..<cp_calls cp}" using assms(1) by (auto simp: pool_wf_def)
  then obtain j where "j < cp_calls cp" "fst (env j) = fst (env (cp_calls cp))" by auto
  then show False using strict_monoD [OF assms(2), of j "cp_calls cp"] by simp
qed

lemma pool_wf_create_fresh:
  assumes "pool_wf env cp" "create_body env cp = Some (e, cp1)"
    and new: "e = None \<Longrightarrow> (fst (env (cp_calls cp)), length (cp_connections cp)) \<notin> fst ` set (cp_connections cp)"
  shows "pool_wf env cp1"
proof -
  obtain now ok where env: "env (cp_calls cp) = (now, ok)" by (cases "env (cp_calls cp)")
  have calls: "(fst \<circ> env) ` {..<n} \<subseteq> (fst \<circ> env) ` {..<Suc n}" for n by auto
  consider "cp1 = cp" | "cp1 = cp \<lparr> cp_calls := cp_calls cp + 1 \<rparr>" | "ok" "e = None" "pool_len cp < pf_MaxConnections (cp_config cp)"
    using assms(2) by (auto simp: create_body_def env Let_def split: if_splits)
  then show ?thesis
  proof cases
    case 3
    then have notin: "(now, length (cp_connections cp)) \<notin> fst ` set (cp_connections cp)" using new env by simp
    then have fresh: "gm_set (cp_connections cp) (now, length (cp_connections cp)) k
        = cp_connections cp @ [((now, length (cp_connections cp)), k)]" for k by (intro gm_set_fresh) auto
    have "cp1 = cp \<lparr> cp_calls := cp_calls cp + 1, cp_connections := cp_connections cp @ [((now, length (cp_connections cp)), length (cp_objs cp))],
         cp_objs := cp_objs cp @ [NewPoolConnection (now, length (cp_connections cp)) (length (cp_objs cp)) now],
         cp_metrics := (cp_metrics cp) \<lparr> pm_TotalConnections := pm_TotalConnections (cp_metrics cp) + 1,
                                         pm_IdleConnections := pm_IdleConnections (cp_metrics cp) + 1 \<rparr> \<rparr>"
      using 3 assms(2) by (simp add: create_body_def env fresh Let_def)
    then show ?thesis using assms(1) calls [of "cp_calls cp"] notin 3(3)
      by (auto simp: pool_wf_def NewPoolConnection_def nth_append lessThan_Suc less_Suc_eq env)
  qed (use assms(1) calls [of "cp_calls cp"] in \<open>auto simp: pool_wf_def lessThan_Suc\<close>)
qed

lemma pool_wf_create:
  assumes "pool_wf env cp" "strict_mono (fst \<circ> env)" "create_body env cp = Some (e, cp1)"
  shows "pool_wf env cp1"
  by (rule pool_wf_create_fresh [OF assms(1,3) env_fresh [OF assms(1,2)]])

text \<open>The ids that the pool has generated, in order. A creation adds one; as long as all differ, the new one is not in the map.\<close>

definition made_ids :: "conn_pool \<Rightarrow> conn_id list" where
  "made_ids cp = map pc_ID (cp_objs cp)"

lemma create_body_ids:
  "create_body env cp = Some (e, cp1) \<Longrightarrow>
    made_ids cp1 = made_ids cp @ (if e = None then [(fst (env (cp_calls cp)), length (cp_connections cp))] else [])"
  by (cases "env (cp_calls cp)") (auto simp: create_body_def made_ids_def NewPoolConnection_def Let_def split: if_splits)

lemma pool_wf_create_distinct:
  assumes "pool_wf env cp" "create_body env cp = Some (e, cp1)" "distinct (made_ids cp1)"
  shows "pool_wf env cp1"
proof (rule pool_wf_create_fresh [OF assms(1,2)])
  assume "e = None"
  then have "(fst (env (cp_calls cp)), length (cp_connections cp)) \<notin> set (made_ids cp)"
    using create_body_ids [OF assms(2)] assms(3) by simp
  moreover have "fst x \<in> set (made_ids cp)" if "x \<in> set (cp_connections cp)" for x
  proof -
    have "snd x < length (cp_objs cp)" "pc_ID (pool_obj cp (snd x)) = fst x" using assms(1) that by (simp_all add: pool_wf_def)
    then show ?thesis unfolding made_ids_def by (metis length_map nth_map nth_mem)
  qed
  ultimately show "(fst (env (cp_calls cp)), length (cp_connections cp)) \<notin> fst ` set (cp_connections cp)" by (metis imageE)
qed

text \<open>Dropping an entry whose sender is closed.\<close>

definition drops :: "nat \<Rightarrow> conn_pool \<Rightarrow> conn_pool \<Rightarrow> bool" where
  "drops k cp cp1 \<longleftrightarrow> cp_objs cp1 = cp_objs cp \<and> cp_config cp1 = cp_config cp \<and> cp_calls cp1 = cp_calls cp
     \<and> cp_stopped cp1 = cp_stopped cp \<and> cp_connMutex cp1 = cp_connMutex cp \<and> cp_closed cp1 = insert k (cp_closed cp)
     \<and> cp_connections cp1 = filter (\<lambda>x. snd x \<noteq> k) (cp_connections cp)
     \<and> pm_TotalConnections (cp_metrics cp1) = pm_TotalConnections (cp_metrics cp) - 1"

lemma gm_del_snd:
  assumes "pool_wf env cp" "(cid, k) \<in> set (cp_connections cp)"
  shows "gm_del (cp_connections cp) cid = filter (\<lambda>x. snd x \<noteq> k) (cp_connections cp)"
proof -
  have d: "distinct (map fst (cp_connections cp))" and cid: "pc_ID (pool_obj cp k) = cid"
    using assms by (auto simp: pool_wf_def)
  have "fst x = cid \<longleftrightarrow> snd x = k" if x: "x \<in> set (cp_connections cp)" for x
  proof
    assume "fst x = cid"
    then show "snd x = k" using eq_key_imp_eq_value [OF d, of cid "snd x" k] x assms(2) by force
  next
    have "pc_ID (pool_obj cp (snd x)) = fst x" using assms(1) x by (simp add: pool_wf_def)
    moreover assume "snd x = k"
    ultimately show "fst x = cid" using cid by simp
  qed
  then show ?thesis unfolding AList.delete_eq case_prod_unfold by (intro filter_cong) metis+
qed

lemma filter_snd_length:
  assumes "pool_wf env cp" "k \<in> snd ` set (cp_connections cp)"
  shows "int (length (filter (\<lambda>x. snd x \<noteq> k) (cp_connections cp))) = pool_len cp - 1"
proof -
  have "length (filter (\<lambda>x. snd x = k) xs) = count (mset (map snd xs)) k" for xs :: "(conn_id, nat) gomap"
    by (induction xs) auto
  then have "length (filter (\<lambda>x. snd x = k) (cp_connections cp)) = count (mset (map snd (cp_connections cp))) k" .
  also have "\<dots> = 1"
    using assms pool_wf_snd_distinct [OF assms(1)] by (simp add: distinct_count_atmost_1)
  finally show ?thesis using sum_length_filter_compl [of "\<lambda>x. snd x = k" "cp_connections cp"] by simp
qed

lemma drops_wf:
  assumes "pool_wf env cp" "k \<in> snd ` set (cp_connections cp)" "drops k cp cp1"
  shows "pool_wf env cp1"
proof -
  have "ka \<in> snd ` set (cp_connections cp1) \<or> ka \<in> cp_closed cp1" if "ka < length (cp_objs cp)" for ka
    using assms(1,3) that unfolding pool_wf_def drops_def by fastforce
  then show ?thesis
    using assms(1,3) filter_snd_length [OF assms(1,2)] by (auto simp: pool_wf_def drops_def distinct_map_filter)
qed

lemma drop_idle_drops:
  assumes "pool_wf env cp" "k \<in> snd ` set (cp_connections cp)"
  shows "drops k cp (drop_idle k cp)"
proof -
  obtain cid where x: "(cid, k) \<in> set (cp_connections cp)" using assms(2) by auto
  then have "pc_ID (pool_obj cp k) = cid" "pc_Sender (pool_obj cp k) = k" using assms(1) by (auto simp: pool_wf_def)
  then show ?thesis using gm_del_snd [OF assms(1) x] by (simp add: drops_def drop_idle_def)
qed

lemma drop_conn_drops:
  assumes "pool_wf env cp" "x \<in> set (cp_connections cp)"
  shows "drops (snd x) cp (drop_conn x cp)"
proof -
  have "pc_Sender (pool_obj cp (snd x)) = snd x" using assms by (auto simp: pool_wf_def)
  then show ?thesis using gm_del_snd [OF assms(1), of "fst x" "snd x"] assms(2) by (simp add: drops_def drop_conn_def)
qed

text \<open>A loop of drops removes exactly the given objects and closes their senders.\<close>

definition dropped :: "nat set \<Rightarrow> conn_pool \<Rightarrow> conn_pool \<Rightarrow> bool" where
  "dropped K cp cp1 \<longleftrightarrow> cp_objs cp1 = cp_objs cp \<and> cp_config cp1 = cp_config cp \<and> cp_calls cp1 = cp_calls cp
     \<and> cp_stopped cp1 = cp_stopped cp \<and> cp_connMutex cp1 = cp_connMutex cp
     \<and> cp_closed cp1 = cp_closed cp \<union> K \<and> cp_connections cp1 = filter (\<lambda>x. snd x \<notin> K) (cp_connections cp)"

lemma fold_drops:
  assumes "\<And>x cp. pool_wf env cp \<Longrightarrow> x \<in> A cp \<Longrightarrow> drops (f x) cp (d x cp)"
    and "\<And>x y cp cp1. y \<in> A cp \<Longrightarrow> f x \<noteq> f y \<Longrightarrow> drops (f x) cp cp1 \<Longrightarrow> y \<in> A cp1"
    and "\<And>x cp. x \<in> A cp \<Longrightarrow> f x \<in> snd ` set (cp_connections cp)"
    and "pool_wf env cp" "set xs \<subseteq> A cp" "distinct (map f xs)"
  shows "pool_wf env (fold d xs cp) \<and> dropped (f ` set xs) cp (fold d xs cp)"
  using assms(4-)
proof (induction xs arbitrary: cp)
  case Nil
  then show ?case by (simp add: dropped_def)
next
  case (Cons x xs)
  have d: "drops (f x) cp (d x cp)" using assms(1) Cons.prems by auto
  have "pool_wf env (d x cp)" using drops_wf [OF Cons.prems(1) _ d] assms(3) Cons.prems by auto
  moreover have "set xs \<subseteq> A (d x cp)" using assms(2) [OF _ _ d] Cons.prems by fastforce
  ultimately have "pool_wf env (fold d xs (d x cp)) \<and> dropped (f ` set xs) (d x cp) (fold d xs (d x cp))"
    using Cons by auto
  then show ?case using d by (auto simp: drops_def dropped_def intro: filter_cong)
qed

lemma fold_drop_idle:
  assumes "pool_wf env cp" "set ks \<subseteq> snd ` set (cp_connections cp)" "distinct ks"
  shows "pool_wf env (fold drop_idle ks cp) \<and> dropped (set ks) cp (fold drop_idle ks cp)"
  using fold_drops [of env "\<lambda>cp. snd ` set (cp_connections cp)" "\<lambda>k. k" drop_idle cp ks] assms drop_idle_drops
  by (fastforce simp: drops_def image_iff)

lemma fold_drop_conn:
  assumes "pool_wf env cp" "set xs \<subseteq> set (cp_connections cp)" "distinct xs"
  shows "pool_wf env (fold drop_conn xs cp) \<and> dropped (snd ` set xs) cp (fold drop_conn xs cp)"
proof -
  have "inj_on snd (set xs)"
    using pool_wf_snd_distinct [OF assms(1)] assms(2) by (meson distinct_map inj_on_subset)
  then have "distinct (map snd xs)" using assms(3) by (simp add: distinct_map)
  then show ?thesis
    using fold_drops [of env "\<lambda>cp. set (cp_connections cp)" snd drop_conn cp xs] assms drop_conn_drops
    by (fastforce simp: drops_def)
qed

subsection \<open>Every critical section keeps a pool well-formed\<close>

lemma upd_obj_simps [simp]:
  "cp_connections (upd_obj k f cp) = cp_connections cp" "cp_closed (upd_obj k f cp) = cp_closed cp"
  "cp_config (upd_obj k f cp) = cp_config cp" "cp_calls (upd_obj k f cp) = cp_calls cp"
  "cp_stopped (upd_obj k f cp) = cp_stopped cp" "cp_metrics (upd_obj k f cp) = cp_metrics cp"
  "cp_connMutex (upd_obj k f cp) = cp_connMutex cp" "length (cp_objs (upd_obj k f cp)) = length (cp_objs cp)"
  "j < length (cp_objs cp) \<Longrightarrow> pool_obj (upd_obj k f cp) j = (if j = k then f (pool_obj cp j) else pool_obj cp j)"
  by (auto simp: upd_obj_def)

lemma upd_obj_wf:
  assumes "pool_wf env cp" "\<And>c. pc_ID (f c) = pc_ID c" "\<And>c. pc_Sender (f c) = pc_Sender c"
  shows "pool_wf env (upd_obj k f cp)"
  using assms by (auto simp: pool_wf_def)

lemma conn_updates_keep [simp]:
  "pc_ID (UpdateMetrics ok rt now c) = pc_ID c" "pc_Sender (UpdateMetrics ok rt now c) = pc_Sender c"
  "pc_ID (healthCheck_conn cf sc now c) = pc_ID c" "pc_Sender (healthCheck_conn cf sc now c) = pc_Sender c"
  by (auto simp: UpdateMetrics_def updateCircuitBreaker_def healthCheck_conn_def Let_def)

lemma with_connMutex_Some:
  "with_connMutex body cp = Some (r, cp1) \<longleftrightarrow> cp_connMutex cp = RW_Free
     \<and> (\<exists>cp2. body (cp \<lparr> cp_connMutex := RW_Writer \<rparr>) = Some (r, cp2) \<and> cp1 = cp2 \<lparr> cp_connMutex := RW_Free \<rparr>)"
  by (auto simp: with_connMutex_def split: rw_mutex.splits)

lemma createConnection_wf:
  assumes "pool_wf env cp" "strict_mono (fst \<circ> env)" "createConnection env cp = Some (e, cp1)"
  shows "pool_wf env cp1"
  using assms pool_wf_create [of env "cp \<lparr> cp_connMutex := RW_Writer \<rparr>"] by (auto simp: createConnection_def with_connMutex_Some)

lemma take_sorted_idle:
  assumes "pool_wf env cp"
  shows "set (take n (exch_sort lu (idle_conns cp))) \<subseteq> snd ` set (cp_connections cp)" "distinct (take n (exch_sort lu (idle_conns cp)))"
  using pool_wf_snd_distinct [OF assms] set_take_subset [of n "exch_sort lu (idle_conns cp)"]
  by (auto simp: idle_conns_def distinct_map_filter)

lemma scaleDown_wf:
  assumes "pool_wf env cp" "scaleDown n cp = Some (e, cp1)"
  shows "pool_wf env cp1"
proof -
  let ?cp = "cp \<lparr> cp_connMutex := RW_Writer \<rparr>"
  have wf: "pool_wf env ?cp" using assms(1) by simp
  note fold_drop_idle [OF wf take_sorted_idle [OF wf]]
  then show ?thesis using assms wf by (auto simp: scaleDown_def with_connMutex_Some Let_def split: if_splits)
qed

lemma drop_dead_wf:
  assumes "pool_wf env cp"
  shows "pool_wf env (drop_dead now cp) \<and>
    dropped (snd ` {x \<in> set (cp_connections cp). to_remove now (pool_obj cp (snd x))}) cp (drop_dead now cp)"
proof -
  have "distinct (cp_connections cp)" using assms by (simp add: pool_wf_def distinct_map)
  then show ?thesis
    using fold_drop_conn [OF assms, of "filter (\<lambda>x. to_remove now (pool_obj cp (snd x))) (cp_connections cp)"]
    by (simp add: drop_dead_def)
qed

text \<open>Inside \<open>cleanupConnections\<close> the first replacement blocks.\<close>

lemma create_needed_blocked: "cp_connMutex cp = RW_Writer \<Longrightarrow> create_needed env n cp = (if n = 0 then Some ((), cp) else None)"
  by (cases n) (auto simp: createConnection_def with_connMutex_def)

lemma cleanup_eq:
  assumes "pool_wf env cp" "cp_connMutex cp = RW_Free"
  shows "cleanupConnections env now cp =
    (if pool_len (drop_dead now (cp \<lparr> cp_connMutex := RW_Writer \<rparr>)) < pf_MinConnections (cp_config cp) then None
     else Some ((), (drop_dead now (cp \<lparr> cp_connMutex := RW_Writer \<rparr>)) \<lparr> cp_connMutex := RW_Free \<rparr>))"
  using drop_dead_wf [of env "cp \<lparr> cp_connMutex := RW_Writer \<rparr>" now] assms
  by (simp add: cleanupConnections_def with_connMutex_def Let_def create_needed_blocked dropped_def)

lemma cleanup_wf:
  assumes "pool_wf env cp" "cleanupConnections env now cp = Some (u, cp1)"
  shows "pool_wf env cp1"
proof -
  have "cp_connMutex cp = RW_Free" using assms(2) by (auto simp: cleanupConnections_def with_connMutex_Some)
  then show ?thesis using assms drop_dead_wf [of env "cp \<lparr> cp_connMutex := RW_Writer \<rparr>" now] by (auto simp: cleanup_eq split: if_splits)
qed

lemma selectConnection_snd: "\<exists>r. snd (selectConnection hs cp) = cp \<lparr> cp_roundRobin := r \<rparr>"
  by (auto simp: selectConnection_def rr_select_def Let_def intro: exI [of _ "cp_roundRobin cp"] split: lb_strategy.splits option.splits)

lemma pool_Stop_wf: "pool_wf env cp \<Longrightarrow> pool_Stop cp = Some cp1 \<Longrightarrow> pool_wf env cp1"
  by (fastforce simp: pool_Stop_def with_connMutex_Some pool_wf_def)

lemma reorder_wf: "pool_wf env cp \<Longrightarrow> mset cs = mset (cp_connections cp) \<Longrightarrow> pool_wf env (cp \<lparr> cp_connections := cs \<rparr>)"
proof -
  assume wf: "pool_wf env cp" and m: "mset cs = mset (cp_connections cp)"
  then have "set cs = set (cp_connections cp)" "length cs = length (cp_connections cp)"
    "distinct (map fst cs) = distinct (map fst (cp_connections cp))"
    using mset_eq_setD [OF m] mset_eq_length [OF m] mset_eq_imp_distinct_iff [of "map fst cs" "map fst (cp_connections cp)"] by auto
  then show ?thesis using wf by (simp add: pool_wf_def)
qed

lemma sender_closed_wf: "pool_wf env cp \<Longrightarrow> pool_wf env (cp \<lparr> cp_closed := insert k (cp_closed cp) \<rparr>)"
  by (simp add: pool_wf_def) blast

lemma pool_do_wf:
  assumes "pool_wf env cp" "strict_mono (fst \<circ> env)" "pool_do env a cp = Some cp1"
  shows "pool_wf env cp1"
proof (cases a)
  case (PRoundRobin hs)
  then show ?thesis using assms selectConnection_snd [of hs cp] by auto
qed (use assms in \<open>auto simp: healthCheckConnection_def intro: createConnection_wf sender_closed_wf scaleDown_wf cleanup_wf upd_obj_wf pool_Stop_wf reorder_wf
    split: if_splits\<close>)

lemma pool_run_wf: "pool_wf env cp \<Longrightarrow> strict_mono (fst \<circ> env) \<Longrightarrow> pool_run env as cp = Some cp1 \<Longrightarrow> pool_wf env cp1"
  by (induction env as cp rule: pool_run.induct) (auto split: option.splits dest: pool_do_wf)

subsection \<open>Runs in which the generated ids differ\<close>

lemma made_ids_frame [simp]:
  "made_ids (cp \<lparr> cp_connMutex := l \<rparr>) = made_ids cp" "made_ids (cp \<lparr> cp_closed := cl \<rparr>) = made_ids cp"
  "made_ids (cp \<lparr> cp_roundRobin := r \<rparr>) = made_ids cp" "made_ids (cp \<lparr> cp_connections := cs \<rparr>) = made_ids cp" "made_ids (scaled now cp) = made_ids cp"
  by (simp_all add: made_ids_def scaled_def)

lemma made_ids_upd [simp]:
  assumes "\<And>c. pc_ID (f c) = pc_ID c"
  shows "made_ids (upd_obj k f cp) = made_ids cp"
proof -
  have "made_ids (upd_obj k f cp) = (made_ids cp)[k := pc_ID (pool_obj cp k)]" by (simp add: made_ids_def upd_obj_def map_update assms)
  moreover have "(made_ids cp)[k := pc_ID (pool_obj cp k)] = made_ids cp"
  proof (cases "k < length (cp_objs cp)")
    case True
    then have "pc_ID (pool_obj cp k) = made_ids cp ! k" by (simp add: made_ids_def)
    then show ?thesis by (simp only: list_update_id)
  qed (simp add: made_ids_def list_update_beyond)
  ultimately show ?thesis by simp
qed

lemma made_ids_drops [simp]:
  "made_ids (drop_idle k cp) = made_ids cp" "made_ids (drop_conn x cp) = made_ids cp"
  by (simp_all add: drop_idle_def drop_conn_def made_ids_def)

lemma made_ids_folds [simp]:
  "made_ids (fold drop_idle ks cp) = made_ids cp" "made_ids (fold drop_conn xs cp) = made_ids cp"
  by (induction ks arbitrary: cp, auto) (induction xs arbitrary: cp, auto)

lemma createConnection_ids: "createConnection env cp = Some (e, cp1) \<Longrightarrow> prefix (made_ids cp) (made_ids cp1)"
  using create_body_ids by (fastforce simp: createConnection_def with_connMutex_Some)

lemma create_needed_ids: "create_needed env n cp = Some (u, cp1) \<Longrightarrow> prefix (made_ids cp) (made_ids cp1)"
proof (induction env n cp rule: create_needed.induct)
  case (2 env n cp)
  then show ?case using createConnection_ids by (fastforce split: option.splits prod.splits intro: prefix_order.order_trans)
qed simp

lemma pool_do_ids: "pool_do env a cp = Some cp1 \<Longrightarrow> prefix (made_ids cp) (made_ids cp1)"
proof (cases a)
  case PCreate
  assume "pool_do env a cp = Some cp1"
  then show ?thesis using PCreate createConnection_ids by auto
next
  case (PScaleDown n)
  assume "pool_do env a cp = Some cp1"
  then show ?thesis using PScaleDown by (auto simp: scaleDown_def with_connMutex_Some Let_def split: if_splits)
next
  case (PCleanup now)
  assume "pool_do env a cp = Some cp1"
  then show ?thesis using PCleanup create_needed_ids
    by (fastforce simp: cleanupConnections_def with_connMutex_Some Let_def drop_dead_def)
next
  case (PRoundRobin hs)
  assume "pool_do env a cp = Some cp1"
  then show ?thesis using PRoundRobin selectConnection_snd [of hs cp] by auto
next
  case PStop
  assume "pool_do env a cp = Some cp1"
  then show ?thesis using PStop by (auto simp: pool_Stop_def with_connMutex_Some made_ids_def)
qed (auto simp: healthCheckConnection_def split: if_splits)

lemma pool_run_ids: "pool_run env as cp = Some cp1 \<Longrightarrow> prefix (made_ids cp) (made_ids cp1)"
  by (induction env as cp rule: pool_run.induct) (auto split: option.splits dest: pool_do_ids prefix_order.order_trans)

lemma pool_do_wf_distinct:
  assumes "pool_wf env cp" "pool_do env a cp = Some cp1" "distinct (made_ids cp1)"
  shows "pool_wf env cp1"
proof (cases a)
  case PCreate
  then obtain e cp2 where "create_body env (cp \<lparr> cp_connMutex := RW_Writer \<rparr>) = Some (e, cp2)" "cp1 = cp2 \<lparr> cp_connMutex := RW_Free \<rparr>"
    using assms(2) by (auto simp: createConnection_def with_connMutex_Some)
  then show ?thesis using pool_wf_create_distinct [of env "cp \<lparr> cp_connMutex := RW_Writer \<rparr>" e cp2] assms(1,3) by simp
next
  case (PRoundRobin hs)
  then show ?thesis using assms selectConnection_snd [of hs cp] by auto
qed (use assms in \<open>auto simp: healthCheckConnection_def intro: sender_closed_wf scaleDown_wf cleanup_wf upd_obj_wf pool_Stop_wf reorder_wf
    split: if_splits\<close>)

lemma pool_run_wf_distinct:
  "pool_wf env cp \<Longrightarrow> pool_run env as cp = Some cp1 \<Longrightarrow> distinct (made_ids cp1) \<Longrightarrow> pool_wf env cp1"
proof (induction env as cp rule: pool_run.induct)
  case (2 env a as cp)
  then obtain cp2 where 1: "pool_do env a cp = Some cp2" "pool_run env as cp2 = Some cp1" by (auto split: option.splits)
  have "distinct (made_ids cp2)" using pool_run_ids [OF 1(2)] 2(4) by (auto simp: prefix_def)
  then show ?case using 2 1 pool_do_wf_distinct by blast
qed auto

subsection \<open>Operations on a free pool return\<close>

lemma createConnection_returns:
  assumes "cp_connMutex cp = RW_Free"
  shows "\<exists>e cp1. createConnection env cp = Some (e, cp1) \<and> cp_connMutex cp1 = RW_Free \<and> cp_config cp1 = cp_config cp"
  using assms by (auto simp: createConnection_def with_connMutex_def create_body_def Let_def split: prod.splits)

lemma scaleUp_returns:
  "cp_connMutex cp = RW_Free \<Longrightarrow> \<exists>e cp1. scaleUp env n cp = Some (e, cp1) \<and> cp_connMutex cp1 = RW_Free \<and> cp_config cp1 = cp_config cp"
proof (induction n arbitrary: cp)
  case (Suc n)
  obtain e cp1 where c: "createConnection env cp = Some (e, cp1)" "cp_connMutex cp1 = RW_Free" "cp_config cp1 = cp_config cp"
    using createConnection_returns [OF Suc.prems] by blast
  then show ?case using Suc.IH [OF c(2)] by (cases e) auto
qed simp

lemma scaleDown_returns:
  "cp_connMutex cp = RW_Free \<Longrightarrow> \<exists>e cp1. scaleDown n cp = Some (e, cp1) \<and> cp_connMutex cp1 = RW_Free"
  by (auto simp: scaleDown_def with_connMutex_def Let_def)

lemma check_up_returns:
  "cp_connMutex cp = RW_Free \<Longrightarrow> \<exists>cp1. check_up env now lr n cp = Some cp1 \<and> cp_connMutex cp1 = RW_Free"
  using scaleUp_returns [of cp env "nat (min (pf_MaxConnections (cp_config cp) - n) (max 1 (n div 4)))"]
  by (auto simp: check_up_def Let_def scaled_def split: option.splits)

lemma check_down_returns: "cp_connMutex cp = RW_Free \<Longrightarrow> \<exists>cp1. check_down now lr n cp = Some cp1"
  using scaleDown_returns [of cp "nat (min (n - pf_MinConnections (cp_config cp)) (max 1 (n div 4)))"]
  by (auto simp: check_down_def Let_def split: option.splits)

lemma checkAndScale_returns:
  assumes "cp_connMutex cp = RW_Free"
  shows "\<exists>cp1. checkAndScale env now cp = Some cp1"
proof -
  let ?lr = "fl64 (of_nat (active_conns cp) / of_int (pool_len cp))"
  obtain cp1 where "check_up env now ?lr (pool_len cp) cp = Some cp1" "cp_connMutex cp1 = RW_Free"
    using check_up_returns [OF assms] by blast
  moreover from this obtain cp2 where "check_down now ?lr (pool_len cp) cp1 = Some cp2" using check_down_returns by blast
  ultimately show ?thesis using assms by (simp add: checkAndScale_def Let_def)
qed

lemma go_mod_range: "0 \<le> a \<Longrightarrow> 0 < b \<Longrightarrow> 0 \<le> go_mod a b \<and> go_mod a b < b"
  by (simp add: go_mod_nonneg)

lemma sint_succ: "0 \<le> sint (w :: u64) \<Longrightarrow> sint w < maxInt64 \<Longrightarrow> sint (w + 1) = sint w + 1"
  by (simp add: signed_eq_0_iff sint_word_ariths signed_take_bit_int_eq_self maxInt64_def)

lemma rr_select_member:
  assumes "hs \<noteq> []" "0 \<le> sint (cp_roundRobin cp)" "sint (cp_roundRobin cp) < maxInt64"
  shows "\<exists>k \<in> set hs. fst (rr_select hs cp) = Inr (Some k)"
  using assms go_mod_range [of "sint (cp_roundRobin cp) + 1" "int (length hs)"]
  by (auto simp: rr_select_def Let_def sint_succ)

lemma select_min_in: "select_min key ok hs least sel = Some k \<Longrightarrow> k \<in> set hs \<or> sel = Some k"
  by (induction key ok hs least sel rule: select_min.induct) (auto split: if_splits)

lemma select_min_least:
  "select_min key ok hs least sel = Some k \<Longrightarrow> (sel = Some k \<longrightarrow> least = key k) \<Longrightarrow> key k \<le> least \<and> (\<forall>j \<in> set hs. ok j \<longrightarrow> key k \<le> key j \<or> least \<le> key j)"
proof (induction key ok hs least sel rule: select_min.induct)
  case (2 key ok j ks least sel)
  then show ?case by (cases "key j < least \<and> ok j") fastforce+
qed simp

lemma select_min_Some: "sel \<noteq> None \<or> (\<exists>k \<in> set hs. key k < least \<and> ok k) \<Longrightarrow> select_min key ok hs least sel \<noteq> None"
  by (induction key ok hs least sel rule: select_min.induct) (auto split: if_splits)

lemma selectConnection_member:
  assumes "hs \<noteq> []" "0 \<le> sint (cp_roundRobin cp)" "sint (cp_roundRobin cp) < maxInt64"
    and "\<forall>k \<in> set hs. mt_TotalRequests (pc_Metrics (pool_obj cp k)) < maxInt64"
  shows "\<exists>k \<in> set hs. fst (selectConnection hs cp) = Inr (Some k) \<and>
    (pf_LoadBalanceStrategy (cp_config cp) = least_connections \<longrightarrow>
      (\<forall>j \<in> set hs. mt_TotalRequests (pc_Metrics (pool_obj cp k)) \<le> mt_TotalRequests (pc_Metrics (pool_obj cp j))))"
proof -
  let ?req = "\<lambda>k. mt_TotalRequests (pc_Metrics (pool_obj cp k))"
  have "select_min ?req (\<lambda>k. True) hs maxInt64 None \<noteq> None"
    using assms(1,4) by (intro select_min_Some) (auto simp: neq_Nil_conv)
  then obtain k where "select_min ?req (\<lambda>k. True) hs maxInt64 None = Some k" by auto
  moreover from this have "k \<in> set hs" "\<forall>j \<in> set hs. ?req k \<le> ?req j"
    using select_min_in [of ?req "\<lambda>k. True" hs maxInt64 None k] select_min_least [of ?req "\<lambda>k. True" hs maxInt64 None k] assms(4) by force+
  moreover note rr_select_member [OF assms(1-3)]
  ultimately show ?thesis using assms(1)
    by (cases "pf_LoadBalanceStrategy (cp_config cp)") (auto simp: selectConnection_def Let_def dest!: select_min_in split: option.splits)
qed

text \<open>The four outcomes of a creation on a free pool.\<close>

lemma unlocked [simp]: "cp_connMutex cp = RW_Free \<Longrightarrow> cp \<lparr> cp_connMutex := RW_Free \<rparr> = cp"
  by simp

lemma create_full:
  "cp_connMutex cp = RW_Free \<Longrightarrow> pf_MaxConnections (cp_config cp) \<le> pool_len cp \<Longrightarrow>
   createConnection env cp = Some (Some ErrMaxConnections, cp)"
  by (simp add: createConnection_def with_connMutex_def create_body_def)

lemma create_nil:
  "cp_connMutex cp = RW_Free \<Longrightarrow> pool_len cp < pf_MaxConnections (cp_config cp) \<Longrightarrow> \<not> snd (env (cp_calls cp)) \<Longrightarrow>
   createConnection env cp = Some (Some ErrCreateSender, cp \<lparr> cp_calls := cp_calls cp + 1 \<rparr>)"
  by (auto simp: createConnection_def with_connMutex_def create_body_def Let_def case_prod_unfold)

lemma create_fresh:
  assumes "pool_wf env cp" "strict_mono (fst \<circ> env)" "cp_connMutex cp = RW_Free" "pool_len cp < pf_MaxConnections (cp_config cp)"
    "snd (env (cp_calls cp))"
  shows "\<exists>cp1 cid now. createConnection env cp = Some (None, cp1) \<and> cp_connMutex cp1 = RW_Free \<and> cp_config cp1 = cp_config cp
     \<and> cp_roundRobin cp1 = cp_roundRobin cp \<and> cp_closed cp1 = cp_closed cp
     \<and> cp_objs cp1 = cp_objs cp @ [NewPoolConnection cid (length (cp_objs cp)) now]
     \<and> map snd (cp_connections cp1) = map snd (cp_connections cp) @ [length (cp_objs cp)]"
proof -
  obtain now where env: "env (cp_calls cp) = (now, True)" using assms(5) by (cases "env (cp_calls cp)") auto
  have "(now, n) \<notin> fst ` set (cp_connections cp)" for n
    using env_fresh [OF assms(1,2)] env by auto
  then have fresh: "gm_set (cp_connections cp) (now, n) k = cp_connections cp @ [((now, n), k)]" for n k
    by (intro gm_set_fresh) auto
  show ?thesis using assms(3,4) by (auto simp: createConnection_def with_connMutex_def create_body_def env fresh Let_def)
qed

lemma healthy_conns_after_create:
  assumes "pool_wf env cp" "healthy_conns cp = []" "length (cp_objs cp) \<notin> cp_closed cp" "cp_closed cp1 = cp_closed cp"
    and "cp_objs cp1 = cp_objs cp @ [NewPoolConnection cid (length (cp_objs cp)) now]"
    and "map snd (cp_connections cp1) = map snd (cp_connections cp) @ [length (cp_objs cp)]"
  shows "healthy_conns cp1 = [length (cp_objs cp)]"
proof -
  have "\<forall>k \<in> snd ` set (cp_connections cp). k < length (cp_objs cp)" using assms(1) by (auto simp: pool_wf_def)
  then show ?thesis using assms(2-)
    by (auto simp: healthy_conns_def filter_empty_conv nth_append IsHealthy_def NewPoolConnection_def)
qed

lemma get_selected_spec:
  assumes "cp_connMutex cp = RW_Free" "hs \<noteq> []" "0 \<le> sint (cp_roundRobin cp)" "sint (cp_roundRobin cp) < maxInt64"
    and "\<forall>k \<in> set hs. mt_TotalRequests (pc_Metrics (pool_obj cp k)) < maxInt64"
  shows "\<exists>k cp1. get_selected env now hs cp = Some (GotConn (Some k), cp1) \<and> k \<in> set hs \<and>
    (pf_LoadBalanceStrategy (cp_config cp) = least_connections \<longrightarrow>
      (\<forall>j \<in> set hs. mt_TotalRequests (pc_Metrics (pool_obj cp k)) \<le> mt_TotalRequests (pc_Metrics (pool_obj cp j))))"
proof -
  obtain k where k: "k \<in> set hs" "fst (selectConnection hs cp) = Inr (Some k)" "pf_LoadBalanceStrategy (cp_config cp) = least_connections \<longrightarrow>
      (\<forall>j \<in> set hs. mt_TotalRequests (pc_Metrics (pool_obj cp k)) \<le> mt_TotalRequests (pc_Metrics (pool_obj cp j)))"
    using selectConnection_member [OF assms(2-)] by auto
  obtain r where "snd (selectConnection hs cp) = cp \<lparr> cp_roundRobin := r \<rparr>" using selectConnection_snd by blast
  then have "selectConnection hs cp = (Inr (Some k), cp \<lparr> cp_roundRobin := r \<rparr>)" using k(2) by (cases "selectConnection hs cp") simp
  moreover obtain cp1 where "checkAndScale env now (cp \<lparr> cp_roundRobin := r \<rparr>) = Some cp1"
    using checkAndScale_returns [of "cp \<lparr> cp_roundRobin := r \<rparr>"] assms(1) by auto
  ultimately have "get_selected env now hs cp = Some (GotConn (Some k), cp1)" by (simp add: get_selected_def)
  then show ?thesis using k by blast
qed

text \<open>
  A pool that cannot recover: it is full, every circuit is open, and no connection will be found closed
  or failing by the health check.
\<close>

definition stuck_conn :: "pool_config \<Rightarrow> nat set \<Rightarrow> pool_connection \<Rightarrow> bool" where
  "stuck_conn cf sclosed c \<longleftrightarrow> pc_circuitState c = CircuitOpen \<and> (\<exists>cb. pc_circuitBreaker c = Some cb \<and> cb_state cb = CircuitOpen)
     \<and> (pc_State c = StateIdle \<or> pc_State c = StateActive) \<and> mt_ConsecutiveFails (pc_Metrics c) \<le> pf_MaxConsecutiveFails cf
     \<and> pc_Sender c \<notin> sclosed"

definition stuck_pool :: "creator_env \<Rightarrow> conn_pool \<Rightarrow> bool" where
  [inv_defs]: "stuck_pool env cp \<longleftrightarrow> pool_wf env cp \<and> cp_connMutex cp = RW_Free \<and> pf_MaxConnections (cp_config cp) \<le> pool_len cp
     \<and> pf_MinConnections (cp_config cp) \<le> pool_len cp
     \<and> (\<forall>x \<in> set (cp_connections cp). stuck_conn (cp_config cp) (cp_closed cp) (pool_obj cp (snd x)))"

datatype client_act = CGet int | CHealthCheck int | CCleanup int | CAnswer nat int int

fun client_do :: "creator_env \<Rightarrow> client_act \<Rightarrow> conn_pool \<Rightarrow> conn_pool option" where
  "client_do env (CGet now) cp = map_option snd (GetConnection env now cp)"
| "client_do env (CHealthCheck now) cp = map_option snd (performHealthCheck now cp)"
| "client_do env (CCleanup now) cp = map_option snd (cleanupConnections env now cp)"
| "client_do env (CAnswer k elapsed now) cp = Some (deliver_conn k True elapsed now cp)"

fun client_run :: "creator_env \<Rightarrow> client_act list \<Rightarrow> conn_pool \<Rightarrow> conn_pool option" where
  "client_run env [] cp = Some cp"
| "client_run env (a # as) cp = (case client_do env a cp of None \<Rightarrow> None | Some cp1 \<Rightarrow> client_run env as cp1)"

lemma stuck_get:
  assumes "stuck_pool env cp"
  shows "GetConnection env now cp = Some (GotError (ErrNoHealthyCreate ErrMaxConnections), cp)"
proof -
  have "healthy_conns cp = []" using assms by (auto simp: healthy_conns_def stuck_pool_def stuck_conn_def IsHealthy_def filter_empty_conv)
  then show ?thesis using assms by (simp add: GetConnection_def stuck_pool_def create_full)
qed

lemma stuck_conn_kept:
  assumes "stuck_conn cf sc c" "0 \<le> pf_MaxConsecutiveFails cf"
  shows "stuck_conn cf sc (healthCheck_conn cf sc now c)" "stuck_conn cf sc ((UpdateMetrics True rt now (c \<lparr> pc_State := StateActive \<rparr>)) \<lparr> pc_State := StateIdle \<rparr>)"
  using assms by (auto simp: stuck_conn_def healthCheck_conn_def UpdateMetrics_def updateCircuitBreaker_def RecordSuccess_def Let_def)

lemma stuck_upd:
  assumes "stuck_pool env cp" "\<And>c. pc_ID (f c) = pc_ID c" "\<And>c. pc_Sender (f c) = pc_Sender c"
    and "\<And>c. stuck_conn (cp_config cp) (cp_closed cp) c \<Longrightarrow> stuck_conn (cp_config cp) (cp_closed cp) (f c)"
  shows "stuck_pool env (upd_obj k f cp)"
proof -
  have "\<forall>x \<in> set (cp_connections cp). snd x < length (cp_objs cp)" using assms(1) by (auto simp: stuck_pool_def pool_wf_def)
  then show ?thesis using assms upd_obj_wf [of env cp f k] by (auto simp: stuck_pool_def)
qed

lemma fold_health:
  assumes "stuck_pool env cp" "0 \<le> pf_MaxConsecutiveFails (cp_config cp)"
  shows "stuck_pool env (fold (healthCheckConnection now) ks cp) \<and> cp_config (fold (healthCheckConnection now) ks cp) = cp_config cp"
  using assms
proof (induction ks arbitrary: cp)
  case (Cons k ks)
  have "stuck_pool env (healthCheckConnection now k cp)" unfolding healthCheckConnection_def
    by (rule stuck_upd) (use Cons.prems stuck_conn_kept in auto)
  then show ?case using Cons.IH [of "healthCheckConnection now k cp"] Cons.prems by (simp add: healthCheckConnection_def)
qed simp

lemma stuck_cleanup:
  assumes "stuck_pool env cp"
  shows "cleanupConnections env now cp = Some ((), cp)"
proof -
  have "filter (\<lambda>x. to_remove now (pool_obj cp (snd x))) (cp_connections cp) = []"
    using assms by (fastforce simp: stuck_pool_def stuck_conn_def to_remove_def filter_empty_conv)
  then have "drop_dead now (cp \<lparr> cp_connMutex := RW_Writer \<rparr>) = cp \<lparr> cp_connMutex := RW_Writer \<rparr>"
    by (simp add: drop_dead_def)
  then show ?thesis using assms cleanup_eq [of env cp now] by (simp add: stuck_pool_def)
qed

lemma stuck_step:
  assumes "stuck_pool env cp" "0 \<le> pf_MaxConsecutiveFails (cp_config cp)"
  shows "\<exists>cp1. client_do env a cp = Some cp1 \<and> stuck_pool env cp1 \<and> cp_config cp1 = cp_config cp"
proof (cases a)
  case (CHealthCheck now)
  moreover have "cp_connMutex cp = RW_Free" using assms by (simp add: stuck_pool_def)
  moreover note fold_health [OF assms, of now "map snd (cp_connections cp)"]
  ultimately show ?thesis by (auto simp: performHealthCheck_def updatePoolMetrics_def Let_def stuck_pool_def)
next
  case (CAnswer k elapsed now)
  have "stuck_pool env (deliver_conn k True elapsed now cp)" unfolding deliver_conn_def
    by (rule stuck_upd) (use assms stuck_conn_kept in auto)
  then show ?thesis using CAnswer by (simp add: deliver_conn_def)
qed (use assms in \<open>simp_all add: stuck_get stuck_cleanup\<close>)

lemma stuck_run:
  assumes "stuck_pool env cp" "0 \<le> pf_MaxConsecutiveFails (cp_config cp)"
  shows "\<exists>cp1. client_run env as cp = Some cp1 \<and> stuck_pool env cp1"
  using assms
proof (induction as arbitrary: cp)
  case (Cons a as)
  then show ?case using stuck_step [OF Cons.prems, of a] by auto
qed simp

subsection \<open>Lock order\<close>

text \<open>
  The lock operations of the two operations that take both \<open>connMutex\<close> and \<open>scaleMutex\<close>, in program order:
  \<open>updatePoolMetrics\<close> takes \<open>scaleMutex\<close> under the read lock of \<open>connMutex\<close>; \<open>checkAndScale\<close>, when it adds \<open>n\<close>
  connections, takes the write lock of \<open>connMutex\<close> under \<open>scaleMutex\<close>.
\<close>

datatype lock_op = RLock_conn | RUnlock_conn | Lock_conn | Unlock_conn | Lock_scale | Unlock_scale

definition updatePoolMetrics_locks :: "lock_op list" where
  "updatePoolMetrics_locks = [RLock_conn, Lock_scale, Unlock_scale, RUnlock_conn]"

definition checkAndScale_locks :: "nat \<Rightarrow> lock_op list" where
  "checkAndScale_locks n = [Lock_scale, RLock_conn, RUnlock_conn] @ concat (replicate n [Lock_conn, Unlock_conn]) @ [Unlock_scale]"

record pool_locks =
  lk_readers :: nat
  lk_writer :: bool
  lk_scale :: bool

fun lock_do :: "lock_op \<Rightarrow> pool_locks \<Rightarrow> pool_locks option" where
  "lock_do RLock_conn l = (if lk_writer l then None else Some (l \<lparr> lk_readers := lk_readers l + 1 \<rparr>))"
| "lock_do RUnlock_conn l = Some (l \<lparr> lk_readers := lk_readers l - 1 \<rparr>)"
| "lock_do Lock_conn l = (if lk_writer l \<or> lk_readers l > 0 then None else Some (l \<lparr> lk_writer := True \<rparr>))"
| "lock_do Unlock_conn l = Some (l \<lparr> lk_writer := False \<rparr>)"
| "lock_do Lock_scale l = (if lk_scale l then None else Some (l \<lparr> lk_scale := True \<rparr>))"
| "lock_do Unlock_scale l = Some (l \<lparr> lk_scale := False \<rparr>)"

text \<open>A schedule names the goroutine that takes the next step; a blocked goroutine does not move.\<close>

fun lock_run :: "nat list \<Rightarrow> lock_op list list \<times> pool_locks \<Rightarrow> lock_op list list \<times> pool_locks" where
  "lock_run [] s = s"
| "lock_run (i # is) (ts, l) =
     (if i < length ts then
        (case ts ! i of
           [] \<Rightarrow> lock_run is (ts, l)
         | op # ops \<Rightarrow> (case lock_do op l of None \<Rightarrow> lock_run is (ts, l) | Some l1 \<Rightarrow> lock_run is (ts [i := ops], l1)))
      else lock_run is (ts, l))"

lemma lock_run_append: "lock_run (xs @ ys) s = lock_run ys (lock_run xs s)"
  by (induction xs s rule: lock_run.induct) (auto split: list.splits option.splits)

lemma lock_run_stuck:
  assumes "\<forall>t \<in> set ts. \<exists>op ops. t = op # ops \<and> lock_do op l = None"
  shows "lock_run is (ts, l) = (ts, l)"
proof (induction "is")
  case (Cons i "is")
  show ?case
  proof (cases "i < length ts")
    case True
    then obtain op ops where "ts ! i = op # ops" "lock_do op l = None" using assms nth_mem by blast
    then show ?thesis using Cons.IH True by simp
  qed (use Cons.IH in simp)
qed simp

text \<open>The pools for which a selection cannot overflow a counter.\<close>

definition selectable :: "conn_pool \<Rightarrow> bool" where
  "selectable cp \<longleftrightarrow> cp_connMutex cp = RW_Free \<and> length (cp_objs cp) \<notin> cp_closed cp
     \<and> 0 \<le> sint (cp_roundRobin cp) \<and> sint (cp_roundRobin cp) < maxInt64
     \<and> (\<forall>c \<in> set (cp_objs cp). mt_TotalRequests (pc_Metrics c) < maxInt64)"

lemma get_healthy:
  assumes "pool_wf env cp" "selectable cp" "healthy_conns cp \<noteq> []"
  shows "\<exists>k cp1. GetConnection env now cp = Some (GotConn (Some k), cp1) \<and> k \<in> set (healthy_conns cp) \<and>
      (pf_LoadBalanceStrategy (cp_config cp) = least_connections \<longrightarrow>
        (\<forall>j \<in> set (healthy_conns cp). mt_TotalRequests (pc_Metrics (pool_obj cp k)) \<le> mt_TotalRequests (pc_Metrics (pool_obj cp j))))"
proof -
  have "\<forall>k \<in> set (healthy_conns cp). mt_TotalRequests (pc_Metrics (pool_obj cp k)) < maxInt64"
    using assms(1,2) by (fastforce simp: healthy_conns_def pool_wf_def selectable_def)
  then show ?thesis using get_selected_spec [of cp "healthy_conns cp" env now] assms(2,3) by (simp add: GetConnection_def selectable_def)
qed

lemma get_created:
  assumes "pool_wf env cp" "strict_mono (fst \<circ> env)" "selectable cp" "healthy_conns cp = []"
    and "pool_len cp < pf_MaxConnections (cp_config cp)" "snd (env (cp_calls cp))"
  shows "\<exists>cp1. GetConnection env now cp = Some (GotConn (Some (length (cp_objs cp))), cp1)"
proof -
  have sel: "cp_connMutex cp = RW_Free" "length (cp_objs cp) \<notin> cp_closed cp" using assms(3) by (auto simp: selectable_def)
  obtain cp1 cid t where c: "createConnection env cp = Some (None, cp1)" "cp_connMutex cp1 = RW_Free" "cp_roundRobin cp1 = cp_roundRobin cp"
    "cp_closed cp1 = cp_closed cp" "cp_objs cp1 = cp_objs cp @ [NewPoolConnection cid (length (cp_objs cp)) t]"
    "map snd (cp_connections cp1) = map snd (cp_connections cp) @ [length (cp_objs cp)]"
    using create_fresh [OF assms(1,2) sel(1) assms(5,6)] by blast
  have h: "healthy_conns cp1 = [length (cp_objs cp)]" using healthy_conns_after_create [OF assms(1,4) sel(2) c(4-6)] .
  have "\<exists>k cp2. get_selected env now (healthy_conns cp1) cp1 = Some (GotConn (Some k), cp2) \<and> k \<in> set (healthy_conns cp1)"
    using get_selected_spec [OF c(2), of "healthy_conns cp1" env now] assms(3) c(3,5) h
    by (auto simp: NewPoolConnection_def maxInt64_def selectable_def)
  then show ?thesis using assms(4) sel c(1,2) h by (auto simp: GetConnection_def)
qed

lemma get_refused:
  assumes "selectable cp" "healthy_conns cp = []"
  shows "pf_MaxConnections (cp_config cp) \<le> pool_len cp \<Longrightarrow> GetConnection env now cp = Some (GotError (ErrNoHealthyCreate ErrMaxConnections), cp)"
    "pool_len cp < pf_MaxConnections (cp_config cp) \<Longrightarrow> \<not> snd (env (cp_calls cp)) \<Longrightarrow>
       GetConnection env now cp = Some (GotError (ErrNoHealthyCreate ErrCreateSender), cp \<lparr> cp_calls := cp_calls cp + 1 \<rparr>)"
  using assms by (simp_all add: GetConnection_def create_full create_nil selectable_def)

section \<open>Properties\<close>

text \<open>
  C14. Whatever goroutines do with a pool, in any interleaving of their critical sections, in every run in which the ids it has generated (address, wall clock
  in nanoseconds and number of connections) are different: the number of
  connections never exceeds the limit; the map holds distinct, existing connections under their own ids;
  the counter of connections is exact until the pool is stopped; and no sender leaks, each one that the
  creator made is in the pool or was closed. The next theorem shows what equal ids do.
\<close>

theorem pool_bounded_no_leak:
  assumes "pool_run env as (NewConnectionPool address rpcType config) = Some cp" "distinct (map pc_ID (cp_objs cp))"
  shows "pool_len cp \<le> max 0 (pf_MaxConnections (cp_config cp))
    \<and> distinct (map snd (cp_connections cp)) \<and> (\<forall>(cid, k) \<in> set (cp_connections cp). k < length (cp_objs cp) \<and> pc_ID (pool_obj cp k) = cid)
    \<and> (cp_stopped cp \<or> pm_TotalConnections (cp_metrics cp) = pool_len cp)
    \<and> (\<forall>k < length (cp_objs cp). k \<in> snd ` set (cp_connections cp) \<or> pc_Sender (pool_obj cp k) \<in> cp_closed cp)"
proof -
  have wf: "pool_wf env cp" using pool_run_wf_distinct [OF pool_wf_new assms(1)] assms(2) by (simp add: made_ids_def)
  show ?thesis using pool_wf_snd_distinct [OF wf] wf by (auto simp: pool_wf_def)
qed

text \<open>
  When the clock gives the same time twice and a connection was dropped in between, the new connection has the id of a pooled one and
  replaces it: its sender is neither in the pool nor closed, and the counter is too high.
\<close>

definition same_time_env :: creator_env where
  "same_time_env i = (7, True)"

theorem equal_ids_leak:
  "\<exists>cp. pool_run same_time_env [PCreate, PCreate, PCreate, PScaleDown 1, PCreate] (NewConnectionPool ''a'' ''rpcx'' None) = Some cp
     \<and> (\<exists>k < length (cp_objs cp). k \<notin> snd ` set (cp_connections cp) \<and> pc_Sender (pool_obj cp k) \<notin> cp_closed cp)
     \<and> pool_len cp < pm_TotalConnections (cp_metrics cp)"
proof -
  let ?r = "pool_run same_time_env [PCreate, PCreate, PCreate, PScaleDown 1, PCreate] (NewConnectionPool ''a'' ''rpcx'' None)"
  have "(case ?r of None \<Rightarrow> False | Some cp \<Rightarrow> list_ex (\<lambda>k. k \<notin> snd ` set (cp_connections cp) \<and> pc_Sender (pool_obj cp k) \<notin> cp_closed cp) [0..<length (cp_objs cp)]
     \<and> pool_len cp < pm_TotalConnections (cp_metrics cp))" by code_simp
  then show ?thesis by (auto simp: list_ex_iff split: option.splits)
qed

definition demo_env :: creator_env where
  "demo_env i = (int i, True)"

lemma demo_env_mono: "strict_mono (fst \<circ> demo_env)"
  by (auto simp: strict_mono_def demo_env_def)

definition demo_pool :: conn_pool where
  "demo_pool = the (pool_Start demo_env (NewConnectionPool ''a'' ''rpcx'' None))"

theorem pool_bounded_no_leak_witness:
  "\<exists>cp. pool_run demo_env [PCreate, PCreate, PHealth 5 0, PScaleDown 1, PCreate, PStop] (NewConnectionPool ''a'' ''rpcx'' None) = Some cp
     \<and> (\<forall>k < length (cp_objs cp). k \<in> snd ` set (cp_connections cp) \<or> pc_Sender (pool_obj cp k) \<in> cp_closed cp)"
proof -
  have "\<not> Option.is_none (pool_run demo_env [PCreate, PCreate, PHealth 5 0, PScaleDown 1, PCreate, PStop] (NewConnectionPool ''a'' ''rpcx'' None))"
    by code_simp
  moreover have "distinct (map pc_ID (cp_objs (the (pool_run demo_env [PCreate, PCreate, PHealth 5 0, PScaleDown 1, PCreate, PStop] (NewConnectionPool ''a'' ''rpcx'' None)))))"
    by code_simp
  ultimately obtain cp where "pool_run demo_env [PCreate, PCreate, PHealth 5 0, PScaleDown 1, PCreate, PStop] (NewConnectionPool ''a'' ''rpcx'' None) = Some cp"
    "distinct (map pc_ID (cp_objs cp))" by (auto simp: Option.is_none_def)
  from pool_bounded_no_leak [OF this] this(1) show ?thesis by blast
qed

text \<open>
  \<open>GetConnection\<close> always returns. When a connection is healthy it selects a healthy one, with the
  least number of requests under that strategy; otherwise it fails when the pool is full or the creator
  fails, and returns a new connection in the remaining case.
\<close>

theorem GetConnection_spec:
  assumes "pool_wf env cp" "strict_mono (fst \<circ> env)" "selectable cp"
  shows "if healthy_conns cp \<noteq> []
    then \<exists>k cp1. GetConnection env now cp = Some (GotConn (Some k), cp1) \<and> k \<in> set (healthy_conns cp) \<and>
      (pf_LoadBalanceStrategy (cp_config cp) = least_connections \<longrightarrow>
        (\<forall>j \<in> set (healthy_conns cp). mt_TotalRequests (pc_Metrics (pool_obj cp k)) \<le> mt_TotalRequests (pc_Metrics (pool_obj cp j))))
    else if pf_MaxConnections (cp_config cp) \<le> pool_len cp
    then GetConnection env now cp = Some (GotError (ErrNoHealthyCreate ErrMaxConnections), cp)
    else if \<not> snd (env (cp_calls cp))
    then GetConnection env now cp = Some (GotError (ErrNoHealthyCreate ErrCreateSender), cp \<lparr> cp_calls := cp_calls cp + 1 \<rparr>)
    else \<exists>cp1. GetConnection env now cp = Some (GotConn (Some (length (cp_objs cp))), cp1)"
proof (cases "healthy_conns cp = []")
  case False
  then show ?thesis using get_healthy [OF assms(1,3) False, of now] by simp
next
  case True
  then show ?thesis using get_refused [OF assms(3) True, of env now] get_created [OF assms True, of now] by (simp add: not_le)
qed

lemma demo_pool_ok: "pool_wf demo_env demo_pool" "selectable demo_pool"
proof -
  have "pool_run demo_env [PCreate, PCreate, PCreate, PCreate] (NewConnectionPool ''a'' ''rpcx'' None) = Some demo_pool"
    by code_simp
  then show "pool_wf demo_env demo_pool" using pool_run_wf [OF pool_wf_new demo_env_mono] by blast
qed code_simp

theorem GetConnection_spec_witness:
  "\<exists>k cp1. GetConnection demo_env 100 demo_pool = Some (GotConn (Some k), cp1) \<and> k \<in> set (healthy_conns demo_pool)"
proof -
  have "healthy_conns demo_pool \<noteq> []" by code_simp
  then show ?thesis using GetConnection_spec [OF demo_pool_ok(1) demo_env_mono demo_pool_ok(2), of 100] by auto
qed

text \<open>
  \<open>cleanupConnections\<close> never returns exactly when, after the dead connections are dropped, fewer than
  \<open>MinConnections\<close> remain: it asks for \<open>connMutex\<close> in \<open>createConnection\<close> while it holds it. Otherwise it
  keeps exactly the entries that are neither closed nor long unhealthy and makes no connection.
\<close>

theorem cleanup_blocks_itself:
  assumes "pool_wf env cp" "cp_connMutex cp = RW_Free"
  shows "let kept = filter (\<lambda>x. \<not> to_remove now (pool_obj cp (snd x))) (cp_connections cp)
    in if int (length kept) < pf_MinConnections (cp_config cp) then cleanupConnections env now cp = None
       else \<exists>cp1. cleanupConnections env now cp = Some ((), cp1) \<and> cp_connections cp1 = kept \<and> cp_objs cp1 = cp_objs cp"
proof -
  let ?K = "snd ` {x \<in> set (cp_connections cp). to_remove now (pool_obj cp (snd x))}"
  have d: "dropped ?K (cp \<lparr> cp_connMutex := RW_Writer \<rparr>) (drop_dead now (cp \<lparr> cp_connMutex := RW_Writer \<rparr>))"
    using drop_dead_wf [of env "cp \<lparr> cp_connMutex := RW_Writer \<rparr>" now] assms(1) by simp
  have "inj_on snd (set (cp_connections cp))" using pool_wf_snd_distinct [OF assms(1)] by (simp add: distinct_map)
  then have "filter (\<lambda>x. snd x \<notin> ?K) (cp_connections cp) = filter (\<lambda>x. \<not> to_remove now (pool_obj cp (snd x))) (cp_connections cp)"
    by (intro filter_cong) (auto simp: inj_on_def)
  then show ?thesis using d cleanup_eq [OF assms, of now] by (auto simp: dropped_def Let_def)
qed

text \<open>Three of the four connections of a default pool are closed by the peer and found by the health check.\<close>

definition broken_pool :: conn_pool where
  "broken_pool = the (pool_run demo_env [PSenderClosed 0, PSenderClosed 1, PSenderClosed 2, PHealth 50 0, PHealth 50 1, PHealth 50 2] demo_pool)"

theorem cleanup_blocks_itself_witness: "cleanupConnections demo_env 60 broken_pool = None"
proof -
  have "pool_run demo_env [PCreate, PCreate, PCreate, PCreate, PSenderClosed 0, PSenderClosed 1, PSenderClosed 2, PHealth 50 0, PHealth 50 1, PHealth 50 2]
      (NewConnectionPool ''a'' ''rpcx'' None) = Some broken_pool"
    by code_simp
  then have wf: "pool_wf demo_env broken_pool" using pool_run_wf [OF pool_wf_new demo_env_mono] by blast
  have "cp_connMutex broken_pool = RW_Free"
    "int (length (filter (\<lambda>x. \<not> to_remove 60 (pool_obj broken_pool (snd x))) (cp_connections broken_pool))) < pf_MinConnections (cp_config broken_pool)"
    by code_simp+
  then show ?thesis using cleanup_blocks_itself [OF wf, of 60] by (simp add: Let_def)
qed

text \<open>
  An open circuit is never tried again: nothing calls \<open>CanCall\<close>, the only way out of the open state. A
  full pool whose circuits are all open and whose senders still look alive stays that way whatever the
  clients, the health check, the cleanup and late answers do, and every \<open>GetConnection\<close> fails.
\<close>

theorem open_circuits_are_final:
  assumes "stuck_pool env cp" "0 \<le> pf_MaxConsecutiveFails (cp_config cp)"
  shows "\<exists>cp1. client_run env as cp = Some cp1
    \<and> GetConnection env now cp1 = Some (GotError (ErrNoHealthyCreate ErrMaxConnections), cp1)"
  using stuck_run [OF assms, of as] stuck_get by blast

text \<open>A pool of one connection gets there in ten requests of which every second one fails.\<close>

definition tiny_config :: pool_config where
  "tiny_config = DefaultPoolConfig \<lparr> pf_MinConnections := 1, pf_MaxConnections := 1, pf_InitialConnections := 1,
     pf_ScaleUpThreshold := 3 / 4, pf_ScaleDownThreshold := 1 / 4 \<rparr>"

fun send_all :: "bool list \<Rightarrow> int \<Rightarrow> conn_pool \<Rightarrow> conn_pool" where
  "send_all [] now cp = cp"
| "send_all (b # bs) now cp = send_all bs (now + 1) (snd (the (sender_deliver demo_env now (\<lambda>_. b) 1 cp)))"

definition tripped_pool :: conn_pool where
  "tripped_pool = send_all (concat (replicate 5 [True, False])) 10 (the (pool_Start demo_env (NewConnectionPool ''a'' ''rpcx'' (Some tiny_config))))"

definition stuck_view :: "conn_pool \<Rightarrow> _" where
  "stuck_view cp = (let c = pool_obj cp 0 in
     (cp_connections cp, length (cp_objs cp), pc_ID c, pc_Sender c, cp_calls cp, cp_connMutex cp, 0 \<in> cp_closed cp,
      pf_MaxConnections (cp_config cp), pf_MinConnections (cp_config cp), pf_MaxConsecutiveFails (cp_config cp),
      pm_TotalConnections (cp_metrics cp), pc_circuitState c, map_option cb_state (pc_circuitBreaker c), pc_State c,
      mt_ConsecutiveFails (pc_Metrics c)))"

lemma tripped_pool_view:
  "stuck_view tripped_pool = ([((0, 0), 0)], 1, (0, 0), 0, 1, RW_Free, False, 1, 1, 3, 1, CircuitOpen, Some CircuitOpen, StateIdle, 1)"
  by code_simp

lemma tripped_pool_stuck: "stuck_pool demo_env tripped_pool"
  using tripped_pool_view
  by (auto simp: stuck_view_def stuck_pool_def pool_wf_def stuck_conn_def demo_env_def Let_def)

theorem open_circuits_are_final_witness:
  "\<exists>cp1. client_run demo_env [CGet 100, CHealthCheck 200, CCleanup 300, CAnswer 0 5 400, CGet (10 ^ 15)] tripped_pool = Some cp1
     \<and> GetConnection demo_env (10 ^ 18) cp1 = Some (GotError (ErrNoHealthyCreate ErrMaxConnections), cp1)"
proof -
  have "0 \<le> pf_MaxConsecutiveFails (cp_config tripped_pool)" using tripped_pool_view by (simp add: stuck_view_def Let_def)
  then show ?thesis using open_circuits_are_final [OF tripped_pool_stuck] by blast
qed

text \<open>
  The two locks of a pool are taken in opposite orders. There is a schedule of one \<open>GetMetrics\<close> and one
  \<open>GetConnection\<close> that adds connections after which each waits for a lock the other holds, so that no
  further schedule moves either.
\<close>

theorem pool_lock_order_deadlock:
  "\<exists>sched ts l. lock_run sched ([updatePoolMetrics_locks, checkAndScale_locks (Suc n)], \<lparr> lk_readers = 0, lk_writer = False, lk_scale = False \<rparr>) = (ts, l)
     \<and> hd (ts ! 0) = Lock_scale \<and> hd (ts ! 1) = Lock_conn \<and> (\<forall>later. lock_run later (ts, l) = (ts, l))"
proof -
  let ?ts = "[[Lock_scale, Unlock_scale, RUnlock_conn], [Lock_conn, Unlock_conn] @ concat (replicate n [Lock_conn, Unlock_conn]) @ [Unlock_scale]]"
  let ?l = "\<lparr> lk_readers = 1, lk_writer = False, lk_scale = True \<rparr>"
  have "lock_run [1, 1, 1, 0] ([updatePoolMetrics_locks, checkAndScale_locks (Suc n)], \<lparr> lk_readers = 0, lk_writer = False, lk_scale = False \<rparr>) = (?ts, ?l)"
    by (simp add: updatePoolMetrics_locks_def checkAndScale_locks_def)
  moreover have "\<forall>later. lock_run later (?ts, ?l) = (?ts, ?l)"
    by (intro allI lock_run_stuck) auto
  ultimately show ?thesis by (intro exI conjI) (assumption | simp)+
qed

text \<open>
  \<open>GetConnection\<close> may close the connection it returns: it selects an idle connection and then scales
  down, which drops the connection that was idle longest. On a fresh pool of four connections, in one of the
  orders of its map, the first delivery fails with \<open>ErrRPCHadClosed\<close> and three healthy connections remain.
\<close>

theorem delivery_hits_closed_connection:
  "\<exists>cs cp1. mset cs = mset (cp_connections demo_pool)
     \<and> sender_deliver demo_env 100 (\<lambda>_. True) 1 (demo_pool \<lparr> cp_connections := cs \<rparr>) = Some ((Inr (Some ErrRPCHadClosed), [Env_Release]), cp1)
     \<and> length (healthy_conns cp1) = 3"
proof -
  let ?cs = "[((1, 1), 1), ((0, 0), 0), ((2, 2), 2), ((3, 3), 3)] :: (conn_id, nat) gomap"
  let ?r = "sender_deliver demo_env 100 (\<lambda>_. True) 1 (demo_pool \<lparr> cp_connections := ?cs \<rparr>)"
  have "cp_connections demo_pool = [((0, 0), 0), ((1, 1), 1), ((2, 2), 2), ((3, 3), 3)]" by code_simp
  then have "mset ?cs = mset (cp_connections demo_pool)" by simp
  moreover have "map_option fst ?r = Some (Inr (Some ErrRPCHadClosed), [Env_Release])" "length (healthy_conns (snd (the ?r))) = 3"
    by code_simp+
  ultimately show ?thesis by (intro exI [of _ ?cs] exI [of _ "snd (the ?r)"]) auto
qed

text \<open>
  The envelope of a delivery is disposed of once: it is handed to a healthy sender, whose answer is
  reported, or it is released and an error is reported.
\<close>

theorem deliver_disposes_envelope:
  assumes "pool_wf env cp" "strict_mono (fst \<circ> env)" "selectable cp"
  shows "\<exists>r evs cp1. sender_deliver env now answer elapsed cp = Some ((Inr r, evs), cp1) \<and>
    ((\<exists>k. evs = [Env_Handed k] \<and> r = (if answer k then None else Some ErrDeliver)) \<or> (evs = [Env_Release] \<and> r \<noteq> None))"
proof -
  have "(\<exists>k cp1. GetConnection env now cp = Some (GotConn (Some k), cp1)) \<or> (\<exists>e cp1. GetConnection env now cp = Some (GotError e, cp1))"
    using get_healthy [OF assms(1,3), of now] get_refused [OF assms(3), of env now] get_created [OF assms, of now]
    by (meson linorder_not_le)
  then show ?thesis by (auto simp: sender_deliver_def)
qed

theorem deliver_disposes_envelope_witness:
  "\<exists>r evs cp1. sender_deliver demo_env 100 even 1 demo_pool = Some ((Inr r, evs), cp1) \<and>
    ((\<exists>k. evs = [Env_Handed k] \<and> r = (if even k then None else Some ErrDeliver)) \<or> (evs = [Env_Release] \<and> r \<noteq> None))"
  using deliver_disposes_envelope [OF demo_pool_ok(1) demo_env_mono demo_pool_ok(2), of 100 even 1] by auto

end
