(* ===== verification/Pool_Manager.thy ===== *)
theory Pool_Manager
  imports Conn_Pool
begin

text \<open>
  The manager of the connection pools, \<open>engine/pkg/rpc/client/pool/factory.go\<close>. Each of its methods holds
  \<open>poolMutex\<close> where it changes the manager, so each is one step; the double check of \<open>GetOrCreatePool\<close> makes
  its two critical sections one. The creator of an RPC type is a parameter: applied to an address it
  gives the times and answers that the pool's creations will see. A pool is kept with its creator.
  None is an operation that does not return.
\<close>

section \<open>Definitions\<close>

type_synonym sender_creator = "string \<Rightarrow> creator_env"

record pool_manager =
  pg_pools :: "(string, creator_env \<times> conn_pool) gomap"
  pg_creators :: "(string, sender_creator) gomap"
  pg_poolConfigs :: "(string, pool_config) gomap"

definition NewPoolManager :: pool_manager where
  "NewPoolManager = \<lparr> pg_pools = [], pg_creators = [], pg_poolConfigs = [] \<rparr>"

definition RegisterCreator :: "string \<Rightarrow> sender_creator \<Rightarrow> pool_manager \<Rightarrow> pool_manager" where
  "RegisterCreator rpcType creator pm = pm \<lparr> pg_creators := gm_set (pg_creators pm) rpcType creator \<rparr>"

definition SetPoolConfig :: "string \<Rightarrow> pool_config \<Rightarrow> pool_manager \<Rightarrow> pool_manager" where
  "SetPoolConfig rpcType config pm = pm \<lparr> pg_poolConfigs := gm_set (pg_poolConfigs pm) rpcType config \<rparr>"

definition poolKey :: "string \<Rightarrow> string \<Rightarrow> string" where
  "poolKey address rpcType = address @ ''_'' @ rpcType"

definition pool_config_for :: "string \<Rightarrow> pool_manager \<Rightarrow> pool_config" where
  "pool_config_for rpcType pm =
     (case gm_get (pg_poolConfigs pm) rpcType of
        Some c \<Rightarrow> c
      | None \<Rightarrow>
          if rpcType = ''rpcx'' then DefaultPoolConfig \<lparr> pf_InitialConnections := 4, pf_MaxConnections := 20 \<rparr>
          else if rpcType = ''grpc'' then DefaultPoolConfig \<lparr> pf_InitialConnections := 2, pf_MaxConnections := 10 \<rparr>
          else if rpcType = ''nats'' then DefaultPoolConfig \<lparr> pf_InitialConnections := 1, pf_MaxConnections := 5 \<rparr>
          else DefaultPoolConfig)"

definition GetOrCreatePool :: "string \<Rightarrow> string \<Rightarrow> pool_manager \<Rightarrow> ((pool_error + creator_env \<times> conn_pool) \<times> pool_manager) option" where
  "GetOrCreatePool address rpcType pm =
     (case gm_get (pg_pools pm) (poolKey address rpcType) of
        Some p \<Rightarrow> Some (Inr p, pm)
      | None \<Rightarrow>
          (case gm_get (pg_creators pm) rpcType of
             None \<Rightarrow> Some (Inl ErrNoCreator, pm)
           | Some creator \<Rightarrow>
               (case pool_Start (creator address) (NewConnectionPool address rpcType (Some (pool_config_for rpcType pm))) of
                  None \<Rightarrow> None
                | Some pool \<Rightarrow> Some (Inr (creator address, pool),
                    pm \<lparr> pg_pools := gm_set (pg_pools pm) (poolKey address rpcType) (creator address, pool) \<rparr>))))"

text \<open>\<open>GetConnection\<close> works on the pool the manager holds.\<close>

definition manager_GetConnection :: "string \<Rightarrow> string \<Rightarrow> int \<Rightarrow> pool_manager \<Rightarrow> (get_result \<times> pool_manager) option" where
  "manager_GetConnection address rpcType now pm =
     (case GetOrCreatePool address rpcType pm of
        None \<Rightarrow> None
      | Some (Inl e, pm1) \<Rightarrow> Some (GotError e, pm1)
      | Some (Inr (env, pool), pm1) \<Rightarrow>
          map_option (\<lambda>(r, pool1). (r, pm1 \<lparr> pg_pools := gm_set (pg_pools pm1) (poolKey address rpcType) (env, pool1) \<rparr>))
            (GetConnection env now pool))"

definition GetPoolMetrics :: "string \<Rightarrow> string \<Rightarrow> pool_manager \<Rightarrow> (pool_error + pool_metrics) option" where
  "GetPoolMetrics address rpcType pm =
     (case gm_get (pg_pools pm) (poolKey address rpcType) of
        None \<Rightarrow> Some (Inl ErrPoolNotFound)
      | Some (env, pool) \<Rightarrow> map_option Inr (updatePoolMetrics pool))"

definition RemovePool :: "string \<Rightarrow> string \<Rightarrow> pool_manager \<Rightarrow> pool_manager option" where
  "RemovePool address rpcType pm =
     (case gm_get (pg_pools pm) (poolKey address rpcType) of
        None \<Rightarrow> Some pm
      | Some (env, pool) \<Rightarrow>
          map_option (\<lambda>_. pm \<lparr> pg_pools := gm_del (pg_pools pm) (poolKey address rpcType) \<rparr>) (pool_Stop pool))"

definition manager_Close :: "pool_manager \<Rightarrow> pool_manager option" where
  "manager_Close pm = (if list_all (\<lambda>x. pool_Stop (snd (snd x)) \<noteq> None) (pg_pools pm) then Some (pm \<lparr> pg_pools := [] \<rparr>) else None)"

text \<open>The operations of a manager; \<open>MPool\<close> is any critical section of one of its pools.\<close>

datatype manager_act =
    MRegister string sender_creator
  | MConfig string pool_config
  | MGet string string int
  | MRemove string string
  | MClose
  | MPool string pool_act

fun manager_do :: "manager_act \<Rightarrow> pool_manager \<Rightarrow> pool_manager option" where
  "manager_do (MRegister r c) pm = Some (RegisterCreator r c pm)"
| "manager_do (MConfig r c) pm = Some (SetPoolConfig r c pm)"
| "manager_do (MGet a r now) pm = map_option snd (manager_GetConnection a r now pm)"
| "manager_do (MRemove a r) pm = RemovePool a r pm"
| "manager_do MClose pm = manager_Close pm"
| "manager_do (MPool key act) pm =
     (case gm_get (pg_pools pm) key of
        None \<Rightarrow> Some pm
      | Some (env, pool) \<Rightarrow> map_option (\<lambda>p. pm \<lparr> pg_pools := gm_set (pg_pools pm) key (env, p) \<rparr>) (pool_do env act pool))"

fun manager_run :: "manager_act list \<Rightarrow> pool_manager \<Rightarrow> pool_manager option" where
  "manager_run [] pm = Some pm"
| "manager_run (a # as) pm = (case manager_do a pm of None \<Rightarrow> None | Some pm1 \<Rightarrow> manager_run as pm1)"

section \<open>Lemmas\<close>

subsection \<open>Whole operations of a pool\<close>

lemma scaleUp_wf:
  "pool_wf env cp \<Longrightarrow> strict_mono (fst \<circ> env) \<Longrightarrow> scaleUp env n cp = Some (e, cp1) \<Longrightarrow> pool_wf env cp1"
  by (induction env n cp rule: scaleUp.induct) (auto split: option.splits prod.splits dest: createConnection_wf)

lemma check_up_wf:
  "pool_wf env cp \<Longrightarrow> strict_mono (fst \<circ> env) \<Longrightarrow> check_up env now lr n cp = Some cp1 \<Longrightarrow> pool_wf env cp1"
  using scaleUp_wf [of env cp] by (auto simp: check_up_def Let_def split: if_splits option.splits)

lemma check_down_wf: "pool_wf env cp \<Longrightarrow> check_down now lr n cp = Some cp1 \<Longrightarrow> pool_wf env cp1"
  using scaleDown_wf [of env cp] by (auto simp: check_down_def Let_def split: if_splits option.splits)

lemma checkAndScale_wf:
  "pool_wf env cp \<Longrightarrow> strict_mono (fst \<circ> env) \<Longrightarrow> checkAndScale env now cp = Some cp1 \<Longrightarrow> pool_wf env cp1"
  by (auto simp: checkAndScale_def Let_def split: if_splits Option.bind_splits intro: check_up_wf check_down_wf)

lemma get_selected_wf:
  assumes "pool_wf env cp" "strict_mono (fst \<circ> env)" "get_selected env now hs cp = Some (r, cp1)"
  shows "pool_wf env cp1"
proof -
  obtain r where "snd (selectConnection hs cp) = cp \<lparr> cp_roundRobin := r \<rparr>" using selectConnection_snd by blast
  then have "pool_wf env (snd (selectConnection hs cp))" using assms(1) by simp
  then show ?thesis using assms(2,3) checkAndScale_wf by (auto simp: get_selected_def split: prod.splits sum.splits)
qed

lemma get_attempt_wf:
  "pool_wf env cp \<Longrightarrow> strict_mono (fst \<circ> env) \<Longrightarrow> get_attempt env now n cp = Some (r, cp1) \<Longrightarrow> pool_wf env cp1"
proof (induction n arbitrary: cp)
  case (Suc n)
  show ?case
    using Suc.prems Suc.IH scaleUp_wf [OF Suc.prems(1,2), of 1] get_selected_wf [OF Suc.prems(1,2), of now "healthy_conns cp"]
    by (subst (asm) get_attempt.simps) (auto simp del: get_attempt.simps scaleUp.simps split: if_splits option.splits prod.splits)
qed (auto split: if_splits dest: get_selected_wf)

lemma pool_Start_wf:
  assumes "strict_mono (fst \<circ> env)" "pool_Start env (NewConnectionPool a r c) = Some cp"
  shows "pool_wf env cp"
proof -
  have "pool_wf env cp \<Longrightarrow> create_initial env n cp = Some cp1 \<Longrightarrow> pool_wf env cp1" for n cp cp1
  proof (induction n arbitrary: cp)
    case (Suc n)
    then show ?case by (auto split: option.splits dest: createConnection_wf [OF _ assms(1)])
  qed simp
  from this [OF pool_wf_new] show ?thesis using assms(2) by (simp add: pool_Start_def)
qed

lemma pool_Start_returns: "\<exists>cp. pool_Start env (NewConnectionPool a r c) = Some cp"
proof -
  have "cp_connMutex cp = RW_Free \<Longrightarrow> \<exists>cp1. create_initial env n cp = Some cp1" for n cp
  proof (induction n arbitrary: cp)
    case (Suc n)
    then show ?case using createConnection_returns [of cp env] by auto
  qed simp
  then show ?thesis by (simp add: pool_Start_def NewConnectionPool_def)
qed

subsection \<open>No operation renames a pool\<close>

definition pool_name :: "conn_pool \<Rightarrow> string \<times> string" where
  "pool_name cp = (cp_address cp, cp_rpcType cp)"

lemma pool_name_frame [simp]:
  "pool_name (cp \<lparr> cp_connMutex := l \<rparr>) = pool_name cp" "pool_name (cp \<lparr> cp_roundRobin := r \<rparr>) = pool_name cp"
  "pool_name (cp \<lparr> cp_lastScaleUp := t \<rparr>) = pool_name cp" "pool_name (cp \<lparr> cp_lastScaleDown := t \<rparr>) = pool_name cp"
  "pool_name (cp \<lparr> cp_closed := c \<rparr>) = pool_name cp" "pool_name (cp \<lparr> cp_connections := cs \<rparr>) = pool_name cp"
  "pool_name (cp \<lparr> cp_stopped := b \<rparr>) = pool_name cp"
  "pool_name (scaled now cp) = pool_name cp" "pool_name (upd_obj k f cp) = pool_name cp"
  "pool_name (drop_idle k cp) = pool_name cp" "pool_name (drop_conn x cp) = pool_name cp"
  by (simp_all add: pool_name_def scaled_def upd_obj_def drop_idle_def drop_conn_def)

lemma pool_name_fold_idle [simp]: "pool_name (fold drop_idle ks cp) = pool_name cp"
  by (induction ks arbitrary: cp) simp_all

lemma pool_name_fold_conn [simp]: "pool_name (fold drop_conn xs cp) = pool_name cp"
  by (induction xs arbitrary: cp) simp_all

lemma createConnection_name: "createConnection env cp = Some (e, cp1) \<Longrightarrow> pool_name cp1 = pool_name cp"
  by (auto simp: createConnection_def with_connMutex_Some create_body_def Let_def pool_name_def split: if_splits prod.splits)

lemma create_needed_name: "create_needed env n cp = Some (u, cp1) \<Longrightarrow> pool_name cp1 = pool_name cp"
  by (induction env n cp rule: create_needed.induct) (auto split: option.splits prod.splits dest: createConnection_name)

lemma scaleUp_name: "scaleUp env n cp = Some (e, cp1) \<Longrightarrow> pool_name cp1 = pool_name cp"
  by (induction env n cp rule: scaleUp.induct) (auto split: option.splits prod.splits dest: createConnection_name)

lemma create_initial_name: "create_initial env n cp = Some cp1 \<Longrightarrow> pool_name cp1 = pool_name cp"
  by (induction env n cp rule: create_initial.induct) (auto split: option.splits prod.splits dest: createConnection_name)

lemma scaleDown_name: "scaleDown n cp = Some (e, cp1) \<Longrightarrow> pool_name cp1 = pool_name cp"
  by (auto simp: scaleDown_def with_connMutex_Some Let_def split: if_splits)

lemma check_up_name: "check_up env now lr n cp = Some cp1 \<Longrightarrow> pool_name cp1 = pool_name cp"
  using scaleUp_name [of env _ cp] by (auto simp: check_up_def Let_def split: if_splits option.splits)

lemma check_down_name: "check_down now lr n cp = Some cp1 \<Longrightarrow> pool_name cp1 = pool_name cp"
  using scaleDown_name [of _ cp] by (auto simp: check_down_def Let_def split: if_splits option.splits)

lemma checkAndScale_name: "checkAndScale env now cp = Some cp1 \<Longrightarrow> pool_name cp1 = pool_name cp"
  by (auto simp: checkAndScale_def Let_def split: if_splits Option.bind_splits dest!: check_up_name check_down_name)

lemma selectConnection_name: "pool_name (snd (selectConnection hs cp)) = pool_name cp"
  using selectConnection_snd [of hs cp] by auto

lemma get_selected_name: "get_selected env now hs cp = Some (r, cp1) \<Longrightarrow> pool_name cp1 = pool_name cp"
  using selectConnection_name [of hs cp] by (auto simp: get_selected_def split: prod.splits sum.splits dest: checkAndScale_name)

lemma get_attempt_name: "get_attempt env now n cp = Some (r, cp1) \<Longrightarrow> pool_name cp1 = pool_name cp"
proof (induction n arbitrary: cp)
  case (Suc n)
  show ?case
    using Suc.prems Suc.IH scaleUp_name [of env 1 cp] get_selected_name [of env now "healthy_conns cp" cp]
    by (subst (asm) get_attempt.simps) (auto simp del: get_attempt.simps scaleUp.simps split: if_splits option.splits prod.splits)
qed (auto split: if_splits dest: get_selected_name)

lemma pool_do_name: "pool_do env a cp = Some cp1 \<Longrightarrow> pool_name cp1 = pool_name cp"
  by (cases a) (auto simp: healthCheckConnection_def cleanupConnections_def with_connMutex_Some pool_Stop_def drop_dead_def Let_def
      selectConnection_name dest: createConnection_name scaleDown_name create_needed_name split: if_splits)

subsection \<open>Keys\<close>

lemma poolKey_rev: "CHR ''_'' \<notin> set r \<Longrightarrow> takeWhile (\<lambda>c. c \<noteq> CHR ''_'') (rev (poolKey a r)) = rev r"
  by (auto simp: poolKey_def takeWhile_append)

lemma poolKey_inj:
  assumes "poolKey a r = poolKey a' r'" "CHR ''_'' \<notin> set r" "CHR ''_'' \<notin> set r'"
  shows "a = a' \<and> r = r'"
proof -
  have "r = r'" using poolKey_rev [OF assms(2), of a] poolKey_rev [OF assms(3), of a'] assms(1) by simp
  then show ?thesis using assms(1) by (simp add: poolKey_def)
qed

subsection \<open>The manager's invariant\<close>

text \<open>Every pool stands under the key of its own address and type, and is well-formed for its creator.\<close>

definition pool_at :: "string \<Rightarrow> creator_env \<times> conn_pool \<Rightarrow> bool" where
  "pool_at key p \<longleftrightarrow> (\<exists>a r. pool_name (snd p) = (a, r) \<and> key = poolKey a r \<and> CHR ''_'' \<notin> set r)
     \<and> strict_mono (fst \<circ> fst p) \<and> pool_wf (fst p) (snd p)"

definition manager_ok :: "pool_manager \<Rightarrow> bool" where
  [inv_defs]: "manager_ok pm \<longleftrightarrow> (\<forall>key p. gm_get (pg_pools pm) key = Some p \<longrightarrow> pool_at key p)
     \<and> (\<forall>r c a. gm_get (pg_creators pm) r = Some c \<longrightarrow> strict_mono (fst \<circ> c a))"

lemma manager_ok_get: "manager_ok pm \<Longrightarrow> gm_get (pg_pools pm) key = Some p \<Longrightarrow> pool_at key p"
  unfolding manager_ok_def by blast

lemma manager_ok_set: "manager_ok pm \<Longrightarrow> pool_at key p \<Longrightarrow> manager_ok (pm \<lparr> pg_pools := gm_set (pg_pools pm) key p \<rparr>)"
  unfolding manager_ok_def by (auto simp: gm_get_set)

lemma pool_at_update:
  assumes "pool_at key (env, cp)" "pool_name cp1 = pool_name cp" "pool_wf env cp1"
  shows "pool_at key (env, cp1)"
  using assms by (simp add: pool_at_def)

text \<open>A creator reads a clock that advances; the types carry no underscore.\<close>

fun act_ok :: "manager_act \<Rightarrow> bool" where
  "act_ok (MRegister r c) \<longleftrightarrow> (\<forall>a. strict_mono (fst \<circ> c a))"
| "act_ok (MGet a r now) \<longleftrightarrow> CHR ''_'' \<notin> set r"
| "act_ok _ \<longleftrightarrow> True"

lemma GetOrCreatePool_ok:
  assumes "manager_ok pm" "CHR ''_'' \<notin> set r"
  shows "\<exists>res pm1. GetOrCreatePool a r pm = Some (res, pm1) \<and> manager_ok pm1 \<and>
    (case res of Inl e \<Rightarrow> e = ErrNoCreator \<and> pm1 = pm \<and> gm_get (pg_creators pm) r = None \<and> gm_get (pg_pools pm) (poolKey a r) = None
     | Inr p \<Rightarrow> gm_get (pg_pools pm1) (poolKey a r) = Some p \<and> pool_at (poolKey a r) p)"
proof (cases "gm_get (pg_pools pm) (poolKey a r)")
  case (Some p)
  then show ?thesis using assms(1) manager_ok_get [OF assms(1) Some] by (auto simp: GetOrCreatePool_def)
next
  case none: None
  show ?thesis
  proof (cases "gm_get (pg_creators pm) r")
    case None
    then show ?thesis using none assms(1) by (auto simp: GetOrCreatePool_def)
  next
    case (Some c)
    let ?new = "NewConnectionPool a r (Some (pool_config_for r pm))"
    obtain p where p: "pool_Start (c a) ?new = Some p" using pool_Start_returns by blast
    have mono: "strict_mono (fst \<circ> c a)" using assms(1) Some by (simp add: manager_ok_def)
    have "pool_name p = pool_name ?new" using p create_initial_name by (simp add: pool_Start_def)
    then have "pool_at (poolKey a r) (c a, p)"
      using assms(2) mono pool_Start_wf [OF mono p] by (simp add: pool_at_def pool_name_def NewConnectionPool_def)
    then show ?thesis using none Some p manager_ok_set [OF assms(1)] by (auto simp: GetOrCreatePool_def gm_get_set)
  qed
qed

lemma manager_GetConnection_ok:
  assumes "manager_ok pm" "CHR ''_'' \<notin> set r" "manager_GetConnection a r now pm = Some (res, pm2)"
  shows "manager_ok pm2"
proof -
  obtain g pm1 where g: "GetOrCreatePool a r pm = Some (g, pm1)" "manager_ok pm1"
    "case g of Inl e \<Rightarrow> e = ErrNoCreator \<and> pm1 = pm \<and> gm_get (pg_creators pm) r = None \<and> gm_get (pg_pools pm) (poolKey a r) = None
     | Inr p \<Rightarrow> gm_get (pg_pools pm1) (poolKey a r) = Some p \<and> pool_at (poolKey a r) p"
    using GetOrCreatePool_ok [OF assms(1,2), of a] by blast
  show ?thesis
  proof (cases g)
    case (Inr p)
    obtain env cp where p: "p = (env, cp)" by (cases p)
    then have at: "pool_at (poolKey a r) (env, cp)" using g(3) Inr by simp
    obtain cp1 where c: "GetConnection env now cp = Some (res, cp1)" "pm2 = pm1 \<lparr> pg_pools := gm_set (pg_pools pm1) (poolKey a r) (env, cp1) \<rparr>"
      using assms(3) g(1) Inr p by (auto simp: manager_GetConnection_def)
    have "pool_at (poolKey a r) (env, cp1)"
      using pool_at_update [OF at] get_attempt_name get_attempt_wf at c(1) by (auto simp: GetConnection_def pool_at_def)
    then show ?thesis using manager_ok_set [OF g(2)] c(2) by simp
  qed (use assms(3) g in \<open>auto simp: manager_GetConnection_def\<close>)
qed

lemma manager_MPool_ok:
  assumes "manager_ok pm" "manager_do (MPool key act) pm = Some pm1"
  shows "manager_ok pm1"
proof (cases "gm_get (pg_pools pm) key")
  case (Some p)
  obtain env cp where p: "p = (env, cp)" by (cases p)
  then have at: "pool_at key (env, cp)" using manager_ok_get [OF assms(1) Some] by simp
  obtain cp1 where c: "pool_do env act cp = Some cp1" "pm1 = pm \<lparr> pg_pools := gm_set (pg_pools pm) key (env, cp1) \<rparr>"
    using assms(2) Some p by auto
  have "pool_wf env cp1" using pool_do_wf [OF _ _ c(1)] at by (simp add: pool_at_def)
  then show ?thesis using manager_ok_set [OF assms(1) pool_at_update [OF at pool_do_name [OF c(1)]]] c(2) by simp
qed (use assms in simp)

lemma manager_do_ok:
  assumes "manager_ok pm" "act_ok act" "manager_do act pm = Some pm1"
  shows "manager_ok pm1"
proof (cases act)
  case (MGet a r now)
  then show ?thesis using assms manager_GetConnection_ok by auto
next
  case (MPool key act')
  then show ?thesis using assms manager_MPool_ok by blast
qed (use assms in \<open>auto simp: manager_ok_def RegisterCreator_def SetPoolConfig_def RemovePool_def manager_Close_def gm_get_set gm_get_del
      split: option.splits if_splits\<close>)

lemma manager_run_ok: "manager_ok pm \<Longrightarrow> \<forall>act \<in> set as. act_ok act \<Longrightarrow> manager_run as pm = Some pm1 \<Longrightarrow> manager_ok pm1"
  by (induction as pm rule: manager_run.induct) (auto split: option.splits dest: manager_do_ok)

lemma manager_ok_new: "manager_ok NewPoolManager"
  by (simp add: manager_ok_def NewPoolManager_def)

section \<open>Properties\<close>

text \<open>
  After any use of the manager and its pools, \<open>GetOrCreatePool\<close> returns: the pool of exactly the address
  and RPC type asked for, which the manager now holds, well-formed and within its limit of connections; or,
  when there is neither a pool nor a creator for the type, the error. The key joins address and type by an
  underscore, so the types must not contain one: otherwise two different pairs share a key and the
  manager hands out the pool of another address.
\<close>

theorem GetOrCreatePool_own_pool:
  assumes "\<forall>act \<in> set as. act_ok act" "manager_run as NewPoolManager = Some pm" "CHR ''_'' \<notin> set rpcType"
  shows "\<exists>res pm1. GetOrCreatePool address rpcType pm = Some (res, pm1) \<and>
    (case res of
       Inl e \<Rightarrow> e = ErrNoCreator \<and> gm_get (pg_creators pm) rpcType = None \<and> gm_get (pg_pools pm) (poolKey address rpcType) = None
     | Inr (env, cp) \<Rightarrow> cp_address cp = address \<and> cp_rpcType cp = rpcType \<and> gm_get (pg_pools pm1) (poolKey address rpcType) = Some (env, cp)
         \<and> pool_wf env cp \<and> pool_len cp \<le> max 0 (pf_MaxConnections (cp_config cp)))"
proof -
  have "manager_ok pm" using manager_run_ok [OF manager_ok_new assms(1,2)] .
  from GetOrCreatePool_ok [OF this assms(3), of address]
  obtain res pm1 where g: "GetOrCreatePool address rpcType pm = Some (res, pm1)"
    "case res of Inl e \<Rightarrow> e = ErrNoCreator \<and> pm1 = pm \<and> gm_get (pg_creators pm) rpcType = None \<and> gm_get (pg_pools pm) (poolKey address rpcType) = None
     | Inr p \<Rightarrow> gm_get (pg_pools pm1) (poolKey address rpcType) = Some p \<and> pool_at (poolKey address rpcType) p"
    by blast
  have "cp_address cp = address \<and> cp_rpcType cp = rpcType \<and> pool_wf env cp \<and> pool_len cp \<le> max 0 (pf_MaxConnections (cp_config cp))"
    if at: "pool_at (poolKey address rpcType) (env, cp)" for env cp
  proof -
    obtain a r where n: "pool_name cp = (a, r)" "poolKey address rpcType = poolKey a r" "CHR ''_'' \<notin> set r" "pool_wf env cp"
      using at by (auto simp: pool_at_def)
    then have "address = a \<and> rpcType = r" using poolKey_inj [OF n(2) assms(3) n(3)] by simp
    then show ?thesis using n(1,4) by (auto simp: pool_name_def pool_wf_def)
  qed
  then show ?thesis using g by (auto split: sum.splits)
qed

theorem GetOrCreatePool_own_pool_witness:
  "\<exists>pm env cp pm1. manager_run [MRegister ''nats'' (\<lambda>_. demo_env), MGet ''h:1'' ''nats'' 7] NewPoolManager = Some pm
     \<and> GetOrCreatePool ''h:2'' ''nats'' pm = Some (Inr (env, cp), pm1) \<and> cp_address cp = ''h:2'' \<and> cp_rpcType cp = ''nats''"
proof -
  let ?as = "[MRegister ''nats'' (\<lambda>_. demo_env), MGet ''h:1'' ''nats'' 7]"
  have "\<not> Option.is_none (manager_run ?as NewPoolManager)"
    "\<not> Option.is_none (gm_get (pg_creators (the (manager_run ?as NewPoolManager))) ''nats'')" by code_simp+
  then obtain pm where pm: "manager_run ?as NewPoolManager = Some pm" "gm_get (pg_creators pm) ''nats'' \<noteq> None"
    by (auto simp: Option.is_none_def)
  have "\<forall>act \<in> set ?as. act_ok act" using demo_env_mono by auto
  note own = GetOrCreatePool_own_pool [OF this pm(1), of "''nats''" "''h:2''"]
  obtain res pm1 where g: "GetOrCreatePool ''h:2'' ''nats'' pm = Some (res, pm1)" using own by auto
  then obtain env cp where "res = Inr (env, cp)" "cp_address cp = ''h:2''" "cp_rpcType cp = ''nats''"
    using own pm(2) by (auto split: sum.splits prod.splits)
  then show ?thesis using pm(1) g by blast
qed

end
