(* ===== verification/Bytes_Pool.thy ===== *)
theory Bytes_Pool
  imports Ember_Prelude
begin

text \<open>
  The pool of byte buffers of the network layer, \<open>engine/pkg/utils/bytespool\<close>: four areas of size classes,
  each class a \<open>sync.Pool\<close>. A buffer is its backing array; its capacity is the array's length. A
  \<open>sync.Pool\<close> hands out any of its cached buffers or a new one, which the argument \<open>pick\<close> decides.

  The contract that the message parser relies on is the locale \<open>buffer_source\<close>.
\<close>

section \<open>Definitions\<close>

type_synonym byte = "8 word"

record mem_area =
  ma_min :: int
  ma_max :: int
  ma_growth :: int
  ma_pool :: "byte list list list"

definition poolLen :: "int \<Rightarrow> int \<Rightarrow> int \<Rightarrow> nat" where
  "poolLen mn mx gr = nat (go_div (mx - mn + 1) gr)"

definition memSize :: "mem_area \<Rightarrow> nat \<Rightarrow> nat" where
  "memSize a i = nat ((ma_min a - 1) + (int i + 1) * ma_growth a)"

text \<open>\<open>makePool\<close>: all classes empty; the \<open>New\<close> function of class \<open>i\<close> makes \<open>memSize\<close> bytes.\<close>

definition makePool :: "int \<Rightarrow> int \<Rightarrow> int \<Rightarrow> mem_area" where
  "makePool mn mx gr = \<lparr> ma_min = mn, ma_max = mx, ma_growth = gr, ma_pool = replicate (poolLen mn mx gr) [] \<rparr>"

definition memAreaPoolList :: "mem_area list" where
  "memAreaPoolList = [makePool 1 4096 512, makePool 4097 40960 4096, makePool 40961 417792 16384, makePool 417793 1925120 65536]"

definition getPosByteSize :: "mem_area \<Rightarrow> int \<Rightarrow> int" where
  "getPosByteSize a sz = (let pos = go_div (sz - ma_min a) (ma_growth a) in if pos \<ge> int (length (ma_pool a)) then - 1 else pos)"

text \<open>A slice: its backing array and its length. Slicing beyond the capacity panics.\<close>

definition reslice :: "byte list \<Rightarrow> int \<Rightarrow> go_panic + byte list \<times> nat" where
  "reslice arr sz = (if 0 \<le> sz \<and> sz \<le> int (length arr) then Inr (arr, nat sz) else Inl (Go_Panic ''slice bounds out of range''))"

definition pool_Get :: "nat option \<Rightarrow> nat \<Rightarrow> byte list list \<Rightarrow> byte list \<times> byte list list" where
  "pool_Get pick new cached =
     (case pick of
        Some j \<Rightarrow> if j < length cached then (cached ! j, take j cached @ drop (Suc j) cached) else (replicate new 0, cached)
      | None \<Rightarrow> (replicate new 0, cached))"

text \<open>Area \<open>i\<close> of the list; nil is the empty slice without an array. A position in range is never negative here.\<close>

definition makeByteSlice :: "nat option \<Rightarrow> int \<Rightarrow> mem_area \<Rightarrow> go_panic + (byte list \<times> nat) \<times> mem_area" where
  "makeByteSlice pick sz a =
     (let pos = getPosByteSize a sz
      in if pos > int (length (ma_pool a)) \<or> pos = - 1 then Inr (([], 0), a)
         else if pos < 0 \<or> pos = int (length (ma_pool a)) then Inl (Go_Panic ''index out of range'')
         else let (arr, rest) = pool_Get pick (memSize a (nat pos)) (ma_pool a ! nat pos)
              in and_then (reslice arr sz) (\<lambda>s. Inr (s, a \<lparr> ma_pool := (ma_pool a)[nat pos := rest] \<rparr>)))"

definition releaseByteSlice :: "byte list \<Rightarrow> mem_area \<Rightarrow> go_panic + bool \<times> mem_area" where
  "releaseByteSlice arr a =
     (let pos = getPosByteSize a (int (length arr))
      in if pos > int (length (ma_pool a)) \<or> pos = - 1 then Inr (False, a)
         else if pos < 0 \<or> pos = int (length (ma_pool a)) then Inl (Go_Panic ''index out of range'')
         else Inr (True, a \<lparr> ma_pool := (ma_pool a)[nat pos := arr # ma_pool a ! nat pos] \<rparr>))"

fun MakeBytes :: "nat option \<Rightarrow> int \<Rightarrow> mem_area list \<Rightarrow> go_panic + (byte list \<times> nat) \<times> mem_area list" where
  "MakeBytes pick sz [] = and_then (if sz < 0 then Inl (Go_Panic ''makeslice: len out of range'') else Inr (replicate (nat sz) 0, nat sz)) (\<lambda>s. Inr (s, []))"
| "MakeBytes pick sz (a # as) =
     (if sz \<le> ma_max a then and_then (makeByteSlice pick sz a) (\<lambda>(s, a'). Inr (s, a' # as))
      else and_then (MakeBytes pick sz as) (\<lambda>(s, as'). Inr (s, a # as')))"

fun ReleaseBytes :: "byte list \<Rightarrow> mem_area list \<Rightarrow> go_panic + bool \<times> mem_area list" where
  "ReleaseBytes arr [] = Inr (False, [])"
| "ReleaseBytes arr (a # as) =
     (if int (length arr) \<le> ma_max a then and_then (releaseByteSlice arr a) (\<lambda>(b, a'). Inr (b, a' # as))
      else and_then (ReleaseBytes arr as) (\<lambda>(b, as'). Inr (b, a # as')))"

section \<open>The contract of a source of buffers\<close>

locale buffer_source =
  fixes make :: "'p \<Rightarrow> int \<Rightarrow> 's \<Rightarrow> go_panic + (byte list \<times> nat) \<times> 's"
    and release :: "byte list \<Rightarrow> 's \<Rightarrow> go_panic + bool \<times> 's"
    and good :: "'s \<Rightarrow> bool"
    and own :: "byte list \<Rightarrow> bool"
  assumes make_ok: "good s \<Longrightarrow> \<exists>arr s'. make p (int n) s = Inr ((arr, n), s') \<and> n \<le> length arr \<and> own arr \<and> good s'"
    and release_ok: "good s \<Longrightarrow> own arr \<Longrightarrow> \<exists>b s'. release arr s = Inr (b, s') \<and> good s'"
    and own_size: "own arr \<Longrightarrow> length arr' = length arr \<Longrightarrow> own arr'"
begin

text \<open>A buffer that was taken can be given back, and then any other one taken.\<close>

lemma take_return_take:
  assumes "good s"
  shows "\<exists>arr s1 b s2 arr' s3. make p (int n) s = Inr ((arr, n), s1) \<and> release arr s1 = Inr (b, s2)
     \<and> make p' (int m) s2 = Inr ((arr', m), s3) \<and> m \<le> length arr' \<and> good s3"
proof -
  obtain arr s1 where 1: "make p (int n) s = Inr ((arr, n), s1)" "own arr" "good s1" using make_ok [OF assms] by blast
  obtain b s2 where "release arr s1 = Inr (b, s2)" "good s2" using release_ok [OF 1(3,2)] by blast
  then show ?thesis using 1(1) make_ok by blast
qed

end

section \<open>Lemmas\<close>

text \<open>Every class holds buffers of its own size only; the areas cover the sizes without a gap.\<close>

definition area_dims :: "mem_area \<Rightarrow> bool" where
  "area_dims a \<longleftrightarrow> ma_pool a \<noteq> [] \<and> 1 \<le> ma_min a \<and> 2 \<le> ma_growth a \<and> ma_max a = ma_min a - 1 + int (length (ma_pool a)) * ma_growth a"

definition area_ok :: "mem_area \<Rightarrow> bool" where
  [inv_defs]: "area_ok a \<longleftrightarrow> area_dims a \<and> (\<forall>i < length (ma_pool a). \<forall>arr \<in> set (ma_pool a ! i). length arr = memSize a i)"

fun areas_ok :: "int \<Rightarrow> mem_area list \<Rightarrow> bool" where
  "areas_ok lo [] \<longleftrightarrow> True"
| "areas_ok lo (a # as) \<longleftrightarrow> area_ok a \<and> ma_min a = lo + 1 \<and> areas_ok (ma_max a) as"

text \<open>The part of it that does not depend on what has been released.\<close>

fun areas_dims :: "int \<Rightarrow> mem_area list \<Rightarrow> bool" where
  "areas_dims lo [] \<longleftrightarrow> True"
| "areas_dims lo (a # as) \<longleftrightarrow> area_dims a \<and> ma_min a = lo + 1 \<and> areas_dims (ma_max a) as"

definition area_shape :: "mem_area \<Rightarrow> int \<times> int \<times> int \<times> nat" where
  "area_shape a = (ma_min a, ma_max a, ma_growth a, length (ma_pool a))"

definition own_in :: "mem_area list \<Rightarrow> byte list \<Rightarrow> bool" where
  "own_in as arr \<longleftrightarrow> (\<exists>a \<in> set as. \<exists>i < length (ma_pool a). length arr = memSize a i) \<or> (\<forall>a \<in> set as. ma_max a < int (length arr))"

lemma memSize_int: "area_dims a \<Longrightarrow> int (memSize a i) = ma_min a - 1 + (int i + 1) * ma_growth a"
  by (simp add: area_dims_def memSize_def)

lemma memSize_range:
  assumes "area_dims a" "i < length (ma_pool a)"
  shows "ma_min a \<le> int (memSize a i)" "int (memSize a i) \<le> ma_max a"
proof -
  have "1 * ma_growth a \<le> (int i + 1) * ma_growth a" "(int i + 1) * ma_growth a \<le> int (length (ma_pool a)) * ma_growth a"
    using assms by (intro mult_right_mono; simp add: area_dims_def)+
  then show "ma_min a \<le> int (memSize a i)" "int (memSize a i) \<le> ma_max a"
    using assms by (auto simp: memSize_int area_dims_def)
qed

lemma int_div_less: "0 < g \<Longrightarrow> x < m * g \<Longrightarrow> x div g < (m :: int)"
  using zdiv_mono1 [of "m * g" "x div g * g" g] pos_mod_sign [of g x] div_mult_mod_eq [of x g]
  by (smt (verit) mult_le_cancel_right)

lemma getPos_range:
  assumes "area_dims a" "ma_min a - 1 \<le> sz" "sz \<le> ma_max a"
  shows "0 \<le> getPosByteSize a sz \<and> getPosByteSize a sz < int (length (ma_pool a)) \<and> sz \<le> int (memSize a (nat (getPosByteSize a sz)))"
proof (cases "sz = ma_min a - 1")
  case True
  have "go_div (- 1) (ma_growth a) = 0" using assms(1) by (simp add: go_div_def area_dims_def)
  then show ?thesis using True assms by (auto simp: getPosByteSize_def Let_def memSize_int area_dims_def)
next
  case False
  let ?p = "(sz - ma_min a) div ma_growth a"
  have g: "2 \<le> ma_growth a" using assms(1) by (simp add: area_dims_def)
  have p: "go_div (sz - ma_min a) (ma_growth a) = ?p" using False assms(2) g by (intro go_div_nonneg) auto
  have "0 \<le> ?p" using False assms(2) g by (intro div_int_pos_iff [THEN iffD2]) auto
  moreover have "?p < int (length (ma_pool a))" using assms(1,3) g by (auto simp: area_dims_def int_div_less)
  moreover have "sz - ma_min a < (?p + 1) * ma_growth a"
    using g by (metis add.commute div_mult_mod_eq distrib_right mult_1 pos_mod_bound add_strict_left_mono less_le_trans zero_less_numeral)
  ultimately show ?thesis using assms(1) p by (auto simp: getPosByteSize_def Let_def memSize_int)
qed

lemma makeByteSlice_ok:
  assumes "area_ok a" "ma_min a - 1 \<le> int n" "int n \<le> ma_max a"
  shows "\<exists>arr a' i. makeByteSlice pick (int n) a = Inr ((arr, n), a') \<and> n \<le> length arr \<and> i < length (ma_pool a) \<and> length arr = memSize a i
     \<and> area_ok a' \<and> area_shape a' = area_shape a"
proof -
  let ?i = "nat (getPosByteSize a (int n))"
  have p: "0 \<le> getPosByteSize a (int n)" "getPosByteSize a (int n) < int (length (ma_pool a))" "int n \<le> int (memSize a ?i)"
    using getPos_range [OF _ assms(2,3)] assms(1) by (auto simp: area_ok_def)
  then have i: "?i < length (ma_pool a)" by simp
  obtain arr rest where g: "pool_Get pick (memSize a ?i) (ma_pool a ! ?i) = (arr, rest)" by fastforce
  have set: "set (ma_pool a ! ?i) \<subseteq> {arr. length arr = memSize a ?i}" using assms(1) i by (auto simp: area_ok_def)
  then have arr: "length arr = memSize a ?i" "set rest \<subseteq> set (ma_pool a ! ?i)"
    using g by (fastforce simp: pool_Get_def split: option.splits if_splits dest: in_set_takeD in_set_dropD nth_mem)+
  let ?a = "a \<lparr> ma_pool := (ma_pool a)[?i := rest] \<rparr>"
  have "set ((ma_pool a)[?i := rest] ! j) \<subseteq> set (ma_pool a ! j)" if "j < length (ma_pool a)" for j
    using arr(2) that by (cases "j = ?i") simp_all
  then have "area_ok ?a" using assms(1) by (fastforce simp: area_ok_def area_dims_def memSize_def)
  moreover have "makeByteSlice pick (int n) a = Inr ((arr, n), ?a)"
    using p g arr(1) by (simp add: makeByteSlice_def Let_def reslice_def)
  ultimately show ?thesis using arr(1) i p(3) by (auto simp: area_shape_def)
qed

lemma getPos_memSize:
  assumes "area_dims a" "i < length (ma_pool a)"
  shows "getPosByteSize a (int (memSize a i)) = int i"
proof -
  have g: "2 \<le> ma_growth a" using assms(1) by (simp add: area_dims_def)
  have "int (memSize a i) - ma_min a = int i * ma_growth a + (ma_growth a - 1)" using assms(1) by (simp add: memSize_int algebra_simps)
  moreover have "(int i * ma_growth a + (ma_growth a - 1)) div ma_growth a = int i" using g by (simp add: div_mult_self3)
  ultimately have "go_div (int (memSize a i) - ma_min a) (ma_growth a) = int i" using g by (subst go_div_nonneg) auto
  then show ?thesis using assms(2) by (simp add: getPosByteSize_def)
qed

lemma releaseByteSlice_ok:
  assumes "area_ok a" "i < length (ma_pool a)" "length arr = memSize a i"
  shows "\<exists>a'. releaseByteSlice arr a = Inr (True, a') \<and> area_ok a' \<and> area_shape a' = area_shape a"
proof -
  let ?a = "a \<lparr> ma_pool := (ma_pool a)[i := arr # ma_pool a ! i] \<rparr>"
  have "area_ok ?a" using assms by (auto simp: area_ok_def area_dims_def memSize_def nth_list_update)
  moreover have "releaseByteSlice arr a = Inr (True, ?a)"
    using getPos_memSize [OF _ assms(2)] assms(1,2,3) by (simp add: releaseByteSlice_def Let_def area_ok_def)
  ultimately show ?thesis by (auto simp: area_shape_def)
qed

lemma areas_ok_shape: "area_shape a' = area_shape a \<Longrightarrow> ma_max a' = ma_max a \<and> ma_min a' = ma_min a \<and> length (ma_pool a') = length (ma_pool a) \<and> memSize a' i = memSize a i"
  by (simp add: area_shape_def memSize_def)

lemma own_in_shape: "map area_shape as' = map area_shape as \<Longrightarrow> own_in as' arr = own_in as arr"
proof -
  have "own_in as arr \<longleftrightarrow> (\<exists>(mn, mx, gr, n) \<in> set (map area_shape as). \<exists>i < n. length arr = nat ((mn - 1) + (int i + 1) * gr))
      \<or> (\<forall>(mn, mx, gr, n) \<in> set (map area_shape as). mx < int (length arr))" for as
    by (auto simp: own_in_def area_shape_def memSize_def)
  moreover assume "map area_shape as' = map area_shape as"
  ultimately show ?thesis by (simp only:)
qed

lemma MakeBytes_ok:
  "areas_ok lo as \<Longrightarrow> lo \<le> int n \<Longrightarrow> \<exists>arr as'. MakeBytes pick (int n) as = Inr ((arr, n), as') \<and> n \<le> length arr \<and> own_in as arr
     \<and> areas_ok lo as' \<and> map area_shape as' = map area_shape as"
proof (induction as arbitrary: lo)
  case (Cons a as)
  show ?case
  proof (cases "int n \<le> ma_max a")
    case True
    obtain arr a' i where m: "makeByteSlice pick (int n) a = Inr ((arr, n), a')" "n \<le> length arr" "i < length (ma_pool a)"
      "length arr = memSize a i" "area_ok a'" "area_shape a' = area_shape a"
      using makeByteSlice_ok [of a n pick] Cons.prems True by auto
    moreover have "own_in (a # as) arr" using m(3,4) by (auto simp: own_in_def)
    ultimately show ?thesis using True Cons.prems areas_ok_shape [OF m(6), of 0] by (auto)
  next
    case False
    obtain arr as' where m: "MakeBytes pick (int n) as = Inr ((arr, n), as')" "n \<le> length arr" "own_in as arr"
      "areas_ok (ma_max a) as'" "map area_shape as' = map area_shape as"
      using Cons.IH [of "ma_max a"] Cons.prems False by auto
    have "own_in (a # as) arr" using m(2,3) False by (auto simp: own_in_def)
    then show ?thesis using m False Cons.prems by auto
  qed
qed (simp add: own_in_def)

lemma ReleaseBytes_ok:
  "areas_ok lo as \<Longrightarrow> own_in as arr \<Longrightarrow> \<exists>b as'. ReleaseBytes arr as = Inr (b, as') \<and> areas_ok lo as' \<and> map area_shape as' = map area_shape as"
proof (induction as arbitrary: lo)
  case (Cons a as)
  have beyond: "areas_ok lo bs \<Longrightarrow> b \<in> set bs \<Longrightarrow> i < length (ma_pool b) \<Longrightarrow> lo < int (memSize b i)" for lo bs b i
  proof (induction bs arbitrary: lo)
    case (Cons c bs)
    have "lo \<le> ma_max c" using Cons.prems(1) by (simp add: area_ok_def area_dims_def)
    then show ?case using Cons memSize_range [of b i] by (fastforce simp: area_ok_def)
  qed simp
  show ?case
  proof (cases "int (length arr) \<le> ma_max a")
    case True
    obtain b i where b: "b \<in> set (a # as)" "i < length (ma_pool b)" "length arr = memSize b i"
      using Cons.prems(2) True by (fastforce simp: own_in_def)
    have "b \<notin> set as \<or> b = a" using beyond [of "ma_max a" as b i] b True Cons.prems(1) by auto
    then have "b = a" using b by auto
    then obtain a' where "releaseByteSlice arr a = Inr (True, a')" "area_ok a'" "area_shape a' = area_shape a"
      using releaseByteSlice_ok b Cons.prems(1) by (metis areas_ok.simps(2))
    then show ?thesis using True Cons.prems(1) areas_ok_shape [of a' a 0] by auto
  next
    case False
    have "own_in as arr" using Cons.prems memSize_range [of a] False by (fastforce simp: own_in_def area_ok_def)
    then show ?thesis using Cons.IH [of "ma_max a"] Cons.prems False by auto
  qed
qed auto

text \<open>\<open>ReleaseBytes\<close> takes any slice without a panic.\<close>

lemma ReleaseBytes_total:
  "areas_dims lo as \<Longrightarrow> lo \<le> int (length arr) \<Longrightarrow> \<exists>b as'. ReleaseBytes arr as = Inr (b, as') \<and> map area_shape as' = map area_shape as"
proof (induction as arbitrary: lo)
  case (Cons a as)
  show ?case
  proof (cases "int (length arr) \<le> ma_max a")
    case True
    then show ?thesis using getPos_range [of a "int (length arr)"] Cons.prems
      by (auto simp: releaseByteSlice_def Let_def area_shape_def)
  next
    case False
    then show ?thesis using Cons.IH [of "ma_max a"] Cons.prems by auto
  qed
qed auto

lemma areas_dims_shape: "areas_dims lo as \<Longrightarrow> map area_shape as' = map area_shape as \<Longrightarrow> areas_dims lo as'"
proof (induction as arbitrary: lo as')
  case (Cons a as)
  then obtain b bs where b: "as' = b # bs" "area_shape b = area_shape a" "map area_shape bs = map area_shape as" by (cases as') auto
  have "ma_pool b = [] \<longleftrightarrow> ma_pool a = []" using b(2) by (cases "ma_pool a"; cases "ma_pool b") (simp_all add: area_shape_def)
  then have "area_dims b = area_dims a" using b(2) by (simp add: area_shape_def area_dims_def)
  then show ?case using b Cons.prems(1) Cons.IH [of "ma_max a" bs] areas_ok_shape [OF b(2), of 0] by simp
qed auto

lemma MakeBytes_shape: "MakeBytes pick sz as = Inr (s, as') \<Longrightarrow> map area_shape as' = map area_shape as"
proof (induction as arbitrary: as')
  case (Cons a as)
  have "area_shape a' = area_shape a" if "makeByteSlice pick sz a = Inr (s, a')" for a'
    using that by (auto simp: makeByteSlice_def Let_def area_shape_def split: if_splits prod.splits)
  then show ?case using Cons by (auto split: if_splits)
qed auto

lemma ReleaseBytes_shape: "ReleaseBytes arr as = Inr (b, as') \<Longrightarrow> map area_shape as' = map area_shape as"
proof (induction as arbitrary: as')
  case (Cons a as)
  have "area_shape a' = area_shape a" if "releaseByteSlice arr a = Inr (b, a')" for a'
    using that by (auto simp: releaseByteSlice_def Let_def area_shape_def split: if_splits)
  then show ?case using Cons by (auto split: if_splits)
qed auto

lemma memAreaPoolList_ok: "areas_ok 0 memAreaPoolList"
  by (simp add: memAreaPoolList_def makePool_def area_ok_def area_dims_def poolLen_def go_div_def)

lemma memAreaPoolList_dims: "areas_dims 0 memAreaPoolList"
  by (simp add: memAreaPoolList_def makePool_def area_dims_def poolLen_def go_div_def)

definition areas_good :: "mem_area list \<Rightarrow> bool" where
  "areas_good as \<longleftrightarrow> areas_ok 0 as \<and> map area_shape as = map area_shape memAreaPoolList"

text \<open>The size classes are a source of buffers.\<close>

interpretation mp: buffer_source MakeBytes ReleaseBytes areas_good "own_in memAreaPoolList"
proof (unfold_locales, goal_cases)
  case (1 s p n)
  then show ?case using MakeBytes_ok [of 0 s n p] own_in_shape [of s memAreaPoolList] by (fastforce simp: areas_good_def)
next
  case (2 s arr)
  then show ?case using ReleaseBytes_ok [of 0 s arr] own_in_shape [of s memAreaPoolList] by (fastforce simp: areas_good_def)
next
  case (3 arr arr')
  then show ?case by (simp add: own_in_def)
qed

section \<open>Releasing nil\<close>

text \<open>
  \<open>ReleaseBytes\<close> accepts any slice whose capacity is in range, nil included (capacity 0 falls into the first
  class): after nil has been released, a \<open>MakeBytes\<close> of 1 to 512 bytes that is handed that entry panics.
\<close>

lemma ReleaseBytes_nil_poisons:
  assumes "map area_shape s = map area_shape memAreaPoolList"
  shows "\<exists>s'. ReleaseBytes [] s = Inr (True, s') \<and> map area_shape s' = map area_shape s
     \<and> (\<forall>n. 0 < n \<and> n \<le> 512 \<longrightarrow> MakeBytes (Some 0) n s' = Inl (Go_Panic ''slice bounds out of range''))"
proof -
  obtain a as where s: "s = a # as" "ma_min a = 1" "ma_max a = 4096" "ma_growth a = 512" "length (ma_pool a) = 8"
    using assms by (cases s) (auto simp: memAreaPoolList_def area_shape_def makePool_def poolLen_def go_div_def)
  have "go_div (n - 1) 512 = 0" if "0 < n \<and> n \<le> 512" for n using that by (subst go_div_nonneg) auto
  moreover have "go_div (- 1) 512 = 0" by (simp add: go_div_def)
  ultimately show ?thesis
    using s by (fastforce simp: releaseByteSlice_def makeByteSlice_def getPosByteSize_def pool_Get_def reslice_def area_shape_def)
qed

end
