(* ===== verification/Msg_Parser.thy ===== *)
theory Msg_Parser
  imports Bytes_Pool
begin

text \<open>
  The framing of messages on a byte stream, \<open>engine/pkg/utils/network/tcp_msg.go\<close>: a length of 1, 2 or 4 bytes in either
  byte order, then the data; and the initialisations of the parser by the TCP server, the TCP and KCP
  clients and the KCP server. The buffer pool is the interface \<open>IBytesMemPool\<close>, so \<open>MakeBytes\<close> and \<open>ReleaseBytes\<close> are
  arguments here, and the lemmas are proved under the contract \<open>buffer_source\<close>.

  The reader is the list of bytes that are still to arrive before the end of the stream; the writer is a function
  that takes the bytes of one \<open>conn.Write\<close>, whose results the code drops.
\<close>

section \<open>Definitions\<close>

type_synonym u32 = "32 word"

record msg_parser =
  LenMsgLen :: int
  MinMsgLen :: u32
  MaxMsgLen :: u32
  LittleEndian :: bool

datatype msg_error = Err_EOF | Err_UnexpectedEOF | Err_MsgTooLong | Err_MsgTooShort | Err_ConnIsClose | Err_ChannelFull

type_synonym ('p, 's) make_bytes = "'p \<Rightarrow> int \<Rightarrow> 's \<Rightarrow> go_panic + (byte list \<times> nat) \<times> 's"
type_synonym 's release_bytes = "byte list \<Rightarrow> 's \<Rightarrow> go_panic + bool \<times> 's"

definition getMaxMsgLen :: "msg_parser \<Rightarrow> u32" where
  "getMaxMsgLen p = (if LenMsgLen p = 1 then 255 else if LenMsgLen p = 2 then 65535 else if LenMsgLen p = 4 then 4294967295 else 65535)"

subsection \<open>encoding/binary and io.ReadFull\<close>

definition LE_PutUint16 :: "16 word \<Rightarrow> byte list" where
  "LE_PutUint16 w = [ucast w, ucast (drop_bit 8 w)]"

definition BE_PutUint16 :: "16 word \<Rightarrow> byte list" where
  "BE_PutUint16 w = [ucast (drop_bit 8 w), ucast w]"

definition LE_PutUint32 :: "u32 \<Rightarrow> byte list" where
  "LE_PutUint32 w = [ucast w, ucast (drop_bit 8 w), ucast (drop_bit 16 w), ucast (drop_bit 24 w)]"

definition BE_PutUint32 :: "u32 \<Rightarrow> byte list" where
  "BE_PutUint32 w = [ucast (drop_bit 24 w), ucast (drop_bit 16 w), ucast (drop_bit 8 w), ucast w]"

definition LE_Uint16 :: "byte list \<Rightarrow> 16 word" where
  "LE_Uint16 b = ucast (b ! 0) OR push_bit 8 (ucast (b ! 1))"

definition BE_Uint16 :: "byte list \<Rightarrow> 16 word" where
  "BE_Uint16 b = ucast (b ! 1) OR push_bit 8 (ucast (b ! 0))"

definition LE_Uint32 :: "byte list \<Rightarrow> u32" where
  "LE_Uint32 b = ucast (b ! 0) OR push_bit 8 (ucast (b ! 1)) OR push_bit 16 (ucast (b ! 2)) OR push_bit 24 (ucast (b ! 3))"

definition BE_Uint32 :: "byte list \<Rightarrow> u32" where
  "BE_Uint32 b = ucast (b ! 3) OR push_bit 8 (ucast (b ! 2)) OR push_bit 16 (ucast (b ! 1)) OR push_bit 24 (ucast (b ! 0))"

definition ReadFull :: "nat \<Rightarrow> byte list \<Rightarrow> (msg_error + byte list) \<times> byte list" where
  "ReadFull n r = (if n \<le> length r then (Inr (take n r), drop n r) else (Inl (if r = [] then Err_EOF else Err_UnexpectedEOF), []))"

text \<open>The bytes of a slice from index \<open>l\<close> on are replaced by \<open>bs\<close>.\<close>

definition overlay :: "nat \<Rightarrow> byte list \<Rightarrow> byte list \<Rightarrow> byte list" where
  "overlay l bs arr = take l arr @ bs @ drop (l + length bs) arr"

subsection \<open>Read and Write\<close>

definition parse_len :: "msg_parser \<Rightarrow> byte list \<Rightarrow> u32" where
  "parse_len p b =
     (if LenMsgLen p = 1 then ucast (b ! 0)
      else if LenMsgLen p = 2 then (if LittleEndian p then ucast (LE_Uint16 b) else ucast (BE_Uint16 b))
      else if LenMsgLen p = 4 then (if LittleEndian p then LE_Uint32 b else BE_Uint32 b)
      else 0)"

text \<open>The data is read into the first \<open>msgLen\<close> bytes of the buffer; a buffer that is not filled goes back to the pool.\<close>

definition read_data :: "('p, 's) make_bytes \<Rightarrow> 's release_bytes \<Rightarrow> 'p \<Rightarrow> u32 \<Rightarrow> byte list \<Rightarrow> 's
    \<Rightarrow> go_panic + (msg_error + byte list \<times> nat) \<times> byte list \<times> 's" where
  "read_data mk rl pick msgLen r s =
     and_then (mk pick (uint msgLen) s) (\<lambda>((arr, n), s1).
       if uint msgLen > int (length arr) then Inl (Go_Panic ''slice bounds out of range'')
       else case ReadFull (unat msgLen) r of
              (Inl e, r') \<Rightarrow> and_then (rl (overlay 0 r arr) s1) (\<lambda>(b, s2). Inr (Inl e, r', s2))
            | (Inr data, r') \<Rightarrow> Inr (Inr (overlay 0 data arr, unat msgLen), r', s1))"

definition MsgParser_Read :: "('p, 's) make_bytes \<Rightarrow> 's release_bytes \<Rightarrow> 'p \<Rightarrow> msg_parser \<Rightarrow> byte list \<Rightarrow> 's
    \<Rightarrow> go_panic + (msg_error + byte list \<times> nat) \<times> byte list \<times> 's" where
  "MsgParser_Read mk rl pick p r s =
     (if LenMsgLen p < 0 \<or> LenMsgLen p > 4 then Inl (Go_Panic ''slice bounds out of range'')
      else case ReadFull (nat (LenMsgLen p)) r of
             (Inl e, r') \<Rightarrow> Inr (Inl e, r', s)
           | (Inr b, r') \<Rightarrow>
               let msgLen = parse_len p b
               in if msgLen > MaxMsgLen p then Inr (Inl Err_MsgTooLong, r', s)
                  else if msgLen < MinMsgLen p then Inr (Inl Err_MsgTooShort, r', s)
                  else read_data mk rl pick msgLen r' s)"

definition put_len :: "msg_parser \<Rightarrow> u32 \<Rightarrow> byte list" where
  "put_len p msgLen =
     (if LenMsgLen p = 1 then [ucast msgLen]
      else if LenMsgLen p = 2 then (if LittleEndian p then LE_PutUint16 (ucast msgLen) else BE_PutUint16 (ucast msgLen))
      else if LenMsgLen p = 4 then (if LittleEndian p then LE_PutUint32 msgLen else BE_PutUint32 msgLen)
      else [])"

text \<open>The loop of \<open>copy(msg[l:], args[i])\<close> over a slice of length \<open>n\<close>.\<close>

fun copy_args :: "nat \<Rightarrow> int \<Rightarrow> byte list list \<Rightarrow> byte list \<Rightarrow> go_panic + byte list" where
  "copy_args n l [] arr = Inr arr"
| "copy_args n l (a # as) arr =
     (if l < 0 \<or> l > int n then Inl (Go_Panic ''slice bounds out of range'')
      else copy_args n (l + int (length a)) as (overlay (nat l) (take (n - nat l) a) arr))"

definition MsgParser_Write :: "('p, 's) make_bytes \<Rightarrow> 'p \<Rightarrow> msg_parser \<Rightarrow> (byte list \<Rightarrow> 'c \<Rightarrow> 'c) \<Rightarrow> byte list list \<Rightarrow> 'c \<Rightarrow> 's
    \<Rightarrow> go_panic + msg_error option \<times> 'c \<times> 's" where
  "MsgParser_Write mk pick p connWrite args c s =
     (let msgLen = sum_list (map (\<lambda>a. of_nat (length a) :: u32) args)
      in if msgLen > MaxMsgLen p then Inr (Some Err_MsgTooLong, c, s)
         else if msgLen < MinMsgLen p then Inr (Some Err_MsgTooShort, c, s)
         else and_then (mk pick (LenMsgLen p + uint msgLen) s) (\<lambda>((arr, n), s1).
                if n < length (put_len p msgLen) then Inl (Go_Panic ''index out of range'')
                else and_then (copy_args n (LenMsgLen p) args (overlay 0 (put_len p msgLen) arr)) (\<lambda>msg.
                       Inr (None, connWrite (take n msg) c, s1))))"

subsection \<open>Initialisation\<close>

definition fix_LenMsgLen :: "int \<Rightarrow> int" where
  "fix_LenMsgLen l = (if l \<noteq> 1 \<and> l \<noteq> 2 \<and> l \<noteq> 4 then 2 else l)"

definition clamp_MaxMsgLen :: "msg_parser \<Rightarrow> msg_parser" where
  "clamp_MaxMsgLen p = (if MaxMsgLen p > getMaxMsgLen p then p \<lparr> MaxMsgLen := getMaxMsgLen p \<rparr> else p)"

definition TCPServer_init :: "msg_parser \<Rightarrow> msg_parser" where
  "TCPServer_init p0 =
     (let p1 = (if LenMsgLen p0 \<le> 0 then p0 \<lparr> LenMsgLen := 2 \<rparr> else p0);
          p2 = p1 \<lparr> LenMsgLen := fix_LenMsgLen (LenMsgLen p1) \<rparr>;
          p3 = (if MaxMsgLen p2 = 0 then p2 \<lparr> MaxMsgLen := 65535 \<rparr> else p2);
          p4 = clamp_MaxMsgLen p3
      in if MinMsgLen p4 = 0 then p4 \<lparr> MinMsgLen := 2 \<rparr> else p4)"

text \<open>The same statements in \<open>TCPClient.init\<close> and \<open>KCPClient.init\<close>.\<close>

definition TCPClient_init :: "msg_parser \<Rightarrow> msg_parser" where
  "TCPClient_init p0 =
     (let p1 = (if MinMsgLen p0 = 0 then p0 \<lparr> MinMsgLen := 2 \<rparr> else p0);
          p2 = (if MaxMsgLen p1 = 0 then p1 \<lparr> MaxMsgLen := 65535 \<rparr> else p1);
          p3 = (if LenMsgLen p2 = 0 then p2 \<lparr> LenMsgLen := 2 \<rparr> else p2)
      in clamp_MaxMsgLen (p3 \<lparr> LenMsgLen := fix_LenMsgLen (LenMsgLen p3) \<rparr>))"

definition KCPClient_init :: "msg_parser \<Rightarrow> msg_parser" where
  "KCPClient_init p0 =
     (let p1 = (if MinMsgLen p0 = 0 then p0 \<lparr> MinMsgLen := 2 \<rparr> else p0);
          p2 = (if MaxMsgLen p1 = 0 then p1 \<lparr> MaxMsgLen := 65535 \<rparr> else p1);
          p3 = (if LenMsgLen p2 = 0 then p2 \<lparr> LenMsgLen := 2 \<rparr> else p2)
      in clamp_MaxMsgLen (p3 \<lparr> LenMsgLen := fix_LenMsgLen (LenMsgLen p3) \<rparr>))"

text \<open>\<open>KCPServer.Init\<close> corrects the length field only and takes the limits of the configuration as they are.\<close>

definition KCPServer_Init :: "msg_parser \<Rightarrow> msg_parser" where
  "KCPServer_Init cfg = \<lparr> LenMsgLen = fix_LenMsgLen (LenMsgLen cfg), MinMsgLen = MinMsgLen cfg, MaxMsgLen = MaxMsgLen cfg,
     LittleEndian = LittleEndian cfg \<rparr>"

subsection \<open>A sequence of messages over one stream\<close>

text \<open>Each message with the pool's choice; the connection appends the bytes to the stream.\<close>

fun write_stream :: "('p, 's) make_bytes \<Rightarrow> msg_parser \<Rightarrow> ('p \<times> byte list list) list \<Rightarrow> byte list \<Rightarrow> 's
    \<Rightarrow> go_panic + msg_error option list \<times> byte list \<times> 's" where
  "write_stream mk p [] c s = Inr ([], c, s)"
| "write_stream mk p ((pick, args) # ms) c s =
     and_then (MsgParser_Write mk pick p (\<lambda>bs c. c @ bs) args c s) (\<lambda>(e, c1, s1).
       and_then (write_stream mk p ms c1 s1) (\<lambda>(es, c2, s2). Inr (e # es, c2, s2)))"

fun read_stream :: "('p, 's) make_bytes \<Rightarrow> 's release_bytes \<Rightarrow> msg_parser \<Rightarrow> 'p list \<Rightarrow> byte list \<Rightarrow> 's
    \<Rightarrow> go_panic + (msg_error + byte list) list \<times> byte list \<times> 's" where
  "read_stream mk rl p [] r s = Inr ([], r, s)"
| "read_stream mk rl p (pick # picks) r s =
     and_then (MsgParser_Read mk rl pick p r s) (\<lambda>(res, r1, s1).
       and_then (read_stream mk rl p picks r1 s1) (\<lambda>(ms, r2, s2). Inr (map_sum id (\<lambda>(arr, n). take n arr) res # ms, r2, s2)))"

section \<open>Lemmas\<close>

subsection \<open>The length field\<close>

lemma LE_16 [simp]: "LE_Uint16 (LE_PutUint16 w @ bs) = w"
  by (rule bit_word_eqI) (auto simp: LE_Uint16_def LE_PutUint16_def bit_simps)

lemma BE_16 [simp]: "BE_Uint16 (BE_PutUint16 w @ bs) = w"
  by (rule bit_word_eqI) (auto simp: BE_Uint16_def BE_PutUint16_def bit_simps)

lemma LE_32 [simp]: "LE_Uint32 (LE_PutUint32 w @ bs) = w"
proof (rule bit_word_eqI)
  fix n assume "n < LENGTH(32)"
  then show "bit (LE_Uint32 (LE_PutUint32 w @ bs)) n = bit w n"
    by (cases "24 \<le> n"; cases "16 \<le> n") (auto simp: LE_Uint32_def LE_PutUint32_def bit_simps)
qed

lemma BE_32 [simp]: "BE_Uint32 (BE_PutUint32 w @ bs) = w"
proof (rule bit_word_eqI)
  fix n assume "n < LENGTH(32)"
  then show "bit (BE_Uint32 (BE_PutUint32 w @ bs)) n = bit w n"
    by (cases "24 \<le> n"; cases "16 \<le> n") (auto simp: BE_Uint32_def BE_PutUint32_def bit_simps)
qed

definition parser_ok :: "msg_parser \<Rightarrow> bool" where
  [inv_defs]: "parser_ok p \<longleftrightarrow> LenMsgLen p \<in> {1, 2, 4} \<and> MaxMsgLen p \<le> getMaxMsgLen p"

lemma clamp_ok: "LenMsgLen p \<in> {1, 2, 4} \<Longrightarrow> parser_ok (clamp_MaxMsgLen p)"
  by (auto simp: parser_ok_def clamp_MaxMsgLen_def getMaxMsgLen_def)

lemma fix_LenMsgLen_ok: "fix_LenMsgLen l \<in> {1, 2, 4}"
  by (simp add: fix_LenMsgLen_def)

lemma parser_ok_Min [simp]: "parser_ok (p \<lparr> MinMsgLen := w \<rparr>) = parser_ok p"
  by (simp add: parser_ok_def getMaxMsgLen_def)

lemma init_ok: "parser_ok (TCPServer_init p)" "parser_ok (TCPClient_init p)" "parser_ok (KCPClient_init p)"
  using fix_LenMsgLen_ok by (simp_all add: TCPServer_init_def TCPClient_init_def KCPClient_init_def Let_def clamp_ok)

lemma length_put_len: "LenMsgLen p \<in> {1, 2, 4} \<Longrightarrow> length (put_len p w) = nat (LenMsgLen p)"
  by (auto simp: put_len_def LE_PutUint16_def BE_PutUint16_def LE_PutUint32_def BE_PutUint32_def)

lemma ucast_ucast_small:
  "w \<le> 255 \<Longrightarrow> ucast (ucast (w :: u32) :: byte) = w" "w \<le> 65535 \<Longrightarrow> ucast (ucast (w :: u32) :: 16 word) = w"
  by (auto intro!: word_unat_eq_iff [THEN iffD2] simp: unsigned_ucast_eq take_bit_eq_mod word_le_nat_alt unat_mod_distrib)

lemma parse_put_len:
  assumes "parser_ok p" "w \<le> MaxMsgLen p"
  shows "parse_len p (put_len p w) = w"
proof -
  have "w \<le> getMaxMsgLen p" using assms by (auto simp: parser_ok_def)
  then show ?thesis using assms(1) LE_16 [of _ "[]"] BE_16 [of _ "[]"] LE_32 [of w "[]"] BE_32 [of w "[]"]
    by (auto simp: parser_ok_def getMaxMsgLen_def parse_len_def put_len_def ucast_ucast_small)
qed

subsection \<open>Copying the arguments\<close>

lemma overlay_length [simp]: "l + length bs \<le> length arr \<Longrightarrow> length (overlay l bs arr) = length arr"
  by (simp add: overlay_def)

lemma overlay_0 [simp]: "take (length bs) (overlay 0 bs arr) = bs" "n = length bs \<Longrightarrow> take n (overlay 0 bs arr) = bs"
  by (simp_all add: overlay_def)

lemma overlay_overlay: "l + length bs + length cs \<le> length arr \<Longrightarrow>
    overlay (l + length bs) cs (overlay l bs arr) = overlay l (bs @ cs) arr"
  by (simp add: overlay_def ac_simps)

lemma copy_args_overlay:
  "l + length (concat args) \<le> n \<Longrightarrow> n \<le> length arr \<Longrightarrow> copy_args n (int l) args arr = Inr (overlay l (concat args) arr)"
proof (induction args arbitrary: l arr)
  case Nil
  then show ?case by (simp add: overlay_def)
next
  case (Cons a args)
  have "copy_args n (int (l + length a)) args (overlay l a arr) = Inr (overlay (l + length a) (concat args) (overlay l a arr))"
    using Cons by (intro Cons.IH) auto
  moreover have "take (n - l) a = a" using Cons.prems by simp
  ultimately show ?case using Cons.prems by (simp add: overlay_overlay)
qed

lemma sum_word_lengths: "sum_list (map (\<lambda>a. of_nat (length a) :: u32) args) = of_nat (length (concat args))"
  by (induction args) simp_all

subsection \<open>Under the contract of the pool\<close>

definition msg_fits :: "msg_parser \<Rightarrow> byte list \<Rightarrow> bool" where
  "msg_fits p m \<longleftrightarrow> unat (MinMsgLen p) \<le> length m \<and> length m \<le> unat (MaxMsgLen p)"

lemma unat_u32: "unat (w :: u32) < 2 ^ 32"
  using unsigned_less [of w] by simp

lemma msg_fits_word:
  assumes "msg_fits p m"
  shows "unat (of_nat (length m) :: u32) = length m" "of_nat (length m) \<le> MaxMsgLen p" "MinMsgLen p \<le> of_nat (length m)"
proof -
  have "length m < 2 ^ 32" using assms unat_u32 [of "MaxMsgLen p"] by (simp add: msg_fits_def)
  then show "unat (of_nat (length m) :: u32) = length m" by (simp add: unat_of_nat take_bit_nat_eq_self)
  then show "of_nat (length m) \<le> MaxMsgLen p" "MinMsgLen p \<le> of_nat (length m)"
    using assms by (simp_all add: word_le_nat_alt msg_fits_def)
qed

definition frame :: "msg_parser \<Rightarrow> byte list \<Rightarrow> byte list" where
  "frame p m = put_len p (of_nat (length m)) @ m"

definition len_error :: "msg_parser \<Rightarrow> byte list \<Rightarrow> msg_error option" where
  "len_error p m = (if length m > unat (MaxMsgLen p) then Some Err_MsgTooLong else if length m < unat (MinMsgLen p) then Some Err_MsgTooShort else None)"

lemma len_error_None: "len_error p m = None \<longleftrightarrow> msg_fits p m"
  by (auto simp: len_error_def msg_fits_def)

lemma Write_reject:
  assumes "length (concat args) < 2 ^ 32" "\<not> msg_fits p (concat args)"
  shows "MsgParser_Write mk pick p connWrite args c s = Inr (len_error p (concat args), c, s)"
proof -
  have "unat (of_nat (length (concat args)) :: u32) = length (concat args)" using assms(1) by (simp add: unat_of_nat take_bit_nat_eq_self)
  then show ?thesis using assms(2)
    by (auto simp: MsgParser_Write_def sum_word_lengths Let_def len_error_def msg_fits_def word_less_nat_alt)
qed

lemma frame_cong: "LenMsgLen p = LenMsgLen q \<Longrightarrow> LittleEndian p = LittleEndian q \<Longrightarrow> frame p = frame q"
  by (simp add: frame_def put_len_def fun_eq_iff)

lemma Read_one_byte:
  assumes "LenMsgLen q = 1" "MsgParser_Read mk rl pick q (b # r) s = Inr (Inr (arr, n), r', s')"
  shows "n = unat b"
  using assms
  by (auto simp: MsgParser_Read_def ReadFull_def parse_len_def read_data_def Let_def unsigned_ucast_eq take_bit_nat_eq_self
      less_trans [OF unsigned_less] split: if_splits prod.splits sum.splits)

text \<open>A frame that fits makes the reader ask the pool for its length.\<close>

lemma Read_frame_data:
  assumes "parser_ok p" "msg_fits p m"
  shows "MsgParser_Read mk rl pick p (frame p m @ rest) s = read_data mk rl pick (of_nat (length m)) (m @ rest) s"
proof -
  let ?w = "of_nat (length m) :: u32"
  have w: "\<not> ?w > MaxMsgLen p" "\<not> ?w < MinMsgLen p" "?w \<le> MaxMsgLen p"
    using msg_fits_word [OF assms(2)] by (simp_all add: not_less)
  have "length (put_len p ?w) = nat (LenMsgLen p)" "0 \<le> LenMsgLen p" "LenMsgLen p \<le> 4"
    using assms(1) by (auto simp: length_put_len parser_ok_def)
  then show ?thesis using w(1,2) parse_put_len [OF assms(1) w(3)] by (simp add: MsgParser_Read_def ReadFull_def frame_def)
qed

lemma uint_length: "msg_fits p m \<Longrightarrow> uint (of_nat (length m) :: u32) = int (length m)"
  using arg_cong [OF msg_fits_word(1), of p m int] by simp

context buffer_source
begin

lemma Write_frame:
  assumes "good s" "LenMsgLen p \<in> {1, 2, 4}" "msg_fits p (concat args)"
  shows "\<exists>s'. MsgParser_Write make pick p connWrite args c s
      = Inr (None, connWrite (put_len p (of_nat (length (concat args))) @ concat args) c, s') \<and> good s'"
proof -
  let ?m = "concat args"
  let ?w = "of_nat (length ?m) :: u32"
  let ?h = "put_len p ?w"
  have w: "unat ?w = length ?m" "\<not> ?w > MaxMsgLen p" "\<not> ?w < MinMsgLen p"
    using msg_fits_word [OF assms(3)] by (simp_all add: not_less)
  have h: "int (length ?h) = LenMsgLen p" using assms(2) by (auto simp: length_put_len)
  have len: "LenMsgLen p + uint ?w = int (length ?h + length ?m)" using arg_cong [OF w(1), of int] h by simp
  obtain arr s' where m: "make pick (int (length ?h + length ?m)) s = Inr ((arr, length ?h + length ?m), s')"
    "length ?h + length ?m \<le> length arr" "good s'" using make_ok [OF assms(1)] by blast
  have "copy_args (length ?h + length ?m) (int (length ?h)) args (overlay 0 ?h arr) = Inr (overlay 0 (?h @ ?m) arr)"
    using m(2) overlay_overlay [of 0 ?h ?m arr] by (simp add: copy_args_overlay)
  then show ?thesis using w(2,3) m len h
    by (simp add: MsgParser_Write_def sum_word_lengths Let_def)
qed

text \<open>The sum of the lengths is a \<open>uint32\<close>: a longer message counts modulo \<open>2^32\<close>, and \<open>copy\<close> stops at the end of the buffer.\<close>

lemma Write_wrapped:
  assumes "good s" "LenMsgLen p \<in> {1, 2, 4}" "m' = take (length m mod 2 ^ 32) m" "msg_fits p m'"
  shows "\<exists>s'. MsgParser_Write make pick p connWrite [m] c s = Inr (None, connWrite (put_len p (of_nat (length m')) @ m') c, s') \<and> good s'"
proof -
  have len': "length m' = length m mod 2 ^ 32" using assms(3) by simp
  let ?w = "of_nat (length m') :: u32"
  let ?h = "put_len p ?w"
  have w0: "(of_nat (length m) :: u32) = ?w" by (rule word_unat_eq_iff [THEN iffD2]) (simp add: len' unat_of_nat take_bit_eq_mod)
  have w: "unat ?w = length m'" "\<not> ?w > MaxMsgLen p" "\<not> ?w < MinMsgLen p"
    using msg_fits_word [OF assms(4)] by (simp_all add: not_less)
  have h: "int (length ?h) = LenMsgLen p" using assms(2) by (auto simp: length_put_len)
  have len: "LenMsgLen p + uint ?w = int (length ?h + length m')" using arg_cong [OF w(1), of int] h by simp
  obtain arr s' where mk: "make pick (int (length ?h + length m')) s = Inr ((arr, length ?h + length m'), s')"
    "length ?h + length m' \<le> length arr" "good s'" using make_ok [OF assms(1)] by blast
  have "take (length m') m = m'" using assms(3) len' by simp
  then have "copy_args (length ?h + length m') (int (length ?h)) [m] (overlay 0 ?h arr) = Inr (overlay 0 (?h @ m') arr)"
    using mk(2) overlay_overlay [of 0 ?h m' arr] by simp
  then show ?thesis using w(2,3) mk len h w0 by (simp add: MsgParser_Write_def Let_def)
qed

text \<open>With buffers of the pool's own sizes neither direction panics, as long as the lengths of the parts do not wrap.\<close>

lemma Write_total:
  assumes "good s" "LenMsgLen p \<in> {1, 2, 4}" "length (concat args) < 2 ^ 32"
  shows "\<exists>r s'. MsgParser_Write make pick p connWrite args c s = Inr (r, s') \<and> good (snd s')"
  using Write_frame [OF assms(1,2), of args pick connWrite c] Write_reject [OF assms(3), of p make pick connWrite c s] assms(1) by fastforce

lemma Read_total:
  assumes "good s" "LenMsgLen p \<in> {1, 2, 4}"
  shows "\<exists>res r' s'. MsgParser_Read make release pick p r s = Inr (res, r', s') \<and> good s'"
proof -
  have data: "\<exists>res r' s'. read_data make release pick w r s = Inr (res, r', s') \<and> good s'" for w r
  proof -
    obtain arr s1 where mk: "make pick (int (unat w)) s = Inr ((arr, unat w), s1)" "unat w \<le> length arr" "own arr" "good s1"
      using make_ok [OF assms(1)] by blast
    have "uint w = int (unat w)" by simp
    then have n: "\<not> uint w > int (length arr)" using mk(2) by linarith
    show ?thesis
    proof (cases "unat w \<le> length r")
      case True
      then show ?thesis using mk n by (simp add: read_data_def ReadFull_def)
    next
      case False
      then have "own (overlay 0 r arr)" using own_size [OF mk(3)] mk(2) by simp
      then show ?thesis using release_ok [OF mk(4), of "overlay 0 r arr"] mk n False by (auto simp: read_data_def ReadFull_def)
    qed
  qed
  have n: "\<not> (LenMsgLen p < 0 \<or> LenMsgLen p > 4)" using assms(2) by auto
  show ?thesis
  proof (cases "ReadFull (nat (LenMsgLen p)) r")
    case (Pair x r')
    show ?thesis
    proof (cases x)
      case (Inl e)
      then show ?thesis using n Pair assms(1) by (simp add: MsgParser_Read_def)
    next
      case (Inr b)
      then show ?thesis using n Pair assms(1) data [of "parse_len p b" r'] by (simp add: MsgParser_Read_def Let_def)
    qed
  qed
qed

lemma Read_frame:
  assumes "good s" "parser_ok p" "msg_fits p m"
  shows "\<exists>arr s'. MsgParser_Read make release pick p (frame p m @ rest) s = Inr (Inr (arr, length m), rest, s')
      \<and> take (length m) arr = m \<and> good s'"
proof -
  obtain arr s' where m: "make pick (int (length m)) s = Inr ((arr, length m), s')" "length m \<le> length arr" "good s'"
    using make_ok [OF assms(1)] by blast
  then have "read_data make release pick (of_nat (length m)) (m @ rest) s = Inr (Inr (overlay 0 m arr, length m), rest, s')"
    using uint_length [OF assms(3)] msg_fits_word(1) [OF assms(3)] by (simp add: read_data_def ReadFull_def)
  moreover have "take (length m) (overlay 0 m arr) = m" by simp
  ultimately show ?thesis using Read_frame_data [OF assms(2,3)] m(3) by metis
qed

lemma write_stream_frames:
  assumes "good s" "parser_ok p" "\<forall>m \<in> set ms. length (concat (snd m)) < 2 ^ 32"
  shows "\<exists>s'. write_stream make p ms c s
      = Inr (map (\<lambda>m. len_error p (concat (snd m))) ms, c @ concat (map (frame p) (filter (msg_fits p) (map (\<lambda>m. concat (snd m)) ms))), s') \<and> good s'"
  using assms(1,3)
proof (induction ms arbitrary: c s)
  case (Cons m ms)
  obtain pick args where m: "m = (pick, args)" by (cases m)
  let ?c = "if msg_fits p (concat args) then c @ frame p (concat args) else c"
  have "\<exists>s1. MsgParser_Write make pick p (\<lambda>bs c. c @ bs) args c s = Inr (len_error p (concat args), ?c, s1) \<and> good s1"
  proof (cases "msg_fits p (concat args)")
    case True
    then show ?thesis using Write_frame [OF Cons.prems(1), of p args pick "\<lambda>bs c. c @ bs" c] assms(2)
      by (auto simp: frame_def parser_ok_def len_error_None [THEN iffD2])
  next
    case False
    then show ?thesis using Write_reject [of args p make pick "\<lambda>bs c. c @ bs" c s] Cons.prems m by auto
  qed
  then obtain s1 where 1: "MsgParser_Write make pick p (\<lambda>bs c. c @ bs) args c s = Inr (len_error p (concat args), ?c, s1)" "good s1" by blast
  obtain s2 where "write_stream make p ms ?c s1 = Inr (map (\<lambda>m. len_error p (concat (snd m))) ms,
      ?c @ concat (map (frame p) (filter (msg_fits p) (map (\<lambda>m. concat (snd m)) ms))), s2)" "good s2"
    using Cons.IH [OF 1(2), of ?c] Cons.prems(2) by auto
  then show ?case using 1(1) m by auto
qed simp

lemma read_stream_frames:
  assumes "good s" "parser_ok p" "\<forall>m \<in> set ms. msg_fits p m" "length picks = length ms"
  shows "\<exists>s'. read_stream make release p picks (concat (map (frame p) ms) @ rest) s = Inr (map Inr ms, rest, s') \<and> good s'"
  using assms(4,1,3)
proof (induction picks ms arbitrary: s rule: list_induct2)
  case (Cons pick picks m ms)
  obtain arr s1 where 1: "MsgParser_Read make release pick p (frame p m @ concat (map (frame p) ms) @ rest) s
      = Inr (Inr (arr, length m), concat (map (frame p) ms) @ rest, s1)" "take (length m) arr = m" "good s1"
    using Read_frame [OF Cons.prems(1) assms(2), of m pick "concat (map (frame p) ms) @ rest"] Cons.prems(2) by auto
  then show ?case using Cons.IH [OF 1(3)] Cons.prems(2) by auto
qed simp

end

section \<open>Properties\<close>

definition cfg_small :: msg_parser where
  "cfg_small = \<lparr> LenMsgLen = 1, MinMsgLen = 1, MaxMsgLen = 3, LittleEndian = False \<rparr>"

definition cfg_kcp :: msg_parser where
  "cfg_kcp = \<lparr> LenMsgLen = 1, MinMsgLen = 0, MaxMsgLen = 65535, LittleEndian = False \<rparr>"


text \<open>
  What the bound is needed for: the lengths are summed as \<open>uint32\<close>, so a message of \<open>2^32\<close> bytes or more is checked by its length modulo
  \<open>2^32\<close>. When that is within the limits, the server reports success and sends only that many bytes of it.
\<close>

theorem oversized_message_is_cut:
  assumes "p = TCPServer_init cfg" "areas_good s" "2 ^ 32 \<le> length m" "m' = take (length m mod 2 ^ 32) m" "msg_fits p m'"
  shows "\<exists>s'. MsgParser_Write MakeBytes pick p (\<lambda>bs c. c @ bs) [m] [] s = Inr (None, frame p m', s') \<and> m' \<noteq> m"
proof -
  have "length m mod 2 ^ 32 < 2 ^ 32" by (rule mod_less_divisor) simp
  then have "length m' < length m" using assms(3) by (simp add: assms(4))
  moreover have "LenMsgLen p \<in> {1, 2, 4}" using assms(1) init_ok by (simp add: parser_ok_def)
  ultimately show ?thesis using mp.Write_wrapped [OF assms(2) _ assms(4,5), of pick "\<lambda>bs c. c @ bs" "[]"] by (auto simp: frame_def)
qed

text \<open>
  The KCP server does not bound the maximum by what the length field can express: with one length byte and a
  larger maximum, every accepted message of more than 255 bytes is written without an error, with the low byte of its length as
  the header; whatever a reader with one length byte gets from it, whatever its limits, has that length only, and the rest of the message is
  left on the stream to be taken for frames.
\<close>

theorem kcp_frame_desync:
  assumes "p = KCPServer_Init cfg" "LenMsgLen cfg = 1" "msg_fits p (concat args)" "255 < length (concat args)" "areas_good s"
    and "LenMsgLen q = 1"
  shows "\<exists>stream s'. MsgParser_Write MakeBytes pick p (\<lambda>bs c. c @ bs) args [] s = Inr (None, stream, s')
     \<and> hd stream = of_nat (length (concat args) mod 256)
     \<and> (\<forall>pick' t arr n r t'. MsgParser_Read MakeBytes ReleaseBytes pick' q stream t = Inr (Inr (arr, n), r, t') \<longrightarrow> n = length (concat args) mod 256)"
proof -
  let ?m = "concat args"
  let ?b = "of_nat (length ?m) :: byte"
  have "LenMsgLen p = 1" using assms(1,2) by (simp add: KCPServer_Init_def fix_LenMsgLen_def)
  then have h: "put_len p (of_nat (length ?m)) = [?b]"
    by (simp add: put_len_def word_unat_eq_iff unsigned_ucast_eq unat_of_nat take_bit_eq_mod mod_mod_cancel)
  then obtain s' where "MsgParser_Write MakeBytes pick p (\<lambda>bs c. c @ bs) args [] s = Inr (None, ?b # ?m, s')"
    using mp.Write_frame [OF assms(5), of p args pick "\<lambda>bs c. c @ bs" "[]"] \<open>LenMsgLen p = 1\<close> assms(3) by auto
  moreover have b: "unat ?b = length ?m mod 256" by (simp add: unat_of_nat take_bit_eq_mod)
  moreover have "?b = of_nat (length ?m mod 256)" by (simp flip: b)
  moreover have "n = unat ?b" if "MsgParser_Read MakeBytes ReleaseBytes pick' q (?b # ?m) t = Inr (Inr (arr, n), r, t')" for pick' t arr n r t'
    using Read_one_byte [OF assms(6) that] by simp
  ultimately show ?thesis by auto
qed


theorem kcp_frame_desync_witness:
  "\<exists>stream s'. MsgParser_Write MakeBytes None (KCPServer_Init cfg_kcp) (\<lambda>bs c. c @ bs) [replicate 300 7] [] memAreaPoolList = Inr (None, stream, s')
     \<and> hd stream = 44
     \<and> (\<forall>pick' t arr n r t'. MsgParser_Read MakeBytes ReleaseBytes pick' cfg_kcp stream t = Inr (Inr (arr, n), r, t') \<longrightarrow> n = 44)"
proof -
  have g: "areas_good memAreaPoolList" using memAreaPoolList_ok by (simp add: areas_good_def)
  show ?thesis using kcp_frame_desync [OF refl, of cfg_kcp "[replicate 300 7]" memAreaPoolList cfg_kcp None] g
    by (simp add: cfg_kcp_def msg_fits_def KCPServer_Init_def)
qed

end
