(* ===== verification/Net_Conn.thy ===== *)
theory Net_Conn
  imports Msg_Parser
begin

text \<open>
  The connection of the network layer, \<open>engine/pkg/utils/network/conn.go\<close>: a channel of buffers that a writer goroutine sends on the
  socket, and the operations of other goroutines on it, whose critical sections are atomic steps; closing the
  socket and draining the channel after the writer's loop are separate steps. A nil slice is \<open>None\<close>; other slices are a backing array with a length.
  Whether a write to the socket succeeds is an argument; on a closed socket it fails. The pool of buffers is the one that all
  connections share, so other goroutines take from it and give back to it between the steps. The field \<open>released\<close> is a
  record of the connection's own calls of \<open>ReleaseBytes\<close>, in order, which the code does not keep.
\<close>

section \<open>Definitions\<close>

type_synonym slice = "byte list \<times> nat"

datatype writer_pc = W_Recv | W_Write slice | W_Close | W_Free | W_Done

record net_conn =
  writeChan :: "slice option list"
  chanCap :: nat
  chanClosed :: bool
  connClosed :: bool
  closeFlag :: bool
  connPool :: "mem_area list"
  released :: "byte list list"
  writer :: writer_pc

text \<open>What happens to a buffer: refused, accepted by the channel, given to the socket or dropped; each but the second releases it.\<close>

datatype conn_event = Ev_Refuse "slice option" | Ev_Accept slice | Ev_Hand slice | Ev_Drop slice | Ev_Direct "byte list"

type_synonym 'r conn_op = "net_conn \<Rightarrow> go_panic + 'r \<times> net_conn \<times> conn_event list"

definition newNetConn :: "mem_area list \<Rightarrow> nat \<Rightarrow> net_conn" where
  "newNetConn pool pendingWriteNum = \<lparr> writeChan = [], chanCap = pendingWriteNum, chanClosed = False, connClosed = False,
     closeFlag = False, connPool = pool, released = [], writer = W_Recv \<rparr>"

definition slice_arr :: "slice option \<Rightarrow> byte list" where
  "slice_arr b = (case b of None \<Rightarrow> [] | Some (arr, n) \<Rightarrow> arr)"

definition ReleaseReadMsg :: "slice option \<Rightarrow> net_conn \<Rightarrow> go_panic + net_conn" where
  "ReleaseReadMsg b c = and_then (ReleaseBytes (slice_arr b) (connPool c)) (\<lambda>(ok, pool).
     Inr (c \<lparr> connPool := pool, released := released c @ [slice_arr b] \<rparr>))"

definition doDestroy :: "net_conn \<Rightarrow> go_panic + net_conn" where
  "doDestroy c0 =
     (let c = c0 \<lparr> connClosed := True \<rparr>
      in if \<not> closeFlag c
         then if chanClosed c then Inl (Go_Panic ''close of closed channel'')
              else Inr (c \<lparr> chanClosed := True, closeFlag := True \<rparr>)
         else Inr c)"

definition NetConn_Destroy :: "unit conn_op" where
  "NetConn_Destroy c = and_then (doDestroy c) (\<lambda>c'. Inr ((), c', []))"

definition doWrite :: "slice option \<Rightarrow> msg_error option conn_op" where
  "doWrite b c =
     (if length (writeChan c) = chanCap c
      then and_then (ReleaseReadMsg b c) (\<lambda>c1. and_then (doDestroy c1) (\<lambda>c2. Inr (Some Err_ChannelFull, c2, [Ev_Refuse b])))
      else if chanClosed c then Inl (Go_Panic ''send on closed channel'')
      else Inr (None, c \<lparr> writeChan := writeChan c @ [b] \<rparr>, case b of None \<Rightarrow> [] | Some s \<Rightarrow> [Ev_Accept s]))"

definition NetConn_Close :: "unit conn_op" where
  "NetConn_Close c =
     (if closeFlag c then Inr ((), c, [])
      else and_then (doWrite None c) (\<lambda>(e, c', es). Inr ((), c' \<lparr> closeFlag := True \<rparr>, es)))"

definition NetConn_Write :: "slice option \<Rightarrow> msg_error option conn_op" where
  "NetConn_Write b c =
     (if closeFlag c \<or> b = None then and_then (ReleaseReadMsg b c) (\<lambda>c'. Inr (Some Err_ConnIsClose, c', [Ev_Refuse b]))
      else doWrite b c)"

text \<open>The flag is loaded before the lock is taken; \<open>closing\<close> is what was seen.\<close>

definition WriteRawMsg :: "bool \<Rightarrow> slice option \<Rightarrow> msg_error option conn_op" where
  "WriteRawMsg closing b c = (if closing then Inr (Some Err_ConnIsClose, c, []) else NetConn_Write b c)"

text \<open>\<open>WriteMsg\<close> frames the message and writes it on the socket itself, past the channel.\<close>

definition WriteMsg :: "bool \<Rightarrow> nat option \<Rightarrow> msg_parser \<Rightarrow> byte list list \<Rightarrow> msg_error option conn_op" where
  "WriteMsg closing pick p args c =
     (if closing then Inr (Some Err_ConnIsClose, c, [])
      else and_then (MsgParser_Write MakeBytes pick p (\<lambda>bs sent. sent @ [bs]) args [] (connPool c)) (\<lambda>(e, sent, pool).
             Inr (e, c \<lparr> connPool := pool \<rparr>, map Ev_Direct sent)))"

definition ReadMsg :: "nat option \<Rightarrow> msg_parser \<Rightarrow> byte list \<Rightarrow> net_conn \<Rightarrow> go_panic + (msg_error + slice) \<times> byte list \<times> net_conn" where
  "ReadMsg pick p r c = and_then (MsgParser_Read MakeBytes ReleaseBytes pick p r (connPool c)) (\<lambda>(res, r', pool).
     Inr (res, r', c \<lparr> connPool := pool \<rparr>))"

definition IsConnected :: "net_conn \<Rightarrow> bool" where
  "IsConnected c \<longleftrightarrow> \<not> closeFlag c"

text \<open>\<open>freeChannel\<close>: the buffers left in the channel are released, nil is skipped.\<close>

fun freeChannel :: "slice option list \<Rightarrow> net_conn \<Rightarrow> go_panic + net_conn \<times> conn_event list" where
  "freeChannel [] c = Inr (c, [])"
| "freeChannel (None # ch) c = freeChannel ch c"
| "freeChannel (Some s # ch) c = and_then (ReleaseReadMsg (Some s) c) (\<lambda>c1.
     and_then (freeChannel ch c1) (\<lambda>(c2, es). Inr (c2, Ev_Drop s # es)))"

text \<open>The writer goroutine; \<open>None\<close>: it waits for the channel, or has ended.\<close>

definition writer_step :: "bool \<Rightarrow> net_conn \<Rightarrow> (go_panic + unit \<times> net_conn \<times> conn_event list) option" where
  "writer_step ok c =
     (case writer c of
        W_Recv \<Rightarrow>
          (case writeChan c of
             [] \<Rightarrow> if chanClosed c then Some (Inr ((), c \<lparr> writer := W_Close \<rparr>, [])) else None
           | None # ch \<Rightarrow> Some (Inr ((), c \<lparr> writeChan := ch, writer := W_Close \<rparr>, []))
           | Some s # ch \<Rightarrow> Some (Inr ((), c \<lparr> writeChan := ch, writer := W_Write s \<rparr>, [])))
      | W_Write s \<Rightarrow> Some (and_then (ReleaseReadMsg (Some s) c) (\<lambda>c'.
          Inr ((), c' \<lparr> writer := if ok \<and> \<not> connClosed c then W_Recv else W_Close \<rparr>, [Ev_Hand s])))
      | W_Close \<Rightarrow> Some (Inr ((), c \<lparr> connClosed := True, writer := W_Free \<rparr>, []))
      | W_Free \<Rightarrow> Some (and_then (freeChannel (writeChan c) c) (\<lambda>(c1, es).
          Inr ((), c1 \<lparr> writeChan := [], closeFlag := True, writer := W_Done \<rparr>, es)))
      | W_Done \<Rightarrow> None)"

text \<open>
  One step of the connection: an operation of some goroutine, with the parser \<open>p\<close> of the connection, of the writer, or of another user of the pool,
  whose own panic is not a step.
\<close>

datatype conn_act = A_Raw bool "slice option" | A_Write "slice option" | A_Close | A_Destroy | A_Writer bool
  | A_Read "nat option" "byte list" | A_Msg bool "nat option" "byte list list" | A_Take "nat option" int | A_Give "byte list"

definition conn_step :: "msg_parser \<Rightarrow> conn_act \<Rightarrow> net_conn \<Rightarrow> (go_panic + net_conn \<times> conn_event list) option" where
  "conn_step p a c =
     (case a of
        A_Raw closing b \<Rightarrow> Some (map_sum id snd (WriteRawMsg closing b c))
      | A_Write b \<Rightarrow> Some (map_sum id snd (NetConn_Write b c))
      | A_Close \<Rightarrow> Some (map_sum id snd (NetConn_Close c))
      | A_Destroy \<Rightarrow> Some (map_sum id snd (NetConn_Destroy c))
      | A_Writer ok \<Rightarrow> map_option (map_sum id snd) (writer_step ok c)
      | A_Read pick r \<Rightarrow> Some (map_sum id (\<lambda>(res, r', c'). (c', [])) (ReadMsg pick p r c))
      | A_Msg closing pick args \<Rightarrow> Some (map_sum id snd (WriteMsg closing pick p args c))
      | A_Take pick sz \<Rightarrow> (case MakeBytes pick sz (connPool c) of
            Inl e \<Rightarrow> None
          | Inr (b, pool) \<Rightarrow> Some (Inr (c \<lparr> connPool := pool \<rparr>, [])))
      | A_Give arr \<Rightarrow> (case ReleaseBytes arr (connPool c) of
            Inl e \<Rightarrow> None
          | Inr (ok, pool) \<Rightarrow> Some (Inr (c \<lparr> connPool := pool \<rparr>, []))))"

inductive conn_reach :: "msg_parser \<Rightarrow> mem_area list \<Rightarrow> nat \<Rightarrow> net_conn \<Rightarrow> conn_event list \<Rightarrow> bool" for p pool n where
  conn_new: "conn_reach p pool n (newNetConn pool n) []"
| conn_next: "conn_reach p pool n c es \<Longrightarrow> conn_step p a c = Some (Inr (c', es')) \<Longrightarrow> conn_reach p pool n c' (es @ es')"

text \<open>The writer alone, until it waits or has ended or the list of socket results is used up.\<close>

fun run_writer :: "bool list \<Rightarrow> net_conn \<Rightarrow> go_panic + net_conn \<times> conn_event list" where
  "run_writer [] c = Inr (c, [])"
| "run_writer (ok # oks) c =
     (case writer_step ok c of
        None \<Rightarrow> Inr (c, [])
      | Some r \<Rightarrow> and_then r (\<lambda>(_, c1, es1). and_then (run_writer oks c1) (\<lambda>(c2, es2). Inr (c2, es1 @ es2))))"

section \<open>Lemmas\<close>

definition accepted :: "conn_event list \<Rightarrow> slice list" where
  "accepted es = concat (map (\<lambda>e. case e of Ev_Accept s \<Rightarrow> [s] | _ \<Rightarrow> []) es)"

definition handed :: "conn_event list \<Rightarrow> slice list" where
  "handed es = concat (map (\<lambda>e. case e of Ev_Hand s \<Rightarrow> [s] | _ \<Rightarrow> []) es)"

definition dropped :: "conn_event list \<Rightarrow> slice list" where
  "dropped es = concat (map (\<lambda>e. case e of Ev_Drop s \<Rightarrow> [s] | _ \<Rightarrow> []) es)"

definition refused :: "conn_event list \<Rightarrow> slice option list" where
  "refused es = concat (map (\<lambda>e. case e of Ev_Refuse b \<Rightarrow> [b] | _ \<Rightarrow> []) es)"

text \<open>The buffers that the events give back, in order.\<close>

definition given_back :: "conn_event list \<Rightarrow> byte list list" where
  "given_back es = concat (map (\<lambda>e. case e of Ev_Refuse b \<Rightarrow> [slice_arr b] | Ev_Hand s \<Rightarrow> [fst s] | Ev_Drop s \<Rightarrow> [fst s] | _ \<Rightarrow> []) es)"

definition queued :: "slice option list \<Rightarrow> slice list" where
  "queued ch = concat (map (\<lambda>b. case b of None \<Rightarrow> [] | Some s \<Rightarrow> [s]) ch)"

definition in_flight :: "writer_pc \<Rightarrow> slice list" where
  "in_flight w = (case w of W_Write s \<Rightarrow> [s] | _ \<Rightarrow> [])"

lemma conn_events_append [simp]:
  "accepted (es @ es') = accepted es @ accepted es'" "handed (es @ es') = handed es @ handed es'"
  "dropped (es @ es') = dropped es @ dropped es'" "queued (ch @ ch') = queued ch @ queued ch'"
  "refused (es @ es') = refused es @ refused es'" "given_back (es @ es') = given_back es @ given_back es'"
  by (simp_all add: refused_def given_back_def accepted_def handed_def dropped_def queued_def)

lemma conn_events_Cons [simp]:
  "accepted [] = []" "accepted (e # es) = (case e of Ev_Accept s \<Rightarrow> [s] | _ \<Rightarrow> []) @ accepted es"
  "handed [] = []" "handed (e # es) = (case e of Ev_Hand s \<Rightarrow> [s] | _ \<Rightarrow> []) @ handed es"
  "dropped [] = []" "dropped (e # es) = (case e of Ev_Drop s \<Rightarrow> [s] | _ \<Rightarrow> []) @ dropped es"
  "queued [] = []" "queued (b # ch) = (case b of None \<Rightarrow> [] | Some s \<Rightarrow> [s]) @ queued ch"
  "refused [] = []" "refused (e # es) = (case e of Ev_Refuse b \<Rightarrow> [b] | _ \<Rightarrow> []) @ refused es"
  "given_back [] = []" "given_back (e # es)
     = (case e of Ev_Refuse b \<Rightarrow> [slice_arr b] | Ev_Hand s \<Rightarrow> [fst s] | Ev_Drop s \<Rightarrow> [fst s] | _ \<Rightarrow> []) @ given_back es"
  by (simp_all add: refused_def given_back_def accepted_def handed_def dropped_def queued_def)

lemma in_flight_simps [simp]:
  "in_flight W_Recv = []" "in_flight (W_Write s) = [s]" "in_flight W_Close = []" "in_flight W_Free = []" "in_flight W_Done = []"
  by (simp_all add: in_flight_def)

lemma given_back_parts: "mset (given_back es) = mset (map slice_arr (refused es)) + mset (map fst (handed es)) + mset (map fst (dropped es))"
  by (induction es) (auto simp: ac_simps split: conn_event.split)

definition pool_shape :: "mem_area list \<Rightarrow> bool" where
  "pool_shape pool \<longleftrightarrow> map area_shape pool = map area_shape memAreaPoolList"

text \<open>
  The invariant: the channel is closed only with the flag set, under which nothing is sent; a writer in its loop on a
  connection whose flag is set will find the end; and every accepted buffer is in one place, in order.
\<close>

definition conn_ok :: "net_conn \<Rightarrow> conn_event list \<Rightarrow> bool" where
  [inv_defs]: "conn_ok c es \<longleftrightarrow> pool_shape (connPool c) \<and> length (writeChan c) \<le> chanCap c \<and> (chanClosed c \<longrightarrow> closeFlag c \<and> connClosed c)
     \<and> (None \<in> set (writeChan c) \<longrightarrow> closeFlag c) \<and> None \<notin> set (butlast (writeChan c))
     \<and> (writer c = W_Done \<longrightarrow> writeChan c = [] \<and> closeFlag c)
     \<and> (closeFlag c \<and> writer c \<notin> {W_Close, W_Free, W_Done} \<longrightarrow> chanClosed c \<or> None \<in> set (writeChan c))
     \<and> (writer c \<noteq> W_Done \<longrightarrow> dropped es = []) \<and> released c = given_back es
     \<and> accepted es = handed es @ dropped es @ in_flight (writer c) @ queued (writeChan c)"

lemma ReleaseReadMsg_ok:
  assumes "pool_shape (connPool c)"
  shows "\<exists>pool. ReleaseReadMsg b c = Inr (c \<lparr> connPool := pool, released := released c @ [slice_arr b] \<rparr>) \<and> pool_shape pool"
proof -
  have "areas_dims 0 (connPool c)" using assms areas_dims_shape memAreaPoolList_dims by (simp add: pool_shape_def)
  then show ?thesis using ReleaseBytes_total [of 0 "connPool c" "slice_arr b"] assms by (auto simp: ReleaseReadMsg_def pool_shape_def)
qed

lemma freeChannel_ok: "pool_shape (connPool c) \<Longrightarrow> \<exists>pool es. freeChannel ch c = Inr (c \<lparr> connPool := pool, released := released c @ given_back es \<rparr>, es)
    \<and> pool_shape pool \<and> dropped es = queued ch \<and> handed es = [] \<and> accepted es = []"
proof (induction ch c rule: freeChannel.induct)
  case (1 c)
  then show ?case by (intro exI [of _ "connPool c"]) simp
next
  case (3 s ch c)
  obtain pool where p: "ReleaseReadMsg (Some s) c = Inr (c \<lparr> connPool := pool, released := released c @ [slice_arr (Some s)] \<rparr>)" "pool_shape pool"
    using ReleaseReadMsg_ok [OF 3(2)] by blast
  obtain pool' es where "freeChannel ch (c \<lparr> connPool := pool, released := released c @ [slice_arr (Some s)] \<rparr>)
      = Inr (c \<lparr> connPool := pool', released := (released c @ [slice_arr (Some s)]) @ given_back es \<rparr>, es)"
    "pool_shape pool'" "dropped es = queued ch" "handed es = []" "accepted es = []"
    using 3(1) [of "c \<lparr> connPool := pool, released := released c @ [slice_arr (Some s)] \<rparr>"] p(2) by auto
  then show ?case using p(1) by (intro exI [of _ pool'] exI [of _ "Ev_Drop s # es"]) (simp add: slice_arr_def case_prod_beta)
qed simp

lemma doDestroy_ok:
  assumes "conn_ok c es"
  shows "\<exists>c'. doDestroy c = Inr c' \<and> conn_ok c' es \<and> closeFlag c'"
  using assms by (auto simp: doDestroy_def conn_ok_def Let_def)

lemma conn_ok_poolD: "conn_ok c es \<Longrightarrow> pool_shape (connPool c)"
  by (simp add: conn_ok_def)

lemma conn_ok_pool: "conn_ok c es \<Longrightarrow> pool_shape pool \<Longrightarrow> conn_ok (c \<lparr> connPool := pool \<rparr>) es"
  by (simp add: conn_ok_def)

lemma conn_ok_refuse: "conn_ok c es \<Longrightarrow> pool_shape pool \<Longrightarrow>
    conn_ok (c \<lparr> connPool := pool, released := released c @ [slice_arr b] \<rparr>) (es @ [Ev_Refuse b])"
  by (simp add: conn_ok_def)

lemma events_direct [simp]:
  "accepted (map Ev_Direct bs) = []" "handed (map Ev_Direct bs) = []" "dropped (map Ev_Direct bs) = []" "given_back (map Ev_Direct bs) = []"
  by (induction bs) simp_all

lemma conn_ok_direct: "conn_ok c es \<Longrightarrow> conn_ok c (es @ map Ev_Direct bs)"
  by (simp add: conn_ok_def)

lemma conn_ok_flag: "closeFlag c \<Longrightarrow> conn_ok (c \<lparr> closeFlag := True \<rparr>) es = conn_ok c es"
  by (simp add: conn_ok_def)

lemma doWrite_ok:
  assumes "conn_ok c es" "\<not> closeFlag c"
  shows "\<exists>e c' es'. doWrite b c = Inr (e, c', es') \<and> conn_ok (if b = None then c' \<lparr> closeFlag := True \<rparr> else c') (es @ es')"
proof (cases "length (writeChan c) = chanCap c")
  case True
  let ?c = "\<lambda>pool. c \<lparr> connPool := pool, released := released c @ [slice_arr b] \<rparr>"
  obtain pool where 1: "ReleaseReadMsg b c = Inr (?c pool)" "pool_shape pool"
    using ReleaseReadMsg_ok [OF conn_ok_poolD [OF assms(1)]] by blast
  obtain c' where "doDestroy (?c pool) = Inr c'" "conn_ok c' (es @ [Ev_Refuse b])" "closeFlag c'"
    using doDestroy_ok [OF conn_ok_refuse [OF assms(1) 1(2)]] by blast
  then show ?thesis using 1 True by (cases b) (simp_all add: doWrite_def conn_ok_flag)
next
  case False
  then show ?thesis using assms by (auto simp: doWrite_def conn_ok_def butlast_append dest: in_set_butlastD split: option.splits)
qed

lemma NetConn_Write_ok:
  assumes "conn_ok c es"
  shows "\<exists>e c' es'. NetConn_Write b c = Inr (e, c', es') \<and> conn_ok c' (es @ es')"
proof (cases "closeFlag c \<or> b = None")
  case True
  obtain pool where "ReleaseReadMsg b c = Inr (c \<lparr> connPool := pool, released := released c @ [slice_arr b] \<rparr>)" "pool_shape pool"
    using ReleaseReadMsg_ok [OF conn_ok_poolD [OF assms]] by blast
  then show ?thesis using True conn_ok_refuse [OF assms] by (simp add: NetConn_Write_def)
next
  case False
  then show ?thesis using doWrite_ok [OF assms, of b] by (cases b) (simp_all add: NetConn_Write_def)
qed

lemma NetConn_Close_ok: "conn_ok c es \<Longrightarrow> \<exists>c' es'. NetConn_Close c = Inr ((), c', es') \<and> conn_ok c' (es @ es') \<and> closeFlag c'"
  using doWrite_ok [of c es None] by (fastforce simp: NetConn_Close_def)

lemma writer_step_ok:
  assumes "conn_ok c es" "writer_step ok c = Some r"
  shows "\<exists>c' es'. r = Inr ((), c', es') \<and> conn_ok c' (es @ es')"
proof (cases "writer c")
  case W_Recv
  then show ?thesis using assms
    by (auto simp: writer_step_def conn_ok_def split: list.splits option.splits if_splits)
next
  case (W_Write s)
  obtain pool where "ReleaseReadMsg (Some s) c = Inr (c \<lparr> connPool := pool, released := released c @ [slice_arr (Some s)] \<rparr>)" "pool_shape pool"
    using ReleaseReadMsg_ok [OF conn_ok_poolD [OF assms(1)]] by blast
  then show ?thesis using W_Write assms by (auto simp: writer_step_def conn_ok_def slice_arr_def case_prod_beta)
next
  case W_Free
  obtain pool es' where "freeChannel (writeChan c) c = Inr (c \<lparr> connPool := pool, released := released c @ given_back es' \<rparr>, es')"
    "pool_shape pool" "dropped es' = queued (writeChan c)" "handed es' = []" "accepted es' = []"
    using freeChannel_ok [OF conn_ok_poolD [OF assms(1)]] by blast
  then show ?thesis using W_Free assms by (auto simp: writer_step_def conn_ok_def)
qed (use assms in \<open>auto simp: writer_step_def conn_ok_def\<close>)

lemma Write_shape: "MsgParser_Write MakeBytes pick p connWrite args x s = Inr (e, x', s') \<Longrightarrow> map area_shape s' = map area_shape s"
  by (auto simp: MsgParser_Write_def Let_def dest: MakeBytes_shape split: if_splits)

lemma read_data_shape:
  assumes "read_data MakeBytes ReleaseBytes pick w r s = Inr (res, r', s')"
  shows "map area_shape s' = map area_shape s"
proof -
  obtain arr n s1 where 1: "MakeBytes pick (uint w) s = Inr ((arr, n), s1)" using assms by (auto simp: read_data_def)
  show ?thesis
  proof (cases "ReadFull (unat w) r")
    case (Pair x y)
    then show ?thesis using assms 1 MakeBytes_shape [OF 1]
      by (cases x) (auto simp: read_data_def dest: ReleaseBytes_shape split: if_splits)
  qed
qed

lemma Read_shape:
  assumes "MsgParser_Read MakeBytes ReleaseBytes pick p r s = Inr (res, r', s')"
  shows "map area_shape s' = map area_shape s"
proof (cases "ReadFull (nat (LenMsgLen p)) r")
  case (Pair x y)
  then show ?thesis using assms by (cases x) (auto simp: MsgParser_Read_def Let_def dest: read_data_shape split: if_splits)
qed

text \<open>The operations that may panic: reading and framing a message ask the pool for a buffer.\<close>

definition may_panic :: "conn_act \<Rightarrow> net_conn \<Rightarrow> bool" where
  "may_panic a c \<longleftrightarrow> (case a of
       A_Read pick r \<Rightarrow> \<not> areas_good (connPool c)
     | A_Msg closing pick args \<Rightarrow> \<not> areas_good (connPool c) \<or> 2 ^ 32 \<le> length (concat args)
     | _ \<Rightarrow> False)"

lemma map_sum_eq_Inr: "map_sum id f x = Inr y \<longleftrightarrow> (\<exists>z. x = Inr z \<and> y = f z)"
  by (cases x) auto

lemma conn_step_panic:
  assumes "conn_ok c es" "LenMsgLen p \<in> {1, 2, 4}" "conn_step p a c = Some (Inl e)"
  shows "may_panic a c"
proof (cases a)
  case (A_Raw closing b)
  then show ?thesis using assms NetConn_Write_ok [OF assms(1), of b] by (auto simp: conn_step_def WriteRawMsg_def split: if_splits)
next
  case (A_Write b)
  then show ?thesis using assms NetConn_Write_ok [OF assms(1), of b] by (auto simp: conn_step_def)
next
  case A_Close
  then show ?thesis using assms NetConn_Close_ok [OF assms(1)] by (auto simp: conn_step_def)
next
  case A_Destroy
  then show ?thesis using assms doDestroy_ok [OF assms(1)] by (auto simp: conn_step_def NetConn_Destroy_def)
next
  case (A_Writer ok)
  then show ?thesis using assms(3) writer_step_ok [OF assms(1)] by (fastforce simp: conn_step_def)
next
  case (A_Read pick r)
  then show ?thesis using assms(3) mp.Read_total [OF _ assms(2), of "connPool c" pick r] by (auto simp: conn_step_def ReadMsg_def may_panic_def)
next
  case (A_Msg closing pick args)
  then show ?thesis using assms(3) mp.Write_total [OF _ assms(2), of "connPool c" args pick "\<lambda>bs sent. sent @ [bs]" "[]"]
    by (fastforce simp: conn_step_def WriteMsg_def may_panic_def split: if_splits)
qed (use assms(3) in \<open>auto simp: conn_step_def split: sum.splits\<close>)

lemma conn_step_ok:
  assumes "conn_ok c es" "conn_step p a c = Some (Inr (c', es'))"
  shows "conn_ok c' (es @ es')"
proof (cases a)
  case (A_Raw closing b)
  then show ?thesis using assms NetConn_Write_ok [OF assms(1), of b] by (auto simp: conn_step_def WriteRawMsg_def split: if_splits)
next
  case (A_Write b)
  then show ?thesis using assms NetConn_Write_ok [OF assms(1), of b] by (auto simp: conn_step_def)
next
  case A_Close
  then show ?thesis using assms NetConn_Close_ok [OF assms(1)] by (auto simp: conn_step_def)
next
  case A_Destroy
  then show ?thesis using assms doDestroy_ok [OF assms(1)] by (auto simp: conn_step_def NetConn_Destroy_def)
next
  case (A_Writer ok)
  then show ?thesis using assms(2) writer_step_ok [OF assms(1)] by (fastforce simp: conn_step_def)
next
  case (A_Read pick r)
  then obtain res r' pool where "MsgParser_Read MakeBytes ReleaseBytes pick p r (connPool c) = Inr (res, r', pool)" "c' = c \<lparr> connPool := pool \<rparr>" "es' = []"
    using assms(2) by (auto simp: conn_step_def ReadMsg_def map_sum_eq_Inr)
  moreover have "pool_shape pool" using Read_shape [OF calculation(1)] assms(1) by (simp add: pool_shape_def conn_ok_def)
  ultimately show ?thesis using conn_ok_pool [OF assms(1)] by simp
next
  case (A_Msg closing pick args)
  show ?thesis
  proof (cases closing)
    case True
    then show ?thesis using A_Msg assms by (auto simp: conn_step_def WriteMsg_def)
  next
    case False
    obtain e sent pool where 1: "MsgParser_Write MakeBytes pick p (\<lambda>bs sent. sent @ [bs]) args [] (connPool c) = Inr (e, sent, pool)"
      "c' = c \<lparr> connPool := pool \<rparr>" "es' = map Ev_Direct sent"
      using A_Msg False assms(2) by (auto simp: conn_step_def WriteMsg_def map_sum_eq_Inr)
    have "pool_shape pool" using Write_shape [OF 1(1)] assms(1) by (simp add: pool_shape_def conn_ok_def)
    then show ?thesis using conn_ok_direct [OF conn_ok_pool [OF assms(1)]] 1(2,3) by simp
  qed
next
  case (A_Take pick sz)
  then obtain b pool where "MakeBytes pick sz (connPool c) = Inr (b, pool)" "c' = c \<lparr> connPool := pool \<rparr>" "es' = []"
    using assms(2) by (auto simp: conn_step_def split: sum.splits)
  then show ?thesis using conn_ok_pool [OF assms(1), of pool] MakeBytes_shape assms(1) by (auto simp: pool_shape_def conn_ok_def [of c])
next
  case (A_Give arr)
  then obtain b pool where "ReleaseBytes arr (connPool c) = Inr (b, pool)" "c' = c \<lparr> connPool := pool \<rparr>" "es' = []"
    using assms(2) by (auto simp: conn_step_def split: sum.splits)
  then show ?thesis using conn_ok_pool [OF assms(1), of pool] ReleaseBytes_shape assms(1) by (auto simp: pool_shape_def conn_ok_def [of c])
qed

lemma conn_reach_ok: "conn_reach p pool n c es \<Longrightarrow> pool_shape pool \<Longrightarrow> conn_ok c es"
proof (induction rule: conn_reach.induct)
  case conn_new
  then show ?case by (simp add: conn_ok_def newNetConn_def)
next
  case (conn_next c es a c' es')
  then show ?case using conn_step_ok by blast
qed

lemma freeChannel_cap: "freeChannel ch c = Inr (c', es) \<Longrightarrow> chanCap c' = chanCap c"
  by (induction ch c arbitrary: c' es rule: freeChannel.induct) (fastforce simp: ReleaseReadMsg_def)+

lemma conn_step_cap: "conn_step p a c = Some (Inr (c', es')) \<Longrightarrow> chanCap c' = chanCap c"
  by (cases a) (auto simp: conn_step_def WriteRawMsg_def NetConn_Write_def doWrite_def doDestroy_def ReleaseReadMsg_def NetConn_Close_def
      NetConn_Destroy_def WriteMsg_def ReadMsg_def writer_step_def Let_def map_sum_eq_Inr dest: freeChannel_cap
      split: if_splits writer_pc.splits list.splits option.splits sum.splits)

lemma conn_reach_cap: "conn_reach p pool n c es \<Longrightarrow> chanCap c = n"
  by (induction rule: conn_reach.induct) (auto simp: newNetConn_def dest: conn_step_cap)

subsection \<open>The writer comes to its end\<close>

definition writer_work :: "net_conn \<Rightarrow> nat" where
  "writer_work c = 2 * length (writeChan c) + (case writer c of W_Recv \<Rightarrow> 3 | W_Write s \<Rightarrow> 4 | W_Close \<Rightarrow> 2 | W_Free \<Rightarrow> 1 | W_Done \<Rightarrow> 0)"

definition flushing :: "net_conn \<Rightarrow> bool" where
  "flushing c \<longleftrightarrow> (if writer c \<in> {W_Close, W_Free, W_Done} then writeChan c = [] else \<not> connClosed c)"

lemma writer_step_closed:
  assumes "conn_ok c es" "closeFlag c" "writer c \<noteq> W_Done"
  shows "\<exists>c' es'. writer_step ok c = Some (Inr ((), c', es')) \<and> conn_ok c' (es @ es') \<and> closeFlag c' \<and> writer_work c' < writer_work c
     \<and> (ok \<and> flushing c \<longrightarrow> flushing c' \<and> dropped es' = [])"
proof -
  have "writer_step ok c \<noteq> None" using assms by (auto simp: writer_step_def conn_ok_def split: writer_pc.splits list.splits option.splits)
  then obtain c' es' where step: "writer_step ok c = Some (Inr ((), c', es'))" and ok': "conn_ok c' (es @ es')"
    using writer_step_ok [OF assms(1)] by blast
  have nil: "ch = []" if "writeChan c = None # ch" for ch using assms(1) that by (auto simp: conn_ok_def split: if_splits)
  have closed: "connClosed c" if "chanClosed c" using assms(1) that by (auto simp: conn_ok_def)
  have rest: "closeFlag c' \<and> writer_work c' < writer_work c \<and> (ok \<and> flushing c \<longrightarrow> flushing c' \<and> dropped es' = [])"
  proof (cases "writer c")
    case W_Recv
    then show ?thesis using step assms(2) nil closed
      by (auto simp: writer_step_def writer_work_def flushing_def split: list.splits option.splits if_splits)
  next
    case (W_Write s)
    then show ?thesis using step assms(2)
      by (auto simp: writer_step_def ReleaseReadMsg_def writer_work_def flushing_def split: if_splits)
  next
    case W_Free
    then show ?thesis using step
      by (auto simp: writer_step_def writer_work_def flushing_def)
  qed (use step assms in \<open>auto simp: writer_step_def writer_work_def flushing_def\<close>)
  then show ?thesis using step ok' by blast
qed

lemma run_writer_closed:
  assumes "conn_ok c es" "closeFlag c" "writer_work c \<le> length oks"
  shows "\<exists>c' es'. run_writer oks c = Inr (c', es') \<and> writer c' = W_Done \<and> conn_ok c' (es @ es')
     \<and> (False \<notin> set oks \<and> flushing c \<longrightarrow> dropped es' = [])"
  using assms
proof (induction oks arbitrary: c es)
  case Nil
  then have "writer c = W_Done" by (cases "writer c") (auto simp: writer_work_def)
  then show ?case using Nil by simp
next
  case (Cons ok oks)
  show ?case
  proof (cases "writer c = W_Done")
    case True
    then show ?thesis using Cons.prems by (simp add: writer_step_def)
  next
    case False
    obtain c1 es1 where 1: "writer_step ok c = Some (Inr ((), c1, es1))" "conn_ok c1 (es @ es1)" "closeFlag c1" "writer_work c1 < writer_work c"
      "ok \<and> flushing c \<longrightarrow> flushing c1 \<and> dropped es1 = []" using writer_step_closed [OF Cons.prems(1,2) False] by blast
    then show ?thesis using Cons.IH [OF 1(2,3)] Cons.prems(3) by fastforce
  qed
qed

section \<open>Properties\<close>


text \<open>
  \<open>Close\<close> on a connection whose channel is full does not only destroy the connection: it releases the nil it failed to
  send into the pool that all connections share, and from then on, whatever the pool contains, the reader of any
  connection panics on a frame of 1 to 512 bytes when the pool hands it that entry.
\<close>

theorem Close_full_poisons_pool:
  assumes "pool_shape (connPool c)" "\<not> closeFlag c" "\<not> chanClosed c" "length (writeChan c) = chanCap c"
    and "parser_ok p" "msg_fits p m" "0 < length m" "length m \<le> 512"
  shows "\<exists>c'. NetConn_Close c = Inr ((), c', [Ev_Refuse None]) \<and> chanClosed c' \<and> pool_shape (connPool c')
     \<and> (\<forall>d. connPool d = connPool c' \<longrightarrow> ReadMsg (Some 0) p (frame p m @ r) d = Inl (Go_Panic ''slice bounds out of range''))"
proof -
  obtain pool where pool: "ReleaseBytes [] (connPool c) = Inr (True, pool)" "pool_shape pool"
    and bad: "\<forall>n. 0 < n \<and> n \<le> 512 \<longrightarrow> MakeBytes (Some 0) n pool = Inl (Go_Panic ''slice bounds out of range'')"
    using ReleaseBytes_nil_poisons assms(1) by (auto simp: pool_shape_def)
  have "read_data MakeBytes ReleaseBytes (Some 0) (of_nat (length m)) (m @ r) pool = Inl (Go_Panic ''slice bounds out of range'')"
    using bad assms(7-) uint_length [OF assms(6)] by (simp add: read_data_def)
  then have "MsgParser_Read MakeBytes ReleaseBytes (Some 0) p (frame p m @ r) pool = Inl (Go_Panic ''slice bounds out of range'')"
    by (simp only: Read_frame_data [OF assms(5,6)])
  then show ?thesis using pool assms(2-4)
    by (auto simp: NetConn_Close_def doWrite_def ReleaseReadMsg_def slice_arr_def doDestroy_def ReadMsg_def)
qed

subsection \<open>Witnesses\<close>

definition demo_closed :: net_conn where
  "demo_closed = (newNetConn memAreaPoolList 2) \<lparr> writeChan := [Some ([1, 2], 2), None], closeFlag := True \<rparr>"

lemma demo_closed_reach: "conn_reach cfg_small memAreaPoolList 2 demo_closed [Ev_Accept ([1, 2], 2)]"
proof -
  let ?c = "newNetConn memAreaPoolList 2"
  have 1: "conn_reach cfg_small memAreaPoolList 2 (?c \<lparr> writeChan := [Some ([1, 2], 2)] \<rparr>) ([] @ [Ev_Accept ([1, 2], 2)])"
    by (rule conn_next [OF conn_new, where a = "A_Write (Some ([1, 2], 2))"])
      (simp add: conn_step_def NetConn_Write_def doWrite_def newNetConn_def)
  have "conn_reach cfg_small memAreaPoolList 2 demo_closed (([] @ [Ev_Accept ([1, 2], 2)]) @ [])"
    by (rule conn_next [OF 1, where a = A_Close])
      (simp add: conn_step_def NetConn_Close_def doWrite_def newNetConn_def demo_closed_def)
  then show ?thesis by simp
qed


definition demo_full :: net_conn where
  "demo_full = (newNetConn memAreaPoolList 1) \<lparr> writeChan := [Some ([3], 1)], writer := W_Write ([1, 2], 2) \<rparr>"

theorem Close_full_poisons_pool_witness:
  "\<exists>c'. NetConn_Close demo_full = Inr ((), c', [Ev_Refuse None]) \<and> chanClosed c' \<and> pool_shape (connPool c')
     \<and> (\<forall>d. connPool d = connPool c' \<longrightarrow> ReadMsg (Some 0) cfg_small (frame cfg_small [8, 9]) d = Inl (Go_Panic ''slice bounds out of range''))"
  using Close_full_poisons_pool [of demo_full cfg_small "[8, 9]" "[]"]
  by (simp add: demo_full_def newNetConn_def pool_shape_def parser_ok_def msg_fits_def cfg_small_def getMaxMsgLen_def)

end
