(* ===== verification/Rpc_Monitor.thy ===== *)
theory Rpc_Monitor
  imports Pow2
begin

text \<open>
  Remote calls: the states of the waiting calls (\<open>engine/pkg/monitor/call_state.go\<close>), the monitor that finds them by
  request number (\<open>engine/pkg/monitor/monitor.go\<close>), and the goroutines that meet there: callers
  (\<open>MessageBus.call\<close> and \<open>asyncCall\<close> of \<open>engine/pkg/rpc/message/msgbus/bus.go\<close>), timers, the delivery of
  responses (\<open>localSender.DeliverResponse\<close> and \<open>Handler.RpcMessageHandler\<close>) and cancellations.

  A \<open>CallState\<close> is an index into a heap, because a released state is reused for another call. Goroutines interleave between the
  accesses to the monitor, the timers and the states. The timer service is a set of armed timers, any of which may fire at any
  time; \<open>Remove\<close> takes the state out of its bucket and cancels its timer in one step (a timer that fires in between finds nothing).
  Request and timer numbers are natural numbers: 64 bits do not wrap in the life of a node. The fields of a state that
  are only carried along (context, method, name, dispatcher, parameters) are left out. What the peers answer, which pooled
  state is reused and whether a delivery succeeds are choices of the run.
\<close>

section \<open>Definitions\<close>

subsection \<open>Call states and the monitor\<close>

datatype rpc_error = ErrRPCCallTimeout | ErrRPCHadClosed | ErrRPCCallFailed | ErrTimer | ErrApp nat

text \<open>A response and an error.\<close>

type_synonym answer = "nat \<times> rpc_error option"

record call_state =
  cs_ref :: bool
  cs_reqID :: nat
  cs_timerID :: nat
  cs_callbacks :: "nat list"
  cs_done :: bool
  cs_result :: answer

text \<open>A synchronous call has no callbacks. The caller's position in \<open>call\<close> or \<open>asyncCall\<close>: request number, state, timer.\<close>

datatype call_kind = SyncCall | AsyncCall "nat list"

datatype caller =
    C_New call_kind
  | C_Add call_kind nat nat
  | C_Insert call_kind nat nat nat
  | C_Deliver call_kind nat nat
  | C_Sent call_kind nat nat
  | C_Fail call_kind nat nat
  | C_FailRelease call_kind nat nat
  | C_Wait nat nat
  | C_Read nat nat
  | C_Release nat nat answer
  | C_Ret call_kind nat answer

text \<open>Timer callbacks, deliveries of a response (from the local node or from a remote one) and cancellations.\<close>

datatype taker =
    T_Fire nat
  | T_Set nat
  | T_Complete nat
  | R_Take bool nat answer
  | R_Post nat nat answer
  | R_Put nat
  | R_Set nat answer
  | R_Complete nat
  | X_Take nat
  | X_Put nat
  | T_End

record rpc_world =
  rm_closed :: bool
  rm_seq :: nat
  rm_buckets :: "(nat, nat) gomap list"
  rm_bucketMask :: nat
  cs_heap :: "call_state list"
  cs_pool :: "nat list"
  sd_timers :: "(nat, nat) gomap"
  sd_next :: nat
  requests :: "nat list"
  answers :: "(nat \<times> answer) list"
  posted :: "(nat \<times> nat list \<times> answer) list"
  callers :: "caller list"
  takers :: "taker list"

definition initBuckets :: "int \<Rightarrow> (nat, nat) gomap list \<times> nat" where
  "initBuckets bucketCount =
     (let n = RoundUpToPowerOfTwoInt (if bucketCount \<le> 0 then 256 else bucketCount)
      in (replicate (nat n) [], nat (n - 1)))"

definition NewRpcMonitor :: "int \<Rightarrow> rpc_world" where
  "NewRpcMonitor bucketCount =
     \<lparr> rm_closed = False, rm_seq = 0, rm_buckets = fst (initBuckets bucketCount), rm_bucketMask = snd (initBuckets bucketCount),
       cs_heap = [], cs_pool = [], sd_timers = [], sd_next = 1, requests = [], answers = [], posted = [], callers = [], takers = [] \<rparr>"

definition bucketIndex :: "nat \<Rightarrow> rpc_world \<Rightarrow> nat" where
  "bucketIndex seqId w = seqId AND rm_bucketMask w"

definition bucket_Add :: "nat \<Rightarrow> nat \<Rightarrow> rpc_world \<Rightarrow> rpc_world" where
  "bucket_Add seqId p w = w \<lparr> rm_buckets := (rm_buckets w)[bucketIndex seqId w := gm_set (rm_buckets w ! bucketIndex seqId w) seqId p] \<rparr>"

definition bucket_Get :: "nat \<Rightarrow> rpc_world \<Rightarrow> nat option" where
  "bucket_Get seqId w = gm_get (rm_buckets w ! bucketIndex seqId w) seqId"

definition bucket_Del :: "nat \<Rightarrow> rpc_world \<Rightarrow> nat option \<times> rpc_world" where
  "bucket_Del seqId w =
     (bucket_Get seqId w, w \<lparr> rm_buckets := (rm_buckets w)[bucketIndex seqId w := gm_del (rm_buckets w ! bucketIndex seqId w) seqId] \<rparr>)"

abbreviation upd_state :: "nat \<Rightarrow> (call_state \<Rightarrow> call_state) \<Rightarrow> rpc_world \<Rightarrow> rpc_world" where
  "upd_state p f w \<equiv> w \<lparr> cs_heap := (cs_heap w)[p := f (cs_heap w ! p)] \<rparr>"

definition cs_Reset :: "call_state \<Rightarrow> call_state" where
  "cs_Reset s = s \<lparr> cs_reqID := 0, cs_timerID := 0, cs_callbacks := [], cs_done := False, cs_result := (0, None) \<rparr>"

text \<open>The pool of states: any cached one or a new one, reset and marked as in use; a release only of one in use.\<close>

definition cs_Get :: "nat option \<Rightarrow> rpc_world \<Rightarrow> nat \<times> rpc_world" where
  "cs_Get pick w =
     (case pick of
        Some j \<Rightarrow>
          if j < length (cs_pool w)
          then (cs_pool w ! j, upd_state (cs_pool w ! j) (\<lambda>s. (cs_Reset s) \<lparr> cs_ref := True \<rparr>) (w \<lparr> cs_pool := take j (cs_pool w) @ drop (Suc j) (cs_pool w) \<rparr>))
          else (length (cs_heap w), w \<lparr> cs_heap := cs_heap w @ [\<lparr> cs_ref = True, cs_reqID = 0, cs_timerID = 0, cs_callbacks = [], cs_done = False, cs_result = (0, None) \<rparr>] \<rparr>)
      | None \<Rightarrow> (length (cs_heap w), w \<lparr> cs_heap := cs_heap w @ [\<lparr> cs_ref = True, cs_reqID = 0, cs_timerID = 0, cs_callbacks = [], cs_done = False, cs_result = (0, None) \<rparr>] \<rparr>))"

definition cs_Put :: "nat \<Rightarrow> rpc_world \<Rightarrow> rpc_world" where
  "cs_Put p w =
     (if cs_ref (cs_heap w ! p)
      then upd_state p (\<lambda>s. (cs_Reset s) \<lparr> cs_ref := False \<rparr>) w \<lparr> cs_pool := p # cs_pool w \<rparr>
      else w)"

definition kind_callbacks :: "call_kind \<Rightarrow> nat list" where
  "kind_callbacks k = (case k of SyncCall \<Rightarrow> [] | AsyncCall cbs \<Rightarrow> cbs)"

definition NewCallState :: "nat option \<Rightarrow> nat \<Rightarrow> nat list \<Rightarrow> rpc_world \<Rightarrow> nat \<times> rpc_world" where
  "NewCallState pick r cbs w = (let (p, w1) = cs_Get pick w in (p, upd_state p (\<lambda>s. s \<lparr> cs_reqID := r, cs_callbacks := cbs \<rparr>) w1))"

definition NeedCallback :: "call_state \<Rightarrow> bool" where
  "NeedCallback s \<longleftrightarrow> cs_callbacks s \<noteq> []"

definition SetResult :: "nat \<Rightarrow> answer \<Rightarrow> rpc_world \<Rightarrow> rpc_world" where
  "SetResult p a = upd_state p (\<lambda>s. s \<lparr> cs_result := a \<rparr>)"

definition signalDone :: "nat \<Rightarrow> rpc_world \<Rightarrow> rpc_world" where
  "signalDone p = upd_state p (\<lambda>s. s \<lparr> cs_done := True \<rparr>)"

text \<open>\<open>Complete\<close> posts the callbacks to the caller's mailbox and releases the state, or wakes the waiting caller.\<close>

definition CallState_Complete :: "nat \<Rightarrow> rpc_world \<Rightarrow> rpc_world" where
  "CallState_Complete p w =
     (let s = cs_heap w ! p
      in if NeedCallback s then cs_Put p (w \<lparr> posted := (cs_reqID s, cs_callbacks s, cs_result s) # posted w \<rparr>)
         else signalDone p w)"

definition monitor_remove :: "nat \<Rightarrow> rpc_world \<Rightarrow> nat option \<times> rpc_world" where
  "monitor_remove seqId w = (if rm_closed w \<or> seqId = 0 then (None, w) else bucket_Del seqId w)"

definition CancelTimer :: "nat \<Rightarrow> rpc_world \<Rightarrow> rpc_world" where
  "CancelTimer tid w = (if tid = 0 then w else w \<lparr> sd_timers := gm_del (sd_timers w) tid \<rparr>)"

definition monitor_Remove :: "nat \<Rightarrow> rpc_world \<Rightarrow> nat option \<times> rpc_world" where
  "monitor_Remove seqId w =
     (case monitor_remove seqId w of
        (None, w1) \<Rightarrow> (None, w1)
      | (Some p, w1) \<Rightarrow> (Some p, if rm_closed w1 then w1 else CancelTimer (cs_timerID (cs_heap w1 ! p)) w1))"

definition monitor_Get :: "nat \<Rightarrow> rpc_world \<Rightarrow> nat option" where
  "monitor_Get seqId w = (if rm_closed w \<or> seqId = 0 then None else bucket_Get seqId w)"

subsection \<open>Callers\<close>

text \<open>
  \<open>RpcMonitor.Add\<close> is the steps from \<open>C_Add\<close> and \<open>C_Insert\<close>: the timer runs before the state is in its bucket. A monitor that is
  closed, or a timer that cannot be registered (\<open>ok\<close> false), completes the call at once. From \<open>C_Deliver\<close> and \<open>C_Sent\<close>,
  \<open>ok\<close> is the answer of \<open>DeliverRequest\<close>, before or after the request went out.
\<close>

definition Add_arm :: "bool \<Rightarrow> nat \<Rightarrow> nat \<Rightarrow> rpc_world \<Rightarrow> nat option \<times> rpc_world" where
  [simp]: "Add_arm ok r p w =
     (if rm_closed w then (None, CallState_Complete p (SetResult p (0, Some ErrRPCHadClosed) w))
      else if \<not> ok then (None, CallState_Complete p (SetResult p (0, Some ErrTimer) w))
      else (Some (sd_next w), w \<lparr> sd_timers := (sd_next w, r) # sd_timers w, sd_next := sd_next w + 1 \<rparr>))"

definition Add_insert :: "nat \<Rightarrow> nat \<Rightarrow> nat \<Rightarrow> rpc_world \<Rightarrow> rpc_world" where
  [simp]: "Add_insert r p t w = bucket_Add r p (upd_state p (\<lambda>s. s \<lparr> cs_timerID := t \<rparr>) w)"

definition caller_step :: "nat option \<Rightarrow> bool \<Rightarrow> caller \<Rightarrow> rpc_world \<Rightarrow> (caller \<times> rpc_world) option" where
  "caller_step pick ok c w =
     (case c of
        C_New k \<Rightarrow>
          let r = rm_seq w + 1; (p, w1) = NewCallState pick r (kind_callbacks k) (w \<lparr> rm_seq := r \<rparr>)
          in Some (C_Add k r p, w1)
      | C_Add k r p \<Rightarrow>
          (case Add_arm ok r p w of
             (None, w1) \<Rightarrow> Some (C_Deliver k r p, w1)
           | (Some t, w1) \<Rightarrow> Some (C_Insert k r p t, w1))
      | C_Insert k r p t \<Rightarrow> Some (C_Deliver k r p, Add_insert r p t w)
      | C_Deliver k r p \<Rightarrow>
          if ok then Some (C_Sent k r p, w \<lparr> requests := r # requests w \<rparr>) else Some (C_Fail k r p, w)
      | C_Sent k r p \<Rightarrow>
          if \<not> ok then Some (C_Fail k r p, w)
          else Some (case k of SyncCall \<Rightarrow> C_Wait r p | AsyncCall cbs \<Rightarrow> C_Ret k r (0, None), w)
      | C_Fail k r p \<Rightarrow> Some (C_FailRelease k r p, snd (monitor_Remove r w))
      | C_FailRelease k r p \<Rightarrow> Some (C_Ret k r (0, Some ErrRPCCallFailed), cs_Put p w)
      | C_Wait r p \<Rightarrow>
          if cs_done (cs_heap w ! p) then Some (C_Read r p, upd_state p (\<lambda>s. s \<lparr> cs_done := False \<rparr>) w) else None
      | C_Read r p \<Rightarrow> Some (C_Release r p (cs_result (cs_heap w ! p)), w)
      | C_Release r p a \<Rightarrow> Some (C_Ret SyncCall r a, cs_Put p w)
      | C_Ret k r a \<Rightarrow> None)"

subsection \<open>Timers, responses, cancellations\<close>

text \<open>In the delivery of a local response to an asynchronous call, \<open>ok\<close> is the answer of the caller's mailbox.\<close>

definition timer_fires :: "nat \<Rightarrow> rpc_world \<Rightarrow> taker \<times> rpc_world" where
  [simp]: "timer_fires r w = (case monitor_remove r w of (None, w1) \<Rightarrow> (T_End, w1) | (Some p, w1) \<Rightarrow> (T_Set p, w1))"

definition DeliverResponse_takes :: "nat \<Rightarrow> answer \<Rightarrow> rpc_world \<Rightarrow> taker \<times> rpc_world" where
  [simp]: "DeliverResponse_takes r a w =
     (case monitor_Remove r w of
        (None, w1) \<Rightarrow> (T_End, w1)
      | (Some p, w1) \<Rightarrow> (if NeedCallback (cs_heap w1 ! p) then R_Post r p a else R_Set p a, w1))"

definition handler_takes :: "nat \<Rightarrow> answer \<Rightarrow> rpc_world \<Rightarrow> taker \<times> rpc_world" where
  [simp]: "handler_takes r a w = (case monitor_Remove r w of (None, w1) \<Rightarrow> (T_End, w1) | (Some p, w1) \<Rightarrow> (R_Set p a, w1))"

definition cancel_takes :: "nat \<Rightarrow> rpc_world \<Rightarrow> taker \<times> rpc_world" where
  [simp]: "cancel_takes r w =
     (case monitor_Remove r w of
        (None, w1) \<Rightarrow> (T_End, w1)
      | (Some p, w1) \<Rightarrow> (X_Put p, upd_state p (\<lambda>s. s \<lparr> cs_callbacks := [] \<rparr>) w1))"

definition taker_step :: "bool \<Rightarrow> taker \<Rightarrow> rpc_world \<Rightarrow> (taker \<times> rpc_world) option" where
  "taker_step ok t w =
     (case t of
        T_Fire r \<Rightarrow> Some (timer_fires r w)
      | T_Set p \<Rightarrow> Some (T_Complete p, SetResult p (0, Some ErrRPCCallTimeout) w)
      | T_Complete p \<Rightarrow> Some (T_End, CallState_Complete p w)
      | R_Take remote r a \<Rightarrow>
          Some (if remote then handler_takes r a w else DeliverResponse_takes r a w)
      | R_Post r p a \<Rightarrow>
          Some (R_Put p, if ok then w \<lparr> posted := (r, cs_callbacks (cs_heap w ! p), a) # posted w \<rparr> else w)
      | R_Put p \<Rightarrow> Some (T_End, cs_Put p w)
      | R_Set p a \<Rightarrow> Some (R_Complete p, SetResult p a w)
      | R_Complete p \<Rightarrow> Some (T_End, CallState_Complete p w)
      | X_Take r \<Rightarrow>
          Some (cancel_takes r w)
      | X_Put p \<Rightarrow> Some (T_End, cs_Put p w)
      | T_End \<Rightarrow> None)"

subsection \<open>Runs\<close>

text \<open>
  Any goroutine may start a call, any armed timer may fire, any request that went out may be answered (also more than once),
  any returned asynchronous call may be cancelled. \<open>A_Lose\<close> is a due timer whose callback is dropped, because the channel of the scheduler is full
  (\<open>runTimer\<close>) or because the goroutine pool refuses it (\<open>listen\<close>), which both only log. \<open>A_Close\<close> is the switch at the beginning of \<open>Stop\<close>.
\<close>

datatype rpc_act = A_Call call_kind | A_Caller nat "nat option" bool | A_Timer nat | A_Lose nat | A_Answer bool nat answer | A_Cancel nat | A_Taker nat bool | A_Close

definition returned_async :: "nat \<Rightarrow> caller \<Rightarrow> bool" where
  "returned_async r c = (case c of C_Ret k r' a \<Rightarrow> k \<noteq> SyncCall \<and> r' = r \<and> snd a = None | _ \<Rightarrow> False)"

definition inserting :: "nat \<Rightarrow> caller \<Rightarrow> bool" where
  "inserting r c = (case c of C_Insert k r' p t \<Rightarrow> r' = r | _ \<Rightarrow> False)"

definition rpc_step :: "rpc_act \<Rightarrow> rpc_world \<Rightarrow> rpc_world option" where
  "rpc_step act w =
     (case act of
        A_Call k \<Rightarrow> if k = AsyncCall [] then None else Some (w \<lparr> callers := callers w @ [C_New k] \<rparr>)
      | A_Caller i pick ok \<Rightarrow>
          if i < length (callers w)
          then map_option (\<lambda>(c, w1). w1 \<lparr> callers := (callers w1)[i := c] \<rparr>) (caller_step pick ok (callers w ! i) w)
          else None
      | A_Timer t \<Rightarrow>
          (case gm_get (sd_timers w) t of
             None \<Rightarrow> None
           | Some r \<Rightarrow> Some (w \<lparr> sd_timers := gm_del (sd_timers w) t, takers := takers w @ [T_Fire r] \<rparr>))
      | A_Lose t \<Rightarrow>
          (case gm_get (sd_timers w) t of
             None \<Rightarrow> None
           | Some r \<Rightarrow> Some (w \<lparr> sd_timers := gm_del (sd_timers w) t \<rparr>))
      | A_Answer remote r a \<Rightarrow>
          if r \<in> set (requests w)
          then Some (w \<lparr> answers := (r, a) # answers w, takers := takers w @ [R_Take remote r a] \<rparr>)
          else None
      | A_Cancel r \<Rightarrow>
          if \<exists>c \<in> set (callers w). returned_async r c
          then Some (w \<lparr> takers := takers w @ [X_Take r] \<rparr>)
          else None
      | A_Taker j ok \<Rightarrow>
          if j < length (takers w)
          then map_option (\<lambda>(t, w1). w1 \<lparr> takers := (takers w1)[j := t] \<rparr>) (taker_step ok (takers w ! j) w)
          else None
      | A_Close \<Rightarrow> Some (w \<lparr> rm_closed := True \<rparr>))"

fun rpc_exec :: "rpc_act list \<Rightarrow> rpc_world \<Rightarrow> rpc_world option" where
  "rpc_exec [] w = Some w"
| "rpc_exec (a # as) w = (case rpc_step a w of None \<Rightarrow> None | Some w1 \<Rightarrow> rpc_exec as w1)"

text \<open>A delivery is refused.\<close>

definition fails_delivery :: "rpc_act \<Rightarrow> rpc_world \<Rightarrow> bool" where
  "fails_delivery act w \<longleftrightarrow>
     (case act of
        A_Caller i pick ok \<Rightarrow> \<not> ok \<and> i < length (callers w) \<and> (case callers w ! i of C_Deliver _ _ _ \<Rightarrow> True | C_Sent _ _ _ \<Rightarrow> True | _ \<Rightarrow> False)
      | _ \<Rightarrow> False)"

text \<open>A timer callback looks for its state before the caller has put it into the bucket.\<close>

definition fires_early :: "rpc_act \<Rightarrow> rpc_world \<Rightarrow> bool" where
  "fires_early act w \<longleftrightarrow>
     (case act of
        A_Taker j ok \<Rightarrow> j < length (takers w) \<and>
          (case takers w ! j of T_Fire r \<Rightarrow> \<exists>c \<in> set (callers w). inserting r c | _ \<Rightarrow> False)
      | _ \<Rightarrow> False)"

text \<open>The callback of a timer is dropped.\<close>

definition loses_timer :: "rpc_act \<Rightarrow> bool" where
  "loses_timer act \<longleftrightarrow> (case act of A_Lose t \<Rightarrow> True | _ \<Rightarrow> False)"

inductive rpc_reach :: "(rpc_act \<Rightarrow> rpc_world \<Rightarrow> bool) \<Rightarrow> rpc_world \<Rightarrow> rpc_world \<Rightarrow> bool" for bad w0 where
  reach_start: "rpc_reach bad w0 w0"
| reach_step: "rpc_reach bad w0 w \<Longrightarrow> \<not> bad act w \<Longrightarrow> rpc_step act w = Some w' \<Longrightarrow> rpc_reach bad w0 w'"

end
