(* ===== verification/Rpc_Owners.thy ===== *)
theory Rpc_Owners
  imports Rpc_Monitor
begin

text \<open>
  The invariant of the calls of \<open>Rpc_Monitor\<close>: every call state has one owner, and what each goroutine knows of the states it
  refers to. Every step keeps it, as long as no delivery of a request fails.
\<close>

section \<open>The invariant\<close>

subsection \<open>Who has a state\<close>

text \<open>
  Every state has one owner: the pool, the caller that builds or reads it, the bucket of its request, the timer callback, response
  or cancellation that took it out, or its full channel.
\<close>

datatype owner = O_None | O_Free | O_Caller nat | O_Bucket nat | O_Taker nat | O_Done

definition caller_owns :: "caller \<Rightarrow> nat option" where
  "caller_owns c = (case c of C_Add k r p \<Rightarrow> Some p | C_Insert k r p t \<Rightarrow> Some p | C_Read r p \<Rightarrow> Some p | C_Release r p a \<Rightarrow> Some p | _ \<Rightarrow> None)"

definition caller_waits :: "caller \<Rightarrow> (nat \<times> nat) option" where
  "caller_waits c = (case c of C_Deliver SyncCall r p \<Rightarrow> Some (r, p) | C_Sent SyncCall r p \<Rightarrow> Some (r, p) | C_Wait r p \<Rightarrow> Some (r, p) | _ \<Rightarrow> None)"

definition taker_owns :: "taker \<Rightarrow> nat option" where
  "taker_owns t = (case t of T_Set p \<Rightarrow> Some p | T_Complete p \<Rightarrow> Some p | R_Post r p a \<Rightarrow> Some p | R_Put p \<Rightarrow> Some p | R_Set p a \<Rightarrow> Some p
     | R_Complete p \<Rightarrow> Some p | X_Put p \<Rightarrow> Some p | _ \<Rightarrow> None)"

definition owners :: "nat list \<Rightarrow> (nat \<Rightarrow> call_state option) \<Rightarrow> (nat \<Rightarrow> nat option) \<Rightarrow> (nat \<Rightarrow> nat option) \<Rightarrow> (nat \<Rightarrow> nat option) \<Rightarrow> (nat \<Rightarrow> owner) \<Rightarrow> bool" where
  "owners pool H B C T ow \<longleftrightarrow> distinct pool \<and> (\<forall>p. p \<in> set pool \<longleftrightarrow> ow p = O_Free) \<and> (\<forall>p. H p = None \<longleftrightarrow> ow p = O_None)
     \<and> (\<forall>i p. C i = Some p \<longleftrightarrow> ow p = O_Caller i) \<and> (\<forall>r p. B r = Some p \<longleftrightarrow> ow p = O_Bucket r) \<and> (\<forall>j p. T j = Some p \<longleftrightarrow> ow p = O_Taker j)
     \<and> (\<forall>p s. H p = Some s \<longrightarrow> (cs_done s \<longleftrightarrow> ow p = O_Done) \<and> (cs_ref s \<longleftrightarrow> ow p \<noteq> O_Free))"

lemma owners_at:
  assumes "owners pool H B C T ow"
  shows "p \<in> set pool \<longleftrightarrow> ow p = O_Free" "C i = Some p \<longleftrightarrow> ow p = O_Caller i" "B r = Some p \<longleftrightarrow> ow p = O_Bucket r" "T j = Some p \<longleftrightarrow> ow p = O_Taker j"
    "H p = None \<longleftrightarrow> ow p = O_None"
  using assms by (simp_all add: owners_def)

lemma owners_flags: "owners pool H B C T ow \<Longrightarrow> H p = Some s \<Longrightarrow> (cs_done s \<longleftrightarrow> ow p = O_Done) \<and> (cs_ref s \<longleftrightarrow> ow p \<noteq> O_Free)"
  by (simp add: owners_def)

text \<open>The moves of a state from one owner to the next.\<close>

lemma owners_state:
  assumes "owners pool H B C T ow" "H p = Some s" "cs_done s' = cs_done s" "cs_ref s' = cs_ref s"
  shows "owners pool (H(p \<mapsto> s')) B C T ow"
  using assms unfolding owners_def by (simp add: fun_upd_apply) (metis option.distinct(1))

lemma owners_excl:
  assumes "owners pool H B C T ow"
  shows "C i = Some p \<Longrightarrow> p \<notin> set pool \<and> (\<forall>r. B r \<noteq> Some p) \<and> (\<forall>j. T j \<noteq> Some p) \<and> (\<forall>i'. i' \<noteq> i \<longrightarrow> C i' \<noteq> Some p)"
    and "T j = Some p \<Longrightarrow> p \<notin> set pool \<and> (\<forall>r. B r \<noteq> Some p) \<and> (\<forall>j'. j' \<noteq> j \<longrightarrow> T j' \<noteq> Some p) \<and> (\<forall>i'. C i' \<noteq> Some p)"
    and "B r = Some p \<Longrightarrow> p \<notin> set pool \<and> (\<forall>r'. r' \<noteq> r \<longrightarrow> B r' \<noteq> Some p) \<and> (\<forall>j'. T j' \<noteq> Some p) \<and> (\<forall>i'. C i' \<noteq> Some p)"
    and "ow p \<in> {O_None, O_Free, O_Done} \<Longrightarrow> (p \<in> set pool \<longleftrightarrow> ow p = O_Free) \<and> (\<forall>r. B r \<noteq> Some p) \<and> (\<forall>j. T j \<noteq> Some p) \<and> (\<forall>i. C i \<noteq> Some p)"
  by (auto simp: owners_at [OF assms])

lemma owners_distinct: "owners pool H B C T ow \<Longrightarrow> distinct pool"
  by (simp add: owners_def)

lemma owners_move:
  assumes "owners pool H B C T ow"
    and "distinct pool'" "\<And>q. q \<noteq> p \<Longrightarrow> q \<in> set pool' \<longleftrightarrow> q \<in> set pool" "p \<in> set pool' \<longleftrightarrow> w = O_Free"
    and "\<And>i q. q \<noteq> p \<Longrightarrow> C' i = Some q \<longleftrightarrow> C i = Some q" "\<And>i. C' i = Some p \<longleftrightarrow> w = O_Caller i"
    and "\<And>i q. q \<noteq> p \<Longrightarrow> B' i = Some q \<longleftrightarrow> B i = Some q" "\<And>i. B' i = Some p \<longleftrightarrow> w = O_Bucket i"
    and "\<And>i q. q \<noteq> p \<Longrightarrow> T' i = Some q \<longleftrightarrow> T i = Some q" "\<And>i. T' i = Some p \<longleftrightarrow> w = O_Taker i"
    and "w \<noteq> O_None" "cs_done s \<longleftrightarrow> w = O_Done" "cs_ref s \<longleftrightarrow> w \<noteq> O_Free"
  shows "owners pool' (H(p \<mapsto> s)) B' C' T' (ow(p := w))"
  using assms unfolding owners_def by (simp add: fun_upd_apply)

lemma owners_alloc:
  assumes "owners pool H B C T ow" "C i = None" "\<not> cs_done s" "cs_ref s"
    and "ow p = O_None \<and> pool' = pool \<or> ow p = O_Free \<and> pool' = remove1 p pool"
  shows "owners pool' (H(p \<mapsto> s)) B (C(i \<mapsto> p)) T (ow(p := O_Caller i))"
  using assms(2-) owners_excl(4) [OF assms(1), of p] owners_distinct [OF assms(1)]
  by (intro owners_move [OF assms(1)]) (auto simp: fun_upd_apply split: if_splits)

lemma owners_insert:
  assumes "owners pool H B C T ow" "C i = Some p" "B r = None" "H p = Some s" "cs_done s' = cs_done s" "cs_ref s' = cs_ref s"
  shows "owners pool (H(p \<mapsto> s')) (B(r \<mapsto> p)) (C(i := None)) T (ow(p := O_Bucket r))"
  using assms(2-) owners_excl(1) [OF assms(1,2)] owners_flags [OF assms(1,4)] owners_at(2,3) [OF assms(1), of _ p, symmetric] owners_at(1) [OF assms(1), of p, symmetric] owners_distinct [OF assms(1)]
  by (intro owners_move [OF assms(1)]) (auto simp: fun_upd_apply split: if_splits)

lemma owners_put_caller:
  assumes "owners pool H B C T ow" "C i = Some p" "\<not> cs_done s" "\<not> cs_ref s"
  shows "owners (p # pool) (H(p \<mapsto> s)) B (C(i := None)) T (ow(p := O_Free))"
  using assms(2-) owners_excl(1) [OF assms(1,2)] owners_distinct [OF assms(1)]
  by (intro owners_move [OF assms(1)]) (auto simp: fun_upd_apply split: if_splits)

lemma owners_done_caller:
  assumes "owners pool H B C T ow" "C i = Some p" "cs_done s" "cs_ref s"
  shows "owners pool (H(p \<mapsto> s)) B (C(i := None)) T (ow(p := O_Done))"
  using assms(2-) owners_excl(1) [OF assms(1,2)] owners_distinct [OF assms(1)]
  by (intro owners_move [OF assms(1)]) (auto simp: fun_upd_apply split: if_splits)

lemma owners_read:
  assumes "owners pool H B C T ow" "C i = None" "ow p = O_Done" "\<not> cs_done s" "cs_ref s"
  shows "owners pool (H(p \<mapsto> s)) B (C(i \<mapsto> p)) T (ow(p := O_Caller i))"
  using assms(2-) owners_excl(4) [OF assms(1), of p] owners_distinct [OF assms(1)]
  by (intro owners_move [OF assms(1)]) (auto simp: fun_upd_apply split: if_splits)

lemma owners_take:
  assumes "owners pool H B C T ow" "T j = None" "B r = Some p" "H p = Some s" "cs_done s' = cs_done s" "cs_ref s' = cs_ref s"
  shows "owners pool (H(p \<mapsto> s')) (B(r := None)) C (T(j \<mapsto> p)) (ow(p := O_Taker j))"
  using assms(2-) owners_excl(3) [OF assms(1,3)] owners_flags [OF assms(1,4)] owners_at(2,3) [OF assms(1), of _ p, symmetric] owners_at(1) [OF assms(1), of p, symmetric] owners_distinct [OF assms(1)]
  by (intro owners_move [OF assms(1)]) (auto simp: fun_upd_apply split: if_splits)

lemma owners_put_taker:
  assumes "owners pool H B C T ow" "T j = Some p" "\<not> cs_done s" "\<not> cs_ref s"
  shows "owners (p # pool) (H(p \<mapsto> s)) B C (T(j := None)) (ow(p := O_Free))"
  using assms(2-) owners_excl(2) [OF assms(1,2)] owners_distinct [OF assms(1)]
  by (intro owners_move [OF assms(1)]) (auto simp: fun_upd_apply split: if_splits)

lemma owners_done_taker:
  assumes "owners pool H B C T ow" "T j = Some p" "cs_done s" "cs_ref s"
  shows "owners pool (H(p \<mapsto> s)) B C (T(j := None)) (ow(p := O_Done))"
  using assms(2-) owners_excl(2) [OF assms(1,2)] owners_distinct [OF assms(1)]
  by (intro owners_move [OF assms(1)]) (auto simp: fun_upd_apply split: if_splits)

subsection \<open>What the owners know\<close>

text \<open>The ghost \<open>K\<close> gives for each request number its kind, its caller and its state.\<close>

type_synonym req_map = "nat \<Rightarrow> (call_kind \<times> nat \<times> nat) option"

text \<open>What a call may get: an answer to its own request, the timeout, or the refusal of the monitor.\<close>

definition valid_answer :: "(nat \<times> answer) list \<Rightarrow> nat \<Rightarrow> answer \<Rightarrow> bool" where
  "valid_answer ans r a \<longleftrightarrow> a \<in> {(0, Some ErrRPCCallTimeout), (0, Some ErrRPCHadClosed), (0, Some ErrTimer)} \<or> (r, a) \<in> set ans"

definition completing :: "nat \<Rightarrow> taker \<Rightarrow> bool" where
  "completing p t \<longleftrightarrow> (case t of T_Set q \<Rightarrow> q = p | T_Complete q \<Rightarrow> q = p | R_Complete q \<Rightarrow> q = p | R_Set q a \<Rightarrow> q = p | _ \<Rightarrow> False)"

definition waits_ok :: "(nat \<Rightarrow> call_state) \<Rightarrow> (nat \<Rightarrow> taker option) \<Rightarrow> (nat \<Rightarrow> owner) \<Rightarrow> nat \<Rightarrow> nat \<Rightarrow> bool" where
  "waits_ok h TA ow r p \<longleftrightarrow> cs_reqID (h p) = r \<and>
     (ow p = O_Bucket r \<or> ow p = O_Done \<or> (\<exists>j t. ow p = O_Taker j \<and> TA j = Some t \<and> completing p t))"

definition caller_ok :: "(nat \<Rightarrow> call_state) \<Rightarrow> (nat \<Rightarrow> taker option) \<Rightarrow> (nat \<Rightarrow> owner) \<Rightarrow> req_map \<Rightarrow> (nat \<times> answer) list \<Rightarrow> nat \<Rightarrow> caller \<Rightarrow> bool" where
  "caller_ok h TA ow K ans i c =
     (case c of
        C_New k \<Rightarrow> k \<noteq> AsyncCall []
      | C_Add k r p \<Rightarrow> K r = Some (k, i, p) \<and> cs_reqID (h p) = r
      | C_Insert k r p t \<Rightarrow> K r = Some (k, i, p) \<and> cs_reqID (h p) = r
      | C_Deliver k r p \<Rightarrow> K r = Some (k, i, p) \<and> (k = SyncCall \<longrightarrow> waits_ok h TA ow r p)
      | C_Sent k r p \<Rightarrow> K r = Some (k, i, p) \<and> (k = SyncCall \<longrightarrow> waits_ok h TA ow r p)
      | C_Wait r p \<Rightarrow> K r = Some (SyncCall, i, p) \<and> waits_ok h TA ow r p
      | C_Read r p \<Rightarrow> K r = Some (SyncCall, i, p) \<and> cs_reqID (h p) = r \<and> valid_answer ans r (cs_result (h p))
      | C_Release r p a \<Rightarrow> K r = Some (SyncCall, i, p) \<and> cs_reqID (h p) = r \<and> valid_answer ans r a
      | C_Ret k r a \<Rightarrow> (\<exists>p. K r = Some (k, i, p)) \<and> (k = SyncCall \<longrightarrow> valid_answer ans r a)
      | C_Fail k r p \<Rightarrow> False
      | C_FailRelease k r p \<Rightarrow> False)"

definition async_req :: "req_map \<Rightarrow> nat \<Rightarrow> bool" where
  "async_req K r \<longleftrightarrow> (\<exists>cbs i p. K r = Some (AsyncCall cbs, i, p))"

definition taker_ok :: "(nat \<Rightarrow> call_state) \<Rightarrow> req_map \<Rightarrow> (nat \<times> answer) list \<Rightarrow> taker \<Rightarrow> bool" where
  "taker_ok h K ans t =
     (case t of
        T_Complete p \<Rightarrow> valid_answer ans (cs_reqID (h p)) (cs_result (h p))
      | R_Take remote r a \<Rightarrow> (r, a) \<in> set ans
      | R_Post r p a \<Rightarrow> cs_reqID (h p) = r \<and> (r, a) \<in> set ans \<and> async_req K r
      | R_Put p \<Rightarrow> async_req K (cs_reqID (h p))
      | R_Set p a \<Rightarrow> (cs_reqID (h p), a) \<in> set ans
      | R_Complete p \<Rightarrow> valid_answer ans (cs_reqID (h p)) (cs_result (h p))
      | X_Take r \<Rightarrow> async_req K r
      | X_Put p \<Rightarrow> async_req K (cs_reqID (h p))
      | _ \<Rightarrow> True)"

definition in_use :: "owner \<Rightarrow> bool" where
  "in_use w \<longleftrightarrow> w \<noteq> O_None \<and> w \<noteq> O_Free"

definition cancelling :: "(nat \<Rightarrow> taker option) \<Rightarrow> (nat \<Rightarrow> owner) \<Rightarrow> nat \<Rightarrow> bool" where
  "cancelling TA ow p \<longleftrightarrow> (\<exists>j. ow p = O_Taker j \<and> TA j = Some (X_Put p))"

definition slot_ok :: "(nat \<Rightarrow> call_state) \<Rightarrow> (nat \<Rightarrow> taker option) \<Rightarrow> (nat \<Rightarrow> owner) \<Rightarrow> req_map \<Rightarrow> (nat \<times> answer) list \<Rightarrow> nat \<Rightarrow> bool" where
  "slot_ok h TA ow K ans p \<longleftrightarrow> in_use (ow p) \<longrightarrow>
     (\<exists>k i. K (cs_reqID (h p)) = Some (k, i, p) \<and> (cs_callbacks (h p) = kind_callbacks k \<or> cancelling TA ow p))
     \<and> (\<forall>r. ow p = O_Bucket r \<longrightarrow> cs_reqID (h p) = r)
     \<and> (ow p = O_Done \<longrightarrow> valid_answer ans (cs_reqID (h p)) (cs_result (h p)))"

definition job_ok :: "(nat \<Rightarrow> call_state) \<Rightarrow> (nat \<Rightarrow> taker option) \<Rightarrow> (nat \<Rightarrow> owner) \<Rightarrow> req_map \<Rightarrow> (nat \<times> answer) list \<Rightarrow> nat \<times> nat list \<times> answer \<Rightarrow> bool" where
  "job_ok h TA ow K ans x = (case x of (r, cbs, a) \<Rightarrow> \<exists>i p. K r = Some (AsyncCall cbs, i, p) \<and> valid_answer ans r a
     \<and> (in_use (ow p) \<and> cs_reqID (h p) = r \<longrightarrow> (\<exists>j. ow p = O_Taker j \<and> TA j = Some (R_Put p))))"

definition data_ok :: "nat \<Rightarrow> (nat \<Rightarrow> call_state) \<Rightarrow> (nat \<Rightarrow> caller option) \<Rightarrow> (nat \<Rightarrow> taker option) \<Rightarrow> (nat \<Rightarrow> owner) \<Rightarrow> req_map \<Rightarrow> (nat \<times> answer) list
    \<Rightarrow> (nat \<times> nat list \<times> answer) list \<Rightarrow> bool" where
  "data_ok n h CA TA ow K ans jobs \<longleftrightarrow>
     (\<forall>r k i p. K r = Some (k, i, p) \<longrightarrow> 0 < r \<and> r \<le> n \<and> k \<noteq> AsyncCall [])
     \<and> (\<forall>i c. CA i = Some c \<longrightarrow> caller_ok h TA ow K ans i c) \<and> (\<forall>j t. TA j = Some t \<longrightarrow> taker_ok h K ans t)
     \<and> (\<forall>p. slot_ok h TA ow K ans p) \<and> (\<forall>x \<in> set jobs. job_ok h TA ow K ans x) \<and> distinct (map fst jobs)"

text \<open>A step changes one state and one goroutine. What the others know of other states is kept.\<close>

lemma valid_answer_mono: "valid_answer ans r a \<Longrightarrow> set ans \<subseteq> set ans' \<Longrightarrow> valid_answer ans' r a"
  by (auto simp: valid_answer_def)

lemma async_req_mono: "async_req K r \<Longrightarrow> K \<subseteq>\<^sub>m K' \<Longrightarrow> async_req K' r"
  by (auto simp: async_req_def map_le_def dom_def)

lemma map_leD: "K \<subseteq>\<^sub>m K' \<Longrightarrow> K r = Some x \<Longrightarrow> K' r = Some x"
  by (auto simp: map_le_def dom_def)

lemma caller_ok_frame:
  assumes "caller_ok h TA ow K ans i c" "K \<subseteq>\<^sub>m K'" "set ans \<subseteq> set ans'"
    and "\<And>q. caller_owns c = Some q \<Longrightarrow> cs_reqID (h' q) = cs_reqID (h q) \<and> cs_result (h' q) = cs_result (h q)"
    and "\<And>r q. caller_waits c = Some (r, q) \<Longrightarrow> waits_ok h TA ow r q \<Longrightarrow> waits_ok h' TA' ow' r q"
  shows "caller_ok h' TA' ow' K' ans' i c"
  using assms(1,4,5) map_leD [OF assms(2)] valid_answer_mono [OF _ assms(3)]
  by (cases c) (auto simp: caller_ok_def caller_owns_def caller_waits_def split: call_kind.splits)

lemma taker_ok_frame:
  assumes "taker_ok h K ans t" "K \<subseteq>\<^sub>m K'" "set ans \<subseteq> set ans'"
    and "\<And>q. taker_owns t = Some q \<Longrightarrow> cs_reqID (h' q) = cs_reqID (h q) \<and> cs_result (h' q) = cs_result (h q)"
  shows "taker_ok h' K' ans' t"
  using assms(1,3,4) async_req_mono [OF _ assms(2)] valid_answer_mono [OF _ assms(3)]
  by (cases t) (auto simp: taker_ok_def taker_owns_def)

text \<open>The taker \<open>j\<close> has no state but \<open>p\<close>.\<close>

definition only_has :: "(nat \<Rightarrow> taker option) \<Rightarrow> nat \<Rightarrow> nat \<Rightarrow> bool" where
  "only_has TA j p \<longleftrightarrow> (\<forall>t. TA j = Some t \<longrightarrow> taker_owns t = None \<or> taker_owns t = Some p)"

lemma completing_owns: "completing p t \<Longrightarrow> taker_owns t = Some p"
  by (cases t) (auto simp: completing_def taker_owns_def)

lemma waits_ok_other:
  assumes "waits_ok h TA ow r q" "q \<noteq> p" "only_has TA j p"
  shows "waits_ok (h(p := s)) (TA(j := x)) (ow(p := w)) r q"
  using assms completing_owns by (fastforce simp: waits_ok_def only_has_def)

lemma slot_ok_other:
  assumes "slot_ok h TA ow K ans q" "q \<noteq> p" "only_has TA j p" "K \<subseteq>\<^sub>m K'" "set ans \<subseteq> set ans'"
  shows "slot_ok (h(p := s)) (TA(j := x)) (ow(p := w)) K' ans' q"
proof -
  have "TA j \<noteq> Some (X_Put q)" using assms(2,3) by (auto simp: only_has_def taker_owns_def)
  then have x: "cancelling (TA(j := x)) (ow(p := w)) q" if "cancelling TA ow q" using that assms(2) by (auto simp: cancelling_def)
  show ?thesis using assms(1,2)
    by (auto simp: slot_ok_def intro: map_leD [OF assms(4)] valid_answer_mono [OF _ assms(5)] x)
qed

lemma job_ok_frame:
  assumes "job_ok h TA ow K ans (r, cbs, a)" "only_has TA j p" "K \<subseteq>\<^sub>m K'" "set ans \<subseteq> set ans'"
    and "\<And>i k. K r = Some (k, i, p) \<Longrightarrow> in_use w \<Longrightarrow> cs_reqID s = r \<Longrightarrow> (in_use (ow p) \<and> cs_reqID (h p) = r \<longrightarrow> (\<exists>j. ow p = O_Taker j \<and> TA j = Some (R_Put p)))
       \<Longrightarrow> \<exists>j'. w = O_Taker j' \<and> (TA(j := x)) j' = Some (R_Put p)"
  shows "job_ok (h(p := s)) (TA(j := x)) (ow(p := w)) K' ans' (r, cbs, a)"
proof -
  obtain i q where q: "K r = Some (AsyncCall cbs, i, q)" "valid_answer ans r a"
    "in_use (ow q) \<and> cs_reqID (h q) = r \<longrightarrow> (\<exists>j. ow q = O_Taker j \<and> TA j = Some (R_Put q))" using assms(1) by (auto simp: job_ok_def)
  have "in_use ((ow(p := w)) q) \<and> cs_reqID ((h(p := s)) q) = r \<longrightarrow> (\<exists>j'. (ow(p := w)) q = O_Taker j' \<and> (TA(j := x)) j' = Some (R_Put q))"
  proof (cases "q = p")
    case True
    then show ?thesis using q assms(5) by auto
  next
    case False
    then have "TA j \<noteq> Some (R_Put q)" using assms(2) by (auto simp: only_has_def taker_owns_def)
    then show ?thesis using q(3) False by auto
  qed
  then show ?thesis using map_leD [OF assms(3) q(1)] valid_answer_mono [OF q(2) assms(4)] unfolding job_ok_def prod.case by blast
qed

lemma data_okD:
  assumes "data_ok n h CA TA ow K ans jobs"
  shows "K r = Some (k, i, p) \<Longrightarrow> 0 < r \<and> r \<le> n \<and> k \<noteq> AsyncCall []" "CA i = Some c \<Longrightarrow> caller_ok h TA ow K ans i c" "TA j = Some t \<Longrightarrow> taker_ok h K ans t"
    "slot_ok h TA ow K ans p" "x \<in> set jobs \<Longrightarrow> job_ok h TA ow K ans x" "distinct (map fst jobs)"
  using assms by (auto simp: data_ok_def)

text \<open>A taker moves and changes the state it has or gets.\<close>

lemma data_taker:
  assumes D: "data_ok n h CA TA ow K ans jobs" and j: "TA j = Some t" "only_has TA j p"
    and alone: "\<And>i c. CA i = Some c \<Longrightarrow> caller_owns c \<noteq> Some p" "\<And>j' t'. j' \<noteq> j \<Longrightarrow> TA j' = Some t' \<Longrightarrow> taker_owns t' \<noteq> Some p"
    and wait: "\<And>i c r. CA i = Some c \<Longrightarrow> caller_waits c = Some (r, p) \<Longrightarrow> waits_ok h TA ow r p \<Longrightarrow> waits_ok (h(p := s)) (TA(j \<mapsto> t')) (ow(p := w)) r p"
    and new: "taker_ok (h(p := s)) K ans t'" "slot_ok (h(p := s)) (TA(j \<mapsto> t')) (ow(p := w)) K ans p"
    and jobs: "\<And>x. x \<in> set jobs' \<Longrightarrow> job_ok (h(p := s)) (TA(j \<mapsto> t')) (ow(p := w)) K ans x" "distinct (map fst jobs')"
  shows "data_ok n (h(p := s)) CA (TA(j \<mapsto> t')) (ow(p := w)) K ans jobs'"
proof -
  have "caller_ok (h(p := s)) (TA(j \<mapsto> t')) (ow(p := w)) K ans i c" if c: "CA i = Some c" for i c
  proof (rule caller_ok_frame [OF data_okD(2) [OF D c]])
    fix r q assume q: "caller_waits c = Some (r, q)" "waits_ok h TA ow r q"
    show "waits_ok (h(p := s)) (TA(j \<mapsto> t')) (ow(p := w)) r q"
      using wait [OF c, of r] q waits_ok_other [OF q(2) _ j(2)] by (cases "q = p") auto
  qed (use alone(1) [OF c] in auto)
  moreover have "taker_ok (h(p := s)) K ans t2" if "(TA(j \<mapsto> t')) j2 = Some t2" for j2 t2
  proof (cases "j2 = j")
    case False
    then have t2: "TA j2 = Some t2" using that by simp
    show ?thesis using alone(2) [OF False t2] by (intro taker_ok_frame [OF data_okD(3) [OF D t2]]) auto
  qed (use that new(1) in simp)
  moreover have "slot_ok (h(p := s)) (TA(j \<mapsto> t')) (ow(p := w)) K ans q" for q
    using new(2) slot_ok_other [OF data_okD(4) [OF D, of q] _ j(2)] by (cases "q = p") auto
  ultimately show ?thesis using jobs D unfolding data_ok_def by blast
qed

text \<open>A caller moves and changes the state it has or gets.\<close>

lemma only_has_same: "waits_ok h TA ow r q \<Longrightarrow> q \<noteq> p \<Longrightarrow> waits_ok (h(p := s)) TA (ow(p := w)) r q"
  "slot_ok h TA ow K ans q \<Longrightarrow> q \<noteq> p \<Longrightarrow> K \<subseteq>\<^sub>m K' \<Longrightarrow> slot_ok (h(p := s)) TA (ow(p := w)) K' ans q"
  by (simp_all add: waits_ok_def) (auto simp: slot_ok_def cancelling_def intro: map_leD)

lemma data_caller:
  assumes D: "data_ok n h CA TA ow K ans jobs" and le: "K \<subseteq>\<^sub>m K'" "n \<le> n'"
    and K': "\<And>r k i p. K' r = Some (k, i, p) \<Longrightarrow> K r = Some (k, i, p) \<or> 0 < r \<and> r \<le> n' \<and> k \<noteq> AsyncCall []"
    and alone: "\<And>i' c. i' \<noteq> i \<Longrightarrow> CA i' = Some c \<Longrightarrow> caller_owns c \<noteq> Some p" "\<And>j t. TA j = Some t \<Longrightarrow> taker_owns t \<noteq> Some p"
    and wait: "\<And>i' c r. i' \<noteq> i \<Longrightarrow> CA i' = Some c \<Longrightarrow> caller_waits c = Some (r, p) \<Longrightarrow> \<not> waits_ok h TA ow r p"
    and new: "caller_ok (h(p := s)) TA (ow(p := w)) K' ans i c'" "slot_ok (h(p := s)) TA (ow(p := w)) K' ans p"
    and jobs: "\<And>x. x \<in> set jobs' \<Longrightarrow> job_ok (h(p := s)) TA (ow(p := w)) K' ans x" "distinct (map fst jobs')"
  shows "data_ok n' (h(p := s)) (CA(i \<mapsto> c')) TA (ow(p := w)) K' ans jobs'"
proof -
  have other: "caller_ok (h(p := s)) TA (ow(p := w)) K' ans i2 c" if c: "CA i2 = Some c" "i2 \<noteq> i" for i2 c
  proof (rule caller_ok_frame [OF data_okD(2) [OF D c(1)] le(1)])
    fix r q assume q: "caller_waits c = Some (r, q)" "waits_ok h TA ow r q"
    then show "waits_ok (h(p := s)) TA (ow(p := w)) r q" using wait [OF c(2,1), of r] only_has_same(1) [OF q(2)] by (cases "q = p") auto
  qed (use alone(1) [OF c(2,1)] in auto)
  have "caller_ok (h(p := s)) TA (ow(p := w)) K' ans i2 c" if "(CA(i \<mapsto> c')) i2 = Some c" for i2 c
    using that new(1) other [of i2 c] by (cases "i2 = i") simp_all
  moreover have "taker_ok (h(p := s)) K' ans t" if "TA j = Some t" for j t
    using alone(2) [OF that] by (intro taker_ok_frame [OF data_okD(3) [OF D that] le(1)]) auto
  moreover have "slot_ok (h(p := s)) TA (ow(p := w)) K' ans q" for q
    using new(2) only_has_same(2) [OF data_okD(4) [OF D, of q] _ le(1)] by (cases "q = p") auto
  moreover have "0 < r \<and> r \<le> n' \<and> k \<noteq> AsyncCall []" if "K' r = Some (k, i, p)" for r k i p
    using K' [OF that] data_okD(1) [OF D] le(2) by fastforce
  ultimately show ?thesis using jobs unfolding data_ok_def by blast
qed

text \<open>The takers that have a state stay as they are.\<close>

definition keeps :: "(nat \<Rightarrow> taker option) \<Rightarrow> (nat \<Rightarrow> taker option) \<Rightarrow> bool" where
  "keeps TA TA' \<longleftrightarrow> (\<forall>j t. TA j = Some t \<and> taker_owns t \<noteq> None \<longrightarrow> TA' j = Some t)"

lemma keeps_waits: "keeps TA TA' \<Longrightarrow> waits_ok h TA ow r q \<Longrightarrow> waits_ok h TA' ow r q"
  unfolding keeps_def waits_ok_def using completing_owns by (metis option.distinct(1))

lemma keeps_cancelling: "keeps TA TA' \<Longrightarrow> cancelling TA ow p \<Longrightarrow> cancelling TA' ow p"
  by (auto simp: keeps_def cancelling_def taker_owns_def)

lemma data_keeps:
  assumes D: "data_ok n h CA TA ow K ans jobs" and k: "keeps TA TA'" and a: "set ans \<subseteq> set ans'"
    and t: "\<And>j t. TA' j = Some t \<Longrightarrow> TA j = Some t \<or> taker_ok h K ans' t"
  shows "data_ok n h CA TA' ow K ans' jobs"
proof -
  have "caller_ok h TA' ow K ans' i c" if c: "CA i = Some c" for i c
    using keeps_waits [OF k] by (intro caller_ok_frame [OF data_okD(2) [OF D c] _ a]) auto
  moreover have "slot_ok h TA' ow K ans' p" for p
    using data_okD(4) [OF D, of p] keeps_cancelling [OF k] valid_answer_mono [OF _ a] unfolding slot_ok_def by blast
  moreover have "job_ok h TA' ow K ans' x" if "x \<in> set jobs" for x
  proof -
    have "TA' j = Some (R_Put p)" if "TA j = Some (R_Put p)" for j p using k that by (auto simp: keeps_def taker_owns_def)
    then show ?thesis using data_okD(5) [OF D that] valid_answer_mono [OF _ a] unfolding job_ok_def by (cases x) (simp, metis)
  qed
  moreover have "taker_ok h K ans' t'" if t': "TA' j = Some t'" for j t'
    using t [OF t'] taker_ok_frame [OF data_okD(3) [OF D, of j t'] _ a] by auto
  ultimately show ?thesis using D unfolding data_ok_def by blast
qed

text \<open>A goroutine moves that has no state, before or after.\<close>

lemma data_taker_idle:
  assumes "data_ok n h CA TA ow K ans jobs" "TA j = Some t" "taker_owns t = None" "taker_ok h K ans t'"
  shows "data_ok n h CA (TA(j \<mapsto> t')) ow K ans jobs"
  using assms(2-) by (intro data_keeps [OF assms(1)]) (auto simp: keeps_def split: if_splits)

lemma data_taker_new:
  assumes "data_ok n h CA TA ow K ans jobs" "TA j = None" "set ans \<subseteq> set ans'" "taker_ok h K ans' t'"
  shows "data_ok n h CA (TA(j \<mapsto> t')) ow K ans' jobs"
  using assms(2-) by (intro data_keeps [OF assms(1)]) (auto simp: keeps_def split: if_splits)

lemma data_caller_idle:
  "data_ok n h CA TA ow K ans jobs \<Longrightarrow> caller_ok h TA ow K ans i c' \<Longrightarrow> data_ok n h (CA(i \<mapsto> c')) TA ow K ans jobs"
  by (simp add: data_ok_def)

subsection \<open>The invariant of the world\<close>

definition slot_at :: "'a list \<Rightarrow> nat \<Rightarrow> 'a option" where
  "slot_at xs i = (if i < length xs then Some (xs ! i) else None)"

lemma slot_at_simps:
  "i < length xs \<Longrightarrow> slot_at (xs[i := x]) = (slot_at xs)(i \<mapsto> x)" "slot_at (xs @ [x]) = (slot_at xs)(length xs \<mapsto> x)" "slot_at [] = Map.empty"
  by (auto simp: slot_at_def fun_eq_iff nth_append)

lemma slot_at_Some: "slot_at xs i = Some x \<longleftrightarrow> i < length xs \<and> xs ! i = x"
  by (auto simp: slot_at_def)

definition buckets_ok :: "rpc_world \<Rightarrow> bool" where
  "buckets_ok w \<longleftrightarrow> (\<exists>k. rm_bucketMask w = 2 ^ k - 1 \<and> length (rm_buckets w) = 2 ^ k)"

lemma bucketIndex_less: "buckets_ok w \<Longrightarrow> bucketIndex r w < length (rm_buckets w)"
proof -
  assume "buckets_ok w"
  then obtain k where k: "rm_bucketMask w = mask k" "length (rm_buckets w) = 2 ^ k" by (auto simp: buckets_ok_def mask_eq_exp_minus_1)
  then show ?thesis by (simp add: bucketIndex_def flip: take_bit_eq_mask)
qed

definition bucket_map :: "rpc_world \<Rightarrow> nat \<Rightarrow> nat option" where
  "bucket_map w = (\<lambda>r. bucket_Get r w)"

lemma bucket_map_cong: "rm_buckets w' = rm_buckets w \<Longrightarrow> rm_bucketMask w' = rm_bucketMask w \<Longrightarrow> bucket_map w' = bucket_map w"
  by (simp add: bucket_map_def bucket_Get_def bucketIndex_def fun_eq_iff)

lemma bucket_map_Add: "buckets_ok w \<Longrightarrow> bucket_map (bucket_Add r p w) = (bucket_map w)(r \<mapsto> p)"
  using bucketIndex_less [of w r]
  by (auto simp: bucket_map_def bucket_Get_def bucket_Add_def bucketIndex_def fun_eq_iff nth_list_update update_conv')

lemma bucket_map_Del: "buckets_ok w \<Longrightarrow> bucket_map (snd (bucket_Del r w)) = (bucket_map w)(r := None)"
  using bucketIndex_less [of w r]
  by (auto simp: bucket_map_def bucket_Get_def bucket_Del_def bucketIndex_def fun_eq_iff nth_list_update delete_conv')

definition caller_claims :: "(nat \<Rightarrow> caller option) \<Rightarrow> nat \<Rightarrow> nat option" where
  "caller_claims CA = (\<lambda>i. Option.bind (CA i) caller_owns)"

definition taker_claims :: "(nat \<Rightarrow> taker option) \<Rightarrow> nat \<Rightarrow> nat option" where
  "taker_claims TA = (\<lambda>j. Option.bind (TA j) taker_owns)"

lemma claims_upd:
  "caller_claims (CA(i \<mapsto> c)) = (caller_claims CA)(i := caller_owns c)" "taker_claims (TA(j \<mapsto> t)) = (taker_claims TA)(j := taker_owns t)"
  by (auto simp: caller_claims_def taker_claims_def)

lemma claims_at:
  "CA i = Some c \<Longrightarrow> caller_claims CA i = caller_owns c" "TA j = Some t \<Longrightarrow> taker_claims TA j = taker_owns t"
  "CA i = None \<Longrightarrow> caller_claims CA i = None" "TA j = None \<Longrightarrow> taker_claims TA j = None"
  by (simp_all add: caller_claims_def taker_claims_def)

definition heap_fun :: "(nat \<Rightarrow> call_state option) \<Rightarrow> nat \<Rightarrow> call_state" where
  "heap_fun H = (\<lambda>p. the (H p))"

lemma heap_fun_upd: "heap_fun (H(p \<mapsto> s)) = (heap_fun H)(p := s)"
  by (auto simp: heap_fun_def)

text \<open>The invariant, over the parts of the world it depends on.\<close>

definition parts_ok :: "nat \<Rightarrow> nat list \<Rightarrow> (nat \<Rightarrow> call_state option) \<Rightarrow> (nat \<Rightarrow> nat option) \<Rightarrow> (nat \<Rightarrow> caller option) \<Rightarrow> (nat \<Rightarrow> taker option)
    \<Rightarrow> (nat \<times> answer) list \<Rightarrow> (nat \<times> nat list \<times> answer) list \<Rightarrow> (nat \<Rightarrow> owner) \<Rightarrow> req_map \<Rightarrow> bool" where
  "parts_ok n pool H B CA TA ans jobs ow K \<longleftrightarrow>
     owners pool H B (caller_claims CA) (taker_claims TA) ow \<and> data_ok n (heap_fun H) CA TA ow K ans jobs"

definition rpc_inv :: "rpc_world \<Rightarrow> (nat \<Rightarrow> owner) \<Rightarrow> req_map \<Rightarrow> bool" where
  "rpc_inv w ow K \<longleftrightarrow> buckets_ok w \<and>
     parts_ok (rm_seq w) (cs_pool w) (slot_at (cs_heap w)) (bucket_map w) (slot_at (callers w)) (slot_at (takers w)) (answers w) (posted w) ow K"

subsection \<open>The moves\<close>

lemma parts_state: "parts_ok n pool H B CA TA ans jobs ow K \<Longrightarrow> in_use (ow p) \<or> ow p = O_Free \<Longrightarrow> \<exists>s. H p = Some s"
  using owners_at(5) [of pool H B "caller_claims CA" "taker_claims TA" ow p] by (cases "H p") (auto simp: parts_ok_def in_use_def)

text \<open>A caller that waits for a state made a synchronous call, whose state it is.\<close>

lemma waiting_caller:
  assumes "data_ok n h CA TA ow K ans jobs" "CA i = Some c" "caller_waits c = Some (r, p)"
  shows "K r = Some (SyncCall, i, p) \<and> waits_ok h TA ow r p"
  using data_okD(2) [OF assms(1,2)] assms(3) by (cases c) (auto simp: caller_ok_def caller_waits_def split: call_kind.splits)

lemma no_waiting_async:
  assumes "data_ok n h CA TA ow K ans jobs" "CA i = Some c" "caller_waits c = Some (r, p)" "async_req K (cs_reqID (h p))"
  shows False
  using waiting_caller [OF assms(1-3)] assms(4) by (auto simp: waits_ok_def async_req_def)

lemma taker_alone:
  assumes "owners pool H B (caller_claims CA) (taker_claims TA) ow" "ow p = O_Taker j \<or> ow p = O_Bucket r"
  shows "CA i = Some c \<Longrightarrow> caller_owns c \<noteq> Some p" "j' \<noteq> j \<Longrightarrow> TA j' = Some t' \<Longrightarrow> taker_owns t' \<noteq> Some p"
  using owners_at(2,4) [OF assms(1), of _ p] assms(2) claims_at by (metis owner.distinct owner.inject)+

lemma move_take:
  assumes P: "parts_ok n pool H B CA TA ans jobs ow K" and t: "TA j = Some t" "taker_owns t = None" and p: "B r = Some p" "H p = Some s"
    and s': "cs_done s' = cs_done s" "cs_ref s' = cs_ref s" "cs_reqID s' = cs_reqID s" "cs_callbacks s' = cs_callbacks s \<or> t' = X_Put p"
    and t': "taker_owns t' = Some p" "completing p t' \<or> async_req K r" "taker_ok ((heap_fun H)(p := s')) K ans t'" "t' \<noteq> R_Put p"
  shows "parts_ok n pool (H(p \<mapsto> s')) (B(r := None)) CA (TA(j \<mapsto> t')) ans jobs (ow(p := O_Taker j)) K"
proof -
  have o: "owners pool H B (caller_claims CA) (taker_claims TA) ow" and d: "data_ok n (heap_fun H) CA TA ow K ans jobs"
    using P by (auto simp: parts_ok_def)
  have owp: "ow p = O_Bucket r" using owners_at(3) [OF o] p(1) by simp
  have slot: "slot_ok (heap_fun H) TA ow K ans p" by (rule data_okD(4) [OF d])
  have h: "heap_fun H p = s" using p(2) by (simp add: heap_fun_def)
  have req: "cs_reqID s = r" using slot owp h by (auto simp: slot_ok_def in_use_def)
  have "owners pool (H(p \<mapsto> s')) (B(r := None)) (caller_claims CA) ((taker_claims TA)(j \<mapsto> p)) (ow(p := O_Taker j))"
    using o t p s'(1,2) by (intro owners_take) (auto simp: claims_at)
  moreover have "data_ok n ((heap_fun H)(p := s')) CA (TA(j \<mapsto> t')) (ow(p := O_Taker j)) K ans jobs"
  proof (rule data_taker [OF d t(1)])
    show "only_has TA j p" using t by (auto simp: only_has_def)
    show "caller_owns c \<noteq> Some p" if "CA i = Some c" for i c using taker_alone(1) [OF o _ that] owp by blast
    show "taker_owns t'' \<noteq> Some p" if "j' \<noteq> j" "TA j' = Some t''" for j' t'' using taker_alone(2) [OF o _ that] owp by blast
    show "waits_ok ((heap_fun H)(p := s')) (TA(j \<mapsto> t')) (ow(p := O_Taker j)) r' p"
      if "CA i = Some c" "caller_waits c = Some (r', p)" "waits_ok (heap_fun H) TA ow r' p" for i c r'
      using that t'(2) no_waiting_async [OF d that(1,2)] req h s'(3) by (auto simp: waits_ok_def)
    show "slot_ok ((heap_fun H)(p := s')) (TA(j \<mapsto> t')) (ow(p := O_Taker j)) K ans p"
      using slot owp h s'(3,4) by (auto simp: slot_ok_def in_use_def cancelling_def)
    show "job_ok ((heap_fun H)(p := s')) (TA(j \<mapsto> t')) (ow(p := O_Taker j)) K ans x" if x: "x \<in> set jobs" for x
    proof (cases x)
      case (fields r' cbs a)
      show ?thesis using data_okD(5) [OF d x] owp h s'(3) \<open>only_has TA j p\<close> unfolding fields
        by (intro job_ok_frame) (auto simp: in_use_def)
    qed
  qed (use t'(3) data_okD(6) [OF d] in auto)
  ultimately show ?thesis using t'(1) by (simp add: parts_ok_def claims_upd heap_fun_upd)
qed

text \<open>The taker that has a state writes it, posts its callbacks, or gives it up.\<close>

lemma taker_has:
  assumes "parts_ok n pool H B CA TA ans jobs ow K" "TA j = Some t" "taker_owns t = Some p"
  shows "ow p = O_Taker j" "only_has TA j p" "H p = Some (heap_fun H p)" "cs_ref (heap_fun H p)" "\<not> cs_done (heap_fun H p)"
    "\<And>i c. CA i = Some c \<Longrightarrow> caller_owns c \<noteq> Some p" "\<And>j' t'. j' \<noteq> j \<Longrightarrow> TA j' = Some t' \<Longrightarrow> taker_owns t' \<noteq> Some p"
    "slot_ok (heap_fun H) TA ow K ans p" "taker_ok (heap_fun H) K ans t"
proof -
  have o: "owners pool H B (caller_claims CA) (taker_claims TA) ow" and d: "data_ok n (heap_fun H) CA TA ow K ans jobs"
    using assms(1) by (auto simp: parts_ok_def)
  show owp: "ow p = O_Taker j" using owners_at(4) [OF o] assms(2,3) by (metis claims_at(2))
  show "only_has TA j p" using assms(2,3) by (simp add: only_has_def)
  show h: "H p = Some (heap_fun H p)" using parts_state [OF assms(1), of p] owp by (auto simp: in_use_def heap_fun_def)
  show "cs_ref (heap_fun H p)" "\<not> cs_done (heap_fun H p)" using owners_flags [OF o h] owp by auto
  show "caller_owns c \<noteq> Some p" if "CA i = Some c" for i c using taker_alone(1) [OF o _ that] owp by blast
  show "taker_owns t' \<noteq> Some p" if "j' \<noteq> j" "TA j' = Some t'" for j' t' using taker_alone(2) [OF o _ that] owp by blast
  show "slot_ok (heap_fun H) TA ow K ans p" by (rule data_okD(4) [OF d])
  show "taker_ok (heap_fun H) K ans t" by (rule data_okD(3) [OF d assms(2)])
qed

lemma job_not_posted:
  assumes "parts_ok n pool H B CA TA ans jobs ow K" "TA j = Some t" "taker_owns t = Some p" "t \<noteq> R_Put p" "r = cs_reqID (heap_fun H p)"
  shows "r \<notin> fst ` set jobs"
proof
  note T = taker_has [OF assms(1-3)]
  have d: "data_ok n (heap_fun H) CA TA ow K ans jobs" using assms(1) by (simp add: parts_ok_def)
  assume "r \<in> fst ` set jobs"
  then obtain cbs a where "(r, cbs, a) \<in> set jobs" by auto
  from data_okD(5) [OF d this] obtain i q cbs where q: "K r = Some (AsyncCall cbs, i, q)"
    "in_use (ow q) \<and> cs_reqID (heap_fun H q) = r \<longrightarrow> (\<exists>j. ow q = O_Taker j \<and> TA j = Some (R_Put q))" by (auto simp: job_ok_def)
  have "q = p" using T(1,8) q(1) assms(5) by (auto simp: slot_ok_def in_use_def)
  then show False using q(2) T(1) assms(2,4,5) by (auto simp: in_use_def)
qed

lemma move_write:
  assumes P: "parts_ok n pool H B CA TA ans jobs ow K" and t: "TA j = Some t" "taker_owns t = Some p" "completing p t" "completing p t'"
    and t': "taker_ok ((heap_fun H)(p := (heap_fun H p) \<lparr> cs_result := a \<rparr>)) K ans t'"
  shows "parts_ok n pool (H(p \<mapsto> (heap_fun H p) \<lparr> cs_result := a \<rparr>)) B CA (TA(j \<mapsto> t')) ans jobs ow K"
proof -
  note T = taker_has [OF P t(1,2)]
  let ?s = "(heap_fun H p) \<lparr> cs_result := a \<rparr>"
  have o: "owners pool H B (caller_claims CA) (taker_claims TA) ow" and d: "data_ok n (heap_fun H) CA TA ow K ans jobs"
    using P by (auto simp: parts_ok_def)
  have "owners pool (H(p \<mapsto> ?s)) B (caller_claims CA) ((taker_claims TA)(j := taker_owns t')) ow"
    using owners_state [OF o T(3), of ?s] completing_owns [OF t(4)] t(1,2) by (simp add: claims_at fun_upd_idem)
  moreover have "data_ok n ((heap_fun H)(p := ?s)) CA (TA(j \<mapsto> t')) (ow(p := ow p)) K ans jobs"
  proof (rule data_taker [OF d t(1) T(2,6,7)])
    show "waits_ok ((heap_fun H)(p := ?s)) (TA(j \<mapsto> t')) (ow(p := ow p)) r p" if "waits_ok (heap_fun H) TA ow r p" for r
      using that T(1) t(4) by (auto simp: waits_ok_def)
    show "slot_ok ((heap_fun H)(p := ?s)) (TA(j \<mapsto> t')) (ow(p := ow p)) K ans p"
      using T(1,8) t by (auto simp: slot_ok_def in_use_def cancelling_def completing_def)
    show "job_ok ((heap_fun H)(p := ?s)) (TA(j \<mapsto> t')) (ow(p := ow p)) K ans x" if x: "x \<in> set jobs" for x
    proof (cases x)
      case (fields r' cbs a')
      have "r' \<noteq> cs_reqID (heap_fun H p)" using job_not_posted [OF P t(1,2) _ refl] t(3) x fields by (force simp: completing_def)
      then show ?thesis using data_okD(5) [OF d x] T(2) unfolding fields by (intro job_ok_frame) auto
    qed
  qed (use t' data_okD(6) [OF d] in auto)
  ultimately show ?thesis by (simp add: parts_ok_def claims_upd heap_fun_upd)
qed

lemma move_done:
  assumes P: "parts_ok n pool H B CA TA ans jobs ow K" and t: "TA j = Some t" "taker_owns t = Some p" "completing p t"
    and v: "valid_answer ans (cs_reqID (heap_fun H p)) (cs_result (heap_fun H p))"
  shows "parts_ok n pool (H(p \<mapsto> (heap_fun H p) \<lparr> cs_done := True \<rparr>)) B CA (TA(j \<mapsto> T_End)) ans jobs (ow(p := O_Done)) K"
proof -
  note T = taker_has [OF P t(1,2)]
  let ?s = "(heap_fun H p) \<lparr> cs_done := True \<rparr>"
  have o: "owners pool H B (caller_claims CA) (taker_claims TA) ow" and d: "data_ok n (heap_fun H) CA TA ow K ans jobs"
    using P by (auto simp: parts_ok_def)
  have "owners pool (H(p \<mapsto> ?s)) B (caller_claims CA) ((taker_claims TA)(j := None)) (ow(p := O_Done))"
    using o T(4) t by (intro owners_done_taker) (auto simp: claims_at)
  moreover have "data_ok n ((heap_fun H)(p := ?s)) CA (TA(j \<mapsto> T_End)) (ow(p := O_Done)) K ans jobs"
  proof (rule data_taker [OF d t(1) T(2,6,7)])
    show "waits_ok ((heap_fun H)(p := ?s)) (TA(j \<mapsto> T_End)) (ow(p := O_Done)) r p" if "waits_ok (heap_fun H) TA ow r p" for r
      using that by (auto simp: waits_ok_def)
    show "slot_ok ((heap_fun H)(p := ?s)) (TA(j \<mapsto> T_End)) (ow(p := O_Done)) K ans p"
      using T(1,8) t v by (auto simp: slot_ok_def in_use_def cancelling_def completing_def)
    show "job_ok ((heap_fun H)(p := ?s)) (TA(j \<mapsto> T_End)) (ow(p := O_Done)) K ans x" if x: "x \<in> set jobs" for x
    proof (cases x)
      case (fields r' cbs a')
      have "r' \<noteq> cs_reqID (heap_fun H p)" using job_not_posted [OF P t(1,2) _ refl] t(3) x fields by (force simp: completing_def)
      then show ?thesis using data_okD(5) [OF d x] T(2) unfolding fields by (intro job_ok_frame) auto
    qed
  qed (use data_okD(6) [OF d] in \<open>auto simp: taker_ok_def\<close>)
  ultimately show ?thesis by (simp add: parts_ok_def claims_upd heap_fun_upd taker_owns_def)
qed

lemma move_put:
  assumes P: "parts_ok n pool H B CA TA ans jobs ow K" and t: "TA j = Some t" "taker_owns t = Some p"
    and a: "async_req K (cs_reqID (heap_fun H p))" and s: "\<not> cs_done s" "\<not> cs_ref s"
    and jobs': "jobs' = jobs \<or> t \<noteq> R_Put p \<and> (\<exists>a. jobs' = (cs_reqID (heap_fun H p), cs_callbacks (heap_fun H p), a) # jobs
        \<and> valid_answer ans (cs_reqID (heap_fun H p)) a \<and> t \<noteq> X_Put p)"
  shows "parts_ok n (p # pool) (H(p \<mapsto> s)) B CA (TA(j \<mapsto> T_End)) ans jobs' (ow(p := O_Free)) K"
proof -
  note T = taker_has [OF P t]
  have o: "owners pool H B (caller_claims CA) (taker_claims TA) ow" and d: "data_ok n (heap_fun H) CA TA ow K ans jobs"
    using P by (auto simp: parts_ok_def)
  have "owners (p # pool) (H(p \<mapsto> s)) B (caller_claims CA) ((taker_claims TA)(j := None)) (ow(p := O_Free))"
    using o s t by (intro owners_put_taker) (auto simp: claims_at)
  moreover have "data_ok n ((heap_fun H)(p := s)) CA (TA(j \<mapsto> T_End)) (ow(p := O_Free)) K ans jobs'"
  proof (rule data_taker [OF d t(1) T(2,6,7)])
    show "waits_ok ((heap_fun H)(p := s)) (TA(j \<mapsto> T_End)) (ow(p := O_Free)) r p" if "CA i = Some c" "caller_waits c = Some (r, p)" for i c r
      using no_waiting_async [OF d that a] by blast
    show "slot_ok ((heap_fun H)(p := s)) (TA(j \<mapsto> T_End)) (ow(p := O_Free)) K ans p" by (simp add: slot_ok_def in_use_def)
    have old: "job_ok ((heap_fun H)(p := s)) (TA(j \<mapsto> T_End)) (ow(p := O_Free)) K ans x" if x: "x \<in> set jobs" for x
      using data_okD(5) [OF d x] T(2) by (cases x) (auto intro!: job_ok_frame simp: in_use_def)
    have new: "job_ok ((heap_fun H)(p := s)) (TA(j \<mapsto> T_End)) (ow(p := O_Free)) K ans (cs_reqID (heap_fun H p), cs_callbacks (heap_fun H p), a)"
      if "valid_answer ans (cs_reqID (heap_fun H p)) a" "t \<noteq> X_Put p" for a
      using T(1,8) t that assms(4) by (auto simp: job_ok_def slot_ok_def in_use_def cancelling_def async_req_def kind_callbacks_def)
    show "job_ok ((heap_fun H)(p := s)) (TA(j \<mapsto> T_End)) (ow(p := O_Free)) K ans x" if "x \<in> set jobs'" for x
      using that jobs' old new by (metis empty_iff insert_iff list.simps(15))
    show "distinct (map fst jobs')" using jobs' data_okD(6) [OF d] job_not_posted [OF P t _ refl] by auto
  qed (auto simp: taker_ok_def)
  ultimately show ?thesis by (simp add: parts_ok_def claims_upd heap_fun_upd taker_owns_def)
qed

lemma move_post:
  assumes P: "parts_ok n pool H B CA TA ans jobs ow K" and t: "TA j = Some (R_Post r p a)"
    and jobs': "jobs' \<in> {jobs, (r, cs_callbacks (heap_fun H p), a) # jobs}"
  shows "parts_ok n pool H B CA (TA(j \<mapsto> R_Put p)) ans jobs' ow K"
proof -
  have own: "taker_owns (R_Post r p a) = Some p" by (simp add: taker_owns_def)
  note T = taker_has [OF P t own]
  have o: "owners pool H B (caller_claims CA) (taker_claims TA) ow" and d: "data_ok n (heap_fun H) CA TA ow K ans jobs"
    using P by (auto simp: parts_ok_def)
  have ok: "cs_reqID (heap_fun H p) = r" "(r, a) \<in> set ans" "async_req K r" using T(9) by (auto simp: taker_ok_def)
  have "owners pool H B (caller_claims CA) ((taker_claims TA)(j := Some p)) ow" using o t own by (simp add: claims_at fun_upd_idem)
  moreover have "data_ok n ((heap_fun H)(p := heap_fun H p)) CA (TA(j \<mapsto> R_Put p)) (ow(p := ow p)) K ans jobs'"
  proof (rule data_taker [OF d t T(2,6,7)])
    show "waits_ok ((heap_fun H)(p := heap_fun H p)) (TA(j \<mapsto> R_Put p)) (ow(p := ow p)) r' p" if "CA i = Some c" "caller_waits c = Some (r', p)" for i c r'
      using no_waiting_async [OF d that] ok by blast
    show "slot_ok ((heap_fun H)(p := heap_fun H p)) (TA(j \<mapsto> R_Put p)) (ow(p := ow p)) K ans p"
      using T(1,8) t by (auto simp: slot_ok_def in_use_def cancelling_def)
    have old: "job_ok ((heap_fun H)(p := heap_fun H p)) (TA(j \<mapsto> R_Put p)) (ow(p := ow p)) K ans x" if x: "x \<in> set jobs" for x
    proof (cases x)
      case (fields r' cbs a')
      show ?thesis using data_okD(5) [OF d x] T(1,2) unfolding fields by (intro job_ok_frame) auto
    qed
    have new: "job_ok ((heap_fun H)(p := heap_fun H p)) (TA(j \<mapsto> R_Put p)) (ow(p := ow p)) K ans (r, cs_callbacks (heap_fun H p), a)"
      using T(1,8) t ok by (auto simp: job_ok_def slot_ok_def in_use_def cancelling_def async_req_def kind_callbacks_def valid_answer_def)
    show "job_ok ((heap_fun H)(p := heap_fun H p)) (TA(j \<mapsto> R_Put p)) (ow(p := ow p)) K ans x" if "x \<in> set jobs'" for x
      using that jobs' old new by (metis empty_iff insert_iff list.simps(15))
    show "distinct (map fst jobs')" using jobs' data_okD(6) [OF d] job_not_posted [OF P t own] ok(1) by auto
  qed (use ok in \<open>auto simp: taker_ok_def\<close>)
  ultimately show ?thesis by (simp add: parts_ok_def claims_upd taker_owns_def)
qed

subsection \<open>Every step keeps the invariant\<close>

lemma buckets_ok_upd: "buckets_ok w \<Longrightarrow> length bs = length (rm_buckets w) \<Longrightarrow> buckets_ok (w \<lparr> rm_buckets := bs \<rparr>)"
  by (simp add: buckets_ok_def)

text \<open>The effect of a removal, whether the timer is cancelled or not.\<close>

definition removed :: "rpc_world \<Rightarrow> nat \<Rightarrow> nat option \<Rightarrow> rpc_world \<Rightarrow> bool" where
  "removed w r x w1 \<longleftrightarrow> (\<exists>bs ts. w1 = w \<lparr> rm_buckets := bs, sd_timers := ts \<rparr> \<and> length bs = length (rm_buckets w))
     \<and> bucket_map w1 = (if x = None then bucket_map w else (bucket_map w)(r := None)) \<and> (x \<noteq> None \<longrightarrow> bucket_map w r = x)"

lemma removedI:
  "w1 = w \<lparr> rm_buckets := bs, sd_timers := ts \<rparr> \<Longrightarrow> length bs = length (rm_buckets w)
    \<Longrightarrow> bucket_map w1 = (if x = None then bucket_map w else (bucket_map w)(r := None)) \<Longrightarrow> (x \<noteq> None \<longrightarrow> bucket_map w r = x) \<Longrightarrow> removed w r x w1"
  unfolding removed_def by blast

lemma removed_timers:
  assumes "removed w r x w1"
  shows "removed w r x (w1 \<lparr> sd_timers := ts \<rparr>)"
proof -
  obtain bs ts' where w1: "w1 = w \<lparr> rm_buckets := bs, sd_timers := ts' \<rparr>" "length bs = length (rm_buckets w)" using assms by (auto simp: removed_def)
  have "bucket_map (w1 \<lparr> sd_timers := ts \<rparr>) = bucket_map w1" by (rule bucket_map_cong) simp_all
  then show ?thesis using assms w1 by (intro removedI [where bs = bs and ts = ts]) (simp_all add: removed_def)
qed

lemma monitor_remove_removed:
  assumes "buckets_ok w" "monitor_remove r w = (x, w1)"
  shows "removed w r x w1"
proof (cases "rm_closed w \<or> r = 0")
  case True
  then show ?thesis using assms(2) by (intro removedI [where bs = "rm_buckets w" and ts = "sd_timers w"]) (auto simp: monitor_remove_def)
next
  case False
  then have x: "x = bucket_map w r" "w1 = snd (bucket_Del r w)" using assms(2) by (auto simp: monitor_remove_def bucket_Del_def bucket_map_def)
  let ?bs = "(rm_buckets w)[bucketIndex r w := gm_del (rm_buckets w ! bucketIndex r w) r]"
  have "snd (bucket_Del r w) = w \<lparr> rm_buckets := ?bs, sd_timers := sd_timers w \<rparr>" by (simp add: bucket_Del_def)
  then show ?thesis using x bucket_map_Del [OF assms(1), of r]
    by (intro removedI [where bs = ?bs and ts = "sd_timers w"]) (auto simp: fun_upd_idem_iff)
qed

lemma monitor_Remove_removed:
  assumes "buckets_ok w" "monitor_Remove r w = (x, w1)"
  shows "removed w r x w1"
proof -
  obtain y w2 where y: "monitor_remove r w = (y, w2)" by (cases "monitor_remove r w") auto
  have "x = y \<and> (w1 = w2 \<or> (\<exists>ts. w1 = w2 \<lparr> sd_timers := ts \<rparr>))"
    using assms(2) y by (auto simp: monitor_Remove_def CancelTimer_def split: option.splits if_splits)
  then show ?thesis using monitor_remove_removed [OF assms(1) y] removed_timers by auto
qed

definition inv_with :: "rpc_world \<Rightarrow> req_map \<Rightarrow> bool" where
  "inv_with w K \<longleftrightarrow> (\<exists>ow. rpc_inv w ow K)"

lemma inv_withI:
  assumes "parts_ok n pool H B CA TA ans jobs ow K" "buckets_ok w" "rm_seq w = n" "cs_pool w = pool" "slot_at (cs_heap w) = H" "bucket_map w = B"
    "slot_at (callers w) = CA" "slot_at (takers w) = TA" "answers w = ans" "posted w = jobs"
  shows "inv_with w K"
  using assms by (auto simp: inv_with_def rpc_inv_def)

lemma rpc_invD:
  assumes "rpc_inv w ow K"
  shows "buckets_ok w" "parts_ok (rm_seq w) (cs_pool w) (slot_at (cs_heap w)) (bucket_map w) (slot_at (callers w)) (slot_at (takers w)) (answers w) (posted w) ow K"
  using assms by (simp_all add: rpc_inv_def)

lemma bucket_map_same [simp]:
  "bucket_map (w \<lparr> takers := ts \<rparr>) = bucket_map w" "bucket_map (w \<lparr> callers := cs \<rparr>) = bucket_map w" "bucket_map (w \<lparr> cs_heap := hp \<rparr>) = bucket_map w"
  "bucket_map (w \<lparr> cs_pool := pl \<rparr>) = bucket_map w" "bucket_map (w \<lparr> posted := js \<rparr>) = bucket_map w" "bucket_map (w \<lparr> sd_timers := tm \<rparr>) = bucket_map w"
  "bucket_map (w \<lparr> sd_next := n \<rparr>) = bucket_map w" "bucket_map (w \<lparr> requests := rq \<rparr>) = bucket_map w" "bucket_map (w \<lparr> answers := an \<rparr>) = bucket_map w"
  "bucket_map (w \<lparr> rm_seq := n \<rparr>) = bucket_map w" "bucket_map (w \<lparr> rm_closed := b \<rparr>) = bucket_map w"
  by (rule bucket_map_cong; simp)+

lemma buckets_ok_same [simp]:
  "buckets_ok (w \<lparr> takers := ts \<rparr>) = buckets_ok w" "buckets_ok (w \<lparr> callers := cs \<rparr>) = buckets_ok w" "buckets_ok (w \<lparr> cs_heap := hp \<rparr>) = buckets_ok w"
  "buckets_ok (w \<lparr> cs_pool := pl \<rparr>) = buckets_ok w" "buckets_ok (w \<lparr> posted := js \<rparr>) = buckets_ok w" "buckets_ok (w \<lparr> sd_timers := tm \<rparr>) = buckets_ok w"
  "buckets_ok (w \<lparr> sd_next := n \<rparr>) = buckets_ok w" "buckets_ok (w \<lparr> requests := rq \<rparr>) = buckets_ok w" "buckets_ok (w \<lparr> answers := an \<rparr>) = buckets_ok w"
  "buckets_ok (w \<lparr> rm_seq := n \<rparr>) = buckets_ok w" "buckets_ok (w \<lparr> rm_closed := b \<rparr>) = buckets_ok w"
  by (simp_all add: buckets_ok_def)

text \<open>A step of a taker that finds nothing.\<close>

lemma inv_taker_end:
  assumes "rpc_inv w ow K" "slot_at (takers w) j = Some t" "taker_owns t = None"
    and "removed w r None w1"
  shows "inv_with (w1 \<lparr> takers := (takers w1)[j := T_End] \<rparr>) K"
proof (rule inv_withI)
  show "parts_ok (rm_seq w) (cs_pool w) (slot_at (cs_heap w)) (bucket_map w) (slot_at (callers w)) ((slot_at (takers w))(j \<mapsto> T_End)) (answers w) (posted w) ow K"
    using rpc_invD(2) [OF assms(1)] assms(2,3) data_taker_idle
    by (auto simp: parts_ok_def claims_upd claims_at fun_upd_idem taker_ok_def taker_owns_def)
qed (use assms rpc_invD(1) [OF assms(1)] in \<open>auto simp: removed_def buckets_ok_def slot_at_simps slot_at_Some\<close>)

text \<open>A step of a taker that takes the state of its request.\<close>

lemma inv_taker_take:
  assumes "rpc_inv w ow K" "slot_at (takers w) j = Some t" "taker_owns t = None" and w1: "removed w r (Some p) w1"
    and s': "cs_done s' = cs_done (cs_heap w ! p)" "cs_ref s' = cs_ref (cs_heap w ! p)" "cs_reqID s' = cs_reqID (cs_heap w ! p)"
      "cs_callbacks s' = cs_callbacks (cs_heap w ! p) \<or> t' = X_Put p"
    and t': "taker_owns t' = Some p" "completing p t' \<or> async_req K r" "taker_ok ((heap_fun (slot_at (cs_heap w)))(p := s')) K (answers w) t'" "t' \<noteq> R_Put p"
  shows "inv_with (w1 \<lparr> cs_heap := (cs_heap w1)[p := s'], takers := (takers w1)[j := t'] \<rparr>) K"
proof (rule inv_withI)
  note P = rpc_invD(2) [OF assms(1)]
  have B: "bucket_map w r = Some p" using w1 by (simp add: removed_def)
  have "ow p = O_Bucket r" using P B owners_at(3) by (auto simp: parts_ok_def)
  then obtain s where s: "slot_at (cs_heap w) p = Some s" using parts_state [OF P, of p] by (auto simp: in_use_def)
  then have p: "p < length (cs_heap w)" "s = cs_heap w ! p" by (auto simp: slot_at_Some)
  show "parts_ok (rm_seq w) (cs_pool w) ((slot_at (cs_heap w))(p \<mapsto> s')) ((bucket_map w)(r := None)) (slot_at (callers w)) ((slot_at (takers w))(j \<mapsto> t'))
      (answers w) (posted w) (ow(p := O_Taker j)) K"
    using s' t' by (intro move_take [OF P assms(2,3) B s]) (auto simp: p(2))
  show "slot_at (cs_heap (w1 \<lparr> cs_heap := (cs_heap w1)[p := s'], takers := (takers w1)[j := t'] \<rparr>)) = (slot_at (cs_heap w))(p \<mapsto> s')"
    using p w1 by (auto simp: removed_def slot_at_simps)
qed (use assms rpc_invD(1) [OF assms(1)] in \<open>auto simp: removed_def buckets_ok_def slot_at_simps slot_at_Some\<close>)

text \<open>Completing a state, by the taker that has it.\<close>

lemma heap_fun_at: "slot_at hp p = Some s \<Longrightarrow> heap_fun (slot_at hp) p = hp ! p \<and> p < length hp"
  by (auto simp: heap_fun_def slot_at_def split: if_splits)

lemma inv_complete:
  assumes "rpc_inv w ow K" "slot_at (takers w) j = Some t" "t = T_Complete p \<or> t = R_Complete p"
  shows "inv_with ((CallState_Complete p w) \<lparr> takers := (takers (CallState_Complete p w))[j := T_End] \<rparr>) K"
proof -
  note P = rpc_invD(2) [OF assms(1)]
  have own: "taker_owns t = Some p" "completing p t" using assms(3) by (auto simp: taker_owns_def completing_def)
  note T = taker_has [OF P assms(2) own(1)]
  have h: "heap_fun (slot_at (cs_heap w)) p = cs_heap w ! p" "p < length (cs_heap w)" using heap_fun_at [OF T(3)] by auto
  have v: "valid_answer (answers w) (cs_reqID (cs_heap w ! p)) (cs_result (cs_heap w ! p))" using T(9) assms(3) h by (auto simp: taker_ok_def)
  have j: "j < length (takers w)" using assms(2) by (simp add: slot_at_Some)
  show ?thesis
  proof (cases "NeedCallback (cs_heap w ! p)")
    case False
    have "parts_ok (rm_seq w) (cs_pool w) ((slot_at (cs_heap w))(p \<mapsto> (cs_heap w ! p) \<lparr> cs_done := True \<rparr>)) (bucket_map w) (slot_at (callers w))
        ((slot_at (takers w))(j \<mapsto> T_End)) (answers w) (posted w) (ow(p := O_Done)) K"
      using move_done [OF P assms(2) own] v h by simp
    from inv_withI [OF this] show ?thesis using False rpc_invD(1) [OF assms(1)] h j
      by (simp add: CallState_Complete_def signalDone_def slot_at_simps)
  next
    case True
    let ?s = "(cs_Reset (cs_heap w ! p)) \<lparr> cs_ref := False \<rparr>"
    obtain k i where "K (cs_reqID (cs_heap w ! p)) = Some (k, i, p)" "cs_callbacks (cs_heap w ! p) = kind_callbacks k"
      using T(1,8) assms(2,3) h by (auto simp: slot_ok_def in_use_def cancelling_def)
    then have "async_req K (cs_reqID (cs_heap w ! p))" using True by (cases k) (auto simp: async_req_def NeedCallback_def kind_callbacks_def)
    then have "parts_ok (rm_seq w) (p # cs_pool w) ((slot_at (cs_heap w))(p \<mapsto> ?s)) (bucket_map w) (slot_at (callers w))
        ((slot_at (takers w))(j \<mapsto> T_End)) (answers w) ((cs_reqID (cs_heap w ! p), cs_callbacks (cs_heap w ! p), cs_result (cs_heap w ! p)) # posted w) (ow(p := O_Free)) K"
      using v assms(3) h by (intro move_put [OF P assms(2) own(1)]) (auto simp: cs_Reset_def)
    from inv_withI [OF this] show ?thesis using True T(4) rpc_invD(1) [OF assms(1)] h j
      by (simp add: CallState_Complete_def cs_Put_def slot_at_simps Let_def)
  qed
qed

lemma inv_put:
  assumes "rpc_inv w ow K" "slot_at (takers w) j = Some t" "t = R_Put p \<or> t = X_Put p"
  shows "inv_with ((cs_Put p w) \<lparr> takers := (takers (cs_Put p w))[j := T_End] \<rparr>) K"
proof -
  note P = rpc_invD(2) [OF assms(1)]
  have own: "taker_owns t = Some p" using assms(3) by (auto simp: taker_owns_def)
  note T = taker_has [OF P assms(2) own]
  have h: "heap_fun (slot_at (cs_heap w)) p = cs_heap w ! p" "p < length (cs_heap w)" using heap_fun_at [OF T(3)] by auto
  have j: "j < length (takers w)" using assms(2) by (simp add: slot_at_Some)
  have "parts_ok (rm_seq w) (p # cs_pool w) ((slot_at (cs_heap w))(p \<mapsto> (cs_Reset (cs_heap w ! p)) \<lparr> cs_ref := False \<rparr>)) (bucket_map w) (slot_at (callers w))
      ((slot_at (takers w))(j \<mapsto> T_End)) (answers w) (posted w) (ow(p := O_Free)) K"
    using T(9) assms(3) h by (intro move_put [OF P assms(2) own]) (auto simp: cs_Reset_def taker_ok_def)
  from inv_withI [OF this] show ?thesis using T(4) rpc_invD(1) [OF assms(1)] h j by (simp add: cs_Put_def slot_at_simps)
qed

lemma inv_write:
  assumes "rpc_inv w ow K" "slot_at (takers w) j = Some t" "t = T_Set p \<and> t' = T_Complete p \<and> a = (0, Some ErrRPCCallTimeout) \<or> t = R_Set p a \<and> t' = R_Complete p"
  shows "inv_with ((SetResult p a w) \<lparr> takers := (takers (SetResult p a w))[j := t'] \<rparr>) K"
proof -
  note P = rpc_invD(2) [OF assms(1)]
  have own: "taker_owns t = Some p" "completing p t" "completing p t'" using assms(3) by (auto simp: taker_owns_def completing_def)
  note T = taker_has [OF P assms(2) own(1)]
  have h: "heap_fun (slot_at (cs_heap w)) p = cs_heap w ! p" "p < length (cs_heap w)" using heap_fun_at [OF T(3)] by auto
  have j: "j < length (takers w)" using assms(2) by (simp add: slot_at_Some)
  have "parts_ok (rm_seq w) (cs_pool w) ((slot_at (cs_heap w))(p \<mapsto> (cs_heap w ! p) \<lparr> cs_result := a \<rparr>)) (bucket_map w) (slot_at (callers w))
      ((slot_at (takers w))(j \<mapsto> t')) (answers w) (posted w) ow K"
    using move_write [OF P assms(2) own, of a] T(9) assms(3) h by (auto simp: taker_ok_def valid_answer_def)
  from inv_withI [OF this] show ?thesis using rpc_invD(1) [OF assms(1)] h j by (simp add: SetResult_def slot_at_simps)
qed

lemma inv_post:
  assumes "rpc_inv w ow K" "slot_at (takers w) j = Some (R_Post r p a)"
  shows "inv_with (w \<lparr> posted := if ok then (r, cs_callbacks (cs_heap w ! p), a) # posted w else posted w, takers := (takers w)[j := R_Put p] \<rparr>) K"
proof -
  note P = rpc_invD(2) [OF assms(1)]
  note T = taker_has [OF P assms(2), of p]
  have h: "heap_fun (slot_at (cs_heap w)) p = cs_heap w ! p" using heap_fun_at [OF T(3)] by (auto simp: taker_owns_def)
  have j: "j < length (takers w)" using assms(2) by (simp add: slot_at_Some)
  have "parts_ok (rm_seq w) (cs_pool w) (slot_at (cs_heap w)) (bucket_map w) (slot_at (callers w))
      ((slot_at (takers w))(j \<mapsto> R_Put p)) (answers w) (if ok then (r, cs_callbacks (cs_heap w ! p), a) # posted w else posted w) ow K"
    using h by (intro move_post [OF P assms(2)]) auto
  from inv_withI [OF this] show ?thesis using rpc_invD(1) [OF assms(1)] j by (simp add: slot_at_simps)
qed

lemma upd_idle: "cs_heap w ! p = s \<Longrightarrow> p < length (cs_heap w) \<Longrightarrow> w \<lparr> cs_heap := (cs_heap w)[p := s] \<rparr> = w"
  by (auto simp: list_update_same_conv)

lemma taken_state:
  assumes "rpc_inv w ow K" "bucket_map w r = Some p"
  shows "p < length (cs_heap w)" "cs_reqID (cs_heap w ! p) = r" "NeedCallback (cs_heap w ! p) \<longrightarrow> async_req K r"
proof -
  note P = rpc_invD(2) [OF assms(1)]
  have owp: "ow p = O_Bucket r" using P assms(2) owners_at(3) by (auto simp: parts_ok_def)
  then obtain s where "slot_at (cs_heap w) p = Some s" using parts_state [OF P, of p] by (auto simp: in_use_def)
  then have h: "heap_fun (slot_at (cs_heap w)) p = cs_heap w ! p" "p < length (cs_heap w)" by (auto dest: heap_fun_at)
  have slot: "slot_ok (heap_fun (slot_at (cs_heap w))) (slot_at (takers w)) ow K (answers w) p" using P data_okD(4) by (auto simp: parts_ok_def)
  show "p < length (cs_heap w)" by (rule h(2))
  show req: "cs_reqID (cs_heap w ! p) = r" using slot owp h(1) by (auto simp: slot_ok_def in_use_def)
  obtain k i where k: "K r = Some (k, i, p)" "cs_callbacks (cs_heap w ! p) = kind_callbacks k"
    using slot owp h(1) req by (auto simp: slot_ok_def in_use_def cancelling_def)
  then show "NeedCallback (cs_heap w ! p) \<longrightarrow> async_req K r"
    by (cases k) (auto simp: NeedCallback_def async_req_def kind_callbacks_def)
qed

text \<open>A goroutine that takes a state out of its bucket and keeps it as it is.\<close>

lemma inv_taker_keep:
  assumes I: "rpc_inv w ow K" and t: "slot_at (takers w) j = Some t" and none: "taker_owns t = None" and rem: "removed w r (Some p) w2"
    and t': "taker_owns t' = Some p" "completing p t' \<or> async_req K r" "t' \<noteq> R_Put p" "taker_ok (heap_fun (slot_at (cs_heap w))) K (answers w) t'"
  shows "inv_with (w2 \<lparr> takers := (takers w2)[j := t'] \<rparr>) K"
proof -
  have p: "p < length (cs_heap w)" using taken_state(1) [OF I] rem by (auto simp: removed_def)
  then have hp: "heap_fun (slot_at (cs_heap w)) p = cs_heap w ! p" by (simp add: heap_fun_def slot_at_def)
  have w2: "w2 \<lparr> cs_heap := (cs_heap w2)[p := cs_heap w ! p] \<rparr> = w2" using rem by (auto simp: removed_def)
  then have "w2 \<lparr> cs_heap := (cs_heap w2)[p := cs_heap w ! p], takers := (takers w2)[j := t'] \<rparr> = w2 \<lparr> takers := (takers w2)[j := t'] \<rparr>"
    by (metis rpc_world.update_convs(13))
  then show ?thesis using inv_taker_take [OF I t none rem, of "cs_heap w ! p" t'] t' hp by (simp add: fun_upd_idem)
qed

lemma removed_state:
  assumes "rpc_inv w ow K" "removed w r (Some p) w2"
  shows "cs_reqID (heap_fun (slot_at (cs_heap w)) p) = r" "heap_fun (slot_at (cs_heap w)) p = cs_heap w ! p"
    "NeedCallback (cs_heap w ! p) \<longrightarrow> async_req K r" "cs_heap w2 ! p = cs_heap w ! p"
  using taken_state [OF assms(1), of r p] assms(2) by (auto simp: removed_def heap_fun_def slot_at_def)

lemma fire_step_inv:
  assumes I: "rpc_inv w ow K" and t: "slot_at (takers w) j = Some (T_Fire r)" and step: "taker_step ok (T_Fire r) w = Some (t', w1)"
  shows "inv_with (w1 \<lparr> takers := (takers w1)[j := t'] \<rparr>) K"
  using step monitor_remove_removed [OF rpc_invD(1) [OF I], of r] inv_taker_end [OF I t] inv_taker_keep [OF I t]
  by (auto simp: taker_step_def taker_owns_def completing_def taker_ok_def split: prod.splits option.splits)

lemma take_step_inv:
  assumes I: "rpc_inv w ow K" and t: "slot_at (takers w) j = Some (R_Take remote r a)" and step: "taker_step ok (R_Take remote r a) w = Some (t', w1)"
  shows "inv_with (w1 \<lparr> takers := (takers w1)[j := t'] \<rparr>) K"
proof -
  obtain x w2 where x: "monitor_Remove r w = (x, w2)" by fastforce
  note rem = monitor_Remove_removed [OF rpc_invD(1) [OF I] x]
  have none: "taker_owns (R_Take remote r a) = None" by (simp add: taker_owns_def)
  have ans: "(r, a) \<in> set (answers w)" using rpc_invD(2) [OF I] data_okD(3) t by (fastforce simp: parts_ok_def taker_ok_def)
  show ?thesis
  proof (cases x)
    case None
    then show ?thesis using step x inv_taker_end [OF I t none, of r w2] rem by (cases remote) (simp_all add: taker_step_def)
  next
    case (Some p)
    then show ?thesis using step x inv_taker_keep [OF I t none, of r p w2 t'] removed_state [OF I, of r p w2] rem ans
      by (auto simp: taker_step_def taker_owns_def completing_def taker_ok_def split: if_splits)
  qed
qed

lemma cancel_step_inv:
  assumes I: "rpc_inv w ow K" and t: "slot_at (takers w) j = Some (X_Take r)" and step: "taker_step ok (X_Take r) w = Some (t', w1)"
  shows "inv_with (w1 \<lparr> takers := (takers w1)[j := t'] \<rparr>) K"
proof -
  obtain x w2 where x: "monitor_Remove r w = (x, w2)" by fastforce
  note rem = monitor_Remove_removed [OF rpc_invD(1) [OF I] x]
  have none: "taker_owns (X_Take r) = None" by (simp add: taker_owns_def)
  have async: "async_req K r" using rpc_invD(2) [OF I] data_okD(3) t by (fastforce simp: parts_ok_def taker_ok_def)
  show ?thesis
  proof (cases x)
    case None
    then show ?thesis using step x inv_taker_end [OF I t none, of r w2] rem by (simp add: taker_step_def)
  next
    case (Some p)
    then show ?thesis
      using step x inv_taker_take [OF I t none, of r p w2 "(cs_heap w ! p) \<lparr> cs_callbacks := [] \<rparr>" "X_Put p"] removed_state [OF I, of r p w2] rem async
      by (auto simp: taker_step_def taker_owns_def taker_ok_def)
  qed
qed

lemma taker_step_inv:
  assumes I: "rpc_inv w ow K" and t: "slot_at (takers w) j = Some t" and step: "taker_step ok t w = Some (t', w1)"
  shows "inv_with (w1 \<lparr> takers := (takers w1)[j := t'] \<rparr>) K"
proof (cases t)
  case (T_Fire r)
  then show ?thesis using fire_step_inv [OF I] t step by blast
next
  case (R_Take remote r a)
  then show ?thesis using take_step_inv [OF I] t step by blast
next
  case (X_Take r)
  then show ?thesis using cancel_step_inv [OF I] t step by blast
next
  case (R_Post r p a)
  then show ?thesis using step inv_post [OF I, of j r p a ok] t by (auto simp: taker_step_def split: if_splits)
qed (use step inv_write [OF I t] inv_complete [OF I t] inv_put [OF I t] in \<open>auto simp: taker_step_def\<close>)

text \<open>The steps of the callers that change a state.\<close>

lemma caller_alone:
  assumes "owners pool H B (caller_claims CA) (taker_claims TA) ow" "\<And>j. ow p \<noteq> O_Taker j" "\<And>i'. i' \<noteq> i \<Longrightarrow> ow p \<noteq> O_Caller i'"
  shows "i' \<noteq> i \<Longrightarrow> CA i' = Some c \<Longrightarrow> caller_owns c \<noteq> Some p" "TA j = Some t \<Longrightarrow> taker_owns t \<noteq> Some p"
  using owners_at(2,4) [OF assms(1), of _ p] assms(2,3) claims_at by metis+

lemma caller_has:
  assumes "parts_ok n pool H B CA TA ans jobs ow K" "CA i = Some c" "caller_owns c = Some p"
  shows "ow p = O_Caller i" "H p = Some (heap_fun H p)" "cs_ref (heap_fun H p)" "\<not> cs_done (heap_fun H p)" "caller_claims CA i = Some p"
    "slot_ok (heap_fun H) TA ow K ans p" "caller_ok (heap_fun H) TA ow K ans i c"
proof -
  have o: "owners pool H B (caller_claims CA) (taker_claims TA) ow" and d: "data_ok n (heap_fun H) CA TA ow K ans jobs"
    using assms(1) by (auto simp: parts_ok_def)
  show c: "caller_claims CA i = Some p" using assms(2,3) by (simp add: claims_at)
  show owp: "ow p = O_Caller i" using owners_at(2) [OF o] c by simp
  show h: "H p = Some (heap_fun H p)" using parts_state [OF assms(1), of p] owp by (auto simp: in_use_def heap_fun_def)
  show "cs_ref (heap_fun H p)" "\<not> cs_done (heap_fun H p)" using owners_flags [OF o h] owp by auto
  show "slot_ok (heap_fun H) TA ow K ans p" by (rule data_okD(4) [OF d])
  show "caller_ok (heap_fun H) TA ow K ans i c" by (rule data_okD(2) [OF d assms(2)])
qed

lemma job_not_posted_caller:
  assumes d: "data_ok n h CA TA ow K ans jobs" and "in_use (ow p)" "\<And>j. ow p \<noteq> O_Taker j" "r = cs_reqID (h p)"
  shows "r \<notin> fst ` set jobs"
proof
  assume "r \<in> fst ` set jobs"
  then obtain cbs a where "(r, cbs, a) \<in> set jobs" by auto
  from data_okD(5) [OF d this] obtain i q cbs where q: "K r = Some (AsyncCall cbs, i, q)"
    "in_use (ow q) \<and> cs_reqID (h q) = r \<longrightarrow> (\<exists>j. ow q = O_Taker j \<and> TA j = Some (R_Put q))" by (auto simp: job_ok_def)
  have "q = p" using data_okD(4) [OF d, of p] q(1) assms(2,4) by (auto simp: slot_ok_def)
  then show False using q(2) assms(2-4) by auto
qed

lemma jobs_keep_caller:
  assumes d: "data_ok n h CA TA ow K ans jobs" and "K \<subseteq>\<^sub>m K'" "in_use w \<Longrightarrow> cs_reqID s \<notin> fst ` set jobs" "x \<in> set jobs"
  shows "job_ok (h(p := s)) TA (ow(p := w)) K' ans x"
proof -
  obtain r cbs a where x: "x = (r, cbs, a)" by (cases x)
  obtain i q where q: "K r = Some (AsyncCall cbs, i, q)" "valid_answer ans r a"
    "in_use (ow q) \<and> cs_reqID (h q) = r \<longrightarrow> (\<exists>j. ow q = O_Taker j \<and> TA j = Some (R_Put q))" using data_okD(5) [OF d assms(4)] x by (auto simp: job_ok_def)
  have "r \<in> fst ` set jobs" using assms(4) x by force
  then have "in_use ((ow(p := w)) q) \<and> cs_reqID ((h(p := s)) q) = r \<longrightarrow> (\<exists>j. (ow(p := w)) q = O_Taker j \<and> TA j = Some (R_Put q))"
    using q(3) assms(3) by (cases "q = p") auto
  then show ?thesis using map_leD [OF assms(2) q(1)] q(2) unfolding x job_ok_def prod.case by blast
qed

lemma move_alloc:
  assumes P: "parts_ok n pool H B CA TA ans jobs ow K" and c: "CA i = Some (C_New k)"
    and p: "ow p = O_None \<and> pool' = pool \<or> ow p = O_Free \<and> pool' = remove1 p pool"
    and s: "\<not> cs_done s" "cs_ref s" "cs_reqID s = n + 1" "cs_callbacks s = kind_callbacks k"
  shows "parts_ok (n + 1) pool' (H(p \<mapsto> s)) B (CA(i \<mapsto> C_Add k (n + 1) p)) TA ans jobs (ow(p := O_Caller i)) (K(n + 1 \<mapsto> (k, i, p)))"
proof -
  have o: "owners pool H B (caller_claims CA) (taker_claims TA) ow" and d: "data_ok n (heap_fun H) CA TA ow K ans jobs"
    using P by (auto simp: parts_ok_def)
  have K: "K (n + 1) = None" using data_okD(1) [OF d, of "n + 1"] by (cases "K (n + 1)") fastforce+
  then have le: "K \<subseteq>\<^sub>m K(n + 1 \<mapsto> (k, i, p))" by (auto simp: map_le_def dom_def)
  have k: "k \<noteq> AsyncCall []" using data_okD(2) [OF d c] by (simp add: caller_ok_def)
  have "caller_claims CA i = None" using c by (simp add: claims_at caller_owns_def)
  then have "owners pool' (H(p \<mapsto> s)) B ((caller_claims CA)(i \<mapsto> p)) (taker_claims TA) (ow(p := O_Caller i))"
    using p s by (intro owners_alloc [OF o]) auto
  moreover have "data_ok (n + 1) ((heap_fun H)(p := s)) (CA(i \<mapsto> C_Add k (n + 1) p)) TA (ow(p := O_Caller i)) (K(n + 1 \<mapsto> (k, i, p))) ans jobs"
  proof (rule data_caller [OF d le])
    show "caller_owns c' \<noteq> Some p" if "i' \<noteq> i" "CA i' = Some c'" for i' c' by (rule caller_alone(1) [OF o _ _ that]) (use p in auto)
    show "taker_owns t \<noteq> Some p" if "TA j = Some t" for j t by (rule caller_alone(2) [OF o _ _ that, of p i]) (use p in auto)
    show "\<not> waits_ok (heap_fun H) TA ow r p" for r using p by (auto simp: waits_ok_def)
    show "job_ok ((heap_fun H)(p := s)) TA (ow(p := O_Caller i)) (K(n + 1 \<mapsto> (k, i, p))) ans x" if x: "x \<in> set jobs" for x
    proof (rule jobs_keep_caller [OF d le _ x])
      show "cs_reqID s \<notin> fst ` set jobs"
      proof
        assume "cs_reqID s \<in> fst ` set jobs"
        then obtain cbs a where "(n + 1, cbs, a) \<in> set jobs" using s(3) by auto
        then show False using data_okD(5) [OF d] K by (fastforce simp: job_ok_def)
      qed
    qed
  qed (use s k data_okD(6) [OF d] in \<open>auto simp: caller_ok_def slot_ok_def in_use_def split: if_splits\<close>)
  ultimately show ?thesis by (simp add: parts_ok_def claims_upd heap_fun_upd caller_owns_def)
qed

text \<open>A caller gives away the state it has.\<close>

lemma data_give:
  assumes P: "parts_ok n pool H B CA TA ans jobs ow K" and c: "CA i = Some c" "caller_owns c = Some p"
    and new: "caller_ok ((heap_fun H)(p := s)) TA (ow(p := w)) K ans i c'" "slot_ok ((heap_fun H)(p := s)) TA (ow(p := w)) K ans p"
    and s: "in_use w \<Longrightarrow> cs_reqID s = cs_reqID (heap_fun H p)"
    and jobs': "jobs' = jobs \<or> (\<exists>cbs a. jobs' = (cs_reqID (heap_fun H p), cbs, a) # jobs \<and> w = O_Free \<and> K (cs_reqID (heap_fun H p)) = Some (AsyncCall cbs, i, p)
        \<and> valid_answer ans (cs_reqID (heap_fun H p)) a)"
  shows "data_ok n ((heap_fun H)(p := s)) (CA(i \<mapsto> c')) TA (ow(p := w)) K ans jobs'"
proof -
  note T = caller_has [OF P c]
  have o: "owners pool H B (caller_claims CA) (taker_claims TA) ow" and d: "data_ok n (heap_fun H) CA TA ow K ans jobs"
    using P by (auto simp: parts_ok_def)
  have np: "cs_reqID (heap_fun H p) \<notin> fst ` set jobs" using job_not_posted_caller [OF d, of p] T(1) by (simp add: in_use_def)
  have old: "job_ok ((heap_fun H)(p := s)) TA (ow(p := w)) K ans x" if "x \<in> set jobs" for x
    using np s by (intro jobs_keep_caller [OF d _ _ that]) auto
  show ?thesis
  proof (rule data_caller [OF d])
    show "caller_owns c2 \<noteq> Some p" if "i' \<noteq> i" "CA i' = Some c2" for i' c2 by (rule caller_alone(1) [OF o _ _ that]) (use T(1) in auto)
    show "taker_owns t \<noteq> Some p" if "TA j = Some t" for j t by (rule caller_alone(2) [OF o _ _ that, of p i]) (use T(1) in auto)
    show "\<not> waits_ok (heap_fun H) TA ow r p" for r using T(1) by (auto simp: waits_ok_def)
    show "job_ok ((heap_fun H)(p := s)) TA (ow(p := w)) K ans x" if "x \<in> set jobs'" for x
      using that jobs' old by (fastforce simp: job_ok_def in_use_def)
    show "distinct (map fst jobs')" using jobs' np data_okD(6) [OF d] by auto
  qed (use new in auto)
qed

lemma move_insert:
  assumes P: "parts_ok n pool H B CA TA ans jobs ow K" and c: "CA i = Some (C_Insert k r p t)"
  shows "parts_ok n pool (H(p \<mapsto> (heap_fun H p) \<lparr> cs_timerID := t \<rparr>)) (B(r \<mapsto> p)) (CA(i \<mapsto> C_Deliver k r p)) TA ans jobs (ow(p := O_Bucket r)) K"
proof -
  have own: "caller_owns (C_Insert k r p t) = Some p" by (simp add: caller_owns_def)
  note T = caller_has [OF P c own]
  have o: "owners pool H B (caller_claims CA) (taker_claims TA) ow" and d: "data_ok n (heap_fun H) CA TA ow K ans jobs"
    using P by (auto simp: parts_ok_def)
  have K: "K r = Some (k, i, p)" "cs_reqID (heap_fun H p) = r" using T(7) by (auto simp: caller_ok_def)
  have "B r = None"
  proof (rule ccontr)
    assume "B r \<noteq> None"
    then obtain q where q: "ow q = O_Bucket r" using owners_at(3) [OF o] by auto
    then have "q = p" using data_okD(4) [OF d, of q] K(1) by (auto simp: slot_ok_def in_use_def)
    then show False using q T(1) by simp
  qed
  then have "owners pool (H(p \<mapsto> (heap_fun H p) \<lparr> cs_timerID := t \<rparr>)) (B(r \<mapsto> p)) ((caller_claims CA)(i := None)) (taker_claims TA) (ow(p := O_Bucket r))"
    by (intro owners_insert [OF o T(5) _ T(2)]) auto
  moreover have "data_ok n ((heap_fun H)(p := (heap_fun H p) \<lparr> cs_timerID := t \<rparr>)) (CA(i \<mapsto> C_Deliver k r p)) TA (ow(p := O_Bucket r)) K ans jobs"
    using K T(1,6) by (intro data_give [OF P c own]) (auto simp: caller_ok_def waits_ok_def slot_ok_def in_use_def cancelling_def)
  ultimately show ?thesis by (simp add: parts_ok_def claims_upd heap_fun_upd caller_owns_def)
qed

lemma move_caller_put:
  assumes P: "parts_ok n pool H B CA TA ans jobs ow K" and c: "CA i = Some c" "caller_owns c = Some p" "caller_owns c' = None"
    and s: "\<not> cs_done s" "\<not> cs_ref s" and ok: "caller_ok ((heap_fun H)(p := s)) TA (ow(p := O_Free)) K ans i c'"
    and jobs': "jobs' = jobs \<or> (\<exists>cbs a. jobs' = (cs_reqID (heap_fun H p), cbs, a) # jobs \<and> K (cs_reqID (heap_fun H p)) = Some (AsyncCall cbs, i, p)
        \<and> valid_answer ans (cs_reqID (heap_fun H p)) a)"
  shows "parts_ok n (p # pool) (H(p \<mapsto> s)) B (CA(i \<mapsto> c')) TA ans jobs' (ow(p := O_Free)) K"
proof -
  note T = caller_has [OF P c(1,2)]
  have o: "owners pool H B (caller_claims CA) (taker_claims TA) ow" using P by (simp add: parts_ok_def)
  have "owners (p # pool) (H(p \<mapsto> s)) B ((caller_claims CA)(i := None)) (taker_claims TA) (ow(p := O_Free))"
    using s by (intro owners_put_caller [OF o T(5)])
  moreover have "data_ok n ((heap_fun H)(p := s)) (CA(i \<mapsto> c')) TA (ow(p := O_Free)) K ans jobs'"
    using ok jobs' by (intro data_give [OF P c(1,2)]) (auto simp: slot_ok_def in_use_def)
  ultimately show ?thesis using c(3) by (simp add: parts_ok_def claims_upd heap_fun_upd)
qed

lemma move_caller_done:
  assumes P: "parts_ok n pool H B CA TA ans jobs ow K" and c: "CA i = Some (C_Add k r p)" "cs_callbacks (heap_fun H p) = []"
    and s: "s = (heap_fun H p) \<lparr> cs_result := a, cs_done := True \<rparr>" and a: "valid_answer ans r a"
  shows "parts_ok n pool (H(p \<mapsto> s)) B (CA(i \<mapsto> C_Deliver k r p)) TA ans jobs (ow(p := O_Done)) K"
proof -
  have own: "caller_owns (C_Add k r p) = Some p" by (simp add: caller_owns_def)
  note T = caller_has [OF P c(1) own]
  have o: "owners pool H B (caller_claims CA) (taker_claims TA) ow" using P by (simp add: parts_ok_def)
  have K: "K r = Some (k, i, p)" "cs_reqID (heap_fun H p) = r" using T(7) by (auto simp: caller_ok_def)
  have "owners pool (H(p \<mapsto> s)) B ((caller_claims CA)(i := None)) (taker_claims TA) (ow(p := O_Done))"
    using s T(3) by (intro owners_done_caller [OF o T(5)]) auto
  moreover have "data_ok n ((heap_fun H)(p := s)) (CA(i \<mapsto> C_Deliver k r p)) TA (ow(p := O_Done)) K ans jobs"
    using K T(1,6) s a by (intro data_give [OF P c(1) own]) (auto simp: caller_ok_def waits_ok_def slot_ok_def in_use_def cancelling_def)
  ultimately show ?thesis by (simp add: parts_ok_def claims_upd heap_fun_upd caller_owns_def)
qed

lemma move_read:
  assumes P: "parts_ok n pool H B CA TA ans jobs ow K" and c: "CA i = Some (C_Wait r p)" and s: "H p = Some s" "cs_done s"
  shows "parts_ok n pool (H(p \<mapsto> s \<lparr> cs_done := False \<rparr>)) B (CA(i \<mapsto> C_Read r p)) TA ans jobs (ow(p := O_Caller i)) K"
proof -
  have o: "owners pool H B (caller_claims CA) (taker_claims TA) ow" and d: "data_ok n (heap_fun H) CA TA ow K ans jobs"
    using P by (auto simp: parts_ok_def)
  have owp: "ow p = O_Done" "cs_ref s" using owners_flags [OF o s(1)] s(2) by auto
  have h: "heap_fun H p = s" using s(1) by (simp add: heap_fun_def)
  have K: "K r = Some (SyncCall, i, p)" "cs_reqID s = r" using data_okD(2) [OF d c] h by (auto simp: caller_ok_def waits_ok_def)
  have slot: "slot_ok (heap_fun H) TA ow K ans p" by (rule data_okD(4) [OF d])
  have "owners pool (H(p \<mapsto> s \<lparr> cs_done := False \<rparr>)) B ((caller_claims CA)(i \<mapsto> p)) (taker_claims TA) (ow(p := O_Caller i))"
    using owp c by (intro owners_read [OF o]) (auto simp: claims_at caller_owns_def)
  moreover have "data_ok n ((heap_fun H)(p := s \<lparr> cs_done := False \<rparr>)) (CA(i \<mapsto> C_Read r p)) TA (ow(p := O_Caller i)) K ans jobs"
  proof (rule data_caller [OF d])
    show "caller_owns c2 \<noteq> Some p" if "i' \<noteq> i" "CA i' = Some c2" for i' c2 by (rule caller_alone(1) [OF o _ _ that]) (use owp in auto)
    show "taker_owns t \<noteq> Some p" if "TA j = Some t" for j t by (rule caller_alone(2) [OF o _ _ that, of p i]) (use owp in auto)
    show "\<not> waits_ok (heap_fun H) TA ow r' p" if "i' \<noteq> i" "CA i' = Some c2" "caller_waits c2 = Some (r', p)" for i' c2 r'
      using waiting_caller [OF d that(2,3)] K h that(1) by (auto simp: waits_ok_def)
    show "caller_ok ((heap_fun H)(p := s \<lparr> cs_done := False \<rparr>)) TA (ow(p := O_Caller i)) K ans i (C_Read r p)"
      using slot owp K h by (auto simp: caller_ok_def slot_ok_def in_use_def)
    show "slot_ok ((heap_fun H)(p := s \<lparr> cs_done := False \<rparr>)) TA (ow(p := O_Caller i)) K ans p"
      using slot owp h by (auto simp: slot_ok_def in_use_def cancelling_def)
    show "job_ok ((heap_fun H)(p := s \<lparr> cs_done := False \<rparr>)) TA (ow(p := O_Caller i)) K ans x" if "x \<in> set jobs" for x
      using job_not_posted_caller [OF d, of p] owp h by (intro jobs_keep_caller [OF d _ _ that]) (auto simp: in_use_def)
  qed (use data_okD(1,6) [OF d] in auto)
  ultimately show ?thesis by (simp add: parts_ok_def claims_upd heap_fun_upd caller_owns_def)
qed

definition rpc_ok :: "rpc_world \<Rightarrow> bool" where
  [inv_defs]: "rpc_ok w \<longleftrightarrow> (\<exists>K. inv_with w K)"

lemma rpc_okI:
  assumes "parts_ok n pool H B CA TA ans jobs ow K" "buckets_ok w" "rm_seq w = n" "cs_pool w = pool" "slot_at (cs_heap w) = H" "bucket_map w = B"
    "slot_at (callers w) = CA" "slot_at (takers w) = TA" "answers w = ans" "posted w = jobs"
  shows "rpc_ok w"
  unfolding rpc_ok_def by (intro exI, rule inv_withI [OF assms])

lemma heap_at:
  assumes "rpc_inv w ow K" "slot_at (cs_heap w) p = Some s"
  shows "p < length (cs_heap w)" "heap_fun (slot_at (cs_heap w)) p = cs_heap w ! p"
  using heap_fun_at [OF assms(2)] by auto

lemma remove_nth: "distinct xs \<Longrightarrow> j < length xs \<Longrightarrow> take j xs @ drop (Suc j) xs = remove1 (xs ! j) xs"
proof (induction xs arbitrary: j)
  case (Cons x xs)
  then show ?case by (cases j) (auto dest: nth_mem)
qed simp

lemma inv_new:
  assumes I: "rpc_inv w ow K" and c: "slot_at (callers w) i = Some (C_New k)" and step: "caller_step pick ok (C_New k) w = Some (c', w1)"
  shows "rpc_ok (w1 \<lparr> callers := (callers w1)[i := c'] \<rparr>)"
proof -
  note P = rpc_invD(2) [OF I]
  have o: "owners (cs_pool w) (slot_at (cs_heap w)) (bucket_map w) (caller_claims (slot_at (callers w))) (taker_claims (slot_at (takers w))) ow"
    using P by (simp add: parts_ok_def)
  have i: "i < length (callers w)" using c by (simp add: slot_at_Some)
  let ?n = "rm_seq w"
  have fin: "rpc_ok (w \<lparr> rm_seq := ?n + 1, cs_pool := pool', cs_heap := hp, callers := (callers w)[i := C_Add k (?n + 1) p] \<rparr>)"
    if "slot_at hp = (slot_at (cs_heap w))(p \<mapsto> s)" "ow p = O_None \<and> pool' = cs_pool w \<or> ow p = O_Free \<and> pool' = remove1 p (cs_pool w)"
      "\<not> cs_done s" "cs_ref s" "cs_reqID s = ?n + 1" "cs_callbacks s = kind_callbacks k" for hp pool' p s
    by (rule rpc_okI [OF move_alloc [OF P c that(2-6)]]) (use rpc_invD(1) [OF I] i that(1) in \<open>simp_all add: slot_at_simps\<close>)
  let ?new = "\<lparr> cs_ref = True, cs_reqID = ?n + 1, cs_timerID = 0, cs_callbacks = kind_callbacks k, cs_done = False, cs_result = (0, None) \<rparr>"
  show ?thesis
  proof (cases "\<exists>j. pick = Some j \<and> j < length (cs_pool w)")
    case True
    then obtain j where j: "pick = Some j" "j < length (cs_pool w)" by blast
    let ?p = "cs_pool w ! j"
    have p: "ow ?p = O_Free" "?p < length (cs_heap w)" "take j (cs_pool w) @ drop (Suc j) (cs_pool w) = remove1 ?p (cs_pool w)"
      using j owners_at(1) [OF o, of ?p] parts_state [OF P, of ?p] owners_distinct [OF o] remove_nth [of "cs_pool w" j]
      by (auto simp: slot_at_Some)
    let ?s = "(cs_Reset (cs_heap w ! ?p)) \<lparr> cs_ref := True, cs_reqID := ?n + 1, cs_callbacks := kind_callbacks k \<rparr>"
    show ?thesis
      using fin [of "(cs_heap w)[?p := ?s]" ?p ?s "remove1 ?p (cs_pool w)"] step j p
      by (auto simp: caller_step_def NewCallState_def cs_Get_def cs_Reset_def Let_def slot_at_simps)
  next
    case False
    have "ow (length (cs_heap w)) = O_None" using owners_at(5) [OF o, of "length (cs_heap w)"] by (simp add: slot_at_def)
    then show ?thesis using fin [of "cs_heap w @ [?new]" "length (cs_heap w)" ?new "cs_pool w"] step False
      by (auto simp: caller_step_def NewCallState_def cs_Get_def Let_def slot_at_simps split: option.splits)
  qed
qed

lemma inv_add_refused:
  assumes I: "rpc_inv w ow K" and c: "slot_at (callers w) i = Some (C_Add k r p)"
    and a: "valid_answer (answers w) r a" and w1: "w1 = CallState_Complete p (SetResult p a w)"
  shows "rpc_ok (w1 \<lparr> callers := (callers w1)[i := C_Deliver k r p] \<rparr>)"
proof -
  note P = rpc_invD(2) [OF I]
  have own: "caller_owns (C_Add k r p) = Some p" by (simp add: caller_owns_def)
  note T = caller_has [OF P c own]
  note h = heap_at [OF I T(2)]
  have i: "i < length (callers w)" using c by (simp add: slot_at_Some)
  have K: "K r = Some (k, i, p)" "cs_reqID (cs_heap w ! p) = r" "cs_callbacks (cs_heap w ! p) = kind_callbacks k"
    using T(1,6,7) h(2) by (auto simp: caller_ok_def slot_ok_def in_use_def cancelling_def)
  show ?thesis
  proof (cases "cs_callbacks (cs_heap w ! p) = []")
    case True
    let ?s = "(cs_heap w ! p) \<lparr> cs_result := a, cs_done := True \<rparr>"
    have "parts_ok (rm_seq w) (cs_pool w) ((slot_at (cs_heap w))(p \<mapsto> ?s)) (bucket_map w) ((slot_at (callers w))(i \<mapsto> C_Deliver k r p)) (slot_at (takers w))
        (answers w) (posted w) (ow(p := O_Done)) K"
      using True h(2) a by (intro move_caller_done [OF P c]) auto
    then show ?thesis
      by (rule rpc_okI) (use True rpc_invD(1) [OF I] h i in \<open>simp_all add: w1 CallState_Complete_def SetResult_def signalDone_def NeedCallback_def slot_at_simps\<close>)
  next
    case False
    let ?s = "(cs_Reset (cs_heap w ! p)) \<lparr> cs_ref := False \<rparr>"
    have k: "k = AsyncCall (cs_callbacks (cs_heap w ! p))" using False K(3) by (cases k) (auto simp: kind_callbacks_def)
    have "parts_ok (rm_seq w) (p # cs_pool w) ((slot_at (cs_heap w))(p \<mapsto> ?s)) (bucket_map w) ((slot_at (callers w))(i \<mapsto> C_Deliver k r p)) (slot_at (takers w))
        (answers w) ((r, cs_callbacks (cs_heap w ! p), a) # posted w) (ow(p := O_Free)) K"
      using k K(1,2) h(2) a by (intro move_caller_put [OF P c own]) (auto simp: caller_owns_def caller_ok_def cs_Reset_def)
    then show ?thesis
      by (rule rpc_okI) (use False rpc_invD(1) [OF I] h i T(3) K(2) in \<open>simp_all add: w1 CallState_Complete_def SetResult_def cs_Put_def cs_Reset_def NeedCallback_def slot_at_simps Let_def\<close>)
  qed
qed

lemma inv_caller_idle:
  assumes I: "rpc_inv w ow K" and c: "slot_at (callers w) i = Some c" "caller_owns c' = caller_owns c"
    and ok: "caller_ok (heap_fun (slot_at (cs_heap w))) (slot_at (takers w)) ow K (answers w) i c'"
    and w1: "w1 = w \<lparr> sd_timers := ts, sd_next := n, requests := rq \<rparr>"
  shows "rpc_ok (w1 \<lparr> callers := (callers w1)[i := c'] \<rparr>)"
proof -
  have i: "i < length (callers w)" using c by (simp add: slot_at_Some)
  have "parts_ok (rm_seq w) (cs_pool w) (slot_at (cs_heap w)) (bucket_map w) ((slot_at (callers w))(i \<mapsto> c')) (slot_at (takers w)) (answers w) (posted w) ow K"
    using rpc_invD(2) [OF I] c ok data_caller_idle by (auto simp: parts_ok_def claims_upd claims_at fun_upd_idem)
  then show ?thesis
      by (rule rpc_okI) (use rpc_invD(1) [OF I] i in \<open>simp_all add: w1 slot_at_simps\<close>)
qed

lemma inv_insert:
  assumes I: "rpc_inv w ow K" and c: "slot_at (callers w) i = Some (C_Insert k r p t)"
    and w1: "w1 = bucket_Add r p (upd_state p (\<lambda>s. s \<lparr> cs_timerID := t \<rparr>) w)"
  shows "rpc_ok (w1 \<lparr> callers := (callers w1)[i := C_Deliver k r p] \<rparr>)"
proof -
  note P = rpc_invD(2) [OF I]
  have own: "caller_owns (C_Insert k r p t) = Some p" by (simp add: caller_owns_def)
  note T = caller_has [OF P c own]
  note h = heap_at [OF I T(2)]
  have i: "i < length (callers w)" using c by (simp add: slot_at_Some)
  have b: "buckets_ok (upd_state p (\<lambda>s. s \<lparr> cs_timerID := t \<rparr>) w)" using rpc_invD(1) [OF I] by simp
  have "buckets_ok w1" using b unfolding w1 bucket_Add_def by (simp add: buckets_ok_def)
  moreover have "bucket_map w1 = (bucket_map w)(r \<mapsto> p)" using bucket_map_Add [OF b, of r p] unfolding w1 by simp
  moreover have "rm_seq w1 = rm_seq w \<and> cs_pool w1 = cs_pool w \<and> slot_at (cs_heap w1) = (slot_at (cs_heap w))(p \<mapsto> (cs_heap w ! p) \<lparr> cs_timerID := t \<rparr>)
      \<and> callers w1 = callers w \<and> takers w1 = takers w \<and> answers w1 = answers w \<and> posted w1 = posted w"
    using h unfolding w1 by (simp add: bucket_Add_def slot_at_simps)
  ultimately show ?thesis by (intro rpc_okI [OF move_insert [OF P c]]) (use h(2) i in \<open>simp_all add: slot_at_simps\<close>)
qed

lemma inv_read:
  assumes I: "rpc_inv w ow K" and c: "slot_at (callers w) i = Some (C_Wait r p)" "cs_done (cs_heap w ! p)"
    and w1: "w1 = upd_state p (\<lambda>s. s \<lparr> cs_done := False \<rparr>) w"
  shows "rpc_ok (w1 \<lparr> callers := (callers w1)[i := C_Read r p] \<rparr>)"
proof -
  note P = rpc_invD(2) [OF I]
  have d: "data_ok (rm_seq w) (heap_fun (slot_at (cs_heap w))) (slot_at (callers w)) (slot_at (takers w)) ow K (answers w) (posted w)"
    using P by (simp add: parts_ok_def)
  have "in_use (ow p)" using data_okD(2) [OF d c(1)] by (auto simp: caller_ok_def waits_ok_def in_use_def)
  then obtain s where s: "slot_at (cs_heap w) p = Some s" using parts_state [OF P, of p] by blast
  note h = heap_at [OF I s]
  have i: "i < length (callers w)" using c by (simp add: slot_at_Some)
  have "s = cs_heap w ! p" using s by (simp add: slot_at_Some)
  then have "cs_done s" using c(2) by simp
  from move_read [OF P c(1) s this] show ?thesis
    by (rule rpc_okI) (use \<open>s = cs_heap w ! p\<close> rpc_invD(1) [OF I] h i in \<open>simp_all add: w1 slot_at_simps\<close>)
qed

lemma inv_release:
  assumes I: "rpc_inv w ow K" and c: "slot_at (callers w) i = Some (C_Release r p a)" and w1: "w1 = cs_Put p w"
  shows "rpc_ok (w1 \<lparr> callers := (callers w1)[i := C_Ret SyncCall r a] \<rparr>)"
proof -
  note P = rpc_invD(2) [OF I]
  have own: "caller_owns (C_Release r p a) = Some p" by (simp add: caller_owns_def)
  note T = caller_has [OF P c own]
  note h = heap_at [OF I T(2)]
  have i: "i < length (callers w)" using c by (simp add: slot_at_Some)
  have "parts_ok (rm_seq w) (p # cs_pool w) ((slot_at (cs_heap w))(p \<mapsto> (cs_Reset (cs_heap w ! p)) \<lparr> cs_ref := False \<rparr>)) (bucket_map w)
      ((slot_at (callers w))(i \<mapsto> C_Ret SyncCall r a)) (slot_at (takers w)) (answers w) (posted w) (ow(p := O_Free)) K"
    using T(7) h(2) by (intro move_caller_put [OF P c own]) (auto simp: caller_owns_def caller_ok_def cs_Reset_def)
  then show ?thesis
      by (rule rpc_okI) (use rpc_invD(1) [OF I] h i T(3) in \<open>simp_all add: w1 cs_Put_def slot_at_simps\<close>)
qed

lemma caller_step_inv:
  assumes I: "rpc_inv w ow K" and c: "slot_at (callers w) i = Some c" and step: "caller_step pick ok c w = Some (c', w1)"
    and good: "\<not> fails_delivery (A_Caller i pick ok) w"
  shows "rpc_ok (w1 \<lparr> callers := (callers w1)[i := c'] \<rparr>)"
proof -
  have cok: "caller_ok (heap_fun (slot_at (cs_heap w))) (slot_at (takers w)) ow K (answers w) i c"
    using rpc_invD(2) [OF I] data_okD(2) c by (auto simp: parts_ok_def)
  have sent: "ok" if "c = C_Deliver k r p \<or> c = C_Sent k r p" for k r p
    using good c that by (auto simp: fails_delivery_def slot_at_Some)
  have idle: "rpc_ok (w1 \<lparr> callers := (callers w1)[i := c'] \<rparr>)"
    if "caller_owns c' = caller_owns c" "caller_ok (heap_fun (slot_at (cs_heap w))) (slot_at (takers w)) ow K (answers w) i c'"
      "w1 = w \<lparr> sd_timers := ts, sd_next := n, requests := rq \<rparr>" for ts n rq
    using inv_caller_idle [OF I c that] .
  show ?thesis
  proof (cases c)
    case (C_New k)
    then show ?thesis using inv_new [OF I, of i k pick ok] c step by simp
  next
    case (C_Add k r p)
    have v: "valid_answer (answers w) r (0, Some ErrRPCHadClosed)" "valid_answer (answers w) r (0, Some ErrTimer)" by (simp_all add: valid_answer_def)
    show ?thesis
    proof (cases "rm_closed w \<or> \<not> ok")
      case True
      then show ?thesis using inv_add_refused [OF I _ v(1) refl, of i k p] inv_add_refused [OF I _ v(2) refl, of i k p] c step C_Add
        by (auto simp: caller_step_def split: if_splits)
    next
      case False
      then show ?thesis using step C_Add cok
        by (intro idle [where ts = "(sd_next w, r) # sd_timers w" and n = "sd_next w + 1" and rq = "requests w"]) (auto simp: caller_step_def caller_owns_def caller_ok_def)
    qed
  next
    case (C_Insert k r p t)
    then show ?thesis using inv_insert [OF I _ refl, of i k r p t] c step by (auto simp: caller_step_def)
  next
    case (C_Deliver k r p)
    then show ?thesis using step cok sent [of k r p]
      by (intro idle [where ts = "sd_timers w" and n = "sd_next w" and rq = "r # requests w"]) (auto simp: caller_step_def caller_owns_def caller_ok_def)
  next
    case (C_Sent k r p)
    then show ?thesis using step cok sent [of k r p]
      by (intro idle [where ts = "sd_timers w" and n = "sd_next w" and rq = "requests w"]) (auto simp: caller_step_def caller_owns_def caller_ok_def split: call_kind.splits)
  next
    case (C_Wait r p)
    then show ?thesis using inv_read [OF I _ _ refl, of i r p] c step by (auto simp: caller_step_def split: if_splits)
  next
    case (C_Read r p)
    have own: "caller_owns c = Some p" using C_Read by (simp add: caller_owns_def)
    note h = heap_at [OF I caller_has(2) [OF rpc_invD(2) [OF I] c own]]
    show ?thesis using step cok C_Read h(2)
      by (intro idle [where ts = "sd_timers w" and n = "sd_next w" and rq = "requests w"]) (auto simp: caller_step_def caller_owns_def caller_ok_def)
  next
    case (C_Release r p a)
    then show ?thesis using inv_release [OF I _ refl, of i r p a] c step by (auto simp: caller_step_def)
  qed (use cok step in \<open>auto simp: caller_ok_def caller_step_def\<close>)
qed

lemma inv_spawn_taker:
  assumes I: "rpc_inv w ow K" "taker_owns t = None" "taker_ok (heap_fun (slot_at (cs_heap w))) K ans t" "set (answers w) \<subseteq> set ans"
  shows "rpc_ok (w \<lparr> sd_timers := ts, answers := ans, takers := takers w @ [t] \<rparr>)"
proof -
  have n: "slot_at (takers w) (length (takers w)) = None" by (simp add: slot_at_def)
  then have "parts_ok (rm_seq w) (cs_pool w) (slot_at (cs_heap w)) (bucket_map w) (slot_at (callers w)) ((slot_at (takers w))(length (takers w) \<mapsto> t)) ans (posted w) ow K"
    using rpc_invD(2) [OF I(1)] I(2-4) data_taker_new by (auto simp: parts_ok_def claims_upd claims_at fun_upd_idem)
  then show ?thesis by (rule rpc_okI) (use rpc_invD(1) [OF I(1)] in \<open>simp_all add: slot_at_simps\<close>)
qed

lemma inv_spawn_caller:
  assumes I: "rpc_inv w ow K" "k \<noteq> AsyncCall []"
  shows "rpc_ok (w \<lparr> callers := callers w @ [C_New k] \<rparr>)"
proof -
  have "slot_at (callers w) (length (callers w)) = None" by (simp add: slot_at_def)
  then have "parts_ok (rm_seq w) (cs_pool w) (slot_at (cs_heap w)) (bucket_map w) ((slot_at (callers w))(length (callers w) \<mapsto> C_New k)) (slot_at (takers w)) (answers w) (posted w) ow K"
    using rpc_invD(2) [OF I(1)] I(2)
    by (auto simp: parts_ok_def claims_upd claims_at fun_upd_idem caller_owns_def caller_ok_def intro!: data_caller_idle)
  then show ?thesis by (rule rpc_okI) (use rpc_invD(1) [OF I(1)] in \<open>simp_all add: slot_at_simps\<close>)
qed

lemma returned_asyncE: "returned_async r c \<Longrightarrow> \<exists>cbs a. c = C_Ret (AsyncCall cbs) r a"
proof (cases c)
  case (C_Ret k r' a)
  assume "returned_async r c"
  then show ?thesis using C_Ret by (cases k) (auto simp: returned_async_def)
qed (simp_all add: returned_async_def)

lemma rpc_step_ok:
  assumes ok: "rpc_ok w" and step: "rpc_step act w = Some w'" and good: "\<not> fails_delivery act w"
  shows "rpc_ok w'"
proof -
  obtain ow K where I: "rpc_inv w ow K" using ok by (auto simp: rpc_ok_def inv_with_def)
  have callers: "caller_ok (heap_fun (slot_at (cs_heap w))) (slot_at (takers w)) ow K (answers w) i c" if "slot_at (callers w) i = Some c" for i c
    using rpc_invD(2) [OF I] data_okD(2) that by (auto simp: parts_ok_def)
  show ?thesis
  proof (cases act)
    case (A_Call k)
    then show ?thesis using inv_spawn_caller [OF I, of k] step by (auto simp: rpc_step_def split: if_splits)
  next
    case (A_Caller i pick b)
    then show ?thesis using caller_step_inv [OF I, of i "callers w ! i" pick b] step good
      by (auto simp: rpc_step_def slot_at_Some split: if_splits)
  next
    case (A_Timer t)
    then show ?thesis using inv_spawn_taker [OF I, of "T_Fire _" "answers w" "gm_del (sd_timers w) t"] step
      by (auto simp: rpc_step_def taker_owns_def taker_ok_def split: option.splits)
  next
    case (A_Lose t)
    then show ?thesis using rpc_okI [OF rpc_invD(2) [OF I]] rpc_invD(1) [OF I] step by (auto simp: rpc_step_def split: option.splits)
  next
    case (A_Answer remote r a)
    then show ?thesis using inv_spawn_taker [OF I, of "R_Take remote r a" "(r, a) # answers w" "sd_timers w"] step
      by (auto simp: rpc_step_def taker_owns_def taker_ok_def split: if_splits)
  next
    case (A_Cancel r)
    then obtain c cbs a where c: "c \<in> set (callers w)" "c = C_Ret (AsyncCall cbs) r a" and w': "w' = w \<lparr> takers := takers w @ [X_Take r] \<rparr>"
      using step returned_asyncE by (fastforce simp: rpc_step_def split: if_splits)
    then obtain i where "slot_at (callers w) i = Some c" by (auto simp: in_set_conv_nth slot_at_Some)
    then have "async_req K r" using callers c(2) by (fastforce simp: caller_ok_def async_req_def)
    then show ?thesis using inv_spawn_taker [OF I, of "X_Take r" "answers w" "sd_timers w"] w' by (simp add: taker_owns_def taker_ok_def)
  next
    case (A_Taker j b)
    then show ?thesis using taker_step_inv [OF I, of j "takers w ! j" b] step
      by (auto simp: rpc_ok_def rpc_step_def slot_at_Some split: if_splits)
  next
    case A_Close
    then show ?thesis using rpc_okI [OF rpc_invD(2) [OF I]] rpc_invD(1) [OF I] step by (auto simp: rpc_step_def)
  qed
qed

lemma initBuckets_ok: "buckets_ok (NewRpcMonitor bc)"
proof -
  obtain k where "RoundUpToPowerOfTwoInt (if bc \<le> 0 then 256 else bc) = 2 ^ k"
    using RoundUp_least_pow2 by (auto simp: is_pow2_def)
  then show ?thesis by (auto simp: buckets_ok_def NewRpcMonitor_def initBuckets_def Let_def nat_diff_distrib nat_power_eq intro!: exI [of _ k])
qed

lemma NewRpcMonitor_ok: "rpc_ok (NewRpcMonitor bc)"
proof (rule rpc_okI)
  show "parts_ok 0 [] Map.empty Map.empty Map.empty Map.empty [] [] (\<lambda>_. O_None) Map.empty"
    by (auto simp: parts_ok_def owners_def data_ok_def caller_claims_def taker_claims_def slot_ok_def in_use_def)
  show "bucket_map (NewRpcMonitor bc) = Map.empty"
    using bucketIndex_less [OF initBuckets_ok [of bc]]
    by (auto simp: bucket_map_def bucket_Get_def NewRpcMonitor_def initBuckets_def bucketIndex_def Let_def fun_eq_iff)
qed (rule initBuckets_ok, simp_all add: NewRpcMonitor_def slot_at_simps)

lemma rpc_reach_ok: "rpc_reach bad (NewRpcMonitor bc) w \<Longrightarrow> (\<And>act w. fails_delivery act w \<Longrightarrow> bad act w) \<Longrightarrow> rpc_ok w"
proof (induction rule: rpc_reach.induct)
  case (reach_step w act w')
  then show ?case using rpc_step_ok by blast
qed (rule NewRpcMonitor_ok)

end
