(* ===== verification/Rpc_Calls.thy ===== *)
theory Rpc_Calls
  imports Rpc_Owners
begin

text \<open>
  What the callers of \<open>Rpc_Monitor\<close> get: their own answer, once, and always something that ends the wait, but for two races
  of the code that are shown as runs.
\<close>

section \<open>Timers\<close>

text \<open>
  The state of every registered call, and of every call about to be registered, has a timer that is armed or whose callback is on its way,
  unless a callback ran before the registration. Timer numbers are not reused.
\<close>

definition has_timer :: "rpc_world \<Rightarrow> nat \<Rightarrow> nat \<Rightarrow> bool" where
  "has_timer w r t \<longleftrightarrow> gm_get (sd_timers w) t = Some r \<or> T_Fire r \<in> set (takers w)"

text \<open>The calls that rely on a timer: those in a bucket and those of callers at \<open>C_Insert\<close>.\<close>

definition relies :: "rpc_world \<Rightarrow> nat \<Rightarrow> nat \<Rightarrow> bool" where
  "relies w r t \<longleftrightarrow> (\<exists>p. bucket_map w r = Some p \<and> cs_timerID (cs_heap w ! p) = t) \<or> (\<exists>k p. C_Insert k r p t \<in> set (callers w))"

definition timers_ok :: "rpc_world \<Rightarrow> bool" where
  "timers_ok w \<longleftrightarrow> \<not> rm_closed w \<and> (\<forall>r t. relies w r t \<longrightarrow> has_timer w r t \<and> t < sd_next w \<and> 0 < r)
     \<and> (\<forall>t r. gm_get (sd_timers w) t = Some r \<longrightarrow> t < sd_next w \<and> (\<forall>r'. relies w r' t \<longrightarrow> r' = r))"

text \<open>A step that keeps who relies on which timer, or lessens it.\<close>

lemma timers_ok_less:
  assumes "timers_ok w" "\<And>r t. relies w' r t \<Longrightarrow> relies w r t" "\<And>r t. relies w' r t \<Longrightarrow> has_timer w r t \<Longrightarrow> has_timer w' r t"
    and "\<And>t r. gm_get (sd_timers w') t = Some r \<Longrightarrow> gm_get (sd_timers w) t = Some r" "sd_next w' = sd_next w" "rm_closed w' = rm_closed w"
  shows "timers_ok w'"
  using assms unfolding timers_ok_def by metis

lemma bucket_owner:
  assumes "rpc_inv w ow K" "bucket_map w r = Some p"
  shows "ow p = O_Bucket r"
  using assms owners_at(3) by (auto simp: rpc_inv_def parts_ok_def)

text \<open>A state that is not in a bucket may be written without an effect on the timers of others.\<close>

lemma timerID_other:
  assumes "rpc_inv w ow K" "bucket_map w r = Some q" "\<And>r. ow p \<noteq> O_Bucket r"
  shows "cs_timerID ((cs_heap w)[p := s] ! q) = cs_timerID (cs_heap w ! q)"
  using bucket_owner [OF assms(1,2)] assms(3) by (cases "q = p") auto

lemma timers_quiet:
  assumes I: "rpc_inv w ow K" and T: "timers_ok w" and q: "\<And>r. ow p \<noteq> O_Bucket r"
    and w': "cs_heap w' = cs_heap w \<or> cs_heap w' = (cs_heap w)[p := s] \<or> cs_heap w' = cs_heap w @ [s]" "bucket_map w' = bucket_map w"
      "sd_timers w' = sd_timers w" "sd_next w' = sd_next w" "rm_closed w' = rm_closed w"
    and ins: "\<And>k r p t. C_Insert k r p t \<in> set (callers w') \<Longrightarrow> C_Insert k r p t \<in> set (callers w)"
    and tk: "\<And>r t. T_Fire r \<in> set (takers w) \<Longrightarrow> relies w' r t \<Longrightarrow> T_Fire r \<in> set (takers w')"
  shows "timers_ok w'"
proof (rule timers_ok_less [OF T])
  have same: "cs_timerID (cs_heap w' ! p') = cs_timerID (cs_heap w ! p')" if "bucket_map w r = Some p'" for r p'
    using w'(1) timerID_other [OF I that q, of s] taken_state(1) [OF I that] by (auto simp: nth_append)
  show "relies w r t" if "relies w' r t" for r t using that same w'(2) ins unfolding relies_def by metis
  show "has_timer w' r t" if "relies w' r t" "has_timer w r t" for r t using that w'(3) tk [of r t] by (auto simp: has_timer_def)
qed (use w' in auto)

lemma timers_new:
  assumes T: "timers_ok w" and c: "i < length (callers w)" "callers w ! i = C_Add k r p" and r: "0 < r"
    and w': "w' = w \<lparr> sd_timers := (sd_next w, r) # sd_timers w, sd_next := sd_next w + 1, callers := (callers w)[i := C_Insert k r p (sd_next w)] \<rparr>"
  shows "timers_ok w'"
proof -
  have rel: "relies w r' t \<or> r' = r \<and> t = sd_next w" if "relies w' r' t" for r' t
    using that c(1) by (auto simp: relies_def w' dest!: set_update_subset_insert [THEN subsetD])
  have old: "t < sd_next w \<and> 0 < r' \<and> has_timer w r' t" if "relies w r' t" for r' t using T that by (auto simp: timers_ok_def)
  have get: "gm_get (sd_timers w') t = (if t = sd_next w then Some r else gm_get (sd_timers w) t)" for t by (simp add: w')
  have "has_timer w' r' t \<and> t < sd_next w' \<and> 0 < r'" if "relies w' r' t" for r' t
    using rel [OF that] old [of r' t] r get [of t] by (auto simp: has_timer_def w')
  moreover have "t < sd_next w' \<and> (\<forall>r'. relies w' r' t \<longrightarrow> r' = s)" if "gm_get (sd_timers w') t = Some s" for t s
  proof (cases "t = sd_next w")
    case True
    then show ?thesis using that get [of t] rel [of _ t] old [of _ t] by (auto simp: w')
  next
    case False
    then have "gm_get (sd_timers w) t = Some s" using that get by simp
    then have "t < sd_next w \<and> (\<forall>r'. relies w r' t \<longrightarrow> r' = s)" using T by (simp add: timers_ok_def)
    then show ?thesis using rel [of _ t] False by (auto simp: w')
  qed
  moreover have "\<not> rm_closed w'" using T by (simp add: timers_ok_def w')
  ultimately show ?thesis unfolding timers_ok_def by blast
qed

lemma in_set_update_other: "x \<in> set xs \<Longrightarrow> xs ! j \<noteq> x \<Longrightarrow> x \<in> set (xs[j := y])"
  by (metis in_set_conv_nth length_list_update nth_list_update_neq)

lemma not_inserting:
  assumes I: "rpc_inv w ow K" and b: "bucket_map w r = Some p"
  shows "C_Insert k r q t \<notin> set (callers w)"
proof
  assume "C_Insert k r q t \<in> set (callers w)"
  then obtain i where i: "slot_at (callers w) i = Some (C_Insert k r q t)" by (auto simp: in_set_conv_nth slot_at_Some)
  have own: "caller_owns (C_Insert k r q t) = Some q" by (simp add: caller_owns_def)
  note T = caller_has [OF rpc_invD(2) [OF I] i own]
  have d: "data_ok (rm_seq w) (heap_fun (slot_at (cs_heap w))) (slot_at (callers w)) (slot_at (takers w)) ow K (answers w) (posted w)"
    using rpc_invD(2) [OF I] by (simp add: parts_ok_def)
  have "K r = Some (k, i, q)" using T(7) by (simp add: caller_ok_def)
  then have "q = p" using data_okD(4) [OF d, of p] bucket_owner [OF I b] by (auto simp: slot_ok_def in_use_def)
  then show False using T(1) bucket_owner [OF I b] by simp
qed

lemma timers_removed:
  assumes I: "rpc_inv w ow K" and T: "timers_ok w" and rem: "removed w r x w1" and tm: "x \<noteq> None \<and> sd_timers w1 = gm_del (sd_timers w) (cs_timerID (cs_heap w ! the x)) \<or> sd_timers w1 = sd_timers w"
    and w': "cs_heap w' = cs_heap w \<or> x \<noteq> None \<and> cs_heap w' = (cs_heap w)[the x := s]" "bucket_map w' = bucket_map w1" "sd_timers w' = sd_timers w1" "callers w' = callers w" "sd_next w' = sd_next w"
      "rm_closed w' = rm_closed w"
    and tk: "\<And>r' t. T_Fire r' \<in> set (takers w) \<Longrightarrow> relies w' r' t \<Longrightarrow> T_Fire r' \<in> set (takers w')"
  shows "timers_ok w'"
proof (rule timers_ok_less [OF T])
  have b: "bucket_map w' r' = Some p' \<Longrightarrow> bucket_map w r' = Some p' \<and> (x \<noteq> None \<longrightarrow> r' \<noteq> r)" for r' p'
    using rem w'(2) by (auto simp: removed_def split: if_splits)
  have ne: "p' \<noteq> the x" if "bucket_map w' r' = Some p'" "x \<noteq> None" for r' p'
  proof
    assume "p' = the x"
    then have "bucket_map w r = Some p'" using rem that(2) by (auto simp: removed_def)
    then show False using b [OF that(1)] that(2) bucket_owner [OF I, of r p'] bucket_owner [OF I, of r' p'] by auto
  qed
  have same: "cs_timerID (cs_heap w' ! p') = cs_timerID (cs_heap w ! p')" if "bucket_map w' r' = Some p'" for r' p'
    using w'(1) ne [OF that] by auto
  show rel: "relies w r' t" if "relies w' r' t" for r' t using that same b w'(4) unfolding relies_def by metis
  show "has_timer w' r' t" if rt: "relies w' r' t" "has_timer w r' t" for r' t
  proof (cases "T_Fire r' \<in> set (takers w)")
    case True
    then show ?thesis using tk [of r' t] rt(1) by (simp add: has_timer_def)
  next
    case False
    then have g: "gm_get (sd_timers w) t = Some r'" using rt(2) by (simp add: has_timer_def)
    have "t \<noteq> cs_timerID (cs_heap w ! the x)" if x: "x \<noteq> None"
    proof
      assume t: "t = cs_timerID (cs_heap w ! the x)"
      have bx: "bucket_map w r = Some (the x)" using rem x by (auto simp: removed_def)
      then have "relies w r t" using t by (auto simp: relies_def)
      then have "r = r'" using T g by (auto simp: timers_ok_def)
      then show False using rt(1) b [of r'] x not_inserting [OF I bx] w'(4) by (auto simp: relies_def)
    qed
    then have "gm_get (sd_timers w') t = Some r'" using g tm w'(3) by (auto simp: delete_conv')
    then show ?thesis by (simp add: has_timer_def)
  qed
  show "gm_get (sd_timers w) t = Some r'" if "gm_get (sd_timers w') t = Some r'" for t r'
    using that tm w'(3) by (auto simp: delete_conv' split: if_splits)
qed (use w' in auto)

subsection \<open>Every step keeps the timers\<close>

text \<open>Only the state \<open>p\<close> is written, or a new one is made.\<close>

definition writes_only :: "nat \<Rightarrow> rpc_world \<Rightarrow> rpc_world \<Rightarrow> bool" where
  "writes_only p w w1 \<longleftrightarrow> (cs_heap w1 = cs_heap w \<or> (\<exists>s. cs_heap w1 = (cs_heap w)[p := s] \<or> cs_heap w1 = cs_heap w @ [s])) \<and> bucket_map w1 = bucket_map w
     \<and> sd_timers w1 = sd_timers w \<and> sd_next w1 = sd_next w \<and> rm_closed w1 = rm_closed w \<and> callers w1 = callers w \<and> takers w1 = takers w"

lemma writes_put: "writes_only p w (cs_Put p w)"
  and writes_result: "writes_only p w (SetResult p a w)"
  and writes_complete: "writes_only p w (CallState_Complete p w)"
  and writes_complete_result: "writes_only p w (CallState_Complete p (SetResult p a w))"
  and writes_posted: "writes_only p w (w \<lparr> posted := js \<rparr>)" "writes_only p w w"
  by (auto simp: writes_only_def cs_Put_def SetResult_def CallState_Complete_def signalDone_def Let_def)

lemma timers_write:
  assumes "rpc_inv w ow K" "timers_ok w" "\<And>r. ow p \<noteq> O_Bucket r" "writes_only p w w1"
    and "bucket_map w' = bucket_map w1" "cs_heap w' = cs_heap w1" "sd_timers w' = sd_timers w1" "sd_next w' = sd_next w1" "rm_closed w' = rm_closed w1"
    and "\<And>k r p t. C_Insert k r p t \<in> set (callers w') \<Longrightarrow> C_Insert k r p t \<in> set (callers w)"
    and "\<And>r. T_Fire r \<in> set (takers w) \<Longrightarrow> T_Fire r \<in> set (takers w')"
  shows "timers_ok w'"
proof -
  obtain s where "cs_heap w1 = cs_heap w \<or> cs_heap w1 = (cs_heap w)[p := s] \<or> cs_heap w1 = cs_heap w @ [s]" "bucket_map w1 = bucket_map w"
      "sd_timers w1 = sd_timers w" "sd_next w1 = sd_next w" "rm_closed w1 = rm_closed w"
    using assms(4) unfolding writes_only_def by blast
  then show ?thesis using assms(5-) by (intro timers_quiet [OF assms(1-3), of w' s]) auto
qed

lemma timers_caller:
  assumes I: "rpc_inv w ow K" and T: "timers_ok w" and i: "i < length (callers w)" and "\<And>r. ow p \<noteq> O_Bucket r" "writes_only p w w1"
    and c': "\<And>k r p t. c' \<noteq> C_Insert k r p t"
  shows "timers_ok (w1 \<lparr> callers := (callers w1)[i := c'] \<rparr>)"
  using assms(5) c' by (intro timers_write [OF I T assms(4,5)]) (auto simp: writes_only_def dest!: set_update_subset_insert [THEN subsetD])

lemma timers_taker:
  assumes I: "rpc_inv w ow K" and T: "timers_ok w" and t: "slot_at (takers w) j = Some t" "taker_owns t = Some p" and w1: "writes_only p w w1"
  shows "timers_ok (w1 \<lparr> takers := (takers w1)[j := t'] \<rparr>)"
proof -
  have "ow p = O_Taker j" using taker_has(1) [OF rpc_invD(2) [OF I] t] .
  moreover have "takers w ! j \<noteq> T_Fire r" for r using t by (auto simp: slot_at_Some taker_owns_def)
  then have "T_Fire r \<in> set ((takers w)[j := t'])" if "T_Fire r \<in> set (takers w)" for r using in_set_update_other [OF that] by simp
  ultimately show ?thesis using w1 by (intro timers_write [OF I T _ w1]) (auto simp: writes_only_def)
qed

lemma free_pointer: "rpc_inv w ow K \<Longrightarrow> ow (length (cs_heap w)) = O_None"
  using owners_at(5) [of "cs_pool w" "slot_at (cs_heap w)" "bucket_map w" "caller_claims (slot_at (callers w))" "taker_claims (slot_at (takers w))" ow "length (cs_heap w)"]
  by (simp add: rpc_inv_def parts_ok_def slot_at_def)

lemma timers_same:
  assumes I: "rpc_inv w ow K" and "timers_ok w" "cs_heap w' = cs_heap w" "bucket_map w' = bucket_map w" "sd_timers w' = sd_timers w" "sd_next w' = sd_next w" "rm_closed w' = rm_closed w"
    and "\<And>k r p t. C_Insert k r p t \<in> set (callers w') \<Longrightarrow> C_Insert k r p t \<in> set (callers w)"
    and "\<And>r. T_Fire r \<in> set (takers w) \<Longrightarrow> T_Fire r \<in> set (takers w')"
  shows "timers_ok w'"
proof (rule timers_write [OF I assms(2), of "length (cs_heap w)" w])
  show "writes_only (length (cs_heap w)) w w" by (simp add: writes_only_def)
qed (use assms(3-) free_pointer [OF I] in simp_all)

lemma timers_fire:
  assumes T: "timers_ok w" and t: "gm_get (sd_timers w) t = Some r"
    and w': "w' = w \<lparr> sd_timers := gm_del (sd_timers w) t, takers := takers w @ [T_Fire r] \<rparr>"
  shows "timers_ok w'"
proof (rule timers_ok_less [OF T])
  show rel: "relies w r' t'" if "relies w' r' t'" for r' t' using that by (simp add: relies_def w')
  show "has_timer w' r' t'" if "relies w' r' t'" "has_timer w r' t'" for r' t'
    using that(2) t by (cases "t' = t") (auto simp: has_timer_def w' delete_conv')
  show "gm_get (sd_timers w) t' = Some r'" if "gm_get (sd_timers w') t' = Some r'" for t' r'
    using that by (auto simp: w' delete_conv' split: if_splits)
qed (simp_all add: w')

lemma timers_insert:
  assumes I: "rpc_inv w ow K" and T: "timers_ok w" and c: "slot_at (callers w) i = Some (C_Insert k r p t)"
    and w1: "w1 = bucket_Add r p (upd_state p (\<lambda>s. s \<lparr> cs_timerID := t \<rparr>) w)"
  shows "timers_ok (w1 \<lparr> callers := (callers w1)[i := C_Deliver k r p] \<rparr>)"
proof (rule timers_ok_less [OF T])
  have own: "caller_owns (C_Insert k r p t) = Some p" by (simp add: caller_owns_def)
  note H = caller_has [OF rpc_invD(2) [OF I] c own]
  have p: "p < length (cs_heap w)" by (rule heap_at(1) [OF I H(2)])
  have ins: "C_Insert k r p t \<in> set (callers w)" using c by (auto simp: slot_at_Some in_set_conv_nth)
  have b: "bucket_map w1 = (bucket_map w)(r \<mapsto> p)" using rpc_invD(1) [OF I] by (simp add: w1 bucket_map_Add)
  have hp: "cs_heap w1 = (cs_heap w)[p := (cs_heap w ! p) \<lparr> cs_timerID := t \<rparr>]" "callers w1 = callers w" "takers w1 = takers w" "sd_timers w1 = sd_timers w"
    by (simp_all add: w1 bucket_Add_def)
  have other: "cs_timerID (cs_heap w1 ! q) = cs_timerID (cs_heap w ! q)" if "bucket_map w r' = Some q" for r' q
    using timerID_other [OF I that] H(1) hp(1) by simp
  show "relies w r' t'" if "relies (w1 \<lparr> callers := (callers w1)[i := C_Deliver k r p] \<rparr>) r' t'" for r' t'
    using that other ins p hp b
    by (auto simp: relies_def split: if_splits dest!: set_update_subset_insert [THEN subsetD])
  show "has_timer (w1 \<lparr> callers := (callers w1)[i := C_Deliver k r p] \<rparr>) r' t'" if "has_timer w r' t'" for r' t'
    using that hp by (simp add: has_timer_def)
qed (simp_all add: w1 bucket_Add_def)

lemma timers_take:
  assumes I: "rpc_inv w ow K" and T: "timers_ok w" and t: "slot_at (takers w) j = Some t" and step: "taker_step ok t w = Some (t', w1)"
    and kind: "t = T_Fire r \<and> (\<forall>k p t. C_Insert k r p t \<notin> set (callers w)) \<or> t = R_Take b r a \<or> t = X_Take r"
  shows "timers_ok (w1 \<lparr> takers := (takers w1)[j := t'] \<rparr>)"
proof -
  note B = rpc_invD(1) [OF I]
  have open': "\<not> rm_closed w" using T by (simp add: timers_ok_def)
  obtain x w2 where x: "(if t = T_Fire r then monitor_remove r w else monitor_Remove r w) = (x, w2)" by fastforce
  have rem: "removed w r x w2" using x monitor_remove_removed [OF B] monitor_Remove_removed [OF B] by (auto split: if_splits)
  have tm: "x \<noteq> None \<and> sd_timers w2 = gm_del (sd_timers w) (cs_timerID (cs_heap w ! the x)) \<or> sd_timers w2 = sd_timers w"
    using x by (cases "bucket_Get r w") (auto simp: monitor_Remove_def monitor_remove_def bucket_Del_def CancelTimer_def split: if_splits dest!: sym [of "Some _"])
  have w1: "w1 = w2 \<or> x \<noteq> None \<and> (\<exists>s. w1 = w2 \<lparr> cs_heap := (cs_heap w2)[the x := s] \<rparr>)"
    using step kind x by (auto simp: taker_step_def split: option.splits prod.splits if_splits)
  have w2: "cs_heap w2 = cs_heap w" "callers w2 = callers w" "takers w2 = takers w" "sd_next w2 = sd_next w" "rm_closed w2 = rm_closed w"
    using rem by (auto simp: removed_def)
  have "\<exists>s. cs_heap w1 = cs_heap w \<or> x \<noteq> None \<and> cs_heap w1 = (cs_heap w)[the x := s]" using w1 w2(1) by fastforce
  then obtain s where s: "cs_heap w1 = cs_heap w \<or> x \<noteq> None \<and> cs_heap w1 = (cs_heap w)[the x := s]" by blast
  have "T_Fire r' \<in> set ((takers w)[j := t'])" if f: "T_Fire r' \<in> set (takers w)" and "relies (w1 \<lparr> takers := (takers w1)[j := t'] \<rparr>) r' q" for r' q
  proof (cases "t = T_Fire r'")
    case True
    then have r': "r' = r" "\<forall>k p t. C_Insert k r p t \<notin> set (callers w)" using kind by auto
    have "bucket_map w1 r = None"
    proof (cases x)
      case None
      have "bucket_map w 0 = None" using T unfolding timers_ok_def relies_def by (metis less_irrefl not_None_eq)
      then have "bucket_map w r = None" using x True r'(1) open' None
        by (auto simp: monitor_remove_def bucket_Del_def bucket_map_def split: if_splits)
      then show ?thesis using rem w1 None by (auto simp: removed_def)
    next
      case (Some p)
      then show ?thesis using rem w1 by (auto simp: removed_def)
    qed
    then show ?thesis using that(2) r' w1 w2 by (auto simp: relies_def)
  next
    case False
    then show ?thesis using in_set_update_other [OF f, of j t'] t by (auto simp: slot_at_Some)
  qed
  then show ?thesis using w1 w2 s by (intro timers_removed [OF I T rem tm, of _ s]) auto
qed

lemma new_writes:
  assumes I: "rpc_inv w ow K" and step: "caller_step pick ok (C_New k) w = Some (c', w1)"
  shows "\<exists>p. writes_only p w w1 \<and> (ow p = O_Free \<or> ow p = O_None)"
proof (cases "\<exists>j. pick = Some j \<and> j < length (cs_pool w)")
  case True
  then obtain j where j: "pick = Some j" "j < length (cs_pool w)" by blast
  then have "ow (cs_pool w ! j) = O_Free" using rpc_invD(2) [OF I] owners_at(1) unfolding parts_ok_def by (metis nth_mem)
  moreover have "writes_only (cs_pool w ! j) w w1"
    using step j by (auto simp: caller_step_def NewCallState_def cs_Get_def writes_only_def Let_def)
  ultimately show ?thesis by blast
next
  case False
  have "writes_only (length (cs_heap w)) w w1"
    using step False by (auto simp: caller_step_def NewCallState_def cs_Get_def writes_only_def Let_def split: option.splits)
  then show ?thesis using free_pointer [OF I] by blast
qed

lemma timers_call_step:
  assumes I: "rpc_inv w ow K" and T: "timers_ok w" and c: "slot_at (callers w) i = Some c" and step: "caller_step pick ok c w = Some (c', w1)"
    and good: "\<not> fails_delivery (A_Caller i pick ok) w"
  shows "timers_ok (w1 \<lparr> callers := (callers w1)[i := c'] \<rparr>)"
proof -
  have i: "i < length (callers w)" using c by (simp add: slot_at_Some)
  have cok: "caller_ok (heap_fun (slot_at (cs_heap w))) (slot_at (takers w)) ow K (answers w) i c"
    using rpc_invD(2) [OF I] data_okD(2) c by (auto simp: parts_ok_def)
  have own: "\<And>r. ow p \<noteq> O_Bucket r" if "caller_owns c = Some p" for p using caller_has(1) [OF rpc_invD(2) [OF I] c that] by simp
  have same: "timers_ok (w1 \<lparr> callers := (callers w1)[i := c'] \<rparr>)" if "w1 = w \<lparr> requests := rq \<rparr>" "\<And>k r p t. c' \<noteq> C_Insert k r p t" for rq
    using that by (intro timers_same [OF I T]) (auto dest!: set_update_subset_insert [THEN subsetD])
  show ?thesis
  proof (cases c)
    case (C_New k)
    obtain p where p: "writes_only p w w1" "ow p = O_Free \<or> ow p = O_None" using new_writes [OF I] step C_New by blast
    show ?thesis using p(2) step C_New by (intro timers_caller [OF I T i _ p(1)]) (auto simp: caller_step_def Let_def split: prod.splits)
  next
    case (C_Add k r p)
    have r: "0 < r" using cok C_Add rpc_invD(2) [OF I] data_okD(1) by (fastforce simp: caller_ok_def parts_ok_def)
    show ?thesis
    proof (cases "rm_closed w \<or> \<not> ok")
      case True
      then have "c' = C_Deliver k r p" "\<exists>a. w1 = CallState_Complete p (SetResult p a w)" using step C_Add by (auto simp: caller_step_def split: if_splits)
      then show ?thesis using own [of p] C_Add writes_complete_result by (auto simp: caller_owns_def intro!: timers_caller [OF I T i])
    next
      case False
      then show ?thesis using step C_Add r c by (intro timers_new [OF T i _ r, of k p]) (auto simp: caller_step_def slot_at_Some)
    qed
  next
    case (C_Insert k r p t)
    then show ?thesis using timers_insert [OF I T _ refl, of i k r p t] c step by (auto simp: caller_step_def)
  next
    case (C_Deliver k r p)
    then have "ok" using good c by (auto simp: fails_delivery_def slot_at_Some)
    then show ?thesis using step C_Deliver by (intro same [of "r # requests w"]) (auto simp: caller_step_def)
  next
    case (C_Sent k r p)
    then show ?thesis using step by (intro same [of "requests w"]) (auto simp: caller_step_def split: if_splits call_kind.splits)
  next
    case (C_Wait r p)
    then have d: "cs_done (cs_heap w ! p)" and w1: "w1 = upd_state p (\<lambda>s. s \<lparr> cs_done := False \<rparr>) w" "c' = C_Read r p"
      using step by (auto simp: caller_step_def split: if_splits)
    have "in_use (ow p)" using cok C_Wait by (auto simp: caller_ok_def waits_ok_def in_use_def)
    then obtain s where s: "slot_at (cs_heap w) p = Some s" using parts_state [OF rpc_invD(2) [OF I], of p] by blast
    then have "ow p = O_Done" using owners_flags [of _ _ _ _ _ ow p s] rpc_invD(2) [OF I] d by (auto simp: parts_ok_def slot_at_Some)
    then show ?thesis using w1 by (intro timers_caller [OF I T i, of p]) (auto simp: writes_only_def)
  next
    case (C_Read r p)
    then show ?thesis using step by (intro same [of "requests w"]) (auto simp: caller_step_def)
  next
    case (C_Release r p a)
    then show ?thesis using step own [of p] writes_put by (auto simp: caller_step_def caller_owns_def intro!: timers_caller [OF I T i])
  qed (use cok step in \<open>auto simp: caller_ok_def caller_step_def\<close>)
qed

lemma timers_taker_step:
  assumes I: "rpc_inv w ow K" and T: "timers_ok w" and t: "slot_at (takers w) j = Some t" and step: "taker_step ok t w = Some (t', w1)"
    and good: "\<not> fires_early (A_Taker j ok) w"
  shows "timers_ok (w1 \<lparr> takers := (takers w1)[j := t'] \<rparr>)"
proof (cases "taker_owns t")
  case None
  show ?thesis
  proof (cases t)
    case (T_Fire r)
    then show ?thesis using good t by (intro timers_take [OF I T t step, of r False "(0, None)"]) (auto simp: fires_early_def inserting_def slot_at_Some)
  next
    case (R_Take b r a)
    then show ?thesis by (intro timers_take [OF I T t step, of r b a]) auto
  next
    case (X_Take r)
    then show ?thesis by (intro timers_take [OF I T t step, of r False "(0, None)"]) auto
  qed (use None step in \<open>auto simp: taker_owns_def taker_step_def\<close>)
next
  case (Some p)
  have "writes_only p w w1" using step Some
    by (cases t) (auto simp: taker_step_def taker_owns_def intro: writes_put writes_result writes_complete writes_posted split: if_splits)
  then show ?thesis by (rule timers_taker [OF I T t Some])
qed

lemma rpc_step_timers:
  assumes ok: "rpc_ok w" and T: "timers_ok w" and step: "rpc_step act w = Some w'" and good: "\<not> fails_delivery act w" "\<not> fires_early act w" "\<not> loses_timer act" "act \<noteq> A_Close"
  shows "timers_ok w'"
proof -
  obtain ow K where I: "rpc_inv w ow K" using ok by (auto simp: rpc_ok_def inv_with_def)
  show ?thesis
  proof (cases act)
    case (A_Caller i pick b)
    then show ?thesis using timers_call_step [OF I T, of i "callers w ! i" pick b] step good(1)
      by (auto simp: rpc_step_def slot_at_Some split: if_splits)
  next
    case (A_Timer t)
    then show ?thesis using timers_fire [OF T _ refl, of t] step by (auto simp: rpc_step_def split: option.splits)
  next
    case (A_Taker j b)
    then show ?thesis using timers_taker_step [OF I T, of j "takers w ! j" b] step good(2)
      by (auto simp: rpc_step_def slot_at_Some split: if_splits)
  qed (use step good(3,4) in \<open>auto simp: rpc_step_def loses_timer_def split: if_splits intro!: timers_same [OF I T]\<close>)
qed

section \<open>A waiting call comes to an end\<close>

definition bad_race :: "rpc_act \<Rightarrow> rpc_world \<Rightarrow> bool" where
  "bad_race act w \<longleftrightarrow> fails_delivery act w \<or> fires_early act w \<or> loses_timer act \<or> act = A_Close"

lemma rpc_reach_timers: "rpc_reach bad_race (NewRpcMonitor bc) w \<Longrightarrow> rpc_ok w \<and> timers_ok w"
proof (induction rule: rpc_reach.induct)
  case reach_start
  have "bucket_map (NewRpcMonitor bc) = Map.empty"
    using bucketIndex_less [OF initBuckets_ok [of bc]]
    by (auto simp: bucket_map_def bucket_Get_def NewRpcMonitor_def initBuckets_def bucketIndex_def Let_def fun_eq_iff)
  then show ?case using NewRpcMonitor_ok by (auto simp: timers_ok_def relies_def) (simp_all add: NewRpcMonitor_def)
next
  case (reach_step w act w')
  then show ?case using rpc_step_ok rpc_step_timers unfolding bad_race_def by blast
qed

text \<open>The taker that completes the state of a synchronous call, alone.\<close>

definition taker_run :: "nat \<Rightarrow> nat \<Rightarrow> rpc_act list" where
  "taker_run m j = replicate m (A_Taker j True)"

lemma taker_finishes:
  assumes j: "j < length (takers w)" "completing p (takers w ! j)" and p: "p < length (cs_heap w)" "cs_callbacks (cs_heap w ! p) = []"
  shows "\<exists>m w'. m \<le> 2 \<and> rpc_exec (taker_run m j) w = Some w' \<and> cs_done (cs_heap w' ! p) \<and> callers w' = callers w"
proof -
  have c: "\<exists>w'. rpc_exec (taker_run 1 j) w2 = Some w' \<and> cs_done (cs_heap w' ! p) \<and> callers w' = callers w2"
    if "j < length (takers w2)" "takers w2 ! j = T_Complete p \<or> takers w2 ! j = R_Complete p" "p < length (cs_heap w2)" "cs_callbacks (cs_heap w2 ! p) = []" for w2
    using that by (auto simp: taker_run_def rpc_step_def taker_step_def CallState_Complete_def NeedCallback_def signalDone_def)
  have s: "\<exists>w'. rpc_exec (taker_run 2 j) w = Some w' \<and> cs_done (cs_heap w' ! p) \<and> callers w' = callers w"
    if "takers w ! j = T_Set p \<or> takers w ! j = R_Set p a" for a
    using that j(1) p
    by (auto simp: taker_run_def numeral_2_eq_2 rpc_step_def taker_step_def SetResult_def CallState_Complete_def NeedCallback_def signalDone_def)
  have "(takers w ! j = T_Complete p \<or> takers w ! j = R_Complete p) \<or> (\<exists>a. takers w ! j = T_Set p \<or> takers w ! j = R_Set p a)"
    using j(2) by (cases "takers w ! j") (auto simp: completing_def)
  then show ?thesis using c [OF j(1) _ p] s by (meson one_le_numeral order_refl)
qed

lemma rpc_exec_append: "rpc_exec (as @ bs) w = Option.bind (rpc_exec as w) (rpc_exec bs)"
  by (induction as arbitrary: w) (auto split: option.splits)

text \<open>The timer callback of a registered synchronous call, from its start.\<close>

lemma fire_finishes:
  assumes j: "j < length (takers w)" "takers w ! j = T_Fire r" and w: "buckets_ok w" "\<not> rm_closed w" "0 < r" "bucket_map w r = Some p"
    and p: "p < length (cs_heap w)" "cs_callbacks (cs_heap w ! p) = []"
  shows "\<exists>m w'. m \<le> 3 \<and> rpc_exec (taker_run m j) w = Some w' \<and> cs_done (cs_heap w' ! p) \<and> callers w' = callers w"
proof -
  obtain w1 where w1: "monitor_remove r w = (Some p, w1)" using w(2-4) by (auto simp: monitor_remove_def bucket_Del_def bucket_map_def)
  let ?w = "w1 \<lparr> takers := (takers w1)[j := T_Set p] \<rparr>"
  have keep: "takers w1 = takers w" "cs_heap w1 = cs_heap w" "callers w1 = callers w" using monitor_remove_removed [OF w(1) w1] by (auto simp: removed_def)
  have step: "rpc_step (A_Taker j True) w = Some ?w" using j w1 by (simp add: rpc_step_def taker_step_def)
  obtain m w' where m: "m \<le> 2" "rpc_exec (taker_run m j) ?w = Some w'" "cs_done (cs_heap w' ! p)" "callers w' = callers ?w"
    using taker_finishes [of j ?w p] keep j(1) p by (auto simp: completing_def)
  have "rpc_exec (taker_run (Suc m) j) w = Some w'" using step m(2) by (simp add: taker_run_def)
  then show ?thesis using m(1,3,4) keep by (intro exI [of _ "Suc m"] exI [of _ w']) auto
qed

lemma waiting_finishes:
  assumes ok: "rpc_ok w" and T: "timers_ok w" and i: "i < length (callers w)" "callers w ! i = C_Wait r p"
  shows "\<exists>acts w'. length acts \<le> 4 \<and> (\<forall>act \<in> set acts. (\<exists>t. act = A_Timer t) \<or> (\<exists>j. act = A_Taker j True))
     \<and> rpc_exec acts w = Some w' \<and> cs_done (cs_heap w' ! p) \<and> callers w' ! i = C_Wait r p \<and> length (callers w') = length (callers w)"
proof -
  obtain ow K where I: "rpc_inv w ow K" using ok by (auto simp: rpc_ok_def inv_with_def)
  note P = rpc_invD(2) [OF I]
  have o: "owners (cs_pool w) (slot_at (cs_heap w)) (bucket_map w) (caller_claims (slot_at (callers w))) (taker_claims (slot_at (takers w))) ow"
    and d: "data_ok (rm_seq w) (heap_fun (slot_at (cs_heap w))) (slot_at (callers w)) (slot_at (takers w)) ow K (answers w) (posted w)"
    using P by (auto simp: parts_ok_def)
  have c: "slot_at (callers w) i = Some (C_Wait r p)" using i by (simp add: slot_at_Some)
  have K: "K r = Some (SyncCall, i, p)" and wait: "waits_ok (heap_fun (slot_at (cs_heap w))) (slot_at (takers w)) ow r p"
    using data_okD(2) [OF d c] by (auto simp: caller_ok_def)
  have "in_use (ow p)" using wait by (auto simp: waits_ok_def in_use_def)
  then obtain s where s: "slot_at (cs_heap w) p = Some s" using parts_state [OF P, of p] by blast
  note h = heap_at [OF I s]
  have cb: "cs_callbacks (cs_heap w ! p) = [] \<or> cancelling (slot_at (takers w)) ow p"
    using data_okD(4) [OF d, of p] wait K h(2) \<open>in_use (ow p)\<close> by (auto simp: slot_ok_def waits_ok_def kind_callbacks_def)
  have take: ?thesis if "m \<le> 3" "rpc_exec (taker_run m j) w = Some w'" "cs_done (cs_heap w' ! p)" "callers w' = callers w" for j m w'
    using that i(2) by (intro exI [of _ "taker_run m j"] exI [of _ w']) (auto simp: taker_run_def)
  consider (bucket) "ow p = O_Bucket r" | (done') "ow p = O_Done" | (taker) j t where "ow p = O_Taker j" "slot_at (takers w) j = Some t" "completing p t"
    using wait by (auto simp: waits_ok_def)
  then show ?thesis
  proof cases
    case done'
    then have "cs_done (cs_heap w ! p)" using owners_flags [OF o s] s by (auto simp: slot_at_Some)
    then show ?thesis using i(2) by (intro exI [of _ "[]"] exI [of _ w]) simp
  next
    case taker
    then have "cs_callbacks (cs_heap w ! p) = []" using cb by (auto simp: cancelling_def completing_def)
    then obtain m w' where "m \<le> 2" "rpc_exec (taker_run m j) w = Some w'" "cs_done (cs_heap w' ! p)" "callers w' = callers w"
      using taker_finishes [of j w p] taker h(1) by (auto simp: slot_at_Some)
    then show ?thesis by (intro take [of m j w']) auto
  next
    case bucket
    then have b: "bucket_map w r = Some p" and cb0: "cs_callbacks (cs_heap w ! p) = []" using owners_at(3) [OF o] cb by (auto simp: cancelling_def)
    have "relies w r (cs_timerID (cs_heap w ! p))" using b by (auto simp: relies_def)
    then have ht: "has_timer w r (cs_timerID (cs_heap w ! p))" "0 < r" "\<not> rm_closed w" using T by (auto simp: timers_ok_def)
    show ?thesis
    proof (cases "T_Fire r \<in> set (takers w)")
      case True
      then obtain j where j: "j < length (takers w)" "takers w ! j = T_Fire r" by (auto simp: in_set_conv_nth)
      from fire_finishes [OF j rpc_invD(1) [OF I] ht(3,2) b h(1) cb0] take show ?thesis by blast
    next
      case False
      let ?t = "cs_timerID (cs_heap w ! p)"
      let ?w = "w \<lparr> sd_timers := gm_del (sd_timers w) ?t, takers := takers w @ [T_Fire r] \<rparr>"
      have step: "rpc_step (A_Timer ?t) w = Some ?w" using ht(1) False by (simp add: has_timer_def rpc_step_def)
      obtain m w' where m: "m \<le> 3" "rpc_exec (taker_run m (length (takers w))) ?w = Some w'" "cs_done (cs_heap w' ! p)" "callers w' = callers w"
        using fire_finishes [of "length (takers w)" ?w r p] rpc_invD(1) [OF I] ht(2,3) b h(1) cb0 by auto
      show ?thesis using step m i(2)
        by (intro exI [of _ "A_Timer ?t # taker_run m (length (takers w))"] exI [of _ w']) (auto simp: taker_run_def)
    qed
  qed
qed

section \<open>A timer that fires before the registration\<close>

text \<open>A caller waits for a registered state and nothing that could take the state is left.\<close>

definition takes :: "nat \<Rightarrow> taker \<Rightarrow> bool" where
  "takes r t = (case t of T_Fire r' \<Rightarrow> r' = r | X_Take r' \<Rightarrow> r' = r | R_Take remote r' a \<Rightarrow> r' = r | _ \<Rightarrow> False)"

definition unwatched :: "rpc_world \<Rightarrow> nat \<Rightarrow> nat \<Rightarrow> nat \<Rightarrow> bool" where
  "unwatched w i r p \<longleftrightarrow> i < length (callers w) \<and> callers w ! i = C_Wait r p \<and> bucket_map w r = Some p \<and> (\<forall>t. gm_get (sd_timers w) t \<noteq> Some r)
     \<and> (\<forall>t \<in> set (takers w). \<not> takes r t)"

definition answers_request :: "nat \<Rightarrow> rpc_act \<Rightarrow> bool" where
  "answers_request r act = (case act of A_Answer remote r' a \<Rightarrow> r' = r | _ \<Rightarrow> False)"

lemma caller_step_effect:
  assumes "rpc_inv w ow K" "caller_step pick ok c w = Some (c', w1)" "\<And>k r p. c \<noteq> C_Fail k r p"
  shows "callers w1 = callers w" "takers w1 = takers w"
    "bucket_map w1 = bucket_map w \<or> (\<exists>k r p t. c = C_Insert k r p t \<and> bucket_map w1 = (bucket_map w)(r \<mapsto> p))"
    "sd_timers w1 = sd_timers w \<or> (\<exists>k r p. c = C_Add k r p \<and> sd_timers w1 = (sd_next w, r) # sd_timers w)"
proof -
  have ins: "bucket_map (bucket_Add r p (upd_state p f w)) = (bucket_map w)(r \<mapsto> p)" for r p f
    using bucket_map_Add [of "upd_state p f w" r p] rpc_invD(1) [OF assms(1)] by simp
  have w: "callers w1 = callers w \<and> takers w1 = takers w
    \<and> (bucket_map w1 = bucket_map w \<or> (\<exists>k r p t. c = C_Insert k r p t \<and> bucket_map w1 = (bucket_map w)(r \<mapsto> p)))
    \<and> (sd_timers w1 = sd_timers w \<or> (\<exists>k r p. c = C_Add k r p \<and> sd_timers w1 = (sd_next w, r) # sd_timers w))" if "writes_only p w w1" for p
    using that by (simp add: writes_only_def)
  have "callers w1 = callers w \<and> takers w1 = takers w
    \<and> (bucket_map w1 = bucket_map w \<or> (\<exists>k r p t. c = C_Insert k r p t \<and> bucket_map w1 = (bucket_map w)(r \<mapsto> p)))
    \<and> (sd_timers w1 = sd_timers w \<or> (\<exists>k r p. c = C_Add k r p \<and> sd_timers w1 = (sd_next w, r) # sd_timers w))"
  proof (cases c)
    case (C_New k)
    then show ?thesis using new_writes [OF assms(1)] assms(2) w by blast
  next
    case (C_Add k r p)
    then show ?thesis using assms(2) w [of p] writes_complete_result [of p w] by (auto simp: caller_step_def split: if_splits)
  next
    case (C_Insert k r p t)
    then show ?thesis using assms(2) ins by (auto simp: caller_step_def bucket_Add_def)
  next
    case (C_Release r p a)
    then show ?thesis using assms(2) w [of p] writes_put [of p w] by (auto simp: caller_step_def)
  next
    case (C_FailRelease k r p)
    then show ?thesis using assms(2) w [of p] writes_put [of p w] by (auto simp: caller_step_def)
  qed (use assms(2,3) in \<open>auto simp: caller_step_def split: if_splits\<close>)
  then show "callers w1 = callers w" "takers w1 = takers w"
    "bucket_map w1 = bucket_map w \<or> (\<exists>k r p t. c = C_Insert k r p t \<and> bucket_map w1 = (bucket_map w)(r \<mapsto> p))"
    "sd_timers w1 = sd_timers w \<or> (\<exists>k r p. c = C_Add k r p \<and> sd_timers w1 = (sd_next w, r) # sd_timers w)" by auto
qed

lemma taker_step_effect:
  assumes I: "rpc_inv w ow K" and step: "taker_step ok t w = Some (t', w1)" and r: "\<not> takes r t"
  shows "callers w1 = callers w \<and> takers w1 = takers w \<and> bucket_map w1 r = bucket_map w r \<and> (\<forall>t. gm_get (sd_timers w1) t = Some r \<longrightarrow> gm_get (sd_timers w) t = Some r)
     \<and> \<not> takes r t'"
proof -
  note B = rpc_invD(1) [OF I]
  have rem: "callers w2 = callers w \<and> takers w2 = takers w \<and> bucket_map w2 r = bucket_map w r \<and> (\<forall>t. gm_get (sd_timers w2) t = Some r \<longrightarrow> gm_get (sd_timers w) t = Some r)"
    if "monitor_Remove r' w = (x, w2) \<or> monitor_remove r' w = (x, w2)" "r' \<noteq> r" for r' x w2
  proof -
    have "removed w r' x w2" using that(1) monitor_remove_removed [OF B] monitor_Remove_removed [OF B] by blast
    then have "callers w2 = callers w \<and> takers w2 = takers w \<and> bucket_map w2 r = bucket_map w r" using that(2) by (auto simp: removed_def split: if_splits)
    moreover have "sd_timers w2 = sd_timers w \<or> (\<exists>t. sd_timers w2 = gm_del (sd_timers w) t)"
      using that(1) by (auto simp: monitor_Remove_def monitor_remove_def bucket_Del_def CancelTimer_def split: if_splits option.splits prod.splits)
    ultimately show ?thesis by (auto simp: delete_conv' split: if_splits)
  qed
  have w: "callers w1 = callers w \<and> takers w1 = takers w \<and> bucket_map w1 r = bucket_map w r \<and> (\<forall>t. gm_get (sd_timers w1) t = Some r \<longrightarrow> gm_get (sd_timers w) t = Some r)"
    if "writes_only p w w1" for p using that by (simp add: writes_only_def)
  have "(\<exists>p. writes_only p w w1) \<and> \<not> takes r t'"
    if "\<forall>r. t \<noteq> T_Fire r" "\<forall>r. t \<noteq> X_Take r" "\<forall>b r a. t \<noteq> R_Take b r a"
  proof -
    have "\<exists>p. writes_only p w w1" using step that
      by (cases t) (auto simp: taker_step_def intro: writes_put writes_result writes_complete writes_posted split: if_splits)
    moreover have "\<not> takes r t'" using step that by (cases t) (auto simp: taker_step_def takes_def)
    ultimately show ?thesis by blast
  qed
  note other = this
  show ?thesis
  proof (cases t)
    case (T_Fire r')
    obtain x w2 where "monitor_remove r' w = (x, w2)" by fastforce
    then show ?thesis using rem [of r' x w2] step r T_Fire by (auto simp: taker_step_def takes_def split: option.splits)
  next
    case (R_Take b r' a)
    obtain x w2 where "monitor_Remove r' w = (x, w2)" by fastforce
    then show ?thesis using rem [of r' x w2] step r R_Take by (auto simp: taker_step_def takes_def split: option.splits if_splits)
  next
    case (X_Take r')
    obtain x w2 where "monitor_Remove r' w = (x, w2)" by fastforce
    then show ?thesis using rem [of r' x w2] step r X_Take by (auto simp: taker_step_def takes_def split: option.splits)
  qed (use other w in blast)+
qed

lemma unwatchedI:
  assumes "i < length (callers w')" "callers w' ! i = C_Wait r p" "bucket_map w' r = Some p" "\<And>t. gm_get (sd_timers w') t \<noteq> Some r"
    "\<And>t. t \<in> set (takers w') \<Longrightarrow> \<not> takes r t"
  shows "unwatched w' i r p"
  unfolding unwatched_def using assms by blast

lemma unwatchedD:
  assumes "unwatched w i r p"
  shows "i < length (callers w)" "callers w ! i = C_Wait r p" "bucket_map w r = Some p" "gm_get (sd_timers w) t \<noteq> Some r"
    "t' \<in> set (takers w) \<Longrightarrow> \<not> takes r t'"
  using assms unfolding unwatched_def by blast+

lemma unwatched_call_step:
  assumes U: "unwatched w i r p" and I: "rpc_inv w ow K" and step: "rpc_step (A_Caller j pick ok) w = Some w'"
  shows "unwatched w' i r p"
proof -
  have d: "data_ok (rm_seq w) (heap_fun (slot_at (cs_heap w))) (slot_at (callers w)) (slot_at (takers w)) ow K (answers w) (posted w)"
    and ows: "owners (cs_pool w) (slot_at (cs_heap w)) (bucket_map w) (caller_claims (slot_at (callers w))) (taker_claims (slot_at (takers w))) ow"
    using rpc_invD(2) [OF I] by (auto simp: parts_ok_def)
  have K: "K r = Some (SyncCall, i, p)"
    using data_okD(2) [OF d, of i "C_Wait r p"] unwatchedD(1,2) [OF U] by (simp add: slot_at_Some caller_ok_def)
  have b: "ow p = O_Bucket r" using unwatchedD(3) [OF U] owners_at(3) [OF ows] by blast
  then obtain s where s: "slot_at (cs_heap w) p = Some s" using parts_state [OF rpc_invD(2) [OF I], of p] by (auto simp: in_use_def)
  then have asleep: "\<not> cs_done (cs_heap w ! p)" using owners_flags [OF ows s] b by (auto simp: slot_at_Some)
  obtain c' w1 where j: "j < length (callers w)" and c: "caller_step pick ok (callers w ! j) w = Some (c', w1)" and w': "w' = w1 \<lparr> callers := (callers w1)[j := c'] \<rparr>"
    using step by (auto simp: rpc_step_def split: if_splits)
  have "j \<noteq> i" using c asleep unwatchedD(2) [OF U] by (auto simp: caller_step_def)
  have cok: "caller_ok (heap_fun (slot_at (cs_heap w))) (slot_at (takers w)) ow K (answers w) j (callers w ! j)"
    using data_okD(2) [OF d, of j] j by (simp add: slot_at_Some)
  have other: "callers w ! j \<noteq> C_Add k r q" "callers w ! j \<noteq> C_Insert k r q t" "callers w ! j \<noteq> C_Fail k r' q" for k q t r'
    using cok K \<open>j \<noteq> i\<close> by (auto simp: caller_ok_def)
  note e = caller_step_effect [OF I c other(3)]
  have "bucket_map w1 r = Some p" using e(3) other(2) unwatchedD(3) [OF U] by (metis fun_upd_other)
  moreover have "gm_get (sd_timers w1) t \<noteq> Some r" for t
  proof -
    consider "sd_timers w1 = sd_timers w" | r' where "r' \<noteq> r" "sd_timers w1 = (sd_next w, r') # sd_timers w" using e(4) other(1) by metis
    then show ?thesis using unwatchedD(4) [OF U, of t] by cases auto
  qed
  ultimately show ?thesis using unwatchedD(1,2,5) [OF U] \<open>j \<noteq> i\<close> e(1,2) w' by (intro unwatchedI) auto
qed

lemma unwatched_step:
  assumes U: "unwatched w i r p" and "rpc_ok w" and quiet: "\<not> answers_request r act" and step: "rpc_step act w = Some w'"
  shows "unwatched w' i r p"
proof -
  obtain ow K where I: "rpc_inv w ow K" using assms(2) by (auto simp: rpc_ok_def inv_with_def)
  have d: "data_ok (rm_seq w) (heap_fun (slot_at (cs_heap w))) (slot_at (callers w)) (slot_at (takers w)) ow K (answers w) (posted w)"
    using rpc_invD(2) [OF I] by (simp add: parts_ok_def)
  have K: "K r = Some (SyncCall, i, p)"
    using data_okD(2) [OF d, of i "C_Wait r p"] unwatchedD(1,2) [OF U] by (simp add: slot_at_Some caller_ok_def)
  note u = unwatchedD [OF U]
  show ?thesis
  proof (cases act)
    case (A_Call k)
    then show ?thesis using step u by (intro unwatchedI) (auto simp: rpc_step_def nth_append split: if_splits)
  next
    case (A_Caller j pick ok)
    then show ?thesis using unwatched_call_step [OF U I] step by blast
  next
    case (A_Timer t)
    then obtain r' where r': "gm_get (sd_timers w) t = Some r'" and w': "w' = w \<lparr> sd_timers := gm_del (sd_timers w) t, takers := takers w @ [T_Fire r'] \<rparr>"
      using step by (auto simp: rpc_step_def split: option.splits)
    then show ?thesis using u r' by (intro unwatchedI) (auto simp: delete_conv' takes_def)
  next
    case (A_Lose t)
    then obtain r' where "w' = w \<lparr> sd_timers := gm_del (sd_timers w) t \<rparr>" using step by (auto simp: rpc_step_def split: option.splits)
    then show ?thesis using u by (intro unwatchedI) (auto simp: delete_conv')
  next
    case (A_Answer remote r' a)
    then have "r' \<noteq> r" and "w' = w \<lparr> answers := (r', a) # answers w, takers := takers w @ [R_Take remote r' a] \<rparr>"
      using step quiet by (auto simp: rpc_step_def answers_request_def split: if_splits)
    then show ?thesis using u by (intro unwatchedI) (auto simp: takes_def)
  next
    case (A_Cancel r')
    then obtain c where c: "c \<in> set (callers w)" "returned_async r' c" and w': "w' = w \<lparr> takers := takers w @ [X_Take r'] \<rparr>"
      using step by (auto simp: rpc_step_def split: if_splits)
    obtain cbs a where ret: "c = C_Ret (AsyncCall cbs) r' a" using returned_asyncE [OF c(2)] by blast
    obtain k where "slot_at (callers w) k = Some c" using c(1) by (auto simp: in_set_conv_nth slot_at_Some)
    from data_okD(2) [OF d this] have "r' \<noteq> r" using K ret by (auto simp: caller_ok_def)
    then show ?thesis using u w' by (intro unwatchedI) (auto simp: takes_def)
  next
    case (A_Taker j ok)
    then obtain t' w1 where j: "j < length (takers w)" and t: "taker_step ok (takers w ! j) w = Some (t', w1)" and w': "w' = w1 \<lparr> takers := (takers w1)[j := t'] \<rparr>"
      using step by (auto simp: rpc_step_def split: if_splits)
    note e = taker_step_effect [OF I t u(5) [OF nth_mem [OF j]]]
    show ?thesis
    proof (rule unwatchedI)
      show "\<not> takes r t" if "t \<in> set (takers w')" for t
      proof -
        have "t = t' \<or> t \<in> set (takers w)" using that w' e set_update_subset_insert by fastforce
        then show ?thesis using e u(5) by blast
      qed
      show "gm_get (sd_timers w') t \<noteq> Some r" for t using e u(4) w' by auto
    qed (use e u w' in auto)
  next
    case A_Close
    then show ?thesis using step u by (intro unwatchedI) (auto simp: rpc_step_def)
  qed
qed

lemma unwatched_reach:
  assumes "rpc_reach bad w w'" "\<And>act v. answers_request r act \<Longrightarrow> bad act v" "\<And>act v. fails_delivery act v \<Longrightarrow> bad act v"
  shows "rpc_ok w \<Longrightarrow> unwatched w i r p \<Longrightarrow> rpc_ok w' \<and> unwatched w' i r p"
  using assms(1)
proof induction
  case (reach_step v act v')
  then show ?case using assms(2,3) rpc_step_ok [of v] unwatched_step [of v i r p act v'] by blast
qed simp

subsection \<open>Concrete runs\<close>

text \<open>A run that stops at a step that is excluded or not possible.\<close>

fun rpc_run :: "(rpc_act \<Rightarrow> rpc_world \<Rightarrow> bool) \<Rightarrow> rpc_act list \<Rightarrow> rpc_world \<Rightarrow> rpc_world option" where
  "rpc_run bad [] w = Some w"
| "rpc_run bad (a # as) w = (if bad a w then None else case rpc_step a w of None \<Rightarrow> None | Some w1 \<Rightarrow> rpc_run bad as w1)"

lemma rpc_run_reach: "rpc_reach bad w0 w \<Longrightarrow> rpc_run bad as w = Some w' \<Longrightarrow> rpc_reach bad w0 w'"
  by (induction bad as w rule: rpc_run.induct) (auto split: if_splits option.splits intro: reach_step)

lemma rpc_run_reached: "rpc_run bad as w \<noteq> None \<Longrightarrow> rpc_reach bad w (the (rpc_run bad as w))"
  using rpc_run_reach [OF reach_start] by auto

text \<open>
  A synchronous call that waits; one whose timer fired between \<open>ScheduleTimer\<close> and the bucket's \<open>Add\<close>, followed by
  a call that times out and returns; one that is answered.
\<close>

definition call_run :: "rpc_act list" where
  "call_run = A_Call SyncCall # replicate 5 (A_Caller 0 None True)"

definition early_run :: "rpc_act list" where
  "early_run = [A_Call SyncCall, A_Caller 0 None True, A_Caller 0 None True, A_Timer 1, A_Taker 0 True] @ replicate 3 (A_Caller 0 None True)"

definition second_run :: "rpc_act list" where
  "second_run = A_Call SyncCall # replicate 5 (A_Caller 1 None True) @ [A_Timer 2] @ replicate 3 (A_Taker 1 True) @ replicate 3 (A_Caller 1 None True)"

definition answered_run :: "rpc_act list" where
  "answered_run = call_run @ [A_Answer False 1 (42, None), A_Taker 0 True, A_Taker 0 True, A_Taker 0 True] @ replicate 3 (A_Caller 0 None True)"

text \<open>
  Call 1 times out before its delivery fails; call 2 takes over the released state, which call 1 then releases again, so
  that call 3 gets it too. The answer to request 3 wakes call 2.
\<close>

definition double_release_run :: "rpc_act list" where
  "double_release_run =
     A_Call (AsyncCall [7]) # replicate 4 (A_Caller 0 None True) @ [A_Timer 1] @ replicate 3 (A_Taker 0 True)
     @ [A_Call SyncCall, A_Caller 1 (Some 0) True] @ replicate 4 (A_Caller 1 None True)
     @ [A_Caller 0 None False, A_Caller 0 None True, A_Caller 0 None True]
     @ [A_Call SyncCall, A_Caller 2 (Some 0) True] @ replicate 4 (A_Caller 2 None True)
     @ [A_Answer False 3 (42, None)] @ replicate 3 (A_Taker 1 True) @ replicate 3 (A_Caller 1 None True)"

section \<open>Properties\<close>

text \<open>
  C4. As long as no delivery of a request fails, under every interleaving of callers, timers, responses from this and other nodes
  (also repeated or late ones) and cancellations, over reused call states: a synchronous call returns an answer that was given to its own
  request, or the timeout, or the refusal of the monitor; the callbacks of an asynchronous call are posted at most once, with an answer of its own
  request or one of these errors; and no two waiting calls share a state.
\<close>

theorem calls_get_their_own_answer:
  assumes "rpc_reach fails_delivery (NewRpcMonitor bc) w"
  shows "(\<forall>r a. C_Ret SyncCall r a \<in> set (callers w) \<longrightarrow> valid_answer (answers w) r a)
     \<and> distinct (map fst (posted w)) \<and> (\<forall>(r, cbs, a) \<in> set (posted w). valid_answer (answers w) r a)
     \<and> (\<forall>i j r r' p. i < length (callers w) \<and> callers w ! i = C_Wait r p \<and> j < length (callers w) \<and> callers w ! j = C_Wait r' p \<longrightarrow> i = j)"
proof -
  have "rpc_ok w" using assms by (rule rpc_reach_ok)
  then obtain ow K where I: "rpc_inv w ow K" by (auto simp: rpc_ok_def inv_with_def)
  have d: "data_ok (rm_seq w) (heap_fun (slot_at (cs_heap w))) (slot_at (callers w)) (slot_at (takers w)) ow K (answers w) (posted w)"
    using rpc_invD(2) [OF I] by (simp add: parts_ok_def)
  have at: "slot_at (callers w) i = Some c" if "i < length (callers w)" "callers w ! i = c" for i c using that by (simp add: slot_at_Some)
  have ret: "valid_answer (answers w) r a" if ra: "C_Ret SyncCall r a \<in> set (callers w)" for r a
  proof -
    obtain i where "slot_at (callers w) i = Some (C_Ret SyncCall r a)" using ra at by (auto simp: in_set_conv_nth)
    from data_okD(2) [OF d this] show ?thesis by (simp add: caller_ok_def)
  qed
  moreover have "valid_answer (answers w) r a" if "(r, cbs, a) \<in> set (posted w)" for r cbs a
    using data_okD(5) [OF d that] by (auto simp: job_ok_def)
  moreover have "i = j" if "i < length (callers w)" "callers w ! i = C_Wait r p" "j < length (callers w)" "callers w ! j = C_Wait r' p" for i j r r' p
    using waiting_caller [OF d at [OF that(1,2)], of r p] waiting_caller [OF d at [OF that(3,4)], of r' p] by (auto simp: caller_waits_def waits_ok_def)
  ultimately show ?thesis using data_okD(6) [OF d] by blast
qed

theorem calls_get_their_own_answer_witness:
  "valid_answer [(1, (42, None))] 1 (42, None) \<and> C_Ret SyncCall 1 (42, None) \<in> set (callers (the (rpc_run fails_delivery answered_run (NewRpcMonitor 4))))"
proof -
  let ?w = "the (rpc_run fails_delivery answered_run (NewRpcMonitor 4))"
  have "rpc_reach fails_delivery (NewRpcMonitor 4) ?w" by (rule rpc_run_reached) code_simp
  note a = calls_get_their_own_answer [OF this, THEN conjunct1, rule_format, of 1 "(42, None)"]
  have r: "C_Ret SyncCall 1 (42, None) \<in> set (callers ?w)" by code_simp
  have "answers ?w = [(1, (42, None))]" by code_simp
  then show ?thesis using a [OF r] r by simp
qed

text \<open>
  C12. In every run in which no delivery fails, no timer callback overtakes the registration of its call or is dropped on its way (a full channel of the
  scheduler, a refusing goroutine pool), and the monitor stays open,
  a waiting call can always be ended without an answer to its request: at most four steps of its timer and of what took its state, by themselves,
  wake the caller. The next theorem shows what happens without these conditions.
\<close>

theorem waiting_call_ends:
  assumes "rpc_reach bad_race (NewRpcMonitor bc) w" "i < length (callers w)" "callers w ! i = C_Wait r p"
  shows "\<exists>acts w' w''. length acts \<le> 4 \<and> (\<forall>act \<in> set acts. (\<exists>t. act = A_Timer t) \<or> (\<exists>j. act = A_Taker j True))
     \<and> rpc_exec acts w = Some w' \<and> rpc_step (A_Caller i None True) w' = Some w'' \<and> callers w'' ! i = C_Read r p"
proof -
  obtain acts w' where w': "length acts \<le> 4" "\<forall>act \<in> set acts. (\<exists>t. act = A_Timer t) \<or> (\<exists>j. act = A_Taker j True)"
    "rpc_exec acts w = Some w'" "cs_done (cs_heap w' ! p)" "callers w' ! i = C_Wait r p" "length (callers w') = length (callers w)"
    using waiting_finishes [OF _ _ assms(2,3)] rpc_reach_timers [OF assms(1)] by blast
  have "\<exists>w''. rpc_step (A_Caller i None True) w' = Some w'' \<and> callers w'' ! i = C_Read r p"
    using w'(4-6) assms(2) by (auto simp: rpc_step_def caller_step_def)
  then show ?thesis using w' by blast
qed

theorem waiting_call_ends_witness:
  "\<exists>acts w' w''. length acts \<le> 4 \<and> (\<forall>act \<in> set acts. (\<exists>t. act = A_Timer t) \<or> (\<exists>j. act = A_Taker j True))
     \<and> rpc_exec acts (the (rpc_run bad_race call_run (NewRpcMonitor 4))) = Some w' \<and> rpc_step (A_Caller 0 None True) w' = Some w'' \<and> callers w'' ! 0 = C_Read 1 0"
proof -
  let ?w = "the (rpc_run bad_race call_run (NewRpcMonitor 4))"
  have "rpc_reach bad_race (NewRpcMonitor 4) ?w" by (rule rpc_run_reached) code_simp
  moreover have "0 < length (callers ?w)" by code_simp
  moreover have "callers ?w ! 0 = C_Wait 1 0" by code_simp
  ultimately show ?thesis by (rule waiting_call_ends)
qed

text \<open>
  \<open>Add\<close> arms the timer before it puts the state into the bucket. When the callback runs in between, it finds nothing, and the call
  is left without a timer; so is a call whose timer is due while the callback is dropped. Unless its request is answered, no continuation of the run
  ever ends such a call.
\<close>

theorem lost_timer_never_returns:
  assumes "rpc_reach fails_delivery (NewRpcMonitor bc) w" "unwatched w i r p"
    "rpc_reach (\<lambda>act v. fails_delivery act v \<or> answers_request r act) w w'"
  shows "callers w' ! i = C_Wait r p"
  using unwatched_reach [OF assms(3), of r i p] rpc_reach_ok [OF assms(1)] assms(2) unwatchedD(2) by blast

theorem lost_timer_never_returns_witness:
  "callers (the (rpc_run (\<lambda>act v. fails_delivery act v \<or> answers_request 1 act) second_run (the (rpc_run fails_delivery early_run (NewRpcMonitor 4))))) ! 0 = C_Wait 1 0"
proof -
  let ?w = "the (rpc_run fails_delivery early_run (NewRpcMonitor 4))"
  have reach: "rpc_reach fails_delivery (NewRpcMonitor 4) ?w" by (rule rpc_run_reached) code_simp
  have w: "callers ?w = [C_Wait 1 0]" "bucket_map ?w 1 = Some 0" "sd_timers ?w = []" "takers ?w = [T_End]" by code_simp+
  have U: "unwatched ?w 0 1 0" using w by (intro unwatchedI) (simp_all add: takes_def)
  have "rpc_run (\<lambda>act v. fails_delivery act v \<or> answers_request 1 act) second_run ?w \<noteq> None" by code_simp
  from lost_timer_never_returns [OF reach U rpc_run_reached [OF this]] show ?thesis .
qed

text \<open>A waiting call whose due timer was dropped is such a call.\<close>

lemma dropped_timer_is_lost:
  "unwatched (the (rpc_run fails_delivery (call_run @ [A_Lose 1]) (NewRpcMonitor 4))) 0 1 0"
proof -
  let ?w = "the (rpc_run fails_delivery (call_run @ [A_Lose 1]) (NewRpcMonitor 4))"
  have "callers ?w = [C_Wait 1 0]" "bucket_map ?w 1 = Some 0" "sd_timers ?w = []" "takers ?w = []" by code_simp+
  then show ?thesis by (intro unwatchedI) (simp_all add: takes_def)
qed

text \<open>
  When the delivery of a request fails, \<open>call\<close> and \<open>asyncCall\<close> release the call state even if the timeout already did. A state released twice is handed
  to two calls: a synchronous call returns the answer to another request, and the failed asynchronous call reports the error
  and gets its callbacks as well.
\<close>

theorem failed_delivery_crosses_answers:
  "\<exists>w. rpc_reach (\<lambda>_ _. False) (NewRpcMonitor 4) w \<and> answers w = [(3, (42, None))]
     \<and> callers w = [C_Ret (AsyncCall [7]) 1 (0, Some ErrRPCCallFailed), C_Ret SyncCall 2 (42, None), C_Wait 3 0]
     \<and> posted w = [(1, [7], (0, Some ErrRPCCallTimeout))]"
proof -
  let ?w = "the (rpc_run (\<lambda>_ _. False) double_release_run (NewRpcMonitor 4))"
  have "rpc_reach (\<lambda>_ _. False) (NewRpcMonitor 4) ?w" by (rule rpc_run_reached) code_simp
  moreover have "answers ?w = [(3, (42, None))]" by code_simp
  moreover have "callers ?w = [C_Ret (AsyncCall [7]) 1 (0, Some ErrRPCCallFailed), C_Ret SyncCall 2 (42, None), C_Wait 3 0]" by code_simp
  moreover have "posted ?w = [(1, [7], (0, Some ErrRPCCallTimeout))]" by code_simp
  ultimately show ?thesis by blast
qed

end
