(* ===== verification/Rpc_Handler.thy ===== *)
theory Rpc_Handler
  imports Ember_Prelude
begin

text \<open>
  The methods of a service that can be called from outside, and the handling of a request: \<open>engine/pkg/core/rpc/prefix.go\<close>
  (which method names are published), \<open>engine/pkg/core/rpc/handler.go\<close> (method table, registration, the call by
  reflection, request and response) and \<open>engine/pkg/rpc/message/msgenvelope/data.go\<close>.

  Go's reflection is modelled on a universe of types and values. An error result has the interface type \<open>error\<close> or a
  pointer type that implements it. The bodies of the methods are fields of the methods: any function of the arguments,
  \<open>None\<close> when it panics. The authorisation engine is an argument. Data packets live in a store, because several
  envelopes may share one.
\<close>

section \<open>Definitions\<close>

subsection \<open>Method ps\<close>

type_synonym prefix_index = "char \<Rightarrow> string list"

definition prefix_add :: "string list \<Rightarrow> prefix_index \<Rightarrow> prefix_index" where
  "prefix_add ps idx = fold (\<lambda>p idx. if p = [] then idx else idx(hd p := idx (hd p) @ [p])) ps idx"

definition newPrefixBucketIndex :: "string list \<Rightarrow> prefix_index" where
  "newPrefixBucketIndex ps = prefix_add ps (\<lambda>_. [])"

definition upper_byte :: "char \<Rightarrow> bool" where
  "upper_byte c \<longleftrightarrow> 65 \<le> (of_char c :: nat) \<and> (of_char c :: nat) \<le> 90"

fun has_cand :: "string \<Rightarrow> string list \<Rightarrow> bool" where
  "has_cand s [] = False"
| "has_cand s (p # ps) =
     (if take (length p) s = p
      then if length p < length s \<and> \<not> upper_byte (s ! length p) then has_cand s ps else True
      else has_cand s ps)"

definition prefix_has :: "prefix_index \<Rightarrow> string \<Rightarrow> bool" where
  "prefix_has idx s = (if s = [] then False else has_cand s (idx (hd s)))"

record method_index =
  ApiPrefixIndex :: prefix_index
  RpcPrefixIndex :: prefix_index
  ApiRoPrefixIndex :: prefix_index
  RpcRoPrefixIndex :: prefix_index

definition NewMethodIndex :: method_index where
  "NewMethodIndex =
     \<lparr> ApiPrefixIndex = newPrefixBucketIndex [''Api'', ''API''], RpcPrefixIndex = newPrefixBucketIndex [''Rpc'', ''RPC''],
       ApiRoPrefixIndex = newPrefixBucketIndex [''ApiRo'', ''APIRo''], RpcRoPrefixIndex = newPrefixBucketIndex [''RpcRo'', ''RPCRo''] \<rparr>"

subsection \<open>Types and values\<close>

datatype gtype = TBase nat | TStruct nat | TPtr gtype | TSlice gtype | TRef nat | TAny | TError | TErrVal | TCtx

datatype gval = GNil | GBase nat nat | GStruct nat nat | GPtr gtype "gval option" | GSlice gtype "gval list" | GRef nat nat | GErr nat | GCtx

text \<open>The dynamic type of a value that is not the nil interface.\<close>

fun type_of :: "gval \<Rightarrow> gtype" where
  "type_of GNil = TAny"
| "type_of (GBase n v) = TBase n"
| "type_of (GStruct n v) = TStruct n"
| "type_of (GPtr t v) = TPtr t"
| "type_of (GSlice t vs) = TSlice t"
| "type_of (GRef n v) = TRef n"
| "type_of (GErr e) = TErrVal"
| "type_of GCtx = TCtx"

definition implements_error :: "gtype \<Rightarrow> bool" where
  "implements_error t \<longleftrightarrow> t = TError \<or> t = TErrVal"

definition assignable :: "gval \<Rightarrow> gtype \<Rightarrow> bool" where
  "assignable v t \<longleftrightarrow> t = TAny \<or> type_of v = t \<or> (t = TError \<and> implements_error (type_of v))"

text \<open>A method, the receiver first among its parameters. The body gets the arguments after the receiver.\<close>

record go_method =
  gm_name :: string
  gm_in :: "gtype list"
  gm_variadic :: bool
  gm_out :: "gtype list"
  gm_body :: "gval list \<Rightarrow> gval list option"

text \<open>\<open>reflect.Value.Call\<close>: panics on a wrong number of arguments, on the zero \<open>Value\<close> of a nil and on a value that is not assignable.\<close>

fun elem_type :: "gtype \<Rightarrow> gtype" where
  "elem_type (TSlice t) = t"
| "elem_type t = t"

definition arg_types :: "go_method \<Rightarrow> nat \<Rightarrow> gtype list" where
  "arg_types m n =
     (if gm_variadic m then butlast (tl (gm_in m)) @ replicate (n - (length (gm_in m) - 2)) (elem_type (last (gm_in m)))
      else tl (gm_in m))"

definition arg_count_ok :: "go_method \<Rightarrow> nat \<Rightarrow> bool" where
  "arg_count_ok m n \<longleftrightarrow> (if gm_variadic m then length (gm_in m) - 2 \<le> n else n = length (gm_in m) - 1)"

definition reflect_Call :: "go_method \<Rightarrow> gval list \<Rightarrow> gval list option" where
  "reflect_Call m args =
     (if arg_count_ok m (length args) \<and> list_all2 (\<lambda>v t. v \<noteq> GNil \<and> assignable v t) args (arg_types m (length args))
      then gm_body m args else None)"

subsection \<open>The compiled call\<close>

datatype rpc_err =
    ErrInputParamNotMatch | ErrMethodNotFound | ErrHandleMessagePanic | ErrInputParamCantUseStruct
  | ErrUnsupportedParameter | ErrInvalidSignature | ErrAuthorizationDenied | ErrApp nat

record compiled_call =
  cc_method :: go_method
  cc_paramCount :: nat
  cc_multiOut :: bool
  cc_hasCtx :: bool

definition call_params :: "nat \<Rightarrow> bool \<Rightarrow> gval \<Rightarrow> gval list option" where
  "call_params paramCount isVariadic req =
     (if isVariadic then
        let fixedCount = (if 1 < paramCount then paramCount - 2 else 0)
        in (case req of
              GNil \<Rightarrow> if 0 < fixedCount then None else Some []
            | GSlice TAny reqSlice \<Rightarrow> if length reqSlice < fixedCount then None else Some reqSlice
            | _ \<Rightarrow> if 0 < fixedCount then None else Some [req])
      else
        (case req of
           GNil \<Rightarrow> if paramCount \<noteq> 1 then None else Some []
         | GSlice TAny reqData \<Rightarrow> if int (length reqData) \<noteq> int paramCount - 1 then None else Some reqData
         | _ \<Rightarrow> if paramCount \<noteq> 2 then None else Some [req]))"

text \<open>The loop over the results. \<open>None\<close> is a panic.\<close>

fun read_outs :: "bool \<Rightarrow> (gtype \<times> gval) list \<Rightarrow> gval list \<Rightarrow> (rpc_err + gval) option" where
  "read_outs multiOut [] output = Some (Inr (GSlice TAny output))"
| "read_outs multiOut ((t, result) # rest) output =
     (if implements_error t
      then (case result of GNil \<Rightarrow> read_outs multiOut rest output | GErr e \<Rightarrow> Some (Inl (ErrApp e)) | _ \<Rightarrow> None)
      else if multiOut then read_outs multiOut rest (output @ [result])
      else Some (Inr result))"

definition compileCallFunc :: "compiled_call \<Rightarrow> gval \<Rightarrow> (rpc_err + gval) option" where
  "compileCallFunc cc req =
     (case call_params (cc_paramCount cc) (gm_variadic (cc_method cc)) req of
        None \<Rightarrow> Some (Inl ErrInputParamNotMatch)
      | Some ps \<Rightarrow>
          (case reflect_Call (cc_method cc) ((if cc_hasCtx cc then [GCtx] else []) @ ps) of
             None \<Rightarrow> None
           | Some results \<Rightarrow>
               if results = [] then Some (Inr GNil)
               else read_outs (cc_multiOut cc) (zip (gm_out (cc_method cc)) results) []))"

subsection \<open>The method table\<close>

record method_entry =
  me_fn :: compiled_call
  me_readOnly :: bool

record method_mgr =
  mm_methods :: "(string, method_entry) gomap"
  mm_isRWEnabled :: "bool option"

definition NewMethodMgr :: method_mgr where
  "NewMethodMgr = \<lparr> mm_methods = [], mm_isRWEnabled = None \<rparr>"

definition SetRWStateProvider :: "bool \<Rightarrow> method_mgr \<Rightarrow> method_mgr" where
  "SetRWStateProvider enabled mgr = mgr \<lparr> mm_isRWEnabled := Some enabled \<rparr>"

definition AddMethod :: "string \<Rightarrow> compiled_call \<Rightarrow> bool \<Rightarrow> method_mgr \<Rightarrow> method_mgr" where
  "AddMethod name fn readOnly mgr =
     (if name = [] then mgr else mgr \<lparr> mm_methods := gm_set (mm_methods mgr) name \<lparr> me_fn = fn, me_readOnly = readOnly \<rparr> \<rparr>)"

definition AddMethodFunc :: "string \<Rightarrow> compiled_call \<Rightarrow> method_mgr \<Rightarrow> method_mgr" where
  "AddMethodFunc name fn = AddMethod name fn False"

definition GetMethodFunc :: "string \<Rightarrow> method_mgr \<Rightarrow> compiled_call option" where
  "GetMethodFunc name mgr = map_option me_fn (gm_get (mm_methods mgr) name)"

definition RemoveMethods :: "string list \<Rightarrow> method_mgr \<Rightarrow> method_mgr" where
  "RemoveMethods names mgr =
     (if mm_isRWEnabled mgr = Some True then mgr
      else fold (\<lambda>name mgr. if gm_get (mm_methods mgr) name = None then mgr else mgr \<lparr> mm_methods := gm_del (mm_methods mgr) name \<rparr>) names mgr)"

definition MarkReadOnly :: "string \<Rightarrow> method_mgr \<Rightarrow> method_mgr" where
  "MarkReadOnly name mgr =
     (case gm_get (mm_methods mgr) name of
        None \<Rightarrow> mgr
      | Some e \<Rightarrow> mgr \<lparr> mm_methods := gm_set (mm_methods mgr) name (e \<lparr> me_readOnly := True \<rparr>) \<rparr>)"

definition IsReadOnly :: "string \<Rightarrow> method_mgr \<Rightarrow> bool" where
  "IsReadOnly name mgr = (case gm_get (mm_methods mgr) name of Some e \<Rightarrow> me_readOnly e | None \<Rightarrow> False)"

subsection \<open>Registration\<close>

text \<open>
  Which named types are exported is an argument. The kinds that may be nil (pointer, interface, function, map, slice, channel) are all types
  of the universe but the basic ones and the structs.
\<close>

fun strip_ptr :: "gtype \<Rightarrow> gtype" where
  "strip_ptr (TPtr t) = strip_ptr t"
| "strip_ptr t = t"

definition isExportedOrBuiltinType :: "(gtype \<Rightarrow> bool) \<Rightarrow> gtype \<Rightarrow> bool" where
  "isExportedOrBuiltinType exported t = exported (strip_ptr t)"

definition nilable :: "gtype \<Rightarrow> bool" where
  "nilable t = (case t of TBase _ \<Rightarrow> False | TStruct _ \<Rightarrow> False | _ \<Rightarrow> True)"

fun count_outs :: "gtype list \<Rightarrow> nat \<Rightarrow> (rpc_err + nat)" where
  "count_outs [] multiOut = Inr multiOut"
| "count_outs (t # ts) multiOut =
     (if nilable t then (if implements_error t then count_outs ts multiOut else count_outs ts (multiOut + 1))
      else (case t of TStruct _ \<Rightarrow> Inl ErrInputParamCantUseStruct | _ \<Rightarrow> count_outs ts (multiOut + 1)))"

text \<open>\<open>suitableMethods\<close>: nothing to do, an error, or the entry of the table.\<close>

definition suitable :: "method_index \<Rightarrow> (gtype \<Rightarrow> bool) \<Rightarrow> go_method \<Rightarrow> rpc_err + method_entry option" where
  "suitable idx exported m =
     (let isReadOnly = (prefix_has (ApiRoPrefixIndex idx) (gm_name m) \<or> prefix_has (RpcRoPrefixIndex idx) (gm_name m))
      in if \<not> isReadOnly \<and> \<not> prefix_has (ApiPrefixIndex idx) (gm_name m) \<and> \<not> prefix_has (RpcPrefixIndex idx) (gm_name m) then Inr None
         else if \<not> list_all (isExportedOrBuiltinType exported) (gm_in m) then Inl ErrUnsupportedParameter
         else let hasCtx = (1 < length (gm_in m) \<and> gm_in m ! 1 = TCtx)
           in if \<not> hasCtx \<and> TCtx \<in> set (drop 2 (gm_in m)) then Inl ErrInvalidSignature
              else (case count_outs (gm_out m) 0 of
                      Inl e \<Rightarrow> Inl e
                    | Inr multiOut \<Rightarrow>
                        Inr (Some \<lparr> me_fn = \<lparr> cc_method = m, cc_paramCount = (if hasCtx then length (gm_in m) - 1 else length (gm_in m)),
                                              cc_multiOut = 1 < multiOut, cc_hasCtx = hasCtx \<rparr>,
                                    me_readOnly = isReadOnly \<rparr>)))"

definition suitableMethods :: "method_index \<Rightarrow> (gtype \<Rightarrow> bool) \<Rightarrow> go_method \<Rightarrow> method_mgr \<times> string list \<Rightarrow> rpc_err option \<times> method_mgr \<times> string list" where
  "suitableMethods idx exported m st =
     (case suitable idx exported m of
        Inl e \<Rightarrow> (Some e, st)
      | Inr None \<Rightarrow> (None, st)
      | Inr (Some en) \<Rightarrow>
          let mgr1 = AddMethodFunc (gm_name m) (me_fn en) (fst st);
              mgr2 = (if me_readOnly en then MarkReadOnly (gm_name m) mgr1 else mgr1)
          in (None, mgr2, snd st @ [gm_name m]))"

fun register_all :: "method_index \<Rightarrow> (gtype \<Rightarrow> bool) \<Rightarrow> go_method list \<Rightarrow> method_mgr \<times> string list \<Rightarrow> rpc_err option \<times> method_mgr \<times> string list" where
  "register_all idx exported [] st = (None, st)"
| "register_all idx exported (m # ms) st =
     (case suitableMethods idx exported m st of (Some e, st1) \<Rightarrow> (Some e, st1) | (None, st1) \<Rightarrow> register_all idx exported ms st1)"

text \<open>\<open>registerMethod\<close>; \<open>declared\<close> are the names of \<open>IReadOnlyDeclarer\<close>, none if the module does not implement it.\<close>

definition registerMethod :: "method_index \<Rightarrow> (gtype \<Rightarrow> bool) \<Rightarrow> string list \<Rightarrow> go_method list \<Rightarrow> method_mgr \<Rightarrow> rpc_err option \<times> method_mgr \<times> string list" where
  "registerMethod idx exported declared ms mgr =
     (case register_all idx exported ms (mgr, []) of
        (Some e, st) \<Rightarrow> (Some e, st)
      | (None, mgr1, names) \<Rightarrow> (None, fold (\<lambda>name mg. if GetMethodFunc name mg = None then mg else MarkReadOnly name mg) declared mgr1, names))"

subsection \<open>Requests and responses\<close>

record env_data =
  d_method :: string
  d_reply :: bool
  d_request :: gval
  d_response :: gval
  d_needResp :: bool
  d_err :: "rpc_err option"

definition NewData :: env_data where
  "NewData = \<lparr> d_method = [], d_reply = False, d_request = GNil, d_response = GNil, d_needResp = False, d_err = None \<rparr>"

record env_meta =
  em_reqID :: nat
  em_senderPid :: nat
  em_receiverPid :: nat
  em_sender :: "nat option"
  em_deadline :: int
  em_idempotencyKey :: string

text \<open>The store of data packets and the responses handed to the dispatchers.\<close>

record handler_world =
  hw_data :: "env_data list"
  hw_sent :: "(nat \<times> env_meta \<times> env_data) list"

definition SetResponse :: "nat \<Rightarrow> gval \<Rightarrow> handler_world \<Rightarrow> handler_world" where
  "SetResponse d v w = w \<lparr> hw_data := (hw_data w)[d := (hw_data w ! d) \<lparr> d_response := v \<rparr>] \<rparr>"

definition SetError :: "nat \<Rightarrow> rpc_err option \<Rightarrow> handler_world \<Rightarrow> handler_world" where
  "SetError d e w = w \<lparr> hw_data := (hw_data w)[d := (hw_data w ! d) \<lparr> d_err := e \<rparr>] \<rparr>"

definition doResponse :: "env_meta \<Rightarrow> nat \<Rightarrow> handler_world \<Rightarrow> handler_world" where
  "doResponse meta d w =
     (let data = hw_data w ! d
      in if \<not> d_needResp data then w
         else (case em_sender meta of
                 None \<Rightarrow> w
               | Some dispatcher \<Rightarrow>
                   w \<lparr> hw_sent := hw_sent w @ [(dispatcher,
                         \<lparr> em_reqID = em_reqID meta, em_senderPid = em_receiverPid meta, em_receiverPid = em_senderPid meta, em_sender = Some dispatcher,
                           em_deadline = 0, em_idempotencyKey = [] \<rparr>,
                         \<lparr> d_method = d_method data, d_reply = True, d_request = GNil, d_response = d_response data, d_needResp = False, d_err = d_err data \<rparr>)] \<rparr>))"

definition HandleRequest :: "(nat \<Rightarrow> string \<Rightarrow> bool) option \<Rightarrow> method_mgr \<Rightarrow> env_meta \<Rightarrow> nat \<Rightarrow> handler_world \<Rightarrow> handler_world" where
  "HandleRequest authorizer mgr meta d w =
     doResponse meta d
       (if (case authorizer of Some a \<Rightarrow> \<not> a (em_senderPid meta) (d_method (hw_data w ! d)) | None \<Rightarrow> False)
        then SetError d (Some ErrAuthorizationDenied) w
        else (case GetMethodFunc (d_method (hw_data w ! d)) mgr of
                None \<Rightarrow> SetError d (Some ErrMethodNotFound) w
              | Some call \<Rightarrow>
                  (case compileCallFunc call (d_request (hw_data w ! d)) of
                     None \<Rightarrow> SetError d (Some ErrHandleMessagePanic) (SetResponse d GNil w)
                   | Some (Inl e) \<Rightarrow> SetError d (Some e) w
                   | Some (Inr resp) \<Rightarrow> SetResponse d resp w)))"

section \<open>Prefixes\<close>

lemma has_cand_iff:
  "has_cand s ps \<longleftrightarrow> (\<exists>p \<in> set ps. take (length p) s = p \<and> (length p < length s \<longrightarrow> upper_byte (s ! length p)))"
  by (induction ps) auto

lemma set_prefix_add: "set (prefix_add ps idx c) = set (idx c) \<union> {p \<in> set ps. p \<noteq> [] \<and> hd p = c}"
  unfolding prefix_add_def by (induction ps arbitrary: idx) auto

text \<open>The table by first letter finds what a scan of all prefixes would find.\<close>

lemma prefix_has_iff:
  "prefix_has (newPrefixBucketIndex ps) s \<longleftrightarrow>
     (\<exists>p \<in> set ps. p \<noteq> [] \<and> take (length p) s = p \<and> (length p < length s \<longrightarrow> upper_byte (s ! length p)))"
proof -
  have at: "s \<noteq> [] \<and> hd p = hd s" if "take (length p) s = p" "p \<noteq> []" for p
    using that by (metis hd_take length_greater_0_conv take_Nil)
  show ?thesis
  proof (cases "s = []")
    case True
    then show ?thesis using at by (auto simp: prefix_has_def)
  next
    case False
    then have "prefix_has (newPrefixBucketIndex ps) s \<longleftrightarrow>
        (\<exists>p \<in> {p \<in> set ps. p \<noteq> [] \<and> hd p = hd s}. take (length p) s = p \<and> (length p < length s \<longrightarrow> upper_byte (s ! length p)))"
      by (simp add: prefix_has_def newPrefixBucketIndex_def has_cand_iff set_prefix_add)
    then show ?thesis using at by blast
  qed
qed

section \<open>Calls\<close>

text \<open>Go's signatures: there is a receiver, and a variadic method ends with a slice.\<close>

definition method_wf :: "go_method \<Rightarrow> bool" where
  "method_wf m \<longleftrightarrow> gm_in m \<noteq> [] \<and> (gm_variadic m \<longrightarrow> (\<exists>t. last (gm_in m) = TSlice t) \<and> 2 \<le> length (gm_in m))"

text \<open>The number of arguments of a request.\<close>

definition given_args :: "gval \<Rightarrow> nat" where
  "given_args req = (case req of GNil \<Rightarrow> 0 | GSlice TAny vs \<Rightarrow> length vs | _ \<Rightarrow> 1)"

definition single_arg :: "gval \<Rightarrow> bool" where
  "single_arg req = (case req of GNil \<Rightarrow> False | GSlice TAny vs \<Rightarrow> False | _ \<Rightarrow> True)"

lemma call_params_length: "call_params n v req = Some ps \<Longrightarrow> length ps = given_args req"
  by (auto simp: call_params_def given_args_def Let_def split: if_splits gval.splits gtype.splits)

lemma suitable_Some:
  assumes "suitable idx exported m = Inr (Some en)"
  shows "\<exists>k. count_outs (gm_out m) 0 = Inr k \<and>
     en = \<lparr> me_fn = \<lparr> cc_method = m, cc_paramCount = (if 1 < length (gm_in m) \<and> gm_in m ! 1 = TCtx then length (gm_in m) - 1 else length (gm_in m)),
                       cc_multiOut = 1 < k, cc_hasCtx = (1 < length (gm_in m) \<and> gm_in m ! 1 = TCtx) \<rparr>,
            me_readOnly = (prefix_has (ApiRoPrefixIndex idx) (gm_name m) \<or> prefix_has (RpcRoPrefixIndex idx) (gm_name m)) \<rparr>"
proof -
  obtain k where k: "count_outs (gm_out m) 0 = Inr k" using assms
    by (cases "count_outs (gm_out m) 0") (simp_all add: suitable_def Let_def split: if_splits)
  then show ?thesis using assms unfolding suitable_def Let_def
    by (cases "1 < length (gm_in m) \<and> gm_in m ! 1 = TCtx") (auto split: if_split_asm)
qed

lemma suitable_entry:
  assumes "suitable idx exported m = Inr (Some en)"
  shows "cc_method (me_fn en) = m" "cc_hasCtx (me_fn en) \<longleftrightarrow> 1 < length (gm_in m) \<and> gm_in m ! 1 = TCtx"
    "cc_paramCount (me_fn en) = (if cc_hasCtx (me_fn en) then length (gm_in m) - 1 else length (gm_in m))"
    "\<exists>k. count_outs (gm_out m) 0 = Inr k \<and> cc_multiOut (me_fn en) = (1 < k)"
    "me_readOnly en \<longleftrightarrow> prefix_has (ApiRoPrefixIndex idx) (gm_name m) \<or> prefix_has (RpcRoPrefixIndex idx) (gm_name m)"
proof -
  from suitable_Some [OF assms] obtain k where "count_outs (gm_out m) 0 = Inr k"
    "en = \<lparr> me_fn = \<lparr> cc_method = m, cc_paramCount = (if 1 < length (gm_in m) \<and> gm_in m ! 1 = TCtx then length (gm_in m) - 1 else length (gm_in m)),
                     cc_multiOut = 1 < k, cc_hasCtx = (1 < length (gm_in m) \<and> gm_in m ! 1 = TCtx) \<rparr>,
            me_readOnly = (prefix_has (ApiRoPrefixIndex idx) (gm_name m) \<or> prefix_has (RpcRoPrefixIndex idx) (gm_name m)) \<rparr>" by blast
  then show "cc_method (me_fn en) = m" "cc_hasCtx (me_fn en) \<longleftrightarrow> 1 < length (gm_in m) \<and> gm_in m ! 1 = TCtx"
    "cc_paramCount (me_fn en) = (if cc_hasCtx (me_fn en) then length (gm_in m) - 1 else length (gm_in m))"
    "\<exists>k. count_outs (gm_out m) 0 = Inr k \<and> cc_multiOut (me_fn en) = (1 < k)"
    "me_readOnly en \<longleftrightarrow> prefix_has (ApiRoPrefixIndex idx) (gm_name m) \<or> prefix_has (RpcRoPrefixIndex idx) (gm_name m)" by simp_all
qed

lemma ctx_not_variadic:
  assumes "method_wf m" "gm_variadic m" "1 < length (gm_in m)" "gm_in m ! 1 = TCtx"
  shows "3 \<le> length (gm_in m)"
proof (rule ccontr)
  assume "\<not> ?thesis"
  then have "length (gm_in m) = 2" using assms(3) by simp
  then have "last (gm_in m) = gm_in m ! 1" using assms(3) by (metis One_nat_def diff_Suc_1 last_conv_nth list.size(3) numeral_2_eq_2 zero_neq_numeral)
  then show False using assms by (auto simp: method_wf_def)
qed

lemma call_params_iff:
  assumes "suitable idx exported m = Inr (Some en)" "method_wf m"
  shows "call_params (cc_paramCount (me_fn en)) (gm_variadic m) req \<noteq> None \<longleftrightarrow>
     arg_count_ok m ((if cc_hasCtx (me_fn en) then 1 else 0) + given_args req)
     \<and> \<not> (gm_variadic m \<and> single_arg req \<and> cc_paramCount (me_fn en) = 3)"
proof -
  have n: "0 < length (gm_in m)" "gm_variadic m \<longrightarrow> 2 \<le> cc_paramCount (me_fn en)"
    using assms(2) suitable_entry(2,3) [OF assms(1)] ctx_not_variadic [OF assms(2)] by (auto simp: method_wf_def)
  define c where "c = cc_paramCount (me_fn en)"
  have len: "length (gm_in m) = (if cc_hasCtx (me_fn en) then Suc c else c)"
    using suitable_entry(2,3) [OF assms(1)] n(1) by (auto simp: c_def)
  have c: "gm_variadic m \<longrightarrow> 2 \<le> c" "0 < c" using n suitable_entry(2,3) [OF assms(1)] by (auto simp: c_def)
  show ?thesis
  proof (cases "gm_variadic m")
    case True
    have "call_params c True req \<noteq> None \<longleftrightarrow> c - 2 \<le> given_args req \<and> \<not> (single_arg req \<and> c = 3)"
      using c True by (auto simp: call_params_def given_args_def single_arg_def Let_def split: gval.splits gtype.splits)
    then show ?thesis using True c len by (auto simp: arg_count_ok_def c_def [symmetric])
  next
    case False
    have "call_params c False req \<noteq> None \<longleftrightarrow> Suc (given_args req) = c"
      using c by (auto simp: call_params_def given_args_def Let_def split: gval.splits gtype.splits)
    then show ?thesis using False c len by (auto simp: arg_count_ok_def c_def [symmetric])
  qed
qed

section \<open>Requests\<close>

text \<open>What a service should answer to a request: the value of the method, or why there is none.\<close>

definition request_outcome :: "(nat \<Rightarrow> string \<Rightarrow> bool) option \<Rightarrow> method_mgr \<Rightarrow> nat \<Rightarrow> string \<Rightarrow> gval \<Rightarrow> rpc_err + gval" where
  "request_outcome authorizer mgr caller name req =
     (if (case authorizer of Some a \<Rightarrow> \<not> a caller name | None \<Rightarrow> False) then Inl ErrAuthorizationDenied
      else case GetMethodFunc name mgr of
             None \<Rightarrow> Inl ErrMethodNotFound
           | Some call \<Rightarrow> (case compileCallFunc call req of None \<Rightarrow> Inl ErrHandleMessagePanic | Some x \<Rightarrow> x))"

abbreviation outcome_of :: "(nat \<Rightarrow> string \<Rightarrow> bool) option \<Rightarrow> method_mgr \<Rightarrow> env_meta \<Rightarrow> env_data \<Rightarrow> rpc_err + gval" where
  "outcome_of authorizer mgr meta data \<equiv> request_outcome authorizer mgr (em_senderPid meta) (d_method data) (d_request data)"

text \<open>The response and the error that the request data carries afterwards.\<close>

definition answer_fields :: "rpc_err + gval \<Rightarrow> env_data \<Rightarrow> gval \<times> rpc_err option" where
  "answer_fields x data = (case x of
       Inl e \<Rightarrow> (if e = ErrHandleMessagePanic then GNil else d_response data, Some e)
     | Inr v \<Rightarrow> (v, d_err data))"

definition response_meta :: "env_meta \<Rightarrow> nat \<Rightarrow> env_meta" where
  "response_meta meta dispatcher =
     \<lparr> em_reqID = em_reqID meta, em_senderPid = em_receiverPid meta, em_receiverPid = em_senderPid meta, em_sender = Some dispatcher,
       em_deadline = 0, em_idempotencyKey = [] \<rparr>"

definition response_data :: "env_data \<Rightarrow> gval \<times> rpc_err option \<Rightarrow> env_data" where
  "response_data data a =
     \<lparr> d_method = d_method data, d_reply = True, d_request = GNil, d_response = fst a, d_needResp = False, d_err = snd a \<rparr>"

text \<open>A panic of the method is the only source of \<open>ErrHandleMessagePanic\<close>.\<close>

lemma read_outs_no_panic: "read_outs multi xs out \<noteq> Some (Inl ErrHandleMessagePanic)"
  by (induction multi xs out rule: read_outs.induct) (auto split: gval.splits)

lemma compile_no_panic: "compileCallFunc cc req \<noteq> Some (Inl ErrHandleMessagePanic)"
  using read_outs_no_panic by (auto simp: compileCallFunc_def split: option.splits if_splits)

lemma HandleRequest_effect:
  assumes "d < length (hw_data w)"
  shows "HandleRequest authorizer mgr meta d w =
     (let data = hw_data w ! d; a = answer_fields (outcome_of authorizer mgr meta data) data
      in doResponse meta d (w \<lparr> hw_data := (hw_data w)[d := data \<lparr> d_response := fst a, d_err := snd a \<rparr>] \<rparr>))"
proof -
  let ?data = "hw_data w ! d"
  show ?thesis
  proof (cases "case authorizer of Some a \<Rightarrow> \<not> a (em_senderPid meta) (d_method ?data) | None \<Rightarrow> False")
    case True
    then show ?thesis by (simp add: HandleRequest_def request_outcome_def answer_fields_def SetError_def Let_def)
  next
    case False
    show ?thesis
    proof (cases "GetMethodFunc (d_method ?data) mgr")
      case None
      then show ?thesis using False by (simp add: HandleRequest_def request_outcome_def answer_fields_def SetError_def Let_def)
    next
      case (Some call)
      show ?thesis
      proof (cases "compileCallFunc call (d_request ?data)")
        case None
        then show ?thesis using False Some assms
          by (simp add: HandleRequest_def request_outcome_def answer_fields_def SetError_def SetResponse_def Let_def)
      next
        case (Some x)
        have "x \<noteq> Inl ErrHandleMessagePanic" using compile_no_panic [of call "d_request ?data"] Some by auto
        then show ?thesis using False Some \<open>GetMethodFunc (d_method ?data) mgr = Some call\<close>
          by (cases x) (auto simp: HandleRequest_def request_outcome_def answer_fields_def SetError_def SetResponse_def Let_def)
      qed
    qed
  qed
qed

lemma HandleRequest_sent:
  assumes "d < length (hw_data w)" "d_needResp (hw_data w ! d)" "em_sender meta = Some dispatcher"
  shows "hw_sent (HandleRequest authorizer mgr meta d w) =
     hw_sent w @ [(dispatcher, response_meta meta dispatcher,
                   response_data (hw_data w ! d) (answer_fields (outcome_of authorizer mgr meta (hw_data w ! d)) (hw_data w ! d)))]"
  using assms by (simp add: HandleRequest_effect Let_def doResponse_def response_meta_def response_data_def)

lemma HandleRequest_data:
  assumes "d < length (hw_data w)"
  shows "hw_data (HandleRequest authorizer mgr meta d w) =
     (hw_data w)[d := (hw_data w ! d) \<lparr> d_response := fst (answer_fields (outcome_of authorizer mgr meta (hw_data w ! d)) (hw_data w ! d)),
                                        d_err := snd (answer_fields (outcome_of authorizer mgr meta (hw_data w ! d)) (hw_data w ! d)) \<rparr>]"
  using assms by (simp add: HandleRequest_effect Let_def doResponse_def split: option.splits)

section \<open>Registration\<close>

lemma suitable_name:
  assumes "suitable idx exported m = Inr (Some en)"
  shows "gm_name m \<noteq> []"
proof
  assume "gm_name m = []"
  then have "suitable idx exported m = Inr None" by (simp add: suitable_def prefix_has_def)
  then show False using assms by simp
qed

lemma suitableMethods_entry:
  assumes "suitable idx exported m = Inr (Some en)"
  shows "\<exists>mgr1. suitableMethods idx exported m (mgr, names) = (None, mgr1, names @ [gm_name m])
     \<and> map_of (mm_methods mgr1) = (map_of (mm_methods mgr))(gm_name m \<mapsto> en)"
proof -
  have "en = \<lparr> me_fn = me_fn en, me_readOnly = me_readOnly en \<rparr>" by simp
  then show ?thesis using assms suitable_name [OF assms]
    by (cases "me_readOnly en")
      (auto simp: suitableMethods_def Let_def AddMethodFunc_def AddMethod_def MarkReadOnly_def update_conv' fun_eq_iff)
qed

text \<open>The entry of a name after the scan of a list of methods.\<close>

lemma register_all_get:
  assumes "register_all idx exported ms (mgr, names) = (None, mgr', names')" "distinct (map gm_name ms)"
  shows "gm_get (mm_methods mgr') n =
     (case find (\<lambda>m. gm_name m = n) ms of
        Some m \<Rightarrow> (case suitable idx exported m of Inr (Some en) \<Rightarrow> Some en | _ \<Rightarrow> gm_get (mm_methods mgr) n)
      | None \<Rightarrow> gm_get (mm_methods mgr) n)"
  using assms
proof (induction ms arbitrary: mgr names)
  case (Cons m ms)
  show ?case
  proof (cases "suitable idx exported m")
    case (Inl e)
    then show ?thesis using Cons.prems by (simp add: suitableMethods_def)
  next
    case (Inr x)
    have other: "find (\<lambda>m'. gm_name m' = gm_name m) ms = None" using Cons.prems(2) by (simp add: find_None_iff image_iff) metis
    show ?thesis
    proof (cases x)
      case None
      then have "register_all idx exported ms (mgr, names) = (None, mgr', names')" using Inr Cons.prems(1) by (simp add: suitableMethods_def)
      then show ?thesis using Cons.IH [of mgr names] Cons.prems(2) other Inr None by (auto split: option.splits)
    next
      case (Some en)
      obtain mgr1 where "suitableMethods idx exported m (mgr, names) = (None, mgr1, names @ [gm_name m])"
        and get: "map_of (mm_methods mgr1) = (map_of (mm_methods mgr))(gm_name m \<mapsto> en)"
        using suitableMethods_entry [of idx exported m en mgr names] Inr Some by auto
      then have "register_all idx exported ms (mgr1, names @ [gm_name m]) = (None, mgr', names')" using Cons.prems(1) by simp
      from Cons.IH [OF this] have IH: "gm_get (mm_methods mgr') n =
          (case find (\<lambda>m. gm_name m = n) ms of
             Some m \<Rightarrow> (case suitable idx exported m of Inr (Some en) \<Rightarrow> Some en | _ \<Rightarrow> gm_get (mm_methods mgr1) n)
           | None \<Rightarrow> gm_get (mm_methods mgr1) n)" using Cons.prems(2) by simp
      show ?thesis
      proof (cases "n = gm_name m")
        case True
        then show ?thesis using IH other Inr Some get by simp
      next
        case False
        then have "gm_get (mm_methods mgr1) n = gm_get (mm_methods mgr) n" using get by simp
        with IH [unfolded this] show ?thesis using False by simp
      qed
    qed
  qed
qed simp

lemma declared_get:
  "gm_get (mm_methods (fold (\<lambda>name mg. if GetMethodFunc name mg = None then mg else MarkReadOnly name mg) declared mgr)) n =
     map_option (\<lambda>e. if n \<in> set declared then e \<lparr> me_readOnly := True \<rparr> else e) (gm_get (mm_methods mgr) n)"
proof (induction declared arbitrary: mgr)
  case (Cons a declared)
  have "gm_get (mm_methods (if GetMethodFunc a mgr = None then mgr else MarkReadOnly a mgr)) n =
      map_option (\<lambda>e. if n = a then e \<lparr> me_readOnly := True \<rparr> else e) (gm_get (mm_methods mgr) n)"
    by (cases "gm_get (mm_methods mgr) n") (auto simp: GetMethodFunc_def MarkReadOnly_def update_conv' split: option.splits)
  then show ?case using Cons.IH by (cases "gm_get (mm_methods mgr) n") auto
qed (simp add: option.map_ident)

lemma registerMethod_get:
  assumes "registerMethod idx exported declared ms NewMethodMgr = (None, mgr, names)" "distinct (map gm_name ms)"
  shows "gm_get (mm_methods mgr) n = Some e \<longleftrightarrow>
     (\<exists>m \<in> set ms. \<exists>en. gm_name m = n \<and> suitable idx exported m = Inr (Some en) \<and> e = (if n \<in> set declared then en \<lparr> me_readOnly := True \<rparr> else en))"
proof -
  obtain mgr1 where reg: "register_all idx exported ms (NewMethodMgr, []) = (None, mgr1, names)"
    and mgr: "mgr = fold (\<lambda>name mg. if GetMethodFunc name mg = None then mg else MarkReadOnly name mg) declared mgr1"
    using assms(1) by (auto simp: registerMethod_def split: prod.splits option.splits)
  have g: "gm_get (mm_methods mgr1) n = (case find (\<lambda>m. gm_name m = n) ms of
        Some m \<Rightarrow> (case suitable idx exported m of Inr (Some en) \<Rightarrow> Some en | _ \<Rightarrow> None) | None \<Rightarrow> None)"
    using register_all_get [OF reg assms(2), of n] unfolding NewMethodMgr_def method_mgr.simps map_of.simps .
  have f: "find (\<lambda>m. gm_name m = n) ms = Some m \<longleftrightarrow> m \<in> set ms \<and> gm_name m = n" for m
    using assms(2)
  proof (induction ms)
    case (Cons a ms)
    then show ?case by (auto simp: image_iff)
  qed simp
  have entry: "gm_get (mm_methods mgr1) n = Some en \<longleftrightarrow> (\<exists>m \<in> set ms. gm_name m = n \<and> suitable idx exported m = Inr (Some en))" for en
  proof (cases "find (\<lambda>m. gm_name m = n) ms")
    case None
    then have "\<forall>m \<in> set ms. gm_name m \<noteq> n" by (simp add: find_None_iff)
    then show ?thesis using g None by auto
  next
    case (Some m)
    then have "m \<in> set ms \<and> gm_name m = n" "\<forall>m' \<in> set ms. gm_name m' = n \<longrightarrow> m' = m" using f [of m] f by (simp, metis option.inject)
    then have "(\<exists>m \<in> set ms. gm_name m = n \<and> suitable idx exported m = Inr (Some en)) \<longleftrightarrow> suitable idx exported m = Inr (Some en)" by metis
    moreover have "gm_get (mm_methods mgr1) n = Some en \<longleftrightarrow> suitable idx exported m = Inr (Some en)"
      using g Some by (simp split: sum.splits option.splits)
    ultimately show ?thesis by simp
  qed
  show ?thesis unfolding mgr declared_get map_option_eq_Some entry by (cases "n \<in> set declared") auto
qed

lemma registered_entry:
  assumes "registerMethod idx exported declared ms NewMethodMgr = (None, mgr, names)" "distinct (map gm_name ms)"
  shows "(\<exists>e. gm_get (mm_methods mgr) n = Some e \<and> P e) \<longleftrightarrow>
     (\<exists>m \<in> set ms. \<exists>en. gm_name m = n \<and> suitable idx exported m = Inr (Some en) \<and> P (if n \<in> set declared then en \<lparr> me_readOnly := True \<rparr> else en))"
  unfolding registerMethod_get [OF assms] by blast

lemma registered_fn:
  assumes "registerMethod idx exported declared ms NewMethodMgr = (None, mgr, names)" "distinct (map gm_name ms)"
  shows "GetMethodFunc n mgr = Some cc \<longleftrightarrow> (\<exists>m \<in> set ms. \<exists>en. gm_name m = n \<and> suitable idx exported m = Inr (Some en) \<and> me_fn en = cc)"
proof -
  have "GetMethodFunc n mgr = Some cc \<longleftrightarrow> (\<exists>e. gm_get (mm_methods mgr) n = Some e \<and> me_fn e = cc)" by (auto simp: GetMethodFunc_def)
  also have "\<dots> \<longleftrightarrow> (\<exists>m \<in> set ms. \<exists>en. gm_name m = n \<and> suitable idx exported m = Inr (Some en) \<and> me_fn en = cc)"
    unfolding registered_entry [OF assms] by simp
  finally show ?thesis .
qed

section \<open>What a method answers\<close>

text \<open>The arguments of a request, and those the method is called with.\<close>

definition request_args :: "gval \<Rightarrow> gval list" where
  "request_args req = (case req of GNil \<Rightarrow> [] | GSlice TAny vs \<Rightarrow> vs | _ \<Rightarrow> [req])"

definition takes_ctx :: "go_method \<Rightarrow> bool" where
  "takes_ctx m \<longleftrightarrow> 1 < length (gm_in m) \<and> gm_in m ! 1 = TCtx"

definition call_args :: "go_method \<Rightarrow> gval \<Rightarrow> gval list" where
  "call_args m req = (if takes_ctx m then [GCtx] else []) @ request_args req"

text \<open>Go accepts the number of arguments; a variadic method with one fixed parameter does not take a single argument that is not in a slice.\<close>

definition request_fits :: "go_method \<Rightarrow> gval \<Rightarrow> bool" where
  "request_fits m req \<longleftrightarrow> arg_count_ok m (length (call_args m req))
     \<and> \<not> (gm_variadic m \<and> single_arg req \<and> length (gm_in m) = (if takes_ctx m then 4 else 3))"

text \<open>Go's typing of results: as many as declared, and an error is nil or an error.\<close>

definition results_ok :: "go_method \<Rightarrow> bool" where
  "results_ok m \<longleftrightarrow> (\<forall>args rs. gm_body m args = Some rs \<longrightarrow>
     list_all2 (\<lambda>t v. implements_error t \<longrightarrow> v = GNil \<or> (\<exists>e. v = GErr e)) (gm_out m) rs)"

definition is_failure :: "gtype \<times> gval \<Rightarrow> bool" where
  "is_failure r \<longleftrightarrow> implements_error (fst r) \<and> snd r \<noteq> GNil"

definition the_error :: "gval \<Rightarrow> rpc_err" where
  "the_error v = (case v of GErr e \<Rightarrow> ErrApp e | _ \<Rightarrow> ErrHandleMessagePanic)"

text \<open>
  The answer that the results of a method stand for: the first error that is not nil, otherwise the value if there is exactly one, nil without results, and
  the slice of the values in the other cases. When there is exactly one value, errors after it are not looked at.
\<close>

definition method_answer :: "go_method \<Rightarrow> gval list \<Rightarrow> gval \<times> rpc_err option" where
  "method_answer m rs =
     (let outs = zip (gm_out m) rs;
          vals = map snd (filter (\<lambda>r. \<not> implements_error (fst r)) outs);
          looked = (if length vals = 1 then takeWhile (\<lambda>r. implements_error (fst r)) outs else outs)
      in if rs = [] then (GNil, None)
         else case find is_failure looked of
                Some r \<Rightarrow> (GNil, Some (the_error (snd r)))
              | None \<Rightarrow> (if length vals = 1 then hd vals else GSlice TAny vals, None))"

definition as_result :: "gval \<times> rpc_err option \<Rightarrow> rpc_err + gval" where
  "as_result a = (case snd a of None \<Rightarrow> Inr (fst a) | Some e \<Rightarrow> Inl e)"

definition outs_ok :: "(gtype \<times> gval) list \<Rightarrow> bool" where
  "outs_ok xs \<longleftrightarrow> (\<forall>(t, v) \<in> set xs. implements_error t \<longrightarrow> v = GNil \<or> (\<exists>e. v = GErr e))"

lemma read_outs_multi:
  "outs_ok xs \<Longrightarrow> read_outs True xs out = Some (case find is_failure xs of Some r \<Rightarrow> Inl (the_error (snd r))
     | None \<Rightarrow> Inr (GSlice TAny (out @ map snd (filter (\<lambda>r. \<not> implements_error (fst r)) xs))))"
  by (induction True xs out rule: read_outs.induct) (auto simp: outs_ok_def is_failure_def the_error_def split: option.split)

lemma read_outs_single:
  "outs_ok xs \<Longrightarrow> read_outs False xs out = Some (case find is_failure (takeWhile (\<lambda>r. implements_error (fst r)) xs) of Some r \<Rightarrow> Inl (the_error (snd r))
     | None \<Rightarrow> Inr (case filter (\<lambda>r. \<not> implements_error (fst r)) xs of [] \<Rightarrow> GSlice TAny out | r # _ \<Rightarrow> snd r))"
  by (induction False xs out rule: read_outs.induct) (auto simp: outs_ok_def is_failure_def the_error_def split: option.split)

lemma count_outs_values: "count_outs ts n = Inr k \<Longrightarrow> k = n + length (filter (\<lambda>t. \<not> implements_error t) ts)"
  by (induction ts n rule: count_outs.induct) (auto simp: nilable_def implements_error_def split: if_splits gtype.splits)

lemma filter_zip_length: "length xs = length ys \<Longrightarrow> length (filter (\<lambda>r. P (fst r)) (zip xs ys)) = length (filter P xs)"
  by (induction xs ys rule: list_induct2) simp_all

lemma read_outs_answer:
  assumes "count_outs (gm_out m) 0 = Inr k" "list_all2 (\<lambda>t v. implements_error t \<longrightarrow> v = GNil \<or> (\<exists>e. v = GErr e)) (gm_out m) rs" "rs \<noteq> []"
  shows "read_outs (1 < k) (zip (gm_out m) rs) [] = Some (as_result (method_answer m rs))"
proof -
  let ?xs = "zip (gm_out m) rs"
  have ok: "outs_ok ?xs" using assms(2) by (auto simp: outs_ok_def list_all2_iff)
  have len: "length (gm_out m) = length rs" using assms(2) by (rule list_all2_lengthD)
  have k: "k = length (filter (\<lambda>r. \<not> implements_error (fst r)) ?xs)"
    using count_outs_values [OF assms(1)] filter_zip_length [OF len, of "\<lambda>t. \<not> implements_error t"] by simp
  show ?thesis
  proof (cases "1 < k")
    case True
    then show ?thesis using read_outs_multi [OF ok, of "[]"] k assms(3) by (simp add: method_answer_def as_result_def Let_def split: option.split)
  next
    case False
    show ?thesis
    proof (cases "filter (\<lambda>r. \<not> implements_error (fst r)) ?xs")
      case Nil
      then have tw: "takeWhile (\<lambda>r. implements_error (fst r)) ?xs = ?xs" by (simp add: filter_empty_conv takeWhile_eq_all_conv)
      show ?thesis using Nil False read_outs_single [OF ok, of "[]", unfolded tw] assms(3)
        by (simp add: method_answer_def as_result_def Let_def split: option.split)
    next
      case (Cons r rest)
      then have "rest = []" using False k by simp
      then show ?thesis using Cons False read_outs_single [OF ok, of "[]"] assms(3) by (simp add: method_answer_def as_result_def Let_def split: option.split)
    qed
  qed
qed

lemma call_params_args: "call_params n v req = Some ps \<Longrightarrow> ps = request_args req"
  by (auto simp: call_params_def request_args_def Let_def split: if_splits gval.splits gtype.splits)

lemma compiled_answer:
  assumes "suitable idx exported m = Inr (Some en)" "method_wf m" "results_ok m"
  shows "compileCallFunc (me_fn en) req =
     (if \<not> request_fits m req then Some (Inl ErrInputParamNotMatch)
      else map_option (\<lambda>rs. as_result (method_answer m rs)) (reflect_Call m (call_args m req)))"
proof -
  note en = suitable_entry(1-3) [OF assms(1)]
  have given: "length (request_args req) = given_args req" by (auto simp: request_args_def given_args_def split: gval.splits gtype.splits)
  have ctx: "cc_hasCtx (me_fn en) = takes_ctx m" using en(2) by (simp add: takes_ctx_def)
  have count: "cc_paramCount (me_fn en) = 3 \<longleftrightarrow> length (gm_in m) = (if takes_ctx m then 4 else 3)" using en(3) ctx by auto
  have "arg_count_ok m (length (call_args m req)) \<longleftrightarrow> arg_count_ok m ((if cc_hasCtx (me_fn en) then 1 else 0) + given_args req)"
    using given ctx by (simp add: call_args_def)
  then have fits: "request_fits m req \<longleftrightarrow> call_params (cc_paramCount (me_fn en)) (gm_variadic m) req \<noteq> None"
    using call_params_iff [OF assms(1,2), of req] count by (auto simp: request_fits_def)
  show ?thesis
  proof (cases "call_params (cc_paramCount (me_fn en)) (gm_variadic m) req")
    case None
    then show ?thesis using fits en(1) by (simp add: compileCallFunc_def)
  next
    case (Some ps)
    have ps: "(if cc_hasCtx (me_fn en) then [GCtx] else []) @ ps = call_args m req"
      using call_params_args [OF Some] ctx by (simp add: call_args_def)
    show ?thesis
    proof (cases "reflect_Call m (call_args m req)")
      case None
      then show ?thesis using Some fits en(1) ps by (simp add: compileCallFunc_def)
    next
      case rs: (Some rs)
      obtain k where k: "count_outs (gm_out m) 0 = Inr k" "cc_multiOut (me_fn en) = (1 < k)" using suitable_entry(4) [OF assms(1)] by blast
      have "gm_body m (call_args m req) = Some rs" using rs by (simp add: reflect_Call_def split: if_splits)
      then have "list_all2 (\<lambda>t v. implements_error t \<longrightarrow> v = GNil \<or> (\<exists>e. v = GErr e)) (gm_out m) rs" using assms(3) by (simp add: results_ok_def)
      then have "rs \<noteq> [] \<Longrightarrow> read_outs (1 < k) (zip (gm_out m) rs) [] = Some (as_result (method_answer m rs))" by (rule read_outs_answer [OF k(1)])
      moreover have "method_answer m [] = (GNil, None)" by (simp add: method_answer_def)
      ultimately show ?thesis using Some fits en(1) ps rs k(2) by (auto simp: compileCallFunc_def as_result_def)
    qed
  qed
qed

lemma as_result_case: "(case as_result a of Inl e \<Rightarrow> (GNil, Some e) | Inr v \<Rightarrow> (v, None)) = (if snd a = None then a else (GNil, snd a))"
  by (cases a; cases "snd a") (auto simp: as_result_def)

lemma method_answer_fields: "snd (method_answer m rs) \<noteq> None \<Longrightarrow> fst (method_answer m rs) = GNil"
  by (auto simp: method_answer_def Let_def split: option.splits if_splits)

section \<open>Properties\<close>

text \<open>
  C23. What a service with the registered methods \<open>ms\<close> answers to a request on fresh data. If the request wants an answer and has a dispatcher, the service sends exactly
  one response, with the number of the request and back to the caller, otherwise none. The answer is the denial when the caller is not authorised; \<open>ErrMethodNotFound\<close>
  when no module method of that name is published with a valid signature; otherwise \<open>ErrInputParamNotMatch\<close> when the number of arguments does not fit the method,
  \<open>ErrHandleMessagePanic\<close> when the method panics or does not take these arguments, and else what its results stand for: the first
  error, the value or values. When the method has exactly one value, an error that it returns after the value is not reported (\<open>method_answer\<close>).
\<close>

theorem HandleRequest_answers_once:
  assumes "registerMethod idx exported declared ms NewMethodMgr = (None, mgr, names)" "distinct (map gm_name ms)"
    and "\<forall>m \<in> set ms. method_wf m \<and> results_ok m"
    and "d < length (hw_data w)" "data = hw_data w ! d" "d_response data = GNil" "d_err data = None"
    and "denied = (case authorizer of None \<Rightarrow> False | Some a \<Rightarrow> \<not> a (em_senderPid meta) (d_method data))"
  shows "\<exists>a. hw_sent (HandleRequest authorizer mgr meta d w) = hw_sent w @
       (case em_sender meta of
          Some dispatcher \<Rightarrow> if d_needResp data then [(dispatcher, response_meta meta dispatcher, response_data data a)] else []
        | None \<Rightarrow> [])
     \<and> (denied \<longrightarrow> a = (GNil, Some ErrAuthorizationDenied))
     \<and> (\<not> denied \<and> (\<forall>m \<in> set ms. \<forall>en. gm_name m = d_method data \<longrightarrow> suitable idx exported m \<noteq> Inr (Some en)) \<longrightarrow> a = (GNil, Some ErrMethodNotFound))
     \<and> (\<forall>m \<in> set ms. \<forall>en. \<not> denied \<and> gm_name m = d_method data \<and> suitable idx exported m = Inr (Some en) \<longrightarrow>
          a = (if \<not> request_fits m (d_request data) then (GNil, Some ErrInputParamNotMatch)
               else case reflect_Call m (call_args m (d_request data)) of
                      None \<Rightarrow> (GNil, Some ErrHandleMessagePanic)
                    | Some rs \<Rightarrow> method_answer m rs))"
proof -
  let ?x = "outcome_of authorizer mgr meta data"
  define a where "a = (case ?x of Inl e \<Rightarrow> (GNil, Some e) | Inr v \<Rightarrow> (v, None))"
  have fn: "GetMethodFunc (d_method data) mgr = Some cc \<longleftrightarrow>
      (\<exists>m \<in> set ms. \<exists>en. gm_name m = d_method data \<and> suitable idx exported m = Inr (Some en) \<and> me_fn en = cc)" for cc
    using registered_fn [OF assms(1,2)] .
  have sent: "hw_sent (HandleRequest authorizer mgr meta d w) = hw_sent w @
       (case em_sender meta of
          Some dispatcher \<Rightarrow> if d_needResp data then [(dispatcher, response_meta meta dispatcher, response_data data a)] else []
        | None \<Rightarrow> [])"
  proof (cases "d_needResp data \<and> em_sender meta \<noteq> None")
    case True
    then obtain dispatcher where "em_sender meta = Some dispatcher" by auto
    then show ?thesis using HandleRequest_sent [OF assms(4), of meta dispatcher authorizer mgr] True assms(5-7)
      by (simp add: answer_fields_def a_def split: sum.splits)
  next
    case False
    then show ?thesis using assms(4,5) by (auto simp: HandleRequest_effect Let_def doResponse_def split: option.splits)
  qed
  have den: "a = (GNil, Some ErrAuthorizationDenied)" if "denied" using that assms(8) by (simp add: a_def request_outcome_def split: option.splits)
  have unknown: "a = (GNil, Some ErrMethodNotFound)"
    if "\<not> denied" "\<forall>m \<in> set ms. \<forall>en. gm_name m = d_method data \<longrightarrow> suitable idx exported m \<noteq> Inr (Some en)"
  proof -
    have "GetMethodFunc (d_method data) mgr = None" using fn that(2) by (metis option.exhaust)
    then show ?thesis using that(1) assms(8) by (simp add: a_def request_outcome_def split: option.splits)
  qed
  have known: "a = (if \<not> request_fits m (d_request data) then (GNil, Some ErrInputParamNotMatch)
               else case reflect_Call m (call_args m (d_request data)) of None \<Rightarrow> (GNil, Some ErrHandleMessagePanic) | Some rs \<Rightarrow> method_answer m rs)"
    if "\<not> denied" "m \<in> set ms" "gm_name m = d_method data" "suitable idx exported m = Inr (Some en)" for m en
  proof -
    have "GetMethodFunc (d_method data) mgr = Some (me_fn en)" using fn that by blast
    then have x: "?x = (case compileCallFunc (me_fn en) (d_request data) of None \<Rightarrow> Inl ErrHandleMessagePanic | Some x \<Rightarrow> x)"
      using that(1) assms(8) by (simp add: request_outcome_def split: option.splits)
    have m: "method_wf m" "results_ok m" using assms(3) that(2) by simp_all
    show ?thesis unfolding a_def x compiled_answer [OF that(4) m]
      using method_answer_fields [of m] by (auto simp: as_result_case prod_eq_iff split: option.split)
  qed
  show ?thesis using sent den unknown known by blast
qed

text \<open>A service with the two methods \<open>RpcGet(n int) (string, error)\<close> and \<open>RpcSet(n int) error\<close>, which always fails.\<close>

definition demo_get :: go_method where
  "demo_get = \<lparr> gm_name = ''RpcGet'', gm_in = [TPtr (TStruct 0), TBase 0], gm_variadic = False, gm_out = [TBase 1, TError],
                gm_body = (\<lambda>args. Some [GBase 1 0, GErr 7]) \<rparr>"

definition demo_set :: go_method where
  "demo_set = \<lparr> gm_name = ''RpcSet'', gm_in = [TPtr (TStruct 0), TBase 0], gm_variadic = False, gm_out = [TError],
                gm_body = (\<lambda>args. Some [GErr 7]) \<rparr>"

definition demo_mgr :: method_mgr where
  "demo_mgr = fst (snd (registerMethod NewMethodIndex (\<lambda>_. True) [''RpcGet''] [demo_get, demo_set] NewMethodMgr))"

definition demo_data :: "string \<Rightarrow> env_data" where
  "demo_data name = NewData \<lparr> d_method := name, d_request := GBase 0 5, d_needResp := True \<rparr>"

definition demo_meta :: "nat \<Rightarrow> env_meta" where
  "demo_meta r = \<lparr> em_reqID = r, em_senderPid = 1, em_receiverPid = 2, em_sender = Some 1, em_deadline = 0, em_idempotencyKey = [] \<rparr>"

lemmas demo_suitable = suitable_def demo_get_def demo_set_def NewMethodIndex_def prefix_has_def newPrefixBucketIndex_def prefix_add_def upper_byte_def
  isExportedOrBuiltinType_def nilable_def implements_error_def

lemma demo_suitable_eqs:
  "suitable NewMethodIndex (\<lambda>_. True) demo_get = Inr (Some \<lparr> me_fn = \<lparr> cc_method = demo_get, cc_paramCount = 2, cc_multiOut = False, cc_hasCtx = False \<rparr>, me_readOnly = False \<rparr>)"
  "suitable NewMethodIndex (\<lambda>_. True) demo_set = Inr (Some \<lparr> me_fn = \<lparr> cc_method = demo_set, cc_paramCount = 2, cc_multiOut = False, cc_hasCtx = False \<rparr>, me_readOnly = False \<rparr>)"
  by (simp_all add: demo_suitable)

lemma demo_registered:
  "registerMethod NewMethodIndex (\<lambda>_. True) [''RpcGet''] [demo_get, demo_set] NewMethodMgr = (None, demo_mgr, [''RpcGet'', ''RpcSet''])"
  "distinct (map gm_name [demo_get, demo_set])" "\<forall>m \<in> set [demo_get, demo_set]. method_wf m \<and> results_ok m"
  by (simp_all add: demo_mgr_def registerMethod_def suitableMethods_def demo_suitable_eqs Let_def)
    (simp_all add: demo_get_def demo_set_def method_wf_def results_ok_def implements_error_def)

theorem HandleRequest_answers_once_witness:
  "map (\<lambda>(disp, meta, data). (disp, em_reqID meta, d_response data, d_err data))
     (hw_sent (HandleRequest None demo_mgr (demo_meta 9) 0 \<lparr> hw_data = [demo_data ''RpcSet''], hw_sent = [] \<rparr>)) = [(1, 9, GNil, Some (ErrApp 7))]"
proof -
  let ?w = "\<lparr> hw_data = [demo_data ''RpcSet''], hw_sent = [] \<rparr>"
  have w: "0 < length (hw_data ?w)" "demo_data ''RpcSet'' = hw_data ?w ! 0" "d_response (demo_data ''RpcSet'') = GNil" "d_err (demo_data ''RpcSet'') = None"
    by (simp_all add: demo_data_def NewData_def)
  have shape: "em_sender (demo_meta 9) = Some 1" "d_needResp (demo_data ''RpcSet'')" "d_method (demo_data ''RpcSet'') = ''RpcSet''"
    "d_request (demo_data ''RpcSet'') = GBase 0 5" by (simp_all add: demo_data_def demo_meta_def)
  have T: "False = (case None of None \<Rightarrow> False | Some a \<Rightarrow> \<not> a (em_senderPid (demo_meta 9)) (d_method (demo_data ''RpcSet'')))" by simp
  obtain a where sent: "hw_sent (HandleRequest None demo_mgr (demo_meta 9) 0 ?w) = [] @ [(1, response_meta (demo_meta 9) 1, response_data (demo_data ''RpcSet'') a)]"
    and a: "\<forall>m \<in> set [demo_get, demo_set]. \<forall>en. \<not> False \<and> gm_name m = ''RpcSet'' \<and> suitable NewMethodIndex (\<lambda>_. True) m = Inr (Some en) \<longrightarrow>
       a = (if \<not> request_fits m (GBase 0 5) then (GNil, Some ErrInputParamNotMatch)
            else case reflect_Call m (call_args m (GBase 0 5)) of None \<Rightarrow> (GNil, Some ErrHandleMessagePanic) | Some rs \<Rightarrow> method_answer m rs)"
    using HandleRequest_answers_once [OF demo_registered w T] unfolding shape option.case handler_world.simps by (simp only: shape if_True) blast
  have "request_fits demo_set (GBase 0 5)" "reflect_Call demo_set (call_args demo_set (GBase 0 5)) = Some [GErr 7]" "method_answer demo_set [GErr 7] = (GNil, Some (ErrApp 7))"
    by (simp_all add: request_fits_def call_args_def takes_ctx_def arg_count_ok_def single_arg_def request_args_def reflect_Call_def arg_types_def assignable_def
        method_answer_def is_failure_def the_error_def implements_error_def demo_set_def)
  then have "a = (GNil, Some (ErrApp 7))" using bspec [OF a, of demo_set] demo_suitable_eqs(2) by (simp add: demo_set_def)
  then show ?thesis using sent by (simp add: response_meta_def response_data_def demo_meta_def)
qed

text \<open>
  The call by reflection looks at the results in order and returns the first value of a method with a single value. In Go's usual signature
  with the value first and the error second the error is never looked at: whatever error a registered method of the form \<open>(T, error)\<close> returns, the caller
  gets the value and no error.
\<close>

lemma single_result_drops_error:
  assumes "suitable idx exported m = Inr (Some en)" "gm_out m = [t, TError]" "\<not> implements_error t"
    and "call_params (cc_paramCount (me_fn en)) (gm_variadic m) req = Some ps"
    and "reflect_Call m ((if cc_hasCtx (me_fn en) then [GCtx] else []) @ ps) = Some [v, GErr e]"
  shows "compileCallFunc (me_fn en) req = Some (Inr v)"
proof -
  obtain k where "count_outs (gm_out m) 0 = Inr k" "cc_multiOut (me_fn en) = (1 < k)" using suitable_entry(4) [OF assms(1)] by blast
  then have "\<not> cc_multiOut (me_fn en)" using assms(2,3) by (auto simp: implements_error_def nilable_def split: if_splits gtype.splits)
  then show ?thesis using assms suitable_entry(1) [OF assms(1)] by (simp add: compileCallFunc_def)
qed

lemma demo_get_registered:
  "GetMethodFunc ''RpcGet'' demo_mgr = Some \<lparr> cc_method = demo_get, cc_paramCount = 2, cc_multiOut = False, cc_hasCtx = False \<rparr>"
  using registered_fn [OF demo_registered(1,2)] demo_suitable_eqs(1) by (fastforce simp: demo_get_def)

text \<open>
  \<open>HandleRequest\<close> writes its outcome into the data of the request and never clears an error. When two services handle requests that
  share their data, as the requests of one multi-bus call to local services do, and the first fails, the second answers its own successful result together with the
  error of the first.
\<close>

theorem shared_data_leaks_error:
  assumes "d < length (hw_data w)" "d_needResp (hw_data w ! d)" "em_sender meta2 = Some dispatcher"
    and "outcome_of au1 mgr1 meta1 (hw_data w ! d) = Inl e" "outcome_of au2 mgr2 meta2 (hw_data w ! d) = Inr v"
  shows "last (hw_sent (HandleRequest au2 mgr2 meta2 d (HandleRequest au1 mgr1 meta1 d w)))
     = (dispatcher, response_meta meta2 dispatcher, response_data (hw_data w ! d) (v, Some e))"
  using assms by (simp add: HandleRequest_sent HandleRequest_data answer_fields_def response_data_def)

definition good_get :: go_method where
  "good_get = demo_get \<lparr> gm_out := [TBase 1], gm_body := (\<lambda>args. Some [GBase 1 3]) \<rparr>"

definition fail_get :: go_method where
  "fail_get = demo_get \<lparr> gm_out := [TError], gm_body := (\<lambda>args. Some [GErr 7]) \<rparr>"

theorem shared_data_leaks_error_witness:
  "last (hw_sent (HandleRequest None (fst (snd (registerMethod NewMethodIndex (\<lambda>_. True) [] [good_get] NewMethodMgr))) (demo_meta 2) 0
       (HandleRequest None (fst (snd (registerMethod NewMethodIndex (\<lambda>_. True) [] [fail_get] NewMethodMgr))) (demo_meta 1) 0
          \<lparr> hw_data = [demo_data ''RpcGet''], hw_sent = [] \<rparr>)))
     = (1, response_meta (demo_meta 2) 1, response_data (demo_data ''RpcGet'') (GBase 1 3, Some (ErrApp 7)))"
proof -
  let ?w = "\<lparr> hw_data = [demo_data ''RpcGet''], hw_sent = [] \<rparr>"
  have "0 < length (hw_data ?w)" by simp
  moreover have "d_needResp (hw_data ?w ! 0)" by (simp add: demo_data_def)
  moreover have "em_sender (demo_meta 2) = Some 1" by (simp add: demo_meta_def)
  moreover have "outcome_of None (fst (snd (registerMethod NewMethodIndex (\<lambda>_. True) [] [fail_get] NewMethodMgr))) (demo_meta 1) (hw_data ?w ! 0) = Inl (ErrApp 7)"
    by code_simp
  moreover have "outcome_of None (fst (snd (registerMethod NewMethodIndex (\<lambda>_. True) [] [good_get] NewMethodMgr))) (demo_meta 2) (hw_data ?w ! 0) = Inr (GBase 1 3)"
    by code_simp
  ultimately have "last (hw_sent (HandleRequest None (fst (snd (registerMethod NewMethodIndex (\<lambda>_. True) [] [good_get] NewMethodMgr))) (demo_meta 2) 0
       (HandleRequest None (fst (snd (registerMethod NewMethodIndex (\<lambda>_. True) [] [fail_get] NewMethodMgr))) (demo_meta 1) 0 ?w)))
     = (1, response_meta (demo_meta 2) 1, response_data (hw_data ?w ! 0) (GBase 1 3, Some (ErrApp 7)))"
    by (rule shared_data_leaks_error)
  then show ?thesis by simp
qed

text \<open>
  A registered method accepts a request exactly when the number of its arguments, the context included, is one that the reflective call accepts, with one
  exception: a variadic method with one fixed parameter refuses a single argument that is not packed in a slice. So a mismatch is the error
  \<open>ErrInputParamNotMatch\<close> and never a panic.
\<close>

theorem request_arity:
  assumes "suitable idx exported m = Inr (Some en)" "method_wf m"
  shows "compileCallFunc (me_fn en) req \<noteq> Some (Inl ErrInputParamNotMatch) \<longleftrightarrow>
     arg_count_ok m ((if cc_hasCtx (me_fn en) then 1 else 0) + given_args req)
     \<and> \<not> (gm_variadic m \<and> single_arg req \<and> cc_paramCount (me_fn en) = 3)"
proof -
  have "read_outs multi xs out \<noteq> Some (Inl ErrInputParamNotMatch)" for multi xs out
    by (induction multi xs out rule: read_outs.induct) (auto split: gval.splits)
  then have "compileCallFunc (me_fn en) req \<noteq> Some (Inl ErrInputParamNotMatch) \<longleftrightarrow> call_params (cc_paramCount (me_fn en)) (gm_variadic m) req \<noteq> None"
    using suitable_entry(1) [OF assms(1)] by (auto simp: compileCallFunc_def split: option.splits)
  then show ?thesis using call_params_iff [OF assms] by simp
qed

text \<open>
  After the registration of a module, whose method names are distinct, exactly its suitable methods can be called, each by its own compiled call, and exactly those of them are read-only
  that have a read-only prefix or that the module declares so.
\<close>

theorem registered_methods:
  assumes "registerMethod idx exported declared ms NewMethodMgr = (None, mgr, names)" "distinct (map gm_name ms)"
  shows "(GetMethodFunc n mgr = Some cc \<longleftrightarrow> (\<exists>m \<in> set ms. \<exists>en. gm_name m = n \<and> suitable idx exported m = Inr (Some en) \<and> me_fn en = cc))
     \<and> (IsReadOnly n mgr \<longleftrightarrow> (\<exists>m \<in> set ms. \<exists>en. gm_name m = n \<and> suitable idx exported m = Inr (Some en) \<and> (me_readOnly en \<or> n \<in> set declared)))"
proof -
  have "IsReadOnly n mgr \<longleftrightarrow> (\<exists>e. gm_get (mm_methods mgr) n = Some e \<and> me_readOnly e)" by (auto simp: IsReadOnly_def split: option.splits)
  also have "\<dots> \<longleftrightarrow> (\<exists>m \<in> set ms. \<exists>en. gm_name m = n \<and> suitable idx exported m = Inr (Some en) \<and> (me_readOnly en \<or> n \<in> set declared))"
    unfolding registered_entry [OF assms] by (cases "n \<in> set declared") simp_all
  finally show ?thesis using registered_fn [OF assms] by simp
qed

end
