(* ===== verification/Msg_Bus.thy ===== *)
theory Msg_Bus
  imports Rpc_Handler Mailbox_Conf
begin

text \<open>
  The message bus through which services call each other: \<open>engine/pkg/rpc/message/msgbus/bus.go\<close> and
  \<open>rpc_metrics.go\<close>, \<open>CombineErrors\<close> of \<open>engine/pkg/utils/errorx\<close>, the options of \<open>engine/pkg/dto/rpc.go\<close> and the
  deadline of a job in \<open>engine/pkg/core/handler_job.go\<close>.

  What happens to a request after \<open>DeliverRequest\<close> is an argument of the model: refused, answered with a value, or failed
  with an error (timeouts included). \<open>Rpc_Monitor\<close> and \<open>Rpc_Calls\<close> model that part, \<open>Rpc_Handler\<close> the answering service. The results
  that a caller wants filled in are cells of a typed store, so that an assignment through a pointer and its type check are visible. Times are
  nanoseconds; there are two clocks, because the timeout of a call is measured with \<open>time.Now\<close> and its deadline with \<open>timelib.Now\<close>.
\<close>

section \<open>Definitions\<close>

subsection \<open>Data\<close>

datatype bus_err =
    Err_Preset nat | Err_SenderNil | Err_ReceiverNil | Err_SenderOrReceiverNil | Err_NoMonitor | Err_BadOut
  | Err_TypeMismatch | Err_CountMismatch | Err_AtIndex nat bus_err | ErrRPCCallFailed | ErrRPCCallTimeout | Err_Answer rpc_err | Err_Deliver nat
  | ErrSelectEmptyResult | ErrCallbacksIsEmpty | Err_Join "bus_err list"

datatype delivery = Refused nat | Answered gval | Failed bus_err

datatype out_arg = OutNil | OutPtr nat | OutNilPtr | OutOther | OutMulti "out_arg list"

record rpc_metrics =
  callTotal :: int
  callErrors :: int
  callInFlight :: int
  asyncCallTotal :: int
  asyncCallErrors :: int
  sendTotal :: int
  sendErrors :: int

record message_bus =
  mb_id :: nat
  mb_sender :: "nat option"
  mb_receiver :: "nat option"
  mb_err :: "bus_err option"
  mb_factory :: bool

record bus_request =
  rq_receiver :: nat
  rq_meta :: env_meta
  rq_data :: nat
  rq_priority :: int
  rq_dispatchKey :: string
  rq_timeout :: int
  rq_callbacks :: "nat list"

text \<open>The factory (metrics, timeout, monitor), the store of request data, the requests handed out, the cells for results and the released buses.\<close>

record bus_world =
  bw_metrics :: rpc_metrics
  bw_rpcTimeout :: int
  bw_monitor :: bool
  bw_seq :: nat
  bw_data :: "env_data list"
  bw_requests :: "bus_request list"
  bw_cells :: "(gtype \<times> gval) list"
  bw_released :: "nat list"

record bus_env =
  be_now :: int
  be_clock :: int
  be_deliver :: "bus_request \<Rightarrow> delivery"

text \<open>A context: nil, without deadline, with a deadline.\<close>

type_synonym bus_ctx = "int option option"

definition DefaultRpcTimeout :: int where
  "DefaultRpcTimeout = 5 * 1000000000"

text \<open>\<open>UnixNano\<close> of the zero time, which is 62135596800 seconds before 1970: the product wraps around.\<close>

definition zero_time_nano :: int where
  "zero_time_nano = (- 62135596800 * 1000000000 + 2 ^ 63) mod 2 ^ 64 - 2 ^ 63"

subsection \<open>Results\<close>

definition validateSingleOutParam :: "out_arg \<Rightarrow> bus_err + nat" where
  "validateSingleOutParam out = (case out of OutPtr a \<Rightarrow> Inr a | _ \<Rightarrow> Inl Err_BadOut)"

fun validate_from :: "nat \<Rightarrow> out_arg list \<Rightarrow> bus_err option" where
  "validate_from i [] = None"
| "validate_from i (out # outs) =
     (case validateSingleOutParam out of Inl e \<Rightarrow> Some (Err_AtIndex i e) | Inr a \<Rightarrow> validate_from (Suc i) outs)"

definition validateMultiOutParams :: "out_arg list \<Rightarrow> bus_err option" where
  "validateMultiOutParams outs = validate_from 0 outs"

fun zero_of :: "gtype \<Rightarrow> gval" where
  "zero_of (TBase n) = GBase n 0"
| "zero_of (TStruct n) = GStruct n 0"
| "zero_of (TPtr t) = GPtr t None"
| "zero_of (TSlice t) = GSlice t []"
| "zero_of (TRef n) = GRef n 0"
| "zero_of t = GNil"

definition set_cell :: "nat \<Rightarrow> gval \<Rightarrow> bus_world \<Rightarrow> bus_world" where
  "set_cell a v w = w \<lparr> bw_cells := (bw_cells w)[a := (fst (bw_cells w ! a), v)] \<rparr>"

definition assignSingleOutCached :: "nat \<Rightarrow> gval \<Rightarrow> bus_world \<Rightarrow> bus_err option \<times> bus_world" where
  "assignSingleOutCached a resp w =
     (let outType = fst (bw_cells w ! a)
      in case resp of
           GNil \<Rightarrow> (None, set_cell a (zero_of outType) w)
         | GPtr t None \<Rightarrow> (None, set_cell a (zero_of outType) w)
         | GPtr t (Some v) \<Rightarrow> if outType \<noteq> t then (Some Err_TypeMismatch, w) else (None, set_cell a v w)
         | GErr e \<Rightarrow> (Some Err_TypeMismatch, w)
         | GCtx \<Rightarrow> (Some Err_TypeMismatch, w)
         | _ \<Rightarrow> if outType \<noteq> type_of resp then (Some Err_TypeMismatch, w) else (None, set_cell a resp w))"

definition assignSingleOut :: "out_arg \<Rightarrow> gval \<Rightarrow> bus_world \<Rightarrow> bus_err option \<times> bus_world" where
  "assignSingleOut out resp w = (case validateSingleOutParam out of Inl e \<Rightarrow> (Some e, w) | Inr a \<Rightarrow> assignSingleOutCached a resp w)"

fun assign_from :: "nat \<Rightarrow> out_arg list \<Rightarrow> gval list \<Rightarrow> bus_world \<Rightarrow> bus_err option \<times> bus_world" where
  "assign_from i (out # outs) (r # rs) w =
     (case assignSingleOut out r w of (Some e, w1) \<Rightarrow> (Some (Err_AtIndex i e), w1) | (None, w1) \<Rightarrow> assign_from (Suc i) outs rs w1)"
| "assign_from i _ _ w = (None, w)"

definition assignCallResponse :: "out_arg \<Rightarrow> gval \<Rightarrow> bus_world \<Rightarrow> bus_err option \<times> bus_world" where
  "assignCallResponse out resp w =
     (case out of
        OutMulti outs \<Rightarrow>
          (case resp of
             GSlice TAny respList \<Rightarrow> if length outs \<noteq> length respList then (Some Err_CountMismatch, w) else assign_from 0 outs respList w
           | _ \<Rightarrow> (Some Err_TypeMismatch, w))
      | OutPtr a \<Rightarrow> assignSingleOutCached a resp w
      | _ \<Rightarrow> (None, w))"

definition check_out :: "out_arg \<Rightarrow> bus_err option" where
  "check_out out =
     (case out of
        OutNil \<Rightarrow> None
      | OutMulti outs \<Rightarrow> validateMultiOutParams outs
      | _ \<Rightarrow> (case validateSingleOutParam out of Inl e \<Rightarrow> Some e | Inr a \<Rightarrow> None))"

subsection \<open>Calls\<close>

definition getRpcTimeout :: "message_bus \<Rightarrow> bus_world \<Rightarrow> int" where
  "getRpcTimeout mb w = (if mb_factory mb \<and> 0 < bw_rpcTimeout w then bw_rpcTimeout w else DefaultRpcTimeout)"

definition requireRpcMonitor :: "message_bus \<Rightarrow> bus_world \<Rightarrow> bool" where
  "requireRpcMonitor mb w \<longleftrightarrow> mb_factory mb \<and> bw_monitor w"

text \<open>Timeout and deadline of \<open>call\<close> and \<open>asyncCall\<close>, and the deadline of \<open>send\<close>.\<close>

definition call_times :: "bus_env \<Rightarrow> bus_ctx \<Rightarrow> int \<Rightarrow> int \<times> int" where
  "call_times env ctx rpcTimeoutValue =
     (let deadline = (case ctx of None \<Rightarrow> be_now env + rpcTimeoutValue | Some (Some d) \<Rightarrow> d | Some None \<Rightarrow> zero_time_nano);
          timeout = (case ctx of Some (Some d) \<Rightarrow> d - be_clock env | _ \<Rightarrow> 0)
      in (if timeout \<le> 0 then rpcTimeoutValue else timeout, deadline))"

definition send_deadline :: "bus_env \<Rightarrow> bus_ctx \<Rightarrow> int \<Rightarrow> int" where
  "send_deadline env ctx rpcTimeoutValue = (case ctx of Some (Some d) \<Rightarrow> d | _ \<Rightarrow> be_now env + rpcTimeoutValue)"

record bus_options =
  bo_method :: string
  bo_in :: gval
  bo_out :: out_arg
  bo_callbacks :: "nat list"
  bo_notRecycle :: bool
  bo_callModeAll :: bool
  bo_priority :: int
  bo_dispatchKey :: string
  bo_idempotencyKey :: string

definition ReleaseMessageBus :: "message_bus \<Rightarrow> bus_world \<Rightarrow> bus_world" where
  "ReleaseMessageBus mb w = (if mb_factory mb then w \<lparr> bw_released := bw_released w @ [mb_id mb] \<rparr> else w)"

definition recycle_bus :: "bool \<Rightarrow> message_bus \<Rightarrow> 'a \<times> bus_world \<Rightarrow> 'a \<times> bus_world" where
  "recycle_bus recycle mb x = (fst x, if recycle then ReleaseMessageBus mb (snd x) else snd x)"

definition new_data :: "string \<Rightarrow> gval \<Rightarrow> bool \<Rightarrow> bus_world \<Rightarrow> nat \<times> bus_world" where
  "new_data name req need w =
     (length (bw_data w), w \<lparr> bw_data := bw_data w @ [NewData \<lparr> d_method := name, d_request := req, d_response := GNil, d_needResp := need \<rparr>] \<rparr>)"

definition make_request :: "message_bus \<Rightarrow> nat \<Rightarrow> nat \<Rightarrow> int \<Rightarrow> string \<Rightarrow> string \<Rightarrow> int \<Rightarrow> int \<Rightarrow> nat list \<Rightarrow> bus_request" where
  "make_request mb reqId d priority dispatchKey idempotencyKey timeout deadline callbacks =
     \<lparr> rq_receiver = the (mb_receiver mb),
       rq_meta = \<lparr> em_reqID = reqId, em_senderPid = the (mb_sender mb), em_receiverPid = the (mb_receiver mb), em_sender = mb_sender mb,
                   em_deadline = deadline, em_idempotencyKey = idempotencyKey \<rparr>,
       rq_data = d, rq_priority = priority, rq_dispatchKey = dispatchKey, rq_timeout = timeout, rq_callbacks = callbacks \<rparr>"

definition call_body :: "bus_env \<Rightarrow> bus_ctx \<Rightarrow> message_bus \<Rightarrow> nat \<Rightarrow> int \<Rightarrow> string \<Rightarrow> string \<Rightarrow> out_arg \<Rightarrow> bus_world \<Rightarrow> bus_err option \<times> bus_world" where
  "call_body env ctx mb d priority dispatchKey idempotencyKey out w =
     (case check_out out of
        Some e \<Rightarrow> (Some e, w)
      | None \<Rightarrow>
          let (timeout, deadline) = call_times env ctx (getRpcTimeout mb w)
          in if \<not> requireRpcMonitor mb w then (Some Err_NoMonitor, w)
             else let reqId = bw_seq w + 1;
                      rq = make_request mb reqId d priority dispatchKey idempotencyKey timeout deadline [];
                      w1 = w \<lparr> bw_seq := reqId, bw_requests := bw_requests w @ [rq] \<rparr>
               in case be_deliver env rq of
                    Refused e \<Rightarrow> (Some ErrRPCCallFailed, w1)
                  | Failed e \<Rightarrow> (Some e, w1)
                  | Answered resp \<Rightarrow> if out = OutNil then (None, w1) else assignCallResponse out resp w1)"

definition call_begin :: "message_bus \<Rightarrow> bus_world \<Rightarrow> bus_world" where
  "call_begin mb w =
     (if mb_factory mb
      then w \<lparr> bw_metrics := (bw_metrics w) \<lparr> callTotal := callTotal (bw_metrics w) + 1, callInFlight := callInFlight (bw_metrics w) + 1 \<rparr> \<rparr> else w)"

definition call_end :: "message_bus \<Rightarrow> bus_err option \<times> bus_world \<Rightarrow> bus_err option \<times> bus_world" where
  "call_end mb x = (case x of (callErr, w) \<Rightarrow>
     (callErr,
      if mb_factory mb
      then w \<lparr> bw_metrics := (bw_metrics w) \<lparr> callInFlight := callInFlight (bw_metrics w) - 1,
                                              callErrors := callErrors (bw_metrics w) + (if callErr \<noteq> None then 1 else 0) \<rparr> \<rparr> else w))"

definition bus_call :: "bus_env \<Rightarrow> bus_ctx \<Rightarrow> message_bus \<Rightarrow> nat \<Rightarrow> int \<Rightarrow> string \<Rightarrow> string \<Rightarrow> out_arg \<Rightarrow> bus_world \<Rightarrow> bus_err option \<times> bus_world" where
  "bus_call env ctx mb d priority dispatchKey idempotencyKey out w =
     (if mb_err mb \<noteq> None then (mb_err mb, w)
      else if mb_sender mb = None then (Some Err_SenderNil, w)
      else if mb_receiver mb = None then (Some Err_ReceiverNil, w)
      else call_end mb (call_body env ctx mb d priority dispatchKey idempotencyKey out (call_begin mb w)))"

definition callInternal :: "bus_env \<Rightarrow> bus_ctx \<Rightarrow> message_bus \<Rightarrow> string \<Rightarrow> gval \<Rightarrow> out_arg \<Rightarrow> int \<Rightarrow> string \<Rightarrow> string \<Rightarrow> bool \<Rightarrow> bus_world \<Rightarrow> bus_err option \<times> bus_world" where
  "callInternal env ctx mb name req out priority dispatchKey idempotencyKey recycle w =
     recycle_bus recycle mb
       (if mb_err mb \<noteq> None then (mb_err mb, w)
        else let (d, w1) = new_data name req True w in bus_call env ctx mb d priority dispatchKey idempotencyKey out w1)"

definition bus_Call :: "bus_env \<Rightarrow> bus_ctx \<Rightarrow> message_bus \<Rightarrow> string \<Rightarrow> gval \<Rightarrow> out_arg \<Rightarrow> bus_world \<Rightarrow> bus_err option \<times> bus_world" where
  "bus_Call env ctx mb name req out w =
     recycle_bus True mb
       (if mb_err mb \<noteq> None then (mb_err mb, w)
        else let (d, w1) = new_data name req True w in bus_call env ctx mb d PriorityNormal [] [] out w1)"

definition bus_CallWithOpt :: "bus_env \<Rightarrow> bus_ctx \<Rightarrow> message_bus \<Rightarrow> bus_options \<Rightarrow> bus_world \<Rightarrow> bus_err option \<times> bus_world" where
  "bus_CallWithOpt env ctx mb opt w =
     recycle_bus (\<not> bo_notRecycle opt) mb
       (if mb_err mb \<noteq> None then (mb_err mb, w)
        else let (d, w1) = new_data (bo_method opt) (bo_in opt) True w
          in bus_call env ctx mb d (bo_priority opt) (bo_dispatchKey opt) (bo_idempotencyKey opt) (bo_out opt) w1)"

subsection \<open>Asynchronous calls\<close>

definition async_begin :: "message_bus \<Rightarrow> bus_world \<Rightarrow> bus_world" where
  "async_begin mb w =
     (if mb_factory mb then w \<lparr> bw_metrics := (bw_metrics w) \<lparr> asyncCallTotal := asyncCallTotal (bw_metrics w) + 1 \<rparr> \<rparr> else w)"

definition async_end :: "message_bus \<Rightarrow> (bus_err + nat) \<times> bus_world \<Rightarrow> (bus_err + nat) \<times> bus_world" where
  "async_end mb x = (case x of
       (Inl e, w) \<Rightarrow> (Inl e, if mb_factory mb then w \<lparr> bw_metrics := (bw_metrics w) \<lparr> asyncCallErrors := asyncCallErrors (bw_metrics w) + 1 \<rparr> \<rparr> else w)
     | (Inr r, w) \<Rightarrow> (Inr r, w))"

definition asyncCall :: "bus_env \<Rightarrow> bus_ctx \<Rightarrow> message_bus \<Rightarrow> nat \<Rightarrow> int \<Rightarrow> string \<Rightarrow> string \<Rightarrow> nat list \<Rightarrow> bus_world \<Rightarrow> (bus_err + nat) \<times> bus_world" where
  "asyncCall env ctx mb d priority dispatchKey idempotencyKey callbacks w0 =
     async_end mb
       (let w = async_begin mb w0; (timeout, deadline) = call_times env ctx (getRpcTimeout mb w)
        in if \<not> requireRpcMonitor mb w then (Inl Err_NoMonitor, w)
           else let reqId = bw_seq w + 1;
                    rq = make_request mb reqId d priority dispatchKey idempotencyKey timeout deadline callbacks;
                    w1 = w \<lparr> bw_seq := reqId, bw_requests := bw_requests w @ [rq] \<rparr>
             in case be_deliver env rq of Refused e \<Rightarrow> (Inl ErrRPCCallFailed, w1) | _ \<Rightarrow> (Inr reqId, w1))"

definition async_guard :: "message_bus \<Rightarrow> nat list \<Rightarrow> bus_err option" where
  "async_guard mb callbacks =
     (if mb_err mb \<noteq> None then mb_err mb
      else if mb_sender mb = None \<or> mb_receiver mb = None then Some Err_SenderOrReceiverNil
      else if callbacks = [] then Some ErrCallbacksIsEmpty
      else None)"

text \<open>The cancellation handed to the caller is the list of the requests it cancels; \<open>None\<close> is nil.\<close>

definition bus_AsyncCall :: "bus_env \<Rightarrow> bus_ctx \<Rightarrow> message_bus \<Rightarrow> string \<Rightarrow> gval \<Rightarrow> nat list \<Rightarrow> bus_world \<Rightarrow> (nat list option \<times> bus_err option) \<times> bus_world" where
  "bus_AsyncCall env ctx mb name req callbacks w =
     recycle_bus True mb
       (case async_guard mb callbacks of
          Some e \<Rightarrow> ((None, Some e), w)
        | None \<Rightarrow>
            let (d, w1) = new_data name req True w
            in case asyncCall env ctx mb d PriorityNormal [] [] callbacks w1 of
                 (Inl e, w2) \<Rightarrow> ((Some [], Some e), w2)
               | (Inr reqId, w2) \<Rightarrow> if requireRpcMonitor mb w2 then ((Some [reqId], None), w2) else ((Some [], Some Err_NoMonitor), w2))"

definition bus_AsyncCallWithOpt :: "bus_env \<Rightarrow> bus_ctx \<Rightarrow> message_bus \<Rightarrow> bus_options \<Rightarrow> bus_world \<Rightarrow> (nat list option \<times> bus_err option) \<times> bus_world" where
  "bus_AsyncCallWithOpt env ctx mb opt w =
     recycle_bus (\<not> bo_notRecycle opt) mb
       (case async_guard mb (bo_callbacks opt) of
          Some e \<Rightarrow> ((None, Some e), w)
        | None \<Rightarrow>
            let (d, w1) = new_data (bo_method opt) (bo_in opt) True w
            in case asyncCall env ctx mb d (bo_priority opt) (bo_dispatchKey opt) (bo_idempotencyKey opt) (bo_callbacks opt) w1 of
                 (Inl e, w2) \<Rightarrow> ((Some [], Some e), w2)
               | (Inr reqId, w2) \<Rightarrow> if requireRpcMonitor mb w2 then ((Some [reqId], None), w2) else ((Some [], Some Err_NoMonitor), w2))"

definition asyncCallInternal :: "bus_env \<Rightarrow> bus_ctx \<Rightarrow> nat \<Rightarrow> int \<Rightarrow> string \<Rightarrow> string \<Rightarrow> bool \<Rightarrow> nat list \<Rightarrow> message_bus \<Rightarrow> bus_world \<Rightarrow> (bus_err + nat) \<times> bus_world" where
  "asyncCallInternal env ctx d priority dispatchKey idempotencyKey recycle callbacks mb w =
     recycle_bus recycle mb
       (case async_guard mb callbacks of
          Some e \<Rightarrow> (Inl e, w)
        | None \<Rightarrow> asyncCall env ctx mb d priority dispatchKey idempotencyKey callbacks w)"

subsection \<open>Sending without a response\<close>

definition send_begin :: "message_bus \<Rightarrow> bus_world \<Rightarrow> bus_world" where
  "send_begin mb w = (if mb_factory mb then w \<lparr> bw_metrics := (bw_metrics w) \<lparr> sendTotal := sendTotal (bw_metrics w) + 1 \<rparr> \<rparr> else w)"

definition send_end :: "message_bus \<Rightarrow> bus_err option \<times> bus_world \<Rightarrow> bus_err option \<times> bus_world" where
  "send_end mb x = (case x of (sendErr, w) \<Rightarrow>
     (sendErr, if mb_factory mb then w \<lparr> bw_metrics := (bw_metrics w) \<lparr> sendErrors := sendErrors (bw_metrics w) + (if sendErr \<noteq> None then 1 else 0) \<rparr> \<rparr> else w))"

definition send_body :: "bus_env \<Rightarrow> bus_ctx \<Rightarrow> message_bus \<Rightarrow> string \<Rightarrow> int \<Rightarrow> string \<Rightarrow> string \<Rightarrow> gval \<Rightarrow> bus_world \<Rightarrow> bus_err option \<times> bus_world" where
  "send_body env ctx mb name priority dispatchKey idempotencyKey req w =
     (let deadline = send_deadline env ctx (getRpcTimeout mb w);
          (d, w1) = new_data name req False w;
          rq = make_request mb 0 d priority dispatchKey idempotencyKey 0 deadline [];
          w2 = w1 \<lparr> bw_requests := bw_requests w1 @ [rq] \<rparr>
      in case be_deliver env rq of Refused e \<Rightarrow> (Some (Err_Deliver e), w2) | _ \<Rightarrow> (None, w2))"

definition bus_send :: "bus_env \<Rightarrow> bus_ctx \<Rightarrow> message_bus \<Rightarrow> string \<Rightarrow> int \<Rightarrow> string \<Rightarrow> string \<Rightarrow> gval \<Rightarrow> bus_world \<Rightarrow> bus_err option \<times> bus_world" where
  "bus_send env ctx mb name priority dispatchKey idempotencyKey req w =
     (if mb_err mb \<noteq> None then (mb_err mb, w)
      else if mb_sender mb = None then (Some Err_SenderNil, w)
      else if mb_receiver mb = None then (Some Err_ReceiverNil, w)
      else send_end mb (send_body env ctx mb name priority dispatchKey idempotencyKey req (send_begin mb w)))"

definition bus_Send :: "bus_env \<Rightarrow> bus_ctx \<Rightarrow> message_bus \<Rightarrow> string \<Rightarrow> gval \<Rightarrow> bus_world \<Rightarrow> bus_err option \<times> bus_world" where
  "bus_Send env ctx mb name req w = recycle_bus True mb (bus_send env ctx mb name PriorityNormal [] [] req w)"

definition bus_SendWithOpt :: "bus_env \<Rightarrow> bus_ctx \<Rightarrow> message_bus \<Rightarrow> bus_options \<Rightarrow> bus_world \<Rightarrow> bus_err option \<times> bus_world" where
  "bus_SendWithOpt env ctx mb opt w =
     recycle_bus (\<not> bo_notRecycle opt) mb
       (bus_send env ctx mb (bo_method opt) (bo_priority opt) (bo_dispatchKey opt) (bo_idempotencyKey opt) (bo_in opt) w)"

definition sendInternal :: "bus_env \<Rightarrow> bus_ctx \<Rightarrow> nat \<Rightarrow> int \<Rightarrow> string \<Rightarrow> string \<Rightarrow> bool \<Rightarrow> message_bus \<Rightarrow> bus_world \<Rightarrow> bus_err option \<times> bus_world" where
  "sendInternal env ctx d priority dispatchKey idempotencyKey recycle mb w =
     recycle_bus recycle mb
       (if mb_err mb \<noteq> None then (mb_err mb, w)
        else if mb_receiver mb = None then (Some Err_ReceiverNil, w)
        else bus_send env ctx mb (d_method (bw_data w ! d)) priority dispatchKey idempotencyKey (d_request (bw_data w ! d)) w)"

subsection \<open>Several receivers\<close>

text \<open>\<open>CombineErrors\<close> of a list of errors that are not nil.\<close>

definition CombineErrors :: "bus_err list \<Rightarrow> bus_err option" where
  "CombineErrors errs = (case errs of [] \<Rightarrow> None | [e] \<Rightarrow> Some e | _ \<Rightarrow> Some (Err_Join errs))"

text \<open>The loop that stops at the first success, and the one that tries all.\<close>

fun try_any :: "(message_bus \<Rightarrow> bus_world \<Rightarrow> bus_err option \<times> bus_world) \<Rightarrow> message_bus list \<Rightarrow> bus_err list \<Rightarrow> bus_world \<Rightarrow> bus_err option \<times> bus_world" where
  "try_any f [] errs w = (CombineErrors errs, w)"
| "try_any f (mb # m) errs w = (case f mb w of (Some e, w1) \<Rightarrow> try_any f m (errs @ [e]) w1 | (None, w1) \<Rightarrow> (None, w1))"

fun try_all :: "(message_bus \<Rightarrow> bus_world \<Rightarrow> bus_err option \<times> bus_world) \<Rightarrow> message_bus list \<Rightarrow> bus_err list \<Rightarrow> bus_world \<Rightarrow> bus_err option \<times> bus_world" where
  "try_all f [] errs w = (CombineErrors errs, w)"
| "try_all f (mb # m) errs w = (case f mb w of (Some e, w1) \<Rightarrow> try_all f m (errs @ [e]) w1 | (None, w1) \<Rightarrow> try_all f m errs w1)"

definition MultiBus_Call :: "bus_env \<Rightarrow> bus_ctx \<Rightarrow> message_bus list \<Rightarrow> string \<Rightarrow> gval \<Rightarrow> out_arg \<Rightarrow> bus_world \<Rightarrow> bus_err option \<times> bus_world" where
  "MultiBus_Call env ctx m name req out w =
     (if m = [] then (Some ErrSelectEmptyResult, w)
      else try_any (\<lambda>mb. callInternal env ctx mb name req out PriorityNormal [] [] True) m [] w)"

definition MultiBus_CallWithOpt :: "bus_env \<Rightarrow> bus_ctx \<Rightarrow> message_bus list \<Rightarrow> bus_options \<Rightarrow> bus_world \<Rightarrow> bus_err option \<times> bus_world" where
  "MultiBus_CallWithOpt env ctx m opt w =
     (let f = (\<lambda>mb. callInternal env ctx mb (bo_method opt) (bo_in opt) (bo_out opt) (bo_priority opt) (bo_dispatchKey opt) (bo_idempotencyKey opt) (\<not> bo_notRecycle opt))
      in if m = [] then (Some ErrSelectEmptyResult, w)
         else if bo_callModeAll opt then try_all f m [] w else try_any f m [] w)"

fun async_all :: "(message_bus \<Rightarrow> bus_world \<Rightarrow> (bus_err + nat) \<times> bus_world) \<Rightarrow> message_bus list \<Rightarrow> bus_err list \<Rightarrow> nat list \<Rightarrow> bus_world \<Rightarrow> (bus_err list \<times> nat list) \<times> bus_world" where
  "async_all f [] errs reqIds w = ((errs, reqIds), w)"
| "async_all f (mb # m) errs reqIds w =
     (case f mb w of (Inl e, w1) \<Rightarrow> async_all f m (errs @ [e]) reqIds w1 | (Inr r, w1) \<Rightarrow> async_all f m errs (reqIds @ [r]) w1)"

definition multi_result :: "message_bus list \<Rightarrow> (bus_err list \<times> nat list) \<times> bus_world \<Rightarrow> (nat list option \<times> bus_err option) \<times> bus_world" where
  "multi_result m x = (case x of ((errs, reqIds), w) \<Rightarrow>
     if requireRpcMonitor (hd m) w then ((Some reqIds, CombineErrors errs), w)
     else ((Some [], CombineErrors (errs @ [Err_NoMonitor])), w))"

definition MultiBus_AsyncCall :: "bus_env \<Rightarrow> bus_ctx \<Rightarrow> message_bus list \<Rightarrow> string \<Rightarrow> gval \<Rightarrow> nat list \<Rightarrow> bus_world \<Rightarrow> (nat list option \<times> bus_err option) \<times> bus_world" where
  "MultiBus_AsyncCall env ctx m name req callbacks w =
     (if m = [] then ((None, Some ErrSelectEmptyResult), w)
      else let (d, w1) = new_data name req True w
        in multi_result m (async_all (asyncCallInternal env ctx d PriorityNormal [] [] True callbacks) m [] [] w1))"

definition MultiBus_AsyncCallWithOpt :: "bus_env \<Rightarrow> bus_ctx \<Rightarrow> message_bus list \<Rightarrow> bus_options \<Rightarrow> bus_world \<Rightarrow> (nat list option \<times> bus_err option) \<times> bus_world" where
  "MultiBus_AsyncCallWithOpt env ctx m opt w =
     (if m = [] then ((Some [], Some ErrSelectEmptyResult), w)
      else let (d, w1) = new_data (bo_method opt) (bo_in opt) True w
        in multi_result m (async_all (asyncCallInternal env ctx d (bo_priority opt) (bo_dispatchKey opt) (bo_idempotencyKey opt) (\<not> bo_notRecycle opt) (bo_callbacks opt)) m [] [] w1))"

definition MultiBus_Send :: "bus_env \<Rightarrow> bus_ctx \<Rightarrow> message_bus list \<Rightarrow> string \<Rightarrow> gval \<Rightarrow> bus_world \<Rightarrow> bus_err option \<times> bus_world" where
  "MultiBus_Send env ctx m name req w =
     (if m = [] then (None, w)
      else let (d, w1) = new_data name req False w in try_all (sendInternal env ctx d PriorityNormal [] [] True) m [] w1)"

definition MultiBus_SendWithOpt :: "bus_env \<Rightarrow> bus_ctx \<Rightarrow> message_bus list \<Rightarrow> bus_options \<Rightarrow> bus_world \<Rightarrow> bus_err option \<times> bus_world" where
  "MultiBus_SendWithOpt env ctx m opt w =
     (if m = [] then (None, w)
      else let (d, w1) = new_data (bo_method opt) (bo_in opt) False w
        in try_all (sendInternal env ctx d (bo_priority opt) (bo_dispatchKey opt) (bo_idempotencyKey opt) (\<not> bo_notRecycle opt)) m [] w1)"

definition MultiBus_Release :: "message_bus list \<Rightarrow> bus_world \<Rightarrow> bus_world" where
  "MultiBus_Release m w = fold ReleaseMessageBus m w"

subsection \<open>The deadline at the receiver\<close>

datatype job_limit = Job_Expired | Job_Unlimited | Job_Timeout int

definition InvokeJob_limit :: "int \<Rightarrow> int \<Rightarrow> job_limit" where
  "InvokeJob_limit now deadline =
     (if 0 < deadline then if deadline - now \<le> 0 then Job_Expired else Job_Timeout (deadline - now) else Job_Unlimited)"

section \<open>Types\<close>

text \<open>Values of a type, and values whose pointers and slices hold values of their element types.\<close>

definition has_type :: "gval \<Rightarrow> gtype \<Rightarrow> bool" where
  "has_type v t = (case t of
       TAny \<Rightarrow> True
     | TError \<Rightarrow> v = GNil \<or> type_of v = TErrVal
     | TErrVal \<Rightarrow> v = GNil \<or> type_of v = TErrVal
     | TCtx \<Rightarrow> v = GNil \<or> type_of v = TCtx
     | _ \<Rightarrow> type_of v = t)"

fun wf_val :: "gval \<Rightarrow> bool" where
  "wf_val (GPtr t v) = (case v of None \<Rightarrow> True | Some u \<Rightarrow> has_type u t \<and> wf_val u)"
| "wf_val (GSlice t vs) = list_all (\<lambda>u. has_type u t \<and> wf_val u) vs"
| "wf_val _ = True"

definition cells_ok :: "(gtype \<times> gval) list \<Rightarrow> bool" where
  "cells_ok cs \<longleftrightarrow> list_all (\<lambda>c. has_type (snd c) (fst c) \<and> wf_val (snd c)) cs"

definition keeps_types :: "(gtype \<times> gval) list \<Rightarrow> (gtype \<times> gval) list \<Rightarrow> bool" where
  "keeps_types cs cs' \<longleftrightarrow> map fst cs' = map fst cs \<and> (cells_ok cs \<longrightarrow> cells_ok cs')"

lemma keeps_types_refl [simp]: "keeps_types cs cs"
  by (simp add: keeps_types_def)

lemma keeps_types_trans [trans]: "keeps_types c1 c2 \<Longrightarrow> keeps_types c2 c3 \<Longrightarrow> keeps_types c1 c3"
  by (simp add: keeps_types_def)

lemma zero_of_ok: "has_type (zero_of t) t" "wf_val (zero_of t)"
  by (cases t; simp add: has_type_def)+

lemma has_type_own: "type_of v \<notin> {TAny, TErrVal, TCtx} \<Longrightarrow> has_type v (type_of v)"
  by (cases v) (simp_all add: has_type_def)

lemma set_cell_types:
  assumes "has_type v (fst (bw_cells w ! a))" "wf_val v"
  shows "keeps_types (bw_cells w) (bw_cells (set_cell a v w))"
proof -
  have "map fst ((bw_cells w)[a := (fst (bw_cells w ! a), v)]) = map fst (bw_cells w)"
    by (cases "a < length (bw_cells w)") (simp_all add: list_eq_iff_nth_eq nth_list_update)
  moreover have "cells_ok ((bw_cells w)[a := (fst (bw_cells w ! a), v)])" if "cells_ok (bw_cells w)"
    using that assms by (cases "a < length (bw_cells w)") (simp_all add: cells_ok_def list_all_length nth_list_update)
  ultimately show ?thesis by (simp add: keeps_types_def set_cell_def)
qed

lemma assignSingleOutCached_types:
  assumes "wf_val resp"
  shows "keeps_types (bw_cells w) (bw_cells (snd (assignSingleOutCached a resp w)))"
proof (cases resp)
  case (GPtr t v)
  then show ?thesis using assms by (cases v) (simp_all add: assignSingleOutCached_def Let_def set_cell_types zero_of_ok)
qed (use assms has_type_own [of resp] in \<open>simp_all add: assignSingleOutCached_def Let_def set_cell_types zero_of_ok\<close>)

lemma assignSingleOut_types: "wf_val resp \<Longrightarrow> keeps_types (bw_cells w) (bw_cells (snd (assignSingleOut out resp w)))"
  by (simp add: assignSingleOut_def assignSingleOutCached_types split: sum.splits)

lemma assign_from_types: "list_all wf_val rs \<Longrightarrow> keeps_types (bw_cells w) (bw_cells (snd (assign_from i outs rs w)))"
proof (induction i outs rs w rule: assign_from.induct)
  case (1 i out outs r rs w)
  obtain e w1 where a: "assignSingleOut out r w = (e, w1)" by fastforce
  then have "keeps_types (bw_cells w) (bw_cells w1)" using assignSingleOut_types [of r w out] 1(2) by simp
  then show ?case using 1 a by (cases e) (auto intro: keeps_types_trans)
qed simp_all

lemma assignCallResponse_types:
  assumes "wf_val resp"
  shows "keeps_types (bw_cells w) (bw_cells (snd (assignCallResponse out resp w)))"
proof (cases out)
  case (OutMulti outs)
  show ?thesis
  proof (cases "\<exists>vs. resp = GSlice TAny vs")
    case True
    then obtain vs where vs: "resp = GSlice TAny vs" by blast
    then have "list_all wf_val vs" using assms by (simp add: list_all_iff)
    then show ?thesis using OutMulti vs assign_from_types [of vs w 0 outs] by (simp add: assignCallResponse_def)
  next
    case False
    then show ?thesis using OutMulti by (auto simp: assignCallResponse_def split: gval.splits gtype.splits)
  qed
qed (simp_all add: assignCallResponse_def assignSingleOutCached_types assms)

text \<open>Answers are values of Go.\<close>

definition env_wf :: "bus_env \<Rightarrow> bool" where
  "env_wf env \<longleftrightarrow> (\<forall>rq v. be_deliver env rq = Answered v \<longrightarrow> wf_val v)"

lemma call_body_types:
  assumes "env_wf env"
  shows "keeps_types (bw_cells w) (bw_cells (snd (call_body env ctx mb d priority dk ik out w)))"
proof -
  have resp: "keeps_types (bw_cells w) (bw_cells (snd (assignCallResponse out resp w1)))"
    if "be_deliver env rq = Answered resp" "bw_cells w1 = bw_cells w" for rq resp w1
    using assignCallResponse_types [of resp w1 out] that assms by (auto simp: env_wf_def)
  show ?thesis
    by (simp add: call_body_def Let_def resp split: option.splits delivery.splits prod.splits)
qed

lemma cells_simps [simp]:
  "bw_cells (call_begin mb w) = bw_cells w" "bw_cells (snd (call_end mb x)) = bw_cells (snd x)" "bw_cells (snd (recycle_bus r mb y)) = bw_cells (snd y)"
  "bw_cells (snd (new_data name req need w)) = bw_cells w"
  by (simp_all add: call_begin_def call_end_def recycle_bus_def ReleaseMessageBus_def new_data_def split: prod.splits)

lemma bus_call_types:
  assumes "env_wf env"
  shows "keeps_types (bw_cells w) (bw_cells (snd (bus_call env ctx mb d priority dk ik out w)))"
  using call_body_types [OF assms, of "call_begin mb w" ctx mb d priority dk ik out] by (simp add: bus_call_def)

lemma callInternal_types:
  assumes "env_wf env"
  shows "keeps_types (bw_cells w) (bw_cells (snd (callInternal env ctx mb name req out priority dk ik recycle w)))"
  using bus_call_types [OF assms, of "snd (new_data name req True w)" ctx mb "length (bw_data w)" priority dk ik out]
  by (simp add: callInternal_def new_data_def)

lemma try_types:
  assumes "\<And>mb w. keeps_types (bw_cells w) (bw_cells (snd (f mb w)))"
  shows "keeps_types (bw_cells w) (bw_cells (snd (try_any f m errs w)))" "keeps_types (bw_cells w) (bw_cells (snd (try_all f m errs w)))"
proof -
  show "keeps_types (bw_cells w) (bw_cells (snd (try_any f m errs w)))"
  proof (induction m arbitrary: errs w)
    case (Cons mb m)
    obtain e w1 where "f mb w = (e, w1)" by fastforce
    then show ?case using Cons assms [of w mb] by (cases e) (auto intro: keeps_types_trans)
  qed simp
  show "keeps_types (bw_cells w) (bw_cells (snd (try_all f m errs w)))"
  proof (induction m arbitrary: errs w)
    case (Cons mb m)
    obtain e w1 where "f mb w = (e, w1)" by fastforce
    then show ?case using Cons assms [of w mb] by (cases e) (auto intro: keeps_types_trans)
  qed simp
qed

section \<open>Several buses\<close>

text \<open>What the buses of a list answer one after the other.\<close>

fun answers_of :: "(message_bus \<Rightarrow> bus_world \<Rightarrow> bus_err option \<times> bus_world) \<Rightarrow> message_bus list \<Rightarrow> bus_world \<Rightarrow> bus_err option list \<times> bus_world" where
  "answers_of f [] w = ([], w)"
| "answers_of f (mb # m) w = (case f mb w of (e, w1) \<Rightarrow> case answers_of f m w1 of (es, w2) \<Rightarrow> (e # es, w2))"

lemma CombineErrors_None [simp]: "CombineErrors errs = None \<longleftrightarrow> errs = []"
  by (simp add: CombineErrors_def split: list.splits)

lemma try_any_spec:
  "\<exists>tried rest es. m = tried @ rest \<and> answers_of f tried w = (es, snd (try_any f m errs w)) \<and>
     (case fst (try_any f m errs w) of
        None \<Rightarrow> (es \<noteq> [] \<and> last es = None \<and> None \<notin> set (butlast es)) \<or> (m = [] \<and> errs = [])
      | Some e \<Rightarrow> rest = [] \<and> None \<notin> set es \<and> CombineErrors (errs @ map the es) = Some e)"
proof (induction m arbitrary: errs w)
  case Nil
  show ?case by (rule exI [of _ "[]"], rule exI [of _ "[]"]) (auto split: option.splits)
next
  case (Cons mb m)
  obtain e w1 where f: "f mb w = (e, w1)" by fastforce
  show ?case
  proof (cases e)
    case None
    then show ?thesis using f by (intro exI [of _ "[mb]"] exI [of _ m] exI [of _ "[None]"]) auto
  next
    case (Some x)
    obtain tried rest es where IH: "m = tried @ rest" "answers_of f tried w1 = (es, snd (try_any f m (errs @ [x]) w1))"
      "case fst (try_any f m (errs @ [x]) w1) of
        None \<Rightarrow> (es \<noteq> [] \<and> last es = None \<and> None \<notin> set (butlast es)) \<or> (m = [] \<and> errs @ [x] = [])
      | Some e \<Rightarrow> rest = [] \<and> None \<notin> set es \<and> CombineErrors ((errs @ [x]) @ map the es) = Some e"
      using Cons.IH [of w1 "errs @ [x]"] by blast
    then show ?thesis using f Some
      by (intro exI [of _ "mb # tried"] exI [of _ rest] exI [of _ "e # es"]) (auto split: option.splits)
  qed
qed

lemma answers_released:
  assumes "\<And>mb w. bw_released (snd (f mb w)) = bw_released w @ g mb"
  shows "answers_of f m w = (es, w') \<Longrightarrow> bw_released w' = bw_released w @ concat (map g m)"
proof (induction m arbitrary: w es w')
  case (Cons mb m)
  obtain e w1 es' w2 where f: "f mb w = (e, w1)" "answers_of f m w1 = (es', w2)" by fastforce
  then show ?case using Cons assms [of mb w] by simp
qed simp

lemma released_simps [simp]:
  "bw_released (call_begin mb w) = bw_released w" "bw_released (snd (call_end mb x)) = bw_released (snd x)" "bw_released (snd (new_data name req need w)) = bw_released w"
  "bw_released (snd (assignSingleOutCached a resp w)) = bw_released w" "bw_released (snd (assignSingleOut out resp w)) = bw_released w"
  by (simp_all add: call_begin_def call_end_def new_data_def assignSingleOut_def assignSingleOutCached_def set_cell_def Let_def
      split: prod.splits gval.splits option.splits sum.splits)

lemma assign_released [simp]: "bw_released (snd (assignCallResponse out resp w)) = bw_released w"
proof -
  have "bw_released (snd (assign_from i outs rs w)) = bw_released w" for i outs rs w
  proof (induction i outs rs w rule: assign_from.induct)
    case (1 i out outs r rs w)
    obtain e w1 where a: "assignSingleOut out r w = (e, w1)" by fastforce
    then have "bw_released w1 = bw_released w" using released_simps(5) [of out r w] by simp
    then show ?case using 1 a by (cases e) simp_all
  qed simp_all
  then show ?thesis by (simp add: assignCallResponse_def split: out_arg.splits gval.splits gtype.splits)
qed

lemma callInternal_released:
  "bw_released (snd (callInternal env ctx mb name req out priority dk ik recycle w)) = bw_released w @ (if recycle \<and> mb_factory mb then [mb_id mb] else [])"
proof -
  have "bw_released (snd (call_body env ctx mb d priority dk ik out w)) = bw_released w" for d w
    by (simp add: call_body_def Let_def split: option.splits delivery.splits prod.splits)
  then have "bw_released (snd (bus_call env ctx mb d priority dk ik out w)) = bw_released w" for d w
    by (simp add: bus_call_def)
  then show ?thesis by (simp add: callInternal_def recycle_bus_def ReleaseMessageBus_def new_data_def)
qed

section \<open>Properties\<close>

text \<open>
  C35. Whatever the services answer and however many of them are called, the call through a multi-bus keeps the caller's variables
  well typed: each keeps its type and holds a value of it, on success, on a type or count mismatch and on partial assignment.
\<close>

theorem calls_keep_types:
  assumes "env_wf env" "cells_ok (bw_cells w)"
  shows "map fst (bw_cells (snd (MultiBus_CallWithOpt env ctx m opt w))) = map fst (bw_cells w)
     \<and> cells_ok (bw_cells (snd (MultiBus_CallWithOpt env ctx m opt w)))"
proof -
  have "keeps_types (bw_cells w) (bw_cells (snd (MultiBus_CallWithOpt env ctx m opt w)))"
    by (simp add: MultiBus_CallWithOpt_def Let_def try_types callInternal_types [OF assms(1)])
  then show ?thesis using assms(2) by (simp add: keeps_types_def)
qed

text \<open>A factory with a monitor and two buses to the services 2 and 3; an int and a string variable.\<close>

definition demo_bus :: "nat \<Rightarrow> message_bus" where
  "demo_bus n = \<lparr> mb_id = n, mb_sender = Some 1, mb_receiver = Some n, mb_err = None, mb_factory = True \<rparr>"

definition demo_world :: bus_world where
  "demo_world = \<lparr> bw_metrics = \<lparr> callTotal = 0, callErrors = 0, callInFlight = 0, asyncCallTotal = 0, asyncCallErrors = 0, sendTotal = 0, sendErrors = 0 \<rparr>,
     bw_rpcTimeout = 1000, bw_monitor = True, bw_seq = 0, bw_data = [], bw_requests = [], bw_cells = [(TBase 0, GBase 0 0), (TBase 1, GBase 1 0)], bw_released = [] \<rparr>"

definition demo_opt :: "out_arg \<Rightarrow> bus_options" where
  "demo_opt out = \<lparr> bo_method = ''RpcGet'', bo_in = GBase 0 5, bo_out = out, bo_callbacks = [], bo_notRecycle = False, bo_callModeAll = True,
     bo_priority = 0, bo_dispatchKey = [], bo_idempotencyKey = [] \<rparr>"

definition pair_env :: bus_env where
  "pair_env = \<lparr> be_now = 10, be_clock = 10, be_deliver = (\<lambda>rq. Answered (GSlice TAny [GBase 0 42, GBase 0 43])) \<rparr>"

theorem calls_keep_types_witness:
  "map fst (bw_cells (snd (MultiBus_CallWithOpt pair_env None [demo_bus 2, demo_bus 3] (demo_opt (OutMulti [OutPtr 0, OutPtr 1])) demo_world))) = [TBase 0, TBase 1]
     \<and> cells_ok (bw_cells (snd (MultiBus_CallWithOpt pair_env None [demo_bus 2, demo_bus 3] (demo_opt (OutMulti [OutPtr 0, OutPtr 1])) demo_world)))"
proof -
  have "env_wf pair_env" by (simp add: env_wf_def pair_env_def has_type_def)
  moreover have "cells_ok (bw_cells demo_world)" by (simp add: cells_ok_def demo_world_def has_type_def)
  ultimately show ?thesis
    using calls_keep_types [of pair_env demo_world None "[demo_bus 2, demo_bus 3]" "demo_opt (OutMulti [OutPtr 0, OutPtr 1])"]
    by (simp add: demo_world_def)
qed

text \<open>
  A multi-bus call takes its buses in order and stops at the first that succeeds. If one does, the call succeeds, and exactly the buses tried so far have been called and
  given back to the pool. If none does, all have been called and given back and the error joins their errors in order.
\<close>

theorem MultiBus_Call_in_order:
  assumes "m \<noteq> []" "list_all mb_factory m"
  shows "\<exists>tried rest es w'. m = tried @ rest
     \<and> answers_of (\<lambda>mb. callInternal env ctx mb name req out PriorityNormal [] [] True) tried w = (es, w')
     \<and> snd (MultiBus_Call env ctx m name req out w) = w' \<and> bw_released w' = bw_released w @ map mb_id tried
     \<and> (case fst (MultiBus_Call env ctx m name req out w) of
          None \<Rightarrow> es \<noteq> [] \<and> last es = None \<and> None \<notin> set (butlast es)
        | Some e \<Rightarrow> rest = [] \<and> None \<notin> set es \<and> CombineErrors (map the es) = Some e)"
proof -
  let ?f = "\<lambda>mb. callInternal env ctx mb name req out PriorityNormal [] [] True"
  obtain tried rest es where t: "m = tried @ rest" "answers_of ?f tried w = (es, snd (try_any ?f m [] w))"
    "case fst (try_any ?f m [] w) of
        None \<Rightarrow> (es \<noteq> [] \<and> last es = None \<and> None \<notin> set (butlast es)) \<or> (m = [] \<and> [] = ([] :: bus_err list))
      | Some e \<Rightarrow> rest = [] \<and> None \<notin> set es \<and> CombineErrors ([] @ map the es) = Some e"
    using try_any_spec [of m ?f w "[]"] by blast
  have call: "MultiBus_Call env ctx m name req out w = try_any ?f m [] w" using assms(1) by (simp add: MultiBus_Call_def)
  have "bw_released (snd (try_any ?f m [] w)) = bw_released w @ concat (map (\<lambda>mb. if True \<and> mb_factory mb then [mb_id mb] else []) tried)"
    by (rule answers_released [OF callInternal_released t(2)])
  moreover have "concat (map (\<lambda>mb. if True \<and> mb_factory mb then [mb_id mb] else []) tried) = map mb_id tried"
    using assms(2) t(1) by (induction tried arbitrary: m) auto
  ultimately have rel: "bw_released (snd (try_any ?f m [] w)) = bw_released w @ map mb_id tried" by simp
  show ?thesis unfolding call using t rel assms(1)
    by (intro exI [of _ tried] exI [of _ rest] exI [of _ es] exI [of _ "snd (try_any ?f m [] w)"]) (auto split: option.splits)
qed

definition second_env :: bus_env where
  "second_env = \<lparr> be_now = 10, be_clock = 10, be_deliver = (\<lambda>rq. if rq_receiver rq = 3 then Answered (GBase 0 42) else Refused 1) \<rparr>"

theorem MultiBus_Call_in_order_witness:
  "\<exists>tried rest. [demo_bus 2, demo_bus 3, demo_bus 4] = tried @ rest
     \<and> bw_released (snd (MultiBus_Call second_env None [demo_bus 2, demo_bus 3, demo_bus 4] ''RpcGet'' GNil (OutPtr 0) demo_world)) = map mb_id tried"
proof -
  have m: "[demo_bus 2, demo_bus 3, demo_bus 4] \<noteq> []" "list_all mb_factory [demo_bus 2, demo_bus 3, demo_bus 4]" by (simp_all add: demo_bus_def)
  have "bw_released demo_world = []" by (simp add: demo_world_def)
  then show ?thesis
    using MultiBus_Call_in_order [OF m, of second_env None "''RpcGet''" GNil "OutPtr 0" demo_world] by auto
qed

text \<open>A failed assignment to one variable leaves everything as it was.\<close>

lemma single_out_atomic:
  assumes "assignSingleOutCached a resp w = (Some e, w')"
  shows "w' = w"
  using assms by (auto simp: assignSingleOutCached_def Let_def split: gval.splits option.splits if_splits)

text \<open>
  A call is said not to touch the caller's variables unless it succeeds. With one variable this holds; with several the results are assigned one by one:
  when the first fits and the second does not, the call fails and the first variable is overwritten, so that a multi-bus call that goes on to the
  next service may return a mix.
\<close>

theorem failed_call_writes_results:
  assumes "mb_err mb = None" "mb_sender mb \<noteq> None" "mb_receiver mb \<noteq> None" "mb_factory mb" "bw_monitor w"
    and "a < length (bw_cells w)" "b < length (bw_cells w)" "a \<noteq> b"
    and "\<And>rq. be_deliver env rq = Answered (GSlice TAny [GBase s x, GBase t y])" "fst (bw_cells w ! a) = TBase s" "fst (bw_cells w ! b) \<noteq> TBase t"
  shows "fst (bus_Call env ctx mb name req (OutMulti [OutPtr a, OutPtr b]) w) = Some (Err_AtIndex 1 Err_TypeMismatch)
     \<and> bw_cells (snd (bus_Call env ctx mb name req (OutMulti [OutPtr a, OutPtr b]) w)) ! a = (TBase s, GBase s x)"
proof -
  obtain timeout deadline where "call_times env ctx (getRpcTimeout mb (call_begin mb (snd (new_data name req True w)))) = (timeout, deadline)" by fastforce
  then show ?thesis using assms
    by (simp add: bus_Call_def bus_call_def call_body_def Let_def check_out_def validateMultiOutParams_def validateSingleOutParam_def requireRpcMonitor_def
        assignCallResponse_def assignSingleOut_def assignSingleOutCached_def set_cell_def recycle_bus_def ReleaseMessageBus_def call_end_def call_begin_def new_data_def)
qed

theorem failed_call_writes_results_witness:
  "fst (bus_Call pair_env None (demo_bus 2) ''RpcGet'' GNil (OutMulti [OutPtr 0, OutPtr 1]) demo_world) = Some (Err_AtIndex 1 Err_TypeMismatch)
     \<and> bw_cells (snd (bus_Call pair_env None (demo_bus 2) ''RpcGet'' GNil (OutMulti [OutPtr 0, OutPtr 1]) demo_world)) ! 0 = (TBase 0, GBase 0 42)"
  by (rule failed_call_writes_results [where t = 0 and y = 43]) (simp_all add: demo_bus_def demo_world_def pair_env_def)

text \<open>The request that a call or a send hands to the receiver.\<close>

lemma call_request:
  assumes "mb_err mb = None" "mb_sender mb \<noteq> None" "mb_receiver mb \<noteq> None" "mb_factory mb" "bw_monitor w" "0 < bw_rpcTimeout w"
  shows "bw_requests (snd (bus_Call env ctx mb name req OutNil w)) = bw_requests w @
     [make_request mb (bw_seq w + 1) (length (bw_data w)) PriorityNormal [] [] (fst (call_times env ctx (bw_rpcTimeout w))) (snd (call_times env ctx (bw_rpcTimeout w))) []]"
  using assms by (simp add: bus_Call_def bus_call_def call_body_def Let_def check_out_def requireRpcMonitor_def getRpcTimeout_def
      recycle_bus_def ReleaseMessageBus_def call_end_def call_begin_def new_data_def split: delivery.splits prod.splits)

lemma send_request:
  assumes "mb_err mb = None" "mb_sender mb \<noteq> None" "mb_receiver mb \<noteq> None" "mb_factory mb" "0 < bw_rpcTimeout w"
  shows "bw_requests (snd (bus_Send env ctx mb name req w)) =
     bw_requests w @ [make_request mb 0 (length (bw_data w)) PriorityNormal [] [] 0 (send_deadline env ctx (bw_rpcTimeout w)) []]"
  using assms by (simp add: bus_Send_def bus_send_def send_body_def Let_def getRpcTimeout_def recycle_bus_def ReleaseMessageBus_def send_end_def send_begin_def new_data_def
      split: delivery.splits prod.splits)

text \<open>
  The deadlines that reach the receiver. A call without a context and every send give it the configured time. A call with a context that has a
  deadline passes that deadline on, but waits the full configured time when the deadline is already over. A call with a context without deadline sends the zero time, which the receiver takes as no limit
  at all, although the caller gives up after the configured time.
\<close>

theorem call_deadlines:
  assumes "mb_err mb = None" "mb_sender mb \<noteq> None" "mb_receiver mb \<noteq> None" "mb_factory mb" "bw_monitor w" "0 < bw_rpcTimeout w" "0 \<le> be_now env"
  shows "(\<exists>rq. bw_requests (snd (bus_Call env ctx mb name req OutNil w)) = bw_requests w @ [rq] \<and>
       (case ctx of
          None \<Rightarrow> InvokeJob_limit (be_now env) (em_deadline (rq_meta rq)) = Job_Timeout (bw_rpcTimeout w) \<and> rq_timeout rq = bw_rpcTimeout w
        | Some (Some d) \<Rightarrow> em_deadline (rq_meta rq) = d \<and> rq_timeout rq = (if d \<le> be_clock env then bw_rpcTimeout w else d - be_clock env)
        | Some None \<Rightarrow> (\<forall>now. InvokeJob_limit now (em_deadline (rq_meta rq)) = Job_Unlimited) \<and> rq_timeout rq = bw_rpcTimeout w))
     \<and> (\<exists>rq. bw_requests (snd (bus_Send env ctx mb name req w)) = bw_requests w @ [rq] \<and>
       (case ctx of
          Some (Some d) \<Rightarrow> em_deadline (rq_meta rq) = d
        | _ \<Rightarrow> InvokeJob_limit (be_now env) (em_deadline (rq_meta rq)) = Job_Timeout (bw_rpcTimeout w)))"
proof -
  have zero: "zero_time_nano \<le> 0" by (simp add: zero_time_nano_def)
  let ?rq = "make_request mb (bw_seq w + 1) (length (bw_data w)) PriorityNormal [] [] (fst (call_times env ctx (bw_rpcTimeout w))) (snd (call_times env ctx (bw_rpcTimeout w))) []"
  have "bw_requests (snd (bus_Call env ctx mb name req OutNil w)) = bw_requests w @ [?rq]" using assms by (intro call_request) auto
  moreover have "case ctx of
        None \<Rightarrow> InvokeJob_limit (be_now env) (em_deadline (rq_meta ?rq)) = Job_Timeout (bw_rpcTimeout w) \<and> rq_timeout ?rq = bw_rpcTimeout w
      | Some (Some d) \<Rightarrow> em_deadline (rq_meta ?rq) = d \<and> rq_timeout ?rq = (if d \<le> be_clock env then bw_rpcTimeout w else d - be_clock env)
      | Some None \<Rightarrow> (\<forall>now. InvokeJob_limit now (em_deadline (rq_meta ?rq)) = Job_Unlimited) \<and> rq_timeout ?rq = bw_rpcTimeout w"
    using assms(6,7) zero by (auto simp: make_request_def call_times_def Let_def InvokeJob_limit_def split: option.splits)
  ultimately have call: "\<exists>rq. bw_requests (snd (bus_Call env ctx mb name req OutNil w)) = bw_requests w @ [rq] \<and>
       (case ctx of
          None \<Rightarrow> InvokeJob_limit (be_now env) (em_deadline (rq_meta rq)) = Job_Timeout (bw_rpcTimeout w) \<and> rq_timeout rq = bw_rpcTimeout w
        | Some (Some d) \<Rightarrow> em_deadline (rq_meta rq) = d \<and> rq_timeout rq = (if d \<le> be_clock env then bw_rpcTimeout w else d - be_clock env)
        | Some None \<Rightarrow> (\<forall>now. InvokeJob_limit now (em_deadline (rq_meta rq)) = Job_Unlimited) \<and> rq_timeout rq = bw_rpcTimeout w)" by (intro exI [of _ ?rq] conjI)
  let ?sq = "make_request mb 0 (length (bw_data w)) PriorityNormal [] [] 0 (send_deadline env ctx (bw_rpcTimeout w)) []"
  have "bw_requests (snd (bus_Send env ctx mb name req w)) = bw_requests w @ [?sq]" using assms by (intro send_request) auto
  moreover have "case ctx of Some (Some d) \<Rightarrow> em_deadline (rq_meta ?sq) = d
      | _ \<Rightarrow> InvokeJob_limit (be_now env) (em_deadline (rq_meta ?sq)) = Job_Timeout (bw_rpcTimeout w)"
    using assms(6,7) by (auto simp: make_request_def send_deadline_def InvokeJob_limit_def split: option.splits)
  ultimately have "\<exists>rq. bw_requests (snd (bus_Send env ctx mb name req w)) = bw_requests w @ [rq] \<and>
       (case ctx of
          Some (Some d) \<Rightarrow> em_deadline (rq_meta rq) = d
        | _ \<Rightarrow> InvokeJob_limit (be_now env) (em_deadline (rq_meta rq)) = Job_Timeout (bw_rpcTimeout w))" by (intro exI [of _ ?sq] conjI)
  with call show ?thesis by (rule conjI)
qed

theorem call_deadlines_witness:
  "\<exists>rq. bw_requests (snd (bus_Call pair_env (Some None) (demo_bus 2) ''RpcGet'' GNil OutNil demo_world)) = [rq] \<and>
     (\<forall>now. InvokeJob_limit now (em_deadline (rq_meta rq)) = Job_Unlimited)"
proof -
  have "mb_err (demo_bus 2) = None" "mb_sender (demo_bus 2) \<noteq> None" "mb_receiver (demo_bus 2) \<noteq> None" "mb_factory (demo_bus 2)"
    "bw_monitor demo_world" "0 < bw_rpcTimeout demo_world" "0 \<le> be_now pair_env" by (simp_all add: demo_bus_def demo_world_def pair_env_def)
  from call_deadlines [OF this, of "Some None" "''RpcGet''" GNil, THEN conjunct1]
  obtain rq where "bw_requests (snd (bus_Call pair_env (Some None) (demo_bus 2) ''RpcGet'' GNil OutNil demo_world)) = bw_requests demo_world @ [rq]"
    "\<forall>now. InvokeJob_limit now (em_deadline (rq_meta rq)) = Job_Unlimited" by (auto simp del: bus_world.simps)
  then show ?thesis by (simp add: demo_world_def)
qed

text \<open>
  A call to a service of the same node, from the bus to the method and back: when a method of Go's usual form \<open>(T, error)\<close> fails, the caller's \<open>Call\<close>
  returns no error, and the caller's variable is overwritten with whatever value the method returned beside its error.
\<close>

theorem method_error_is_lost:
  assumes "mb_err mb = None" "mb_sender mb = Some sender" "mb_receiver mb \<noteq> None" "mb_factory mb" "bw_monitor w"
    and "suitable idx exported m = Inr (Some en)" "gm_out m = [TBase n, TError]" "GetMethodFunc name mgr = Some (me_fn en)"
    and "call_params (cc_paramCount (me_fn en)) (gm_variadic m) req = Some ps"
    and "reflect_Call m ((if cc_hasCtx (me_fn en) then [GCtx] else []) @ ps) = Some [GBase n x, GErr e]"
    and "\<And>rq. be_deliver env rq = (case request_outcome None mgr sender name req of Inl e \<Rightarrow> Failed (Err_Answer e) | Inr v \<Rightarrow> Answered v)"
    and "a < length (bw_cells w)" "fst (bw_cells w ! a) = TBase n"
  shows "fst (bus_Call env ctx mb name req (OutPtr a) w) = None
     \<and> bw_cells (snd (bus_Call env ctx mb name req (OutPtr a) w)) ! a = (TBase n, GBase n x)"
proof -
  have "compileCallFunc (me_fn en) req = Some (Inr (GBase n x))"
    using assms by (intro single_result_drops_error) (auto simp: implements_error_def)
  then have ans: "be_deliver env rq = Answered (GBase n x)" for rq using assms(8,11) by (simp add: request_outcome_def)
  obtain timeout deadline where "call_times env ctx (getRpcTimeout mb (call_begin mb (snd (new_data name req True w)))) = (timeout, deadline)" by fastforce
  then show ?thesis using assms(1-5,12,13) ans
    by (simp add: bus_Call_def bus_call_def call_body_def Let_def check_out_def validateSingleOutParam_def requireRpcMonitor_def
        assignCallResponse_def assignSingleOutCached_def set_cell_def recycle_bus_def ReleaseMessageBus_def call_end_def call_begin_def new_data_def)
qed

definition local_env :: bus_env where
  "local_env = \<lparr> be_now = 10, be_clock = 10,
     be_deliver = (\<lambda>rq. case request_outcome None demo_mgr 1 ''RpcGet'' (GBase 0 5) of Inl e \<Rightarrow> Failed (Err_Answer e) | Inr v \<Rightarrow> Answered v) \<rparr>"

theorem method_error_is_lost_witness:
  "fst (bus_Call local_env None (demo_bus 2) ''RpcGet'' (GBase 0 5) (OutPtr 1) demo_world) = None
     \<and> bw_cells (snd (bus_Call local_env None (demo_bus 2) ''RpcGet'' (GBase 0 5) (OutPtr 1) demo_world)) ! 1 = (TBase 1, GBase 1 0)"
proof (rule method_error_is_lost)
  let ?en = "\<lparr> me_fn = \<lparr> cc_method = demo_get, cc_paramCount = 2, cc_multiOut = False, cc_hasCtx = False \<rparr>, me_readOnly = False \<rparr>"
  show "suitable NewMethodIndex (\<lambda>_. True) demo_get = Inr (Some ?en)" by (rule demo_suitable_eqs)
  show "GetMethodFunc ''RpcGet'' demo_mgr = Some (me_fn ?en)" using demo_get_registered by simp
  show "gm_out demo_get = [TBase 1, TError]" by (simp add: demo_get_def)
  show "call_params (cc_paramCount (me_fn ?en)) (gm_variadic demo_get) (GBase 0 5) = Some [GBase 0 5]" by code_simp
  show "reflect_Call demo_get ((if cc_hasCtx (me_fn ?en) then [GCtx] else []) @ [GBase 0 5]) = Some [GBase 1 0, GErr 7]" by code_simp
  show "be_deliver local_env rq = (case request_outcome None demo_mgr 1 ''RpcGet'' (GBase 0 5) of Inl e \<Rightarrow> Failed (Err_Answer e) | Inr v \<Rightarrow> Answered v)" for rq
    by (simp add: local_env_def)
qed (simp_all add: demo_bus_def demo_world_def)

end
