(* ===== verification/Event_Throttle.thy ===== *)
theory Event_Throttle
  imports Ember_Prelude
begin

text \<open>
  The classification of events and their rate limits: \<open>engine/pkg/event/category.go\<close> and \<open>engine/pkg/event/throttle.go\<close>.

  Times are nanoseconds since 1970; every operation takes the reading of the clock as an argument. The number of tokens a refill adds is
  computed with the wrap-around of Go's \<open>int64\<close>, because the product of a long pause and a high rate leaves its range. Counters that
  only grow by one per event are unbounded integers. The reported current rate of a limiter is left out.
\<close>

section \<open>Definitions\<close>

subsection \<open>Classification\<close>

datatype event_category =
    CategorySystemCritical | CategorySystemHealth | CategorySystemConfig
  | CategoryClusterTopology | CategoryClusterDiscovery | CategoryClusterLeader
  | CategoryBusinessCritical | CategoryBusinessNormal | CategoryBusinessBatch
  | CategoryMetrics | CategoryStatistics | CategoryDiagnostics

datatype event_scope = ScopeGlobal | ScopeRegion | ScopeCluster | ScopeNode | ScopeService | ScopeLocal

datatype delivery_mode = DeliveryBroadcast | DeliveryMulticast | DeliveryUnicast | DeliveryRoundRobin | DeliveryLoadBalance

record event_classification =
  ec_EventType :: int
  ec_Category :: event_category
  ec_Priority :: int
  ec_Scope :: event_scope
  ec_DeliveryMode :: delivery_mode
  ec_MaxFrequency :: int
  ec_BatchSize :: int
  ec_TTL :: int
  ec_Tags :: "string list"

definition classify :: "int \<Rightarrow> event_category \<Rightarrow> int \<Rightarrow> event_scope \<Rightarrow> delivery_mode \<Rightarrow> int \<Rightarrow> int \<Rightarrow> int \<Rightarrow> string list \<Rightarrow> int \<times> event_classification" where
  "classify et cat prio scope mode freq batch ttl tags =
     (et, \<lparr> ec_EventType = et, ec_Category = cat, ec_Priority = prio, ec_Scope = scope, ec_DeliveryMode = mode, ec_MaxFrequency = freq,
            ec_BatchSize = batch, ec_TTL = ttl, ec_Tags = tags \<rparr>)"

definition defaultClassifications :: "(int, event_classification) gomap" where
  "defaultClassifications =
     [classify (-1003) CategorySystemCritical (-2) ScopeCluster DeliveryBroadcast 1000 1 60 [''system'', ''critical'', ''lifecycle''],
      classify (-1004) CategorySystemCritical (-2) ScopeCluster DeliveryBroadcast 500 1 60 [''system'', ''critical'', ''lifecycle''],
      classify (-13) CategoryClusterDiscovery (-1) ScopeCluster DeliveryMulticast 100 5 30 [''cluster'', ''discovery'', ''registration''],
      classify (-14) CategoryClusterDiscovery (-1) ScopeCluster DeliveryMulticast 100 5 30 [''cluster'', ''discovery'', ''deregistration''],
      classify (-4004) CategoryClusterLeader (-1) ScopeCluster DeliveryBroadcast 10 1 120 [''cluster'', ''leadership'', ''election''],
      classify (-4005) CategoryClusterLeader (-1) ScopeCluster DeliveryBroadcast 10 1 120 [''cluster'', ''leadership'', ''election''],
      classify (-1006) CategoryMetrics 3 ScopeLocal DeliveryUnicast 1 10 5 [''metrics'', ''heartbeat'', ''health''],
      classify (-50) CategorySystemHealth 0 ScopeNode DeliveryMulticast 50 3 15 [''system'', ''connection'', ''health'']]"

type_synonym event_registry = "(int, event_classification) gomap"

definition NewEventRegistry :: event_registry where
  "NewEventRegistry = defaultClassifications"

definition GetClassification :: "event_registry \<Rightarrow> int \<Rightarrow> event_classification" where
  "GetClassification r et =
     (case gm_get r et of
        Some c \<Rightarrow> c
      | None \<Rightarrow> snd (classify et CategoryBusinessNormal 0 ScopeService DeliveryBroadcast 100 5 30 [''business'', ''default'']))"

definition RegisterClassification :: "event_classification \<Rightarrow> event_registry \<Rightarrow> event_registry" where
  "RegisterClassification c r = gm_set r (ec_EventType c) c"

definition ShouldThrottle :: "event_registry \<Rightarrow> int \<Rightarrow> int \<Rightarrow> bool" where
  "ShouldThrottle r et currentFrequency \<longleftrightarrow> ec_MaxFrequency (GetClassification r et) < currentFrequency"

definition GetBatchSize :: "event_registry \<Rightarrow> int \<Rightarrow> int" where
  "GetBatchSize r et = ec_BatchSize (GetClassification r et)"

definition IsExpired :: "event_registry \<Rightarrow> int \<Rightarrow> int \<Rightarrow> int \<Rightarrow> bool" where
  "IsExpired r now et timestamp \<longleftrightarrow> ec_TTL (GetClassification r et) < now div 1000000000 - timestamp"

definition hasAllTags :: "string list \<Rightarrow> string list \<Rightarrow> bool" where
  "hasAllTags eventTags requiredTags \<longleftrightarrow> list_all (\<lambda>t. t \<in> set eventTags) requiredTags"

definition GetEventsByCategory :: "event_registry \<Rightarrow> event_category \<Rightarrow> int list" where
  "GetEventsByCategory r cat = map fst (filter (\<lambda>x. ec_Category (snd x) = cat) r)"

definition GetEventsByScope :: "event_registry \<Rightarrow> event_scope \<Rightarrow> int list" where
  "GetEventsByScope r scope = map fst (filter (\<lambda>x. ec_Scope (snd x) = scope) r)"

definition GetEventsByTags :: "event_registry \<Rightarrow> string list \<Rightarrow> int list" where
  "GetEventsByTags r tags = map fst (filter (\<lambda>x. hasAllTags (ec_Tags (snd x)) tags) r)"

subsection \<open>Token bucket\<close>

record limiter_stats =
  TotalRequests :: int
  AllowedRequests :: int
  DroppedRequests :: int

definition no_stats :: limiter_stats where
  "no_stats = \<lparr> TotalRequests = 0, AllowedRequests = 0, DroppedRequests = 0 \<rparr>"

record token_bucket =
  tb_capacity :: int
  tb_tokens :: int
  tb_rate :: int
  tb_lastRefill :: int
  tb_stats :: limiter_stats

definition NewTokenBucketLimiter :: "int \<Rightarrow> int \<Rightarrow> int \<Rightarrow> token_bucket" where
  "NewTokenBucketLimiter now capacity rate =
     \<lparr> tb_capacity = capacity, tb_tokens = capacity, tb_rate = rate, tb_lastRefill = now, tb_stats = no_stats \<rparr>"

definition wrap64 :: "int \<Rightarrow> int" where
  "wrap64 x = (x + 2 ^ 63) mod 2 ^ 64 - 2 ^ 63"

definition tb_refill :: "int \<Rightarrow> token_bucket \<Rightarrow> token_bucket" where
  "tb_refill now b =
     (let elapsed = now - tb_lastRefill b
      in if 0 < elapsed
         then let tokensToAdd = go_div (wrap64 (elapsed * tb_rate b)) 1000000000
              in b \<lparr> tb_tokens := min (tb_capacity b) (wrap64 (tb_tokens b + tokensToAdd)), tb_lastRefill := now \<rparr>
         else b)"

definition tb_AllowN :: "int \<Rightarrow> int \<Rightarrow> token_bucket \<Rightarrow> bool \<times> token_bucket" where
  "tb_AllowN now n b0 =
     (let b = tb_refill now b0; st = (tb_stats b) \<lparr> TotalRequests := TotalRequests (tb_stats b) + n \<rparr>
      in if n \<le> tb_tokens b
         then (True, b \<lparr> tb_tokens := tb_tokens b - n, tb_stats := st \<lparr> AllowedRequests := AllowedRequests st + n \<rparr> \<rparr>)
         else (False, b \<lparr> tb_stats := st \<lparr> DroppedRequests := DroppedRequests st + n \<rparr> \<rparr>))"

record reservation =
  rs_delay :: int
  rs_granted :: bool

definition tb_Reserve :: "int \<Rightarrow> token_bucket \<Rightarrow> go_panic + reservation \<times> token_bucket" where
  "tb_Reserve now b0 =
     (let b = tb_refill now b0
      in if 1 \<le> tb_tokens b
         then Inr (\<lparr> rs_delay = 0, rs_granted = True \<rparr>,
                   b \<lparr> tb_tokens := tb_tokens b - 1, tb_stats := (tb_stats b) \<lparr> AllowedRequests := AllowedRequests (tb_stats b) + 1 \<rparr> \<rparr>)
         else if tb_rate b = 0 then Inl (Go_Panic ''integer divide by zero'')
         else Inr (\<lparr> rs_delay = go_div 1000000000 (tb_rate b), rs_granted = False \<rparr>,
                   b \<lparr> tb_stats := (tb_stats b) \<lparr> DroppedRequests := DroppedRequests (tb_stats b) + 1 \<rparr> \<rparr>))"

text \<open>\<open>Wait\<close> reserves, sleeps as long as the reservation says and returns without an error; the value is the time it sleeps.\<close>

definition tb_Wait :: "int \<Rightarrow> token_bucket \<Rightarrow> go_panic + int \<times> token_bucket" where
  "tb_Wait now b = (case tb_Reserve now b of Inl p \<Rightarrow> Inl p | Inr (r, b1) \<Rightarrow> Inr (if rs_granted r then 0 else rs_delay r, b1))"

subsection \<open>Sliding window\<close>

record sliding_window =
  sw_windowSize :: int
  sw_limit :: int
  sw_windows :: "(int, int) gomap"
  sw_stats :: limiter_stats

definition NewSlidingWindowLimiter :: "int \<Rightarrow> int \<Rightarrow> sliding_window" where
  "NewSlidingWindowLimiter windowSize limit = \<lparr> sw_windowSize = windowSize, sw_limit = limit, sw_windows = [], sw_stats = no_stats \<rparr>"

definition unix_seconds :: "int \<Rightarrow> int" where
  "unix_seconds t = t div 1000000000"

definition sw_cleanup :: "int \<Rightarrow> sliding_window \<Rightarrow> sliding_window" where
  "sw_cleanup windowStart s = s \<lparr> sw_windows := filter (\<lambda>x. \<not> fst x < unix_seconds windowStart) (sw_windows s) \<rparr>"

definition getCurrentCount :: "sliding_window \<Rightarrow> int" where
  "getCurrentCount s = sum_list (map snd (sw_windows s))"

definition sw_AllowN :: "int \<Rightarrow> int \<Rightarrow> sliding_window \<Rightarrow> bool \<times> sliding_window" where
  "sw_AllowN now n s0 =
     (let s = sw_cleanup (now - sw_windowSize s0) s0;
          st = (sw_stats s) \<lparr> TotalRequests := TotalRequests (sw_stats s) + n \<rparr>;
          timestamp = unix_seconds now
      in if getCurrentCount s + n \<le> sw_limit s
         then (True, s \<lparr> sw_windows := gm_set (sw_windows s) timestamp ((case gm_get (sw_windows s) timestamp of Some c \<Rightarrow> c | None \<Rightarrow> 0) + n),
                         sw_stats := st \<lparr> AllowedRequests := AllowedRequests st + n \<rparr> \<rparr>)
         else (False, s \<lparr> sw_stats := st \<lparr> DroppedRequests := DroppedRequests st + n \<rparr> \<rparr>))"

definition sw_Reserve :: "int \<Rightarrow> sliding_window \<Rightarrow> reservation \<times> sliding_window" where
  "sw_Reserve now s =
     (case sw_AllowN now 1 s of
        (True, s1) \<Rightarrow> (\<lparr> rs_delay = 0, rs_granted = True \<rparr>, s1)
      | (False, s1) \<Rightarrow> (\<lparr> rs_delay = sw_windowSize s1, rs_granted = False \<rparr>, s1))"

definition sw_Wait :: "int \<Rightarrow> sliding_window \<Rightarrow> int \<times> sliding_window" where
  "sw_Wait now s = (case sw_Reserve now s of (r, s1) \<Rightarrow> (if rs_granted r then 0 else rs_delay r, s1))"

subsection \<open>The manager\<close>

datatype rate_limiter = L_Token token_bucket | L_Window sliding_window

definition limiter_AllowN :: "int \<Rightarrow> int \<Rightarrow> rate_limiter \<Rightarrow> bool \<times> rate_limiter" where
  "limiter_AllowN now n l =
     (case l of
        L_Token b \<Rightarrow> (case tb_AllowN now n b of (ok, b1) \<Rightarrow> (ok, L_Token b1))
      | L_Window s \<Rightarrow> (case sw_AllowN now n s of (ok, s1) \<Rightarrow> (ok, L_Window s1)))"

type_synonym throttle_manager = "(int, rate_limiter) gomap"

definition new_limiter :: "event_registry \<Rightarrow> int \<Rightarrow> int \<Rightarrow> rate_limiter" where
  "new_limiter reg now et =
     (let c = GetClassification reg et
      in case ec_Category c of
           CategorySystemCritical \<Rightarrow> L_Token (NewTokenBucketLimiter now (ec_MaxFrequency c * 2) (ec_MaxFrequency c))
         | CategoryMetrics \<Rightarrow> L_Window (NewSlidingWindowLimiter 1000000000 (ec_MaxFrequency c))
         | CategoryStatistics \<Rightarrow> L_Window (NewSlidingWindowLimiter 1000000000 (ec_MaxFrequency c))
         | _ \<Rightarrow> L_Token (NewTokenBucketLimiter now (ec_MaxFrequency c) (ec_MaxFrequency c)))"

definition GetOrCreateLimiter :: "event_registry \<Rightarrow> int \<Rightarrow> int \<Rightarrow> throttle_manager \<Rightarrow> rate_limiter \<times> throttle_manager" where
  "GetOrCreateLimiter reg now et tm =
     (case gm_get tm et of
        Some l \<Rightarrow> (l, tm)
      | None \<Rightarrow> let l = new_limiter reg now et in (l, gm_set tm et l))"

definition tm_AllowN :: "event_registry \<Rightarrow> int \<Rightarrow> int \<Rightarrow> int \<Rightarrow> throttle_manager \<Rightarrow> bool \<times> throttle_manager" where
  "tm_AllowN reg now et n tm =
     (case GetOrCreateLimiter reg now et tm of (l, tm1) \<Rightarrow>
        case limiter_AllowN now n l of (ok, l1) \<Rightarrow> (ok, gm_set tm1 et l1))"

definition tm_Allow :: "event_registry \<Rightarrow> int \<Rightarrow> int \<Rightarrow> throttle_manager \<Rightarrow> bool \<times> throttle_manager" where
  "tm_Allow reg now et tm = tm_AllowN reg now et 1 tm"

definition tm_Reset :: "int \<Rightarrow> throttle_manager \<Rightarrow> throttle_manager" where
  "tm_Reset et tm = gm_del tm et"

definition tm_ResetAll :: "throttle_manager \<Rightarrow> throttle_manager" where
  "tm_ResetAll tm = []"

text \<open>A run: the calls of \<open>AllowN\<close> with their times, and which of them were allowed.\<close>

fun tb_run :: "(int \<times> int) list \<Rightarrow> token_bucket \<Rightarrow> bool list \<times> token_bucket" where
  "tb_run [] b = ([], b)"
| "tb_run ((now, n) # cs) b = (case tb_AllowN now n b of (ok, b1) \<Rightarrow> case tb_run cs b1 of (oks, b2) \<Rightarrow> (ok # oks, b2))"

fun sw_run :: "(int \<times> int) list \<Rightarrow> sliding_window \<Rightarrow> bool list \<times> sliding_window" where
  "sw_run [] s = ([], s)"
| "sw_run ((now, n) # cs) s = (case sw_AllowN now n s of (ok, s1) \<Rightarrow> case sw_run cs s1 of (oks, s2) \<Rightarrow> (ok # oks, s2))"

text \<open>A run of a token bucket that is asked in both ways, with the number of events that \<open>AllowN\<close> allowed and \<open>Reserve\<close> granted.\<close>

datatype tb_call = Call_AllowN int | Call_Reserve

fun tb_call_step :: "int \<Rightarrow> tb_call \<Rightarrow> token_bucket \<Rightarrow> go_panic + int \<times> token_bucket" where
  "tb_call_step now (Call_AllowN n) b = (case tb_AllowN now n b of (ok, b1) \<Rightarrow> Inr (if ok then n else 0, b1))"
| "tb_call_step now Call_Reserve b = and_then (tb_Reserve now b) (\<lambda>(r, b1). Inr (if rs_granted r then 1 else 0, b1))"

fun tb_calls :: "(int \<times> tb_call) list \<Rightarrow> token_bucket \<Rightarrow> go_panic + int \<times> token_bucket" where
  "tb_calls [] b = Inr (0, b)"
| "tb_calls ((now, c) # cs) b = and_then (tb_call_step now c b) (\<lambda>(k, b1). and_then (tb_calls cs b1) (\<lambda>(n, b2). Inr (k + n, b2)))"

definition granted :: "(int \<times> int) list \<Rightarrow> bool list \<Rightarrow> (int \<times> int) list" where
  "granted cs oks = map fst (filter snd (zip cs oks))"

text \<open>The events a history passed from a second on.\<close>

definition passed_in :: "int \<Rightarrow> (int \<times> int) list \<Rightarrow> int" where
  "passed_in c hist = sum_list (map snd (filter (\<lambda>x. c \<le> unix_seconds (fst x)) hist))"

section \<open>Token buckets\<close>

lemma wrap64_id: "- (2 ^ 63) \<le> x \<Longrightarrow> x < 2 ^ 63 \<Longrightarrow> wrap64 x = x"
  by (simp add: wrap64_def)

lemma tb_refill_fields [simp]:
  "tb_capacity (tb_refill now b) = tb_capacity b" "tb_rate (tb_refill now b) = tb_rate b" "tb_lastRefill (tb_refill now b) = max (tb_lastRefill b) now"
  by (simp_all add: tb_refill_def Let_def)

lemma tb_AllowN_fields [simp]:
  "tb_capacity (snd (tb_AllowN now n b)) = tb_capacity b" "tb_rate (snd (tb_AllowN now n b)) = tb_rate b"
  "tb_lastRefill (snd (tb_AllowN now n b)) = max (tb_lastRefill b) now"
  by (simp_all add: tb_AllowN_def Let_def)

text \<open>
  A bucket that was made at \<open>t0\<close> and was last refilled not after \<open>T\<close>. After a long pause the product of \<open>refill\<close> wraps around and may take tokens away, below zero, but not more than
  the pause had made.
\<close>

definition tb_sane :: "int \<Rightarrow> int \<Rightarrow> token_bucket \<Rightarrow> bool" where
  [inv_defs]: "tb_sane t0 T b \<longleftrightarrow> tb_tokens b \<le> tb_capacity b \<and> 0 \<le> tb_capacity b \<and> tb_capacity b < 2 ^ 62 \<and> 0 < tb_rate b \<and> tb_rate b < 2 ^ 28
     \<and> t0 \<le> tb_lastRefill b \<and> tb_lastRefill b \<le> T \<and> T - t0 < 2 ^ 63 \<and> - (tb_rate b * (tb_lastRefill b - t0)) \<le> 2 ^ 29 * tb_tokens b"

lemma tb_sane_tokens: "tb_sane t0 T b \<Longrightarrow> - (2 ^ 62) \<le> tb_tokens b"
proof -
  assume s: "tb_sane t0 T b"
  then have "tb_rate b * (tb_lastRefill b - t0) \<le> 2 ^ 28 * 2 ^ 63" by (intro mult_mono) (auto simp: tb_sane_def)
  then show ?thesis using s by (simp add: tb_sane_def)
qed

lemma wrap64_le: "0 \<le> x \<Longrightarrow> wrap64 x \<le> x"
proof -
  assume "0 \<le> x"
  then have "(x + 2 ^ 63) mod 2 ^ 64 \<le> x + 2 ^ 63" by (intro zmod_le_nonneg_dividend) simp
  then show ?thesis by (simp add: wrap64_def)
qed

lemma wrap64_ge: "- (2 ^ 63) \<le> wrap64 x"
  by (simp add: wrap64_def)

text \<open>What a refill makes of the elapsed time: not more than the rate gives, and a wrapped product takes at most \<open>2^34\<close> tokens away, in a pause that had made more than \<open>2^33\<close>.\<close>

lemma tokens_made:
  assumes "0 \<le> p"
  defines "add \<equiv> go_div (wrap64 p) 1000000000"
  shows "1000000000 * add \<le> p" "- (2 ^ 34) \<le> add" "add < 2 ^ 34" "0 \<le> add \<or> 2 ^ 63 \<le> p"
proof -
  have billion: "1000000000 * (x div 1000000000) \<le> x" for x :: int using div_mult_mod_eq [of x 1000000000] pos_mod_sign [of 1000000000 x] by linarith
  have w: "wrap64 p \<le> p" "- (2 ^ 63) \<le> wrap64 p" "wrap64 p < 2 ^ 63" using wrap64_le [OF assms(1)] wrap64_ge by (simp_all add: wrap64_def)
  have "1000000000 * add \<le> p \<and> - (2 ^ 34) \<le> add \<and> add < 2 ^ 34 \<and> (0 \<le> add \<or> 2 ^ 63 \<le> p)"
  proof (cases "0 \<le> wrap64 p")
    case True
    then have "add = wrap64 p div 1000000000" by (simp add: add_def go_div_nonneg)
    moreover have "0 \<le> wrap64 p div 1000000000" using True by (simp add: pos_imp_zdiv_nonneg_iff)
    ultimately show ?thesis using w billion [of "wrap64 p"] by simp
  next
    case False
    then have "add = - ((- wrap64 p) div 1000000000)" by (simp add: add_def go_div_def sgn_if)
    moreover have "2 ^ 63 \<le> p" using False assms(1) wrap64_id [of p] by (cases "p < 2 ^ 63") auto
    moreover have "0 \<le> (- wrap64 p) div 1000000000" using False by (simp add: pos_imp_zdiv_nonneg_iff)
    ultimately show ?thesis using w assms(1) billion [of "- wrap64 p"] by simp
  qed
  then show "1000000000 * add \<le> p" "- (2 ^ 34) \<le> add" "add < 2 ^ 34" "0 \<le> add \<or> 2 ^ 63 \<le> p" by simp_all
qed

lemma tb_refill_gain:
  assumes "tb_sane t0 T b" "now \<le> T"
  shows "tb_sane t0 T (tb_refill now b)"
    "1000000000 * max 0 (tb_tokens (tb_refill now b)) \<le> 1000000000 * max 0 (tb_tokens b) + tb_rate b * (tb_lastRefill (tb_refill now b) - tb_lastRefill b)"
proof -
  let ?e = "now - tb_lastRefill b"
  define p where "p = ?e * tb_rate b"
  define add where "add = go_div (wrap64 p) 1000000000"
  have "tb_sane t0 T (tb_refill now b) \<and>
    1000000000 * max 0 (tb_tokens (tb_refill now b)) \<le> 1000000000 * max 0 (tb_tokens b) + tb_rate b * (tb_lastRefill (tb_refill now b) - tb_lastRefill b)"
  proof (cases "0 < ?e")
    case True
    then have "0 \<le> p" using assms(1) by (simp add: p_def tb_sane_def)
    note made = tokens_made [OF this, folded add_def]
    have "wrap64 (tb_tokens b + add) = tb_tokens b + add"
      using tb_sane_tokens [OF assms(1)] assms(1) made(2,3) by (intro wrap64_id) (auto simp: tb_sane_def)
    then have t: "tb_tokens (tb_refill now b) = min (tb_capacity b) (tb_tokens b + add)" "tb_lastRefill (tb_refill now b) = now"
      using True by (simp_all add: tb_refill_def Let_def p_def add_def)
    have p: "tb_rate b * (now - t0) = tb_rate b * (tb_lastRefill b - t0) + p" "tb_rate b * ?e = p" by (simp_all add: p_def algebra_simps)
    have "- (tb_rate b * (now - t0)) \<le> 2 ^ 29 * min (tb_capacity b) (tb_tokens b + add)"
      using made assms(1) \<open>0 \<le> p\<close> p by (auto simp: tb_sane_def min_def)
    then have "tb_sane t0 T (tb_refill now b)" using t assms True by (simp add: tb_sane_def)
    moreover have "1000000000 * max 0 (min (tb_capacity b) (tb_tokens b + add)) \<le> 1000000000 * max 0 (tb_tokens b) + p" using made(1) \<open>0 \<le> p\<close> by (auto simp: max_def min_def)
    ultimately show ?thesis unfolding t p(2) by simp
  next
    case False
    then have "tb_refill now b = b" by (simp add: tb_refill_def Let_def)
    then show ?thesis using assms(1) by simp
  qed
  then show "tb_sane t0 T (tb_refill now b)"
    "1000000000 * max 0 (tb_tokens (tb_refill now b)) \<le> 1000000000 * max 0 (tb_tokens b) + tb_rate b * (tb_lastRefill (tb_refill now b) - tb_lastRefill b)" by simp_all
qed

text \<open>A call takes its tokens from those that are there.\<close>

lemma tb_take_sane: "tb_sane t0 T b \<Longrightarrow> 0 \<le> n \<Longrightarrow> n \<le> tb_tokens b \<Longrightarrow> tb_sane t0 T (b \<lparr> tb_tokens := tb_tokens b - n, tb_stats := st \<rparr>)"
  by (auto simp: tb_sane_def intro: order_trans [of _ 0])

lemma tb_stats_sane [simp]: "tb_sane t0 T (b \<lparr> tb_stats := st \<rparr>) = tb_sane t0 T b"
  by (simp add: tb_sane_def)

lemma tb_call_gain:
  assumes "tb_sane t0 T b" "now \<le> T" "\<And>n. c = Call_AllowN n \<Longrightarrow> 0 \<le> n"
  shows "\<exists>k b1. tb_call_step now c b = Inr (k, b1) \<and> tb_sane t0 T b1 \<and> tb_rate b1 = tb_rate b
     \<and> 1000000000 * (k + max 0 (tb_tokens b1)) \<le> 1000000000 * max 0 (tb_tokens b) + tb_rate b * (tb_lastRefill b1 - tb_lastRefill b)"
proof -
  note gain = tb_refill_gain [OF assms(1,2)]
  define b0 where "b0 = tb_refill now b"
  have b0: "tb_sane t0 T b0" "1000000000 * max 0 (tb_tokens b0) \<le> 1000000000 * max 0 (tb_tokens b) + tb_rate b * (tb_lastRefill b0 - tb_lastRefill b)" "tb_rate b0 = tb_rate b"
    using gain by (simp_all add: b0_def)
  show ?thesis
  proof (cases c)
    case (Call_AllowN n)
    then have n: "0 \<le> n" using assms(3) by simp
    show ?thesis
    proof (cases "n \<le> tb_tokens b0")
      case True
      then show ?thesis using Call_AllowN tb_take_sane [OF b0(1) n True] b0(2,3) n by (simp add: tb_AllowN_def Let_def b0_def [symmetric])
    next
      case False
      then show ?thesis using Call_AllowN b0 by (simp add: tb_AllowN_def Let_def b0_def [symmetric])
    qed
  next
    case Call_Reserve
    show ?thesis
    proof (cases "1 \<le> tb_tokens b0")
      case True
      then show ?thesis using Call_Reserve tb_take_sane [OF b0(1) _ True] b0(2,3) by (simp add: tb_Reserve_def Let_def b0_def [symmetric])
    next
      case False
      moreover have "tb_rate b0 \<noteq> 0" using b0(1) by (simp add: tb_sane_def)
      ultimately show ?thesis using Call_Reserve b0 by (simp add: tb_Reserve_def Let_def b0_def [symmetric])
    qed
  qed
qed

lemma tb_calls_gain:
  assumes "tb_sane t0 T b" "\<forall>(now, c) \<in> set cs. now \<le> T \<and> (\<forall>n. c = Call_AllowN n \<longrightarrow> 0 \<le> n)"
  shows "\<exists>k b'. tb_calls cs b = Inr (k, b') \<and> tb_sane t0 T b'
     \<and> 1000000000 * (k + max 0 (tb_tokens b')) \<le> 1000000000 * max 0 (tb_tokens b) + tb_rate b * (tb_lastRefill b' - tb_lastRefill b)"
  using assms
proof (induction cs arbitrary: b)
  case (Cons x cs)
  obtain now c where x: "x = (now, c)" by fastforce
  obtain k b1 where s: "tb_call_step now c b = Inr (k, b1)" "tb_sane t0 T b1" "tb_rate b1 = tb_rate b"
    "1000000000 * (k + max 0 (tb_tokens b1)) \<le> 1000000000 * max 0 (tb_tokens b) + tb_rate b * (tb_lastRefill b1 - tb_lastRefill b)"
    using tb_call_gain [OF Cons.prems(1), of now c] Cons.prems(2) x by auto
  obtain n b2 where r: "tb_calls cs b1 = Inr (n, b2)" "tb_sane t0 T b2"
    "1000000000 * (n + max 0 (tb_tokens b2)) \<le> 1000000000 * max 0 (tb_tokens b1) + tb_rate b1 * (tb_lastRefill b2 - tb_lastRefill b1)"
    using Cons.IH [OF s(2)] Cons.prems(2) by auto
  have "tb_rate b * (tb_lastRefill b2 - tb_lastRefill b) = tb_rate b1 * (tb_lastRefill b2 - tb_lastRefill b1) + tb_rate b * (tb_lastRefill b1 - tb_lastRefill b)"
    using s(3) by (simp add: algebra_simps)
  then show ?case using s r x by (intro exI [of _ "k + n"] exI [of _ b2]) simp
qed simp

text \<open>Calls that follow each other, or the last refill, faster than tokens are made.\<close>

fun dense :: "int \<Rightarrow> int \<Rightarrow> (int \<times> int) list \<Rightarrow> bool" where
  "dense rate prev [] = True"
| "dense rate prev ((now, n) # cs) \<longleftrightarrow> (now - prev) * rate < 1000000000 \<and> 1 \<le> n \<and> dense rate (max prev now) cs"

lemma tb_dense_step:
  assumes "tb_tokens b = 0" "0 \<le> tb_capacity b" "0 \<le> tb_rate b" "(now - tb_lastRefill b) * tb_rate b < 1000000000" "1 \<le> n"
  shows "fst (tb_AllowN now n b) = False" "tb_tokens (snd (tb_AllowN now n b)) = 0"
proof -
  have "tb_tokens (tb_refill now b) = 0"
  proof (cases "0 < now - tb_lastRefill b")
    case True
    then have "0 \<le> (now - tb_lastRefill b) * tb_rate b" using assms(3) by simp
    then have "go_div (wrap64 ((now - tb_lastRefill b) * tb_rate b)) 1000000000 = 0" using assms(4) by (simp add: wrap64_id go_div_nonneg)
    then show ?thesis using True assms(1,2) by (simp add: tb_refill_def Let_def wrap64_def)
  qed (simp add: tb_refill_def Let_def assms(1))
  then show "fst (tb_AllowN now n b) = False" "tb_tokens (snd (tb_AllowN now n b)) = 0" using assms(5) by (simp_all add: tb_AllowN_def Let_def)
qed

lemma tb_dense_run:
  assumes "tb_tokens b = 0" "0 \<le> tb_capacity b" "0 \<le> tb_rate b" "dense (tb_rate b) (tb_lastRefill b) cs"
  shows "list_all Not (fst (tb_run cs b))"
  using assms
proof (induction cs arbitrary: b)
  case (Cons c cs)
  obtain now n where c: "c = (now, n)" by fastforce
  obtain ok b1 where s: "tb_AllowN now n b = (ok, b1)" by fastforce
  have step: "\<not> ok" "tb_tokens b1 = 0" using tb_dense_step [of b now n] Cons.prems c s by auto
  have "tb_capacity b1 = tb_capacity b" "tb_rate b1 = tb_rate b" "tb_lastRefill b1 = max (tb_lastRefill b) now"
    using tb_AllowN_fields [of now n b] s by simp_all
  then have "list_all Not (fst (tb_run cs b1))" using Cons.IH [of b1] Cons.prems c step(2) by simp
  then show ?case using c s step(1) by (auto split: prod.splits)
qed simp

lemma int_div_le_dividend: "0 \<le> (a :: int) \<Longrightarrow> 0 < b \<Longrightarrow> a div b \<le> a"
  using zdiv_mono2 [of a 1 b] by simp

lemma go_div_neg: "a < 0 \<Longrightarrow> 0 < b \<Longrightarrow> go_div a b = - (- a div b)"
  by (simp add: go_div_def sgn_if)

text \<open>
  C24. Over any run of calls of \<open>AllowN\<close> and \<open>Reserve\<close> that starts with a new bucket, the events that are allowed or granted are at most the capacity plus the tokens the rate makes until
  the last call, whatever the order of the times, the sizes of the calls and the length of the run: even when the product of a pause and the rate leaves the 64-bit integers, the error is
  on the safe side. Times are 64-bit nanoseconds; the rate is positive and below \<open>2^28\<close> events per second, the capacity below \<open>2^62\<close>. (\<open>Wait\<close> is not among the calls: it lets an
  event pass without a token.)
\<close>

theorem token_bucket_bound:
  assumes "0 \<le> capacity" "capacity < 2 ^ 62" "0 < rate" "rate < 2 ^ 28" "t0 \<le> T" "T - t0 < 2 ^ 63"
    and "\<forall>(now, c) \<in> set cs. now \<le> T \<and> (\<forall>n. c = Call_AllowN n \<longrightarrow> 0 \<le> n)"
  shows "\<exists>passed b'. tb_calls cs (NewTokenBucketLimiter t0 capacity rate) = Inr (passed, b')
     \<and> 1000000000 * passed \<le> 1000000000 * capacity + rate * (T - t0)"
proof -
  let ?b = "NewTokenBucketLimiter t0 capacity rate"
  have new: "tb_tokens ?b = capacity" "tb_rate ?b = rate" "tb_lastRefill ?b = t0" by (simp_all add: NewTokenBucketLimiter_def)
  have "tb_sane t0 T ?b" using assms(1-6) by (simp add: tb_sane_def NewTokenBucketLimiter_def)
  from tb_calls_gain [OF this assms(7)] obtain k b' where k: "tb_calls cs ?b = Inr (k, b')" "tb_sane t0 T b'"
    "1000000000 * (k + max 0 (tb_tokens b')) \<le> 1000000000 * max 0 capacity + rate * (tb_lastRefill b' - t0)" unfolding new by blast
  have "rate * (tb_lastRefill b' - t0) \<le> rate * (T - t0)" using k(2) assms(3) by (intro mult_left_mono) (auto simp: tb_sane_def)
  then show ?thesis using k(1,3) assms(1) by auto
qed

theorem token_bucket_bound_witness:
  "\<exists>passed b'. tb_calls [(0, Call_AllowN 2), (500000000, Call_Reserve), (1000000000, Call_AllowN 5)] (NewTokenBucketLimiter 0 2 4) = Inr (passed, b')
     \<and> 1000000000 * passed \<le> 1000000000 * 2 + 4 * (1000000000 - 0)"
  by (rule token_bucket_bound) simp_all

text \<open>
  An empty bucket whose calls come closer together than one token takes never allows an event again, however long the run: every refused call
  moves the refill time forward without adding a token, and the time that had passed is lost.
\<close>

theorem token_bucket_starves:
  assumes "tb_tokens b = 0" "0 \<le> tb_capacity b" "0 \<le> tb_rate b" "dense (tb_rate b) (tb_lastRefill b) cs"
  shows "list_all Not (fst (tb_run cs b))"
  by (rule tb_dense_run [OF assms])

definition drained_bucket :: token_bucket where
  "drained_bucket = \<lparr> tb_capacity = 100, tb_tokens = 0, tb_rate = 100, tb_lastRefill = 0, tb_stats = no_stats \<rparr>"

theorem token_bucket_starves_witness:
  "list_all Not (fst (tb_run (map (\<lambda>i. (9000000 * int i, 1)) [0..<20]) drained_bucket))"
proof (rule token_bucket_starves)
  show "dense (tb_rate drained_bucket) (tb_lastRefill drained_bucket) (map (\<lambda>i. (9000000 * int i, 1)) [0..<20])" by code_simp
qed (simp_all add: drained_bucket_def)

text \<open>
  A bucket that was not used for so long that the product of the pause and the rate passes the 64-bit range refuses the next event and is left
  with a negative number of tokens, although the pause is long enough to fill it.
\<close>

theorem idle_bucket_overflows:
  assumes "2 ^ 63 \<le> (now - tb_lastRefill b) * tb_rate b" "(now - tb_lastRefill b) * tb_rate b + 1000000000 * (tb_tokens b + 1) \<le> 2 ^ 64"
    and "0 \<le> tb_tokens b" "tb_tokens b < 2 ^ 62" "0 \<le> tb_rate b" "0 \<le> tb_capacity b" "0 \<le> n"
  shows "fst (tb_AllowN now n b) = False \<and> tb_tokens (snd (tb_AllowN now n b)) < 0"
proof -
  define x where "x = (now - tb_lastRefill b) * tb_rate b"
  have e: "0 < now - tb_lastRefill b"
  proof (rule ccontr)
    assume "\<not> 0 < now - tb_lastRefill b"
    then have "x \<le> 0" using assms(5) unfolding x_def by (intro mult_nonpos_nonneg) auto
    then show False using assms(1) x_def by simp
  qed
  have "x + 2 ^ 63 = (x - 2 ^ 63) + 2 ^ 64" by simp
  then have "(x + 2 ^ 63) mod 2 ^ 64 = (x - 2 ^ 63) mod 2 ^ 64" by (metis mod_add_self2)
  also have "\<dots> = x - 2 ^ 63" using assms(1-3) x_def by (intro mod_pos_pos_trivial) simp_all
  finally have w: "wrap64 x = x - 2 ^ 64" by (simp add: wrap64_def)
  define add where "add = go_div (wrap64 x) 1000000000"
  have neg: "wrap64 x \<le> - 1000000000 * (tb_tokens b + 1)" "- (2 ^ 63) \<le> wrap64 x" using assms(1,2) w x_def by simp_all
  then have "add = - (- wrap64 x div 1000000000)" using assms(3) unfolding add_def by (intro go_div_neg) simp_all
  moreover have "tb_tokens b + 1 \<le> - wrap64 x div 1000000000" using zdiv_mono1 [of "1000000000 * (tb_tokens b + 1)" "- wrap64 x" 1000000000] neg(1) by simp
  moreover have "- wrap64 x div 1000000000 \<le> - wrap64 x" using neg(1) assms(3) int_div_le_dividend [of "- wrap64 x" 1000000000] by simp
  ultimately have "add \<le> - (tb_tokens b + 1)" "- (2 ^ 63) \<le> add" using neg(2) by simp_all
  then have "wrap64 (tb_tokens b + add) < 0" using assms(3) by (subst wrap64_id) linarith+
  then have "tb_tokens (tb_refill now b) < 0" using e by (simp add: tb_refill_def Let_def x_def add_def min_def)
  then show ?thesis using assms(7) by (simp add: tb_AllowN_def Let_def)
qed

definition idle_bucket :: token_bucket where
  "idle_bucket = \<lparr> tb_capacity = 2000, tb_tokens = 2000, tb_rate = 1000, tb_lastRefill = 0, tb_stats = no_stats \<rparr>"

theorem idle_bucket_overflows_witness:
  "fst (tb_AllowN (10 ^ 16) 1 idle_bucket) = False \<and> tb_tokens (snd (tb_AllowN (10 ^ 16) 1 idle_bucket)) < 0"
  by (rule idle_bucket_overflows) (simp_all add: idle_bucket_def)

section \<open>Sliding windows\<close>

text \<open>What the windows hold from a second on.\<close>

definition held :: "int \<Rightarrow> (int, int) gomap \<Rightarrow> int" where
  "held c ws = sum_list (map snd (filter (\<lambda>x. c \<le> fst x) ws))"

lemma held_Cons [simp]: "held c (x # ws) = (if c \<le> fst x then snd x else 0) + held c ws"
  by (simp add: held_def)

lemma held_Nil [simp]: "held c [] = 0"
  by (simp add: held_def)

lemma held_add:
  assumes "gm_wf ws"
  shows "held c (gm_set ws ts ((case gm_get ws ts of Some v \<Rightarrow> v | None \<Rightarrow> 0) + n)) = held c ws + (if c \<le> ts then n else 0)"
  using assms
proof (induction ws)
  case (Cons x ws)
  then have "fst x = ts \<Longrightarrow> gm_get ws ts = None" by (cases x) (auto simp: gm_wf_def map_of_eq_None_iff)
  then show ?case using Cons by (cases x) (auto simp: gm_wf_def)
qed simp

lemma held_cleanup: "unix_seconds start \<le> c \<Longrightarrow> held c (sw_windows (sw_cleanup start s)) = held c (sw_windows s)"
  by (simp add: held_def sw_cleanup_def filter_filter) (rule arg_cong [where f = sum_list], rule arg_cong [where f = "map snd"], rule filter_cong, auto)

lemma count_cleanup: "getCurrentCount (sw_cleanup start s) = held (unix_seconds start) (sw_windows s)"
  by (simp add: getCurrentCount_def held_def sw_cleanup_def not_less)

lemma held_mono: "\<forall>x \<in> set ws. 0 \<le> snd x \<Longrightarrow> c \<le> c' \<Longrightarrow> held c' ws \<le> held c ws"
  by (induction ws) auto


text \<open>
  The state of a limiter after a run whose last call was at \<open>last\<close>: from the cutoff of that call on, the windows hold what the run has passed, and
  that is within the limit.
\<close>

definition sw_tracks :: "int \<Rightarrow> sliding_window \<Rightarrow> (int \<times> int) list \<Rightarrow> bool" where
  [inv_defs]: "sw_tracks t s hist \<longleftrightarrow>
     gm_wf (sw_windows s) \<and> (\<forall>x \<in> set (sw_windows s). 0 \<le> snd x) \<and>
     (\<forall>c \<ge> unix_seconds (t - sw_windowSize s). held c (sw_windows s) = passed_in c hist) \<and>
     held (unix_seconds (t - sw_windowSize s)) (sw_windows s) \<le> sw_limit s"

lemma passed_in_snoc [simp]: "passed_in c (hist @ [x]) = passed_in c hist + (if c \<le> unix_seconds (fst x) then snd x else 0)"
  by (simp add: passed_in_def)

lemma sw_AllowN_fields [simp]:
  "sw_windowSize (snd (sw_AllowN now n s)) = sw_windowSize s" "sw_limit (snd (sw_AllowN now n s)) = sw_limit s"
  by (simp_all add: sw_AllowN_def sw_cleanup_def Let_def)

lemma gm_wf_filter: "gm_wf m \<Longrightarrow> gm_wf (filter P m)"
  by (auto simp: gm_wf_def distinct_map_filter)

lemma sw_AllowN_tracks:
  assumes "sw_tracks t s hist" "t \<le> now" "0 \<le> n" "sw_AllowN now n s = (ok, s1)"
  shows "sw_tracks now s1 (if ok then hist @ [(now, n)] else hist)"
proof -
  let ?start = "now - sw_windowSize s"
  let ?s = "sw_cleanup ?start s"
  have u: "unix_seconds (t - sw_windowSize s) \<le> unix_seconds ?start" using assms(2) by (simp add: unix_seconds_def zdiv_mono1)
  have wf: "gm_wf (sw_windows ?s)" "\<forall>x \<in> set (sw_windows ?s). 0 \<le> snd x" using assms(1) by (auto simp: sw_tracks_def sw_cleanup_def gm_wf_filter)
  have held: "held c (sw_windows ?s) = passed_in c hist" if "unix_seconds ?start \<le> c" for c
    using that u assms(1) by (simp add: held_cleanup sw_tracks_def)
  have le: "held (unix_seconds ?start) (sw_windows ?s) \<le> sw_limit s"
  proof -
    have "held (unix_seconds ?start) (sw_windows s) \<le> held (unix_seconds (t - sw_windowSize s)) (sw_windows s)"
      using assms(1) by (intro held_mono u) (simp add: sw_tracks_def)
    also have "\<dots> \<le> sw_limit s" using assms(1) unfolding sw_tracks_def by blast
    finally show ?thesis by (simp add: held_cleanup)
  qed
  show ?thesis
  proof (cases ok)
    case True
    let ?v = "(case gm_get (sw_windows ?s) (unix_seconds now) of Some c \<Rightarrow> c | None \<Rightarrow> 0) + n"
    have s1: "sw_windows s1 = gm_set (sw_windows ?s) (unix_seconds now) ?v" "sw_windowSize s1 = sw_windowSize s" "sw_limit s1 = sw_limit s"
      "getCurrentCount ?s + n \<le> sw_limit s"
      using assms(4) True by (auto simp: sw_AllowN_def sw_cleanup_def Let_def split: if_splits)
    have "0 \<le> ?v" using wf(2) assms(3) by (fastforce split: option.splits dest: map_of_SomeD)
    then have "\<forall>x \<in> set (sw_windows s1). 0 \<le> snd x" using wf(2) by (auto simp: s1(1) dest!: gm_set_mem)
    moreover have "held (unix_seconds ?start) (sw_windows s1) \<le> sw_limit s"
      using s1(4) assms(3) by (simp add: s1(1) held_add [OF wf(1)] count_cleanup held_cleanup)
    ultimately show ?thesis using True wf(1) held by (simp add: sw_tracks_def s1(1-3) held_add [OF wf(1)] gm_wf_set)
  next
    case False
    then have "sw_windows s1 = sw_windows ?s" "sw_windowSize s1 = sw_windowSize s" "sw_limit s1 = sw_limit s"
      using assms(4) by (auto simp: sw_AllowN_def sw_cleanup_def Let_def split: if_splits)
    then show ?thesis using False wf held le by (simp add: sw_tracks_def)
  qed
qed

lemma sw_run_fields [simp]:
  "sw_windowSize (snd (sw_run cs s)) = sw_windowSize s" "sw_limit (snd (sw_run cs s)) = sw_limit s"
  by (induction cs s rule: sw_run.induct) (auto split: prod.splits dest: arg_cong [where f = snd] simp: prod_eq_iff)

lemma sw_run_tracks:
  assumes "sw_tracks t s hist" "sorted (t # map fst cs)" "\<forall>c \<in> set cs. 0 \<le> snd c" "sw_run cs s = (oks, s')"
  shows "sw_tracks (fst (last ((t, 0) # cs))) s' (hist @ granted cs oks)"
  using assms
proof (induction cs arbitrary: t s hist oks)
  case Nil
  then show ?case by (simp add: granted_def)
next
  case (Cons c cs)
  obtain now n where c: "c = (now, n)" by fastforce
  obtain ok s1 where s: "sw_AllowN now n s = (ok, s1)" by fastforce
  obtain oks1 where r: "sw_run cs s1 = (oks1, s')" "oks = ok # oks1" using Cons.prems(4) c s by (auto split: prod.splits)
  have "sw_tracks now s1 (if ok then hist @ [(now, n)] else hist)" using sw_AllowN_tracks [OF Cons.prems(1) _ _ s] Cons.prems(2,3) c by simp
  from Cons.IH [OF this _ _ r(1)] Cons.prems(2,3) c
  have "sw_tracks (fst (last ((now, 0) # cs))) s' ((if ok then hist @ [(now, n)] else hist) @ granted cs oks1)" by simp
  then show ?case using c r(2) by (cases cs; cases ok) (simp_all add: granted_def)
qed



text \<open>
  A clock that is ahead for one call: the call at second 10 forgets the three events of second 0, and after the clock is set back two more pass at once.
\<close>

lemma clock_step_lets_more_pass:
  "passed_in (unix_seconds (500000000 - 1000000000))
     (granted [(0, 3), (10000000000, 1), (500000000, 2)] (fst (sw_run [(0, 3), (10000000000, 1), (500000000, 2)] (NewSlidingWindowLimiter 1000000000 3)))) = 6"
  by code_simp

end
