(* ===== verification/Event_Bus.thy ===== *)
theory Event_Bus
  imports Event_Throttle
begin

text \<open>
  The event bus of a node: \<open>engine/pkg/event/eventBus.go\<close>, \<open>bus_global.go\<close>, \<open>bus_server.go\<close>, \<open>bus_specific.go\<close>, \<open>bus_batch.go\<close> and
  \<open>bus_nats.go\<close>. The bus keeps who has subscribed to which events, and hands a published event to the NATS server, to its local subscribers or,
  for statistics, to a buffer that is flushed in batches.

  NATS, protocol buffers and the generator of unique identifiers are third-party code; they are the record \<open>event_lib\<close>, an argument of the
  operations that call them. The jobs posted to the mailboxes of services and the messages handed to NATS are kept in the order in which they
  leave the bus. A goroutine that flushes a batch is an entry of \<open>b_spawned\<close> until it runs.
\<close>

section \<open>Nested maps\<close>

text \<open>Maps of maps, where an inner map is removed with its last entry.\<close>

definition gm_inner :: "('a, ('b, 'v) gomap) gomap \<Rightarrow> 'a \<Rightarrow> ('b, 'v) gomap" where
  "gm_inner m a = (case gm_get m a of Some i \<Rightarrow> i | None \<Rightarrow> [])"

definition gm_get2 :: "('a, ('b, 'v) gomap) gomap \<Rightarrow> 'a \<Rightarrow> 'b \<Rightarrow> 'v option" where
  "gm_get2 m a b = gm_get (gm_inner m a) b"

definition gm_set2 :: "('a, ('b, 'v) gomap) gomap \<Rightarrow> 'a \<Rightarrow> 'b \<Rightarrow> 'v \<Rightarrow> ('a, ('b, 'v) gomap) gomap" where
  "gm_set2 m a b v = gm_set m a (gm_set (gm_inner m a) b v)"

definition gm_prune :: "('a, ('b, 'v) gomap) gomap \<Rightarrow> 'a \<Rightarrow> ('b, 'v) gomap \<Rightarrow> ('a, ('b, 'v) gomap) gomap" where
  "gm_prune m a i = (if i = [] then gm_del m a else gm_set m a i)"

definition gm_del2 :: "('a, ('b, 'v) gomap) gomap \<Rightarrow> 'a \<Rightarrow> 'b \<Rightarrow> ('a, ('b, 'v) gomap) gomap" where
  "gm_del2 m a b = (case gm_get m a of None \<Rightarrow> m | Some i \<Rightarrow> gm_prune m a (gm_del i b))"

definition gm_get3 :: "('a, ('b, ('c, 'v) gomap) gomap) gomap \<Rightarrow> 'a \<Rightarrow> 'b \<Rightarrow> 'c \<Rightarrow> 'v option" where
  "gm_get3 m a b c = gm_get2 (gm_inner m a) b c"

definition gm_set3 :: "('a, ('b, ('c, 'v) gomap) gomap) gomap \<Rightarrow> 'a \<Rightarrow> 'b \<Rightarrow> 'c \<Rightarrow> 'v \<Rightarrow> ('a, ('b, ('c, 'v) gomap) gomap) gomap" where
  "gm_set3 m a b c v = gm_set m a (gm_set2 (gm_inner m a) b c v)"

definition gm_del3 :: "('a, ('b, ('c, 'v) gomap) gomap) gomap \<Rightarrow> 'a \<Rightarrow> 'b \<Rightarrow> 'c \<Rightarrow> ('a, ('b, ('c, 'v) gomap) gomap) gomap" where
  "gm_del3 m a b c = (case gm_get m a of None \<Rightarrow> m | Some i \<Rightarrow> gm_prune m a (gm_del2 i b c))"

section \<open>Subjects\<close>

text \<open>Decimal notation, and the part of \<open>fmt.Sprintf\<close> that the bus uses: the verbs \<open>%d\<close>, \<open>%s\<close> and \<open>%v\<close>, and the note about surplus arguments.\<close>

fun nat_digits :: "nat \<Rightarrow> string" where
  "nat_digits n = (if n < 10 then [char_of (48 + n)] else nat_digits (n div 10) @ [char_of (48 + n mod 10)])"

declare nat_digits.simps [simp del]

definition int_digits :: "int \<Rightarrow> string" where
  "int_digits i = (if i < 0 then CHR ''-'' # nat_digits (nat (- i)) else nat_digits (nat i))"

datatype fmt_arg = A_EventType int | A_Int32 int | A_String string

fun arg_text :: "fmt_arg \<Rightarrow> string" where
  "arg_text (A_EventType i) = int_digits i"
| "arg_text (A_Int32 i) = int_digits i"
| "arg_text (A_String s) = s"

fun arg_type :: "fmt_arg \<Rightarrow> string" where
  "arg_type (A_EventType i) = ''def.EventType''"
| "arg_type (A_Int32 i) = ''int32''"
| "arg_type (A_String s) = ''string''"

fun verb_text :: "char \<Rightarrow> fmt_arg \<Rightarrow> string" where
  "verb_text v a =
     (if v = CHR ''v'' \<or> v = CHR ''d'' \<and> (case a of A_String s \<Rightarrow> False | _ \<Rightarrow> True) \<or> v = CHR ''s'' \<and> (case a of A_String s \<Rightarrow> True | _ \<Rightarrow> False)
      then arg_text a
      else ''%!'' @ [v] @ ''('' @ arg_type a @ ''='' @ arg_text a @ '')'')"

fun extra_args :: "fmt_arg list \<Rightarrow> string" where
  "extra_args [] = []"
| "extra_args [a] = arg_type a @ ''='' @ arg_text a"
| "extra_args (a # as) = arg_type a @ ''='' @ arg_text a @ '', '' @ extra_args as"

fun go_sprintf :: "string \<Rightarrow> fmt_arg list \<Rightarrow> string" where
  "go_sprintf [] as = (if as = [] then [] else ''%!(EXTRA '' @ extra_args as @ '')'')"
| "go_sprintf [c] as = (if c = CHR ''%'' then ''%!(NOVERB)'' else [c]) @ go_sprintf [] as"
| "go_sprintf (c # v # f) as =
     (if c \<noteq> CHR ''%'' then c # go_sprintf (v # f) as
      else if v = CHR ''%'' then CHR ''%'' # go_sprintf f as
      else case as of
             [] \<Rightarrow> ''%!'' @ [v] @ ''(MISSING)'' @ go_sprintf f []
           | a # as' \<Rightarrow> verb_text v a @ go_sprintf f as')"

definition genKey :: "string \<Rightarrow> fmt_arg list \<Rightarrow> string" where
  "genKey format args = go_sprintf format args"

section \<open>Events and the bus\<close>

definition DefaultDispatcherKey :: string where
  "DefaultDispatcherKey = ''ember.dispatchKey''"

definition DefaultPriorityKey :: string where
  "DefaultPriorityKey = ''ember.priority''"

datatype header_value = H_String string | H_Priority int

type_synonym ember_ctx = "(string, header_value) gomap"

text \<open>\<open>util.ToString\<close>: a value of the named type \<open>def.Priority\<close> matches none of its cases.\<close>

fun header_string :: "header_value \<Rightarrow> string" where
  "header_string (H_String s) = s"
| "header_string (H_Priority p) = []"

definition ToHeaders :: "ember_ctx \<Rightarrow> (string, string) gomap" where
  "ToHeaders ctx = map (\<lambda>(k, v). (k, header_string v)) ctx"

definition dispatcher_of :: "ember_ctx \<Rightarrow> string" where
  "dispatcher_of ctx = (case gm_get ctx DefaultDispatcherKey of Some (H_String s) \<Rightarrow> s | _ \<Rightarrow> [])"

record actor_event =
  ev_Type :: int
  ev_Priority :: int
  ev_DispatcherKey :: string
  ev_Partition :: int
  ev_ServiceUid :: string
  ev_Deadline :: int
  ev_Payload :: string
  ev_ContextHeaders :: "(string, string) gomap"

type_synonym bus_event = "ember_ctx \<times> actor_event"

text \<open>What the bus uses of protocol buffers, NATS and the uuid package; a string on the left is an error.\<close>

record event_lib =
  lib_any_new :: "string \<Rightarrow> string + string"
  lib_marshal :: "actor_event \<Rightarrow> string + string"
  lib_unmarshal :: "string \<Rightarrow> string + actor_event"
  lib_publish :: "string \<Rightarrow> string option"
  lib_subscribe :: "string \<Rightarrow> string option"
  lib_uuid :: string

text \<open>A service as the bus sees it: its unique identifier and its partition.\<close>

record listener =
  l_uid :: string
  l_partition :: int

record bus_job =
  bj_to :: string
  bj_payload :: actor_event
  bj_ctx :: ember_ctx
  bj_dispatcherKey :: string
  bj_priority :: int
  bj_deadline :: int

record event_metrics =
  TotalPublished :: int
  TotalDelivered :: int
  TotalThrottled :: int
  TotalBatched :: int

record event_bus =
  b_nats :: bool
  b_globalPrefix :: string
  b_serverPrefix :: string
  b_specificPrefix :: string
  b_global :: "(int, (string, listener) gomap) gomap"
  b_server :: "(int, (int, (string, listener) gomap) gomap) gomap"
  b_specific :: "(int, (string, (string, listener) gomap) gomap) gomap"
  b_subMap :: "string list"
  b_registry :: event_registry
  b_throttle :: throttle_manager
  b_buffer :: "(int, bus_event list) gomap"
  b_metrics :: event_metrics
  b_spawned :: "(int \<times> bus_event list) list"
  b_posted :: "bus_job list"
  b_sent :: "(string \<times> string) list"

subsection \<open>Start and stop\<close>

record event_bus_conf =
  c_EndPoints :: "string list"
  c_GlobalPrefix :: string
  c_ServerPrefix :: string
  c_SpecificPrefix :: string

definition NatsDefaultGlobalPrefix :: string where
  "NatsDefaultGlobalPrefix = ''event.global.%d''"

definition NatsDefaultServerPrefix :: string where
  "NatsDefaultServerPrefix = ''event.server.%d.%d''"

definition DefaultSpecificPrefix :: string where
  "DefaultSpecificPrefix = ''event.specific.%d''"

definition or_default :: "string \<Rightarrow> string \<Rightarrow> string" where
  "or_default s d = (if s = [] then d else s)"

definition no_metrics :: event_metrics where
  "no_metrics = \<lparr> TotalPublished = 0, TotalDelivered = 0, TotalThrottled = 0, TotalBatched = 0 \<rparr>"

text \<open>\<open>Bus.Init\<close>; \<open>conn\<close> is the error of \<open>nats.Connect\<close>, if any.\<close>

definition Bus_Init :: "string option \<Rightarrow> event_bus_conf option \<Rightarrow> string + event_bus" where
  "Bus_Init conn conf =
     (let b = \<lparr> b_nats = False, b_globalPrefix = [], b_serverPrefix = [], b_specificPrefix = [], b_global = [], b_server = [], b_specific = [],
                b_subMap = [], b_registry = NewEventRegistry, b_throttle = [], b_buffer = [], b_metrics = no_metrics, b_spawned = [],
                b_posted = [], b_sent = [] \<rparr>
      in case conf of
           None \<Rightarrow> Inr b
         | Some c \<Rightarrow>
             if c_EndPoints c = [] then Inr b
             else case conn of
                    Some e \<Rightarrow> Inl (''nats connect failed: '' @ e)
                  | None \<Rightarrow> Inr (b \<lparr> b_nats := True, b_globalPrefix := or_default (c_GlobalPrefix c) NatsDefaultGlobalPrefix,
                                    b_serverPrefix := or_default (c_ServerPrefix c) NatsDefaultServerPrefix,
                                    b_specificPrefix := or_default (c_SpecificPrefix c) DefaultSpecificPrefix \<rparr>))"

subsection \<open>Subscriptions\<close>

text \<open>Subscribe to a subject on NATS; an error is logged, and nothing more.\<close>

definition nats_listen :: "event_lib \<Rightarrow> string \<Rightarrow> event_bus \<Rightarrow> event_bus" where
  "nats_listen lib key b =
     (if b_nats b then case lib_subscribe lib key of None \<Rightarrow> b \<lparr> b_subMap := List.insert key (b_subMap b) \<rparr> | Some e \<Rightarrow> b else b)"

definition unSubscribe :: "string \<Rightarrow> event_bus \<Rightarrow> event_bus" where
  "unSubscribe key b = (if b_nats b then b \<lparr> b_subMap := removeAll key (b_subMap b) \<rparr> else b)"

definition SubscribeGlobal :: "event_lib \<Rightarrow> int \<Rightarrow> listener \<Rightarrow> event_bus \<Rightarrow> event_bus" where
  "SubscribeGlobal lib et svc b =
     (let key = genKey (b_globalPrefix b) [A_EventType et];
          b1 = b \<lparr> b_global := gm_set2 (b_global b) et (l_uid svc) svc \<rparr>
      in if gm_get (b_global b) et = None then nats_listen lib key b1 else b1)"

definition UnSubscribeGlobal :: "int \<Rightarrow> listener \<Rightarrow> event_bus \<Rightarrow> event_bus" where
  "UnSubscribeGlobal et svc b =
     (let key = genKey (b_globalPrefix b) [A_EventType et];
          b1 = b \<lparr> b_global := gm_del2 (b_global b) et (l_uid svc) \<rparr>
      in if gm_get (b_global b) et \<noteq> None \<and> gm_get (b_global b1) et = None then unSubscribe key b1 else b1)"

definition SubscribeServer :: "event_lib \<Rightarrow> int \<Rightarrow> listener \<Rightarrow> event_bus \<Rightarrow> event_bus" where
  "SubscribeServer lib et svc b =
     (let key = genKey (b_serverPrefix b) [A_EventType et, A_Int32 (l_partition svc)];
          b1 = b \<lparr> b_server := gm_set3 (b_server b) et (l_partition svc) (l_uid svc) svc \<rparr>
      in if gm_get2 (b_server b) et (l_partition svc) = None then nats_listen lib key b1 else b1)"

definition UnSubscribeServer :: "int \<Rightarrow> listener \<Rightarrow> event_bus \<Rightarrow> event_bus" where
  "UnSubscribeServer et svc b =
     (let key = genKey (b_serverPrefix b) [A_EventType et, A_Int32 (l_partition svc)];
          b1 = b \<lparr> b_server := gm_del3 (b_server b) et (l_partition svc) (l_uid svc) \<rparr>
      in if gm_get2 (b_server b) et (l_partition svc) \<noteq> None \<and> gm_get2 (b_server b1) et (l_partition svc) = None then unSubscribe key b1 else b1)"

definition SubscribeSpecific :: "event_lib \<Rightarrow> int \<Rightarrow> string \<Rightarrow> listener \<Rightarrow> event_bus \<Rightarrow> event_bus" where
  "SubscribeSpecific lib et serviceUid svc b =
     (let key = genKey (b_specificPrefix b) [A_EventType et, A_String serviceUid];
          b1 = b \<lparr> b_specific := gm_set3 (b_specific b) et serviceUid (l_uid svc) svc \<rparr>
      in if gm_get2 (b_specific b) et serviceUid = None then nats_listen lib key b1 else b1)"

definition UnSubscribeSpecific :: "int \<Rightarrow> string \<Rightarrow> listener \<Rightarrow> event_bus \<Rightarrow> event_bus" where
  "UnSubscribeSpecific et serviceUid svc b =
     (let key = genKey (b_specificPrefix b) [A_EventType et, A_String serviceUid];
          b1 = b \<lparr> b_specific := gm_del3 (b_specific b) et serviceUid (l_uid svc) \<rparr>
      in if gm_get2 (b_specific b) et serviceUid \<noteq> None \<and> gm_get2 (b_specific b1) et serviceUid = None then unSubscribe key b1 else b1)"

subsection \<open>Publishing\<close>

definition marshalEvent :: "event_lib \<Rightarrow> ember_ctx \<Rightarrow> int \<Rightarrow> int \<Rightarrow> string \<Rightarrow> string \<Rightarrow> string + bus_event" where
  "marshalEvent lib ctx0 et part serviceUid data =
     (case lib_any_new lib data of
        Inl e \<Rightarrow> Inl e
      | Inr raw \<Rightarrow>
          let ctx = (if dispatcher_of ctx0 = [] then gm_set ctx0 DefaultDispatcherKey (H_String (lib_uuid lib)) else ctx0)
          in Inr (ctx, \<lparr> ev_Type = et, ev_Priority = 0, ev_DispatcherKey = dispatcher_of ctx, ev_Partition = part,
                         ev_ServiceUid = serviceUid, ev_Deadline = 0, ev_Payload = raw, ev_ContextHeaders = ToHeaders ctx \<rparr>))"

definition unmarshalEvent :: "event_lib \<Rightarrow> string \<Rightarrow> string + bus_event" where
  "unmarshalEvent lib bytes =
     (case lib_unmarshal lib bytes of
        Inl e \<Rightarrow> Inl e
      | Inr e \<Rightarrow>
          let ctx0 = map (\<lambda>(k, v). (k, H_String v)) (ev_ContextHeaders e);
              ctx1 = (if ev_DispatcherKey e \<noteq> [] then gm_set ctx0 DefaultDispatcherKey (H_String (ev_DispatcherKey e)) else ctx0);
              ctx2 = (if ev_Priority e \<noteq> 0 then gm_set ctx1 DefaultPriorityKey (H_Priority (ev_Priority e)) else ctx1)
          in Inr (ctx2, e))"

definition event_job :: "bus_event \<Rightarrow> listener \<Rightarrow> bus_job" where
  "event_job be l =
     \<lparr> bj_to = l_uid l, bj_payload = snd be, bj_ctx = fst be, bj_dispatcherKey = ev_DispatcherKey (snd be), bj_priority = ev_Priority (snd be),
       bj_deadline = ev_Deadline (snd be) \<rparr>"

definition post_all :: "bus_event \<Rightarrow> (string, listener) gomap \<Rightarrow> event_bus \<Rightarrow> event_bus" where
  "post_all be subs b = b \<lparr> b_posted := b_posted b @ map (\<lambda>x. event_job be (snd x)) subs \<rparr>"

definition publishGlobal :: "bus_event \<Rightarrow> event_bus \<Rightarrow> event_bus" where
  "publishGlobal be b = post_all be (gm_inner (b_global b) (ev_Type (snd be))) b"

definition publishServer :: "bus_event \<Rightarrow> event_bus \<Rightarrow> event_bus" where
  "publishServer be b = post_all be (gm_inner (gm_inner (b_server b) (ev_Type (snd be))) (ev_Partition (snd be))) b"

definition publishSpecific :: "bus_event \<Rightarrow> event_bus \<Rightarrow> event_bus" where
  "publishSpecific be b = post_all be (gm_inner (gm_inner (b_specific b) (ev_Type (snd be))) (ev_ServiceUid (snd be))) b"

definition nats_publish :: "event_lib \<Rightarrow> string \<Rightarrow> actor_event \<Rightarrow> event_bus \<Rightarrow> string option \<times> event_bus" where
  "nats_publish lib key e b =
     (case lib_marshal lib e of
        Inl err \<Rightarrow> (Some err, b)
      | Inr bytes \<Rightarrow>
          case lib_publish lib key of
            Some err \<Rightarrow> (Some err, b)
          | None \<Rightarrow> (None, b \<lparr> b_sent := b_sent b @ [(key, bytes)] \<rparr>))"

definition publishImmediately :: "event_lib \<Rightarrow> bus_event \<Rightarrow> event_bus \<Rightarrow> string option \<times> event_bus" where
  "publishImmediately lib be b0 =
     (let b = b0 \<lparr> b_metrics := (b_metrics b0) \<lparr> TotalPublished := TotalPublished (b_metrics b0) + 1 \<rparr> \<rparr>
      in if b_nats b then nats_publish lib (genKey (b_globalPrefix b) [A_Int32 (ev_Type (snd be))]) (snd be) b
         else (None, publishGlobal be b))"

definition addToBatch :: "int \<Rightarrow> bus_event \<Rightarrow> event_bus \<Rightarrow> event_bus" where
  "addToBatch et be b =
     (let events = (case gm_get (b_buffer b) et of Some es \<Rightarrow> es | None \<Rightarrow> []) @ [be];
          b1 = b \<lparr> b_metrics := (b_metrics b) \<lparr> TotalPublished := TotalPublished (b_metrics b) + 1 \<rparr> \<rparr>
      in if ec_BatchSize (GetClassification (b_registry b) et) \<le> int (length events)
         then b1 \<lparr> b_buffer := gm_del (b_buffer b) et, b_spawned := b_spawned b @ [(et, events)] \<rparr>
         else b1 \<lparr> b_buffer := gm_set (b_buffer b) et events \<rparr>)"

definition batched :: "event_classification \<Rightarrow> bool" where
  "batched c \<longleftrightarrow> 1 < ec_BatchSize c \<and> ec_Category c \<in> {CategoryMetrics, CategoryStatistics, CategoryBusinessBatch}"

definition throttled_error :: "int \<Rightarrow> string" where
  "throttled_error et = ''event type '' @ int_digits et @ '' throttled''"

definition PublishGlobal :: "event_lib \<Rightarrow> int \<Rightarrow> ember_ctx \<Rightarrow> int \<Rightarrow> string \<Rightarrow> event_bus \<Rightarrow> string option \<times> event_bus" where
  "PublishGlobal lib now ctx et data b0 =
     (case tm_Allow (b_registry b0) now et (b_throttle b0) of (ok, tm) \<Rightarrow>
        let b = b0 \<lparr> b_throttle := tm \<rparr>
        in if \<not> ok then (Some (throttled_error et), b \<lparr> b_metrics := (b_metrics b) \<lparr> TotalThrottled := TotalThrottled (b_metrics b) + 1 \<rparr> \<rparr>)
           else case marshalEvent lib ctx et 0 [] data of
                  Inl e \<Rightarrow> (Some e, b)
                | Inr be \<Rightarrow>
                    if b_nats b \<and> batched (GetClassification (b_registry b) et) then (None, addToBatch et be b)
                    else publishImmediately lib be b)"

definition PublishGlobalLocal :: "event_lib \<Rightarrow> ember_ctx \<Rightarrow> int \<Rightarrow> string \<Rightarrow> event_bus \<Rightarrow> string option \<times> event_bus" where
  "PublishGlobalLocal lib ctx et data b =
     (case marshalEvent lib ctx et 0 [] data of Inl e \<Rightarrow> (Some e, b) | Inr be \<Rightarrow> (None, publishGlobal be b))"

definition PublishServer :: "event_lib \<Rightarrow> ember_ctx \<Rightarrow> int \<Rightarrow> int \<Rightarrow> string \<Rightarrow> event_bus \<Rightarrow> string option \<times> event_bus" where
  "PublishServer lib ctx et part data b =
     (case marshalEvent lib ctx et part [] data of
        Inl e \<Rightarrow> (Some e, b)
      | Inr be \<Rightarrow> if b_nats b then nats_publish lib (genKey (b_serverPrefix b) [A_EventType et, A_Int32 part]) (snd be) b
                  else (None, publishServer be b))"

definition PublishServerLocal :: "event_lib \<Rightarrow> ember_ctx \<Rightarrow> int \<Rightarrow> int \<Rightarrow> string \<Rightarrow> event_bus \<Rightarrow> string option \<times> event_bus" where
  "PublishServerLocal lib ctx et part data b =
     (case marshalEvent lib ctx et part [] data of Inl e \<Rightarrow> (Some e, b) | Inr be \<Rightarrow> (None, publishServer be b))"

definition PublishSpecific :: "event_lib \<Rightarrow> ember_ctx \<Rightarrow> int \<Rightarrow> string \<Rightarrow> string \<Rightarrow> event_bus \<Rightarrow> string option \<times> event_bus" where
  "PublishSpecific lib ctx et serviceUid data b =
     (case marshalEvent lib ctx et 0 serviceUid data of
        Inl e \<Rightarrow> (Some e, b)
      | Inr be \<Rightarrow> if b_nats b then nats_publish lib (genKey (b_specificPrefix b) [A_EventType et, A_String serviceUid]) (snd be) b
                  else (None, publishSpecific be b))"

definition PublishSpecificLocal :: "event_lib \<Rightarrow> ember_ctx \<Rightarrow> int \<Rightarrow> string \<Rightarrow> string \<Rightarrow> event_bus \<Rightarrow> string option \<times> event_bus" where
  "PublishSpecificLocal lib ctx et serviceUid data b =
     (case marshalEvent lib ctx et 0 serviceUid data of Inl e \<Rightarrow> (Some e, b) | Inr be \<Rightarrow> (None, publishSpecific be b))"

subsection \<open>Messages from NATS, and batches\<close>

datatype subscription = On_Global | On_Server | On_Specific

text \<open>The callback that \<open>nc.Subscribe\<close> was given, run on the bytes of a message.\<close>

definition nats_message :: "event_lib \<Rightarrow> subscription \<Rightarrow> string \<Rightarrow> event_bus \<Rightarrow> event_bus" where
  "nats_message lib sub bytes b =
     (case unmarshalEvent lib bytes of
        Inl e \<Rightarrow> b
      | Inr be \<Rightarrow> (case sub of On_Global \<Rightarrow> publishGlobal be b | On_Server \<Rightarrow> publishServer be b | On_Specific \<Rightarrow> publishSpecific be b))"

definition flushEventBatch :: "int \<Rightarrow> bus_event list \<Rightarrow> event_bus \<Rightarrow> event_bus" where
  "flushEventBatch et events b0 =
     (if events = [] then b0
      else let b = (case ec_Scope (GetClassification (b_registry b0) et) of
                      ScopeGlobal \<Rightarrow> fold publishGlobal events b0
                    | ScopeCluster \<Rightarrow> fold publishServer events b0
                    | ScopeRegion \<Rightarrow> fold publishServer events b0
                    | ScopeNode \<Rightarrow> fold publishServer events b0
                    | _ \<Rightarrow> fold publishGlobal events b0)
           in b \<lparr> b_metrics := (b_metrics b) \<lparr> TotalBatched := TotalBatched (b_metrics b) + int (length events),
                                             TotalDelivered := TotalDelivered (b_metrics b) + int (length events) \<rparr> \<rparr>)"

definition flushAllBuffers :: "event_bus \<Rightarrow> event_bus" where
  "flushAllBuffers b =
     fold (\<lambda>(et, events). flushEventBatch et events) (filter (\<lambda>x. snd x \<noteq> []) (b_buffer b)) (b \<lparr> b_buffer := [] \<rparr>)"

text \<open>The goroutine of the oldest full batch runs.\<close>

definition run_spawned :: "event_bus \<Rightarrow> event_bus" where
  "run_spawned b = (case b_spawned b of [] \<Rightarrow> b | (et, events) # rest \<Rightarrow> flushEventBatch et events (b \<lparr> b_spawned := rest \<rparr>))"

definition Bus_Stop :: "event_bus \<Rightarrow> event_bus" where
  "Bus_Stop b = flushAllBuffers (b \<lparr> b_nats := False \<rparr>)"

section \<open>Lemmas on nested maps\<close>

definition wf2 :: "('a, ('b, 'v) gomap) gomap \<Rightarrow> bool" where
  [inv_defs]: "wf2 m \<longleftrightarrow> gm_wf m \<and> (\<forall>x \<in> set m. gm_wf (snd x) \<and> snd x \<noteq> [])"

definition wf3 :: "('a, ('b, ('c, 'v) gomap) gomap) gomap \<Rightarrow> bool" where
  [inv_defs]: "wf3 m \<longleftrightarrow> gm_wf m \<and> (\<forall>x \<in> set m. wf2 (snd x) \<and> snd x \<noteq> [])"

lemma gm_inner_set [simp]: "gm_inner (gm_set m a i) a' = (if a' = a then i else gm_inner m a')"
  by (simp add: gm_inner_def gm_get_set)

lemma gm_inner_prune [simp]: "gm_inner (gm_prune m a i) a' = (if a' = a then i else gm_inner m a')"
  by (simp add: gm_inner_def gm_prune_def gm_get_set gm_get_del)

lemma gm_inner_eq: "gm_get m a = Some i \<Longrightarrow> gm_inner m a = i" "gm_get m a = None \<Longrightarrow> gm_inner m a = []"
  by (simp_all add: gm_inner_def)

lemma gm_get_prune: "gm_get (gm_prune m a i) a' = (if a' = a then if i = [] then None else Some i else gm_get m a')"
  by (simp add: gm_prune_def gm_get_set gm_get_del)

lemma gm_inner_del2: "gm_inner (gm_del2 m a b) a' = (if a' = a then gm_del (gm_inner m a) b else gm_inner m a')"
  by (cases "gm_get m a") (simp_all add: gm_del2_def gm_inner_eq)

lemma gm_inner_del3: "gm_inner (gm_del3 m a b c) a' = (if a' = a then gm_del2 (gm_inner m a) b c else gm_inner m a')"
  by (cases "gm_get m a") (simp_all add: gm_del3_def gm_del2_def gm_inner_eq)

lemma get2_set2: "gm_get2 (gm_set2 m a b v) a' b' = (if a' = a \<and> b' = b then Some v else gm_get2 m a' b')"
  by (simp add: gm_get2_def gm_set2_def gm_get_set)

lemma get2_del2: "gm_get2 (gm_del2 m a b) a' b' = (if a' = a \<and> b' = b then None else gm_get2 m a' b')"
  by (simp add: gm_get2_def gm_inner_del2 gm_get_del)

lemma get3_set3: "gm_get3 (gm_set3 m a b c v) a' b' c' = (if a' = a \<and> b' = b \<and> c' = c then Some v else gm_get3 m a' b' c')"
  by (auto simp: gm_get3_def gm_set3_def get2_set2 gm_get_set split: if_splits)

lemma get3_del3: "gm_get3 (gm_del3 m a b c) a' b' c' = (if a' = a \<and> b' = b \<and> c' = c then None else gm_get3 m a' b' c')"
  by (simp add: gm_get3_def gm_inner_del3 get2_del2)

lemmas nested_get = get2_set2 get2_del2 get3_set3 get3_del3

lemma set_gm_del: "x \<in> set (gm_del m k) \<Longrightarrow> x \<in> set m"
  by (induction m) (auto split: if_splits)

lemma gm_set_not_Nil [simp]: "gm_set m k v \<noteq> []"
  by (cases m) auto

lemma wf2_empty [simp]: "wf2 []"
  by (simp add: wf2_def)

lemma wf3_empty [simp]: "wf3 []"
  by (simp add: wf3_def)

lemma gm_inner_wf2: "wf2 m \<Longrightarrow> gm_wf (gm_inner m a)"
  by (cases "gm_get m a") (auto simp: wf2_def gm_inner_eq dest!: gm_get_mem)

lemma gm_inner_wf3: "wf3 m \<Longrightarrow> wf2 (gm_inner m a)"
  by (cases "gm_get m a") (auto simp: wf3_def gm_inner_eq wf2_empty dest!: gm_get_mem)

lemma wf2_set2 [simp]: "wf2 m \<Longrightarrow> wf2 (gm_set2 m a b v)"
  using gm_inner_wf2 [of m a] by (auto simp: wf2_def gm_set2_def dest!: gm_set_mem)

lemma wf2_prune: "wf2 m \<Longrightarrow> gm_wf i \<Longrightarrow> wf2 (gm_prune m a i)"
  by (auto simp: wf2_def gm_prune_def dest!: gm_set_mem set_gm_del)

lemma wf2_del2 [simp]: "wf2 m \<Longrightarrow> wf2 (gm_del2 m a b)"
  using gm_inner_wf2 [of m a] by (cases "gm_get m a") (simp_all add: gm_del2_def gm_inner_eq wf2_prune)

lemma wf3_set3 [simp]: "wf3 m \<Longrightarrow> wf3 (gm_set3 m a b c v)"
  using gm_inner_wf3 [of m a] by (auto simp: wf3_def gm_set3_def gm_set2_def wf2_set2 [unfolded gm_set2_def] dest!: gm_set_mem)

lemma wf3_prune: "wf3 m \<Longrightarrow> wf2 i \<Longrightarrow> wf3 (gm_prune m a i)"
  by (auto simp: wf3_def gm_prune_def dest!: gm_set_mem set_gm_del)

lemma wf3_del3 [simp]: "wf3 m \<Longrightarrow> wf3 (gm_del3 m a b c)"
  using gm_inner_wf3 [of m a] by (cases "gm_get m a") (simp_all add: gm_del3_def gm_inner_eq wf3_prune)

lemma get2_empty [simp]: "gm_get2 [] a b = None" "gm_get3 [] a b c = None"
  by (simp_all add: gm_get2_def gm_get3_def gm_inner_def)

text \<open>How many entries an inner map of depth two has.\<close>

definition entries2 :: "('a, ('b, 'v) gomap) gomap \<Rightarrow> nat" where
  "entries2 m = sum_list (map (\<lambda>x. length (snd x)) m)"

definition bound :: "('a, ('b, ('c, 'v) gomap) gomap) gomap \<Rightarrow> 'a \<Rightarrow> nat" where
  "bound m a = entries2 (gm_inner m a)"

lemma gm_del_fresh: "k \<notin> fst ` set m \<Longrightarrow> gm_del m k = m"
  by (induction m) auto

lemma length_gm_set: "length (gm_set m k v) = (if gm_get m k = None then Suc (length m) else length m)"
  by (induction m) auto

lemma length_gm_del: "gm_wf m \<Longrightarrow> gm_get m k \<noteq> None \<Longrightarrow> Suc (length (gm_del m k)) = length m"
proof (induction m)
  case (Cons x m)
  have wf: "gm_wf m" "gm_del m (fst x) = m" using gm_del_fresh [of "fst x" m] Cons.prems(1) by (simp_all add: gm_wf_def)
  then show ?case using Cons.IH Cons.prems(2) by (cases x) (simp split: if_splits)
qed simp

lemma entries2_gm_set: "gm_get m a = None \<Longrightarrow> entries2 (gm_set m a i) = entries2 m + length i"
  by (induction m) (auto simp: entries2_def split: if_splits)

lemma entries2_gm_upd: "gm_get m a = Some j \<Longrightarrow> entries2 (gm_set m a i) + length j = entries2 m + length i"
  using gm_sum_set [of m a j length i] by (simp add: entries2_def)

lemma entries2_gm_del:
  assumes "gm_wf m" "gm_get m a = Some j"
  shows "entries2 (gm_del m a) + length j = entries2 m"
  using assms
proof (induction m)
  case (Cons x m)
  have "gm_del m (fst x) = m" using gm_del_fresh [of "fst x" m] Cons.prems(1) by (simp add: gm_wf_def)
  then show ?case using Cons by (cases x) (auto simp: gm_wf_def entries2_def)
qed simp

lemma entries2_set2: "entries2 (gm_set2 m a b v) = (if gm_get2 m a b = None then Suc (entries2 m) else entries2 m)"
proof (cases "gm_get m a")
  case None
  then show ?thesis by (simp add: gm_set2_def gm_get2_def entries2_gm_set gm_inner_eq)
next
  case (Some i)
  then show ?thesis using entries2_gm_upd [OF Some, of "gm_set i b v"] by (simp add: gm_set2_def gm_get2_def length_gm_set gm_inner_eq split: if_splits)
qed

lemma entries2_del2:
  assumes "wf2 m" "gm_get2 m a b \<noteq> None"
  shows "Suc (entries2 (gm_del2 m a b)) = entries2 m"
proof -
  obtain i where i: "gm_get m a = Some i" "gm_get i b \<noteq> None" using assms(2) by (cases "gm_get m a") (auto simp: gm_get2_def gm_inner_eq)
  have "gm_wf i" using assms(1) gm_get_mem [OF i(1)] by (auto simp: wf2_def)
  then have len: "Suc (length (gm_del i b)) = length i" using i(2) by (rule length_gm_del)
  show ?thesis
  proof (cases "gm_del i b = []")
    case True
    then show ?thesis using entries2_gm_del [of m a i] i(1) assms(1) len by (simp add: gm_del2_def gm_prune_def wf2_def)
  next
    case False
    then show ?thesis using entries2_gm_upd [OF i(1), of "gm_del i b"] i(1) len by (simp add: gm_del2_def gm_prune_def)
  qed
qed

lemma bound_set3: "bound (gm_set3 m a b c v) a' = bound m a' + (if a' = a \<and> gm_get3 m a b c = None then 1 else 0)"
  by (auto simp: bound_def gm_set3_def gm_get3_def entries2_set2 gm_get_set)

lemma bound_del3: "wf3 m \<Longrightarrow> gm_get3 m a b c \<noteq> None \<Longrightarrow> bound (gm_del3 m a b c) a' + (if a' = a then 1 else 0) = bound m a'"
  using entries2_del2 [OF gm_inner_wf3, of m a b c] by (auto simp: bound_def gm_inner_del3 gm_get3_def)

lemma entries2_pos: "wf2 m \<Longrightarrow> 0 < entries2 m \<longleftrightarrow> (\<exists>a b. gm_get2 m a b \<noteq> None)"
proof
  assume "wf2 m" "0 < entries2 m"
  then obtain a i where "(a, i) \<in> set m" "i \<noteq> []" by (cases m) (fastforce simp: entries2_def wf2_def)+
  moreover from this obtain b v where "(b, v) \<in> set i" by (cases i) auto
  ultimately have "gm_get2 m a b = Some v" using \<open>wf2 m\<close> by (fastforce simp: wf2_def gm_get2_def gm_wf_def gm_inner_def)
  then show "\<exists>a b. gm_get2 m a b \<noteq> None" by auto
next
  assume "\<exists>a b. gm_get2 m a b \<noteq> None"
  then obtain a b where "gm_get2 m a b \<noteq> None" by blast
  then obtain i where "gm_get m a = Some i" "gm_get i b \<noteq> None" by (cases "gm_get m a") (auto simp: gm_get2_def gm_inner_eq)
  then have "(a, i) \<in> set m" "i \<noteq> []" by (auto simp: gm_get_mem)
  then show "0 < entries2 m" by (force simp: entries2_def sum_list_eq_0_iff intro: gr0I)
qed

lemma bound_pos: "wf3 m \<Longrightarrow> 0 < bound m a \<longleftrightarrow> (\<exists>b c. gm_get3 m a b c \<noteq> None)"
  by (simp add: bound_def gm_get3_def entries2_pos gm_inner_wf3)

section \<open>Properties of the bus\<close>

lemma post_all_fields [simp]:
  "b_sent (post_all be subs b) = b_sent b" "b_registry (post_all be subs b) = b_registry b" "b_nats (post_all be subs b) = b_nats b"
  "b_global (post_all be subs b) = b_global b" "b_server (post_all be subs b) = b_server b" "b_specific (post_all be subs b) = b_specific b"
  "b_buffer (post_all be subs b) = b_buffer b" "b_spawned (post_all be subs b) = b_spawned b" "b_subMap (post_all be subs b) = b_subMap b"
  by (simp_all add: post_all_def)

lemmas publish_defs = publishGlobal_def publishServer_def publishSpecific_def

lemma fold_publish_sent [simp]: "b_sent (fold publishGlobal es b) = b_sent b" "b_sent (fold publishServer es b) = b_sent b"
  by (induction es arbitrary: b) (simp_all add: publish_defs)

lemma fold_publish_registry [simp]: "b_registry (fold publishGlobal es b) = b_registry b" "b_registry (fold publishServer es b) = b_registry b"
  by (induction es arbitrary: b) (simp_all add: publish_defs)

lemma flushEventBatch_sent [simp]: "b_sent (flushEventBatch et es b) = b_sent b"
  by (simp add: flushEventBatch_def Let_def split: event_scope.split)

lemma flushEventBatch_registry [simp]: "b_registry (flushEventBatch et es b) = b_registry b"
  by (simp add: flushEventBatch_def Let_def split: event_scope.split)

lemma fold_flush_sent: "b_sent (fold (\<lambda>(et, es). flushEventBatch et es) bs b) = b_sent b \<and> b_registry (fold (\<lambda>(et, es). flushEventBatch et es) bs b) = b_registry b"
  by (induction bs arbitrary: b) auto

lemma run_spawned_sent: "b_sent (run_spawned b) = b_sent b \<and> b_registry (run_spawned b) = b_registry b"
  by (simp add: run_spawned_def split: list.split)

lemma flushAllBuffers_sent: "b_sent (flushAllBuffers b) = b_sent b \<and> b_registry (flushAllBuffers b) = b_registry b"
  using fold_flush_sent [of "filter (\<lambda>x. snd x \<noteq> []) (b_buffer b)" "b \<lparr> b_buffer := [] \<rparr>"] by (simp add: flushAllBuffers_def)

text \<open>What can happen to the events of one type: a service publishes one, the ticker flushes the buffers, a full batch is flushed, the bus stops.\<close>

datatype batch_op = Op_Publish int ember_ctx string | Op_Tick | Op_Batch

fun batch_step :: "event_lib \<Rightarrow> int \<Rightarrow> batch_op \<Rightarrow> event_bus \<Rightarrow> event_bus" where
  "batch_step lib et (Op_Publish now ctx data) b = snd (PublishGlobal lib now ctx et data b)"
| "batch_step lib et Op_Tick b = flushAllBuffers b"
| "batch_step lib et Op_Batch b = run_spawned b"

lemma addToBatch_fields [simp]:
  "b_sent (addToBatch et be b) = b_sent b" "b_registry (addToBatch et be b) = b_registry b" "b_nats (addToBatch et be b) = b_nats b"
  by (simp_all add: addToBatch_def Let_def)

lemma fold_publish_nats [simp]: "b_nats (fold publishGlobal es b) = b_nats b" "b_nats (fold publishServer es b) = b_nats b"
  by (induction es arbitrary: b) (simp_all add: publish_defs)

lemma flushEventBatch_nats [simp]: "b_nats (flushEventBatch et es b) = b_nats b"
  by (simp add: flushEventBatch_def Let_def split: event_scope.split)

lemma fold_flush_nats [simp]: "b_nats (fold (\<lambda>(et, es). flushEventBatch et es) bs b) = b_nats b"
  by (induction bs arbitrary: b) (simp_all add: case_prod_unfold)

lemma batch_step_local:
  assumes "b_nats b" "batched (GetClassification (b_registry b) et)"
  shows "b_sent (batch_step lib et op b) = b_sent b \<and> b_registry (batch_step lib et op b) = b_registry b \<and> b_nats (batch_step lib et op b)"
proof (cases op)
  case (Op_Publish now ctx data)
  then show ?thesis using assms by (simp add: PublishGlobal_def Let_def split: prod.split sum.split)
next
  case Op_Tick
  then show ?thesis using flushAllBuffers_sent [of b] assms(1) by (simp add: flushAllBuffers_def)
next
  case Op_Batch
  then show ?thesis using run_spawned_sent [of b] assms(1) by (simp add: run_spawned_def split: list.split)
qed

text \<open>
  Global events of a type that is published in batches never leave the node: whatever is published and flushed, nothing is handed to NATS, although the bus is
  connected. The flush posts the events to the subscribers of this node only.
\<close>

theorem batched_events_stay_local:
  assumes "b_nats b" "batched (GetClassification (b_registry b) et)"
  shows "b_sent (fold (batch_step lib et) ops b) = b_sent b"
  using assms
proof (induction ops arbitrary: b)
  case (Cons op ops)
  from batch_step_local [OF Cons.prems, of lib op] Cons.prems(2) Cons.IH [of "batch_step lib et op b"] show ?case by simp
qed simp

definition free_lib :: event_lib where
  "free_lib = \<lparr> lib_any_new = Inr, lib_marshal = (\<lambda>e. Inr (ev_Payload e)), lib_unmarshal = (\<lambda>s. Inl ''bad''), lib_publish = (\<lambda>k. None),
     lib_subscribe = (\<lambda>k. if CHR '' '' \<in> set k then Some ''nats: invalid subject'' else None), lib_uuid = ''u1'' \<rparr>"

definition nats_bus :: event_bus where
  "nats_bus = projr (Bus_Init None (Some \<lparr> c_EndPoints = [''n1''], c_GlobalPrefix = [], c_ServerPrefix = [], c_SpecificPrefix = [] \<rparr>))"

theorem batched_events_stay_local_witness:
  "b_sent (fold (batch_step free_lib (-1006)) [Op_Publish 0 [] ''beat'', Op_Tick, Op_Publish 2000000000 [] ''beat''] nats_bus) = b_sent nats_bus"
  by (rule batched_events_stay_local) code_simp+

text \<open>The subject of specific events, made from the default prefix, always has a blank, because the format has no place for the service.\<close>

lemma default_specific_subject:
  "genKey DefaultSpecificPrefix [A_EventType et, A_String uid] = ''event.specific.'' @ int_digits et @ ''%!(EXTRA string='' @ uid @ '')''"
  by (simp add: genKey_def DefaultSpecificPrefix_def)

text \<open>
  With the default configuration specific events are lost when NATS is used: the subject made for them has a blank, the client refuses such subjects,
  and a subscription is only logged as failed. No subscription for specific events is ever made, and publishing one reaches no subscriber on this node either.
\<close>

theorem default_specific_events_lost:
  assumes "b_nats b" "b_specificPrefix b = DefaultSpecificPrefix" and refuses: "\<forall>key. CHR '' '' \<in> set key \<longrightarrow> lib_subscribe lib key \<noteq> None"
  shows "b_subMap (SubscribeSpecific lib et uid svc b) = b_subMap b \<and>
         b_posted (snd (PublishSpecific lib ctx et uid data (SubscribeSpecific lib et uid svc b))) = b_posted b"
proof -
  have "lib_subscribe lib (genKey DefaultSpecificPrefix [A_EventType et, A_String uid]) \<noteq> None" using refuses by (simp add: default_specific_subject)
  then have sub: "b_subMap (SubscribeSpecific lib et uid svc b) = b_subMap b" "b_posted (SubscribeSpecific lib et uid svc b) = b_posted b"
    "b_nats (SubscribeSpecific lib et uid svc b)"
    using assms(1,2) by (auto simp: SubscribeSpecific_def nats_listen_def Let_def)
  then have "b_posted (snd (PublishSpecific lib ctx et uid data (SubscribeSpecific lib et uid svc b))) = b_posted b"
    by (simp add: PublishSpecific_def nats_publish_def split: sum.split option.split)
  then show ?thesis using sub by simp
qed

theorem default_specific_events_lost_witness:
  "b_subMap (SubscribeSpecific free_lib 7 ''svc'' \<lparr> l_uid = ''a'', l_partition = 1 \<rparr> nats_bus) = b_subMap nats_bus \<and>
   b_posted (snd (PublishSpecific free_lib [] 7 ''svc'' ''x'' (SubscribeSpecific free_lib 7 ''svc'' \<lparr> l_uid = ''a'', l_partition = 1 \<rparr> nats_bus))) = b_posted nats_bus"
proof (rule default_specific_events_lost)
  show "b_nats nats_bus" "b_specificPrefix nats_bus = DefaultSpecificPrefix" by code_simp+
  show "\<forall>key. CHR '' '' \<in> set key \<longrightarrow> lib_subscribe free_lib key \<noteq> None" by (simp add: free_lib_def)
qed

end
