(* ===== verification/Event_Processor.thy ===== *)
theory Event_Processor
  imports Event_Bus
begin

text \<open>
  The event processor of a service and the event handlers of its modules: \<open>engine/pkg/event/processor.go\<close>, \<open>engine/pkg/event/handler.go\<close> and the job handler
  for events in \<open>engine/pkg/core/handler_job.go\<close>.

  Callbacks are numbers; what a callback does is an argument of the operations that run them, and a panic of one is its error value. A handler is the number of
  its module. The processors of a node share one bus, so that the operations that change subscriptions take and return the bus as well.
\<close>

section \<open>Definitions\<close>

type_synonym 'k callbacks = "('k, (nat, (string, nat) gomap) gomap) gomap"

record processor =
  p_listener :: "listener option"
  p_bus :: bool
  p_local :: "int callbacks"
  p_global :: "int callbacks"
  p_server :: "int callbacks"
  p_specific :: "(int \<times> string) callbacks"
  p_globalCnt :: "(int, int) gomap"
  p_serverCnt :: "(int, int) gomap"
  p_specificCnt :: "(int \<times> string, int) gomap"

definition Processor_Init :: "listener option \<Rightarrow> processor" where
  "Processor_Init l =
     \<lparr> p_listener = l, p_bus = False, p_local = [], p_global = [], p_server = [], p_specific = [], p_globalCnt = [], p_serverCnt = [], p_specificCnt = [] \<rparr>"

definition SetEventBus :: "processor \<Rightarrow> processor" where
  "SetEventBus p = p \<lparr> p_bus := True \<rparr>"

text \<open>The bus and the listener through which a processor subscribes, if it has both.\<close>

definition attached :: "processor \<Rightarrow> listener option" where
  "attached p = (if p_bus p then p_listener p else None)"

definition has_named :: "(nat, (string, nat) gomap) gomap \<Rightarrow> bool" where
  "has_named byHandler \<longleftrightarrow> list_ex (\<lambda>x. snd x \<noteq> []) byHandler"

definition HasHandler :: "int \<Rightarrow> processor \<Rightarrow> bool" where
  "HasHandler et p \<longleftrightarrow>
     has_named (gm_inner (p_local p) et) \<or> has_named (gm_inner (p_global p) et) \<or> has_named (gm_inner (p_server p) et) \<or>
     list_ex (\<lambda>x. fst (fst x) = et \<and> has_named (snd x)) (p_specific p)"

subsection \<open>Local callbacks\<close>

definition BindHandler :: "int \<Rightarrow> string \<Rightarrow> nat \<Rightarrow> nat \<Rightarrow> processor \<Rightarrow> processor" where
  "BindHandler et name h cb p = p \<lparr> p_local := gm_set3 (p_local p) et h name cb \<rparr>"

definition UnbindHandler :: "int \<Rightarrow> string \<Rightarrow> nat \<Rightarrow> processor \<Rightarrow> processor" where
  "UnbindHandler et name h p = p \<lparr> p_local := gm_del3 (p_local p) et h name \<rparr>"

subsection \<open>Callbacks of the bus\<close>

text \<open>
  The body the three pairs of bind and unbind operations share: the callback table and the counts of callbacks per key; the last component says whether the
  service has to be subscribed, or unsubscribed.
\<close>

definition bind_counted :: "bool \<Rightarrow> 'k \<Rightarrow> string \<Rightarrow> nat \<Rightarrow> nat \<Rightarrow> 'k callbacks \<Rightarrow> ('k, int) gomap \<Rightarrow> 'k callbacks \<times> ('k, int) gomap \<times> bool" where
  "bind_counted att k name h cb tab cnt =
     (let existed = gm_get3 tab k h name \<noteq> None; tab1 = gm_set3 tab k h name cb; c = (case gm_get cnt k of Some c \<Rightarrow> c | None \<Rightarrow> 0)
      in if att \<and> \<not> existed then (tab1, gm_set cnt k (c + 1), c = 0) else (tab1, cnt, False))"

definition unbind_counted :: "bool \<Rightarrow> 'k \<Rightarrow> string \<Rightarrow> nat \<Rightarrow> 'k callbacks \<Rightarrow> ('k, int) gomap \<Rightarrow> 'k callbacks \<times> ('k, int) gomap \<times> bool" where
  "unbind_counted att k name h tab cnt =
     (if gm_get3 tab k h name = None then (tab, cnt, False)
      else let tab1 = gm_del3 tab k h name; c = (case gm_get cnt k of Some c \<Rightarrow> c | None \<Rightarrow> 0) - 1
           in if att then if c \<le> 0 then (tab1, gm_del cnt k, True) else (tab1, gm_set cnt k c, False) else (tab1, cnt, False))"

definition BindGlobalHandler :: "event_lib \<Rightarrow> int \<Rightarrow> string \<Rightarrow> nat \<Rightarrow> nat \<Rightarrow> processor \<times> event_bus \<Rightarrow> processor \<times> event_bus" where
  "BindGlobalHandler lib et name h cb pb =
     (case pb of (p, b) \<Rightarrow> case bind_counted (attached p \<noteq> None) et name h cb (p_global p) (p_globalCnt p) of (tab, cnt, sub) \<Rightarrow>
        (p \<lparr> p_global := tab, p_globalCnt := cnt \<rparr>, if sub then SubscribeGlobal lib et (the (attached p)) b else b))"

definition UnbindGlobalHandler :: "int \<Rightarrow> string \<Rightarrow> nat \<Rightarrow> processor \<times> event_bus \<Rightarrow> processor \<times> event_bus" where
  "UnbindGlobalHandler et name h pb =
     (case pb of (p, b) \<Rightarrow> case unbind_counted (attached p \<noteq> None) et name h (p_global p) (p_globalCnt p) of (tab, cnt, unsub) \<Rightarrow>
        (p \<lparr> p_global := tab, p_globalCnt := cnt \<rparr>, if unsub then UnSubscribeGlobal et (the (attached p)) b else b))"

definition BindServerHandler :: "event_lib \<Rightarrow> int \<Rightarrow> string \<Rightarrow> nat \<Rightarrow> nat \<Rightarrow> processor \<times> event_bus \<Rightarrow> processor \<times> event_bus" where
  "BindServerHandler lib et name h cb pb =
     (case pb of (p, b) \<Rightarrow> case bind_counted (attached p \<noteq> None) et name h cb (p_server p) (p_serverCnt p) of (tab, cnt, sub) \<Rightarrow>
        (p \<lparr> p_server := tab, p_serverCnt := cnt \<rparr>, if sub then SubscribeServer lib et (the (attached p)) b else b))"

definition UnbindServerHandler :: "int \<Rightarrow> string \<Rightarrow> nat \<Rightarrow> processor \<times> event_bus \<Rightarrow> processor \<times> event_bus" where
  "UnbindServerHandler et name h pb =
     (case pb of (p, b) \<Rightarrow> case unbind_counted (attached p \<noteq> None) et name h (p_server p) (p_serverCnt p) of (tab, cnt, unsub) \<Rightarrow>
        (p \<lparr> p_server := tab, p_serverCnt := cnt \<rparr>, if unsub then UnSubscribeServer et (the (attached p)) b else b))"

definition BindSpecificHandler :: "event_lib \<Rightarrow> int \<Rightarrow> string \<Rightarrow> string \<Rightarrow> nat \<Rightarrow> nat \<Rightarrow> processor \<times> event_bus \<Rightarrow> processor \<times> event_bus" where
  "BindSpecificHandler lib et uid name h cb pb =
     (case pb of (p, b) \<Rightarrow> case bind_counted (attached p \<noteq> None) (et, uid) name h cb (p_specific p) (p_specificCnt p) of (tab, cnt, sub) \<Rightarrow>
        (p \<lparr> p_specific := tab, p_specificCnt := cnt \<rparr>, if sub then SubscribeSpecific lib et uid (the (attached p)) b else b))"

definition UnbindSpecificHandler :: "int \<Rightarrow> string \<Rightarrow> string \<Rightarrow> nat \<Rightarrow> processor \<times> event_bus \<Rightarrow> processor \<times> event_bus" where
  "UnbindSpecificHandler et uid name h pb =
     (case pb of (p, b) \<Rightarrow> case unbind_counted (attached p \<noteq> None) (et, uid) name h (p_specific p) (p_specificCnt p) of (tab, cnt, unsub) \<Rightarrow>
        (p \<lparr> p_specific := tab, p_specificCnt := cnt \<rparr>, if unsub then UnSubscribeSpecific et uid (the (attached p)) b else b))"

definition positive :: "('k, int) gomap \<Rightarrow> 'k list" where
  "positive cnt = map fst (filter (\<lambda>x. 0 < snd x) cnt)"

definition Processor_Clear :: "processor \<times> event_bus \<Rightarrow> processor \<times> event_bus" where
  "Processor_Clear pb =
     (case pb of (p, b) \<Rightarrow>
        (p \<lparr> p_local := [], p_global := [], p_server := [], p_specific := [], p_globalCnt := [], p_serverCnt := [], p_specificCnt := [] \<rparr>,
         case attached p of
           None \<Rightarrow> b
         | Some l \<Rightarrow>
             fold (\<lambda>k. UnSubscribeSpecific (fst k) (snd k) l) (positive (p_specificCnt p))
               (fold (\<lambda>k. UnSubscribeServer k l) (positive (p_serverCnt p)) (fold (\<lambda>k. UnSubscribeGlobal k l) (positive (p_globalCnt p)) b))))"

subsection \<open>Running callbacks\<close>

text \<open>
  The result of a callback: returned, with or without an error, or a panic, which \<open>safeExec\<close> recovers. Every result leads to the next callback; the list is
  what was run.
\<close>

datatype cb_result = R_ok | R_err string | R_panic string

definition cb_list :: "(nat, (string, nat) gomap) gomap \<Rightarrow> nat list" where
  "cb_list byHandler = concat (map (\<lambda>x. map snd (snd x)) byHandler)"

definition snapshotLocal :: "int \<Rightarrow> processor \<Rightarrow> nat list" where
  "snapshotLocal et p = cb_list (gm_inner (p_local p) et)"

definition snapshotCluster :: "int \<Rightarrow> string \<Rightarrow> processor \<Rightarrow> nat list" where
  "snapshotCluster et uid p =
     cb_list (gm_inner (p_global p) et) @ cb_list (gm_inner (p_server p) et) @ (if uid \<noteq> [] then cb_list (gm_inner (p_specific p) (et, uid)) else [])"

text \<open>\<open>safeExec\<close>: the error it returns; a recovered panic leaves none.\<close>

definition cb_safeExec :: "(nat \<Rightarrow> 'd \<Rightarrow> cb_result) \<Rightarrow> nat \<Rightarrow> 'd \<Rightarrow> string option" where
  "cb_safeExec run cb data = (case run cb data of R_ok \<Rightarrow> None | R_err e \<Rightarrow> Some e | R_panic m \<Rightarrow> None)"

definition run_all :: "(nat \<Rightarrow> 'd \<Rightarrow> cb_result) \<Rightarrow> 'd \<Rightarrow> nat list \<Rightarrow> (nat \<times> string option) list" where
  "run_all run data cbs = map (\<lambda>cb. (cb, cb_safeExec run cb data)) cbs"

definition Trigger :: "(nat \<Rightarrow> 'd \<Rightarrow> cb_result) \<Rightarrow> int \<Rightarrow> 'd \<Rightarrow> processor \<Rightarrow> (nat \<times> string option) list" where
  "Trigger run et data p = run_all run data (snapshotLocal et p)"

text \<open>\<open>DecodeFromAny\<close> is \<open>decode\<close>; without callbacks the payload is not decoded.\<close>

definition EventHandler :: "(string \<Rightarrow> string + 'd) \<Rightarrow> (nat \<Rightarrow> 'd \<Rightarrow> cb_result) \<Rightarrow> actor_event \<Rightarrow> processor \<Rightarrow> (nat \<times> string option) list" where
  "EventHandler decode run ev p =
     (let cbs = snapshotCluster (ev_Type ev) (ev_ServiceUid ev) p
      in if cbs = [] then [] else case decode (ev_Payload ev) of Inl e \<Rightarrow> [] | Inr data \<Rightarrow> run_all run data cbs)"

text \<open>\<open>Service.handleEventJob\<close>: the handler of the jobs the bus posts.\<close>

definition handleEventJob :: "(string \<Rightarrow> string + 'd) \<Rightarrow> (nat \<Rightarrow> 'd \<Rightarrow> cb_result) \<Rightarrow> bus_job \<Rightarrow> processor \<Rightarrow> string option \<times> (nat \<times> string option) list" where
  "handleEventJob decode run j p =
     (case decode (ev_Payload (bj_payload j)) of
        Inl e \<Rightarrow> (Some e, [])
      | Inr data \<Rightarrow> (None, Trigger run (ev_Type (bj_payload j)) data p))"

definition Processor_PublishGlobal :: "event_lib \<Rightarrow> int \<Rightarrow> ember_ctx \<Rightarrow> int \<Rightarrow> string \<Rightarrow> processor \<times> event_bus \<Rightarrow> string option \<times> event_bus" where
  "Processor_PublishGlobal lib now ctx et data pb =
     (case pb of (p, b) \<Rightarrow> if \<not> p_bus p then (Some ''event bus is nil'', b) else PublishGlobal lib now ctx et data b)"

definition Processor_PublishServer :: "event_lib \<Rightarrow> ember_ctx \<Rightarrow> int \<Rightarrow> string \<Rightarrow> processor \<times> event_bus \<Rightarrow> string option \<times> event_bus" where
  "Processor_PublishServer lib ctx et data pb =
     (case pb of (p, b) \<Rightarrow>
        if \<not> p_bus p then (Some ''event bus is nil'', b)
        else case p_listener p of None \<Rightarrow> PublishServer lib ctx et 0 data b | Some l \<Rightarrow> PublishServer lib ctx et (l_partition l) data b)"

definition Processor_PublishSpecific :: "event_lib \<Rightarrow> ember_ctx \<Rightarrow> int \<Rightarrow> string \<Rightarrow> string \<Rightarrow> processor \<times> event_bus \<Rightarrow> string option \<times> event_bus" where
  "Processor_PublishSpecific lib ctx et uid data pb =
     (case pb of (p, b) \<Rightarrow> if \<not> p_bus p then (Some ''event bus is nil'', b) else PublishSpecific lib ctx et uid data b)"

subsection \<open>The handler of a module\<close>

datatype reg_info = Reg_Local int string | Reg_Global int string | Reg_Server int string | Reg_Specific int string string

record event_handler =
  h_id :: nat
  h_trigger :: bool
  h_regs :: "reg_info list"

definition Handler_Init :: "nat \<Rightarrow> event_handler" where
  "Handler_Init hid = \<lparr> h_id = hid, h_trigger = True, h_regs = [] \<rparr>"

definition bind_reg :: "event_lib \<Rightarrow> nat \<Rightarrow> reg_info \<Rightarrow> nat \<Rightarrow> processor \<times> event_bus \<Rightarrow> processor \<times> event_bus" where
  "bind_reg lib h r cb pb =
     (case r of
        Reg_Local et name \<Rightarrow> (BindHandler et name h cb (fst pb), snd pb)
      | Reg_Global et name \<Rightarrow> BindGlobalHandler lib et name h cb pb
      | Reg_Server et name \<Rightarrow> BindServerHandler lib et name h cb pb
      | Reg_Specific et uid name \<Rightarrow> BindSpecificHandler lib et uid name h cb pb)"

definition unbind_reg :: "nat \<Rightarrow> reg_info \<Rightarrow> processor \<times> event_bus \<Rightarrow> processor \<times> event_bus" where
  "unbind_reg h r pb =
     (case r of
        Reg_Local et name \<Rightarrow> (UnbindHandler et name h (fst pb), snd pb)
      | Reg_Global et name \<Rightarrow> UnbindGlobalHandler et name h pb
      | Reg_Server et name \<Rightarrow> UnbindServerHandler et name h pb
      | Reg_Specific et uid name \<Rightarrow> UnbindSpecificHandler et uid name h pb)"

text \<open>The four \<open>Register\<close> and the four \<open>Unregister\<close> operations differ in the registration they record.\<close>

definition Handler_Register :: "event_lib \<Rightarrow> reg_info \<Rightarrow> nat \<Rightarrow> event_handler \<times> processor \<times> event_bus \<Rightarrow> string + event_handler \<times> processor \<times> event_bus" where
  "Handler_Register lib r cb s =
     (case s of (h, pb) \<Rightarrow>
        if \<not> h_trigger h then Inl ''trigger is nil''
        else Inr (h \<lparr> h_regs := h_regs h @ [r] \<rparr>, bind_reg lib (h_id h) r cb pb))"

definition Handler_Unregister :: "reg_info \<Rightarrow> event_handler \<times> processor \<times> event_bus \<Rightarrow> event_handler \<times> processor \<times> event_bus" where
  "Handler_Unregister r s =
     (case s of (h, pb) \<Rightarrow> if \<not> h_trigger h then s else (h \<lparr> h_regs := remove1 r (h_regs h) \<rparr>, unbind_reg (h_id h) r pb))"

definition UnregisterAll :: "event_handler \<times> processor \<times> event_bus \<Rightarrow> event_handler \<times> processor \<times> event_bus" where
  "UnregisterAll s =
     (case s of (h, pb) \<Rightarrow> if \<not> h_trigger h then s else (h \<lparr> h_regs := [] \<rparr>, fold (unbind_reg (h_id h)) (h_regs h) pb))"

definition Handler_Destroy :: "event_handler \<times> processor \<times> event_bus \<Rightarrow> event_handler \<times> processor \<times> event_bus" where
  "Handler_Destroy s = (case UnregisterAll s of (h, pb) \<Rightarrow> (h \<lparr> h_trigger := False \<rparr>, pb))"

subsection \<open>A node\<close>

text \<open>The services of a node share its bus. A step registers or removes a callback of a service, or clears all callbacks of a service.\<close>

record event_node =
  n_bus :: event_bus
  n_procs :: "(string, processor) gomap"

datatype node_op = N_Start listener | N_Bind string nat reg_info nat | N_Unbind string nat reg_info | N_Clear string

definition on_proc :: "string \<Rightarrow> (processor \<times> event_bus \<Rightarrow> processor \<times> event_bus) \<Rightarrow> event_node \<Rightarrow> event_node" where
  "on_proc uid f n =
     (case gm_get (n_procs n) uid of
        None \<Rightarrow> n
      | Some p \<Rightarrow> case f (p, n_bus n) of (p1, b1) \<Rightarrow> n \<lparr> n_bus := b1, n_procs := gm_set (n_procs n) uid p1 \<rparr>)"

fun node_step :: "event_lib \<Rightarrow> node_op \<Rightarrow> event_node \<Rightarrow> event_node" where
  "node_step lib (N_Start l) n =
     (if gm_get (n_procs n) (l_uid l) = None
      then n \<lparr> n_procs := gm_set (n_procs n) (l_uid l) (SetEventBus (Processor_Init (Some l))) \<rparr> else n)"
| "node_step lib (N_Bind uid h r cb) n = on_proc uid (bind_reg lib h r cb) n"
| "node_step lib (N_Unbind uid h r) n = on_proc uid (unbind_reg h r) n"
| "node_step lib (N_Clear uid) n = on_proc uid Processor_Clear n"

definition new_node :: "event_bus \<Rightarrow> event_node" where
  "new_node b = \<lparr> n_bus = b, n_procs = [] \<rparr>"

definition fresh_bus :: "event_bus \<Rightarrow> bool" where
  "fresh_bus b \<longleftrightarrow> b_global b = [] \<and> b_server b = [] \<and> b_specific b = []"

section \<open>The contract between processors and the bus\<close>

text \<open>What a callback table and its counts promise: the counts are the numbers of callbacks, and the service is subscribed to a key iff it has a callback for it.\<close>

definition counted :: "'k callbacks \<Rightarrow> ('k, int) gomap \<Rightarrow> ('k \<Rightarrow> bool) \<Rightarrow> bool" where
  [inv_defs]: "counted tab cnt S \<longleftrightarrow>
     wf3 tab \<and> gm_wf cnt \<and> (\<forall>k. gm_get cnt k = (if bound tab k = 0 then None else Some (int (bound tab k)))) \<and> (\<forall>k. S k \<longleftrightarrow> 0 < bound tab k)"

locale scope_subscription =
  fixes sub unsub :: "'k \<Rightarrow> listener \<Rightarrow> event_bus \<Rightarrow> event_bus"
    and subscribed :: "event_bus \<Rightarrow> 'k \<Rightarrow> listener \<Rightarrow> bool"
  assumes sub_self: "subscribed (sub k l b) k l"
    and sub_other: "k' \<noteq> k \<or> l_uid l' \<noteq> l_uid l \<Longrightarrow> subscribed (sub k l b) k' l' = subscribed b k' l'"
    and unsub_self: "\<not> subscribed (unsub k l b) k l"
    and unsub_other: "k' \<noteq> k \<or> l_uid l' \<noteq> l_uid l \<Longrightarrow> subscribed (unsub k l b) k' l' = subscribed b k' l'"
begin

lemma bind_counts:
  assumes "counted tab cnt (\<lambda>k. subscribed b k l)" "bind_counted True k name h cb tab cnt = (tab1, cnt1, s)"
  shows "counted tab1 cnt1 (\<lambda>k'. subscribed (if s then sub k l b else b) k' l)"
proof -
  have inv: "wf3 tab" "gm_wf cnt" "\<And>k. gm_get cnt k = (if bound tab k = 0 then None else Some (int (bound tab k)))"
    "\<And>k. subscribed b k l \<longleftrightarrow> 0 < bound tab k" using assms(1) by (simp_all add: counted_def)
  show ?thesis
  proof (cases "gm_get3 tab k h name = None")
    case True
    then have res: "tab1 = gm_set3 tab k h name cb" "cnt1 = gm_set cnt k (int (bound tab k) + 1)" "s \<longleftrightarrow> bound tab k = 0"
      using assms(2) inv(3) [of k] by (auto simp: bind_counted_def Let_def split: if_splits)
    have subs: "subscribed (if s then sub k l b else b) k' l \<longleftrightarrow> k' = k \<or> 0 < bound tab k'" for k'
      using inv(4) [of k'] sub_self [of k l b] sub_other [of k' k l l b] res(3) by (cases "k' = k") auto
    show ?thesis unfolding counted_def subs using True inv by (simp add: res bound_set3 gm_get_set)
  next
    case False
    then have "tab1 = gm_set3 tab k h name cb" "cnt1 = cnt" "\<not> s" using assms(2) by (auto simp: bind_counted_def Let_def)
    then show ?thesis using False inv by (auto simp: counted_def bound_set3)
  qed
qed

lemma unbind_counts:
  assumes "counted tab cnt (\<lambda>k. subscribed b k l)" "unbind_counted True k name h tab cnt = (tab1, cnt1, s)"
  shows "counted tab1 cnt1 (\<lambda>k'. subscribed (if s then unsub k l b else b) k' l)"
proof (cases "gm_get3 tab k h name = None")
  case True
  then show ?thesis using assms by (simp add: unbind_counted_def)
next
  case False
  have inv: "wf3 tab" "gm_wf cnt" "\<And>k. gm_get cnt k = (if bound tab k = 0 then None else Some (int (bound tab k)))"
    "\<And>k. subscribed b k l \<longleftrightarrow> 0 < bound tab k" using assms(1) by (simp_all add: counted_def)
  have dec: "bound (gm_del3 tab k h name) k' + (if k' = k then 1 else 0) = bound tab k'" for k' by (rule bound_del3 [OF inv(1) False])
  have pos: "0 < bound tab k" using False inv(1) by (auto simp: bound_pos)
  have res: "tab1 = gm_del3 tab k h name" "cnt1 = (if bound tab k = 1 then gm_del cnt k else gm_set cnt k (int (bound tab k) - 1))" "s \<longleftrightarrow> bound tab k = 1"
    using assms(2) inv(3) [of k] pos False by (auto simp: unbind_counted_def Let_def split: if_splits)
  have "bound tab1 k' = (if k' = k then bound tab k - 1 else bound tab k')" for k' using dec [of k'] by (auto simp: res)
  moreover have "subscribed (if s then unsub k l b else b) k' l \<longleftrightarrow> (if k' = k then 1 < bound tab k else 0 < bound tab k')" for k'
    using inv(4) [of k'] unsub_self [of k l b] unsub_other [of k' k l l b] res(3) pos by (cases "k' = k") auto
  ultimately show ?thesis using inv pos by (auto simp: counted_def res gm_get_set gm_get_del)
qed

lemma sub_if_other: "l_uid l' \<noteq> l_uid l \<Longrightarrow> subscribed (if s then sub k l b else b) k' l' = subscribed b k' l'"
  by (simp add: sub_other)

lemma unsub_if_other: "l_uid l' \<noteq> l_uid l \<Longrightarrow> subscribed (if s then unsub k l b else b) k' l' = subscribed b k' l'"
  by (simp add: unsub_other)

lemma unsub_all: "subscribed (fold (\<lambda>k. unsub k l) ks b) k' l \<longleftrightarrow> k' \<notin> set ks \<and> subscribed b k' l"
proof (induction ks arbitrary: b)
  case (Cons k ks)
  then show ?case using unsub_self [of k l b] unsub_other [of k' k l l b] by (cases "k' = k") auto
qed simp

lemma unsub_all_other: "l_uid l' \<noteq> l_uid l \<Longrightarrow> subscribed (fold (\<lambda>k. unsub k l) ks b) k' l' = subscribed b k' l'"
  by (induction ks arbitrary: b) (simp_all add: unsub_other)

lemma clear_counts:
  assumes "counted tab cnt (\<lambda>k. subscribed b k l)"
  shows "counted [] [] (\<lambda>k'. subscribed (fold (\<lambda>k. unsub k l) (positive cnt) b) k' l)"
proof -
  have "subscribed b k l \<Longrightarrow> k \<in> set (positive cnt)" for k
  proof -
    assume "subscribed b k l"
    then have "gm_get cnt k = Some (int (bound tab k))" "0 < bound tab k" using assms by (auto simp: counted_def)
    then show "k \<in> set (positive cnt)" using gm_get_mem [of cnt k] by (force simp: positive_def)
  qed
  then show ?thesis unfolding counted_def unsub_all by (auto simp: bound_def gm_inner_def entries2_def)
qed

end

definition subscribedGlobal :: "event_bus \<Rightarrow> int \<Rightarrow> listener \<Rightarrow> bool" where
  "subscribedGlobal b et l \<longleftrightarrow> gm_get2 (b_global b) et (l_uid l) \<noteq> None"

definition subscribedServer :: "event_bus \<Rightarrow> int \<Rightarrow> listener \<Rightarrow> bool" where
  "subscribedServer b et l \<longleftrightarrow> gm_get3 (b_server b) et (l_partition l) (l_uid l) \<noteq> None"

definition subscribedSpecific :: "event_bus \<Rightarrow> int \<times> string \<Rightarrow> listener \<Rightarrow> bool" where
  "subscribedSpecific b k l \<longleftrightarrow> gm_get3 (b_specific b) (fst k) (snd k) (l_uid l) \<noteq> None"

lemma listen_tables [simp]:
  "b_global (nats_listen lib key b) = b_global b" "b_server (nats_listen lib key b) = b_server b" "b_specific (nats_listen lib key b) = b_specific b"
  "b_global (unSubscribe key b) = b_global b" "b_server (unSubscribe key b) = b_server b" "b_specific (unSubscribe key b) = b_specific b"
  by (simp_all add: nats_listen_def unSubscribe_def split: option.split)

lemma subscribe_tables [simp]:
  "b_global (SubscribeGlobal lib et l b) = gm_set2 (b_global b) et (l_uid l) l"
  "b_server (SubscribeGlobal lib et l b) = b_server b" "b_specific (SubscribeGlobal lib et l b) = b_specific b"
  "b_global (UnSubscribeGlobal et l b) = gm_del2 (b_global b) et (l_uid l)"
  "b_server (UnSubscribeGlobal et l b) = b_server b" "b_specific (UnSubscribeGlobal et l b) = b_specific b"
  "b_server (SubscribeServer lib et l b) = gm_set3 (b_server b) et (l_partition l) (l_uid l) l"
  "b_global (SubscribeServer lib et l b) = b_global b" "b_specific (SubscribeServer lib et l b) = b_specific b"
  "b_server (UnSubscribeServer et l b) = gm_del3 (b_server b) et (l_partition l) (l_uid l)"
  "b_global (UnSubscribeServer et l b) = b_global b" "b_specific (UnSubscribeServer et l b) = b_specific b"
  "b_specific (SubscribeSpecific lib et uid l b) = gm_set3 (b_specific b) et uid (l_uid l) l"
  "b_global (SubscribeSpecific lib et uid l b) = b_global b" "b_server (SubscribeSpecific lib et uid l b) = b_server b"
  "b_specific (UnSubscribeSpecific et uid l b) = gm_del3 (b_specific b) et uid (l_uid l)"
  "b_global (UnSubscribeSpecific et uid l b) = b_global b" "b_server (UnSubscribeSpecific et uid l b) = b_server b"
  by (simp_all add: SubscribeGlobal_def UnSubscribeGlobal_def SubscribeServer_def UnSubscribeServer_def SubscribeSpecific_def UnSubscribeSpecific_def Let_def)

interpretation glob: scope_subscription "SubscribeGlobal lib" UnSubscribeGlobal subscribedGlobal for lib
  by unfold_locales (auto simp: subscribedGlobal_def nested_get)

interpretation serv: scope_subscription "SubscribeServer lib" UnSubscribeServer subscribedServer for lib
  by unfold_locales (auto simp: subscribedServer_def nested_get)

interpretation spec: scope_subscription "\<lambda>k. SubscribeSpecific lib (fst k) (snd k)" "\<lambda>k. UnSubscribeSpecific (fst k) (snd k)" subscribedSpecific for lib
  by unfold_locales (auto simp: subscribedSpecific_def nested_get prod_eq_iff)

section \<open>The subscriptions of a node\<close>

lemma subscribed_cong:
  "b_global b = b_global b' \<Longrightarrow> subscribedGlobal b = subscribedGlobal b'" "b_server b = b_server b' \<Longrightarrow> subscribedServer b = subscribedServer b'"
  "b_specific b = b_specific b' \<Longrightarrow> subscribedSpecific b = subscribedSpecific b'"
  by (auto simp: subscribedGlobal_def subscribedServer_def subscribedSpecific_def fun_eq_iff)

lemma attached_update [simp]:
  "attached (p \<lparr> p_local := lt \<rparr>) = attached p" "attached (p \<lparr> p_global := gt, p_globalCnt := c \<rparr>) = attached p"
  "attached (p \<lparr> p_server := st, p_serverCnt := c \<rparr>) = attached p" "attached (p \<lparr> p_specific := pt, p_specificCnt := pc \<rparr>) = attached p"
  by (simp_all add: attached_def)

definition proc_inv :: "event_bus \<Rightarrow> processor \<Rightarrow> listener \<Rightarrow> bool" where
  [inv_defs]: "proc_inv b p l \<longleftrightarrow>
     attached p = Some l \<and>
     counted (p_global p) (p_globalCnt p) (\<lambda>k. subscribedGlobal b k l) \<and>
     counted (p_server p) (p_serverCnt p) (\<lambda>k. subscribedServer b k l) \<and>
     counted (p_specific p) (p_specificCnt p) (\<lambda>k. subscribedSpecific b k l)"

text \<open>How an operation of the service behind \<open>l\<close> may change the tables of the bus.\<close>

definition table_frame :: "listener \<Rightarrow> ('a \<Rightarrow> bool) \<Rightarrow> ('a \<Rightarrow> string \<Rightarrow> listener option) \<Rightarrow> ('a \<Rightarrow> string \<Rightarrow> listener option) \<Rightarrow> bool" where
  "table_frame l ok f g \<longleftrightarrow> (\<forall>a u. g a u = f a u \<or> u = l_uid l \<and> (g a u = None \<or> g a u = Some l \<and> ok a))"

lemma table_frame_refl [simp]: "table_frame l ok f f"
  by (simp add: table_frame_def)

lemma table_frame_trans: "table_frame l ok f g \<Longrightarrow> table_frame l ok g h \<Longrightarrow> table_frame l ok f h"
  unfolding table_frame_def by metis

lemma table_frame_other: "table_frame l ok f g \<Longrightarrow> u \<noteq> l_uid l \<Longrightarrow> g a u = f a u"
  unfolding table_frame_def by blast

abbreviation server_table :: "event_bus \<Rightarrow> int \<times> int \<Rightarrow> string \<Rightarrow> listener option" where
  "server_table b \<equiv> \<lambda>k. gm_get3 (b_server b) (fst k) (snd k)"

abbreviation specific_table :: "event_bus \<Rightarrow> int \<times> string \<Rightarrow> string \<Rightarrow> listener option" where
  "specific_table b \<equiv> \<lambda>k. gm_get3 (b_specific b) (fst k) (snd k)"

definition bus_wf :: "event_bus \<Rightarrow> bool" where
  [inv_defs]: "bus_wf b \<longleftrightarrow> wf2 (b_global b) \<and> wf3 (b_server b) \<and> wf3 (b_specific b)"

definition bus_frame :: "listener \<Rightarrow> event_bus \<Rightarrow> event_bus \<Rightarrow> bool" where
  "bus_frame l b b1 \<longleftrightarrow>
     (bus_wf b \<longrightarrow> bus_wf b1) \<and> table_frame l (\<lambda>k. True) (gm_get2 (b_global b)) (gm_get2 (b_global b1)) \<and>
     table_frame l (\<lambda>k. snd k = l_partition l) (server_table b) (server_table b1) \<and> table_frame l (\<lambda>k. True) (specific_table b) (specific_table b1)"

lemma bus_frame_refl [simp]: "bus_frame l b b"
  by (simp add: bus_frame_def)

lemma bus_frame_trans: "bus_frame l b b1 \<Longrightarrow> bus_frame l b1 b2 \<Longrightarrow> bus_frame l b b2"
  unfolding bus_frame_def by (intro conjI) (blast intro: table_frame_trans)+

lemma bus_frame_step [simp]:
  "bus_frame l b (SubscribeGlobal lib et l b)" "bus_frame l b (UnSubscribeGlobal et l b)" "bus_frame l b (SubscribeServer lib et l b)"
  "bus_frame l b (UnSubscribeServer et l b)" "bus_frame l b (SubscribeSpecific lib et uid l b)" "bus_frame l b (UnSubscribeSpecific et uid l b)"
  by (simp_all add: bus_frame_def table_frame_def bus_wf_def nested_get)

lemma bus_frame_fold: "(\<And>k b. bus_frame l b (f k b)) \<Longrightarrow> bus_frame l b (fold f ks b)"
  by (induction ks arbitrary: b) (auto intro: bus_frame_trans)

lemma bus_frame_other:
  assumes "bus_frame l b b1" "l_uid l' \<noteq> l_uid l"
  shows "subscribedGlobal b1 k l' = subscribedGlobal b k l'" "subscribedServer b1 k l' = subscribedServer b k l'"
    "subscribedSpecific b1 k2 l' = subscribedSpecific b k2 l'"
proof -
  have "gm_get2 (b_global b1) k (l_uid l') = gm_get2 (b_global b) k (l_uid l')"
    "server_table b1 (k, l_partition l') (l_uid l') = server_table b (k, l_partition l') (l_uid l')"
    "specific_table b1 k2 (l_uid l') = specific_table b k2 (l_uid l')"
    using assms unfolding bus_frame_def by (blast dest: table_frame_other)+
  then show "subscribedGlobal b1 k l' = subscribedGlobal b k l'" "subscribedServer b1 k l' = subscribedServer b k l'"
    "subscribedSpecific b1 k2 l' = subscribedSpecific b k2 l'"
    by (simp_all add: subscribedGlobal_def subscribedServer_def subscribedSpecific_def)
qed

lemma proc_inv_other: "bus_frame l b b1 \<Longrightarrow> l_uid l' \<noteq> l_uid l \<Longrightarrow> proc_inv b p l' \<Longrightarrow> proc_inv b1 p l'"
  by (simp add: proc_inv_def bus_frame_other)

lemma bind_reg_ok:
  assumes "proc_inv b p l" "bind_reg lib h r cb (p, b) = (p1, b1)"
  shows "proc_inv b1 p1 l \<and> bus_frame l b b1"
proof -
  have att: "attached p = Some l" and G: "counted (p_global p) (p_globalCnt p) (\<lambda>k. subscribedGlobal b k l)"
    and S: "counted (p_server p) (p_serverCnt p) (\<lambda>k. subscribedServer b k l)"
    and P: "counted (p_specific p) (p_specificCnt p) (\<lambda>k. subscribedSpecific b k l)" using assms(1) by (simp_all add: proc_inv_def)
  show ?thesis
  proof (cases r)
    case (Reg_Local et name)
    then show ?thesis using assms by (auto simp: bind_reg_def BindHandler_def proc_inv_def)
  next
    case (Reg_Global et name)
    obtain tab cnt s where c: "bind_counted True et name h cb (p_global p) (p_globalCnt p) = (tab, cnt, s)" by (metis prod_cases3)
    have b1: "b1 = (if s then SubscribeGlobal lib et l b else b)" "p1 = p \<lparr> p_global := tab, p_globalCnt := cnt \<rparr>"
      using assms(2) Reg_Global c att by (auto simp: bind_reg_def BindGlobalHandler_def)
    have "subscribedServer b1 = subscribedServer b" "subscribedSpecific b1 = subscribedSpecific b" using b1(1) by (auto intro: subscribed_cong)
    then show ?thesis using glob.bind_counts [OF G c, of lib] S P att b1 by (simp add: proc_inv_def)
  next
    case (Reg_Server et name)
    obtain tab cnt s where c: "bind_counted True et name h cb (p_server p) (p_serverCnt p) = (tab, cnt, s)" by (metis prod_cases3)
    have b1: "b1 = (if s then SubscribeServer lib et l b else b)" "p1 = p \<lparr> p_server := tab, p_serverCnt := cnt \<rparr>"
      using assms(2) Reg_Server c att by (auto simp: bind_reg_def BindServerHandler_def)
    have "subscribedGlobal b1 = subscribedGlobal b" "subscribedSpecific b1 = subscribedSpecific b" using b1(1) by (auto intro: subscribed_cong)
    then show ?thesis using serv.bind_counts [OF S c, of lib] G P att b1 by (simp add: proc_inv_def)
  next
    case (Reg_Specific et uid name)
    obtain tab cnt s where c: "bind_counted True (et, uid) name h cb (p_specific p) (p_specificCnt p) = (tab, cnt, s)" by (metis prod_cases3)
    have b1: "b1 = (if s then SubscribeSpecific lib et uid l b else b)" "p1 = p \<lparr> p_specific := tab, p_specificCnt := cnt \<rparr>"
      using assms(2) Reg_Specific c att by (auto simp: bind_reg_def BindSpecificHandler_def)
    have "subscribedGlobal b1 = subscribedGlobal b" "subscribedServer b1 = subscribedServer b" using b1(1) by (auto intro: subscribed_cong)
    then show ?thesis using spec.bind_counts [OF P c, of lib, unfolded fst_conv snd_conv] G S att b1 by (simp add: proc_inv_def)
  qed
qed

lemma unbind_reg_ok:
  assumes "proc_inv b p l" "unbind_reg h r (p, b) = (p1, b1)"
  shows "proc_inv b1 p1 l \<and> bus_frame l b b1"
proof -
  have att: "attached p = Some l" and G: "counted (p_global p) (p_globalCnt p) (\<lambda>k. subscribedGlobal b k l)"
    and S: "counted (p_server p) (p_serverCnt p) (\<lambda>k. subscribedServer b k l)"
    and P: "counted (p_specific p) (p_specificCnt p) (\<lambda>k. subscribedSpecific b k l)" using assms(1) by (simp_all add: proc_inv_def)
  show ?thesis
  proof (cases r)
    case (Reg_Local et name)
    then show ?thesis using assms by (auto simp: unbind_reg_def UnbindHandler_def proc_inv_def)
  next
    case (Reg_Global et name)
    obtain tab cnt s where c: "unbind_counted True et name h (p_global p) (p_globalCnt p) = (tab, cnt, s)" by (metis prod_cases3)
    have b1: "b1 = (if s then UnSubscribeGlobal et l b else b)" "p1 = p \<lparr> p_global := tab, p_globalCnt := cnt \<rparr>"
      using assms(2) Reg_Global c att by (auto simp: unbind_reg_def UnbindGlobalHandler_def)
    have "subscribedServer b1 = subscribedServer b" "subscribedSpecific b1 = subscribedSpecific b" using b1(1) by (auto intro: subscribed_cong)
    then show ?thesis using glob.unbind_counts [OF G c] S P att b1 by (simp add: proc_inv_def)
  next
    case (Reg_Server et name)
    obtain tab cnt s where c: "unbind_counted True et name h (p_server p) (p_serverCnt p) = (tab, cnt, s)" by (metis prod_cases3)
    have b1: "b1 = (if s then UnSubscribeServer et l b else b)" "p1 = p \<lparr> p_server := tab, p_serverCnt := cnt \<rparr>"
      using assms(2) Reg_Server c att by (auto simp: unbind_reg_def UnbindServerHandler_def)
    have "subscribedGlobal b1 = subscribedGlobal b" "subscribedSpecific b1 = subscribedSpecific b" using b1(1) by (auto intro: subscribed_cong)
    then show ?thesis using serv.unbind_counts [OF S c] G P att b1 by (simp add: proc_inv_def)
  next
    case (Reg_Specific et uid name)
    obtain tab cnt s where c: "unbind_counted True (et, uid) name h (p_specific p) (p_specificCnt p) = (tab, cnt, s)" by (metis prod_cases3)
    have b1: "b1 = (if s then UnSubscribeSpecific et uid l b else b)" "p1 = p \<lparr> p_specific := tab, p_specificCnt := cnt \<rparr>"
      using assms(2) Reg_Specific c att by (auto simp: unbind_reg_def UnbindSpecificHandler_def)
    have "subscribedGlobal b1 = subscribedGlobal b" "subscribedServer b1 = subscribedServer b" using b1(1) by (auto intro: subscribed_cong)
    then show ?thesis using spec.unbind_counts [OF P c, unfolded fst_conv snd_conv] G S att b1 by (simp add: proc_inv_def)
  qed
qed

lemma Clear_ok:
  assumes "proc_inv b p l" "Processor_Clear (p, b) = (p1, b1)"
  shows "proc_inv b1 p1 l \<and> bus_frame l b b1"
proof -
  have att: "attached p = Some l" and G: "counted (p_global p) (p_globalCnt p) (\<lambda>k. subscribedGlobal b k l)"
    and S: "counted (p_server p) (p_serverCnt p) (\<lambda>k. subscribedServer b k l)"
    and P: "counted (p_specific p) (p_specificCnt p) (\<lambda>k. subscribedSpecific b k l)" using assms(1) by (simp_all add: proc_inv_def)
  define bg where "bg = fold (\<lambda>k. UnSubscribeGlobal k l) (positive (p_globalCnt p)) b"
  define bs where "bs = fold (\<lambda>k. UnSubscribeServer k l) (positive (p_serverCnt p)) bg"
  have b1: "b1 = fold (\<lambda>k. UnSubscribeSpecific (fst k) (snd k) l) (positive (p_specificCnt p)) bs"
    and p1: "p1 = p \<lparr> p_local := [], p_global := [], p_server := [], p_specific := [], p_globalCnt := [], p_serverCnt := [], p_specificCnt := [] \<rparr>"
    using assms(2) att by (simp_all add: Processor_Clear_def bg_def bs_def)
  have g: "b_server (fold (\<lambda>k. UnSubscribeGlobal k l) ks b) = b_server b" "b_specific (fold (\<lambda>k. UnSubscribeGlobal k l) ks b) = b_specific b" for ks b
    by (induction ks arbitrary: b) simp_all
  have s: "b_global (fold (\<lambda>k. UnSubscribeServer k l) ks b) = b_global b" "b_specific (fold (\<lambda>k. UnSubscribeServer k l) ks b) = b_specific b" for ks b
    by (induction ks arbitrary: b) simp_all
  have p: "b_global (fold (\<lambda>k. UnSubscribeSpecific (fst k) (snd k) l) ks b) = b_global b"
    "b_server (fold (\<lambda>k. UnSubscribeSpecific (fst k) (snd k) l) ks b) = b_server b" for ks b
    by (induction ks arbitrary: b) simp_all
  have "subscribedGlobal b1 = subscribedGlobal bg" "subscribedServer b1 = subscribedServer bs" "subscribedServer bg = subscribedServer b"
    "subscribedSpecific bs = subscribedSpecific b"
    by (rule subscribed_cong, simp add: b1 bs_def bg_def g s p)+
  then have "counted [] [] (\<lambda>k. subscribedGlobal b1 k l)" "counted [] [] (\<lambda>k. subscribedServer b1 k l)" "counted [] [] (\<lambda>k. subscribedSpecific b1 k l)"
    using glob.clear_counts [OF G] serv.clear_counts [of "p_server p" "p_serverCnt p" bg l] S spec.clear_counts [of "p_specific p" "p_specificCnt p" bs l] P
    by (simp_all add: bg_def [symmetric] bs_def [symmetric] b1 [symmetric])
  moreover have "attached p1 = attached p" by (simp add: p1 attached_def)
  moreover have "bus_frame l b bg" "bus_frame l bg bs" "bus_frame l bs b1" unfolding bg_def bs_def b1 by (rule bus_frame_fold; simp)+
  ultimately show ?thesis using att by (auto simp: proc_inv_def p1 intro: bus_frame_trans)
qed

definition known :: "event_node \<Rightarrow> string \<Rightarrow> listener \<Rightarrow> bool" where
  "known n u l \<longleftrightarrow> l_uid l = u \<and> (\<exists>p. gm_get (n_procs n) u = Some p \<and> attached p = Some l)"

definition owned :: "event_node \<Rightarrow> bool" where
  [inv_defs]: "owned n \<longleftrightarrow>
     (\<forall>k u l. gm_get2 (b_global (n_bus n)) k u = Some l \<longrightarrow> known n u l) \<and>
     (\<forall>k u l. server_table (n_bus n) k u = Some l \<longrightarrow> known n u l \<and> snd k = l_partition l) \<and>
     (\<forall>k u l. specific_table (n_bus n) k u = Some l \<longrightarrow> known n u l)"

definition node_inv :: "event_node \<Rightarrow> bool" where
  [inv_defs]: "node_inv n \<longleftrightarrow>
     bus_wf (n_bus n) \<and> (\<forall>u p. gm_get (n_procs n) u = Some p \<longrightarrow> (\<exists>l. l_uid l = u \<and> proc_inv (n_bus n) p l)) \<and> owned n"

lemma table_frame_owned:
  assumes "table_frame l ok f g" "\<And>k u l'. f k u = Some l' \<Longrightarrow> K u l' \<and> Q k l'" "K (l_uid l) l" "\<And>k. ok k \<Longrightarrow> Q k l" "g k u = Some l'"
  shows "K u l' \<and> Q k l'"
  using assms unfolding table_frame_def by (metis option.distinct(1) option.inject)

lemma owned_frame:
  assumes "bus_frame l (n_bus n) (n_bus n1)" "owned n" "known n1 (l_uid l) l" "\<And>u l'. known n u l' \<Longrightarrow> known n1 u l'"
  shows "owned n1"
proof -
  have T: "table_frame l (\<lambda>k. True) (gm_get2 (b_global (n_bus n))) (gm_get2 (b_global (n_bus n1)))"
    "table_frame l (\<lambda>k. snd k = l_partition l) (server_table (n_bus n)) (server_table (n_bus n1))"
    "table_frame l (\<lambda>k. True) (specific_table (n_bus n)) (specific_table (n_bus n1))" using assms(1) by (simp_all add: bus_frame_def)
  have old: "gm_get2 (b_global (n_bus n)) k u = Some l' \<Longrightarrow> known n1 u l' \<and> True"
    "server_table (n_bus n) sk u = Some l' \<Longrightarrow> known n1 u l' \<and> snd sk = l_partition l'"
    "specific_table (n_bus n) pk u = Some l' \<Longrightarrow> known n1 u l' \<and> True" for k sk pk u l' using assms(2,4) unfolding owned_def by blast+
  have "known n1 u l' \<and> True" if "gm_get2 (b_global (n_bus n1)) k u = Some l'" for k u l'
    by (rule table_frame_owned [where K = "known n1" and Q = "\<lambda>k l. True", OF T(1) _ assms(3) _ that]) (auto dest: old(1))
  moreover have "known n1 u l' \<and> snd k = l_partition l'" if "server_table (n_bus n1) k u = Some l'" for k u l'
    by (rule table_frame_owned [where K = "known n1" and Q = "\<lambda>k l. snd k = l_partition l", OF T(2) _ assms(3) _ that]) (auto dest: old(2))
  moreover have "known n1 u l' \<and> True" if "specific_table (n_bus n1) k u = Some l'" for k u l'
    by (rule table_frame_owned [where K = "known n1" and Q = "\<lambda>k l. True", OF T(3) _ assms(3) _ that]) (auto dest: old(3))
  ultimately show ?thesis unfolding owned_def by blast
qed

lemma on_proc_inv:
  assumes "node_inv n" "\<And>p b l p1 b1. proc_inv b p l \<Longrightarrow> f (p, b) = (p1, b1) \<Longrightarrow> proc_inv b1 p1 l \<and> bus_frame l b b1"
  shows "node_inv (on_proc uid f n)"
proof (cases "gm_get (n_procs n) uid")
  case None
  then show ?thesis using assms(1) by (simp add: on_proc_def)
next
  case (Some p)
  obtain p1 b1 where f: "f (p, n_bus n) = (p1, b1)" by fastforce
  define n1 where "n1 = on_proc uid f n"
  have n1: "n_bus n1 = b1" "n_procs n1 = gm_set (n_procs n) uid p1" using Some f by (simp_all add: n1_def on_proc_def)
  obtain l where l: "l_uid l = uid" "proc_inv (n_bus n) p l" using assms(1) Some by (auto simp: node_inv_def)
  have ok: "proc_inv b1 p1 l" "bus_frame l (n_bus n) b1" using assms(2) [OF l(2) f] by simp_all
  have "\<exists>l'. l_uid l' = u \<and> proc_inv (n_bus n1) q l'" if "gm_get (n_procs n1) u = Some q" for u q
  proof (cases "u = uid")
    case True
    then show ?thesis using that l(1) ok(1) by (auto simp: n1 gm_get_set)
  next
    case False
    then have "gm_get (n_procs n) u = Some q" using that by (simp add: n1 gm_get_set)
    then obtain l' where "l_uid l' = u" "proc_inv (n_bus n) q l'" using assms(1) unfolding node_inv_def by blast
    then show ?thesis using proc_inv_other [OF ok(2), of l' q] False l(1) by (auto simp: n1)
  qed
  moreover have "owned n1"
  proof (rule owned_frame)
    show "bus_frame l (n_bus n) (n_bus n1)" "owned n" using ok(2) assms(1) by (simp_all add: n1 node_inv_def)
    show "known n1 (l_uid l) l" using l(1) ok(1) by (simp add: known_def n1 gm_get_set proc_inv_def)
    show "known n1 u l'" if "known n u l'" for u l'
      using that Some l ok(1) by (cases "u = uid") (auto simp: known_def n1 gm_get_set proc_inv_def)
  qed
  moreover have "bus_wf (n_bus n1)" using ok(2) assms(1) by (simp add: n1 node_inv_def bus_frame_def)
  ultimately show ?thesis unfolding node_inv_def n1_def [symmetric] by blast
qed

lemma new_proc_inv:
  assumes "owned n" "gm_get (n_procs n) (l_uid l) = None"
  shows "proc_inv (n_bus n) (SetEventBus (Processor_Init (Some l))) l"
proof -
  have "\<not> known n (l_uid l) l'" for l' using assms(2) by (simp add: known_def)
  then have "gm_get2 (b_global (n_bus n)) k (l_uid l) = None" "server_table (n_bus n) sk (l_uid l) = None" "specific_table (n_bus n) pk (l_uid l) = None" for k sk pk
    using assms(1) unfolding owned_def by (metis option.exhaust)+
  then show ?thesis
    by (simp add: proc_inv_def SetEventBus_def Processor_Init_def attached_def counted_def bound_def gm_inner_def entries2_def subscribedGlobal_def
        subscribedServer_def subscribedSpecific_def split: prod.split) (metis fst_conv snd_conv)
qed

lemma node_step_inv:
  assumes inv: "node_inv n"
  shows "node_inv (node_step lib op n)"
proof (cases op)
  case (N_Start l)
  show ?thesis
  proof (cases "gm_get (n_procs n) (l_uid l)")
    case None
    let ?p = "SetEventBus (Processor_Init (Some l))"
    let ?n = "n \<lparr> n_procs := gm_set (n_procs n) (l_uid l) ?p \<rparr>"
    have mono: "known n u l' \<Longrightarrow> known ?n u l'" for u l' using None by (auto simp: known_def gm_get_set)
    have "owned ?n" using inv mono by (simp add: node_inv_def owned_def)
    then show ?thesis using N_Start None inv new_proc_inv [of n l] by (auto simp: node_inv_def gm_get_set)
  qed (use N_Start inv in simp)
next
  case (N_Bind uid h r cb)
  have "node_inv (on_proc uid (bind_reg lib h r cb) n)" using inv bind_reg_ok by (rule on_proc_inv)
  then show ?thesis using N_Bind by simp
next
  case (N_Unbind uid h r)
  have "node_inv (on_proc uid (unbind_reg h r) n)" using inv unbind_reg_ok by (rule on_proc_inv)
  then show ?thesis using N_Unbind by simp
next
  case (N_Clear uid)
  have "node_inv (on_proc uid Processor_Clear n)" using inv Clear_ok by (rule on_proc_inv)
  then show ?thesis using N_Clear by simp
qed

lemma node_run_inv: "node_inv n \<Longrightarrow> node_inv (fold (node_step lib) ops n)"
  by (induction ops arbitrary: n) (simp_all add: node_step_inv)

lemma new_node_inv: "fresh_bus b \<Longrightarrow> node_inv (new_node b)"
  by (simp add: node_inv_def new_node_def fresh_bus_def owned_def bus_wf_def)

section \<open>Who receives an event\<close>

text \<open>The three ways an event reaches the subscribers of the node, and which services have a callback for it.\<close>

definition publish_on :: "subscription \<Rightarrow> bus_event \<Rightarrow> event_bus \<Rightarrow> event_bus" where
  "publish_on sub = (case sub of On_Global \<Rightarrow> publishGlobal | On_Server \<Rightarrow> publishServer | On_Specific \<Rightarrow> publishSpecific)"

definition interested :: "subscription \<Rightarrow> actor_event \<Rightarrow> processor \<Rightarrow> bool" where
  "interested sub e p \<longleftrightarrow>
     (case sub of
        On_Global \<Rightarrow> \<exists>h name. gm_get3 (p_global p) (ev_Type e) h name \<noteq> None
      | On_Server \<Rightarrow> map_option l_partition (p_listener p) = Some (ev_Partition e) \<and> (\<exists>h name. gm_get3 (p_server p) (ev_Type e) h name \<noteq> None)
      | On_Specific \<Rightarrow> \<exists>h name. gm_get3 (p_specific p) (ev_Type e, ev_ServiceUid e) h name \<noteq> None)"

definition new_jobs :: "event_bus \<Rightarrow> event_bus \<Rightarrow> bus_job list" where
  "new_jobs b b1 = drop (length (b_posted b)) (b_posted b1)"

definition sub_table :: "subscription \<Rightarrow> actor_event \<Rightarrow> event_bus \<Rightarrow> (string, listener) gomap" where
  "sub_table sub e b =
     (case sub of
        On_Global \<Rightarrow> gm_inner (b_global b) (ev_Type e)
      | On_Server \<Rightarrow> gm_inner (gm_inner (b_server b) (ev_Type e)) (ev_Partition e)
      | On_Specific \<Rightarrow> gm_inner (gm_inner (b_specific b) (ev_Type e)) (ev_ServiceUid e))"

lemma new_jobs_publish: "new_jobs b (publish_on sub be b) = map (\<lambda>x. event_job be (snd x)) (sub_table sub (snd be) b)"
  by (cases sub) (simp_all add: new_jobs_def publish_on_def publish_defs post_all_def sub_table_def)

lemma sub_table_get:
  "gm_get (sub_table On_Global e b) u = gm_get2 (b_global b) (ev_Type e) u" "gm_get (sub_table On_Server e b) u = server_table b (ev_Type e, ev_Partition e) u"
  "gm_get (sub_table On_Specific e b) u = specific_table b (ev_Type e, ev_ServiceUid e) u"
  by (simp_all add: sub_table_def gm_get2_def gm_get3_def)

lemma sub_table_wf: "bus_wf b \<Longrightarrow> gm_wf (sub_table sub e b)"
  by (cases sub) (simp_all add: sub_table_def bus_wf_def gm_inner_wf2 gm_inner_wf3)

lemma sub_table_known: "owned n \<Longrightarrow> gm_get (sub_table sub e (n_bus n)) u = Some l \<Longrightarrow> known n u l \<and> (sub = On_Server \<longrightarrow> l_partition l = ev_Partition e)"
  by (cases sub) (auto simp: sub_table_get owned_def)

text \<open>A service is in the table of an event exactly when it has a callback for it.\<close>

lemma subscribed_iff_interested:
  assumes "proc_inv b p l" "sub = On_Server \<longrightarrow> l_partition l = ev_Partition e"
  shows "gm_get (sub_table sub e b) (l_uid l) \<noteq> None \<longleftrightarrow> interested sub e p"
proof -
  have l: "p_listener p = Some l" using assms(1) by (simp add: proc_inv_def attached_def split: if_splits)
  have "subscribedGlobal b et l \<longleftrightarrow> (\<exists>h name. gm_get3 (p_global p) et h name \<noteq> None)"
    "subscribedServer b et l \<longleftrightarrow> (\<exists>h name. gm_get3 (p_server p) et h name \<noteq> None)"
    "subscribedSpecific b k l \<longleftrightarrow> (\<exists>h name. gm_get3 (p_specific p) k h name \<noteq> None)" for et k
    using assms(1) unfolding proc_inv_def counted_def by (metis bound_pos)+
  note iff = this
  show ?thesis
  proof (cases sub)
    case On_Global
    then show ?thesis using iff(1) [of "ev_Type e"] by (simp only: sub_table_get subscribedGlobal_def interested_def) simp
  next
    case On_Server
    then show ?thesis using iff(2) [of "ev_Type e"] assms(2) l by (simp only: sub_table_get subscribedServer_def interested_def) simp
  next
    case On_Specific
    then show ?thesis using iff(3) [of "(ev_Type e, ev_ServiceUid e)"] by (simp only: sub_table_get subscribedSpecific_def interested_def) simp
  qed
qed

lemma node_inv_receivers:
  assumes "node_inv n"
  shows "distinct (map bj_to (new_jobs (n_bus n) (publish_on sub be (n_bus n)))) \<and>
     set (map bj_to (new_jobs (n_bus n) (publish_on sub be (n_bus n)))) = {u. \<exists>p. gm_get (n_procs n) u = Some p \<and> interested sub (snd be) p}"
proof -
  let ?t = "sub_table sub (snd be) (n_bus n)"
  have inv: "bus_wf (n_bus n)" "owned n" "\<And>u p. gm_get (n_procs n) u = Some p \<Longrightarrow> \<exists>l. l_uid l = u \<and> proc_inv (n_bus n) p l"
    using assms by (auto simp: node_inv_def)
  have wf: "gm_wf ?t" by (rule sub_table_wf [OF inv(1)])
  have uid: "l_uid (snd x) = fst x" if "x \<in> set ?t" for x
    using sub_table_known [OF inv(2), of sub "snd be" "fst x" "snd x"] gm_get_in [OF wf, of "fst x" "snd x"] that by (simp add: known_def)
  then have to: "map bj_to (new_jobs (n_bus n) (publish_on sub be (n_bus n))) = gm_keys ?t" by (simp add: new_jobs_publish event_job_def)
  have "u \<in> set (gm_keys ?t) \<longleftrightarrow> (\<exists>p. gm_get (n_procs n) u = Some p \<and> interested sub (snd be) p)" for u
  proof
    assume "u \<in> set (gm_keys ?t)"
    then obtain l where l: "gm_get ?t u = Some l" unfolding gm_get_keys by blast
    then obtain p where p: "gm_get (n_procs n) u = Some p" "attached p = Some l" "l_uid l = u" "sub = On_Server \<longrightarrow> l_partition l = ev_Partition (snd be)"
      using sub_table_known [OF inv(2) l] by (auto simp: known_def)
    moreover have "proc_inv (n_bus n) p l" using inv(3) [OF p(1)] p(2) by (auto simp: proc_inv_def)
    ultimately show "\<exists>p. gm_get (n_procs n) u = Some p \<and> interested sub (snd be) p" using subscribed_iff_interested [of "n_bus n" p l sub "snd be"] l by auto
  next
    assume "\<exists>p. gm_get (n_procs n) u = Some p \<and> interested sub (snd be) p"
    then obtain p l where p: "interested sub (snd be) p" "l_uid l = u" "proc_inv (n_bus n) p l" using inv(3) by blast
    have "p_listener p = Some l" using p(3) by (simp add: proc_inv_def attached_def split: if_splits)
    then have "sub = On_Server \<longrightarrow> l_partition l = ev_Partition (snd be)" using p(1) by (auto simp: interested_def)
    then show "u \<in> set (gm_keys ?t)" using subscribed_iff_interested [OF p(3)] p(1,2) unfolding gm_get_keys by blast
  qed
  then show ?thesis using wf unfolding to by (auto simp: gm_wf_def)
qed

text \<open>
  C11. Whatever services are started and whatever callbacks they register, remove or clear, in any order: an event that is published on the node is posted exactly once to
  every service that has a callback for it in that scope, and to no other service. For server events only the services of the event's partition count.
\<close>

theorem events_reach_bound_services:
  assumes "fresh_bus b" "n = fold (node_step lib) ops (new_node b)"
  shows "distinct (map bj_to (new_jobs (n_bus n) (publish_on sub be (n_bus n)))) \<and>
     set (map bj_to (new_jobs (n_bus n) (publish_on sub be (n_bus n)))) = {u. \<exists>p. gm_get (n_procs n) u = Some p \<and> interested sub (snd be) p}"
  unfolding assms(2) by (rule node_inv_receivers [OF node_run_inv [OF new_node_inv [OF assms(1)]]])

definition sample_event :: actor_event where
  "sample_event = \<lparr> ev_Type = 5, ev_Priority = 0, ev_DispatcherKey = ''k'', ev_Partition = 1, ev_ServiceUid = ''a'', ev_Deadline = 0, ev_Payload = ''x'', ev_ContextHeaders = [] \<rparr>"

definition sample_ops :: "node_op list" where
  "sample_ops =
     [N_Start \<lparr> l_uid = ''a'', l_partition = 1 \<rparr>, N_Start \<lparr> l_uid = ''b'', l_partition = 2 \<rparr>, N_Bind ''a'' 1 (Reg_Server 5 ''f'') 10,
      N_Bind ''b'' 1 (Reg_Server 5 ''f'') 11, N_Bind ''a'' 2 (Reg_Server 5 ''g'') 12, N_Unbind ''a'' 1 (Reg_Server 5 ''f'')]"

theorem events_reach_bound_services_witness:
  "map bj_to (new_jobs (n_bus (fold (node_step free_lib) sample_ops (new_node nats_bus)))
     (publish_on On_Server ([], sample_event) (n_bus (fold (node_step free_lib) sample_ops (new_node nats_bus))))) = [''a''] \<and>
   set (map bj_to (new_jobs (n_bus (fold (node_step free_lib) sample_ops (new_node nats_bus)))
     (publish_on On_Server ([], sample_event) (n_bus (fold (node_step free_lib) sample_ops (new_node nats_bus)))))) =
   {u. \<exists>p. gm_get (n_procs (fold (node_step free_lib) sample_ops (new_node nats_bus))) u = Some p \<and> interested On_Server (snd ([] :: ember_ctx, sample_event)) p}"
proof
  show "map bj_to (new_jobs (n_bus (fold (node_step free_lib) sample_ops (new_node nats_bus)))
     (publish_on On_Server ([], sample_event) (n_bus (fold (node_step free_lib) sample_ops (new_node nats_bus))))) = [''a'']" by code_simp
  have "fresh_bus nats_bus" by code_simp
  from events_reach_bound_services [OF this refl, of free_lib sample_ops On_Server "([], sample_event)"]
  show "set (map bj_to (new_jobs (n_bus (fold (node_step free_lib) sample_ops (new_node nats_bus)))
     (publish_on On_Server ([], sample_event) (n_bus (fold (node_step free_lib) sample_ops (new_node nats_bus)))))) =
   {u. \<exists>p. gm_get (n_procs (fold (node_step free_lib) sample_ops (new_node nats_bus))) u = Some p \<and> interested On_Server (snd ([] :: ember_ctx, sample_event)) p}"
    by (rule conjunct2)
qed

section \<open>Callbacks of the bus are not run\<close>

lemma run_all_fst: "map fst (run_all run d cbs) = cbs"
  by (simp add: run_all_def comp_def)

text \<open>
  A job of the bus is handled by running the local callbacks for its event type. A service whose callbacks for the type are registered for events of the bus gets the job
  and runs none of them; the processor's own \<open>EventHandler\<close>, which nothing calls, would run them.
\<close>

theorem bus_callbacks_not_run:
  assumes "gm_get3 (p_global p) (ev_Type (bj_payload j)) h name = Some cb" "gm_get (p_local p) (ev_Type (bj_payload j)) = None"
    and "decode (ev_Payload (bj_payload j)) = Inr data"
  shows "handleEventJob decode run j p = (None, []) \<and> cb \<in> set (map fst (EventHandler decode run (bj_payload j) p))"
proof -
  let ?t = "gm_inner (p_global p) (ev_Type (bj_payload j))"
  have "gm_get (gm_inner ?t h) name = Some cb" using assms(1) by (simp add: gm_get3_def gm_get2_def)
  then have "(name, cb) \<in> set (gm_inner ?t h)" by (rule gm_get_mem)
  moreover from this have "(h, gm_inner ?t h) \<in> set ?t" by (cases "gm_get ?t h") (simp_all add: gm_inner_def [of ?t h] gm_get_mem)
  ultimately have "cb \<in> set (cb_list ?t)" by (force simp: cb_list_def)
  then have "cb \<in> set (map fst (EventHandler decode run (bj_payload j) p))"
    using assms(3) by (auto simp del: set_map simp: EventHandler_def Let_def snapshotCluster_def run_all_fst)
  moreover have "handleEventJob decode run j p = (None, [])"
    using assms(2,3) by (simp add: handleEventJob_def Trigger_def snapshotLocal_def gm_inner_def cb_list_def run_all_def)
  ultimately show ?thesis by blast
qed

definition sample_proc :: processor where
  "sample_proc = fst (bind_reg free_lib 1 (Reg_Global 5 ''f'') 10 (SetEventBus (Processor_Init (Some \<lparr> l_uid = ''a'', l_partition = 1 \<rparr>)), nats_bus))"

theorem bus_callbacks_not_run_witness:
  "handleEventJob Inr (\<lambda>cb d. R_ok) (event_job ([], sample_event) \<lparr> l_uid = ''a'', l_partition = 1 \<rparr>) sample_proc = (None, []) \<and>
   10 \<in> set (map fst (EventHandler Inr (\<lambda>cb d. R_ok) (bj_payload (event_job ([], sample_event) \<lparr> l_uid = ''a'', l_partition = 1 \<rparr>)) sample_proc))"
proof (rule bus_callbacks_not_run)
  show "gm_get3 (p_global sample_proc) (ev_Type (bj_payload (event_job ([], sample_event) \<lparr> l_uid = ''a'', l_partition = 1 \<rparr>))) 1 ''f'' = Some 10" by code_simp
  show "gm_get (p_local sample_proc) (ev_Type (bj_payload (event_job ([], sample_event) \<lparr> l_uid = ''a'', l_partition = 1 \<rparr>))) = None" by code_simp
qed simp

section \<open>The end of a module\<close>

text \<open>Whether a handler has a callback under a registration.\<close>

definition bound_reg :: "nat \<Rightarrow> reg_info \<Rightarrow> processor \<Rightarrow> bool" where
  "bound_reg h r p \<longleftrightarrow>
     (case r of
        Reg_Local et name \<Rightarrow> gm_get3 (p_local p) et h name \<noteq> None
      | Reg_Global et name \<Rightarrow> gm_get3 (p_global p) et h name \<noteq> None
      | Reg_Server et name \<Rightarrow> gm_get3 (p_server p) et h name \<noteq> None
      | Reg_Specific et uid name \<Rightarrow> gm_get3 (p_specific p) (et, uid) h name \<noteq> None)"

lemma bind_counted_tab: "fst (bind_counted att k name h cb tab cnt) = gm_set3 tab k h name cb"
  by (simp add: bind_counted_def Let_def)

lemma unbind_counted_get:
  "gm_get3 (fst (unbind_counted att k name h tab cnt)) k' h' name' = (if k' = k \<and> h' = h \<and> name' = name then None else gm_get3 tab k' h' name')"
  by (auto simp: unbind_counted_def Let_def get3_del3)

lemma bind_tables:
  "p_global (fst (BindGlobalHandler lib et name h cb (p, b))) = gm_set3 (p_global p) et h name cb"
  "p_local (fst (BindGlobalHandler lib et name h cb (p, b))) = p_local p" "p_server (fst (BindGlobalHandler lib et name h cb (p, b))) = p_server p"
  "p_specific (fst (BindGlobalHandler lib et name h cb (p, b))) = p_specific p"
  "p_server (fst (BindServerHandler lib et name h cb (p, b))) = gm_set3 (p_server p) et h name cb"
  "p_local (fst (BindServerHandler lib et name h cb (p, b))) = p_local p" "p_global (fst (BindServerHandler lib et name h cb (p, b))) = p_global p"
  "p_specific (fst (BindServerHandler lib et name h cb (p, b))) = p_specific p"
  "p_specific (fst (BindSpecificHandler lib et uid name h cb (p, b))) = gm_set3 (p_specific p) (et, uid) h name cb"
  "p_local (fst (BindSpecificHandler lib et uid name h cb (p, b))) = p_local p" "p_global (fst (BindSpecificHandler lib et uid name h cb (p, b))) = p_global p"
  "p_server (fst (BindSpecificHandler lib et uid name h cb (p, b))) = p_server p"
  by (simp_all add: BindGlobalHandler_def BindServerHandler_def BindSpecificHandler_def case_prod_unfold bind_counted_tab)

lemma unbind_tables:
  "gm_get3 (p_global (fst (UnbindGlobalHandler et name h (p, b)))) k h' name' = (if k = et \<and> h' = h \<and> name' = name then None else gm_get3 (p_global p) k h' name')"
  "p_local (fst (UnbindGlobalHandler et name h (p, b))) = p_local p" "p_server (fst (UnbindGlobalHandler et name h (p, b))) = p_server p"
  "p_specific (fst (UnbindGlobalHandler et name h (p, b))) = p_specific p"
  "gm_get3 (p_server (fst (UnbindServerHandler et name h (p, b)))) k h' name' = (if k = et \<and> h' = h \<and> name' = name then None else gm_get3 (p_server p) k h' name')"
  "p_local (fst (UnbindServerHandler et name h (p, b))) = p_local p" "p_global (fst (UnbindServerHandler et name h (p, b))) = p_global p"
  "p_specific (fst (UnbindServerHandler et name h (p, b))) = p_specific p"
  "gm_get3 (p_specific (fst (UnbindSpecificHandler et uid name h (p, b)))) k2 h' name' =
     (if k2 = (et, uid) \<and> h' = h \<and> name' = name then None else gm_get3 (p_specific p) k2 h' name')"
  "p_local (fst (UnbindSpecificHandler et uid name h (p, b))) = p_local p" "p_global (fst (UnbindSpecificHandler et uid name h (p, b))) = p_global p"
  "p_server (fst (UnbindSpecificHandler et uid name h (p, b))) = p_server p"
  by (simp_all add: UnbindGlobalHandler_def UnbindServerHandler_def UnbindSpecificHandler_def case_prod_unfold unbind_counted_get)

lemma bound_bind_reg: "bound_reg h' r' (fst (bind_reg lib h r cb (p, b))) \<longleftrightarrow> h' = h \<and> r' = r \<or> bound_reg h' r' p"
  by (cases r; cases r') (auto simp: bound_reg_def bind_reg_def BindHandler_def bind_tables get3_set3)

lemma bound_unbind_reg: "bound_reg h' r' (fst (unbind_reg h r (p, b))) \<longleftrightarrow> \<not> (h' = h \<and> r' = r) \<and> bound_reg h' r' p"
  by (cases r; cases r') (auto simp: bound_reg_def unbind_reg_def UnbindHandler_def unbind_tables get3_del3)

lemma bound_unbind_all: "bound_reg h' r' (fst (fold (unbind_reg h) rs pb)) \<longleftrightarrow> \<not> (h' = h \<and> r' \<in> set rs) \<and> bound_reg h' r' (fst pb)"
proof (induction rs arbitrary: pb)
  case (Cons r rs)
  then show ?case using bound_unbind_reg [of h' r' h r "fst pb" "snd pb"] by auto
qed simp

text \<open>The operations of one handler, mixed with those of the other handlers of the service.\<close>

datatype handler_op = H_Register reg_info nat | H_Unregister reg_info | H_Other nat reg_info nat | H_OtherUnbind nat reg_info

fun handler_step :: "event_lib \<Rightarrow> handler_op \<Rightarrow> event_handler \<times> processor \<times> event_bus \<Rightarrow> event_handler \<times> processor \<times> event_bus" where
  "handler_step lib (H_Register r cb) s = (case Handler_Register lib r cb s of Inl e \<Rightarrow> s | Inr s1 \<Rightarrow> s1)"
| "handler_step lib (H_Unregister r) s = Handler_Unregister r s"
| "handler_step lib (H_Other h r cb) s = (fst s, if h = h_id (fst s) then snd s else bind_reg lib h r cb (snd s))"
| "handler_step lib (H_OtherUnbind h r) s = (fst s, if h = h_id (fst s) then snd s else unbind_reg h r (snd s))"

definition regs_cover :: "nat \<Rightarrow> event_handler \<times> processor \<times> event_bus \<Rightarrow> bool" where
  [inv_defs]: "regs_cover hid s \<longleftrightarrow> h_id (fst s) = hid \<and> h_trigger (fst s) \<and> (\<forall>r. bound_reg hid r (fst (snd s)) \<longrightarrow> r \<in> set (h_regs (fst s)))"

lemma handler_step_cover:
  assumes "regs_cover hid s"
  shows "regs_cover hid (handler_step lib op s)"
proof -
  obtain h p b where s: "s = (h, p, b)" by (metis prod_cases3)
  have in_remove: "x \<noteq> r \<Longrightarrow> x \<in> set (remove1 r xs) \<longleftrightarrow> x \<in> set xs" for x r :: reg_info and xs by (induction xs) auto
  show ?thesis using assms
    by (cases op) (auto simp: s regs_cover_def Handler_Register_def Handler_Unregister_def bound_bind_reg bound_unbind_reg in_remove)
qed

lemma handler_run_cover: "regs_cover hid s \<Longrightarrow> regs_cover hid (fold (handler_step lib) ops s)"
  by (induction ops arbitrary: s) (simp_all add: handler_step_cover)

text \<open>
  C38. A module that is destroyed leaves no callback behind: after any registrations and removals by it and by the other modules of the service, \<open>Destroy\<close> removes every
  callback of its handler from every table, and keeps those of the others.
\<close>

theorem destroy_leaves_no_callback:
  assumes "\<forall>r. \<not> bound_reg hid r p" "s = fold (handler_step lib) ops (Handler_Init hid, p, b)"
  shows "\<not> bound_reg hid r (fst (snd (Handler_Destroy s))) \<and> (h' \<noteq> hid \<longrightarrow> bound_reg h' r (fst (snd (Handler_Destroy s))) = bound_reg h' r (fst (snd s)))"
proof -
  have "regs_cover hid (Handler_Init hid, p, b)" using assms(1) by (simp add: regs_cover_def Handler_Init_def)
  then have "regs_cover hid s" unfolding assms(2) by (rule handler_run_cover)
  then show ?thesis by (cases s) (auto simp: regs_cover_def Handler_Destroy_def UnregisterAll_def bound_unbind_all)
qed

theorem destroy_leaves_no_callback_witness:
  "\<not> bound_reg 1 (Reg_Global 5 ''f'')
     (fst (snd (Handler_Destroy (fold (handler_step free_lib) [H_Register (Reg_Global 5 ''f'') 10, H_Other 2 (Reg_Global 5 ''f'') 11]
        (Handler_Init 1, SetEventBus (Processor_Init (Some \<lparr> l_uid = ''a'', l_partition = 1 \<rparr>)), nats_bus))))) \<and>
   bound_reg 2 (Reg_Global 5 ''f'')
     (fst (snd (Handler_Destroy (fold (handler_step free_lib) [H_Register (Reg_Global 5 ''f'') 10, H_Other 2 (Reg_Global 5 ''f'') 11]
        (Handler_Init 1, SetEventBus (Processor_Init (Some \<lparr> l_uid = ''a'', l_partition = 1 \<rparr>)), nats_bus))))) =
     bound_reg 2 (Reg_Global 5 ''f'')
     (fst (snd (fold (handler_step free_lib) [H_Register (Reg_Global 5 ''f'') 10, H_Other 2 (Reg_Global 5 ''f'') 11]
        (Handler_Init 1, SetEventBus (Processor_Init (Some \<lparr> l_uid = ''a'', l_partition = 1 \<rparr>)), nats_bus))))"
proof -
  have fresh: "\<forall>r. \<not> bound_reg 1 r (SetEventBus (Processor_Init (Some \<lparr> l_uid = ''a'', l_partition = 1 \<rparr>)))"
    by (auto simp: bound_reg_def SetEventBus_def Processor_Init_def split: reg_info.split)
  have "(2 :: nat) \<noteq> 1" by simp
  with destroy_leaves_no_callback [where h' = 2, OF fresh refl] show ?thesis by blast
qed

end
