(* ===== verification/Module_Tree.thy ===== *)
theory Module_Tree
  imports Event_Processor Rpc_Handler
begin

text \<open>
  The modules of a service: \<open>engine/pkg/core/module.go\<close>. A service is the root of a tree of modules; every module has an event handler on the processor of the service
  and publishes methods in the method table of the service.

  Modules are named by references (numbers), which are also the names of their event handlers; their fields are in a store. The hooks \<open>OnInit\<close> and \<open>OnRelease\<close> of the
  modules are user code and arguments of the operations. \<open>ReleaseModule\<close> calls itself for the children of the module; the recursion takes fuel, and \<open>None\<close> is running out of it.
\<close>

section \<open>Definitions\<close>

datatype module_err = ErrModuleNotInitialized | ErrModuleHadRegistered | Err_not_a_module | Err_methods rpc_err | Err_init string | Err_nil_handler

record core_module =
  cm_moduleId :: nat
  cm_moduleName :: string
  cm_parent :: "nat option"
  cm_root :: bool
  cm_children :: "(nat, nat) gomap"
  cm_handler :: "event_handler option"
  cm_methods :: "string list"

definition zero_module :: core_module where
  "zero_module = \<lparr> cm_moduleId = 0, cm_moduleName = [], cm_parent = None, cm_root = False, cm_children = [], cm_handler = None, cm_methods = [] \<rparr>"

record module_world =
  mw_mods :: "nat \<Rightarrow> core_module"
  mw_rootContains :: "(nat, nat) gomap"
  mw_moduleIdSeed :: nat
  mw_proc :: processor
  mw_bus :: event_bus
  mw_mgr :: method_mgr

record module_hooks =
  hk_OnInit :: "nat \<Rightarrow> module_world \<Rightarrow> string option \<times> module_world"
  hk_OnRelease :: "nat \<Rightarrow> module_world \<Rightarrow> module_world"

definition set_mod :: "nat \<Rightarrow> core_module \<Rightarrow> module_world \<Rightarrow> module_world" where
  "set_mod r c w = w \<lparr> mw_mods := (mw_mods w)(r := c) \<rparr>"

text \<open>\<open>initModule\<close> and \<open>initEvents\<close> of a service, whose reference is \<open>r\<close>; \<open>names\<close> are the methods it has published.\<close>

definition DefaultModuleIdSeed :: nat where
  "DefaultModuleIdSeed = 1000000"

definition initModule :: "nat \<Rightarrow> string \<Rightarrow> string list \<Rightarrow> module_world \<Rightarrow> module_world" where
  "initModule r name names w =
     set_mod r (zero_module \<lparr> cm_moduleName := name, cm_root := True, cm_handler := Some (Handler_Init r), cm_methods := names \<rparr>)
       (w \<lparr> mw_rootContains := [], mw_moduleIdSeed := DefaultModuleIdSeed \<rparr>)"

definition SetModuleID :: "nat \<Rightarrow> nat \<Rightarrow> module_world \<Rightarrow> bool \<times> module_world" where
  "SetModuleID r mid w =
     (if cm_moduleId (mw_mods w r) \<noteq> 0 then (False, w) else (True, set_mod r ((mw_mods w r) \<lparr> cm_moduleId := mid \<rparr>) w))"

definition newModuleID :: "nat \<Rightarrow> module_world \<Rightarrow> nat \<times> module_world" where
  "newModuleID m w =
     (if \<not> cm_root (mw_mods w m) then (0, w)
      else let s = (mw_moduleIdSeed w + 1) mod 2 ^ 32 in (s, w \<lparr> mw_moduleIdSeed := s \<rparr>))"

definition GetModule :: "nat \<Rightarrow> nat \<Rightarrow> module_world \<Rightarrow> nat option" where
  "GetModule m mid w = (if cm_root (mw_mods w m) then gm_get (mw_rootContains w) mid else None)"

text \<open>
  \<open>AddModule\<close> on the module \<open>m\<close>: \<open>module\<close> is the reference of the new module, or \<open>None\<close> for a value that does not embed a core module; \<open>name\<close>, \<open>ro\<close> and \<open>ms\<close> are its
  type name, its read-only declarations and its methods. First the part after the identifier is known.
\<close>

definition attach_module ::
  "module_hooks \<Rightarrow> method_index \<Rightarrow> (gtype \<Rightarrow> bool) \<Rightarrow> nat \<Rightarrow> nat \<Rightarrow> nat \<Rightarrow> string \<Rightarrow> string list \<Rightarrow> go_method list \<Rightarrow> module_world \<Rightarrow> (module_err + nat) \<times> module_world" where
  "attach_module hk idx exported m c mid name ro ms w =
     (if mid = 0 then (Inl ErrModuleNotInitialized, w)
      else if gm_get (cm_children (mw_mods w m)) mid \<noteq> None then (Inl ErrModuleHadRegistered, w)
      else
        let w1 = set_mod c ((mw_mods w c) \<lparr> cm_parent := Some m, cm_root := True, cm_moduleName := name, cm_handler := Some (Handler_Init c) \<rparr>) w;
            (err, mgr, names) = registerMethod idx exported ro ms (mw_mgr w1);
            w2 = w1 \<lparr> mw_mgr := mgr \<rparr>
        in case err of
             Some e \<Rightarrow> (Inl (Err_methods e), w2)
           | None \<Rightarrow>
               let (ierr, w3) = hk_OnInit hk c (set_mod c ((mw_mods w2 c) \<lparr> cm_methods := names \<rparr>) w2)
               in case ierr of
                    Some e \<Rightarrow> (Inl (Err_init e), w3)
                  | None \<Rightarrow>
                      let w4 = set_mod m ((mw_mods w3 m) \<lparr> cm_children := gm_set (cm_children (mw_mods w3 m)) mid c \<rparr>) w3
                      in (Inr mid, w4 \<lparr> mw_rootContains := gm_set (mw_rootContains w4) mid c \<rparr>))"

definition AddModule ::
  "module_hooks \<Rightarrow> method_index \<Rightarrow> (gtype \<Rightarrow> bool) \<Rightarrow> nat \<Rightarrow> nat option \<Rightarrow> string \<Rightarrow> string list \<Rightarrow> go_method list \<Rightarrow> module_world \<Rightarrow> (module_err + nat) \<times> module_world" where
  "AddModule hk idx exported m module name ro ms w =
     (case cm_handler (mw_mods w m) of
        None \<Rightarrow> (Inl Err_nil_handler, w)
      | Some mh \<Rightarrow>
          if \<not> h_trigger mh then (Inl ErrModuleNotInitialized, w)
          else case module of
            None \<Rightarrow> (Inl Err_not_a_module, w)
          | Some c \<Rightarrow>
              if \<not> cm_root (mw_mods w m) then (Inl ErrModuleNotInitialized, w)
              else let (mid, w1) = (if cm_moduleId (mw_mods w c) = 0 then newModuleID m w else (cm_moduleId (mw_mods w c), w))
                   in attach_module hk idx exported m c mid name ro ms (set_mod c ((mw_mods w1 c) \<lparr> cm_moduleId := mid \<rparr>) w1))"

text \<open>
  The end of a module after its children: hook, event handler, the two tables, methods, fields. A module without an event handler, and a module \<open>m\<close> that was itself reset
  in between (it has no root any more), are nil pointers.
\<close>

definition destroy_handler :: "nat \<Rightarrow> event_handler \<Rightarrow> module_world \<Rightarrow> module_world" where
  "destroy_handler c h w =
     (case Handler_Destroy (h, mw_proc w, mw_bus w) of (h1, p1, b1) \<Rightarrow>
        set_mod c ((mw_mods w c) \<lparr> cm_handler := Some h1 \<rparr>) (w \<lparr> mw_proc := p1, mw_bus := b1 \<rparr>))"

definition finish_release :: "module_hooks \<Rightarrow> nat \<Rightarrow> nat \<Rightarrow> nat \<Rightarrow> module_world \<Rightarrow> go_panic + module_world" where
  "finish_release hk m mid c w =
     (let w0 = hk_OnRelease hk c w
      in case cm_handler (mw_mods w0 c) of
           None \<Rightarrow> Inl (Go_Panic ''nil pointer dereference'')
         | Some h \<Rightarrow>
             let w1 = destroy_handler c h w0;
                 w2 = set_mod m ((mw_mods w1 m) \<lparr> cm_children := gm_del (cm_children (mw_mods w1 m)) mid \<rparr>) w1
             in if \<not> cm_root (mw_mods w2 m) then Inl (Go_Panic ''nil pointer dereference'')
                else let w3 = w2 \<lparr> mw_rootContains := gm_del (mw_rootContains w2) mid \<rparr>;
                         w4 = w3 \<lparr> mw_mgr := RemoveMethods (cm_methods (mw_mods w3 m)) (mw_mgr w3) \<rparr>
                     in Inr (set_mod c zero_module w4))"

fun ReleaseModule :: "nat \<Rightarrow> module_hooks \<Rightarrow> nat \<Rightarrow> nat \<Rightarrow> module_world \<Rightarrow> (go_panic + module_world) option"
and release_all :: "nat \<Rightarrow> module_hooks \<Rightarrow> nat \<Rightarrow> nat list \<Rightarrow> module_world \<Rightarrow> (go_panic + module_world) option" where
  "ReleaseModule 0 hk m mid w = None"
| "ReleaseModule (Suc n) hk m mid w =
     (case GetModule m mid w of
        None \<Rightarrow> Some (Inr w)
      | Some c \<Rightarrow> map_option (\<lambda>x. and_then x (finish_release hk m mid c)) (release_all n hk m (gm_keys (cm_children (mw_mods w c))) w))"
| "release_all n hk m [] w = Some (Inr w)"
| "release_all n hk m (i # ids) w =
     (case ReleaseModule n hk m i w of
        None \<Rightarrow> None
      | Some (Inl p) \<Rightarrow> Some (Inl p)
      | Some (Inr w1) \<Rightarrow> release_all n hk m ids w1)"

definition ReleaseAllChildModule :: "nat \<Rightarrow> module_hooks \<Rightarrow> nat \<Rightarrow> module_world \<Rightarrow> (go_panic + module_world) option" where
  "ReleaseAllChildModule n hk m w = release_all n hk m (gm_keys (cm_children (mw_mods w m))) w"

section \<open>Releasing modules\<close>

definition quiet_hooks :: "module_hooks \<Rightarrow> bool" where
  "quiet_hooks hk \<longleftrightarrow> (\<forall>r w. hk_OnRelease hk r w = w)"

text \<open>
  The order of the tree: a registered module has the identifier under which it is registered, and an event handler; the identifiers of children are greater than that of
  their parent, and none is greater than the seed.
\<close>

definition tree_ok :: "module_world \<Rightarrow> bool" where
  [inv_defs]: "tree_ok w \<longleftrightarrow>
     (\<forall>i c. gm_get (mw_rootContains w) i = Some c \<longrightarrow> 0 < i \<and> i \<le> mw_moduleIdSeed w \<and> cm_moduleId (mw_mods w c) = i \<and> cm_handler (mw_mods w c) \<noteq> None
        \<and> (\<forall>j \<in> set (gm_keys (cm_children (mw_mods w c))). i < j))"

lemma tree_okD:
  assumes "tree_ok w" "gm_get (mw_rootContains w) i = Some c"
  shows "0 < i" "i \<le> mw_moduleIdSeed w" "cm_moduleId (mw_mods w c) = i" "cm_handler (mw_mods w c) \<noteq> None"
    "j \<in> set (gm_keys (cm_children (mw_mods w c))) \<Longrightarrow> i < j"
  using assms unfolding tree_ok_def by blast+

lemma tree_ok_inj: "tree_ok w \<Longrightarrow> gm_get (mw_rootContains w) i = Some c \<Longrightarrow> gm_get (mw_rootContains w) j = Some c \<Longrightarrow> i = j"
  using tree_okD(3) by metis

text \<open>The registered modules below a module, itself included.\<close>

definition kid_rel :: "module_world \<Rightarrow> (nat \<times> nat) set" where
  "kid_rel w = {(i, j). \<exists>c. gm_get (mw_rootContains w) i = Some c \<and> j \<in> set (gm_keys (cm_children (mw_mods w c))) \<and> gm_get (mw_rootContains w) j \<noteq> None}"

definition subtree :: "module_world \<Rightarrow> nat \<Rightarrow> nat set" where
  "subtree w i = {j. gm_get (mw_rootContains w) i \<noteq> None \<and> (i, j) \<in> (kid_rel w)\<^sup>*}"

definition members :: "module_world \<Rightarrow> nat set \<Rightarrow> nat set" where
  "members w R = {c. \<exists>i \<in> R. gm_get (mw_rootContains w) i = Some c}"

lemma subtree_registered: "j \<in> subtree w i \<Longrightarrow> gm_get (mw_rootContains w) j \<noteq> None"
  unfolding subtree_def by (auto elim!: rtranclE simp: kid_rel_def)

lemma subtree_closed: "i \<in> subtree w k \<Longrightarrow> (i, j) \<in> kid_rel w \<Longrightarrow> j \<in> subtree w k"
  unfolding subtree_def by (auto intro: rtrancl_into_rtrancl)

lemma subtree_self: "gm_get (mw_rootContains w) i \<noteq> None \<Longrightarrow> i \<in> subtree w i"
  by (simp add: subtree_def)

lemma subtree_absent: "gm_get (mw_rootContains w) i = None \<Longrightarrow> subtree w i = {}"
  by (simp add: subtree_def)

lemma subtree_unfold:
  assumes "gm_get (mw_rootContains w) i = Some c"
  shows "subtree w i = insert i (\<Union>j \<in> set (gm_keys (cm_children (mw_mods w c))). subtree w j)"
proof (rule set_eqI)
  fix x
  have "(i, x) \<in> (kid_rel w)\<^sup>* \<longleftrightarrow> x = i \<or> (\<exists>j. (i, j) \<in> kid_rel w \<and> (j, x) \<in> (kid_rel w)\<^sup>*)"
    by (auto elim: converse_rtranclE intro: converse_rtrancl_into_rtrancl)
  then show "x \<in> subtree w i \<longleftrightarrow> x \<in> insert i (\<Union>j \<in> set (gm_keys (cm_children (mw_mods w c))). subtree w j)"
    using assms by (auto simp: subtree_def kid_rel_def)
qed

lemma subtree_above: "tree_ok w \<Longrightarrow> j \<in> subtree w i \<Longrightarrow> i \<le> j"
proof -
  assume ok: "tree_ok w" and "j \<in> subtree w i"
  then have "(i, j) \<in> (kid_rel w)\<^sup>*" by (simp add: subtree_def)
  then show "i \<le> j"
  proof (induction rule: rtrancl_induct)
    case (step j k)
    then show ?case using tree_okD(5) [OF ok] by (fastforce simp: kid_rel_def)
  qed simp
qed

text \<open>What a release of the identifiers \<open>R\<close> that is asked of the module \<open>m\<close> does.\<close>

definition pruned :: "nat \<Rightarrow> nat set \<Rightarrow> module_world \<Rightarrow> module_world \<Rightarrow> bool" where
  "pruned m R w w1 \<longleftrightarrow>
     (\<forall>i. gm_get (mw_rootContains w1) i = (if i \<in> R then None else gm_get (mw_rootContains w) i))
     \<and> (\<forall>r. r \<noteq> m \<longrightarrow> mw_mods w1 r = (if r \<in> members w R then zero_module else mw_mods w r))
     \<and> (\<forall>i. gm_get (cm_children (mw_mods w1 m)) i = (if i \<in> R then None else gm_get (cm_children (mw_mods w m)) i))
     \<and> mw_mods w1 m = (mw_mods w m) \<lparr> cm_children := cm_children (mw_mods w1 m) \<rparr>
     \<and> mw_moduleIdSeed w1 = mw_moduleIdSeed w \<and> mm_isRWEnabled (mw_mgr w1) = mm_isRWEnabled (mw_mgr w)
     \<and> (\<forall>name. gm_get (mm_methods (mw_mgr w1)) name =
          (if R \<noteq> {} \<and> mm_isRWEnabled (mw_mgr w) \<noteq> Some True \<and> name \<in> set (cm_methods (mw_mods w m)) then None else gm_get (mm_methods (mw_mgr w)) name))"

lemma prunedD:
  assumes "pruned m R w w1"
  shows "gm_get (mw_rootContains w1) i = (if i \<in> R then None else gm_get (mw_rootContains w) i)"
    "r \<noteq> m \<Longrightarrow> mw_mods w1 r = (if r \<in> members w R then zero_module else mw_mods w r)"
    "gm_get (cm_children (mw_mods w1 m)) i = (if i \<in> R then None else gm_get (cm_children (mw_mods w m)) i)"
    "mw_mods w1 m = (mw_mods w m) \<lparr> cm_children := cm_children (mw_mods w1 m) \<rparr>"
    "mw_moduleIdSeed w1 = mw_moduleIdSeed w" "mm_isRWEnabled (mw_mgr w1) = mm_isRWEnabled (mw_mgr w)"
    "gm_get (mm_methods (mw_mgr w1)) name =
       (if R \<noteq> {} \<and> mm_isRWEnabled (mw_mgr w) \<noteq> Some True \<and> name \<in> set (cm_methods (mw_mods w m)) then None else gm_get (mm_methods (mw_mgr w)) name)"
  using assms unfolding pruned_def by blast+

lemma pruned_nothing: "pruned m {} w w"
  by (simp add: pruned_def members_def)

lemma pruned_root:
  assumes "pruned m R w w1"
  shows "cm_root (mw_mods w1 m) = cm_root (mw_mods w m)" "cm_methods (mw_mods w1 m) = cm_methods (mw_mods w m)"
  using prunedD(4) [OF assms] by (metis core_module.ext_inject core_module.surjective core_module.update_convs(5))+

lemma members_pruned:
  assumes "pruned m R w w1"
  shows "members w1 R' = members w (R' - R)"
  by (auto simp: members_def prunedD(1) [OF assms] split: if_splits)

lemma pruned_trans:
  assumes "pruned m R w w1" "pruned m R' w1 w2"
  shows "pruned m (R \<union> R') w w2"
proof -
  note a = prunedD [OF assms(1)] and b = prunedD [OF assms(2)]
  have mem: "members w (R \<union> R') = members w R \<union> members w1 R'" unfolding members_pruned [OF assms(1)] by (auto simp: members_def)
  show ?thesis unfolding pruned_def
  proof (intro conjI allI impI)
    show "mw_mods w2 m = (mw_mods w m) \<lparr> cm_children := cm_children (mw_mods w2 m) \<rparr>" using a(4) b(4) by (metis core_module.update_convs(5) core_module.surjective)
  qed (use a(1,3,5,6) b(1,3,5,6) in \<open>simp_all add: a(2) b(2) mem a(7) b(7) pruned_root(2) [OF assms(1)]\<close>)
qed

lemma pruned_kids:
  assumes "tree_ok w" "pruned m R w w1" "gm_get (mw_rootContains w1) i = Some c"
  shows "gm_get (mw_rootContains w) i = Some c" "i \<notin> R"
    "set (gm_keys (cm_children (mw_mods w1 c))) = (if c = m then set (gm_keys (cm_children (mw_mods w c))) - R else set (gm_keys (cm_children (mw_mods w c))))"
    "cm_moduleId (mw_mods w1 c) = cm_moduleId (mw_mods w c)" "cm_handler (mw_mods w1 c) = cm_handler (mw_mods w c)"
proof -
  note P = prunedD [OF assms(2)]
  show i: "gm_get (mw_rootContains w) i = Some c" "i \<notin> R" using assms(3) P(1) [of i] by (simp_all split: if_splits)
  have c: "c \<notin> members w R" using i tree_ok_inj [OF assms(1)] unfolding members_def by blast
  have m: "set (gm_keys (cm_children (mw_mods w1 m))) = set (gm_keys (cm_children (mw_mods w m))) - R"
    unfolding set_eq_iff Diff_iff gm_get_keys P(3) by simp
  show "set (gm_keys (cm_children (mw_mods w1 c))) = (if c = m then set (gm_keys (cm_children (mw_mods w c))) - R else set (gm_keys (cm_children (mw_mods w c))))"
    using m P(2) [of c] c by simp
  show "cm_moduleId (mw_mods w1 c) = cm_moduleId (mw_mods w c)" "cm_handler (mw_mods w1 c) = cm_handler (mw_mods w c)"
    using P(2) [of c] P(4) c by (metis core_module.select_convs(1) core_module.surjective core_module.update_convs(5),
        metis core_module.select_convs(6) core_module.surjective core_module.update_convs(5))
qed

lemma pruned_tree: "tree_ok w \<Longrightarrow> pruned m R w w1 \<Longrightarrow> tree_ok w1"
  unfolding tree_ok_def [of w1]
proof (intro allI impI)
  fix i c
  assume a: "tree_ok w" "pruned m R w w1" "gm_get (mw_rootContains w1) i = Some c"
  note k = pruned_kids [OF a] and t = tree_okD [OF a(1) pruned_kids(1) [OF a]]
  have "set (gm_keys (cm_children (mw_mods w1 c))) \<subseteq> set (gm_keys (cm_children (mw_mods w c)))" using k(3) by (auto split: if_splits)
  then show "0 < i \<and> i \<le> mw_moduleIdSeed w1 \<and> cm_moduleId (mw_mods w1 c) = i \<and> cm_handler (mw_mods w1 c) \<noteq> None \<and> (\<forall>j \<in> set (gm_keys (cm_children (mw_mods w1 c))). i < j)"
    using k(4,5) t prunedD(5) [OF a(2)] by auto
qed

lemma pruned_kid_rel:
  assumes "tree_ok w" "pruned m R w w1"
  shows "kid_rel w1 = {(i, j) \<in> kid_rel w. i \<notin> R \<and> j \<notin> R}"
proof -
  have "(i, j) \<in> kid_rel w1 \<longleftrightarrow> (i, j) \<in> kid_rel w \<and> i \<notin> R \<and> j \<notin> R" for i j
  proof (cases "gm_get (mw_rootContains w1) i")
    case None
    then show ?thesis using prunedD(1) [OF assms(2), of i] by (auto simp: kid_rel_def split: if_splits)
  next
    case (Some c)
    note k = pruned_kids [OF assms Some]
    have "gm_get (mw_rootContains w1) j \<noteq> None \<longleftrightarrow> j \<notin> R \<and> gm_get (mw_rootContains w) j \<noteq> None" using prunedD(1) [OF assms(2), of j] by simp
    then show ?thesis using Some k(1-3) by (auto simp: kid_rel_def)
  qed
  then show ?thesis by auto
qed

lemma pruned_subtree:
  assumes "tree_ok w" "pruned m R w w1" "\<And>i j. i \<in> R \<Longrightarrow> (i, j) \<in> kid_rel w \<Longrightarrow> j \<in> R"
  shows "subtree w1 k \<subseteq> subtree w k" "subtree w1 k \<union> R = subtree w k \<union> R"
proof -
  have rel: "kid_rel w1 \<subseteq> kid_rel w" using pruned_kid_rel [OF assms(1,2)] by auto
  show sub: "subtree w1 k \<subseteq> subtree w k"
    using rtrancl_mono [OF rel] prunedD(1) [OF assms(2), of k] by (auto simp: subtree_def split: if_splits)
  have "x \<in> subtree w1 k" if "x \<in> subtree w k" "x \<notin> R" for x
  proof -
    have "(k, x) \<in> (kid_rel w)\<^sup>*" "gm_get (mw_rootContains w) k \<noteq> None" using that(1) by (simp_all add: subtree_def)
    from this(1) have "(k, x) \<in> (kid_rel w1)\<^sup>* \<and> k \<notin> R" using that(2)
    proof (induction rule: converse_rtrancl_induct)
      case (step i j)
      then have "i \<notin> R" using assms(3) by blast
      then have "(i, j) \<in> kid_rel w1" using step pruned_kid_rel [OF assms(1,2)] by simp
      then show ?case using step \<open>i \<notin> R\<close> by (meson converse_rtrancl_into_rtrancl)
    qed simp
    then show ?thesis using \<open>gm_get (mw_rootContains w) k \<noteq> None\<close> prunedD(1) [OF assms(2), of k] by (simp add: subtree_def)
  qed
  then show "subtree w1 k \<union> R = subtree w k \<union> R" using sub by blast
qed

lemma RemoveMethods_get:
  "gm_get (mm_methods (RemoveMethods names mgr)) name =
     (if mm_isRWEnabled mgr \<noteq> Some True \<and> name \<in> set names then None else gm_get (mm_methods mgr) name)"
proof -
  have "gm_get (mm_methods (fold (\<lambda>name mgr. if gm_get (mm_methods mgr) name = None then mgr else mgr \<lparr> mm_methods := gm_del (mm_methods mgr) name \<rparr>) names mgr)) name =
     (if name \<in> set names then None else gm_get (mm_methods mgr) name)"
    by (induction names arbitrary: mgr) (auto simp: gm_get_del)
  then show ?thesis by (simp add: RemoveMethods_def)
qed

lemma RemoveMethods_rw [simp]: "mm_isRWEnabled (RemoveMethods names mgr) = mm_isRWEnabled mgr"
proof -
  have "mm_isRWEnabled (fold (\<lambda>name mgr. if gm_get (mm_methods mgr) name = None then mgr else mgr \<lparr> mm_methods := gm_del (mm_methods mgr) name \<rparr>) names mgr) =
     mm_isRWEnabled mgr"
    by (induction names arbitrary: mgr) auto
  then show ?thesis by (simp add: RemoveMethods_def)
qed

lemma destroy_handler_mods:
  "\<exists>h1 p1 b1. destroy_handler c h w = set_mod c ((mw_mods w c) \<lparr> cm_handler := h1 \<rparr>) (w \<lparr> mw_proc := p1, mw_bus := b1 \<rparr>)"
  unfolding destroy_handler_def by (cases "Handler_Destroy (h, mw_proc w, mw_bus w)") auto

lemma finish_release_prunes:
  assumes "quiet_hooks hk" "cm_handler (mw_mods w c) \<noteq> None" "c \<noteq> m" "cm_root (mw_mods w m)" "gm_get (mw_rootContains w) mid = Some c"
  shows "\<exists>w1. finish_release hk m mid c w = Inr w1 \<and> pruned m {mid} w w1"
proof -
  obtain h where h: "cm_handler (mw_mods w c) = Some h" using assms(2) by auto
  obtain h1 p1 b1 where d: "destroy_handler c h w = set_mod c ((mw_mods w c) \<lparr> cm_handler := h1 \<rparr>) (w \<lparr> mw_proc := p1, mw_bus := b1 \<rparr>)"
    using destroy_handler_mods by blast
  have mem: "members w {mid} = {c}" using assms(5) by (auto simp: members_def)
  have "hk_OnRelease hk c w = w" using assms(1) by (simp add: quiet_hooks_def)
  then show ?thesis using assms(3,4) h d
    by (simp add: finish_release_def Let_def set_mod_def pruned_def mem gm_get_del RemoveMethods_get)
qed

text \<open>The release of a list of modules, given that each single release prunes its subtree.\<close>

lemma release_all_prunes:
  assumes step: "\<And>i w. tree_ok w \<Longrightarrow> cm_root (mw_mods w m) \<Longrightarrow> m \<notin> members w (subtree w i) \<Longrightarrow> mw_moduleIdSeed w + 1 < n + i \<Longrightarrow>
       \<exists>w1. ReleaseModule n hk m i w = Some (Inr w1) \<and> pruned m (subtree w i) w w1"
    and "tree_ok w" "cm_root (mw_mods w m)" "\<forall>i \<in> set ids. m \<notin> members w (subtree w i) \<and> mw_moduleIdSeed w + 1 < n + i"
  shows "\<exists>w1. release_all n hk m ids w = Some (Inr w1) \<and> pruned m (\<Union>i \<in> set ids. subtree w i) w w1"
  using assms(2-)
proof (induction ids arbitrary: w)
  case Nil
  then show ?case by (simp add: pruned_nothing)
next
  case (Cons i ids)
  obtain w1 where w1: "ReleaseModule n hk m i w = Some (Inr w1)" "pruned m (subtree w i) w w1"
    using step [OF Cons.prems(1,2)] Cons.prems(3) by auto
  have sub: "subtree w1 k \<subseteq> subtree w k" "subtree w1 k \<union> subtree w i = subtree w k \<union> subtree w i" for k
    by (rule pruned_subtree [OF Cons.prems(1) w1(2)], erule (1) subtree_closed)+
  have "tree_ok w1" "cm_root (mw_mods w1 m)" using pruned_tree [OF Cons.prems(1) w1(2)] pruned_root(1) [OF w1(2)] Cons.prems(2) by simp_all
  moreover have "m \<notin> members w1 (subtree w1 j) \<and> mw_moduleIdSeed w1 + 1 < n + j" if "j \<in> set ids" for j
  proof -
    have "members w1 (subtree w1 j) \<subseteq> members w (subtree w j)" unfolding members_pruned [OF w1(2)] using sub(1) [of j] by (auto simp: members_def)
    then show ?thesis using Cons.prems(3) that prunedD(5) [OF w1(2)] by auto
  qed
  ultimately obtain w2 where w2: "release_all n hk m ids w1 = Some (Inr w2)" "pruned m (\<Union>j \<in> set ids. subtree w1 j) w1 w2"
    using Cons.IH [of w1] by blast
  have "subtree w i \<union> (\<Union>j \<in> set ids. subtree w1 j) = (\<Union>j \<in> set (i # ids). subtree w j)" using sub(2) by auto
  then show ?case using pruned_trans [OF w1(2) w2(2)] w1(1) w2(1) by simp
qed

lemma ReleaseModule_prunes:
  assumes "quiet_hooks hk" "0 < n" "tree_ok w" "cm_root (mw_mods w m)" "m \<notin> members w (subtree w mid)" "mw_moduleIdSeed w + 1 < n + mid"
  shows "\<exists>w1. ReleaseModule n hk m mid w = Some (Inr w1) \<and> pruned m (subtree w mid) w w1"
  using assms(2-)
proof (induction n arbitrary: mid w)
  case (Suc n)
  show ?case
  proof (cases "gm_get (mw_rootContains w) mid")
    case None
    then show ?thesis using Suc.prems by (simp add: GetModule_def subtree_absent pruned_nothing)
  next
    case (Some c)
    let ?js = "gm_keys (cm_children (mw_mods w c))" and ?R = "\<Union>j \<in> set (gm_keys (cm_children (mw_mods w c))). subtree w j"
    have ord: "mid \<le> mw_moduleIdSeed w" "\<And>j. j \<in> set ?js \<Longrightarrow> mid < j" using tree_okD [OF Suc.prems(2) Some] by blast+
    have n: "0 < n" using ord(1) Suc.prems(5) by simp
    have un: "subtree w mid = insert mid ?R" by (rule subtree_unfold [OF Some])
    have "\<exists>w1. release_all n hk m ?js w = Some (Inr w1) \<and> pruned m ?R w w1"
    proof (rule release_all_prunes [OF _ Suc.prems(2,3)])
      show "\<forall>j \<in> set ?js. m \<notin> members w (subtree w j) \<and> mw_moduleIdSeed w + 1 < n + j"
        using ord(2) Suc.prems(4,5) un by (fastforce simp: members_def)
      show "\<exists>w1. ReleaseModule n hk m i w = Some (Inr w1) \<and> pruned m (subtree w i) w w1"
        if "tree_ok w" "cm_root (mw_mods w m)" "m \<notin> members w (subtree w i)" "mw_moduleIdSeed w + 1 < n + i" for i w
        using Suc.IH [OF n that] .
    qed
    then obtain w1 where w1: "release_all n hk m ?js w = Some (Inr w1)" "pruned m ?R w w1" by blast
    have "mid \<notin> ?R" using ord(2) subtree_above [OF Suc.prems(2)] by fastforce
    then have mid: "gm_get (mw_rootContains w1) mid = Some c" using prunedD(1) [OF w1(2), of mid] Some by simp
    have "mid \<in> subtree w mid" using Some by (simp add: subtree_self)
    then have cm: "c \<noteq> m" using Suc.prems(4) Some by (auto simp: members_def)
    have "cm_handler (mw_mods w1 c) \<noteq> None" using tree_okD(4) [OF pruned_tree [OF Suc.prems(2) w1(2)] mid] .
    moreover have "cm_root (mw_mods w1 m)" using pruned_root(1) [OF w1(2)] Suc.prems(3) by simp
    ultimately obtain w2 where w2: "finish_release hk m mid c w1 = Inr w2" "pruned m {mid} w1 w2"
      using finish_release_prunes [OF assms(1) _ cm _ mid] by blast
    have "ReleaseModule (Suc n) hk m mid w = Some (Inr w2)" using Some Suc.prems(3) w1(1) w2(1) by (simp add: GetModule_def)
    moreover have "pruned m (subtree w mid) w w2" using pruned_trans [OF w1(2) w2(2)] by (simp add: un)
    ultimately show ?thesis by blast
  qed
qed simp

section \<open>Adding modules\<close>

definition attached_to :: "nat \<Rightarrow> nat \<Rightarrow> nat \<Rightarrow> module_world \<Rightarrow> module_err + nat \<Rightarrow> module_world \<Rightarrow> bool" where
  "attached_to m c mid w res w1 \<longleftrightarrow>
     mw_moduleIdSeed w1 = mw_moduleIdSeed w \<and> (\<forall>r. cm_moduleId (mw_mods w1 r) = cm_moduleId (mw_mods w r)) \<and>
     (\<forall>r. r \<noteq> c \<longrightarrow> cm_handler (mw_mods w1 r) = cm_handler (mw_mods w r)) \<and>
     (case res of
        Inl e \<Rightarrow> mw_rootContains w1 = mw_rootContains w \<and> (\<forall>r. cm_children (mw_mods w1 r) = cm_children (mw_mods w r))
      | Inr i \<Rightarrow> i = mid \<and> cm_handler (mw_mods w1 c) \<noteq> None \<and> mw_rootContains w1 = gm_set (mw_rootContains w) mid c \<and>
          (\<forall>r. cm_children (mw_mods w1 r) = (if r = m then gm_set (cm_children (mw_mods w m)) mid c else cm_children (mw_mods w r))))"

lemma attach_module_cases:
  assumes "\<And>r w. snd (hk_OnInit hk r w) = w" "attach_module hk idx exported m c mid name ro ms w = (res, w1)"
  shows "attached_to m c mid w res w1"
proof -
  obtain err mgr names where reg: "registerMethod idx exported ro ms (mw_mgr w) = (err, mgr, names)" by (metis prod_cases3)
  have hook: "hk_OnInit hk r w = (fst (hk_OnInit hk r w), w)" for r w using assms(1) [of r w] by (simp add: prod_eq_iff)
  show ?thesis
  proof (cases "mid = 0 \<or> gm_get (cm_children (mw_mods w m)) mid \<noteq> None \<or> err \<noteq> None")
    case True
    then show ?thesis using assms(2) reg by (auto simp: attach_module_def attached_to_def set_mod_def split: if_splits)
  next
    case False
    define w2 where "w2 = set_mod c ((mw_mods w c) \<lparr> cm_parent := Some m, cm_root := True, cm_moduleName := name, cm_handler := Some (Handler_Init c),
      cm_methods := names \<rparr>) (w \<lparr> mw_mgr := mgr \<rparr>)"
    obtain e where e: "hk_OnInit hk c w2 = (e, w2)" using hook [of c w2] by blast
    let ?w1 = "set_mod c ((mw_mods w c) \<lparr> cm_parent := Some m, cm_root := True, cm_moduleName := name, cm_handler := Some (Handler_Init c) \<rparr>) w"
    have w2: "set_mod c ((mw_mods ?w1 c) \<lparr> cm_methods := names \<rparr>) (?w1 \<lparr> mw_mgr := mgr \<rparr>) = w2" by (simp add: w2_def set_mod_def)
    have "mw_mgr ?w1 = mw_mgr w" by (simp add: set_mod_def)
    then have "attach_module hk idx exported m c mid name ro ms w =
       (case e of
          Some e \<Rightarrow> (Inl (Err_init e), w2)
        | None \<Rightarrow> (Inr mid, (set_mod m ((mw_mods w2 m) \<lparr> cm_children := gm_set (cm_children (mw_mods w2 m)) mid c \<rparr>) w2) \<lparr> mw_rootContains := gm_set (mw_rootContains w2) mid c \<rparr>))"
      using False reg w2 e by (cases e) (simp_all add: attach_module_def Let_def set_mod_def)
    then show ?thesis using assms(2) by (auto simp: attached_to_def w2_def set_mod_def split: option.splits)
  qed
qed

lemma AddModule_cases:
  assumes "\<And>r w. snd (hk_OnInit hk r w) = w" "cm_moduleId (mw_mods w c) = 0" "mw_moduleIdSeed w + 1 < 2 ^ 32"
    and "AddModule hk idx exported m (Some c) name ro ms w = (res, w1)"
  shows "mw_moduleIdSeed w \<le> mw_moduleIdSeed w1 \<and>
    (\<forall>r. r \<noteq> c \<longrightarrow> cm_moduleId (mw_mods w1 r) = cm_moduleId (mw_mods w r) \<and> cm_handler (mw_mods w1 r) = cm_handler (mw_mods w r)) \<and>
    (case res of
       Inl e \<Rightarrow> mw_rootContains w1 = mw_rootContains w \<and> (\<forall>r. cm_children (mw_mods w1 r) = cm_children (mw_mods w r))
     | Inr mid \<Rightarrow> mid = mw_moduleIdSeed w + 1 \<and> cm_moduleId (mw_mods w1 c) = mid \<and> cm_handler (mw_mods w1 c) \<noteq> None \<and> mw_moduleIdSeed w1 = mid \<and> mw_rootContains w1 = gm_set (mw_rootContains w) mid c \<and>
         (\<forall>r. cm_children (mw_mods w1 r) = (if r = m then gm_set (cm_children (mw_mods w m)) mid c else cm_children (mw_mods w r))))"
proof (cases "(\<exists>mh. cm_handler (mw_mods w m) = Some mh \<and> h_trigger mh) \<and> cm_root (mw_mods w m)")
  case True
  define w0 where "w0 = set_mod c ((mw_mods w c) \<lparr> cm_moduleId := mw_moduleIdSeed w + 1 \<rparr>) (w \<lparr> mw_moduleIdSeed := mw_moduleIdSeed w + 1 \<rparr>)"
  have "attach_module hk idx exported m c (mw_moduleIdSeed w + 1) name ro ms w0 = (res, w1)"
    using True assms(2-4) by (auto simp: AddModule_def newModuleID_def w0_def)
  then have "attached_to m c (mw_moduleIdSeed w + 1) w0 res w1" by (rule attach_module_cases [OF assms(1)])
  then show ?thesis by (cases res) (simp_all add: attached_to_def w0_def set_mod_def)
next
  case False
  then show ?thesis using assms(4) by (auto simp: AddModule_def split: option.splits if_splits)
qed

text \<open>
  C34. Adding a module that is new (it has no identifier and no children yet) and whose \<open>OnInit\<close> leaves the tree alone keeps the order of the tree whether it succeeds or fails, as
  long as the 32-bit seed does not wrap around; when it succeeds, the module has a new identifier under which both its parent and the service find it.
\<close>

theorem AddModule_keeps_tree:
  assumes "tree_ok w" "cm_moduleId (mw_mods w c) = 0" "cm_children (mw_mods w c) = []" "c \<noteq> m" "mw_moduleIdSeed w + 1 < 2 ^ 32"
    and "\<And>r w. snd (hk_OnInit hk r w) = w" "AddModule hk idx exported m (Some c) name ro ms w = (res, w1)"
  shows "tree_ok w1 \<and>
    (\<forall>mid. res = Inr mid \<longrightarrow> gm_get (mw_rootContains w) mid = None \<and> cm_moduleId (mw_mods w1 c) = mid \<and>
       gm_get (mw_rootContains w1) mid = Some c \<and> gm_get (cm_children (mw_mods w1 m)) mid = Some c)"
proof -
  note C = AddModule_cases [OF assms(6,2,5,7)]
  have other: "d \<noteq> c" if "gm_get (mw_rootContains w) i = Some d" for i d using tree_okD(1,3) [OF assms(1) that] assms(2) by auto
  show ?thesis
  proof (cases res)
    case (Inl e)
    have "tree_ok w1" unfolding tree_ok_def
    proof (intro allI impI)
      fix i d
      assume "gm_get (mw_rootContains w1) i = Some d"
      then have "gm_get (mw_rootContains w) i = Some d" using C Inl by simp
      from tree_okD [OF assms(1) this] other [OF this]
      show "0 < i \<and> i \<le> mw_moduleIdSeed w1 \<and> cm_moduleId (mw_mods w1 d) = i \<and> cm_handler (mw_mods w1 d) \<noteq> None \<and> (\<forall>j \<in> set (gm_keys (cm_children (mw_mods w1 d))). i < j)"
        using C Inl by auto
    qed
    then show ?thesis using Inl by simp
  next
    case (Inr mid)
    have F: "mid = mw_moduleIdSeed w + 1" "mw_moduleIdSeed w1 = mid" "mw_rootContains w1 = gm_set (mw_rootContains w) mid c"
      "cm_moduleId (mw_mods w1 c) = mid" "cm_handler (mw_mods w1 c) \<noteq> None"
      "cm_children (mw_mods w1 r) = (if r = m then gm_set (cm_children (mw_mods w m)) mid c else cm_children (mw_mods w r))" for r
      using C Inr by simp_all
    have fresh: "gm_get (mw_rootContains w) mid = None"
    proof (cases "gm_get (mw_rootContains w) mid")
      case (Some d)
      then show ?thesis using tree_okD(2) [OF assms(1) Some] F(1) by simp
    qed simp
    have "tree_ok w1" unfolding tree_ok_def
    proof (intro allI impI)
      fix i d
      assume d: "gm_get (mw_rootContains w1) i = Some d"
      show "0 < i \<and> i \<le> mw_moduleIdSeed w1 \<and> cm_moduleId (mw_mods w1 d) = i \<and> cm_handler (mw_mods w1 d) \<noteq> None \<and> (\<forall>j \<in> set (gm_keys (cm_children (mw_mods w1 d))). i < j)"
      proof (cases "i = mid")
        case True
        then have "d = c" using d by (simp add: F(3) gm_get_set)
        then show ?thesis using True F(1,2,4,5) F(6) [of c] assms(3,4) by simp
      next
        case False
        then have i: "gm_get (mw_rootContains w) i = Some d" using d by (simp add: F(3) gm_get_set)
        note t = tree_okD [OF assms(1) i]
        have "cm_moduleId (mw_mods w1 d) = i" "cm_handler (mw_mods w1 d) \<noteq> None" using C other [OF i] t(3,4) by simp_all
        moreover have "i < j" if "j \<in> set (gm_keys (cm_children (mw_mods w1 d)))" for j
          using that t(2,5) F(1) by (auto simp: F(6) split: if_splits dest!: gm_set_mem)
        ultimately show ?thesis using t(1,2) F(1,2) by auto
      qed
    qed
    then show ?thesis using Inr fresh F(4) by (simp add: F(3,6) gm_get_set)
  qed
qed

text \<open>A service with two methods.\<close>

definition no_hooks :: module_hooks where
  "no_hooks = \<lparr> hk_OnInit = (\<lambda>r w. (None, w)), hk_OnRelease = (\<lambda>r w. w) \<rparr>"

definition demo_service :: module_world where
  "demo_service =
     initModule 0 ''Game'' [''RpcGet'', ''RpcSet'']
       \<lparr> mw_mods = (\<lambda>r. zero_module), mw_rootContains = [], mw_moduleIdSeed = 0, mw_proc = Processor_Init None, mw_bus = nats_bus, mw_mgr = demo_mgr \<rparr>"

definition bag_method :: go_method where
  "bag_method = demo_get \<lparr> gm_name := ''RpcBag'' \<rparr>"

definition bag_mgr :: method_mgr where
  "bag_mgr = fst (snd (registerMethod NewMethodIndex (\<lambda>_. True) [] [bag_method] demo_mgr))"

lemma bag_registers: "registerMethod NewMethodIndex (\<lambda>_. True) [] [bag_method] demo_mgr = (None, bag_mgr, [''RpcBag''])"
proof -
  have "fst (registerMethod NewMethodIndex (\<lambda>_. True) [] [bag_method] demo_mgr) = None" by code_simp
  moreover have "snd (snd (registerMethod NewMethodIndex (\<lambda>_. True) [] [bag_method] demo_mgr)) = [''RpcBag'']" by code_simp
  ultimately show ?thesis by (simp add: prod_eq_iff bag_mgr_def)
qed

definition demo_child :: module_world where
  "demo_child = snd (AddModule no_hooks NewMethodIndex (\<lambda>_. True) 0 (Some 1) ''Bag'' [] [bag_method] demo_service)"

lemma demo_service_ok: "tree_ok demo_service"
  by (simp add: tree_ok_def demo_service_def initModule_def set_mod_def)

theorem AddModule_keeps_tree_witness:
  "tree_ok demo_child"
proof (rule AddModule_keeps_tree [OF demo_service_ok, THEN conjunct1])
  show "AddModule no_hooks NewMethodIndex (\<lambda>_. True) 0 (Some 1) ''Bag'' [] [bag_method] demo_service =
     (fst (AddModule no_hooks NewMethodIndex (\<lambda>_. True) 0 (Some 1) ''Bag'' [] [bag_method] demo_service), demo_child)"
    by (simp add: demo_child_def)
qed (simp_all add: demo_service_def initModule_def set_mod_def zero_module_def no_hooks_def DefaultModuleIdSeed_def)


lemma demo_child_eqs:
  "mw_rootContains demo_child = [(1000001, 1)]" "mw_moduleIdSeed demo_child = 1000001" "cm_root (mw_mods demo_child 0)"
  "cm_methods (mw_mods demo_child 0) = [''RpcGet'', ''RpcSet'']" "cm_children (mw_mods demo_child 1) = []"
  "mw_mgr demo_child = bag_mgr"
  by (simp_all add: bag_registers demo_child_def AddModule_def attach_module_def newModuleID_def demo_service_def initModule_def set_mod_def zero_module_def no_hooks_def
      DefaultModuleIdSeed_def Handler_Init_def)

lemma demo_child_fields: "cm_moduleId (mw_mods demo_child 1) = 1000001" "cm_handler (mw_mods demo_child 1) \<noteq> None"
  by (simp_all add: bag_registers demo_child_def AddModule_def attach_module_def newModuleID_def demo_service_def initModule_def set_mod_def zero_module_def no_hooks_def
      DefaultModuleIdSeed_def Handler_Init_def)

lemma demo_child_tree: "tree_ok demo_child"
  using demo_child_eqs(5) demo_child_fields by (simp add: tree_ok_def demo_child_eqs(1,2))

lemma demo_child_subtree: "subtree demo_child 1000001 = {1000001}"
  using subtree_unfold [of demo_child 1000001 1] demo_child_eqs(5) by (simp add: demo_child_eqs(1))


end
