(* ===== verification/Authz.thy ===== *)
theory Authz
  imports Ember_Prelude "HOL-Library.Sublist"
begin

text \<open>
  Who may call which method: \<open>engine/pkg/authz/authz.go\<close> (roles, bindings and the decision), \<open>policy.go\<close> (policy snapshots) and \<open>watcher.go\<close> (loading and following the
  policy of a store).

  Error texts are kept only where they name what is wrong. \<open>strings.TrimSpace\<close> is modelled for the ASCII space characters. The stores are arguments: what \<open>Load\<close> returned
  and the events of \<open>Watch\<close>.
\<close>

section \<open>Definitions\<close>

record principal =
  ServiceType :: string
  ServiceName :: string
  NodeUid :: string

datatype authz_err =
    No_roles string | Denied principal string | Nil_snapshot | Nil_role string | Bad_permission string string
  | Nil_binding string | No_serviceTypes string | No_binding_roles string | Unknown_role string string | Load_failed | Watch_failed

record authorizer =
  az_roles :: "(string, string list) gomap"
  az_bindings :: "(string, string list) gomap"
  az_enabled :: bool
  az_revision :: int

definition NewAuthorizer :: authorizer where
  "NewAuthorizer = \<lparr> az_roles = [], az_bindings = [], az_enabled = False, az_revision = 0 \<rparr>"

definition Enable :: "bool \<Rightarrow> authorizer \<Rightarrow> authorizer" where
  "Enable on a = a \<lparr> az_enabled := on \<rparr>"

definition appendUnique :: "string list \<Rightarrow> string \<Rightarrow> string list" where
  "appendUnique xs x = (if x \<in> set xs then xs else xs @ [x])"

definition removeStr :: "string list \<Rightarrow> string \<Rightarrow> string list" where
  "removeStr xs x = remove1 x xs"

definition AddRole :: "string \<Rightarrow> string list \<Rightarrow> authorizer \<Rightarrow> authorizer" where
  "AddRole name permissions a = a \<lparr> az_roles := gm_set (az_roles a) name permissions \<rparr>"

definition RemoveRole :: "string \<Rightarrow> authorizer \<Rightarrow> authorizer" where
  "RemoveRole name a = a \<lparr> az_roles := gm_del (az_roles a) name \<rparr>"

definition roles_of :: "(string, string list) gomap \<Rightarrow> string \<Rightarrow> string list" where
  "roles_of bindings svcType = (case gm_get bindings svcType of Some rs \<Rightarrow> rs | None \<Rightarrow> [])"

definition bind_role :: "string \<Rightarrow> string \<Rightarrow> (string, string list) gomap \<Rightarrow> (string, string list) gomap" where
  "bind_role roleName svcType bindings = gm_set bindings svcType (appendUnique (roles_of bindings svcType) roleName)"

definition BindRole :: "string \<Rightarrow> string \<Rightarrow> authorizer \<Rightarrow> authorizer" where
  "BindRole roleName svcType a = a \<lparr> az_bindings := bind_role roleName svcType (az_bindings a) \<rparr>"

definition UnbindRole :: "string \<Rightarrow> string \<Rightarrow> authorizer \<Rightarrow> authorizer" where
  "UnbindRole roleName svcType a =
     (case gm_get (az_bindings a) svcType of
        None \<Rightarrow> a
      | Some roles \<Rightarrow> a \<lparr> az_bindings := gm_set (az_bindings a) svcType (removeStr roles roleName) \<rparr>)"

definition matchPermission :: "string \<Rightarrow> string \<Rightarrow> bool" where
  "matchPermission pat res \<longleftrightarrow>
     pat = ''*'' \<or> (if suffix ''*'' pat then prefix (butlast pat) res else pat = res)"

definition Authorize :: "principal \<Rightarrow> string \<Rightarrow> string \<Rightarrow> authorizer \<Rightarrow> authz_err option" where
  "Authorize caller targetService meth a =
     (if \<not> az_enabled a then None
      else let roleNames = roles_of (az_bindings a) (ServiceType caller); res = targetService @ ''.'' @ meth
           in if roleNames = [] then Some (No_roles (ServiceType caller))
              else if list_ex (\<lambda>rn. case gm_get (az_roles a) rn of None \<Rightarrow> False | Some perms \<Rightarrow> list_ex (\<lambda>p. matchPermission p res) perms) roleNames then None
              else Some (Denied caller res))"

subsection \<open>Policy snapshots\<close>

record policy_binding =
  pb_ServiceTypes :: "string list"
  pb_Roles :: "string list"

text \<open>Roles and bindings are pointers in maps: \<open>None\<close> is a nil pointer.\<close>

record policy_snapshot =
  ps_Version :: int
  ps_Revision :: int
  ps_Roles :: "(string, string list option) gomap"
  ps_Bindings :: "(string, policy_binding option) gomap"

text \<open>A permission is well formed: \<open>strings.Index(perm, ".")\<close> has to be positive.\<close>

definition validatePermission :: "string \<Rightarrow> bool" where
  "validatePermission perm0 =
     (let perm = TrimSpace perm0
      in if perm = [] then False else if perm = ''*'' then True else CHR ''.'' \<in> set perm \<and> hd perm \<noteq> CHR ''.'')"

fun first_error :: "('a \<Rightarrow> authz_err option) \<Rightarrow> 'a list \<Rightarrow> authz_err option" where
  "first_error f [] = None"
| "first_error f (x # xs) = (case f x of Some e \<Rightarrow> Some e | None \<Rightarrow> first_error f xs)"

definition check_role :: "string \<times> string list option \<Rightarrow> authz_err option" where
  "check_role x =
     (case snd x of
        None \<Rightarrow> Some (Nil_role (fst x))
      | Some perms \<Rightarrow> first_error (\<lambda>p. if validatePermission p then None else Some (Bad_permission (fst x) p)) perms)"

definition check_binding :: "(string, string list option) gomap \<Rightarrow> string \<times> policy_binding option \<Rightarrow> authz_err option" where
  "check_binding roles x =
     (case snd x of
        None \<Rightarrow> Some (Nil_binding (fst x))
      | Some b \<Rightarrow>
          if pb_ServiceTypes b = [] then Some (No_serviceTypes (fst x))
          else if pb_Roles b = [] then Some (No_binding_roles (fst x))
          else first_error (\<lambda>r. if gm_get roles r = None then Some (Unknown_role (fst x) r) else None) (pb_Roles b))"

definition Validate :: "policy_snapshot \<Rightarrow> authz_err option" where
  "Validate s =
     (case first_error check_role (ps_Roles s) of Some e \<Rightarrow> Some e | None \<Rightarrow> first_error (check_binding (ps_Roles s)) (ps_Bindings s))"

fun normalize_perms :: "string list \<Rightarrow> string list \<Rightarrow> string list" where
  "normalize_perms seen [] = []"
| "normalize_perms seen (p # ps) =
     (let perm = TrimSpace p
      in if perm = [] \<or> perm \<in> set seen then normalize_perms seen ps else perm # normalize_perms (perm # seen) ps)"

definition Normalize :: "policy_snapshot \<Rightarrow> policy_snapshot" where
  "Normalize s = s \<lparr> ps_Roles := map (\<lambda>(n, r). (n, map_option (normalize_perms []) r)) (ps_Roles s) \<rparr>"

definition bind_all :: "policy_binding \<Rightarrow> (string, string list) gomap \<Rightarrow> (string, string list) gomap" where
  "bind_all b = fold (\<lambda>t. fold (\<lambda>r. bind_role r t) (pb_Roles b)) (pb_ServiceTypes b)"

definition policy_roles :: "policy_snapshot \<Rightarrow> (string, string list) gomap" where
  "policy_roles s = map (\<lambda>(n, r). (n, the r)) (ps_Roles s)"

definition policy_bindings :: "policy_snapshot \<Rightarrow> (string, string list) gomap" where
  "policy_bindings s = fold (\<lambda>x. bind_all (the (snd x))) (ps_Bindings s) []"

definition ApplySnapshot :: "policy_snapshot option \<Rightarrow> authorizer \<Rightarrow> authz_err option \<times> authorizer" where
  "ApplySnapshot snapshot a =
     (case snapshot of
        None \<Rightarrow> (Some Nil_snapshot, a)
      | Some s0 \<Rightarrow>
          case Validate s0 of
            Some e \<Rightarrow> (Some e, a)
          | None \<Rightarrow> let s = Normalize s0 in (None, a \<lparr> az_roles := policy_roles s, az_bindings := policy_bindings s, az_revision := ps_Revision s \<rparr>))"

definition Snapshot :: "authorizer \<Rightarrow> policy_snapshot" where
  "Snapshot a =
     \<lparr> ps_Version = 0, ps_Revision = az_revision a, ps_Roles = map (\<lambda>(n, ps). (n, Some ps)) (az_roles a),
       ps_Bindings = map (\<lambda>(t, rs). (t, Some \<lparr> pb_ServiceTypes = [t], pb_Roles = rs \<rparr>)) (az_bindings a) \<rparr>"

subsection \<open>The watcher\<close>

datatype policy_event = EventUpdate "policy_snapshot option" | EventDelete | EventError

definition handleEvent :: "policy_event \<Rightarrow> authorizer \<Rightarrow> authorizer" where
  "handleEvent evt a =
     (case evt of
        EventUpdate None \<Rightarrow> a
      | EventUpdate (Some s) \<Rightarrow> snd (ApplySnapshot (Some s) a)
      | EventDelete \<Rightarrow> a
      | EventError \<Rightarrow> a)"

text \<open>\<open>Start\<close>: \<open>load\<close> is what the store returned, \<open>Inl\<close> for an error; \<open>watch\<close> says whether \<open>Watch\<close> succeeded.\<close>

definition Watcher_Start :: "bool \<Rightarrow> unit + policy_snapshot option \<Rightarrow> bool \<Rightarrow> authorizer \<Rightarrow> authz_err option \<times> authorizer" where
  "Watcher_Start failOpen load watch a =
     (case load of
        Inl u \<Rightarrow> if \<not> failOpen then (Some Load_failed, a) else if watch then (None, a) else (Some Watch_failed, a)
      | Inr snapshot \<Rightarrow>
          (case ApplySnapshot snapshot a of
             (Some e, a1) \<Rightarrow> if \<not> failOpen then (Some e, a1) else if watch then (None, a1) else (Some Watch_failed, a1)
           | (None, a1) \<Rightarrow> if watch then (None, a1) else (Some Watch_failed, a1)))"

section \<open>Abstract policies\<close>

text \<open>A policy without representation: which role has which permission, and which type of service has which role.\<close>

record policy =
  po_grants :: "(string \<times> string) set"
  po_binds :: "(string \<times> string) set"

definition abs_policy :: "authorizer \<Rightarrow> policy" where
  "abs_policy a =
     \<lparr> po_grants = {(r, p). \<exists>ps. gm_get (az_roles a) r = Some ps \<and> p \<in> set ps}, po_binds = {(t, r). r \<in> set (roles_of (az_bindings a) t)} \<rparr>"

definition covers :: "string \<Rightarrow> string \<Rightarrow> bool" where
  "covers perm res \<longleftrightarrow> perm = ''*'' \<or> perm = res \<or> (\<exists>start rest. perm = start @ ''*'' \<and> res = start @ rest)"

definition may_call :: "policy \<Rightarrow> string \<Rightarrow> string \<Rightarrow> bool" where
  "may_call po svcType res \<longleftrightarrow> (\<exists>r p. (svcType, r) \<in> po_binds po \<and> (r, p) \<in> po_grants po \<and> covers p res)"

datatype authz_op = O_AddRole string "string list" | O_RemoveRole string | O_BindRole string string | O_UnbindRole string string

fun authz_step :: "authz_op \<Rightarrow> authorizer \<Rightarrow> authorizer" where
  "authz_step (O_AddRole n ps) a = AddRole n ps a"
| "authz_step (O_RemoveRole n) a = RemoveRole n a"
| "authz_step (O_BindRole r t) a = BindRole r t a"
| "authz_step (O_UnbindRole r t) a = UnbindRole r t a"

fun policy_step :: "authz_op \<Rightarrow> policy \<Rightarrow> policy" where
  "policy_step (O_AddRole n ps) po = po \<lparr> po_grants := {(r, p) \<in> po_grants po. r \<noteq> n} \<union> Pair n ` set ps \<rparr>"
| "policy_step (O_RemoveRole n) po = po \<lparr> po_grants := {(r, p) \<in> po_grants po. r \<noteq> n} \<rparr>"
| "policy_step (O_BindRole r t) po = po \<lparr> po_binds := insert (t, r) (po_binds po) \<rparr>"
| "policy_step (O_UnbindRole r t) po = po \<lparr> po_binds := po_binds po - {(t, r)} \<rparr>"

section \<open>The decision\<close>

text \<open>Bindings never hold a role twice, so that unbinding, which removes one occurrence, removes the role.\<close>

definition binds_distinct :: "(string, string list) gomap \<Rightarrow> bool" where
  [inv_defs]: "binds_distinct bs \<longleftrightarrow> (\<forall>t. distinct (roles_of bs t))"

lemma roles_of_set: "roles_of (gm_set bs t rs) t' = (if t' = t then rs else roles_of bs t')"
  by (simp add: roles_of_def gm_get_set)

lemma roles_of_bind: "roles_of (bind_role r t bs) t' = (if t' = t then appendUnique (roles_of bs t) r else roles_of bs t')"
  by (simp add: bind_role_def roles_of_set)

lemma set_appendUnique [simp]: "set (appendUnique xs x) = insert x (set xs)"
  by (auto simp: appendUnique_def)

lemma distinct_appendUnique [simp]: "distinct xs \<Longrightarrow> distinct (appendUnique xs x)"
  by (simp add: appendUnique_def)

lemma roles_of_unbind: "roles_of (az_bindings (UnbindRole r t a)) t' = (if t' = t then remove1 r (roles_of (az_bindings a) t) else roles_of (az_bindings a) t')"
  by (cases "gm_get (az_bindings a) t") (simp_all add: UnbindRole_def roles_of_def gm_get_set removeStr_def)

lemma az_roles_unbind [simp]: "az_roles (UnbindRole r t a) = az_roles a"
  by (simp add: UnbindRole_def split: option.split)

lemma step_distinct: "binds_distinct (az_bindings a) \<Longrightarrow> binds_distinct (az_bindings (authz_step op a))"
  by (cases op) (simp_all add: binds_distinct_def AddRole_def RemoveRole_def BindRole_def roles_of_bind roles_of_unbind)

lemma step_enabled [simp]: "az_enabled (authz_step op a) = az_enabled a"
  by (cases op) (simp_all add: AddRole_def RemoveRole_def BindRole_def UnbindRole_def split: option.split)

lemma step_refines: "binds_distinct (az_bindings a) \<Longrightarrow> abs_policy (authz_step op a) = policy_step op (abs_policy a)"
proof (cases op)
  case (O_UnbindRole r t)
  assume "binds_distinct (az_bindings a)"
  then have "distinct (roles_of (az_bindings a) t)" by (simp add: binds_distinct_def)
  then have "set (remove1 r (roles_of (az_bindings a) t)) = set (roles_of (az_bindings a) t) - {r}" by (rule set_remove1_eq)
  then have "r' \<in> set (roles_of (az_bindings (UnbindRole r t a)) t') \<longleftrightarrow> r' \<in> set (roles_of (az_bindings a) t') \<and> (t', r') \<noteq> (t, r)" for t' r'
    by (simp add: roles_of_unbind)
  then show ?thesis using O_UnbindRole by (simp add: abs_policy_def set_eq_iff split_paired_all)
qed (auto simp: abs_policy_def AddRole_def RemoveRole_def BindRole_def roles_of_bind gm_get_set gm_get_del split: if_splits)

lemma match_covers: "matchPermission p res \<longleftrightarrow> covers p res"
proof (cases "suffix ''*'' p")
  case True
  then obtain start where "p = start @ ''*''" by (auto simp: suffix_def)
  then show ?thesis by (auto simp: matchPermission_def covers_def prefix_def)
next
  case False
  then show ?thesis by (auto simp: matchPermission_def covers_def suffix_def)
qed

lemma Authorize_may_call:
  assumes "az_enabled a"
  shows "Authorize caller svc meth a = None \<longleftrightarrow> may_call (abs_policy a) (ServiceType caller) (svc @ ''.'' @ meth)"
  using assms
  by (auto simp: Authorize_def Let_def may_call_def abs_policy_def list_ex_iff match_covers split: option.splits) (metis option.inject)

lemma policy_run_refines:
  "binds_distinct (az_bindings a) \<Longrightarrow> abs_policy (fold authz_step ops a) = fold policy_step ops (abs_policy a) \<and> az_enabled (fold authz_step ops a) = az_enabled a"
  by (induction ops arbitrary: a) (simp_all add: step_distinct step_refines)

text \<open>
  C15. Roles and bindings refine the abstract policy, and the decision follows it: after any sequence of the four operations an enabled authorizer allows a call exactly when some
  role bound to the caller's type of service has a permission that covers the method.
\<close>

theorem Authorize_refines_policy:
  assumes "a = fold authz_step ops (Enable True NewAuthorizer)"
  shows "abs_policy a = fold policy_step ops \<lparr> po_grants = {}, po_binds = {} \<rparr> \<and>
    (Authorize caller svc meth a = None \<longleftrightarrow> may_call (fold policy_step ops \<lparr> po_grants = {}, po_binds = {} \<rparr>) (ServiceType caller) (svc @ ''.'' @ meth))"
proof -
  have "binds_distinct (az_bindings (Enable True NewAuthorizer))" by (simp add: binds_distinct_def Enable_def NewAuthorizer_def roles_of_def)
  from policy_run_refines [OF this, of ops] have "abs_policy a = fold policy_step ops (abs_policy (Enable True NewAuthorizer))" "az_enabled a"
    by (simp_all add: assms) (simp add: Enable_def)
  moreover have "abs_policy (Enable True NewAuthorizer) = \<lparr> po_grants = {}, po_binds = {} \<rparr>" by (simp add: abs_policy_def Enable_def NewAuthorizer_def roles_of_def)
  ultimately show ?thesis using Authorize_may_call [of a caller svc meth] by simp
qed

definition game_caller :: principal where
  "game_caller = \<lparr> ServiceType = ''game'', ServiceName = ''GameService'', NodeUid = ''n1'' \<rparr>"

definition game_ops :: "authz_op list" where
  "game_ops = [O_AddRole ''reader'' [''Data.Get*'', ''Cache.*''], O_BindRole ''reader'' ''game'', O_BindRole ''reader'' ''game'', O_BindRole ''admin'' ''game'', O_UnbindRole ''admin'' ''game'']"

theorem Authorize_refines_policy_witness:
  "Authorize game_caller ''Data'' ''GetUser'' (fold authz_step game_ops (Enable True NewAuthorizer)) = None \<and>
   may_call (fold policy_step game_ops \<lparr> po_grants = {}, po_binds = {} \<rparr>) (ServiceType game_caller) (''Data'' @ ''.'' @ ''GetUser'')"
proof -
  have "Authorize game_caller ''Data'' ''GetUser'' (fold authz_step game_ops (Enable True NewAuthorizer)) = None" by code_simp
  then show ?thesis using Authorize_refines_policy [OF refl, of game_ops game_caller "''Data''" "''GetUser''"] by blast
qed

section \<open>Snapshots\<close>

lemma first_error_None: "first_error f xs = None \<longleftrightarrow> (\<forall>x \<in> set xs. f x = None)"
  by (induction xs) (auto split: option.splits)

lemma gm_get_map_values: "gm_get (map (\<lambda>(n, r). (n, f r)) m) k = map_option f (gm_get m k)"
  by (induction m) auto

lemma roles_of_fold_bind: "set (roles_of (fold (\<lambda>r. bind_role r t) rs bs) t') = (if t' = t then set rs else {}) \<union> set (roles_of bs t')"
  by (induction rs arbitrary: bs) (auto simp: roles_of_bind)

lemma roles_of_bind_all: "set (roles_of (bind_all b bs) t) = (if t \<in> set (pb_ServiceTypes b) then set (pb_Roles b) else {}) \<union> set (roles_of bs t)"
proof -
  have "set (roles_of (fold (\<lambda>t. fold (\<lambda>r. bind_role r t) rs) ts bs) t) = (if t \<in> set ts then set rs else {}) \<union> set (roles_of bs t)" for ts rs
    by (induction ts arbitrary: bs) (auto simp: roles_of_fold_bind)
  then show ?thesis by (simp add: bind_all_def)
qed

lemma roles_of_policy: "set (roles_of (policy_bindings s) t) = {r. \<exists>x \<in> set (ps_Bindings s). t \<in> set (pb_ServiceTypes (the (snd x))) \<and> r \<in> set (pb_Roles (the (snd x)))}"
proof -
  have "set (roles_of (fold (\<lambda>x. bind_all (the (snd x))) xs bs) t) =
     {r. \<exists>x \<in> set xs. t \<in> set (pb_ServiceTypes (the (snd x))) \<and> r \<in> set (pb_Roles (the (snd x)))} \<union> set (roles_of bs t)"
    for xs :: "(string \<times> policy_binding option) list" and bs
    by (induction xs arbitrary: bs) (auto simp: roles_of_bind_all split: if_splits)
  then show ?thesis by (simp add: policy_bindings_def roles_of_def)
qed

lemma set_normalize: "set (normalize_perms seen ps) = {p \<in> TrimSpace ` set ps. p \<noteq> []} - set seen"
  by (induction seen ps rule: normalize_perms.induct) (auto simp: Let_def)

lemma policy_roles_get:
  assumes "\<forall>x \<in> set (ps_Roles s). snd x \<noteq> None"
  shows "gm_get (policy_roles (Normalize s)) r = map_option (normalize_perms [] \<circ> the) (gm_get (ps_Roles s) r)"
proof (cases "gm_get (ps_Roles s) r")
  case (Some x)
  then have "x \<noteq> None" using assms gm_get_mem [OF Some] by fastforce
  then show ?thesis using Some by (auto simp del: map_map simp: policy_roles_def Normalize_def gm_get_map_values)
qed (simp del: map_map add: policy_roles_def Normalize_def gm_get_map_values)

text \<open>What the text of a snapshot grants, read off it directly.\<close>

definition snapshot_allows :: "policy_snapshot \<Rightarrow> string \<Rightarrow> string \<Rightarrow> bool" where
  "snapshot_allows s svcType res \<longleftrightarrow>
     (\<exists>n b r perms p. (n, Some b) \<in> set (ps_Bindings s) \<and> svcType \<in> set (pb_ServiceTypes b) \<and> r \<in> set (pb_Roles b) \<and>
        gm_get (ps_Roles s) r = Some (Some perms) \<and> p \<in> set perms \<and> covers (TrimSpace p) res)"

lemma check_role_None: "check_role x = None \<longleftrightarrow> (\<exists>perms. snd x = Some perms \<and> (\<forall>p \<in> set perms. validatePermission p))"
  by (cases "snd x") (simp_all add: check_role_def first_error_None)

lemma check_binding_None:
  "check_binding roles x = None \<longleftrightarrow>
     (\<exists>b. snd x = Some b \<and> pb_ServiceTypes b \<noteq> [] \<and> pb_Roles b \<noteq> [] \<and> (\<forall>r \<in> set (pb_Roles b). gm_get roles r \<noteq> None))"
  by (cases "snd x") (simp_all add: check_binding_def first_error_None)

lemma Validate_None:
  "Validate s = None \<longleftrightarrow>
     (\<forall>x \<in> set (ps_Roles s). \<exists>perms. snd x = Some perms \<and> (\<forall>p \<in> set perms. validatePermission p)) \<and>
     (\<forall>x \<in> set (ps_Bindings s). \<exists>b. snd x = Some b \<and> pb_ServiceTypes b \<noteq> [] \<and> pb_Roles b \<noteq> [] \<and> (\<forall>r \<in> set (pb_Roles b). gm_get (ps_Roles s) r \<noteq> None))"
  unfolding check_role_None [symmetric] check_binding_None [symmetric] first_error_None [symmetric] by (simp add: Validate_def split: option.split)

lemma ApplySnapshot_valid:
  "Validate s = None \<Longrightarrow> ApplySnapshot (Some s) a =
     (None, a \<lparr> az_roles := policy_roles (Normalize s), az_bindings := policy_bindings (Normalize s), az_revision := ps_Revision s \<rparr>)"
  by (simp add: ApplySnapshot_def Let_def Normalize_def)

text \<open>The abstract policy of a snapshot that was applied.\<close>

lemma applied_binds:
  assumes "Validate s = None"
  shows "r \<in> set (roles_of (policy_bindings (Normalize s)) t) \<longleftrightarrow> (\<exists>n b. (n, Some b) \<in> set (ps_Bindings s) \<and> t \<in> set (pb_ServiceTypes b) \<and> r \<in> set (pb_Roles b))"
proof -
  have V: "\<exists>b. snd x = Some b" if "x \<in> set (ps_Bindings s)" for x using assms that unfolding Validate_None by blast
  have "r \<in> set (roles_of (policy_bindings (Normalize s)) t) \<longleftrightarrow>
     (\<exists>x \<in> set (ps_Bindings s). t \<in> set (pb_ServiceTypes (the (snd x))) \<and> r \<in> set (pb_Roles (the (snd x))))"
    by (simp add: roles_of_policy Normalize_def)
  also have "\<dots> \<longleftrightarrow> (\<exists>n b. (n, Some b) \<in> set (ps_Bindings s) \<and> t \<in> set (pb_ServiceTypes b) \<and> r \<in> set (pb_Roles b))"
    using V by (metis option.sel prod.collapse snd_conv)
  finally show ?thesis .
qed

lemma applied_roles:
  assumes "Validate s = None"
  shows "gm_get (policy_roles (Normalize s)) r = map_option (normalize_perms [] \<circ> the) (gm_get (ps_Roles s) r)"
    "gm_get (ps_Roles s) r = Some x \<Longrightarrow> \<exists>perms. x = Some perms \<and> (\<forall>p \<in> set perms. validatePermission p)"
proof -
  have V: "\<forall>x \<in> set (ps_Roles s). \<exists>perms. snd x = Some perms \<and> (\<forall>p \<in> set perms. validatePermission p)" using assms unfolding Validate_None by blast
  then have "\<forall>x \<in> set (ps_Roles s). snd x \<noteq> None" by fastforce
  then show "gm_get (policy_roles (Normalize s)) r = map_option (normalize_perms [] \<circ> the) (gm_get (ps_Roles s) r)" by (rule policy_roles_get)
  assume "gm_get (ps_Roles s) r = Some x"
  then show "\<exists>perms. x = Some perms \<and> (\<forall>p \<in> set perms. validatePermission p)" using V gm_get_mem [of "ps_Roles s" r x] by fastforce
qed

lemma valid_not_blank: "validatePermission p \<Longrightarrow> TrimSpace p \<noteq> []"
  by (auto simp: validatePermission_def Let_def)

lemma applied_grants:
  assumes "Validate s = None"
  shows "(\<exists>ps. gm_get (policy_roles (Normalize s)) r = Some ps \<and> q \<in> set ps) \<longleftrightarrow> (\<exists>perms p. gm_get (ps_Roles s) r = Some (Some perms) \<and> p \<in> set perms \<and> q = TrimSpace p)"
proof (cases "gm_get (ps_Roles s) r")
  case (Some x)
  then obtain perms where x: "x = Some perms" "\<forall>p \<in> set perms. validatePermission p" using applied_roles(2) [OF assms] by blast
  then have "\<forall>p \<in> set perms. TrimSpace p \<noteq> []" by (simp add: valid_not_blank)
  then show ?thesis using Some x by (auto simp: applied_roles(1) [OF assms] set_normalize)
qed (simp add: applied_roles(1) [OF assms])

text \<open>
  C31. Applying a snapshot is all or nothing: a snapshot that does not validate changes nothing, and after a valid one an enabled authorizer allows exactly what the text of the
  snapshot grants, with the blanks around permissions removed.
\<close>

theorem ApplySnapshot_atomic:
  assumes "ApplySnapshot (Some s) a = (err, a1)"
  shows "(err \<noteq> None \<longrightarrow> a1 = a) \<and>
    (err = None \<longrightarrow> az_revision a1 = ps_Revision s \<and> az_enabled a1 = az_enabled a \<and>
       (az_enabled a \<longrightarrow> (Authorize caller svc meth a1 = None \<longleftrightarrow> snapshot_allows s (ServiceType caller) (svc @ ''.'' @ meth))))"
proof (cases "Validate s")
  case (Some e)
  then show ?thesis using assms by (auto simp: ApplySnapshot_def)
next
  case None
  have "err = None" and a1: "a1 = a \<lparr> az_roles := policy_roles (Normalize s), az_bindings := policy_bindings (Normalize s), az_revision := ps_Revision s \<rparr>"
    using assms ApplySnapshot_valid [OF None, of a] by simp_all
  moreover have "may_call (abs_policy a1) t res \<longleftrightarrow> snapshot_allows s t res" for t res
    by (simp add: a1 may_call_def snapshot_allows_def abs_policy_def applied_binds [OF None] applied_grants [OF None]) blast
  ultimately show ?thesis using Authorize_may_call [of a1 caller svc meth] by simp
qed

definition game_snapshot :: policy_snapshot where
  "game_snapshot = \<lparr> ps_Version = 1, ps_Revision = 7, ps_Roles = [(''reader'', Some ['' Data.Get* '', ''Cache.*''])],
     ps_Bindings = [(''b1'', Some \<lparr> pb_ServiceTypes = [''game'', ''gate''], pb_Roles = [''reader''] \<rparr>)] \<rparr>"

theorem ApplySnapshot_atomic_witness:
  "snapshot_allows game_snapshot ''game'' ''Data.GetUser'' \<and> \<not> snapshot_allows game_snapshot ''game'' ''Data.SetUser''"
proof -
  let ?a1 = "snd (ApplySnapshot (Some game_snapshot) (Enable True NewAuthorizer))"
  have ap: "ApplySnapshot (Some game_snapshot) (Enable True NewAuthorizer) = (None, ?a1)"
    by (subst prod_eq_iff) (simp, code_simp)
  have "Authorize game_caller ''Data'' ''GetUser'' ?a1 = None" "Authorize game_caller ''Data'' ''SetUser'' ?a1 \<noteq> None" by code_simp+
  then show ?thesis
    using ApplySnapshot_atomic [OF ap, of game_caller "''Data''" "''GetUser''"] ApplySnapshot_atomic [OF ap, of game_caller "''Data''" "''SetUser''"]
    by (auto simp: Enable_def game_caller_def)
qed

lemma dropWhile_idem: "dropWhile P (rev (dropWhile P (rev (dropWhile P xs)))) = rev (dropWhile P (rev (dropWhile P xs)))"
proof (cases "dropWhile P xs")
  case (Cons y ys)
  then have y: "\<not> P y" by (metis hd_dropWhile list.distinct(1) list.sel(1))
  have "dropWhile P (rev (y # ys)) = dropWhile P (rev ys) @ [y]" using y by (simp add: dropWhile_append)
  then show ?thesis using Cons y by simp
next
  case Nil
  then show ?thesis by (metis dropWhile.simps(1) rev.simps(1))
qed

lemma dropWhile_twice: "dropWhile P (dropWhile P xs) = dropWhile P xs"
  by (induction xs) auto

lemma TrimSpace_idem [simp]: "TrimSpace (TrimSpace p) = TrimSpace p"
  unfolding TrimSpace_def dropWhile_idem rev_rev_ident dropWhile_twice by (rule refl)

definition binds_ok :: "(string, string list) gomap \<Rightarrow> bool" where
  [inv_defs]: "binds_ok bs \<longleftrightarrow> gm_wf bs \<and> (\<forall>x \<in> set bs. snd x \<noteq> [])"

lemma bind_role_ok [simp]: "binds_ok bs \<Longrightarrow> binds_ok (bind_role r t bs)"
  by (auto simp: binds_ok_def bind_role_def appendUnique_def dest!: gm_set_mem split: if_splits)

lemma fold_bind_ok [simp]: "binds_ok bs \<Longrightarrow> binds_ok (fold (\<lambda>r. bind_role r t) rs bs)"
  by (induction rs arbitrary: bs) simp_all

lemma bind_all_ok [simp]: "binds_ok bs \<Longrightarrow> binds_ok (bind_all b bs)"
proof -
  have "binds_ok bs \<Longrightarrow> binds_ok (fold (\<lambda>t. fold (\<lambda>r. bind_role r t) (pb_Roles b)) ts bs)" for ts by (induction ts arbitrary: bs) simp_all
  then show "binds_ok bs \<Longrightarrow> binds_ok (bind_all b bs)" by (simp add: bind_all_def)
qed

lemma policy_bindings_ok: "binds_ok (policy_bindings s)"
proof -
  have "binds_ok bs \<Longrightarrow> binds_ok (fold (\<lambda>x. bind_all (the (snd x))) xs bs)" for xs :: "(string \<times> policy_binding option) list" and bs
    by (induction xs arbitrary: bs) simp_all
  moreover have "binds_ok []" by (simp add: binds_ok_def)
  ultimately show ?thesis unfolding policy_bindings_def by blast
qed

text \<open>A state whose snapshot is valid.\<close>

definition clean_state :: "authorizer \<Rightarrow> bool" where
  [inv_defs]: "clean_state a \<longleftrightarrow>
     binds_ok (az_bindings a) \<and> (\<forall>x \<in> set (az_bindings a). \<forall>r \<in> set (snd x). gm_get (az_roles a) r \<noteq> None) \<and>
     (\<forall>x \<in> set (az_roles a). \<forall>p \<in> set (snd x). validatePermission p \<and> TrimSpace p = p)"

lemma applied_clean:
  fixes a :: authorizer
  assumes "Validate s = None"
  shows "clean_state (a \<lparr> az_roles := policy_roles (Normalize s), az_bindings := policy_bindings (Normalize s), az_revision := v \<rparr>)"
proof -
  have ok: "binds_ok (policy_bindings (Normalize s))" by (rule policy_bindings_ok)
  have "gm_get (policy_roles (Normalize s)) r \<noteq> None" if x: "x \<in> set (policy_bindings (Normalize s))" "r \<in> set (snd x)" for x r
  proof -
    have "gm_get (policy_bindings (Normalize s)) (fst x) = Some (snd x)" using gm_get_in [of "policy_bindings (Normalize s)" "fst x" "snd x"] ok x(1) by (simp add: binds_ok_def)
    then have "r \<in> set (roles_of (policy_bindings (Normalize s)) (fst x))" using x(2) by (simp add: roles_of_def)
    then obtain n b where "(n, Some b) \<in> set (ps_Bindings s)" "r \<in> set (pb_Roles b)" unfolding applied_binds [OF assms] by blast
    then have "gm_get (ps_Roles s) r \<noteq> None" using assms unfolding Validate_None by fastforce
    then show ?thesis by (simp add: applied_roles(1) [OF assms])
  qed
  moreover have "validatePermission p \<and> TrimSpace p = p" if x: "x \<in> set (policy_roles (Normalize s))" "p \<in> set (snd x)" for x p
  proof -
    obtain n y where y: "(n, y) \<in> set (ps_Roles s)" "x = (n, the (map_option (normalize_perms []) y))" using x(1) by (auto simp: policy_roles_def Normalize_def)
    obtain perms where perms: "y = Some perms" "\<forall>q \<in> set perms. validatePermission q" using y(1) assms unfolding Validate_None by fastforce
    then obtain q where "q \<in> set perms" "p = TrimSpace q" using x(2) y(2) by (auto simp: set_normalize)
    then show ?thesis using perms(2) by (simp add: validatePermission_def)
  qed
  ultimately show ?thesis using ok by (simp add: clean_state_def)
qed

lemma clean_snapshot_valid:
  assumes "clean_state a"
  shows "Validate (Snapshot a) = None"
proof -
  have "gm_get (ps_Roles (Snapshot a)) r \<noteq> None" if "gm_get (az_roles a) r \<noteq> None" for r
    using that gm_get_map_values [of Some "az_roles a" r] by (simp add: Snapshot_def)
  then show ?thesis unfolding Validate_None using assms by (fastforce simp: clean_state_def binds_ok_def Snapshot_def)
qed

lemma clean_snapshot_abs:
  assumes "clean_state a"
  shows "abs_policy (snd (ApplySnapshot (Some (Snapshot a)) b)) = abs_policy a"
proof -
  note V = clean_snapshot_valid [OF assms]
  have roles: "gm_get (ps_Roles (Snapshot a)) r = map_option Some (gm_get (az_roles a) r)" for r
    using gm_get_map_values [of Some "az_roles a" r] by (simp add: Snapshot_def)
  have bind: "(\<exists>n bd. (n, Some bd) \<in> set (ps_Bindings (Snapshot a)) \<and> t \<in> set (pb_ServiceTypes bd) \<and> r \<in> set (pb_Roles bd)) \<longleftrightarrow> r \<in> set (roles_of (az_bindings a) t)" for t r
  proof -
    have "(\<exists>n bd. (n, Some bd) \<in> set (ps_Bindings (Snapshot a)) \<and> t \<in> set (pb_ServiceTypes bd) \<and> r \<in> set (pb_Roles bd)) \<longleftrightarrow> (\<exists>rs. (t, rs) \<in> set (az_bindings a) \<and> r \<in> set rs)"
      by (force simp: Snapshot_def)
    also have "\<dots> \<longleftrightarrow> r \<in> set (roles_of (az_bindings a) t)"
    proof -
      have "(t, rs) \<in> set (az_bindings a) \<longleftrightarrow> gm_get (az_bindings a) t = Some rs" for rs using assms gm_get_in [of "az_bindings a" t rs] by (simp add: clean_state_def binds_ok_def)
      then show ?thesis by (cases "gm_get (az_bindings a) t") (simp_all add: roles_of_def)
    qed
    finally show ?thesis .
  qed
  have grant: "(\<exists>perms. gm_get (ps_Roles (Snapshot a)) r = Some (Some perms) \<and> (\<exists>p. p \<in> set perms \<and> q = TrimSpace p)) \<longleftrightarrow> (\<exists>ps. gm_get (az_roles a) r = Some ps \<and> q \<in> set ps)" for r q
  proof -
    have "TrimSpace p = p" if "gm_get (az_roles a) r = Some ps" "p \<in> set ps" for ps p
      using gm_get_mem [OF that(1)] that(2) assms by (fastforce simp: clean_state_def)
    then show ?thesis by (force simp: roles)
  qed
  show ?thesis unfolding ApplySnapshot_valid [OF V] by (simp add: abs_policy_def applied_binds [OF V] applied_grants [OF V] bind grant)
qed

text \<open>
  Round trip: the snapshot of an authorizer to which a snapshot was applied can be applied again, to any authorizer, and carries the same policy and revision.
\<close>

theorem Snapshot_roundtrip:
  assumes "ApplySnapshot (Some s) a = (None, a1)"
  shows "fst (ApplySnapshot (Some (Snapshot a1)) b) = None \<and> abs_policy (snd (ApplySnapshot (Some (Snapshot a1)) b)) = abs_policy a1 \<and>
    az_revision (snd (ApplySnapshot (Some (Snapshot a1)) b)) = az_revision a1"
proof -
  have "Validate s = None" using assms by (auto simp: ApplySnapshot_def split: option.splits)
  then have "clean_state a1" using applied_clean [where a = a and s = s and v = "ps_Revision s"] ApplySnapshot_valid [of s a] assms by auto
  then show ?thesis using clean_snapshot_abs [of a1 b] ApplySnapshot_valid [OF clean_snapshot_valid, of a1 b] by (simp add: Snapshot_def)
qed

theorem Snapshot_roundtrip_witness:
  "fst (ApplySnapshot (Some (Snapshot (snd (ApplySnapshot (Some game_snapshot) NewAuthorizer)))) NewAuthorizer) = None"
proof -
  have "ApplySnapshot (Some game_snapshot) NewAuthorizer = (None, snd (ApplySnapshot (Some game_snapshot) NewAuthorizer))" by (subst prod_eq_iff) (simp, code_simp)
  from Snapshot_roundtrip [OF this, of NewAuthorizer] show ?thesis by (rule conjunct1)
qed

text \<open>
  A snapshot can go bad: once a role that is bound to a type of service is removed, the snapshot of the authorizer no longer validates, so that it cannot be applied again.
\<close>

theorem removed_role_breaks_snapshot:
  assumes "gm_wf (az_bindings a)" "r \<in> set (roles_of (az_bindings a) t)"
  shows "fst (ApplySnapshot (Some (Snapshot (RemoveRole r a))) b) \<noteq> None"
proof -
  have "gm_get (az_bindings a) t = Some (roles_of (az_bindings a) t)" using assms(2) by (cases "gm_get (az_bindings a) t") (simp_all add: roles_of_def)
  then have "(t, roles_of (az_bindings a) t) \<in> set (az_bindings a)" by (rule gm_get_mem)
  then have "(t, Some \<lparr> pb_ServiceTypes = [t], pb_Roles = roles_of (az_bindings a) t \<rparr>) \<in> set (ps_Bindings (Snapshot (RemoveRole r a)))"
    by (force simp: Snapshot_def RemoveRole_def)
  moreover have "gm_get (ps_Roles (Snapshot (RemoveRole r a))) r = None"
    using gm_get_map_values [of Some "gm_del (az_roles a) r" r] by (simp add: Snapshot_def RemoveRole_def gm_get_del)
  ultimately have "Validate (Snapshot (RemoveRole r a)) \<noteq> None" unfolding Validate_None using assms(2) by fastforce
  then show ?thesis by (auto simp: ApplySnapshot_def split: option.split)
qed

theorem removed_role_breaks_snapshot_witness:
  "fst (ApplySnapshot (Some (Snapshot (RemoveRole ''reader'' (snd (ApplySnapshot (Some game_snapshot) NewAuthorizer))))) NewAuthorizer) \<noteq> None"
proof (rule removed_role_breaks_snapshot)
  show "gm_wf (az_bindings (snd (ApplySnapshot (Some game_snapshot) NewAuthorizer)))" by code_simp
  show "''reader'' \<in> set (roles_of (az_bindings (snd (ApplySnapshot (Some game_snapshot) NewAuthorizer))) ''game'')" by code_simp
qed

section \<open>Following a policy\<close>

definition valid_update :: "policy_event \<Rightarrow> bool" where
  "valid_update evt \<longleftrightarrow> (case evt of EventUpdate (Some s) \<Rightarrow> Validate s = None | _ \<Rightarrow> False)"

lemma handleEvent_ignored: "\<not> valid_update evt \<Longrightarrow> handleEvent evt a = a"
  by (cases evt) (auto simp: handleEvent_def valid_update_def ApplySnapshot_def split: option.splits)

lemma handle_ignored: "filter valid_update evts = [] \<Longrightarrow> fold handleEvent evts a = a"
  by (induction evts) (auto simp: handleEvent_ignored split: if_splits)

lemma handle_enabled: "az_enabled (handleEvent evt a) = az_enabled a"
  by (auto simp: handleEvent_def ApplySnapshot_def Let_def split: policy_event.split option.split)

text \<open>
  The watcher keeps the last valid policy: after any events, the authorizer decides by the last update that validates; updates that do not, deletions and errors leave it
  as it was.
\<close>

theorem watcher_keeps_last_valid:
  assumes "evts = before @ [EventUpdate (Some s)] @ after" "Validate s = None" "filter valid_update after = []" "az_enabled a"
  shows "(Authorize caller svc meth (fold handleEvent evts a) = None \<longleftrightarrow> snapshot_allows s (ServiceType caller) (svc @ ''.'' @ meth)) \<and>
    az_revision (fold handleEvent evts a) = ps_Revision s"
proof -
  define a0 where "a0 = fold handleEvent before a"
  have en: "az_enabled a0" using assms(4) unfolding a0_def by (induction before arbitrary: a) (simp_all add: handle_enabled)
  define a1 where "a1 = a0 \<lparr> az_roles := policy_roles (Normalize s), az_bindings := policy_bindings (Normalize s), az_revision := ps_Revision s \<rparr>"
  have "fold handleEvent evts a = a1"
    using ApplySnapshot_valid [OF assms(2), of a0] handle_ignored [OF assms(3)] by (simp add: assms(1) handleEvent_def a0_def a1_def)
  moreover have "may_call (abs_policy a1) t res \<longleftrightarrow> snapshot_allows s t res" for t res
    by (simp add: a1_def may_call_def snapshot_allows_def abs_policy_def applied_binds [OF assms(2)] applied_grants [OF assms(2)]) blast
  moreover have "az_enabled a1" using en by (simp add: a1_def)
  ultimately show ?thesis using Authorize_may_call [of a1 caller svc meth] by (simp add: a1_def)
qed

definition bad_snapshot :: policy_snapshot where
  "bad_snapshot = game_snapshot \<lparr> ps_Roles := [(''reader'', None)] \<rparr>"

theorem watcher_keeps_last_valid_witness:
  "az_revision (fold handleEvent ([EventError] @ [EventUpdate (Some game_snapshot)] @ [EventUpdate (Some bad_snapshot), EventDelete]) (Enable True NewAuthorizer)) = 7"
proof -
  have "Validate game_snapshot = None" "filter valid_update [EventUpdate (Some bad_snapshot), EventDelete] = []" by code_simp+
  from watcher_keeps_last_valid [OF refl this, of "Enable True NewAuthorizer" game_caller "''Data''" "''GetUser''" "[EventError]"]
  have "az_revision (fold handleEvent ([EventError] @ [EventUpdate (Some game_snapshot)] @ [EventUpdate (Some bad_snapshot), EventDelete]) (Enable True NewAuthorizer))
     = ps_Revision game_snapshot" by (simp add: Enable_def)
  then show ?thesis by (simp add: game_snapshot_def)
qed

text \<open>
  A fail-open start does not let calls through: when the first policy cannot be loaded, an enabled new authorizer denies every call, as in a fail-closed start.
\<close>

theorem fail_open_denies:
  assumes "Watcher_Start True (Inl ()) True (Enable True NewAuthorizer) = (err, a)"
  shows "err = None \<and> Authorize caller svc meth a = Some (No_roles (ServiceType caller))"
  using assms by (auto simp: Watcher_Start_def Authorize_def Enable_def NewAuthorizer_def roles_of_def)

theorem fail_open_denies_witness: "Authorize game_caller ''Data'' ''GetUser'' (snd (Watcher_Start True (Inl ()) True (Enable True NewAuthorizer))) = Some (No_roles ''game'')"
  using fail_open_denies [of None "snd (Watcher_Start True (Inl ()) True (Enable True NewAuthorizer))" game_caller "''Data''" "''GetUser''"]
  by (simp add: Watcher_Start_def game_caller_def)

end
