(* ===== verification/Service_Life.thy ===== *)
theory Service_Life
  imports Rpc_Handler Mailbox_Queue Mailbox_Conf
begin

text \<open>
  The life of a service: \<open>engine/pkg/core/service.go\<close>, \<open>service_init.go\<close>, \<open>sysctl_registry.go\<close> and the dispatch of jobs in \<open>handler_job.go\<close>.

  \<open>Init\<close> is a function of what its steps answer. \<open>Start\<close> and \<open>Stop\<close> are called by different goroutines; they are programs whose steps are the accesses to shared state, so
  that every interleaving of the two can be run. What the hooks of the service answer (\<open>OnStart\<close>, \<open>OnStarted\<close>: nothing, an error, a panic;
  \<open>OnRelease\<close>: whether it panics), whether it runs alone (not primary and secondary, or not in a cluster) and the presence of an endpoint manager are arguments.
\<close>

section \<open>Definitions\<close>

subsection \<open>Configuration\<close>

record timer_conf =
  tc_TimerSize :: int
  tc_TimerBucketSize :: int

record service_init_conf =
  sc_Type :: string
  sc_StopGraceTimeout :: int
  sc_StopPolicy :: "int option"
  sc_RpcType :: string
  sc_LogConf :: "bool option"
  sc_TimerConf :: "timer_conf option"
  sc_EventChanSize :: int

definition DefaultTimerSize :: int where
  "DefaultTimerSize = 1024"

definition DefaultTimerBucketSize :: int where
  "DefaultTimerBucketSize = 1024"

definition DefaultEventChanSize :: int where
  "DefaultEventChanSize = 100"

definition or_pos :: "int \<Rightarrow> int \<Rightarrow> int" where
  "or_pos v d = (if v \<le> 0 then d else v)"

definition service_fixConf :: "service_init_conf \<Rightarrow> service_init_conf" where
  "service_fixConf c =
     c \<lparr> sc_Type := (if sc_Type c = [] then ''Normal'' else sc_Type c),
         sc_StopGraceTimeout := max 0 (sc_StopGraceTimeout c),
         sc_StopPolicy := map_option (max 0) (sc_StopPolicy c),
         sc_RpcType := (if sc_RpcType c = [] then ''nats'' else sc_RpcType c),
         sc_LogConf := Some (case sc_LogConf c of None \<Rightarrow> False | Some e \<Rightarrow> e),
         sc_TimerConf := Some (case sc_TimerConf c of
             None \<Rightarrow> \<lparr> tc_TimerSize = DefaultTimerSize, tc_TimerBucketSize = DefaultTimerBucketSize \<rparr>
           | Some t \<Rightarrow> \<lparr> tc_TimerSize = or_pos (tc_TimerSize t) DefaultTimerSize, tc_TimerBucketSize = or_pos (tc_TimerBucketSize t) DefaultTimerBucketSize \<rparr>),
         sc_EventChanSize := or_pos (sc_EventChanSize c) DefaultEventChanSize \<rparr>"

datatype visibility = VisibilityCluster | VisibilityNode

definition ParseServiceVisibility :: "string \<Rightarrow> visibility \<times> bool" where
  "ParseServiceVisibility v =
     (if v \<in> {[], ''node'', ''Node'', ''NODE''} then (VisibilityNode, True)
      else if v \<in> {''cluster'', ''Cluster'', ''CLUSTER''} then (VisibilityCluster, True)
      else (VisibilityNode, False))"

subsection \<open>Initialisation\<close>

abbreviation "SvcStatusUnknown \<equiv> (0 :: nat)"
abbreviation "SvcStatusInit \<equiv> (1 :: nat)"
abbreviation "SvcStatusStarting \<equiv> (2 :: nat)"
abbreviation "SvcStatusRunning \<equiv> (3 :: nat)"
abbreviation "SvcStatusReady \<equiv> (4 :: nat)"
abbreviation "SvcStatusClosing \<equiv> (5 :: nat)"
abbreviation "SvcStatusClosed \<equiv> (6 :: nat)"

datatype mailbox_stage = MB_nil | MB_new | MB_started | MB_stopped

datatype part_stage = P_nil | P_open | P_closed

record service =
  s_status :: nat
  s_initErr :: "string option"
  s_stopRequested :: bool
  s_mailbox :: mailbox_stage
  s_suspended :: bool
  s_timers :: part_stage
  s_concurrent :: part_stage
  s_pid :: bool
  s_master :: bool
  s_rpc :: bool
  s_visibility :: visibility
  s_registered :: bool
  s_releases :: nat

definition new_service :: service where
  "new_service = \<lparr> s_status = SvcStatusUnknown, s_initErr = None, s_stopRequested = False, s_mailbox = MB_nil, s_suspended = False, s_timers = P_nil, s_concurrent = P_nil,
     s_pid = False, s_master = False, s_rpc = False, s_visibility = VisibilityNode, s_registered = False, s_releases = 0 \<rparr>"

text \<open>
  What \<open>Init\<close> meets: whether there is a node logger (and one of the concrete type), an implementation and a configuration; whether the implementation is a service; the logging
  part of the configuration; and what each fallible step answers.
\<close>

datatype answer = Fine | Fails string | Panics string

record init_env =
  ie_logger :: bool
  ie_concreteLogger :: bool
  ie_impl :: bool
  ie_conf :: bool
  ie_isService :: bool
  ie_logEnable :: bool
  ie_logConfig :: bool
  ie_newLogger :: answer
  ie_initTimers :: answer
  ie_initMailbox :: answer
  ie_initPID :: answer
  ie_initRPC :: answer
  ie_visibility :: string
  ie_OnInit :: answer

definition initLogger :: "init_env \<Rightarrow> answer" where
  "initLogger e =
     (if ie_logEnable e then (if ie_logConfig e then ie_newLogger e else Panics ''nil pointer dereference'')
      else if ie_concreteLogger e then Fine else ie_newLogger e)"

definition initVisibility :: "init_env \<Rightarrow> answer" where
  "initVisibility e = (if snd (ParseServiceVisibility (ie_visibility e)) then Fine else Fails ''invalid visibility'')"

definition stop_part :: "part_stage \<Rightarrow> part_stage" where
  "stop_part p = (if p = P_nil then P_nil else P_closed)"

definition rollbackInitResources :: "service \<Rightarrow> service" where
  "rollbackInitResources s =
     s \<lparr> s_timers := P_nil, s_concurrent := P_nil, s_mailbox := MB_nil, s_pid := False, s_rpc := False, s_visibility := VisibilityNode \<rparr>"

fun init_steps :: "(answer \<times> (service \<Rightarrow> service)) list \<Rightarrow> service \<Rightarrow> answer \<times> service" where
  "init_steps [] s = (Fine, s)"
| "init_steps ((a, f) # steps) s = (case a of Fine \<Rightarrow> init_steps steps (f s) | _ \<Rightarrow> (a, s))"

definition init_plan :: "init_env \<Rightarrow> (answer \<times> (service \<Rightarrow> service)) list" where
  "init_plan e =
     [(if ie_conf e then Fine else Fails ''service init conf is nil'', id),
      (if ie_isService e then Fine else Panics ''interface conversion'', id),
      (initLogger e, id),
      (ie_initTimers e, \<lambda>s. s \<lparr> s_timers := P_open \<rparr>),
      (ie_initMailbox e, \<lambda>s. s \<lparr> s_mailbox := MB_new, s_suspended := False, s_concurrent := P_open \<rparr>),
      (ie_initPID e, \<lambda>s. s \<lparr> s_pid := True \<rparr>),
      (ie_initRPC e, \<lambda>s. s \<lparr> s_rpc := True \<rparr>),
      (initVisibility e, \<lambda>s. s \<lparr> s_visibility := fst (ParseServiceVisibility (ie_visibility e)) \<rparr>),
      (ie_OnInit e, id)]"

definition init_body :: "init_env \<Rightarrow> service \<Rightarrow> answer \<times> service" where
  "init_body e s =
     (if \<not> ie_logger e then (Fails ''service init requires node context logger'', s)
      else if \<not> ie_impl e then (Fails ''service impl is nil'', s)
      else if s_status s \<noteq> SvcStatusUnknown then (Fine, s)
      else init_steps (init_plan e) (s \<lparr> s_status := SvcStatusInit \<rparr>))"

text \<open>The deferred function looks at the named error only: it does nothing when the body panics, and the panic goes on to the caller.\<close>

definition Service_Init :: "init_env \<Rightarrow> service \<Rightarrow> answer \<times> service" where
  "Service_Init e s0 =
     (case init_body e (s0 \<lparr> s_initErr := None \<rparr>) of
        (Fails err, s) \<Rightarrow> (Fails err, rollbackInitResources (s \<lparr> s_initErr := Some err \<rparr>))
      | (a, s) \<Rightarrow> (a, s))"

subsection \<open>Start and Stop\<close>

record start_env =
  se_single :: bool
  se_OnStart :: answer
  se_endpoints :: bool
  se_OnStarted :: answer
  se_OnRelease_panics :: bool

datatype start_pc =
    St_check | St_mailbox | St_OnStart | St_load_running | St_store_running nat | St_register | St_OnStarted | St_load_ready | St_store_ready nat | St_ready
  | St_rollback bool | St_rollback_stop | St_rollback_release | St_rollback_closed | St_done | St_failed | St_panic

datatype stop_pc = Sp_request | Sp_closing | Sp_suspend | Sp_parts | Sp_release | Sp_remove | Sp_closed | Sp_done | Sp_ignored

text \<open>\<open>setStatus\<close> loads the status, and stores the new one later unless the loaded one forbids it.\<close>

definition set_allowed :: "nat \<Rightarrow> nat \<Rightarrow> bool" where
  "set_allowed old new \<longleftrightarrow> old \<noteq> new \<and> old < SvcStatusClosed"

fun start_step :: "start_env \<Rightarrow> start_pc \<times> service \<Rightarrow> start_pc \<times> service" where
  "start_step e (St_check, s) =
     (if s_initErr s \<noteq> None \<or> s_status s \<noteq> SvcStatusInit then (St_failed, s) else (St_mailbox, s \<lparr> s_status := SvcStatusStarting \<rparr>))"
| "start_step e (St_mailbox, s) = (if s_mailbox s = MB_nil then (St_panic, s) else (St_OnStart, s \<lparr> s_mailbox := MB_started \<rparr>))"
| "start_step e (St_OnStart, s) = (case se_OnStart e of
        Fine \<Rightarrow> (St_load_running, if se_single e then s \<lparr> s_master := True \<rparr> else s)
      | Fails err \<Rightarrow> (St_rollback False, s)
      | Panics m \<Rightarrow> (St_panic, s))"
| "start_step e (St_load_running, s) = (St_store_running (s_status s), s)"
| "start_step e (St_store_running old, s) =
     (if se_endpoints e then St_register else St_rollback False, if set_allowed old SvcStatusRunning then s \<lparr> s_status := SvcStatusRunning \<rparr> else s)"
| "start_step e (St_register, s) = (St_OnStarted, s \<lparr> s_registered := True \<rparr>)"
| "start_step e (St_OnStarted, s) = (case se_OnStarted e of Fine \<Rightarrow> St_load_ready | Fails err \<Rightarrow> St_rollback True | Panics m \<Rightarrow> St_panic, s)"
| "start_step e (St_load_ready, s) = (St_store_ready (s_status s), s)"
| "start_step e (St_store_ready old, s) = (St_ready, if set_allowed old SvcStatusReady then s \<lparr> s_status := SvcStatusReady \<rparr> else s)"
| "start_step e (St_ready, s) = (St_done, s)"
| "start_step e (St_rollback registered, s) = (St_rollback_stop, if registered then s \<lparr> s_registered := False \<rparr> else s)"
| "start_step e (St_rollback_stop, s) =
     (St_rollback_release, s \<lparr> s_mailbox := MB_stopped, s_timers := stop_part (s_timers s), s_concurrent := stop_part (s_concurrent s) \<rparr>)"
| "start_step e (St_rollback_release, s) = (St_rollback_closed, s \<lparr> s_releases := s_releases s + 1 \<rparr>)"
| "start_step e (St_rollback_closed, s) = (St_failed, s \<lparr> s_status := SvcStatusClosed \<rparr>)"
| "start_step e (pc, s) = (pc, s)"

text \<open>\<open>releaseWithEndpoint\<close> recovers a panic of \<open>OnRelease\<close>, and what comes after the hook in it, the removal from the registry, is skipped.\<close>

fun stop_step :: "start_env \<Rightarrow> stop_pc \<times> service \<Rightarrow> stop_pc \<times> service" where
  "stop_step e (Sp_request, s) = (if s_stopRequested s then (Sp_ignored, s) else (Sp_closing, s \<lparr> s_stopRequested := True \<rparr>))"
| "stop_step e (Sp_closing, s) = (if SvcStatusClosing \<le> s_status s then (Sp_ignored, s) else (Sp_suspend, s \<lparr> s_status := SvcStatusClosing \<rparr>))"
| "stop_step e (Sp_suspend, s) = (Sp_parts, if s_mailbox s = MB_nil then s else s \<lparr> s_suspended := True \<rparr>)"
| "stop_step e (Sp_parts, s) = (Sp_release, s \<lparr> s_timers := stop_part (s_timers s), s_concurrent := stop_part (s_concurrent s) \<rparr>)"
| "stop_step e (Sp_release, s) = (if se_OnRelease_panics e then Sp_closed else Sp_remove, s \<lparr> s_releases := s_releases s + 1 \<rparr>)"
| "stop_step e (Sp_remove, s) = (Sp_closed, if se_endpoints e then s \<lparr> s_registered := False \<rparr> else s)"
| "stop_step e (Sp_closed, s) = (Sp_done, s \<lparr> s_status := SvcStatusClosed \<rparr>)"
| "stop_step e (pc, s) = (pc, s)"

definition isRunning :: "service \<Rightarrow> bool" where
  "isRunning s \<longleftrightarrow> s_status s = SvcStatusRunning \<or> s_status s = SvcStatusReady"

definition IsClosed :: "service \<Rightarrow> bool" where
  "IsClosed s \<longleftrightarrow> SvcStatusClosing \<le> s_status s"

text \<open>A schedule says which goroutine runs next: \<open>True\<close> for that of \<open>Start\<close>.\<close>

definition life_step :: "start_env \<Rightarrow> bool \<Rightarrow> start_pc \<times> stop_pc \<times> service \<Rightarrow> start_pc \<times> stop_pc \<times> service" where
  "life_step e starter x =
     (case x of (a, b, s) \<Rightarrow> if starter then (case start_step e (a, s) of (a1, s1) \<Rightarrow> (a1, b, s1)) else (case stop_step e (b, s) of (b1, s1) \<Rightarrow> (a, b1, s1)))"

definition life_run :: "start_env \<Rightarrow> bool list \<Rightarrow> start_pc \<times> stop_pc \<times> service \<Rightarrow> start_pc \<times> stop_pc \<times> service" where
  "life_run e = fold (life_step e)"

subsection \<open>Jobs\<close>

datatype job_err = ErrJobHandlerNotFound | ErrJobTimeout | ErrReadOnlyPostJob | ErrServiceIsUnavailable | Err_empty_cmd | Err_handler string | Err_panic string

datatype outcome = Returned "job_err option" | Panicked string

definition reg_safeExec :: "outcome \<Rightarrow> job_err option" where
  "reg_safeExec r = (case r of Returned e \<Rightarrow> e | Panicked m \<Rightarrow> Some (Err_panic m))"

text \<open>\<open>Service.safeExec\<close>: the error that the deferred function builds is assigned to the inner variable that shadows the result.\<close>

definition svc_safeExec :: "outcome \<Rightarrow> job_err option" where
  "svc_safeExec r = (case r of Returned e \<Rightarrow> e | Panicked m \<Rightarrow> None)"

type_synonym job_registry = "(job_type, unit \<Rightarrow> outcome) gomap"

definition InvokeJob :: "job_registry \<Rightarrow> int \<Rightarrow> job_type \<Rightarrow> int \<Rightarrow> job_err option" where
  "InvokeJob reg now jt deadline =
     (case gm_get reg jt of
        None \<Rightarrow> Some ErrJobHandlerNotFound
      | Some handler \<Rightarrow> if 0 < deadline \<and> deadline - now \<le> 0 then Some ErrJobTimeout else reg_safeExec (handler ()))"

text \<open>The handlers of timers, callbacks and events wrap the user's function in \<open>Service.safeExec\<close>; that of requests does not.\<close>

definition handleTimerJob :: "(unit \<Rightarrow> outcome) option \<Rightarrow> outcome" where
  "handleTimerJob t = (case t of None \<Rightarrow> Returned None | Some run \<Rightarrow> Returned (svc_safeExec (run ())))"

definition handleConcurrentCallbackJob :: "(unit \<Rightarrow> string option) option \<Rightarrow> outcome" where
  "handleConcurrentCallbackJob cb =
     (case cb of
        None \<Rightarrow> Returned None
      | Some run \<Rightarrow> Returned (svc_safeExec (case run () of None \<Rightarrow> Returned None | Some m \<Rightarrow> Panicked m)))"

subsection \<open>Posting\<close>

record svc_job =
  sj_type :: job_type
  sj_request :: "string option"
  sj_cmd :: "string option"
  sj_rw :: rw_mode
  sj_priority :: priority
  sj_key :: string
  sj_ctx :: "(rw_mode \<times> string) option"

definition setJobRWMode :: "method_mgr \<Rightarrow> svc_job \<Rightarrow> svc_job" where
  "setJobRWMode mgr j =
     (if sj_type j \<noteq> JobRpc then j
      else case sj_request j of None \<Rightarrow> j | Some method \<Rightarrow> if IsReadOnly method mgr then j \<lparr> sj_rw := RWModeRead \<rparr> else j)"

text \<open>\<open>PostJob\<close> of a service: the error, or the job that is handed to the mailbox.\<close>

definition svc_PostJob :: "bool \<Rightarrow> method_mgr \<Rightarrow> string \<Rightarrow> svc_job \<Rightarrow> job_err + svc_job" where
  "svc_PostJob rwEnabled mgr serviceName j =
     (if rwEnabled \<and> sj_ctx j = Some (RWModeRead, serviceName) then Inl ErrReadOnlyPostJob
      else Inr (if rwEnabled then setJobRWMode mgr j else j))"

definition pushConcurrentCallback :: "string \<Rightarrow> svc_job" where
  "pushConcurrentCallback name = \<lparr> sj_type = JobConcurrentCallback, sj_request = None, sj_cmd = None, sj_rw = RWModeWrite, sj_priority = 0, sj_key = name, sj_ctx = None \<rparr>"

definition pushTimerCallback :: "string \<Rightarrow> svc_job" where
  "pushTimerCallback name = \<lparr> sj_type = JobTimer, sj_request = None, sj_cmd = None, sj_rw = RWModeWrite, sj_priority = 0, sj_key = name, sj_ctx = None \<rparr>"

subsection \<open>System commands\<close>

type_synonym sysctl_registry = "(string, unit \<Rightarrow> outcome) gomap"

definition sysctl_register :: "string \<Rightarrow> (unit \<Rightarrow> outcome) option \<Rightarrow> sysctl_registry \<Rightarrow> (unit \<Rightarrow> outcome) option \<times> sysctl_registry" where
  "sysctl_register name h r =
     (case h of None \<Rightarrow> (None, r) | Some f \<Rightarrow> if name = [] then (None, r) else (gm_get r name, gm_set r name f))"

definition handleSysCtl :: "sysctl_registry option \<Rightarrow> string \<Rightarrow> outcome" where
  "handleSysCtl reg cmd =
     (case reg of
        None \<Rightarrow> Returned None
      | Some r \<Rightarrow> (case gm_get r cmd of None \<Rightarrow> Returned None | Some f \<Rightarrow> f ()))"

definition SysCtlDispatcherKey :: string where
  "SysCtlDispatcherKey = ''__sysctl__''"

definition PostSysCtl :: "mailbox_stage \<Rightarrow> string \<Rightarrow> job_err + svc_job" where
  "PostSysCtl mb cmd =
     (if mb = MB_nil then Inl ErrServiceIsUnavailable
      else if cmd = [] then Inl Err_empty_cmd
      else Inr \<lparr> sj_type = JobSysCtl, sj_request = None, sj_cmd = Some cmd, sj_rw = RWModeWrite, sj_priority = PrioritySys, sj_key = SysCtlDispatcherKey, sj_ctx = None \<rparr>)"

section \<open>Lemmas\<close>

lemma life_run_Cons [simp]: "life_run e (b # bs) x = life_run e bs (life_step e b x)"
  by (simp add: life_run_def)

lemma life_run_Nil [simp]: "life_run e [] x = x"
  by (simp add: life_run_def)

lemma life_run_append: "life_run e (xs @ ys) x = life_run e ys (life_run e xs x)"
  by (simp add: life_run_def)

lemma life_run_invariant:
  assumes "\<And>b x. P x \<Longrightarrow> P (life_step e b x)" "P x"
  shows "P (life_run e bs x)"
  using assms(2) by (induction bs arbitrary: x) (simp_all add: assms(1))

text \<open>What a successful \<open>Init\<close> leaves: the state in which \<open>Start\<close> is called.\<close>

definition inited :: "service \<Rightarrow> bool" where
  "inited s \<longleftrightarrow> s_status s = SvcStatusInit \<and> s_initErr s = None \<and> \<not> s_stopRequested s \<and> s_mailbox s = MB_new \<and> s_timers s = P_open \<and> s_concurrent s = P_open
     \<and> \<not> s_registered s \<and> s_releases s = 0"

text \<open>The program counters of \<open>Start\<close> between the launch of the mailbox and its end without rollback of the mailbox.\<close>

definition mailbox_live :: "start_pc \<Rightarrow> bool" where
  "mailbox_live pc \<longleftrightarrow> pc \<notin> {St_check, St_mailbox, St_rollback_release, St_rollback_closed, St_failed, St_panic}"

definition suspend_done :: "stop_pc \<Rightarrow> bool" where
  "suspend_done pc \<longleftrightarrow> pc \<in> {Sp_parts, Sp_release, Sp_remove, Sp_closed, Sp_done}"

definition mailbox_inv :: "start_pc \<times> stop_pc \<times> service \<Rightarrow> bool" where
  "mailbox_inv x \<longleftrightarrow> (case x of (a, b, s) \<Rightarrow>
      (mailbox_live a \<longrightarrow> s_mailbox s = MB_started) \<and> (a \<in> {St_check, St_mailbox} \<longrightarrow> s_mailbox s = MB_new) \<and> s_mailbox s \<noteq> MB_nil \<and> (suspend_done b \<longrightarrow> s_suspended s))"

lemma start_keeps_mailbox_inv: "mailbox_inv (a, b, s) \<Longrightarrow> start_step e (a, s) = (a1, s1) \<Longrightarrow> mailbox_inv (a1, b, s1)"
  by (cases a) (auto simp: mailbox_inv_def mailbox_live_def split: if_splits answer.splits)

lemma stop_keeps_mailbox_inv: "mailbox_inv (a, b, s) \<Longrightarrow> stop_step e (b, s) = (b1, s1) \<Longrightarrow> mailbox_inv (a, b1, s1)"
  by (cases b) (auto simp: mailbox_inv_def suspend_done_def split: if_splits)

lemma life_keeps_mailbox_inv: "mailbox_inv x \<Longrightarrow> mailbox_inv (life_step e b x)"
proof (cases x)
  case (fields a c s)
  assume inv: "mailbox_inv x"
  show ?thesis
  proof (cases b)
    case True
    then show ?thesis using start_keeps_mailbox_inv [of a c s e] inv by (cases "start_step e (a, s)") (simp add: life_step_def fields)
  next
    case False
    then show ?thesis using stop_keeps_mailbox_inv [of a c s e] inv by (cases "stop_step e (c, s)") (simp add: life_step_def fields)
  qed
qed

lemma inited_mailbox_inv: "inited s \<Longrightarrow> mailbox_inv (St_check, Sp_request, s)"
  by (simp add: inited_def mailbox_inv_def mailbox_live_def suspend_done_def)

text \<open>The steps up to the first that is not fine have their effects; its answer is that of the body.\<close>

lemma init_steps_first:
  "init_steps steps s = ((case find (\<lambda>(a, f). a \<noteq> Fine) steps of None \<Rightarrow> Fine | Some (a, f) \<Rightarrow> a),
     fold snd (takeWhile (\<lambda>(a, f). a = Fine) steps) s)"
  by (induction steps s rule: init_steps.induct) (auto split: answer.split)

lemma fold_keeps: "(\<And>x s. x \<in> set xs \<Longrightarrow> P (f x s) = P s) \<Longrightarrow> P (fold f xs s) = P s"
  by (induction xs arbitrary: s) auto

lemma init_plan_keeps: "x \<in> set (takeWhile Q (init_plan e)) \<Longrightarrow> s_status (snd x s) = s_status s \<and> s_initErr (snd x s) = s_initErr s"
  by (drule set_takeWhileD) (auto simp: init_plan_def)

lemma init_plan_status:
  "s_status (fold snd (takeWhile Q (init_plan e)) s) = s_status s" "s_initErr (fold snd (takeWhile Q (init_plan e)) s) = s_initErr s"
  using init_plan_keeps by (auto intro!: fold_keeps [of _ s_status snd] fold_keeps [of _ s_initErr snd])

lemma init_body_after_cas:
  assumes "ie_logger e" "ie_impl e" "s_status s = SvcStatusUnknown" "init_body e s = (r, s1)"
  shows "s_status s1 = SvcStatusInit \<and> s_initErr s1 = s_initErr s"
  using assms by (auto simp: init_body_def init_steps_first init_plan_status)

section \<open>Properties\<close>

text \<open>
  \<open>Stop\<close> never ends the workers of a service: in every interleaving of a \<open>Start\<close> that reports success and a \<open>Stop\<close> that runs to its end, the mailbox is suspended and
  its workers still run (only the rollback of \<open>Start\<close> calls \<open>mailbox.Stop\<close>).
\<close>
theorem Stop_leaves_workers:
  assumes "inited s" "life_run e schedule (St_check, Sp_request, s) = (St_done, Sp_done, s1)"
  shows "s_mailbox s1 = MB_started \<and> s_suspended s1"
  using life_run_invariant [of mailbox_inv, OF life_keeps_mailbox_inv inited_mailbox_inv [OF assms(1)], of e schedule] unfolding assms(2)
  by (simp add: mailbox_inv_def mailbox_live_def suspend_done_def)

definition ready_service :: service where
  "ready_service = new_service \<lparr> s_status := SvcStatusInit, s_mailbox := MB_new, s_timers := P_open, s_concurrent := P_open, s_pid := True, s_rpc := True \<rparr>"

definition all_well :: start_env where
  "all_well = \<lparr> se_single = True, se_OnStart = Fine, se_endpoints = True, se_OnStarted = Fine, se_OnRelease_panics = False \<rparr>"

lemma inited_ready_service: "inited ready_service"
  by (simp add: inited_def ready_service_def new_service_def)

lemma start_all:
  "replicate 14 b = [b, b, b, b, b, b, b, b, b, b, b, b, b, b]" "replicate 7 b = [b, b, b, b, b, b, b]" "replicate 4 b = [b, b, b, b]"
  by (simp_all add: numeral_eq_Suc)

theorem Stop_leaves_workers_witness:
  "let x = life_run all_well (replicate 14 True @ replicate 7 False) (St_check, Sp_request, ready_service) in s_mailbox (snd (snd x)) = MB_started \<and> s_suspended (snd (snd x))"
proof -
  obtain s1 where *: "life_run all_well (replicate 14 True @ replicate 7 False) (St_check, Sp_request, ready_service) = (St_done, Sp_done, s1)"
    by (simp add: start_all life_step_def all_well_def ready_service_def new_service_def set_allowed_def)
  show ?thesis using Stop_leaves_workers [OF inited_ready_service *] unfolding * by simp
qed

text \<open>What \<open>Start\<close> leaves when nothing runs beside it, and what \<open>Stop\<close> does to it.\<close>

lemma after_start:
  assumes "inited s" "life_run e (replicate 14 True) (St_check, Sp_request, s) = (a, b, s1)"
  shows "b = Sp_request \<and> \<not> s_stopRequested s1 \<and> s_suspended s1 = s_suspended s
     \<and> (a = St_done \<longleftrightarrow> se_OnStart e = Fine \<and> se_endpoints e \<and> se_OnStarted e = Fine)
     \<and> (if a = St_failed then s_status s1 = SvcStatusClosed \<and> \<not> s_registered s1 \<and> s_timers s1 = P_closed \<and> s_concurrent s1 = P_closed \<and> s_releases s1 = 1 \<and> s_mailbox s1 = MB_stopped
          \<and> (\<forall>m. se_OnStart e \<noteq> Panics m) \<and> (se_OnStart e = Fine \<longrightarrow> \<not> se_endpoints e \<or> (\<exists>err. se_OnStarted e = Fails err))
        else s_status s1 < SvcStatusClosing \<and> s_timers s1 = P_open \<and> s_concurrent s1 = P_open \<and> s_releases s1 = 0 \<and> s_mailbox s1 = MB_started
          \<and> (s_registered s1 \<longleftrightarrow> se_OnStart e = Fine) \<and> (\<forall>err. se_OnStart e \<noteq> Fails err) \<and> (se_OnStart e = Fine \<longrightarrow> se_endpoints e \<and> (\<forall>err. se_OnStarted e \<noteq> Fails err)))"
  using assms
  by (cases "se_OnStart e"; cases "se_endpoints e"; cases "se_OnStarted e"; cases "se_single e")
    (auto simp: inited_def start_all life_step_def set_allowed_def stop_part_def)

lemma stop_of_closed:
  assumes "SvcStatusClosing \<le> s_status s" "\<not> s_stopRequested s"
  shows "life_run e (replicate 7 False) (a, Sp_request, s) = (a, Sp_ignored, s \<lparr> s_stopRequested := True \<rparr>)"
  using assms by (simp add: start_all life_step_def)

lemma stop_of_open:
  assumes "s_status s < SvcStatusClosing" "\<not> s_stopRequested s" "s_mailbox s = MB_started"
  shows "\<exists>s1. life_run e (replicate 7 False) (a, Sp_request, s) = (a, Sp_done, s1) \<and> s_status s1 = SvcStatusClosed \<and> s_mailbox s1 = MB_started \<and> s_suspended s1
     \<and> s_timers s1 = stop_part (s_timers s) \<and> s_concurrent s1 = stop_part (s_concurrent s) \<and> s_releases s1 = s_releases s + 1
     \<and> (s_registered s1 \<longleftrightarrow> s_registered s \<and> (se_OnRelease_panics e \<or> \<not> se_endpoints e))"
  using assms by (cases "se_OnRelease_panics e"; cases "se_endpoints e") (simp_all add: start_all life_step_def)

text \<open>
  C30. A \<open>Stop\<close> that follows \<open>Start\<close> leaves a closed service, whatever the hooks answered: its timers and tasks are stopped and \<open>OnRelease\<close> ran exactly
  once (in the rollback of a \<open>Start\<close> that failed, or in \<open>Stop\<close>). The service is no longer registered, unless \<open>OnRelease\<close> panics: then a service that had
  been registered, by a \<open>Start\<close> that was not rolled back, stays registered though it is closed. The workers of the mailbox end only with the rollback; \<open>Stop\<close> suspends the mailbox
  and leaves them running.
\<close>
theorem Start_then_Stop_closes:
  assumes "inited s" "life_run e (replicate 14 True @ replicate 7 False) (St_check, Sp_request, s) = (a, b, s1)"
  shows "s_status s1 = SvcStatusClosed \<and> IsClosed s1 \<and> \<not> isRunning s1 \<and> s_timers s1 = P_closed \<and> s_concurrent s1 = P_closed \<and> s_releases s1 = 1
     \<and> (s_registered s1 \<longleftrightarrow> se_OnRelease_panics e \<and> se_OnStart e = Fine \<and> se_endpoints e \<and> (\<forall>err. se_OnStarted e \<noteq> Fails err))
     \<and> (a = St_done \<longleftrightarrow> se_OnStart e = Fine \<and> se_endpoints e \<and> se_OnStarted e = Fine)
     \<and> (if a = St_failed then s_mailbox s1 = MB_stopped else s_mailbox s1 = MB_started \<and> s_suspended s1)"
proof -
  obtain a0 b0 s0 where start: "life_run e (replicate 14 True) (St_check, Sp_request, s) = (a0, b0, s0)" by (metis prod_cases3)
  note f = after_start [OF assms(1) start]
  have stop: "life_run e (replicate 7 False) (a0, Sp_request, s0) = (a, b, s1)" using assms(2) start f by (simp add: life_run_append)
  show ?thesis
  proof (cases "a0 = St_failed")
    case True
    then have "a = St_failed" "s1 = s0 \<lparr> s_stopRequested := True \<rparr>" using f stop stop_of_closed [of s0 e a0] by auto
    then show ?thesis using f True by (auto simp: IsClosed_def isRunning_def)
  next
    case False
    with f obtain s2 where "life_run e (replicate 7 False) (a0, Sp_request, s0) = (a0, Sp_done, s2)" "s_status s2 = SvcStatusClosed" "s_mailbox s2 = MB_started" "s_suspended s2"
     "s_timers s2 = stop_part (s_timers s0)" "s_concurrent s2 = stop_part (s_concurrent s0)" "s_releases s2 = s_releases s0 + 1"
     "s_registered s2 \<longleftrightarrow> s_registered s0 \<and> (se_OnRelease_panics e \<or> \<not> se_endpoints e)" using stop_of_open [of s0 e a0] by auto
    then show ?thesis using f False stop by (auto simp: IsClosed_def isRunning_def stop_part_def)
  qed
qed

theorem Start_then_Stop_closes_witness:
  "let x = life_run all_well (replicate 14 True @ replicate 7 False) (St_check, Sp_request, ready_service) in IsClosed (snd (snd x)) \<and> s_releases (snd (snd x)) = 1"
proof -
  obtain a b s1 where *: "life_run all_well (replicate 14 True @ replicate 7 False) (St_check, Sp_request, ready_service) = (a, b, s1)"
    by (metis prod_cases3)
  show ?thesis using Start_then_Stop_closes [OF inited_ready_service *] unfolding * by simp
qed

text \<open>
  C40. A concurrent \<open>Stop\<close> can be undone: \<open>setStatus\<close> loads and stores in two steps, so when the whole of \<open>Stop\<close> falls between them the service is ready and registered
  again although its timers and tasks are stopped and it was released, and no later \<open>Stop\<close> closes it.
\<close>
theorem Stop_undone_by_Start:
  assumes "inited s" "se_OnStart e = Fine" "se_endpoints e" "se_OnStarted e = Fine"
  shows "\<exists>schedule s1. life_run e schedule (St_check, Sp_request, s) = (St_done, Sp_done, s1)
     \<and> s_status s1 = SvcStatusReady \<and> s_registered s1 \<and> s_timers s1 = P_closed \<and> s_releases s1 = 1 \<and> stop_step e (Sp_request, s1) = (Sp_ignored, s1)"
proof -
  obtain s1 where "life_run e (replicate 4 True @ replicate 7 False @ replicate 7 True) (St_check, Sp_request, s) = (St_done, Sp_done, s1)"
     "s_status s1 = SvcStatusReady" "s_registered s1" "s_timers s1 = P_closed" "s_releases s1 = 1" "s_stopRequested s1"
    using assms by (cases "se_single e"; cases "se_OnRelease_panics e") (auto simp: inited_def start_all life_step_def set_allowed_def stop_part_def)
  then show ?thesis by (intro exI [of _ "replicate 4 True @ replicate 7 False @ replicate 7 True"] exI [of _ s1]) simp
qed

theorem Stop_undone_by_Start_witness:
  "\<exists>schedule s1. life_run all_well schedule (St_check, Sp_request, ready_service) = (St_done, Sp_done, s1) \<and> s_status s1 = SvcStatusReady \<and> s_registered s1"
  using Stop_undone_by_Start [OF inited_ready_service, of all_well] by (auto simp: all_well_def)

definition init_order :: "init_env \<Rightarrow> answer list" where
  "init_order e =
     [if ie_logger e then Fine else Fails ''service init requires node context logger'',
      if ie_impl e then Fine else Fails ''service impl is nil'',
      if ie_conf e then Fine else Fails ''service init conf is nil'',
      if ie_isService e then Fine else Panics ''interface conversion'',
      if ie_logEnable e \<and> \<not> ie_logConfig e then Panics ''nil pointer dereference''
      else if ie_logEnable e \<or> \<not> ie_concreteLogger e then ie_newLogger e else Fine,
      ie_initTimers e, ie_initMailbox e, ie_initPID e, ie_initRPC e,
      if snd (ParseServiceVisibility (ie_visibility e)) then Fine else Fails ''invalid visibility'',
      ie_OnInit e]"

lemma init_order_plan: "ie_logger e \<Longrightarrow> ie_impl e \<Longrightarrow> init_order e = Fine # Fine # map fst (init_plan e)"
  by (simp add: init_order_def init_plan_def initLogger_def initVisibility_def)

lemma find_map_fst: "find P (map fst xs) = map_option fst (find (\<lambda>(a, f). P a) xs)"
  by (induction xs) auto

lemma find_fine: "find (\<lambda>(a, f). a \<noteq> Fine) xs = None \<Longrightarrow> takeWhile (\<lambda>(a, f). a = Fine) xs = xs"
  by (induction xs) (auto split: if_splits)

text \<open>What a body that ends early leaves: a resource is there if all steps up to its own were fine.\<close>

lemma init_plan_resources:
  assumes "init_order e = Fine # Fine # map fst (init_plan e)"
    and "s1 = fold snd (takeWhile (\<lambda>(a, f). a = Fine) (init_plan e)) (new_service \<lparr> s_status := SvcStatusInit, s_initErr := None \<rparr>)"
  shows "s_timers s1 = (if \<forall>a \<in> set (take 6 (init_order e)). a = Fine then P_open else P_nil)"
    "s_mailbox s1 = (if \<forall>a \<in> set (take 7 (init_order e)). a = Fine then MB_new else MB_nil)"
    "s_pid s1 \<longleftrightarrow> (\<forall>a \<in> set (take 8 (init_order e)). a = Fine)"
    "s_rpc s1 \<longleftrightarrow> (\<forall>a \<in> set (take 9 (init_order e)). a = Fine)"
  unfolding assms(2) unfolding assms(1) by (simp_all add: init_plan_def new_service_def)


definition plain_init :: init_env where
  "plain_init = \<lparr> ie_logger = True, ie_concreteLogger = True, ie_impl = True, ie_conf = True, ie_isService = True, ie_logEnable = False, ie_logConfig = False, ie_newLogger = Fine,
     ie_initTimers = Fine, ie_initMailbox = Fine, ie_initPID = Fine, ie_initRPC = Fine, ie_visibility = ''cluster'', ie_OnInit = Fine \<rparr>"


text \<open>
  A second \<open>Init\<close> hides the failure of the first: the status stays \<open>Init\<close>, so the call returns without an error, having cleared the error that \<open>Start\<close> looks at, and
  \<open>Start\<close> then calls a method of the mailbox that the rollback has removed.
\<close>
theorem Init_again_hides_failure:
  assumes "Service_Init e1 new_service = (Fails err, s1)" "ie_logger e1" "ie_impl e1" "ie_logger e2" "ie_impl e2"
  shows "\<exists>s2. Service_Init e2 s1 = (Fine, s2) \<and> s_initErr s2 = None \<and> fst (start_step env (start_step env (St_check, s2))) = St_panic"
proof -
  obtain r s0 where body: "init_body e1 (new_service \<lparr> s_initErr := None \<rparr>) = (r, s0)" by fastforce
  with assms(1) have "r = Fails err" and s1: "s1 = rollbackInitResources (s0 \<lparr> s_initErr := Some err \<rparr>)"
    by (auto simp: Service_Init_def split: answer.splits)
  have "s_status s0 = SvcStatusInit" using init_body_after_cas [OF assms(2,3) _ body] by (simp add: new_service_def)
  then have "s_status s1 = SvcStatusInit" "s_mailbox s1 = MB_nil" by (simp_all add: s1 rollbackInitResources_def)
  then show ?thesis using assms(4,5) by (simp add: Service_Init_def init_body_def)
qed

theorem Init_again_hides_failure_witness:
  "fst (Service_Init plain_init (snd (Service_Init (plain_init \<lparr> ie_OnInit := Fails ''boom'' \<rparr>) new_service))) = Fine"
proof -
  have *: "Service_Init (plain_init \<lparr> ie_OnInit := Fails ''boom'' \<rparr>) new_service = (Fails ''boom'', snd (Service_Init (plain_init \<lparr> ie_OnInit := Fails ''boom'' \<rparr>) new_service))"
    by (simp add: Service_Init_def init_body_def init_plan_def plain_init_def new_service_def initLogger_def initVisibility_def ParseServiceVisibility_def)
  obtain s2 where "Service_Init plain_init (snd (Service_Init (plain_init \<lparr> ie_OnInit := Fails ''boom'' \<rparr>) new_service)) = (Fine, s2)"
    using Init_again_hides_failure [OF *, of plain_init undefined] by (auto simp: plain_init_def simp del: start_step.simps)
  then show ?thesis by simp
qed

lemma double_release:
  assumes "inited s" "se_OnStart e = Fails err"
  shows "\<exists>s1. life_run e (replicate 3 True @ replicate 7 False @ replicate 4 True) (St_check, Sp_request, s) = (St_failed, Sp_done, s1) \<and> s_releases s1 = 2"
  using assms by (auto simp: inited_def start_all numeral_3_eq_3 life_step_def)

lemma PostJob_reads_only_marked_requests:
  "svc_PostJob rw mgr name j = Inr j1 \<Longrightarrow> sj_rw j = RWModeWrite \<Longrightarrow>
     sj_rw j1 = RWModeRead \<longleftrightarrow> rw \<and> sj_type j = JobRpc \<and> (\<exists>method. sj_request j = Some method \<and> IsReadOnly method mgr)"
  by (auto simp: svc_PostJob_def setJobRWMode_def split: if_splits option.splits)

lemma PostJob_own_reader_refused: "svc_PostJob True mgr name (j \<lparr> sj_ctx := Some (RWModeRead, name) \<rparr>) = Inl ErrReadOnlyPostJob"
  by (simp add: svc_PostJob_def)

lemma service_fixConf_idempotent: "service_fixConf (service_fixConf c) = service_fixConf c"
  by (auto simp: service_fixConf_def or_pos_def DefaultTimerSize_def DefaultTimerBucketSize_def DefaultEventChanSize_def option.map_comp comp_def split: option.splits)

lemma sysctl_register_replaces:
  "name \<noteq> [] \<Longrightarrow> handleSysCtl (Some (snd (sysctl_register name (Some f) r))) name = f () \<and> fst (sysctl_register name (Some f) r) = gm_get r name"
  by (simp add: sysctl_register_def handleSysCtl_def gm_get_set)

text \<open>
  A panic is an error of the job when the handler is called by the registry alone, as for requests, but a panic of a timer's or a task's callback is reported as a success:
  \<open>Service.safeExec\<close> recovers it and assigns the error to a variable of its own.
\<close>
theorem callback_panics_reported_as_success:
  assumes "deadline \<le> 0 \<or> now < deadline"
    and "gm_get reg JobRpc = Some (\<lambda>_. Panicked m)"
    and "gm_get reg JobTimer = Some (\<lambda>_. handleTimerJob (Some (\<lambda>_. Panicked m)))"
    and "gm_get reg JobConcurrentCallback = Some (\<lambda>_. handleConcurrentCallbackJob (Some (\<lambda>_. Some m)))"
  shows "InvokeJob reg now JobRpc deadline = Some (Err_panic m) \<and> InvokeJob reg now JobTimer deadline = None \<and> InvokeJob reg now JobConcurrentCallback deadline = None"
  using assms by (auto simp: InvokeJob_def handleTimerJob_def handleConcurrentCallbackJob_def reg_safeExec_def svc_safeExec_def)

theorem callback_panics_reported_as_success_witness:
  "let reg = gm_set (gm_set (gm_set [] JobRpc (\<lambda>_. Panicked ''nil'')) JobTimer (\<lambda>_. handleTimerJob (Some (\<lambda>_. Panicked ''nil''))))
        JobConcurrentCallback (\<lambda>_. handleConcurrentCallbackJob (Some (\<lambda>_. Some ''nil'')))
   in InvokeJob reg 5 JobTimer 0 = None"
  unfolding Let_def by (rule callback_panics_reported_as_success [where m = "''nil''", THEN conjunct2, THEN conjunct1]) (simp_all add: gm_get_set)

end
