(* ===== verification/Service_Registry.thy ===== *)
theory Service_Registry
  imports Event_Bus "HOL-Library.Multiset"
begin

text \<open>
  The registry of services of a node: \<open>engine/pkg/actor/pid.go\<close>, \<open>engine/pkg/cluster/endpoints/repository/repository.go\<close>, \<open>repository/selector.go\<close> and
  \<open>engine/pkg/cluster/endpoints/endpoints.go\<close>.

  A service is known by its PID and reached through a dispatcher. Dispatchers are pointers and a closed one has lost its PID, so the dispatchers are numbers and the
  PIDs they hold are kept in a store. \<open>AddWithMeta\<close> and \<open>Remove\<close> first change the concurrent map of services and then, under a lock, the two
  indexes; the two halves are separate operations, and the whole is their composition. The clock is an argument.
\<close>

section \<open>Definitions\<close>

subsection \<open>Process identifiers\<close>

record actor_pid =
  p_Address :: string
  p_Name :: string
  p_ServiceType :: string
  p_ServiceId :: string
  p_State :: int
  p_Partition :: int
  p_Version :: int
  p_RpcType :: string
  p_NodeUid :: string
  p_ServiceUid :: string
  p_MasterFlag :: bool

definition CreateInstanceId :: "int \<Rightarrow> string \<Rightarrow> string \<Rightarrow> string \<Rightarrow> string" where
  "CreateInstanceId part serviceName serviceId nodeUid = int_digits part @ ''.'' @ serviceName @ ''.'' @ serviceId @ ''.'' @ nodeUid"

definition NewPID :: "string \<Rightarrow> string \<Rightarrow> int \<Rightarrow> string \<Rightarrow> string \<Rightarrow> string \<Rightarrow> int \<Rightarrow> string \<Rightarrow> actor_pid" where
  "NewPID address nodeUid part serviceID serviceType serviceName version rpcType =
     \<lparr> p_Address = address, p_Name = serviceName, p_ServiceType = serviceType, p_ServiceId = serviceID, p_State = 0, p_Partition = part, p_Version = version,
       p_RpcType = rpcType, p_NodeUid = nodeUid, p_ServiceUid = CreateInstanceId part serviceName serviceID nodeUid, p_MasterFlag = False \<rparr>"

definition ServiceStatusRetired :: int where
  "ServiceStatusRetired = 1"

definition IsRetired :: "actor_pid option \<Rightarrow> bool" where
  "IsRetired p = (case p of None \<Rightarrow> True | Some p \<Rightarrow> p_State p = ServiceStatusRetired)"

text \<open>The generated getters answer zero values for a nil PID.\<close>

definition nil_pid :: actor_pid where
  "nil_pid = \<lparr> p_Address = [], p_Name = [], p_ServiceType = [], p_ServiceId = [], p_State = 0, p_Partition = 0, p_Version = 0, p_RpcType = [], p_NodeUid = [],
     p_ServiceUid = [], p_MasterFlag = False \<rparr>"

subsection \<open>The repository\<close>

definition StatusReady :: int where
  "StatusReady = 4"

abbreviation "ServiceVisibilityCluster \<equiv> (1 :: int)"
abbreviation "ServiceVisibilityNode \<equiv> (2 :: int)"

record service_info =
  si_dispatcher :: "nat option"
  si_status :: int
  si_visibility :: int

record tmp_info =
  ti_dispatcher :: "nat option"
  ti_latest :: int

record repository =
  rp_keyMap :: "(string, string) gomap"
  rp_mapPID :: "(string, service_info) gomap"
  rp_tmpMapPid :: "(string, tmp_info) gomap"
  rp_byName :: "(string, (string, unit) gomap) gomap"
  rp_byType :: "(string, (string, (string, unit) gomap) gomap) gomap"
  rp_pids :: "nat \<Rightarrow> actor_pid option"
  rp_stopped :: bool

definition NewRepository :: "(nat \<Rightarrow> actor_pid option) \<Rightarrow> repository" where
  "NewRepository pids =
     \<lparr> rp_keyMap = [], rp_mapPID = [], rp_tmpMapPid = [], rp_byName = [], rp_byType = [], rp_pids = pids, rp_stopped = False \<rparr>"

definition pid_of :: "repository \<Rightarrow> nat \<Rightarrow> actor_pid" where
  "pid_of r d = (case rp_pids r d of None \<Rightarrow> nil_pid | Some p \<Rightarrow> p)"

definition Dispatcher_Close :: "nat \<Rightarrow> repository \<Rightarrow> repository" where
  "Dispatcher_Close d r = r \<lparr> rp_pids := (rp_pids r)(d := None) \<rparr>"

definition syncPID :: "nat \<Rightarrow> actor_pid option \<Rightarrow> repository \<Rightarrow> repository" where
  "syncPID d p r =
     (case (rp_pids r d, p) of
        (Some q, Some p) \<Rightarrow> r \<lparr> rp_pids := (rp_pids r)(d := Some (q \<lparr> p_MasterFlag := p_MasterFlag p \<rparr>)) \<rparr>
      | _ \<Rightarrow> r)"

definition indexAdd :: "actor_pid \<Rightarrow> repository \<Rightarrow> repository" where
  "indexAdd p r =
     r \<lparr> rp_byName := gm_set2 (rp_byName r) (p_Name p) (p_ServiceUid p) (),
         rp_byType := gm_set3 (rp_byType r) (p_ServiceType p) (p_Name p) (p_ServiceUid p) () \<rparr>"

definition indexRemove :: "actor_pid \<Rightarrow> repository \<Rightarrow> repository" where
  "indexRemove p r =
     (if gm_get (rp_byName r) (p_Name p) = None then r
      else r \<lparr> rp_byName := gm_del2 (rp_byName r) (p_Name p) (p_ServiceUid p),
               rp_byType := gm_del3 (rp_byType r) (p_ServiceType p) (p_Name p) (p_ServiceUid p) \<rparr>)"

text \<open>The first half of \<open>AddWithMeta\<close>; the flag says whether the PID has to be indexed.\<close>

definition add_store :: "string \<Rightarrow> nat \<Rightarrow> int \<Rightarrow> int \<Rightarrow> repository \<Rightarrow> bool \<times> repository" where
  "add_store key0 d status visibility r0 =
     (let uid = p_ServiceUid (pid_of r0 d);
          r = r0 \<lparr> rp_keyMap := gm_set (rp_keyMap r0) (if key0 = [] then uid else key0) uid \<rparr>
      in case gm_get (rp_mapPID r) uid of
           None \<Rightarrow> (True, r \<lparr> rp_mapPID := gm_set (rp_mapPID r) uid \<lparr> si_dispatcher = Some d, si_status = status, si_visibility = visibility \<rparr> \<rparr>)
         | Some old \<Rightarrow>
             case si_dispatcher old of
               Some od \<Rightarrow>
                 let r1 = syncPID od (rp_pids r d) r;
                     r2 = r1 \<lparr> rp_mapPID := gm_set (rp_mapPID r1) uid (old \<lparr> si_status := status, si_visibility := visibility \<rparr>) \<rparr>
                 in (False, if d \<noteq> od then Dispatcher_Close d r2 else r2)
             | None \<Rightarrow> (False, r \<lparr> rp_mapPID := gm_set (rp_mapPID r) uid \<lparr> si_dispatcher = Some d, si_status = status, si_visibility = visibility \<rparr> \<rparr>))"

definition AddWithMeta :: "string \<Rightarrow> nat \<Rightarrow> int \<Rightarrow> int \<Rightarrow> repository \<Rightarrow> repository" where
  "AddWithMeta key d status visibility r =
     (case add_store key d status visibility r of (fresh, r1) \<Rightarrow> if fresh then indexAdd (pid_of r d) r1 else r1)"

definition repo_Add :: "string \<Rightarrow> nat \<Rightarrow> repository \<Rightarrow> repository" where
  "repo_Add key d r = AddWithMeta key d StatusReady ServiceVisibilityCluster r"

text \<open>The first half of \<open>Remove\<close>, with the PID whose index entries have to go.\<close>

definition remove_take :: "string \<Rightarrow> repository \<Rightarrow> actor_pid option \<times> repository" where
  "remove_take key r =
     (if key = [] then (None, r)
      else case gm_get (rp_keyMap r) key of
             None \<Rightarrow> (None, r)
           | Some uid \<Rightarrow>
               let r1 = r \<lparr> rp_keyMap := gm_del (rp_keyMap r) key \<rparr>
               in case gm_get (rp_mapPID r1) uid of
                    None \<Rightarrow> (None, r1)
                  | Some info \<Rightarrow>
                      let r2 = r1 \<lparr> rp_mapPID := gm_del (rp_mapPID r1) uid \<rparr>
                      in case si_dispatcher info of None \<Rightarrow> (None, r2) | Some d \<Rightarrow> (Some (pid_of r2 d), Dispatcher_Close d r2))"

definition repo_Remove :: "string \<Rightarrow> repository \<Rightarrow> repository" where
  "repo_Remove key r = (case remove_take key r of (None, r1) \<Rightarrow> r1 | (Some p, r1) \<Rightarrow> indexRemove p r1)"

definition UpdateStatus :: "string \<Rightarrow> int \<Rightarrow> repository \<Rightarrow> bool \<times> repository" where
  "UpdateStatus uid status r =
     (case gm_get (rp_mapPID r) uid of
        None \<Rightarrow> (False, r)
      | Some info \<Rightarrow> (True, r \<lparr> rp_mapPID := gm_set (rp_mapPID r) uid (info \<lparr> si_status := status \<rparr>) \<rparr>))"

definition UpdateVisibility :: "string \<Rightarrow> int \<Rightarrow> repository \<Rightarrow> bool \<times> repository" where
  "UpdateVisibility uid visibility r =
     (case gm_get (rp_mapPID r) uid of
        None \<Rightarrow> (False, r)
      | Some info \<Rightarrow> (True, r \<lparr> rp_mapPID := gm_set (rp_mapPID r) uid (info \<lparr> si_visibility := visibility \<rparr>) \<rparr>))"

definition isSelectableInfo :: "service_info \<Rightarrow> bool" where
  "isSelectableInfo info \<longleftrightarrow> si_dispatcher info \<noteq> None \<and> si_status info = StatusReady"

definition IsSelectable :: "string \<Rightarrow> repository \<Rightarrow> bool" where
  "IsSelectable uid r = (case gm_get (rp_mapPID r) uid of None \<Rightarrow> False | Some info \<Rightarrow> isSelectableInfo info)"

definition IsRemoteCallable :: "string \<Rightarrow> repository \<Rightarrow> bool" where
  "IsRemoteCallable uid r =
     (case gm_get (rp_mapPID r) uid of None \<Rightarrow> False | Some info \<Rightarrow> si_visibility info = ServiceVisibilityCluster \<or> si_visibility info = ServiceVisibilityNode)"

text \<open>Temporary dispatchers are kept while they are in use; a tick drops those that the strategy picks.\<close>

definition AddTmp :: "int \<Rightarrow> nat \<Rightarrow> repository \<Rightarrow> nat option \<times> repository" where
  "AddTmp now d r =
     (case rp_pids r d of
        None \<Rightarrow> (Some d, r)
      | Some p \<Rightarrow>
          let uid = p_ServiceUid p; tmp = \<lparr> ti_dispatcher = Some d, ti_latest = now \<rparr>
          in case gm_get (rp_tmpMapPid r) uid of
               None \<Rightarrow> (Some d, r \<lparr> rp_tmpMapPid := gm_set (rp_tmpMapPid r) uid tmp \<rparr>)
             | Some old \<Rightarrow>
                 case ti_dispatcher old of
                   Some od \<Rightarrow>
                     let r1 = r \<lparr> rp_tmpMapPid := gm_set (rp_tmpMapPid r) uid (old \<lparr> ti_latest := now \<rparr>) \<rparr>
                     in (Some od, if od \<noteq> d then Dispatcher_Close d r1 else r1)
                 | None \<Rightarrow> (Some d, r \<lparr> rp_tmpMapPid := gm_set (rp_tmpMapPid r) uid tmp \<rparr>))"

definition defaultStrategy :: "int \<Rightarrow> tmp_info \<Rightarrow> bool" where
  "defaultStrategy now tmp \<longleftrightarrow> now - ti_latest tmp > 300000000000"

definition close_tmps :: "tmp_info list \<Rightarrow> repository \<Rightarrow> repository" where
  "close_tmps ts r = fold (\<lambda>t r. case ti_dispatcher t of None \<Rightarrow> r | Some d \<Rightarrow> Dispatcher_Close d r) ts r"

definition repo_tick :: "(tmp_info \<Rightarrow> bool) \<Rightarrow> repository \<Rightarrow> repository" where
  "repo_tick strategy r =
     close_tmps (filter strategy (map snd (rp_tmpMapPid r))) (r \<lparr> rp_tmpMapPid := filter (\<lambda>x. \<not> strategy (snd x)) (rp_tmpMapPid r) \<rparr>)"

definition repo_Stop :: "repository \<Rightarrow> repository" where
  "repo_Stop r =
     repo_tick (\<lambda>_. True) (fold (\<lambda>x r. case si_dispatcher (snd x) of None \<Rightarrow> r | Some d \<Rightarrow> Dispatcher_Close d r) (rp_mapPID r) (r \<lparr> rp_stopped := True \<rparr>))"

subsection \<open>Selection\<close>

definition SelectByServiceUid :: "int \<Rightarrow> string \<Rightarrow> repository \<Rightarrow> nat option \<times> repository" where
  "SelectByServiceUid now uid r =
     (case gm_get (rp_mapPID r) uid of
        Some info \<Rightarrow> (case si_dispatcher info of None \<Rightarrow> None | Some d \<Rightarrow> if IsRetired (rp_pids r d) then None else Some d, r)
      | None \<Rightarrow>
          case gm_get (rp_tmpMapPid r) uid of
            None \<Rightarrow> (None, r)
          | Some tmp \<Rightarrow> (ti_dispatcher tmp, r \<lparr> rp_tmpMapPid := gm_set (rp_tmpMapPid r) uid (tmp \<lparr> ti_latest := now \<rparr>) \<rparr>))"

text \<open>What \<open>newMessageBus\<close> is given: the dispatcher of the sender, that of the receiver, and an error.\<close>

record bus_ends =
  be_sender :: "nat option"
  be_receiver :: "nat option"
  be_notFound :: bool

definition SelectBySvcUid :: "int \<Rightarrow> string \<Rightarrow> string \<Rightarrow> repository \<Rightarrow> bus_ends \<times> repository" where
  "SelectBySvcUid now sender uid r =
     (case SelectByServiceUid now sender r of (s, r1) \<Rightarrow> case SelectByServiceUid now uid r1 of (c, r2) \<Rightarrow>
        (\<lparr> be_sender = s, be_receiver = c, be_notFound = (case c of None \<Rightarrow> True | Some d \<Rightarrow> IsRetired (rp_pids r2 d)) \<rparr>, r2))"

record select_param =
  sp_Partition :: "int option"
  sp_ServiceId :: "string option"
  sp_ServiceName :: "string option"
  sp_ServiceType :: "string option"
  sp_IsSlaver :: bool

datatype select_result = Single bus_ends | Many "bus_ends list"

definition pid_fits :: "select_param \<Rightarrow> actor_pid \<Rightarrow> bool" where
  "pid_fits param p \<longleftrightarrow>
     (case sp_Partition param of None \<Rightarrow> True | Some n \<Rightarrow> p_Partition p = n) \<and> (case sp_ServiceId param of None \<Rightarrow> True | Some i \<Rightarrow> p_ServiceId p = i)
     \<and> p_MasterFlag p = (\<not> sp_IsSlaver param)"

text \<open>The loop over the identifiers an index gives.\<close>

fun pick_all :: "int \<Rightarrow> (actor_pid \<Rightarrow> bool) \<Rightarrow> string list \<Rightarrow> repository \<Rightarrow> nat list \<times> repository" where
  "pick_all now fits [] r = ([], r)"
| "pick_all now fits (uid # uids) r =
     (case SelectByServiceUid now uid r of (c, r1) \<Rightarrow> case pick_all now fits uids r1 of (ds, r2) \<Rightarrow>
        (case c of
           None \<Rightarrow> ds
         | Some d \<Rightarrow> if IsSelectable uid r1 \<and> \<not> IsRetired (rp_pids r1 d) \<and> fits (pid_of r1 d) then d # ds else ds, r2))"

definition to_buses :: "nat option \<Rightarrow> nat list \<Rightarrow> bus_ends list" where
  "to_buses s ds = map (\<lambda>d. \<lparr> be_sender = s, be_receiver = Some d, be_notFound = False \<rparr>) ds"

definition repo_Select :: "int \<Rightarrow> string \<Rightarrow> select_param \<Rightarrow> repository \<Rightarrow> (go_panic + select_result) \<times> repository" where
  "repo_Select now sender param r =
     (case SelectByServiceUid now sender r of (s, r1) \<Rightarrow>
        case sp_ServiceName param of
          None \<Rightarrow> (Inl (Go_Panic ''nil pointer dereference''), r1)
        | Some name \<Rightarrow>
            case gm_get (rp_byName r1) name of
              None \<Rightarrow> (Inr (Single \<lparr> be_sender = s, be_receiver = None, be_notFound = True \<rparr>), r1)
            | Some uids \<Rightarrow> case pick_all now (pid_fits param) (gm_keys uids) r1 of (ds, r2) \<Rightarrow> (Inr (Many (to_buses s ds)), r2))"

definition type_candidates :: "string \<Rightarrow> string \<Rightarrow> repository \<Rightarrow> string list option" where
  "type_candidates serviceType serviceName r =
     (if serviceType = [] then Some (concat (map (\<lambda>x. case gm_get (snd x) serviceName of None \<Rightarrow> [] | Some uids \<Rightarrow> gm_keys uids) (rp_byType r)))
      else case gm_get (rp_byType r) serviceType of
             None \<Rightarrow> None
           | Some names \<Rightarrow>
               if serviceName = [] then Some (concat (map (\<lambda>x. gm_keys (snd x)) names))
               else map_option gm_keys (gm_get names serviceName))"

definition SelectByServiceType :: "int \<Rightarrow> string \<Rightarrow> int \<Rightarrow> string \<Rightarrow> string \<Rightarrow> repository \<Rightarrow> bus_ends list \<times> repository" where
  "SelectByServiceType now sender part serviceType serviceName r =
     (if serviceType = [] \<and> serviceName = [] then ([], r)
      else case type_candidates serviceType serviceName r of
             None \<Rightarrow> ([], r)
           | Some uids \<Rightarrow>
               case SelectByServiceUid now sender r of (s, r1) \<Rightarrow>
                 case pick_all now (\<lambda>p. (part = 0 \<or> p_Partition p = part) \<and> p_MasterFlag p) uids r1 of (ds, r2) \<Rightarrow> (to_buses s ds, r2))"

text \<open>The scan of \<open>SelectByRule\<close> reads the master flag through the PID of a selectable service, which is nil when its dispatcher was closed.\<close>

fun rule_scan :: "(actor_pid \<Rightarrow> bool) \<Rightarrow> (nat \<Rightarrow> actor_pid option) \<Rightarrow> service_info list \<Rightarrow> go_panic + nat list" where
  "rule_scan rule pids [] = Inr []"
| "rule_scan rule pids (info # infos) =
     (case si_dispatcher info of
        None \<Rightarrow> rule_scan rule pids infos
      | Some d \<Rightarrow>
          if \<not> isSelectableInfo info then rule_scan rule pids infos
          else case pids d of
                 None \<Rightarrow> Inl (Go_Panic ''nil pointer dereference'')
               | Some p \<Rightarrow>
                   case rule_scan rule pids infos of
                     Inl e \<Rightarrow> Inl e
                   | Inr ds \<Rightarrow> Inr (if p_MasterFlag p \<and> rule p then d # ds else ds))"

definition SelectByRule :: "int \<Rightarrow> string \<Rightarrow> (actor_pid \<Rightarrow> bool) \<Rightarrow> repository \<Rightarrow> (go_panic + bus_ends list) \<times> repository" where
  "SelectByRule now sender rule r =
     (case SelectByServiceUid now sender r of (s, r1) \<Rightarrow>
        (case rule_scan rule (rp_pids r1) (map snd (rp_mapPID r1)) of Inl e \<Rightarrow> Inl e | Inr ds \<Rightarrow> Inr (to_buses s ds), r1))"

text \<open>\<open>SelectByFilterAndChoice\<close>: the filter is also asked about closed dispatchers, whose PID is nil.\<close>

fun filter_scan :: "(actor_pid option \<Rightarrow> bool) \<Rightarrow> (nat \<Rightarrow> actor_pid option) \<Rightarrow> service_info list \<Rightarrow> actor_pid option list" where
  "filter_scan filt pids [] = []"
| "filter_scan filt pids (info # infos) =
     (case si_dispatcher info of
        None \<Rightarrow> filter_scan filt pids infos
      | Some d \<Rightarrow> if isSelectableInfo info \<and> filt (pids d) then pids d # filter_scan filt pids infos else filter_scan filt pids infos)"

fun choose_all :: "int \<Rightarrow> actor_pid option list \<Rightarrow> repository \<Rightarrow> nat list \<times> repository" where
  "choose_all now [] r = ([], r)"
| "choose_all now (p # ps) r =
     (case SelectByServiceUid now (p_ServiceUid (case p of None \<Rightarrow> nil_pid | Some p \<Rightarrow> p)) r of (c, r1) \<Rightarrow> case choose_all now ps r1 of (ds, r2) \<Rightarrow>
        (case c of None \<Rightarrow> ds | Some d \<Rightarrow> if IsRetired (rp_pids r1 d) then ds else d # ds, r2))"

definition SelectByFilterAndChoice ::
  "int \<Rightarrow> string \<Rightarrow> (actor_pid option \<Rightarrow> bool) \<Rightarrow> (actor_pid option list \<Rightarrow> actor_pid option list) \<Rightarrow> repository \<Rightarrow> bus_ends list \<times> repository" where
  "SelectByFilterAndChoice now sender filt choice r =
     (case SelectByServiceUid now sender r of (s, r1) \<Rightarrow>
        case choose_all now (choice (filter_scan filt (rp_pids r1) (map snd (rp_mapPID r1)))) r1 of (ds, r2) \<Rightarrow> (to_buses s ds, r2))"

subsection \<open>The endpoint manager\<close>

datatype em_event = SysEventServiceReg string | SysEventServiceDis string

record endpoint_manager =
  em_nodeUid :: string
  em_isClusterMode :: bool
  em_remotes :: "(string, string) gomap"
  em_repo :: repository
  em_next :: nat
  em_events :: "em_event list"

text \<open>What the manager asks of a local service.\<close>

record local_service =
  ls_pid :: "actor_pid option"
  ls_status :: int
  ls_visibility :: int
  ls_primarySecondary :: bool

definition new_em :: "string \<Rightarrow> bool \<Rightarrow> (string, string) gomap \<Rightarrow> endpoint_manager" where
  "new_em nodeUid cluster remotes =
     \<lparr> em_nodeUid = nodeUid, em_isClusterMode = cluster, em_remotes = remotes, em_repo = NewRepository (\<lambda>_. None), em_next = 0, em_events = [] \<rparr>"

definition NewDispatcher :: "actor_pid \<Rightarrow> endpoint_manager \<Rightarrow> nat \<times> endpoint_manager" where
  "NewDispatcher p em =
     (em_next em, em \<lparr> em_next := Suc (em_next em), em_repo := (em_repo em) \<lparr> rp_pids := (rp_pids (em_repo em))(em_next em := Some p) \<rparr> \<rparr>)"

definition CreatePid :: "int \<Rightarrow> string \<Rightarrow> string \<Rightarrow> string \<Rightarrow> int \<Rightarrow> string \<Rightarrow> endpoint_manager \<Rightarrow> actor_pid" where
  "CreatePid part serviceId serviceType serviceName version rpcType em =
     (case gm_get (em_remotes em) rpcType of
        None \<Rightarrow> NewPID [] (em_nodeUid em) part serviceId serviceType serviceName version []
      | Some address \<Rightarrow> NewPID address (em_nodeUid em) part serviceId serviceType serviceName version rpcType)"

text \<open>Events of the discovery: the key, and the entry with its status and visibility or the reason why it cannot be read.\<close>

definition updateServiceInfo :: "string option \<Rightarrow> string + actor_pid \<times> int \<times> int \<Rightarrow> endpoint_manager \<Rightarrow> string option \<times> endpoint_manager" where
  "updateServiceInfo key val em =
     (case key of
        None \<Rightarrow> (Some ''key is nil'', em)
      | Some k \<Rightarrow>
          case val of
            Inl e \<Rightarrow> (Some (''unmarshal pid error: '' @ e), em)
          | Inr (p, status, visibility) \<Rightarrow>
              if p_NodeUid p = em_nodeUid em then (None, em)
              else case NewDispatcher p em of (d, em1) \<Rightarrow> (None, em1 \<lparr> em_repo := AddWithMeta k d status visibility (em_repo em1) \<rparr>))"

definition removeServiceInfo :: "string option \<Rightarrow> endpoint_manager \<Rightarrow> string option \<times> endpoint_manager" where
  "removeServiceInfo key em =
     (case key of None \<Rightarrow> (Some ''key is nil'', em) | Some k \<Rightarrow> (None, em \<lparr> em_repo := repo_Remove k (em_repo em) \<rparr>))"

definition published :: "local_service \<Rightarrow> endpoint_manager \<Rightarrow> bool" where
  "published s em \<longleftrightarrow> (ls_visibility s = ServiceVisibilityCluster \<or> ls_primarySecondary s) \<and> em_isClusterMode em"

definition em_trigger :: "em_event \<Rightarrow> endpoint_manager \<Rightarrow> endpoint_manager" where
  "em_trigger e em = em \<lparr> em_events := em_events em @ [e] \<rparr>"

definition AddService :: "local_service \<Rightarrow> endpoint_manager \<Rightarrow> endpoint_manager" where
  "AddService s em =
     (case ls_pid s of
        None \<Rightarrow> em
      | Some p \<Rightarrow>
          case NewDispatcher p em of (d, em1) \<Rightarrow>
            let em2 = em1 \<lparr> em_repo := AddWithMeta [] d (ls_status s) (ls_visibility s) (em_repo em1) \<rparr>
            in if published s em then em_trigger (SysEventServiceReg (p_ServiceUid p)) em2 else em2)"

definition ServiceReady :: "local_service \<Rightarrow> endpoint_manager \<Rightarrow> endpoint_manager" where
  "ServiceReady s em =
     (case ls_pid s of
        None \<Rightarrow> em
      | Some p \<Rightarrow>
          let em1 = em \<lparr> em_repo := snd (UpdateStatus (p_ServiceUid p) (ls_status s) (em_repo em)) \<rparr>
          in if published s em then em_trigger (SysEventServiceReg (p_ServiceUid p)) em1 else em1)"

definition RemoveService :: "local_service \<Rightarrow> endpoint_manager \<Rightarrow> endpoint_manager" where
  "RemoveService s em =
     (let uid = p_ServiceUid (case ls_pid s of None \<Rightarrow> nil_pid | Some p \<Rightarrow> p); em1 = em \<lparr> em_repo := repo_Remove uid (em_repo em) \<rparr>
      in if published s em then em_trigger (SysEventServiceDis uid) em1 else em1)"

definition ToNodeService :: "local_service \<Rightarrow> endpoint_manager \<Rightarrow> endpoint_manager" where
  "ToNodeService s em =
     (case ls_pid s of
        None \<Rightarrow> em
      | Some p \<Rightarrow>
          let em1 = em \<lparr> em_repo := snd (UpdateVisibility (p_ServiceUid p) ServiceVisibilityNode (em_repo em)) \<rparr>
          in if ls_primarySecondary s \<or> \<not> em_isClusterMode em then em1 else em_trigger (SysEventServiceDis (p_ServiceUid p)) em1)"

definition GetDispatcher :: "int \<Rightarrow> actor_pid option \<Rightarrow> endpoint_manager \<Rightarrow> nat option \<times> endpoint_manager" where
  "GetDispatcher now pid em =
     (case pid of
        None \<Rightarrow> (None, em)
      | Some p \<Rightarrow>
          case SelectByServiceUid now (p_ServiceUid p) (em_repo em) of (c, r1) \<Rightarrow>
            let em1 = em \<lparr> em_repo := r1 \<rparr>
            in if p_NodeUid p = em_nodeUid em then (if c = None \<or> \<not> IsRemoteCallable (p_ServiceUid p) r1 then None else c, em1)
               else case c of
                      Some d \<Rightarrow> (Some d, em1)
                    | None \<Rightarrow> case NewDispatcher p em1 of (d, em2) \<Rightarrow> case AddTmp now d (em_repo em2) of (c2, r2) \<Rightarrow> (c2, em2 \<lparr> em_repo := r2 \<rparr>))"

definition RouteByPid :: "int \<Rightarrow> actor_pid option \<Rightarrow> actor_pid option \<Rightarrow> endpoint_manager \<Rightarrow> bus_ends \<times> endpoint_manager" where
  "RouteByPid now sender receiver em =
     (let (s, r1) = (case sender of None \<Rightarrow> (None, em_repo em) | Some p \<Rightarrow> SelectByServiceUid now (p_ServiceUid p) (em_repo em)); em1 = em \<lparr> em_repo := r1 \<rparr>
      in case receiver of
           None \<Rightarrow> (\<lparr> be_sender = s, be_receiver = None, be_notFound = True \<rparr>, em1)
         | Some p \<Rightarrow>
             case GetDispatcher now (Some p) em1 of (c, em2) \<Rightarrow>
               (\<lparr> be_sender = s, be_receiver = c, be_notFound = (case c of None \<Rightarrow> True | Some d \<Rightarrow> IsRetired (rp_pids (em_repo em2) d)) \<rparr>, em2))"

section \<open>The invariant of the registry\<close>

definition reg :: "repository \<Rightarrow> string \<Rightarrow> (nat \<times> actor_pid) option" where
  "reg r uid =
     (case gm_get (rp_mapPID r) uid of
        None \<Rightarrow> None
      | Some info \<Rightarrow> case si_dispatcher info of None \<Rightarrow> None | Some d \<Rightarrow> map_option (Pair d) (rp_pids r d))"

text \<open>The two indexes list exactly the registered services.\<close>

definition index_ok :: "repository \<Rightarrow> bool" where
  "index_ok r \<longleftrightarrow> wf2 (rp_byName r) \<and> wf3 (rp_byType r)
     \<and> (\<forall>name uid. gm_get2 (rp_byName r) name uid = Some () \<longleftrightarrow> (\<exists>d p. reg r uid = Some (d, p) \<and> p_Name p = name))
     \<and> (\<forall>tp name uid. gm_get3 (rp_byType r) tp name uid = Some () \<longleftrightarrow> (\<exists>d p. reg r uid = Some (d, p) \<and> p_ServiceType p = tp \<and> p_Name p = name))"

definition tmp_ok :: "repository \<Rightarrow> bool" where
  "tmp_ok r \<longleftrightarrow> gm_wf (rp_tmpMapPid r) \<and> (\<forall>uid t. gm_get (rp_tmpMapPid r) uid = Some t \<longrightarrow>
     (\<exists>d p. ti_dispatcher t = Some d \<and> rp_pids r d = Some p \<and> p_ServiceUid p = uid \<and> (\<forall>d1 p1. reg r uid = Some (d1, p1) \<longrightarrow> d1 \<noteq> d)))"

definition map_ok :: "repository \<Rightarrow> bool" where
  "map_ok r \<longleftrightarrow> gm_wf (rp_mapPID r) \<and> (\<forall>uid. gm_get (rp_mapPID r) uid \<noteq> None \<longrightarrow> (\<exists>d p. reg r uid = Some (d, p) \<and> p_ServiceUid p = uid))"

definition reg_inv :: "nat \<Rightarrow> repository \<Rightarrow> bool" where
  "reg_inv n r \<longleftrightarrow> map_ok r \<and> tmp_ok r \<and> index_ok r \<and> (\<forall>d. n \<le> d \<longrightarrow> rp_pids r d = None)"

lemma reg_SomeD:
  "reg r uid = Some (d, p) \<Longrightarrow> \<exists>info. gm_get (rp_mapPID r) uid = Some info \<and> si_dispatcher info = Some d \<and> rp_pids r d = Some p"
  by (auto simp: reg_def split: option.splits)

lemma reg_I: "gm_get (rp_mapPID r) uid = Some info \<Longrightarrow> si_dispatcher info = Some d \<Longrightarrow> rp_pids r d = Some p \<Longrightarrow> reg r uid = Some (d, p)"
  by (simp add: reg_def)

lemma map_okD:
  assumes "map_ok r" "gm_get (rp_mapPID r) uid = Some info"
  obtains d p where "reg r uid = Some (d, p)" "p_ServiceUid p = uid" "si_dispatcher info = Some d" "rp_pids r d = Some p"
proof -
  from assms obtain d p where *: "reg r uid = Some (d, p)" "p_ServiceUid p = uid" by (auto simp: map_ok_def)
  then show ?thesis using that [of d p] reg_SomeD [OF *(1)] assms(2) by auto
qed

lemma reg_uid: "map_ok r \<Longrightarrow> reg r uid = Some (d, p) \<Longrightarrow> p_ServiceUid p = uid"
  using reg_SomeD [of r uid d p] unfolding map_ok_def by fastforce

lemma tmp_okD:
  assumes "tmp_ok r" "gm_get (rp_tmpMapPid r) uid = Some t"
  obtains d p where "ti_dispatcher t = Some d" "rp_pids r d = Some p" "p_ServiceUid p = uid" "\<And>d1 p1. reg r uid = Some (d1, p1) \<Longrightarrow> d1 \<noteq> d"
  using assms unfolding tmp_ok_def by blast

text \<open>How the parts of a state determine the registered services, and what does not matter.\<close>

lemma reg_cong:
  assumes "rp_mapPID r' = rp_mapPID r" "rp_pids r' = rp_pids r"
  shows "reg r' = reg r"
  unfolding reg_def assms ..

lemma index_ok_cong: "rp_byName r' = rp_byName r \<Longrightarrow> rp_byType r' = rp_byType r \<Longrightarrow> reg r' = reg r \<Longrightarrow> index_ok r' = index_ok r"
  by (simp add: index_ok_def)

text \<open>Replacing the PIDs by ones that agree in all but the master flag.\<close>

definition same_service :: "actor_pid \<Rightarrow> actor_pid \<Rightarrow> bool" where
  "same_service p q \<longleftrightarrow> p_Name p = p_Name q \<and> p_ServiceType p = p_ServiceType q \<and> p_ServiceUid p = p_ServiceUid q"

lemma index_ok_same:
  assumes "index_ok r" "rp_byName r' = rp_byName r" "rp_byType r' = rp_byType r"
    and "\<And>uid. rel_option (\<lambda>x y. fst x = fst y \<and> same_service (snd x) (snd y)) (reg r' uid) (reg r uid)"
  shows "index_ok r'"
proof -
  have "(\<exists>d p. reg r' uid = Some (d, p) \<and> p_Name p = name) \<longleftrightarrow> (\<exists>d p. reg r uid = Some (d, p) \<and> p_Name p = name)"
    "(\<exists>d p. reg r' uid = Some (d, p) \<and> p_ServiceType p = tp \<and> p_Name p = name) \<longleftrightarrow> (\<exists>d p. reg r uid = Some (d, p) \<and> p_ServiceType p = tp \<and> p_Name p = name)" for uid tp name
    using assms(4) [of uid] by (auto simp: option_rel_Some1 option_rel_Some2 same_service_def split_paired_Ex)
  then show ?thesis using assms(1) unfolding index_ok_def assms(2,3) by simp
qed

lemma indexAdd_ok:
  assumes "index_ok r" "reg r (p_ServiceUid p) = None" "rp_byName r' = rp_byName r" "rp_byType r' = rp_byType r" "reg r' = (reg r)(p_ServiceUid p := Some (d, p))"
  shows "index_ok (indexAdd p r')"
proof -
  have "reg (indexAdd p r') = reg r'" by (rule reg_cong) (simp_all add: indexAdd_def)
  then show ?thesis using assms(1,2) unfolding index_ok_def assms(5)
    by (auto simp: indexAdd_def assms(3,4) nested_get)
qed

lemma gm_get2_name: "gm_get2 m a b = Some v \<Longrightarrow> gm_get m a \<noteq> None"
  by (cases "gm_get m a") (simp_all add: gm_get2_def gm_inner_def)

lemma indexRemove_ok:
  assumes "index_ok r" "reg r (p_ServiceUid p) = Some (d, p)" "rp_byName r' = rp_byName r" "rp_byType r' = rp_byType r" "reg r' = (reg r)(p_ServiceUid p := None)"
  shows "index_ok (indexRemove p r')"
proof -
  have "gm_get2 (rp_byName r) (p_Name p) (p_ServiceUid p) = Some ()" using assms(1,2) unfolding index_ok_def by blast
  then have "gm_get (rp_byName r') (p_Name p) \<noteq> None" unfolding assms(3) by (rule gm_get2_name)
  then have eq: "indexRemove p r' = r' \<lparr> rp_byName := gm_del2 (rp_byName r') (p_Name p) (p_ServiceUid p),
      rp_byType := gm_del3 (rp_byType r') (p_ServiceType p) (p_Name p) (p_ServiceUid p) \<rparr>"
    by (auto simp: indexRemove_def)
  have "reg (indexRemove p r') = reg r'" by (rule reg_cong) (simp_all add: indexRemove_def)
  then show ?thesis using assms(1,2) unfolding index_ok_def assms(5)
    by (auto simp: eq assms(3,4) nested_get)
qed

text \<open>A state that keeps who is registered keeps the invariant.\<close>

definition same_reg :: "repository \<Rightarrow> repository \<Rightarrow> bool" where
  "same_reg r' r \<longleftrightarrow> (\<forall>uid. rel_option (\<lambda>x y. fst x = fst y \<and> same_service (snd x) (snd y)) (reg r' uid) (reg r uid))"

lemma same_service_refl [simp]: "same_service p p"
  by (simp add: same_service_def)

lemma same_reg_eq: "reg r' = reg r \<Longrightarrow> same_reg r' r"
  by (simp add: same_reg_def option.rel_refl)

lemma same_regD1: "same_reg r' r \<Longrightarrow> reg r' uid = Some (d, p) \<Longrightarrow> \<exists>q. reg r uid = Some (d, q) \<and> same_service p q"
  unfolding same_reg_def by (elim allE [of _ uid]) (auto simp: option_rel_Some1)

lemma same_regD2: "same_reg r' r \<Longrightarrow> reg r uid = Some (d, q) \<Longrightarrow> \<exists>p. reg r' uid = Some (d, p) \<and> same_service p q"
  unfolding same_reg_def by (elim allE [of _ uid]) (auto simp: option_rel_Some2)

lemma map_ok_same:
  assumes "map_ok r" "same_reg r' r" "gm_wf (rp_mapPID r')" "\<And>uid. gm_get (rp_mapPID r') uid \<noteq> None \<Longrightarrow> gm_get (rp_mapPID r) uid \<noteq> None"
  shows "map_ok r'"
  unfolding map_ok_def
proof (intro conjI allI impI)
  fix uid assume "gm_get (rp_mapPID r') uid \<noteq> None"
  then obtain d q where "reg r uid = Some (d, q)" "p_ServiceUid q = uid" using assms(1,4) unfolding map_ok_def by blast
  then show "\<exists>d p. reg r' uid = Some (d, p) \<and> p_ServiceUid p = uid" using same_regD2 [OF assms(2)] unfolding same_service_def by metis
qed (rule assms(3))

lemma tmp_ok_same:
  assumes "tmp_ok r" "same_reg r' r" "gm_wf (rp_tmpMapPid r')"
    and "\<And>uid t'. gm_get (rp_tmpMapPid r') uid = Some t' \<Longrightarrow>
        \<exists>t. gm_get (rp_tmpMapPid r) uid = Some t \<and> ti_dispatcher t' = ti_dispatcher t \<and> (\<forall>d. ti_dispatcher t = Some d \<longrightarrow> rp_pids r' d = rp_pids r d)"
  shows "tmp_ok r'"
  unfolding tmp_ok_def
proof (intro conjI allI impI)
  fix uid t' assume "gm_get (rp_tmpMapPid r') uid = Some t'"
  then obtain t where t: "gm_get (rp_tmpMapPid r) uid = Some t" "ti_dispatcher t' = ti_dispatcher t" "\<forall>d. ti_dispatcher t = Some d \<longrightarrow> rp_pids r' d = rp_pids r d"
    using assms(4) by blast
  obtain d p where d: "ti_dispatcher t = Some d" "rp_pids r d = Some p" "p_ServiceUid p = uid" "\<And>d1 p1. reg r uid = Some (d1, p1) \<Longrightarrow> d1 \<noteq> d"
    using assms(1) t(1) by (rule tmp_okD) blast
  show "\<exists>d p. ti_dispatcher t' = Some d \<and> rp_pids r' d = Some p \<and> p_ServiceUid p = uid \<and> (\<forall>d1 p1. reg r' uid = Some (d1, p1) \<longrightarrow> d1 \<noteq> d)"
    using d t(2,3) same_regD1 [OF assms(2)] by metis
qed (rule assms(3))

lemma index_ok_same_reg: "index_ok r \<Longrightarrow> rp_byName r' = rp_byName r \<Longrightarrow> rp_byType r' = rp_byType r \<Longrightarrow> same_reg r' r \<Longrightarrow> index_ok r'"
  unfolding same_reg_def by (rule index_ok_same) auto

lemma reg_not_tmp: "map_ok r \<Longrightarrow> tmp_ok r \<Longrightarrow> reg r uid = Some (d, p) \<Longrightarrow> gm_get (rp_tmpMapPid r) uid' = Some t \<Longrightarrow> ti_dispatcher t \<noteq> Some d"
  by (metis reg_SomeD reg_uid tmp_okD option.inject)

lemma reg_inj: "map_ok r \<Longrightarrow> reg r uid = Some (d, p) \<Longrightarrow> reg r uid' = Some (d, p') \<Longrightarrow> uid = uid'"
  by (metis reg_SomeD reg_uid option.inject)

lemma reg_inv_same:
  assumes "reg_inv n r" "same_reg r' r" "gm_wf (rp_mapPID r')" "\<And>uid. gm_get (rp_mapPID r') uid \<noteq> None \<Longrightarrow> gm_get (rp_mapPID r) uid \<noteq> None"
    and "gm_wf (rp_tmpMapPid r')"
    and "\<And>uid t'. gm_get (rp_tmpMapPid r') uid = Some t' \<Longrightarrow>
        \<exists>t. gm_get (rp_tmpMapPid r) uid = Some t \<and> ti_dispatcher t' = ti_dispatcher t \<and> (\<forall>d. ti_dispatcher t = Some d \<longrightarrow> rp_pids r' d = rp_pids r d)"
    and "rp_byName r' = rp_byName r" "rp_byType r' = rp_byType r" "\<And>d. n \<le> d \<Longrightarrow> rp_pids r d = None \<Longrightarrow> rp_pids r' d = None"
  shows "reg_inv n r'"
  using assms map_ok_same [OF _ assms(2,3,4)] tmp_ok_same [OF _ assms(2,5,6)] index_ok_same_reg [OF _ assms(7,8,2)] unfolding reg_inv_def by simp

section \<open>The operations keep the invariant\<close>

definition unused :: "repository \<Rightarrow> nat \<Rightarrow> bool" where
  "unused r d \<longleftrightarrow> (\<forall>uid info. gm_get (rp_mapPID r) uid = Some info \<longrightarrow> si_dispatcher info \<noteq> Some d) \<and> (\<forall>uid t. gm_get (rp_tmpMapPid r) uid = Some t \<longrightarrow> ti_dispatcher t \<noteq> Some d)"

lemma reg_pids_other:
  assumes "\<And>uid info. gm_get (rp_mapPID r) uid = Some info \<Longrightarrow> si_dispatcher info \<noteq> Some d"
  shows "reg (r \<lparr> rp_pids := (rp_pids r)(d := x) \<rparr>) = reg r"
proof
  fix uid show "reg (r \<lparr> rp_pids := (rp_pids r)(d := x) \<rparr>) uid = reg r uid"
    using assms [of uid] by (auto simp: reg_def split: option.splits)
qed

lemma unused_pids:
  assumes "reg_inv n r" "unused r d" "d < m" "n \<le> m"
  shows "reg_inv m (r \<lparr> rp_pids := (rp_pids r)(d := x) \<rparr>)" (is "reg_inv m ?r")
proof -
  have "same_reg ?r r" using assms(2) by (intro same_reg_eq reg_pids_other) (auto simp: unused_def)
  then have "map_ok ?r" "tmp_ok ?r" "index_ok ?r"
    using assms(1,2) map_ok_same [of r ?r] tmp_ok_same [of r ?r] index_ok_same_reg [of r ?r]
    by (auto simp: reg_inv_def map_ok_def tmp_ok_def unused_def)
  then show ?thesis using assms(1,3,4) by (auto simp: reg_inv_def)
qed

lemma fresh_unused: "reg_inv n r \<Longrightarrow> unused r n"
  unfolding unused_def
proof (intro conjI allI impI)
  assume inv: "reg_inv n r"
  then have "rp_pids r n = None" "map_ok r" "tmp_ok r" by (simp_all add: reg_inv_def)
  then show "gm_get (rp_mapPID r) uid = Some info \<Longrightarrow> si_dispatcher info \<noteq> Some n" "gm_get (rp_tmpMapPid r) uid = Some t \<Longrightarrow> ti_dispatcher t \<noteq> Some n" for uid info t
    by (auto elim!: map_okD tmp_okD)
qed

lemma unused_pids_iff [simp]: "unused (r \<lparr> rp_pids := f \<rparr>) d = unused r d"
  by (simp add: unused_def)

lemma remove_take_inv:
  assumes "reg_inv n r" "remove_take key r = (None, r1)"
  shows "reg_inv n r1"
proof -
  have "rp_mapPID r1 = rp_mapPID r \<and> rp_pids r1 = rp_pids r \<and> rp_tmpMapPid r1 = rp_tmpMapPid r \<and> rp_byName r1 = rp_byName r \<and> rp_byType r1 = rp_byType r"
    using assms by (auto simp: remove_take_def Let_def reg_inv_def split: if_splits option.splits elim: map_okD)
  then show ?thesis using assms(1) same_reg_eq [OF reg_cong [of r1 r]]
    by (intro reg_inv_same [OF assms(1)]) (auto simp: reg_inv_def map_ok_def tmp_ok_def)
qed

lemma remove_take_Some:
  assumes "reg_inv n r" "remove_take key r = (Some p, r1)"
  shows "\<exists>d. reg r (p_ServiceUid p) = Some (d, p) \<and> gm_get (rp_keyMap r) key = Some (p_ServiceUid p)
     \<and> r1 = Dispatcher_Close d (r \<lparr> rp_keyMap := gm_del (rp_keyMap r) key, rp_mapPID := gm_del (rp_mapPID r) (p_ServiceUid p) \<rparr>)"
proof -
  obtain uid info where *: "gm_get (rp_keyMap r) key = Some uid" "gm_get (rp_mapPID r) uid = Some info"
    using assms(2) by (auto simp: remove_take_def Let_def split: if_splits option.splits)
  obtain d q where d: "reg r uid = Some (d, q)" "p_ServiceUid q = uid" "si_dispatcher info = Some d" "rp_pids r d = Some q"
    using assms(1) * by (auto simp: reg_inv_def elim: map_okD)
  then show ?thesis using assms(2) * by (auto simp: remove_take_def Let_def pid_of_def split: if_splits)
qed

lemma remove_keeps:
  assumes "reg_inv n r"
  shows "reg_inv n (repo_Remove key r)"
proof (cases "remove_take key r")
  case (Pair o1 r1)
  show ?thesis
  proof (cases o1)
    case None
    then show ?thesis using Pair remove_take_inv [OF assms] by (simp add: repo_Remove_def)
  next
    case (Some p)
    obtain d where d: "reg r (p_ServiceUid p) = Some (d, p)"
      and r1: "r1 = Dispatcher_Close d (r \<lparr> rp_keyMap := gm_del (rp_keyMap r) key, rp_mapPID := gm_del (rp_mapPID r) (p_ServiceUid p) \<rparr>)"
      using remove_take_Some [OF assms] Pair Some by blast
    have mo: "map_ok r" and t_ok: "tmp_ok r" and io: "index_ok r" using assms by (simp_all add: reg_inv_def)
    have reg1: "reg r1 = (reg r)(p_ServiceUid p := None)"
    proof
      fix uid
      have "reg r uid = Some (d', q) \<Longrightarrow> uid \<noteq> p_ServiceUid p \<Longrightarrow> d' \<noteq> d" for d' q using reg_inj [OF mo d] by blast
      moreover have "gm_get (rp_mapPID r) uid = None \<Longrightarrow> reg r uid = None" by (simp add: reg_def)
      moreover have "gm_get (rp_mapPID r) uid = Some info \<Longrightarrow> \<exists>d' q. reg r uid = Some (d', q) \<and> si_dispatcher info = Some d'" for info using mo by (metis map_okD)
      ultimately show "reg r1 uid = ((reg r)(p_ServiceUid p := None)) uid"
        by (cases "gm_get (rp_mapPID r) uid") (auto simp: reg_def r1 Dispatcher_Close_def gm_get_del)
    qed
    have "map_ok r1" unfolding map_ok_def
    proof (intro conjI allI impI)
      show "gm_wf (rp_mapPID r1)" using mo by (simp add: r1 Dispatcher_Close_def map_ok_def)
      fix uid assume "gm_get (rp_mapPID r1) uid \<noteq> None"
      then have "uid \<noteq> p_ServiceUid p" "gm_get (rp_mapPID r) uid \<noteq> None" by (auto simp: r1 Dispatcher_Close_def gm_get_del split: if_splits)
      then show "\<exists>d p. reg r1 uid = Some (d, p) \<and> p_ServiceUid p = uid" using mo unfolding map_ok_def reg1 by simp
    qed
    moreover have "tmp_ok r1" unfolding tmp_ok_def
    proof (intro conjI allI impI)
      show "gm_wf (rp_tmpMapPid r1)" using t_ok by (simp add: r1 Dispatcher_Close_def tmp_ok_def)
      fix uid t assume "gm_get (rp_tmpMapPid r1) uid = Some t"
      then have t: "gm_get (rp_tmpMapPid r) uid = Some t" by (simp add: r1 Dispatcher_Close_def)
      obtain d1 q where *: "ti_dispatcher t = Some d1" "rp_pids r d1 = Some q" "p_ServiceUid q = uid" "\<And>d2 p2. reg r uid = Some (d2, p2) \<Longrightarrow> d2 \<noteq> d1"
        using t_ok t by (rule tmp_okD) blast
      have "d1 \<noteq> d" using reg_not_tmp [OF mo t_ok d t] * by blast
      then show "\<exists>d p. ti_dispatcher t = Some d \<and> rp_pids r1 d = Some p \<and> p_ServiceUid p = uid \<and> (\<forall>d1 p1. reg r1 uid = Some (d1, p1) \<longrightarrow> d1 \<noteq> d)"
        using * unfolding reg1 by (auto simp: r1 Dispatcher_Close_def split: if_splits)
    qed
    moreover have "index_ok (indexRemove p r1)" by (rule indexRemove_ok [OF io d _ _ reg1]) (simp_all add: r1 Dispatcher_Close_def)
    moreover have "reg (indexRemove p r1) = reg r1" "rp_pids (indexRemove p r1) = rp_pids r1" "rp_mapPID (indexRemove p r1) = rp_mapPID r1" "rp_tmpMapPid (indexRemove p r1) = rp_tmpMapPid r1"
      by (rule reg_cong; simp add: indexRemove_def) (simp_all add: indexRemove_def)
    ultimately show ?thesis using Pair Some assms by (auto simp: repo_Remove_def reg_inv_def map_ok_def tmp_ok_def r1 Dispatcher_Close_def)
  qed
qed

lemma indexAdd_frame [simp]:
  "rp_pids (indexAdd p r) = rp_pids r" "rp_mapPID (indexAdd p r) = rp_mapPID r" "rp_tmpMapPid (indexAdd p r) = rp_tmpMapPid r"
  by (simp_all add: indexAdd_def)

lemma reg_indexAdd [simp]: "reg (indexAdd p r) = reg r"
  by (rule reg_cong) simp_all

lemma add_new_keeps:
  assumes inv: "reg_inv n r" and d: "unused r d" "rp_pids r d = Some p" and none: "gm_get (rp_mapPID r) (p_ServiceUid p) = None" "si_dispatcher info = Some d"
  shows "reg_inv n (indexAdd p (r \<lparr> rp_keyMap := km, rp_mapPID := gm_set (rp_mapPID r) (p_ServiceUid p) info \<rparr>))" (is "reg_inv n (indexAdd p ?r)")
proof -
  have mo: "map_ok r" and t_ok: "tmp_ok r" and io: "index_ok r" using inv by (simp_all add: reg_inv_def)
  have reg1: "reg ?r = (reg r)(p_ServiceUid p := Some (d, p))"
    by (rule ext) (auto simp: reg_def gm_get_set none(2) d(2) split: option.splits)
  have "map_ok (indexAdd p ?r)" using mo unfolding map_ok_def indexAdd_frame reg_indexAdd reg1 by (simp add: gm_get_set)
  moreover have "tmp_ok (indexAdd p ?r)"
    using t_ok d(1) unfolding tmp_ok_def indexAdd_frame reg_indexAdd reg1 unused_def by simp metis
  moreover have "index_ok (indexAdd p ?r)"
    by (rule indexAdd_ok [OF io _ _ _ reg1]) (simp_all add: reg_def none(1))
  ultimately show ?thesis using inv by (simp add: reg_inv_def)
qed

lemma add_old_keeps:
  assumes inv: "reg_inv n r" and d: "unused r d" and old: "reg r uid = Some (od, q)" "gm_get (rp_mapPID r) uid = Some info"
    and r': "rp_mapPID r' = gm_set (rp_mapPID r) uid info'" "si_dispatcher info' = Some od" "rp_pids r' = (rp_pids r)(od := Some (q \<lparr> p_MasterFlag := b \<rparr>), d := None)"
      "rp_tmpMapPid r' = rp_tmpMapPid r" "rp_byName r' = rp_byName r" "rp_byType r' = rp_byType r"
  shows "reg_inv n r'"
proof (rule reg_inv_same [OF inv _ _ _ _ _ r'(5,6)])
  have mo: "map_ok r" and t_ok: "tmp_ok r" using inv by (simp_all add: reg_inv_def)
  have od: "si_dispatcher info = Some od" "rp_pids r od = Some q" using reg_SomeD [OF old(1)] old(2) by auto
  have "d \<noteq> od" using d old(2) od(1) by (auto simp: unused_def)
  have "reg r' uid' = (if uid' = uid then Some (od, q \<lparr> p_MasterFlag := b \<rparr>) else reg r uid')" for uid'
  proof (cases "uid' = uid")
    case True
    then show ?thesis using \<open>d \<noteq> od\<close> by (simp add: reg_def r' gm_get_set)
  next
    case False
    have "si_dispatcher i = Some d' \<Longrightarrow> d' \<noteq> od \<and> d' \<noteq> d" if "gm_get (rp_mapPID r) uid' = Some i" for i d'
      using that d reg_inj [OF mo old(1)] False mo by (auto simp: unused_def elim!: map_okD)
    with False show ?thesis by (auto simp: reg_def r' gm_get_set split: option.splits)
  qed
  then show "same_reg r' r" using old(1) by (simp add: same_reg_def option.rel_refl same_service_def)
  show "gm_wf (rp_mapPID r')" "gm_wf (rp_tmpMapPid r')" using mo t_ok by (simp_all add: r' map_ok_def tmp_ok_def)
  show "gm_get (rp_mapPID r') uid' \<noteq> None \<Longrightarrow> gm_get (rp_mapPID r) uid' \<noteq> None" for uid'
    using old(2) by (auto simp: r' gm_get_set split: if_splits)
  show "\<exists>t. gm_get (rp_tmpMapPid r) uid' = Some t \<and> ti_dispatcher t' = ti_dispatcher t \<and> (\<forall>d. ti_dispatcher t = Some d \<longrightarrow> rp_pids r' d = rp_pids r d)"
    if "gm_get (rp_tmpMapPid r') uid' = Some t'" for uid' t'
    using that d reg_not_tmp [OF mo t_ok old(1), of uid' t'] by (auto simp: r' unused_def)
  show "n \<le> d' \<Longrightarrow> rp_pids r d' = None \<Longrightarrow> rp_pids r' d' = None" for d' using od(2) by (auto simp: r')
qed

lemma AddWithMeta_keeps:
  assumes inv: "reg_inv n r" and d: "unused r d" "rp_pids r d = Some p"
  shows "reg_inv n (AddWithMeta key d status vis r)"
proof (cases "gm_get (rp_mapPID r) (p_ServiceUid p)")
  case None
  then show ?thesis using add_new_keeps [OF inv d None] by (simp add: AddWithMeta_def add_store_def pid_of_def d(2) Let_def)
next
  case (Some info)
  have mo: "map_ok r" using inv by (simp add: reg_inv_def)
  obtain od q where old: "reg r (p_ServiceUid p) = Some (od, q)" "si_dispatcher info = Some od" "rp_pids r od = Some q"
    using mo Some by (rule map_okD)
  have "d \<noteq> od" using d(1) Some old(2) by (auto simp: unused_def)
  then show ?thesis
    by (intro add_old_keeps [OF inv d(1) old(1) Some, where b = "p_MasterFlag p" and info' = "info \<lparr> si_status := status, si_visibility := vis \<rparr>"])
      (simp_all add: AddWithMeta_def add_store_def pid_of_def d(2) Let_def Some old syncPID_def Dispatcher_Close_def)
qed

lemma update_keeps:
  assumes inv: "reg_inv n r" and i: "gm_get (rp_mapPID r) uid = Some info" "si_dispatcher info' = si_dispatcher info"
  shows "reg_inv n (r \<lparr> rp_mapPID := gm_set (rp_mapPID r) uid info' \<rparr>)" (is "reg_inv n ?r")
proof (rule reg_inv_same [OF inv])
  have "reg ?r = reg r" by (rule ext) (auto simp: reg_def gm_get_set i split: option.splits)
  then show "same_reg ?r r" by (rule same_reg_eq)
qed (use inv i(1) in \<open>auto simp: reg_inv_def map_ok_def tmp_ok_def gm_get_set split: if_splits\<close>)

lemma UpdateStatus_keeps: "reg_inv n r \<Longrightarrow> reg_inv n (snd (UpdateStatus uid status r))"
  by (auto simp: UpdateStatus_def update_keeps split: option.splits)

lemma UpdateVisibility_keeps: "reg_inv n r \<Longrightarrow> reg_inv n (snd (UpdateVisibility uid vis r))"
  by (auto simp: UpdateVisibility_def update_keeps split: option.splits)

lemma touch_keeps:
  assumes inv: "reg_inv n r" and t: "gm_get (rp_tmpMapPid r) uid = Some t" "ti_dispatcher t' = ti_dispatcher t"
  shows "reg_inv n (r \<lparr> rp_tmpMapPid := gm_set (rp_tmpMapPid r) uid t' \<rparr>)" (is "reg_inv n ?r")
proof (rule reg_inv_same [OF inv])
  show "same_reg ?r r" by (rule same_reg_eq [OF reg_cong]) simp_all
qed (use inv t in \<open>auto simp: reg_inv_def map_ok_def tmp_ok_def gm_get_set split: if_splits\<close>)

lemma SelectByServiceUid_keeps: "reg_inv n r \<Longrightarrow> reg_inv n (snd (SelectByServiceUid now uid r))"
  by (auto simp: SelectByServiceUid_def touch_keeps split: option.splits)

lemma SetMaster_keeps:
  assumes inv: "reg_inv n r" and d: "reg r uid = Some (d, p)"
  shows "reg_inv n (r \<lparr> rp_pids := (rp_pids r)(d := Some (p \<lparr> p_MasterFlag := b \<rparr>)) \<rparr>)" (is "reg_inv n ?r")
proof (rule reg_inv_same [OF inv])
  have mo: "map_ok r" and t_ok: "tmp_ok r" using inv by (simp_all add: reg_inv_def)
  have pd: "rp_pids r d = Some p" using reg_SomeD [OF d] by blast
  have "reg ?r uid' = map_option (\<lambda>(d', q). (d', if d' = d then p \<lparr> p_MasterFlag := b \<rparr> else q)) (reg r uid')" for uid'
    by (auto simp: reg_def option.map_comp comp_def pd split: option.splits)
  moreover have "reg r uid' = Some (d, q) \<Longrightarrow> q = p" for uid' q using reg_SomeD [of r uid' d q] pd by auto
  ultimately show "same_reg ?r r" unfolding same_reg_def by (auto simp: option.rel_map same_service_def intro!: option.rel_refl_strong)
  show "\<exists>t. gm_get (rp_tmpMapPid r) uid' = Some t \<and> ti_dispatcher t' = ti_dispatcher t \<and> (\<forall>d. ti_dispatcher t = Some d \<longrightarrow> rp_pids ?r d = rp_pids r d)"
    if "gm_get (rp_tmpMapPid ?r) uid' = Some t'" for uid' t'
    using that reg_not_tmp [OF mo t_ok d, of uid' t'] by auto
  show "n \<le> d' \<Longrightarrow> rp_pids r d' = None \<Longrightarrow> rp_pids ?r d' = None" for d' using pd by auto
qed (use inv in \<open>auto simp: reg_inv_def map_ok_def tmp_ok_def\<close>)

lemma AddTmp_keeps:
  assumes inv: "reg_inv n r" and d: "unused r d" "rp_pids r d = Some p" and free: "reg r (p_ServiceUid p) = None \<or> (\<forall>x. reg r (p_ServiceUid p) = Some x \<longrightarrow> fst x \<noteq> d)"
  shows "reg_inv n (snd (AddTmp now d r))"
proof (cases "gm_get (rp_tmpMapPid r) (p_ServiceUid p)")
  case None
  let ?r = "r \<lparr> rp_tmpMapPid := gm_set (rp_tmpMapPid r) (p_ServiceUid p) \<lparr> ti_dispatcher = Some d, ti_latest = now \<rparr> \<rparr>"
  have "reg ?r = reg r" by (rule reg_cong) simp_all
  then have "map_ok ?r" "tmp_ok ?r" "index_ok ?r"
    using inv d free unfolding reg_inv_def map_ok_def tmp_ok_def index_ok_def by (auto simp: gm_get_set)
  then show ?thesis using inv d None by (simp add: AddTmp_def reg_inv_def)
next
  case (Some t)
  obtain od q where t: "ti_dispatcher t = Some od" using inv Some by (auto simp: reg_inv_def elim: tmp_okD)
  then have "od \<noteq> d" using d(1) Some by (auto simp: unused_def)
  let ?r = "r \<lparr> rp_tmpMapPid := gm_set (rp_tmpMapPid r) (p_ServiceUid p) (t \<lparr> ti_latest := now \<rparr>) \<rparr>"
  have inv1: "reg_inv n ?r" by (rule touch_keeps [OF inv Some]) simp
  have "unused ?r d" using d(1) Some by (auto simp: unused_def gm_get_set split: if_splits)
  moreover have "d < n" using inv d(2) by (metis reg_inv_def option.distinct(1) linorder_not_le)
  ultimately have "reg_inv n (Dispatcher_Close d ?r)" unfolding Dispatcher_Close_def using unused_pids [OF inv1] by blast
  then show ?thesis using Some t d(2) \<open>od \<noteq> d\<close> by (simp add: AddTmp_def)
qed

lemma close_tmps_keeps:
  assumes "reg_inv n r" "\<And>t d. t \<in> set ts \<Longrightarrow> ti_dispatcher t = Some d \<Longrightarrow> unused r d \<and> d < n"
  shows "reg_inv n (close_tmps ts r)"
  using assms
proof (induction ts arbitrary: r)
  case (Cons t ts)
  show ?case
  proof (cases "ti_dispatcher t")
    case None
    have "reg_inv n (close_tmps ts r)" by (rule Cons.IH) (use Cons.prems in auto)
    then show ?thesis by (simp add: close_tmps_def None)
  next
    case (Some d)
    have "reg_inv n (Dispatcher_Close d r)" using Cons.prems(1) Cons.prems(2) [of t d] Some unused_pids [of n r d n] by (simp add: Dispatcher_Close_def)
    then have "reg_inv n (close_tmps ts (Dispatcher_Close d r))"
    proof (rule Cons.IH)
      show "unused (Dispatcher_Close d r) d' \<and> d' < n" if "t' \<in> set ts" "ti_dispatcher t' = Some d'" for t' d'
        using that Cons.prems(2) [of t' d'] by (simp add: Dispatcher_Close_def)
    qed
    then show ?thesis by (simp add: close_tmps_def Some)
  qed
qed (simp add: close_tmps_def)

lemma gm_get_filter: "gm_wf m \<Longrightarrow> gm_get (filter P m) k = Some v \<longleftrightarrow> gm_get m k = Some v \<and> P (k, v)"
  by (subst gm_get_in) (auto simp: gm_wf_def distinct_map_filter)

lemma tick_keeps:
  assumes inv: "reg_inv n r"
  shows "reg_inv n (repo_tick strategy r)"
proof -
  have mo: "map_ok r" and t_ok: "tmp_ok r" using inv by (simp_all add: reg_inv_def)
  have wf: "gm_wf (rp_tmpMapPid r)" using t_ok by (simp add: tmp_ok_def)
  let ?r = "r \<lparr> rp_tmpMapPid := filter (\<lambda>x. \<not> strategy (snd x)) (rp_tmpMapPid r) \<rparr>"
  have inv1: "reg_inv n ?r"
  proof (rule reg_inv_same [OF inv])
    show "same_reg ?r r" by (rule same_reg_eq [OF reg_cong]) simp_all
    show "gm_wf (rp_tmpMapPid ?r)" using wf by (simp add: gm_wf_def distinct_map_filter)
  qed (use mo in \<open>auto simp: map_ok_def gm_get_filter [OF wf]\<close>)
  have "unused ?r d \<and> d < n" if "t \<in> set (filter strategy (map snd (rp_tmpMapPid r)))" "ti_dispatcher t = Some d" for t d
  proof -
    note td = that
    obtain uid where uid: "gm_get (rp_tmpMapPid r) uid = Some t" "strategy t" using td(1) by (auto simp: gm_get_in [OF wf] simp del: map_of_eq_Some_iff)
    obtain p where p: "rp_pids r d = Some p" "p_ServiceUid p = uid" using t_ok uid(1) td(2) by (auto elim: tmp_okD)
    have "ti_dispatcher t' \<noteq> Some d" if "gm_get (rp_tmpMapPid r) uid' = Some t'" "\<not> strategy t'" for uid' t'
    proof
      assume "ti_dispatcher t' = Some d"
      then have "uid' = uid" using t_ok that(1) p by (auto elim!: tmp_okD)
      then show False using that uid by simp
    qed
    moreover have "si_dispatcher info \<noteq> Some d" if "gm_get (rp_mapPID r) uid' = Some info" for uid' info
      using mo that reg_not_tmp [OF mo t_ok _ uid(1)] \<open>ti_dispatcher t = Some d\<close> by (metis map_okD)
    ultimately have "unused ?r d" by (auto simp: unused_def gm_get_filter [OF wf])
    moreover have "d < n" using inv p(1) by (metis reg_inv_def option.distinct(1) linorder_not_le)
    ultimately show ?thesis ..
  qed
  then show ?thesis unfolding repo_tick_def by (rule close_tmps_keeps [OF inv1])
qed

section \<open>Histories of a node\<close>

text \<open>
  What happens to the registry: events of the discovery, the life of local services (with PIDs of this node or of any other), routing, selection, ticks, and changes of the
  master flag of a registered service through its PID.
\<close>

datatype em_op =
    E_Put "string option" "string + actor_pid \<times> int \<times> int" | E_Del "string option" | E_Add local_service | E_Ready local_service | E_Remove local_service
  | E_ToNode local_service | E_Route int "actor_pid option" "actor_pid option" | E_Select int string | E_Tick int | E_Master string bool

fun em_step :: "em_op \<Rightarrow> endpoint_manager \<Rightarrow> endpoint_manager" where
  "em_step (E_Put key val) em = snd (updateServiceInfo key val em)"
| "em_step (E_Del key) em = snd (removeServiceInfo key em)"
| "em_step (E_Add s) em = AddService s em"
| "em_step (E_Ready s) em = ServiceReady s em"
| "em_step (E_Remove s) em = RemoveService s em"
| "em_step (E_ToNode s) em = ToNodeService s em"
| "em_step (E_Route now sender receiver) em = snd (RouteByPid now sender receiver em)"
| "em_step (E_Select now uid) em = em \<lparr> em_repo := snd (SelectByServiceUid now uid (em_repo em)) \<rparr>"
| "em_step (E_Tick now) em = em \<lparr> em_repo := repo_tick (defaultStrategy now) (em_repo em) \<rparr>"
| "em_step (E_Master uid b) em =
     (case reg (em_repo em) uid of
        None \<Rightarrow> em
      | Some (d, p) \<Rightarrow> em \<lparr> em_repo := (em_repo em) \<lparr> rp_pids := (rp_pids (em_repo em))(d := Some (p \<lparr> p_MasterFlag := b \<rparr>)) \<rparr> \<rparr>)"

definition em_inv :: "endpoint_manager \<Rightarrow> bool" where
  "em_inv em \<longleftrightarrow> reg_inv (em_next em) (em_repo em)"

lemma em_inv_events [simp]: "em_inv (em \<lparr> em_events := es \<rparr>) = em_inv em" "em_inv (em_trigger e em) = em_inv em"
  by (simp_all add: em_inv_def em_trigger_def)

lemma em_inv_repo: "reg_inv (em_next em) r \<Longrightarrow> em_inv (em \<lparr> em_repo := r \<rparr>)"
  by (simp add: em_inv_def)

lemma NewDispatcher_inv:
  assumes "em_inv em" "NewDispatcher p em = (d, em1)"
  shows "em_inv em1" "unused (em_repo em1) d" "rp_pids (em_repo em1) d = Some p" "reg (em_repo em1) = reg (em_repo em)" "d = em_next em"
proof -
  have un: "unused (em_repo em) (em_next em)" using assms(1) fresh_unused by (simp add: em_inv_def)
  then show "em_inv em1" using assms unused_pids [of "em_next em" "em_repo em" "em_next em" "Suc (em_next em)"] by (auto simp: NewDispatcher_def em_inv_def)
  show "unused (em_repo em1) d" "rp_pids (em_repo em1) d = Some p" "d = em_next em" using un assms(2) by (auto simp: NewDispatcher_def)
  show "reg (em_repo em1) = reg (em_repo em)" using un assms(2) reg_pids_other by (auto simp: NewDispatcher_def unused_def)
qed

lemma add_dispatcher_keeps:
  assumes "em_inv em" "NewDispatcher p em = (d, em1)"
  shows "em_inv (em1 \<lparr> em_repo := AddWithMeta key d status vis (em_repo em1) \<rparr>)"
  using NewDispatcher_inv [OF assms] AddWithMeta_keeps by (intro em_inv_repo) (simp add: em_inv_def)

lemma GetDispatcher_keeps:
  assumes "em_inv em"
  shows "em_inv (snd (GetDispatcher now pid em))"
proof (cases pid)
  case (Some p)
  obtain c r1 where sel: "SelectByServiceUid now (p_ServiceUid p) (em_repo em) = (c, r1)" by fastforce
  have inv1: "em_inv (em \<lparr> em_repo := r1 \<rparr>)" using SelectByServiceUid_keeps [of "em_next em" "em_repo em" now "p_ServiceUid p"] assms sel by (simp add: em_inv_def)
  obtain d em2 where nd: "NewDispatcher p (em \<lparr> em_repo := r1 \<rparr>) = (d, em2)" by fastforce
  note facts = NewDispatcher_inv [OF inv1 nd]
  have "reg (em_repo em2) uid = Some (d1, p1) \<Longrightarrow> d1 \<noteq> d" for uid d1 p1
    using facts(2) reg_SomeD [of "em_repo em2" uid d1 p1] by (auto simp: unused_def)
  then have "reg_inv (em_next em2) (snd (AddTmp now d (em_repo em2)))" using facts(1,2,3) by (intro AddTmp_keeps) (auto simp: em_inv_def)
  then have "em_inv (em2 \<lparr> em_repo := snd (AddTmp now d (em_repo em2)) \<rparr>)" by (rule em_inv_repo)
  then show ?thesis using inv1 by (cases "AddTmp now d (em_repo em2)"; cases c) (simp_all add: GetDispatcher_def Some sel nd Let_def)
qed (simp add: GetDispatcher_def assms)

lemma RouteByPid_keeps:
  assumes "em_inv em"
  shows "em_inv (snd (RouteByPid now sender receiver em))"
proof -
  define r1 where "r1 = snd (case sender of None \<Rightarrow> (None, em_repo em) | Some p \<Rightarrow> SelectByServiceUid now (p_ServiceUid p) (em_repo em))"
  have inv1: "em_inv (em \<lparr> em_repo := r1 \<rparr>)"
    using assms SelectByServiceUid_keeps by (auto simp: r1_def em_inv_def split: option.splits)
  then show ?thesis using GetDispatcher_keeps [OF inv1, of now receiver]
    by (auto simp: RouteByPid_def Let_def r1_def split: option.splits prod.splits)
qed

lemma em_step_keeps:
  assumes inv: "em_inv em"
  shows "em_inv (em_step x em)"
proof (cases x)
  case (E_Put key val)
  then show ?thesis using inv add_dispatcher_keeps [OF inv] by (auto simp: updateServiceInfo_def split: option.splits sum.splits prod.splits)
next
  case (E_Del key)
  then show ?thesis using inv remove_keeps by (auto simp: removeServiceInfo_def em_inv_def split: option.splits)
next
  case (E_Add s)
  then show ?thesis using inv add_dispatcher_keeps [OF inv] by (auto simp: AddService_def Let_def split: option.splits prod.splits)
next
  case (E_Ready s)
  then show ?thesis using inv UpdateStatus_keeps em_inv_repo by (auto simp: ServiceReady_def Let_def em_inv_def em_trigger_def split: option.splits)
next
  case (E_Remove s)
  then show ?thesis using inv remove_keeps by (auto simp: RemoveService_def Let_def em_inv_def em_trigger_def)
next
  case (E_ToNode s)
  then show ?thesis using inv UpdateVisibility_keeps by (auto simp: ToNodeService_def Let_def em_inv_def em_trigger_def split: option.splits)
next
  case (E_Route now sender receiver)
  then show ?thesis using inv RouteByPid_keeps by simp
next
  case (E_Select now uid)
  then show ?thesis using inv SelectByServiceUid_keeps by (simp add: em_inv_def)
next
  case (E_Tick now)
  then show ?thesis using inv tick_keeps by (simp add: em_inv_def)
next
  case (E_Master uid b)
  then show ?thesis using inv SetMaster_keeps by (auto simp: em_inv_def split: option.splits)
qed

lemma new_em_inv: "em_inv (new_em nodeUid cluster remotes)"
  by (simp add: em_inv_def new_em_def NewRepository_def reg_inv_def map_ok_def tmp_ok_def index_ok_def reg_def)

lemma em_run_inv: "em_inv em \<Longrightarrow> em_inv (fold em_step ops em)"
  by (induction ops arbitrary: em) (simp_all add: em_step_keeps)

section \<open>Selection\<close>

definition pick :: "repository \<Rightarrow> (actor_pid \<Rightarrow> bool) \<Rightarrow> string \<Rightarrow> nat list" where
  "pick r fits uid = (case reg r uid of None \<Rightarrow> [] | Some (d, p) \<Rightarrow> if IsSelectable uid r \<and> p_State p \<noteq> ServiceStatusRetired \<and> fits p then [d] else [])"

text \<open>The reference: a scan over all registered services, without the indexes.\<close>

definition scan :: "(actor_pid \<Rightarrow> bool) \<Rightarrow> repository \<Rightarrow> nat list" where
  "scan fits r = concat (map (\<lambda>x. case si_dispatcher (snd x) of
      None \<Rightarrow> []
    | Some d \<Rightarrow> case rp_pids r d of
        None \<Rightarrow> []
      | Some p \<Rightarrow> if si_status (snd x) = StatusReady \<and> p_State p \<noteq> ServiceStatusRetired \<and> fits p then [d] else []) (rp_mapPID r))"

lemma pick_all_spec:
  assumes "map_ok r" "\<And>uid. uid \<in> set uids \<Longrightarrow> reg r uid \<noteq> None"
  shows "pick_all now fits uids r = (concat (map (pick r fits) uids), r)"
  using assms(2)
proof (induction uids)
  case (Cons uid uids)
  then obtain d p where d: "reg r uid = Some (d, p)" by fastforce
  have "pick_all now fits uids r = (concat (map (pick r fits) uids), r)" using Cons by simp
  moreover have "SelectByServiceUid now uid r = (if p_State p = ServiceStatusRetired then None else Some d, r)" "rp_pids r d = Some p"
    using reg_SomeD [OF d] by (auto simp: SelectByServiceUid_def IsRetired_def)
  moreover have "pick r fits uid = (if IsSelectable uid r \<and> p_State p \<noteq> ServiceStatusRetired \<and> fits p then [d] else [])" by (simp add: pick_def d)
  ultimately show ?case by (auto simp: d pid_of_def IsRetired_def)
qed simp

lemma scan_pick:
  assumes "map_ok r"
  shows "scan fits r = concat (map (pick r fits) (gm_keys (rp_mapPID r)))"
proof -
  have "(case si_dispatcher (snd x) of None \<Rightarrow> [] | Some d \<Rightarrow> case rp_pids r d of None \<Rightarrow> []
      | Some p \<Rightarrow> if si_status (snd x) = StatusReady \<and> p_State p \<noteq> ServiceStatusRetired \<and> fits p then [d] else []) = pick r fits (fst x)"
    if "x \<in> set (rp_mapPID r)" for x
  proof -
    have "gm_get (rp_mapPID r) (fst x) = Some (snd x)" using that assms unfolding map_ok_def by (metis gm_get_in prod.collapse)
    then show ?thesis by (auto simp: pick_def reg_def IsSelectable_def isSelectableInfo_def split: option.splits)
  qed
  then show ?thesis unfolding scan_def by (intro arg_cong [where f = concat]) simp
qed

lemma mset_concat_filter:
  assumes "distinct xs" "distinct ys" "set ys = {x \<in> set xs. P x}" "\<And>x. \<not> P x \<Longrightarrow> f x = []"
  shows "mset (concat (map f ys)) = mset (concat (map f xs))"
proof -
  have "concat (map f xs) = concat (map f (filter P xs))" using assms(4) by (induction xs) auto
  moreover have "mset ys = mset (filter P xs)" using assms(1-3) set_eq_iff_mset_eq_distinct [of ys "filter P xs"] by simp
  moreover have "mset (concat (map f zs)) = (\<Sum>z \<in># mset zs. mset (f z))" for zs by (induction zs) simp_all
  ultimately show ?thesis by simp
qed

text \<open>Looking up some candidates, one of which is every service that fits, is the scan.\<close>

lemma candidates_scan:
  assumes mo: "map_ok r" and uids: "distinct uids" "\<And>uid. uid \<in> set uids \<longleftrightarrow> (\<exists>d p. reg r uid = Some (d, p) \<and> Q p)"
  shows "mset (fst (pick_all now fits uids r)) = mset (scan (\<lambda>p. Q p \<and> fits p) r)"
proof -
  let ?keys = "gm_keys (rp_mapPID r)" and ?f = "pick r (\<lambda>p. Q p \<and> fits p)"
  have keys: "distinct ?keys" using mo by (simp add: map_ok_def gm_wf_def)
  have known: "reg r uid \<noteq> None \<Longrightarrow> uid \<in> set ?keys" for uid unfolding gm_get_keys by (auto simp: reg_def split: option.splits)
  have *: "pick r fits uid = ?f uid" if "uid \<in> set uids" for uid using that uids(2) by (auto simp: pick_def)
  have "mset (concat (map ?f uids)) = mset (concat (map ?f ?keys))"
  proof (rule mset_concat_filter [OF keys uids(1), of "\<lambda>uid. \<exists>d p. reg r uid = Some (d, p) \<and> Q p"])
    show "set uids = {uid \<in> set ?keys. \<exists>d p. reg r uid = Some (d, p) \<and> Q p}" using uids(2) known by fastforce
  qed (auto simp: pick_def split: option.splits)
  moreover have "fst (pick_all now fits uids r) = concat (map ?f uids)"
  proof -
    have "pick_all now fits uids r = (concat (map (pick r fits) uids), r)" using uids(2) by (intro pick_all_spec [OF mo]) auto
    moreover have "map (pick r fits) uids = map ?f uids" using * by simp
    ultimately show ?thesis by (simp only: fst_conv)
  qed
  ultimately show ?thesis by (simp add: scan_pick [OF mo])
qed

lemma SelectByServiceUid_frame:
  assumes "SelectByServiceUid now uid r = (c, r1)"
  shows "rp_mapPID r1 = rp_mapPID r" "rp_pids r1 = rp_pids r" "rp_byName r1 = rp_byName r" "rp_byType r1 = rp_byType r"
  using assms by (auto simp: SelectByServiceUid_def split: option.splits)

lemma scan_cong: "rp_mapPID r1 = rp_mapPID r \<Longrightarrow> rp_pids r1 = rp_pids r \<Longrightarrow> scan fits r1 = scan fits r"
  by (simp only: scan_def)

definition receivers :: "select_result \<Rightarrow> nat option list" where
  "receivers res = (case res of Single b \<Rightarrow> [] | Many bs \<Rightarrow> map be_receiver bs)"

lemma receivers_to_buses [simp]: "map be_receiver (to_buses s ds) = map Some ds"
  by (simp add: to_buses_def)

lemma name_candidates:
  assumes "index_ok r"
  shows "distinct (gm_keys (gm_inner (rp_byName r) name))" "uid \<in> set (gm_keys (gm_inner (rp_byName r) name)) \<longleftrightarrow> (\<exists>d p. reg r uid = Some (d, p) \<and> p_Name p = name)"
proof -
  show "distinct (gm_keys (gm_inner (rp_byName r) name))" using assms gm_inner_wf2 [of "rp_byName r" name] by (simp add: index_ok_def gm_wf_def)
  show "uid \<in> set (gm_keys (gm_inner (rp_byName r) name)) \<longleftrightarrow> (\<exists>d p. reg r uid = Some (d, p) \<and> p_Name p = name)"
    using assms unfolding index_ok_def gm_get_keys by (simp add: gm_get2_def)
qed

text \<open>
  C13. Selection by name through the index is the scan over all services: in every history of a node, \<open>Select\<close> gives one bus to each registered, ready and not retired service of that
  name that fits the other parameters, and to no other.
\<close>

theorem Select_is_scan:
  assumes "em = fold em_step ops (new_em nodeUid cluster remotes)" "sp_ServiceName param = Some name" "repo_Select now sender param (em_repo em) = (Inr res, r1)"
  shows "mset (receivers res) = mset (map Some (scan (\<lambda>p. p_Name p = name \<and> pid_fits param p) (em_repo em)))"
proof -
  have inv: "reg_inv (em_next em) (em_repo em)" using em_run_inv [OF new_em_inv] unfolding assms(1) em_inv_def .
  obtain s r0 where s: "SelectByServiceUid now sender (em_repo em) = (s, r0)" by fastforce
  have inv0: "reg_inv (em_next em) r0" using SelectByServiceUid_keeps [OF inv, of now sender] s by simp
  then have ok: "map_ok r0" "index_ok r0" by (simp_all add: reg_inv_def)
  note cands = candidates_scan [OF ok(1) name_candidates(1) [OF ok(2)] name_candidates(2) [OF ok(2)], of now "pid_fits param" name]
  have sc: "scan f r0 = scan f (em_repo em)" for f using SelectByServiceUid_frame [OF s] by (intro scan_cong)
  show ?thesis
  proof (cases "gm_get (rp_byName r0) name")
    case None
    then show ?thesis using assms(2,3) s cands sc by (auto simp: repo_Select_def receivers_def gm_inner_def)
  next
    case (Some uids)
    obtain ds r2 where pa: "pick_all now (pid_fits param) (gm_keys uids) r0 = (ds, r2)" by fastforce
    then have "mset ds = mset (scan (\<lambda>p. p_Name p = name \<and> pid_fits param p) (em_repo em))" using cands sc Some by (simp add: gm_inner_def)
    moreover have "receivers res = map Some ds" using assms(2,3) s Some pa by (auto simp: repo_Select_def receivers_def)
    ultimately show ?thesis by simp
  qed
qed

definition game_pid :: "string \<Rightarrow> string \<Rightarrow> actor_pid" where
  "game_pid node uid = nil_pid \<lparr> p_Name := ''game'', p_ServiceType := ''Logic'', p_ServiceUid := uid, p_NodeUid := node, p_Partition := 1, p_MasterFlag := True \<rparr>"

definition game_service :: local_service where
  "game_service = \<lparr> ls_pid = Some (game_pid ''n'' ''a''), ls_status = StatusReady, ls_visibility = ServiceVisibilityCluster, ls_primarySecondary = False \<rparr>"

definition registry_ops :: "em_op list" where
  "registry_ops = [E_Add game_service, E_Put (Some ''key'') (Inr (game_pid ''m'' ''b'', StatusReady, ServiceVisibilityCluster)),
     E_Put (Some ''key2'') (Inr (game_pid ''m'' ''c'', 3, ServiceVisibilityCluster))]"

definition demo_em :: endpoint_manager where
  "demo_em = fold em_step registry_ops (new_em ''n'' True [])"

definition by_name :: select_param where
  "by_name = \<lparr> sp_Partition = Some 1, sp_ServiceId = None, sp_ServiceName = Some ''game'', sp_ServiceType = None, sp_IsSlaver = False \<rparr>"

theorem Select_is_scan_witness:
  "mset [Some 0, Some 1] = mset (map Some (scan (\<lambda>p. p_Name p = ''game'' \<and> pid_fits by_name p) (em_repo demo_em)))"
proof -
  have res: "fst (repo_Select 0 ''x'' by_name (em_repo demo_em)) = Inr (Many (to_buses None [0, 1]))" by code_simp
  have name: "sp_ServiceName by_name = Some ''game''" by (simp add: by_name_def)
  have "repo_Select 0 ''x'' by_name (em_repo demo_em) = (Inr (Many (to_buses None [0, 1])), snd (repo_Select 0 ''x'' by_name (em_repo demo_em)))"
    by (rule prod_eqI) (simp_all only: res fst_conv snd_conv)
  from Select_is_scan [OF demo_em_def [unfolded registry_ops_def] name this] show ?thesis by (simp add: receivers_def to_buses_def)
qed

lemma distinct_concat_alist:
  assumes "gm_wf m" "\<And>x. x \<in> set m \<Longrightarrow> distinct (f x)" "\<And>x y u. x \<in> set m \<Longrightarrow> y \<in> set m \<Longrightarrow> u \<in> set (f x) \<Longrightarrow> u \<in> set (f y) \<Longrightarrow> fst x = fst y"
  shows "distinct (concat (map f m))"
  using assms
proof (induction m)
  case (Cons x m)
  have "distinct (concat (map f m))" using Cons.prems by (intro Cons.IH) (auto simp: gm_wf_def)
  moreover have "set (f x) \<inter> set (concat (map f m)) = {}"
  proof (rule ccontr)
    assume "set (f x) \<inter> set (concat (map f m)) \<noteq> {}"
    then obtain u y where "u \<in> set (f x)" "y \<in> set m" "u \<in> set (f y)" by auto
    then have "fst x = fst y" using Cons.prems(3) [of x y u] by simp
    then show False using \<open>y \<in> set m\<close> Cons.prems(1) by (auto simp: gm_wf_def)
  qed
  ultimately show ?case using Cons.prems(2) [of x] by simp
qed simp

lemma mem_concat_alist:
  assumes "\<And>x. x \<in> set m \<Longrightarrow> uid \<in> set (f x) \<longleftrightarrow> P (fst x)" "\<And>t. P t \<Longrightarrow> \<exists>i. (t, i) \<in> set m"
  shows "uid \<in> set (concat (map f m)) \<longleftrightarrow> (\<exists>t. P t)"
proof
  assume "uid \<in> set (concat (map f m))"
  then obtain x where "x \<in> set m" "uid \<in> set (f x)" by auto
  then show "\<exists>t. P t" using assms(1) by blast
next
  assume "\<exists>t. P t"
  then obtain t i where "P t" "(t, i) \<in> set m" using assms(2) by blast
  then show "uid \<in> set (concat (map f m))" using assms(1) [of "(t, i)"] by (auto simp: image_iff intro!: bexI [of _ "(t, i)"])
qed

lemma keys_inner: "uid \<in> set (gm_keys (gm_inner m a)) \<longleftrightarrow> gm_get2 m a uid = Some ()"
  unfolding gm_get_keys by (simp add: gm_get2_def)

lemma get3_mem: "wf3 m \<Longrightarrow> (tp, i) \<in> set m \<Longrightarrow> gm_get3 m tp b c = gm_get2 i b c"
  by (auto simp: wf3_def gm_get3_def gm_inner_def gm_get_in [symmetric] simp del: map_of_eq_Some_iff)

lemma get2_mem: "wf2 m \<Longrightarrow> (a, i) \<in> set m \<Longrightarrow> gm_get2 m a b = gm_get i b"
  by (auto simp: wf2_def gm_get2_def gm_inner_def gm_get_in [symmetric] simp del: map_of_eq_Some_iff)

lemma get3_Some_mem: "gm_get3 m tp b c = Some v \<Longrightarrow> \<exists>i. (tp, i) \<in> set m \<and> gm_get2 i b c = Some v"
  by (cases "gm_get m tp") (auto simp: gm_get3_def gm_inner_def gm_get2_def dest: gm_get_mem)

lemma get2_Some_mem: "gm_get2 m a b = Some v \<Longrightarrow> \<exists>i. (a, i) \<in> set m \<and> gm_get i b = Some v"
  by (cases "gm_get m a") (auto simp: gm_inner_def gm_get2_def dest: gm_get_mem)

lemma type_candidates_ok:
  assumes ok: "index_ok r" and uids: "type_candidates tp name r = Some uids"
  shows "distinct uids \<and> (\<forall>uid. uid \<in> set uids \<longleftrightarrow> (\<exists>d p. reg r uid = Some (d, p) \<and> (tp = [] \<or> p_ServiceType p = tp) \<and> (tp = [] \<or> name \<noteq> [] \<longrightarrow> p_Name p = name)))"
proof -
  have wf: "wf3 (rp_byType r)" and idx: "gm_get3 (rp_byType r) t n uid = Some () \<longleftrightarrow> (\<exists>d p. reg r uid = Some (d, p) \<and> p_ServiceType p = t \<and> p_Name p = n)" for t n uid
    using ok by (simp_all add: index_ok_def)
  have wf_types: "gm_wf (rp_byType r)" using wf by (simp add: wf3_def)
  have wf_names: "wf2 (gm_inner (rp_byType r) tp)" using wf by (rule gm_inner_wf3)
  show ?thesis
  proof (cases "tp = []")
    case True
    let ?f = "\<lambda>x. gm_keys (gm_inner (snd x) name)"
    have eq: "uids = concat (map ?f (rp_byType r))"
      using uids True by (auto simp: type_candidates_def gm_inner_def intro!: arg_cong [where f = concat] split: option.splits)
    have mem: "uid \<in> set (?f x) \<longleftrightarrow> gm_get3 (rp_byType r) (fst x) name uid = Some ()" if "x \<in> set (rp_byType r)" for x uid
      unfolding keys_inner using get3_mem [OF wf, of "fst x" "snd x"] that by simp
    have "distinct uids" unfolding eq
    proof (rule distinct_concat_alist [OF wf_types])
      show "distinct (?f x)" if "x \<in> set (rp_byType r)" for x
        using wf that gm_inner_wf2 [of "snd x" name] by (auto simp: wf3_def gm_wf_def)
      show "fst x = fst y" if "x \<in> set (rp_byType r)" "y \<in> set (rp_byType r)" "u \<in> set (?f x)" "u \<in> set (?f y)" for x y u
        using that(3,4) unfolding mem [OF that(1)] mem [OF that(2)] idx by auto
    qed
    moreover have "uid \<in> set uids \<longleftrightarrow> (\<exists>d p. reg r uid = Some (d, p) \<and> p_Name p = name)" for uid
    proof -
      have "uid \<in> set uids \<longleftrightarrow> (\<exists>t. gm_get3 (rp_byType r) t name uid = Some ())"
        unfolding eq by (rule mem_concat_alist, erule mem) (drule get3_Some_mem, elim exE conjE, erule exI)
      then show ?thesis unfolding idx by blast
    qed
    ultimately show ?thesis using True by simp
  next
    case tp: False
    then obtain names where names: "gm_get (rp_byType r) tp = Some names" "gm_inner (rp_byType r) tp = names"
      using uids by (auto simp: type_candidates_def gm_inner_def split: option.splits)
    have wf2n: "wf2 names" using wf_names names(2) by simp
    have idx2: "gm_get2 names n uid = Some () \<longleftrightarrow> (\<exists>d p. reg r uid = Some (d, p) \<and> p_ServiceType p = tp \<and> p_Name p = n)" for n uid
      using idx [of tp n uid] by (simp add: gm_get3_def names(2))
    show ?thesis
    proof (cases "name = []")
      case True
      let ?f = "\<lambda>x. gm_keys (snd x)"
      have eq: "uids = concat (map ?f names)" using uids tp True names(1) by (simp add: type_candidates_def)
      have mem: "uid \<in> set (?f x) \<longleftrightarrow> gm_get2 names (fst x) uid = Some ()" if "x \<in> set names" for x uid
        unfolding gm_get_keys using get2_mem [OF wf2n, of "fst x" "snd x"] that by simp
      have "distinct uids" unfolding eq
      proof (rule distinct_concat_alist)
        show "gm_wf names" using wf2n by (simp add: wf2_def)
        show "distinct (?f x)" if "x \<in> set names" for x using wf2n that by (auto simp: wf2_def gm_wf_def)
        show "fst x = fst y" if "x \<in> set names" "y \<in> set names" "u \<in> set (?f x)" "u \<in> set (?f y)" for x y u
          using that(3,4) unfolding mem [OF that(1)] mem [OF that(2)] idx2 by auto
      qed
      moreover have "uid \<in> set uids \<longleftrightarrow> (\<exists>d p. reg r uid = Some (d, p) \<and> p_ServiceType p = tp)" for uid
      proof -
        have "uid \<in> set uids \<longleftrightarrow> (\<exists>n. gm_get2 names n uid = Some ())"
          unfolding eq by (rule mem_concat_alist, erule mem) (drule get2_Some_mem, elim exE conjE, erule exI)
        then show ?thesis unfolding idx2 by blast
      qed
      ultimately show ?thesis using tp True by simp
    next
      case False
      then have eq: "uids = gm_keys (gm_inner names name)" using uids tp names(1) by (auto simp: type_candidates_def gm_inner_def)
      have "distinct uids" unfolding eq using gm_inner_wf2 [OF wf2n, of name] by (simp add: gm_wf_def)
      then show ?thesis using tp False keys_inner [of _ names name] by (auto simp: eq idx2)
    qed
  qed
qed

text \<open>Selection by type and name is the scan as well.\<close>

lemma SelectByServiceType_is_scan:
  assumes "em_inv em" "serviceType \<noteq> [] \<or> serviceName \<noteq> []" "SelectByServiceType now sender part serviceType serviceName (em_repo em) = (bs, r1)"
  shows "mset (map be_receiver bs) = mset (map Some (scan (\<lambda>p. ((serviceType = [] \<or> p_ServiceType p = serviceType) \<and> (serviceType = [] \<or> serviceName \<noteq> [] \<longrightarrow> p_Name p = serviceName))
     \<and> (part = 0 \<or> p_Partition p = part) \<and> p_MasterFlag p) (em_repo em)))" (is "_ = mset (map Some (scan (\<lambda>p. ?Q p \<and> ?fits p) _))")
proof -
  have inv: "reg_inv (em_next em) (em_repo em)" using assms(1) by (simp add: em_inv_def)
  then have ok: "map_ok (em_repo em)" "index_ok (em_repo em)" by (simp_all add: reg_inv_def)
  show ?thesis
  proof (cases "type_candidates serviceType serviceName (em_repo em)")
    case None
    have "pick (em_repo em) (\<lambda>p. ?Q p \<and> ?fits p) uid = []" for uid
    proof -
      have "serviceType \<noteq> []" "gm_get (rp_byType (em_repo em)) serviceType = None \<or> gm_get2 (gm_inner (rp_byType (em_repo em)) serviceType) serviceName uid = None \<and> serviceName \<noteq> []"
        using None by (auto simp: type_candidates_def gm_inner_def gm_get2_def split: if_splits option.splits)
      then have "gm_get3 (rp_byType (em_repo em)) serviceType n uid = None \<or> serviceName \<noteq> [] \<and> n \<noteq> serviceName" for n
        by (auto simp: gm_get3_def gm_inner_def gm_get2_def)
      then have "\<not> ?Q p" if "reg (em_repo em) uid = Some (d, p)" for d p
        using that ok(2) \<open>serviceType \<noteq> []\<close> unfolding index_ok_def by (metis option.distinct(1))
      then show ?thesis by (auto simp: pick_def split: option.splits)
    qed
    then show ?thesis using None assms(2,3) by (auto simp: SelectByServiceType_def scan_pick [OF ok(1)])
  next
    case (Some uids)
    obtain s r0 where s: "SelectByServiceUid now sender (em_repo em) = (s, r0)" by fastforce
    have inv0: "reg_inv (em_next em) r0" using SelectByServiceUid_keeps [OF inv, of now sender] s by simp
    note fr = SelectByServiceUid_frame [OF s]
    have mo: "map_ok r0" using inv0 by (simp add: reg_inv_def)
    have regs: "reg r0 = reg (em_repo em)" by (rule reg_cong [OF fr(1,2)])
    note tc = type_candidates_ok [OF ok(2) Some]
    obtain ds r2 where pa: "pick_all now ?fits uids r0 = (ds, r2)" by fastforce
    have "mset (fst (pick_all now ?fits uids r0)) = mset (scan (\<lambda>p. ?Q p \<and> ?fits p) r0)"
      by (rule candidates_scan [OF mo]) (use tc regs in auto)
    moreover have "bs = to_buses s ds" using assms(2,3) Some s pa by (auto simp: SelectByServiceType_def)
    ultimately show ?thesis using pa scan_cong [OF fr(1,2)] by simp
  qed
qed

section \<open>Routing\<close>

lemma SelectByServiceUid_right:
  assumes "reg_inv n r" "SelectByServiceUid now uid r = (Some d, r1)"
  shows "\<exists>p. rp_pids r1 d = Some p \<and> p_ServiceUid p = uid"
proof (cases "gm_get (rp_mapPID r) uid")
  case (Some info)
  have "map_ok r" using assms(1) by (simp add: reg_inv_def)
  with Some assms(2) show ?thesis by (elim map_okD) (auto simp: SelectByServiceUid_def split: if_splits)
next
  case None
  have "tmp_ok r" using assms(1) by (simp add: reg_inv_def)
  with None assms(2) show ?thesis by (auto simp: SelectByServiceUid_def split: option.splits elim!: tmp_okD)
qed

lemma AddTmp_right:
  assumes "reg_inv n r" "unused r d" "rp_pids r d = Some p" "AddTmp now d r = (c, r1)"
  shows "\<exists>d1 q. c = Some d1 \<and> rp_pids r1 d1 = Some q \<and> p_ServiceUid q = p_ServiceUid p"
proof (cases "gm_get (rp_tmpMapPid r) (p_ServiceUid p)")
  case (Some t)
  have "tmp_ok r" using assms(1) by (simp add: reg_inv_def)
  then obtain d1 q where t: "ti_dispatcher t = Some d1" "rp_pids r d1 = Some q" "p_ServiceUid q = p_ServiceUid p" using Some by (rule tmp_okD) blast
  moreover have "d1 \<noteq> d" using assms(2) Some t(1) by (auto simp: unused_def)
  ultimately show ?thesis using assms(3,4) Some by (intro exI [of _ d1] exI [of _ q]) (auto simp: AddTmp_def Dispatcher_Close_def)
qed (use assms in \<open>auto simp: AddTmp_def\<close>)

text \<open>
  C26. Routing by PID reaches the service asked for: in every history of a node, a bus without an error has an open dispatcher whose PID carries the identifier of the receiver, and for a
  receiver of this node that dispatcher is the registered one. A receiver of another node that is not registered is always reached, through a temporary dispatcher.
\<close>

theorem RouteByPid_reaches:
  assumes "em = fold em_step ops (new_em nodeUid cluster remotes)" "RouteByPid now sender (Some p) em = (b, em1)"
  shows "(\<not> be_notFound b \<longrightarrow> (\<exists>d q. be_receiver b = Some d \<and> rp_pids (em_repo em1) d = Some q \<and> p_ServiceUid q = p_ServiceUid p
       \<and> (p_NodeUid p = em_nodeUid em \<longrightarrow> reg (em_repo em) (p_ServiceUid p) = Some (d, q))))
     \<and> (p_NodeUid p \<noteq> em_nodeUid em \<and> gm_get (rp_mapPID (em_repo em)) (p_ServiceUid p) = None \<longrightarrow> be_receiver b \<noteq> None)"
proof -
  let ?uid = "p_ServiceUid p"
  have inv: "em_inv em" using em_run_inv [OF new_em_inv] unfolding assms(1) .
  obtain s r1 where sr: "(case sender of None \<Rightarrow> (None, em_repo em) | Some p \<Rightarrow> SelectByServiceUid now (p_ServiceUid p) (em_repo em)) = (s, r1)" by fastforce
  let ?em = "em \<lparr> em_repo := r1 \<rparr>"
  have inv1: "em_inv ?em" using inv sr SelectByServiceUid_keeps by (auto simp: em_inv_def split: option.splits) (metis snd_conv)
  have same: "rp_mapPID r1 = rp_mapPID (em_repo em)" "rp_pids r1 = rp_pids (em_repo em)"
    using sr SelectByServiceUid_frame by (auto split: option.splits)
  obtain c em2 where gd: "GetDispatcher now (Some p) ?em = (c, em2)" by fastforce
  have b: "b = \<lparr> be_sender = s, be_receiver = c, be_notFound = (case c of None \<Rightarrow> True | Some d \<Rightarrow> IsRetired (rp_pids (em_repo em2) d)) \<rparr>" "em1 = em2"
    using assms(2) sr gd by (simp_all add: RouteByPid_def Let_def)
  obtain c0 r2 where sel: "SelectByServiceUid now ?uid r1 = (c0, r2)" by fastforce
  have inv2: "em_inv (?em \<lparr> em_repo := r2 \<rparr>)" using SelectByServiceUid_keeps [of "em_next em" r1 now ?uid] inv1 sel by (simp add: em_inv_def)
  obtain d em3 where nd: "NewDispatcher p (?em \<lparr> em_repo := r2 \<rparr>) = (d, em3)" by fastforce
  note new = NewDispatcher_inv [OF inv2 nd]
  have right: "\<exists>q. rp_pids r2 d1 = Some q \<and> p_ServiceUid q = ?uid" if "c0 = Some d1" for d1
    using SelectByServiceUid_right [of "em_next em" r1 now ?uid d1 r2] inv1 sel that by (simp add: em_inv_def)
  show ?thesis
  proof (cases "p_NodeUid p = em_nodeUid em")
    case True
    have em2: "em2 = ?em \<lparr> em_repo := r2 \<rparr>" and c: "c = (if c0 = None \<or> \<not> IsRemoteCallable ?uid r2 then None else c0)"
      using gd sel True by (auto simp: GetDispatcher_def Let_def)
    have "reg (em_repo em) ?uid = Some (d1, q)" if "c0 = Some d1" "IsRemoteCallable ?uid r2" "rp_pids r2 d1 = Some q" for d1 q
      using that sel same SelectByServiceUid_frame [OF sel] by (auto simp: SelectByServiceUid_def IsRemoteCallable_def reg_def split: option.splits if_splits)
    then show ?thesis using right True by (auto simp: b em2 c split: option.splits if_splits)
  next
    case False
    show ?thesis
    proof (cases c0)
      case None
      obtain d1 q where "c = Some d1" "rp_pids (em_repo em2) d1 = Some q" "p_ServiceUid q = ?uid"
        using AddTmp_right [of "em_next em3" "em_repo em3" d p now] new(1,2,3) gd sel None False nd
        by (cases "AddTmp now d (em_repo em3)") (auto simp: GetDispatcher_def Let_def em_inv_def)
      then show ?thesis using False by (simp add: b)
    next
      case (Some d1)
      then have "c = Some d1" "em2 = ?em \<lparr> em_repo := r2 \<rparr>" using gd sel False by (simp_all add: GetDispatcher_def Let_def)
      then show ?thesis using right [OF Some] False by (simp add: b)
    qed
  qed
qed

theorem RouteByPid_reaches_witness:
  "be_receiver (fst (RouteByPid 0 None (Some (game_pid ''z'' ''new'')) demo_em)) \<noteq> None"
proof -
  have "p_NodeUid (game_pid ''z'' ''new'') \<noteq> em_nodeUid demo_em \<and> gm_get (rp_mapPID (em_repo demo_em)) (p_ServiceUid (game_pid ''z'' ''new'')) = None" by code_simp
  with RouteByPid_reaches [OF demo_em_def surjective_pairing] show ?thesis by blast
qed

section \<open>A service that cannot be found\<close>

lemma pick_all_from:
  "d \<in> set (fst (pick_all now fits uids r)) \<Longrightarrow> \<exists>uid \<in> set uids. \<exists>info. gm_get (rp_mapPID r) uid = Some info \<and> si_dispatcher info = Some d"
proof (induction uids arbitrary: r)
  case (Cons uid uids)
  obtain c r1 where sel: "SelectByServiceUid now uid r = (c, r1)" by fastforce
  obtain ds r2 where pa: "pick_all now fits uids r1 = (ds, r2)" by fastforce
  have fr: "rp_mapPID r1 = rp_mapPID r" by (rule SelectByServiceUid_frame [OF sel])
  show ?case
  proof (cases "d \<in> set ds")
    case True
    then show ?thesis using Cons.IH [of r1] pa fr by auto
  next
    case False
    then have "c = Some d" "IsSelectable uid r1" using Cons.prems by (auto simp: sel pa split: option.splits if_splits)
    then show ?thesis using sel fr by (auto simp: SelectByServiceUid_def IsSelectable_def split: option.splits if_splits)
  qed
qed simp

text \<open>
  C37. A removal and a registration of the same service that overlap can hide it: when the new registration comes between the two halves of \<open>Remove\<close>, the service is registered, ready
  and open, and both indexes have lost it, so that no \<open>Select\<close> by name finds it.
\<close>

theorem overlapping_remove_hides_service:
  assumes "reg_inv n r" "gm_get (rp_keyMap r) uid = Some uid" "uid \<noteq> []" "reg r uid = Some (d, p)"
    and "unused r d2" "rp_pids r d2 = Some p2" "same_service p2 p"
    and "remove_take uid r = (gone, r1)" "add_store [] d2 StatusReady vis r1 = (fresh, r2)" "r3 = indexRemove p (indexAdd p2 r2)"
  shows "gone = Some p \<and> fresh \<and> reg r3 uid = Some (d2, p2) \<and> IsSelectable uid r3
    \<and> (\<forall>now sender param. case fst (repo_Select now sender param r3) of Inl _ \<Rightarrow> True | Inr res \<Rightarrow> Some d2 \<notin> set (receivers res))"
proof -
  have mo: "map_ok r" and io: "index_ok r" using assms(1) by (simp_all add: reg_inv_def)
  obtain info where info: "gm_get (rp_mapPID r) uid = Some info" "si_dispatcher info = Some d" "rp_pids r d = Some p" using reg_SomeD [OF assms(4)] by blast
  have puid: "p_ServiceUid p = uid" "p_ServiceUid p2 = uid" using reg_uid [OF mo assms(4)] assms(7) by (simp_all add: same_service_def)
  have "d2 \<noteq> d" using assms(5) info by (auto simp: unused_def)
  have r1: "gone = Some p" "r1 = Dispatcher_Close d (r \<lparr> rp_keyMap := gm_del (rp_keyMap r) uid, rp_mapPID := gm_del (rp_mapPID r) uid \<rparr>)"
    using assms(2,3,8) info by (auto simp: remove_take_def pid_of_def)
  have pid2: "rp_pids r1 d2 = Some p2" using assms(6) \<open>d2 \<noteq> d\<close> by (simp add: r1 Dispatcher_Close_def)
  let ?info = "\<lparr> si_dispatcher = Some d2, si_status = StatusReady, si_visibility = vis \<rparr>"
  have r2: "fresh" "rp_mapPID r2 = gm_set (gm_del (rp_mapPID r) uid) uid ?info" "rp_pids r2 = rp_pids r1" "rp_byName r2 = rp_byName r" "rp_byType r2 = rp_byType r"
    using assms(9) pid2 by (auto simp: add_store_def pid_of_def puid r1 Dispatcher_Close_def gm_get_del Let_def)
  have map3: "rp_mapPID r3 = rp_mapPID r2" "rp_pids r3 = rp_pids r2" by (simp_all add: assms(10) indexRemove_def)
  have reg3: "reg r3 uid = Some (d2, p2)" "IsSelectable uid r3"
    by (simp_all add: reg_def IsSelectable_def isSelectableInfo_def map3 r2 gm_get_set pid2)
  have name: "p_Name p2 = p_Name p" using assms(7) by (simp add: same_service_def)
  have "gm_get (rp_byName (indexAdd p2 r2)) (p_Name p) \<noteq> None" by (simp add: indexAdd_def gm_set2_def gm_get_set name)
  then have "rp_byName r3 = gm_del2 (gm_set2 (rp_byName r) (p_Name p) uid ()) (p_Name p) uid"
    by (simp add: assms(10) indexRemove_def) (auto simp: indexAdd_def name puid r2)
  then have no_name: "gm_get2 (rp_byName r3) nm uid = None" for nm
    using io assms(4) by (cases "gm_get2 (rp_byName r) nm uid") (auto simp: nested_get index_ok_def)
  have "Some d2 \<notin> set (receivers res)" if sel: "fst (repo_Select now sender param r3) = Inr res" for now sender param res
  proof
    assume in_res: "Some d2 \<in> set (receivers res)"
    obtain s r4 where s: "SelectByServiceUid now sender r3 = (s, r4)" by fastforce
    note fr = SelectByServiceUid_frame [OF s]
    obtain nm uids where nm: "sp_ServiceName param = Some nm" "gm_get (rp_byName r3) nm = Some uids"
      using sel in_res s fr by (auto simp: repo_Select_def receivers_def split: option.splits)
    obtain ds r5 where pa: "pick_all now (pid_fits param) (gm_keys uids) r4 = (ds, r5)" by fastforce
    have "res = Many (to_buses s ds)" using sel s nm fr pa by (simp add: repo_Select_def)
    then have "d2 \<in> set (fst (pick_all now (pid_fits param) (gm_keys uids) r4))" using in_res pa by (auto simp: receivers_def)
    then obtain u i where u: "u \<in> set (gm_keys uids)" "gm_get (rp_mapPID r3) u = Some i" "si_dispatcher i = Some d2" using pick_all_from fr by metis
    have "u = uid" using u(2,3) assms(5) by (auto simp: map3 r2 gm_get_set gm_get_del unused_def split: if_splits)
    moreover have "gm_get2 (rp_byName r3) nm u \<noteq> None" using u(1) unfolding gm_get_keys by (simp add: gm_get2_def gm_inner_def nm(2))
    ultimately show False using no_name by simp
  qed
  then show ?thesis using r1(1) r2(1) reg3 by (auto split: sum.split)
qed

definition twin_em :: endpoint_manager where
  "twin_em = snd (NewDispatcher (game_pid ''n'' ''a'') (fold em_step [E_Add game_service] (new_em ''n'' True [])))"

theorem overlapping_remove_hides_service_witness:
  "IsSelectable ''a'' (indexRemove (game_pid ''n'' ''a'') (indexAdd (game_pid ''n'' ''a'') (snd (add_store [] 1 StatusReady 1 (snd (remove_take ''a'' (em_repo twin_em)))))))"
proof -
  have new: "NewDispatcher (game_pid ''n'' ''a'') (fold em_step [E_Add game_service] (new_em ''n'' True [])) = (1, twin_em)"
    unfolding twin_em_def by (rule prod_eqI) (simp_all add: NewDispatcher_def AddService_def new_em_def game_service_def Let_def em_trigger_def)
  note facts = NewDispatcher_inv [OF em_run_inv [OF new_em_inv] new]
  have "gm_get (rp_keyMap (em_repo twin_em)) ''a'' = Some ''a''" "reg (em_repo twin_em) ''a'' = Some (0, game_pid ''n'' ''a'')" by code_simp+
  with overlapping_remove_hides_service [OF facts(1) [unfolded em_inv_def] _ _ _ facts(2,3) same_service_refl surjective_pairing surjective_pairing refl]
  show ?thesis by simp
qed

section \<open>After a stop\<close>

lemma close_all_pids:
  "rp_mapPID (fold (\<lambda>x r. case si_dispatcher (snd x) of None \<Rightarrow> r | Some d \<Rightarrow> Dispatcher_Close d r) xs r) = rp_mapPID r
   \<and> (x \<in> set xs \<longrightarrow> si_dispatcher (snd x) = Some d \<longrightarrow> rp_pids (fold (\<lambda>x r. case si_dispatcher (snd x) of None \<Rightarrow> r | Some d \<Rightarrow> Dispatcher_Close d r) xs r) d = None)
   \<and> (rp_pids r d = None \<longrightarrow> rp_pids (fold (\<lambda>x r. case si_dispatcher (snd x) of None \<Rightarrow> r | Some d \<Rightarrow> Dispatcher_Close d r) xs r) d = None)"
proof (induction xs arbitrary: r)
  case (Cons y ys)
  show ?case using Cons [of "case si_dispatcher (snd y) of None \<Rightarrow> r | Some d \<Rightarrow> Dispatcher_Close d r"]
    by (auto simp: Dispatcher_Close_def split: option.splits)
qed simp

lemma close_tmps_frame: "rp_mapPID (close_tmps ts r) = rp_mapPID r \<and> (rp_pids r d = None \<longrightarrow> rp_pids (close_tmps ts r) d = None)"
proof (induction ts arbitrary: r)
  case (Cons t ts)
  show ?case using Cons [of "case ti_dispatcher t of None \<Rightarrow> r | Some d \<Rightarrow> Dispatcher_Close d r"]
    by (auto simp: close_tmps_def Dispatcher_Close_def split: option.splits)
qed (simp add: close_tmps_def)

lemma rule_scan_panics:
  "info \<in> set infos \<Longrightarrow> isSelectableInfo info \<Longrightarrow> (\<And>d. si_dispatcher info = Some d \<Longrightarrow> pids d = None) \<Longrightarrow> \<exists>e. rule_scan rule pids infos = Inl e"
proof (induction infos)
  case (Cons i infos)
  then show ?case by (auto simp: isSelectableInfo_def split: option.splits sum.splits)
qed simp

text \<open>\<open>Stop\<close> closes the dispatchers of the registered services and keeps them registered; \<open>SelectByRule\<close> then reads the flag of a nil PID.\<close>

lemma SelectByRule_after_Stop_panics:
  assumes "gm_get (rp_mapPID r) uid = Some info" "isSelectableInfo info"
  shows "\<exists>e. fst (SelectByRule now sender rule (repo_Stop r)) = Inl e"
proof -
  have mem: "(uid, info) \<in> set (rp_mapPID r)" using assms(1) by (rule gm_get_mem)
  have map: "rp_mapPID (repo_Stop r) = rp_mapPID r"
    using close_all_pids [of "rp_mapPID r" "r \<lparr> rp_stopped := True \<rparr>" "(uid, info)" 0] unfolding repo_Stop_def repo_tick_def by (simp add: close_tmps_frame)
  have pids: "rp_pids (repo_Stop r) d = None" if "si_dispatcher info = Some d" for d
    using close_all_pids [of "rp_mapPID r" "r \<lparr> rp_stopped := True \<rparr>" "(uid, info)" d] mem that close_tmps_frame
    unfolding repo_Stop_def repo_tick_def by simp
  obtain s r1 where s: "SelectByServiceUid now sender (repo_Stop r) = (s, r1)" by fastforce
  have "\<exists>e. rule_scan rule (rp_pids r1) (map snd (rp_mapPID r1)) = Inl e"
    by (rule rule_scan_panics [of info]) (use mem assms(2) pids SelectByServiceUid_frame [OF s] map in \<open>auto simp: image_iff intro!: bexI [of _ "(uid, info)"]\<close>)
  then show ?thesis by (auto simp: SelectByRule_def s)
qed

section \<open>Identifiers\<close>

definition digits_value :: "string \<Rightarrow> nat" where
  "digits_value ds = fold (\<lambda>c v. 10 * v + (of_char c - 48)) ds 0"

lemma digits_value_snoc [simp]: "digits_value (ds @ [c]) = 10 * digits_value ds + (of_char c - 48)"
  by (simp add: digits_value_def)

lemma nat_digits_value: "digits_value (nat_digits n) = n"
proof (induction n rule: nat_digits.induct)
  case (1 n)
  show ?case
  proof (cases "n < 10")
    case True
    then show ?thesis by (subst nat_digits.simps) (simp add: digits_value_def of_char_of)
  next
    case False
    then show ?thesis using 1 by (subst nat_digits.simps) (simp add: of_char_of)
  qed
qed

lemma nat_digits_range: "c \<in> set (nat_digits n) \<Longrightarrow> 48 \<le> (of_char c :: nat) \<and> of_char c < (58 :: nat)"
proof (induction n rule: nat_digits.induct)
  case (1 n)
  then show ?case by (subst (asm) nat_digits.simps) (auto simp: of_char_of split: if_splits)
qed

lemma int_digits_no_dot: "CHR ''.'' \<notin> set (int_digits i)"
  using nat_digits_range [of "CHR ''.''"] by (auto simp: int_digits_def split: if_splits)

lemma int_digits_inject: "int_digits i = int_digits j \<longleftrightarrow> i = j"
proof
  have minus: "CHR ''-'' \<notin> set (nat_digits n)" for n using nat_digits_range [of "CHR ''-''" n] by auto
  have nat: "nat_digits m = nat_digits n \<Longrightarrow> m = n" for m n using nat_digits_value by metis
  assume "int_digits i = int_digits j"
  then show "i = j" using minus nat [of "nat i" "nat j"] nat [of "nat (- i)" "nat (- j)"]
    by (auto simp: int_digits_def split: if_splits) (metis list.set_intros(1))+
qed simp

lemma dot_split: "CHR ''.'' \<notin> set a \<Longrightarrow> CHR ''.'' \<notin> set a' \<Longrightarrow> a @ ''.'' @ b = a' @ ''.'' @ b' \<longleftrightarrow> a = a' \<and> b = b'"
proof (induction a arbitrary: a')
  case Nil
  then show ?case by (cases a') auto
next
  case (Cons x a)
  then show ?case by (cases a') auto
qed

text \<open>
  The identifier of a service determines its partition, name, identifier and node, as long as the name and the identifier have no dot; with dots two services can share one.
\<close>

theorem CreateInstanceId_injective:
  assumes "CHR ''.'' \<notin> set name" "CHR ''.'' \<notin> set name'" "CHR ''.'' \<notin> set sid" "CHR ''.'' \<notin> set sid'"
  shows "CreateInstanceId part name sid node = CreateInstanceId part' name' sid' node' \<longleftrightarrow> part = part' \<and> name = name' \<and> sid = sid' \<and> node = node'"
  unfolding CreateInstanceId_def dot_split [OF int_digits_no_dot int_digits_no_dot] dot_split [OF assms(1,2)] dot_split [OF assms(3,4)] int_digits_inject ..

lemma CreateInstanceId_ambiguous: "CreateInstanceId 1 ''a.b'' ''c'' node = CreateInstanceId 1 ''a'' ''b.c'' node"
  by (simp add: CreateInstanceId_def)

end
