(* ===== verification/Idle_Control.thy ===== *)
theory Idle_Control
  imports Queue_Manager
begin

text \<open>
  How a worker sleeps while its queue is empty and how it is woken: \<open>engine/pkg/utils/idle/idle.go\<close> (\<open>AdaptiveController\<close>), \<open>backoff.go\<close> and \<open>spin_backoff.go\<close>, with the
  parts of \<open>engine/pkg/actor/mailbox/worker.go\<close> that call them: the main loop, \<open>SubmitJob\<close> and \<open>BeginStop\<close>. The worker takes its jobs from a queue manager of
  \<open>Queue_Manager\<close>, dual or with priorities.

  The worker and any number of submitters and stoppers are programs whose steps are the atomic accesses and the critical sections of the mutex of the controller. Waiting on the
  condition variable is a step that is blocked until the flag is set. The random number of a delay is an argument.
\<close>

section \<open>Definitions\<close>

subsection \<open>Delays\<close>

record exponential_backoff =
  bo_BaseDelay :: int
  bo_MaxDelay :: int
  bo_MaxRetries :: int
  bo_retry :: "32 word"

definition NewExponentialBackoff :: "int \<Rightarrow> int \<Rightarrow> int \<Rightarrow> exponential_backoff" where
  "NewExponentialBackoff baseDelay maxDelay maxRetries =
     (let base = (if baseDelay \<le> 0 then 1 else baseDelay)
      in \<lparr> bo_BaseDelay = base, bo_MaxDelay = (if maxDelay \<le> 0 then base else maxDelay), bo_MaxRetries = maxRetries, bo_retry = 0 \<rparr>)"

definition backoff_Reset :: "exponential_backoff \<Rightarrow> exponential_backoff" where
  "backoff_Reset b = b \<lparr> bo_retry := 0 \<rparr>"

text \<open>An \<open>int64\<close> shifted left by an \<open>int32\<close> that is converted to \<open>uint\<close>: a negative count is larger than the width.\<close>

definition go_shl64 :: "int \<Rightarrow> int \<Rightarrow> int" where
  "go_shl64 x s = (if s < 0 \<or> 64 \<le> s then 0 else sint (push_bit (nat s) (word_of_int x :: 64 word)))"

definition NextDelay :: "(int \<Rightarrow> int) \<Rightarrow> exponential_backoff \<Rightarrow> int \<times> exponential_backoff" where
  "NextDelay rand_Int64N b =
     (let b1 = b \<lparr> bo_retry := bo_retry b + 1 \<rparr>; cur = sint (bo_retry b1 - 1)
      in if 0 < bo_MaxRetries b \<and> sint (word_of_int (bo_MaxRetries b) :: 32 word) \<le> cur
         then (bo_MaxDelay b, b1 \<lparr> bo_retry := word_of_int (bo_MaxRetries b) \<rparr>)
         else let expInt0 = go_shl64 (bo_BaseDelay b) (min 62 cur);
                  expInt = min (if expInt0 \<le> 0 then bo_MaxDelay b else expInt0) (bo_MaxDelay b)
              in (if expInt \<le> 1 then 0 else rand_Int64N expInt, b1))"

record spin_backoff =
  sp_current :: int
  sp_max :: int

definition NewSpinBackoff :: "int \<Rightarrow> spin_backoff" where
  "NewSpinBackoff maxDelay = \<lparr> sp_current = 0, sp_max = maxDelay \<rparr>"

definition spin_next :: "spin_backoff \<Rightarrow> spin_backoff" where
  "spin_next b = b \<lparr> sp_current := min (sp_current b * 2) (sp_max b) \<rparr>"

text \<open>The time slept, and the state after it; \<open>Backoff\<close> yields the first time.\<close>

definition Spin_Backoff :: "spin_backoff \<Rightarrow> int \<times> spin_backoff" where
  "Spin_Backoff b = (if sp_current b = 0 then (0, b \<lparr> sp_current := 1000 \<rparr>) else (sp_current b, spin_next b))"

definition Spin_Sleep :: "spin_backoff \<Rightarrow> int \<times> spin_backoff" where
  "Spin_Sleep b =
     (let b1 = (if sp_current b = 0 then b \<lparr> sp_current := 1000 \<rparr> else b) in (sp_current b1, spin_next b1))"

definition Spin_Reset :: "spin_backoff \<Rightarrow> spin_backoff" where
  "Spin_Reset b = b \<lparr> sp_current := 0 \<rparr>"

subsection \<open>The controller\<close>

record adaptive_controller =
  ac_maxIdleBeforeCond :: "32 word"
  ac_enableCond :: bool
  ac_idleCount :: "32 word"
  ac_bo :: exponential_backoff
  ac_notified :: bool

definition NewAdaptiveController :: "bool \<Rightarrow> int \<Rightarrow> int \<Rightarrow> int \<Rightarrow> int \<Rightarrow> adaptive_controller" where
  "NewAdaptiveController enableCond baseDelay maxDelay maxIdleBeforeCond maxRetries =
     \<lparr> ac_maxIdleBeforeCond = word_of_int (if maxIdleBeforeCond \<le> 0 then 1 else maxIdleBeforeCond), ac_enableCond = enableCond, ac_idleCount = 0,
       ac_bo = NewExponentialBackoff (if baseDelay \<le> 0 then 1000 else baseDelay) maxDelay maxRetries, ac_notified = False \<rparr>"

definition ac_Reset :: "adaptive_controller \<Rightarrow> adaptive_controller" where
  "ac_Reset c = c \<lparr> ac_idleCount := 0, ac_bo := backoff_Reset (ac_bo c) \<rparr>"

text \<open>The first part of \<open>Idle\<close>: it returns at once, sleeps for a delay, or has to wait for a notification.\<close>

datatype idle_answer = I_return | I_sleep int | I_wait

definition idle_count :: "(int \<Rightarrow> int) \<Rightarrow> adaptive_controller \<Rightarrow> idle_answer \<times> adaptive_controller" where
  "idle_count rand c0 =
     (let c = c0 \<lparr> ac_idleCount := ac_idleCount c0 + 1 \<rparr>
      in if ac_idleCount c <s ac_maxIdleBeforeCond c then (I_return, c)
         else if \<not> ac_enableCond c then (case NextDelay rand (ac_bo c) of (d, bo) \<Rightarrow> (I_sleep d, c \<lparr> ac_bo := bo \<rparr>))
         else (I_wait, c))"

text \<open>The wait, which is over when the flag is set and clears it.\<close>

definition idle_wait :: "adaptive_controller \<Rightarrow> adaptive_controller option" where
  "idle_wait c = (if ac_notified c then Some (c \<lparr> ac_notified := False \<rparr>) else None)"

definition wake_notify :: "adaptive_controller \<Rightarrow> adaptive_controller" where
  "wake_notify c = (if ac_enableCond c then c \<lparr> ac_notified := True \<rparr> else c)"

subsection \<open>A worker and those who wake it\<close>

datatype loop_pc = W_top | W_next | W_run mailbox_job | W_idle | W_wait | W_reset | W_exit

text \<open>A caller submits a job or (without one) stops the worker; then it wakes the worker.\<close>

datatype caller_pc = C_begin "mailbox_job option" | C_notify | C_reset | C_done

record idle_sys =
  sy_ctl :: adaptive_controller
  sy_queue :: queue_manager
  sy_closed :: bool
  sy_ran :: "mailbox_job list"
  sy_loop :: loop_pc
  sy_callers :: "caller_pc list"

fun loop_step :: "(int \<Rightarrow> int) \<Rightarrow> idle_sys \<Rightarrow> idle_sys option" where
  "loop_step rand s =
     (case sy_loop s of
        W_top \<Rightarrow> Some (s \<lparr> sy_loop := (if sy_closed s then W_exit else W_next) \<rparr>)
      | W_next \<Rightarrow>
          (case QM_NextJob (sy_queue s) of
             (None, q) \<Rightarrow> Some (s \<lparr> sy_queue := q, sy_loop := W_idle \<rparr>)
           | (Some j, q) \<Rightarrow> Some (s \<lparr> sy_queue := q, sy_loop := W_run j \<rparr>))
      | W_run j \<Rightarrow> Some (s \<lparr> sy_ran := sy_ran s @ [j], sy_loop := W_top \<rparr>)
      | W_idle \<Rightarrow>
          (case idle_count rand (sy_ctl s) of (ans, c) \<Rightarrow> Some (s \<lparr> sy_ctl := c, sy_loop := (if ans = I_wait then W_wait else W_top) \<rparr>))
      | W_wait \<Rightarrow> map_option (\<lambda>c. s \<lparr> sy_ctl := c, sy_loop := W_reset \<rparr>) (idle_wait (sy_ctl s))
      | W_reset \<Rightarrow> Some (s \<lparr> sy_ctl := ac_Reset (sy_ctl s), sy_loop := W_top \<rparr>)
      | W_exit \<Rightarrow> None)"

definition set_caller :: "nat \<Rightarrow> caller_pc \<Rightarrow> idle_sys \<Rightarrow> idle_sys" where
  "set_caller i pc s = s \<lparr> sy_callers := (sy_callers s)[i := pc] \<rparr>"

definition waker_step :: "nat \<Rightarrow> idle_sys \<Rightarrow> idle_sys option" where
  "waker_step i s =
     (if length (sy_callers s) \<le> i then None
      else case sy_callers s ! i of
        C_begin (Some j) \<Rightarrow>
          if sy_closed s then Some (set_caller i C_done s)
          else (case QM_Submit j (sy_queue s) of
                  (err, j', q) \<Rightarrow> Some (set_caller i (if err = None then C_notify else C_done) (s \<lparr> sy_queue := q \<rparr>)))
      | C_begin None \<Rightarrow> Some (if sy_closed s then set_caller i C_done s else set_caller i C_notify (s \<lparr> sy_closed := True \<rparr>))
      | C_notify \<Rightarrow> Some (set_caller i C_reset (s \<lparr> sy_ctl := wake_notify (sy_ctl s) \<rparr>))
      | C_reset \<Rightarrow> Some (set_caller i C_done (s \<lparr> sy_ctl := ac_Reset (sy_ctl s) \<rparr>))
      | C_done \<Rightarrow> None)"

datatype who = Loop | Caller nat

definition idle_step :: "(int \<Rightarrow> int) \<Rightarrow> who \<Rightarrow> idle_sys \<Rightarrow> idle_sys option" where
  "idle_step rand w s = (case w of Loop \<Rightarrow> loop_step rand s | Caller i \<Rightarrow> waker_step i s)"

text \<open>A schedule; a thread that cannot step is skipped.\<close>

definition idle_run :: "(int \<Rightarrow> int) \<Rightarrow> who list \<Rightarrow> idle_sys \<Rightarrow> idle_sys" where
  "idle_run rand ws s = fold (\<lambda>w s. case idle_step rand w s of None \<Rightarrow> s | Some s1 \<Rightarrow> s1) ws s"

definition new_sys :: "adaptive_controller \<Rightarrow> queue_manager \<Rightarrow> mailbox_job option list \<Rightarrow> idle_sys" where
  "new_sys c m callers = \<lparr> sy_ctl = c, sy_queue = m, sy_closed = False, sy_ran = [], sy_loop = W_top, sy_callers = map C_begin callers \<rparr>"

section \<open>Lemmas\<close>

subsection \<open>When a manager has nothing to hand out\<close>

lemma prio_nothing_iff:
  assumes "pm_inv m"
  shows "fst (Prio_NextJob m) = None \<longleftrightarrow> waiting m = [] \<or> hd (waiting m) = PriorityHigh"
proof -
  obtain sch where "Prio_NextJob m =
    (if waiting m = [] then (None, m)
     else if hd (waiting m) = - 1 then (None, m \<lparr> pm_scheduler := sch \<rparr>)
     else let q = the (gm_get (pm_queues m) (hd (waiting m)))
          in (Some (hd (mq_elems q)),
              m \<lparr> pm_scheduler := sch, pm_queues := gm_set (pm_queues m) (hd (waiting m)) (snd (MQueue_Pop q)) \<rparr>))"
    using prio_next [OF assms] by blast
  then show ?thesis by (cases "waiting m = []"; cases "hd (waiting m) = - 1") (simp_all add: Let_def PriorityHigh_def)
qed

lemma dual_nothing_iff:
  assumes "dm_inv m"
  shows "fst (Dual_NextJob m) = None \<longleftrightarrow> dm_jobs m = {#}"
  using dual_next [OF assms] by (auto simp: dm_jobs_def split: list.splits)

text \<open>Another call finds nothing either, and a refused job does not change that.\<close>

lemma QM_nothing_again:
  assumes "qm_inv m" "QM_NextJob m = (None, m')"
  shows "fst (QM_NextJob m') = None"
proof (cases m)
  case (QMDual d)
  then obtain d' where "Dual_NextJob d = (None, d')" "m' = QMDual d'" using assms(2) by (cases "Dual_NextJob d") auto
  then show ?thesis using dual_next_none [of d d'] assms(1) QMDual by (simp add: split_beta)
next
  case (QMPriority p)
  then obtain p' where p': "Prio_NextJob p = (None, p')" "m' = QMPriority p'" using assms(2) by (cases "Prio_NextJob p") auto
  have i: "pm_inv p" using assms(1) QMPriority by simp
  have "waiting p' = waiting p" using prio_next [OF i] p'(1) by (auto simp: waiting_scheduler Let_def split: if_splits)
  moreover have "fst (Prio_NextJob p) = None" using p'(1) by simp
  ultimately have "fst (Prio_NextJob p') = None" using prio_nothing_iff [OF i] prio_nothing_iff [of p'] prio_next_none [OF i p'(1)] by simp
  then show ?thesis using p'(2) by (simp add: split_beta)
qed

lemma QM_nothing_refused:
  assumes "qm_inv m" "QM_Submit e m = (Some err, e', m')" "fst (QM_NextJob m) = None"
  shows "fst (QM_NextJob m') = None"
proof (cases m)
  case (QMDual d)
  then obtain d' where "Dual_Submit e d = (Some err, e', d')" "m' = QMDual d'" using assms(2) by (cases "Dual_Submit e d") auto
  then show ?thesis using dual_submit_refused [of d e err e' d'] assms(1,3) QMDual by simp
next
  case (QMPriority p)
  then obtain p' where p': "Prio_Submit e p = (Some err, e', p')" "m' = QMPriority p'" using assms(2) by (cases "Prio_Submit e p") auto
  have i: "pm_inv p" using assms(1) QMPriority by simp
  obtain q where q: "gm_get (pm_queues p) (submit_target e p) = Some q" using pm_target_queue [OF i] by blast
  obtain w where "p' = p \<lparr> pm_fallbackWarned := w, pm_queues := gm_set (pm_queues p) (submit_target e p) q \<rparr>"
    using prio_submit [OF i q] p'(1) by (auto split: if_splits)
  moreover have "gm_get (gm_set (pm_queues p) (submit_target e p) q) = gm_get (pm_queues p)" using q by (auto simp: update_conv' fun_eq_iff)
  ultimately have "waiting p' = waiting p" by (simp add: waiting_def nonempty_at_def [abs_def])
  moreover have "fst (Prio_NextJob p) = None" using assms(3) QMPriority by (simp add: split_beta)
  ultimately have "fst (Prio_NextJob p') = None"
    using prio_nothing_iff [OF i] prio_nothing_iff [of p'] prio_submit_refused [OF i p'(1)] by simp
  then show ?thesis using p'(2) by (simp add: split_beta)
qed

subsection \<open>The wake-ups\<close>

text \<open>Somebody is about to wake the worker, or has done so.\<close>

definition wake_coming :: "idle_sys \<Rightarrow> bool" where
  "wake_coming s \<longleftrightarrow> ac_notified (sy_ctl s) \<or> C_notify \<in> set (sy_callers s)"

text \<open>What the worker that has found nothing to do can rely on.\<close>

definition wakeup_inv :: "idle_sys \<Rightarrow> bool" where
  [inv_defs]: "wakeup_inv s \<longleftrightarrow> qm_inv (sy_queue s)
     \<and> (sy_loop s = W_wait \<longrightarrow> ac_enableCond (sy_ctl s))
     \<and> (sy_loop s \<in> {W_idle, W_wait} \<longrightarrow> ac_enableCond (sy_ctl s) \<longrightarrow> fst (QM_NextJob (sy_queue s)) \<noteq> None \<or> sy_closed s \<longrightarrow> wake_coming s)
     \<and> (sy_loop s = W_next \<longrightarrow> ac_enableCond (sy_ctl s) \<longrightarrow> sy_closed s \<longrightarrow> wake_coming s)"

lemma idle_count_frame:
  "idle_count rand c = (ans, c1) \<Longrightarrow> ac_enableCond c1 = ac_enableCond c \<and> ac_notified c1 = ac_notified c \<and> (ans = I_wait \<longrightarrow> ac_enableCond c)"
  by (auto simp: idle_count_def Let_def split: if_splits prod.splits)

lemma loop_keeps: "wakeup_inv s \<Longrightarrow> loop_step rand s = Some s1 \<Longrightarrow> wakeup_inv s1"
proof (cases "sy_loop s")
  case W_next
  assume inv: "wakeup_inv s" and step: "loop_step rand s = Some s1"
  have q: "qm_inv (sy_queue s)" using inv by (simp add: wakeup_inv_def)
  obtain r m where n: "QM_NextJob (sy_queue s) = (r, m)" by fastforce
  show ?thesis
  proof (cases r)
    case None
    then have "s1 = s \<lparr> sy_queue := m, sy_loop := W_idle \<rparr>" using step W_next n by simp
    then show ?thesis using inv W_next qm.next_none [OF q] QM_nothing_again [OF q] n None by (simp add: wakeup_inv_def wake_coming_def)
  next
    case (Some j)
    then have "s1 = s \<lparr> sy_queue := m, sy_loop := W_run j \<rparr>" using step W_next n by simp
    then show ?thesis using inv W_next qm.next_some [OF q] n Some by (simp add: wakeup_inv_def wake_coming_def)
  qed
next
  case W_idle
  obtain ans c where ic: "idle_count rand (sy_ctl s) = (ans, c)" by fastforce
  assume "wakeup_inv s" "loop_step rand s = Some s1"
  then show ?thesis using W_idle ic idle_count_frame [OF ic] by (auto simp: wakeup_inv_def wake_coming_def)
qed (auto simp: wakeup_inv_def wake_coming_def idle_wait_def ac_Reset_def split: list.splits if_splits)

lemma set_update_notify:
  assumes "i < length xs" "xs ! i \<noteq> C_notify" "C_notify \<in> set xs"
  shows "C_notify \<in> set (xs[i := x])"
proof -
  obtain k where "k < length xs" "xs ! k = C_notify" using assms(3) by (auto simp: in_set_conv_nth)
  moreover then have "k \<noteq> i" using assms(2) by auto
  ultimately have "(xs[i := x]) ! k = C_notify" "k < length (xs[i := x])" by simp_all
  then show ?thesis by (metis nth_mem)
qed

lemma waker_keeps:
  assumes inv: "wakeup_inv s" and step: "waker_step i s = Some s1"
  shows "wakeup_inv s1"
proof -
  have i: "i < length (sy_callers s)" using step by (simp add: waker_step_def split: if_splits)
  have q: "qm_inv (sy_queue s)" using inv by (simp add: wakeup_inv_def)
  have loop: "sy_loop s1 = sy_loop s" "ac_enableCond (sy_ctl s1) = ac_enableCond (sy_ctl s)"
    using step by (auto simp: waker_step_def set_caller_def wake_notify_def ac_Reset_def split: caller_pc.splits option.splits if_splits prod.splits)
  have keep: "wake_coming s1" if "ac_enableCond (sy_ctl s)" "wake_coming s"
    using step that set_update_notify [OF i]
    by (auto simp: waker_step_def set_caller_def wake_notify_def ac_Reset_def wake_coming_def split: caller_pc.splits option.splits if_splits prod.splits)
  have stop: "wake_coming s1" if "sy_closed s1 \<noteq> sy_closed s"
    using step that i by (auto simp: waker_step_def set_caller_def wake_coming_def split: caller_pc.splits option.splits if_splits prod.splits intro: set_update_memI)
  have job: "qm_inv (sy_queue s1) \<and> (wake_coming s1 \<or> (fst (QM_NextJob (sy_queue s)) = None \<longrightarrow> fst (QM_NextJob (sy_queue s1)) = None))"
  proof (cases "sy_queue s1 = sy_queue s")
    case False
    then obtain j where j: "sy_callers s ! i = C_begin (Some j)" "\<not> sy_closed s"
      using step by (auto simp: waker_step_def set_caller_def split: caller_pc.splits option.splits if_splits)
    obtain err j' m where sub: "QM_Submit j (sy_queue s) = (err, j', m)" by (metis prod.exhaust)
    have s1: "s1 = set_caller i (if err = None then C_notify else C_done) (s \<lparr> sy_queue := m \<rparr>)"
      using step j i sub by (simp add: waker_step_def)
    show ?thesis
    proof (cases err)
      case None
      then have "wake_coming s1" using s1 i by (simp add: set_caller_def wake_coming_def set_update_memI)
      then show ?thesis using qm.submit_accepted [OF q, of j] sub None s1 by (simp add: set_caller_def)
    next
      case (Some e)
      then show ?thesis using qm.submit_refused [OF q, of j] QM_nothing_refused [OF q, of j] sub s1 by (simp add: set_caller_def)
    qed
  qed (use q in simp)
  show ?thesis using inv loop keep stop job unfolding wakeup_inv_def by metis
qed

lemma run_keeps: "wakeup_inv s \<Longrightarrow> wakeup_inv (idle_run rand ws s)"
  unfolding idle_run_def
proof (induction ws arbitrary: s)
  case (Cons w ws)
  have "wakeup_inv (case idle_step rand w s of None \<Rightarrow> s | Some s1 \<Rightarrow> s1)"
  proof (cases w)
    case Loop
    then show ?thesis using Cons.prems loop_keeps [of s rand] by (simp add: idle_step_def del: loop_step.simps split: option.split)
  next
    case (Caller i)
    then show ?thesis using Cons.prems waker_keeps [of s i] by (simp add: idle_step_def split: option.split)
  qed
  then show ?case using Cons.IH by simp
qed simp

section \<open>Properties\<close>

text \<open>
  C18. No wake-up is lost: under every interleaving of the worker with any submitters and stoppers, whose jobs the manager accepts or refuses, a worker that is blocked although
  nobody is about to wake it was not stopped, and its manager has nothing to hand out. A dual manager is then empty. A priority manager has no job, or the most urgent one that
  waits has \<open>PriorityHigh\<close>, the value that \<open>NextJob\<close> takes for the absence of a job; the next theorem shows that.
\<close>

theorem no_lost_wakeup:
  assumes "qm_inv m" "s = idle_run rand ws (new_sys c m callers)" "loop_step rand s = None" "sy_loop s \<noteq> W_exit" "\<forall>pc \<in> set (sy_callers s). pc \<noteq> C_notify"
  shows "\<not> sy_closed s \<and> fst (QM_NextJob (sy_queue s)) = None
     \<and> (case sy_queue s of QMDual d \<Rightarrow> qm_jobs (sy_queue s) = {#} | QMPriority p \<Rightarrow> waiting p = [] \<or> hd (waiting p) = PriorityHigh)"
proof -
  have inv: "wakeup_inv s" unfolding assms(2) by (rule run_keeps) (use assms(1) in \<open>simp add: wakeup_inv_def new_sys_def\<close>)
  have "sy_loop s = W_wait" "\<not> ac_notified (sy_ctl s)"
    using assms(3,4) by (auto simp: idle_wait_def split: loop_pc.splits list.splits prod.splits option.splits if_splits)
  then have none: "fst (QM_NextJob (sy_queue s)) = None" "\<not> sy_closed s" using assms(5) inv by (auto simp: wakeup_inv_def wake_coming_def)
  have "qm_inv (sy_queue s)" using inv by (simp add: wakeup_inv_def)
  then have "case sy_queue s of QMDual d \<Rightarrow> qm_jobs (sy_queue s) = {#} | QMPriority p \<Rightarrow> waiting p = [] \<or> hd (waiting p) = PriorityHigh"
    using none(1) dual_nothing_iff prio_nothing_iff by (cases "sy_queue s") (simp_all add: split_beta)
  then show ?thesis using none by blast
qed

text \<open>A worker of a priority manager sleeps while a job of \<open>PriorityHigh\<close> waits, with nobody left to wake it: the submitter has notified and reset it, and returned.\<close>

definition high_run :: idle_sys where
  "high_run = idle_run (\<lambda>n. 0) (replicate 3 (Caller 0) @ replicate 9 Loop)
     (new_sys (NewAdaptiveController True 0 0 1 0) (QMPriority (example_prio PriorityHigh [])) [Some (example_job 1 PriorityHigh)])"

theorem worker_sleeps_on_high_job:
  "loop_step (\<lambda>n. 0) high_run = None \<and> sy_loop high_run = W_wait \<and> sy_callers high_run = [C_done] \<and> sy_ran high_run = [] \<and> \<not> QM_IsEmpty (sy_queue high_run)"
  by code_simp

text \<open>Every delay is between zero and the maximum, whatever the counter and also where the shift leaves the 64 bits.\<close>

theorem NextDelay_bounded:
  assumes "\<And>n. 1 < n \<Longrightarrow> 0 \<le> rand n \<and> rand n < n" "0 \<le> bo_MaxDelay b" "NextDelay rand b = (d, b1)"
  shows "0 \<le> d \<and> d \<le> bo_MaxDelay b"
proof -
  have r: "0 \<le> (if n \<le> 1 then 0 else rand n) \<and> (if n \<le> 1 then 0 else rand n) \<le> bo_MaxDelay b" if "n \<le> bo_MaxDelay b" for n
    using assms(1) [of n] assms(2) that by auto
  define e where "e = min (if go_shl64 (bo_BaseDelay b) (min 62 (sint (bo_retry b))) \<le> 0 then bo_MaxDelay b
    else go_shl64 (bo_BaseDelay b) (min 62 (sint (bo_retry b)))) (bo_MaxDelay b)"
  have "fst (NextDelay rand b) \<in> {bo_MaxDelay b, if e \<le> 1 then 0 else rand e}"
    unfolding NextDelay_def Let_def exponential_backoff.simps add_diff_cancel_right' e_def [symmetric] if_distrib [of fst] fst_conv by (simp add: e_def)
  then have "d = bo_MaxDelay b \<or> d = (if e \<le> 1 then 0 else rand e)" unfolding assms(3) by (simp only: fst_conv insert_iff empty_iff simp_thms)
  moreover have "0 \<le> (if e \<le> 1 then 0 else rand e) \<and> (if e \<le> 1 then 0 else rand e) \<le> bo_MaxDelay b"
    by (rule r) (simp only: e_def min.cobounded2)
  ultimately show ?thesis using assms(2) by (elim disjE) simp_all
qed

definition demo_sleep :: idle_sys where
  "demo_sleep = idle_run (\<lambda>n. 0) ([Caller 0, Caller 0, Caller 0] @ replicate 12 Loop)
     (new_sys (NewAdaptiveController True 0 0 1 0) (QMDual (example_dual [] [])) [Some (example_job 1 PriorityNormal)])"

theorem no_lost_wakeup_witness:
  "sy_ran demo_sleep = [example_job 1 PriorityNormal] \<and> \<not> sy_closed demo_sleep \<and> fst (QM_NextJob (sy_queue demo_sleep)) = None"
proof -
  have "qm_inv (QMDual (example_dual [] []))" by (simp add: example_dual_ok)
  note n = no_lost_wakeup [OF this, of demo_sleep "\<lambda>n. 0" "[Caller 0, Caller 0, Caller 0] @ replicate 12 Loop" "NewAdaptiveController True 0 0 1 0" "[Some (example_job 1 PriorityNormal)]"]
  have "loop_step (\<lambda>n. 0) demo_sleep = None" "sy_loop demo_sleep \<noteq> W_exit" "\<forall>pc \<in> set (sy_callers demo_sleep). pc \<noteq> C_notify"
    "sy_ran demo_sleep = [example_job 1 PriorityNormal]" by code_simp+
  then show ?thesis using n by (simp add: demo_sleep_def)
qed

theorem NextDelay_bounded_witness:
  "0 \<le> fst (NextDelay (\<lambda>n. n - 1) (NewExponentialBackoff 1 100 9)) \<and> fst (NextDelay (\<lambda>n. n - 1) (NewExponentialBackoff 1 100 9)) \<le> 100"
  using NextDelay_bounded [of "\<lambda>n. n - 1" "NewExponentialBackoff 1 100 9", OF _ _ prod.collapse [symmetric]] by (simp add: NewExponentialBackoff_def)

lemma Spin_Sleep_bounded: "sp_current b \<le> max 1000 (sp_max b) \<Longrightarrow> Spin_Sleep b = (d, b1) \<Longrightarrow> d \<le> max 1000 (sp_max b) \<and> sp_current b1 \<le> sp_max b1 \<and> sp_max b1 = sp_max b"
  by (auto simp: Spin_Sleep_def spin_next_def Let_def split: if_splits)

end
