(* ===== verification/Deque.thy ===== *)
theory Deque
  imports Ember_Prelude Pow2
begin

text \<open>
  \<open>engine/pkg/utils/queue/deque.go\<close>: the growing double-ended queue over a ring whose length is a power of two. The buffer, the two positions, the count and the minimum are the fields of
  the code; every access of the buffer is checked, as in Go, so that an index out of range is a panic of the model. \<open>dq_zero\<close> is the zero value of the element type.

  The operations are stated for a receiver that is not \<open>nil\<close> (\<open>Len\<close> and \<open>Cap\<close> for both). They refine the operations on lists: see \<open>deque_run_refines\<close>.
\<close>

section \<open>Definitions\<close>

record 'a deque =
  dq_zero :: 'a
  dq_buf :: "'a list"
  dq_head :: int
  dq_tail :: int
  dq_count :: int
  dq_minCap :: int

definition deque_minCapacity :: int where
  "deque_minCapacity = 16"

text \<open>\<open>make([]T, n)\<close>, an access of the buffer and an assignment to it.\<close>

definition make_slice :: "'a \<Rightarrow> int \<Rightarrow> 'a list" where
  "make_slice zero n = replicate (nat n) zero"

definition buf_get :: "int \<Rightarrow> 'a deque \<Rightarrow> go_panic + 'a" where
  "buf_get i q = (if 0 \<le> i \<and> i < int (length (dq_buf q)) then Inr (dq_buf q ! nat i) else Inl (Go_Panic ''index out of range''))"

definition buf_put :: "int \<Rightarrow> 'a \<Rightarrow> 'a deque \<Rightarrow> go_panic + 'a deque" where
  "buf_put i x q =
     (if 0 \<le> i \<and> i < int (length (dq_buf q)) then Inr (q \<lparr> dq_buf := (dq_buf q)[nat i := x] \<rparr>) else Inl (Go_Panic ''index out of range''))"

definition NewDeque :: "'a \<Rightarrow> int list \<Rightarrow> 'a deque" where
  "NewDeque zero sizes =
     (let capacity = (if 1 \<le> length sizes then sizes ! 0 else 0);
          minimum = (if 2 \<le> length sizes then sizes ! 1 else 0);
          minCap = (if deque_minCapacity < minimum then RoundUpToPowerOfTwoInt minimum else deque_minCapacity);
          buf = (if capacity \<noteq> 0 then make_slice zero (if minCap < capacity then RoundUpToPowerOfTwoInt capacity else minCap) else [])
      in \<lparr> dq_zero = zero, dq_buf = buf, dq_head = 0, dq_tail = 0, dq_count = 0, dq_minCap = minCap \<rparr>)"

definition deque_Cap :: "'a deque option \<Rightarrow> int" where
  "deque_Cap q = (case q of None \<Rightarrow> 0 | Some d \<Rightarrow> int (length (dq_buf d)))"

definition deque_Len :: "'a deque option \<Rightarrow> int" where
  "deque_Len q = (case q of None \<Rightarrow> 0 | Some d \<Rightarrow> dq_count d)"

definition modBits :: "'a deque \<Rightarrow> int" where
  "modBits q = int (length (dq_buf q)) - 1"

definition deque_prev :: "'a deque \<Rightarrow> int \<Rightarrow> int" where
  "deque_prev q i = (i - 1) AND modBits q"

definition deque_next :: "'a deque \<Rightarrow> int \<Rightarrow> int" where
  "deque_next q i = (i + 1) AND modBits q"

subsection \<open>Resizing\<close>

text \<open>\<open>copy(dst, src)\<close>.\<close>

definition go_copy :: "'a list \<Rightarrow> 'a list \<Rightarrow> 'a list" where
  "go_copy dst src = take (length dst) src @ drop (length src) dst"

definition deque_resize :: "'a deque \<Rightarrow> 'a deque" where
  "deque_resize q =
     (let newBuf = make_slice (dq_zero q) (push_bit 1 (dq_count q));
          newBuf1 =
            (if dq_head q < dq_tail q
             then go_copy newBuf (take (nat (dq_tail q) - nat (dq_head q)) (drop (nat (dq_head q)) (dq_buf q)))
             else let src = drop (nat (dq_head q)) (dq_buf q); n = min (length newBuf) (length src); b1 = go_copy newBuf src
                  in take n b1 @ go_copy (drop n b1) (take (nat (dq_tail q)) (dq_buf q)))
      in q \<lparr> dq_head := 0, dq_tail := dq_count q, dq_buf := newBuf1 \<rparr>)"

definition growIfFull :: "'a deque \<Rightarrow> 'a deque" where
  "growIfFull q =
     (if dq_count q \<noteq> int (length (dq_buf q)) then q
      else if dq_buf q = []
           then let q1 = (if dq_minCap q = 0 then q \<lparr> dq_minCap := deque_minCapacity \<rparr> else q)
                in q1 \<lparr> dq_buf := make_slice (dq_zero q1) (dq_minCap q1) \<rparr>
      else deque_resize q)"

definition shrinkIfExcess :: "'a deque \<Rightarrow> 'a deque" where
  "shrinkIfExcess q =
     (if dq_minCap q < int (length (dq_buf q)) \<and> push_bit 2 (dq_count q) = int (length (dq_buf q)) then deque_resize q else q)"

subsection \<open>The ends\<close>

definition PushBack :: "'a \<Rightarrow> 'a deque \<Rightarrow> go_panic + 'a deque" where
  "PushBack elem q =
     (let q1 = growIfFull q
      in and_then (buf_put (dq_tail q1) elem q1) (\<lambda>q2.
         Inr (q2 \<lparr> dq_tail := deque_next q2 (dq_tail q2), dq_count := dq_count q2 + 1 \<rparr>)))"

definition PushFront :: "'a \<Rightarrow> 'a deque \<Rightarrow> go_panic + 'a deque" where
  "PushFront elem q =
     (let q1 = growIfFull q; q2 = q1 \<lparr> dq_head := deque_prev q1 (dq_head q1) \<rparr>
      in and_then (buf_put (dq_head q2) elem q2) (\<lambda>q3. Inr (q3 \<lparr> dq_count := dq_count q3 + 1 \<rparr>)))"

definition PopFront :: "'a deque \<Rightarrow> go_panic + 'a \<times> 'a deque" where
  "PopFront q =
     (if dq_count q \<le> 0 then Inl (Go_Panic ''deque: PopFront() called on empty queue'')
      else and_then (buf_get (dq_head q) q) (\<lambda>ret.
           and_then (buf_put (dq_head q) (dq_zero q) q) (\<lambda>q1.
           Inr (ret, shrinkIfExcess (q1 \<lparr> dq_head := deque_next q1 (dq_head q1), dq_count := dq_count q1 - 1 \<rparr>)))))"

definition PopBack :: "'a deque \<Rightarrow> go_panic + 'a \<times> 'a deque" where
  "PopBack q =
     (if dq_count q \<le> 0 then Inl (Go_Panic ''deque: PopBack() called on empty queue'')
      else let q1 = q \<lparr> dq_tail := deque_prev q (dq_tail q) \<rparr>
           in and_then (buf_get (dq_tail q1) q1) (\<lambda>ret.
              and_then (buf_put (dq_tail q1) (dq_zero q1) q1) (\<lambda>q2.
              Inr (ret, shrinkIfExcess (q2 \<lparr> dq_count := dq_count q2 - 1 \<rparr>)))))"

definition Front :: "'a deque \<Rightarrow> go_panic + 'a" where
  "Front q = (if dq_count q \<le> 0 then Inl (Go_Panic ''deque: Front() called when empty'') else buf_get (dq_head q) q)"

definition Back :: "'a deque \<Rightarrow> go_panic + 'a" where
  "Back q = (if dq_count q \<le> 0 then Inl (Go_Panic ''deque: Back() called when empty'') else buf_get (deque_prev q (dq_tail q)) q)"

subsection \<open>Inside the deque\<close>

definition deque_slot :: "'a deque \<Rightarrow> int \<Rightarrow> int" where
  "deque_slot q i = (dq_head q + i) AND modBits q"

definition deque_At :: "int \<Rightarrow> 'a deque \<Rightarrow> go_panic + 'a" where
  "deque_At i q =
     (if i < 0 \<or> dq_count q \<le> i then Inl (Go_Panic ''deque: At() called with index out of range'') else buf_get (deque_slot q i) q)"

definition deque_Set :: "int \<Rightarrow> 'a \<Rightarrow> 'a deque \<Rightarrow> go_panic + 'a deque" where
  "deque_Set i elem q =
     (if i < 0 \<or> dq_count q \<le> i then Inl (Go_Panic ''deque: Set() called with index out of range'') else buf_put (deque_slot q i) elem q)"

text \<open>The loop of \<open>Clear\<close> from position \<open>h\<close>; \<open>None\<close> is a loop that does not end.\<close>

partial_function (option) clear_loop :: "int \<Rightarrow> 'a deque \<Rightarrow> (go_panic + 'a deque) option" where
  [code]: "clear_loop h q =
     (if h = dq_tail q then Some (Inr q)
      else (case buf_put h (dq_zero q) q of Inl e \<Rightarrow> Some (Inl e) | Inr q1 \<Rightarrow> clear_loop ((h + 1) AND modBits q) q1))"

definition deque_Clear :: "'a deque \<Rightarrow> (go_panic + 'a deque) option" where
  "deque_Clear q =
     map_option (\<lambda>r. and_then r (\<lambda>q1. Inr (q1 \<lparr> dq_head := 0, dq_tail := 0, dq_count := 0 \<rparr>))) (clear_loop (dq_head q) q)"

definition rotate_back_step :: "'a deque \<Rightarrow> go_panic + 'a deque" where
  "rotate_back_step q =
     (let q1 = q \<lparr> dq_head := (dq_head q - 1) AND modBits q, dq_tail := (dq_tail q - 1) AND modBits q \<rparr>
      in and_then (buf_get (dq_tail q1) q1) (\<lambda>x. and_then (buf_put (dq_head q1) x q1) (\<lambda>q2. buf_put (dq_tail q2) (dq_zero q2) q2)))"

definition rotate_front_step :: "'a deque \<Rightarrow> go_panic + 'a deque" where
  "rotate_front_step q =
     and_then (buf_get (dq_head q) q) (\<lambda>x. and_then (buf_put (dq_tail q) x q) (\<lambda>q1. and_then (buf_put (dq_head q1) (dq_zero q1) q1) (\<lambda>q2.
       Inr (q2 \<lparr> dq_head := (dq_head q2 + 1) AND modBits q2, dq_tail := (dq_tail q2 + 1) AND modBits q2 \<rparr>))))"

primrec repeat_step :: "nat \<Rightarrow> ('s \<Rightarrow> go_panic + 's) \<Rightarrow> 's \<Rightarrow> go_panic + 's" where
  "repeat_step 0 f s = Inr s"
| "repeat_step (Suc n) f s = and_then (f s) (repeat_step n f)"

definition deque_Rotate :: "int \<Rightarrow> 'a deque \<Rightarrow> go_panic + 'a deque" where
  "deque_Rotate n0 q =
     (if deque_Len (Some q) \<le> 1 then Inr q
      else let n = go_mod n0 (dq_count q)
           in if n = 0 then Inr q
              else if dq_head q = dq_tail q
                   then let h = (dq_head q + n) AND modBits q in Inr (q \<lparr> dq_head := h, dq_tail := h \<rparr>)
              else if n < 0 then repeat_step (nat (- n)) rotate_back_step q
              else repeat_step (nat n) rotate_front_step q)"

text \<open>The searches: \<open>n\<close> iterations are left.\<close>

primrec index_loop :: "nat \<Rightarrow> int \<Rightarrow> ('a \<Rightarrow> bool) \<Rightarrow> 'a deque \<Rightarrow> go_panic + int" where
  "index_loop 0 i f q = Inr (-1)"
| "index_loop (Suc n) i f q = and_then (buf_get (deque_slot q i) q) (\<lambda>x. if f x then Inr i else index_loop n (i + 1) f q)"

primrec rindex_loop :: "nat \<Rightarrow> ('a \<Rightarrow> bool) \<Rightarrow> 'a deque \<Rightarrow> go_panic + int" where
  "rindex_loop 0 f q = Inr (-1)"
| "rindex_loop (Suc n) f q = and_then (buf_get (deque_slot q (int n)) q) (\<lambda>x. if f x then Inr (int n) else rindex_loop n f q)"

definition deque_Index :: "('a \<Rightarrow> bool) \<Rightarrow> 'a deque \<Rightarrow> go_panic + int" where
  "deque_Index f q = (if 0 < deque_Len (Some q) then index_loop (nat (dq_count q)) 0 f q else Inr (-1))"

definition deque_RIndex :: "('a \<Rightarrow> bool) \<Rightarrow> 'a deque \<Rightarrow> go_panic + int" where
  "deque_RIndex f q = (if 0 < deque_Len (Some q) then rindex_loop (nat (dq_count q)) f q else Inr (-1))"

definition swap_slots :: "int \<Rightarrow> int \<Rightarrow> 'a deque \<Rightarrow> go_panic + 'a deque" where
  "swap_slots i j q = and_then (buf_get i q) (\<lambda>a. and_then (buf_get j q) (\<lambda>b. and_then (buf_put i b q) (buf_put j a)))"

text \<open>Moving the value at a position by \<open>n\<close> swaps with the next or the previous one.\<close>

primrec swap_forward :: "nat \<Rightarrow> int \<Rightarrow> 'a deque \<Rightarrow> go_panic + 'a deque" where
  "swap_forward 0 p q = Inr q"
| "swap_forward (Suc n) p q = and_then (swap_slots p (deque_next q p) q) (\<lambda>q1. swap_forward n (deque_next q p) q1)"

primrec swap_backward :: "nat \<Rightarrow> int \<Rightarrow> 'a deque \<Rightarrow> go_panic + 'a deque" where
  "swap_backward 0 p q = Inr q"
| "swap_backward (Suc n) p q = and_then (swap_slots p (deque_prev q p) q) (\<lambda>q1. swap_backward n (deque_prev q p) q1)"

definition deque_Insert :: "int \<Rightarrow> 'a \<Rightarrow> 'a deque \<Rightarrow> go_panic + 'a deque" where
  "deque_Insert at item q =
     (if at < 0 \<or> dq_count q < at then Inl (Go_Panic ''deque: Insert() called with index out of range'')
      else if at * 2 < dq_count q
           then and_then (PushFront item q) (\<lambda>q1. swap_forward (nat at) (dq_head q1) q1)
      else let swaps = dq_count q - at
           in and_then (PushBack item q) (\<lambda>q1. swap_backward (nat swaps) (deque_prev q1 (dq_tail q1)) q1))"

definition deque_Remove :: "int \<Rightarrow> 'a deque \<Rightarrow> go_panic + 'a \<times> 'a deque" where
  "deque_Remove at q =
     (if at < 0 \<or> deque_Len (Some q) \<le> at then Inl (Go_Panic ''deque: Remove() called with index out of range'')
      else if at * 2 < dq_count q
           then and_then (swap_backward (nat at) (deque_slot q at) q) PopFront
      else and_then (swap_forward (nat (dq_count q - at - 1)) (deque_slot q at) q) PopBack)"

text \<open>\<open>1 << e\<close> on a 64-bit \<open>int\<close>.\<close>

definition SetMinCapacity :: "nat \<Rightarrow> 'a deque \<Rightarrow> 'a deque" where
  "SetMinCapacity e q =
     (let c = sint (push_bit e (1 :: 64 word))
      in q \<lparr> dq_minCap := (if deque_minCapacity < c then c else deque_minCapacity) \<rparr>)"

subsection \<open>The abstract deque and sequences of calls\<close>

definition elems :: "'a deque \<Rightarrow> 'a list" where
  "elems q = ring_list (dq_buf q) (nat (dq_head q)) (nat (dq_count q))"

definition deque_ring :: "'a deque \<Rightarrow> nat \<Rightarrow> bool" where
  "deque_ring q k \<longleftrightarrow>
     int (length (dq_buf q)) = 2 ^ k \<and> 0 \<le> dq_head q \<and> dq_head q < 2 ^ k \<and> 0 \<le> dq_count q \<and> dq_count q \<le> 2 ^ k
     \<and> dq_tail q = (dq_head q + dq_count q) mod 2 ^ k"

definition min_ok :: "'a deque \<Rightarrow> bool" where
  "min_ok q \<longleftrightarrow> (dq_minCap q = 0 \<and> dq_buf q = []) \<or> (is_pow2 (dq_minCap q) \<and> 16 \<le> dq_minCap q)"

definition deque_ok :: "'a deque \<Rightarrow> bool" where
  "deque_ok q \<longleftrightarrow>
     min_ok q \<and> (if dq_buf q = [] then dq_head q = 0 \<and> dq_tail q = 0 \<and> dq_count q = 0 else \<exists>k. deque_ring q k)"

datatype 'a deque_op =
  D_PushBack 'a | D_PushFront 'a | D_PopFront | D_PopBack | D_At int | D_Set int 'a | D_Clear | D_Rotate int
  | D_Insert int 'a | D_Remove int | D_SetMin nat

text \<open>A call on the deque: the value it returns, if any, and the deque after it; \<open>None\<close> is a panic or a loop that does not end.\<close>

definition ok_value :: "(go_panic + 'a \<times> 'a deque) \<Rightarrow> ('a option \<times> 'a deque) option" where
  "ok_value r = (case r of Inl e \<Rightarrow> None | Inr (x, q) \<Rightarrow> Some (Some x, q))"

definition ok_deque :: "(go_panic + 'a deque) \<Rightarrow> ('a option \<times> 'a deque) option" where
  "ok_deque r = (case r of Inl e \<Rightarrow> None | Inr q \<Rightarrow> Some (None, q))"

definition deque_do :: "'a deque_op \<Rightarrow> 'a deque \<Rightarrow> ('a option \<times> 'a deque) option" where
  "deque_do c q =
     (case c of
        D_PushBack x \<Rightarrow> ok_deque (PushBack x q)
      | D_PushFront x \<Rightarrow> ok_deque (PushFront x q)
      | D_PopFront \<Rightarrow> ok_value (PopFront q)
      | D_PopBack \<Rightarrow> ok_value (PopBack q)
      | D_At i \<Rightarrow> ok_value (and_then (deque_At i q) (\<lambda>x. Inr (x, q)))
      | D_Set i x \<Rightarrow> ok_deque (deque_Set i x q)
      | D_Clear \<Rightarrow> Option.bind (deque_Clear q) ok_deque
      | D_Rotate n \<Rightarrow> ok_deque (deque_Rotate n q)
      | D_Insert i x \<Rightarrow> ok_deque (deque_Insert i x q)
      | D_Remove i \<Rightarrow> ok_value (deque_Remove i q)
      | D_SetMin e \<Rightarrow> Some (None, SetMinCapacity e q))"

text \<open>The same call on a list.\<close>

definition list_do :: "'a deque_op \<Rightarrow> 'a list \<Rightarrow> ('a option \<times> 'a list) option" where
  "list_do c xs =
     (case c of
        D_PushBack x \<Rightarrow> Some (None, xs @ [x])
      | D_PushFront x \<Rightarrow> Some (None, x # xs)
      | D_PopFront \<Rightarrow> (if xs = [] then None else Some (Some (hd xs), tl xs))
      | D_PopBack \<Rightarrow> (if xs = [] then None else Some (Some (last xs), butlast xs))
      | D_At i \<Rightarrow> (if 0 \<le> i \<and> i < int (length xs) then Some (Some (xs ! nat i), xs) else None)
      | D_Set i x \<Rightarrow> (if 0 \<le> i \<and> i < int (length xs) then Some (None, xs[nat i := x]) else None)
      | D_Clear \<Rightarrow> Some (None, [])
      | D_Rotate n \<Rightarrow> Some (None, rotate (nat (n mod int (length xs))) xs)
      | D_Insert i x \<Rightarrow> (if 0 \<le> i \<and> i \<le> int (length xs) then Some (None, take (nat i) xs @ x # drop (nat i) xs) else None)
      | D_Remove i \<Rightarrow>
          (if 0 \<le> i \<and> i < int (length xs) then Some (Some (xs ! nat i), take (nat i) xs @ drop (Suc (nat i)) xs) else None)
      | D_SetMin e \<Rightarrow> Some (None, xs))"

primrec do_all :: "('c \<Rightarrow> 's \<Rightarrow> ('r \<times> 's) option) \<Rightarrow> 'c list \<Rightarrow> 's \<Rightarrow> ('r list \<times> 's) option" where
  "do_all f [] s = Some ([], s)"
| "do_all f (c # cs) s = (case f c s of None \<Rightarrow> None | Some (r, s1) \<Rightarrow> map_option (\<lambda>(rs, s2). (r # rs, s2)) (do_all f cs s1))"

section \<open>Lemmas\<close>

subsection \<open>The ring\<close>

lemma ring_nats:
  assumes "deque_ring q k"
  obtains h c where "dq_head q = int h" "dq_count q = int c" "h < 2 ^ k" "c \<le> 2 ^ k" "dq_tail q = int ((h + c) mod 2 ^ k)"
    "elems q = ring_list (dq_buf q) h c" "length (dq_buf q) = 2 ^ k"
proof
  let ?h = "nat (dq_head q)" and ?c = "nat (dq_count q)"
  have hc: "dq_head q = int ?h" "dq_count q = int ?c" using assms by (simp_all add: deque_ring_def)
  show "dq_head q = int ?h" "dq_count q = int ?c" by (fact hc)+
  show "?h < 2 ^ k" "?c \<le> 2 ^ k" using assms by (simp_all add: deque_ring_def nat_less_iff nat_le_iff)
  show "dq_tail q = int ((?h + ?c) mod 2 ^ k)" using assms hc by (simp add: deque_ring_def zmod_int)
  show "elems q = ring_list (dq_buf q) ?h ?c" by (simp add: elems_def)
  have "int (length (dq_buf q)) = int (2 ^ k)" using assms by (simp add: deque_ring_def)
  then show "length (dq_buf q) = 2 ^ k" by (simp only: of_nat_eq_iff)
qed

lemma ring_mask: "deque_ring q k \<Longrightarrow> x AND modBits q = x mod 2 ^ k"
  by (simp add: modBits_def deque_ring_def int_and_pow2_mask)

lemma ring_slot: "deque_ring q k \<Longrightarrow> deque_slot q i = (dq_head q + i) mod 2 ^ k"
  by (simp add: deque_slot_def ring_mask)

lemma ring_next: "deque_ring q k \<Longrightarrow> deque_next q (deque_slot q i) = deque_slot q (i + 1)"
  by (simp add: deque_next_def ring_mask ring_slot mod_simps add.assoc)

lemma ring_prev: "deque_ring q k \<Longrightarrow> deque_prev q (deque_slot q i) = deque_slot q (i - 1)"
  by (simp add: deque_prev_def ring_mask ring_slot mod_simps algebra_simps)

lemma ring_head: "deque_ring q k \<Longrightarrow> dq_head q = deque_slot q 0"
  by (simp add: ring_slot) (simp add: deque_ring_def)

lemma ring_tail: "deque_ring q k \<Longrightarrow> dq_tail q = deque_slot q (dq_count q)"
  by (simp add: ring_slot) (simp add: deque_ring_def)

lemma length_elems: "deque_ring q k \<Longrightarrow> int (length (elems q)) = dq_count q"
  by (simp add: elems_def deque_ring_def)

lemma slot_nat:
  assumes "deque_ring q k" "0 \<le> i"
  shows "deque_slot q i = int ((nat (dq_head q) + nat i) mod length (dq_buf q))"
proof -
  have "length (dq_buf q) = 2 ^ k" using assms(1) by (auto elim: ring_nats)
  moreover have "0 \<le> dq_head q" using assms(1) by (simp add: deque_ring_def)
  ultimately show ?thesis using assms by (simp add: ring_slot zmod_int)
qed

lemma slot_range: "deque_ring q k \<Longrightarrow> 0 \<le> deque_slot q i \<and> deque_slot q i < int (length (dq_buf q))"
  by (simp add: ring_slot) (simp add: deque_ring_def)

lemma get_slot:
  assumes "deque_ring q k" "0 \<le> i" "i < dq_count q"
  shows "buf_get (deque_slot q i) q = Inr (elems q ! nat i)"
  using slot_range [OF assms(1), of i] slot_nat [OF assms(1,2)] assms(2,3) by (simp add: buf_get_def elems_def nat_less_iff)

text \<open>Writing a slot keeps the ring; inside the deque it is an update of the list.\<close>

lemma put_slot_ring:
  "deque_ring q k \<Longrightarrow> buf_put (deque_slot q i) x q = Inr (q \<lparr> dq_buf := (dq_buf q)[nat (deque_slot q i) := x] \<rparr>)
     \<and> deque_ring (q \<lparr> dq_buf := (dq_buf q)[nat (deque_slot q i) := x] \<rparr>) k"
  using slot_range [of q k i] by (simp add: buf_put_def) (simp add: deque_ring_def)

lemma put_slot_elems:
  assumes "deque_ring q k" "0 \<le> i" "i < dq_count q"
  shows "elems (q \<lparr> dq_buf := (dq_buf q)[nat (deque_slot q i) := x] \<rparr>) = (elems q)[nat i := x]"
proof -
  have "nat (dq_count q) \<le> length (dq_buf q)" using assms(1) by (auto simp: deque_ring_def)
  then show ?thesis
    using assms slot_nat [OF assms(1,2)] ring_list_update_inside [of "nat i" "nat (dq_count q)" "dq_buf q" "nat (dq_head q)" x]
    by (simp add: elems_def nat_less_iff)
qed

lemma put_outside_elems:
  assumes "deque_ring q k" "dq_count q \<le> i" "i < 2 ^ k"
  shows "elems (q \<lparr> dq_buf := (dq_buf q)[nat (deque_slot q i) := x] \<rparr>) = elems q"
proof -
  have "length (dq_buf q) = 2 ^ k" "0 \<le> i" using assms by (auto simp: deque_ring_def elim: ring_nats)
  then show ?thesis
    using assms slot_nat [OF assms(1)] ring_list_update_outside [of "nat (dq_count q)" "nat i" "dq_buf q" "nat (dq_head q)" x]
    by (simp add: elems_def nat_less_iff nat_le_iff)
qed

lemma put_same_fields [simp]:
  "modBits (q \<lparr> dq_buf := (dq_buf q)[j := x] \<rparr>) = modBits q" "deque_slot (q \<lparr> dq_buf := (dq_buf q)[j := x] \<rparr>) i = deque_slot q i"
  "deque_next (q \<lparr> dq_buf := (dq_buf q)[j := x] \<rparr>) i = deque_next q i" "deque_prev (q \<lparr> dq_buf := (dq_buf q)[j := x] \<rparr>) i = deque_prev q i"
  by (simp_all add: modBits_def deque_slot_def deque_next_def deque_prev_def)

subsection \<open>Resizing\<close>

lemma go_copy_replicate: "length src \<le> n \<Longrightarrow> go_copy (replicate n z) src = src @ replicate (n - length src) z"
  by (simp add: go_copy_def)

lemma resize_ring:
  assumes r: "deque_ring q k" and c: "0 < dq_count q" and k': "2 * dq_count q = 2 ^ k'"
  shows "deque_ring (deque_resize q) k' \<and> elems (deque_resize q) = elems q \<and> dq_count (deque_resize q) = dq_count q"
proof -
  obtain h c where n: "dq_head q = int h" "dq_count q = int c" "h < 2 ^ k" "c \<le> 2 ^ k" "dq_tail q = int ((h + c) mod 2 ^ k)"
    "elems q = ring_list (dq_buf q) h c" "length (dq_buf q) = 2 ^ k"
    using ring_nats [OF r] .
  have "elems q = take c (drop h (dq_buf q) @ take h (dq_buf q))"
    using ring_list_whole [of h "dq_buf q"] ring_list_take [of c "length (dq_buf q)" "dq_buf q" h] n by simp
  moreover have "dq_buf (deque_resize q) = take c (drop h (dq_buf q) @ take h (dq_buf q)) @ replicate c (dq_zero q)"
  proof (cases "h + c < 2 ^ k")
    case True
    then show ?thesis using n assms(2) by (simp add: deque_resize_def Let_def go_copy_def make_slice_def push_bit_eq_mult nat_mult_distrib nat_int_add)
  next
    case False
    define src where "src = drop h (dq_buf q)"
    define t where "t = h + c - 2 ^ k"
    have "(h + c) mod 2 ^ k = t" unfolding t_def using n False by (simp add: le_mod_geq)
    then have tl: "dq_tail q = int t" using n(5) by simp
    have m: "length src + t = c" "t \<le> h" "t \<le> length (dq_buf q)" using n False by (auto simp: src_def t_def)
    have "\<not> dq_head q < dq_tail q" using tl n(1) m(2) by simp
    moreover have "make_slice (dq_zero q) (push_bit 1 (dq_count q)) = replicate (2 * c) (dq_zero q)"
      using n(2) by (simp add: make_slice_def push_bit_eq_mult nat_mult_distrib mult.commute)
    moreover have "go_copy (replicate (2 * c) (dq_zero q)) src = src @ replicate (2 * c - length src) (dq_zero q)"
      by (rule go_copy_replicate) (use m(1) in linarith)
    moreover have "min (2 * c) (length src) = length src" using m(1) by simp
    moreover have "go_copy (replicate (2 * c - length src) (dq_zero q)) (take t (dq_buf q)) = take t (dq_buf q) @ replicate c (dq_zero q)"
      using m by (subst go_copy_replicate) (auto intro: arg_cong [where f = "\<lambda>n. replicate n (dq_zero q)"])
    ultimately have "dq_buf (deque_resize q) = src @ take t (dq_buf q) @ replicate c (dq_zero q)"
      using n(1) tl by (simp add: deque_resize_def src_def [symmetric])
    moreover have "take c (src @ take h (dq_buf q)) = src @ take t (dq_buf q)" unfolding m(1) [symmetric] using m(2) by simp
    ultimately show ?thesis by (simp add: src_def)
  qed
  ultimately have b: "dq_buf (deque_resize q) = elems q @ replicate c (dq_zero q)" by simp
  have f: "dq_head (deque_resize q) = 0" "dq_tail (deque_resize q) = int c" "dq_count (deque_resize q) = int c"
    using n by (simp_all add: deque_resize_def Let_def)
  have l: "length (elems q) = c" using n by simp
  have "ring_list (dq_buf (deque_resize q)) 0 c = elems q"
    using b l ring_list_whole [of 0 "dq_buf (deque_resize q)"] ring_list_take [of c "length (dq_buf (deque_resize q))" "dq_buf (deque_resize q)" 0]
    by simp
  moreover have "int (length (dq_buf (deque_resize q))) = 2 ^ k'" using b l k' n(2) by simp
  moreover have "int c < 2 ^ k'" using k' c n(2) by linarith
  ultimately show ?thesis using f n(2) by (simp add: deque_ring_def elems_def)
qed

lemma resize_fields [simp]: "dq_minCap (deque_resize q) = dq_minCap q" "dq_zero (deque_resize q) = dq_zero q"
  by (simp_all add: deque_resize_def Let_def)

lemma ring_buf: "deque_ring q k \<Longrightarrow> dq_buf q \<noteq> []"
  by (auto simp: deque_ring_def)

lemma ok_ringI: "deque_ring q k \<Longrightarrow> is_pow2 (dq_minCap q) \<Longrightarrow> 16 \<le> dq_minCap q \<Longrightarrow> deque_ok q"
  by (auto simp: deque_ok_def min_ok_def dest: ring_buf)

lemma ok_Nil: "deque_ok q \<Longrightarrow> dq_count q = 0 \<Longrightarrow> elems q = []"
  by (simp add: elems_def)

lemma ok_ring:
  assumes "deque_ok q" "dq_count q \<noteq> 0"
  obtains k where "deque_ring q k" "is_pow2 (dq_minCap q)" "16 \<le> dq_minCap q"
  using assms by (auto simp: deque_ok_def min_ok_def split: if_splits)

lemma ok_count: "deque_ok q \<Longrightarrow> int (length (elems q)) = dq_count q"
  by (cases "dq_buf q = []") (auto simp: deque_ok_def elems_def deque_ring_def)

text \<open>After \<open>growIfFull\<close> there is room.\<close>

lemma grow_room:
  assumes "deque_ok q"
  obtains k where "deque_ring (growIfFull q) k" "dq_count (growIfFull q) < 2 ^ k" "elems (growIfFull q) = elems q" "dq_count (growIfFull q) = dq_count q"
    "is_pow2 (dq_minCap (growIfFull q))" "16 \<le> dq_minCap (growIfFull q)"
proof (cases "dq_buf q = []")
  case True
  then have q: "dq_head q = 0" "dq_tail q = 0" "dq_count q = 0" "dq_minCap q = 0 \<or> is_pow2 (dq_minCap q) \<and> 16 \<le> dq_minCap q"
    using assms by (auto simp: deque_ok_def min_ok_def)
  let ?m = "if dq_minCap q = 0 then 16 else dq_minCap q"
  have g: "growIfFull q = q \<lparr> dq_minCap := ?m, dq_buf := make_slice (dq_zero q) ?m \<rparr>"
    using True q by (cases "dq_minCap q = 0") (simp_all add: growIfFull_def Let_def deque_minCapacity_def)
  have "is_pow2 16" unfolding is_pow2_def by (rule exI [of _ 4]) simp
  then have m: "is_pow2 ?m" "16 \<le> ?m" using q by auto
  then obtain k where k: "?m = 2 ^ k" by (auto simp: is_pow2_def)
  have "deque_ring (growIfFull q) k" unfolding g k using q by (simp add: deque_ring_def make_slice_def)
  with that [of k] show thesis using g q m k by (simp add: elems_def)
next
  case False
  then obtain k where k: "deque_ring q k" "is_pow2 (dq_minCap q)" "16 \<le> dq_minCap q" using assms by (auto simp: deque_ok_def min_ok_def)
  show thesis
  proof (cases "dq_count q = int (length (dq_buf q))")
    case True
    then have c: "2 * dq_count q = 2 ^ Suc k" "0 < dq_count q" using k(1) by (simp_all add: deque_ring_def)
    have g: "growIfFull q = deque_resize q" using True False by (simp add: growIfFull_def)
    show thesis using that [of "Suc k"] resize_ring [OF k(1) c(2,1)] k(2,3) c unfolding g by simp
  next
    case c: False
    then have "growIfFull q = q" by (simp add: growIfFull_def)
    moreover have "dq_count q < 2 ^ k" using c k(1) by (auto simp: deque_ring_def)
    ultimately show thesis using that [of k] k by simp
  qed
qed

lemma shrink_keeps:
  assumes r: "deque_ring q k" and m: "is_pow2 (dq_minCap q)" "16 \<le> dq_minCap q"
  shows "deque_ok (shrinkIfExcess q) \<and> elems (shrinkIfExcess q) = elems q"
proof (cases "dq_minCap q < int (length (dq_buf q)) \<and> push_bit 2 (dq_count q) = int (length (dq_buf q))")
  case True
  then have c: "4 * dq_count q = 2 ^ k" "16 < (2 :: int) ^ k" using r m by (auto simp: deque_ring_def push_bit_eq_mult)
  then obtain k' where "k = Suc k'" by (cases k) auto
  with c have "2 * dq_count q = 2 ^ k'" "0 < dq_count q" by auto
  from resize_ring [OF r this(2,1)] show ?thesis using True m by (auto simp: shrinkIfExcess_def intro: ok_ringI)
next
  case False
  then show ?thesis using r m by (auto simp: shrinkIfExcess_def intro: ok_ringI)
qed

subsection \<open>The operations\<close>

text \<open>A call on the deque that ends well represents the list \<open>ys\<close> after it.\<close>

definition becomes :: "go_panic + 'a deque \<Rightarrow> 'a list \<Rightarrow> bool" where
  "becomes r ys \<longleftrightarrow> (\<exists>q. r = Inr q \<and> deque_ok q \<and> elems q = ys)"

definition yields :: "go_panic + 'a \<times> 'a deque \<Rightarrow> 'a \<Rightarrow> 'a list \<Rightarrow> bool" where
  "yields r x ys \<longleftrightarrow> (\<exists>q. r = Inr (x, q) \<and> deque_ok q \<and> elems q = ys)"

text \<open>One more value at the back or at the front of a ring with room.\<close>

lemma extend_back:
  fixes x :: 'a
  assumes r: "deque_ring q k" and c: "dq_count q < 2 ^ k"
  defines "q1 \<equiv> q \<lparr> dq_buf := (dq_buf q)[nat (dq_tail q) := x], dq_tail := deque_next q (dq_tail q), dq_count := dq_count q + 1 \<rparr>"
  shows "buf_put (dq_tail q) x q = Inr (q \<lparr> dq_buf := (dq_buf q)[nat (dq_tail q) := x] \<rparr>)" "deque_ring q1 k" "elems q1 = elems q @ [x]"
proof -
  obtain h c where n: "dq_head q = int h" "dq_count q = int c" "h < 2 ^ k" "c \<le> 2 ^ k" "dq_tail q = int ((h + c) mod 2 ^ k)"
    "elems q = ring_list (dq_buf q) h c" "length (dq_buf q) = 2 ^ k"
    using ring_nats [OF r] .
  show "buf_put (dq_tail q) x q = Inr (q \<lparr> dq_buf := (dq_buf q)[nat (dq_tail q) := x] \<rparr>)" using n by (simp add: buf_put_def)
  have "deque_next q (dq_tail q) = (dq_head q + (dq_count q + 1)) mod 2 ^ k"
    using ring_tail [OF r] ring_next [OF r, of "dq_count q"] ring_slot [OF r] by simp
  then show "deque_ring q1 k" using r c by (simp add: q1_def deque_ring_def)
  have "nat (1 + int c) = Suc c" by simp
  then show "elems q1 = elems q @ [x]"
    using n c ring_list_snoc_update [of c "dq_buf q" h x] by (simp add: q1_def elems_def add.commute)
qed

lemma PushBack_refines:
  assumes "deque_ok q"
  shows "becomes (PushBack x q) (elems q @ [x])"
proof -
  let ?g = "growIfFull q"
  obtain k where k: "deque_ring ?g k" "dq_count ?g < 2 ^ k" "elems ?g = elems q" "is_pow2 (dq_minCap ?g)" "16 \<le> dq_minCap ?g"
    using grow_room [OF assms] .
  note e = extend_back [OF k(1,2), where x = x]
  show ?thesis using e k(3,4,5) by (auto simp: becomes_def PushBack_def Let_def intro!: ok_ringI)
qed

lemma extend_front:
  fixes x :: 'a
  assumes r: "deque_ring q k" and c: "dq_count q < 2 ^ k"
  defines "q1 \<equiv> q \<lparr> dq_head := deque_prev q (dq_head q), dq_buf := (dq_buf q)[nat (deque_prev q (dq_head q)) := x], dq_count := dq_count q + 1 \<rparr>"
  shows "0 \<le> deque_prev q (dq_head q) \<and> deque_prev q (dq_head q) < int (length (dq_buf q))" "deque_ring q1 k" "elems q1 = x # elems q"
proof -
  obtain h c where n: "dq_head q = int h" "dq_count q = int c" "h < 2 ^ k" "c \<le> 2 ^ k" "dq_tail q = int ((h + c) mod 2 ^ k)"
    "elems q = ring_list (dq_buf q) h c" "length (dq_buf q) = 2 ^ k"
    using ring_nats [OF r] .
  let ?N = "2 ^ k :: nat"
  let ?p = "(h + (?N - 1)) mod ?N"
  have N: "1 \<le> ?N" by simp
  have p: "deque_prev q (dq_head q) = int ?p"
  proof -
    have i: "int (?N - 1) = 2 ^ k - 1" using of_nat_diff [OF N, where 'a = int] by simp
    have "(int h - 1) mod 2 ^ k = (int h - 1 + 2 ^ k) mod 2 ^ k" by simp
    also have "int h - 1 + 2 ^ k = int (h + (?N - 1))" using i by (simp only: of_nat_add)
    finally show ?thesis using n by (simp add: deque_prev_def ring_mask [OF r] zmod_int)
  qed
  then show "0 \<le> deque_prev q (dq_head q) \<and> deque_prev q (dq_head q) < int (length (dq_buf q))" using n(7) by simp
  have "deque_prev q (dq_head q) = (dq_head q - 1) mod 2 ^ k" by (simp add: deque_prev_def ring_mask [OF r])
  then have "(deque_prev q (dq_head q) + (dq_count q + 1)) mod 2 ^ k = dq_tail q"
    using r by (simp add: deque_ring_def mod_simps)
  then show "deque_ring q1 k" using r c p n(7) by (simp add: q1_def deque_ring_def)
  have s: "Suc ?p mod ?N = h" using n(3) N by (simp add: mod_Suc_eq)
  have "ring_list ((dq_buf q)[?p := x]) (Suc ?p) c = ring_list ((dq_buf q)[?p := x]) h c"
    using ring_list_mod [of "(dq_buf q)[?p := x]" "Suc ?p" c] s n(7) by simp
  also have "\<dots> = elems q" using ring_list_update_outside [of c "?N - 1" "dq_buf q" h x] n c by simp
  finally have "ring_list ((dq_buf q)[?p := x]) ?p (Suc c) = x # elems q" using n(7) by (simp add: ring_list_Suc)
  moreover have "nat (1 + int c) = Suc c" by simp
  ultimately show "elems q1 = x # elems q" using n(2) p by (simp add: q1_def elems_def add.commute)
qed

lemma PushFront_refines:
  assumes "deque_ok q"
  shows "becomes (PushFront x q) (x # elems q)"
proof -
  let ?g = "growIfFull q"
  obtain k where k: "deque_ring ?g k" "dq_count ?g < 2 ^ k" "elems ?g = elems q" "is_pow2 (dq_minCap ?g)" "16 \<le> dq_minCap ?g"
    using grow_room [OF assms] .
  note e = extend_front(1) [OF k(1,2)] extend_front(2,3) [OF k(1,2), where x = x]
  show ?thesis using e k(3,4,5) by (auto simp: becomes_def PushFront_def Let_def buf_put_def intro!: ok_ringI)
qed

text \<open>One value less at an end; the slot is cleared.\<close>

lemma drop_front:
  fixes z :: 'a
  assumes r: "deque_ring q k" and c: "0 < dq_count q"
  defines "q1 \<equiv> q \<lparr> dq_buf := (dq_buf q)[nat (dq_head q) := z], dq_head := deque_next q (dq_head q), dq_count := dq_count q - 1 \<rparr>"
  shows "buf_get (dq_head q) q = Inr (hd (elems q))" "buf_put (dq_head q) z q = Inr (q \<lparr> dq_buf := (dq_buf q)[nat (dq_head q) := z] \<rparr>)"
    "deque_ring q1 k" "elems q1 = tl (elems q)"
proof -
  obtain h c where n: "dq_head q = int h" "dq_count q = int c" "h < 2 ^ k" "c \<le> 2 ^ k" "dq_tail q = int ((h + c) mod 2 ^ k)"
    "elems q = ring_list (dq_buf q) h c" "length (dq_buf q) = 2 ^ k"
    using ring_nats [OF r] .
  have c0: "0 < c" using c n(2) by simp
  then have ne: "elems q \<noteq> []" using n(6) by simp
  show "buf_get (dq_head q) q = Inr (hd (elems q))" using get_slot [OF r, of 0] ring_head [OF r] c ne by (simp add: hd_conv_nth)
  show "buf_put (dq_head q) z q = Inr (q \<lparr> dq_buf := (dq_buf q)[nat (dq_head q) := z] \<rparr>)" using n by (simp add: buf_put_def)
  have nx: "deque_next q (dq_head q) = (dq_head q + 1) mod 2 ^ k" by (simp add: deque_next_def ring_mask [OF r])
  then show "deque_ring q1 k" using r c by (simp add: q1_def deque_ring_def mod_simps)
  have "nat (deque_next q (dq_head q)) = Suc h mod 2 ^ k" unfolding nx unfolding n(1) by (simp add: nat_mod_distrib nat_add_distrib nat_power_eq)
  moreover have "nat (dq_count q - 1) = c - 1" using n(2) by simp
  moreover have "ring_list ((dq_buf q)[h := z]) (Suc h mod 2 ^ k) (c - 1) = tl (elems q)"
    using ring_list_clear_head [of c "dq_buf q" h z] ring_list_mod [of "(dq_buf q)[h := z]" "Suc h" "c - 1"] n c0 by simp
  ultimately show "elems q1 = tl (elems q)" using n(1) by (simp add: q1_def elems_def)
qed

lemma drop_back:
  fixes z :: 'a
  assumes r: "deque_ring q k" and c: "0 < dq_count q"
  defines "t \<equiv> deque_prev q (dq_tail q)"
  defines "q1 \<equiv> q \<lparr> dq_tail := t, dq_buf := (dq_buf q)[nat t := z], dq_count := dq_count q - 1 \<rparr>"
  shows "buf_get t q = Inr (last (elems q))" "0 \<le> t \<and> t < int (length (dq_buf q))" "deque_ring q1 k" "elems q1 = butlast (elems q)"
proof -
  have t: "t = deque_slot q (dq_count q - 1)" using ring_tail [OF r] ring_prev [OF r] by (simp add: t_def)
  have l: "int (length (elems q)) = dq_count q" by (rule length_elems [OF r])
  then have ne: "elems q \<noteq> []" using c by auto
  have "nat (dq_count q - 1) = length (elems q) - 1" using l by linarith
  then show "buf_get t q = Inr (last (elems q))" using get_slot [OF r, of "dq_count q - 1"] c ne by (simp add: t last_conv_nth)
  show "0 \<le> t \<and> t < int (length (dq_buf q))" unfolding t by (rule slot_range [OF r])
  have s: "deque_slot q (dq_count q - 1) = (dq_head q + (dq_count q - 1)) mod 2 ^ k" by (rule ring_slot [OF r])
  let ?q0 = "q \<lparr> dq_tail := t, dq_count := dq_count q - 1 \<rparr>"
  have r0: "deque_ring ?q0 k" using r c by (simp add: deque_ring_def t s)
  have eq: "deque_slot ?q0 (dq_count ?q0) = t" using ring_tail [OF r0] by simp
  have q1: "q1 = ?q0 \<lparr> dq_buf := (dq_buf ?q0)[nat (deque_slot ?q0 (dq_count ?q0)) := z] \<rparr>" unfolding eq by (simp add: q1_def)
  show "deque_ring q1 k" unfolding q1 using put_slot_ring [OF r0] by blast
  have "elems q1 = elems ?q0" unfolding q1 by (rule put_outside_elems [OF r0]) (use r c in \<open>auto simp: deque_ring_def\<close>)
  also have "\<dots> = butlast (elems q)" using r by (simp add: elems_def ring_list_butlast nat_diff_distrib' deque_ring_def)
  finally show "elems q1 = butlast (elems q)" .
qed

lemma PopFront_refines:
  assumes "deque_ok q" "elems q \<noteq> []"
  shows "yields (PopFront q) (hd (elems q)) (tl (elems q))"
proof -
  have c: "0 < dq_count q" using ok_count [OF assms(1)] assms(2) by (metis length_greater_0_conv of_nat_0_less_iff)
  then obtain k where k: "deque_ring q k" "is_pow2 (dq_minCap q)" "16 \<le> dq_minCap q" using ok_ring [OF assms(1)] by auto
  note d = drop_front(1) [OF k(1) c] drop_front(2-4) [OF k(1) c, where z = "dq_zero q"]
  show ?thesis using d(1,2) shrink_keeps [OF d(3)] k(2,3) c d(4) by (simp add: yields_def PopFront_def)
qed

lemma PopBack_refines:
  assumes "deque_ok q" "elems q \<noteq> []"
  shows "yields (PopBack q) (last (elems q)) (butlast (elems q))"
proof -
  have c: "0 < dq_count q" using ok_count [OF assms(1)] assms(2) by (metis length_greater_0_conv of_nat_0_less_iff)
  then obtain k where k: "deque_ring q k" "is_pow2 (dq_minCap q)" "16 \<le> dq_minCap q" using ok_ring [OF assms(1)] by auto
  note d = drop_back(1,2) [OF k(1) c] drop_back(3,4) [OF k(1) c, where z = "dq_zero q"]
  let ?t = "deque_prev q (dq_tail q)"
  have "buf_get ?t (q \<lparr> dq_tail := ?t \<rparr>) = Inr (last (elems q))" using d(1,2) by (simp add: buf_get_def)
  moreover have "buf_put ?t (dq_zero q) (q \<lparr> dq_tail := ?t \<rparr>) = Inr (q \<lparr> dq_tail := ?t, dq_buf := (dq_buf q)[nat ?t := dq_zero q] \<rparr>)"
    using d(2) by (simp add: buf_put_def)
  ultimately show ?thesis using shrink_keeps [OF d(3)] k(2,3) c d(4) by (simp add: yields_def PopBack_def Let_def)
qed

lemma Front_Back:
  assumes "deque_ok q" "elems q \<noteq> []"
  shows "Front q = Inr (hd (elems q)) \<and> Back q = Inr (last (elems q))"
proof -
  have c: "0 < dq_count q" using ok_count [OF assms(1)] assms(2) by (metis length_greater_0_conv of_nat_0_less_iff)
  then obtain k where k: "deque_ring q k" using ok_ring [OF assms(1)] by auto
  show ?thesis using drop_front(1) [OF k c] drop_back(1) [OF k c] c by (simp add: Front_def Back_def)
qed

lemma empty_panics:
  assumes "deque_ok q" "elems q = []"
  shows "\<exists>e. PopFront q = Inl e" "\<exists>e. PopBack q = Inl e" "\<exists>e. Front q = Inl e" "\<exists>e. Back q = Inl e"
  using ok_count [OF assms(1)] assms(2) by (simp_all add: PopFront_def PopBack_def Front_def Back_def)

lemma inside_ring:
  assumes "deque_ok q" "0 \<le> i" "i < dq_count q"
  obtains k where "deque_ring q k" "is_pow2 (dq_minCap q)" "16 \<le> dq_minCap q"
  using ok_ring [OF assms(1)] assms(2,3) by auto

lemma At_refines:
  assumes "deque_ok q" "0 \<le> i" "i < dq_count q"
  shows "deque_At i q = Inr (elems q ! nat i)"
  using inside_ring [OF assms] get_slot [OF _ assms(2,3)] assms(2,3) by (auto simp: deque_At_def)

lemma Set_refines:
  assumes "deque_ok q" "0 \<le> i" "i < dq_count q"
  shows "becomes (deque_Set i x q) ((elems q)[nat i := x])"
proof -
  obtain k where k: "deque_ring q k" "is_pow2 (dq_minCap q)" "16 \<le> dq_minCap q" using inside_ring [OF assms] .
  then show ?thesis using put_slot_ring [OF k(1), of i x] put_slot_elems [OF k(1) assms(2,3), of x] assms(2,3)
    by (auto simp: becomes_def deque_Set_def intro!: ok_ringI)
qed

subsection \<open>Clear\<close>

text \<open>The loop ends after as many steps as there are slots between the position and the tail.\<close>

lemma clear_loop_ends:
  assumes "deque_ring q k" "(dq_head q + dq_count q) mod 2 ^ k = (h + int n) mod 2 ^ k" "0 \<le> h" "h < 2 ^ k" "n < 2 ^ k"
  shows "\<exists>b. clear_loop h q = Some (Inr (q \<lparr> dq_buf := b \<rparr>)) \<and> length b = length (dq_buf q)"
  using assms
proof (induction n arbitrary: h q)
  case 0
  then have "h = dq_tail q" by (simp add: deque_ring_def)
  then show ?case by (subst clear_loop.simps) (auto intro: exI [of _ "dq_buf q"])
next
  case (Suc n)
  let ?q1 = "q \<lparr> dq_buf := (dq_buf q)[nat h := dq_zero q] \<rparr>"
  let ?h1 = "(h + 1) mod 2 ^ k"
  have "dq_tail q = (h + int (Suc n)) mod 2 ^ k" using Suc.prems(1,2) by (simp add: deque_ring_def)
  moreover have "(h + int (Suc n)) mod 2 ^ k \<noteq> h mod 2 ^ k"
  proof
    assume "(h + int (Suc n)) mod 2 ^ k = h mod 2 ^ k"
    then have "(2 :: int) ^ k dvd int (Suc n)" by (metis add_diff_cancel_left' mod_eq_dvd_iff)
    then have "(2 :: nat) ^ k dvd Suc n" by (metis of_nat_dvd_iff of_nat_numeral of_nat_power)
    then show False using Suc.prems(5) by (auto dest: dvd_imp_le)
  qed
  ultimately have ne: "h \<noteq> dq_tail q" using Suc.prems(3,4) by simp
  have put: "buf_put h (dq_zero q) q = Inr ?q1" using Suc.prems(1,3,4) by (simp add: buf_put_def deque_ring_def)
  have r1: "deque_ring ?q1 k" using Suc.prems(1) by (simp add: deque_ring_def)
  have "(dq_head ?q1 + dq_count ?q1) mod 2 ^ k = (?h1 + int n) mod 2 ^ k" using Suc.prems(2) by (simp add: mod_simps algebra_simps)
  from Suc.IH [OF r1 this] Suc.prems(5) obtain b where "clear_loop ?h1 ?q1 = Some (Inr (?q1 \<lparr> dq_buf := b \<rparr>))" "length b = length (dq_buf ?q1)"
    by auto
  then show ?case using ne put by (subst clear_loop.simps) (auto simp: ring_mask [OF Suc.prems(1)])
qed

lemma Clear_refines:
  assumes "deque_ok q"
  obtains r where "deque_Clear q = Some r" "becomes r []"
proof (cases "dq_buf q = []")
  case True
  then have "dq_head q = dq_tail q" using assms by (simp add: deque_ok_def)
  then have "deque_Clear q = Some (Inr (q \<lparr> dq_head := 0, dq_tail := 0, dq_count := 0 \<rparr>))"
    by (simp add: deque_Clear_def clear_loop.simps)
  moreover have "deque_ok (q \<lparr> dq_head := 0, dq_tail := 0, dq_count := 0 \<rparr>)" using assms True by (simp add: deque_ok_def min_ok_def)
  ultimately show thesis using that by (simp add: becomes_def elems_def)
next
  case False
  then obtain k where k: "deque_ring q k" "is_pow2 (dq_minCap q)" "16 \<le> dq_minCap q" using assms by (auto simp: deque_ok_def min_ok_def)
  let ?n = "if dq_count q = 2 ^ k then 0 else nat (dq_count q)"
  have "(dq_head q + dq_count q) mod 2 ^ k = (dq_head q + int ?n) mod 2 ^ k" "?n < 2 ^ k" "0 \<le> dq_head q" "dq_head q < 2 ^ k"
    using k(1) by (auto simp: deque_ring_def nat_less_iff)
  then obtain b where b: "clear_loop (dq_head q) q = Some (Inr (q \<lparr> dq_buf := b \<rparr>))" "length b = length (dq_buf q)"
    using clear_loop_ends [OF k(1), of "dq_head q" ?n] by blast
  let ?q1 = "q \<lparr> dq_buf := b, dq_head := 0, dq_tail := 0, dq_count := 0 \<rparr>"
  have "deque_ring ?q1 k" using k(1) b(2) by (simp add: deque_ring_def)
  then have "deque_ok ?q1" using k(2,3) by (auto intro!: ok_ringI)
  then show thesis using that b(1) by (simp add: deque_Clear_def becomes_def elems_def)
qed

subsection \<open>Rotation\<close>

lemma rotate_front_step_refines:
  assumes r: "deque_ring q k" and c: "0 < dq_count q" "dq_count q < 2 ^ k"
  obtains q1 where "rotate_front_step q = Inr q1" "deque_ring q1 k" "elems q1 = rotate1 (elems q)" "dq_count q1 = dq_count q" "dq_minCap q1 = dq_minCap q"
proof -
  let ?x = "hd (elems q)"
  note e = extend_back [OF r c(2), where x = ?x]
  let ?q1 = "q \<lparr> dq_buf := (dq_buf q)[nat (dq_tail q) := ?x], dq_tail := deque_next q (dq_tail q), dq_count := dq_count q + 1 \<rparr>"
  have "0 < dq_count ?q1" using c by simp
  note d = drop_front(3,4) [OF e(2) this, where z = "dq_zero q"]
  let ?q2 = "?q1 \<lparr> dq_buf := (dq_buf ?q1)[nat (dq_head ?q1) := dq_zero q], dq_head := deque_next ?q1 (dq_head ?q1), dq_count := dq_count ?q1 - 1 \<rparr>"
  have h: "0 \<le> dq_head q \<and> dq_head q < int (length (dq_buf q))" using r by (simp add: deque_ring_def)
  have "rotate_front_step q = Inr ?q2"
    using drop_front(1) [OF r c(1)] e(1) h by (simp add: rotate_front_step_def buf_put_def deque_next_def modBits_def)
  moreover have "elems q \<noteq> []" using length_elems [OF r] c(1) by auto
  then have "elems ?q2 = rotate1 (elems q)" using d(2) e(3) by (cases "elems q") simp_all
  ultimately show thesis using that d(1) by simp
qed

lemma rotate_back_step_refines:
  assumes r: "deque_ring q k" and c: "0 < dq_count q" "dq_count q < 2 ^ k"
  obtains q1 where "rotate_back_step q = Inr q1" "deque_ring q1 k" "elems q1 = last (elems q) # butlast (elems q)" "dq_count q1 = dq_count q"
    "dq_minCap q1 = dq_minCap q"
proof -
  let ?x = "last (elems q)"
  let ?h = "deque_prev q (dq_head q)"
  note e = extend_front(1) [OF r c(2)] extend_front(2,3) [OF r c(2), where x = ?x]
  let ?q1 = "q \<lparr> dq_head := ?h, dq_buf := (dq_buf q)[nat ?h := ?x], dq_count := dq_count q + 1 \<rparr>"
  have "0 < dq_count ?q1" using c by simp
  note d = drop_back(2) [OF e(2) this] drop_back(3,4) [OF e(2) this, where z = "dq_zero q"]
  let ?t = "deque_prev ?q1 (dq_tail ?q1)"
  let ?q2 = "?q1 \<lparr> dq_tail := ?t, dq_buf := (dq_buf ?q1)[nat ?t := dq_zero q], dq_count := dq_count ?q1 - 1 \<rparr>"
  have t: "?t = deque_prev q (dq_tail q)" by (simp add: deque_prev_def modBits_def)
  note g = drop_back(1,2) [OF r c(1)]
  have "rotate_back_step q = Inr ?q2"
    using g e(1) d(1) by (simp add: rotate_back_step_def buf_put_def buf_get_def Let_def deque_prev_def modBits_def)
  moreover have "elems q \<noteq> []" using length_elems [OF r] c(1) by auto
  then have "elems ?q2 = last (elems q) # butlast (elems q)" using d(3) e(3) by simp
  ultimately show thesis using that d(2) by simp
qed

lemma repeat_refines:
  assumes step: "\<And>q. deque_ring q k \<Longrightarrow> dq_count q = c \<Longrightarrow> \<exists>q1. f q = Inr q1 \<and> deque_ring q1 k \<and> elems q1 = g (elems q) \<and> dq_count q1 = c \<and> dq_minCap q1 = dq_minCap q"
    and "deque_ring q k" "dq_count q = c"
  shows "\<exists>q1. repeat_step n f q = Inr q1 \<and> deque_ring q1 k \<and> elems q1 = (g ^^ n) (elems q) \<and> dq_minCap q1 = dq_minCap q"
  using assms(2,3)
proof (induction n arbitrary: q)
  case (Suc n)
  obtain q1 where q1: "f q = Inr q1" "deque_ring q1 k" "elems q1 = g (elems q)" "dq_count q1 = c" "dq_minCap q1 = dq_minCap q"
    using step [OF Suc.prems] by auto
  from Suc.IH [OF q1(2,4)] q1 show ?case by (auto simp: funpow_swap1)
qed simp

lemma rotr_funpow: "m \<le> length xs \<Longrightarrow> xs \<noteq> [] \<Longrightarrow> ((\<lambda>ys. last ys # butlast ys) ^^ m) xs = rotate (length xs - m) xs"
proof (induction m)
  case (Suc m)
  then obtain j where j: "length xs - m = Suc j" by (metis Suc_diff_Suc Suc_le_lessD)
  have "last (rotate1 ys) # butlast (rotate1 ys) = ys" if "ys \<noteq> []" for ys :: "'a list" using that by (cases ys) simp_all
  moreover have "rotate j xs \<noteq> []" using Suc.prems(2) by simp
  moreover have "length xs - Suc m = j" using j by simp
  ultimately show ?case using Suc j by (simp add: rotate_Suc)
qed simp

lemma ring_list_rotate: "b \<noteq> [] \<Longrightarrow> ring_list b (h + m) (length b) = rotate m (ring_list b h (length b))"
  by (rule nth_equalityI) (simp_all add: nth_rotate mod_simps algebra_simps)

lemma go_mod_cases:
  assumes "0 < c"
  shows "go_mod n c mod c = n mod c" "- c < go_mod n c \<and> go_mod n c < c"
proof -
  have "go_mod n c = n + c * (- go_div n c)" by (simp add: go_mod_def)
  then show "go_mod n c mod c = n mod c" by (simp only: mod_mult_self2)
  have "0 \<le> \<bar>n\<bar> mod \<bar>c\<bar>" "\<bar>n\<bar> mod \<bar>c\<bar> < c" using assms by simp_all
  then show "- c < go_mod n c \<and> go_mod n c < c" unfolding go_mod_abs by (auto simp: sgn_if)
qed

lemma not_full: "deque_ring q k \<Longrightarrow> dq_head q \<noteq> dq_tail q \<Longrightarrow> dq_count q < 2 ^ k"
  by (cases "dq_count q = 2 ^ k") (auto simp: deque_ring_def)

text \<open>The three ways of rotating.\<close>

lemma rotate_full:
  assumes r: "deque_ring q k" and c: "0 < dq_count q" "dq_head q = dq_tail q" and n1: "n1 mod dq_count q = n mod dq_count q"
  defines "q1 \<equiv> q \<lparr> dq_head := (dq_head q + n1) AND modBits q, dq_tail := (dq_head q + n1) AND modBits q \<rparr>"
  shows "deque_ring q1 k" "elems q1 = rotate (nat (n mod dq_count q)) (elems q)"
proof -
  obtain h c where m: "dq_head q = int h" "dq_count q = int c" "h < 2 ^ k" "c \<le> 2 ^ k" "dq_tail q = int ((h + c) mod 2 ^ k)"
    "elems q = ring_list (dq_buf q) h c" "length (dq_buf q) = 2 ^ k"
    using ring_nats [OF r] .
  have c': "c = 2 ^ k"
  proof (rule ccontr)
    assume "c \<noteq> 2 ^ k"
    then have "c < 2 ^ k" "(h + 0) mod 2 ^ k = (h + c) mod 2 ^ k" using m c by auto
    then show False using mod_add_inj [of h 0 "2 ^ k" c] m c(1) by simp
  qed
  let ?h = "(dq_head q + n1) mod 2 ^ k"
  have q1: "q1 = q \<lparr> dq_head := ?h, dq_tail := ?h \<rparr>" by (simp add: q1_def ring_mask [OF r])
  show "deque_ring q1 k" using r c' m(2) unfolding q1 by (simp add: deque_ring_def)
  let ?m = "nat (n mod 2 ^ k)"
  have "n1 mod 2 ^ k = n mod 2 ^ k" using n1 m(2) c' by simp
  then have "?h = (int h + n mod 2 ^ k) mod 2 ^ k" using m(1) by (metis mod_add_right_eq)
  also have "\<dots> = int ((h + ?m) mod 2 ^ k)" by (simp add: zmod_int)
  finally have "elems q1 = ring_list (dq_buf q) ((h + ?m) mod length (dq_buf q)) (length (dq_buf q))"
    using m(2,7) c' by (simp add: q1 elems_def nat_power_eq)
  also have "\<dots> = rotate ?m (ring_list (dq_buf q) h (length (dq_buf q)))"
    using ring_list_mod [of "dq_buf q" "h + ?m"] ring_list_rotate [OF ring_buf [OF r]] by simp
  finally show "elems q1 = rotate (nat (n mod dq_count q)) (elems q)" using c' m(2,6,7) by simp
qed

lemma rotate_forward:
  assumes r: "deque_ring q k" and c: "0 < dq_count q" "dq_count q < 2 ^ k"
  obtains q1 where "repeat_step m rotate_front_step q = Inr q1" "deque_ring q1 k" "elems q1 = rotate m (elems q)" "dq_minCap q1 = dq_minCap q"
proof -
  have "\<exists>q1. rotate_front_step p = Inr q1 \<and> deque_ring q1 k \<and> elems q1 = rotate1 (elems p) \<and> dq_count q1 = dq_count q \<and> dq_minCap q1 = dq_minCap p"
    if "deque_ring p k" "dq_count p = dq_count q" for p
    using rotate_front_step_refines [OF that(1)] that(2) c by metis
  from repeat_refines [OF this r refl, where n = m] show thesis using that by (auto simp: rotate_def)
qed

lemma rotate_backward:
  assumes r: "deque_ring q k" and c: "0 < dq_count q" "dq_count q < 2 ^ k" and m: "m \<le> length (elems q)"
  obtains q1 where "repeat_step m rotate_back_step q = Inr q1" "deque_ring q1 k" "elems q1 = rotate (length (elems q) - m) (elems q)"
    "dq_minCap q1 = dq_minCap q"
proof -
  have "\<exists>q1. rotate_back_step p = Inr q1 \<and> deque_ring q1 k \<and> elems q1 = (\<lambda>ys. last ys # butlast ys) (elems p) \<and> dq_count q1 = dq_count q
      \<and> dq_minCap q1 = dq_minCap p"
    if "deque_ring p k" "dq_count p = dq_count q" for p
    using rotate_back_step_refines [OF that(1)] that(2) c by metis
  note * = repeat_refines [OF this r refl, where n = m]
  have "elems q \<noteq> []" using length_elems [OF r] c(1) by auto
  with * rotr_funpow [OF m] show thesis using that by auto
qed

lemma Rotate_refines:
  assumes ok: "deque_ok q"
  shows "becomes (deque_Rotate n q) (rotate (nat (n mod int (length (elems q)))) (elems q))"
proof -
  have len: "int (length (elems q)) = dq_count q" by (rule ok_count [OF ok])
  let ?c = "dq_count q" and ?n = "go_mod n (dq_count q)"
  consider "?c \<le> 1" | "1 < ?c" "?n = 0" | "1 < ?c" "?n \<noteq> 0" by linarith
  then show ?thesis
  proof cases
    case 1
    then have "length (elems q) \<le> 1" using len by linarith
    then have "rotate m (elems q) = elems q" for m by (induction m) (auto simp: rotate1_hd_tl le_Suc_eq length_Suc_conv)
    then show ?thesis using 1 ok by (simp add: deque_Rotate_def deque_Len_def becomes_def)
  next
    case 2
    then have "n mod ?c = 0" using go_mod_cases(1) [of ?c n] by simp
    then show ?thesis using 2 ok len by (simp add: deque_Rotate_def deque_Len_def becomes_def)
  next
    case 3
    then obtain k where k: "deque_ring q k" "is_pow2 (dq_minCap q)" "16 \<le> dq_minCap q" using ok_ring [OF ok] by auto
    have c: "0 < ?c" using 3 by simp
    note gm = go_mod_cases [OF c, of n]
    consider "dq_head q = dq_tail q" | "dq_head q \<noteq> dq_tail q" "0 < ?n" | "dq_head q \<noteq> dq_tail q" "?n < 0" using 3 by linarith
    then show ?thesis
    proof cases
      case 1
      note f = rotate_full [OF k(1) c 1 gm(1)]
      show ?thesis using ok_ringI [OF f(1)] k(2,3) f(2) len 1 3 by (simp add: becomes_def deque_Rotate_def deque_Len_def Let_def)
    next
      case 2
      obtain q1 where q1: "repeat_step (nat ?n) rotate_front_step q = Inr q1" "deque_ring q1 k" "elems q1 = rotate (nat ?n) (elems q)"
        "dq_minCap q1 = dq_minCap q"
        using rotate_forward [OF k(1) c not_full [OF k(1) 2(1)]] .
      have "n mod ?c = ?n" using gm 2(2) by simp
      then show ?thesis using q1 ok_ringI [OF q1(2)] k(2,3) len 2 3 by (simp add: becomes_def deque_Rotate_def deque_Len_def Let_def)
    next
      case b: 3
      have "?n mod ?c = (?n + ?c) mod ?c" by simp
      also have "\<dots> = ?n + ?c" by (rule mod_pos_pos_trivial) (use gm b(2) in linarith)+
      finally have "n mod ?c = ?n + ?c" using gm(1) by simp
      then have m: "nat (n mod ?c) = length (elems q) - nat (- ?n)" "nat (- ?n) \<le> length (elems q)" using len gm(2) b(2) by linarith+
      obtain q1 where q1: "repeat_step (nat (- ?n)) rotate_back_step q = Inr q1" "deque_ring q1 k"
        "elems q1 = rotate (length (elems q) - nat (- ?n)) (elems q)" "dq_minCap q1 = dq_minCap q"
        using rotate_backward [OF k(1) c not_full [OF k(1) b(1)] m(2)] .
      show ?thesis using q1 ok_ringI [OF q1(2)] k(2,3) len m(1) b 3 by (simp add: becomes_def deque_Rotate_def deque_Len_def Let_def)
    qed
  qed
qed

subsection \<open>Searching\<close>

definition first_index :: "('a \<Rightarrow> bool) \<Rightarrow> 'a list \<Rightarrow> int" where
  "first_index f xs = (let k = length (takeWhile (\<lambda>x. \<not> f x) xs) in if k = length xs then -1 else int k)"

definition last_index :: "('a \<Rightarrow> bool) \<Rightarrow> 'a list \<Rightarrow> int" where
  "last_index f xs = (let k = first_index f (rev xs) in if k < 0 then -1 else int (length xs) - 1 - k)"

lemma first_index_Cons: "first_index f (x # xs) = (if f x then 0 else let k = first_index f xs in if k < 0 then -1 else k + 1)"
  by (simp add: first_index_def Let_def)

lemma first_index_range: "- 1 \<le> first_index f xs \<and> first_index f xs < int (length xs)"
proof -
  have "length (takeWhile (\<lambda>x. \<not> f x) xs) \<le> length xs" by (rule length_takeWhile_le)
  then show ?thesis by (auto simp: first_index_def Let_def)
qed

lemma index_loop_first:
  assumes "deque_ring q k" "0 \<le> i" "i + int n = dq_count q"
  shows "index_loop n i f q = Inr (let k = first_index f (drop (nat i) (elems q)) in if k < 0 then -1 else k + i)"
  using assms(2,3)
proof (induction n arbitrary: i)
  case 0
  then have "drop (nat i) (elems q) = []" using length_elems [OF assms(1)] by simp
  then show ?case by (simp add: first_index_def)
next
  case (Suc n)
  have "nat i < length (elems q)" using Suc.prems length_elems [OF assms(1)] by linarith
  then have "drop (nat i) (elems q) = elems q ! nat i # drop (nat (i + 1)) (elems q)"
    using Cons_nth_drop_Suc [of "nat i" "elems q"] Suc.prems(1) by (simp add: nat_add_distrib)
  then show ?case
    using Suc.IH [of "i + 1"] Suc.prems get_slot [OF assms(1) Suc.prems(1)] first_index_range [of f "drop (nat (i + 1)) (elems q)"]
    by (auto simp: first_index_Cons Let_def)
qed

lemma rindex_loop_last:
  assumes "deque_ring q k" "int n \<le> dq_count q"
  shows "rindex_loop n f q = Inr (last_index f (take n (elems q)))"
  using assms(2)
proof (induction n)
  case 0
  then show ?case by (simp add: last_index_def first_index_def)
next
  case (Suc n)
  then have n: "n < length (elems q)" using length_elems [OF assms(1)] by linarith
  then have "take (Suc n) (elems q) = take n (elems q) @ [elems q ! n]" by (rule take_Suc_conv_app_nth)
  then show ?case
    using Suc get_slot [OF assms(1), of "int n"] first_index_range [of f "rev (take n (elems q))"] n
    by (auto simp: last_index_def first_index_Cons Let_def)
qed

lemma Index_refines:
  assumes "deque_ok q"
  shows "deque_Index f q = Inr (first_index f (elems q)) \<and> deque_RIndex f q = Inr (last_index f (elems q))"
proof (cases "dq_count q = 0")
  case True
  then show ?thesis using ok_Nil [OF assms True] by (simp add: deque_Index_def deque_RIndex_def deque_Len_def first_index_def last_index_def)
next
  case False
  then obtain k where k: "deque_ring q k" using ok_ring [OF assms] by auto
  have c: "0 < dq_count q" "nat (dq_count q) = length (elems q)" using length_elems [OF k] False by linarith+
  then show ?thesis
    using index_loop_first [OF k, of 0 "nat (dq_count q)" f] rindex_loop_last [OF k, of "nat (dq_count q)" f] first_index_range [of f "elems q"]
    by (auto simp: deque_Index_def deque_RIndex_def deque_Len_def Let_def)
qed

subsection \<open>Moving a value inside the ring\<close>

definition same_ring :: "'a deque \<Rightarrow> 'a deque \<Rightarrow> bool" where
  "same_ring q q1 \<longleftrightarrow> (\<exists>b. q1 = q \<lparr> dq_buf := b \<rparr> \<and> length b = length (dq_buf q))"

lemma same_ring_trans: "same_ring q q1 \<Longrightarrow> same_ring q1 q2 \<Longrightarrow> same_ring q q2"
  by (auto simp: same_ring_def)

lemma same_ring_slot:
  assumes "same_ring q q1"
  shows "deque_slot q1 i = deque_slot q i" "deque_next q1 i = deque_next q i" "deque_prev q1 i = deque_prev q i" "dq_count q1 = dq_count q"
    "dq_minCap q1 = dq_minCap q" "dq_head q1 = dq_head q" "dq_tail q1 = dq_tail q" "deque_ring q1 k = deque_ring q k"
  using assms by (auto simp: same_ring_def deque_slot_def deque_next_def deque_prev_def modBits_def deque_ring_def)

lemma swap_refines:
  assumes r: "deque_ring q k" and ij: "0 \<le> i" "i < dq_count q" "0 \<le> j" "j < dq_count q"
  obtains q1 where "swap_slots (deque_slot q i) (deque_slot q j) q = Inr q1" "same_ring q q1"
    "elems q1 = (elems q)[nat i := elems q ! nat j, nat j := elems q ! nat i]"
proof -
  let ?a = "elems q ! nat i" and ?b = "elems q ! nat j"
  let ?q1 = "q \<lparr> dq_buf := (dq_buf q)[nat (deque_slot q i) := ?b] \<rparr>"
  note p1 = put_slot_ring [OF r, of i ?b]
  then have r1: "deque_ring ?q1 k" by blast
  let ?q2 = "?q1 \<lparr> dq_buf := (dq_buf ?q1)[nat (deque_slot ?q1 j) := ?a] \<rparr>"
  note p2 = put_slot_ring [OF r1, of j ?a]
  have "swap_slots (deque_slot q i) (deque_slot q j) q = Inr ?q2"
    using get_slot [OF r ij(1,2)] get_slot [OF r ij(3,4)] p1 p2 by (simp add: swap_slots_def)
  moreover have "same_ring q ?q2" by (auto simp: same_ring_def)
  moreover have "elems ?q2 = (elems q)[nat i := ?b, nat j := ?a]"
    using put_slot_elems [OF r1, of j ?a] put_slot_elems [OF r ij(1,2), of ?b] ij by simp
  ultimately show thesis by (rule that)
qed

lemma swap_forward_refines:
  assumes "deque_ring q k" "elems q = as @ x # bs @ cs"
  shows "\<exists>q1. swap_forward (length bs) (deque_slot q (int (length as))) q = Inr q1 \<and> same_ring q q1 \<and> elems q1 = as @ bs @ x # cs"
  using assms
proof (induction bs arbitrary: as q)
  case Nil
  then show ?case by (auto simp: same_ring_def intro: exI [of _ "dq_buf q"])
next
  case (Cons b bs)
  let ?i = "int (length as)"
  have len: "dq_count q = int (length as + (2 + length bs + length cs))" using length_elems [OF Cons.prems(1)] Cons.prems(2) by simp
  obtain q1 where q1: "swap_slots (deque_slot q ?i) (deque_slot q (?i + 1)) q = Inr q1" "same_ring q q1"
    "elems q1 = (elems q)[nat ?i := elems q ! nat (?i + 1), nat (?i + 1) := elems q ! nat ?i]"
    using swap_refines [OF Cons.prems(1), of ?i "?i + 1"] len by auto
  have "elems q1 = (as @ [b]) @ x # bs @ cs"
    using q1(3) Cons.prems(2) by (simp add: nat_add_distrib nth_append list_update_append)
  moreover have "deque_ring q1 k" using same_ring_slot(8) [OF q1(2)] Cons.prems(1) by simp
  ultimately obtain q2 where q2: "swap_forward (length bs) (deque_slot q1 (int (length (as @ [b])))) q1 = Inr q2" "same_ring q1 q2"
    "elems q2 = (as @ [b]) @ bs @ x # cs"
    using Cons.IH [of q1 "as @ [b]"] by auto
  have "deque_next q (deque_slot q ?i) = deque_slot q (?i + 1)" by (rule ring_next [OF Cons.prems(1)])
  then show ?case using q1 q2 same_ring_trans [OF q1(2) q2(2)] same_ring_slot(1) [OF q1(2)] by (simp add: add.commute)
qed

lemma swap_backward_refines:
  assumes "deque_ring q k" "elems q = as @ bs @ x # cs"
  shows "\<exists>q1. swap_backward (length bs) (deque_slot q (int (length as + length bs))) q = Inr q1 \<and> same_ring q q1 \<and> elems q1 = as @ x # bs @ cs"
  using assms
proof (induction bs arbitrary: cs q rule: rev_induct)
  case Nil
  then show ?case by (auto simp: same_ring_def intro: exI [of _ "dq_buf q"])
next
  case (snoc b bs)
  let ?j = "int (length as + length bs)"
  let ?i = "?j + 1"
  have len: "dq_count q = int (length as + length bs + 2 + length cs)" using length_elems [OF snoc.prems(1)] snoc.prems(2) by simp
  obtain q1 where q1: "swap_slots (deque_slot q ?i) (deque_slot q ?j) q = Inr q1" "same_ring q q1"
    "elems q1 = (elems q)[nat ?i := elems q ! nat ?j, nat ?j := elems q ! nat ?i]"
    using swap_refines [OF snoc.prems(1), of ?i ?j] len by auto
  have "nat ?i = Suc (length as + length bs)" "nat ?j = length as + length bs" by simp_all
  then have "elems q1 = as @ bs @ x # (b # cs)"
    using q1(3) snoc.prems(2) by (simp add: nth_append list_update_append)
  moreover have "deque_ring q1 k" using same_ring_slot(8) [OF q1(2)] snoc.prems(1) by simp
  ultimately obtain q2 where q2: "swap_backward (length bs) (deque_slot q1 ?j) q1 = Inr q2" "same_ring q1 q2" "elems q2 = as @ x # bs @ b # cs"
    using snoc.IH [of q1 "b # cs"] by auto
  have "deque_prev q (deque_slot q ?i) = deque_slot q ?j" using ring_prev [OF snoc.prems(1), of ?i] by simp
  then show ?case using q1 q2 same_ring_trans [OF q1(2) q2(2)] same_ring_slot(1) [OF q1(2)] by (simp add: add.commute)
qed

lemma becomes_ring:
  assumes "becomes r (x # ys)"
  obtains q k where "r = Inr q" "deque_ring q k" "is_pow2 (dq_minCap q)" "16 \<le> dq_minCap q" "elems q = x # ys"
proof -
  obtain q where q: "r = Inr q" "deque_ok q" "elems q = x # ys" using assms by (auto simp: becomes_def)
  then have "dq_count q \<noteq> 0" using ok_count [OF q(2)] by auto
  from ok_ring [OF q(2) this] show thesis using that q by metis
qed

lemma same_ring_ok: "same_ring q q1 \<Longrightarrow> deque_ring q k \<Longrightarrow> is_pow2 (dq_minCap q) \<Longrightarrow> 16 \<le> dq_minCap q \<Longrightarrow> deque_ok q1"
  by (rule ok_ringI) (simp_all add: same_ring_slot)

lemma Insert_refines:
  assumes ok: "deque_ok q" and i: "0 \<le> i" "i \<le> int (length (elems q))"
  shows "becomes (deque_Insert i x q) (take (nat i) (elems q) @ x # drop (nat i) (elems q))"
proof (cases "i * 2 < dq_count q")
  case True
  obtain q1 k where q1: "PushFront x q = Inr q1" "deque_ring q1 k" "is_pow2 (dq_minCap q1)" "16 \<le> dq_minCap q1" "elems q1 = x # elems q"
    using becomes_ring [OF PushFront_refines [OF ok]] .
  have "elems q1 = [] @ x # take (nat i) (elems q) @ drop (nat i) (elems q)" using q1(5) by simp
  from swap_forward_refines [OF q1(2) this] obtain q2 where q2: "swap_forward (nat i) (dq_head q1) q1 = Inr q2" "same_ring q1 q2"
    "elems q2 = take (nat i) (elems q) @ x # drop (nat i) (elems q)"
    using i ring_head [OF q1(2)] by auto
  then show ?thesis
    using True i ok_count [OF ok] q1(1) same_ring_ok [OF q2(2) q1(2-4)] by (simp add: becomes_def deque_Insert_def)
next
  case False
  obtain y ys where y: "elems q @ [x] = y # ys" by (cases "elems q") simp_all
  obtain q1 k where q1: "PushBack x q = Inr q1" "deque_ring q1 k" "is_pow2 (dq_minCap q1)" "16 \<le> dq_minCap q1" "elems q1 = elems q @ [x]"
    using becomes_ring [OF PushBack_refines [OF ok, of x, unfolded y]] y by metis
  have e: "elems q1 = take (nat i) (elems q) @ drop (nat i) (elems q) @ x # []" using q1(5) by simp
  have "dq_count q1 = int (length (elems q)) + 1" using length_elems [OF q1(2)] q1(5) by simp
  then have "deque_prev q1 (dq_tail q1) = deque_slot q1 (int (length (elems q)))"
    using ring_tail [OF q1(2)] ring_prev [OF q1(2), of "dq_count q1"] by simp
  moreover have "length (drop (nat i) (elems q)) = nat (dq_count q - i)" using ok_count [OF ok] i by simp
  moreover have "length (take (nat i) (elems q)) + length (drop (nat i) (elems q)) = length (elems q)" by simp
  ultimately obtain q2 where q2: "swap_backward (nat (dq_count q - i)) (deque_prev q1 (dq_tail q1)) q1 = Inr q2" "same_ring q1 q2"
    "elems q2 = take (nat i) (elems q) @ x # drop (nat i) (elems q)"
    using swap_backward_refines [OF q1(2) e] by auto
  then show ?thesis
    using False i ok_count [OF ok] q1(1) same_ring_ok [OF q2(2) q1(2-4)] by (simp add: becomes_def deque_Insert_def Let_def)
qed

lemma Remove_refines:
  assumes ok: "deque_ok q" and i: "0 \<le> i" "i < int (length (elems q))"
  shows "yields (deque_Remove i q) (elems q ! nat i) (take (nat i) (elems q) @ drop (Suc (nat i)) (elems q))"
proof -
  let ?as = "take (nat i) (elems q)" and ?y = "elems q ! nat i" and ?cs = "drop (Suc (nat i)) (elems q)"
  have len: "int (length (elems q)) = dq_count q" by (rule ok_count [OF ok])
  have xs: "elems q = ?as @ ?y # ?cs" using i by (simp add: id_take_nth_drop nat_less_iff)
  have la: "int (length ?as) = i" "length ?as = nat i" using i by simp_all
  obtain k where k: "deque_ring q k" "is_pow2 (dq_minCap q)" "16 \<le> dq_minCap q" using inside_ring [OF ok i(1)] i(2) len by auto
  show ?thesis
  proof (cases "i * 2 < dq_count q")
    case True
    have "elems q = [] @ ?as @ ?y # ?cs" using xs by simp
    from swap_backward_refines [OF k(1) this] obtain q1 where q1: "swap_backward (nat i) (deque_slot q i) q = Inr q1" "same_ring q q1"
      "elems q1 = ?y # ?as @ ?cs"
      using la i(1) by auto
    from PopFront_refines [OF same_ring_ok [OF q1(2) k]] show ?thesis using q1(1,3) True i len by (simp add: yields_def deque_Remove_def deque_Len_def)
  next
    case False
    have "elems q = ?as @ ?y # ?cs @ []" using xs by simp
    moreover have "length ?cs = nat (dq_count q - i - 1)" using i len by simp
    ultimately obtain q1 where q1: "swap_forward (nat (dq_count q - i - 1)) (deque_slot q i) q = Inr q1" "same_ring q q1"
      "elems q1 = (?as @ ?cs) @ [?y]"
      using swap_forward_refines [OF k(1), of ?as ?y ?cs "[]"] la(1) by auto
    have "last (elems q1) = ?y" "butlast (elems q1) = ?as @ ?cs" "elems q1 \<noteq> []" unfolding q1(3) by (simp_all only: last_snoc butlast_snoc) simp
    with PopBack_refines [OF same_ring_ok [OF q1(2) k]] show ?thesis using q1(1) False i len by (simp add: yields_def deque_Remove_def deque_Len_def)
  qed
qed

subsection \<open>Creation\<close>

lemma SetMinCapacity_ok:
  assumes "deque_ok q"
  shows "deque_ok (SetMinCapacity e q) \<and> elems (SetMinCapacity e q) = elems q"
proof -
  let ?c = "sint (push_bit e (1 :: 64 word))"
  have "is_pow2 ?c" if "16 < ?c"
  proof -
    have "push_bit e (1 :: 64 word) = word_of_int (2 ^ e)" by (simp add: push_bit_eq_mult)
    then have "?c = signed_take_bit 63 (2 ^ e)" by (simp only: sint_sbintrunc') simp
    moreover have "signed_take_bit 63 (2 ^ e) \<le> (0 :: int)" if "63 \<le> e" using that by (auto simp: signed_take_bit_def push_bit_eq_mult le_eq_less_or_eq simp flip: minus_exp_eq_not_mask)
    ultimately have "e < 63" using that by (metis not_less not_numeral_less_zero order_le_less_trans)
    then have "(2 :: int) ^ e < 2 ^ 63" by (intro power_strict_increasing) simp_all
    moreover have "- (2 ^ 63) \<le> (2 :: int) ^ e" by (rule order_trans [of _ 0]) simp_all
    ultimately have "?c = 2 ^ e" using \<open>?c = _\<close> by (simp add: signed_take_bit_int_eq_self_iff)
    then show ?thesis by (auto simp: is_pow2_def)
  qed
  moreover have "is_pow2 16" unfolding is_pow2_def by (rule exI [of _ 4]) simp
  ultimately have m: "is_pow2 (dq_minCap (SetMinCapacity e q))" "16 \<le> dq_minCap (SetMinCapacity e q)"
    by (auto simp: SetMinCapacity_def Let_def deque_minCapacity_def)
  have f: "dq_buf (SetMinCapacity e q) = dq_buf q" "dq_head (SetMinCapacity e q) = dq_head q" "dq_tail (SetMinCapacity e q) = dq_tail q"
    "dq_count (SetMinCapacity e q) = dq_count q"
    by (simp_all add: SetMinCapacity_def Let_def)
  have "deque_ring (SetMinCapacity e q) = deque_ring q" by (rule ext) (simp add: deque_ring_def f)
  then show ?thesis using assms m by (simp add: deque_ok_def min_ok_def elems_def f split: if_splits)
qed

lemma RoundUp_pow2: "16 < v \<Longrightarrow> is_pow2 (RoundUpToPowerOfTwoInt v) \<and> 16 \<le> RoundUpToPowerOfTwoInt v"
proof (cases "v < 2 ^ 62")
  case True
  assume v: "16 < v"
  have "int (nat (v - 1)) < int (2 ^ bits_Len (nat (v - 1)))" by (simp only: of_nat_less_iff bits_Len_upper)
  then show ?thesis using True v RoundUp_eq [of v] by (auto simp: is_pow2_def)
next
  case False
  assume v: "16 < v"
  have "is_pow2 (2 ^ 62)" unfolding is_pow2_def by blast
  then show ?thesis using False v by (simp add: RoundUpToPowerOfTwoInt_def)
qed

lemma NewDeque_ok: "deque_ok (NewDeque zero sizes) \<and> elems (NewDeque zero sizes) = []"
proof -
  have 16: "is_pow2 16" unfolding is_pow2_def by (rule exI [of _ 4]) simp
  let ?q = "NewDeque zero sizes"
  have m: "is_pow2 (dq_minCap ?q)" "16 \<le> dq_minCap ?q"
    using 16 RoundUp_pow2 by (auto simp: NewDeque_def Let_def deque_minCapacity_def)
  have e: "dq_head ?q = 0" "dq_tail ?q = 0" "dq_count ?q = 0" by (simp_all add: NewDeque_def Let_def)
  have "\<exists>k. deque_ring ?q k" if "dq_buf ?q \<noteq> []"
  proof -
    define cap where "cap = (if 1 \<le> length sizes then sizes ! 0 else 0)"
    let ?n = "if dq_minCap ?q < cap then RoundUpToPowerOfTwoInt cap else dq_minCap ?q"
    have "dq_buf ?q = (if cap \<noteq> 0 then make_slice zero ?n else [])" by (simp only: NewDeque_def Let_def deque.simps cap_def)
    then have n: "dq_buf ?q = make_slice zero ?n" using that by argo
    have "is_pow2 ?n" using m RoundUp_pow2 [of cap] by simp
    then obtain k where "?n = 2 ^ k" by (auto simp: is_pow2_def)
    then show ?thesis using n e by (auto simp: deque_ring_def make_slice_def)
  qed
  then show ?thesis using m e by (auto simp: deque_ok_def min_ok_def elems_def)
qed

subsection \<open>Every call\<close>

lemma ok_deque_becomes: "becomes r ys \<Longrightarrow> \<exists>q. ok_deque r = Some (None, q) \<and> deque_ok q \<and> elems q = ys"
  by (auto simp: becomes_def ok_deque_def)

lemma ok_value_yields: "yields r x ys \<Longrightarrow> \<exists>q. ok_value r = Some (Some x, q) \<and> deque_ok q \<and> elems q = ys"
  by (auto simp: yields_def ok_value_def)

lemma ok_Inl [simp]: "ok_value (Inl e) = None" "ok_deque (Inl e) = None"
  by (simp_all add: ok_value_def ok_deque_def)

text \<open>A call panics exactly when it does on the list; otherwise the results and the lists after it agree.\<close>

lemma deque_do_refines:
  assumes ok: "deque_ok q"
  shows "case list_do c (elems q) of None \<Rightarrow> deque_do c q = None
         | Some (r, ys) \<Rightarrow> (\<exists>q1. deque_do c q = Some (r, q1) \<and> deque_ok q1 \<and> elems q1 = ys)"
proof -
  have len: "dq_count q = int (length (elems q))" using ok_count [OF ok] by simp
  note ok_deque_becomes [dest!] ok_value_yields [dest!]
  show ?thesis
  proof (cases c)
    case (D_PushBack x)
    then show ?thesis using PushBack_refines [OF ok, of x] by (auto simp: deque_do_def list_do_def)
  next
    case (D_PushFront x)
    then show ?thesis using PushFront_refines [OF ok, of x] by (auto simp: deque_do_def list_do_def)
  next
    case D_PopFront
    then show ?thesis using PopFront_refines [OF ok] empty_panics [OF ok] by (auto simp: deque_do_def list_do_def)
  next
    case D_PopBack
    then show ?thesis using PopBack_refines [OF ok] empty_panics [OF ok] by (auto simp: deque_do_def list_do_def)
  next
    case (D_At i)
    show ?thesis
    proof (cases "0 \<le> i \<and> i < dq_count q")
      case True
      then show ?thesis using D_At At_refines [OF ok] ok len by (simp add: deque_do_def list_do_def ok_value_def)
    next
      case False
      then show ?thesis using D_At len by (auto simp: deque_do_def list_do_def deque_At_def)
    qed
  next
    case (D_Set i x)
    show ?thesis
    proof (cases "0 \<le> i \<and> i < dq_count q")
      case True
      then show ?thesis using D_Set Set_refines [OF ok, of i x] len by (auto simp: deque_do_def list_do_def)
    next
      case False
      then show ?thesis using D_Set len by (auto simp: deque_do_def list_do_def deque_Set_def)
    qed
  next
    case D_Clear
    obtain r where "deque_Clear q = Some r" "becomes r []" using Clear_refines [OF ok] .
    then show ?thesis using D_Clear by (auto simp: deque_do_def list_do_def)
  next
    case (D_Rotate n)
    then show ?thesis using Rotate_refines [OF ok, of n] by (auto simp: deque_do_def list_do_def)
  next
    case (D_Insert i x)
    show ?thesis
    proof (cases "0 \<le> i \<and> i \<le> dq_count q")
      case True
      then show ?thesis using D_Insert Insert_refines [OF ok, of i x] len by (auto simp: deque_do_def list_do_def)
    next
      case False
      then show ?thesis using D_Insert len by (auto simp: deque_do_def list_do_def deque_Insert_def)
    qed
  next
    case (D_Remove i)
    show ?thesis
    proof (cases "0 \<le> i \<and> i < dq_count q")
      case True
      then show ?thesis using D_Remove Remove_refines [OF ok, of i] len by (auto simp: deque_do_def list_do_def)
    next
      case False
      then show ?thesis using D_Remove len by (auto simp: deque_do_def list_do_def deque_Remove_def deque_Len_def)
    qed
  next
    case (D_SetMin e)
    then show ?thesis using SetMinCapacity_ok [OF ok, of e] by (simp add: deque_do_def list_do_def)
  qed
qed

lemma do_all_refines:
  assumes "deque_ok q"
  shows "map_option (\<lambda>(rs, q1). (rs, elems q1)) (do_all deque_do cs q) = do_all list_do cs (elems q)"
  using assms
proof (induction cs arbitrary: q)
  case (Cons c cs)
  show ?case
  proof (cases "list_do c (elems q)")
    case None
    then show ?thesis using deque_do_refines [OF Cons.prems, of c] by simp
  next
    case (Some p)
    obtain r ys where p: "p = (r, ys)" by fastforce
    then obtain q1 where q1: "deque_do c q = Some (r, q1)" "deque_ok q1" "elems q1 = ys"
      using deque_do_refines [OF Cons.prems, of c] Some by auto
    show ?thesis
    proof (cases "do_all deque_do cs q1")
      case None
      then have "do_all list_do cs ys = None" using Cons.IH [OF q1(2)] q1(3) by simp
      then show ?thesis using None q1(1) Some p by simp
    next
      case s: (Some rest)
      obtain rs q2 where "rest = (rs, q2)" by fastforce
      then have "do_all list_do cs ys = Some (rs, elems q2)" using Cons.IH [OF q1(2)] q1(3) s by simp
      then show ?thesis using \<open>rest = (rs, q2)\<close> s q1(1) Some p by simp
    qed
  qed
qed simp

section \<open>Properties\<close>

text \<open>
  C19. The deque is a list: whatever the sizes it was created with, every sequence of calls gives the results of the same calls on a list, and panics exactly where they do;
  no index leaves the buffer, \<open>Clear\<close> ends, and growing, shrinking and rotating are not visible.
\<close>

theorem deque_run_refines:
  "map_option (\<lambda>(rs, q). (rs, elems q)) (do_all deque_do cs (NewDeque zero sizes)) = do_all list_do cs []"
  using do_all_refines [of "NewDeque zero sizes" cs] NewDeque_ok [of zero sizes] by simp

text \<open>
  \<open>Clear\<close> of a full deque clears no slot: its loop runs from the head to the tail, which are equal. The values stay reachable from the buffer, unlike those of
  \<open>PopFront\<close> and of \<open>Clear\<close> on a deque that is not full.
\<close>

theorem Clear_full_keeps_values:
  assumes "deque_ok q" "dq_count q = int (length (dq_buf q))"
  shows "\<exists>q1. deque_Clear q = Some (Inr q1) \<and> dq_buf q1 = dq_buf q \<and> elems q1 = []"
proof -
  have "dq_head q = dq_tail q"
  proof (cases "dq_buf q = []")
    case False
    then obtain k where "deque_ring q k" using assms(1) by (auto simp: deque_ok_def)
    then show ?thesis using assms(2) by (auto simp: deque_ring_def)
  qed (use assms(1) in \<open>simp add: deque_ok_def\<close>)
  then show ?thesis by (simp add: deque_Clear_def clear_loop.simps elems_def)
qed

theorem Clear_full_keeps_values_witness:
  "\<exists>q1. deque_Clear (\<lparr> dq_zero = 0, dq_buf = replicate 16 (7 :: nat), dq_head = 3, dq_tail = 3, dq_count = 16, dq_minCap = 16 \<rparr>) = Some (Inr q1)
     \<and> dq_buf q1 = replicate 16 7 \<and> elems q1 = []"
proof -
  let ?q = "\<lparr> dq_zero = 0, dq_buf = replicate 16 (7 :: nat), dq_head = 3, dq_tail = 3, dq_count = 16, dq_minCap = 16 \<rparr>"
  have "is_pow2 16" unfolding is_pow2_def by (rule exI [of _ 4]) simp
  moreover have "deque_ring ?q 4" by (simp add: deque_ring_def)
  ultimately have "deque_ok ?q" by (simp add: ok_ringI)
  from Clear_full_keeps_values [OF this] show ?thesis by simp
qed

end
