(* ===== verification/Ring_Queues.thy ===== *)
theory Ring_Queues
  imports Fifo_Queue Pow2
begin

text \<open>
  Two more bounded queues over a ring: \<open>engine/pkg/utils/queue/squeue.go\<close> (\<open>SQueue\<close>, every operation under its lock, with cursors) and
  \<open>engine/pkg/utils/mpmc/mpmc.go\<close> (\<open>Queue\<close>, the queue of Vyukov: a sequence number per slot). The calls of \<open>mpmc\<close> are modelled one after another; a loop that only
  another goroutine could end is \<open>None\<close>. Both provide the interface of \<open>Fifo_Queue\<close>.
\<close>

section \<open>Definitions\<close>

subsection \<open>The queue with cursors\<close>

record 'a squeue =
  sq_elements :: "'a list"
  sq_head :: int
  sq_tail :: int

definition NewSQueue :: "'a \<Rightarrow> int \<Rightarrow> go_panic + 'a squeue" where
  "NewSQueue zero maxElementNum =
     (if maxElementNum + 1 < 0 then Inl (Go_Panic ''makeslice: len out of range'')
      else Inr \<lparr> sq_elements = replicate (nat (maxElementNum + 1)) zero, sq_head = 0, sq_tail = 0 \<rparr>)"

text \<open>\<open>i % len(s.elements)\<close>, and an access of the slice.\<close>

definition sq_mod :: "'a squeue \<Rightarrow> int \<Rightarrow> go_panic + int" where
  "sq_mod s i = (if sq_elements s = [] then Inl (Go_Panic ''integer divide by zero'') else Inr (go_mod i (int (length (sq_elements s)))))"

definition sq_get :: "int \<Rightarrow> 'a squeue \<Rightarrow> go_panic + 'a" where
  "sq_get i s =
     (if 0 \<le> i \<and> i < int (length (sq_elements s)) then Inr (sq_elements s ! nat i) else Inl (Go_Panic ''index out of range''))"

definition sq_len :: "'a squeue \<Rightarrow> int" where
  "sq_len s = (if sq_head s \<le> sq_tail s then sq_tail s - sq_head s else int (length (sq_elements s)) - sq_head s + sq_tail s)"

definition SQueue_RemoveElement :: "int \<Rightarrow> 'a squeue \<Rightarrow> go_panic + int \<times> 'a squeue" where
  "SQueue_RemoveElement elementNum s =
     (let removeNum = (if sq_len s < elementNum then sq_len s else elementNum)
      in and_then (sq_mod s (sq_head s + removeNum)) (\<lambda>h. Inr (removeNum, s \<lparr> sq_head := h \<rparr>)))"

definition SQueue_Pop :: "'a squeue \<Rightarrow> go_panic + 'a option \<times> 'a squeue" where
  "SQueue_Pop s =
     (if sq_head s = sq_tail s then Inr (None, s)
      else and_then (sq_mod s (sq_head s + 1)) (\<lambda>h. and_then (sq_get h s) (\<lambda>x. Inr (Some x, s \<lparr> sq_head := h \<rparr>))))"

definition SQueue_Push :: "'a squeue \<Rightarrow> 'a \<Rightarrow> go_panic + bool \<times> 'a squeue" where
  "SQueue_Push s elem =
     and_then (sq_mod s (sq_tail s + 1)) (\<lambda>nextPos.
       if nextPos = sq_head s then Inr (False, s)
       else if 0 \<le> nextPos \<and> nextPos < int (length (sq_elements s))
            then Inr (True, s \<lparr> sq_tail := nextPos, sq_elements := (sq_elements s)[nat nextPos := elem] \<rparr>)
       else Inl (Go_Panic ''index out of range''))"

definition SQueue_IsEmpty :: "'a squeue \<Rightarrow> bool" where
  "SQueue_IsEmpty s \<longleftrightarrow> sq_head s = sq_tail s"

definition SQueue_IsFull :: "'a squeue \<Rightarrow> go_panic + bool" where
  "SQueue_IsFull s = and_then (sq_mod s (sq_tail s + 1)) (\<lambda>nextPos. Inr (nextPos = sq_head s))"

text \<open>A cursor is a position; the queue it reads is the second argument.\<close>

definition GetCursor :: "'a squeue \<Rightarrow> int" where
  "GetCursor s = sq_head s"

definition Cursor_First :: "'a squeue \<Rightarrow> int \<Rightarrow> int" where
  "Cursor_First s pos = sq_head s"

definition Cursor_Next :: "'a squeue \<Rightarrow> int \<Rightarrow> go_panic + 'a option \<times> int" where
  "Cursor_Next s pos =
     (if pos = sq_tail s then Inr (None, pos)
      else and_then (sq_mod s (pos + 1)) (\<lambda>p. and_then (sq_get p s) (\<lambda>x. Inr (Some x, p))))"

text \<open>The cursor (none, for the zero cursor) and \<open>ret\<close>.\<close>

definition GetPosCursor :: "int \<Rightarrow> 'a squeue \<Rightarrow> int option \<times> bool" where
  "GetPosCursor pos s =
     (if sq_head s < sq_tail s
      then (if pos \<le> sq_head s \<or> sq_tail s < pos then (None, False) else (Some pos, True))
      else if sq_tail s < pos \<and> pos \<le> sq_head s then (None, False)
      else (Some pos, False))"

subsection \<open>The queue with sequence numbers\<close>

record 'a mpmc_slot =
  ms_sequence :: "64 word"
  ms_value :: 'a

record 'a mpmc =
  mm_mask :: "64 word"
  mm_size :: "64 word"
  mm_head :: "64 word"
  mm_tail :: "64 word"
  mm_buffer :: "'a mpmc_slot list"
  mm_nil :: 'a

definition NewMPMC :: "'a \<Rightarrow> int \<Rightarrow> 'a mpmc" where
  "NewMPMC zero capacity0 =
     (let c1 = (if capacity0 \<le> 0 then 1 else capacity0);
          capacity = (if c1 AND (c1 - 1) \<noteq> 0 then RoundUpToPowerOfTwoInt64 c1 else c1)
      in \<lparr> mm_mask = word_of_int (capacity - 1), mm_size = word_of_int capacity, mm_head = 0, mm_tail = 0,
           mm_buffer = map (\<lambda>i. \<lparr> ms_sequence = of_nat i, ms_value = zero \<rparr>) [0..<nat capacity], mm_nil = zero \<rparr>)"

definition mm_index :: "'a mpmc \<Rightarrow> 64 word \<Rightarrow> nat" where
  "mm_index q pos = unat (pos AND mm_mask q)"

definition MPMC_Push :: "'a mpmc \<Rightarrow> 'a \<Rightarrow> (bool \<times> 'a mpmc) option" where
  "MPMC_Push q item =
     (let pos = mm_tail q; i = mm_index q pos; dif = sint (ms_sequence (mm_buffer q ! i) - pos)
      in if dif = 0 then Some (True, q \<lparr> mm_tail := pos + 1, mm_buffer := (mm_buffer q)[i := \<lparr> ms_sequence = pos + 1, ms_value = item \<rparr>] \<rparr>)
         else if dif < 0 then Some (False, q)
         else None)"

definition MPMC_Pop :: "'a mpmc \<Rightarrow> ('a option \<times> 'a mpmc) option" where
  "MPMC_Pop q =
     (let pos = mm_head q; i = mm_index q pos; dif = sint (ms_sequence (mm_buffer q ! i) - (pos + 1))
      in if dif = 0
         then Some (Some (ms_value (mm_buffer q ! i)),
                    q \<lparr> mm_head := pos + 1, mm_buffer := (mm_buffer q)[i := \<lparr> ms_sequence = pos + mm_mask q + 1, ms_value = mm_nil q \<rparr>] \<rparr>)
         else if dif < 0 then Some (None, q)
         else None)"

definition MPMC_Len :: "'a mpmc \<Rightarrow> int" where
  "MPMC_Len q = (if mm_head q \<le>s mm_tail q then sint (mm_tail q - mm_head q) else sint (mm_size q - mm_head q + mm_tail q))"

definition MPMC_Empty :: "'a mpmc \<Rightarrow> bool" where
  "MPMC_Empty q \<longleftrightarrow> mm_head q = mm_tail q"

section \<open>Lemmas\<close>

subsection \<open>The queue with cursors\<close>

definition no_panic :: "'b \<Rightarrow> go_panic + 'b \<Rightarrow> 'b" where
  "no_panic d r = (case r of Inl e \<Rightarrow> d | Inr x \<Rightarrow> x)"

lemma no_panic_Inr [simp]: "no_panic d (Inr x) = x"
  by (simp add: no_panic_def)

definition sq_inv :: "'a squeue \<Rightarrow> bool" where
  [inv_defs]: "sq_inv s \<longleftrightarrow> 0 \<le> sq_head s \<and> sq_head s < int (length (sq_elements s)) \<and> 0 \<le> sq_tail s \<and> sq_tail s < int (length (sq_elements s))"

definition sq_list :: "'a squeue \<Rightarrow> 'a list" where
  "sq_list s = ring_list (sq_elements s) (Suc (nat (sq_head s))) (nat (sq_len s))"

text \<open>The positions as natural numbers, and the tail from the head and the length.\<close>

lemma sq_nats:
  assumes "sq_inv s"
  obtains h c where "sq_head s = int h" "sq_len s = int c" "h < length (sq_elements s)" "c < length (sq_elements s)"
    "sq_tail s = int ((h + c) mod length (sq_elements s))" "sq_list s = ring_list (sq_elements s) (Suc h) c" "sq_elements s \<noteq> []"
proof
  let ?n = "length (sq_elements s)" and ?h = "nat (sq_head s)" and ?c = "nat (sq_len s)"
  have h: "sq_head s = int ?h" "?h < ?n" using assms by (simp_all add: sq_inv_def nat_less_iff)
  have c: "0 \<le> sq_len s" "sq_len s < int ?n" using assms by (auto simp: sq_inv_def sq_len_def)
  show "sq_head s = int ?h" "?h < ?n" by (fact h)+
  show "sq_len s = int ?c" "?c < ?n" using c by (simp_all add: nat_less_iff)
  show "sq_list s = ring_list (sq_elements s) (Suc ?h) ?c" by (simp add: sq_list_def)
  show "sq_elements s \<noteq> []" using h by auto
  have "int ((?h + ?c) mod ?n) = (sq_head s + sq_len s) mod int ?n" using h c by (simp add: zmod_int)
  also have "\<dots> = sq_tail s"
  proof (cases "sq_head s \<le> sq_tail s")
    case False
    then have "sq_head s + sq_len s = sq_tail s + int ?n" by (simp add: sq_len_def)
    then show ?thesis using assms by (simp add: sq_inv_def)
  qed (use assms in \<open>simp add: sq_inv_def sq_len_def\<close>)
  finally show "sq_tail s = int ((?h + ?c) mod ?n)" by simp
qed

lemma sq_mod_nat: "sq_elements s \<noteq> [] \<Longrightarrow> sq_mod s (int i) = Inr (int (i mod length (sq_elements s)))"
  by (simp add: sq_mod_def go_mod_nonneg zmod_int)

lemma sq_mod_next: "sq_elements s \<noteq> [] \<Longrightarrow> sq_mod s (int i + 1) = Inr (int (Suc i mod length (sq_elements s)))"
  using sq_mod_nat [of s "Suc i"] by (simp add: add.commute)

lemma mod_eq_zero_less: "(h + c) mod n = h \<longleftrightarrow> c = 0" if "h < n" "c < n" for h c n :: nat
  using mod_add_inj [of h c n 0] that by auto

lemma sq_len_from:
  assumes "sq_inv s" "sq_head s = int h" "sq_tail s = int ((h + c) mod length (sq_elements s))" "c < length (sq_elements s)"
  shows "sq_len s = int c"
proof -
  obtain h' c' where n: "sq_head s = int h'" "sq_len s = int c'" "h' < length (sq_elements s)" "c' < length (sq_elements s)"
    "sq_tail s = int ((h' + c') mod length (sq_elements s))"
    using sq_nats [OF assms(1)] by metis
  then have "(h + c') mod length (sq_elements s) = (h + c) mod length (sq_elements s)" using assms(2,3) by simp
  from mod_add_inj [OF this n(4) assms(4)] show ?thesis using n(2) by simp
qed

lemma Push_spec:
  assumes "sq_inv s"
  shows "\<exists>b s1. SQueue_Push s x = Inr (b, s1) \<and> sq_inv s1 \<and> length (sq_elements s1) = length (sq_elements s)
     \<and> (b, sq_list s1) = spec_push (Some (length (sq_elements s) - 1)) (sq_list s) x \<and> (\<not> b \<longrightarrow> s1 = s)"
proof -
  let ?n = "length (sq_elements s)"
  obtain h c where n: "sq_head s = int h" "sq_len s = int c" "h < ?n" "c < ?n" "sq_tail s = int ((h + c) mod ?n)"
    "sq_list s = ring_list (sq_elements s) (Suc h) c" "sq_elements s \<noteq> []"
    using sq_nats [OF assms] .
  have nx: "sq_mod s (sq_tail s + 1) = Inr (int ((h + Suc c) mod ?n))" using sq_mod_next [OF n(7)] n(5) by (simp add: mod_Suc_eq)
  have full: "(h + Suc c) mod ?n = h \<longleftrightarrow> Suc c = ?n"
    using n(3,4) mod_eq_zero_less [of h ?n "Suc c"] by (cases "Suc c = ?n") auto
  show ?thesis
  proof (cases "Suc c = ?n")
    case True
    then have "SQueue_Push s x = Inr (False, s)" using nx full n(1) by (simp add: SQueue_Push_def)
    moreover have "\<not> c < ?n - 1" using True by linarith
    ultimately show ?thesis using n(6) assms by (intro exI [of _ False] exI [of _ s]) (simp add: spec_push_def has_room_def)
  next
    case False
    then have c: "Suc c < ?n" using n(4) by simp
    let ?p = "(h + Suc c) mod ?n"
    let ?s = "s \<lparr> sq_tail := int ?p, sq_elements := (sq_elements s)[?p := x] \<rparr>"
    have p: "?p < ?n" using n(7) by simp
    have push: "SQueue_Push s x = Inr (True, ?s)" using nx full False n(1) p by (simp add: SQueue_Push_def)
    have i: "sq_inv ?s" using assms p by (simp add: sq_inv_def)
    have "sq_len ?s = int (Suc c)" by (rule sq_len_from [OF i]) (use n(1) c in simp_all)
    then have "sq_list ?s = ring_list ((sq_elements s)[?p := x]) (Suc h) (Suc c)"
      unfolding sq_list_def by (simp only: nat_int) (simp add: n(1))
    also have "\<dots> = sq_list s @ [x]" using ring_list_snoc_update [of c "sq_elements s" "Suc h" x] n(4,6) by simp
    finally have "sq_list ?s = sq_list s @ [x]" .
    moreover have "c < ?n - 1" using c by linarith
    ultimately show ?thesis using push i n(6) by (intro exI [of _ True] exI [of _ ?s]) (simp add: spec_push_def has_room_def)
  qed
qed

lemma Pop_spec:
  assumes "sq_inv s"
  shows "\<exists>r s1. SQueue_Pop s = Inr (r, s1) \<and> sq_inv s1 \<and> length (sq_elements s1) = length (sq_elements s)
     \<and> (r, sq_list s1) = spec_pop (sq_list s) \<and> (r = None \<longrightarrow> s1 = s)"
proof -
  let ?n = "length (sq_elements s)"
  obtain h c where n: "sq_head s = int h" "sq_len s = int c" "h < ?n" "c < ?n" "sq_tail s = int ((h + c) mod ?n)"
    "sq_list s = ring_list (sq_elements s) (Suc h) c" "sq_elements s \<noteq> []"
    using sq_nats [OF assms] .
  have empty: "sq_head s = sq_tail s \<longleftrightarrow> c = 0" using n(1,5) mod_eq_zero_less [OF n(3,4)] by auto
  show ?thesis
  proof (cases c)
    case 0
    then show ?thesis using empty n(6) assms by (simp add: SQueue_Pop_def spec_pop_def)
  next
    case (Suc d)
    let ?p = "Suc h mod ?n"
    let ?s = "s \<lparr> sq_head := int ?p \<rparr>"
    have p: "?p < ?n" using n(7) by simp
    have pop: "SQueue_Pop s = Inr (Some (sq_elements s ! ?p), ?s)"
      using Suc empty sq_mod_next [OF n(7), of h] p n(1) by (simp add: SQueue_Pop_def sq_get_def)
    have i: "sq_inv ?s" using assms p by (simp add: sq_inv_def)
    have "sq_tail ?s = int ((?p + d) mod length (sq_elements ?s))" using n(5) Suc by (simp add: mod_add_left_eq)
    from sq_len_from [OF i _ this] have "sq_len ?s = int d" using n(4) Suc by simp
    then have "sq_list ?s = ring_list (sq_elements s) (Suc (Suc h)) d"
      using ring_list_mod [of "sq_elements s" "Suc ?p" d] ring_list_mod [of "sq_elements s" "Suc (Suc h)" d] by (simp add: sq_list_def mod_Suc_eq)
    then show ?thesis using pop i n(6) Suc by (simp add: spec_pop_def ring_list_Suc)
  qed
qed

interpretation sq: fifo_queue sq_inv sq_list "\<lambda>s. Some (length (sq_elements s) - 1)" "\<lambda>s x. no_panic (False, s) (SQueue_Push s x)"
  "\<lambda>s. no_panic (None, s) (SQueue_Pop s)" SQueue_IsEmpty sq_len
proof unfold_locales
  fix s :: "'a squeue" and x :: 'a
  assume i: "sq_inv s"
  obtain b s1 where p: "SQueue_Push s x = Inr (b, s1)" "sq_inv s1" "length (sq_elements s1) = length (sq_elements s)"
    "(b, sq_list s1) = spec_push (Some (length (sq_elements s) - 1)) (sq_list s) x" "\<not> b \<longrightarrow> s1 = s"
    using Push_spec [OF i] by blast
  let ?p = "no_panic (False, s) (SQueue_Push s x)"
  show "sq_inv (snd ?p)" "(fst ?p, sq_list (snd ?p)) = spec_push (Some (length (sq_elements s) - 1)) (sq_list s) x"
    "\<not> fst ?p \<Longrightarrow> snd ?p = s" "Some (length (sq_elements (snd ?p)) - 1) = Some (length (sq_elements s) - 1)"
    using p by simp_all
next
  fix s :: "'a squeue"
  assume i: "sq_inv s"
  obtain r s1 where p: "SQueue_Pop s = Inr (r, s1)" "sq_inv s1" "length (sq_elements s1) = length (sq_elements s)"
    "(r, sq_list s1) = spec_pop (sq_list s)" "r = None \<longrightarrow> s1 = s"
    using Pop_spec [OF i] by blast
  let ?p = "no_panic (None, s) (SQueue_Pop s)"
  show "sq_inv (snd ?p)" "(fst ?p, sq_list (snd ?p)) = spec_pop (sq_list s)" "fst ?p = None \<Longrightarrow> snd ?p = s"
    "Some (length (sq_elements (snd ?p)) - 1) = Some (length (sq_elements s) - 1)"
    using p by simp_all
  obtain h c where n: "sq_head s = int h" "sq_len s = int c" "h < length (sq_elements s)" "c < length (sq_elements s)"
    "sq_tail s = int ((h + c) mod length (sq_elements s))" "sq_list s = ring_list (sq_elements s) (Suc h) c"
    using sq_nats [OF i] by metis
  show "SQueue_IsEmpty s \<longleftrightarrow> sq_list s = []" using n mod_eq_zero_less [OF n(3,4)] by (auto simp: SQueue_IsEmpty_def)
  show "sq_len s = int (length (sq_list s))" using n by simp
qed

lemma NewSQueue_inv:
  assumes "0 \<le> n"
  obtains s where "NewSQueue zero n = Inr s" "sq_inv s" "sq_list s = []" "length (sq_elements s) = Suc (nat n)"
proof -
  let ?s = "\<lparr> sq_elements = replicate (nat (n + 1)) zero, sq_head = 0, sq_tail = 0 \<rparr>"
  have "NewSQueue zero n = Inr ?s" "sq_inv ?s" "sq_list ?s = []" "length (sq_elements ?s) = Suc (nat n)"
    using assms by (simp_all add: NewSQueue_def sq_inv_def sq_list_def sq_len_def nat_add_distrib)
  then show thesis by (rule that)
qed

lemma IsFull_spec:
  assumes "sq_inv s"
  shows "SQueue_IsFull s = Inr (Suc (length (sq_list s)) = length (sq_elements s))"
proof -
  let ?n = "length (sq_elements s)"
  obtain h c where n: "sq_head s = int h" "h < ?n" "c < ?n" "sq_tail s = int ((h + c) mod ?n)" "sq_list s = ring_list (sq_elements s) (Suc h) c"
    "sq_elements s \<noteq> []"
    using sq_nats [OF assms] by metis
  have "(h + Suc c) mod ?n = h \<longleftrightarrow> Suc c = ?n" using n(2,3) mod_eq_zero_less [of h ?n "Suc c"] by (cases "Suc c = ?n") auto
  then show ?thesis using sq_mod_next [OF n(6)] n(1,4,5) by (simp add: SQueue_IsFull_def mod_Suc_eq)
qed

text \<open>Removing a number of values that is not negative drops that many, or all.\<close>

lemma RemoveElement_spec:
  assumes "sq_inv s" "0 \<le> k"
  shows "\<exists>s1. SQueue_RemoveElement k s = Inr (min k (int (length (sq_list s))), s1) \<and> sq_inv s1 \<and> sq_list s1 = drop (nat k) (sq_list s)"
proof -
  let ?n = "length (sq_elements s)"
  obtain h c where n: "sq_head s = int h" "sq_len s = int c" "h < ?n" "c < ?n" "sq_tail s = int ((h + c) mod ?n)"
    "sq_list s = ring_list (sq_elements s) (Suc h) c" "sq_elements s \<noteq> []"
    using sq_nats [OF assms(1)] .
  define m where "m = min (nat k) c"
  let ?p = "(h + m) mod ?n"
  let ?s = "s \<lparr> sq_head := int ?p \<rparr>"
  have k: "(if sq_len s < k then sq_len s else k) = int m" using n(2) assms(2) by (auto simp: m_def min_def nat_le_iff)
  have R: "SQueue_RemoveElement k s = Inr (int m, ?s)"
    using sq_mod_nat [OF n(7), of "h + m"] k n(1) by (simp add: SQueue_RemoveElement_def)
  have i: "sq_inv ?s" using assms(1) n(3,7) by (simp add: sq_inv_def)
  have "sq_tail ?s = int ((?p + (c - m)) mod length (sq_elements ?s))" 
  proof -
    have "h + m + (c - m) = h + c" by (simp add: m_def)
    then have "(?p + (c - m)) mod ?n = (h + c) mod ?n" by (simp only: mod_add_left_eq)
    then show ?thesis using n(5) by simp
  qed
  from sq_len_from [OF i _ this] have "sq_len ?s = int (c - m)" using n(4) by simp
  then have "sq_list ?s = ring_list (sq_elements s) (Suc ?p) (c - m)" by (simp only: sq_list_def) simp
  also have "\<dots> = ring_list (sq_elements s) (Suc h + m) (c - m)"
    using ring_list_mod [of "sq_elements s" "Suc ?p"] ring_list_mod [of "sq_elements s" "Suc h + m"] by (simp add: mod_Suc_eq)
  also have "\<dots> = drop m (sq_list s)" using n(6) by (simp add: ring_list_drop)
  also have "\<dots> = drop (nat k) (sq_list s)" using n(6) by (auto simp: m_def min_def)
  finally have "sq_list ?s = drop (nat k) (sq_list s)" .
  moreover have "min k (int (length (sq_list s))) = int m" using k n(2,6) by (auto simp: min_def)
  ultimately show ?thesis using R i by auto
qed

text \<open>Reading with a cursor: the values up to the first \<open>Next\<close> that has none.\<close>

primrec cursor_scan :: "nat \<Rightarrow> 'a squeue \<Rightarrow> int \<Rightarrow> go_panic + 'a list" where
  "cursor_scan 0 s pos = Inr []"
| "cursor_scan (Suc n) s pos =
     and_then (Cursor_Next s pos) (\<lambda>(x, p). case x of None \<Rightarrow> Inr [] | Some v \<Rightarrow> and_then (cursor_scan n s p) (\<lambda>vs. Inr (v # vs)))"

lemma cursor_scan_from:
  assumes "sq_elements s \<noteq> []" "sq_tail s = int ((h + c) mod length (sq_elements s))" "h < length (sq_elements s)" "c < length (sq_elements s)"
  shows "cursor_scan (Suc c) s (int h) = Inr (ring_list (sq_elements s) (Suc h) c)"
  using assms(2-4)
proof (induction c arbitrary: h)
  case 0
  then show ?case by (simp add: Cursor_Next_def)
next
  case (Suc c)
  let ?n = "length (sq_elements s)"
  let ?p = "Suc h mod ?n"
  have p: "?p < ?n" using assms(1) by simp
  have "int h \<noteq> sq_tail s" using Suc.prems mod_eq_zero_less [of h ?n "Suc c"] by (auto dest: sym)
  then have "Cursor_Next s (int h) = Inr (Some (sq_elements s ! ?p), int ?p)"
    using sq_mod_next [OF assms(1), of h] p by (simp add: Cursor_Next_def sq_get_def)
  moreover have "cursor_scan (Suc c) s (int ?p) = Inr (ring_list (sq_elements s) (Suc ?p) c)"
    by (rule Suc.IH) (use Suc.prems p in \<open>simp_all add: mod_add_left_eq\<close>)
  moreover have "ring_list (sq_elements s) (Suc ?p) c = ring_list (sq_elements s) (Suc (Suc h)) c"
    using ring_list_mod [of "sq_elements s" "Suc ?p"] ring_list_mod [of "sq_elements s" "Suc (Suc h)"] by (simp add: mod_Suc_eq)
  ultimately show ?case by (simp only: cursor_scan.simps(2) [of "Suc c"]) (simp add: ring_list_Suc)
qed

lemma cursor_reads_all:
  assumes "sq_inv s"
  shows "cursor_scan (Suc (length (sq_list s))) s (GetCursor s) = Inr (sq_list s)"
proof -
  obtain h c where n: "sq_head s = int h" "h < length (sq_elements s)" "c < length (sq_elements s)"
    "sq_tail s = int ((h + c) mod length (sq_elements s))" "sq_list s = ring_list (sq_elements s) (Suc h) c" "sq_elements s \<noteq> []"
    using sq_nats [OF assms] by metis
  show ?thesis using cursor_scan_from [OF n(6,4,2,3)] n(1,5) by (simp add: GetCursor_def del: cursor_scan.simps)
qed

text \<open>When the queue wraps around, a cursor that was found is still reported as not found.\<close>

lemma GetPosCursor_wrapped: "sq_tail s \<le> sq_head s \<Longrightarrow> \<not> snd (GetPosCursor pos s)"
  by (simp add: GetPosCursor_def)

subsection \<open>The queue with sequence numbers\<close>

definition mm_inv :: "'a mpmc \<Rightarrow> bool" where
  [inv_defs]: "mm_inv q \<longleftrightarrow>
     (\<exists>k c. 1 \<le> k \<and> k < 63 \<and> length (mm_buffer q) = 2 ^ k \<and> mm_mask q = of_nat (2 ^ k - 1) \<and> c \<le> 2 ^ k \<and> mm_tail q = mm_head q + of_nat c
        \<and> (\<forall>i < 2 ^ k. ms_sequence (mm_buffer q ! mm_index q (mm_head q + of_nat i)) = mm_head q + of_nat i + (if i < c then 1 else 0)))"

definition mm_count :: "'a mpmc \<Rightarrow> nat" where
  "mm_count q = unat (mm_tail q - mm_head q)"

definition mm_list :: "'a mpmc \<Rightarrow> 'a list" where
  "mm_list q = map (\<lambda>i. ms_value (mm_buffer q ! mm_index q (mm_head q + of_nat i))) [0..<mm_count q]"

lemma mm_index_mod: "k < 64 \<Longrightarrow> mm_mask q = of_nat (2 ^ k - 1) \<Longrightarrow> mm_index q (w + of_nat i) = (unat w + i) mod 2 ^ k"
  by (simp only: mm_index_def unat_and_pow2_mask unat_add_mod_pow2)

lemma mm_index_inj:
  assumes "k < 64" "mm_mask q = of_nat (2 ^ k - 1)" "i < 2 ^ k" "j < 2 ^ k" "mm_index q (w + of_nat i) = mm_index q (w + of_nat j)"
  shows "i = j"
  using mod_add_inj [of "unat w" i "2 ^ k" j] assms by (simp add: mm_index_mod)

lemma small_word: "c \<le> 2 ^ k \<Longrightarrow> k < 63 \<Longrightarrow> unat (of_nat c :: 64 word) = c \<and> sint (of_nat c :: 64 word) = int c"
proof -
  assume c: "c \<le> 2 ^ k" "k < 63"
  have "(2 :: nat) ^ k < 2 ^ 63" using c(2) by (intro power_strict_increasing) simp_all
  then have "c < 2 ^ 63" using c(1) by linarith
  moreover have "(of_nat c :: 64 word) = word_of_int (int c)" by simp
  moreover have "unat (of_nat c :: 64 word) = c mod 2 ^ 64" by (simp add: unat_of_nat)
  ultimately show ?thesis by (simp only: sint_sbintrunc') (simp add: signed_take_bit_int_eq_self)
qed


lemma MPMC_Push_spec:
  assumes "mm_inv q"
  obtains b q1 where "MPMC_Push q x = Some (b, q1)" "mm_inv q1" "length (mm_buffer q1) = length (mm_buffer q)"
    "(b, mm_list q1) = spec_push (Some (length (mm_buffer q))) (mm_list q) x" "\<not> b \<longrightarrow> q1 = q"
proof -
  obtain k c where I: "1 \<le> k" "k < 63" "length (mm_buffer q) = 2 ^ k" "mm_mask q = of_nat (2 ^ k - 1)" "c \<le> 2 ^ k" "mm_tail q = mm_head q + of_nat c"
    and sq: "\<And>i. i < 2 ^ k \<Longrightarrow> ms_sequence (mm_buffer q ! mm_index q (mm_head q + of_nat i)) = mm_head q + of_nat i + (if i < c then 1 else 0)"
    using assms unfolding mm_inv_def by blast
  have k64: "k < 64" using I(2) by simp
  have cnt: "mm_count q = c" using small_word [OF I(5,2)] I(6) by (simp add: mm_count_def)
  then have len: "length (mm_list q) = c" by (simp add: mm_list_def)
  show thesis
  proof (cases "c = 2 ^ k")
    case True
    have "mm_index q (mm_tail q) = mm_index q (mm_head q + of_nat 0)"
      using mm_index_mod [OF k64 I(4), of "mm_head q" c] mm_index_mod [OF k64 I(4), of "mm_head q" 0] I(6) True by simp
    then have s: "ms_sequence (mm_buffer q ! mm_index q (mm_tail q)) - mm_tail q = - of_nat (2 ^ k - 1)"
      using sq [of 0] True I(6) by (simp add: of_nat_diff)
    have k2: "(2 :: nat) \<le> 2 ^ k" using I(1) power_increasing [of 1 k "2 :: nat"] by simp
    have "sint (- of_nat (2 ^ k - 1) :: 64 word) = - int (2 ^ k - 1)"
    proof -
      define m where "m = 2 ^ k - (1 :: nat)"
      have "(2 :: nat) ^ k < 2 ^ 63" using I(2) by (intro power_strict_increasing) simp_all
      then have "m < 2 ^ 63" by (simp add: m_def)
      moreover have "(- of_nat m :: 64 word) = word_of_int (- int m)" by simp
      ultimately have "sint (- of_nat m :: 64 word) = - int m" by (simp only: sint_sbintrunc') (simp add: signed_take_bit_int_eq_self)
      then show ?thesis by (simp only: m_def)
    qed
    moreover have "0 < (2 :: nat) ^ k - 1" using k2 by linarith
    then have "0 < int (2 ^ k - 1)" by (simp only: of_nat_0_less_iff)
    ultimately have "MPMC_Push q x = Some (False, q)" unfolding MPMC_Push_def Let_def s by simp
    then show thesis by (rule that [OF _ assms refl]) (simp_all add: spec_push_def has_room_def len True I(3))
  next
    case False
    then have c: "c < 2 ^ k" using I(5) by simp
    let ?i = "mm_index q (mm_tail q)"
    let ?q = "q \<lparr> mm_tail := mm_tail q + 1, mm_buffer := (mm_buffer q)[?i := \<lparr> ms_sequence = mm_tail q + 1, ms_value = x \<rparr>] \<rparr>"
    have push: "MPMC_Push q x = Some (True, ?q)" using sq [OF c] I(6) by (simp add: MPMC_Push_def Let_def)
    have ix: "mm_index ?q w = mm_index q w" for w by (simp add: mm_index_def)
    have ilt: "?i < length (mm_buffer q)" using mm_index_mod [OF k64 I(4), of "mm_head q" c] I(3,6) by simp
    have ne: "mm_index q (mm_head q + of_nat i) \<noteq> ?i" if "i < 2 ^ k" "i \<noteq> c" for i
      using mm_index_inj [OF k64 I(4) that(1) c] that(2) I(6) by auto
    have "ms_sequence (mm_buffer ?q ! mm_index ?q (mm_head ?q + of_nat i)) = mm_head ?q + of_nat i + (if i < Suc c then 1 else 0)" if "i < 2 ^ k" for i
      using sq [OF that] ne [OF that] ilt I(6) unfolding ix by (cases "i = c") auto
    then have inv: "mm_inv ?q" unfolding mm_inv_def using I c by (intro exI [of _ k] exI [of _ "Suc c"]) (simp add: add.assoc)
    have cnt1: "mm_count ?q = Suc c" using small_word [of "Suc c" k] c I(2,6) by (simp add: mm_count_def add.commute)
    have "mm_list ?q = mm_list q @ [x]" unfolding mm_list_def cnt cnt1 ix using ne [THEN not_sym] c ilt I(6) by simp
    then show thesis by (intro that [OF push inv]) (simp_all add: spec_push_def has_room_def len c I(3))
  qed
qed

lemma MPMC_Pop_spec:
  assumes "mm_inv q"
  obtains r q1 where "MPMC_Pop q = Some (r, q1)" "mm_inv q1" "length (mm_buffer q1) = length (mm_buffer q)"
    "(r, mm_list q1) = spec_pop (mm_list q)" "r = None \<longrightarrow> q1 = q"
proof -
  obtain k c where I: "1 \<le> k" "k < 63" "length (mm_buffer q) = 2 ^ k" "mm_mask q = of_nat (2 ^ k - 1)" "c \<le> 2 ^ k" "mm_tail q = mm_head q + of_nat c"
    and sq: "\<And>i. i < 2 ^ k \<Longrightarrow> ms_sequence (mm_buffer q ! mm_index q (mm_head q + of_nat i)) = mm_head q + of_nat i + (if i < c then 1 else 0)"
    using assms unfolding mm_inv_def by blast
  have k64: "k < 64" using I(2) by simp
  have cnt: "mm_count q = c" using small_word [OF I(5,2)] I(6) by (simp add: mm_count_def)
  let ?i = "mm_index q (mm_head q)"
  have s0: "ms_sequence (mm_buffer q ! ?i) = mm_head q + (if 0 < c then 1 else 0)" using sq [of 0] by simp
  show thesis
  proof (cases c)
    case 0
    then have "ms_sequence (mm_buffer q ! ?i) - (mm_head q + 1) = - 1" using s0 by simp
    then have "MPMC_Pop q = Some (None, q)" unfolding MPMC_Pop_def Let_def by simp
    then show thesis by (rule that [OF _ assms refl]) (simp_all add: spec_pop_def mm_list_def cnt 0)
  next
    case (Suc d)
    let ?q = "q \<lparr> mm_head := mm_head q + 1, mm_buffer := (mm_buffer q)[?i := \<lparr> ms_sequence = mm_head q + mm_mask q + 1, ms_value = mm_nil q \<rparr>] \<rparr>"
    have pop: "MPMC_Pop q = Some (Some (ms_value (mm_buffer q ! ?i)), ?q)" using s0 Suc by (simp add: MPMC_Pop_def Let_def)
    have ix: "mm_index ?q w = mm_index q w" for w by (simp add: mm_index_def)
    have m0: "?i = unat (mm_head q) mod 2 ^ k" using mm_index_mod [OF k64 I(4), of "mm_head q" 0] by simp
    then have ilt: "?i < length (mm_buffer q)" using I(3) by simp
    have sh: "mm_head q + 1 + of_nat i = mm_head q + of_nat (Suc i)" for i by simp
    have ne: "mm_index q (mm_head q + of_nat i) \<noteq> ?i" if "i < 2 ^ k" "i \<noteq> 0" for i
      using mm_index_inj [OF k64 I(4) that(1), of 0] that(2) by auto
    have "ms_sequence (mm_buffer ?q ! mm_index ?q (mm_head ?q + of_nat i)) = mm_head ?q + of_nat i + (if i < d then 1 else 0)" if i: "i < 2 ^ k" for i
    proof (cases "Suc i = 2 ^ k")
      case True
      have "mm_index q (mm_head q + of_nat (Suc i)) = ?i" using mm_index_mod [OF k64 I(4), of "mm_head q" "Suc i"] m0 True by simp
      moreover have "mm_mask q = of_nat i" using I(4) True by (metis diff_Suc_1)
      moreover have "\<not> i < d" using True I(5) Suc by simp
      ultimately show ?thesis using ilt unfolding ix by (simp add: sh ac_simps)
    next
      case False
      then show ?thesis using sq [of "Suc i"] ne [of "Suc i"] i Suc unfolding ix by (simp add: sh ac_simps)
    qed
    moreover have "mm_tail ?q = mm_head ?q + of_nat d" using I(6) Suc by simp
    ultimately have inv: "mm_inv ?q" unfolding mm_inv_def using I Suc by (intro exI [of _ k] exI [of _ d]) simp
    have cnt1: "mm_count ?q = d" using small_word [of d k] I(2,5,6) Suc by (simp add: mm_count_def)
    have "mm_list q = ms_value (mm_buffer q ! ?i) # map (\<lambda>i. ms_value (mm_buffer q ! mm_index q (mm_head q + of_nat (Suc i)))) [0..<d]"
      unfolding mm_list_def cnt Suc by (simp add: upt_conv_Cons map_Suc_upt [symmetric] del: upt_Suc)
    moreover have "mm_list ?q = map (\<lambda>i. ms_value (mm_buffer q ! mm_index q (mm_head q + of_nat (Suc i)))) [0..<d]"

    proof -
      have "?i \<noteq> mm_index q (mm_head q + of_nat (Suc i))" if "i < d" for i using ne [of "Suc i"] that I(5) Suc by simp
      then show ?thesis unfolding mm_list_def cnt1 ix by (simp add: sh del: of_nat_Suc)
    qed
    ultimately show thesis by (intro that [OF pop inv]) (simp_all add: spec_pop_def)
  qed
qed


text \<open>The queue gives the interface, with the calls that return.\<close>

definition returned :: "'b \<Rightarrow> 'b option \<Rightarrow> 'b" where
  "returned d r = (case r of None \<Rightarrow> d | Some x \<Rightarrow> x)"

lemma returned_Some [simp]: "returned d (Some x) = x"
  by (simp add: returned_def)

lemma mm_count_list: "mm_inv q \<Longrightarrow> length (mm_list q) = mm_count q \<and> (MPMC_Empty q \<longleftrightarrow> mm_list q = [])"
  by (auto simp: mm_list_def mm_count_def MPMC_Empty_def unat_eq_0)

interpretation mm: fifo_queue mm_inv mm_list "\<lambda>q. Some (length (mm_buffer q))" "\<lambda>q x. returned (False, q) (MPMC_Push q x)"
  "\<lambda>q. returned (None, q) (MPMC_Pop q)" MPMC_Empty "\<lambda>q. int (mm_count q)"
proof unfold_locales
  fix q :: "'a mpmc" and x :: 'a
  assume i: "mm_inv q"
  obtain b q1 where p: "MPMC_Push q x = Some (b, q1)" "mm_inv q1" "length (mm_buffer q1) = length (mm_buffer q)"
    "(b, mm_list q1) = spec_push (Some (length (mm_buffer q))) (mm_list q) x" "\<not> b \<longrightarrow> q1 = q"
    using MPMC_Push_spec [OF i] .
  let ?p = "returned (False, q) (MPMC_Push q x)"
  show "mm_inv (snd ?p)" "(fst ?p, mm_list (snd ?p)) = spec_push (Some (length (mm_buffer q))) (mm_list q) x"
    "\<not> fst ?p \<Longrightarrow> snd ?p = q" "Some (length (mm_buffer (snd ?p))) = Some (length (mm_buffer q))"
    using p by simp_all
next
  fix q :: "'a mpmc"
  assume i: "mm_inv q"
  obtain r q1 where p: "MPMC_Pop q = Some (r, q1)" "mm_inv q1" "length (mm_buffer q1) = length (mm_buffer q)"
    "(r, mm_list q1) = spec_pop (mm_list q)" "r = None \<longrightarrow> q1 = q"
    using MPMC_Pop_spec [OF i] .
  let ?p = "returned (None, q) (MPMC_Pop q)"
  show "mm_inv (snd ?p)" "(fst ?p, mm_list (snd ?p)) = spec_pop (mm_list q)" "fst ?p = None \<Longrightarrow> snd ?p = q"
    "Some (length (mm_buffer (snd ?p))) = Some (length (mm_buffer q))"
    using p by simp_all
  show "MPMC_Empty q \<longleftrightarrow> mm_list q = []" "int (mm_count q) = int (length (mm_list q))" using mm_count_list [OF i] by simp_all
qed

text \<open>A capacity from two on is rounded up to a power of two, and the queue starts empty.\<close>

lemma NewMPMC_ok:
  assumes "2 \<le> capacity" "capacity < 2 ^ 62"
  shows "mm_inv (NewMPMC zero capacity) \<and> mm_list (NewMPMC zero capacity) = []"
proof -
  let ?C = "if capacity AND (capacity - 1) \<noteq> 0 then RoundUpToPowerOfTwoInt64 capacity else capacity"
  have "\<exists>k. 1 \<le> k \<and> k < 63 \<and> ?C = 2 ^ k"
  proof (cases "capacity AND (capacity - 1) = 0")
    case True
    then obtain k where k: "capacity = 2 ^ k" using and_pred_zero_iff [of capacity] assms(1) by (auto simp: is_pow2_def)
    then have "(2 :: int) ^ k < 2 ^ 62" "(2 :: int) ^ 1 \<le> 2 ^ k" using assms by simp_all
    then have "k < 62" "1 \<le> k" by (simp_all only: power_strict_increasing_iff power_increasing_iff)
    then show ?thesis using True k by (intro exI [of _ k]) simp
  next
    case False
    have "nat (capacity - 1) < 2 ^ 62" using assms(2) by simp
    then have "bits_Len (nat (capacity - 1)) \<le> 62" by (rule bits_Len_le)
    moreover have "1 \<le> bits_Len (nat (capacity - 1))"
      using bits_Len_upper [of "nat (capacity - 1)"] assms(1) by (cases "bits_Len (nat (capacity - 1))") simp_all
    ultimately show ?thesis using False RoundUp_eq [of capacity] assms by (intro exI [of _ "bits_Len (nat (capacity - 1))"]) (simp add: RoundUp64_same)
  qed
  then obtain k where k: "1 \<le> k" "k < 63" "?C = 2 ^ k" by blast
  define q where "q = NewMPMC zero capacity"
  have q: "mm_head q = 0" "mm_tail q = 0" "mm_mask q = of_nat (2 ^ k - 1)"
    "mm_buffer q = map (\<lambda>i. \<lparr> ms_sequence = of_nat i, ms_value = zero \<rparr>) [0..<2 ^ k]"
    using assms(1) k(3) by (simp_all add: q_def NewMPMC_def Let_def nat_power_eq of_nat_diff split: if_splits)
  have "mm_index q (of_nat i) = i" if "i < 2 ^ k" for i using mm_index_mod [of k q 0 i] q(3) k(2) that by simp
  then have "mm_inv q" unfolding mm_inv_def using k(1,2) q by (intro exI [of _ k] exI [of _ 0]) simp
  moreover have "mm_list q = []" using q(1,2) by (simp add: mm_list_def mm_count_def)
  ultimately show ?thesis by (simp add: q_def)
qed

section \<open>Properties\<close>

text \<open>
  One after another, the calls of a new lock-free queue return, and what was accepted is what was handed out, in order, followed by what is still queued; for every capacity from two on.
\<close>

theorem MPMC_fifo:
  assumes "2 \<le> capacity" "capacity < 2 ^ 62"
    and "queue_run (\<lambda>q x. returned (False, q) (MPMC_Push q x)) (\<lambda>q. returned (None, q) (MPMC_Pop q)) (NewMPMC zero capacity) cs = (rs, q)"
  shows "accepted cs rs = dequeued rs @ mm_list q \<and> MPMC_Push q x \<noteq> None \<and> MPMC_Pop q \<noteq> None"
proof -
  note new = NewMPMC_ok [OF assms(1,2), of zero]
  have i: "mm_inv q" using mm.run_refines [OF conjunct1 [OF new] assms(3)] by simp
  obtain b q1 r q2 where "MPMC_Push q x = Some (b, q1)" "MPMC_Pop q = Some (r, q2)"
    using MPMC_Push_spec [OF i] MPMC_Pop_spec [OF i] by metis
  moreover have "mm_list (NewMPMC zero capacity) @ accepted cs rs = dequeued rs @ mm_list q" by (rule mm.run_conserves [OF conjunct1 [OF new] assms(3)])
  ultimately show ?thesis using new by simp
qed

text \<open>
  With capacity one the queue is broken: the sequence number of a full slot is the one of a free slot of the next round, so a second \<open>Push\<close> overwrites the value of the
  first, and the \<open>Pop\<close> after it never returns.
\<close>

theorem MPMC_capacity_one:
  "\<exists>q1 q2. MPMC_Push (NewMPMC zero 1) x = Some (True, q1) \<and> MPMC_Push q1 y = Some (True, q2)
     \<and> ms_value (mm_buffer q2 ! 0) = y \<and> length (mm_buffer q2) = 1 \<and> MPMC_Pop q2 = None"
  by (simp add: NewMPMC_def MPMC_Push_def MPMC_Pop_def mm_index_def Let_def)

text \<open>
  A cursor reads the queued values in order; \<open>Next\<close> tells the end. The position of \<open>GetPosCursor\<close> is reported as not found whenever the queue wraps around.
\<close>

theorem cursor_reads_queue:
  assumes "sq_inv s"
  shows "cursor_scan (Suc (length (sq_list s))) s (GetCursor s) = Inr (sq_list s) \<and> (sq_tail s \<le> sq_head s \<longrightarrow> \<not> snd (GetPosCursor pos s))"
  using cursor_reads_all [OF assms] GetPosCursor_wrapped by blast

end
