(* ===== verification/Cron.thy ===== *)
theory Cron
  imports Ember_Prelude
begin

text \<open>
  Cron expressions: \<open>engine/pkg/utils/timingwheel/cron.go\<close> and \<open>constantdelay.go\<close>, with the schedules of \<open>spec.go\<close>.

  Text is ASCII. A field of a schedule is a 64-bit set; the bounds of ranges and the steps come from \<open>Atoi\<close> and are below \<open>2 ^ 63\<close>, so that they are natural
  numbers whose sums do not wrap. A slice expression out of range and a loop that does not end are results of their own. The database of time zones
  (\<open>time.LoadLocation\<close>) is an argument, and so is \<open>time.ParseDuration\<close>, whose fractions are computed in floating point.
\<close>

section \<open>Definitions\<close>

subsection \<open>Schedules\<close>

record 'l spec_schedule =
  ss_Second :: u64
  ss_Minute :: u64
  ss_Hour :: u64
  ss_Dom :: u64
  ss_Month :: u64
  ss_Dow :: u64
  ss_Location :: 'l

datatype 'l cron_schedule = SpecSchedule "'l spec_schedule" | ConstantDelaySchedule int

definition Every :: "int \<Rightarrow> int" where
  "Every duration0 = (let duration = (if duration0 < 1000000000 then 1000000000 else duration0) in duration - go_mod duration 1000000000)"

text \<open>The next time of a constant delay, in nanoseconds; the nanoseconds within the second are dropped.\<close>

definition ConstantDelay_Next :: "int \<Rightarrow> int \<Rightarrow> int" where
  "ConstantDelay_Next delay t = t + (delay - t mod 1000000000)"

record bounds =
  bd_min :: nat
  bd_max :: nat
  bd_names :: "(string, nat) gomap"

definition seconds :: bounds where "seconds = \<lparr> bd_min = 0, bd_max = 59, bd_names = [] \<rparr>"
definition minutes :: bounds where "minutes = \<lparr> bd_min = 0, bd_max = 59, bd_names = [] \<rparr>"
definition hours :: bounds where "hours = \<lparr> bd_min = 0, bd_max = 23, bd_names = [] \<rparr>"
definition dom_bounds :: bounds where "dom_bounds = \<lparr> bd_min = 1, bd_max = 31, bd_names = [] \<rparr>"
definition months :: bounds where
  "months = \<lparr> bd_min = 1, bd_max = 12, bd_names =
     [(''jan'', 1), (''feb'', 2), (''mar'', 3), (''apr'', 4), (''may'', 5), (''jun'', 6), (''jul'', 7), (''aug'', 8), (''sep'', 9), (''oct'', 10), (''nov'', 11), (''dec'', 12)] \<rparr>"
definition dow_bounds :: bounds where
  "dow_bounds = \<lparr> bd_min = 0, bd_max = 6, bd_names = [(''sun'', 0), (''mon'', 1), (''tue'', 2), (''wed'', 3), (''thu'', 4), (''fri'', 5), (''sat'', 6)] \<rparr>"

definition starBit :: u64 where
  "starBit = push_bit 63 1"

subsection \<open>Ranges\<close>

datatype cron_error =
  Empty_spec | Bad_location string | No_descriptors | Multiple_optionals | Field_count nat nat nat | Unknown_optional | Not_a_number string | Negative_number string
  | Too_many_hyphens string | Too_many_slashes string | Below_minimum string | Above_maximum string | Beyond_end string | Zero_step string
  | Bad_duration string | Unrecognized_descriptor string | Cron_panic go_panic

text \<open>\<open>strconv.Atoi\<close>.\<close>

definition is_digit :: "char \<Rightarrow> bool" where
  "is_digit c \<longleftrightarrow> (let n = of_char c :: nat in 48 \<le> n \<and> n \<le> 57)"

definition decimal_value :: "string \<Rightarrow> int" where
  "decimal_value s = foldl (\<lambda>v c. v * 10 + (of_char c - 48)) 0 s"

definition go_Atoi :: "string \<Rightarrow> int option" where
  "go_Atoi s =
     (let neg = (take 1 s = ''-''); ds = (if take 1 s \<in> {''-'', ''+''} then drop 1 s else s)
      in if ds = [] \<or> \<not> list_all is_digit ds then None
         else let v = (if neg then - decimal_value ds else decimal_value ds) in if - (2 ^ 63) \<le> v \<and> v < 2 ^ 63 then Some v else None)"

definition mustParseInt :: "string \<Rightarrow> cron_error + nat" where
  "mustParseInt expr =
     (case go_Atoi expr of None \<Rightarrow> Inl (Not_a_number expr) | Some num \<Rightarrow> if num < 0 then Inl (Negative_number expr) else Inr (nat num))"

definition parseIntOrName :: "string \<Rightarrow> (string, nat) gomap \<Rightarrow> cron_error + nat" where
  "parseIntOrName expr names = (case gm_get names (ToLower expr) of Some n \<Rightarrow> Inr n | None \<Rightarrow> mustParseInt expr)"

text \<open>The loop of \<open>getBits\<close>; it does not end with a step of zero.\<close>

partial_function (option) bits_loop :: "nat \<Rightarrow> nat \<Rightarrow> nat \<Rightarrow> u64 \<Rightarrow> u64 option" where
  [code]: "bits_loop i mx step bits = (if i \<le> mx then bits_loop (i + step) mx step (bits OR push_bit i 1) else Some bits)"

definition getBits :: "nat \<Rightarrow> nat \<Rightarrow> nat \<Rightarrow> u64 option" where
  "getBits mn mx step =
     (if step = 1 then Some (NOT (push_bit (mx + 1) (- 1)) AND push_bit mn (- 1)) else bits_loop mn mx step 0)"

definition all_bits :: "bounds \<Rightarrow> u64 option" where
  "all_bits r = map_option (\<lambda>b. b OR starBit) (getBits (bd_min r) (bd_max r) 1)"

text \<open>The first part of \<open>getRange\<close>: start, end, step and the extra bit of an expression, checked.\<close>

definition low_high :: "string \<Rightarrow> string list \<Rightarrow> bounds \<Rightarrow> cron_error + nat \<times> nat \<times> u64" where
  "low_high expr lowAndHigh r =
     (if lowAndHigh ! 0 \<in> {''*'', ''?''} then Inr (bd_min r, bd_max r, starBit)
      else and_then (parseIntOrName (lowAndHigh ! 0) (bd_names r)) (\<lambda>start.
           if length lowAndHigh = 1 then Inr (start, start, 0)
           else if length lowAndHigh = 2 then and_then (parseIntOrName (lowAndHigh ! 1) (bd_names r)) (\<lambda>stop. Inr (start, stop, 0))
           else Inl (Too_many_hyphens expr)))"

definition range_parts :: "string \<Rightarrow> bounds \<Rightarrow> cron_error + nat \<times> nat \<times> nat \<times> u64" where
  "range_parts expr r =
     (let rangeAndStep = split_by (\<lambda>c. c = CHR ''/'') expr; lowAndHigh = split_by (\<lambda>c. c = CHR ''-'') (rangeAndStep ! 0); singleDigit = (length lowAndHigh = 1)
      in and_then (low_high expr lowAndHigh r) (\<lambda>(start, stop0, extra0).
         and_then (if length rangeAndStep = 1 then Inr (1, stop0, extra0)
                   else if length rangeAndStep = 2
                        then and_then (mustParseInt (rangeAndStep ! 1)) (\<lambda>step. Inr (step, if singleDigit then bd_max r else stop0, if 1 < step then 0 else extra0))
                   else Inl (Too_many_slashes expr)) (\<lambda>(step, stop, extra).
           if start < bd_min r then Inl (Below_minimum expr)
           else if bd_max r < stop then Inl (Above_maximum expr)
           else if stop < start then Inl (Beyond_end expr)
           else if step = 0 then Inl (Zero_step expr)
           else Inr (start, stop, step, extra))))"

definition getRange :: "string \<Rightarrow> bounds \<Rightarrow> (cron_error + u64) option" where
  "getRange expr r =
     (case range_parts expr r of
        Inl e \<Rightarrow> Some (Inl e)
      | Inr (start, stop, step, extra) \<Rightarrow> map_option (\<lambda>b. Inr (b OR extra)) (getBits start stop step))"

text \<open>A sequence of steps one of which may fail or not return.\<close>

definition then_opt :: "('e + 'a) option \<Rightarrow> ('a \<Rightarrow> ('e + 'b) option) \<Rightarrow> ('e + 'b) option" where
  "then_opt r f = (case r of None \<Rightarrow> None | Some (Inl e) \<Rightarrow> Some (Inl e) | Some (Inr x) \<Rightarrow> f x)"

primrec field_ranges :: "string list \<Rightarrow> bounds \<Rightarrow> u64 \<Rightarrow> (cron_error + u64) option" where
  "field_ranges [] r bits = Some (Inr bits)"
| "field_ranges (expr # exprs) r bits = then_opt (getRange expr r) (\<lambda>bit. field_ranges exprs r (bits OR bit))"

definition getField :: "string \<Rightarrow> bounds \<Rightarrow> (cron_error + u64) option" where
  "getField fld r = field_ranges (FieldsFunc (\<lambda>c. c = CHR '','') fld) r 0"

subsection \<open>Fields\<close>

abbreviation (input) "P_Second \<equiv> (1 :: int)"
abbreviation (input) "P_SecondOptional \<equiv> (2 :: int)"
abbreviation (input) "P_Minute \<equiv> (4 :: int)"
abbreviation (input) "P_Hour \<equiv> (8 :: int)"
abbreviation (input) "P_Dom \<equiv> (16 :: int)"
abbreviation (input) "P_Month \<equiv> (32 :: int)"
abbreviation (input) "P_Dow \<equiv> (64 :: int)"
abbreviation (input) "P_DowOptional \<equiv> (128 :: int)"
abbreviation (input) "P_Descriptor \<equiv> (256 :: int)"

definition places :: "int list" where
  "places = [P_Second, P_Minute, P_Hour, P_Dom, P_Month, P_Dow]"

definition field_defaults :: "string list" where
  "field_defaults = [''0'', ''0'', ''0'', ''*'', ''*'', ''*'']"

text \<open>The last loop of \<open>normalizeFields\<close>: the places that the options have take the next field. The count was checked, so there is one.\<close>

fun fill_places :: "int \<Rightarrow> (int \<times> string) list \<Rightarrow> string list \<Rightarrow> cron_error + string list" where
  "fill_places options [] flds = Inr []"
| "fill_places options ((place, dflt) # ps) flds =
     (if 0 < options AND place
      then (case flds of [] \<Rightarrow> Inl (Cron_panic (Go_Panic ''index out of range'')) | f # fs \<Rightarrow> and_then (fill_places options ps fs) (\<lambda>r. Inr (f # r)))
      else and_then (fill_places options ps flds) (\<lambda>r. Inr (dflt # r)))"

definition normalizeFields :: "string list \<Rightarrow> int \<Rightarrow> cron_error + string list" where
  "normalizeFields flds0 options0 =
     (let secOpt = (0 < options0 AND P_SecondOptional);
          options1 = (if secOpt then options0 OR P_Second else options0);
          dowOpt = (0 < options1 AND P_DowOptional);
          options = (if dowOpt then options1 OR P_Dow else options1);
          optionals = (if secOpt then 1 else 0) + (if dowOpt then 1 else (0 :: nat))
      in if 1 < optionals then Inl Multiple_optionals
         else let mx = length (filter (\<lambda>p. 0 < options AND p) places); mn = mx - optionals; cnt = length flds0
              in if cnt < mn \<or> mx < cnt then Inl (Field_count mn mx cnt)
                 else and_then
                   (if mn < mx \<and> cnt = mn
                    then if 0 < options AND P_DowOptional then Inr (flds0 @ [field_defaults ! 5])
                         else if 0 < options AND P_SecondOptional then Inr ((field_defaults ! 0) # flds0)
                         else Inl Unknown_optional
                    else Inr flds0)
                   (fill_places options (zip places field_defaults)))"

subsection \<open>Expressions\<close>

definition one_bit :: "nat \<Rightarrow> u64 option" where
  "one_bit n = Some (push_bit n 1)"

definition spec_of :: "u64 option \<Rightarrow> u64 option \<Rightarrow> u64 option \<Rightarrow> u64 option \<Rightarrow> u64 option \<Rightarrow> u64 option \<Rightarrow> 'l \<Rightarrow> (cron_error + 'l cron_schedule) option" where
  "spec_of s m h d mo w loc =
     Option.bind s (\<lambda>s. Option.bind m (\<lambda>m. Option.bind h (\<lambda>h. Option.bind d (\<lambda>d. Option.bind mo (\<lambda>mo. Option.bind w (\<lambda>w.
       Some (Inr (SpecSchedule \<lparr> ss_Second = s, ss_Minute = m, ss_Hour = h, ss_Dom = d, ss_Month = mo, ss_Dow = w, ss_Location = loc \<rparr>))))))))"

definition parseDescriptor :: "(string \<Rightarrow> int option) \<Rightarrow> string \<Rightarrow> 'l \<Rightarrow> (cron_error + 'l cron_schedule) option" where
  "parseDescriptor ParseDuration descriptor loc =
     (let s = one_bit (bd_min seconds); m = one_bit (bd_min minutes); h = one_bit (bd_min hours); d = one_bit (bd_min dom_bounds); mo = one_bit (bd_min months); w = one_bit (bd_min dow_bounds)
      in if descriptor \<in> {''@yearly'', ''@annually''} then spec_of s m h d mo (all_bits dow_bounds) loc
         else if descriptor = ''@monthly'' then spec_of s m h d (all_bits months) (all_bits dow_bounds) loc
         else if descriptor = ''@weekly'' then spec_of s m h (all_bits dom_bounds) (all_bits months) w loc
         else if descriptor \<in> {''@daily'', ''@midnight''} then spec_of s m h (all_bits dom_bounds) (all_bits months) (all_bits dow_bounds) loc
         else if descriptor = ''@hourly'' then spec_of s m (all_bits hours) (all_bits dom_bounds) (all_bits months) (all_bits dow_bounds) loc
         else if prefix ''@every '' descriptor
              then (case ParseDuration (drop (length ''@every '') descriptor) of
                      None \<Rightarrow> Some (Inl (Bad_duration descriptor))
                    | Some duration \<Rightarrow> Some (Inr (ConstantDelaySchedule (Every duration))))
         else Some (Inl (Unrecognized_descriptor descriptor)))"

text \<open>\<open>strings.Index\<close> of a character.\<close>

definition go_index :: "char \<Rightarrow> string \<Rightarrow> int" where
  "go_index c s = (let k = length (takeWhile (\<lambda>x. x \<noteq> c) s) in if k = length s then -1 else int k)"

text \<open>\<open>s[a:b]\<close>.\<close>

definition go_slice :: "string \<Rightarrow> int \<Rightarrow> int \<Rightarrow> cron_error + string" where
  "go_slice s a b =
     (if 0 \<le> a \<and> a \<le> b \<and> b \<le> int (length s) then Inr (take (nat b - nat a) (drop (nat a) s)) else Inl (Cron_panic (Go_Panic ''slice bounds out of range'')))"

text \<open>The time zone in front of an expression, and the expression after it.\<close>

definition take_location :: "(string \<Rightarrow> 'l option) \<Rightarrow> 'l \<Rightarrow> string \<Rightarrow> cron_error + 'l \<times> string" where
  "take_location LoadLocation Local spec =
     (if prefix ''TZ='' spec \<or> prefix ''CRON_TZ='' spec
      then let i = go_index (CHR '' '') spec; eq = go_index (CHR ''='') spec
           in and_then (go_slice spec (eq + 1) i) (\<lambda>name.
              case LoadLocation name of
                None \<Rightarrow> Inl (Bad_location name)
              | Some loc \<Rightarrow> and_then (go_slice spec i (int (length spec))) (\<lambda>rest. Inr (loc, TrimSpace rest)))
      else Inr (Local, spec))"

definition Parse :: "(string \<Rightarrow> 'l option) \<Rightarrow> 'l \<Rightarrow> (string \<Rightarrow> int option) \<Rightarrow> int \<Rightarrow> string \<Rightarrow> (cron_error + 'l cron_schedule) option" where
  "Parse LoadLocation Local ParseDuration options spec0 =
     (if spec0 = [] then Some (Inl Empty_spec)
      else then_opt (Some (take_location LoadLocation Local spec0)) (\<lambda>(loc, spec).
        if prefix ''@'' spec
        then if options AND P_Descriptor = 0 then Some (Inl No_descriptors) else parseDescriptor ParseDuration spec loc
        else then_opt (Some (normalizeFields (FieldsFunc is_space spec) options)) (\<lambda>flds.
             then_opt (getField (flds ! 0) seconds) (\<lambda>s.
             then_opt (getField (flds ! 1) minutes) (\<lambda>m.
             then_opt (getField (flds ! 2) hours) (\<lambda>h.
             then_opt (getField (flds ! 3) dom_bounds) (\<lambda>d.
             then_opt (getField (flds ! 4) months) (\<lambda>mo.
             then_opt (getField (flds ! 5) dow_bounds) (\<lambda>w.
               Some (Inr (SpecSchedule \<lparr> ss_Second = s, ss_Minute = m, ss_Hour = h, ss_Dom = d, ss_Month = mo, ss_Dow = w, ss_Location = loc \<rparr>))))))))))) "

definition standard_options :: int where
  "standard_options = P_Minute OR P_Hour OR P_Dom OR P_Month OR P_Dow OR P_Descriptor"

definition ParseStandard :: "(string \<Rightarrow> 'l option) \<Rightarrow> 'l \<Rightarrow> (string \<Rightarrow> int option) \<Rightarrow> string \<Rightarrow> (cron_error + 'l cron_schedule) option" where
  "ParseStandard LoadLocation Local ParseDuration spec = Parse LoadLocation Local ParseDuration standard_options spec"

text \<open>The parser of the timers (\<open>init.go\<close>).\<close>

definition timer_options :: int where
  "timer_options = P_Second OR P_Minute OR P_Hour OR P_Dom OR P_Month OR P_Dow OR P_DowOptional OR P_Descriptor"

section \<open>Lemmas\<close>

subsection \<open>Ranges\<close>

lemma bit_shift_ones: "bit (push_bit n (- 1 :: u64)) i \<longleftrightarrow> n \<le> i \<and> i < 64"
  by (simp add: bit_not_iff bit_mask_iff possible_bit_def) auto

lemma bit_one_at: "bit (push_bit n (1 :: u64)) k \<longleftrightarrow> k = n \<and> n < 64"
  by (simp only: bit_push_bit_iff possible_bit_def bit_1_iff) auto

lemma getBits_one:
  "getBits mn mx 1 = Some b \<Longrightarrow> bit b i \<longleftrightarrow> mn \<le> i \<and> i \<le> mx \<and> i < 64"
proof -
  assume "getBits mn mx 1 = Some b"
  then have b: "b = NOT (push_bit (mx + 1) (- 1)) AND push_bit mn (- 1)" by (auto simp only: getBits_def simp_thms if_True option.inject)
  show "bit b i \<longleftrightarrow> mn \<le> i \<and> i \<le> mx \<and> i < 64" unfolding b bit_and_iff bit_not_iff bit_shift_ones possible_bit_def by auto
qed

lemma dvd_step:
  fixes d step :: nat
  assumes "0 < step"
  shows "d = 0 \<or> step \<le> d \<and> step dvd d - step \<longleftrightarrow> step dvd d"
proof (cases "step \<le> d")
  case True
  then show ?thesis using assms by (auto simp: dvd_minus_self)
next
  case False
  then show ?thesis using assms by (auto dest: dvd_imp_le)
qed

text \<open>The loop ends when the step is positive, and sets the bits of the progression.\<close>

lemma bits_loop_sets:
  assumes "0 < step"
  shows "\<exists>b. bits_loop i mx step bits = Some b \<and> (\<forall>k < 64. bit b k \<longleftrightarrow> bit bits k \<or> i \<le> k \<and> k \<le> mx \<and> step dvd k - i)"
proof (induction "Suc mx - i" arbitrary: i bits rule: less_induct)
  case less
  show ?case
  proof (cases "i \<le> mx")
    case False
    then show ?thesis by (subst bits_loop.simps) auto
  next
    case True
    then have "Suc mx - (i + step) < Suc mx - i" using assms by linarith
    from less [OF this] obtain b where b: "bits_loop (i + step) mx step (bits OR push_bit i 1) = Some b"
      "\<forall>k < 64. bit b k \<longleftrightarrow> bit (bits OR push_bit i 1) k \<or> i + step \<le> k \<and> k \<le> mx \<and> step dvd k - (i + step)"
      by blast
    have "bit (bits OR push_bit i 1) k \<or> i + step \<le> k \<and> k \<le> mx \<and> step dvd k - (i + step) \<longleftrightarrow> bit bits k \<or> i \<le> k \<and> k \<le> mx \<and> step dvd k - i" if "k < 64" for k
    proof -
      have "bit (bits OR push_bit i 1) k \<longleftrightarrow> bit bits k \<or> k = i"
        using that by (auto simp only: bit_or_iff bit_one_at)
      moreover have "k = i \<or> i + step \<le> k \<and> step dvd k - (i + step) \<longleftrightarrow> i \<le> k \<and> step dvd k - i"
        using dvd_step [OF assms, of "k - i"] by (cases "i \<le> k") auto
      ultimately show ?thesis using True by auto
    qed
    then show ?thesis using True b by (subst bits_loop.simps) auto
  qed
qed

lemma getBits_sets:
  assumes "0 < step" "mx < 64"
  obtains b where "getBits mn mx step = Some b" "\<And>k. bit b k \<longleftrightarrow> mn \<le> k \<and> k \<le> mx \<and> step dvd k - mn"
proof (cases "step = 1")
  case True
  then obtain b where "getBits mn mx step = Some b" by (simp add: getBits_def)
  moreover have "bit b k \<longleftrightarrow> mn \<le> k \<and> k \<le> mx \<and> step dvd k - mn" for k using getBits_one [of mn mx b k] calculation True assms(2) by auto
  ultimately show thesis by (rule that)
next
  case False
  obtain b where b: "bits_loop mn mx step 0 = Some b" "\<forall>k < 64. bit b k \<longleftrightarrow> bit (0 :: u64) k \<or> mn \<le> k \<and> k \<le> mx \<and> step dvd k - mn"
    using bits_loop_sets [OF assms(1)] by blast
  have "bit b k \<longleftrightarrow> mn \<le> k \<and> k \<le> mx \<and> step dvd k - mn" for k
    using b(2) assms(2) bit_imp_le_length [of b k] by (cases "k < 64") auto
  then show thesis using that b(1) False by (simp add: getBits_def)
qed

definition bounds_ok :: "bounds \<Rightarrow> bool" where
  "bounds_ok r \<longleftrightarrow> bd_min r \<le> bd_max r \<and> bd_max r < 63"

lemma all_bounds_ok [simp]: "bounds_ok seconds" "bounds_ok minutes" "bounds_ok hours" "bounds_ok dom_bounds" "bounds_ok months" "bounds_ok dow_bounds"
  by (simp_all add: bounds_ok_def seconds_def minutes_def hours_def dom_bounds_def months_def dow_bounds_def)

lemma low_high_extra: "low_high expr lh r = Inr (start, stop, extra) \<Longrightarrow> extra = 0 \<or> extra = starBit \<and> start = bd_min r \<and> stop = bd_max r"
  unfolding low_high_def by (auto split: if_split_asm)

lemma range_parts_ok:
  "range_parts expr r = Inr (start, stop, step, extra) \<Longrightarrow> bd_min r \<le> start \<and> start \<le> stop \<and> stop \<le> bd_max r \<and> 0 < step
     \<and> (extra = 0 \<or> extra = starBit \<and> start = bd_min r \<and> stop = bd_max r \<and> step = 1)"
proof -
  define rs where "rs = split_by (\<lambda>c. c = CHR ''/'') expr"
  define lh where "lh = split_by (\<lambda>c. c = CHR ''-'') (rs ! 0)"
  assume "range_parts expr r = Inr (start, stop, step, extra)"
  then obtain st sp0 ex0 where l: "low_high expr lh r = Inr (st, sp0, ex0)"
    and R: "and_then (if length rs = 1 then Inr (1, sp0, ex0)
                   else if length rs = 2
                        then and_then (mustParseInt (rs ! 1)) (\<lambda>step. Inr (step, if length lh = 1 then bd_max r else sp0, if 1 < step then 0 else ex0))
                   else Inl (Too_many_slashes expr)) (\<lambda>(step, stop, extra).
           if st < bd_min r then Inl (Below_minimum expr)
           else if bd_max r < stop then Inl (Above_maximum expr)
           else if stop < st then Inl (Beyond_end expr)
           else if step = 0 then Inl (Zero_step expr)
           else Inr (st, stop, step, extra)) = Inr (start, stop, step, extra)"
    unfolding range_parts_def Let_def rs_def [symmetric] lh_def [symmetric] and_then_eq_Inr by auto
  have ex: "ex0 = 0 \<or> ex0 = starBit \<and> st = bd_min r \<and> sp0 = bd_max r" by (rule low_high_extra [OF l])
  from R show ?thesis using ex by (auto split: if_split_asm)
qed

lemma bit_starBit: "bit starBit k \<longleftrightarrow> k = 63"
  by (simp only: starBit_def bit_one_at) auto

text \<open>A set of a field: the star only with all values, and no value outside the bounds.\<close>

definition within :: "bounds \<Rightarrow> u64 \<Rightarrow> bool" where
  "within r w \<longleftrightarrow> (\<forall>k < 63. bit w k \<longrightarrow> bd_min r \<le> k \<and> k \<le> bd_max r) \<and> (bit w 63 \<longrightarrow> (\<forall>k. bd_min r \<le> k \<and> k \<le> bd_max r \<longrightarrow> bit w k))"

subsection \<open>Fields\<close>

lemma within_or: "within r a \<Longrightarrow> within r b \<Longrightarrow> within r (a OR b)"
  by (auto simp: within_def bit_or_iff)

lemma within_0 [simp]: "within r 0"
  by (simp add: within_def)

text \<open>A range as text: its values, when it can be read.\<close>

definition range_values :: "bounds \<Rightarrow> string \<Rightarrow> nat set" where
  "range_values r expr = {k. \<exists>start stop step extra. range_parts expr r = Inr (start, stop, step, extra) \<and> start \<le> k \<and> k \<le> stop \<and> step dvd k - start}"

lemma getRange_values:
  assumes "bounds_ok r"
  shows "\<exists>res. getRange expr r = Some res \<and> (\<forall>w. res = Inr w \<longrightarrow> within r w \<and> (\<forall>k < 63. bit w k \<longleftrightarrow> k \<in> range_values r expr))"
proof (cases "range_parts expr r")
  case (Inl e)
  then show ?thesis by (simp add: getRange_def)
next
  case (Inr p)
  obtain start stop step extra where p: "p = (start, stop, step, extra)" by (cases p)
  note ok = range_parts_ok [OF Inr [unfolded p]]
  then have "0 < step" "stop < 64" using assms by (auto simp: bounds_ok_def)
  then obtain b where b: "getBits start stop step = Some b" "\<And>k. bit b k \<longleftrightarrow> start \<le> k \<and> k \<le> stop \<and> step dvd k - start" using getBits_sets by metis
  have "starBit \<noteq> 0" by (simp add: starBit_def)
  then have e: "bit extra k \<longleftrightarrow> k = 63 \<and> extra = starBit" for k using ok by (auto simp: bit_starBit)
  have lt: "stop < 63" using ok assms by (auto simp: bounds_ok_def)
  have "\<forall>k < 63. bit (b OR extra) k \<longleftrightarrow> k \<in> range_values r expr" using Inr p by (simp add: bit_or_iff b(2) e range_values_def)
  moreover have "within r (b OR extra)" using ok lt unfolding within_def bit_or_iff b(2) e by (auto simp: starBit_def)
  moreover have "getRange expr r = Some (Inr (b OR extra))" using Inr p b(1) by (simp add: getRange_def)
  ultimately show ?thesis by simp
qed

lemma field_ranges_values:
  assumes "bounds_ok r" "within r bits"
  shows "\<exists>res. field_ranges exprs r bits = Some res
    \<and> (\<forall>w. res = Inr w \<longrightarrow> within r w \<and> (\<forall>k < 63. bit w k \<longleftrightarrow> bit bits k \<or> (\<exists>expr \<in> set exprs. k \<in> range_values r expr)))"
  using assms(2)
proof (induction exprs arbitrary: bits)
  case (Cons expr exprs)
  obtain res where res: "getRange expr r = Some res" "\<And>w. res = Inr w \<Longrightarrow> within r w \<and> (\<forall>k < 63. bit w k \<longleftrightarrow> k \<in> range_values r expr)"
    using getRange_values [OF assms(1), of expr] by blast
  show ?case
  proof (cases res)
    case (Inl e)
    then show ?thesis using res(1) by (simp add: then_opt_def)
  next
    case (Inr w)
    note w = res(2) [OF Inr]
    obtain res2 where r2: "field_ranges exprs r (bits OR w) = Some res2"
      "\<And>v. res2 = Inr v \<Longrightarrow> within r v \<and> (\<forall>k < 63. bit v k \<longleftrightarrow> bit (bits OR w) k \<or> (\<exists>expr \<in> set exprs. k \<in> range_values r expr))"
      using Cons.IH [OF within_or [OF Cons.prems]] w by blast
    have "field_ranges (expr # exprs) r bits = Some res2" using res(1) Inr r2(1) by (simp add: then_opt_def)
    moreover have "\<forall>v. res2 = Inr v \<longrightarrow> within r v \<and> (\<forall>k < 63. bit v k \<longleftrightarrow> bit bits k \<or> (\<exists>x \<in> set (expr # exprs). k \<in> range_values r x))"
      using r2(2) w by (auto simp: bit_or_iff)
    ultimately show ?thesis by blast
  qed
qed simp

lemma getField_values:
  assumes "bounds_ok r"
  obtains res where "getField fld r = Some res"
    "\<And>w. res = Inr w \<Longrightarrow> within r w \<and> (\<forall>k < 63. bit w k \<longleftrightarrow> (\<exists>expr \<in> set (FieldsFunc (\<lambda>c. c = CHR '','') fld). k \<in> range_values r expr))"
  using field_ranges_values [OF assms within_0, of "FieldsFunc (\<lambda>c. c = CHR '','') fld"] unfolding getField_def by auto

subsection \<open>Errors that are not panics\<close>

definition calm :: "cron_error + 'a \<Rightarrow> bool" where
  "calm r \<longleftrightarrow> (\<forall>p. r \<noteq> Inl (Cron_panic p))"

lemma calm_Inr [simp]: "calm (Inr x)"
  by (simp add: calm_def)

lemma calm_then: "calm r \<Longrightarrow> (\<And>x. calm (f x)) \<Longrightarrow> calm (and_then r f)"
  by (cases r) (auto simp: calm_def and_then_def)

lemma calm_if: "calm a \<Longrightarrow> calm b \<Longrightarrow> calm (if c then a else b)"
  by simp

lemma mustParseInt_calm: "calm (mustParseInt expr)"
  by (simp add: mustParseInt_def calm_def split: option.split)

lemma parseIntOrName_calm: "calm (parseIntOrName expr names)"
  using mustParseInt_calm by (simp add: parseIntOrName_def split: option.split)

lemma low_high_calm: "calm (low_high expr lh r)"
  unfolding low_high_def by (intro calm_if calm_then parseIntOrName_calm) (simp_all add: calm_def)

lemma range_parts_calm: "calm (range_parts expr r)"
  unfolding range_parts_def Let_def split_beta by (intro calm_then calm_if low_high_calm mustParseInt_calm) (simp_all add: calm_def)

lemma field_ranges_calm: "field_ranges exprs r bits = Some res \<Longrightarrow> calm res"
proof (induction exprs arbitrary: bits)
  case (Cons expr exprs)
  have "calm x" if "getRange expr r = Some x" for x
    using that range_parts_calm [of expr r] by (auto simp: getRange_def calm_def split: sum.splits)
  then show ?case using Cons by (auto simp: then_opt_def calm_def split: option.splits sum.splits)
qed auto

text \<open>Every field that the options ask for has a text: the last loop of \<open>normalizeFields\<close> finds one for every place.\<close>

lemma fill_places_length:
  "length (filter (\<lambda>p. 0 < options AND fst p) ps) \<le> length flds \<Longrightarrow> \<exists>r. fill_places options ps flds = Inr r \<and> length r = length ps"
proof (induction ps arbitrary: flds)
  case (Cons p ps)
  obtain place d where p: "p = (place, d)" by fastforce
  show ?case
  proof (cases "0 < options AND place")
    case True
    then obtain f fs where fs: "flds = f # fs" using Cons.prems p by (cases flds) simp_all
    then obtain r where "fill_places options ps fs = Inr r" "length r = length ps" using Cons.IH [of fs] Cons.prems True p by auto
    then show ?thesis using True p fs by simp
  next
    case False
    then obtain r where "fill_places options ps flds = Inr r" "length r = length ps" using Cons.IH [of flds] Cons.prems p by auto
    then show ?thesis using False p by simp
  qed
qed simp

lemma filter_places: "length (filter (\<lambda>p. 0 < options AND fst p) (zip places field_defaults)) = length (filter (\<lambda>p. 0 < options AND p) places)"
  by (simp add: places_def field_defaults_def)

lemma normalizeFields_six:
  assumes "normalizeFields flds options = Inr r"
  shows "length r = 6"
proof -
  have six: "length r = 6" if "fill_places opts (zip places field_defaults) fs = Inr r" for opts fs r
    using that by (auto simp: places_def field_defaults_def split: if_splits list.splits)
  from assms show ?thesis by (auto simp: normalizeFields_def Let_def split: if_splits intro: six)
qed

lemma normalizeFields_no_panic: "normalizeFields flds options \<noteq> Inl (Cron_panic p)"
proof -
  have "fill_places opts (zip places field_defaults) fs \<noteq> Inl (Cron_panic p)" if "length (filter (\<lambda>p. 0 < opts AND p) places) \<le> length fs" for opts fs
    using fill_places_length [of opts "zip places field_defaults" fs] that filter_places [of opts] by auto
  then show ?thesis by (auto simp: normalizeFields_def Let_def and_then_def)
qed

lemma normalizeFields_calm: "calm (normalizeFields flds options)"
  by (simp add: calm_def normalizeFields_no_panic)

subsection \<open>The parser returns\<close>

definition schedule_ok :: "'l cron_schedule \<Rightarrow> bool" where
  "schedule_ok c \<longleftrightarrow>
     (case c of
        SpecSchedule s \<Rightarrow> within seconds (ss_Second s) \<and> within minutes (ss_Minute s) \<and> within hours (ss_Hour s) \<and> within dom_bounds (ss_Dom s)
          \<and> within months (ss_Month s) \<and> within dow_bounds (ss_Dow s)
      | ConstantDelaySchedule d \<Rightarrow> 1000000000 \<le> d \<and> d mod 1000000000 = 0)"

definition good :: "(cron_error + 'a) option \<Rightarrow> ('a \<Rightarrow> bool) \<Rightarrow> bool" where
  "good r Q \<longleftrightarrow> (\<exists>res. r = Some res \<and> calm res \<and> (\<forall>x. res = Inr x \<longrightarrow> Q x))"

lemma good_simps [simp]: "good (Some (Inl e)) Q \<longleftrightarrow> (\<forall>p. e \<noteq> Cron_panic p)" "good (Some (Inr x)) Q \<longleftrightarrow> Q x"
  by (simp_all add: good_def calm_def)

lemma good_then: "good r Q \<Longrightarrow> (\<And>x. Q x \<Longrightarrow> good (f x) R) \<Longrightarrow> good (then_opt r f) R"
  by (auto simp: good_def then_opt_def calm_def split: sum.splits)

lemma good_field: "bounds_ok r \<Longrightarrow> good (getField fld r) (within r)"
  by (rule getField_values [of r fld]) (auto simp: good_def getField_def field_ranges_calm)

lemma Every_ok: "1000000000 \<le> Every d \<and> Every d mod 1000000000 = 0"
proof -
  define x where "x = (if d < 1000000000 then 1000000000 else d)"
  have "1000000000 \<le> x" by (simp add: x_def)
  moreover have "Every d = 1000000000 * (x div 1000000000)"
    using calculation by (simp add: Every_def Let_def x_def [symmetric] go_mod_nonneg minus_mod_eq_mult_div)
  ultimately show ?thesis by simp
qed

lemma all_bits_within: "bounds_ok r \<Longrightarrow> \<exists>b. all_bits r = Some b \<and> within r b"
proof -
  assume ok: "bounds_ok r"
  then have "bd_max r < 64" by (simp add: bounds_ok_def)
  then obtain b where b: "getBits (bd_min r) (bd_max r) 1 = Some b" "\<And>k. bit b k \<longleftrightarrow> bd_min r \<le> k \<and> k \<le> bd_max r \<and> 1 dvd k - bd_min r"
    using getBits_sets [of 1 "bd_max r" "bd_min r"] by auto
  have "within r (b OR starBit)" using ok by (auto simp: within_def bit_or_iff b(2) bit_starBit bounds_ok_def)
  then show ?thesis using b(1) by (simp add: all_bits_def)
qed

lemma one_bit_within: "bounds_ok r \<Longrightarrow> \<exists>b. one_bit (bd_min r) = Some b \<and> within r b"
  by (auto simp: one_bit_def within_def bit_one_at bounds_ok_def simp del: push_bit_of_1)

lemma spec_of_good:
  assumes "\<exists>b. s = Some b \<and> within seconds b" "\<exists>b. m = Some b \<and> within minutes b" "\<exists>b. h = Some b \<and> within hours b"
    "\<exists>b. d = Some b \<and> within dom_bounds b" "\<exists>b. mo = Some b \<and> within months b" "\<exists>b. w = Some b \<and> within dow_bounds b"
  shows "good (spec_of s m h d mo w loc) schedule_ok"
  using assms by (auto simp: spec_of_def schedule_ok_def)

lemma parseDescriptor_good: "good (parseDescriptor ParseDuration descriptor loc) schedule_ok"
proof -
  note w = all_bits_within [OF all_bounds_ok(1)] all_bits_within [OF all_bounds_ok(2)] all_bits_within [OF all_bounds_ok(3)] all_bits_within [OF all_bounds_ok(4)]
    all_bits_within [OF all_bounds_ok(5)] all_bits_within [OF all_bounds_ok(6)] one_bit_within [OF all_bounds_ok(1)] one_bit_within [OF all_bounds_ok(2)]
    one_bit_within [OF all_bounds_ok(3)] one_bit_within [OF all_bounds_ok(4)] one_bit_within [OF all_bounds_ok(5)] one_bit_within [OF all_bounds_ok(6)]
  show ?thesis unfolding parseDescriptor_def Let_def
    by (simp add: spec_of_good w schedule_ok_def Every_ok split: option.split)
qed

lemma Parse_good:
  assumes "calm (take_location LoadLocation Local spec)"
  shows "good (Parse LoadLocation Local ParseDuration options spec) schedule_ok"
proof (cases "spec = []")
  case False
  have rest: "good (if prefix ''@'' spec then if options AND P_Descriptor = 0 then Some (Inl No_descriptors) else parseDescriptor ParseDuration spec loc
    else then_opt (Some (normalizeFields (FieldsFunc is_space spec) options)) (\<lambda>flds.
             then_opt (getField (flds ! 0) seconds) (\<lambda>s.
             then_opt (getField (flds ! 1) minutes) (\<lambda>m.
             then_opt (getField (flds ! 2) hours) (\<lambda>h.
             then_opt (getField (flds ! 3) dom_bounds) (\<lambda>d.
             then_opt (getField (flds ! 4) months) (\<lambda>mo.
             then_opt (getField (flds ! 5) dow_bounds) (\<lambda>w.
               Some (Inr (SpecSchedule \<lparr> ss_Second = s, ss_Minute = m, ss_Hour = h, ss_Dom = d, ss_Month = mo, ss_Dow = w, ss_Location = loc \<rparr>))))))))))
    schedule_ok" (is "good (?r spec loc) _") for spec loc
  proof -
    have triv: "good (Some (normalizeFields fs options)) (\<lambda>_. True)" for fs by (simp add: good_def normalizeFields_calm)
    have "good (then_opt (Some (normalizeFields (FieldsFunc is_space spec) options)) (\<lambda>flds.
             then_opt (getField (flds ! 0) seconds) (\<lambda>s. then_opt (getField (flds ! 1) minutes) (\<lambda>m. then_opt (getField (flds ! 2) hours) (\<lambda>h.
             then_opt (getField (flds ! 3) dom_bounds) (\<lambda>d. then_opt (getField (flds ! 4) months) (\<lambda>mo. then_opt (getField (flds ! 5) dow_bounds) (\<lambda>w.
               Some (Inr (SpecSchedule \<lparr> ss_Second = s, ss_Minute = m, ss_Hour = h, ss_Dom = d, ss_Month = mo, ss_Dow = w, ss_Location = loc \<rparr>)))))))))) schedule_ok"
      by (intro good_then [OF triv] good_then [OF good_field] all_bounds_ok) (simp add: schedule_ok_def)
    then show ?thesis by (auto simp: parseDescriptor_good)
  qed
  have triv: "good (Some (take_location LoadLocation Local spec)) (\<lambda>_. True)" using assms by (simp add: good_def)
  show ?thesis unfolding Parse_def if_not_P [OF False] by (rule good_then [OF triv]) (simp only: split_beta rest)
qed (simp add: Parse_def)

text \<open>The slices around the name of a time zone are out of range exactly when no space follows it.\<close>

lemma go_index_append: "c \<notin> set pre \<Longrightarrow> c \<in> set s \<Longrightarrow> int (length pre) \<le> go_index c (pre @ s) \<and> go_index c (pre @ s) \<le> int (length (pre @ s))"
proof -
  assume c: "c \<notin> set pre" "c \<in> set s"
  have "takeWhile (\<lambda>x. x \<noteq> c) s \<noteq> s" using c(2) by (metis (mono_tags, lifting) takeWhile_eq_all_conv)
  moreover have "length (takeWhile (\<lambda>x. x \<noteq> c) s) \<le> length s" by (rule length_takeWhile_le)
  moreover have "takeWhile (\<lambda>x. x \<noteq> c) s = s" if "length (takeWhile (\<lambda>x. x \<noteq> c) s) = length s"
    using that by (metis takeWhile_eq_take take_all order_refl)
  moreover have "takeWhile (\<lambda>x. x \<noteq> c) (pre @ s) = pre @ takeWhile (\<lambda>x. x \<noteq> c) s" using c(1) by (intro takeWhile_append2) auto
  ultimately show ?thesis by (auto simp: go_index_def Let_def)
qed

lemma take_location_calm:
  "calm (take_location LoadLocation Local spec) \<longleftrightarrow> \<not> ((prefix ''TZ='' spec \<or> prefix ''CRON_TZ='' spec) \<and> CHR '' '' \<notin> set spec)"
proof (cases "prefix ''TZ='' spec \<or> prefix ''CRON_TZ='' spec")
  case True
  then obtain k t where k: "k \<in> {''TZ'', ''CRON_TZ''}" and spec: "spec = (k @ ''='') @ t"
  proof
    assume "prefix ''TZ='' spec"
    then obtain t where "spec = ''TZ='' @ t" unfolding prefix_def by blast
    then show thesis by (intro that [of "''TZ''" t]) simp_all
  next
    assume "prefix ''CRON_TZ='' spec"
    then obtain t where "spec = ''CRON_TZ='' @ t" unfolding prefix_def by blast
    then show thesis by (intro that [of "''CRON_TZ''" t]) simp_all
  qed
  have eq: "go_index (CHR ''='') spec = int (length k)" using k unfolding spec by (auto simp: go_index_def)
  have nosp: "CHR '' '' \<notin> set (k @ ''='')" using k by auto
  show ?thesis
  proof (cases "CHR '' '' \<in> set spec")
    case False
    then have "takeWhile (\<lambda>x. x \<noteq> CHR '' '') spec = spec" unfolding takeWhile_eq_all_conv by blast
    then have "go_index (CHR '' '') spec = -1" unfolding go_index_def Let_def by (simp only: if_True refl)
    then show ?thesis using True False eq by (simp add: take_location_def go_slice_def calm_def)
  next
    case sp: True
    then have "CHR '' '' \<in> set t" using nosp unfolding spec by auto
    from go_index_append [OF nosp this] have "int (length k) + 1 \<le> go_index (CHR '' '') spec" "go_index (CHR '' '') spec \<le> int (length spec)"
      unfolding spec by simp_all
    then show ?thesis using True sp eq by (simp add: take_location_def Let_def go_slice_def calm_def split: option.split)
  qed
qed (simp add: take_location_def)

lemma Parse_panics:
  assumes "\<not> calm (take_location LoadLocation Local spec)"
  shows "\<exists>p. Parse LoadLocation Local ParseDuration options spec = Some (Inl (Cron_panic p))"
proof -
  obtain p where "take_location LoadLocation Local spec = Inl (Cron_panic p)" using assms by (auto simp: calm_def)
  moreover have "spec \<noteq> []" using assms unfolding take_location_calm by auto
  ultimately show ?thesis by (simp add: Parse_def then_opt_def)
qed

section \<open>Properties\<close>

text \<open>
  C33. The parser returns for every text, every database of time zones and all options. It panics on exactly the texts that begin with a time zone (\<open>TZ=\<close> or \<open>CRON_TZ=\<close>) and
  have no space; every other text is an error or is accepted, and what is accepted is a schedule whose fields hold only values of their bounds, with the
  star bit only on full fields, or a delay of whole seconds from one second on.
\<close>

theorem Parse_returns_valid:
  "\<exists>res. Parse LoadLocation Local ParseDuration options spec = Some res
     \<and> ((\<exists>p. res = Inl (Cron_panic p)) \<longleftrightarrow> (prefix ''TZ='' spec \<or> prefix ''CRON_TZ='' spec) \<and> CHR '' '' \<notin> set spec)
     \<and> (case res of Inl e \<Rightarrow> True | Inr c \<Rightarrow> schedule_ok c)"
proof (cases "calm (take_location LoadLocation Local spec)")
  case True
  from Parse_good [OF this, of ParseDuration options] obtain res where res: "Parse LoadLocation Local ParseDuration options spec = Some res"
    "calm res" "\<forall>x. res = Inr x \<longrightarrow> schedule_ok x" by (auto simp: good_def)
  then show ?thesis using True [unfolded take_location_calm] by (cases res) (auto simp: calm_def)
next
  case False
  from Parse_panics [OF False, of ParseDuration options] obtain p where p: "Parse LoadLocation Local ParseDuration options spec = Some (Inl (Cron_panic p))" ..
  show ?thesis by (rule exI [of _ "Inl (Cron_panic p)"]) (use p False [unfolded take_location_calm] in simp)
qed

text \<open>The values of a field are those of its ranges: from the start to the stop, in steps from the start.\<close>

theorem getField_denotes:
  assumes "bounds_ok r" "getField fld r = Some (Inr w)" "k < 63"
  shows "bit w k \<longleftrightarrow> (\<exists>expr \<in> set (FieldsFunc (\<lambda>c. c = CHR '','') fld). k \<in> range_values r expr)"
proof -
  have "\<exists>res. getField fld r = Some res \<and> (\<forall>w. res = Inr w \<longrightarrow> within r w
      \<and> (\<forall>k < 63. bit w k \<longleftrightarrow> (\<exists>expr \<in> set (FieldsFunc (\<lambda>c. c = CHR '','') fld). k \<in> range_values r expr)))"
    using field_ranges_values [OF assms(1) within_0, of "FieldsFunc (\<lambda>c. c = CHR '','') fld"] unfolding getField_def by simp
  with assms(2,3) show ?thesis by auto
qed

theorem getField_denotes_witness:
  "\<exists>expr \<in> set (FieldsFunc (\<lambda>c. c = CHR '','') ''*/15''). 30 \<in> range_values minutes expr"
proof -
  have "getField ''*/15'' minutes = Some (Inr (2 ^ 45 + 2 ^ 30 + 2 ^ 15 + 1))" by code_simp
  from getField_denotes [OF all_bounds_ok(2) this, of 30] show ?thesis by (simp add: bit_iff_odd_drop_bit drop_bit_eq_div)
qed

text \<open>A time zone without an expression after it is a slice out of range.\<close>

theorem Parse_zone_alone_panics:
  "Parse LoadLocation Local ParseDuration options ''TZ=UTC'' = Some (Inl (Cron_panic (Go_Panic ''slice bounds out of range'')))"
proof -
  have "prefix ''TZ='' ''TZ=UTC''" "go_index (CHR '' '') ''TZ=UTC'' = -1" "go_index (CHR ''='') ''TZ=UTC'' = 2" by code_simp+
  then have "take_location LoadLocation Local ''TZ=UTC'' = Inl (Cron_panic (Go_Panic ''slice bounds out of range''))"
    by (simp add: take_location_def go_slice_def)
  then show ?thesis by (simp add: Parse_def then_opt_def)
qed

text \<open>A field of commas is accepted and holds no value.\<close>

lemma comma_field: "getField '','' r = Some (Inr 0)"
proof -
  have "FieldsFunc (\<lambda>c. c = CHR '','') '','' = []" by code_simp
  then show ?thesis by (simp add: getField_def)
qed

end
