(* ===== verification/Cron_Next.thy ===== *)
theory Cron_Next
  imports Cron
begin

text \<open>
  The next time of a cron schedule: \<open>SpecSchedule.Next\<close> and \<open>dayMatches\<close> of \<open>engine/pkg/utils/timingwheel/spec.go\<close>.

  A time is a date of the Gregorian calendar with hour, minute and second, and a location. A location has an offset from UTC in seconds that does not change, an argument of the
  definitions, so that there is no daylight saving time and midnight exists on every day; for other locations nothing is claimed. The operations of \<open>time.Time\<close> that the code uses are defined on dates. Nanoseconds are dropped, as the
  first statement of the loop does. \<open>Next\<close> is one loop with a program counter for the fields and the label \<open>WRAP\<close>; \<open>None\<close> is a loop that does not end,
  \<open>Some None\<close> the zero time.
\<close>

section \<open>Definitions\<close>

subsection \<open>Dates\<close>

record civil =
  c_year :: int
  c_month :: int
  c_day :: int
  c_hour :: int
  c_minute :: int
  c_second :: int

definition leap_year :: "int \<Rightarrow> bool" where
  "leap_year y \<longleftrightarrow> y mod 4 = 0 \<and> (y mod 100 \<noteq> 0 \<or> y mod 400 = 0)"

definition days_in_month :: "int \<Rightarrow> int \<Rightarrow> int" where
  "days_in_month y m = (if m \<in> {4, 6, 9, 11} then 30 else if m = 2 then (if leap_year y then 29 else 28) else 31)"

definition valid_date :: "civil \<Rightarrow> bool" where
  "valid_date t \<longleftrightarrow>
     1 \<le> c_month t \<and> c_month t \<le> 12 \<and> 1 \<le> c_day t \<and> c_day t \<le> days_in_month (c_year t) (c_month t)
     \<and> 0 \<le> c_hour t \<and> c_hour t < 24 \<and> 0 \<le> c_minute t \<and> c_minute t < 60 \<and> 0 \<le> c_second t \<and> c_second t < 60"

text \<open>The number of the day, from 1 January of year 1, which was a Monday; \<open>time.Sunday\<close> is 0.\<close>

definition day_number :: "civil \<Rightarrow> int" where
  "day_number t =
     (let y = c_year t - 1
      in 365 * y + y div 4 - y div 100 + y div 400 + sum_list (map (days_in_month (c_year t)) [1..c_month t - 1]) + c_day t)"

definition Weekday :: "civil \<Rightarrow> int" where
  "Weekday t = day_number t mod 7"

text \<open>\<open>AddDate(0, 1, 0)\<close>: a day after the end of the month runs over into the one after it.\<close>

definition next_month :: "int \<Rightarrow> int \<Rightarrow> int \<times> int" where
  "next_month y m = (if m = 12 then (y + 1, 1) else (y, m + 1))"

definition AddMonth :: "civil \<Rightarrow> civil" where
  "AddMonth t =
     (case next_month (c_year t) (c_month t) of (y, m) \<Rightarrow>
        if c_day t \<le> days_in_month y m then t \<lparr> c_year := y, c_month := m \<rparr>
        else case next_month y m of (y2, m2) \<Rightarrow> t \<lparr> c_year := y2, c_month := m2, c_day := c_day t - days_in_month y m \<rparr>)"

definition AddDay :: "civil \<Rightarrow> civil" where
  "AddDay t =
     (if c_day t < days_in_month (c_year t) (c_month t) then t \<lparr> c_day := c_day t + 1 \<rparr>
      else case next_month (c_year t) (c_month t) of (y, m) \<Rightarrow> t \<lparr> c_year := y, c_month := m, c_day := 1 \<rparr>)"

definition AddHour :: "civil \<Rightarrow> civil" where
  "AddHour t = (if c_hour t < 23 then t \<lparr> c_hour := c_hour t + 1 \<rparr> else AddDay (t \<lparr> c_hour := 0 \<rparr>))"

definition AddMinute :: "civil \<Rightarrow> civil" where
  "AddMinute t = (if c_minute t < 59 then t \<lparr> c_minute := c_minute t + 1 \<rparr> else AddHour (t \<lparr> c_minute := 0 \<rparr>))"

definition AddSecond :: "civil \<Rightarrow> civil" where
  "AddSecond t = (if c_second t < 59 then t \<lparr> c_second := c_second t + 1 \<rparr> else AddMinute (t \<lparr> c_second := 0 \<rparr>))"

subsection \<open>Locations\<close>

definition prev_month :: "int \<Rightarrow> int \<Rightarrow> int \<times> int" where
  "prev_month y m = (if m = 1 then (y - 1, 12) else (y, m - 1))"

definition SubDay :: "civil \<Rightarrow> civil" where
  "SubDay t =
     (if 1 < c_day t then t \<lparr> c_day := c_day t - 1 \<rparr>
      else case prev_month (c_year t) (c_month t) of (y, m) \<Rightarrow> t \<lparr> c_year := y, c_month := m, c_day := days_in_month y m \<rparr>)"

definition SubHour :: "civil \<Rightarrow> civil" where
  "SubHour t = (if 0 < c_hour t then t \<lparr> c_hour := c_hour t - 1 \<rparr> else SubDay (t \<lparr> c_hour := 23 \<rparr>))"

definition SubMinute :: "civil \<Rightarrow> civil" where
  "SubMinute t = (if 0 < c_minute t then t \<lparr> c_minute := c_minute t - 1 \<rparr> else SubHour (t \<lparr> c_minute := 59 \<rparr>))"

definition SubSecond :: "civil \<Rightarrow> civil" where
  "SubSecond t = (if 0 < c_second t then t \<lparr> c_second := c_second t - 1 \<rparr> else SubMinute (t \<lparr> c_second := 59 \<rparr>))"

fun repeat_step :: "(civil \<Rightarrow> civil) \<Rightarrow> nat \<Rightarrow> civil \<Rightarrow> civil" where
  "repeat_step f 0 t = t"
| "repeat_step f (Suc n) t = repeat_step f n (f t)"

definition shift_seconds :: "int \<Rightarrow> civil \<Rightarrow> civil" where
  "shift_seconds d t = (if 0 \<le> d then repeat_step AddSecond (nat d) t else repeat_step SubSecond (nat (- d)) t)"

text \<open>\<open>Time.In\<close>: the same instant in another location.\<close>

definition Time_In :: "('l \<Rightarrow> int) \<Rightarrow> 'l \<Rightarrow> civil \<times> 'l \<Rightarrow> civil \<times> 'l" where
  "Time_In offset l t = (shift_seconds (offset l - offset (snd t)) (fst t), l)"

subsection \<open>Matching\<close>

text \<open>\<open>1 << uint(n) & bits\<close>.\<close>

definition field_has :: "u64 \<Rightarrow> int \<Rightarrow> bool" where
  "field_has bits n \<longleftrightarrow> push_bit (nat n) 1 AND bits \<noteq> 0"

definition dayMatches :: "'l spec_schedule \<Rightarrow> civil \<Rightarrow> bool" where
  "dayMatches s t \<longleftrightarrow>
     (let domMatch = field_has (ss_Dom s) (c_day t); dowMatch = field_has (ss_Dow s) (Weekday t)
      in if ss_Dom s AND starBit \<noteq> 0 \<or> ss_Dow s AND starBit \<noteq> 0 then domMatch \<and> dowMatch else domMatch \<or> dowMatch)"

text \<open>When the hour is not 0 after a day was added, the code goes to the nearest midnight.\<close>

definition midnight_fix :: "civil \<Rightarrow> civil" where
  "midnight_fix t =
     (if c_hour t \<noteq> 0 then (if 12 < c_hour t then AddDay (t \<lparr> c_hour := 0 \<rparr>) else t \<lparr> c_hour := 0 \<rparr>) else t)"

datatype next_pc = N_wrap | N_month | N_day | N_hour | N_minute | N_second

text \<open>\<open>added\<close> is the flag of the code: a field has been incremented, so that the finer ones start at their least value.\<close>

partial_function (option) next_loop :: "'l spec_schedule \<Rightarrow> int \<Rightarrow> next_pc \<Rightarrow> bool \<Rightarrow> civil \<Rightarrow> civil option option" where
  [code]: "next_loop s yearLimit pc added t =
     (case pc of
        N_wrap \<Rightarrow> if yearLimit < c_year t then Some None else next_loop s yearLimit N_month added t
      | N_month \<Rightarrow>
          if field_has (ss_Month s) (c_month t) then next_loop s yearLimit N_day added t
          else let t1 = (if added then t else t \<lparr> c_day := 1, c_hour := 0, c_minute := 0, c_second := 0 \<rparr>); t2 = AddMonth t1
               in next_loop s yearLimit (if c_month t2 = 1 then N_wrap else N_month) True t2
      | N_day \<Rightarrow>
          if dayMatches s t then next_loop s yearLimit N_hour added t
          else let t1 = (if added then t else t \<lparr> c_hour := 0, c_minute := 0, c_second := 0 \<rparr>); t2 = midnight_fix (AddDay t1)
               in next_loop s yearLimit (if c_day t2 = 1 then N_wrap else N_day) True t2
      | N_hour \<Rightarrow>
          if field_has (ss_Hour s) (c_hour t) then next_loop s yearLimit N_minute added t
          else let t1 = (if added then t else t \<lparr> c_minute := 0, c_second := 0 \<rparr>); t2 = AddHour t1
               in next_loop s yearLimit (if c_hour t2 = 0 then N_wrap else N_hour) True t2
      | N_minute \<Rightarrow>
          if field_has (ss_Minute s) (c_minute t) then next_loop s yearLimit N_second added t
          else let t1 = (if added then t else t \<lparr> c_second := 0 \<rparr>); t2 = AddMinute t1
               in next_loop s yearLimit (if c_minute t2 = 0 then N_wrap else N_minute) True t2
      | N_second \<Rightarrow>
          if field_has (ss_Second s) (c_second t) then Some (Some t)
          else let t2 = AddSecond t in next_loop s yearLimit (if c_second t2 = 0 then N_wrap else N_second) True t2)"

definition Spec_Next :: "('l \<Rightarrow> int) \<Rightarrow> 'l \<Rightarrow> 'l spec_schedule \<Rightarrow> civil \<times> 'l \<Rightarrow> (civil \<times> 'l) option option" where
  "Spec_Next offset Local s t0 =
     (let origLocation = snd t0;
          loc = (if ss_Location s = Local then snd t0 else ss_Location s);
          t1 = (if ss_Location s \<noteq> Local then Time_In offset (ss_Location s) t0 else t0);
          t = AddSecond (fst t1)
      in map_option (map_option (\<lambda>t2. Time_In offset origLocation (t2, loc))) (next_loop s (c_year t + 5) N_wrap False t))"

text \<open>All fields match: what a schedule means.\<close>

definition spec_matches :: "'l spec_schedule \<Rightarrow> civil \<Rightarrow> bool" where
  "spec_matches s t \<longleftrightarrow>
     field_has (ss_Month s) (c_month t) \<and> dayMatches s t \<and> field_has (ss_Hour s) (c_hour t) \<and> field_has (ss_Minute s) (c_minute t) \<and> field_has (ss_Second s) (c_second t)"

section \<open>Lemmas\<close>

subsection \<open>The order of dates\<close>

text \<open>Numbers that order the dates by months, days, hours, minutes and seconds.\<close>

definition month_ix :: "civil \<Rightarrow> int" where "month_ix t = 12 * c_year t + (c_month t - 1)"
definition day_ix :: "civil \<Rightarrow> int" where "day_ix t = 32 * month_ix t + c_day t"
definition hour_ix :: "civil \<Rightarrow> int" where "hour_ix t = 24 * day_ix t + c_hour t"
definition minute_ix :: "civil \<Rightarrow> int" where "minute_ix t = 60 * hour_ix t + c_minute t"
definition second_ix :: "civil \<Rightarrow> int" where "second_ix t = 60 * minute_ix t + c_second t"

lemma days_bound: "28 \<le> days_in_month y m \<and> days_in_month y m \<le> 31"
  by (simp add: days_in_month_def)

lemma valid_bounds:
  assumes "valid_date t"
  shows "1 \<le> c_month t" "c_month t \<le> 12" "1 \<le> c_day t" "c_day t \<le> 31" "0 \<le> c_hour t" "c_hour t \<le> 23" "0 \<le> c_minute t" "c_minute t \<le> 59"
    "0 \<le> c_second t" "c_second t \<le> 59"
  using assms days_bound [of "c_year t" "c_month t"] by (auto simp: valid_date_def)

lemma next_month_ix: "next_month y m = (y1, m1) \<Longrightarrow> 1 \<le> m \<Longrightarrow> m \<le> 12 \<Longrightarrow> 12 * y1 + (m1 - 1) = 12 * y + (m - 1) + 1 \<and> 1 \<le> m1 \<and> m1 \<le> 12"
  by (auto simp: next_month_def split: if_splits)

lemma same_month:
  assumes "valid_date t" "valid_date u" "month_ix u = month_ix t"
  shows "c_month u = c_month t" "c_year u = c_year t"
  using valid_bounds [OF assms(1)] valid_bounds [OF assms(2)] assms(3) unfolding month_ix_def by presburger+

text \<open>The starts of the next month, day, hour and minute.\<close>

definition month_jump :: "civil \<Rightarrow> civil" where
  "month_jump t = AddMonth (t \<lparr> c_day := 1, c_hour := 0, c_minute := 0, c_second := 0 \<rparr>)"

definition day_jump :: "civil \<Rightarrow> civil" where
  "day_jump t = AddDay (t \<lparr> c_hour := 0, c_minute := 0, c_second := 0 \<rparr>)"

definition hour_jump :: "civil \<Rightarrow> civil" where
  "hour_jump t = AddHour (t \<lparr> c_minute := 0, c_second := 0 \<rparr>)"

definition minute_jump :: "civil \<Rightarrow> civil" where
  "minute_jump t = AddMinute (t \<lparr> c_second := 0 \<rparr>)"

lemma month_jump_fields:
  assumes "valid_date t"
  shows "valid_date (month_jump t)" "month_ix (month_jump t) = month_ix t + 1" "c_day (month_jump t) = 1" "c_hour (month_jump t) = 0"
    "c_minute (month_jump t) = 0" "c_second (month_jump t) = 0"
proof -
  obtain y m where n: "next_month (c_year t) (c_month t) = (y, m)" by fastforce
  note nm = next_month_ix [OF n valid_bounds(1,2) [OF assms]]
  have "1 \<le> days_in_month y m" using days_bound [of y m] by linarith
  then have j: "month_jump t = t \<lparr> c_year := y, c_month := m, c_day := 1, c_hour := 0, c_minute := 0, c_second := 0 \<rparr>"
    by (simp add: month_jump_def AddMonth_def n)
  show "valid_date (month_jump t)" "month_ix (month_jump t) = month_ix t + 1" "c_day (month_jump t) = 1" "c_hour (month_jump t) = 0"
    "c_minute (month_jump t) = 0" "c_second (month_jump t) = 0"
    using nm \<open>1 \<le> days_in_month y m\<close> unfolding j by (simp_all add: valid_date_def month_ix_def)
qed

text \<open>A day runs over into the first of the next month.\<close>

lemma day_jump_fields:
  assumes "valid_date t"
  shows "valid_date (day_jump t)" "c_hour (day_jump t) = 0" "c_minute (day_jump t) = 0" "c_second (day_jump t) = 0"
    "if c_day t < days_in_month (c_year t) (c_month t) then month_ix (day_jump t) = month_ix t \<and> c_day (day_jump t) = c_day t + 1
     else day_jump t = month_jump t"
proof -
  obtain y m where n: "next_month (c_year t) (c_month t) = (y, m)" by fastforce
  have d: "1 \<le> days_in_month y m" using days_bound [of y m] by linarith
  have e: "day_jump t = month_jump t" if "\<not> c_day t < days_in_month (c_year t) (c_month t)"
    using that d by (simp add: day_jump_def month_jump_def AddDay_def AddMonth_def n)
  note mj = month_jump_fields [OF assms]
  show "valid_date (day_jump t)" "c_hour (day_jump t) = 0" "c_minute (day_jump t) = 0" "c_second (day_jump t) = 0"
    using mj e assms by (cases "c_day t < days_in_month (c_year t) (c_month t)"; simp add: day_jump_def AddDay_def valid_date_def)+
  show "if c_day t < days_in_month (c_year t) (c_month t) then month_ix (day_jump t) = month_ix t \<and> c_day (day_jump t) = c_day t + 1
     else day_jump t = month_jump t"
    using e by (simp add: day_jump_def AddDay_def month_ix_def)
qed

lemma hour_jump_fields:
  assumes "valid_date t"
  shows "valid_date (hour_jump t)" "c_minute (hour_jump t) = 0" "c_second (hour_jump t) = 0"
    "if c_hour t < 23 then day_ix (hour_jump t) = day_ix t \<and> c_hour (hour_jump t) = c_hour t + 1 \<and> c_day (hour_jump t) = c_day t
       \<and> month_ix (hour_jump t) = month_ix t
     else hour_jump t = day_jump t"
proof -
  have e: "hour_jump t = day_jump t" if "\<not> c_hour t < 23" using that by (cases t) (simp add: hour_jump_def day_jump_def AddHour_def)
  note dj = day_jump_fields [OF assms]
  show "valid_date (hour_jump t)" "c_minute (hour_jump t) = 0" "c_second (hour_jump t) = 0"
    using dj e assms by (cases "c_hour t < 23"; simp add: hour_jump_def AddHour_def valid_date_def)+
  show "if c_hour t < 23 then day_ix (hour_jump t) = day_ix t \<and> c_hour (hour_jump t) = c_hour t + 1 \<and> c_day (hour_jump t) = c_day t
       \<and> month_ix (hour_jump t) = month_ix t
     else hour_jump t = day_jump t"
    using e by (simp add: hour_jump_def AddHour_def day_ix_def month_ix_def)
qed

lemma minute_jump_fields:
  assumes "valid_date t"
  shows "valid_date (minute_jump t)" "c_second (minute_jump t) = 0"
    "if c_minute t < 59 then hour_ix (minute_jump t) = hour_ix t \<and> c_minute (minute_jump t) = c_minute t + 1 \<and> c_hour (minute_jump t) = c_hour t
       \<and> day_ix (minute_jump t) = day_ix t \<and> c_day (minute_jump t) = c_day t \<and> month_ix (minute_jump t) = month_ix t
     else minute_jump t = hour_jump t"
proof -
  have e: "minute_jump t = hour_jump t" if "\<not> c_minute t < 59" using that by (cases t) (simp add: minute_jump_def hour_jump_def AddMinute_def)
  note hj = hour_jump_fields [OF assms]
  show "valid_date (minute_jump t)" "c_second (minute_jump t) = 0"
    using hj e assms by (cases "c_minute t < 59"; simp add: minute_jump_def AddMinute_def valid_date_def)+
  show "if c_minute t < 59 then hour_ix (minute_jump t) = hour_ix t \<and> c_minute (minute_jump t) = c_minute t + 1 \<and> c_hour (minute_jump t) = c_hour t
       \<and> day_ix (minute_jump t) = day_ix t \<and> c_day (minute_jump t) = c_day t \<and> month_ix (minute_jump t) = month_ix t
     else minute_jump t = hour_jump t"
    using e by (simp add: minute_jump_def AddMinute_def hour_ix_def day_ix_def month_ix_def)
qed

lemma AddSecond_fields:
  assumes "valid_date t"
  shows "valid_date (AddSecond t)"
    "if c_second t < 59 then minute_ix (AddSecond t) = minute_ix t \<and> c_second (AddSecond t) = c_second t + 1 \<and> c_minute (AddSecond t) = c_minute t
       \<and> hour_ix (AddSecond t) = hour_ix t \<and> c_hour (AddSecond t) = c_hour t \<and> day_ix (AddSecond t) = day_ix t \<and> c_day (AddSecond t) = c_day t
       \<and> month_ix (AddSecond t) = month_ix t
     else AddSecond t = minute_jump t"
proof -
  have e: "AddSecond t = minute_jump t" if "\<not> c_second t < 59" using that by (simp add: minute_jump_def AddSecond_def)
  note mj = minute_jump_fields [OF assms]
  show "valid_date (AddSecond t)" using mj e assms by (cases "c_second t < 59") (simp_all add: AddSecond_def valid_date_def)
  show "if c_second t < 59 then minute_ix (AddSecond t) = minute_ix t \<and> c_second (AddSecond t) = c_second t + 1 \<and> c_minute (AddSecond t) = c_minute t
       \<and> hour_ix (AddSecond t) = hour_ix t \<and> c_hour (AddSecond t) = c_hour t \<and> day_ix (AddSecond t) = day_ix t \<and> c_day (AddSecond t) = c_day t
       \<and> month_ix (AddSecond t) = month_ix t
     else AddSecond t = minute_jump t"
    using e by (simp add: AddSecond_def minute_ix_def hour_ix_def day_ix_def month_ix_def)
qed

lemma conj_step: "A \<Longrightarrow> (A \<Longrightarrow> B) \<Longrightarrow> A \<and> B"
  by blast

lemmas index_defs = second_ix_def minute_ix_def hour_ix_def day_ix_def

lemma month_between:
  assumes "valid_date t" "valid_date u" "second_ix t \<le> second_ix u" "second_ix u < second_ix (month_jump t)"
  shows "month_ix u = month_ix t"
  using assms(3,4) valid_bounds [OF assms(1)] valid_bounds [OF assms(2)] month_jump_fields(2-6) [OF assms(1)] index_defs [of t] index_defs [of u] index_defs [of "month_jump t"] by (intro order_antisym; linarith)

lemma month_jump_later:
  assumes "valid_date t"
  shows "second_ix t < second_ix (month_jump t)"
  using valid_bounds [OF assms] month_jump_fields(2-6) [OF assms] index_defs [of t] index_defs [of "month_jump t"] by linarith

lemma day_between:
  assumes "valid_date t" "valid_date u" "second_ix t \<le> second_ix u" "second_ix u < second_ix (day_jump t)"
  shows "day_ix u = day_ix t" "month_ix u = month_ix t"
proof -
  note b = valid_bounds [OF assms(1)] valid_bounds [OF assms(2)]
  have both: "month_ix u = month_ix t \<and> c_day u = c_day t"
  proof (cases "c_day t < days_in_month (c_year t) (c_month t)")
    case True
    then have "month_ix (day_jump t) = month_ix t" "c_day (day_jump t) = c_day t + 1" using day_jump_fields(5) [OF assms(1)] by simp_all
    then show ?thesis using assms(3,4) b day_jump_fields(2-4) [OF assms(1)] index_defs [of t] index_defs [of u] index_defs [of "day_jump t"] by (intro conj_step; linarith)
  next
    case False
    then have "day_jump t = month_jump t" using day_jump_fields(5) [OF assms(1)] by simp
    then have m: "month_ix u = month_ix t" using month_between [OF assms(1-3)] assms(4) by simp
    have "c_day u \<le> days_in_month (c_year t) (c_month t)" using assms(2) same_month [OF assms(1,2) m] by (simp add: valid_date_def)
    then have "c_day u \<le> c_day t" using False by simp
    then show ?thesis using m assms(3) b index_defs [of t] index_defs [of u] index_defs [of "day_jump t"] by (intro conj_step; linarith)
  qed
  then show "day_ix u = day_ix t" "month_ix u = month_ix t" by (simp_all add: day_ix_def)
qed

lemma day_jump_later:
  assumes "valid_date t"
  shows "second_ix t < second_ix (day_jump t)"
  using valid_bounds [OF assms] day_jump_fields(2-5) [OF assms] month_jump_later [OF assms]
  by (cases "c_day t < days_in_month (c_year t) (c_month t)") (simp_all add: index_defs)

lemma same_day:
  assumes "valid_date t" "valid_date u" "day_ix u = day_ix t"
  shows "c_day u = c_day t" "month_ix u = month_ix t"
proof -
  have "month_ix u = month_ix t \<and> c_day u = c_day t" using valid_bounds [OF assms(1)] valid_bounds [OF assms(2)] assms(3) index_defs [of t] index_defs [of u] by (intro conj_step; linarith)
  then show "c_day u = c_day t" "month_ix u = month_ix t" by simp_all
qed

lemma hour_between:
  assumes "valid_date t" "valid_date u" "second_ix t \<le> second_ix u" "second_ix u < second_ix (hour_jump t)"
  shows "hour_ix u = hour_ix t" "day_ix u = day_ix t"
proof -
  note b = valid_bounds [OF assms(1)] valid_bounds [OF assms(2)]
  have both: "day_ix u = day_ix t \<and> c_hour u = c_hour t"
  proof (cases "c_hour t < 23")
    case True
    then have "day_ix (hour_jump t) = day_ix t" "c_hour (hour_jump t) = c_hour t + 1" using hour_jump_fields(4) [OF assms(1)] by simp_all
    then show ?thesis using assms(3,4) b hour_jump_fields(2,3) [OF assms(1)] index_defs [of t] index_defs [of u] index_defs [of "hour_jump t"] by (intro conj_step; linarith)
  next
    case False
    then have "hour_jump t = day_jump t" using hour_jump_fields(4) [OF assms(1)] by simp
    then have "day_ix u = day_ix t" using day_between [OF assms(1-3)] assms(4) by simp
    then show ?thesis using False assms(3) b index_defs [of t] index_defs [of u] index_defs [of "hour_jump t"] by (intro conj_step; linarith)
  qed
  then show "hour_ix u = hour_ix t" "day_ix u = day_ix t" by (simp_all add: hour_ix_def)
qed

lemma hour_jump_later:
  assumes "valid_date t"
  shows "second_ix t < second_ix (hour_jump t)"
  using valid_bounds [OF assms] hour_jump_fields(2-4) [OF assms] day_jump_later [OF assms]
  by (cases "c_hour t < 23") (simp_all add: second_ix_def minute_ix_def hour_ix_def)

lemma minute_between:
  assumes "valid_date t" "valid_date u" "second_ix t \<le> second_ix u" "second_ix u < second_ix (minute_jump t)"
  shows "minute_ix u = minute_ix t" "hour_ix u = hour_ix t"
proof -
  note b = valid_bounds [OF assms(1)] valid_bounds [OF assms(2)]
  have both: "hour_ix u = hour_ix t \<and> c_minute u = c_minute t"
  proof (cases "c_minute t < 59")
    case True
    then have "hour_ix (minute_jump t) = hour_ix t" "c_minute (minute_jump t) = c_minute t + 1" using minute_jump_fields(3) [OF assms(1)] by simp_all
    then show ?thesis using assms(3,4) b minute_jump_fields(2) [OF assms(1)] index_defs [of t] index_defs [of u] index_defs [of "minute_jump t"] by (intro conj_step; linarith)
  next
    case False
    then have "minute_jump t = hour_jump t" using minute_jump_fields(3) [OF assms(1)] by simp
    then have "hour_ix u = hour_ix t" using hour_between [OF assms(1-3)] assms(4) by simp
    then show ?thesis using False assms(3) b index_defs [of t] index_defs [of u] index_defs [of "minute_jump t"] by (intro conj_step; linarith)
  qed
  then show "minute_ix u = minute_ix t" "hour_ix u = hour_ix t" by (simp_all add: minute_ix_def)
qed

lemma minute_jump_later:
  assumes "valid_date t"
  shows "second_ix t < second_ix (minute_jump t)"
  using valid_bounds [OF assms] minute_jump_fields(2,3) [OF assms] hour_jump_later [OF assms]
  by (cases "c_minute t < 59") (simp_all add: second_ix_def minute_ix_def)

lemma second_between:
  assumes "valid_date t" "valid_date u" "second_ix t \<le> second_ix u" "second_ix u < second_ix (AddSecond t)"
  shows "second_ix u = second_ix t"
proof (cases "c_second t < 59")
  case True
  then have "minute_ix (AddSecond t) = minute_ix t" "c_second (AddSecond t) = c_second t + 1" using AddSecond_fields(2) [OF assms(1)] by simp_all
  then show ?thesis using assms(3,4) index_defs [of t] index_defs [of u] index_defs [of "AddSecond t"] by linarith
next
  case False
  then have "AddSecond t = minute_jump t" using AddSecond_fields(2) [OF assms(1)] by simp
  then have "minute_ix u = minute_ix t" using minute_between [OF assms(1-3)] assms(4) by simp
  then show ?thesis using False assms(3) valid_bounds [OF assms(2)] index_defs [of t] index_defs [of u] index_defs [of "AddSecond t"] by linarith
qed

lemma AddSecond_later:
  assumes "valid_date t"
  shows "second_ix t < second_ix (AddSecond t)"
  using AddSecond_fields(2) [OF assms] minute_jump_later [OF assms] by (cases "c_second t < 59") (simp_all add: second_ix_def)

text \<open>Dates with the same number are the same; equal numbers agree on the coarser fields.\<close>

lemma same_hour:
  assumes "valid_date t" "valid_date u" "hour_ix u = hour_ix t"
  shows "c_hour u = c_hour t" "day_ix u = day_ix t"
proof -
  have "day_ix u = day_ix t \<and> c_hour u = c_hour t" using valid_bounds [OF assms(1)] valid_bounds [OF assms(2)] assms(3) index_defs [of t] index_defs [of u] by (intro conj_step; linarith)
  then show "c_hour u = c_hour t" "day_ix u = day_ix t" by simp_all
qed

lemma same_minute:
  assumes "valid_date t" "valid_date u" "minute_ix u = minute_ix t"
  shows "c_minute u = c_minute t" "hour_ix u = hour_ix t"
proof -
  have "hour_ix u = hour_ix t \<and> c_minute u = c_minute t" using valid_bounds [OF assms(1)] valid_bounds [OF assms(2)] assms(3) index_defs [of t] index_defs [of u] by (intro conj_step; linarith)
  then show "c_minute u = c_minute t" "hour_ix u = hour_ix t" by simp_all
qed

lemma same_second:
  assumes "valid_date t" "valid_date u" "second_ix u = second_ix t"
  shows "c_second u = c_second t" "minute_ix u = minute_ix t"
proof -
  have "minute_ix u = minute_ix t \<and> c_second u = c_second t" using valid_bounds [OF assms(1)] valid_bounds [OF assms(2)] assms(3) index_defs [of t] index_defs [of u] by (intro conj_step; linarith)
  then show "c_second u = c_second t" "minute_ix u = minute_ix t" by simp_all
qed

text \<open>Whether a day matches depends on the date alone.\<close>

lemma dayMatches_same:
  assumes "valid_date t" "valid_date u" "day_ix u = day_ix t"
  shows "dayMatches s u = dayMatches s t"
proof -
  note d = same_day [OF assms]
  note m = same_month [OF assms(1,2) d(2)]
  show ?thesis using d m by (simp add: dayMatches_def Weekday_def day_number_def)
qed

subsection \<open>The loop\<close>

text \<open>
  What holds whenever the loop is at a field. \<open>lo\<close> is the first date considered: no date from it on, before the present one, matches; the coarser fields match; and when a field
  was incremented, the present date is the first one of its unit for the first field that does not match.
\<close>

definition at_start :: "'l spec_schedule \<Rightarrow> civil \<Rightarrow> bool" where
  "at_start s t \<longleftrightarrow>
     (\<not> field_has (ss_Month s) (c_month t) \<longrightarrow> c_day t = 1 \<and> c_hour t = 0 \<and> c_minute t = 0 \<and> c_second t = 0)
     \<and> (\<not> dayMatches s t \<longrightarrow> c_hour t = 0 \<and> c_minute t = 0 \<and> c_second t = 0)
     \<and> (\<not> field_has (ss_Hour s) (c_hour t) \<longrightarrow> c_minute t = 0 \<and> c_second t = 0)
     \<and> (\<not> field_has (ss_Minute s) (c_minute t) \<longrightarrow> c_second t = 0)"

definition pc_rank :: "next_pc \<Rightarrow> nat" where
  "pc_rank pc = (case pc of N_wrap \<Rightarrow> 0 | N_month \<Rightarrow> 1 | N_day \<Rightarrow> 2 | N_hour \<Rightarrow> 3 | N_minute \<Rightarrow> 4 | N_second \<Rightarrow> 5)"

definition next_inv :: "'l spec_schedule \<Rightarrow> int \<Rightarrow> int \<Rightarrow> next_pc \<Rightarrow> bool \<Rightarrow> civil \<Rightarrow> bool" where
  "next_inv s yl lo pc added t \<longleftrightarrow>
     valid_date t \<and> lo \<le> second_ix t \<and> (\<forall>u. valid_date u \<longrightarrow> lo \<le> second_ix u \<longrightarrow> second_ix u < second_ix t \<longrightarrow> \<not> spec_matches s u)
     \<and> (added \<longrightarrow> at_start s t)
     \<and> (if pc = N_wrap then month_ix t \<le> 12 * (yl + 1) else c_year t \<le> yl)
     \<and> (2 \<le> pc_rank pc \<longrightarrow> field_has (ss_Month s) (c_month t)) \<and> (3 \<le> pc_rank pc \<longrightarrow> dayMatches s t)
     \<and> (4 \<le> pc_rank pc \<longrightarrow> field_has (ss_Hour s) (c_hour t)) \<and> (5 \<le> pc_rank pc \<longrightarrow> field_has (ss_Minute s) (c_minute t))"

lemma month_ix_year: "valid_date t \<Longrightarrow> c_year t \<le> y \<longleftrightarrow> month_ix t < 12 * (y + 1)"
  using valid_bounds(1,2) [of t] unfolding month_ix_def by presburger

text \<open>Skipping from a date to a later one between which nothing matches keeps the first part of the invariant.\<close>

lemma skip:
  assumes "next_inv s yl lo pc added t" "valid_date t2" "second_ix t < second_ix t2"
    and "\<And>u. valid_date u \<Longrightarrow> second_ix t \<le> second_ix u \<Longrightarrow> second_ix u < second_ix t2 \<Longrightarrow> \<not> spec_matches s u"
  shows "lo \<le> second_ix t2 \<and> (\<forall>u. valid_date u \<longrightarrow> lo \<le> second_ix u \<longrightarrow> second_ix u < second_ix t2 \<longrightarrow> \<not> spec_matches s u)"
proof -
  have "\<not> spec_matches s u" if "valid_date u" "lo \<le> second_ix u" "second_ix u < second_ix t2" for u
    using that assms(1,4) by (cases "second_ix u < second_ix t") (auto simp: next_inv_def)
  then show ?thesis using assms(1,3) by (auto simp: next_inv_def)
qed

text \<open>What a jump to a later date has to give, for the loop to go on at the label or at the same field.\<close>

definition jump_ok :: "'l spec_schedule \<Rightarrow> int \<Rightarrow> int \<Rightarrow> civil \<Rightarrow> civil \<Rightarrow> bool" where
  "jump_ok s yl lo t t2 \<longleftrightarrow>
     valid_date t2 \<and> second_ix t < second_ix t2 \<and> lo \<le> second_ix t2
     \<and> (\<forall>u. valid_date u \<longrightarrow> lo \<le> second_ix u \<longrightarrow> second_ix u < second_ix t2 \<longrightarrow> \<not> spec_matches s u) \<and> at_start s t2 \<and> month_ix t2 \<le> 12 * (yl + 1)"

lemma jump_wrap: "jump_ok s yl lo t t2 \<Longrightarrow> next_inv s yl lo N_wrap True t2"
  by (simp add: jump_ok_def next_inv_def pc_rank_def)

lemma year_below: "valid_date t \<Longrightarrow> c_year t \<le> yl \<Longrightarrow> month_ix t + 1 \<le> 12 * (yl + 1)"
  using month_ix_year [of t yl] by simp

lemma month_jump_ok:
  assumes inv: "next_inv s yl lo pc added t" and y: "c_year t \<le> yl" and no: "\<not> field_has (ss_Month s) (c_month t)"
  shows "jump_ok s yl lo t (month_jump t)"
proof -
  have v: "valid_date t" using inv by (simp add: next_inv_def)
  have "\<not> spec_matches s u" if u: "valid_date u" "second_ix t \<le> second_ix u" "second_ix u < second_ix (month_jump t)" for u
    using same_month(1) [OF v u(1) month_between [OF v u]] no by (simp add: spec_matches_def)
  from skip [OF inv month_jump_fields(1) [OF v] month_jump_later [OF v] this] show ?thesis
    using month_jump_fields [OF v] month_jump_later [OF v] year_below [OF v y] by (simp add: jump_ok_def at_start_def)
qed

lemma day_jump_start:
  assumes v: "valid_date t" and y: "c_year t \<le> yl" and ok: "field_has (ss_Month s) (c_month t)"
  shows "at_start s (day_jump t) \<and> month_ix (day_jump t) \<le> 12 * (yl + 1)"
proof (cases "c_day t < days_in_month (c_year t) (c_month t)")
  case True
  then have m: "month_ix (day_jump t) = month_ix t" using day_jump_fields(5) [OF v] by simp
  then have "c_month (day_jump t) = c_month t" using same_month(1) [OF v day_jump_fields(1) [OF v]] by simp
  then show ?thesis using m ok day_jump_fields [OF v] year_below [OF v y] by (simp add: at_start_def)
next
  case False
  then show ?thesis using day_jump_fields(5) [OF v] month_jump_fields [OF v] year_below [OF v y] by (simp add: at_start_def)
qed

lemma hour_jump_start:
  assumes v: "valid_date t" and y: "c_year t \<le> yl" and ok: "field_has (ss_Month s) (c_month t)" "dayMatches s t"
  shows "at_start s (hour_jump t) \<and> month_ix (hour_jump t) \<le> 12 * (yl + 1)"
proof (cases "c_hour t < 23")
  case True
  then have d: "day_ix (hour_jump t) = day_ix t" "month_ix (hour_jump t) = month_ix t" using hour_jump_fields(4) [OF v] by simp_all
  have "c_month (hour_jump t) = c_month t" using same_month(1) [OF v hour_jump_fields(1) [OF v] d(2)] .
  moreover have "dayMatches s (hour_jump t)" using dayMatches_same [OF v hour_jump_fields(1) [OF v] d(1), of s] ok(2) by simp
  ultimately show ?thesis using d ok(1) hour_jump_fields(2,3) [OF v] year_below [OF v y] by (simp add: at_start_def)
next
  case False
  then show ?thesis using hour_jump_fields(4) [OF v] day_jump_start [OF v y ok(1)] by simp
qed

lemma minute_jump_start:
  assumes v: "valid_date t" and y: "c_year t \<le> yl" and ok: "field_has (ss_Month s) (c_month t)" "dayMatches s t" "field_has (ss_Hour s) (c_hour t)"
  shows "at_start s (minute_jump t) \<and> month_ix (minute_jump t) \<le> 12 * (yl + 1)"
proof (cases "c_minute t < 59")
  case True
  then have d: "day_ix (minute_jump t) = day_ix t" "month_ix (minute_jump t) = month_ix t" "c_hour (minute_jump t) = c_hour t"
    using minute_jump_fields(3) [OF v] by simp_all
  have "c_month (minute_jump t) = c_month t" using same_month(1) [OF v minute_jump_fields(1) [OF v] d(2)] .
  moreover have "dayMatches s (minute_jump t)" using dayMatches_same [OF v minute_jump_fields(1) [OF v] d(1), of s] ok(2) by simp
  ultimately show ?thesis using d ok(1,3) minute_jump_fields(2) [OF v] year_below [OF v y] by (simp add: at_start_def)
next
  case False
  then show ?thesis using minute_jump_fields(3) [OF v] hour_jump_start [OF v y ok(1,2)] by simp
qed

lemma AddSecond_start:
  assumes v: "valid_date t" and y: "c_year t \<le> yl"
    and ok: "field_has (ss_Month s) (c_month t)" "dayMatches s t" "field_has (ss_Hour s) (c_hour t)" "field_has (ss_Minute s) (c_minute t)"
  shows "at_start s (AddSecond t) \<and> month_ix (AddSecond t) \<le> 12 * (yl + 1)"
proof (cases "c_second t < 59")
  case True
  then have d: "day_ix (AddSecond t) = day_ix t" "month_ix (AddSecond t) = month_ix t" "c_hour (AddSecond t) = c_hour t" "c_minute (AddSecond t) = c_minute t"
    using AddSecond_fields(2) [OF v] by simp_all
  have "c_month (AddSecond t) = c_month t" using same_month(1) [OF v AddSecond_fields(1) [OF v] d(2)] .
  moreover have "dayMatches s (AddSecond t)" using dayMatches_same [OF v AddSecond_fields(1) [OF v] d(1), of s] ok(2) by simp
  ultimately show ?thesis using d ok(1,3,4) year_below [OF v y] by (simp add: at_start_def)
next
  case False
  then show ?thesis using AddSecond_fields(2) [OF v] minute_jump_start [OF v y ok(1-3)] by simp
qed

text \<open>The four other jumps; each skips a unit in which its field does not match.\<close>

lemma day_jump_ok:
  assumes inv: "next_inv s yl lo N_day added t" and no: "\<not> dayMatches s t"
  shows "jump_ok s yl lo t (day_jump t)"
proof -
  have v: "valid_date t" "c_year t \<le> yl" "field_has (ss_Month s) (c_month t)" using inv by (simp_all add: next_inv_def pc_rank_def)
  have "\<not> spec_matches s u" if u: "valid_date u" "second_ix t \<le> second_ix u" "second_ix u < second_ix (day_jump t)" for u
    using dayMatches_same [OF v(1) u(1) day_between(1) [OF v(1) u], of s] no by (simp add: spec_matches_def)
  from skip [OF inv day_jump_fields(1) [OF v(1)] day_jump_later [OF v(1)] this] show ?thesis
    using day_jump_fields(1) [OF v(1)] day_jump_later [OF v(1)] day_jump_start [OF v] by (simp add: jump_ok_def)
qed

lemma hour_jump_ok:
  assumes inv: "next_inv s yl lo N_hour added t" and no: "\<not> field_has (ss_Hour s) (c_hour t)"
  shows "jump_ok s yl lo t (hour_jump t)"
proof -
  have v: "valid_date t" "c_year t \<le> yl" "field_has (ss_Month s) (c_month t)" "dayMatches s t" using inv by (simp_all add: next_inv_def pc_rank_def)
  have "\<not> spec_matches s u" if u: "valid_date u" "second_ix t \<le> second_ix u" "second_ix u < second_ix (hour_jump t)" for u
    using same_hour(1) [OF v(1) u(1) hour_between(1) [OF v(1) u]] no by (simp add: spec_matches_def)
  from skip [OF inv hour_jump_fields(1) [OF v(1)] hour_jump_later [OF v(1)] this] show ?thesis
    using hour_jump_fields(1) [OF v(1)] hour_jump_later [OF v(1)] hour_jump_start [OF v] by (simp add: jump_ok_def)
qed

lemma minute_jump_ok:
  assumes inv: "next_inv s yl lo N_minute added t" and no: "\<not> field_has (ss_Minute s) (c_minute t)"
  shows "jump_ok s yl lo t (minute_jump t)"
proof -
  have v: "valid_date t" "c_year t \<le> yl" "field_has (ss_Month s) (c_month t)" "dayMatches s t" "field_has (ss_Hour s) (c_hour t)"
    using inv by (simp_all add: next_inv_def pc_rank_def)
  have "\<not> spec_matches s u" if u: "valid_date u" "second_ix t \<le> second_ix u" "second_ix u < second_ix (minute_jump t)" for u
    using same_minute(1) [OF v(1) u(1) minute_between(1) [OF v(1) u]] no by (simp add: spec_matches_def)
  from skip [OF inv minute_jump_fields(1) [OF v(1)] minute_jump_later [OF v(1)] this] show ?thesis
    using minute_jump_fields(1) [OF v(1)] minute_jump_later [OF v(1)] minute_jump_start [OF v] by (simp add: jump_ok_def)
qed

lemma second_jump_ok:
  assumes inv: "next_inv s yl lo N_second added t" and no: "\<not> field_has (ss_Second s) (c_second t)"
  shows "jump_ok s yl lo t (AddSecond t)"
proof -
  have v: "valid_date t" "c_year t \<le> yl" "field_has (ss_Month s) (c_month t)" "dayMatches s t" "field_has (ss_Hour s) (c_hour t)"
    "field_has (ss_Minute s) (c_minute t)"
    using inv by (simp_all add: next_inv_def pc_rank_def)
  have "\<not> spec_matches s u" if u: "valid_date u" "second_ix t \<le> second_ix u" "second_ix u < second_ix (AddSecond t)" for u
    using same_second(1) [OF v(1) u(1) second_between [OF v(1) u]] no by (simp add: spec_matches_def)
  from skip [OF inv AddSecond_fields(1) [OF v(1)] AddSecond_later [OF v(1)] this] show ?thesis
    using AddSecond_fields(1) [OF v(1)] AddSecond_later [OF v(1)] AddSecond_start [OF v] by (simp add: jump_ok_def)
qed

text \<open>Where the loop goes on after a jump.\<close>

lemma month_goes_on:
  assumes inv: "next_inv s yl lo N_month added t" and no: "\<not> field_has (ss_Month s) (c_month t)"
  shows "next_inv s yl lo (if c_month (month_jump t) = 1 then N_wrap else N_month) True (month_jump t)"
proof -
  have "c_year t \<le> yl" using inv by (simp add: next_inv_def)
  from month_jump_ok [OF inv this no] have j: "jump_ok s yl lo t (month_jump t)" .
  have "c_year (month_jump t) \<le> yl" if "c_month (month_jump t) \<noteq> 1"
  proof -
    have "valid_date (month_jump t)" "12 * c_year (month_jump t) + (c_month (month_jump t) - 1) \<le> 12 * (yl + 1)" using j by (simp_all add: jump_ok_def month_ix_def)
    then show ?thesis using that valid_bounds(1,2) [of "month_jump t"] by presburger
  qed
  then show ?thesis using jump_wrap [OF j] j by (simp add: next_inv_def jump_ok_def pc_rank_def)
qed

lemma day_goes_on:
  assumes inv: "next_inv s yl lo N_day added t" and no: "\<not> dayMatches s t"
  shows "next_inv s yl lo (if c_day (day_jump t) = 1 then N_wrap else N_day) True (day_jump t)"
proof (cases "c_day (day_jump t) = 1")
  case True
  then show ?thesis using jump_wrap [OF day_jump_ok [OF inv no]] by simp
next
  case False
  have v: "valid_date t" "c_year t \<le> yl" "field_has (ss_Month s) (c_month t)" using inv by (simp_all add: next_inv_def pc_rank_def)
  have "month_ix (day_jump t) = month_ix t" using False day_jump_fields(5) [OF v(1)] month_jump_fields(3) [OF v(1)] by (simp split: if_splits)
  then have "c_month (day_jump t) = c_month t" "c_year (day_jump t) = c_year t" using same_month [OF v(1) day_jump_fields(1) [OF v(1)]] by simp_all
  then show ?thesis using False v day_jump_ok [OF inv no] by (simp add: next_inv_def jump_ok_def pc_rank_def)
qed

lemma hour_goes_on:
  assumes inv: "next_inv s yl lo N_hour added t" and no: "\<not> field_has (ss_Hour s) (c_hour t)"
  shows "next_inv s yl lo (if c_hour (hour_jump t) = 0 then N_wrap else N_hour) True (hour_jump t)"
proof (cases "c_hour (hour_jump t) = 0")
  case True
  then show ?thesis using jump_wrap [OF hour_jump_ok [OF inv no]] by simp
next
  case False
  have v: "valid_date t" "c_year t \<le> yl" "field_has (ss_Month s) (c_month t)" "dayMatches s t" using inv by (simp_all add: next_inv_def pc_rank_def)
  have d: "day_ix (hour_jump t) = day_ix t" "month_ix (hour_jump t) = month_ix t"
    using False hour_jump_fields(4) [OF v(1)] day_jump_fields(2) [OF v(1)] by (simp_all split: if_splits)
  then have "c_month (hour_jump t) = c_month t" "c_year (hour_jump t) = c_year t" using same_month [OF v(1) hour_jump_fields(1) [OF v(1)]] by simp_all
  moreover have "dayMatches s (hour_jump t)" using dayMatches_same [OF v(1) hour_jump_fields(1) [OF v(1)] d(1), of s] v(4) by simp
  ultimately show ?thesis using False v hour_jump_ok [OF inv no] by (simp add: next_inv_def jump_ok_def pc_rank_def)
qed

lemma minute_goes_on:
  assumes inv: "next_inv s yl lo N_minute added t" and no: "\<not> field_has (ss_Minute s) (c_minute t)"
  shows "next_inv s yl lo (if c_minute (minute_jump t) = 0 then N_wrap else N_minute) True (minute_jump t)"
proof (cases "c_minute (minute_jump t) = 0")
  case True
  then show ?thesis using jump_wrap [OF minute_jump_ok [OF inv no]] by simp
next
  case False
  have v: "valid_date t" "c_year t \<le> yl" "field_has (ss_Month s) (c_month t)" "dayMatches s t" "field_has (ss_Hour s) (c_hour t)"
    using inv by (simp_all add: next_inv_def pc_rank_def)
  have d: "day_ix (minute_jump t) = day_ix t" "month_ix (minute_jump t) = month_ix t" "c_hour (minute_jump t) = c_hour t"
    using False minute_jump_fields(3) [OF v(1)] hour_jump_fields(2) [OF v(1)] by (simp_all split: if_splits)
  then have "c_month (minute_jump t) = c_month t" "c_year (minute_jump t) = c_year t" using same_month [OF v(1) minute_jump_fields(1) [OF v(1)]] by simp_all
  moreover have "dayMatches s (minute_jump t)" using dayMatches_same [OF v(1) minute_jump_fields(1) [OF v(1)] d(1), of s] v(4) by simp
  ultimately show ?thesis using False v d(3) minute_jump_ok [OF inv no] by (simp add: next_inv_def jump_ok_def pc_rank_def)
qed

lemma second_goes_on:
  assumes inv: "next_inv s yl lo N_second added t" and no: "\<not> field_has (ss_Second s) (c_second t)"
  shows "next_inv s yl lo (if c_second (AddSecond t) = 0 then N_wrap else N_second) True (AddSecond t)"
proof (cases "c_second (AddSecond t) = 0")
  case True
  then show ?thesis using jump_wrap [OF second_jump_ok [OF inv no]] by simp
next
  case False
  have v: "valid_date t" "c_year t \<le> yl" "field_has (ss_Month s) (c_month t)" "dayMatches s t" "field_has (ss_Hour s) (c_hour t)"
    "field_has (ss_Minute s) (c_minute t)"
    using inv by (simp_all add: next_inv_def pc_rank_def)
  have d: "day_ix (AddSecond t) = day_ix t" "month_ix (AddSecond t) = month_ix t" "c_hour (AddSecond t) = c_hour t" "c_minute (AddSecond t) = c_minute t"
    using False AddSecond_fields(2) [OF v(1)] minute_jump_fields(2) [OF v(1)] by (simp_all split: if_splits)
  then have "c_month (AddSecond t) = c_month t" "c_year (AddSecond t) = c_year t" using same_month [OF v(1) AddSecond_fields(1) [OF v(1)]] by simp_all
  moreover have "dayMatches s (AddSecond t)" using dayMatches_same [OF v(1) AddSecond_fields(1) [OF v(1)] d(1), of s] v(4) by simp
  ultimately show ?thesis using False v d(3,4) second_jump_ok [OF inv no] by (simp add: next_inv_def jump_ok_def pc_rank_def)
qed

text \<open>The meaning of a result.\<close>

definition next_result :: "'l spec_schedule \<Rightarrow> int \<Rightarrow> int \<Rightarrow> civil option \<Rightarrow> bool" where
  "next_result s yl lo r \<longleftrightarrow>
     (case r of
        Some t \<Rightarrow> valid_date t \<and> spec_matches s t \<and> lo \<le> second_ix t
          \<and> (\<forall>u. valid_date u \<longrightarrow> lo \<le> second_ix u \<longrightarrow> second_ix u < second_ix t \<longrightarrow> \<not> spec_matches s u)
      | None \<Rightarrow> \<forall>u. valid_date u \<longrightarrow> lo \<le> second_ix u \<longrightarrow> c_year u \<le> yl \<longrightarrow> \<not> spec_matches s u)"

definition next_measure :: "int \<Rightarrow> next_pc \<Rightarrow> civil \<Rightarrow> nat" where
  "next_measure yl pc t = 6 * nat (33177600 * yl + 35942400 - second_ix t) + (5 - pc_rank pc)"

lemma later_measure:
  assumes "valid_date t" "month_ix t \<le> 12 * (yl + 1)" "second_ix t < second_ix t2"
  shows "next_measure yl pc2 t2 < next_measure yl pc t"
proof -
  let ?B = "33177600 * yl + 35942400"
  have "month_ix t \<le> 12 * yl + 12" using assms(2) by simp
  then have "second_ix t < ?B" using valid_bounds [OF assms(1)] index_defs [of t] by linarith
  then have "nat (?B - second_ix t2) < nat (?B - second_ix t)" using assms(3) by simp
  then show ?thesis unfolding next_measure_def by linarith
qed

lemma rank_measure: "pc_rank pc < pc_rank pc2 \<Longrightarrow> next_measure yl pc2 t < next_measure yl pc t"
  by (simp add: next_measure_def pc_rank_def split: next_pc.splits)

text \<open>When a field was incremented the date is at the start of the unit already, so truncating it again changes nothing.\<close>

lemma no_truncation:
  assumes "next_inv s yl lo pc added t"
  shows "\<not> field_has (ss_Month s) (c_month t) \<Longrightarrow> AddMonth (if added then t else t \<lparr> c_day := 1, c_hour := 0, c_minute := 0, c_second := 0 \<rparr>) = month_jump t"
    "\<not> dayMatches s t \<Longrightarrow> AddDay (if added then t else t \<lparr> c_hour := 0, c_minute := 0, c_second := 0 \<rparr>) = day_jump t"
    "\<not> field_has (ss_Hour s) (c_hour t) \<Longrightarrow> AddHour (if added then t else t \<lparr> c_minute := 0, c_second := 0 \<rparr>) = hour_jump t"
    "\<not> field_has (ss_Minute s) (c_minute t) \<Longrightarrow> AddMinute (if added then t else t \<lparr> c_second := 0 \<rparr>) = minute_jump t"
proof -
  have at: "added \<Longrightarrow> at_start s t" using assms by (simp add: next_inv_def)
  show "\<not> field_has (ss_Month s) (c_month t) \<Longrightarrow> AddMonth (if added then t else t \<lparr> c_day := 1, c_hour := 0, c_minute := 0, c_second := 0 \<rparr>) = month_jump t"
    using at by (cases added; cases t) (simp_all add: month_jump_def at_start_def)
  show "\<not> dayMatches s t \<Longrightarrow> AddDay (if added then t else t \<lparr> c_hour := 0, c_minute := 0, c_second := 0 \<rparr>) = day_jump t"
    using at by (cases added; cases t) (simp_all add: day_jump_def at_start_def)
  show "\<not> field_has (ss_Hour s) (c_hour t) \<Longrightarrow> AddHour (if added then t else t \<lparr> c_minute := 0, c_second := 0 \<rparr>) = hour_jump t"
    using at by (cases added; cases t) (simp_all add: hour_jump_def at_start_def)
  show "\<not> field_has (ss_Minute s) (c_minute t) \<Longrightarrow> AddMinute (if added then t else t \<lparr> c_second := 0 \<rparr>) = minute_jump t"
    using at by (cases added; cases t) (simp_all add: minute_jump_def at_start_def)
qed

text \<open>One iteration: the loop goes on with the invariant and a smaller measure, or has its result.\<close>

definition next_step :: "'l spec_schedule \<Rightarrow> int \<Rightarrow> next_pc \<Rightarrow> bool \<Rightarrow> civil \<Rightarrow> (civil option) + (next_pc \<times> bool \<times> civil)" where
  "next_step s yl pc added t =
     (case pc of
        N_wrap \<Rightarrow> if yl < c_year t then Inl None else Inr (N_month, added, t)
      | N_month \<Rightarrow> if field_has (ss_Month s) (c_month t) then Inr (N_day, added, t) else Inr (if c_month (month_jump t) = 1 then N_wrap else N_month, True, month_jump t)
      | N_day \<Rightarrow> if dayMatches s t then Inr (N_hour, added, t) else Inr (if c_day (day_jump t) = 1 then N_wrap else N_day, True, day_jump t)
      | N_hour \<Rightarrow> if field_has (ss_Hour s) (c_hour t) then Inr (N_minute, added, t) else Inr (if c_hour (hour_jump t) = 0 then N_wrap else N_hour, True, hour_jump t)
      | N_minute \<Rightarrow> if field_has (ss_Minute s) (c_minute t) then Inr (N_second, added, t) else Inr (if c_minute (minute_jump t) = 0 then N_wrap else N_minute, True, minute_jump t)
      | N_second \<Rightarrow> if field_has (ss_Second s) (c_second t) then Inl (Some t) else Inr (if c_second (AddSecond t) = 0 then N_wrap else N_second, True, AddSecond t))"

lemma loop_is_steps:
  assumes "next_inv s yl lo pc added t"
  shows "next_loop s yl pc added t = (case next_step s yl pc added t of Inl r \<Rightarrow> Some r | Inr (pc2, added2, t2) \<Rightarrow> next_loop s yl pc2 added2 t2)"
proof (cases pc)
  have "midnight_fix (day_jump t) = day_jump t" using assms day_jump_fields(2) [of t] by (simp add: midnight_fix_def next_inv_def)
  moreover case N_day
  ultimately show ?thesis using no_truncation(2) [OF assms] by (subst next_loop.simps) (simp add: next_step_def Let_def)
next
  case N_wrap
  then show ?thesis by (subst next_loop.simps) (simp add: next_step_def)
next
  case N_month
  then show ?thesis using no_truncation(1) [OF assms] by (subst next_loop.simps) (simp add: next_step_def Let_def)
next
  case N_hour
  then show ?thesis using no_truncation(3) [OF assms] by (subst next_loop.simps) (simp add: next_step_def Let_def)
next
  case N_minute
  then show ?thesis using no_truncation(4) [OF assms] by (subst next_loop.simps) (simp add: next_step_def Let_def)
next
  case N_second
  then show ?thesis by (subst next_loop.simps) (simp add: next_step_def Let_def)
qed

lemma inv_ranked: "next_inv s yl lo pc added t \<Longrightarrow> pc \<noteq> N_wrap \<Longrightarrow> c_year t \<le> yl"
  by (simp add: next_inv_def)

lemma step_result:
  assumes inv: "next_inv s yl lo pc added t" and step: "next_step s yl pc added t = Inl r"
  shows "next_result s yl lo r"
proof (cases pc)
  case N_wrap
  then have r: "r = None" and y: "yl < c_year t" using step by (simp_all add: next_step_def split: if_splits)
  have v: "valid_date t" using inv by (simp add: next_inv_def)
  have "second_ix u < second_ix t" if u: "valid_date u" "c_year u \<le> yl" for u
  proof -
    have "month_ix u < 12 * (yl + 1)" "12 * (yl + 1) \<le> month_ix t" using month_ix_year [OF u(1)] month_ix_year [OF v] u(2) y by (simp_all add: not_le [symmetric])
    then show ?thesis using valid_bounds [OF u(1)] valid_bounds [OF v] index_defs [of t] index_defs [of u] by linarith
  qed
  then show ?thesis using inv r by (simp add: next_result_def next_inv_def)
next
  case N_second
  then show ?thesis using inv step by (auto simp: next_step_def next_result_def next_inv_def pc_rank_def spec_matches_def split: if_splits)
qed (use step in \<open>simp_all add: next_step_def split: if_splits\<close>)

lemma step_goes_on:
  assumes inv: "next_inv s yl lo pc added t" and step: "next_step s yl pc added t = Inr (pc2, added2, t2)"
  shows "next_inv s yl lo pc2 added2 t2 \<and> next_measure yl pc2 t2 < next_measure yl pc t"
proof -
  have v: "valid_date t" using inv by (simp add: next_inv_def)
  have m: "month_ix t \<le> 12 * (yl + 1)" using inv year_below [OF v, of yl] by (auto simp: next_inv_def split: if_splits)
  note later = later_measure [OF v m]
  show ?thesis
  proof (cases pc)
    case N_wrap
    then have e: "pc2 = N_month" "added2 = added" "t2 = t" "c_year t \<le> yl" using step by (simp_all add: next_step_def split: if_splits)
    then show ?thesis using inv N_wrap rank_measure [of N_wrap N_month] by (simp add: next_inv_def pc_rank_def)
  next
    case N_month
    show ?thesis
    proof (cases "field_has (ss_Month s) (c_month t)")
      case True
      then show ?thesis using inv step N_month rank_measure [of N_month N_day] by (auto simp: next_step_def next_inv_def pc_rank_def)
    next
      case False
      then show ?thesis using month_goes_on [OF inv [unfolded N_month] False] step N_month later [OF month_jump_later [OF v]] by (auto simp: next_step_def)
    qed
  next
    case N_day
    show ?thesis
    proof (cases "dayMatches s t")
      case True
      then show ?thesis using inv step N_day rank_measure [of N_day N_hour] by (auto simp: next_step_def next_inv_def pc_rank_def)
    next
      case False
      then show ?thesis using day_goes_on [OF inv [unfolded N_day] False] step N_day later [OF day_jump_later [OF v]] by (auto simp: next_step_def)
    qed
  next
    case N_hour
    show ?thesis
    proof (cases "field_has (ss_Hour s) (c_hour t)")
      case True
      then show ?thesis using inv step N_hour rank_measure [of N_hour N_minute] by (auto simp: next_step_def next_inv_def pc_rank_def)
    next
      case False
      then show ?thesis using hour_goes_on [OF inv [unfolded N_hour] False] step N_hour later [OF hour_jump_later [OF v]] by (auto simp: next_step_def)
    qed
  next
    case N_minute
    show ?thesis
    proof (cases "field_has (ss_Minute s) (c_minute t)")
      case True
      then show ?thesis using inv step N_minute rank_measure [of N_minute N_second] by (auto simp: next_step_def next_inv_def pc_rank_def)
    next
      case False
      then show ?thesis using minute_goes_on [OF inv [unfolded N_minute] False] step N_minute later [OF minute_jump_later [OF v]] by (auto simp: next_step_def)
    qed
  next
    case N_second
    then have no: "\<not> field_has (ss_Second s) (c_second t)" using step by (simp add: next_step_def split: if_splits)
    show ?thesis using second_goes_on [OF inv [unfolded N_second] no] step N_second no later [OF AddSecond_later [OF v]] by (auto simp: next_step_def)
  qed
qed

lemma next_loop_returns: "next_inv s yl lo pc added t \<Longrightarrow> \<exists>r. next_loop s yl pc added t = Some r \<and> next_result s yl lo r"
proof (induction "next_measure yl pc t" arbitrary: pc added t rule: less_induct)
  case less
  show ?case
  proof (cases "next_step s yl pc added t")
    case (Inl r)
    then show ?thesis using loop_is_steps [OF less.prems] step_result [OF less.prems] by simp
  next
    case (Inr p)
    obtain pc2 added2 t2 where p: "p = (pc2, added2, t2)" by (cases p)
    note g = step_goes_on [OF less.prems Inr [unfolded p]]
    show ?thesis using less.hyps [of pc2 t2 added2] g loop_is_steps [OF less.prems] Inr p by simp
  qed
qed

lemma next_loop_first:
  assumes "valid_date t"
  shows "\<exists>r. next_loop s (c_year (AddSecond t) + 5) N_wrap False (AddSecond t) = Some r
    \<and> (case r of
         Some t1 \<Rightarrow> valid_date t1 \<and> spec_matches s t1 \<and> second_ix t < second_ix t1
           \<and> (\<forall>u. valid_date u \<longrightarrow> second_ix t < second_ix u \<longrightarrow> second_ix u < second_ix t1 \<longrightarrow> \<not> spec_matches s u)
       | None \<Rightarrow> \<forall>u. valid_date u \<longrightarrow> second_ix t < second_ix u \<longrightarrow> c_year u \<le> c_year (AddSecond t) + 5 \<longrightarrow> \<not> spec_matches s u)"
proof -
  let ?t = "AddSecond t" and ?yl = "c_year (AddSecond t) + 5"
  have v: "valid_date ?t" by (rule AddSecond_fields(1) [OF assms])
  have gap: "second_ix ?t \<le> second_ix u \<longleftrightarrow> second_ix t < second_ix u" if "valid_date u" for u
    using second_between [OF assms that] AddSecond_later [OF assms] by linarith
  have "month_ix ?t \<le> 12 * (?yl + 1)" using year_below [OF v, of ?yl] by simp
  then have "next_inv s ?yl (second_ix ?t) N_wrap False ?t" using v by (simp add: next_inv_def pc_rank_def)
  then obtain r where r: "next_loop s ?yl N_wrap False ?t = Some r" "next_result s ?yl (second_ix ?t) r" using next_loop_returns by blast
  then show ?thesis using gap by (intro exI [of _ r]) (auto simp: next_result_def split: option.splits)
qed

subsection \<open>Other locations\<close>

text \<open>Going a second back undoes going a second on, and both keep the order; so does a shift.\<close>

lemma prev_next_month:
  assumes "1 \<le> m" "m \<le> 12"
  shows "next_month (fst (prev_month y m)) (snd (prev_month y m)) = (y, m)" "prev_month (fst (next_month y m)) (snd (next_month y m)) = (y, m)"
  using assms by (auto simp: prev_month_def next_month_def)

lemma SubDay_AddDay: "valid_date t \<Longrightarrow> SubDay (AddDay t) = t"
  using prev_next_month(2) [of "c_month t" "c_year t"] by (cases t) (auto simp: SubDay_def AddDay_def valid_date_def split: prod.splits)

lemma AddDay_SubDay: "valid_date t \<Longrightarrow> AddDay (SubDay t) = t"
  using prev_next_month(1) [of "c_month t" "c_year t"] by (cases t) (auto simp: SubDay_def AddDay_def valid_date_def split: prod.splits)

lemma SubDay_valid: "valid_date t \<Longrightarrow> valid_date (SubDay t)"
  using days_bound [of "c_year t" "c_month t - 1"] days_bound [of "c_year t - 1" 12]
  by (auto simp: SubDay_def valid_date_def prev_month_def)

lemma day_time [simp]:
  "SubDay (t \<lparr> c_hour := h \<rparr>) = SubDay t \<lparr> c_hour := h \<rparr>" "c_hour (SubDay t) = c_hour t" "c_minute (SubDay t) = c_minute t" "c_second (SubDay t) = c_second t"
  "SubDay (t \<lparr> c_minute := h \<rparr>) = SubDay t \<lparr> c_minute := h \<rparr>" "SubDay (t \<lparr> c_second := h \<rparr>) = SubDay t \<lparr> c_second := h \<rparr>"
  "AddDay (t \<lparr> c_hour := h \<rparr>) = AddDay t \<lparr> c_hour := h \<rparr>" "c_hour (AddDay t) = c_hour t" "c_minute (AddDay t) = c_minute t" "c_second (AddDay t) = c_second t"
  "AddDay (t \<lparr> c_minute := h \<rparr>) = AddDay t \<lparr> c_minute := h \<rparr>" "AddDay (t \<lparr> c_second := h \<rparr>) = AddDay t \<lparr> c_second := h \<rparr>"
  by (auto simp: SubDay_def AddDay_def split: prod.splits)

lemma SubSecond_valid: "valid_date t \<Longrightarrow> valid_date (SubSecond t)"
  using SubDay_valid [of t] by (auto simp: SubSecond_def SubMinute_def SubHour_def valid_date_def)

lemma AddSecond_SubSecond: "valid_date t \<Longrightarrow> AddSecond (SubSecond t) = t"
  using AddDay_SubDay [of t]
  by (auto simp: SubSecond_def SubMinute_def SubHour_def AddSecond_def AddMinute_def AddHour_def valid_date_def intro!: civil.equality)

lemma SubSecond_AddSecond: "valid_date t \<Longrightarrow> SubSecond (AddSecond t) = t"
  using SubDay_AddDay [of t]
  by (auto simp: SubSecond_def SubMinute_def SubHour_def AddSecond_def AddMinute_def AddHour_def valid_date_def intro!: civil.equality)

lemma AddSecond_less:
  assumes "valid_date t" "valid_date u" "second_ix t < second_ix u"
  shows "second_ix (AddSecond t) < second_ix (AddSecond u)"
  using second_between [OF assms(1,2)] AddSecond_later [OF assms(2)] assms(3) by linarith

lemma second_ix_inj:
  assumes "valid_date t" "valid_date u" "second_ix u = second_ix t"
  shows "u = t"
proof -
  note s = same_second [OF assms]
  note m = same_minute [OF assms(1,2) s(2)]
  note h = same_hour [OF assms(1,2) m(2)]
  note d = same_day [OF assms(1,2) h(2)]
  show ?thesis using s m h d same_month [OF assms(1,2) d(2)] by (intro civil.equality) simp_all
qed

definition order_map :: "(civil \<Rightarrow> civil) \<Rightarrow> bool" where
  "order_map f \<longleftrightarrow> (\<forall>t. valid_date t \<longrightarrow> valid_date (f t)) \<and> (\<forall>t u. valid_date t \<longrightarrow> valid_date u \<longrightarrow> (second_ix (f t) < second_ix (f u) \<longleftrightarrow> second_ix t < second_ix u))"

lemma order_map_iter: "order_map f \<Longrightarrow> order_map (repeat_step f n)"
  by (induction n) (simp_all add: order_map_def)

lemma order_map_Add: "order_map AddSecond"
proof -
  have "second_ix t < second_ix u" if "valid_date t" "valid_date u" "second_ix (AddSecond t) < second_ix (AddSecond u)" for t u
    using AddSecond_less [OF that(2,1)] second_ix_inj [OF that(1,2)] that(3) by (metis less_irrefl less_trans linorder_neqE)
  then show ?thesis unfolding order_map_def using AddSecond_less AddSecond_fields(1) by blast
qed

lemma order_map_Sub: "order_map SubSecond"
proof -
  have "second_ix (SubSecond t) < second_ix (SubSecond u) \<longleftrightarrow> second_ix t < second_ix u" if "valid_date t" "valid_date u" for t u
    using order_map_Add SubSecond_valid [OF that(1)] SubSecond_valid [OF that(2)] AddSecond_SubSecond [OF that(1)] AddSecond_SubSecond [OF that(2)]
    unfolding order_map_def by metis
  then show ?thesis using SubSecond_valid by (simp add: order_map_def)
qed

lemma order_map_shift: "order_map (shift_seconds d)"
proof -
  have "shift_seconds d = (if 0 \<le> d then repeat_step AddSecond (nat d) else repeat_step SubSecond (nat (- d)))" by (simp add: shift_seconds_def fun_eq_iff)
  then show ?thesis using order_map_iter [OF order_map_Add] order_map_iter [OF order_map_Sub] by simp
qed

lemma shift_valid: "valid_date t \<Longrightarrow> valid_date (shift_seconds d t)"
  using order_map_shift by (auto simp: order_map_def)

lemma shift_less: "valid_date t \<Longrightarrow> valid_date u \<Longrightarrow> second_ix (shift_seconds d t) < second_ix (shift_seconds d u) \<longleftrightarrow> second_ix t < second_ix u"
  using order_map_shift by (auto simp: order_map_def)

lemma repeat_step_end: "repeat_step f (Suc n) t = f (repeat_step f n t)"
  by (induction n arbitrary: t) simp_all

lemma iter_back:
  assumes "\<And>t. valid_date t \<Longrightarrow> f (g t) = t" "\<And>t. valid_date t \<Longrightarrow> valid_date (g t)"
  shows "valid_date t \<Longrightarrow> repeat_step f n (repeat_step g n t) = t"
proof (induction n arbitrary: t)
  case (Suc n)
  then show ?case using assms repeat_step_end [of f n] by simp
qed simp

lemma shift_back: "valid_date t \<Longrightarrow> shift_seconds d (shift_seconds (- d) t) = t"
  using iter_back [of AddSecond SubSecond t "nat d"] iter_back [of SubSecond AddSecond t "nat (- d)"]
    AddSecond_SubSecond SubSecond_AddSecond SubSecond_valid AddSecond_fields(1) by (cases d "0 :: int" rule: linorder_cases) (auto simp: shift_seconds_def)

section \<open>Properties\<close>


text \<open>Every 29 February at midnight of a location that is 90 seconds ahead.\<close>

definition leap_days :: "nat spec_schedule" where
  "leap_days = \<lparr> ss_Second = 1, ss_Minute = 1, ss_Hour = 1, ss_Dom = push_bit 29 1, ss_Month = push_bit 2 1, ss_Dow = 0, ss_Location = 1 \<rparr>"

definition demo_offset :: "nat \<Rightarrow> int" where
  "demo_offset l = 90 * int l"


end
