(* ===== verification/Spec2Isabelle.thy ===== *)
theory Spec2Isabelle
  imports Mailbox Auto_Scaler Pow2 Timing_Wheel Pool_Manager Net_Conn Rpc_Calls Msg_Bus Module_Tree Authz Service_Life Service_Registry Idle_Control Deque Ring_Queues Cron_Next
begin

text \<open>
  Verification of the core of the Ember engine, an actor engine for game servers written in Go (\<open>src/engine/pkg\<close>).

  \<^bold>\<open>The program.\<close> A node runs services. A service owns a mailbox; everything that happens to it (remote calls, events,
  timers, callbacks) is a job posted to the mailbox. A mailbox has a pool of workers, a ring that routes a job to a worker
  by its dispatch key, queues of several kinds, a middleware chain, and policies for suspension and stop. A worker runs its
  jobs one by one, or reads in parallel and writes alone. Services call each other through a message bus: the bus registers the call with
  a monitor, hands the request to a local or remote receiver, and waits for the answer, the timeout of a timing wheel, or a
  cancellation. The receiver finds the method by name, calls it by reflection and sends the result back. Remote peers
  are reached through pools of connections with circuit breakers, and the network layer frames messages on byte streams.

  \<^bold>\<open>The theories\<close>, in the order in which they build on each other.

  \<^item> \<open>Ember_Prelude\<close>: Go's integers as words or bounded integers, maps as association lists, panics as values,
    the collections of rules, facts on masks, circular buffers and lists. \<open>Float64\<close>: rounded binary64 arithmetic on rationals.
    \<open>Pow2\<close>: \<open>utils/util/pow2.go\<close>.

  \<^item> Queues. \<open>Fifo_Queue\<close> is the interface of a queue as a locale with its laws and what a client gets from them.
    \<open>Bounded_MPSC\<close> (\<open>utils/boundedmpsc/queue.go\<close>) is a ring with 64-bit cursors; \<open>MPSC\<close> (\<open>utils/mpsc/deque.go\<close>) is the lock-free
    linked queue, with nodes in a heap and \<open>Push\<close> and \<open>Pop\<close> split at their atomic accesses. Both interpret the locale; the second is
    also shown to be first-in first-out under every interleaving of producers and the consumer. \<open>Mailbox_Queue\<close> is the choice between the two.
    \<open>Ring_Queues\<close> (\<open>utils/queue/squeue.go\<close>, \<open>utils/mpmc/mpmc.go\<close>) are two more providers of the locale; \<open>Deque\<close> (\<open>utils/queue/deque.go\<close>) is the growing
    double-ended queue, refined to lists.

  \<^item> Mailbox. \<open>Mailbox_Conf\<close> (\<open>config/define.go\<close>, \<open>config/mailbox_defaults.go\<close>): repair and normalisation of the configuration.
    \<open>Priority_Scheduler\<close>, \<open>Queue_Manager\<close> (dual and priority managers behind one locale), \<open>Dispatch_Ring\<close> (jump hash), \<open>Auto_Scaler\<close> (strategies and resize
    decisions), \<open>Middleware_Chain\<close>, \<open>Job_Exec\<close> (execution and disposal of one job), \<open>Worker\<close> and \<open>Worker_RW\<close> (the goroutines of
    a worker as interleaved steps), \<open>Worker_Pool\<close> (dispatch, resize, stop) and \<open>Mailbox\<close> (posting, suspension, start and stop) model the files of
    \<open>actor/mailbox\<close> of the same names. \<open>Idle_Control\<close> (\<open>utils/idle\<close>): the delays of an idle worker, its wait, and the callers that wake it.

  \<^item> Time. \<open>Delay_Queue\<close> (\<open>utils/timingwheel/delayqueue\<close>) and \<open>Timing_Wheel\<close> (\<open>utils/timingwheel\<close>): the heap with positions, the sleeping poller and
    its wake-ups, the levels and buckets of the wheel. \<open>Cron\<close> (\<open>cron.go\<close>, \<open>constantdelay.go\<close>) parses cron expressions, and \<open>Cron_Next\<close> (\<open>spec.go\<close>) finds the next
    date of a schedule, shown to be the first that matches.

  \<^item> Remote calls. \<open>Rpc_Monitor\<close> defines the call states, their pool, the monitor and the steps of callers, timers, responses and cancellations
    (\<open>monitor\<close>, \<open>rpc/message/msgbus/bus.go\<close>, \<open>rpc/client/sender_local.go\<close>, \<open>rpc/remote/handler\<close>); \<open>Rpc_Owners\<close> is its ownership invariant; \<open>Rpc_Calls\<close> is what
    callers get. \<open>Rpc_Handler\<close> (\<open>core/rpc\<close>) is the answering service with its method table and the call by reflection; \<open>Msg_Bus\<close> is the
    bus around all of it, on one receiver and on several.

  \<^item> Connections. \<open>Circuit_Breaker\<close>, \<open>Conn_Pool\<close> and \<open>Pool_Manager\<close> (\<open>rpc/client/pool\<close>); \<open>Bytes_Pool\<close>, \<open>Msg_Parser\<close> and \<open>Net_Conn\<close> (\<open>utils/bytespool\<close>,
    \<open>utils/network\<close>): buffers, frames, and the writer goroutine of a connection.

  \<^item> Events. \<open>Event_Throttle\<close> (\<open>event/category.go\<close>, \<open>event/throttle.go\<close>): classifications, token buckets and sliding windows.
    \<open>Event_Bus\<close> (\<open>event/eventBus.go\<close> and the \<open>event/bus_*.go\<close>): subscriptions in three scopes, subjects, publishing at once or in batches.
    \<open>Event_Processor\<close> (\<open>event/processor.go\<close>, \<open>event/handler.go\<close>): the callbacks of a service, with the number of those for which it is subscribed; the three
    scopes interpret one locale, which relates the tables of a service to those of the bus.

  \<^item> Services. \<open>Module_Tree\<close> (\<open>core/module.go\<close>): the tree of modules of a service, their methods and event handlers. \<open>Service_Life\<close>
    (\<open>core/service.go\<close>, \<open>core/service_init.go\<close>, \<open>core/handler_job.go\<close>, \<open>core/sysctl_registry.go\<close>): \<open>Init\<close>, the interleavings of \<open>Start\<close> and \<open>Stop\<close>, the dispatch of
    jobs. \<open>Service_Registry\<close> (\<open>actor/pid.go\<close>, \<open>cluster/endpoints\<close>): the services a node knows, their indexes, temporary dispatchers, every selection, and the
    endpoint manager; selection through an index finds what a scan of all services finds. \<open>Authz\<close> (\<open>authz\<close>): roles, bindings, policy snapshots and their watcher.

  \<^bold>\<open>How the code is modelled.\<close> A struct is a record, an operation a function on it that returns the result and the new state, a panic or an
  error a value of a sum or option type. Code under a lock is one step; goroutines that meet in shared state are step functions or
  step relations whose grain is the atomic access or the critical section of the source, and a property of concurrent code holds for all
  runs of these steps. Where the code reuses objects (call states, nodes, buffers, connections) they are indices into a heap, so
  that a use after release is visible. Integers keep their width where they can wrap around (cursors, counters of workers, sizes, lengths of
  frames, timer ticks) and are unbounded where the comment at the definition says why they do not.

  \<^bold>\<open>What is shown.\<close> Nothing is lost: jobs (\<open>Worker_RW\<close>, \<open>Queue_Manager\<close>, \<open>Worker_Pool\<close>, \<open>Mailbox\<close>), timers (\<open>Timing_Wheel\<close>,
  \<open>Delay_Queue\<close>), buffers and frames (\<open>Msg_Parser\<close>, \<open>Net_Conn\<close>), connections (\<open>Conn_Pool\<close>), answers (\<open>Rpc_Calls\<close>). Exclusion and order:
  readers and writers of a worker, first-in first-out queues, routing by key. An event reaches exactly the services with a callback for it
  (\<open>Event_Processor\<close>), limiters keep their limits (\<open>Event_Throttle\<close>), and an authorizer decides as its policy says (\<open>Authz\<close>). Every path of posting, executing and answering
  disposes of what it owns exactly once. Loops end: the jump hash, the insertion into the wheel, a waiting call. Types: results
  assigned through pointers keep the variables well typed.

  Some properties state what the code does where it does not do what it means to; the manifest lists them as findings. Examples
  are errors of methods that are dropped (\<open>Msg_Bus\<close>), calls that are never woken (\<open>Rpc_Calls\<close>), a wheel that spins after a change of the
  clock (\<open>Timing_Wheel\<close>), pools that lock themselves (\<open>Conn_Pool\<close>), batched events that stay on their node (\<open>Event_Bus\<close>), a stopped service that
  becomes ready again (\<open>Service_Life\<close>), a registered service that no selection finds (\<open>Service_Registry\<close>), a queue of capacity one that overwrites its
  value (\<open>Ring_Queues\<close>).

  \<^bold>\<open>Fuel and bounds.\<close> Loops that are not structural have a termination proof or are \<open>partial_function (option)\<close>, and the properties prove that
  they return. The shift loop of \<open>Pow2\<close> is bounded by the width of the word, the jump hash by its strictly growing
  bucket; the wheel's insertion returns exactly when the number of slots is at least two, which is proved and not assumed. The
  release of a module runs on fuel; a tree has its identifiers in growing order from the root, so fuel above the difference between the last
  identifier and the one released is enough.

  \<^bold>\<open>Not modelled.\<close> Third-party code (sentinel, zap, etcd, nats, grpc, rpcx, kcp, websocket, gin, database drivers) and the code that only wraps it;
  the start-up of a node (flags, files, signals); generated protobuf code; logging, tracing and metrics export; cluster discovery and
  leadership, which are calls of etcd; daylight saving time; the concurrent runs of the \<open>mpmc\<close> queue, which nothing in the engine uses; examples and tools. The manifest lists each part with its reason.
\<close>

end
